(* ===== verification/FA_Prelude.thy ===== *)
theory FA_Prelude
  imports Main "HOL-Library.Word" "HOL-Library.Monad_Syntax"
begin

text \<open>
  Shared ground of the FastAlloc development.

  \<^item> Machine arithmetic: a \<^verbatim>\<open>std::size_t\<close> is a \<^typ>\<open>nat\<close>; the wrap-around of every
    operation that can overflow is written out (\<open>add64\<close>, \<open>sub64\<close>, \<open>mul64\<close>, and the 32-bit
    versions for \<^verbatim>\<open>uint32_t\<close> counters). Bit masks go through 64-bit words (\<open>align_up\<close>).
  \<^item> Memory: the process's memory is a map from the address of an aligned 8-byte cell to the
    64-bit value it holds. All allocator metadata (slab headers, block headers, free-list links,
    large headers, alignment stashes) consists of whole 8-byte cells or 32-bit halves of one, so
    overlays of different structs on the same bytes are represented exactly. The null pointer
    is address 0. Byte access for user data is derived (\<open>byte_at\<close>, \<open>set_byte\<close>).
\<close>

unbundle bit_operations_syntax

type_synonym addr = nat
type_synonym mem = "nat \<Rightarrow> nat"

named_theorems arith64 \<open>wrap-around operations on values that do not overflow\<close>
named_theorems bitfacts \<open>bit-level expressions of the source as arithmetic\<close>

section \<open>Machine arithmetic\<close>

definition add64 :: "nat \<Rightarrow> nat \<Rightarrow> nat" where
  "add64 a b = (a + b) mod 2 ^ 64"

definition sub64 :: "nat \<Rightarrow> nat \<Rightarrow> nat" where
  "sub64 a b = (a + (2 ^ 64 - b mod 2 ^ 64)) mod 2 ^ 64"

definition mul64 :: "nat \<Rightarrow> nat \<Rightarrow> nat" where
  "mul64 a b = (a * b) mod 2 ^ 64"

definition add32 :: "nat \<Rightarrow> nat \<Rightarrow> nat" where
  "add32 a b = (a + b) mod 2 ^ 32"

definition sub32 :: "nat \<Rightarrow> nat \<Rightarrow> nat" where
  "sub32 a b = (a + (2 ^ 32 - b mod 2 ^ 32)) mod 2 ^ 32"

text \<open>\<open>(n + a - 1) & ~(a - 1)\<close> on \<^verbatim>\<open>size_t\<close>, as the source writes every round-up.\<close>

definition align_up :: "nat \<Rightarrow> nat \<Rightarrow> nat" where
  "align_up n a =
     unat ((word_of_nat n + word_of_nat a - 1) AND NOT (word_of_nat a - 1) :: 64 word)"

lemma add64_exact [arith64]: "a + b < 2 ^ 64 \<Longrightarrow> add64 a b = a + b"
  by (simp add: add64_def)

lemma sub64_exact [arith64]: "b \<le> a \<Longrightarrow> a < 2 ^ 64 \<Longrightarrow> sub64 a b = a - b"
proof -
  assume "b \<le> a" and "a < 2 ^ 64"
  then have "a + (2 ^ 64 - b mod 2 ^ 64) = (a - b) + 2 ^ 64"
    by simp
  then show ?thesis
    using \<open>a < 2 ^ 64\<close> unfolding sub64_def by (simp only: mod_add_self2) simp
qed

lemma mul64_exact [arith64]: "a * b < 2 ^ 64 \<Longrightarrow> mul64 a b = a * b"
  by (simp add: mul64_def)

lemma add32_exact [arith64]: "a + b < 2 ^ 32 \<Longrightarrow> add32 a b = a + b"
  by (simp add: add32_def)

lemma sub32_exact [arith64]: "b \<le> a \<Longrightarrow> a < 2 ^ 32 \<Longrightarrow> sub32 a b = a - b"
proof -
  assume "b \<le> a" and "a < 2 ^ 32"
  then have "a + (2 ^ 32 - b mod 2 ^ 32) = (a - b) + 2 ^ 32"
    by simp
  then show ?thesis
    using \<open>a < 2 ^ 32\<close> unfolding sub32_def by (simp only: mod_add_self2) simp
qed

lemma add64_less [simp]: "add64 a b < 2 ^ 64"
  by (simp add: add64_def)

lemma sub64_less [simp]: "sub64 a b < 2 ^ 64"
  by (simp add: sub64_def)

lemma add64_wraps_iff:
  "a < 2 ^ 64 \<Longrightarrow> b < 2 ^ 64 \<Longrightarrow> add64 a b < a \<longleftrightarrow> 2 ^ 64 \<le> a + b"
proof -
  assume a: "a < 2 ^ 64" and b: "b < 2 ^ 64"
  show ?thesis
  proof (cases "a + b < 2 ^ 64")
    case True
    then show ?thesis by (simp add: add64_def)
  next
    case False
    then have "(a + b) mod 2 ^ 64 = a + b - 2 ^ 64"
      using a b by (simp add: mod_if)
    then show ?thesis using False b by (simp add: add64_def)
  qed
qed

lemma unat64_less: "unat (w :: 64 word) < 2 ^ 64"
proof -
  have "unat w < 2 ^ LENGTH(64)" by (rule unsigned_less)
  then show ?thesis by simp
qed

lemma and_not_mask_nat: "unat ((w :: 64 word) AND NOT (mask k)) = unat w div 2 ^ k * 2 ^ k"
proof -
  have "w AND NOT (mask k) = push_bit k (drop_bit k w)"
    by (rule bit_word_eqI) (auto simp: bit_simps)
  moreover have "take_bit 64 (unat w) = unat w"
    by (rule take_bit_nat_eq_self) (rule unat64_less)
  ultimately have "unat (w AND NOT (mask k)) = take_bit 64 (push_bit k (drop_bit k (unat w)))"
    by (simp add: unsigned_push_bit_eq unsigned_drop_bit_eq)
  also have "push_bit k (drop_bit k (unat w)) = unat w div 2 ^ k * 2 ^ k"
    by (simp add: push_bit_eq_mult drop_bit_eq_div)
  also have "take_bit 64 (unat w div 2 ^ k * 2 ^ k) = unat w div 2 ^ k * 2 ^ k"
  proof -
    have "unat w div 2 ^ k * 2 ^ k \<le> unat w" by simp
    also have "unat w < 2 ^ 64" by (rule unat64_less)
    finally show ?thesis by (simp add: take_bit_nat_eq_self)
  qed
  finally show ?thesis .
qed

lemma align_up_pow2 [bitfacts]:
  assumes "n + 2 ^ k \<le> 2 ^ 64"
  shows "align_up n (2 ^ k) = (n + 2 ^ k - 1) div 2 ^ k * 2 ^ k"
proof -
  have "(2::64 word) ^ k - 1 = mask k"
    by (simp add: mask_eq_decr_exp)
  moreover have "unat (word_of_nat n + 2 ^ k - 1 :: 64 word) = n + 2 ^ k - 1"
  proof -
    have "1 \<le> n + 2 ^ k" by (simp add: Suc_leI)
    then have "(word_of_nat n + 2 ^ k - 1 :: 64 word) = word_of_nat (n + 2 ^ k - 1)"
      by (simp only: of_nat_diff of_nat_add of_nat_power of_nat_numeral of_nat_1)
    then show ?thesis
      using assms by (simp add: unat_of_nat)
  qed
  ultimately show ?thesis
    unfolding align_up_def by (simp add: and_not_mask_nat)
qed

lemma align_up_bounds:
  assumes "n + 2 ^ k \<le> 2 ^ 64"
  shows "n \<le> align_up n (2 ^ k)" and "align_up n (2 ^ k) < n + 2 ^ k"
    and "align_up n (2 ^ k) mod 2 ^ k = 0"
proof -
  let ?x = "n + 2 ^ k - 1"
  have eq: "align_up n (2 ^ k) = ?x - ?x mod 2 ^ k"
    using align_up_pow2 [OF assms] by (simp add: minus_mod_eq_div_mult)
  have m: "?x mod 2 ^ k < 2 ^ k" by simp
  have p: "(0::nat) < 2 ^ k" by simp
  show "n \<le> align_up n (2 ^ k)" using eq m p by linarith
  show "align_up n (2 ^ k) < n + 2 ^ k" using eq p by linarith
  show "align_up n (2 ^ k) mod 2 ^ k = 0"
    using align_up_pow2 [OF assms] by simp
qed

lemma and_15_mod [bitfacts]: "(v :: nat) AND 15 = v mod 16"
proof -
  have "v AND 15 = v AND mask 4" by (simp add: mask_eq_exp_minus_1)
  then show ?thesis by (simp add: take_bit_eq_mask [symmetric] take_bit_eq_mod)
qed

section \<open>Byte access to the cell memory\<close>

text \<open>
  Little-endian bytes of the 8-byte cells: byte \<open>a\<close> is bits \<open>8 * (a mod 8)\<close> and up of the cell
  at \<open>a - a mod 8\<close>.
\<close>

definition byte_at :: "mem \<Rightarrow> addr \<Rightarrow> nat" where
  "byte_at m a = (m (a - a mod 8) div 256 ^ (a mod 8)) mod 256"

definition set_byte :: "addr \<Rightarrow> nat \<Rightarrow> mem \<Rightarrow> mem" where
  "set_byte a v m =
     (let c = a - a mod 8; old = m c; k = 256 ^ (a mod 8)
      in m(c := old div (k * 256) * (k * 256) + (v mod 256) * k + old mod k))"

fun memset :: "addr \<Rightarrow> nat \<Rightarrow> nat \<Rightarrow> mem \<Rightarrow> mem" where
  "memset p v 0 m = m"
| "memset p v (Suc n) m = memset (Suc p) v n (set_byte p v m)"

fun memcpy :: "addr \<Rightarrow> addr \<Rightarrow> nat \<Rightarrow> mem \<Rightarrow> mem" where
  "memcpy d s 0 m = m"
| "memcpy d s (Suc n) m = memcpy (Suc d) (Suc s) n (set_byte d (byte_at m s) m)"

lemma byte_at_less [simp]: "byte_at m a < 256"
  by (simp add: byte_at_def)

lemma cell_of_byte: "(a::nat) = (a - a mod 8) + a mod 8" "(a - a mod 8) mod 8 = 0"
  by (simp_all add: minus_mod_eq_div_mult)

lemma digit_same:
  fixes old k v :: nat
  assumes "0 < k" "v < 256"
  shows "((old div (k * 256) * (k * 256) + v * k + old mod k) div k) mod 256 = v"
proof -
  have "old div (k * 256) * (k * 256) + v * k + old mod k
      = old mod k + k * (old div (k * 256) * 256 + v)"
    by (simp add: algebra_simps)
  then have "(old div (k * 256) * (k * 256) + v * k + old mod k) div k
      = old div (k * 256) * 256 + v"
    using assms by simp
  then show ?thesis using assms by simp
qed

lemma digit_lower:
  fixes old k v :: nat
  assumes k: "k = 256 ^ i" and "j < i" "v < 256"
  shows "((old div (k * 256) * (k * 256) + v * k + old mod k) div 256 ^ j) mod 256
       = (old div 256 ^ j) mod 256"
proof -
  obtain d where d: "i = j + Suc d" using \<open>j < i\<close> less_imp_Suc_add by (metis add_Suc_right)
  have kd: "k = 256 ^ j * (256 * 256 ^ d)" by (simp add: k d power_add)
  have split: "old div (k * 256) * (k * 256) + v * k + old mod k
      = old mod k + 256 ^ j * (256 * (256 ^ d * (old div (k * 256) * 256 + v)))"
    by (simp add: kd algebra_simps)
  have "(old mod k) div 256 ^ j mod 256 = old div 256 ^ j mod 256"
  proof -
    have "(old mod k) div 256 ^ j = (old div 256 ^ j) mod (256 * 256 ^ d)"
      unfolding kd by (simp add: mod_mult2_eq)
    then show ?thesis by (simp add: mod_mod_cancel)
  qed
  then show ?thesis unfolding split by simp
qed

lemma digit_upper:
  fixes old k v :: nat
  assumes k: "k = 256 ^ i" and "i < j" "v < 256"
  shows "((old div (k * 256) * (k * 256) + v * k + old mod k) div 256 ^ j) mod 256
       = (old div 256 ^ j) mod 256"
proof -
  obtain d where d: "j = Suc i + d" using \<open>i < j\<close> by (metis Suc_leI le_add_diff_inverse)
  have kj: "(256::nat) ^ j = (k * 256) * 256 ^ d" by (simp add: k d power_add)
  have "0 < k" by (simp add: k)
  then have "v * k + old mod k < k * 256"
  proof -
    have "v * k \<le> 255 * k" using \<open>v < 256\<close> by simp
    moreover have "old mod k < k" using \<open>0 < k\<close> by simp
    ultimately show ?thesis by linarith
  qed
  then have "(old div (k * 256) * (k * 256) + (v * k + old mod k)) div (k * 256) = old div (k * 256)"
    by simp
  then have "(old div (k * 256) * (k * 256) + v * k + old mod k) div 256 ^ j = old div 256 ^ j"
    unfolding kj div_mult2_eq by (simp only: add.assoc)
  then show ?thesis by simp
qed

lemma byte_set_byte:
  assumes "v < 256"
  shows "byte_at (set_byte a v m) b = (if a = b then v else byte_at m b)"
proof (cases "a - a mod 8 = b - b mod 8")
  case False
  then show ?thesis by (auto simp: byte_at_def set_byte_def Let_def)
next
  case True
  let ?i = "a mod 8" and ?j = "b mod 8" and ?old = "m (a - a mod 8)"
  have neq: "a \<noteq> b \<Longrightarrow> ?i \<noteq> ?j" using True cell_of_byte(1) by metis
  have val: "byte_at (set_byte a v m) b =
      ((?old div (256 ^ ?i * 256) * (256 ^ ?i * 256) + v * 256 ^ ?i + ?old mod 256 ^ ?i)
        div 256 ^ ?j) mod 256"
    using True assms by (simp add: byte_at_def set_byte_def Let_def)
  consider "a = b" | "?j < ?i" | "?i < ?j" using neq by fastforce
  then show ?thesis
  proof cases
    case 1
    then show ?thesis unfolding val using assms digit_same [of "256 ^ ?i" v ?old] by simp
  next
    case 2
    then show ?thesis
      unfolding val using digit_lower [OF refl 2 assms] True by (auto simp: byte_at_def)
  next
    case 3
    then show ?thesis
      unfolding val using digit_upper [OF refl 3 assms] True by (auto simp: byte_at_def)
  qed
qed

lemma byte_memset:
  assumes "v < 256"
  shows "byte_at (memset p v n m) a = (if p \<le> a \<and> a < p + n then v else byte_at m a)"
proof (induction n arbitrary: p m)
  case 0
  then show ?case by simp
next
  case (Suc n)
  then show ?case using assms by (auto simp: byte_set_byte)
qed

text \<open>
  \<^verbatim>\<open>std::memcpy\<close> on disjoint ranges: the destination range becomes the source range, everything
  else keeps its bytes.
\<close>

lemma byte_memcpy:
  assumes "d + n \<le> s \<or> s + n \<le> d"
  shows "byte_at (memcpy d s n m) a =
    (if d \<le> a \<and> a < d + n then byte_at m (s + (a - d)) else byte_at m a)"
  using assms
proof (induction n arbitrary: d s m)
  case 0
  then show ?case by simp
next
  case (Suc n)
  have disj: "Suc d + n \<le> Suc s \<or> Suc s + n \<le> Suc d" using Suc.prems by auto
  let ?m = "set_byte d (byte_at m s) m"
  have src: "byte_at ?m (Suc s + (a - Suc d)) = byte_at m (s + (a - d))"
    if "Suc d \<le> a" "a < Suc d + n"
  proof -
    have eq: "Suc s + (a - Suc d) = s + (a - d)" using that by simp
    have ne: "d \<noteq> s + (a - d)" using that Suc.prems by linarith
    show ?thesis unfolding eq by (simp only: byte_set_byte byte_at_less ne if_False)
  qed
  consider "a = d" | "Suc d \<le> a" "a < Suc d + n" | "a < d \<or> Suc d + n \<le> a" by linarith
  then show ?case
  proof cases
    case 1
    then show ?thesis using Suc.IH [OF disj, of ?m] by (simp add: byte_set_byte)
  next
    case 2
    then show ?thesis using Suc.IH [OF disj, of ?m] src by simp
  next
    case 3
    then show ?thesis using Suc.IH [OF disj, of ?m] by (auto simp: byte_set_byte)
  qed
qed

end
