(* ===== verification/FA_Lists.thy ===== *)
theory FA_Lists
  imports FA_Prelude
begin

text \<open>
  Intrusive singly linked lists over the cell memory. \<open>seg nxt p xs q\<close> says that following the
  links \<open>nxt\<close> from \<open>p\<close> visits exactly the non-null nodes \<open>xs\<close> and arrives at \<open>q\<close>;
  \<open>chain nxt p xs\<close> is a segment that ends in the null pointer.

  The locale \<open>link_field\<close> is the interface of a struct with an embedded link: what a read
  returns after a write of the same field, of another node or of an unrelated cell. FastAlloc
  has three such singly linked structs (free blocks, cached page spans, cached large spans); each
  provides an interpretation, and the list lemmas below are proved once. The doubly linked slab
  lists are in \<^verbatim>\<open>FA_SlabLists\<close>.
\<close>

primrec seg :: "(addr \<Rightarrow> addr) \<Rightarrow> addr \<Rightarrow> addr list \<Rightarrow> addr \<Rightarrow> bool" where
  "seg nxt p [] q \<longleftrightarrow> p = q"
| "seg nxt p (x # xs) q \<longleftrightarrow> p = x \<and> x \<noteq> 0 \<and> seg nxt (nxt x) xs q"

definition chain :: "(addr \<Rightarrow> addr) \<Rightarrow> addr \<Rightarrow> addr list \<Rightarrow> bool" where
  "chain nxt p xs \<longleftrightarrow> seg nxt p xs 0"

lemma chain_Nil [simp]: "chain nxt p [] \<longleftrightarrow> p = 0"
  by (simp add: chain_def)

lemma chain_Cons [simp]: "chain nxt p (x # xs) \<longleftrightarrow> p = x \<and> x \<noteq> 0 \<and> chain nxt (nxt x) xs"
  by (simp add: chain_def)

lemma chain_null [simp]: "chain nxt 0 xs \<longleftrightarrow> xs = []"
  by (cases xs) auto

lemma chain_nonnull: "p \<noteq> 0 \<Longrightarrow> chain nxt p xs \<longleftrightarrow> (\<exists>ys. xs = p # ys \<and> chain nxt (nxt p) ys)"
  by (cases xs) auto

lemma seg_append [simp]: "seg nxt p (xs @ ys) q \<longleftrightarrow> (\<exists>r. seg nxt p xs r \<and> seg nxt r ys q)"
  by (induction xs arbitrary: p) auto

lemma chain_append: "chain nxt p (xs @ ys) \<longleftrightarrow> (\<exists>r. seg nxt p xs r \<and> chain nxt r ys)"
  by (simp add: chain_def)

lemma seg_cong: "(\<And>x. x \<in> set xs \<Longrightarrow> nxt x = nxt' x) \<Longrightarrow> seg nxt p xs q \<longleftrightarrow> seg nxt' p xs q"
  by (induction xs arbitrary: p) auto

lemma chain_cong: "(\<And>x. x \<in> set xs \<Longrightarrow> nxt x = nxt' x) \<Longrightarrow> chain nxt p xs \<longleftrightarrow> chain nxt' p xs"
  unfolding chain_def by (rule seg_cong)

lemma chain_unique: "chain nxt p xs \<Longrightarrow> chain nxt p ys \<Longrightarrow> xs = ys"
proof (induction xs arbitrary: p ys)
  case Nil
  then show ?case by simp
next
  case (Cons x xs)
  then show ?case by (cases ys) auto
qed

lemma chain_suffix: "chain nxt p (xs @ y # ys) \<Longrightarrow> chain nxt y (y # ys)"
  by (auto simp: chain_append)

lemma chain_distinct: "chain nxt p xs \<Longrightarrow> distinct xs"
proof (induction xs arbitrary: p)
  case Nil
  then show ?case by simp
next
  case (Cons x xs)
  have "x \<notin> set xs"
  proof
    assume "x \<in> set xs"
    then obtain us vs where xs: "xs = us @ x # vs" by (auto simp: in_set_conv_decomp)
    with Cons.prems have "chain nxt x (x # xs)" and "chain nxt x (x # vs)"
      by (auto dest: chain_suffix simp: chain_append)
    then have "x # xs = x # vs" by (rule chain_unique)
    then show False using xs by simp
  qed
  with Cons show ?case by auto
qed

lemma chain_nonzero: "chain nxt p xs \<Longrightarrow> 0 \<notin> set xs"
  by (induction xs arbitrary: p) auto

lemma chain_hd: "chain nxt p xs \<Longrightarrow> xs \<noteq> [] \<Longrightarrow> p = hd xs"
  by (cases xs) auto

lemma chain_head_iff: "chain nxt p xs \<Longrightarrow> p = 0 \<longleftrightarrow> xs = []"
  by (cases xs) auto

lemma chain_nth_next:
  "chain nxt p xs \<Longrightarrow> i < length xs \<Longrightarrow>
     nxt (xs ! i) = (if Suc i < length xs then xs ! Suc i else 0)"
proof (induction xs arbitrary: p i)
  case Nil
  then show ?case by simp
next
  case (Cons x xs)
  then show ?case
    by (cases i) (auto simp: nth_Cons split: nat.splits list.splits intro: chain_hd,
        (cases xs; auto)+)
qed

section \<open>The interface of an embedded link\<close>

locale link_field =
  fixes get :: "mem \<Rightarrow> addr \<Rightarrow> addr"
    and put :: "addr \<Rightarrow> addr \<Rightarrow> mem \<Rightarrow> mem"
  assumes get_put: "get (put b v m) c = (if b = c then v else get m c)"
begin

lemma chain_put_other: "b \<notin> set xs \<Longrightarrow> chain (get (put b v m)) p xs \<longleftrightarrow> chain (get m) p xs"
  by (rule chain_cong) (auto simp: get_put)

lemma seg_put_other: "b \<notin> set xs \<Longrightarrow> seg (get (put b v m)) p xs q \<longleftrightarrow> seg (get m) p xs q"
  by (rule seg_cong) (auto simp: get_put)

text \<open>Linking a fresh node in front of a list.\<close>

lemma chain_push:
  assumes "chain (get m) p xs" "b \<noteq> 0" "b \<notin> set xs"
  shows "chain (get (put b p m)) b (b # xs)"
  using assms by (simp add: get_put chain_put_other)

text \<open>Terminating a segment at one of its nodes cuts the list there.\<close>

lemma chain_cut:
  assumes "chain (get m) p (xs @ y # ys)"
  shows "chain (get (put y 0 m)) p (xs @ [y])" and "chain (get (put y 0 m)) (get m y) ys"
proof -
  have d: "distinct (xs @ y # ys)" using assms by (rule chain_distinct)
  from assms obtain r where "seg (get m) p xs r" "chain (get m) r (y # ys)"
    by (auto simp: chain_append)
  then have s: "seg (get m) p xs y" "y \<noteq> 0" and c: "chain (get m) (get m y) ys" by auto
  show "chain (get (put y 0 m)) p (xs @ [y])"
    using s d by (auto simp: chain_append seg_put_other get_put)
  show "chain (get (put y 0 m)) (get m y) ys"
    using c d by (simp add: chain_put_other)
qed

text \<open>Redirecting the last node of a list to the head of another joins the two.\<close>

lemma chain_join:
  assumes "chain (get m) p (xs @ [y])" "chain (get m) q ys" "y \<notin> set ys"
  shows "chain (get (put y q m)) p (xs @ y # ys)"
proof -
  have "y \<notin> set xs" using chain_distinct [OF assms(1)] by auto
  moreover from assms(1) have "seg (get m) p xs y" "y \<noteq> 0" by (auto simp: chain_append)
  ultimately show ?thesis
    using assms(2,3) by (auto simp: chain_append seg_put_other chain_put_other get_put)
qed

end

end
