(* ===== verification/FA_Config.thy ===== *)
theory FA_Config
  imports FA_Lists
begin

text \<open>
  \<^verbatim>\<open>src/fast_alloc_config.h\<close>: the constants, the pointer plausibility test and the size-class
  arithmetic. The locale \<open>size_classes\<close> is the contract of a size-class table (every size fits
  its class, and its class is the least one it fits); it is interpreted for the 512 small
  classes, for requests (user bytes plus the 16-byte block header) in release and debug builds,
  and for the power-of-two large classes.
\<close>

section \<open>Constants and plain functions\<close>

definition MAX_SLAB_SIZE :: nat where "MAX_SLAB_SIZE = 8192"
definition ALIGNMENT :: nat where "ALIGNMENT = 16"
definition kMinCanonicalUserPtr :: nat where "kMinCanonicalUserPtr = 0x10000"
definition kMaxCanonicalUserPtr :: nat where "kMaxCanonicalUserPtr = 0x0000800000000000"
definition USER_OFFSET :: nat where "USER_OFFSET = 16"
definition NUM_SIZE_CLASSES :: nat where "NUM_SIZE_CLASSES = MAX_SLAB_SIZE div ALIGNMENT"
definition RED_ZONE_RESERVE :: nat where "RED_ZONE_RESERVE = 8"
definition NUM_LARGE_CLASSES :: nat where "NUM_LARGE_CLASSES = 64"
definition LARGE_CLASS_BASE :: nat where "LARGE_CLASS_BASE = 12"

text \<open>Struct sizes on LP64 (\<^verbatim>\<open>static_assert\<close>ed in \<^verbatim>\<open>fast_alloc.cpp\<close> for the first two).\<close>

definition sizeof_FreeBlock :: nat where "sizeof_FreeBlock = 24"
definition sizeof_LargeAllocHeader :: nat where "sizeof_LargeAllocHeader = 16"

lemmas config_consts =
  MAX_SLAB_SIZE_def ALIGNMENT_def kMinCanonicalUserPtr_def kMaxCanonicalUserPtr_def
  USER_OFFSET_def NUM_SIZE_CLASSES_def RED_ZONE_RESERVE_def NUM_LARGE_CLASSES_def
  LARGE_CLASS_BASE_def sizeof_FreeBlock_def sizeof_LargeAllocHeader_def

definition IsPlausibleHeapPtr :: "addr \<Rightarrow> bool" where
  "IsPlausibleHeapPtr v \<longleftrightarrow>
     kMinCanonicalUserPtr \<le> v \<and> v < kMaxCanonicalUserPtr \<and> v AND 0xF = 0"

text \<open>Trailing zeros of a non-zero 64-bit word, and leading zeros (\<^verbatim>\<open>__builtin_clzll\<close>).\<close>

definition fast_ctzll :: "64 word \<Rightarrow> nat" where
  "fast_ctzll v = length (takeWhile (\<lambda>i. \<not> bit v i) [0..<64])"

definition clzll :: "nat \<Rightarrow> nat" where
  "clzll v = length (takeWhile (\<lambda>i. \<not> bit v (63 - i)) [0..<64])"

definition SizeToClassIndex :: "nat \<Rightarrow> nat" where
  "SizeToClassIndex sz = (if sz = 0 then 0 else drop_bit 4 (sz - 1))"

definition ClassIndexToSize :: "nat \<Rightarrow> nat" where
  "ClassIndexToSize index = mul64 (add64 index 1) ALIGNMENT"

text \<open>Release build.\<close>

definition RequestToClass :: "nat \<Rightarrow> nat" where
  "RequestToClass sz = SizeToClassIndex (add64 sz USER_OFFSET)"

definition UsableSize :: "nat \<Rightarrow> nat" where
  "UsableSize class_index = sub64 (ClassIndexToSize class_index) USER_OFFSET"

definition MaxSmallRequest :: nat where
  "MaxSmallRequest = MAX_SLAB_SIZE - USER_OFFSET"

text \<open>Build with \<^verbatim>\<open>FASTALLOC_DEBUG\<close>: eight tail bytes of every block are red zone.\<close>

definition RequestToClass_debug :: "nat \<Rightarrow> nat" where
  "RequestToClass_debug sz =
     SizeToClassIndex (add64 (add64 sz USER_OFFSET) RED_ZONE_RESERVE)"

definition UsableSize_debug :: "nat \<Rightarrow> nat" where
  "UsableSize_debug class_index =
     sub64 (sub64 (ClassIndexToSize class_index) USER_OFFSET) RED_ZONE_RESERVE"

definition MaxSmallRequest_debug :: nat where
  "MaxSmallRequest_debug = MAX_SLAB_SIZE - USER_OFFSET - RED_ZONE_RESERVE"

definition ComputeCacheLimits :: "nat list" where
  "ComputeCacheLimits = map (\<lambda>i.
     let sz = (i + 1) * ALIGNMENT in
     if sz \<le> 64 then 16384
     else if sz \<le> 256 then 8192
     else if sz \<le> 1024 then 4096
     else if sz \<le> 4096 then 1024
     else if sz \<le> 8192 then 512
     else 128) [0..<NUM_SIZE_CLASSES]"

definition CACHE_LIMITS :: "nat list" where
  "CACHE_LIMITS = ComputeCacheLimits"

definition LargeSizeToClass :: "nat \<Rightarrow> nat" where
  "LargeSizeToClass sz =
     (if sz \<le> 2 ^ LARGE_CLASS_BASE then 0
      else let clz = 63 - clzll (sz - 1);
               cls = clz - LARGE_CLASS_BASE + 1
           in if cls < NUM_LARGE_CLASSES then cls else NUM_LARGE_CLASSES - 1)"

section \<open>Reading the bit operations\<close>

lemma IsPlausibleHeapPtr_iff:
  "IsPlausibleHeapPtr v \<longleftrightarrow> 65536 \<le> v \<and> v < 140737488355328 \<and> v mod 16 = 0"
  by (simp add: IsPlausibleHeapPtr_def config_consts and_15_mod)

lemma not_plausible_null [simp]: "\<not> IsPlausibleHeapPtr 0"
  by (simp add: IsPlausibleHeapPtr_iff)

lemma SizeToClassIndex_div [bitfacts]: "SizeToClassIndex n = (n - 1) div 16"
  by (simp add: SizeToClassIndex_def drop_bit_eq_div)

lemma ClassIndexToSize_exact [bitfacts]:
  "k < 2 ^ 59 \<Longrightarrow> ClassIndexToSize k = (k + 1) * 16"
  by (simp add: ClassIndexToSize_def config_consts arith64)

lemma RequestToClass_div [bitfacts]: "n < 2 ^ 63 \<Longrightarrow> RequestToClass n = (n + 15) div 16"
  by (simp add: RequestToClass_def config_consts arith64 SizeToClassIndex_div)

lemma RequestToClass_debug_div [bitfacts]:
  "n < 2 ^ 63 \<Longrightarrow> RequestToClass_debug n = (n + 23) div 16"
  by (simp add: RequestToClass_debug_def config_consts arith64 SizeToClassIndex_div)

lemma UsableSize_exact [bitfacts]: "k < 2 ^ 59 \<Longrightarrow> UsableSize k = k * 16"
proof -
  assume k: "k < 2 ^ 59"
  have "sub64 ((k + 1) * 16) 16 = (k + 1) * 16 - 16"
    by (rule sub64_exact) (use k in simp_all)
  then show ?thesis
    using k by (simp add: UsableSize_def config_consts ClassIndexToSize_exact)
qed

lemma UsableSize_debug_exact [bitfacts]:
  "0 < k \<Longrightarrow> k < 2 ^ 59 \<Longrightarrow> UsableSize_debug k = k * 16 - 8"
proof -
  assume k: "0 < k" "k < 2 ^ 59"
  have "sub64 (k * 16) 8 = k * 16 - 8"
    by (rule sub64_exact) (use k in simp_all)
  then show ?thesis
    using k UsableSize_exact [of k] by (simp add: UsableSize_debug_def UsableSize_def config_consts)
qed

lemma clzll_takeWhile:
  assumes "0 < v" "v < 2 ^ 64" and k: "2 ^ k \<le> v" "v < 2 ^ Suc k"
  shows "63 - clzll v = k"
proof -
  have k63: "k \<le> 63"
  proof (rule ccontr)
    assume "\<not> k \<le> 63"
    then have "(2::nat) ^ 64 \<le> 2 ^ k" by (intro power_increasing) auto
    then show False using k assms(2) by linarith
  qed
  have hi: "\<not> bit v j" if "k < j" for j
  proof -
    have "v < 2 ^ j"
      using k(2) that by (meson Suc_leI less_le_trans one_le_numeral power_increasing)
    then show ?thesis by (simp add: bit_nat_iff bit_iff_odd)
  qed
  have top: "bit v k"
  proof -
    have "v div 2 ^ k = 1" using k by (simp add: div_nat_eqI)
    then show ?thesis by (simp add: bit_iff_odd)
  qed
  have split: "[0..<64] = [0..<63 - k] @ (63 - k) # [Suc (63 - k)..<64]"
    using k63 upt_add_eq_append [of 0 "63 - k" "64 - (63 - k)"] upt_conv_Cons [of "63 - k" 64]
    by simp
  have "takeWhile (\<lambda>i. \<not> bit v (63 - i)) [0..<64] = [0..<63 - k]"
    unfolding split using hi top k63 by (subst takeWhile_append2) auto
  then show ?thesis using k63 by (simp add: clzll_def)
qed

lemma LargeSizeToClass_bounds:
  assumes "2 ^ (11 + k) < n" "n \<le> 2 ^ (12 + k)" "0 < k" "k \<le> 52"
  shows "LargeSizeToClass n = k"
proof -
  have le64: "(2::nat) ^ (12 + k) \<le> 2 ^ 64" using assms(4) by (intro power_increasing) auto
  have "(2::nat) ^ 12 \<le> 2 ^ (11 + k)" using assms(3) by (intro power_increasing) auto
  then have big: "\<not> n \<le> 2 ^ 12" using assms(1) by linarith
  have "63 - clzll (n - 1) = 11 + k"
    by (rule clzll_takeWhile) (use assms le64 big in auto)
  then show ?thesis
    using big assms(3,4) by (simp add: LargeSizeToClass_def config_consts Let_def)
qed

section \<open>The contract of a size-class table\<close>

locale size_classes =
  fixes to_class :: "nat \<Rightarrow> nat" and to_size :: "nat \<Rightarrow> nat" and lim :: nat
  assumes fits: "0 < n \<Longrightarrow> n \<le> lim \<Longrightarrow> n \<le> to_size (to_class n)"
    and least: "0 < n \<Longrightarrow> n \<le> lim \<Longrightarrow> n \<le> to_size k \<Longrightarrow> to_class n \<le> k"
begin

lemma class_mono: "0 < a \<Longrightarrow> a \<le> b \<Longrightarrow> b \<le> lim \<Longrightarrow> to_class a \<le> to_class b"
  using fits least by (meson le_trans less_le_trans)

lemma class_of_size:
  assumes "0 < to_size k" "to_size k \<le> lim" and inj: "\<And>j. j < k \<Longrightarrow> to_size j < to_size k"
  shows "to_class (to_size k) = k"
proof (rule antisym)
  show "to_class (to_size k) \<le> k" using assms least by blast
  show "k \<le> to_class (to_size k)"
    using fits [OF assms(1,2)] inj by (metis leD leI)
qed

text \<open>A request never fits a smaller class than its own.\<close>

lemma too_small_below: "0 < n \<Longrightarrow> n \<le> lim \<Longrightarrow> k < to_class n \<Longrightarrow> to_size k < n"
  using least by (meson leD leI)

end

interpretation small: size_classes SizeToClassIndex ClassIndexToSize "2 ^ 62"
proof
  fix n :: nat assume n: "0 < n" "n \<le> 2 ^ 62"
  then show "n \<le> ClassIndexToSize (SizeToClassIndex n)"
    by (simp add: SizeToClassIndex_div ClassIndexToSize_exact)
next
  fix n k :: nat assume n: "0 < n" "n \<le> 2 ^ 62" and le: "n \<le> ClassIndexToSize k"
  show "SizeToClassIndex n \<le> k"
  proof (cases "k < 2 ^ 59")
    case True
    then show ?thesis using le by (simp add: SizeToClassIndex_div ClassIndexToSize_exact)
  next
    case False
    then show ?thesis using n by (simp add: SizeToClassIndex_div)
  qed
qed

interpretation request: size_classes RequestToClass UsableSize "2 ^ 62"
proof
  fix n :: nat assume n: "0 < n" "n \<le> 2 ^ 62"
  then show "n \<le> UsableSize (RequestToClass n)"
    by (simp add: RequestToClass_div UsableSize_exact)
next
  fix n k :: nat assume n: "0 < n" "n \<le> 2 ^ 62" and le: "n \<le> UsableSize k"
  show "RequestToClass n \<le> k"
  proof (cases "k < 2 ^ 59")
    case True
    then show ?thesis using le n by (simp add: RequestToClass_div UsableSize_exact)
  next
    case False
    then show ?thesis using n by (simp add: RequestToClass_div)
  qed
qed

definition large_class_size :: "nat \<Rightarrow> nat" where
  "large_class_size k = 2 ^ (LARGE_CLASS_BASE + k)"

lemma LargeSizeToClass_cases:
  assumes "0 < n" "n \<le> 2 ^ 64"
  obtains "n \<le> 2 ^ 12" "LargeSizeToClass n = 0"
  | k where "0 < k" "k \<le> 52" "2 ^ (11 + k) < n" "n \<le> 2 ^ (12 + k)" "LargeSizeToClass n = k"
proof (cases "n \<le> 2 ^ 12")
  case True
  then show ?thesis using that(1) by (simp add: LargeSizeToClass_def config_consts)
next
  case False
  define k where "k = (LEAST k. n \<le> 2 ^ (12 + k))"
  have ex: "n \<le> 2 ^ (12 + 52)" using assms(2) by simp
  have le: "n \<le> 2 ^ (12 + k)" unfolding k_def by (rule LeastI [of _ 52]) (use ex in simp)
  have k52: "k \<le> 52" unfolding k_def by (rule Least_le) (use ex in simp)
  have k0: "0 < k" using le False by (cases k) auto
  then obtain j where j: "k = Suc j" by (cases k) auto
  have "\<not> n \<le> 2 ^ (12 + j)" using not_less_Least [of j "\<lambda>k. n \<le> 2 ^ (12 + k)"] j k_def by simp
  then have lt: "2 ^ (11 + k) < n" by (simp add: j)
  show ?thesis using that(2) k0 k52 lt le LargeSizeToClass_bounds by blast
qed

interpretation large: size_classes LargeSizeToClass large_class_size "2 ^ 64"
proof
  fix n :: nat assume "0 < n" "n \<le> 2 ^ 64"
  then show "n \<le> large_class_size (LargeSizeToClass n)"
    by (cases rule: LargeSizeToClass_cases) (auto simp: large_class_size_def config_consts)
next
  fix n k :: nat assume n: "0 < n" "n \<le> 2 ^ 64" and le: "n \<le> large_class_size k"
  from n show "LargeSizeToClass n \<le> k"
  proof (cases rule: LargeSizeToClass_cases)
    case (2 j)
    have "(2::nat) ^ (11 + j) < 2 ^ (12 + k)"
      using le 2(3) unfolding large_class_size_def LARGE_CLASS_BASE_def by (meson less_le_trans)
    then have "11 + j < 12 + k" by (rule power_less_imp_less_exp [rotated]) simp
    then show ?thesis using 2 by simp
  qed simp
qed

section \<open>Properties\<close>

lemma MaxSmallRequest_val: "MaxSmallRequest = 8176"
  by (simp add: MaxSmallRequest_def config_consts)

lemma RequestToClass_range:
  assumes "0 < n" "n \<le> MaxSmallRequest"
  shows "1 \<le> RequestToClass n" "RequestToClass n < NUM_SIZE_CLASSES"
  using assms by (auto simp: MaxSmallRequest_val RequestToClass_div NUM_SIZE_CLASSES_def config_consts)

lemma CACHE_LIMITS_length [simp]: "length CACHE_LIMITS = NUM_SIZE_CLASSES"
  by (simp add: CACHE_LIMITS_def ComputeCacheLimits_def)

lemma CACHE_LIMITS_bounds:
  "c < NUM_SIZE_CLASSES \<Longrightarrow> 512 \<le> CACHE_LIMITS ! c \<and> CACHE_LIMITS ! c \<le> 16384"
  by (auto simp: CACHE_LIMITS_def ComputeCacheLimits_def config_consts Let_def)

text \<open>
  C38: every small request (1 to 8176 bytes) is routed to a valid size class whose usable bytes
  hold it, no smaller class would, and the block is big enough for the 24-byte free-list node
  that will overlay it when it is freed (so class 0, whose 16-byte blocks could not hold one, is
  never used).
\<close>

theorem small_request_class:
  assumes "0 < n" "n \<le> MaxSmallRequest"
  shows "1 \<le> RequestToClass n \<and> RequestToClass n < NUM_SIZE_CLASSES
    \<and> n \<le> UsableSize (RequestToClass n)
    \<and> sizeof_FreeBlock \<le> ClassIndexToSize (RequestToClass n)
    \<and> (\<forall>k < RequestToClass n. UsableSize k < n)"
proof -
  have lim: "n \<le> 2 ^ 62" using assms by (simp add: MaxSmallRequest_val)
  have r: "1 \<le> RequestToClass n" "RequestToClass n < NUM_SIZE_CLASSES"
    using RequestToClass_range [OF assms] by auto
  then have "sizeof_FreeBlock \<le> ClassIndexToSize (RequestToClass n)"
    by (simp add: ClassIndexToSize_exact config_consts)
  then show ?thesis
    using r request.fits [OF assms(1) lim] request.too_small_below [OF assms(1) lim] by blast
qed

theorem small_request_class_witness:
  "RequestToClass 100 = 7 \<and> 100 \<le> UsableSize 7 \<and> UsableSize 6 < 100"
  using small_request_class [of 100] by (simp add: MaxSmallRequest_val RequestToClass_div)

text \<open>
  In debug builds the rear red zone is never empty: a request of up to 8168 bytes is routed
  to a class whose block keeps at least the eight reserved bytes after the user's bytes.
\<close>

lemma debug_red_zone_nonempty:
  assumes "0 < n" "n \<le> MaxSmallRequest_debug"
  shows "RequestToClass_debug n < NUM_SIZE_CLASSES
    \<and> n \<le> UsableSize_debug (RequestToClass_debug n)
    \<and> RED_ZONE_RESERVE \<le> ClassIndexToSize (RequestToClass_debug n) - USER_OFFSET - n"
proof -
  have n: "n \<le> 8168" using assms by (simp add: MaxSmallRequest_debug_def config_consts)
  let ?k = "(n + 23) div 16"
  have c: "RequestToClass_debug n = ?k" using n by (simp add: RequestToClass_debug_div)
  have k: "0 < ?k" "?k < 512" "n + 8 \<le> ?k * 16" using assms(1) n by auto
  then show ?thesis
    unfolding c using UsableSize_debug_exact [of ?k] ClassIndexToSize_exact [of ?k]
    by (auto simp: config_consts)
qed

end
