(* ===== verification/FA_Slab.thy ===== *)
theory FA_Slab
  imports FA_Config
begin

text \<open>
  \<^verbatim>\<open>src/slab.h\<close>, \<^verbatim>\<open>src/slab.cpp\<close> (release build: lazy wiring). A slab is a span of memory
  whose first 80 bytes are the \<^verbatim>\<open>Slab\<close> header and whose rest is cut into equal blocks. The
  fields of \<^verbatim>\<open>FreeBlock\<close> and \<^verbatim>\<open>Slab\<close> are named accessors of the cell memory at their LP64
  offsets. \<open>slab_ok m s fl\<close> is the well-formedness of the slab at \<open>s\<close> with free list \<open>fl\<close>;
  \<open>slab_free\<close> is the abstract set of free blocks (listed and never-carved ones). The locale
  \<open>block_pool\<close> is the abstract contract of a pool of blocks, and \<open>slab_pool\<close> shows that the
  slab operations implement it.
\<close>

named_theorems cells \<open>field accessors of the structs laid over the cell memory\<close>

section \<open>Block header (FreeBlock)\<close>

definition fb_slab :: "mem \<Rightarrow> addr \<Rightarrow> addr" where [cells]: "fb_slab m b = m b"
definition fb_class_index :: "mem \<Rightarrow> addr \<Rightarrow> nat" where
  [cells]: "fb_class_index m b = m (b + 8) mod 2 ^ 32"
definition fb_canary :: "mem \<Rightarrow> addr \<Rightarrow> nat" where
  [cells]: "fb_canary m b = m (b + 8) div 2 ^ 32 mod 2 ^ 32"
definition fb_next :: "mem \<Rightarrow> addr \<Rightarrow> addr" where [cells]: "fb_next m b = m (b + 16)"

definition set_fb_slab :: "addr \<Rightarrow> addr \<Rightarrow> mem \<Rightarrow> mem" where
  [cells]: "set_fb_slab b v m = m(b := v)"
definition set_fb_class_index :: "addr \<Rightarrow> nat \<Rightarrow> mem \<Rightarrow> mem" where
  [cells]: "set_fb_class_index b v m =
     m(b + 8 := m (b + 8) div 2 ^ 32 * 2 ^ 32 + v mod 2 ^ 32)"
definition set_fb_canary :: "addr \<Rightarrow> nat \<Rightarrow> mem \<Rightarrow> mem" where
  [cells]: "set_fb_canary b v m =
     m(b + 8 := (v mod 2 ^ 32) * 2 ^ 32 + m (b + 8) mod 2 ^ 32)"
definition set_fb_next :: "addr \<Rightarrow> addr \<Rightarrow> mem \<Rightarrow> mem" where
  [cells]: "set_fb_next b v m = m(b + 16 := v)"

section \<open>Slab header\<close>

definition slab_next :: "mem \<Rightarrow> addr \<Rightarrow> addr" where [cells]: "slab_next m s = m s"
definition slab_prev :: "mem \<Rightarrow> addr \<Rightarrow> addr" where [cells]: "slab_prev m s = m (s + 8)"
definition slab_free_list :: "mem \<Rightarrow> addr \<Rightarrow> addr" where [cells]: "slab_free_list m s = m (s + 16)"
definition slab_block_size :: "mem \<Rightarrow> addr \<Rightarrow> nat" where [cells]: "slab_block_size m s = m (s + 24)"
definition slab_total_blocks :: "mem \<Rightarrow> addr \<Rightarrow> nat" where
  [cells]: "slab_total_blocks m s = m (s + 32)"
definition slab_free_blocks :: "mem \<Rightarrow> addr \<Rightarrow> nat" where
  [cells]: "slab_free_blocks m s = m (s + 40)"
definition slab_memory_size :: "mem \<Rightarrow> addr \<Rightarrow> nat" where
  [cells]: "slab_memory_size m s = m (s + 48)"
definition slab_first_block_offset :: "mem \<Rightarrow> addr \<Rightarrow> nat" where
  [cells]: "slab_first_block_offset m s = m (s + 56)"
definition slab_next_new :: "mem \<Rightarrow> addr \<Rightarrow> nat" where [cells]: "slab_next_new m s = m (s + 64)"
definition slab_arena_index :: "mem \<Rightarrow> addr \<Rightarrow> nat" where
  [cells]: "slab_arena_index m s = m (s + 72) mod 2 ^ 32"
definition slab_class_idx :: "mem \<Rightarrow> addr \<Rightarrow> nat" where
  [cells]: "slab_class_idx m s = m (s + 72) div 2 ^ 32 mod 2 ^ 32"

definition sizeof_Slab :: nat where "sizeof_Slab = 80"

definition set_slab_next :: "addr \<Rightarrow> addr \<Rightarrow> mem \<Rightarrow> mem" where
  [cells]: "set_slab_next s v m = m(s := v)"
definition set_slab_prev :: "addr \<Rightarrow> addr \<Rightarrow> mem \<Rightarrow> mem" where
  [cells]: "set_slab_prev s v m = m(s + 8 := v)"
definition set_slab_free_list :: "addr \<Rightarrow> addr \<Rightarrow> mem \<Rightarrow> mem" where
  [cells]: "set_slab_free_list s v m = m(s + 16 := v)"
definition set_slab_free_blocks :: "addr \<Rightarrow> nat \<Rightarrow> mem \<Rightarrow> mem" where
  [cells]: "set_slab_free_blocks s v m = m(s + 40 := v)"
definition set_slab_next_new :: "addr \<Rightarrow> nat \<Rightarrow> mem \<Rightarrow> mem" where
  [cells]: "set_slab_next_new s v m = m(s + 64 := v)"

section \<open>Operations\<close>

definition Slab_IsFull :: "mem \<Rightarrow> addr \<Rightarrow> bool" where
  "Slab_IsFull m s \<longleftrightarrow> slab_free_blocks m s = 0"

definition Slab_IsEmpty :: "mem \<Rightarrow> addr \<Rightarrow> bool" where
  "Slab_IsEmpty m s \<longleftrightarrow> slab_free_blocks m s = slab_total_blocks m s"

text \<open>
  \<^verbatim>\<open>Slab::Create\<close>: the header fields are written in the order of the source; a rejected geometry
  gives the null pointer. The two 32-bit fields share the cell at offset 72.
\<close>

definition Slab_Create :: "addr \<Rightarrow> nat \<Rightarrow> nat \<Rightarrow> nat \<Rightarrow> mem \<Rightarrow> addr \<times> mem" where
  "Slab_Create memory memory_size block_size arena_index m =
     (if memory = 0 \<or> memory_size \<le> add64 sizeof_Slab block_size then (0, m)
      else let slab = memory;
               m = set_slab_next slab 0 m;
               m = set_slab_prev slab 0 m;
               m = m(slab + 24 := block_size);
               m = m(slab + 48 := memory_size);
               m = m(slab + 72 := (SizeToClassIndex block_size mod 2 ^ 32) * 2 ^ 32
                                  + arena_index mod 2 ^ 32);
               offset = align_up sizeof_Slab ALIGNMENT
           in if memory_size < add64 offset block_size then (0, m)
              else let available_memory = memory_size - offset;
                       m = m(slab + 32 := available_memory div block_size);
                       m = set_slab_free_blocks slab (slab_total_blocks m slab) m;
                       m = set_slab_free_list slab 0 m;
                       m = m(slab + 56 := offset);
                       m = set_slab_next_new slab 0 m
                   in (slab, m))"

definition Slab_Allocate :: "addr \<Rightarrow> mem \<Rightarrow> addr \<times> mem" where
  "Slab_Allocate s m =
     (if slab_free_list m s \<noteq> 0 then
        let block = slab_free_list m s;
            m = set_slab_free_list s (fb_next m block) m;
            m = set_slab_free_blocks s (sub64 (slab_free_blocks m s) 1) m
        in (block, m)
      else if slab_next_new m s < slab_total_blocks m s then
        let block = s + slab_first_block_offset m s + slab_next_new m s * slab_block_size m s;
            m = set_fb_slab block s m;
            m = set_fb_class_index block (slab_class_idx m s) m;
            m = set_fb_canary block 0 m;
            m = set_slab_next_new s (add64 (slab_next_new m s) 1) m;
            m = set_slab_free_blocks s (sub64 (slab_free_blocks m s) 1) m
        in (block, m)
      else (0, m))"

definition Slab_Deallocate :: "addr \<Rightarrow> addr \<Rightarrow> mem \<Rightarrow> mem" where
  "Slab_Deallocate s block m =
     (if slab_free_list m s = block then m
      else let m = set_fb_next block (slab_free_list m s) m;
               m = set_slab_free_list s block m;
               m = set_slab_free_blocks s (add64 (slab_free_blocks m s) 1) m
           in m)"

section \<open>Free-block links\<close>

interpretation fb: link_field fb_next set_fb_next
  by unfold_locales (simp add: cells)

lemma fb_chain_upd: "(\<And>x. x \<in> set xs \<Longrightarrow> x + 16 \<noteq> a) \<Longrightarrow>
    chain (fb_next (m(a := v))) p xs \<longleftrightarrow> chain (fb_next m) p xs"
  by (rule chain_cong) (auto simp: cells)

lemma fb_chain_cong: "(\<And>x. x \<in> set xs \<Longrightarrow> m' (x + 16) = m (x + 16)) \<Longrightarrow>
    chain (fb_next m') p xs \<longleftrightarrow> chain (fb_next m) p xs"
  by (rule chain_cong) (auto simp: cells)

section \<open>Well-formed slabs\<close>

definition slab_block :: "mem \<Rightarrow> addr \<Rightarrow> nat \<Rightarrow> addr" where
  "slab_block m s k = s + slab_first_block_offset m s + k * slab_block_size m s"

definition slab_blocks :: "mem \<Rightarrow> addr \<Rightarrow> addr set" where
  "slab_blocks m s = slab_block m s ` {..<slab_total_blocks m s}"

definition slab_free :: "mem \<Rightarrow> addr \<Rightarrow> addr list \<Rightarrow> addr set" where
  "slab_free m s fl = set fl \<union> slab_block m s ` {slab_next_new m s..<slab_total_blocks m s}"

definition slab_geom :: "mem \<Rightarrow> addr \<Rightarrow> bool" where
  "slab_geom m s \<longleftrightarrow> s \<noteq> 0 \<and> sizeof_FreeBlock \<le> slab_block_size m s
     \<and> slab_first_block_offset m s = sizeof_Slab
     \<and> sizeof_Slab + slab_total_blocks m s * slab_block_size m s \<le> slab_memory_size m s
     \<and> slab_memory_size m s < 2 ^ 64 \<and> slab_class_idx m s < 2 ^ 32"

definition slab_ok :: "mem \<Rightarrow> addr \<Rightarrow> addr list \<Rightarrow> bool" where
  "slab_ok m s fl \<longleftrightarrow> slab_geom m s
     \<and> slab_next_new m s \<le> slab_total_blocks m s
     \<and> chain (fb_next m) (slab_free_list m s) fl
     \<and> set fl \<subseteq> slab_block m s ` {..<slab_next_new m s}
     \<and> slab_free_blocks m s = length fl + (slab_total_blocks m s - slab_next_new m s)
     \<and> (\<forall>k < slab_next_new m s. fb_slab m (slab_block m s k) = s
          \<and> fb_class_index m (slab_block m s k) = slab_class_idx m s)"

text \<open>The cells of the header, which no block overlaps.\<close>

definition slab_header :: "addr \<Rightarrow> nat set" where
  "slab_header s = {s..<s + sizeof_Slab}"

lemma slab_block_val: "slab_geom m s \<Longrightarrow> slab_block m s k = s + 80 + k * slab_block_size m s"
  by (simp add: slab_geom_def slab_block_def sizeof_Slab_def)

lemma slab_block_inj: "slab_geom m s \<Longrightarrow> slab_block m s j = slab_block m s k \<longleftrightarrow> j = k"
  by (auto simp: slab_block_val) (auto simp: slab_geom_def sizeof_FreeBlock_def)

lemma slab_block_after:
  assumes "slab_geom m s" "j < k"
  shows "slab_block m s j + slab_block_size m s \<le> slab_block m s k"
proof -
  have "Suc j * slab_block_size m s \<le> k * slab_block_size m s" using assms(2) by (intro mult_le_mono) auto
  then show ?thesis using assms(1) by (simp add: slab_block_val)
qed

lemma slab_block_far:
  assumes "slab_geom m s" "j < k"
  shows "slab_block m s j + 24 \<le> slab_block m s k"
  using slab_block_after [OF assms] assms(1) by (simp add: slab_geom_def sizeof_FreeBlock_def)

lemma slab_block_cells_neq:
  assumes "slab_geom m s" "j \<noteq> k" "a < 24" "b < 24"
  shows "slab_block m s j + a \<noteq> slab_block m s k + b"
  using slab_block_far [OF assms(1), of j k] slab_block_far [OF assms(1), of k j] assms
  by (cases "j < k") auto

lemma slab_block_not_header:
  "slab_geom m s \<Longrightarrow> a < 80 \<Longrightarrow> slab_block m s k + b \<noteq> s + a"
  by (simp add: slab_block_val)

lemma slab_total_less:
  assumes "slab_geom m s"
  shows "slab_total_blocks m s < 2 ^ 63"
proof -
  have "24 \<le> slab_block_size m s" using assms by (simp add: slab_geom_def sizeof_FreeBlock_def)
  then have "slab_total_blocks m s * 24 \<le> slab_total_blocks m s * slab_block_size m s" by simp
  also have "\<dots> < 2 ^ 64" using assms unfolding slab_geom_def by linarith
  finally show ?thesis by simp
qed

text \<open>Everything but the free list and the counters is determined by five header cells.\<close>

definition same_geom :: "mem \<Rightarrow> mem \<Rightarrow> addr \<Rightarrow> bool" where
  "same_geom m m' s \<longleftrightarrow> (\<forall>o' \<in> {24, 32, 48, 56, 72}. m' (s + o') = m (s + o'))"

lemma same_geomD:
  assumes "same_geom m m' s"
  shows "slab_geom m' s = slab_geom m s" "slab_block m' s = slab_block m s"
    "slab_total_blocks m' s = slab_total_blocks m s" "slab_class_idx m' s = slab_class_idx m s"
    "slab_blocks m' s = slab_blocks m s" "slab_memory_size m' s = slab_memory_size m s"
    "slab_block_size m' s = slab_block_size m s" "slab_arena_index m' s = slab_arena_index m s"
  using assms by (auto simp: same_geom_def slab_geom_def slab_block_def slab_blocks_def cells)

lemma slab_ok_cong:
  assumes "slab_ok m s fl" and h: "\<And>a. 16 \<le> a \<Longrightarrow> a < 80 \<Longrightarrow> m' (s + a) = m (s + a)"
    and l: "\<And>x. x \<in> set fl \<Longrightarrow> m' (x + 16) = m (x + 16)"
    and b: "\<And>k. k < slab_next_new m s \<Longrightarrow> m' (slab_block m s k) = m (slab_block m s k)
              \<and> m' (slab_block m s k + 8) = m (slab_block m s k + 8)"
  shows "slab_ok m' s fl \<and> slab_free m' s fl = slab_free m s fl \<and> slab_blocks m' s = slab_blocks m s"
proof -
  have sg: "same_geom m m' s" using h by (simp add: same_geom_def)
  have f: "slab_next_new m' s = slab_next_new m s" "slab_free_list m' s = slab_free_list m s"
    "slab_free_blocks m' s = slab_free_blocks m s"
    using h by (simp_all add: cells)
  have "chain (fb_next m') (slab_free_list m s) fl \<longleftrightarrow> chain (fb_next m) (slab_free_list m s) fl"
    using l by (intro fb_chain_cong) auto
  then show ?thesis
    using assms(1) b unfolding slab_ok_def slab_free_def same_geomD [OF sg] f
    by (auto simp: cells)
qed

section \<open>Effect of the operations on a well-formed slab\<close>

lemma slab_ok_counts:
  assumes "slab_ok m s fl"
  shows "length fl \<le> slab_next_new m s" "slab_free_blocks m s \<le> slab_total_blocks m s"
    "slab_total_blocks m s < 2 ^ 63"
proof -
  have "distinct fl" using assms unfolding slab_ok_def by (blast intro: chain_distinct)
  then have "length fl = card (set fl)" by (simp add: distinct_card)
  also have "\<dots> \<le> card (slab_block m s ` {..<slab_next_new m s})"
    using assms by (intro card_mono) (auto simp: slab_ok_def)
  also have "\<dots> \<le> slab_next_new m s" using card_image_le [of "{..<slab_next_new m s}"] by simp
  finally show l: "length fl \<le> slab_next_new m s" .
  show "slab_free_blocks m s \<le> slab_total_blocks m s"
    using assms l by (simp add: slab_ok_def)
  show "slab_total_blocks m s < 2 ^ 63"
    using assms unfolding slab_ok_def by (blast intro: slab_total_less)
qed

lemma Slab_Allocate_pop:
  assumes "slab_ok m s (b # fl)"
  shows "Slab_Allocate s m =
    (b, m(s + 16 := fb_next m b, s + 40 := slab_free_blocks m s - 1))"
proof -
  have "slab_free_list m s = b" "b \<noteq> 0" "0 < slab_free_blocks m s"
    using assms by (auto simp: slab_ok_def)
  then show ?thesis
    using slab_ok_counts [OF assms]
    by (simp add: Slab_Allocate_def Let_def cells sub64_exact)
qed

lemma Slab_Allocate_carve:
  assumes "slab_ok m s []" "slab_next_new m s < slab_total_blocks m s"
  defines "b \<equiv> slab_block m s (slab_next_new m s)"
  shows "Slab_Allocate s m =
    (b, m(b := s, b + 8 := slab_class_idx m s, s + 64 := slab_next_new m s + 1,
          s + 40 := slab_free_blocks m s - 1))"
proof -
  have g: "slab_geom m s" and fl: "slab_free_list m s = 0" and pos: "0 < slab_free_blocks m s"
    using assms by (auto simp: slab_ok_def)
  have c: "slab_class_idx m s < 2 ^ 32" using g by (simp add: slab_geom_def)
  have far: "s + 80 \<le> b" unfolding b_def by (simp add: slab_block_val [OF g])
  have b: "s + slab_first_block_offset m s + slab_next_new m s * slab_block_size m s = b"
    by (simp add: b_def slab_block_def)
  show ?thesis
    using fl assms(2) pos slab_ok_counts [OF assms(1)] c far
    by (simp add: Slab_Allocate_def Let_def b)
       (auto simp: cells sub64_exact add64_exact fun_eq_iff)
qed

lemma slab_ok_far: "slab_ok m s fl \<Longrightarrow> x \<in> set fl \<Longrightarrow> s + 80 \<le> x"
  by (auto simp: slab_ok_def slab_block_val)

lemma slab_blocks_far: "slab_geom m s \<Longrightarrow> b \<in> slab_blocks m s \<Longrightarrow> s + 80 \<le> b"
  by (auto simp: slab_blocks_def slab_block_val)

lemma slab_ok_popped:
  assumes ok: "slab_ok m s (b # fl)"
  defines "m' \<equiv> m(s + 16 := fb_next m b, s + 40 := slab_free_blocks m s - 1)"
  shows "slab_ok m' s fl" and "slab_free m' s fl = slab_free m s (b # fl) - {b}"
proof -
  have sg: "same_geom m m' s" by (simp add: same_geom_def m'_def)
  have nn: "slab_next_new m' s = slab_next_new m s" by (simp add: cells m'_def)
  have far: "s + 80 \<le> x" if "x \<in> set fl" for x using slab_ok_far [OF ok, of x] that by simp
  have "chain (fb_next m) (fb_next m b) fl" using ok by (auto simp: slab_ok_def)
  then have ch: "chain (fb_next m') (fb_next m b) fl"
    using far by (subst fb_chain_cong [of _ _ m]) (auto simp: m'_def dest!: far)
  have hd: "m' (slab_block m s k) = m (slab_block m s k)"
    "m' (slab_block m s k + 8) = m (slab_block m s k + 8)" for k
    using ok by (auto simp: m'_def slab_ok_def slab_block_val)
  show "slab_ok m' s fl"
    using ok ch hd unfolding slab_ok_def same_geomD [OF sg] nn
    by (auto simp: cells m'_def)
  obtain k where k: "b = slab_block m s k" "k < slab_next_new m s" using ok by (auto simp: slab_ok_def)
  have "b \<notin> slab_block m s ` {slab_next_new m s..<slab_total_blocks m s}"
    using k slab_block_inj [of m s] ok by (auto simp: slab_ok_def)
  moreover have "b \<notin> set fl"
    using chain_distinct [of "fb_next m" "slab_free_list m s" "b # fl"] ok by (simp add: slab_ok_def)
  ultimately show "slab_free m' s fl = slab_free m s (b # fl) - {b}"
    unfolding slab_free_def same_geomD [OF sg] nn by auto
qed

lemma slab_ok_carved:
  assumes ok: "slab_ok m s []" and lt: "slab_next_new m s < slab_total_blocks m s"
  defines "b \<equiv> slab_block m s (slab_next_new m s)"
  defines "m' \<equiv> m(b := s, b + 8 := slab_class_idx m s, s + 64 := slab_next_new m s + 1,
                   s + 40 := slab_free_blocks m s - 1)"
  shows "slab_ok m' s []" and "slab_free m' s [] = slab_free m s [] - {b}"
proof -
  have g: "slab_geom m s" using ok by (simp add: slab_ok_def)
  have far: "s + 80 \<le> b" by (simp add: b_def slab_block_val [OF g])
  have sg: "same_geom m m' s" using far by (auto simp: same_geom_def m'_def)
  have nn: "slab_next_new m' s = slab_next_new m s + 1" by (simp add: cells m'_def)
  have fl: "slab_free_list m' s = slab_free_list m s" using far by (auto simp: cells m'_def)
  have fb: "slab_free_blocks m' s = slab_free_blocks m s - 1" by (simp add: cells m'_def)
  have c: "slab_class_idx m s < 2 ^ 32" using g by (simp add: slab_geom_def)
  have hd: "fb_slab m' (slab_block m s k) = s
      \<and> fb_class_index m' (slab_block m s k) = slab_class_idx m s" if "k < slab_next_new m s + 1" for k
  proof (cases "k = slab_next_new m s")
    case True
    then show ?thesis using far c by (auto simp: cells m'_def b_def)
  next
    case False
    then have k: "k < slab_next_new m s" using that by simp
    have far': "s + 80 \<le> slab_block m s k" by (simp add: slab_block_val [OF g])
    have "slab_block m s k + 24 \<le> b" unfolding b_def by (rule slab_block_far [OF g k])
    then have "m' (slab_block m s k) = m (slab_block m s k)"
      "m' (slab_block m s k + 8) = m (slab_block m s k + 8)"
      using far' by (auto simp: m'_def)
    then show ?thesis using ok k by (simp add: slab_ok_def cells)
  qed
  show "slab_ok m' s []"
    using ok lt hd unfolding slab_ok_def same_geomD [OF sg] nn fl fb by auto
  have "{slab_next_new m s..<slab_total_blocks m s} =
      insert (slab_next_new m s) {Suc (slab_next_new m s)..<slab_total_blocks m s}"
    using lt by auto
  then show "slab_free m' s [] = slab_free m s [] - {b}"
    unfolding slab_free_def same_geomD [OF sg] nn
    using slab_block_inj [OF g] by (auto simp: b_def)
qed

lemma Slab_Deallocate_val:
  assumes ok: "slab_ok m s fl" and "b \<notin> set fl" "b \<noteq> 0" "s + 80 \<le> b"
    "slab_free_blocks m s < slab_total_blocks m s"
  shows "Slab_Deallocate s b m =
    m(b + 16 := slab_free_list m s, s + 16 := b, s + 40 := slab_free_blocks m s + 1)"
proof -
  have "slab_free_list m s \<noteq> b"
    using assms by (cases fl) (auto simp: slab_ok_def)
  then show ?thesis
    using assms slab_ok_counts [OF ok]
    by (auto simp: Slab_Deallocate_def Let_def cells add64_exact fun_eq_iff)
qed

lemma slab_ok_returned:
  assumes ok: "slab_ok m s fl" and k: "k < slab_next_new m s" and nf: "slab_block m s k \<notin> set fl"
  defines "b \<equiv> slab_block m s k"
  defines "m' \<equiv> m(b + 16 := slab_free_list m s, s + 16 := b, s + 40 := slab_free_blocks m s + 1)"
  shows "slab_ok m' s (b # fl)" and "slab_free m' s (b # fl) = insert b (slab_free m s fl)"
proof -
  have g: "slab_geom m s" using ok by (simp add: slab_ok_def)
  have far: "s + 80 \<le> slab_block m s j" for j by (simp add: slab_block_val [OF g])
  have sg: "same_geom m m' s" using far [of k] by (auto simp: same_geom_def m'_def b_def)
  have f: "slab_next_new m' s = slab_next_new m s" "slab_free_list m' s = b"
    "slab_free_blocks m' s = slab_free_blocks m s + 1"
    using far [of k] by (auto simp: cells m'_def b_def)
  have b0: "b \<noteq> 0" using far [of k] by (simp add: b_def)
  have old: "chain (fb_next m) (slab_free_list m s) fl" using ok by (simp add: slab_ok_def)
  have far_fl: "s + 80 \<le> x" if "x \<in> set fl" for x using slab_ok_far [OF ok that] .
  have "m' (x + 16) = m (x + 16)" if "x \<in> set fl" for x
    using that nf far_fl [OF that] by (auto simp: m'_def b_def)
  then have "chain (fb_next m') (slab_free_list m s) fl"
    using old by (subst fb_chain_cong [of _ _ m]) auto
  moreover have "fb_next m' b = slab_free_list m s" using far [of k] by (auto simp: cells m'_def b_def)
  ultimately have ch: "chain (fb_next m') b (b # fl)" using b0 by simp
  have hd: "m' (slab_block m s j) = m (slab_block m s j)"
    "m' (slab_block m s j + 8) = m (slab_block m s j + 8)" for j
    using far [of j] far [of k] slab_block_cells_neq [OF g, of j k 0 16]
      slab_block_cells_neq [OF g, of j k 8 16]
    by (cases "j = k"; auto simp: m'_def b_def)+
  show "slab_ok m' s (b # fl)"
    using ok k ch hd unfolding slab_ok_def same_geomD [OF sg] f
    by (auto simp: b_def cells)
  show "slab_free m' s (b # fl) = insert b (slab_free m s fl)"
    unfolding slab_free_def same_geomD [OF sg] f by auto
qed

section \<open>The contract of a pool of blocks\<close>

text \<open>
  \<open>rep m s F B\<close>: the pool at \<open>s\<close> in memory \<open>m\<close> owns the blocks \<open>B\<close>, of which \<open>F\<close> are free.
  Allocation hands out a free block, returning a block that is out makes it free again, and
  nothing but the owner's own cells and free blocks is touched, so a client may write into the
  blocks it holds.
\<close>

locale block_pool =
  fixes alloc :: "addr \<Rightarrow> mem \<Rightarrow> addr \<times> mem"
    and dealloc :: "addr \<Rightarrow> addr \<Rightarrow> mem \<Rightarrow> mem"
    and rep :: "mem \<Rightarrow> addr \<Rightarrow> addr set \<Rightarrow> addr set \<Rightarrow> bool"
  assumes rep_subset: "rep m s F B \<Longrightarrow> F \<subseteq> B \<and> finite B \<and> 0 \<notin> B"
    and alloc_exhausted: "rep m s {} B \<Longrightarrow> alloc s m = (0, m)"
    and alloc_free: "rep m s F B \<Longrightarrow> F \<noteq> {} \<Longrightarrow>
          fst (alloc s m) \<in> F \<and> rep (snd (alloc s m)) s (F - {fst (alloc s m)}) B"
    and dealloc_out: "rep m s F B \<Longrightarrow> b \<in> B \<Longrightarrow> b \<notin> F \<Longrightarrow> rep (dealloc s b m) s (insert b F) B"
    and client_write: "rep m s F B \<Longrightarrow> b \<in> B \<Longrightarrow> b \<notin> F \<Longrightarrow> rep (m(b + 16 := v)) s F B"
begin

lemma alloc_null_iff: "rep m s F B \<Longrightarrow> fst (alloc s m) = 0 \<longleftrightarrow> F = {}"
  using alloc_exhausted alloc_free rep_subset by (metis fst_conv subset_iff)

lemma alloc_dealloc_free:
  assumes "rep m s F B" "F \<noteq> {}"
  shows "rep (dealloc s (fst (alloc s m)) (snd (alloc s m))) s F B"
proof -
  let ?b = "fst (alloc s m)" and ?m = "snd (alloc s m)"
  have b: "?b \<in> F" "rep ?m s (F - {?b}) B" using alloc_free [OF assms] by auto
  have "?b \<in> B" using b(1) rep_subset [OF assms(1)] by auto
  then have "rep (dealloc s ?b ?m) s (insert ?b (F - {?b})) B" using b(2) by (intro dealloc_out) auto
  then show ?thesis using b(1) by (simp add: insert_absorb)
qed

end

definition slab_rep :: "mem \<Rightarrow> addr \<Rightarrow> addr set \<Rightarrow> addr set \<Rightarrow> bool" where
  "slab_rep m s F B \<longleftrightarrow> (\<exists>fl. slab_ok m s fl \<and> F = slab_free m s fl \<and> B = slab_blocks m s)"

lemma slab_free_card:
  assumes ok: "slab_ok m s fl"
  shows "card (slab_free m s fl) = slab_free_blocks m s"
proof -
  have g: "slab_geom m s" using ok by (simp add: slab_ok_def)
  let ?V = "slab_block m s ` {slab_next_new m s..<slab_total_blocks m s}"
  have "distinct fl" using ok unfolding slab_ok_def by (blast intro: chain_distinct)
  then have "card (set fl) = length fl" by (rule distinct_card)
  moreover have "card ?V = slab_total_blocks m s - slab_next_new m s"
    using slab_block_inj [OF g] by (subst card_image) (auto simp: inj_on_def)
  moreover have "set fl \<inter> ?V = {}" using ok slab_block_inj [OF g] by (auto simp: slab_ok_def)
  ultimately show ?thesis
    using ok unfolding slab_free_def by (subst card_Un_disjoint) (auto simp: slab_ok_def)
qed

lemma slab_free_subset: "slab_ok m s fl \<Longrightarrow> slab_free m s fl \<subseteq> slab_blocks m s"
  by (fastforce simp: slab_ok_def slab_free_def slab_blocks_def)

lemma slab_free_empty:
  "slab_ok m s fl \<Longrightarrow> slab_free m s fl = {} \<longleftrightarrow> fl = [] \<and> slab_next_new m s = slab_total_blocks m s"
  by (auto simp: slab_free_def slab_ok_def)

lemma Slab_Allocate_blocks:
  assumes ok: "slab_ok m s fl" and ne: "slab_free m s fl \<noteq> {}"
  obtains b m' fl' where "Slab_Allocate s m = (b, m')" "b \<in> slab_free m s fl" "slab_ok m' s fl'"
    "slab_free m' s fl' = slab_free m s fl - {b}" "slab_blocks m' s = slab_blocks m s"
    "same_geom m m' s" "fb_slab m' b = s" "fb_class_index m' b = slab_class_idx m s"
    "\<And>a. a \<notin> slab_header s \<Longrightarrow> a \<noteq> b \<Longrightarrow> a \<noteq> b + 8 \<Longrightarrow> m' a = m a"
    "m' s = m s" "m' (s + 8) = m (s + 8)"
proof (cases fl)
  case (Cons b fl')
  define m' where "m' = m(s + 16 := fb_next m b, s + 40 := slab_free_blocks m s - 1)"
  obtain k where k: "b = slab_block m s k" "k < slab_next_new m s" using ok Cons by (auto simp: slab_ok_def)
  have far: "s + 80 \<le> b" using ok Cons slab_ok_far by fastforce
  have sg: "same_geom m m' s" by (simp add: same_geom_def m'_def)
  show ?thesis
  proof (rule that [of b m' fl'])
    show "Slab_Allocate s m = (b, m')" using Slab_Allocate_pop ok Cons by (simp add: m'_def)
    show "b \<in> slab_free m s fl" by (simp add: Cons slab_free_def)
    show "slab_ok m' s fl'" "slab_free m' s fl' = slab_free m s fl - {b}"
      using slab_ok_popped ok Cons by (simp_all add: m'_def)
    show "fb_slab m' b = s" "fb_class_index m' b = slab_class_idx m s"
      using ok k far by (auto simp: slab_ok_def m'_def cells)
  qed (use sg same_geomD [OF sg] far in \<open>auto simp: m'_def slab_header_def sizeof_Slab_def\<close>)
next
  case Nil
  have lt: "slab_next_new m s < slab_total_blocks m s"
    using ne ok Nil by (auto simp: slab_free_def slab_ok_def)
  have g: "slab_geom m s" using ok by (simp add: slab_ok_def)
  define b where "b = slab_block m s (slab_next_new m s)"
  define m' where "m' = m(b := s, b + 8 := slab_class_idx m s, s + 64 := slab_next_new m s + 1,
                   s + 40 := slab_free_blocks m s - 1)"
  have far: "s + 80 \<le> b" by (simp add: b_def slab_block_val [OF g])
  have sg: "same_geom m m' s" using far by (auto simp: same_geom_def m'_def)
  show ?thesis
  proof (rule that [of b m' "[]"])
    show "Slab_Allocate s m = (b, m')"
      using Slab_Allocate_carve ok Nil lt by (simp add: m'_def b_def)
    show "b \<in> slab_free m s fl" using lt by (auto simp: slab_free_def b_def)
    show "slab_ok m' s []" "slab_free m' s [] = slab_free m s fl - {b}"
      using slab_ok_carved ok Nil lt by (simp_all add: m'_def b_def)
    show "fb_slab m' b = s" "fb_class_index m' b = slab_class_idx m s"
      using g far by (auto simp: m'_def cells slab_geom_def)
  qed (use sg same_geomD [OF sg] far in \<open>auto simp: m'_def slab_header_def sizeof_Slab_def\<close>)
qed

lemma slab_out_index:
  assumes "slab_ok m s fl" "b \<in> slab_blocks m s" "b \<notin> slab_free m s fl"
  obtains k where "b = slab_block m s k" "k < slab_next_new m s" "b \<notin> set fl"
  using assms by (force simp: slab_blocks_def slab_free_def)

lemma Slab_Deallocate_blocks:
  assumes ok: "slab_ok m s fl" and b: "b \<in> slab_blocks m s" "b \<notin> slab_free m s fl"
  shows "Slab_Deallocate s b m =
      m(b + 16 := slab_free_list m s, s + 16 := b, s + 40 := slab_free_blocks m s + 1)"
    and "slab_ok (Slab_Deallocate s b m) s (b # fl)"
    and "slab_free (Slab_Deallocate s b m) s (b # fl) = insert b (slab_free m s fl)"
    and "same_geom m (Slab_Deallocate s b m) s"
proof -
  obtain k where k: "b = slab_block m s k" "k < slab_next_new m s" "b \<notin> set fl"
    using slab_out_index [OF ok b] .
  have g: "slab_geom m s" using ok by (simp add: slab_ok_def)
  have far: "s + 80 \<le> b" by (simp add: k slab_block_val [OF g])
  have fin: "finite (slab_blocks m s)" by (simp add: slab_blocks_def)
  have "card (slab_free m s fl) < card (slab_blocks m s)"
    using slab_free_subset [OF ok] b fin by (intro psubset_card_mono) auto
  also have "\<dots> \<le> slab_total_blocks m s"
    unfolding slab_blocks_def using card_image_le [of "{..<slab_total_blocks m s}"] by simp
  finally have lt: "slab_free_blocks m s < slab_total_blocks m s" using slab_free_card [OF ok] by simp
  show val: "Slab_Deallocate s b m =
      m(b + 16 := slab_free_list m s, s + 16 := b, s + 40 := slab_free_blocks m s + 1)"
    by (rule Slab_Deallocate_val [OF ok k(3) _ far lt]) (use far g in \<open>auto simp: slab_geom_def\<close>)
  show "slab_ok (Slab_Deallocate s b m) s (b # fl)"
    "slab_free (Slab_Deallocate s b m) s (b # fl) = insert b (slab_free m s fl)"
    unfolding val using slab_ok_returned [OF ok k(2)] k by auto
  show "same_geom m (Slab_Deallocate s b m) s"
    unfolding val using far by (auto simp: same_geom_def)
qed

lemma slab_block_write:
  assumes ok: "slab_ok m s fl" and b: "b \<in> slab_blocks m s" "b \<notin> slab_free m s fl"
    and w: "\<And>a. a \<notin> {b + 16..<b + slab_block_size m s} \<Longrightarrow> m' a = m a"
  shows "slab_ok m' s fl \<and> slab_free m' s fl = slab_free m s fl \<and> slab_blocks m' s = slab_blocks m s"
proof -
  obtain k where k: "b = slab_block m s k" "k < slab_next_new m s" "b \<notin> set fl"
    using slab_out_index [OF ok b] .
  have g: "slab_geom m s" using ok by (simp add: slab_ok_def)
  have far: "s + 80 \<le> b" by (simp add: k slab_block_val [OF g])
  have other: "slab_block m s j + a \<notin> {b + 16..<b + slab_block_size m s}" if "j \<noteq> k" "a < 24" for j a
    using slab_block_after [OF g, of j k] slab_block_after [OF g, of k j] that g k(1)
    by (cases "j < k") (auto simp: slab_geom_def sizeof_FreeBlock_def)
  show ?thesis
  proof (rule slab_ok_cong [OF ok])
    fix j assume "j < slab_next_new m s"
    then show "m' (slab_block m s j) = m (slab_block m s j) \<and> m' (slab_block m s j + 8) = m (slab_block m s j + 8)"
      using other [of j 0] other [of j 8] k by (cases "j = k") (auto intro!: w)
  next
    fix x assume x: "x \<in> set fl"
    then obtain j where "x = slab_block m s j" using ok by (auto simp: slab_ok_def)
    then show "m' (x + 16) = m (x + 16)" using other [of j 16] k(1,3) x by (intro w) auto
  qed (use far in \<open>auto intro!: w\<close>)
qed

lemma slab_client_write:
  assumes ok: "slab_ok m s fl" and b: "b \<in> slab_blocks m s" "b \<notin> slab_free m s fl"
  shows "slab_ok (m(b + 16 := v)) s fl \<and> slab_free (m(b + 16 := v)) s fl = slab_free m s fl
    \<and> slab_blocks (m(b + 16 := v)) s = slab_blocks m s"
  by (rule slab_block_write [OF assms]) (use ok in \<open>auto simp: slab_ok_def slab_geom_def sizeof_FreeBlock_def\<close>)

interpretation slab_pool: block_pool Slab_Allocate Slab_Deallocate slab_rep
proof
  fix m s F B assume "slab_rep m s F B"
  then obtain fl where ok: "slab_ok m s fl" and F: "F = slab_free m s fl" and B: "B = slab_blocks m s"
    by (auto simp: slab_rep_def)
  have "0 \<notin> B" using ok B slab_blocks_far [of m s 0] by (auto simp: slab_ok_def slab_geom_def)
  then show "F \<subseteq> B \<and> finite B \<and> 0 \<notin> B"
    using slab_free_subset [OF ok] by (simp add: F B slab_blocks_def)
next
  fix m s B assume "slab_rep m s {} B"
  then obtain fl where ok: "slab_ok m s fl" and F: "slab_free m s fl = {}"
    by (auto simp: slab_rep_def)
  then show "Slab_Allocate s m = (0, m)"
    by (auto simp: slab_free_empty Slab_Allocate_def slab_ok_def)
next
  fix m s F B assume "slab_rep m s F B" and ne: "F \<noteq> {}"
  then obtain fl where ok: "slab_ok m s fl" and F: "F = slab_free m s fl" and B: "B = slab_blocks m s"
    by (auto simp: slab_rep_def)
  from Slab_Allocate_blocks [OF ok] ne obtain b m' fl' where
    "Slab_Allocate s m = (b, m')" "b \<in> F" "slab_ok m' s fl'"
    "slab_free m' s fl' = F - {b}" "slab_blocks m' s = B"
    unfolding F B by metis
  then show "fst (Slab_Allocate s m) \<in> F
      \<and> slab_rep (snd (Slab_Allocate s m)) s (F - {fst (Slab_Allocate s m)}) B"
    by (auto simp: slab_rep_def)
next
  fix m s F B b assume "slab_rep m s F B" and b: "b \<in> B" "b \<notin> F"
  then obtain fl where ok: "slab_ok m s fl" and F: "F = slab_free m s fl" and B: "B = slab_blocks m s"
    by (auto simp: slab_rep_def)
  note d = Slab_Deallocate_blocks [OF ok b [unfolded F B]]
  then show "slab_rep (Slab_Deallocate s b m) s (insert b F) B"
    using same_geomD(5) [OF d(4)] F B unfolding slab_rep_def by blast
next
  fix m s F B b v assume "slab_rep m s F B" "b \<in> B" "b \<notin> F"
  then show "slab_rep (m(b + 16 := v)) s F B"
    unfolding slab_rep_def using slab_client_write by blast
qed

lemma Slab_Create_ok:
  assumes "memory \<noteq> 0" "24 \<le> block_size" "80 + block_size < memory_size" "memory_size < 2 ^ 64"
    "block_size < 2 ^ 32"
  shows "fst (Slab_Create memory memory_size block_size arena m) = memory"
    and "slab_ok (snd (Slab_Create memory memory_size block_size arena m)) memory []"
    and "slab_free (snd (Slab_Create memory memory_size block_size arena m)) memory [] =
         (\<lambda>k. memory + 80 + k * block_size) ` {..<(memory_size - 80) div block_size}"
    and "slab_blocks (snd (Slab_Create memory memory_size block_size arena m)) memory =
         (\<lambda>k. memory + 80 + k * block_size) ` {..<(memory_size - 80) div block_size}"
    and "\<And>a. a \<notin> slab_header memory \<Longrightarrow>
         snd (Slab_Create memory memory_size block_size arena m) a = m a"
proof -
  have off: "align_up sizeof_Slab ALIGNMENT = 80"
    using align_up_pow2 [of 80 4] by (simp add: sizeof_Slab_def ALIGNMENT_def)
  have a1: "add64 sizeof_Slab block_size = 80 + block_size" "add64 80 block_size = 80 + block_size"
    using assms by (simp_all add: sizeof_Slab_def add64_exact)
  have c: "SizeToClassIndex block_size < 2 ^ 32" using assms(5) by (simp add: SizeToClassIndex_div)
  have "(memory_size - 80) div block_size * block_size \<le> memory_size - 80" by simp
  then have fits: "80 + (memory_size - 80) div block_size * block_size \<le> memory_size"
    using assms(3) by linarith
  have val0: "Slab_Create memory memory_size block_size arena m =
     (memory, m(memory := 0, memory + 8 := 0, memory + 24 := block_size, memory + 48 := memory_size,
        memory + 72 := SizeToClassIndex block_size * 2 ^ 32 + arena mod 2 ^ 32,
        memory + 32 := (memory_size - 80) div block_size,
        memory + 40 := (memory_size - 80) div block_size,
        memory + 16 := 0, memory + 56 := 80, memory + 64 := 0))"
    using assms c by (simp add: Slab_Create_def Let_def off a1 cells)
  let ?m = "snd (Slab_Create memory memory_size block_size arena m)"
  have val: "Slab_Create memory memory_size block_size arena m = (memory, ?m)"
    and cells': "?m memory = 0" "?m (memory + 8) = 0" "?m (memory + 16) = 0"
      "?m (memory + 24) = block_size" "?m (memory + 32) = (memory_size - 80) div block_size"
      "?m (memory + 40) = (memory_size - 80) div block_size"
      "?m (memory + 48) = memory_size" "?m (memory + 56) = 80" "?m (memory + 64) = 0"
      "?m (memory + 72) = SizeToClassIndex block_size * 2 ^ 32 + arena mod 2 ^ 32"
    and frame: "\<And>a. a \<notin> slab_header memory \<Longrightarrow> ?m a = m a"
    using assms c unfolding val0
    by (simp_all add: slab_header_def sizeof_Slab_def) auto
  show "fst (Slab_Create memory memory_size block_size arena m) = memory" using val by (metis fst_conv)
  have geom: "slab_geom ?m memory"
    using assms cells' fits by (simp add: slab_geom_def cells sizeof_Slab_def sizeof_FreeBlock_def)
  show "slab_ok ?m memory []"
    using geom cells' by (simp add: slab_ok_def cells)
  show "slab_free ?m memory [] =
         (\<lambda>k. memory + 80 + k * block_size) ` {..<(memory_size - 80) div block_size}"
    "slab_blocks ?m memory =
         (\<lambda>k. memory + 80 + k * block_size) ` {..<(memory_size - 80) div block_size}"
    using cells' by (auto simp: slab_free_def slab_blocks_def slab_block_def cells)
  show "\<And>a. a \<notin> slab_header memory \<Longrightarrow> ?m a = m a" by (rule frame)
qed

section \<open>Properties\<close>

lemma Slab_Create_rep:
  assumes "memory \<noteq> 0" "24 \<le> block_size" "80 + block_size < memory_size" "memory_size < 2 ^ 64"
    "block_size < 2 ^ 32"
  shows "slab_rep (snd (Slab_Create memory memory_size block_size arena m)) memory
    ((\<lambda>k. memory + 80 + k * block_size) ` {..<(memory_size - 80) div block_size})
    ((\<lambda>k. memory + 80 + k * block_size) ` {..<(memory_size - 80) div block_size})"
  unfolding slab_rep_def using Slab_Create_ok [OF assms] by blast

text \<open>A two-block slab at address 65536, on which the witnesses below run.\<close>

definition example_slab :: mem where
  "example_slab = snd (Slab_Create 65536 1000 400 3 (\<lambda>_. 0))"

lemma example_slab_rep: "slab_rep example_slab 65536 {65616, 66016} {65616, 66016}"
proof -
  have "{..<(1000 - 80) div 400} = {0, 1::nat}" by auto
  then show ?thesis
    using Slab_Create_rep [of 65536 400 1000 3 "\<lambda>_. 0"] by (simp add: example_slab_def)
qed

text \<open>
  Formatting a span as a slab gives a pool in which every block is free; the blocks lie
  inside the span after the 80-byte header, start 16-byte aligned when the span and the block
  size are, and no two of them overlap. No cell outside the header is written.
\<close>

lemma slab_create_fresh_pool:
  fixes memory memory_size block_size arena m
  defines "m' \<equiv> snd (Slab_Create memory memory_size block_size arena m)"
  defines "B \<equiv> slab_blocks m' memory"
  assumes "memory \<noteq> 0" "24 \<le> block_size" "sizeof_Slab + block_size < memory_size"
    "memory_size < 2 ^ 64" "block_size < 2 ^ 32"
  shows "fst (Slab_Create memory memory_size block_size arena m) = memory
    \<and> slab_rep m' memory B B \<and> B \<noteq> {}
    \<and> (\<forall>b \<in> B. memory + sizeof_Slab \<le> b \<and> b + block_size \<le> memory + memory_size)
    \<and> (\<forall>b \<in> B. \<forall>c \<in> B. b < c \<longrightarrow> b + block_size \<le> c)
    \<and> (memory mod 16 = 0 \<longrightarrow> block_size mod 16 = 0 \<longrightarrow> (\<forall>b \<in> B. b mod 16 = 0))
    \<and> (\<forall>a. a \<notin> slab_header memory \<longrightarrow> m' a = m a)"
proof -
  let ?n = "(memory_size - 80) div block_size"
  have pre: "memory \<noteq> 0" "24 \<le> block_size" "80 + block_size < memory_size" "memory_size < 2 ^ 64"
    "block_size < 2 ^ 32"
    using assms(3-) by (auto simp: sizeof_Slab_def)
  note c = Slab_Create_ok [OF pre, where arena = arena and m = m]
  have B: "B = (\<lambda>k. memory + 80 + k * block_size) ` {..<?n}" unfolding B_def m'_def by (rule c(4))
  have n: "?n * block_size \<le> memory_size - 80" by simp
  have pos: "0 < ?n" using pre by (simp add: div_greater_zero_iff)
  have step: "k * block_size + block_size \<le> j * block_size" if "k < j" for j k
    using mult_le_mono1 [of "Suc k" j block_size] that by simp
  have in_span: "b + block_size \<le> memory + memory_size" if "b \<in> B" for b
  proof -
    from that obtain k where k: "b = memory + 80 + k * block_size" "k < ?n" by (auto simp: B)
    show ?thesis using step [OF k(2)] n pre(3) k(1) by linarith
  qed
  have apart: "b + block_size \<le> c" if bc: "b \<in> B" "c \<in> B" "b < c" for b c
  proof -
    from bc obtain j k where "b = memory + 80 + k * block_size" "c = memory + 80 + j * block_size"
      by (auto simp: B)
    then show ?thesis using bc(3) step [of k j] by (cases "k < j") auto
  qed
  have al: "b mod 16 = 0" if "memory mod 16 = 0" "block_size mod 16 = 0" "b \<in> B" for b
  proof -
    from that(3) obtain k where "b = memory + 80 + k * block_size" by (auto simp: B)
    moreover have "16 dvd memory" "16 dvd block_size" "(16::nat) dvd 80"
      using that(1,2) by (simp_all add: mod_eq_0_iff_dvd)
    ultimately show ?thesis by (simp add: dvd_eq_mod_eq_0 [symmetric])
  qed
  have rep: "slab_rep m' memory B B"
    using Slab_Create_rep [OF pre, where arena = arena and m = m] unfolding B m'_def .
  show ?thesis
    using c(1) rep in_span apart al c(5) pos unfolding m'_def
    by (auto simp: B sizeof_Slab_def lessThan_empty_iff)
qed

text \<open>
  C33: allocating from a well-formed slab returns null exactly when no block is free (and then
  changes nothing); otherwise it returns a block that was free and no longer is, carrying the
  slab's address and class in its header, and the slab stays well formed.
\<close>

theorem slab_allocate_takes_free_block:
  assumes "slab_rep m s F B"
  shows "(if F = {} then Slab_Allocate s m = (0, m)
     else (let (b, m') = Slab_Allocate s m
           in b \<in> F \<and> slab_rep m' s (F - {b}) B \<and> fb_slab m' b = s
              \<and> fb_class_index m' b = slab_class_idx m s
              \<and> slab_free_blocks m' s = slab_free_blocks m s - 1))"
proof (cases "F = {}")
  case True
  then show ?thesis using slab_pool.alloc_exhausted assms by simp
next
  case False
  obtain fl where ok: "slab_ok m s fl" and F: "F = slab_free m s fl" and B: "B = slab_blocks m s"
    using assms by (auto simp: slab_rep_def)
  from Slab_Allocate_blocks [OF ok] False obtain b m' fl' where a: "Slab_Allocate s m = (b, m')"
    "b \<in> F" "slab_ok m' s fl'" "slab_free m' s fl' = F - {b}" "fb_slab m' b = s"
    "fb_class_index m' b = slab_class_idx m s"
    unfolding F by metis
  have "slab_free_blocks m' s = slab_free_blocks m s - 1"
    using slab_free_card [OF a(3)] slab_free_card [OF ok] a(2,4) by (simp add: F)
  moreover have "slab_rep m' s (F - {b}) B" using slab_pool.alloc_free [OF assms False] a(1) by simp
  ultimately show ?thesis using a False by simp
qed

theorem slab_allocate_takes_free_block_witness:
  "fst (Slab_Allocate 65536 example_slab) \<in> {65616, 66016}"
  using slab_allocate_takes_free_block [OF example_slab_rep] by (auto split: prod.splits)

text \<open>
  C34: returning a block that is out makes it free again; the next allocation hands out that
  same block (last in, first out) and restores the set of free blocks; returning the block that
  is already at the head of the free list changes nothing.
\<close>

theorem slab_deallocate_roundtrip:
  assumes "slab_rep m s F B" "b \<in> B" "b \<notin> F"
  shows "slab_rep (Slab_Deallocate s b m) s (insert b F) B
    \<and> fst (Slab_Allocate s (Slab_Deallocate s b m)) = b
    \<and> slab_rep (snd (Slab_Allocate s (Slab_Deallocate s b m))) s F B
    \<and> Slab_Deallocate s b (Slab_Deallocate s b m) = Slab_Deallocate s b m"
proof -
  obtain fl where ok: "slab_ok m s fl" and F: "F = slab_free m s fl" and B: "B = slab_blocks m s"
    using assms by (auto simp: slab_rep_def)
  note d = Slab_Deallocate_blocks [OF ok assms(2,3) [unfolded F B]]
  let ?m = "Slab_Deallocate s b m"
  have rep: "slab_rep ?m s (insert b F) B" using assms by (rule slab_pool.dealloc_out)
  have hd: "fst (Slab_Allocate s ?m) = b" using Slab_Allocate_pop [OF d(2)] by simp
  have "slab_rep (snd (Slab_Allocate s ?m)) s (insert b F - {b}) B"
    using slab_pool.alloc_free [OF rep] hd by simp
  moreover have "Slab_Deallocate s b ?m = ?m"
    using d(2) by (simp add: Slab_Deallocate_def slab_ok_def)
  ultimately show ?thesis using rep hd assms(3) by simp
qed

theorem slab_deallocate_roundtrip_witness:
  "let (b, m) = Slab_Allocate 65536 example_slab
   in fst (Slab_Allocate 65536 (Slab_Deallocate 65536 b m)) = b"
proof -
  obtain b m where a: "Slab_Allocate 65536 example_slab = (b, m)" by fastforce
  have r: "b \<in> {65616, 66016}" "slab_rep m 65536 ({65616, 66016} - {b}) {65616, 66016}"
    using slab_pool.alloc_free [OF example_slab_rep] a by auto
  then show ?thesis using slab_deallocate_roundtrip [OF r(2) r(1)] a by simp
qed

end
