(* ===== verification/FA_OSMemory.thy ===== *)
theory FA_OSMemory
  imports FA_Slab
begin

text \<open>
  \<^verbatim>\<open>src/os_memory.h\<close>, \<^verbatim>\<open>src/os_memory.cpp\<close>, Linux build: \<^verbatim>\<open>OSMemory\<close> over the chunk
  pool (\<^verbatim>\<open>SpanPool\<close>). The kernel is a parameter (\<open>os_api\<close>): the address an \<^verbatim>\<open>mmap\<close> or
  \<^verbatim>\<open>mremap\<close> returns is an arbitrary function of the history of system calls and the request,
  and the effect of a call on memory contents is an arbitrary function of the call. What the
  allocator relies on is the predicate \<open>os_spec\<close> (documented behaviour of the calls). Failure
  (\<^verbatim>\<open>MAP_FAILED\<close>) is address 0. The locale \<open>page_source\<close> is the contract of a supplier of
  address ranges; \<open>os_pages\<close> shows that \<^verbatim>\<open>AllocatePages\<close> meets it.
\<close>

section \<open>The kernel\<close>

datatype os_event =
    Mmap addr nat              \<comment> \<open>result (0 = failed), length\<close>
  | Munmap addr nat
  | Madvise addr nat           \<comment> \<open>\<^verbatim>\<open>MADV_DONTNEED\<close>\<close>
  | Mremap addr nat addr nat   \<comment> \<open>old address, old length, result (0 = failed), new length\<close>

record os_api =
  os_mmap :: "os_event list \<Rightarrow> nat \<Rightarrow> addr"
  os_mremap :: "os_event list \<Rightarrow> addr \<Rightarrow> nat \<Rightarrow> nat \<Rightarrow> bool \<Rightarrow> addr"
  os_effect :: "os_event \<Rightarrow> mem \<Rightarrow> mem"
  os_sysconf_pagesize :: nat
  os_page_cache_mb :: "int option"   \<comment> \<open>\<^verbatim>\<open>atol\<close> of FASTALLOC_PAGE_CACHE_MB, if set\<close>

record os_chunk =
  ck_base :: addr
  ck_bump :: addr
  ck_limit :: addr

record os_state =
  mem :: mem
  os_log :: "os_event list"
  pool_chunks :: "os_chunk list"

text \<open>A system call is recorded and has its effect on memory contents.\<close>

definition syscall :: "os_api \<Rightarrow> os_event \<Rightarrow> 'a os_state_scheme \<Rightarrow> 'a os_state_scheme" where
  "syscall api ev s = s\<lparr>os_log := os_log s @ [ev], mem := os_effect api ev (mem s)\<rparr>"

definition sys_mmap :: "os_api \<Rightarrow> nat \<Rightarrow> 'a os_state_scheme \<Rightarrow> addr \<times> 'a os_state_scheme" where
  "sys_mmap api n s = (let p = os_mmap api (os_log s) n in (p, syscall api (Mmap p n) s))"

section \<open>Operations\<close>

definition GetPageSize :: "os_api \<Rightarrow> nat" where
  "GetPageSize api = (if os_sysconf_pagesize api > 0 then os_sysconf_pagesize api else 4096)"

definition kChunkSize :: nat where "kChunkSize = 4 * 1024 * 1024"
definition kMaxPooledSpan :: nat where "kMaxPooledSpan = 2 * 1024 * 1024"
definition kMaxChunks :: nat where "kMaxChunks = 64"

text \<open>The loop over the chunks of \<^verbatim>\<open>SpanPool::Carve\<close>: the first chunk with room is bumped.\<close>

fun carve_scan :: "nat \<Rightarrow> os_chunk list \<Rightarrow> addr \<times> os_chunk list" where
  "carve_scan sz [] = (0, [])"
| "carve_scan sz (c # cs) =
     (if ck_bump c + sz \<le> ck_limit c then (ck_bump c, c\<lparr>ck_bump := ck_bump c + sz\<rparr> # cs)
      else let (p, cs') = carve_scan sz cs in (p, c # cs'))"

definition Pool_Carve :: "os_api \<Rightarrow> nat \<Rightarrow> 'a os_state_scheme \<Rightarrow> addr \<times> 'a os_state_scheme" where
  "Pool_Carve api sz s =
     (let (result, cs) = carve_scan sz (pool_chunks s); s = s\<lparr>pool_chunks := cs\<rparr> in
      if result = 0 \<and> length (pool_chunks s) < kMaxChunks then
        let (base, s) = sys_mmap api kChunkSize s in
        if base \<noteq> 0 then
          (base, s\<lparr>pool_chunks := pool_chunks s @
             [\<lparr>ck_base = base, ck_bump = base + sz, ck_limit = base + kChunkSize\<rparr>]\<rparr>)
        else (0, s)
      else (result, s))"

definition Pool_Contains :: "addr \<Rightarrow> 'a os_state_scheme \<Rightarrow> bool" where
  "Pool_Contains p s \<longleftrightarrow> list_ex (\<lambda>c. ck_base c \<le> p \<and> p < ck_limit c) (pool_chunks s)"

definition IsPooledSpanSize :: "os_api \<Rightarrow> nat \<Rightarrow> bool" where
  "IsPooledSpanSize api sz \<longleftrightarrow> sz \<noteq> 0 \<and> sz \<le> kMaxPooledSpan \<and> sz mod GetPageSize api = 0"

definition IsPoolBacked :: "addr \<Rightarrow> 'a os_state_scheme \<Rightarrow> bool" where
  "IsPoolBacked p s \<longleftrightarrow> p \<noteq> 0 \<and> Pool_Contains p s"

definition AllocatePages :: "os_api \<Rightarrow> nat \<Rightarrow> 'a os_state_scheme \<Rightarrow> addr \<times> 'a os_state_scheme" where
  "AllocatePages api sz s =
     (let (p, s) = (if IsPooledSpanSize api sz then Pool_Carve api sz s else (0, s)) in
      if p \<noteq> 0 then (p, s) else sys_mmap api sz s)"

definition FreePages :: "os_api \<Rightarrow> addr \<Rightarrow> nat \<Rightarrow> 'a os_state_scheme \<Rightarrow> 'a os_state_scheme" where
  "FreePages api p sz s =
     (if p = 0 then s
      else if IsPooledSpanSize api sz \<and> Pool_Contains p s then syscall api (Madvise p sz) s
      else syscall api (Munmap p sz) s)"

definition DecommitPages :: "addr \<Rightarrow> nat \<Rightarrow> 'a os_state_scheme \<Rightarrow> 'a os_state_scheme" where
  "DecommitPages p sz s = s"

section \<open>What the kernel promises\<close>

text \<open>The address space mapped after a history of calls.\<close>

fun map_event :: "os_event \<Rightarrow> nat set \<Rightarrow> nat set" where
  "map_event (Mmap p n) A = (if p = 0 then A else A \<union> {p..<p + n})"
| "map_event (Munmap p n) A = A - {p..<p + n}"
| "map_event (Madvise p n) A = A"
| "map_event (Mremap p n q k) A = (if q = 0 then A else A - {p..<p + n} \<union> {q..<q + k})"

definition mapped :: "os_event list \<Rightarrow> nat set" where
  "mapped l = fold map_event l {}"

text \<open>The cells whose contents a call may change.\<close>

fun event_range :: "os_event \<Rightarrow> nat set" where
  "event_range (Mmap p n) = (if p = 0 then {} else {p..<p + n})"
| "event_range (Munmap p n) = {p..<p + n}"
| "event_range (Madvise p n) = {p..<p + n}"
| "event_range (Mremap p n q k) = (if q = 0 then {} else {p..<p + n} \<union> {q..<q + k})"

text \<open>
  A successful \<^verbatim>\<open>mremap\<close> of a mapped range: the result overlaps no other mapping, is the old address unless
  the call may move, and holds what the old range held, up to the shorter length.
\<close>

definition mremap_spec :: "os_api \<Rightarrow> bool" where
  "mremap_spec api \<longleftrightarrow>
     (\<forall>l p n k maymove q. q = os_mremap api l p n k maymove \<longrightarrow> q \<noteq> 0 \<longrightarrow> 0 < k \<longrightarrow> {p..<p + n} \<subseteq> mapped l \<longrightarrow>
        {q..<q + k} \<inter> (mapped l - {p..<p + n}) = {}
      \<and> q mod GetPageSize api = 0 \<and> 65536 \<le> q \<and> q + k \<le> 2 ^ 47 \<and> (\<not> maymove \<longrightarrow> q = p))
   \<and> (\<forall>p n q k m i. q \<noteq> 0 \<longrightarrow> i < n \<longrightarrow> i < k \<longrightarrow> os_effect api (Mremap p n q k) m (q + i) = m (p + i))"

definition os_spec :: "os_api \<Rightarrow> bool" where
  "os_spec api \<longleftrightarrow>
     (\<exists>k. GetPageSize api = 2 ^ k \<and> 12 \<le> k \<and> k \<le> 21)
   \<and> (\<forall>l n. os_mmap api l n \<noteq> 0 \<longrightarrow> 0 < n \<longrightarrow>
        {os_mmap api l n..<os_mmap api l n + n} \<inter> mapped l = {}
      \<and> os_mmap api l n mod GetPageSize api = 0
      \<and> 65536 \<le> os_mmap api l n \<and> os_mmap api l n + n \<le> 2 ^ 47)
   \<and> (\<forall>ev m a. a \<notin> event_range ev \<longrightarrow> os_effect api ev m a = m a)
   \<and> mremap_spec api"

lemma mapped_Nil [simp]: "mapped [] = {}"
  by (simp add: mapped_def)

lemma mapped_snoc [simp]: "mapped (l @ [ev]) = map_event ev (mapped l)"
  by (simp add: mapped_def)

lemma os_spec_mmap:
  assumes "os_spec api" "os_mmap api l n \<noteq> 0" "0 < n"
  shows "{os_mmap api l n..<os_mmap api l n + n} \<inter> mapped l = {}"
    "os_mmap api l n mod GetPageSize api = 0"
    "65536 \<le> os_mmap api l n" "os_mmap api l n + n \<le> 2 ^ 47"
  using assms by (auto simp: os_spec_def)

lemma os_spec_mremap:
  assumes "os_spec api" "os_mremap api l p n k maymove = q" "q \<noteq> 0" "0 < k" "{p..<p + n} \<subseteq> mapped l"
  shows "{q..<q + k} \<inter> (mapped l - {p..<p + n}) = {}" "q mod GetPageSize api = 0" "65536 \<le> q" "q + k \<le> 2 ^ 47" "maymove \<or> q = p"
    "i < n \<Longrightarrow> i < k \<Longrightarrow> os_effect api (Mremap p n q k) m (q + i) = m (p + i)"
proof -
  have m: "mremap_spec api" using assms(1) by (simp add: os_spec_def)
  have "{q..<q + k} \<inter> (mapped l - {p..<p + n}) = {} \<and> q mod GetPageSize api = 0 \<and> 65536 \<le> q \<and> q + k \<le> 2 ^ 47 \<and> (\<not> maymove \<longrightarrow> q = p)"
    by (rule conjunct1 [OF m [unfolded mremap_spec_def], rule_format, OF assms(2) [symmetric] assms(3-5)])
  then show "{q..<q + k} \<inter> (mapped l - {p..<p + n}) = {}" "q mod GetPageSize api = 0" "65536 \<le> q" "q + k \<le> 2 ^ 47" "maymove \<or> q = p" by blast+
  show "i < n \<Longrightarrow> i < k \<Longrightarrow> os_effect api (Mremap p n q k) m (q + i) = m (p + i)" 
    by (rule conjunct2 [OF m [unfolded mremap_spec_def], rule_format, OF assms(3)])
qed

lemma os_spec_page:
  assumes "os_spec api"
  obtains k where "GetPageSize api = 2 ^ k" "12 \<le> k" "k \<le> 21"
  using assms by (auto simp: os_spec_def)

lemma os_spec_page_bounds:
  assumes "os_spec api"
  shows "4096 \<le> GetPageSize api" "GetPageSize api \<le> 2097152" "GetPageSize api mod 4096 = 0"
    "4194304 mod GetPageSize api = 0"
proof -
  obtain k where k: "GetPageSize api = 2 ^ k" "12 \<le> k" "k \<le> 21" using os_spec_page [OF assms] .
  have "(2::nat) ^ 12 \<le> 2 ^ k" by (rule power_increasing) (use k in auto)
  moreover have "(2::nat) ^ k \<le> 2 ^ 21" by (rule power_increasing) (use k in auto)
  ultimately
  show "4096 \<le> GetPageSize api" "GetPageSize api \<le> 2097152" using k by simp_all
  have "(2::nat) ^ 12 dvd 2 ^ k" by (rule le_imp_power_dvd) (use k in auto)
  then show "GetPageSize api mod 4096 = 0" using k by (simp add: mod_eq_0_iff_dvd)
  have "(2::nat) ^ k dvd 2 ^ 22" by (rule le_imp_power_dvd) (use k in auto)
  then show "4194304 mod GetPageSize api = 0" using k by (simp add: mod_eq_0_iff_dvd)
qed

lemma syscall_frame:
  "os_spec api \<Longrightarrow> a \<notin> event_range ev \<Longrightarrow> mem (syscall api ev s) a = mem s a"
  by (simp add: syscall_def os_spec_def)

lemma syscall_simps [simp]:
  "os_log (syscall api ev s) = os_log s @ [ev]"
  "pool_chunks (syscall api ev s) = pool_chunks s"
  "os_state.more (syscall api ev s) = os_state.more s"
  by (simp_all add: syscall_def)

section \<open>Invariant of the chunk pool\<close>

definition chunk_range :: "os_chunk \<Rightarrow> nat set" where
  "chunk_range c = {ck_base c..<ck_limit c}"

definition chunk_carved :: "os_chunk \<Rightarrow> nat set" where
  "chunk_carved c = {ck_base c..<ck_bump c}"

definition chunk_ok :: "os_api \<Rightarrow> os_event list \<Rightarrow> os_chunk \<Rightarrow> bool" where
  "chunk_ok api l c \<longleftrightarrow> 65536 \<le> ck_base c \<and> ck_base c \<le> ck_bump c \<and> ck_bump c \<le> ck_limit c
     \<and> ck_limit c = ck_base c + kChunkSize \<and> ck_limit c \<le> 2 ^ 47
     \<and> ck_base c mod GetPageSize api = 0 \<and> ck_bump c mod GetPageSize api = 0
     \<and> chunk_range c \<subseteq> mapped l"

definition chunks_range :: "os_chunk list \<Rightarrow> nat set" where
  "chunks_range cs = (\<Union>c \<in> set cs. chunk_range c)"

definition chunks_carved :: "os_chunk list \<Rightarrow> nat set" where
  "chunks_carved cs = (\<Union>c \<in> set cs. chunk_carved c)"

definition pool_ok :: "os_api \<Rightarrow> 'a os_state_scheme \<Rightarrow> bool" where
  "pool_ok api s \<longleftrightarrow> length (pool_chunks s) \<le> kMaxChunks
     \<and> (\<forall>c \<in> set (pool_chunks s). chunk_ok api (os_log s) c)
     \<and> sorted_wrt (\<lambda>c d. chunk_range c \<inter> chunk_range d = {}) (pool_chunks s)"

text \<open>
  The address ranges handed out: the carved prefixes of the chunks and every direct mapping.
\<close>

definition in_use :: "'a os_state_scheme \<Rightarrow> nat set" where
  "in_use s = chunks_carved (pool_chunks s) \<union> (mapped (os_log s) - chunks_range (pool_chunks s))"

lemmas chunk_defs = chunk_range_def chunk_carved_def chunk_ok_def chunks_range_def chunks_carved_def

lemma chunk_ok_carved: "chunk_ok api l c \<Longrightarrow> chunk_carved c \<subseteq> chunk_range c"
  by (auto simp: chunk_defs)

lemma pool_ok_mapped: "pool_ok api s \<Longrightarrow> chunks_range (pool_chunks s) \<subseteq> mapped (os_log s)"
  unfolding chunks_range_def pool_ok_def chunk_ok_def by blast

lemma pool_ok_in_use: "pool_ok api s \<Longrightarrow> in_use s \<subseteq> mapped (os_log s)"
proof -
  assume ok: "pool_ok api s"
  then have "\<forall>c \<in> set (pool_chunks s). chunk_carved c \<subseteq> chunk_range c"
    using chunk_ok_carved by (auto simp: pool_ok_def)
  then have "chunks_carved (pool_chunks s) \<subseteq> chunks_range (pool_chunks s)"
    unfolding chunks_carved_def chunks_range_def by blast
  then show ?thesis using pool_ok_mapped [OF ok] by (auto simp: in_use_def)
qed

lemma carve_scan_cases:
  assumes "carve_scan sz cs = (p, cs')" "\<forall>c \<in> set cs. 0 < ck_bump c"
  shows "p = 0 \<and> cs' = cs \<or>
    (\<exists>us c vs. cs = us @ c # vs \<and> p = ck_bump c \<and> p \<noteq> 0 \<and> ck_bump c + sz \<le> ck_limit c
       \<and> cs' = us @ c\<lparr>ck_bump := ck_bump c + sz\<rparr> # vs)"
  using assms
proof (induction cs arbitrary: cs')
  case Nil
  then show ?case by simp
next
  case (Cons c cs)
  show ?case
  proof (cases "ck_bump c + sz \<le> ck_limit c")
    case True
    then show ?thesis using Cons.prems by (auto intro!: exI [of _ "[]"])
  next
    case False
    then obtain cs1 where scan: "carve_scan sz cs = (p, cs1)" and cs': "cs' = c # cs1"
      using Cons.prems(1) by (auto split: prod.splits)
    from Cons.IH [OF scan] Cons.prems(2) consider "p = 0" "cs1 = cs"
      | us d vs where "cs = us @ d # vs" "p = ck_bump d" "p \<noteq> 0" "ck_bump d + sz \<le> ck_limit d"
        "cs1 = us @ d\<lparr>ck_bump := ck_bump d + sz\<rparr> # vs"
      by auto
    then show ?thesis
    proof cases
      case 1
      then show ?thesis by (simp add: cs')
    next
      case 2
      then show ?thesis by (auto simp: cs' intro!: exI [of _ "c # us"])
    qed
  qed
qed

text \<open>A span: page-aligned, inside the canonical user address range.\<close>

definition span_ok :: "os_api \<Rightarrow> addr \<Rightarrow> nat \<Rightarrow> bool" where
  "span_ok api p n \<longleftrightarrow> p mod GetPageSize api = 0 \<and> 65536 \<le> p \<and> p + n \<le> 2 ^ 47"

lemma span_ok_aligned: "os_spec api \<Longrightarrow> span_ok api p n \<Longrightarrow> p mod 4096 = 0"
  using os_spec_page_bounds(3) by (metis mod_eq_0_iff_dvd dvd_trans span_ok_def)

lemma span_ok_plausible: "os_spec api \<Longrightarrow> span_ok api p n \<Longrightarrow> 0 < n \<Longrightarrow> IsPlausibleHeapPtr p"
proof -
  assume a: "os_spec api" "span_ok api p n" "0 < n"
  then have "p mod 4096 = 0" by (simp add: span_ok_aligned)
  then have "16 dvd p" using dvd_trans [of 16 4096 p] by (simp add: mod_eq_0_iff_dvd)
  then show ?thesis using a by (simp add: IsPlausibleHeapPtr_iff span_ok_def mod_eq_0_iff_dvd)
qed

section \<open>Every range handed out is fresh\<close>

text \<open>
  The effect of a successful request on the pool and the log: the invariant is kept, the range
  is a span outside everything in use, it is in use afterwards, memory in use is unchanged.
\<close>

definition fresh_range :: "os_api \<Rightarrow> 'a os_state_scheme \<Rightarrow> addr \<Rightarrow> nat \<Rightarrow> 'b os_state_scheme \<Rightarrow> bool" where
  "fresh_range api s p n s' \<longleftrightarrow> pool_ok api s' \<and> span_ok api p n
     \<and> {p..<p + n} \<inter> in_use s = {} \<and> in_use s' = in_use s \<union> {p..<p + n}
     \<and> (\<forall>a \<in> in_use s. mem s' a = mem s a)"

lemma carve_bump_fresh:
  assumes spec: "os_spec api" and ok: "pool_ok api s" and cs: "pool_chunks s = us @ c # vs"
    and fits: "ck_bump c + n \<le> ck_limit c" and n: "n mod GetPageSize api = 0"
  shows "fresh_range api s (ck_bump c) n (s\<lparr>pool_chunks := us @ c\<lparr>ck_bump := ck_bump c + n\<rparr> # vs\<rparr>)"
proof -
  let ?c' = "c\<lparr>ck_bump := ck_bump c + n\<rparr>" and ?R = "{ck_bump c..<ck_bump c + n}"
  have cok: "chunk_ok api (os_log s) c" using ok by (simp add: pool_ok_def cs)
  then have c'ok: "chunk_ok api (os_log s) ?c'"
    using fits n by (auto simp: chunk_ok_def chunk_range_def mod_add_eq [of _ _ n, symmetric]
        mod_add_left_eq)
  have rng [simp]: "chunk_range ?c' = chunk_range c" by (simp add: chunk_range_def)
  have Rin: "?R \<subseteq> chunk_range c" using cok fits by (auto simp: chunk_ok_def chunk_range_def)
  have carved: "chunk_carved ?c' = chunk_carved c \<union> ?R"
    using cok by (auto simp: chunk_ok_def chunk_carved_def)
  have own: "?R \<inter> chunk_carved c = {}" by (auto simp: chunk_carved_def)
  have other: "chunk_range d \<inter> chunk_range c = {}" if "d \<in> set us \<union> set vs" for d
    using ok that by (auto simp: pool_ok_def cs sorted_wrt_append)
  have sub: "chunk_carved d \<subseteq> chunk_range d" if "d \<in> set us \<union> set vs" for d
    using ok that chunk_ok_carved by (auto simp: pool_ok_def cs)
  have disj: "?R \<inter> chunks_carved (pool_chunks s) = {}"
    using own other sub Rin unfolding cs chunks_carved_def by fastforce
  moreover have "?R \<subseteq> chunks_range (pool_chunks s)"
    using Rin by (auto simp: chunks_range_def cs)
  ultimately have "?R \<inter> in_use s = {}" by (auto simp: in_use_def)
  moreover have "pool_ok api (s\<lparr>pool_chunks := us @ ?c' # vs\<rparr>)"
    using ok c'ok by (auto simp: pool_ok_def cs sorted_wrt_append)
  moreover have "in_use (s\<lparr>pool_chunks := us @ ?c' # vs\<rparr>) = in_use s \<union> ?R"
    by (auto simp: in_use_def chunks_carved_def chunks_range_def cs carved)
  moreover have "span_ok api (ck_bump c) n" using cok fits by (simp add: chunk_ok_def span_ok_def)
  ultimately show ?thesis by (simp add: fresh_range_def)
qed

lemma chunk_ok_remap: "chunk_ok api l c \<Longrightarrow> chunk_range c \<subseteq> mapped l' \<Longrightarrow> chunk_ok api l' c"
  by (auto simp: chunk_ok_def)

lemma chunk_ok_more_mapped: "chunk_ok api l c \<Longrightarrow> mapped l \<subseteq> mapped l' \<Longrightarrow> chunk_ok api l' c"
  by (auto simp: chunk_ok_def)

lemma mmap_disjoint_pool:
  assumes spec: "os_spec api" and ok: "pool_ok api s" and p: "os_mmap api (os_log s) n \<noteq> 0" "0 < n"
  shows "{os_mmap api (os_log s) n..<os_mmap api (os_log s) n + n} \<inter> chunks_range (pool_chunks s) = {}"
    "{os_mmap api (os_log s) n..<os_mmap api (os_log s) n + n} \<inter> in_use s = {}"
  using os_spec_mmap(1) [OF spec p] pool_ok_mapped [OF ok] pool_ok_in_use [OF ok] by blast+

lemma mmap_frame:
  assumes "os_spec api" "pool_ok api s" "0 < n" "a \<in> in_use s"
  shows "mem (snd (sys_mmap api n s)) a = mem s a"
proof -
  have "a \<notin> event_range (Mmap (os_mmap api (os_log s) n) n)"
    using mmap_disjoint_pool(2) [OF assms(1,2) _ assms(3)] assms(4) by (auto simp: disjoint_iff)
  then show ?thesis by (simp add: sys_mmap_def Let_def syscall_frame [OF assms(1)])
qed

lemma mmap_pool_ok:
  assumes spec: "os_spec api" and ok: "pool_ok api s"
  shows "pool_ok api (snd (sys_mmap api n s))"
  using ok by (auto simp: pool_ok_def sys_mmap_def Let_def intro: chunk_ok_more_mapped)

lemma mmap_direct_fresh:
  assumes spec: "os_spec api" and ok: "pool_ok api s" and n: "0 < n"
    and r: "sys_mmap api n s = (p, s')" and p: "p \<noteq> 0"
  shows "fresh_range api s p n s'"
proof -
  have eq: "p = os_mmap api (os_log s) n" "s' = syscall api (Mmap p n) s"
    using r by (auto simp: sys_mmap_def Let_def)
  note d = mmap_disjoint_pool [OF spec ok, of n, folded eq(1), OF p n]
  have "in_use s' = in_use s \<union> {p..<p + n}" using d(1) p by (auto simp: in_use_def eq(2))
  then show ?thesis
    using d(2) os_spec_mmap [OF spec, of "os_log s" n] p n mmap_pool_ok [OF spec ok, of n]
      mmap_frame [OF spec ok n] r
    by (auto simp: fresh_range_def span_ok_def eq(1))
qed

lemma carve_chunk_fresh:
  assumes spec: "os_spec api" and ok: "pool_ok api s" and n: "n \<le> kMaxPooledSpan" "n mod GetPageSize api = 0"
    and room: "length (pool_chunks s) < kMaxChunks"
    and r: "sys_mmap api kChunkSize s = (p, s')" and p: "p \<noteq> 0"
  shows "fresh_range api s p n (s'\<lparr>pool_chunks := pool_chunks s' @
     [\<lparr>ck_base = p, ck_bump = p + n, ck_limit = p + kChunkSize\<rparr>]\<rparr>)"
proof -
  let ?c = "\<lparr>ck_base = p, ck_bump = p + n, ck_limit = p + kChunkSize\<rparr>"
  have k: "0 < kChunkSize" "n \<le> kChunkSize" using n by (simp_all add: kChunkSize_def kMaxPooledSpan_def)
  have eq: "p = os_mmap api (os_log s) kChunkSize" "s' = syscall api (Mmap p kChunkSize) s"
    using r by (auto simp: sys_mmap_def Let_def)
  note m = os_spec_mmap [OF spec p [unfolded eq(1)] k(1), folded eq(1)]
  note d = mmap_disjoint_pool [OF spec ok p [unfolded eq(1)] k(1), folded eq(1)]
  have cok: "chunk_ok api (os_log s') ?c"
    using m k n p by (auto simp: chunk_ok_def chunk_range_def eq(2) mod_add_eq [of _ _ n, symmetric])
  have rng: "chunk_range ?c = {p..<p + kChunkSize}" "chunk_carved ?c = {p..<p + n}"
    by (simp_all add: chunk_range_def chunk_carved_def)
  have "\<forall>e \<in> set (pool_chunks s). chunk_range e \<inter> chunk_range ?c = {}"
    using d(1) unfolding rng chunks_range_def by blast
  moreover have "pool_ok api s'" using mmap_pool_ok [OF spec ok, of kChunkSize] r by simp
  ultimately have "pool_ok api (s'\<lparr>pool_chunks := pool_chunks s' @ [?c]\<rparr>)"
    using cok room by (auto simp: pool_ok_def eq(2) sorted_wrt_append)
  moreover have "in_use (s'\<lparr>pool_chunks := pool_chunks s' @ [?c]\<rparr>) = in_use s \<union> {p..<p + n}"
    using d(1) m(1) p by (auto simp: in_use_def eq(2) chunks_range_def chunks_carved_def rng disjoint_iff)
  moreover have "{p..<p + n} \<inter> in_use s = {}" using d(2) k(2) by (auto simp: disjoint_iff)
  ultimately show ?thesis
    using m k(2) mmap_frame [OF spec ok k(1)] r by (auto simp: fresh_range_def span_ok_def)
qed

lemma Pool_Carve_fresh:
  assumes spec: "os_spec api" and ok: "pool_ok api s" and n: "IsPooledSpanSize api n"
    and r: "Pool_Carve api n s = (p, s')"
  shows "if p = 0 then pool_ok api s' \<and> in_use s' = in_use s \<and> mem s' = mem s
         else fresh_range api s p n s'"
proof -
  obtain q cs where scan: "carve_scan n (pool_chunks s) = (q, cs)" by fastforce
  have pos: "\<forall>c \<in> set (pool_chunks s). 0 < ck_bump c" using ok by (auto simp: pool_ok_def chunk_ok_def)
  have nn: "n \<le> kMaxPooledSpan" "n mod GetPageSize api = 0" using n by (auto simp: IsPooledSpanSize_def)
  from carve_scan_cases [OF scan pos] consider (bump) us c vs where "pool_chunks s = us @ c # vs"
      "q = ck_bump c" "q \<noteq> 0" "ck_bump c + n \<le> ck_limit c" "cs = us @ c\<lparr>ck_bump := ck_bump c + n\<rparr> # vs"
    | (none) "q = 0" "cs = pool_chunks s" by blast
  then show ?thesis
  proof cases
    case bump
    then have "p = q" "s' = s\<lparr>pool_chunks := cs\<rparr>" using r scan by (auto simp: Pool_Carve_def)
    then show ?thesis using carve_bump_fresh [OF spec ok bump(1,4) nn(2)] bump by simp
  next
    case none
    obtain b s1 where mm: "sys_mmap api kChunkSize s = (b, s1)" by fastforce
    have failed: "b = 0 \<Longrightarrow> pool_ok api s1 \<and> in_use s1 = in_use s \<and> mem s1 = mem s"
      using mmap_pool_ok [OF spec ok, of kChunkSize] mm spec
      by (auto simp: sys_mmap_def Let_def in_use_def syscall_def os_spec_def)
    show ?thesis
      using r scan none mm failed ok carve_chunk_fresh [OF spec ok nn _ mm]
      by (auto simp: Pool_Carve_def Let_def split: if_splits)
  qed
qed

lemma fresh_range_same:
  "fresh_range api s p n s' \<Longrightarrow> in_use s = in_use s0 \<Longrightarrow> mem s = mem s0 \<Longrightarrow> fresh_range api s0 p n s'"
  by (simp add: fresh_range_def)

lemma AllocatePages_fresh:
  assumes spec: "os_spec api" and ok: "pool_ok api s" and n: "0 < n" and r: "AllocatePages api n s = (p, s')"
  shows "if p = 0 then pool_ok api s' \<and> in_use s' = in_use s \<and> mem s' = mem s
         else fresh_range api s p n s'"
proof -
  have direct: "if p = 0 then pool_ok api s' \<and> in_use s' = in_use t \<and> mem s' = mem t
      else fresh_range api t p n s'" if t: "pool_ok api t" "sys_mmap api n t = (p, s')"
    for t :: "'a os_state_scheme"
    using mmap_pool_ok [OF spec t(1), of n] mmap_direct_fresh [OF spec t(1) n t(2)] t(2) spec
    by (auto simp: sys_mmap_def Let_def in_use_def syscall_def os_spec_def)
  show ?thesis
  proof (cases "IsPooledSpanSize api n")
    case True
    obtain q s1 where c: "Pool_Carve api n s = (q, s1)" by fastforce
    show ?thesis
    proof (cases "q = 0")
      case False
      then show ?thesis using r True c Pool_Carve_fresh [OF spec ok True c] by (simp add: AllocatePages_def)
    next
      case q: True
      have s1: "pool_ok api s1" "in_use s1 = in_use s" "mem s1 = mem s"
        using Pool_Carve_fresh [OF spec ok True c] q by simp_all
      have "sys_mmap api n s1 = (p, s')" using r True c q by (simp add: AllocatePages_def)
      from direct [OF s1(1) this] s1 show ?thesis by (auto intro: fresh_range_same split: if_splits)
    qed
  next
    case False
    then show ?thesis using direct [OF ok] r by (simp add: AllocatePages_def)
  qed
qed

text \<open>Nothing but the pool, the log and memory is touched.\<close>

lemma AllocatePages_more: "os_state.more (snd (AllocatePages api n s)) = os_state.more s"
  by (auto simp: AllocatePages_def Pool_Carve_def sys_mmap_def Let_def split: prod.splits if_splits)

section \<open>Giving ranges back\<close>

text \<open>
  A range that its holder may give back: in use, of whole pages, and either inside one chunk (then
  small enough for the pool) or outside every chunk.
\<close>

definition span_owned :: "os_api \<Rightarrow> 'a os_state_scheme \<Rightarrow> addr \<Rightarrow> nat \<Rightarrow> bool" where
  "span_owned api s p n \<longleftrightarrow> 0 < n \<and> n mod GetPageSize api = 0 \<and> p \<noteq> 0 \<and> {p..<p + n} \<subseteq> in_use s
     \<and> ((n \<le> kMaxPooledSpan \<and> (\<exists>c \<in> set (pool_chunks s). {p..<p + n} \<subseteq> chunk_range c))
        \<or> {p..<p + n} \<inter> chunks_range (pool_chunks s) = {})"

lemma Pool_Contains_iff: "Pool_Contains p s \<longleftrightarrow> p \<in> chunks_range (pool_chunks s)"
  by (auto simp: Pool_Contains_def list_ex_iff chunks_range_def chunk_range_def)

text \<open>Giving back a span is one system call, chosen by whether the span lies in a chunk.\<close>

lemma FreePages_event:
  assumes own: "span_owned api s p n"
  shows "FreePages api p n s = syscall api (if IsPoolBacked p s then Madvise p n else Munmap p n) s"
proof (cases "Pool_Contains p s")
  case True
  have p: "p \<noteq> 0" "0 < n" using own by (auto simp: span_owned_def)
  then have "p \<in> {p..<p + n}" by simp
  then have "n \<le> kMaxPooledSpan"
    using own True by (auto simp: span_owned_def Pool_Contains_iff disjoint_iff)
  then show ?thesis using True own p
    by (simp add: FreePages_def IsPoolBacked_def IsPooledSpanSize_def span_owned_def)
next
  case False
  then show ?thesis using own by (auto simp: FreePages_def IsPoolBacked_def span_owned_def)
qed

lemma FreePages_owned:
  assumes spec: "os_spec api" and ok: "pool_ok api s" and own: "span_owned api s p n"
  defines "s' \<equiv> FreePages api p n s"
  shows "pool_ok api s'" "in_use s' = (if IsPoolBacked p s then in_use s else in_use s - {p..<p + n})"
    "\<And>a. a \<notin> {p..<p + n} \<Longrightarrow> mem s' a = mem s a"
    "os_log s' = os_log s @ [if IsPoolBacked p s then Madvise p n else Munmap p n]"
proof -
  have p: "p \<noteq> 0" "0 < n" using own by (auto simp: span_owned_def)
  then have pin: "p \<in> {p..<p + n}" by simp
  have s': "s' = syscall api (if IsPoolBacked p s then Madvise p n else Munmap p n) s"
    unfolding s'_def by (rule FreePages_event [OF own])
  have out: "{p..<p + n} \<inter> chunks_range (pool_chunks s) = {}" if "\<not> IsPoolBacked p s"
    using own that pin p(1) unfolding span_owned_def IsPoolBacked_def Pool_Contains_iff chunks_range_def
    by blast
  show "pool_ok api s'"
  proof (cases "IsPoolBacked p s")
    case True
    then show ?thesis using ok by (auto simp: s' pool_ok_def intro: chunk_ok_more_mapped)
  next
    case False
    have "chunk_range c \<subseteq> mapped (os_log s) - {p..<p + n}" if "c \<in> set (pool_chunks s)" for c
      using out [OF False] ok that unfolding pool_ok_def chunk_ok_def chunks_range_def by blast
    then have "chunk_ok api (os_log s') c" if "c \<in> set (pool_chunks s)" for c
      using that ok False chunk_ok_remap [of api "os_log s" c "os_log s'"] by (simp add: s' pool_ok_def)
    then show ?thesis using ok by (simp add: s' pool_ok_def)
  qed
  have "chunks_carved (pool_chunks s) \<subseteq> chunks_range (pool_chunks s)"
    using ok chunk_ok_carved unfolding pool_ok_def chunks_carved_def chunks_range_def by blast
  then show "in_use s' = (if IsPoolBacked p s then in_use s else in_use s - {p..<p + n})"
    using out by (auto simp: s' in_use_def disjoint_iff)
  show "mem s' a = mem s a" if "a \<notin> {p..<p + n}" for a
    unfolding s' by (rule syscall_frame [OF spec]) (use that in auto)
  show "os_log s' = os_log s @ [if IsPoolBacked p s then Madvise p n else Munmap p n]"
    by (simp add: s')
qed

lemma FreePages_keeps_owned:
  assumes "os_spec api" "pool_ok api s" "span_owned api s p n" "span_owned api s q k"
    "{q..<q + k} \<inter> {p..<p + n} = {}"
  shows "span_owned api (FreePages api p n s) q k"
proof -
  have "pool_chunks (FreePages api p n s) = pool_chunks s" by (simp add: FreePages_def)
  moreover have "{q..<q + k} \<subseteq> in_use (FreePages api p n s)"
    using FreePages_owned(2) [OF assms(1-3)] assms(4,5) by (auto simp: span_owned_def)
  ultimately show ?thesis using assms(4) by (simp add: span_owned_def)
qed

text \<open>
  The chunks after a request: the old ones keep their ranges, and a new one lies outside
  everything in use.
\<close>

definition chunks_grow :: "'a os_state_scheme \<Rightarrow> 'a os_state_scheme \<Rightarrow> bool" where
  "chunks_grow s s' \<longleftrightarrow> chunk_range ` set (pool_chunks s) \<subseteq> chunk_range ` set (pool_chunks s')
     \<and> chunks_range (pool_chunks s') \<inter> mapped (os_log s) \<subseteq> chunks_range (pool_chunks s)"

lemma Pool_Carve_chunks:
  assumes spec: "os_spec api" and ok: "pool_ok api s" and n: "IsPooledSpanSize api n"
    and r: "Pool_Carve api n s = (p, s')"
  shows "chunks_grow s s' \<and> (p = 0 \<longrightarrow> pool_chunks s' = pool_chunks s)
    \<and> (p \<noteq> 0 \<longrightarrow> (\<exists>c \<in> set (pool_chunks s'). {p..<p + n} \<subseteq> chunk_range c))"
proof -
  obtain q cs where scan: "carve_scan n (pool_chunks s) = (q, cs)" by fastforce
  have pos: "\<forall>c \<in> set (pool_chunks s). 0 < ck_bump c" using ok by (auto simp: pool_ok_def chunk_ok_def)
  from carve_scan_cases [OF scan pos] consider (bump) us c vs where "pool_chunks s = us @ c # vs"
      "q = ck_bump c" "q \<noteq> 0" "ck_bump c + n \<le> ck_limit c" "cs = us @ c\<lparr>ck_bump := ck_bump c + n\<rparr> # vs"
    | (none) "q = 0" "cs = pool_chunks s" by blast
  then show ?thesis
  proof cases
    case bump
    then have eq: "p = q" "s' = s\<lparr>pool_chunks := cs\<rparr>" using r scan by (auto simp: Pool_Carve_def)
    have "ck_base c \<le> ck_bump c" using ok bump(1) by (auto simp: pool_ok_def chunk_ok_def)
    then show ?thesis using bump by (auto simp: eq chunks_grow_def chunks_range_def chunk_range_def)
  next
    case none
    obtain b s1 where mm: "sys_mmap api kChunkSize s = (b, s1)" by fastforce
    have s1: "pool_chunks s1 = pool_chunks s" using mm by (auto simp: sys_mmap_def Let_def)
    have new: "{b..<b + kChunkSize} \<inter> mapped (os_log s) = {}" if "b \<noteq> 0"
      using os_spec_mmap(1) [OF spec, of "os_log s" kChunkSize] that mm
      by (auto simp: sys_mmap_def Let_def kChunkSize_def)
    have n_le: "n \<le> kChunkSize"
      using n by (simp add: IsPooledSpanSize_def kMaxPooledSpan_def kChunkSize_def)
    show ?thesis
    proof (cases "b \<noteq> 0 \<and> length (pool_chunks s) < kMaxChunks")
      case True
      let ?c = "\<lparr>ck_base = b, ck_bump = b + n, ck_limit = b + kChunkSize\<rparr>"
      have eq: "p = b" "pool_chunks s' = pool_chunks s @ [?c]"
        using r scan none mm s1 True by (auto simp: Pool_Carve_def Let_def)
      have "chunk_range ?c = {b..<b + kChunkSize}" by (simp add: chunk_range_def)
      then show ?thesis using new True n_le eq unfolding chunks_grow_def chunks_range_def by auto
    next
      case False
      then have "p = 0" "pool_chunks s' = pool_chunks s"
        using r scan none mm s1 by (auto simp: Pool_Carve_def Let_def split: if_splits)
      then show ?thesis by (simp add: chunks_grow_def)
    qed
  qed
qed

lemma AllocatePages_chunks:
  assumes spec: "os_spec api" and ok: "pool_ok api s" and n: "0 < n" and r: "AllocatePages api n s = (p, s')"
  shows "chunks_grow s s'"
    and "p \<noteq> 0 \<Longrightarrow> n \<le> kMaxPooledSpan \<and> (\<exists>c \<in> set (pool_chunks s'). {p..<p + n} \<subseteq> chunk_range c)
        \<or> {p..<p + n} \<inter> chunks_range (pool_chunks s') = {}"
proof -
  have direct: "chunks_grow t s' \<and> (p \<noteq> 0 \<longrightarrow> {p..<p + n} \<inter> chunks_range (pool_chunks s') = {})"
    if t: "pool_ok api t" "sys_mmap api n t = (p, s')" for t :: "'a os_state_scheme"
    using mmap_disjoint_pool(1) [OF spec t(1), of n] n t(2)
    by (auto simp: sys_mmap_def Let_def chunks_grow_def disjoint_iff)
  have "chunks_grow s s' \<and> (p \<noteq> 0 \<longrightarrow>
      n \<le> kMaxPooledSpan \<and> (\<exists>c \<in> set (pool_chunks s'). {p..<p + n} \<subseteq> chunk_range c)
      \<or> {p..<p + n} \<inter> chunks_range (pool_chunks s') = {})"
  proof (cases "IsPooledSpanSize api n")
    case True
    obtain q s1 where c: "Pool_Carve api n s = (q, s1)" by fastforce
    note ch = Pool_Carve_chunks [OF spec ok True c]
    show ?thesis
    proof (cases "q = 0")
      case False
      then show ?thesis
        using r True c ch unfolding AllocatePages_def by (simp add: IsPooledSpanSize_def)
    next
      case q: True
      have s1: "pool_ok api s1" using Pool_Carve_fresh [OF spec ok True c] q by simp
      have "sys_mmap api n s1 = (p, s')" using r True c q by (simp add: AllocatePages_def)
      from direct [OF s1 this] ch q this show ?thesis
        by (auto simp: chunks_grow_def sys_mmap_def Let_def)
    qed
  next
    case False
    then show ?thesis using direct [OF ok] r by (simp add: AllocatePages_def)
  qed
  then show "chunks_grow s s'"
    "p \<noteq> 0 \<Longrightarrow> n \<le> kMaxPooledSpan \<and> (\<exists>c \<in> set (pool_chunks s'). {p..<p + n} \<subseteq> chunk_range c)
        \<or> {p..<p + n} \<inter> chunks_range (pool_chunks s') = {}" by blast+
qed

lemma AllocatePages_owned:
  assumes spec: "os_spec api" and ok: "pool_ok api s" and n: "0 < n" "n mod GetPageSize api = 0"
    and r: "AllocatePages api n s = (p, s')"
  shows "p \<noteq> 0 \<Longrightarrow> span_owned api s' p n"
    and "span_owned api s q k \<Longrightarrow> span_owned api s' q k"
proof -
  note f = AllocatePages_fresh [OF spec ok n(1) r] and g = AllocatePages_chunks [OF spec ok n(1) r]
  show "span_owned api s' p n" if "p \<noteq> 0"
    using f g(2) [OF that] that n by (auto simp: span_owned_def fresh_range_def)
  have grow: "in_use s \<subseteq> in_use s'" using f by (auto simp: fresh_range_def split: if_splits)
  assume own: "span_owned api s q k"
  then have q: "{q..<q + k} \<subseteq> in_use s" by (simp add: span_owned_def)
  then have m: "{q..<q + k} \<subseteq> mapped (os_log s)" using pool_ok_in_use [OF ok] by blast
  have "k \<le> kMaxPooledSpan \<and> (\<exists>c \<in> set (pool_chunks s'). {q..<q + k} \<subseteq> chunk_range c)
      \<or> {q..<q + k} \<inter> chunks_range (pool_chunks s') = {}"
  proof (cases "{q..<q + k} \<inter> chunks_range (pool_chunks s) = {}")
    case True
    then show ?thesis using m g(1) unfolding chunks_grow_def by blast
  next
    case False
    then obtain c where "c \<in> set (pool_chunks s)" "{q..<q + k} \<subseteq> chunk_range c" "k \<le> kMaxPooledSpan"
      using own by (auto simp: span_owned_def)
    moreover from this(1) obtain d where "d \<in> set (pool_chunks s')" "chunk_range d = chunk_range c"
      using g(1) unfolding chunks_grow_def by (metis (no_types) image_iff subset_iff)
    ultimately show ?thesis by blast
  qed
  then show "span_owned api s' q k" using own q grow by (auto simp: span_owned_def)
qed

section \<open>Contract of a supplier of address ranges\<close>

text \<open>
  The contract: a request either fails and changes nothing in use, or yields a well-formed span
  disjoint from everything in use. The client lemma says what a sequence of requests yields.
\<close>

primrec request_spans :: "(nat \<Rightarrow> 's \<Rightarrow> addr \<times> 's) \<Rightarrow> nat list \<Rightarrow> 's \<Rightarrow> (addr \<times> nat) list \<times> 's" where
  "request_spans alloc [] s = ([], s)"
| "request_spans alloc (n # ns) s =
     (let (p, s) = alloc n s; (ps, s) = request_spans alloc ns s
      in (if p = 0 then ps else (p, n) # ps, s))"

definition span_range :: "addr \<times> nat \<Rightarrow> nat set" where
  "span_range x = {fst x..<fst x + snd x}"

locale page_source =
  fixes alloc :: "nat \<Rightarrow> 's \<Rightarrow> addr \<times> 's" and used :: "'s \<Rightarrow> nat set" and inv :: "'s \<Rightarrow> bool"
    and content :: "'s \<Rightarrow> mem" and good :: "addr \<Rightarrow> nat \<Rightarrow> bool" and valid :: "nat \<Rightarrow> bool"
  assumes alloc_null: "inv s \<Longrightarrow> valid n \<Longrightarrow> alloc n s = (0, s') \<Longrightarrow>
      inv s' \<and> used s' = used s \<and> (\<forall>a \<in> used s. content s' a = content s a)"
    and alloc_span: "inv s \<Longrightarrow> valid n \<Longrightarrow> alloc n s = (p, s') \<Longrightarrow> p \<noteq> 0 \<Longrightarrow>
      inv s' \<and> good p n \<and> {p..<p + n} \<inter> used s = {} \<and> used s' = used s \<union> {p..<p + n}
      \<and> (\<forall>a \<in> used s. content s' a = content s a)"
begin

lemma spans_fresh:
  assumes "inv s" "\<forall>n \<in> set ns. valid n" "request_spans alloc ns s = (xs, s')"
  shows "inv s' \<and> used s' = used s \<union> (\<Union>x \<in> set xs. span_range x)
    \<and> (\<forall>x \<in> set xs. good (fst x) (snd x) \<and> span_range x \<inter> used s = {})
    \<and> sorted_wrt (\<lambda>x y. span_range x \<inter> span_range y = {}) xs
    \<and> (\<forall>a \<in> used s. content s' a = content s a)"
  using assms
proof (induction ns arbitrary: s xs)
  case Nil
  then show ?case by simp
next
  case (Cons n ns)
  obtain p s1 where a: "alloc n s = (p, s1)" by fastforce
  obtain ys s2 where r: "request_spans alloc ns s1 = (ys, s2)" by fastforce
  have res: "xs = (if p = 0 then ys else (p, n) # ys)" "s' = s2" using Cons.prems(3) a r by simp_all
  have n: "valid n" "\<forall>n \<in> set ns. valid n" using Cons.prems by auto
  show ?case
  proof (cases "p = 0")
    case True
    have s1: "inv s1" "used s1 = used s" "\<forall>a \<in> used s. content s1 a = content s a"
      using alloc_null [OF Cons.prems(1) n(1)] a True by auto
    show ?thesis using Cons.IH [OF s1(1) n(2) r [folded res(2)]] s1 res True by auto
  next
    case False
    have s1: "inv s1" "good p n" "{p..<p + n} \<inter> used s = {}" "used s1 = used s \<union> {p..<p + n}"
      "\<forall>a \<in> used s. content s1 a = content s a"
      using alloc_span [OF Cons.prems(1) n(1) a False] by auto
    show ?thesis using Cons.IH [OF s1(1) n(2) r [folded res(2)]] s1 res False
      by (auto simp: span_range_def Int_Un_distrib)
  qed
qed

end

interpretation os_pages: page_source "AllocatePages api" in_use "\<lambda>s. os_spec api \<and> pool_ok api s" mem "span_ok api" "\<lambda>n. 0 < n"
  for api
proof
  fix s s' and n p :: nat
  assume inv: "os_spec api \<and> pool_ok api s" and n: "0 < n"
  note fresh = AllocatePages_fresh [OF conjunct1 [OF inv] conjunct2 [OF inv] n]
  show "(os_spec api \<and> pool_ok api s') \<and> in_use s' = in_use s \<and> (\<forall>a \<in> in_use s. mem s' a = mem s a)"
    if "AllocatePages api n s = (0, s')"
    using fresh [OF that] inv by simp
  show "(os_spec api \<and> pool_ok api s') \<and> span_ok api p n \<and> {p..<p + n} \<inter> in_use s = {}
      \<and> in_use s' = in_use s \<union> {p..<p + n} \<and> (\<forall>a \<in> in_use s. mem s' a = mem s a)"
    if "AllocatePages api n s = (p, s')" "p \<noteq> 0"
    using fresh [OF that(1)] that(2) inv by (simp add: fresh_range_def)
qed

section \<open>A kernel that meets the specification\<close>

text \<open>
  Mappings are placed above everything the history mentions; fresh pages read zero; \<^verbatim>\<open>mremap\<close> shrinks in
  place and grows by moving, where it may.
\<close>

fun event_end :: "os_event \<Rightarrow> nat" where
  "event_end (Mmap p n) = p + n"
| "event_end (Munmap p n) = p + n"
| "event_end (Madvise p n) = p + n"
| "event_end (Mremap p n q k) = max (p + n) (q + k)"

definition demo_top :: "os_event list \<Rightarrow> nat" where
  "demo_top l = (fold (\<lambda>ev t. max t (event_end ev)) l 65536 + 4095) div 4096 * 4096"

definition demo_os :: os_api where
  "demo_os = \<lparr>os_mmap = (\<lambda>l n. if demo_top l + n \<le> 2 ^ 47 then demo_top l else 0),
     os_mremap = (\<lambda>l p n k maymove. if k \<le> n \<and> p mod 4096 = 0 \<and> 65536 \<le> p \<and> p + k \<le> 2 ^ 47 then p
       else if maymove \<and> demo_top l + k \<le> 2 ^ 47 then demo_top l else 0),
     os_effect = (\<lambda>ev m a. case ev of
         Mremap p n q k \<Rightarrow> if q \<noteq> 0 \<and> q \<le> a \<and> a < q + k then (if a - q < n then m (p + (a - q)) else 0)
           else if a \<in> event_range ev then 0 else m a
       | _ \<Rightarrow> if a \<in> event_range ev then 0 else m a),
     os_sysconf_pagesize = 4096, os_page_cache_mb = None\<rparr>"

definition os_init :: os_state where
  "os_init = \<lparr>mem = \<lambda>_. 0, os_log = [], pool_chunks = []\<rparr>"

lemma fold_max_ge: "(t::nat) \<le> fold (\<lambda>ev t. max t (event_end ev)) l t"
proof (induction l arbitrary: t)
  case (Cons ev l)
  from Cons.IH [of "max t (event_end ev)"] show ?case by simp
qed simp

lemma map_event_below: "(\<forall>a \<in> A. a < t) \<Longrightarrow> \<forall>a \<in> map_event ev A. a < max t (event_end ev)"
  by (cases ev) (auto simp: less_max_iff_disj)

lemma mapped_below_fold:
  "(\<forall>a \<in> A. a < t) \<Longrightarrow> \<forall>a \<in> fold map_event l A. a < fold (\<lambda>ev t. max t (event_end ev)) l t"
proof (induction l arbitrary: A t)
  case (Cons ev l)
  from Cons.IH [OF map_event_below [OF Cons.prems]] show ?case by simp
qed simp

lemma demo_top_bounds: "65536 \<le> demo_top l" "demo_top l mod 4096 = 0" "\<forall>a \<in> mapped l. a < demo_top l"
proof -
  let ?t = "fold (\<lambda>ev t. max t (event_end ev)) l 65536"
  have "?t \<le> (?t + 4095) div 4096 * 4096" by linarith
  then have le: "?t \<le> demo_top l" by (simp add: demo_top_def)
  then show "65536 \<le> demo_top l" using fold_max_ge [of 65536 l] by linarith
  show "\<forall>a \<in> mapped l. a < demo_top l"
    using le mapped_below_fold [of "{}" 65536 l] by (auto simp: mapped_def intro: less_le_trans)
  show "demo_top l mod 4096 = 0" by (simp add: demo_top_def)
qed

lemma demo_page [simp]: "GetPageSize demo_os = 4096"
  by (simp add: GetPageSize_def demo_os_def)

lemma demo_above: "{demo_top l..<demo_top l + n} \<inter> mapped l = {}"
  using demo_top_bounds(3) by fastforce

lemma demo_mremap_spec: "mremap_spec demo_os"
  unfolding mremap_spec_def
proof (rule conjI; intro allI impI)
  fix l p n k maymove q
  assume q: "q = os_mremap demo_os l p n k maymove" "q \<noteq> 0" "0 < k" "{p..<p + n} \<subseteq> mapped l"
  consider "k \<le> n" "p mod 4096 = 0" "65536 \<le> p" "p + k \<le> 2 ^ 47" "q = p" | "maymove" "demo_top l + k \<le> 2 ^ 47" "q = demo_top l"
    using q(1,2) by (auto simp: demo_os_def split: if_splits)
  then show "{q..<q + k} \<inter> (mapped l - {p..<p + n}) = {} \<and> q mod GetPageSize demo_os = 0 \<and> 65536 \<le> q \<and> q + k \<le> 2 ^ 47 \<and> (\<not> maymove \<longrightarrow> q = p)"
  proof cases
    case 1
    then show ?thesis by auto
  next
    case 2
    then show ?thesis using demo_top_bounds(1,2) [of l] demo_above [of l k] by auto
  qed
next
  fix p n q k i :: nat and m
  assume "q \<noteq> 0" "i < n" "i < k"
  then show "os_effect demo_os (Mremap p n q k) m (q + i) = m (p + i)" by (simp add: demo_os_def)
qed

lemma demo_os_spec: "os_spec demo_os"
proof -
  have "\<exists>k. GetPageSize demo_os = 2 ^ k \<and> 12 \<le> k \<and> k \<le> 21" by (rule exI [of _ 12]) simp
  moreover have "os_effect demo_os ev m a = m a" if "a \<notin> event_range ev" for ev m a
    using that by (cases ev) (auto simp: demo_os_def split: if_splits)
  moreover have "{os_mmap demo_os l n..<os_mmap demo_os l n + n} \<inter> mapped l = {} \<and> os_mmap demo_os l n mod GetPageSize demo_os = 0
      \<and> 65536 \<le> os_mmap demo_os l n \<and> os_mmap demo_os l n + n \<le> 2 ^ 47" if "os_mmap demo_os l n \<noteq> 0" for l n
  proof -
    have "os_mmap demo_os l n = demo_top l" "demo_top l + n \<le> 2 ^ 47" using that by (simp_all add: demo_os_def split: if_splits)
    then show ?thesis using demo_top_bounds(1,2) [of l] demo_above [of l n] by simp
  qed
  ultimately show ?thesis using demo_mremap_spec unfolding os_spec_def by blast
qed

lemmas demo_simps = demo_os_def demo_top_def os_init_def AllocatePages_def FreePages_def Pool_Carve_def
  sys_mmap_def syscall_def IsPooledSpanSize_def GetPageSize_def kMaxPooledSpan_def kChunkSize_def
  kMaxChunks_def Let_def

lemma os_init_pool_ok: "pool_ok api os_init" "in_use os_init = {}"
  by (simp_all add: pool_ok_def os_init_def in_use_def chunks_carved_def)

section \<open>Properties\<close>

text \<open>
  C35: for a kernel that behaves as documented, any sequence of page requests returns page-aligned
  spans in the user address range that are pairwise disjoint and disjoint from everything already
  in use, whether they are carved from a chunk, open a new chunk or are mapped directly; failed
  requests take nothing, and the contents of memory in use are kept.
\<close>

theorem allocate_pages_disjoint:
  assumes "os_spec api" "pool_ok api s" "\<forall>n \<in> set ns. 0 < n"
    "request_spans (AllocatePages api) ns s = (xs, s')"
  shows "pool_ok api s' \<and> in_use s' = in_use s \<union> (\<Union>x \<in> set xs. span_range x)
    \<and> (\<forall>x \<in> set xs. span_ok api (fst x) (snd x) \<and> span_range x \<inter> in_use s = {})
    \<and> sorted_wrt (\<lambda>x y. span_range x \<inter> span_range y = {}) xs
    \<and> (\<forall>a \<in> in_use s. mem s' a = mem s a)"
  using os_pages.spans_fresh [of api s ns xs s'] assms by simp

theorem allocate_pages_disjoint_witness:
  "let (xs, s') = request_spans (AllocatePages demo_os) [8192, 4096, 3000000] os_init
   in xs = [(65536, 8192), (73728, 4096), (4259840, 3000000)]
    \<and> in_use s' = (\<Union>x \<in> set xs. span_range x)"
proof -
  obtain xs s' where r: "request_spans (AllocatePages demo_os) [8192, 4096, 3000000] os_init = (xs, s')"
    by fastforce
  have "xs = fst (request_spans (AllocatePages demo_os) [8192, 4096, 3000000] os_init)"
    using r by simp
  also have "\<dots> = [(65536, 8192), (73728, 4096), (4259840, 3000000)]"
    by (simp add: demo_simps)
  finally have "xs = [(65536, 8192), (73728, 4096), (4259840, 3000000)]" .
  moreover have "in_use s' = (\<Union>x \<in> set xs. span_range x)"
    using allocate_pages_disjoint [OF demo_os_spec os_init_pool_ok(1) _ r] by (simp add: os_init_pool_ok)
  ultimately show ?thesis using r by simp
qed

text \<open>
  C36: giving back a span makes exactly one system call: \<^verbatim>\<open>madvise(MADV_DONTNEED)\<close> for a span inside
  a chunk of the pool, \<^verbatim>\<open>munmap\<close> for one that was mapped directly, each over the whole span. It
  keeps the pool well formed and touches no other memory. A span mapped directly is unmapped and its
  addresses stop being in use; a span inside a chunk stays mapped and in use, so no later carve hands
  it out again.
\<close>

theorem free_pages_effect:
  assumes "os_spec api" "pool_ok api s" "span_owned api s p n"
  shows "os_log (FreePages api p n s) = os_log s @ [if IsPoolBacked p s then Madvise p n else Munmap p n]
    \<and> mem (FreePages api p n s) = os_effect api (if IsPoolBacked p s then Madvise p n else Munmap p n) (mem s)
    \<and> pool_ok api (FreePages api p n s) \<and> pool_chunks (FreePages api p n s) = pool_chunks s
    \<and> in_use (FreePages api p n s) = (if IsPoolBacked p s then in_use s else in_use s - {p..<p + n})
    \<and> mapped (os_log (FreePages api p n s)) =
        (if IsPoolBacked p s then mapped (os_log s) else mapped (os_log s) - {p..<p + n})
    \<and> (\<forall>a. a \<notin> {p..<p + n} \<longrightarrow> mem (FreePages api p n s) a = mem s a)"
  using FreePages_owned [OF assms] FreePages_event [OF assms(3)] by (simp add: syscall_def)

theorem free_pages_effect_witness:
  "let s = snd (AllocatePages demo_os 8192 os_init)
   in os_log (FreePages demo_os 65536 8192 s) = os_log s @ [Madvise 65536 8192]
    \<and> in_use (FreePages demo_os 65536 8192 s) = in_use s \<and> {65536..<73728} \<subseteq> in_use s"
proof -
  define s where "s = snd (AllocatePages demo_os 8192 os_init)"
  have r: "AllocatePages demo_os 8192 os_init = (65536, s)"
  proof -
    have "fst (AllocatePages demo_os 8192 os_init) = 65536" by (simp add: demo_simps)
    then show ?thesis by (simp add: s_def prod_eq_iff)
  qed
  have c: "pool_chunks s = [\<lparr>ck_base = 65536, ck_bump = 73728, ck_limit = 4259840\<rparr>]"
    unfolding s_def by (simp add: demo_simps)
  have f: "fresh_range demo_os os_init 65536 8192 s"
    using AllocatePages_fresh [OF demo_os_spec os_init_pool_ok(1) _ r] by simp
  then have u: "in_use s = {65536..<73728}" "pool_ok demo_os s"
    by (simp_all add: fresh_range_def os_init_pool_ok)
  have "GetPageSize demo_os = 4096" by (simp add: demo_simps)
  then have "span_owned demo_os s 65536 8192"
    using u by (auto simp: span_owned_def c chunk_range_def kMaxPooledSpan_def)
  moreover have "IsPoolBacked 65536 s" by (simp add: IsPoolBacked_def Pool_Contains_def c)
  ultimately show ?thesis
    using free_pages_effect [OF demo_os_spec u(2)] u by (simp add: s_def)
qed

end
