(* ===== verification/FA_Stats.thy ===== *)
theory FA_Stats
  imports FA_Prelude
begin

text \<open>
  \<^verbatim>\<open>stats\<close> of \<^verbatim>\<open>src/debug_aid.cpp\<close>: the relaxed global counters and the operations on
  them, release build. Every counter is a \<^verbatim>\<open>size_t\<close> and wraps. \<open>stats_event\<close> lists the
  entry points, so that a run of the allocator is a list of events; the balance lemma relates
  the live counters to the numbers of allocations and frees.
\<close>

record stats =
  small_allocs :: nat
  small_frees :: nat
  large_allocs :: nat
  large_frees :: nat
  reallocs :: nat
  live_blocks :: nat
  live_bytes :: nat
  peak_live_blocks :: nat
  peak_live_bytes :: nat
  os_allocs :: nat
  os_frees :: nat
  os_bytes_live :: nat
  page_cache_hits :: nat
  page_cache_bytes :: nat
  page_cache_evictions :: nat
  tls_misses :: nat
  pending_pushes :: nat
  tls_created :: nat
  tls_destroyed :: nat

definition stats_zero :: stats where
  "stats_zero = \<lparr>small_allocs = 0, small_frees = 0, large_allocs = 0, large_frees = 0, reallocs = 0,
     live_blocks = 0, live_bytes = 0, peak_live_blocks = 0, peak_live_bytes = 0, os_allocs = 0,
     os_frees = 0, os_bytes_live = 0, page_cache_hits = 0, page_cache_bytes = 0,
     page_cache_evictions = 0, tls_misses = 0, pending_pushes = 0, tls_created = 0, tls_destroyed = 0\<rparr>"

section \<open>Operations\<close>

text \<open>The compare-exchange loops leave the maximum in the peak counters.\<close>

definition BumpLive :: "nat \<Rightarrow> nat \<Rightarrow> stats \<Rightarrow> stats" where
  "BumpLive n bytes st =
     (let st = st\<lparr>live_blocks := add64 (live_blocks st) n\<rparr>;
          st = st\<lparr>live_bytes := add64 (live_bytes st) bytes\<rparr>;
          b = live_blocks st; by' = live_bytes st;
          st = (if b > peak_live_blocks st then st\<lparr>peak_live_blocks := b\<rparr> else st)
      in (if by' > peak_live_bytes st then st\<lparr>peak_live_bytes := by'\<rparr> else st))"

definition DropLive :: "nat \<Rightarrow> nat \<Rightarrow> stats \<Rightarrow> stats" where
  "DropLive n bytes st =
     (let st = st\<lparr>live_blocks := sub64 (live_blocks st) n\<rparr>
      in st\<lparr>live_bytes := sub64 (live_bytes st) bytes\<rparr>)"

definition CountSmallAlloc :: "nat \<Rightarrow> nat \<Rightarrow> stats \<Rightarrow> stats" where
  "CountSmallAlloc n bytes st = BumpLive n bytes (st\<lparr>small_allocs := add64 (small_allocs st) n\<rparr>)"

definition CountSmallFree :: "nat \<Rightarrow> nat \<Rightarrow> stats \<Rightarrow> stats" where
  "CountSmallFree n bytes st = DropLive n bytes (st\<lparr>small_frees := add64 (small_frees st) n\<rparr>)"

definition CountLargeAlloc :: "nat \<Rightarrow> nat \<Rightarrow> stats \<Rightarrow> stats" where
  "CountLargeAlloc n bytes st = BumpLive n bytes (st\<lparr>large_allocs := add64 (large_allocs st) n\<rparr>)"

definition CountLargeFree :: "nat \<Rightarrow> nat \<Rightarrow> stats \<Rightarrow> stats" where
  "CountLargeFree n bytes st = DropLive n bytes (st\<lparr>large_frees := add64 (large_frees st) n\<rparr>)"

definition CountRealloc :: "nat \<Rightarrow> stats \<Rightarrow> stats" where
  "CountRealloc n st = st\<lparr>reallocs := add64 (reallocs st) n\<rparr>"

definition CountOsAlloc :: "nat \<Rightarrow> stats \<Rightarrow> stats" where
  "CountOsAlloc bytes st = st\<lparr>os_allocs := add64 (os_allocs st) 1,
     os_bytes_live := add64 (os_bytes_live st) bytes\<rparr>"

definition CountOsFree :: "nat \<Rightarrow> stats \<Rightarrow> stats" where
  "CountOsFree bytes st = st\<lparr>os_frees := add64 (os_frees st) 1,
     os_bytes_live := sub64 (os_bytes_live st) bytes\<rparr>"

definition CountPageCacheHit :: "stats \<Rightarrow> stats" where
  "CountPageCacheHit st = st\<lparr>page_cache_hits := add64 (page_cache_hits st) 1\<rparr>"

definition CountPageCacheStore :: "nat \<Rightarrow> stats \<Rightarrow> stats" where
  "CountPageCacheStore bytes st = st\<lparr>page_cache_bytes := add64 (page_cache_bytes st) bytes\<rparr>"

definition CountPageCacheEvict :: "nat \<Rightarrow> stats \<Rightarrow> stats" where
  "CountPageCacheEvict bytes st = st\<lparr>page_cache_bytes := sub64 (page_cache_bytes st) bytes,
     page_cache_evictions := add64 (page_cache_evictions st) 1\<rparr>"

definition CountPendingPush :: "stats \<Rightarrow> stats" where
  "CountPendingPush st = st\<lparr>pending_pushes := add64 (pending_pushes st) 1\<rparr>"

definition CountTlsMisses :: "stats \<Rightarrow> stats" where
  "CountTlsMisses st = st\<lparr>tls_misses := add64 (tls_misses st) 1\<rparr>"

definition CountTlsCreate :: "stats \<Rightarrow> stats" where
  "CountTlsCreate st = st\<lparr>tls_created := add64 (tls_created st) 1\<rparr>"

definition CountTlsDestroy :: "stats \<Rightarrow> stats" where
  "CountTlsDestroy st = st\<lparr>tls_destroyed := add64 (tls_destroyed st) 1\<rparr>"

lemmas stats_defs = BumpLive_def DropLive_def CountSmallAlloc_def CountSmallFree_def
  CountLargeAlloc_def CountLargeFree_def CountRealloc_def CountOsAlloc_def CountOsFree_def
  CountPageCacheHit_def CountPageCacheStore_def CountPageCacheEvict_def CountPendingPush_def
  CountTlsMisses_def CountTlsCreate_def CountTlsDestroy_def

section \<open>Runs of counter events\<close>

datatype stats_event =
    SmallAlloc nat nat | SmallFree nat nat | LargeAlloc nat nat | LargeFree nat nat
  | Realloc nat | OsAlloc nat | OsFree nat | PageCacheHit | PageCacheStore nat
  | PageCacheEvict nat | PendingPush | TlsMiss | TlsCreate | TlsDestroy

fun stats_step :: "stats_event \<Rightarrow> stats \<Rightarrow> stats" where
  "stats_step (SmallAlloc n b) = CountSmallAlloc n b"
| "stats_step (SmallFree n b) = CountSmallFree n b"
| "stats_step (LargeAlloc n b) = CountLargeAlloc n b"
| "stats_step (LargeFree n b) = CountLargeFree n b"
| "stats_step (Realloc n) = CountRealloc n"
| "stats_step (OsAlloc b) = CountOsAlloc b"
| "stats_step (OsFree b) = CountOsFree b"
| "stats_step PageCacheHit = CountPageCacheHit"
| "stats_step (PageCacheStore b) = CountPageCacheStore b"
| "stats_step (PageCacheEvict b) = CountPageCacheEvict b"
| "stats_step PendingPush = CountPendingPush"
| "stats_step TlsMiss = CountTlsMisses"
| "stats_step TlsCreate = CountTlsCreate"
| "stats_step TlsDestroy = CountTlsDestroy"

definition stats_run :: "stats_event list \<Rightarrow> stats \<Rightarrow> stats" where
  "stats_run evs st = fold stats_step evs st"

text \<open>Signed change of the live counters by an event.\<close>

fun live_delta :: "stats_event \<Rightarrow> int \<times> int" where
  "live_delta (SmallAlloc n b) = (int n, int b)"
| "live_delta (LargeAlloc n b) = (int n, int b)"
| "live_delta (SmallFree n b) = (- int n, - int b)"
| "live_delta (LargeFree n b) = (- int n, - int b)"
| "live_delta _ = (0, 0)"

lemma int_add64: "int (add64 a b) = (int a + int b) mod 2 ^ 64"
  by (simp add: add64_def zmod_int)

lemma int_sub64: "int (sub64 a b) = (int a - int b) mod 2 ^ 64"
proof -
  have "b mod 2 ^ 64 \<le> 2 ^ 64" by (rule less_imp_le) simp
  then have "int (sub64 a b) = (int a + (2 ^ 64 - int b mod 2 ^ 64)) mod 2 ^ 64"
    by (simp add: sub64_def zmod_int of_nat_diff algebra_simps)
  also have "int a + (2 ^ 64 - int b mod 2 ^ 64) = int a - int b mod 2 ^ 64 + 2 ^ 64" by simp
  also have "\<dots> mod 2 ^ 64 = (int a - int b mod 2 ^ 64) mod 2 ^ 64" by (rule mod_add_self2)
  also have "\<dots> = (int a - int b) mod 2 ^ 64" by (rule mod_diff_right_eq)
  finally show ?thesis .
qed

lemma stats_step_live:
  "int (live_blocks (stats_step ev st)) mod 2 ^ 64 = (int (live_blocks st) + fst (live_delta ev)) mod 2 ^ 64"
  "int (live_bytes (stats_step ev st)) mod 2 ^ 64 = (int (live_bytes st) + snd (live_delta ev)) mod 2 ^ 64"
  by (cases ev; simp add: stats_defs Let_def int_add64 int_sub64)+

text \<open>What the fields of the snapshot are after a run: the net number of blocks and bytes.\<close>

definition net_blocks :: "stats_event list \<Rightarrow> int" where
  "net_blocks evs = (\<Sum>ev \<leftarrow> evs. fst (live_delta ev))"

definition net_bytes :: "stats_event list \<Rightarrow> int" where
  "net_bytes evs = (\<Sum>ev \<leftarrow> evs. snd (live_delta ev))"

lemma stats_run_live:
  "int (live_blocks (stats_run evs st)) mod 2 ^ 64 = (int (live_blocks st) + net_blocks evs) mod 2 ^ 64"
  "int (live_bytes (stats_run evs st)) mod 2 ^ 64 = (int (live_bytes st) + net_bytes evs) mod 2 ^ 64"
proof (induction evs arbitrary: st)
  case Nil
  case 1 then show ?case by (simp add: stats_run_def net_blocks_def)
  case 2 then show ?case by (simp add: stats_run_def net_bytes_def)
next
  case (Cons ev evs)
  have run: "stats_run (ev # evs) st = stats_run evs (stats_step ev st)" for st
    by (simp add: stats_run_def)
  case 1
  have "int (live_blocks (stats_run (ev # evs) st)) mod 2 ^ 64
      = (int (live_blocks (stats_step ev st)) mod 2 ^ 64 + net_blocks evs) mod 2 ^ 64"
    unfolding run Cons.IH(1) by (simp add: mod_add_left_eq)
  also have "\<dots> = (int (live_blocks st) + fst (live_delta ev) + net_blocks evs) mod 2 ^ 64"
    unfolding stats_step_live(1) by (simp add: mod_add_left_eq)
  finally show ?case by (simp add: net_blocks_def add.assoc)
  case 2
  have "int (live_bytes (stats_run (ev # evs) st)) mod 2 ^ 64
      = (int (live_bytes (stats_step ev st)) mod 2 ^ 64 + net_bytes evs) mod 2 ^ 64"
    unfolding run Cons.IH(2) by (simp add: mod_add_left_eq)
  also have "\<dots> = (int (live_bytes st) + snd (live_delta ev) + net_bytes evs) mod 2 ^ 64"
    unfolding stats_step_live(2) by (simp add: mod_add_left_eq)
  finally show ?case by (simp add: net_bytes_def add.assoc)
qed

lemma stats_step_bounded:
  "live_blocks st < 2 ^ 64 \<and> live_bytes st < 2 ^ 64 \<Longrightarrow>
   live_blocks (stats_step ev st) < 2 ^ 64 \<and> live_bytes (stats_step ev st) < 2 ^ 64"
  by (cases ev) (simp_all add: stats_defs Let_def add64_def sub64_def)

lemma stats_run_bounded:
  "live_blocks st < 2 ^ 64 \<and> live_bytes st < 2 ^ 64 \<Longrightarrow>
   live_blocks (stats_run evs st) < 2 ^ 64 \<and> live_bytes (stats_run evs st) < 2 ^ 64"
proof (induction evs arbitrary: st)
  case Nil
  then show ?case by (simp add: stats_run_def)
next
  case (Cons ev evs)
  from Cons.IH [OF stats_step_bounded [OF Cons.prems]] show ?case by (simp add: stats_run_def)
qed

section \<open>Properties\<close>

text \<open>
  C39: after any run of counter events from the initial state the live counters are the net
  number of blocks and bytes handed out, provided these totals are within the range of a
  \<^verbatim>\<open>size_t\<close>; intermediate wrap-around (frees flushed by one thread before the matching
  allocations are flushed by another) cancels out.
\<close>

theorem stats_live_balance:
  assumes "0 \<le> net_blocks evs" "net_blocks evs < 2 ^ 64" "0 \<le> net_bytes evs" "net_bytes evs < 2 ^ 64"
  shows "int (live_blocks (stats_run evs stats_zero)) = net_blocks evs
    \<and> int (live_bytes (stats_run evs stats_zero)) = net_bytes evs"
proof -
  let ?st = "stats_run evs stats_zero"
  have "live_blocks ?st < 2 ^ 64 \<and> live_bytes ?st < 2 ^ 64"
    by (rule stats_run_bounded) (simp add: stats_zero_def)
  then have "int (live_blocks ?st) = int (live_blocks ?st) mod 2 ^ 64"
    "int (live_bytes ?st) = int (live_bytes ?st) mod 2 ^ 64" by simp_all
  then show ?thesis
    using stats_run_live [of evs stats_zero] assms by (simp add: stats_zero_def)
qed

theorem stats_live_balance_witness:
  "int (live_bytes (stats_run [SmallFree 1 64, SmallAlloc 2 160] stats_zero)) = 96"
  using stats_live_balance [of "[SmallFree 1 64, SmallAlloc 2 160]"]
  by (simp add: net_blocks_def net_bytes_def)

end
