(* ===== verification/FA_PageHeap.thy ===== *)
theory FA_PageHeap
  imports FA_OSMemory FA_Stats
begin

text \<open>
  The page-span cache of \<^verbatim>\<open>src/global_heap.cpp\<close> (the anonymous namespace at its top): 512
  bins of freed spans of 1 to 512 pages, linked through their first cell, the bit array of
  non-empty hints, the retention limits and the best-fit split. A call runs with every bin lock
  free; the order of the effects inside a call is that of the source. \<open>ph_ok api s L\<close> is the
  invariant, \<open>L p\<close> the spans filed in bin \<open>p\<close>; \<open>ph_used\<close> is the set of addresses held by
  clients. \<open>page_heap\<close> shows that the cache is a supplier of address ranges like the OS below it.
\<close>

section \<open>State\<close>

definition MAX_CACHED_PAGES :: nat where "MAX_CACHED_PAGES = 512"
definition PAGE_CACHE_PER_BIN_BYTES :: nat where "PAGE_CACHE_PER_BIN_BYTES = 2 * 1024 * 1024"

record page_bin =
  pb_head :: addr
  pb_count :: nat

record ph_state = os_state +
  page_bins :: "nat \<Rightarrow> page_bin"
  page_nonempty :: "nat \<Rightarrow> 64 word"
  page_cache_total_bytes :: nat
  g_stats :: stats
  g_oom_fail_countdown :: int

definition page_nonempty_size :: nat where
  "page_nonempty_size = (MAX_CACHED_PAGES + 64) div 64"

definition pn_next :: "mem \<Rightarrow> addr \<Rightarrow> addr" where "pn_next m x = m x"
definition set_pn_next :: "addr \<Rightarrow> addr \<Rightarrow> mem \<Rightarrow> mem" where "set_pn_next x v m = m(x := v)"

interpretation pn: link_field pn_next set_pn_next
  by unfold_locales (simp add: pn_next_def set_pn_next_def)

section \<open>Operations\<close>

definition PageCacheTotalLimit :: "os_api \<Rightarrow> nat" where
  "PageCacheTotalLimit api =
     (let mb = (case os_page_cache_mb api of None \<Rightarrow> 64 | Some v \<Rightarrow> if v > 0 then nat v else 64)
      in mul64 (mul64 mb 1024) 1024)"

definition MarkNonEmpty :: "nat \<Rightarrow> 'a ph_state_scheme \<Rightarrow> 'a ph_state_scheme" where
  "MarkNonEmpty pages s = s\<lparr>page_nonempty := (page_nonempty s)(drop_bit 6 pages :=
     page_nonempty s (drop_bit 6 pages) OR push_bit (pages AND 63) 1)\<rparr>"

definition MarkMaybeEmpty :: "nat \<Rightarrow> 'a ph_state_scheme \<Rightarrow> 'a ph_state_scheme" where
  "MarkMaybeEmpty pages s = s\<lparr>page_nonempty := (page_nonempty s)(drop_bit 6 pages :=
     page_nonempty s (drop_bit 6 pages) AND NOT (push_bit (pages AND 63) 1))\<rparr>"

function scan_words :: "(nat \<Rightarrow> 64 word) \<Rightarrow> nat \<Rightarrow> nat \<times> 64 word" where
  "scan_words ne w =
     (if w < page_nonempty_size then if ne w \<noteq> 0 then (w, ne w) else scan_words ne (w + 1)
      else (w, 0))"
  by auto
termination by (relation "measure (\<lambda>(ne, w). page_nonempty_size - w)") auto

declare scan_words.simps [simp del]

definition FirstNonEmptyAbove :: "nat \<Rightarrow> (nat \<Rightarrow> 64 word) \<Rightarrow> nat" where
  "FirstNonEmptyAbove pages ne =
     (let need = pages + 1;
          w = drop_bit 6 need;
          word = ne w AND push_bit (need AND 63) (NOT 0);
          (w, word) = (if word = 0 then scan_words ne (w + 1) else (w, word))
      in if word = 0 then 0
         else let p = push_bit 6 w + fast_ctzll word
              in if p \<le> MAX_CACHED_PAGES \<and> p > pages then p else 0)"

definition BinRetentionCount :: "os_api \<Rightarrow> nat \<Rightarrow> nat" where
  "BinRetentionCount api span_pages =
     (let span_size = mul64 span_pages (GetPageSize api);
          by_size = PAGE_CACHE_PER_BIN_BYTES div span_size
      in if by_size < 2 then 2 else if by_size > 64 then 64 else by_size)"

text \<open>Unlinking the head of a bin and linking a span in front of one, under the bin's lock.\<close>

definition bin_pop :: "nat \<Rightarrow> 'a ph_state_scheme \<Rightarrow> addr \<times> 'a ph_state_scheme" where
  "bin_pop p s =
     (let bin = page_bins s p;
          node = pb_head bin;
          bin = bin\<lparr>pb_head := pn_next (mem s) node\<rparr>;
          bin = bin\<lparr>pb_count := sub64 (pb_count bin) 1\<rparr>;
          s = s\<lparr>page_bins := (page_bins s)(p := bin)\<rparr>;
          s = (if pb_head bin = 0 then MarkMaybeEmpty p s else s)
      in (node, s))"

definition bin_push :: "nat \<Rightarrow> addr \<Rightarrow> 'a ph_state_scheme \<Rightarrow> 'a ph_state_scheme" where
  "bin_push p node s =
     (let bin = page_bins s p;
          s = s\<lparr>mem := set_pn_next node (pb_head bin) (mem s)\<rparr>;
          bin = bin\<lparr>pb_head := node\<rparr>;
          bin = bin\<lparr>pb_count := add64 (pb_count bin) 1\<rparr>;
          s = s\<lparr>page_bins := (page_bins s)(p := bin)\<rparr>
      in MarkNonEmpty p s)"

definition cache_bytes_sub :: "nat \<Rightarrow> 'a ph_state_scheme \<Rightarrow> 'a ph_state_scheme" where
  "cache_bytes_sub n s = s\<lparr>page_cache_total_bytes := sub64 (page_cache_total_bytes s) n\<rparr>"

definition cache_bytes_add :: "nat \<Rightarrow> 'a ph_state_scheme \<Rightarrow> 'a ph_state_scheme" where
  "cache_bytes_add n s = s\<lparr>page_cache_total_bytes := add64 (page_cache_total_bytes s) n\<rparr>"

definition count_stats :: "(stats \<Rightarrow> stats) \<Rightarrow> 'a ph_state_scheme \<Rightarrow> 'a ph_state_scheme" where
  "count_stats f s = s\<lparr>g_stats := f (g_stats s)\<rparr>"

text \<open>The body of the best-fit loop for a bin \<open>p\<close> that holds a span.\<close>

definition split_span :: "os_api \<Rightarrow> nat \<Rightarrow> nat \<Rightarrow> nat \<Rightarrow> 'a ph_state_scheme \<Rightarrow> addr \<times> 'a ph_state_scheme" where
  "split_span api sz pages p s =
     (let page_size = GetPageSize api;
          (node, s) = bin_pop p s;
          s = cache_bytes_sub (p * page_size) s;
          rem_pages = p - pages;
          s = (if rem_pages > 0 then
                 let s = bin_push rem_pages (node + sz) s;
                     s = cache_bytes_add (rem_pages * page_size) s
                 in count_stats (CountPageCacheStore (rem_pages * page_size)) s
               else s)
      in (node, count_stats CountPageCacheHit s))"

text \<open>Word of a bin index and bit in the word.\<close>

definition hint :: "(nat \<Rightarrow> 64 word) \<Rightarrow> nat \<Rightarrow> bool" where
  "hint ne q \<longleftrightarrow> bit (ne (q div 64)) (q mod 64)"

lemma FirstNonEmptyAbove_range:
  "FirstNonEmptyAbove pages ne = 0 \<or>
   pages < FirstNonEmptyAbove pages ne \<and> FirstNonEmptyAbove pages ne \<le> MAX_CACHED_PAGES"
  by (auto simp: FirstNonEmptyAbove_def Let_def split: prod.splits)

function best_fit :: "os_api \<Rightarrow> nat \<Rightarrow> nat \<Rightarrow> nat \<Rightarrow> 'a ph_state_scheme \<Rightarrow> addr \<times> 'a ph_state_scheme" where
  "best_fit api sz pages p s =
     (if p = 0 then (0, s)
      else if pb_head (page_bins s p) \<noteq> 0 then split_span api sz pages p s
      else let s = MarkMaybeEmpty p s
           in best_fit api sz pages (FirstNonEmptyAbove p (page_nonempty s)) s)"
  by auto
termination
proof (relation "measure (\<lambda>(api, sz, pages, p, s). if p = 0 then 0 else Suc (MAX_CACHED_PAGES - p))")
  fix p sz pages :: nat and s x :: "'a ph_state_scheme" and api :: os_api
  assume "p \<noteq> 0"
  then show "((api, sz, pages, FirstNonEmptyAbove p (page_nonempty x), x), api, sz, pages, p, s)
    \<in> measure (\<lambda>(api, sz, pages, p, s). if p = 0 then 0 else Suc (MAX_CACHED_PAGES - p))"
    using FirstNonEmptyAbove_range [of p "page_nonempty x"] by auto
qed simp

declare best_fit.simps [simp del]

definition PageHeapAllocate :: "os_api \<Rightarrow> nat \<Rightarrow> 'a ph_state_scheme \<Rightarrow> addr \<times> 'a ph_state_scheme" where
  "PageHeapAllocate api sz s =
     (let page_size = GetPageSize api;
          pages = sz div page_size;
          (r, s) = (if pages \<le> MAX_CACHED_PAGES \<and> pages > 0 then
                      if pb_head (page_bins s pages) \<noteq> 0 then
                        let (node, s) = bin_pop pages s;
                            s = cache_bytes_sub sz s
                        in (node, count_stats CountPageCacheHit s)
                      else best_fit api sz pages (FirstNonEmptyAbove pages (page_nonempty s)) s
                    else (0, s))
      in if r \<noteq> 0 then (r, s) else AllocatePages api sz s)"

definition PageHeapFree :: "os_api \<Rightarrow> addr \<Rightarrow> nat \<Rightarrow> 'a ph_state_scheme \<Rightarrow> 'a ph_state_scheme" where
  "PageHeapFree api p sz s =
     (let page_size = GetPageSize api;
          pages = sz div page_size
      in if pages \<le> MAX_CACHED_PAGES \<and> pages > 0 then
           let s = cache_bytes_add sz s;
               total = page_cache_total_bytes s
           in if total \<le> PageCacheTotalLimit api
                 \<and> pb_count (page_bins s pages) < BinRetentionCount api pages then
                let s = bin_push pages p s
                in count_stats (CountPageCacheStore sz) s
              else
                let s = cache_bytes_sub sz s;
                    s = count_stats (CountPageCacheEvict sz) s
                in FreePages api p sz s
         else FreePages api p sz s)"

text \<open>
  The purge walks each detached bin list to its end; a list that never ends would keep the walk
  running, so it is a partial function (None: it does not return).
\<close>

partial_function (option) purge_walk ::
  "os_api \<Rightarrow> nat \<Rightarrow> addr \<Rightarrow> nat \<Rightarrow> 'a ph_state_scheme \<Rightarrow> (nat \<times> 'a ph_state_scheme) option" where
  "purge_walk api p node released s =
     (if node = 0 then Some (released, s)
      else let next' = pn_next (mem s) node;
               span_size = p * GetPageSize api;
               s = FreePages api node span_size s;
               s = cache_bytes_sub span_size s;
               s = count_stats (CountPageCacheEvict span_size) s
           in purge_walk api p next' (add64 released span_size) s)"

fun purge_bins :: "os_api \<Rightarrow> nat list \<Rightarrow> nat \<Rightarrow> 'a ph_state_scheme \<Rightarrow> (nat \<times> 'a ph_state_scheme) option" where
  "purge_bins api [] released s = Some (released, s)"
| "purge_bins api (p # ps) released s =
     (let node = pb_head (page_bins s p);
          s = s\<lparr>page_bins := (page_bins s)(p := \<lparr>pb_head = 0, pb_count = 0\<rparr>)\<rparr>;
          s = MarkMaybeEmpty p s
      in case purge_walk api p node released s of
           None \<Rightarrow> None
         | Some (released, s) \<Rightarrow> purge_bins api ps released s)"

definition PurgePageCacheLocked :: "os_api \<Rightarrow> 'a ph_state_scheme \<Rightarrow> (nat \<times> 'a ph_state_scheme) option" where
  "PurgePageCacheLocked api s = purge_bins api [1..<MAX_CACHED_PAGES + 1] 0 s"

text \<open>The test seam that makes the next page allocations fail.\<close>

definition ShouldFailAllocationForTest :: "'a ph_state_scheme \<Rightarrow> bool \<times> 'a ph_state_scheme" where
  "ShouldFailAllocationForTest s =
     (let left = g_oom_fail_countdown s
      in if left > 0 then (True, s\<lparr>g_oom_fail_countdown := left - 1\<rparr>) else (False, s))"

section \<open>The hint bits\<close>

lemma fast_ctzll_least:
  assumes "v \<noteq> (0 :: 64 word)"
  shows "fast_ctzll v < 64" "bit v (fast_ctzll v)" "i < fast_ctzll v \<Longrightarrow> \<not> bit v i"
proof -
  let ?P = "\<lambda>i. \<not> bit v i" and ?n = "length (takeWhile (\<lambda>i. \<not> bit v i) [0..<64])"
  obtain j where j: "bit v j" using assms by (auto simp: bit_eq_iff)
  then have "j < 64" using bit_imp_le_length [of v j] by simp
  then have "\<not> (\<forall>x \<in> set [0..<64]. ?P x)" using j by auto
  then have "takeWhile ?P [0..<64] \<noteq> [0..<64]" by (metis takeWhile_eq_all_conv)
  then have lt: "?n < 64"
    by (metis length_takeWhile_le length_upt diff_zero le_neq_implies_less takeWhile_eq_take take_all order_refl)
  then show "fast_ctzll v < 64" by (simp add: fast_ctzll_def)
  show "bit v (fast_ctzll v)"
    using nth_length_takeWhile [of ?P "[0..<64]"] lt by (simp add: fast_ctzll_def)
  show "\<not> bit v i" if "i < fast_ctzll v"
  proof -
    have "takeWhile ?P [0..<64] ! i \<in> set (takeWhile ?P [0..<64])" using that by (simp add: fast_ctzll_def)
    moreover have "takeWhile ?P [0..<64] ! i = i" using that lt by (simp add: takeWhile_nth fast_ctzll_def)
    ultimately show ?thesis by (auto dest: set_takeWhileD)
  qed
qed

lemma and_63_mod: "(v :: nat) AND 63 = v mod 64"
proof -
  have "v AND 63 = v AND mask 6" by (simp add: mask_eq_exp_minus_1)
  then show ?thesis by (simp add: take_bit_eq_mask [symmetric] take_bit_eq_mod)
qed

lemma hint_or:
  "hint (ne(drop_bit 6 p := ne (drop_bit 6 p) OR push_bit (p AND 63) 1)) q \<longleftrightarrow> q = p \<or> hint ne q"
proof -
  have "q div 64 = p div 64 \<and> q mod 64 = p mod 64 \<longleftrightarrow> q = p"
    by (metis div_mult_mod_eq)
  then show ?thesis
    by (auto simp: hint_def and_63_mod drop_bit_eq_div bit_simps)
qed

lemma hint_and_not:
  "hint (ne(drop_bit 6 p := ne (drop_bit 6 p) AND NOT (push_bit (p AND 63) 1))) q \<longleftrightarrow> q \<noteq> p \<and> hint ne q"
proof -
  have "q div 64 = p div 64 \<and> q mod 64 = p mod 64 \<longleftrightarrow> q = p"
    by (metis div_mult_mod_eq)
  then show ?thesis
    by (auto simp: hint_def and_63_mod drop_bit_eq_div bit_simps)
qed

lemma scan_words_first:
  "scan_words ne w = (w', v) \<Longrightarrow>
     (if v = 0 then (\<forall>i. w \<le> i \<and> i < page_nonempty_size \<longrightarrow> ne i = 0)
      else w \<le> w' \<and> w' < page_nonempty_size \<and> v = ne w' \<and> (\<forall>i. w \<le> i \<and> i < w' \<longrightarrow> ne i = 0))"
proof (induction ne w rule: scan_words.induct)
  case (1 ne w)
  show ?case
  proof (cases "w < page_nonempty_size \<and> ne w = 0")
    case True
    then have "scan_words ne (w + 1) = (w', v)" using "1.prems" by (simp add: scan_words.simps [of ne w])
    from "1.IH" [OF _ _ this] True show ?thesis
      by (auto simp: Suc_le_eq le_less split: if_splits) (metis Suc_leI le_less)+
  next
    case False
    then show ?thesis using "1.prems" by (subst (asm) scan_words.simps) (auto split: if_splits)
  qed
qed

lemma hint_word: "i < 64 \<Longrightarrow> hint ne (w * 64 + i) \<longleftrightarrow> bit (ne w) i"
  by (simp add: hint_def)

lemma masked_word:
  "bit (ne w AND push_bit k (NOT 0) :: 64 word) i \<longleftrightarrow> i < 64 \<and> k \<le> i \<and> bit (ne w) i"
  by (auto simp: bit_simps dest: bit_imp_le_length)

text \<open>The first set bit of a word is the first hinted bin among the 64 the word stands for.\<close>

lemma first_in_word:
  assumes "v \<noteq> 0" and v: "\<And>i. i < 64 \<Longrightarrow> lo \<le> w * 64 + i \<Longrightarrow> bit v i \<longleftrightarrow> bit (ne w) i"
    and low: "\<And>i. bit v i \<Longrightarrow> lo \<le> w * 64 + i"
  shows "hint ne (w * 64 + fast_ctzll v)" "lo \<le> w * 64 + fast_ctzll v"
    "lo \<le> r \<Longrightarrow> w * 64 \<le> r \<Longrightarrow> r < w * 64 + fast_ctzll v \<Longrightarrow> \<not> hint ne r"
proof -
  note c = fast_ctzll_least [OF assms(1)]
  show lo: "lo \<le> w * 64 + fast_ctzll v" using low c(2) by blast
  show "hint ne (w * 64 + fast_ctzll v)" using v [OF c(1) lo] c(2) hint_word [OF c(1)] by blast
  assume r: "lo \<le> r" "w * 64 \<le> r" "r < w * 64 + fast_ctzll v"
  define i where "i = r - w * 64"
  have i: "r = w * 64 + i" "i < fast_ctzll v" "i < 64" using r c(1) by (auto simp: i_def)
  then show "\<not> hint ne r" using v [OF i(3)] r(1) c(3) [OF i(2)] hint_word [OF i(3), of ne w] by simp
qed

lemma empty_word: "ne w = 0 \<Longrightarrow> w * 64 \<le> r \<Longrightarrow> r < w * 64 + 64 \<Longrightarrow> \<not> hint ne r"
proof -
  assume a: "ne w = 0" "w * 64 \<le> r" "r < w * 64 + 64"
  then have "r div 64 = w" by linarith
  then show ?thesis using a(1) by (simp add: hint_def)
qed

lemma FirstNonEmptyAbove_least:
  assumes top: "\<And>r. MAX_CACHED_PAGES < r \<Longrightarrow> r < 576 \<Longrightarrow> \<not> hint ne r" and lo: "pages \<le> MAX_CACHED_PAGES"
  defines "q \<equiv> FirstNonEmptyAbove pages ne"
  shows "if q = 0 then (\<forall>r. pages < r \<and> r \<le> MAX_CACHED_PAGES \<longrightarrow> \<not> hint ne r)
    else hint ne q \<and> pages < q \<and> q \<le> MAX_CACHED_PAGES \<and> (\<forall>r. pages < r \<and> r < q \<longrightarrow> \<not> hint ne r)"
proof -
  let ?need = "pages + 1"
  define w where "w = ?need div 64"
  define k where "k = ?need mod 64"
  define word where "word = ne w AND push_bit k (NOT 0)"
  have need: "w * 64 + k = ?need" "k < 64" by (simp_all add: w_def k_def)
  have bits: "bit word i \<longleftrightarrow> i < 64 \<and> k \<le> i \<and> bit (ne w) i" for i
    unfolding word_def by (rule masked_word)
  have w8: "w \<le> 8" using lo by (simp add: MAX_CACHED_PAGES_def w_def)
  have found: "q = (if word' = 0 then 0 else let p = push_bit 6 w' + fast_ctzll word'
      in if p \<le> MAX_CACHED_PAGES \<and> p > pages then p else 0)"
    if "(if word = 0 then scan_words ne (w + 1) else (w, word)) = (w', word')" for w' word'
    using that unfolding q_def FirstNonEmptyAbove_def word_def w_def k_def and_63_mod drop_bit_eq_div
    by (auto simp: Let_def split: if_splits)
  have hit: ?thesis
    if res: "(if word = 0 then scan_words ne (w + 1) else (w, word)) = (w', v)" and v0: "v \<noteq> 0"
      and h: "hint ne (w' * 64 + fast_ctzll v)" "?need \<le> w' * 64 + fast_ctzll v" and w': "w' \<le> 8"
      and before: "\<And>r. ?need \<le> r \<Longrightarrow> r < w' * 64 + fast_ctzll v \<Longrightarrow> \<not> hint ne r" for w' v
  proof -
    let ?p = "w' * 64 + fast_ctzll v"
    have "?p < 576" using w' fast_ctzll_least(1) [OF v0] by linarith
    then have "?p \<le> MAX_CACHED_PAGES" using h(1) top by (meson not_le)
    then have "q = ?p" using found [OF res] v0 h(2) by (simp add: push_bit_eq_mult Let_def)
    then show ?thesis using h before \<open>?p \<le> MAX_CACHED_PAGES\<close> by (auto simp: Suc_le_eq)
  qed
  show ?thesis
  proof (cases "word = 0")
    case False
    have v: "bit word i \<longleftrightarrow> bit (ne w) i" if "i < 64" "?need \<le> w * 64 + i" for i
      using bits that need by auto
    have l: "?need \<le> w * 64 + i" if "bit word i" for i using bits that need by auto
    have f: "hint ne (w * 64 + fast_ctzll word)" "?need \<le> w * 64 + fast_ctzll word"
      "\<And>r. ?need \<le> r \<Longrightarrow> w * 64 \<le> r \<Longrightarrow> r < w * 64 + fast_ctzll word \<Longrightarrow> \<not> hint ne r"
      using first_in_word [of word ?need w ne] False v l by blast+
    show ?thesis
    proof (rule hit [of w word])
      show "\<not> hint ne r" if "?need \<le> r" "r < w * 64 + fast_ctzll word" for r
        by (rule f(3) [OF that(1) _ that(2)]) (use that(1) need in linarith)
      show "(if word = 0 then scan_words ne (w + 1) else (w, word)) = (w, word)" using False by simp
    qed (rule False f(1) f(2) w8)+
  next
    case True
    obtain w' v where sc: "scan_words ne (w + 1) = (w', v)" by fastforce
    note first = scan_words_first [OF sc]
    have here: "\<not> hint ne r" if "?need \<le> r" "r < (w + 1) * 64" for r
    proof -
      define i where "i = r - w * 64"
      have i: "r = w * 64 + i" "i < 64" "k \<le> i" using that need by (auto simp: i_def)
      then show ?thesis using bits [of i] True hint_word [OF i(2), of ne w] by simp
    qed
    have gap: "\<not> hint ne r" if "?need \<le> r" "r < w1 * 64"
      and z: "\<And>i. w + 1 \<le> i \<Longrightarrow> i < w1 \<Longrightarrow> ne i = 0" for r w1
    proof (cases "r < (w + 1) * 64")
      case False
      then have "w + 1 \<le> r div 64" "r div 64 < w1" using that by auto
      then show ?thesis using z by (simp add: hint_def)
    qed (use here that in blast)
    show ?thesis
    proof (cases "v = 0")
      case v: True
      then have "q = 0" using found [of w' v] True sc by simp
      moreover have "\<not> hint ne r" if "pages < r" "r \<le> MAX_CACHED_PAGES" for r
        by (rule gap [of _ page_nonempty_size])
          (use that first v in \<open>auto simp: page_nonempty_size_def MAX_CACHED_PAGES_def\<close>)
      ultimately show ?thesis by simp
    next
      case v: False
      have w': "w + 1 \<le> w'" "w' < page_nonempty_size" "v = ne w'"
        and z: "\<And>i. w + 1 \<le> i \<Longrightarrow> i < w' \<Longrightarrow> ne i = 0" using first v by auto
      have up: "?need \<le> w' * 64" using w'(1) need by linarith
      have f: "hint ne (w' * 64 + fast_ctzll v)"
        "\<And>r. w' * 64 \<le> r \<Longrightarrow> r < w' * 64 + fast_ctzll v \<Longrightarrow> \<not> hint ne r"
        using first_in_word [OF v, of 0 w' ne] w'(3) by auto
      show ?thesis
      proof (rule hit [of w' v])
        show "\<not> hint ne r" if "?need \<le> r" "r < w' * 64 + fast_ctzll v" for r
          using gap [OF that(1) _ z] f(2) [of r] that(2) by (cases "r < w' * 64") auto
        show "(if word = 0 then scan_words ne (w + 1) else (w, word)) = (w', v)" using True sc by simp
        show "?need \<le> w' * 64 + fast_ctzll v" using up by linarith
        show "w' \<le> 8" using w'(2) by (simp add: page_nonempty_size_def MAX_CACHED_PAGES_def)
      qed (rule v f(1))+
    qed
  qed
qed

section \<open>Invariant\<close>

definition bin_index :: "nat \<Rightarrow> bool" where
  "bin_index p \<longleftrightarrow> 1 \<le> p \<and> p \<le> MAX_CACHED_PAGES"

definition bin_range :: "os_api \<Rightarrow> nat \<Rightarrow> addr \<Rightarrow> nat set" where
  "bin_range api p x = {x..<x + p * GetPageSize api}"

definition filed :: "(nat \<Rightarrow> addr list) \<Rightarrow> (nat \<times> addr) set" where
  "filed L = {(p, x). x \<in> set (L p)}"

definition cached_cells :: "os_api \<Rightarrow> (nat \<Rightarrow> addr list) \<Rightarrow> nat set" where
  "cached_cells api L = (\<Union>(p, x) \<in> filed L. bin_range api p x)"

definition cached_total :: "os_api \<Rightarrow> (nat \<Rightarrow> addr list) \<Rightarrow> nat" where
  "cached_total api L = (\<Sum>p \<in> {1..MAX_CACHED_PAGES}. p * GetPageSize api * length (L p))"

text \<open>The bins, without the byte counter: links, counts, hints, and what a filed span is.\<close>

definition ph_core :: "os_api \<Rightarrow> 'a ph_state_scheme \<Rightarrow> (nat \<Rightarrow> addr list) \<Rightarrow> bool" where
  "ph_core api s L \<longleftrightarrow> pool_ok api s
     \<and> (\<forall>p. \<not> bin_index p \<longrightarrow> L p = [])
     \<and> (\<forall>p. bin_index p \<longrightarrow> chain (pn_next (mem s)) (pb_head (page_bins s p)) (L p)
          \<and> pb_count (page_bins s p) = length (L p))
     \<and> (\<forall>r < 576. hint (page_nonempty s) r \<longleftrightarrow> L r \<noteq> [])
     \<and> (\<forall>p. \<forall>x \<in> set (L p). span_owned api s x (p * GetPageSize api) \<and> span_ok api x (p * GetPageSize api))
     \<and> (\<forall>p q. \<forall>x \<in> set (L p). \<forall>y \<in> set (L q). (p, x) \<noteq> (q, y) \<longrightarrow> bin_range api p x \<inter> bin_range api q y = {})"

definition ph_ok :: "os_api \<Rightarrow> 'a ph_state_scheme \<Rightarrow> (nat \<Rightarrow> addr list) \<Rightarrow> bool" where
  "ph_ok api s L \<longleftrightarrow> ph_core api s L \<and> page_cache_total_bytes s = cached_total api L
     \<and> cached_total api L \<le> PageCacheTotalLimit api \<and> PageCacheTotalLimit api \<le> 2 ^ 63"

definition ph_used :: "os_api \<Rightarrow> 'a ph_state_scheme \<Rightarrow> (nat \<Rightarrow> addr list) \<Rightarrow> nat set" where
  "ph_used api s L = in_use s - cached_cells api L"

lemma os_cong:
  assumes "os_log s' = os_log s" "pool_chunks s' = pool_chunks s"
  shows "in_use s' = in_use s" "pool_ok api s' = pool_ok api s" "span_owned api s' p n = span_owned api s p n"
  using assms by (simp_all add: in_use_def pool_ok_def span_owned_def)

lemma ph_core_cong:
  assumes "mem s' = mem s" "os_log s' = os_log s" "pool_chunks s' = pool_chunks s"
    "page_bins s' = page_bins s" "page_nonempty s' = page_nonempty s"
  shows "ph_core api s' L = ph_core api s L"
  using assms os_cong [OF assms(2,3)] by (simp add: ph_core_def)

lemma ph_simps [simp]:
  "mem (cache_bytes_sub n s) = mem s" "mem (cache_bytes_add n s) = mem s" "mem (count_stats f s) = mem s"
  "os_log (cache_bytes_sub n s) = os_log s" "os_log (cache_bytes_add n s) = os_log s" "os_log (count_stats f s) = os_log s"
  "pool_chunks (cache_bytes_sub n s) = pool_chunks s" "pool_chunks (cache_bytes_add n s) = pool_chunks s"
  "pool_chunks (count_stats f s) = pool_chunks s"
  "page_bins (cache_bytes_sub n s) = page_bins s" "page_bins (cache_bytes_add n s) = page_bins s"
  "page_bins (count_stats f s) = page_bins s"
  "page_nonempty (cache_bytes_sub n s) = page_nonempty s" "page_nonempty (cache_bytes_add n s) = page_nonempty s"
  "page_nonempty (count_stats f s) = page_nonempty s"
  "page_cache_total_bytes (cache_bytes_sub n s) = sub64 (page_cache_total_bytes s) n"
  "page_cache_total_bytes (cache_bytes_add n s) = add64 (page_cache_total_bytes s) n"
  "page_cache_total_bytes (count_stats f s) = page_cache_total_bytes s"
  by (simp_all add: cache_bytes_sub_def cache_bytes_add_def count_stats_def)

lemma mark_simps [simp]:
  "mem (MarkMaybeEmpty p s) = mem s" "mem (MarkNonEmpty p s) = mem s"
  "os_log (MarkMaybeEmpty p s) = os_log s" "os_log (MarkNonEmpty p s) = os_log s"
  "pool_chunks (MarkMaybeEmpty p s) = pool_chunks s" "pool_chunks (MarkNonEmpty p s) = pool_chunks s"
  "page_bins (MarkMaybeEmpty p s) = page_bins s" "page_bins (MarkNonEmpty p s) = page_bins s"
  "page_cache_total_bytes (MarkMaybeEmpty p s) = page_cache_total_bytes s"
  "page_cache_total_bytes (MarkNonEmpty p s) = page_cache_total_bytes s"
  "hint (page_nonempty (MarkMaybeEmpty p s)) q \<longleftrightarrow> q \<noteq> p \<and> hint (page_nonempty s) q"
  "hint (page_nonempty (MarkNonEmpty p s)) q \<longleftrightarrow> q = p \<or> hint (page_nonempty s) q"
  by (simp_all add: MarkMaybeEmpty_def MarkNonEmpty_def hint_or [simplified] hint_and_not [simplified])

lemma ph_core_counters [simp]:
  "ph_core api (cache_bytes_sub n s) L = ph_core api s L"
  "ph_core api (cache_bytes_add n s) L = ph_core api s L"
  "ph_core api (count_stats f s) L = ph_core api s L"
  by (rule ph_core_cong; simp)+

lemma ph_core_span:
  assumes "ph_core api s L" "x \<in> set (L p)"
  shows "bin_index p" "span_owned api s x (p * GetPageSize api)" "span_ok api x (p * GetPageSize api)"
    "bin_range api p x \<subseteq> in_use s" "x \<noteq> 0"
proof -
  show "bin_index p" using assms by (cases "bin_index p") (simp_all add: ph_core_def)
  show own: "span_owned api s x (p * GetPageSize api)" and "span_ok api x (p * GetPageSize api)"
    using assms by (simp_all add: ph_core_def)
  from own show "bin_range api p x \<subseteq> in_use s" "x \<noteq> 0"
    by (simp_all add: span_owned_def bin_range_def)
qed

lemma ph_core_length:
  assumes "ph_core api s L"
  shows "length (L p) \<le> 2 ^ 47"
proof (cases "bin_index p")
  case True
  then have "distinct (L p)" using assms unfolding ph_core_def by (metis chain_distinct)
  then have "length (L p) = card (set (L p))" by (simp add: distinct_card)
  also have "\<dots> \<le> card {1..2 ^ 47 :: nat}"
  proof (rule card_mono)
    show "set (L p) \<subseteq> {1..2 ^ 47}"
    proof
      fix x assume "x \<in> set (L p)"
      from ph_core_span(3,5) [OF assms this] show "x \<in> {1..2 ^ 47}" by (auto simp: span_ok_def)
    qed
  qed simp
  finally show ?thesis by simp
next
  case False
  then show ?thesis using assms by (simp add: ph_core_def)
qed

lemma filed_Cons: "filed (L(p := x # xs)) = insert (p, x) (filed (L(p := xs)))"
  by (auto simp: filed_def split: if_splits)

lemma cached_cells_Cons:
  "cached_cells api (L(p := x # xs)) = cached_cells api (L(p := xs)) \<union> bin_range api p x"
  by (simp add: cached_cells_def filed_Cons Un_commute)

lemma bin_pop_core:
  assumes ok: "ph_core api s L" and p: "L p = x # xs"
  obtains s' where "bin_pop p s = (x, s')" "ph_core api s' (L(p := xs))"
    "mem s' = mem s" "os_log s' = os_log s" "pool_chunks s' = pool_chunks s"
    "page_cache_total_bytes s' = page_cache_total_bytes s"
    "cached_cells api (L(p := xs)) = cached_cells api L - bin_range api p x" "bin_range api p x \<subseteq> cached_cells api L"
proof -
  have idx: "bin_index p" using ph_core_span(1) [OF ok, of x p] p by simp
  then have ch: "chain (pn_next (mem s)) (pb_head (page_bins s p)) (x # xs)"
    and cnt: "pb_count (page_bins s p) = Suc (length xs)" using ok p by (auto simp: ph_core_def)
  then have hd: "pb_head (page_bins s p) = x" "x \<noteq> 0" and nx: "chain (pn_next (mem s)) (pn_next (mem s) x) xs"
    by simp_all
  have "length (x # xs) \<le> 2 ^ 47" using ph_core_length [OF ok, of p] unfolding p .
  then have dec: "sub64 (Suc (length xs)) 1 = length xs" by (subst sub64_exact) simp_all
  obtain s' where r: "bin_pop p s = (x, s')" using hd by (simp add: bin_pop_def Let_def)
  have s': "mem s' = mem s" "os_log s' = os_log s" "pool_chunks s' = pool_chunks s"
    "page_cache_total_bytes s' = page_cache_total_bytes s"
    "page_bins s' = (page_bins s)(p := \<lparr>pb_head = pn_next (mem s) x, pb_count = length xs\<rparr>)"
    using r hd cnt dec by (auto simp: bin_pop_def Let_def)
  have empty: "pn_next (mem s) x = 0 \<longleftrightarrow> xs = []" using chain_head_iff [OF nx] .
  have h: "hint (page_nonempty s') r \<longleftrightarrow> hint (page_nonempty s) r \<and> (r = p \<longrightarrow> xs \<noteq> [])" for r
    using r hd empty by (auto simp: bin_pop_def Let_def split: if_splits)
  have sub: "set ((L(p := xs)) q) \<subseteq> set (L q)" for q using p by auto
  have notin: "x \<notin> set xs" using chain_distinct [OF ch] by simp
  have core: "ph_core api s' (L(p := xs))"
    using ok idx nx p h sub
    unfolding ph_core_def os_cong [OF s'(2,3)] s'(1,5) subset_iff
    by (auto simp del: in_set_conv_decomp split: if_splits)
  have dis: "bin_range api q y \<inter> bin_range api p x = {}" if "y \<in> set ((L(p := xs)) q)" for q y
  proof -
    have "(q, y) \<noteq> (p, x)" using that notin by auto
    then show ?thesis using ok that sub p unfolding ph_core_def by (metis list.set_intros(1) subsetD)
  qed
  have all: "cached_cells api L = cached_cells api (L(p := xs)) \<union> bin_range api p x"
    using cached_cells_Cons [of api L p x xs] p by (simp add: fun_upd_idem)
  have "cached_cells api (L(p := xs)) \<inter> bin_range api p x = {}"
    using dis by (auto simp: cached_cells_def filed_def disjoint_iff simp del: fun_upd_apply)
  then have "cached_cells api (L(p := xs)) = cached_cells api L - bin_range api p x" using all by blast
  then show thesis using that r core s' all by blast
qed

lemma bin_push_core:
  assumes ok: "ph_core api s L" and idx: "bin_index p"
    and x: "span_owned api s x (p * GetPageSize api)" "span_ok api x (p * GetPageSize api)"
    and fresh: "bin_range api p x \<inter> cached_cells api L = {}"
  shows "ph_core api (bin_push p x s) (L(p := x # L p))"
    "cached_cells api (L(p := x # L p)) = cached_cells api L \<union> bin_range api p x"
    "\<And>a. a \<noteq> x \<Longrightarrow> mem (bin_push p x s) a = mem s a" "os_log (bin_push p x s) = os_log s"
    "pool_chunks (bin_push p x s) = pool_chunks s"
    "page_cache_total_bytes (bin_push p x s) = page_cache_total_bytes s"
proof -
  let ?s = "bin_push p x s"
  have x0: "x \<noteq> 0" "x \<in> bin_range api p x" using x(1) by (simp_all add: span_owned_def bin_range_def)
  have dis: "bin_range api q y \<inter> bin_range api p x = {}" if "y \<in> set (L q)" for q y
    using fresh that by (auto simp: cached_cells_def filed_def disjoint_iff)
  have new: "x \<notin> set (L q)" for q
  proof
    assume "x \<in> set (L q)"
    moreover from this have "x \<in> bin_range api q x"
      using ph_core_span(2) [OF ok] by (fastforce simp: span_owned_def bin_range_def)
    ultimately show False using dis x0(2) by blast
  qed
  show s: "os_log ?s = os_log s" "pool_chunks ?s = pool_chunks s"
    "page_cache_total_bytes ?s = page_cache_total_bytes s"
    by (simp_all add: bin_push_def Let_def)
  have m: "mem ?s = set_pn_next x (pb_head (page_bins s p)) (mem s)" by (simp add: bin_push_def Let_def)
  then show "a \<noteq> x \<Longrightarrow> mem ?s a = mem s a" for a by (simp add: set_pn_next_def)
  have "length (L p) \<le> 2 ^ 47" by (rule ph_core_length [OF ok])
  then have inc: "add64 (length (L p)) 1 = Suc (length (L p))" by (simp add: add64_def)
  have bins: "page_bins ?s = (page_bins s)(p := \<lparr>pb_head = x, pb_count = Suc (length (L p))\<rparr>)"
    using ok idx inc by (cases "page_bins s p") (auto simp: bin_push_def Let_def ph_core_def)
  have ch: "chain (pn_next (mem ?s)) (pb_head (page_bins ?s q)) ((L(p := x # L p)) q)" if "bin_index q" for q
    using ok that new [of q] x0(1) unfolding m bins
    by (auto simp: ph_core_def pn.get_put pn.chain_put_other)
  have h: "hint (page_nonempty ?s) r \<longleftrightarrow> r = p \<or> hint (page_nonempty s) r" for r
    by (simp add: bin_push_def Let_def)
  have spans: "\<forall>y \<in> set ((L(p := x # L p)) q). span_owned api s y (q * GetPageSize api) \<and> span_ok api y (q * GetPageSize api)" for q
    using ok x by (auto simp: ph_core_def)
  have apart: "bin_range api q y \<inter> bin_range api r z = {}"
    if "y \<in> set ((L(p := x # L p)) q)" "z \<in> set ((L(p := x # L p)) r)" "(q, y) \<noteq> (r, z)" for q r y z
  proof -
    note yz = that
    consider "y \<in> set (L q)" "z \<in> set (L r)" | "(q, y) = (p, x)" "z \<in> set (L r)" | "y \<in> set (L q)" "(r, z) = (p, x)"
      using yz by (auto split: if_splits)
    then show ?thesis using dis yz(3) ok by cases (auto simp: ph_core_def)
  qed
  show "ph_core api ?s (L(p := x # L p))"
    using ok idx ch h spans apart bins
    unfolding ph_core_def os_cong [OF s(1,2)]
    by (simp add: split: if_splits)
  show "cached_cells api (L(p := x # L p)) = cached_cells api L \<union> bin_range api p x"
    by (simp add: cached_cells_Cons)
qed

lemma cached_total_upd:
  assumes "bin_index p"
  shows "cached_total api (L(p := ys)) + p * GetPageSize api * length (L p)
    = cached_total api L + p * GetPageSize api * length ys"
proof -
  have p: "p \<in> {1..MAX_CACHED_PAGES}" using assms by (simp add: bin_index_def)
  have "(\<Sum>q \<in> {1..MAX_CACHED_PAGES} - {p}. q * GetPageSize api * length ((L(p := ys)) q))
      = (\<Sum>q \<in> {1..MAX_CACHED_PAGES} - {p}. q * GetPageSize api * length (L q))"
    by (rule sum.cong) auto
  moreover have "(\<Sum>q \<in> {1..MAX_CACHED_PAGES}. f q) = f p + (\<Sum>q \<in> {1..MAX_CACHED_PAGES} - {p}. f q)"
    for f :: "nat \<Rightarrow> nat" by (rule sum.remove [OF _ p]) simp
  ultimately show ?thesis unfolding cached_total_def by (simp only:) simp
qed

lemma cached_total_push: "bin_index p \<Longrightarrow> cached_total api (L(p := x # L p)) = cached_total api L + p * GetPageSize api"
  using cached_total_upd [of p api L "x # L p"] by simp

lemma cached_total_pop:
  "bin_index p \<Longrightarrow> L p = x # xs \<Longrightarrow> cached_total api L = cached_total api (L(p := xs)) + p * GetPageSize api"
  using cached_total_upd [of p api L xs] by simp

section \<open>Allocation\<close>

text \<open>The effect of a successful request on the cache: invariant, ownership, contents.\<close>

definition ph_grant :: "os_api \<Rightarrow> 'a ph_state_scheme \<Rightarrow> (nat \<Rightarrow> addr list) \<Rightarrow> addr \<Rightarrow> nat \<Rightarrow>
    'a ph_state_scheme \<Rightarrow> (nat \<Rightarrow> addr list) \<Rightarrow> bool" where
  "ph_grant api s L p n s' L' \<longleftrightarrow> ph_ok api s' L' \<and> span_ok api p n \<and> span_owned api s' p n
     \<and> {p..<p + n} \<inter> ph_used api s L = {} \<and> ph_used api s' L' = ph_used api s L \<union> {p..<p + n}
     \<and> (\<forall>a \<in> ph_used api s L. mem s' a = mem s a)
     \<and> (\<forall>q k. span_owned api s q k \<longrightarrow> span_owned api s' q k)"

lemma page_pos: "os_spec api \<Longrightarrow> 0 < GetPageSize api"
  using os_spec_page_bounds(1) [of api] by linarith

lemma cached_cells_in_use: "ph_core api s L \<Longrightarrow> cached_cells api L \<subseteq> in_use s"
  using ph_core_span(4) by (fastforce simp: cached_cells_def filed_def)

lemma sub_span:
  assumes "os_spec api" "span_owned api s x (p * GetPageSize api)" "span_ok api x (p * GetPageSize api)"
    "0 < k" "j + k \<le> p"
  shows "span_owned api s (x + j * GetPageSize api) (k * GetPageSize api)"
    "span_ok api (x + j * GetPageSize api) (k * GetPageSize api)"
proof -
  let ?g = "GetPageSize api"
  have "(j + k) * ?g \<le> p * ?g" using assms(5) by (rule mult_le_mono1)
  then have le: "j * ?g + k * ?g \<le> p * ?g" by (simp add: add_mult_distrib)
  then have sub: "{x + j * ?g..<x + j * ?g + k * ?g} \<subseteq> {x..<x + p * ?g}" by auto
  show "span_owned api s (x + j * ?g) (k * ?g)"
  proof -
    have "k * ?g \<le> p * ?g" using le by linarith
    then have "k * ?g \<le> kMaxPooledSpan \<and> (\<exists>c \<in> set (pool_chunks s). {x + j * ?g..<x + j * ?g + k * ?g} \<subseteq> chunk_range c)
        \<or> {x + j * ?g..<x + j * ?g + k * ?g} \<inter> chunks_range (pool_chunks s) = {}"
      using assms(2) sub unfolding span_owned_def by (meson disjoint_iff order_trans subset_iff)
    moreover have "{x + j * ?g..<x + j * ?g + k * ?g} \<subseteq> in_use s"
      using assms(2) sub unfolding span_owned_def by blast
    ultimately show ?thesis using assms(2,4) page_pos [OF assms(1)] by (simp add: span_owned_def)
  qed
  show "span_ok api (x + j * ?g) (k * ?g)"
    using assms(3) le by (auto simp: span_ok_def)
qed

lemma split_span_grant:
  assumes spec: "os_spec api" and ok: "ph_ok api s L" and p: "L p = x # xs"
    and k: "0 < pages" "pages \<le> p"
  obtains s' L' where "split_span api (pages * GetPageSize api) pages p s = (x, s')"
    "ph_grant api s L x (pages * GetPageSize api) s' L'" "x \<noteq> 0"
proof -
  let ?g = "GetPageSize api"
  have core: "ph_core api s L" and tot: "page_cache_total_bytes s = cached_total api L"
    "cached_total api L \<le> PageCacheTotalLimit api" "PageCacheTotalLimit api \<le> 2 ^ 63"
    using ok by (simp_all add: ph_ok_def)
  note sp = ph_core_span [OF core, of x p]
  have idx: "bin_index p" using sp(1) p by simp
  obtain s1 where pop: "bin_pop p s = (x, s1)" "ph_core api s1 (L(p := xs))"
    "mem s1 = mem s" "os_log s1 = os_log s" "pool_chunks s1 = pool_chunks s"
    "page_cache_total_bytes s1 = page_cache_total_bytes s"
    "cached_cells api (L(p := xs)) = cached_cells api L - bin_range api p x"
    "bin_range api p x \<subseteq> cached_cells api L"
    using bin_pop_core [OF core p] .
  define s2 where "s2 = cache_bytes_sub (p * ?g) s1"
  have t1: "cached_total api L = cached_total api (L(p := xs)) + p * ?g"
    using cached_total_pop [of p L x xs] idx p by simp
  have "page_cache_total_bytes s2 = sub64 (cached_total api L) (p * ?g)" by (simp add: s2_def pop tot)
  also have "\<dots> = cached_total api L - p * ?g" using t1 tot by (intro sub64_exact) auto
  finally have tot2: "page_cache_total_bytes s2 = cached_total api (L(p := xs))" using t1 by simp
  have x: "span_owned api s x (p * ?g)" "span_ok api x (p * ?g)" "bin_range api p x \<subseteq> in_use s" "x \<noteq> 0"
    using sp p by simp_all
  have heads: "span_owned api s x (pages * ?g)" "span_ok api x (pages * ?g)"
    using sub_span [OF spec x(1,2), of pages 0] k by simp_all
  have le: "pages * ?g \<le> p * ?g" using k by simp
  show thesis
  proof (cases "p = pages")
    case True
    have "split_span api (pages * ?g) pages p s = (x, count_stats CountPageCacheHit s2)"
      using pop(1) True by (simp add: split_span_def s2_def Let_def)
    moreover have "ph_grant api s L x (pages * ?g) (count_stats CountPageCacheHit s2) (L(p := xs))"
      using pop(2-5,7,8) tot2 tot t1 heads x(3) True os_cong [of "count_stats CountPageCacheHit s2" s]
      by (auto simp: ph_grant_def ph_ok_def s2_def ph_used_def bin_range_def)
    ultimately show thesis using that x(4) by blast
  next
    case False
    let ?r = "p - pages" and ?y = "x + pages * ?g"
    have r: "0 < ?r" "pages + ?r \<le> p" "bin_index ?r" using k False idx by (auto simp: bin_index_def)
    have tail: "span_owned api s ?y (?r * ?g)" "span_ok api ?y (?r * ?g)"
      using sub_span [OF spec x(1,2) r(1,2)] by simp_all
    have yr: "bin_range api ?r ?y \<union> {x..<x + pages * ?g} = bin_range api p x"
      "bin_range api ?r ?y \<inter> {x..<x + pages * ?g} = {}"
    proof -
      have "?y + ?r * ?g = x + p * ?g" using k by (simp add: diff_mult_distrib le)
      then show "bin_range api ?r ?y \<union> {x..<x + pages * ?g} = bin_range api p x"
        "bin_range api ?r ?y \<inter> {x..<x + pages * ?g} = {}"
        using le by (auto simp: bin_range_def)
    qed
    have core2: "ph_core api s2 (L(p := xs))" by (simp add: s2_def pop)
    have os2: "os_log s2 = os_log s" "pool_chunks s2 = pool_chunks s" "mem s2 = mem s" by (simp_all add: s2_def pop)
    have "bin_range api ?r ?y \<inter> cached_cells api (L(p := xs)) = {}" using pop(7) yr by blast
    note push = bin_push_core [OF core2 r(3) tail [folded os_cong(3) [OF os2(1,2)]] this]
    let ?L = "(L(p := xs))(?r := ?y # (L(p := xs)) ?r)"
    define s4 where "s4 = count_stats CountPageCacheHit (count_stats (CountPageCacheStore (?r * ?g))
      (cache_bytes_add (?r * ?g) (bin_push ?r ?y s2)))"
    have res: "split_span api (pages * ?g) pages p s = (x, s4)"
      using r(1) by (simp add: split_span_def pop s2_def [symmetric] s4_def Let_def)
    have tL: "cached_total api ?L = cached_total api (L(p := xs)) + ?r * ?g" using cached_total_push [OF r(3)] .
    have "?r * ?g \<le> p * ?g" by simp
    then have "cached_total api ?L \<le> cached_total api L" using tL t1 by linarith
    moreover from this have "page_cache_total_bytes s4 = cached_total api ?L"
      using tot tot2 tL push(6) by (simp add: s4_def add64_exact)
    ultimately have ok4: "ph_ok api s4 ?L" using push(1) tot by (simp add: ph_ok_def s4_def)
    have u: "in_use s4 = in_use s" "span_owned api s4 x (pages * ?g)"
      using os_cong [of s4 s] heads push(4,5) os2 by (simp_all add: s4_def)
    have "?y \<in> bin_range api ?r ?y" using r(1) page_pos [OF spec] by (simp add: bin_range_def)
    then have yin: "?y \<in> cached_cells api L" using yr(1) pop(8) by blast
    have cells: "cached_cells api ?L = cached_cells api L - {x..<x + pages * ?g}"
      unfolding push(2) pop(7) using yr pop(8) by blast
    have "mem s4 a = mem s a" if "a \<in> ph_used api s L" for a
      using push(3) [of a] that yin os2(3) by (auto simp: s4_def ph_used_def)
    moreover have "{x..<x + pages * ?g} \<subseteq> in_use s" "{x..<x + pages * ?g} \<subseteq> cached_cells api L"
      using yr(1) x(3) pop(8) by blast+
    ultimately have "ph_grant api s L x (pages * ?g) s4 ?L"
      using ok4 u heads(2) cells os_cong(3) [of s4 s] push(4,5) os2
      by (auto simp: ph_grant_def ph_used_def s4_def)
    then show thesis using that res x(4) by blast
  qed
qed

lemma FirstNonEmptyAbove_bin:
  assumes ok: "ph_core api s L" and lo: "pages \<le> MAX_CACHED_PAGES"
    and q: "FirstNonEmptyAbove pages (page_nonempty s) = q"
  shows "if q = 0 then \<forall>r. pages < r \<longrightarrow> L r = []
    else bin_index q \<and> pages < q \<and> L q \<noteq> [] \<and> (\<forall>r. pages < r \<and> r < q \<longrightarrow> L r = [])"
proof -
  have h: "r < 576 \<Longrightarrow> hint (page_nonempty s) r \<longleftrightarrow> L r \<noteq> []" for r using ok by (simp add: ph_core_def)
  have out: "MAX_CACHED_PAGES < r \<Longrightarrow> L r = []" for r using ok by (simp add: ph_core_def bin_index_def)
  have "if q = 0 then (\<forall>r. pages < r \<and> r \<le> MAX_CACHED_PAGES \<longrightarrow> \<not> hint (page_nonempty s) r)
    else hint (page_nonempty s) q \<and> pages < q \<and> q \<le> MAX_CACHED_PAGES
      \<and> (\<forall>r. pages < r \<and> r < q \<longrightarrow> \<not> hint (page_nonempty s) r)"
    using FirstNonEmptyAbove_least [of "page_nonempty s" pages] h out lo unfolding q by blast
  moreover have "hint (page_nonempty s) r \<longleftrightarrow> L r \<noteq> []" if "r \<le> MAX_CACHED_PAGES" for r
    by (rule h) (use that in \<open>simp add: MAX_CACHED_PAGES_def\<close>)
  ultimately show ?thesis
    using out unfolding bin_index_def
    by (cases "q = 0") (simp, metis not_le, simp, metis less_le_trans less_imp_le)
qed

lemma best_fit_grant:
  assumes spec: "os_spec api" and ok: "ph_ok api s L" and k: "bin_index pages"
    and q: "q = FirstNonEmptyAbove pages (page_nonempty s)"
    and r: "best_fit api (pages * GetPageSize api) pages q s = (x, s')"
  shows "if q = 0 then x = 0 \<and> s' = s
    else x \<noteq> 0 \<and> (\<exists>L'. ph_grant api s L x (pages * GetPageSize api) s' L')"
proof -
  have core: "ph_core api s L" using ok by (simp add: ph_ok_def)
  note f = FirstNonEmptyAbove_bin [OF core _ q [symmetric]]
  show ?thesis
  proof (cases "q = 0")
    case True
    then show ?thesis using r by (simp add: best_fit.simps)
  next
    case False
    then have fq: "bin_index q" "pages < q" "L q \<noteq> []" using f k by (auto simp: bin_index_def)
    then obtain y ys where L: "L q = y # ys" by (cases "L q") auto
    have "pb_head (page_bins s q) \<noteq> 0"
      using core fq(1) L by (auto simp: ph_core_def)
    then have "split_span api (pages * GetPageSize api) pages q s = (x, s')"
      using r False by (simp add: best_fit.simps)
    then show ?thesis
      using split_span_grant [OF spec ok L, of pages] k fq(2) False
      by (auto simp: bin_index_def)
  qed
qed

text \<open>Only memory, the log and the chunks change in the layer below.\<close>

definition os_frame :: "'a os_state_scheme \<Rightarrow> 'a os_state_scheme \<Rightarrow> bool" where
  "os_frame s s' \<longleftrightarrow> (\<exists>m l cs. s' = s\<lparr>mem := m, os_log := l, pool_chunks := cs\<rparr>)"

lemma AllocatePages_frame: "os_frame s (snd (AllocatePages api n s))"
proof -
  have mm: "os_frame t (snd (sys_mmap api k t))" for t :: "'a os_state_scheme" and k
    unfolding os_frame_def sys_mmap_def syscall_def Let_def by (cases t) auto
  have tr: "os_frame r s \<Longrightarrow> os_frame s t \<Longrightarrow> os_frame r t" for r s t :: "'a os_state_scheme"
    unfolding os_frame_def by (elim exE) auto
  have ch: "os_frame t (t\<lparr>pool_chunks := cs\<rparr>)" for t :: "'a os_state_scheme" and cs
    unfolding os_frame_def by (cases t) auto
  have carve: "os_frame s (snd (Pool_Carve api n s))"
    using tr [OF tr [OF ch mm] ch] tr [OF ch mm] ch
    by (auto simp: Pool_Carve_def Let_def split: prod.splits) (metis snd_conv)+
  show ?thesis
    using tr [OF carve mm] carve mm by (auto simp: AllocatePages_def Let_def split: prod.splits)
qed

lemma FreePages_frame: "os_frame s (FreePages api p n s)"
  unfolding os_frame_def FreePages_def syscall_def by (cases s) auto

lemma os_frame_ph:
  "os_frame s s' \<Longrightarrow> page_bins s' = page_bins s" "os_frame s s' \<Longrightarrow> page_nonempty s' = page_nonempty s"
  "os_frame s s' \<Longrightarrow> page_cache_total_bytes s' = page_cache_total_bytes s"
  "os_frame s s' \<Longrightarrow> g_stats s' = g_stats s"
  for s s' :: "'a ph_state_scheme"
  by (auto simp: os_frame_def)

text \<open>A change below the cache that keeps the filed spans owned and their links keeps the cache.\<close>

lemma ph_core_below:
  assumes ok: "ph_core api s L" and fr: "os_frame s s'" and pool: "pool_ok api s'"
    and own: "\<And>q y. y \<in> set (L q) \<Longrightarrow> span_owned api s' y (q * GetPageSize api)"
    and m: "\<And>q y. y \<in> set (L q) \<Longrightarrow> mem s' y = mem s y"
  shows "ph_core api s' L"
proof -
  have "chain (pn_next (mem s')) (pb_head (page_bins s q)) (L q)
      \<longleftrightarrow> chain (pn_next (mem s)) (pb_head (page_bins s q)) (L q)" for q
    by (rule chain_cong) (simp add: pn_next_def m)
  then show ?thesis using ok pool own by (simp add: ph_core_def os_frame_ph [OF fr])
qed

lemma AllocatePages_grant:
  assumes spec: "os_spec api" and ok: "ph_ok api s L" and n: "0 < n" "n mod GetPageSize api = 0"
    and a: "AllocatePages api n s = (x, s')"
  shows "if x = 0 then ph_ok api s' L \<and> ph_used api s' L = ph_used api s L \<and> mem s' = mem s
      \<and> (\<forall>q k. span_owned api s q k \<longrightarrow> span_owned api s' q k)
    else ph_grant api s L x n s' L"
proof -
  have core: "ph_core api s L" using ok by (simp add: ph_ok_def)
  then have pool: "pool_ok api s" by (simp add: ph_core_def)
  note f = AllocatePages_fresh [OF spec pool n(1) a] and o = AllocatePages_owned [OF spec pool n a]
  have fr: "os_frame s s'" using AllocatePages_frame [of s api n] a by simp
  have cin: "cached_cells api L \<subseteq> in_use s" by (rule cached_cells_in_use [OF core])
  have m: "mem s' a = mem s a" if "a \<in> in_use s" for a
    using f that by (auto simp: fresh_range_def split: if_splits)
  have "ph_core api s' L"
  proof (rule ph_core_below [OF core fr])
    show "pool_ok api s'" using f by (auto simp: fresh_range_def split: if_splits)
    fix q y assume y: "y \<in> set (L q)"
    then show own: "span_owned api s' y (q * GetPageSize api)"
      using o(2) ph_core_span(2) [OF core] by blast
    have "y \<in> in_use s" using ph_core_span(2) [OF core y] by (auto simp: span_owned_def)
    then show "mem s' y = mem s y" by (rule m)
  qed
  then have ok': "ph_ok api s' L" using ok by (simp add: ph_ok_def os_frame_ph [OF fr])
  show ?thesis
  proof (cases "x = 0")
    case True
    then show ?thesis using f ok' o(2) by (simp add: ph_used_def)
  next
    case False
    then have fx: "span_ok api x n" "{x..<x + n} \<inter> in_use s = {}" "in_use s' = in_use s \<union> {x..<x + n}"
      using f by (simp_all add: fresh_range_def)
    have "ph_grant api s L x n s' L"
      using ok' fx o m cin False unfolding ph_grant_def ph_used_def by blast
    then show ?thesis using False by auto
  qed
qed

lemma PageHeapAllocate_grant:
  assumes spec: "os_spec api" and ok: "ph_ok api s L" and n: "0 < n" "n mod GetPageSize api = 0"
    and r: "PageHeapAllocate api n s = (x, s')"
  shows "if x = 0 then ph_ok api s' L \<and> ph_used api s' L = ph_used api s L \<and> mem s' = mem s
      \<and> (\<forall>q k. span_owned api s q k \<longrightarrow> span_owned api s' q k)
    else (\<exists>L'. ph_grant api s L x n s' L')"
proof -
  let ?g = "GetPageSize api" and ?k = "n div GetPageSize api"
  have core: "ph_core api s L" using ok by (simp add: ph_ok_def)
  then have pool: "pool_ok api s" by (simp add: ph_core_def)
  have nk: "?k * ?g = n" "0 < ?k" using n page_pos [OF spec] by auto
  have below: "?thesis" if a: "AllocatePages api n s = (x, s')"
    using AllocatePages_grant [OF spec ok n a] by auto
  show ?thesis
  proof (cases "?k \<le> MAX_CACHED_PAGES")
    case False
    then show ?thesis using below r by (simp add: PageHeapAllocate_def Let_def)
  next
    case True
    then have idx: "bin_index ?k" using nk by (simp add: bin_index_def)
    show ?thesis
    proof (cases "pb_head (page_bins s ?k) = 0")
      case empty: True
      obtain y t where b: "best_fit api n ?k (FirstNonEmptyAbove ?k (page_nonempty s)) s = (y, t)" by fastforce
      note g = best_fit_grant [OF spec ok idx refl, unfolded nk(1), OF b]
      have res: "(if y \<noteq> 0 then (y, t) else AllocatePages api n t) = (x, s')"
        using r empty True nk(2) b by (simp add: PageHeapAllocate_def Let_def)
      show ?thesis
      proof (cases "FirstNonEmptyAbove ?k (page_nonempty s) = 0")
        case True
        then show ?thesis using g res below by simp
      next
        case False
        then show ?thesis using g res by auto
      qed
    next
      case full: False
      have "L ?k \<noteq> []" using full core idx by (auto simp: ph_core_def)
      then obtain y ys where L: "L ?k = y # ys" by (cases "L ?k") auto
      obtain t M where sp: "split_span api n ?k ?k s = (y, t)" "ph_grant api s L y n t M" "y \<noteq> 0"
        using split_span_grant [OF spec ok L nk(2) order_refl] nk(1) by metis
      obtain z u where pop: "bin_pop ?k s = (z, u)" by fastforce
      have eq: "z = y" "t = count_stats CountPageCacheHit (cache_bytes_sub n u)"
        using sp(1) pop nk(1) by (simp_all add: split_span_def Let_def)
      have "PageHeapAllocate api n s = (y, t)"
        using full True nk(2) pop eq sp(3) by (simp add: PageHeapAllocate_def Let_def)
      then show ?thesis using r sp by auto
    qed
  qed
qed

section \<open>Deallocation\<close>

text \<open>
  Giving a span back: it is filed, or returned below. Whatever is not part of the span stays
  as it is, and what the client holds shrinks by at most the span.
\<close>

definition ph_release :: "os_api \<Rightarrow> 'a ph_state_scheme \<Rightarrow> (nat \<Rightarrow> addr list) \<Rightarrow> nat set \<Rightarrow>
    'a ph_state_scheme \<Rightarrow> (nat \<Rightarrow> addr list) \<Rightarrow> bool" where
  "ph_release api s L R s' L' \<longleftrightarrow> ph_ok api s' L'
     \<and> ph_used api s' L' \<subseteq> ph_used api s L \<and> ph_used api s L - R \<subseteq> ph_used api s' L'
     \<and> (\<forall>a. a \<notin> R \<longrightarrow> mem s' a = mem s a)
     \<and> (\<forall>q k. span_owned api s q k \<and> {q..<q + k} \<inter> R = {} \<longrightarrow> span_owned api s' q k)"

lemma FreePages_core:
  assumes spec: "os_spec api" and core: "ph_core api s L" and own: "span_owned api s x n"
    and out: "{x..<x + n} \<inter> cached_cells api L = {}"
  shows "ph_core api (FreePages api x n s) L"
proof (rule ph_core_below [OF core FreePages_frame])
  have pool: "pool_ok api s" using core by (simp add: ph_core_def)
  show "pool_ok api (FreePages api x n s)" by (rule FreePages_owned(1) [OF spec pool own])
  fix q y assume y: "y \<in> set (L q)"
  have "bin_range api q y \<subseteq> cached_cells api L" using y by (auto simp: cached_cells_def filed_def)
  then have dis: "bin_range api q y \<inter> {x..<x + n} = {}" using out by blast
  have oy: "span_owned api s y (q * GetPageSize api)" by (rule ph_core_span(2) [OF core y])
  then show "span_owned api (FreePages api x n s) y (q * GetPageSize api)"
    using FreePages_keeps_owned [OF spec pool own] dis by (simp add: bin_range_def)
  have "y \<in> bin_range api q y" using oy by (simp add: span_owned_def bin_range_def)
  then show "mem (FreePages api x n s) y = mem s y"
    using FreePages_owned(3) [OF spec pool own] dis by blast
qed

lemma FreePages_release:
  assumes spec: "os_spec api" and ok: "ph_ok api s L" and own: "span_owned api s x n"
    and out: "{x..<x + n} \<inter> cached_cells api L = {}"
  shows "ph_release api s L {x..<x + n} (FreePages api x n s) L"
proof -
  have core: "ph_core api s L" using ok by (simp add: ph_ok_def)
  have pool: "pool_ok api s" using core by (simp add: ph_core_def)
  note f = FreePages_owned [OF spec pool own]
  have "ph_ok api (FreePages api x n s) L"
    using ok FreePages_core [OF spec core own out] os_frame_ph(3) [OF FreePages_frame [of s api x n]]
    by (simp add: ph_ok_def)
  moreover have "ph_used api (FreePages api x n s) L \<subseteq> ph_used api s L"
    "ph_used api s L - {x..<x + n} \<subseteq> ph_used api (FreePages api x n s) L"
    unfolding ph_used_def f(2) by auto
  moreover have "span_owned api (FreePages api x n s) q k"
    if "span_owned api s q k" "{q..<q + k} \<inter> {x..<x + n} = {}" for q k
    using FreePages_keeps_owned [OF spec pool own that(1)] that(2) by blast
  ultimately show ?thesis using f(3) unfolding ph_release_def by blast
qed

text \<open>The cache has room for a span of \<open>n\<close> bytes.\<close>

definition cache_room :: "os_api \<Rightarrow> nat \<Rightarrow> 'a ph_state_scheme \<Rightarrow> bool" where
  "cache_room api n s \<longleftrightarrow> n div GetPageSize api \<le> MAX_CACHED_PAGES
     \<and> page_cache_total_bytes s + n \<le> PageCacheTotalLimit api
     \<and> pb_count (page_bins s (n div GetPageSize api)) < BinRetentionCount api (n div GetPageSize api)"

lemma PageHeapFree_files:
  assumes spec: "os_spec api" and ok: "ph_ok api s L" and own: "span_owned api s x n" "span_ok api x n"
    and out: "{x..<x + n} \<inter> cached_cells api L = {}"
  shows "ph_release api s L {x..<x + n} (PageHeapFree api x n s)
    (if cache_room api n s then L(n div GetPageSize api := x # L (n div GetPageSize api)) else L)"
proof -
  let ?g = "GetPageSize api" and ?k = "n div GetPageSize api"
  have n: "0 < n" "n mod ?g = 0" using own by (auto simp: span_owned_def)
  have nk: "?k * ?g = n" "0 < ?k" using n page_pos [OF spec] by auto
  have core: "ph_core api s L" and tot: "page_cache_total_bytes s = cached_total api L"
    "cached_total api L \<le> PageCacheTotalLimit api" "PageCacheTotalLimit api \<le> 2 ^ 63"
    using ok by (simp_all add: ph_ok_def)
  have "n \<le> 2 ^ 47" using own by (simp add: span_ok_def)
  then have sum: "add64 (cached_total api L) n = cached_total api L + n"
    using tot by (simp add: add64_exact)
  have undo: "sub64 (cached_total api L + n) n = cached_total api L"
    using tot \<open>n \<le> 2 ^ 47\<close> by (subst sub64_exact) simp_all
  consider (keep) "?k \<le> MAX_CACHED_PAGES" "cached_total api L + n \<le> PageCacheTotalLimit api"
      "pb_count (page_bins s ?k) < BinRetentionCount api ?k"
    | (evict) "?k \<le> MAX_CACHED_PAGES" "\<not> (cached_total api L + n \<le> PageCacheTotalLimit api
        \<and> pb_count (page_bins s ?k) < BinRetentionCount api ?k)"
    | (big) "\<not> ?k \<le> MAX_CACHED_PAGES" by blast
  then show ?thesis
  proof cases
    case keep
    let ?s1 = "cache_bytes_add n s" and ?L = "L(?k := x # L ?k)"
    have idx: "bin_index ?k" using nk keep by (simp add: bin_index_def)
    have own1: "span_owned api ?s1 x (?k * ?g)" using own nk os_cong(3) [of ?s1 s] by simp
    have "bin_range api ?k x = {x..<x + n}" by (simp add: bin_range_def nk)
    note push = bin_push_core [of api ?s1 L, OF _ idx own1, unfolded this nk(1), OF _ own(2) out, simplified, OF core]
    have res: "PageHeapFree api x n s = count_stats (CountPageCacheStore n) (bin_push ?k x ?s1)"
      using keep nk by (simp add: PageHeapFree_def Let_def tot(1) sum)
    have "ph_ok api (PageHeapFree api x n s) ?L"
      using push(1,6) keep tot cached_total_push [OF idx, of api L x] sum nk(1)
      by (simp add: res ph_ok_def)
    moreover have "in_use (PageHeapFree api x n s) = in_use s" "\<And>q k. span_owned api (PageHeapFree api x n s) q k = span_owned api s q k"
      using os_cong [of "PageHeapFree api x n s" s] push(4,5) by (simp_all add: res)
    moreover have "\<forall>a. a \<notin> {x..<x + n} \<longrightarrow> mem (PageHeapFree api x n s) a = mem s a"
      using push(3) n(1) by (auto simp: res)
    ultimately have "ph_release api s L {x..<x + n} (PageHeapFree api x n s) ?L"
      using push(2) unfolding ph_release_def ph_used_def by auto
    then show ?thesis using keep by (simp add: cache_room_def tot(1))
  next
    case evict
    let ?s2 = "count_stats (CountPageCacheEvict n) (cache_bytes_sub n (cache_bytes_add n s))"
    have res: "PageHeapFree api x n s = FreePages api x n ?s2"
      using evict nk by (auto simp: PageHeapFree_def Let_def tot(1) sum)
    have os2: "in_use ?s2 = in_use s" "\<And>q k. span_owned api ?s2 q k = span_owned api s q k"
      using os_cong [of ?s2 s] by simp_all
    have "ph_ok api ?s2 L" using ok by (simp add: ph_ok_def sum undo)
    from FreePages_release [OF spec this, of x n] own out
    have "ph_release api s L {x..<x + n} (PageHeapFree api x n s) L"
      unfolding res by (simp add: ph_release_def ph_used_def os2)
    then show ?thesis using evict by (auto simp: cache_room_def tot(1))
  next
    case big
    then show ?thesis
      using FreePages_release [OF spec ok own(1) out] by (simp add: PageHeapFree_def Let_def cache_room_def)
  qed
qed

lemma PageHeapFree_release:
  assumes "os_spec api" "ph_ok api s L" "span_owned api s x n" "span_ok api x n" "{x..<x + n} \<inter> cached_cells api L = {}"
  shows "\<exists>L'. ph_release api s L {x..<x + n} (PageHeapFree api x n s) L'"
  using PageHeapFree_files [OF assms] by blast

section \<open>Where a span goes\<close>

text \<open>
  A span given to \<^verbatim>\<open>PageHeapFree\<close> is linked in front of its bin when the cache has room for it, and
  handed to the operating system otherwise; nothing else can become of it.
\<close>

definition span_cached :: "os_api \<Rightarrow> addr \<Rightarrow> nat \<Rightarrow> 'a ph_state_scheme \<Rightarrow> 'a ph_state_scheme \<Rightarrow> bool" where
  "span_cached api p n s s' \<longleftrightarrow>
     page_bins s' = (page_bins s)(n div GetPageSize api :=
       \<lparr>pb_head = p, pb_count = pb_count (page_bins s (n div GetPageSize api)) + 1\<rparr>)
   \<and> pn_next (mem s') p = pb_head (page_bins s (n div GetPageSize api))
   \<and> page_cache_total_bytes s' = page_cache_total_bytes s + n \<and> os_log s' = os_log s"

definition span_released :: "addr \<Rightarrow> nat \<Rightarrow> 'a ph_state_scheme \<Rightarrow> 'a ph_state_scheme \<Rightarrow> bool" where
  "span_released p n s s' \<longleftrightarrow>
     os_log s' = os_log s @ [if IsPoolBacked p s then Madvise p n else Munmap p n]
   \<and> page_bins s' = page_bins s \<and> page_cache_total_bytes s' = page_cache_total_bytes s"

definition span_back :: "os_api \<Rightarrow> addr \<Rightarrow> nat \<Rightarrow> 'a ph_state_scheme \<Rightarrow> 'a ph_state_scheme \<Rightarrow> bool" where
  "span_back api p n s s' \<longleftrightarrow> (if cache_room api n s then span_cached api p n s s' else span_released p n s s')"

lemma span_back_cong:
  assumes "span_back api p n s s'" "mem t' = mem s'" "os_log t' = os_log s'" "page_bins t' = page_bins s'"
    "page_cache_total_bytes t' = page_cache_total_bytes s'"
  shows "span_back api p n s t'"
  using assms unfolding span_back_def span_cached_def span_released_def by (simp split: if_splits)

lemma page_bin_upd: "(b :: page_bin)\<lparr>pb_head := h, pb_count := c\<rparr> = \<lparr>pb_head = h, pb_count = c\<rparr>"
  by (cases b) simp

lemma PageHeapFree_back:
  assumes spec: "os_spec api" and ok: "ph_ok api s L" and own: "span_owned api s x n" "span_ok api x n"
  shows "span_back api x n s (PageHeapFree api x n s)"
proof -
  let ?g = "GetPageSize api" and ?k = "n div GetPageSize api"
  have n: "0 < n" "n mod ?g = 0" using own by (auto simp: span_owned_def)
  have k: "0 < ?k" using n page_pos [OF spec] by auto
  have core: "ph_core api s L" and tot: "page_cache_total_bytes s \<le> 2 ^ 63" using ok by (simp_all add: ph_ok_def)
  have n47: "n \<le> 2 ^ 47" using own by (simp add: span_ok_def)
  have sum: "add64 (page_cache_total_bytes s) n = page_cache_total_bytes s + n" using tot n47 by (simp add: add64_exact)
  have undo: "sub64 (page_cache_total_bytes s + n) n = page_cache_total_bytes s"
    using tot n47 by (subst sub64_exact) simp_all
  show ?thesis
  proof (cases "cache_room api n s")
    case True
    then have idx: "bin_index ?k" using k by (simp add: bin_index_def cache_room_def)
    have "pb_count (page_bins s ?k) = length (L ?k)" using core idx by (simp add: ph_core_def)
    then have c: "add64 (pb_count (page_bins s ?k)) 1 = pb_count (page_bins s ?k) + 1"
      using ph_core_length [OF core, of ?k] by (simp add: add64_exact)
    have res: "PageHeapFree api x n s = count_stats (CountPageCacheStore n) (bin_push ?k x (cache_bytes_add n s))"
      using True k sum by (simp add: PageHeapFree_def Let_def cache_room_def cache_bytes_add_def)
    have "span_cached api x n s (PageHeapFree api x n s)" unfolding res span_cached_def
      by (simp add: bin_push_def Let_def cache_bytes_add_def count_stats_def MarkNonEmpty_def
          pn_next_def set_pn_next_def sum c [simplified] page_bin_upd)
    then show ?thesis using True by (simp add: span_back_def)
  next
    case False
    obtain t where t: "PageHeapFree api x n s = FreePages api x n t" "os_log t = os_log s" "pool_chunks t = pool_chunks s"
      "page_bins t = page_bins s" "page_cache_total_bytes t = page_cache_total_bytes s"
    proof (cases "?k \<le> MAX_CACHED_PAGES")
      case big: False
      show thesis by (rule that [of s]) (use big in \<open>simp_all add: PageHeapFree_def Let_def\<close>)
    next
      case small: True
      show thesis
        by (rule that [of "count_stats (CountPageCacheEvict n) (cache_bytes_sub n (cache_bytes_add n s))"])
           (use small False k in \<open>auto simp: PageHeapFree_def Let_def cache_room_def cache_bytes_add_def
             cache_bytes_sub_def count_stats_def sum undo\<close>)
    qed
    have o: "span_owned api t x n" using own(1) os_cong(3) [OF t(2,3)] by simp
    have "IsPoolBacked x t = IsPoolBacked x s" by (simp add: IsPoolBacked_def Pool_Contains_def t(3))
    then have "span_released x n s (PageHeapFree api x n s)"
      unfolding t(1) span_released_def
      by (simp add: FreePages_event [OF o] t(2,4,5) syscall_def)
    then show ?thesis using False by (simp add: span_back_def)
  qed
qed

text \<open>The span at the head of its bin is what the next request of its size gets.\<close>

lemma PageHeapAllocate_head:
  assumes "pb_head (page_bins s (n div GetPageSize api)) = p" "p \<noteq> 0"
    "0 < n div GetPageSize api" "n div GetPageSize api \<le> MAX_CACHED_PAGES"
  shows "fst (PageHeapAllocate api n s) = p"
  using assms by (simp add: PageHeapAllocate_def Let_def bin_pop_def)

section \<open>Purge\<close>

text \<open>Walking a detached list of spans gives every one of them back, and ends.\<close>

lemma purge_walk_all:
  assumes spec: "os_spec api" and core: "ph_core api s L" and ch: "chain (pn_next (mem s)) node xs"
    and own: "\<And>y. y \<in> set xs \<Longrightarrow> span_owned api s y (p * GetPageSize api)"
    and out: "\<And>y. y \<in> set xs \<Longrightarrow> bin_range api p y \<inter> cached_cells api L = {}"
    and apart: "\<And>y z. y \<in> set xs \<Longrightarrow> z \<in> set xs \<Longrightarrow> y \<noteq> z \<Longrightarrow> bin_range api p y \<inter> bin_range api p z = {}"
    and tot: "page_cache_total_bytes s = T + p * GetPageSize api * length xs"
    and bnd: "T + p * GetPageSize api * length xs \<le> 2 ^ 63"
      "released + p * GetPageSize api * length xs \<le> 2 ^ 63"
  shows "\<exists>s'. purge_walk api p node released s = Some (released + p * GetPageSize api * length xs, s')
    \<and> ph_core api s' L \<and> page_cache_total_bytes s' = T \<and> in_use s' \<subseteq> in_use s
    \<and> in_use s - (\<Union>y \<in> set xs. bin_range api p y) \<subseteq> in_use s'
    \<and> (\<forall>a. a \<notin> (\<Union>y \<in> set xs. bin_range api p y) \<longrightarrow> mem s' a = mem s a)
    \<and> (\<forall>q k. span_owned api s q k \<and> {q..<q + k} \<inter> (\<Union>y \<in> set xs. bin_range api p y) = {} \<longrightarrow> span_owned api s' q k)"
  using assms(2-)
proof (induction xs arbitrary: s node released)
  case Nil
  then show ?case by (auto simp: purge_walk.simps)
next
  case (Cons x xs)
  let ?n = "p * GetPageSize api"
  have x: "node = x" "x \<noteq> 0" and tl: "chain (pn_next (mem s)) (pn_next (mem s) x) xs"
    using Cons.prems(2) by simp_all
  have new: "x \<notin> set xs" using chain_distinct [OF Cons.prems(2)] by simp
  have pool: "pool_ok api s" using Cons.prems(1) by (simp add: ph_core_def)
  have ownx: "span_owned api s x ?n" using Cons.prems(3) by simp
  note f = FreePages_owned [OF spec pool ownx]
  have outx: "{x..<x + ?n} \<inter> cached_cells api L = {}" using Cons.prems(4) [of x] by (simp add: bin_range_def)
  define s1 where "s1 = count_stats (CountPageCacheEvict ?n) (cache_bytes_sub ?n (FreePages api x ?n s))"
  have step: "purge_walk api p node released s = purge_walk api p (pn_next (mem s) x) (add64 released ?n) s1"
    using x by (subst purge_walk.simps) (simp add: s1_def Let_def)
  have rel: "add64 released ?n = released + ?n"
    using Cons.prems(8) by (intro add64_exact) (simp add: algebra_simps)
  have dis: "bin_range api p y \<inter> {x..<x + ?n} = {}" if "y \<in> set xs" for y
  proof -
    have "y \<noteq> x" using that new by auto
    then show ?thesis using Cons.prems(5) [of y x] that by (simp add: bin_range_def)
  qed
  have s1: "in_use s1 = in_use (FreePages api x ?n s)" "mem s1 = mem (FreePages api x ?n s)"
    "\<And>q k. span_owned api s1 q k = span_owned api (FreePages api x ?n s) q k"
    using os_cong [of s1 "FreePages api x ?n s"] by (simp_all add: s1_def)
  have core1: "ph_core api s1 L"
    using FreePages_core [OF spec Cons.prems(1) ownx outx] by (simp add: s1_def)
  have "y \<in> bin_range api p y" if "y \<in> set xs" for y
    using Cons.prems(3) [of y] that by (simp add: span_owned_def bin_range_def)
  then have "chain (pn_next (mem s1)) (pn_next (mem s) x) xs \<longleftrightarrow> chain (pn_next (mem s)) (pn_next (mem s) x) xs"
    using dis f(3) s1(2) by (intro chain_cong) (fastforce simp: pn_next_def)
  then have ch1: "chain (pn_next (mem s1)) (pn_next (mem s) x) xs" using tl by blast
  have own1: "span_owned api s1 y ?n" if "y \<in> set xs" for y
    using FreePages_keeps_owned [OF spec pool ownx Cons.prems(3) [of y]] dis [OF that] that
    by (simp add: s1 bin_range_def)
  have "page_cache_total_bytes s1 = sub64 (T + ?n * length (x # xs)) ?n"
    using Cons.prems(6) by (simp add: s1_def os_frame_ph(3) [OF FreePages_frame])
  also have "\<dots> = T + ?n * length xs" using Cons.prems(7) by (subst sub64_exact) simp_all
  finally have tot1: "page_cache_total_bytes s1 = T + ?n * length xs" .
  have bnd1: "T + ?n * length xs \<le> 2 ^ 63" using Cons.prems(7) by simp
  have bnd2: "released + ?n + ?n * length xs \<le> 2 ^ 63" using Cons.prems(8) by (simp add: algebra_simps)
  from Cons.IH [OF core1 ch1 own1 Cons.prems(4) Cons.prems(5) tot1 bnd1 bnd2]
  obtain s' where s': "purge_walk api p (pn_next (mem s) x) (released + ?n) s1 = Some (released + ?n + ?n * length xs, s')"
    "ph_core api s' L" "page_cache_total_bytes s' = T" "in_use s' \<subseteq> in_use s1"
    "in_use s1 - (\<Union>y \<in> set xs. bin_range api p y) \<subseteq> in_use s'"
    "\<forall>a. a \<notin> (\<Union>y \<in> set xs. bin_range api p y) \<longrightarrow> mem s' a = mem s1 a"
    "\<forall>q k. span_owned api s1 q k \<and> {q..<q + k} \<inter> (\<Union>y \<in> set xs. bin_range api p y) = {} \<longrightarrow> span_owned api s' q k"
    by auto
  have "purge_walk api p node released s = Some (released + ?n * length (x # xs), s')"
    using step s'(1) rel by (simp add: algebra_simps)
  moreover have "in_use s' \<subseteq> in_use s" using s'(4) f(2) s1(1) by (auto split: if_splits)
  moreover have "in_use s - (\<Union>y \<in> set (x # xs). bin_range api p y) \<subseteq> in_use s'"
    using s'(5) f(2) s1(1) by (auto simp: bin_range_def split: if_splits)
  moreover have "mem s' a = mem s a" if "a \<notin> (\<Union>y \<in> set (x # xs). bin_range api p y)" for a
    using that s'(6) f(3) [of a] s1(2) by (simp add: bin_range_def)
  moreover have "span_owned api s' q k"
    if "span_owned api s q k" "{q..<q + k} \<inter> (\<Union>y \<in> set (x # xs). bin_range api p y) = {}" for q k
  proof -
    have "{q..<q + k} \<inter> {x..<x + ?n} = {}" "{q..<q + k} \<inter> (\<Union>y \<in> set xs. bin_range api p y) = {}"
      using that(2) unfolding bin_range_def list.set UN_insert by blast+
    then show ?thesis using FreePages_keeps_owned [OF spec pool ownx that(1)] s'(7) s1(3) by blast
  qed
  ultimately show ?case using s'(2,3) by blast
qed

lemma bin_detach_core:
  assumes core: "ph_core api s L" and idx: "bin_index p"
  defines "s' \<equiv> MarkMaybeEmpty p (s\<lparr>page_bins := (page_bins s)(p := \<lparr>pb_head = 0, pb_count = 0\<rparr>)\<rparr>)"
  shows "ph_core api s' (L(p := []))"
    "\<And>y. y \<in> set (L p) \<Longrightarrow> bin_range api p y \<inter> cached_cells api (L(p := [])) = {}"
    "cached_cells api L = cached_cells api (L(p := [])) \<union> (\<Union>y \<in> set (L p). bin_range api p y)"
proof -
  have os: "os_log s' = os_log s" "pool_chunks s' = pool_chunks s" "mem s' = mem s"
    "page_bins s' = (page_bins s)(p := \<lparr>pb_head = 0, pb_count = 0\<rparr>)" by (simp_all add: s'_def)
  have h: "hint (page_nonempty s') r \<longleftrightarrow> r \<noteq> p \<and> hint (page_nonempty s) r" for r by (simp add: s'_def)
  show "ph_core api s' (L(p := []))"
    using core unfolding ph_core_def os_cong [OF os(1,2)] os h
    by (auto simp del: in_set_conv_decomp split: if_splits)
  show "bin_range api p y \<inter> cached_cells api (L(p := [])) = {}" if "y \<in> set (L p)" for y
    using core that by (auto simp: cached_cells_def filed_def ph_core_def disjoint_iff split: if_splits)
  show "cached_cells api L = cached_cells api (L(p := [])) \<union> (\<Union>y \<in> set (L p). bin_range api p y)"
  proof -
    have "filed L = filed (L(p := [])) \<union> {p} \<times> set (L p)" by (auto simp: filed_def split: if_splits)
    then show ?thesis by (auto simp: cached_cells_def)
  qed
qed

lemma purge_bins_all:
  assumes spec: "os_spec api" and core: "ph_core api s L" and ps: "\<forall>p \<in> set ps. bin_index p"
    and tot: "page_cache_total_bytes s = cached_total api L" and bnd: "cached_total api L + released \<le> 2 ^ 63"
  shows "\<exists>s' r. purge_bins api ps released s = Some (r, s')
    \<and> ph_core api s' (\<lambda>q. if q \<in> set ps then [] else L q)
    \<and> page_cache_total_bytes s' = cached_total api (\<lambda>q. if q \<in> set ps then [] else L q)
    \<and> r + page_cache_total_bytes s' = released + cached_total api L
    \<and> in_use s' \<subseteq> in_use s \<and> in_use s - cached_cells api L \<subseteq> in_use s'
    \<and> (\<forall>a. a \<notin> cached_cells api L \<longrightarrow> mem s' a = mem s a)
    \<and> (\<forall>q k. span_owned api s q k \<and> {q..<q + k} \<inter> cached_cells api L = {} \<longrightarrow> span_owned api s' q k)"
  using assms(2-)
proof (induction ps arbitrary: s L released)
  case Nil
  then show ?case by auto
next
  case (Cons p ps)
  have idx: "bin_index p" using Cons.prems by simp
  define s1 where "s1 = MarkMaybeEmpty p (s\<lparr>page_bins := (page_bins s)(p := \<lparr>pb_head = 0, pb_count = 0\<rparr>)\<rparr>)"
  let ?R = "\<Union>y \<in> set (L p). bin_range api p y" and ?g = "p * GetPageSize api"
  note d = bin_detach_core [OF Cons.prems(1) idx, folded s1_def]
  have os1: "in_use s1 = in_use s" "\<And>q k. span_owned api s1 q k = span_owned api s q k"
    "mem s1 = mem s" "page_cache_total_bytes s1 = page_cache_total_bytes s"
    using os_cong [of s1 s] by (simp_all add: s1_def)
  have tp: "cached_total api L = cached_total api (L(p := [])) + ?g * length (L p)"
    using cached_total_upd [OF idx, of api L "[]"] by simp
  have "\<exists>s2. purge_walk api p (pb_head (page_bins s p)) released s1 = Some (released + ?g * length (L p), s2)
    \<and> ph_core api s2 (L(p := [])) \<and> page_cache_total_bytes s2 = cached_total api (L(p := [])) \<and> in_use s2 \<subseteq> in_use s1
    \<and> in_use s1 - ?R \<subseteq> in_use s2 \<and> (\<forall>a. a \<notin> ?R \<longrightarrow> mem s2 a = mem s1 a)
    \<and> (\<forall>q k. span_owned api s1 q k \<and> {q..<q + k} \<inter> ?R = {} \<longrightarrow> span_owned api s2 q k)"
  proof (rule purge_walk_all [OF spec d(1)])
    show "chain (pn_next (mem s1)) (pb_head (page_bins s p)) (L p)"
      using Cons.prems(1) idx by (simp add: ph_core_def os1)
    show "y \<in> set (L p) \<Longrightarrow> span_owned api s1 y ?g" for y
      using ph_core_span(2) [OF Cons.prems(1)] by (simp add: os1)
    show "y \<in> set (L p) \<Longrightarrow> z \<in> set (L p) \<Longrightarrow> y \<noteq> z \<Longrightarrow> bin_range api p y \<inter> bin_range api p z = {}" for y z
      using Cons.prems(1) by (simp add: ph_core_def)
  qed (use d(2) Cons.prems(3,4) tp os1(4) in auto)
  then obtain s2 where s2: "purge_walk api p (pb_head (page_bins s p)) released s1 = Some (released + ?g * length (L p), s2)"
    "ph_core api s2 (L(p := []))" "page_cache_total_bytes s2 = cached_total api (L(p := []))" "in_use s2 \<subseteq> in_use s"
    "in_use s - ?R \<subseteq> in_use s2" "\<forall>a. a \<notin> ?R \<longrightarrow> mem s2 a = mem s a"
    "\<forall>q k. span_owned api s q k \<and> {q..<q + k} \<inter> ?R = {} \<longrightarrow> span_owned api s2 q k"
    unfolding os1 by blast
  have M: "(\<lambda>q. if q \<in> set ps then [] else (L(p := [])) q) = (\<lambda>q. if q \<in> set (p # ps) then [] else L q)"
    by auto
  have "cached_total api (L(p := [])) + (released + ?g * length (L p)) \<le> 2 ^ 63"
    using Cons.prems(4) tp by simp
  note bnd' = this
  have "\<forall>p \<in> set ps. bin_index p" using Cons.prems(2) by simp
  from Cons.IH [OF s2(2) this s2(3) bnd', unfolded M] obtain s' r where s': "purge_bins api ps (released + ?g * length (L p)) s2 = Some (r, s')"
    "ph_core api s' (\<lambda>q. if q \<in> set (p # ps) then [] else L q)"
    "page_cache_total_bytes s' = cached_total api (\<lambda>q. if q \<in> set (p # ps) then [] else L q)"
    "r + page_cache_total_bytes s' = released + ?g * length (L p) + cached_total api (L(p := []))"
    "in_use s' \<subseteq> in_use s2" "in_use s2 - cached_cells api (L(p := [])) \<subseteq> in_use s'"
    "\<forall>a. a \<notin> cached_cells api (L(p := [])) \<longrightarrow> mem s' a = mem s2 a"
    "\<forall>q k. span_owned api s2 q k \<and> {q..<q + k} \<inter> cached_cells api (L(p := [])) = {} \<longrightarrow> span_owned api s' q k"
    by (elim exE conjE)
  have "purge_bins api (p # ps) released s = Some (r, s')" using s2(1) s'(1) by (simp add: Let_def s1_def)
  moreover have "in_use s' \<subseteq> in_use s" "in_use s - cached_cells api L \<subseteq> in_use s'"
    using s'(5,6) s2(4,5) unfolding d(3) by blast+
  moreover have "\<forall>a. a \<notin> cached_cells api L \<longrightarrow> mem s' a = mem s a"
    using s'(7) s2(6) unfolding d(3) by simp
  moreover have "span_owned api s' q k" if "span_owned api s q k" "{q..<q + k} \<inter> cached_cells api L = {}" for q k
  proof -
    have "{q..<q + k} \<inter> ?R = {}" "{q..<q + k} \<inter> cached_cells api (L(p := [])) = {}"
      using that(2) unfolding d(3) by blast+
    then show ?thesis using that(1) s2(7) s'(8) by blast
  qed
  ultimately show ?case using s'(2-4) tp by (intro exI [of _ s'] exI [of _ r]) simp
qed

lemma PurgePageCacheLocked_all:
  assumes spec: "os_spec api" and ok: "ph_ok api s L"
  obtains s' where "PurgePageCacheLocked api s = Some (cached_total api L, s')"
    "ph_ok api s' (\<lambda>_. [])" "page_cache_total_bytes s' = 0"
    "in_use s' \<subseteq> in_use s" "ph_used api s L \<subseteq> in_use s'"
    "\<And>a. a \<notin> cached_cells api L \<Longrightarrow> mem s' a = mem s a"
    "\<And>q k. span_owned api s q k \<Longrightarrow> {q..<q + k} \<inter> cached_cells api L = {} \<Longrightarrow> span_owned api s' q k"
proof -
  have L: "(\<lambda>q. if q \<in> set [1..<MAX_CACHED_PAGES + 1] then [] else L q) = (\<lambda>_. [])"
  proof
    fix q
    have "q \<notin> set [1..<MAX_CACHED_PAGES + 1] \<Longrightarrow> \<not> bin_index q" by (auto simp: bin_index_def)
    then show "(if q \<in> set [1..<MAX_CACHED_PAGES + 1] then [] else L q) = []"
      using ok by (simp add: ph_ok_def ph_core_def)
  qed
  have idx: "\<forall>p \<in> set [1..<MAX_CACHED_PAGES + 1]. bin_index p" by (auto simp: bin_index_def)
  have z: "cached_total api (\<lambda>_. []) = 0" by (simp add: cached_total_def)
  have "ph_core api s L" "page_cache_total_bytes s = cached_total api L" "cached_total api L + 0 \<le> 2 ^ 63"
    "PageCacheTotalLimit api \<le> 2 ^ 63"
    using ok by (simp_all add: ph_ok_def)
  note facts = this
  obtain s' r where s': "PurgePageCacheLocked api s = Some (r, s')" "ph_core api s' (\<lambda>_. [])"
    "page_cache_total_bytes s' = 0" "r + page_cache_total_bytes s' = 0 + cached_total api L"
    "in_use s' \<subseteq> in_use s" "in_use s - cached_cells api L \<subseteq> in_use s'"
    "\<forall>a. a \<notin> cached_cells api L \<longrightarrow> mem s' a = mem s a"
    "\<forall>q k. span_owned api s q k \<and> {q..<q + k} \<inter> cached_cells api L = {} \<longrightarrow> span_owned api s' q k"
    using purge_bins_all [OF spec facts(1) idx facts(2,3)] unfolding L z PurgePageCacheLocked_def by blast
  show thesis
    by (rule that [of s']) (use s' facts(4) in \<open>simp_all add: ph_ok_def ph_used_def z\<close>)
qed

section \<open>The cache as a supplier of address ranges\<close>

text \<open>The spans filed in a bin are determined by the state.\<close>

definition bin_spans :: "'a ph_state_scheme \<Rightarrow> nat \<Rightarrow> addr list" where
  "bin_spans s p = (if bin_index p then THE xs. chain (pn_next (mem s)) (pb_head (page_bins s p)) xs else [])"

lemma bin_spans_eq: "ph_core api s L \<Longrightarrow> bin_spans s = L"
proof
  fix p assume ok: "ph_core api s L"
  show "bin_spans s p = L p"
  proof (cases "bin_index p")
    case True
    then have "chain (pn_next (mem s)) (pb_head (page_bins s p)) (L p)" using ok by (simp add: ph_core_def)
    then show ?thesis using True chain_unique by (auto simp: bin_spans_def intro!: the_equality)
  next
    case False
    then show ?thesis using ok by (simp add: bin_spans_def ph_core_def)
  qed
qed

definition ph_inv :: "os_api \<Rightarrow> 'a ph_state_scheme \<Rightarrow> bool" where
  "ph_inv api s \<longleftrightarrow> os_spec api \<and> ph_ok api s (bin_spans s)"

definition ph_held :: "os_api \<Rightarrow> 'a ph_state_scheme \<Rightarrow> nat set" where
  "ph_held api s = ph_used api s (bin_spans s)"

lemma ph_inv_eq: "ph_ok api s L \<Longrightarrow> bin_spans s = L"
  using bin_spans_eq [of api s L] by (simp add: ph_ok_def)

definition page_multiple :: "os_api \<Rightarrow> nat \<Rightarrow> bool" where
  "page_multiple api n \<longleftrightarrow> 0 < n \<and> n mod GetPageSize api = 0"

interpretation page_heap: page_source "PageHeapAllocate api" "ph_held api" "ph_inv api" mem "span_ok api" "page_multiple api"
  for api
proof
  fix s s' and n p :: nat
  assume inv: "ph_inv api s" and n: "page_multiple api n"
  have g: "if p = 0 then ph_ok api s' (bin_spans s) \<and> ph_used api s' (bin_spans s) = ph_used api s (bin_spans s) \<and> mem s' = mem s
      else (\<exists>L'. ph_grant api s (bin_spans s) p n s' L')" if "PageHeapAllocate api n s = (p, s')" for p s'
    using inv n PageHeapAllocate_grant [OF _ _ _ _ that, of "bin_spans s"]
    by (cases "p = 0") (simp_all add: ph_inv_def page_multiple_def)
  show "ph_inv api s' \<and> ph_held api s' = ph_held api s \<and> (\<forall>a \<in> ph_held api s. mem s' a = mem s a)"
    if "PageHeapAllocate api n s = (0, s')"
    using g [OF that] inv ph_inv_eq [of api s' "bin_spans s"] by (simp add: ph_inv_def ph_held_def)
  show "ph_inv api s' \<and> span_ok api p n \<and> {p..<p + n} \<inter> ph_held api s = {}
      \<and> ph_held api s' = ph_held api s \<union> {p..<p + n} \<and> (\<forall>a \<in> ph_held api s. mem s' a = mem s a)"
    if r: "PageHeapAllocate api n s = (p, s')" "p \<noteq> 0"
  proof -
    obtain L' where L': "ph_grant api s (bin_spans s) p n s' L'" using g [OF r(1)] r(2) by auto
    then have "bin_spans s' = L'" using ph_inv_eq by (auto simp: ph_grant_def)
    then show ?thesis using L' inv by (simp add: ph_grant_def ph_inv_def ph_held_def)
  qed
qed

section \<open>Properties\<close>

definition ph_init :: ph_state where
  "ph_init = \<lparr>mem = \<lambda>_. 0, os_log = [], pool_chunks = [],
     page_bins = \<lambda>_. \<lparr>pb_head = 0, pb_count = 0\<rparr>, page_nonempty = \<lambda>_. 0,
     page_cache_total_bytes = 0, g_stats = stats_zero, g_oom_fail_countdown = 0\<rparr>"

lemma ph_init_ok: "ph_ok demo_os ph_init (\<lambda>_. [])" "ph_inv demo_os ph_init" "ph_held demo_os ph_init = {}"
proof -
  show ok: "ph_ok demo_os ph_init (\<lambda>_. [])"
    by (simp add: ph_ok_def ph_core_def ph_init_def pool_ok_def hint_def cached_total_def
        PageCacheTotalLimit_def demo_os_def mul64_def)
  show "ph_inv demo_os ph_init" using ok ph_inv_eq [OF ok] by (simp add: ph_inv_def demo_os_spec)
  show "ph_held demo_os ph_init = {}"
    using ph_inv_eq [OF ok] by (simp add: ph_held_def ph_used_def ph_init_def in_use_def chunks_carved_def)
qed

text \<open>A run on the sample kernel: two pages are taken and given back.\<close>

definition ph_demo1 :: ph_state where "ph_demo1 = snd (PageHeapAllocate demo_os 8192 ph_init)"
definition ph_demo2 :: ph_state where "ph_demo2 = PageHeapFree demo_os 65536 8192 ph_demo1"

lemmas demo_ph_simps = demo_simps PageHeapAllocate_def ph_init_def MAX_CACHED_PAGES_def
  FirstNonEmptyAbove_def scan_words.simps page_nonempty_size_def best_fit.simps

lemma ph_demo1_grant:
  obtains L where "ph_grant demo_os ph_init (\<lambda>_. []) 65536 8192 ph_demo1 L"
    "ph_ok demo_os ph_demo1 L" "span_owned demo_os ph_demo1 65536 8192" "span_ok demo_os 65536 8192"
    "{65536..<65536 + 8192} \<inter> cached_cells demo_os L = {}"
proof -
  have "fst (PageHeapAllocate demo_os 8192 ph_init) = 65536" by (simp add: demo_ph_simps)
  then have r: "PageHeapAllocate demo_os 8192 ph_init = (65536, ph_demo1)"
    by (simp add: ph_demo1_def prod_eq_iff)
  have "8192 mod GetPageSize demo_os = 0" by (simp add: demo_simps)
  from PageHeapAllocate_grant [OF demo_os_spec ph_init_ok(1) _ this r]
  obtain L where L: "ph_grant demo_os ph_init (\<lambda>_. []) 65536 8192 ph_demo1 L" by auto
  then have "{65536..<65536 + 8192} \<subseteq> ph_used demo_os ph_demo1 L" by (auto simp: ph_grant_def)
  then have "{65536..<65536 + 8192} \<inter> cached_cells demo_os L = {}" unfolding ph_used_def by blast
  then show thesis using that [OF L] L unfolding ph_grant_def by blast
qed

lemma ph_demo2_ok: obtains L where "ph_ok demo_os ph_demo2 L" "cached_total demo_os L = 8192"
proof -
  obtain L where L: "ph_ok demo_os ph_demo1 L" "span_owned demo_os ph_demo1 65536 8192"
    "span_ok demo_os 65536 8192" "{65536..<65536 + 8192} \<inter> cached_cells demo_os L = {}"
    using ph_demo1_grant by metis
  obtain L2 where L2: "ph_ok demo_os ph_demo2 L2"
    using PageHeapFree_release [OF demo_os_spec L] unfolding ph_demo2_def ph_release_def by blast
  have "page_cache_total_bytes ph_demo2 = 8192"
    by (simp add: ph_demo2_def PageHeapFree_def ph_demo1_def demo_ph_simps BinRetentionCount_def
        PAGE_CACHE_PER_BIN_BYTES_def PageCacheTotalLimit_def mul64_def add64_def bin_push_def
        set_pn_next_def MarkNonEmpty_def cache_bytes_add_def count_stats_def)
  then show thesis using that [OF L2] L2 by (simp add: ph_ok_def)
qed

text \<open>
  C32: the hint scan of the page cache is exact: it returns the smallest non-empty bin above the
  requested number of pages, and 0 only when every larger bin is empty.
\<close>

theorem first_nonempty_above_exact:
  assumes "ph_ok api s L" "pages \<le> MAX_CACHED_PAGES"
  shows "(if FirstNonEmptyAbove pages (page_nonempty s) = 0 then \<forall>r. pages < r \<longrightarrow> L r = []
     else (let q = FirstNonEmptyAbove pages (page_nonempty s)
           in pages < q \<and> q \<le> MAX_CACHED_PAGES \<and> L q \<noteq> [] \<and> (\<forall>r. pages < r \<and> r < q \<longrightarrow> L r = [])))"
  using FirstNonEmptyAbove_bin [of api s L pages] assms
  by (cases "FirstNonEmptyAbove pages (page_nonempty s) = 0") (simp_all add: ph_ok_def bin_index_def Let_def)

theorem first_nonempty_above_exact_witness:
  "\<exists>L. ph_ok demo_os ph_demo2 L \<and> cached_total demo_os L = 8192
     \<and> (if FirstNonEmptyAbove 1 (page_nonempty ph_demo2) = 0 then \<forall>r. 1 < r \<longrightarrow> L r = []
        else (let q = FirstNonEmptyAbove 1 (page_nonempty ph_demo2)
              in 1 < q \<and> q \<le> MAX_CACHED_PAGES \<and> L q \<noteq> [] \<and> (\<forall>r. 1 < r \<and> r < q \<longrightarrow> L r = [])))"
proof -
  obtain L where L: "ph_ok demo_os ph_demo2 L" "cached_total demo_os L = 8192" using ph_demo2_ok .
  have "(1 :: nat) \<le> MAX_CACHED_PAGES" by (simp add: MAX_CACHED_PAGES_def)
  from first_nonempty_above_exact [OF L(1) this] L show ?thesis by blast
qed

text \<open>
  C31: every sequence of whole-page requests to the page cache, whether served from an exact bin,
  by splitting a larger cached span or from the operating system, yields page-aligned spans that
  are pairwise disjoint and disjoint from everything clients already hold, keeps the contents of
  what they hold, and keeps the cache invariant (hints exact, counts right, byte counter equal to
  the bytes filed and within the limit).
\<close>

theorem page_heap_spans_disjoint:
  assumes "ph_inv api s" "\<forall>n \<in> set ns. page_multiple api n"
    "request_spans (PageHeapAllocate api) ns s = (xs, s')"
  shows "ph_inv api s' \<and> ph_held api s' = ph_held api s \<union> (\<Union>x \<in> set xs. span_range x)
    \<and> (\<forall>x \<in> set xs. span_ok api (fst x) (snd x) \<and> span_range x \<inter> ph_held api s = {})
    \<and> sorted_wrt (\<lambda>x y. span_range x \<inter> span_range y = {}) xs
    \<and> (\<forall>a \<in> ph_held api s. mem s' a = mem s a)"
  using page_heap.spans_fresh [OF assms] .

theorem page_heap_spans_disjoint_witness:
  "let (xs, s') = request_spans (PageHeapAllocate demo_os) [8192, 4096] ph_init
   in ph_inv demo_os s' \<and> ph_held demo_os s' = (\<Union>x \<in> set xs. span_range x)"
proof -
  obtain xs s' where r: "request_spans (PageHeapAllocate demo_os) [8192, 4096] ph_init = (xs, s')" by fastforce
  have "\<forall>n \<in> set [8192, 4096]. page_multiple demo_os n" by (simp add: page_multiple_def demo_simps)
  from page_heap_spans_disjoint [OF ph_init_ok(2) this r] show ?thesis
    unfolding r by (simp add: ph_init_ok(3))
qed

text \<open>
  Giving a span back to the page cache, whether it is filed or evicted to the operating
  system, keeps the cache invariant; no byte outside the span changes; clients keep everything
  they hold outside the span, and every other span stays releasable.
\<close>

lemma page_heap_free_effect:
  assumes "os_spec api" "ph_ok api s L" "span_owned api s x n" "span_ok api x n"
    "{x..<x + n} \<inter> cached_cells api L = {}"
  shows "\<exists>L'. ph_ok api (PageHeapFree api x n s) L'
    \<and> ph_used api s L - {x..<x + n} \<subseteq> ph_used api (PageHeapFree api x n s) L'
    \<and> ph_used api (PageHeapFree api x n s) L' \<subseteq> ph_used api s L
    \<and> (\<forall>a. a \<notin> {x..<x + n} \<longrightarrow> mem (PageHeapFree api x n s) a = mem s a)
    \<and> (\<forall>q k. span_owned api s q k \<and> {q..<q + k} \<inter> {x..<x + n} = {} \<longrightarrow>
         span_owned api (PageHeapFree api x n s) q k)"
  using PageHeapFree_release [OF assms] unfolding ph_release_def by blast

text \<open>
  The error of the reported figure: what the statistics say is parked in the page cache minus what
  is, in 64-bit arithmetic; and the bin a request of some pages is served from (0: none).
\<close>

definition gauge_error :: "'a ph_state_scheme \<Rightarrow> 64 word" where
  "gauge_error s = word_of_nat (page_cache_bytes (g_stats s)) - word_of_nat (page_cache_total_bytes s)"

definition hit_bin :: "nat \<Rightarrow> 'a ph_state_scheme \<Rightarrow> nat" where
  "hit_bin pages s = (if pb_head (page_bins s pages) \<noteq> 0 then pages else FirstNonEmptyAbove pages (page_nonempty s))"

lemma word_add64: "(word_of_nat (add64 a b) :: 64 word) = word_of_nat a + word_of_nat b"
  by (simp add: add64_def word_of_nat_eq_iff take_bit_eq_mod flip: of_nat_add)

lemma word_mod64: "(word_of_nat (a mod 2 ^ 64) :: 64 word) = word_of_nat a"
  by (simp add: word_of_nat_eq_iff take_bit_eq_mod)

lemma word_sub64: "(word_of_nat (sub64 a b) :: 64 word) = word_of_nat a - word_of_nat b"
proof -
  have "b mod 2 ^ 64 \<le> 2 ^ 64" by (rule less_imp_le) simp
  then have "(word_of_nat (sub64 a b) :: 64 word) = word_of_nat a + (word_of_nat (2 ^ 64) - word_of_nat (b mod 2 ^ 64))"
    unfolding sub64_def word_mod64 of_nat_add by (simp only: of_nat_diff word_mod64)
  then show ?thesis unfolding word_mod64 by simp
qed

lemma gauge_error_split:
  assumes "p * GetPageSize api \<le> 2 ^ 64" "pages \<le> p"
  shows "gauge_error (snd (split_span api sz pages p s)) = gauge_error s + word_of_nat (p * GetPageSize api)"
  using assms
  by (auto simp: split_span_def bin_pop_def bin_push_def Let_def gauge_error_def cache_bytes_sub_def cache_bytes_add_def
      count_stats_def stats_defs MarkMaybeEmpty_def MarkNonEmpty_def word_add64 word_sub64)

lemma gauge_error_os: "os_frame s s' \<Longrightarrow> gauge_error s' = gauge_error s"
  by (simp add: gauge_error_def os_frame_ph)

text \<open>
  C40: the figure the statistics report for the page cache (\<^verbatim>\<open>page_cache_bytes\<close>) drifts away from the
  bytes parked there, in every valid state. A request that finds nothing leaves the error alone; a
  request served from bin \<open>q\<close>, exactly or by a split, raises it by all \<open>q\<close> pages of the span found. A
  span that is stored keeps the error; one that is turned away lowers it by its size although its
  bytes were never counted, and the figure wraps below zero when it was smaller than the span.
\<close>

theorem page_cache_bytes_drift:
  assumes "os_spec api" "ph_ok api s L" "bin_index pages" "n = pages * GetPageSize api"
  shows "gauge_error (snd (PageHeapAllocate api n s)) = gauge_error s + word_of_nat (hit_bin pages s * GetPageSize api)
    \<and> gauge_error (PageHeapFree api x n s) = gauge_error s - (if cache_room api n s then 0 else word_of_nat n)
    \<and> (\<not> cache_room api n s \<and> page_cache_bytes (g_stats s) < n \<longrightarrow>
        page_cache_bytes (g_stats (PageHeapFree api x n s)) = page_cache_bytes (g_stats s) + 2 ^ 64 - n)"
proof (intro conjI impI)
  let ?g = "GetPageSize api" and ?q = "FirstNonEmptyAbove pages (page_nonempty s)"
  have core: "ph_core api s L" and tot: "page_cache_total_bytes s \<le> 2 ^ 63" using assms(2) by (simp_all add: ph_ok_def)
  have g: "0 < ?g" "?g \<le> 2097152" using page_pos os_spec_page_bounds(2) assms(1) by blast+
  have pg: "n div ?g = pages" "0 < pages" "pages \<le> 512" using assms(3,4) g by (simp_all add: bin_index_def MAX_CACHED_PAGES_def)
  have le: "q * ?g \<le> 2 ^ 64" if "q \<le> 512" for q using mult_le_mono [OF that g(2)] by simp
  note f = FirstNonEmptyAbove_bin [OF core _ refl, of pages]
  show "gauge_error (snd (PageHeapAllocate api n s)) = gauge_error s + word_of_nat (hit_bin pages s * ?g)"
  proof (cases "pb_head (page_bins s pages) = 0")
    case False
    have "PageHeapAllocate api n s = split_span api n pages pages s" using False pg assms(4)
      by (simp add: PageHeapAllocate_def split_span_def bin_pop_def Let_def MAX_CACHED_PAGES_def)
    then show ?thesis using gauge_error_split [OF le [OF pg(3)] order_refl] False by (simp add: hit_bin_def)
  next
    case True
    show ?thesis
    proof (cases "?q = 0")
      case q: True
      have "PageHeapAllocate api n s = AllocatePages api n s" using True q pg
        by (simp add: PageHeapAllocate_def Let_def best_fit.simps)
      then show ?thesis using gauge_error_os [OF AllocatePages_frame] True q by (simp add: hit_bin_def)
    next
      case False
      then have fq: "bin_index ?q" "pages < ?q" "L ?q \<noteq> []" using f pg(3) by (auto simp: MAX_CACHED_PAGES_def)
      obtain y ys where "L ?q = y # ys" using fq(3) by (cases "L ?q") auto
      then have h: "pb_head (page_bins s ?q) \<noteq> 0" using core fq(1) by (auto simp: ph_core_def)
      then have "PageHeapAllocate api n s = split_span api n pages ?q s" using True False pg
        by (simp add: PageHeapAllocate_def Let_def best_fit.simps MAX_CACHED_PAGES_def split_span_def bin_pop_def)
      moreover have "?q \<le> 512" using fq(1) by (simp add: bin_index_def MAX_CACHED_PAGES_def)
      ultimately show ?thesis using gauge_error_split [OF le less_imp_le [OF fq(2)]] True by (simp add: hit_bin_def)
    qed
  qed
  have n: "n \<le> 2 ^ 30" using mult_le_mono [OF pg(3) g(2)] assms(4) by simp
  have sum: "add64 (page_cache_total_bytes s) n = page_cache_total_bytes s + n"
    "sub64 (page_cache_total_bytes s + n) n = page_cache_total_bytes s"
    using tot n by (simp_all add: add64_exact sub64_exact)
  have room: "PageHeapFree api x n s = (if cache_room api n s then count_stats (CountPageCacheStore n) (bin_push pages x (cache_bytes_add n s))
      else FreePages api x n (count_stats (CountPageCacheEvict n) (cache_bytes_sub n (cache_bytes_add n s))))"
    using pg sum(1) by (simp add: PageHeapFree_def Let_def cache_room_def MAX_CACHED_PAGES_def cache_bytes_add_def)
  have ev: "gauge_error (count_stats (CountPageCacheEvict n) (cache_bytes_sub n (cache_bytes_add n s))) = gauge_error s - word_of_nat n"
    using n by (simp add: gauge_error_def count_stats_def cache_bytes_sub_def cache_bytes_add_def stats_defs sum word_sub64)
  have st: "gauge_error (count_stats (CountPageCacheStore n) (bin_push pages x (cache_bytes_add n s))) = gauge_error s"
    by (simp add: gauge_error_def count_stats_def bin_push_def Let_def cache_bytes_add_def MarkNonEmpty_def stats_defs word_add64)
  show "gauge_error (PageHeapFree api x n s) = gauge_error s - (if cache_room api n s then 0 else word_of_nat n)"
    using room ev st by (simp add: gauge_error_os [OF FreePages_frame])
  assume a: "\<not> cache_room api n s \<and> page_cache_bytes (g_stats s) < n"
  have "g_stats (PageHeapFree api x n s) = CountPageCacheEvict n (g_stats s)"
    using a room by (simp add: os_frame_ph(4) [OF FreePages_frame] count_stats_def cache_bytes_sub_def cache_bytes_add_def)
  then show "page_cache_bytes (g_stats (PageHeapFree api x n s)) = page_cache_bytes (g_stats s) + 2 ^ 64 - n"
    using a n by (auto simp: stats_defs sub64_def intro!: mod_less)
qed

theorem page_cache_bytes_drift_witness:
  "gauge_error ph_demo2 = 0 \<and> gauge_error (snd (PageHeapAllocate demo_os 8192 ph_demo2)) = 8192"
proof -
  obtain L where ok: "ph_ok demo_os ph_demo2 L" by (rule ph_demo2_ok)
  have "GetPageSize demo_os = 4096" "bin_index 2" by (simp_all add: demo_simps bin_index_def MAX_CACHED_PAGES_def)
  moreover have "gauge_error ph_demo2 = 0" "pb_head (page_bins ph_demo2 2) \<noteq> 0"
    by (simp_all add: gauge_error_def ph_demo2_def PageHeapFree_def ph_demo1_def demo_ph_simps BinRetentionCount_def
      PAGE_CACHE_PER_BIN_BYTES_def PageCacheTotalLimit_def mul64_def add64_def bin_push_def
      set_pn_next_def MarkNonEmpty_def cache_bytes_add_def count_stats_def stats_defs stats_zero_def)
  ultimately show ?thesis using page_cache_bytes_drift [OF demo_os_spec ok, of 2 8192] by (simp add: hit_bin_def)
qed

end
