(* ===== verification/FA_GlobalHeap.thy ===== *)
theory FA_GlobalHeap
  imports FA_PageHeap
begin

text \<open>
  \<^verbatim>\<open>GlobalHeap\<close> of \<^verbatim>\<open>src/global_heap.h\<close>, \<^verbatim>\<open>src/global_heap.cpp\<close> (release build): 16 arenas,
  each with, per size class, a lock, the doubly linked lists of partial and full slabs and the
  queue of pending returns. An operation is a function on the state that returns \<open>None\<close> when
  the call does not return: it spins on a class lock another thread holds (\<open>lock_busy\<close>), or
  it walks a cyclic list. Locks are those held by other threads during the call; the lock-free
  hand-offs run their compare-exchange once. Diagnostics printed to stderr are not part of the
  state.
\<close>

section \<open>State\<close>

definition NUM_ARENAS :: nat where "NUM_ARENAS = 16"

record gh_state = ph_state +
  partial_slabs :: "nat \<Rightarrow> nat \<Rightarrow> addr"
  full_slabs :: "nat \<Rightarrow> nat \<Rightarrow> addr"
  pending_returns :: "nat \<Rightarrow> nat \<Rightarrow> addr"
  lock_busy :: "nat \<Rightarrow> nat \<Rightarrow> bool"
  next_arena :: nat
  shutting_down :: bool

definition set_partial :: "nat \<Rightarrow> nat \<Rightarrow> addr \<Rightarrow> 'a gh_state_scheme \<Rightarrow> 'a gh_state_scheme" where
  "set_partial a c v s = s\<lparr>partial_slabs := (partial_slabs s)(a := (partial_slabs s a)(c := v))\<rparr>"

definition set_full :: "nat \<Rightarrow> nat \<Rightarrow> addr \<Rightarrow> 'a gh_state_scheme \<Rightarrow> 'a gh_state_scheme" where
  "set_full a c v s = s\<lparr>full_slabs := (full_slabs s)(a := (full_slabs s a)(c := v))\<rparr>"

definition set_pending :: "nat \<Rightarrow> nat \<Rightarrow> addr \<Rightarrow> 'a gh_state_scheme \<Rightarrow> 'a gh_state_scheme" where
  "set_pending a c v s = s\<lparr>pending_returns := (pending_returns s)(a := (pending_returns s a)(c := v))\<rparr>"

definition upd_mem :: "(mem \<Rightarrow> mem) \<Rightarrow> 'a os_state_scheme \<Rightarrow> 'a os_state_scheme" where
  "upd_mem f s = s\<lparr>mem := f (mem s)\<rparr>"

definition GetNextArena :: "'a gh_state_scheme \<Rightarrow> nat \<times> 'a gh_state_scheme" where
  "GetNextArena s = (next_arena s mod NUM_ARENAS, s\<lparr>next_arena := add32 (next_arena s) 1\<rparr>)"

section \<open>Slab lists\<close>

definition PushSlab :: "addr \<Rightarrow> addr \<Rightarrow> mem \<Rightarrow> addr \<times> mem" where
  "PushSlab head slab m =
     (let m = set_slab_next slab head m;
          m = set_slab_prev slab 0 m;
          m = (if head \<noteq> 0 then set_slab_prev head slab m else m)
      in (slab, m))"

definition RemoveSlab :: "addr \<Rightarrow> addr \<Rightarrow> mem \<Rightarrow> addr \<times> mem" where
  "RemoveSlab head slab m =
     (let (head, m) = (if slab_prev m slab \<noteq> 0 then (head, set_slab_next (slab_prev m slab) (slab_next m slab) m)
                       else (slab_next m slab, m));
          m = (if slab_next m slab \<noteq> 0 then set_slab_prev (slab_next m slab) (slab_prev m slab) m else m);
          m = set_slab_next slab 0 m;
          m = set_slab_prev slab 0 m
      in (head, m))"

definition push_partial :: "nat \<Rightarrow> nat \<Rightarrow> addr \<Rightarrow> 'a gh_state_scheme \<Rightarrow> 'a gh_state_scheme" where
  "push_partial a c slab s =
     (let (h, m) = PushSlab (partial_slabs s a c) slab (mem s) in set_partial a c h (s\<lparr>mem := m\<rparr>))"

definition push_full :: "nat \<Rightarrow> nat \<Rightarrow> addr \<Rightarrow> 'a gh_state_scheme \<Rightarrow> 'a gh_state_scheme" where
  "push_full a c slab s =
     (let (h, m) = PushSlab (full_slabs s a c) slab (mem s) in set_full a c h (s\<lparr>mem := m\<rparr>))"

definition remove_partial :: "nat \<Rightarrow> nat \<Rightarrow> addr \<Rightarrow> 'a gh_state_scheme \<Rightarrow> 'a gh_state_scheme" where
  "remove_partial a c slab s =
     (let (h, m) = RemoveSlab (partial_slabs s a c) slab (mem s) in set_partial a c h (s\<lparr>mem := m\<rparr>))"

definition remove_full :: "nat \<Rightarrow> nat \<Rightarrow> addr \<Rightarrow> 'a gh_state_scheme \<Rightarrow> 'a gh_state_scheme" where
  "remove_full a c slab s =
     (let (h, m) = RemoveSlab (full_slabs s a c) slab (mem s) in set_full a c h (s\<lparr>mem := m\<rparr>))"

section \<open>New slabs\<close>

definition slab_target_size :: "nat \<Rightarrow> nat" where
  "slab_target_size class_index =
     (let block_size = ClassIndexToSize class_index;
          target_blocks = 256;
          target_blocks = (if block_size \<ge> 1024 then 128 else target_blocks);
          target_blocks = (if block_size \<ge> 4096 then 32 else target_blocks);
          target_size = mul64 block_size target_blocks;
          target_size = (if target_size < 65536 then 65536 else target_size)
      in (if target_size > 2 * 1024 * 1024 then 2 * 1024 * 1024 else target_size))"

definition AllocateNewSlab :: "os_api \<Rightarrow> nat \<Rightarrow> nat \<Rightarrow> 'a gh_state_scheme \<Rightarrow> addr \<times> 'a gh_state_scheme" where
  "AllocateNewSlab api class_index arena_index s =
     (let block_size = ClassIndexToSize class_index;
          memory_size = align_up (slab_target_size class_index) (GetPageSize api);
          (fail, s) = ShouldFailAllocationForTest s
      in if fail then (0, s)
         else let (memory, s) = PageHeapAllocate api memory_size s
              in if memory = 0 then (0, s)
                 else let s = count_stats (CountOsAlloc memory_size) s;
                          (slab, m) = Slab_Create memory memory_size block_size arena_index (mem s);
                          s = s\<lparr>mem := m\<rparr>
                      in if slab = 0 then
                           let s = PageHeapFree api memory memory_size s
                           in (0, count_stats (CountOsFree memory_size) s)
                         else (slab, s))"

section \<open>Returning blocks to their slabs\<close>

definition WalkLinkPlausible :: "addr \<Rightarrow> bool" where
  "WalkLinkPlausible node \<longleftrightarrow> node = 0 \<or> IsPlausibleHeapPtr node"

definition BlockSlabUsable :: "mem \<Rightarrow> addr \<Rightarrow> bool" where
  "BlockSlabUsable m node \<longleftrightarrow>
     IsPlausibleHeapPtr (fb_slab m node) \<and> slab_arena_index m (fb_slab m node) < NUM_ARENAS"

text \<open>The loop body of \<^verbatim>\<open>ProcessPendingListLocked\<close> and \<^verbatim>\<open>ProcessBatchLocked\<close>.\<close>

definition return_block :: "os_api \<Rightarrow> nat \<Rightarrow> nat \<Rightarrow> addr \<Rightarrow> 'a gh_state_scheme \<Rightarrow> 'a gh_state_scheme" where
  "return_block api a c b s =
     (let slab = fb_slab (mem s) b;
          was_full = Slab_IsFull (mem s) slab;
          s = upd_mem (Slab_Deallocate slab b) s;
          s = (if was_full then push_partial a c slab (remove_full a c slab s) else s)
      in if Slab_IsEmpty (mem s) slab then
           let s = remove_partial a c slab s;
               freed_size = slab_memory_size (mem s) slab;
               s = PageHeapFree api slab freed_size s
           in count_stats (CountOsFree freed_size) s
         else s)"

text \<open>The loop itself; the flag is False when it stopped at an invalid node.\<close>

partial_function (option) return_walk ::
  "os_api \<Rightarrow> nat \<Rightarrow> nat \<Rightarrow> addr \<Rightarrow> 'a gh_state_scheme \<Rightarrow> (bool \<times> 'a gh_state_scheme) option" where
  "return_walk api a c cur s =
     (if cur = 0 then Some (True, s)
      else if \<not> WalkLinkPlausible cur \<or> \<not> BlockSlabUsable (mem s) cur then Some (False, s)
      else let next' = fb_next (mem s) cur;
               next' = (if WalkLinkPlausible next' then next' else 0);
               s = return_block api a c cur s
           in return_walk api a c next' s)"

definition ProcessPendingListLocked ::
  "os_api \<Rightarrow> nat \<Rightarrow> nat \<Rightarrow> addr \<Rightarrow> 'a gh_state_scheme \<Rightarrow> 'a gh_state_scheme option" where
  "ProcessPendingListLocked api a c pending s = map_option snd (return_walk api a c pending s)"

definition DrainPendingReturns :: "os_api \<Rightarrow> nat \<Rightarrow> nat \<Rightarrow> 'a gh_state_scheme \<Rightarrow> 'a gh_state_scheme option" where
  "DrainPendingReturns api a c s =
     (if pending_returns s a c = 0 then Some s
      else let pending = pending_returns s a c;
               s = set_pending a c 0 s
           in ProcessPendingListLocked api a c pending s)"

definition ProcessBatchLocked ::
  "os_api \<Rightarrow> nat \<Rightarrow> nat \<Rightarrow> addr \<Rightarrow> 'a gh_state_scheme \<Rightarrow> 'a gh_state_scheme option" where
  "ProcessBatchLocked api a c list s =
     do { (done, s) \<leftarrow> return_walk api a c list s;
          if done then DrainPendingReturns api a c s else Some s }"

section \<open>Taking blocks\<close>

text \<open>Move a slab that just lost its last free block to the full list.\<close>

definition retire_if_full :: "nat \<Rightarrow> nat \<Rightarrow> addr \<Rightarrow> 'a gh_state_scheme \<Rightarrow> 'a gh_state_scheme" where
  "retire_if_full a c slab s =
     (if Slab_IsFull (mem s) slab then push_full a c slab (remove_partial a c slab s) else s)"

definition AllocateBlock_global ::
  "os_api \<Rightarrow> nat \<Rightarrow> nat \<Rightarrow> 'a gh_state_scheme \<Rightarrow> (addr \<times> 'a gh_state_scheme) option" where
  "AllocateBlock_global api c a s =
     (if lock_busy s a c then None
      else do { s \<leftarrow> DrainPendingReturns api a c s;
        let slab = partial_slabs s a c in
        if slab \<noteq> 0 then
          let (p, m) = Slab_Allocate slab (mem s)
          in Some (p, retire_if_full a c slab (s\<lparr>mem := m\<rparr>))
        else
          let (new_slab, s) = AllocateNewSlab api c a s
          in if new_slab \<noteq> 0 then
               let s = push_partial a c new_slab s;
                   (p, m) = Slab_Allocate new_slab (mem s)
               in Some (p, retire_if_full a c new_slab (s\<lparr>mem := m\<rparr>))
             else Some (0, s) })"

text \<open>
  \<^verbatim>\<open>ExtractBlocksFromSlab\<close>: the loop keeps head and tail of the list being built and the
  count, which starts at the caller's value.
\<close>

function extract_loop :: "addr \<Rightarrow> nat \<Rightarrow> addr \<Rightarrow> addr \<Rightarrow> nat \<Rightarrow> mem \<Rightarrow> addr \<times> addr \<times> nat \<times> mem" where
  "extract_loop slab target head tail actual m =
     (if actual < target \<and> \<not> Slab_IsFull m slab then
        let (block, m) = Slab_Allocate slab m
        in if block = 0 \<or> \<not> IsPlausibleHeapPtr block then (head, tail, actual, m)
           else if head = 0 then extract_loop slab target block block (actual + 1) m
           else extract_loop slab target head block (actual + 1) (set_fb_next tail block m)
      else (head, tail, actual, m))"
  by pat_completeness auto
termination by (relation "measure (\<lambda>(slab, target, head, tail, actual, m). target - actual)") auto

declare extract_loop.simps [simp del]

definition ExtractBlocksFromSlab ::
  "addr \<Rightarrow> nat \<Rightarrow> nat \<Rightarrow> nat \<Rightarrow> nat \<Rightarrow> 'a gh_state_scheme \<Rightarrow> addr \<times> nat \<times> 'a gh_state_scheme" where
  "ExtractBlocksFromSlab slab c target actual a s =
     (let (head, tail, actual, m) = extract_loop slab target 0 0 actual (mem s);
          s = retire_if_full a c slab (s\<lparr>mem := m\<rparr>);
          s = (if tail \<noteq> 0 then upd_mem (set_fb_next tail 0) s else s)
      in (head, actual, s))"

text \<open>
  The walks over pending lists in \<^verbatim>\<open>AllocateBatch\<close>: follow links while fewer than \<open>target\<close>
  blocks are counted (on top of \<open>base\<close>), stopping before an implausible link.
\<close>

function feed_walk :: "mem \<Rightarrow> nat \<Rightarrow> nat \<Rightarrow> addr \<Rightarrow> nat \<Rightarrow> addr \<times> nat" where
  "feed_walk m target base split taken =
     (if base + taken < target \<and> fb_next m split \<noteq> 0 then
        if IsPlausibleHeapPtr (fb_next m split) then feed_walk m target base (fb_next m split) (taken + 1)
        else (split, taken)
      else (split, taken))"
  by pat_completeness auto
termination by (relation "measure (\<lambda>(m, target, base, split, taken). target - (base + taken))") auto

declare feed_walk.simps [simp del]

partial_function (option) append_walk :: "mem \<Rightarrow> addr \<Rightarrow> addr option" where
  "append_walk m tailr =
     (if fb_next m tailr \<noteq> 0 then
        if IsPlausibleHeapPtr (fb_next m tailr) then append_walk m (fb_next m tailr)
        else Some tailr
      else Some tailr)"

definition kFeedMaxList :: nat where "kFeedMaxList = 64"

text \<open>Cut a popped pending list after the blocks taken; an implausible remainder is dropped.\<close>

definition cut_list :: "nat \<Rightarrow> nat \<Rightarrow> addr \<Rightarrow> mem \<Rightarrow> nat \<times> addr \<times> mem" where
  "cut_list target base p m =
     (let (split, taken) = feed_walk m target base p 1;
          rest = fb_next m split;
          rest = (if rest \<noteq> 0 \<and> \<not> IsPlausibleHeapPtr rest then 0 else rest);
          m = set_fb_next split 0 m
      in (taken, rest, m))"

text \<open>Lock-free hand-off of a list to a pending queue.\<close>

definition pending_push :: "nat \<Rightarrow> nat \<Rightarrow> addr \<Rightarrow> addr \<Rightarrow> 'a gh_state_scheme \<Rightarrow> 'a gh_state_scheme" where
  "pending_push a c list tail s =
     (let old_head = pending_returns s a c;
          s = upd_mem (set_fb_next tail old_head) s
      in set_pending a c list s)"

text \<open>Phase 1 of \<^verbatim>\<open>AllocateBatch\<close>: feed from the arena's own pending queue.\<close>

definition batch_feed :: "os_api \<Rightarrow> nat \<Rightarrow> nat \<Rightarrow> nat \<Rightarrow> 'a gh_state_scheme \<Rightarrow> (addr \<times> nat \<times> 'a gh_state_scheme) option" where
  "batch_feed api c target a s =
     (let pending = pending_returns s a c;
          s = set_pending a c 0 s;
          pending = (if pending \<noteq> 0 \<and> \<not> IsPlausibleHeapPtr pending then 0 else pending)
      in if pending = 0 then Some (0, 0, s)
         else let (taken, rest_head, m) = cut_list target 0 pending (mem s);
                  s = s\<lparr>mem := m\<rparr>
              in if rest_head = 0 then Some (pending, taken, s)
                 else let (tail, len) = feed_walk (mem s) kFeedMaxList 0 rest_head 1
                      in if fb_next (mem s) tail = 0 then
                           Some (pending, taken, pending_push a c rest_head tail s)
                         else do { s \<leftarrow> ProcessPendingListLocked api a c rest_head s;
                                   Some (pending, taken, s) })"

text \<open>Phase 2, one foreign arena: steal from its queue under a try-lock.\<close>

definition batch_steal_one :: "os_api \<Rightarrow> nat \<Rightarrow> nat \<Rightarrow> nat \<Rightarrow> addr \<times> nat \<times> 'a gh_state_scheme \<Rightarrow> (addr \<times> nat \<times> 'a gh_state_scheme) option" where
  "batch_steal_one api c target a2 r =
     (let (result, actual, s) = r
      in if lock_busy s a2 c then Some r
         else let p2 = pending_returns s a2 c;
                  s = set_pending a2 c 0 s;
                  p2 = (if p2 \<noteq> 0 \<and> \<not> IsPlausibleHeapPtr p2 then 0 else p2)
              in if p2 = 0 then Some (result, actual, s)
                 else let (taken2, rest2, m) = cut_list target actual p2 (mem s);
                          s = s\<lparr>mem := m\<rparr>
                      in do { (result, actual, s) \<leftarrow>
                                (if result = 0 then Some (p2, taken2, s)
                                 else do { tailr \<leftarrow> append_walk (mem s) result;
                                           Some (result, actual + taken2, upd_mem (set_fb_next tailr p2) s) });
                              s \<leftarrow> (if rest2 \<noteq> 0 then ProcessPendingListLocked api a2 c rest2 s else Some s);
                              Some (result, actual, s) })"

fun batch_steal :: "os_api \<Rightarrow> nat \<Rightarrow> nat \<Rightarrow> nat \<Rightarrow> nat list \<Rightarrow> addr \<times> nat \<times> 'a gh_state_scheme \<Rightarrow> (addr \<times> nat \<times> 'a gh_state_scheme) option" where
  "batch_steal api c target a [] r = Some r"
| "batch_steal api c target a (off # offs) r =
     (if fst (snd r) < target then
        do { r \<leftarrow> batch_steal_one api c target ((a + off) mod NUM_ARENAS) r;
             batch_steal api c target a offs r }
      else Some r)"

text \<open>Phase 3: extract from a partial slab, or from a new one.\<close>

definition batch_extract :: "os_api \<Rightarrow> nat \<Rightarrow> nat \<Rightarrow> nat \<Rightarrow> addr \<times> nat \<times> 'a gh_state_scheme \<Rightarrow> addr \<times> nat \<times> 'a gh_state_scheme" where
  "batch_extract api c target a r =
     (let (result, actual, s) = r
      in if result \<noteq> 0 then r
         else let slab = partial_slabs s a c
              in if slab \<noteq> 0 then ExtractBlocksFromSlab slab c target actual a s
                 else let (new_slab, s) = AllocateNewSlab api c a s
                      in if new_slab \<noteq> 0 then
                           ExtractBlocksFromSlab new_slab c target actual a (push_partial a c new_slab s)
                         else (0, actual, s))"

definition AllocateBatch ::
  "os_api \<Rightarrow> nat \<Rightarrow> nat \<Rightarrow> nat \<Rightarrow> 'a gh_state_scheme \<Rightarrow> (addr \<times> nat \<times> 'a gh_state_scheme) option" where
  "AllocateBatch api c target a s =
     (if lock_busy s a c then None
      else do { r \<leftarrow> batch_feed api c target a s;
                r \<leftarrow> batch_steal api c target a [1..<NUM_ARENAS] r;
                Some (batch_extract api c target a r) })"

section \<open>Giving blocks back\<close>

text \<open>
  The list-splitting loop of \<^verbatim>\<open>SplitListByArena\<close> and of both phases of \<^verbatim>\<open>DeallocateBatch\<close>: every
  block is appended to the list of its key; \<open>present\<close> collects the keys in the order they are
  first met. The flag is False when the loop stopped at an invalid node.
\<close>

record split_state =
  sp_heads :: "nat \<Rightarrow> addr"
  sp_tails :: "nat \<Rightarrow> addr"
  sp_present :: "nat list"

definition split_empty :: split_state where
  "split_empty = \<lparr>sp_heads = \<lambda>_. 0, sp_tails = \<lambda>_. 0, sp_present = []\<rparr>"

definition split_add :: "nat \<Rightarrow> addr \<Rightarrow> split_state \<times> mem \<Rightarrow> split_state \<times> mem" where
  "split_add k b x =
     (let (sp, m) = x;
          (sp, m) = (if sp_heads sp k = 0 then
                       (\<lparr>sp_heads = (sp_heads sp)(k := b), sp_tails = (sp_tails sp)(k := b),
                         sp_present = sp_present sp @ [k]\<rparr>, m)
                     else (sp\<lparr>sp_tails := (sp_tails sp)(k := b)\<rparr>, set_fb_next (sp_tails sp k) b m))
      in (sp, set_fb_next b 0 m))"

partial_function (option) split_walk ::
  "(mem \<Rightarrow> addr \<Rightarrow> nat) \<Rightarrow> addr \<Rightarrow> split_state \<Rightarrow> mem \<Rightarrow> (bool \<times> split_state \<times> mem) option" where
  "split_walk key head sp m =
     (if head = 0 then Some (True, sp, m)
      else if \<not> WalkLinkPlausible head \<or> \<not> BlockSlabUsable m head then Some (False, sp, m)
      else let next' = fb_next m head;
               next' = (if WalkLinkPlausible next' then next' else 0);
               (sp, m) = split_add (key m head) head (sp, m)
           in split_walk key next' sp m)"

definition arena_key :: "mem \<Rightarrow> addr \<Rightarrow> nat" where
  "arena_key m b = slab_arena_index m (fb_slab m b)"

definition class_key :: "mem \<Rightarrow> addr \<Rightarrow> nat" where
  "class_key m b = SizeToClassIndex (slab_block_size m (fb_slab m b))"

definition SplitListByArena :: "addr \<Rightarrow> mem \<Rightarrow> (split_state \<times> mem) option" where
  "SplitListByArena head m = map_option snd (split_walk arena_key head split_empty m)"

fun defer_arenas :: "nat \<Rightarrow> split_state \<Rightarrow> nat list \<Rightarrow> 'a gh_state_scheme \<Rightarrow> 'a gh_state_scheme" where
  "defer_arenas c sp [] s = s"
| "defer_arenas c sp (i # is) s =
     (if sp_heads sp i = 0 then defer_arenas c sp is s
      else let s = pending_push i c (sp_heads sp i) (sp_tails sp i) s;
               s = count_stats CountPendingPush s
           in defer_arenas c sp is s)"

definition DeferBinToPending :: "nat \<Rightarrow> addr \<Rightarrow> 'a gh_state_scheme \<Rightarrow> 'a gh_state_scheme option" where
  "DeferBinToPending c head s =
     (if head = 0 then Some s
      else do { (sp, m) \<leftarrow> SplitListByArena head (mem s);
                Some (defer_arenas c sp [0..<NUM_ARENAS] (s\<lparr>mem := m\<rparr>)) })"

text \<open>
  Hand a single-arena single-class list to its slabs, or to the pending queue when another thread
  holds the class lock.
\<close>

definition give_list :: "os_api \<Rightarrow> nat \<Rightarrow> nat \<Rightarrow> addr \<Rightarrow> addr \<Rightarrow> 'a gh_state_scheme \<Rightarrow> 'a gh_state_scheme option" where
  "give_list api i c list tail s =
     (if lock_busy s i c then
        let s = pending_push i c list tail s
        in Some (count_stats CountPendingPush s)
      else ProcessBatchLocked api i c list s)"

fun give_arenas :: "os_api \<Rightarrow> nat \<Rightarrow> split_state \<Rightarrow> nat list \<Rightarrow> 'a gh_state_scheme \<Rightarrow> 'a gh_state_scheme option" where
  "give_arenas api c sp [] s = Some s"
| "give_arenas api c sp (i # is) s =
     (if sp_heads sp i = 0 then give_arenas api c sp is s
      else do { s \<leftarrow> give_list api i c (sp_heads sp i) (sp_tails sp i) s;
                give_arenas api c sp is s })"

definition DeallocateBatchClass :: "os_api \<Rightarrow> nat \<Rightarrow> addr \<Rightarrow> 'a gh_state_scheme \<Rightarrow> 'a gh_state_scheme option" where
  "DeallocateBatchClass api c head s =
     (if head = 0 then Some s
      else do { (sp, m) \<leftarrow> SplitListByArena head (mem s);
                give_arenas api c sp [0..<NUM_ARENAS] (s\<lparr>mem := m\<rparr>) })"

definition DeallocateBlock_global :: "os_api \<Rightarrow> addr \<Rightarrow> 'a gh_state_scheme \<Rightarrow> 'a gh_state_scheme option" where
  "DeallocateBlock_global api block s =
     (if \<not> IsPlausibleHeapPtr block \<or> \<not> BlockSlabUsable (mem s) block then Some s
      else let s = upd_mem (set_fb_next block 0) s
           in DeallocateBatchClass api (fb_class_index (mem s) block) block s)"

fun give_classes :: "os_api \<Rightarrow> nat \<Rightarrow> split_state \<Rightarrow> nat list \<Rightarrow> 'a gh_state_scheme \<Rightarrow> 'a gh_state_scheme option" where
  "give_classes api i sp [] s = Some s"
| "give_classes api i sp (c # cs) s =
     do { s \<leftarrow> give_list api i c (sp_heads sp c) (sp_tails sp c) s;
          give_classes api i sp cs s }"

fun batch_arenas :: "os_api \<Rightarrow> split_state \<Rightarrow> nat list \<Rightarrow> 'a gh_state_scheme \<Rightarrow> 'a gh_state_scheme option" where
  "batch_arenas api sp [] s = Some s"
| "batch_arenas api sp (i # is) s =
     (if sp_heads sp i = 0 then batch_arenas api sp is s
      else do { (_, csp, m) \<leftarrow> split_walk class_key (sp_heads sp i) split_empty (mem s);
                s \<leftarrow> give_classes api i csp (sp_present csp) (s\<lparr>mem := m\<rparr>);
                batch_arenas api sp is s })"

definition DeallocateBatch :: "os_api \<Rightarrow> addr \<Rightarrow> 'a gh_state_scheme \<Rightarrow> 'a gh_state_scheme option" where
  "DeallocateBatch api head s =
     (if head = 0 then Some s
      else do { (done, sp, m) \<leftarrow> split_walk arena_key head split_empty (mem s);
                let s = s\<lparr>mem := m\<rparr> in
                if done then batch_arenas api sp [0..<NUM_ARENAS] s else Some s })"

section \<open>Large spans, purge, audit\<close>

definition AllocateLarge :: "os_api \<Rightarrow> nat \<Rightarrow> 'a gh_state_scheme \<Rightarrow> addr \<times> 'a gh_state_scheme" where
  "AllocateLarge api sz s =
     (let alloc_size = align_up sz (GetPageSize api);
          (fail, s) = ShouldFailAllocationForTest s
      in if fail then (0, s)
         else let (p, s) = PageHeapAllocate api alloc_size s
              in if p \<noteq> 0 then (p, count_stats (CountOsAlloc alloc_size) s) else (p, s))"

definition DeallocateLarge :: "os_api \<Rightarrow> addr \<Rightarrow> nat \<Rightarrow> 'a gh_state_scheme \<Rightarrow> 'a gh_state_scheme" where
  "DeallocateLarge api p sz s =
     (let alloc_size = align_up sz (GetPageSize api);
          s = PageHeapFree api p alloc_size s
      in count_stats (CountOsFree alloc_size) s)"

fun drain_all :: "os_api \<Rightarrow> (nat \<times> nat) list \<Rightarrow> 'a gh_state_scheme \<Rightarrow> 'a gh_state_scheme option" where
  "drain_all api [] s = Some s"
| "drain_all api ((a, c) # xs) s =
     (if lock_busy s a c then None
      else do { s \<leftarrow> DrainPendingReturns api a c s; drain_all api xs s })"

definition PurgePageCache :: "os_api \<Rightarrow> 'a gh_state_scheme \<Rightarrow> (nat \<times> 'a gh_state_scheme) option" where
  "PurgePageCache api s =
     do { s \<leftarrow> drain_all api (List.product [0..<NUM_ARENAS] [0..<NUM_SIZE_CLASSES]) s;
          PurgePageCacheLocked api s }"

definition in_audit :: "addr \<Rightarrow> addr \<Rightarrow> addr \<Rightarrow> bool" where
  "in_audit lo hi p \<longleftrightarrow> lo \<le> p \<and> p < hi"

definition AuditPointers_global :: "addr \<Rightarrow> addr \<Rightarrow> 'a gh_state_scheme \<Rightarrow> nat" where
  "AuditPointers_global lo hi s =
     sum_list (map (\<lambda>(a, c). (if in_audit lo hi (partial_slabs s a c) then 1 else 0)
         + (if in_audit lo hi (full_slabs s a c) then 1 else 0)
         + (if in_audit lo hi (pending_returns s a c) then 1 else 0))
       (List.product [0..<NUM_ARENAS] [0..<NUM_SIZE_CLASSES]))
     + sum_list (map (\<lambda>p. if in_audit lo hi (pb_head (page_bins s p)) then 1 else 0) [1..<MAX_CACHED_PAGES + 1])"

end
