(* ===== verification/FA_SlabLists.thy ===== *)
theory FA_SlabLists
  imports FA_GlobalHeap
begin

text \<open>
  The doubly linked slab lists of an arena (\<^verbatim>\<open>PushSlab\<close>, \<^verbatim>\<open>RemoveSlab\<close> in
  \<^verbatim>\<open>src/global_heap.cpp\<close>). \<open>dl m p xs h\<close>: from \<open>h\<close>, the slabs \<open>xs\<close> are linked forward by their
  \<^verbatim>\<open>next\<close> and backward by their \<^verbatim>\<open>prev\<close> fields, the first one back to \<open>p\<close>, the last one forward
  to null. Slabs are 16-byte aligned, so the two link cells of different slabs are different.
\<close>

primrec dseg :: "mem \<Rightarrow> addr \<Rightarrow> addr list \<Rightarrow> addr \<Rightarrow> addr \<Rightarrow> bool" where
  "dseg m p [] h r \<longleftrightarrow> h = r"
| "dseg m p (x # xs) h r \<longleftrightarrow> h = x \<and> x \<noteq> 0 \<and> slab_prev m x = p \<and> dseg m x xs (slab_next m x) r"

definition dl :: "mem \<Rightarrow> addr \<Rightarrow> addr list \<Rightarrow> addr \<Rightarrow> bool" where
  "dl m p xs h \<longleftrightarrow> dseg m p xs h 0"

definition dlist :: "mem \<Rightarrow> addr list \<Rightarrow> addr \<Rightarrow> bool" where
  "dlist m xs h \<longleftrightarrow> dl m 0 xs h \<and> distinct xs \<and> (\<forall>x \<in> set xs. x mod 16 = 0)"

definition link_cells :: "addr \<Rightarrow> nat set" where
  "link_cells x = {x, x + 8}"

lemma dl_simps [simp]:
  "dl m p [] h \<longleftrightarrow> h = 0"
  "dl m p (x # xs) h \<longleftrightarrow> h = x \<and> x \<noteq> 0 \<and> slab_prev m x = p \<and> dl m x xs (slab_next m x)"
  by (simp_all add: dl_def)

lemma dseg_append: "dseg m p (xs @ ys) h r \<longleftrightarrow> (\<exists>q. dseg m p xs h q \<and> dseg m (last (p # xs)) ys q r)"
  by (induction xs arbitrary: p h) auto

lemma dl_append: "dl m p (xs @ ys) h \<longleftrightarrow> (\<exists>q. dseg m p xs h q \<and> dl m (last (p # xs)) ys q)"
  by (simp add: dl_def dseg_append)

lemma dseg_cong:
  "(\<And>x. x \<in> set xs \<Longrightarrow> m' x = m x \<and> m' (x + 8) = m (x + 8)) \<Longrightarrow> dseg m' p xs h r \<longleftrightarrow> dseg m p xs h r"
  by (induction xs arbitrary: p h) (auto simp: cells)

lemma dl_cong:
  "(\<And>x. x \<in> set xs \<Longrightarrow> m' x = m x \<and> m' (x + 8) = m (x + 8)) \<Longrightarrow> dl m' p xs h \<longleftrightarrow> dl m p xs h"
  unfolding dl_def by (rule dseg_cong)

lemma dlist_cong:
  "(\<And>x. x \<in> set xs \<Longrightarrow> m' x = m x \<and> m' (x + 8) = m (x + 8)) \<Longrightarrow> dlist m' xs h \<longleftrightarrow> dlist m xs h"
  unfolding dlist_def using dl_cong [of xs m' m] by blast

lemma dlist_Nil [simp]: "dlist m [] h \<longleftrightarrow> h = 0"
  by (auto simp: dlist_def)

lemma dlist_head: "dlist m xs h \<Longrightarrow> h \<noteq> 0 \<Longrightarrow> \<exists>ys. xs = h # ys"
  by (cases xs) (auto simp: dlist_def)

lemma dlist_head_null: "dlist m xs h \<Longrightarrow> h = 0 \<longleftrightarrow> xs = []"
  by (cases xs) (auto simp: dlist_def)

lemma dlist_nonzero: "dlist m xs h \<Longrightarrow> x \<in> set xs \<Longrightarrow> x \<noteq> 0"
proof -
  have "dseg m p xs h r \<Longrightarrow> 0 \<notin> set xs" for p r
    by (induction xs arbitrary: p h) auto
  then show "dlist m xs h \<Longrightarrow> x \<in> set xs \<Longrightarrow> x \<noteq> 0" unfolding dlist_def dl_def by metis
qed

lemma aligned_cells: "(x::nat) mod 16 = 0 \<Longrightarrow> y mod 16 = 0 \<Longrightarrow> x \<noteq> y + 8 \<and> y \<noteq> x + 8 \<and> x + 8 \<noteq> y + 8 \<or> x = y"
  by presburger

lemma PushSlab_dlist:
  assumes "dlist m xs h" "x \<noteq> 0" "x \<notin> set xs" "x mod 16 = 0"
  obtains m' where "PushSlab h x m = (x, m')" "dlist m' (x # xs) x"
    "\<And>a. a \<notin> link_cells x \<Longrightarrow> (h \<noteq> 0 \<longrightarrow> a \<noteq> h + 8) \<Longrightarrow> m' a = m a"
proof -
  have al: "\<forall>y \<in> set xs. y mod 16 = 0" and d: "dl m 0 xs h" "distinct xs" using assms by (auto simp: dlist_def)
  show thesis
  proof (cases xs)
    case Nil
    have "PushSlab h x m = (x, m(x := h, x + 8 := 0))"
      using assms(1) Nil by (simp add: PushSlab_def cells)
    then show thesis
      by (rule that) (use assms Nil in \<open>auto simp: dlist_def cells link_cells_def\<close>)
  next
    case (Cons y ys)
    then have h: "h = y" "y \<noteq> 0" "dl m y ys (slab_next m y)" using d by auto
    let ?m = "m(x := y, x + 8 := 0, y + 8 := x)"
    have r: "PushSlab h x m = (x, ?m)" using h by (simp add: PushSlab_def cells)
    have "?m z = m z \<and> ?m (z + 8) = m (z + 8)" if z: "z \<in> set ys" for z
    proof -
      have "z \<noteq> x" "z \<noteq> y" "z mod 16 = 0" "y mod 16 = 0" using z assms(3) al d(2) Cons by auto
      then show ?thesis using aligned_cells [of z x] aligned_cells [of z y] assms(4) by auto
    qed
    then have tl: "dl ?m y ys (slab_next m y)" using h(3) dl_cong [of ys ?m m] by blast
    have "y \<noteq> x" "y mod 16 = 0" using assms(3) al Cons by auto
    then have "?m y = m y" "?m x = y" "?m (x + 8) = 0"
      using aligned_cells [of y x] assms(4) by auto
    then have "dl ?m 0 (x # xs) x" using tl assms(2) h Cons by (simp add: cells)
    then have "dlist ?m (x # xs) x" using d assms al by (auto simp: dlist_def)
    then show thesis by (rule that [OF r]) (use h in \<open>auto simp: link_cells_def\<close>)
  qed
qed

lemma RemoveSlab_dlist:
  assumes "dlist m (xs @ x # ys) h"
  obtains h' m' where "RemoveSlab h x m = (h', m')" "dlist m' (xs @ ys) h'"
    "\<And>a. a \<notin> (\<Union>z \<in> set (xs @ x # ys). link_cells z) \<Longrightarrow> m' a = m a"
proof -
  have al: "\<And>z. z \<in> set (xs @ x # ys) \<Longrightarrow> z mod 16 = 0" and dist: "distinct (xs @ x # ys)"
    using assms by (auto simp: dlist_def)
  obtain q where q: "dseg m 0 xs h q" "q = x" "x \<noteq> 0" "slab_prev m x = last (0 # xs)" "dl m x ys (slab_next m x)"
    using assms by (auto simp: dlist_def dl_append)
  have neq: "z + 8 \<noteq> w \<and> (z \<noteq> w \<longrightarrow> z + 8 \<noteq> w + 8)" if "z \<in> set (xs @ x # ys)" "w \<in> set (xs @ x # ys)" for z w
    using aligned_cells [of z w] al [OF that(1)] al [OF that(2)] by auto
  define n where "n = slab_next m x"
  define m1 where "m1 = (if xs = [] then m else m(last xs := n))"
  define m2 where "m2 = (if ys = [] then m1 else m1(n + 8 := last (0 # xs)))"
  define m3 where "m3 = m2(x := 0, x + 8 := 0)"
  define h1 where "h1 = (if xs = [] then n else h)"
  have nz: "n = 0 \<longleftrightarrow> ys = []" "ys \<noteq> [] \<Longrightarrow> n = hd ys" using q(5) by (cases ys; simp add: n_def)+
  have lx: "last (0 # xs) = 0 \<longleftrightarrow> xs = []" "xs \<noteq> [] \<Longrightarrow> last (0 # xs) = last xs"
  proof -
    show "xs \<noteq> [] \<Longrightarrow> last (0 # xs) = last xs" by simp
    then show "last (0 # xs) = 0 \<longleftrightarrow> xs = []" using dlist_nonzero [OF assms, of "last xs"] by auto
  qed
  have keepx: "m1 x = m x" "m1 (x + 8) = m (x + 8)" "m2 x = m x" "m2 (x + 8) = m (x + 8)"
  proof -
    have l: "xs \<noteq> [] \<Longrightarrow> last xs \<noteq> x \<and> last xs \<noteq> x + 8"
      using dist neq [of x "last xs"] last_in_set [of xs] by auto
    have r: "ys \<noteq> [] \<Longrightarrow> hd ys + 8 \<noteq> x \<and> hd ys + 8 \<noteq> x + 8"
      using dist neq [of "hd ys" x] hd_in_set [of ys] by auto
    show "m1 x = m x" "m1 (x + 8) = m (x + 8)" using l by (auto simp: m1_def)
    then show "m2 x = m x" "m2 (x + 8) = m (x + 8)" using r nz by (auto simp: m2_def)
  qed
  have r: "RemoveSlab h x m = (h1, m3)"
    using nz(1) lx q(4) keepx
    by (cases "xs = []"; cases "ys = []")
       (simp_all add: RemoveSlab_def cells m1_def m2_def m3_def h1_def n_def)
  have seg: "dseg m3 0 xs h1 n"
  proof (cases xs rule: rev_cases)
    case Nil
    then show ?thesis by (simp add: h1_def)
  next
    case (snoc us u)
    have u: "dseg m 0 us h u" "u \<noteq> 0" "slab_prev m u = last (0 # us)"
      using q(1) snoc by (auto simp: dseg_append)
    have in_u: "u \<in> set (xs @ x # ys)" using snoc by simp
    have cu: "m3 u = n" "m3 (u + 8) = m (u + 8)"
    proof -
      have ne: "u \<noteq> x" "u \<noteq> x + 8" "u + 8 \<noteq> x" "u + 8 \<noteq> x + 8" "ys \<noteq> [] \<Longrightarrow> n + 8 \<noteq> u" "ys \<noteq> [] \<Longrightarrow> n + 8 \<noteq> u + 8"
        using neq [of u x] neq [of x u] neq [of n u] nz(2) dist snoc hd_in_set [of ys] by auto
      then show "m3 u = n" "m3 (u + 8) = m (u + 8)" by (auto simp: m3_def m2_def m1_def snoc)
    qed
    have "m3 z = m z \<and> m3 (z + 8) = m (z + 8)" if z: "z \<in> set us" for z
    proof -
      have zz: "z \<in> set (xs @ x # ys)" "z \<noteq> x" "z \<noteq> u" using z snoc dist by auto
      have "ys \<noteq> [] \<Longrightarrow> z \<noteq> n" using nz(2) dist z snoc hd_in_set [of ys] by auto
      then show ?thesis
        using neq [OF zz(1), of x] neq [of x z] neq [OF zz(1), of u] neq [OF in_u zz(1)] neq [of n z] zz nz(2) hd_in_set [of ys]
        by (auto simp: m3_def m2_def m1_def snoc)
    qed
    then have "dseg m3 0 us h u" using u(1) dseg_cong [of us m3 m] by blast
    then show ?thesis using cu u by (simp add: snoc dseg_append h1_def cells)
  qed
  have tail: "dl m3 (last (0 # xs)) ys n"
  proof (cases ys)
    case Nil
    then show ?thesis using nz by simp
  next
    case (Cons v vs)
    have v: "n = v" "v \<noteq> 0" "dl m v vs (slab_next m v)" using q(5) Cons by (auto simp: n_def)
    have in_v: "v \<in> set (xs @ x # ys)" using Cons by simp
    have out: "m3 z = m z \<and> (z \<noteq> v \<longrightarrow> m3 (z + 8) = m (z + 8))" if z: "z \<in> set ys" for z
    proof -
      have zz: "z \<in> set (xs @ x # ys)" "z \<noteq> x" "z \<notin> set xs" using z dist by auto
      have "xs \<noteq> [] \<Longrightarrow> last xs \<noteq> z \<and> last xs \<noteq> z + 8" using zz neq [OF zz(1), of "last xs"] last_in_set [of xs] by auto
      then show ?thesis
        using neq [OF zz(1), of x] neq [of x z] neq [OF in_v zz(1)] neq [OF zz(1) in_v] zz v(1)
        by (auto simp: m3_def m2_def m1_def)
    qed
    have "m3 (v + 8) = last (0 # xs)" using v(1) Cons neq [OF in_v, of x] dist by (auto simp: m3_def m2_def)
    moreover have "dl m3 v vs (slab_next m v)"
    proof -
      have "m3 z = m z \<and> m3 (z + 8) = m (z + 8)" if "z \<in> set vs" for z
        using out [of z] that Cons dist by auto
      then show ?thesis using v(3) dl_cong [of vs m3 m] by blast
    qed
    moreover have "m3 v = m v" using out [of v] Cons by simp
    ultimately show ?thesis using v Cons by (simp add: cells)
  qed
  have "dlist m3 (xs @ ys) h1"
    using seg tail dist al by (auto simp: dlist_def dl_append)
  moreover have "m3 a = m a" if "a \<notin> (\<Union>z \<in> set (xs @ x # ys). link_cells z)" for a
    using that nz(2) hd_in_set [of ys] last_in_set [of xs]
    by (auto simp: m3_def m2_def m1_def link_cells_def)
  ultimately show thesis using that r by blast
qed

end
