(* ===== verification/FA_HeapInv.thy ===== *)
theory FA_HeapInv
  imports FA_SlabLists
begin

text \<open>
  The invariant of the global heap and its preservation by the steps the operations of
  \<^verbatim>\<open>GlobalHeap\<close> are made of: taking a block from a slab, returning one, moving a slab between
  the lists, creating and releasing slabs, queueing blocks.

  A \<open>view\<close> names the lists the state encodes: the partial and full slabs of every arena and
  class, the free list of every slab, the pending queues, the page cache. \<open>gh_ok api X s V\<close> is
  the invariant (\<open>X\<close>: slabs that may temporarily sit in the wrong list); \<open>client V s\<close> is the set
  of blocks outside the heap (held by thread caches and users); \<open>kept B s s'\<close> says that no cell
  of the blocks \<open>B\<close> changed and that their slabs keep arena, class and geometry.
\<close>

record view =
  vP :: "nat \<Rightarrow> nat \<Rightarrow> addr list"
  vF :: "nat \<Rightarrow> nat \<Rightarrow> addr list"
  vfl :: "addr \<Rightarrow> addr list"
  vQ :: "nat \<Rightarrow> nat \<Rightarrow> addr list"
  vL :: "nat \<Rightarrow> addr list"

definition listed :: "view \<Rightarrow> nat \<Rightarrow> nat \<Rightarrow> addr set" where
  "listed V a c = set (vP V a c) \<union> set (vF V a c)"

definition slabs :: "view \<Rightarrow> addr set" where
  "slabs V = (\<Union>a c. listed V a c)"

definition queued :: "view \<Rightarrow> addr set" where
  "queued V = (\<Union>a c. set (vQ V a c))"

definition slab_range :: "mem \<Rightarrow> addr \<Rightarrow> nat set" where
  "slab_range m sl = {sl..<sl + slab_memory_size m sl}"

definition slab_out :: "mem \<Rightarrow> addr \<Rightarrow> addr list \<Rightarrow> addr set" where
  "slab_out m sl fl = slab_blocks m sl - slab_free m sl fl"

definition client :: "view \<Rightarrow> mem \<Rightarrow> addr set" where
  "client V m = (\<Union>sl \<in> slabs V. slab_out m sl (vfl V sl)) - queued V"

definition slab_good :: "os_api \<Rightarrow> 'a os_state_scheme \<Rightarrow> (nat \<Rightarrow> addr list) \<Rightarrow> addr \<Rightarrow> addr list \<Rightarrow> bool" where
  "slab_good api s L sl fl \<longleftrightarrow> slab_ok (mem s) sl fl \<and> slab_arena_index (mem s) sl < NUM_ARENAS
     \<and> 1 \<le> slab_class_idx (mem s) sl \<and> slab_class_idx (mem s) sl < NUM_SIZE_CLASSES
     \<and> slab_block_size (mem s) sl = ClassIndexToSize (slab_class_idx (mem s) sl)
     \<and> 0 < slab_total_blocks (mem s) sl
     \<and> span_owned api s sl (slab_memory_size (mem s) sl) \<and> span_ok api sl (slab_memory_size (mem s) sl)
     \<and> slab_range (mem s) sl \<inter> cached_cells api L = {}"

definition lists_ok :: "'a gh_state_scheme \<Rightarrow> view \<Rightarrow> bool" where
  "lists_ok s V \<longleftrightarrow> (\<forall>a c. dlist (mem s) (vP V a c) (partial_slabs s a c)
     \<and> dlist (mem s) (vF V a c) (full_slabs s a c) \<and> set (vP V a c) \<inter> set (vF V a c) = {})"

definition queues_ok :: "'a gh_state_scheme \<Rightarrow> view \<Rightarrow> bool" where
  "queues_ok s V \<longleftrightarrow> (\<forall>a c. chain (fb_next (mem s)) (pending_returns s a c) (vQ V a c)
     \<and> (\<forall>b \<in> set (vQ V a c). \<exists>sl \<in> listed V a c. b \<in> slab_out (mem s) sl (vfl V sl)))"

definition slabs_ok :: "os_api \<Rightarrow> 'a os_state_scheme \<Rightarrow> view \<Rightarrow> bool" where
  "slabs_ok api s V \<longleftrightarrow> (\<forall>sl \<in> slabs V. slab_good api s (vL V) sl (vfl V sl)
     \<and> sl \<in> listed V (slab_arena_index (mem s) sl) (slab_class_idx (mem s) sl)
     \<and> (\<forall>a c. sl \<in> listed V a c \<longrightarrow> a = slab_arena_index (mem s) sl \<and> c = slab_class_idx (mem s) sl))
   \<and> (\<forall>sl \<in> slabs V. \<forall>sl' \<in> slabs V. sl \<noteq> sl' \<longrightarrow> slab_range (mem s) sl \<inter> slab_range (mem s) sl' = {})"

definition filling_ok :: "addr set \<Rightarrow> mem \<Rightarrow> view \<Rightarrow> bool" where
  "filling_ok X m V \<longleftrightarrow> (\<forall>a c. (\<forall>sl \<in> set (vP V a c) - X. slab_free_blocks m sl \<noteq> 0)
     \<and> (\<forall>sl \<in> set (vF V a c) - X. slab_free_blocks m sl = 0))"

definition gh_ok :: "os_api \<Rightarrow> addr set \<Rightarrow> 'a gh_state_scheme \<Rightarrow> view \<Rightarrow> bool" where
  "gh_ok api X s V \<longleftrightarrow> ph_ok api s (vL V) \<and> slabs_ok api s V \<and> lists_ok s V \<and> queues_ok s V
     \<and> filling_ok X (mem s) V"

definition bcells :: "mem \<Rightarrow> addr \<Rightarrow> nat set" where
  "bcells m b = {b..<b + ClassIndexToSize (fb_class_index m b)}"

definition kept :: "addr set \<Rightarrow> mem \<Rightarrow> mem \<Rightarrow> bool" where
  "kept B m m' \<longleftrightarrow> (\<forall>b \<in> B. (\<forall>a \<in> bcells m b. m' a = m a) \<and> same_geom m m' (fb_slab m b))"

text \<open>
  Spans held outside the heap (large allocations, thread caches): owned, and disjoint from the
  page cache and the slabs. A step spares them when they stay so and keep their contents, with
  the exception of those that meet \<open>R\<close>.
\<close>

definition ext :: "os_api \<Rightarrow> 'a os_state_scheme \<Rightarrow> view \<Rightarrow> addr \<Rightarrow> nat \<Rightarrow> bool" where
  "ext api s V p n \<longleftrightarrow> span_owned api s p n \<and> span_ok api p n \<and> {p..<p + n} \<inter> cached_cells api (vL V) = {}
     \<and> (\<forall>sl \<in> slabs V. slab_range (mem s) sl \<inter> {p..<p + n} = {})"

definition spared :: "os_api \<Rightarrow> nat set \<Rightarrow> 'a os_state_scheme \<Rightarrow> view \<Rightarrow> 'a os_state_scheme \<Rightarrow> view \<Rightarrow> bool" where
  "spared api R s V s' V' \<longleftrightarrow> (\<forall>p n. ext api s V p n \<and> {p..<p + n} \<inter> R = {} \<longrightarrow>
     ext api s' V' p n \<and> (\<forall>a \<in> {p..<p + n}. mem s' a = mem s a))"

lemma spared_refl [simp]: "spared api R s V s V"
  by (simp add: spared_def)

lemma spared_trans: "spared api R s V s1 V1 \<Longrightarrow> spared api R s1 V1 s2 V2 \<Longrightarrow> spared api R s V s2 V2"
  unfolding spared_def by metis

lemma spared_mono: "spared api R s V s' V' \<Longrightarrow> R \<subseteq> R' \<Longrightarrow> spared api R' s V s' V'"
  unfolding spared_def by blast

lemma sparedD:
  assumes "spared api R s V s' V'" "ext api s V p n" "{p..<p + n} \<inter> R = {}"
  shows "ext api s' V' p n" "\<And>a. a \<in> {p..<p + n} \<Longrightarrow> mem s' a = mem s a"
  using assms unfolding spared_def by blast+

lemma spared_inside:
  assumes eq: "\<And>a. (\<And>sl. sl \<in> slabs V \<Longrightarrow> a \<notin> slab_range (mem s) sl) \<Longrightarrow> a \<notin> R \<Longrightarrow> mem s' a = mem s a"
    and fr: "os_log s' = os_log s" "pool_chunks s' = pool_chunks s" "vL V' = vL V"
    and sl: "\<And>sl. sl \<in> slabs V' \<Longrightarrow> slab_range (mem s') sl \<subseteq> R \<or> sl \<in> slabs V \<and> slab_range (mem s') sl = slab_range (mem s) sl"
  shows "spared api R s V s' V'"
  unfolding spared_def
proof (intro allI impI)
  fix p n assume e: "ext api s V p n \<and> {p..<p + n} \<inter> R = {}"
  have "mem s' a = mem s a" if "a \<in> {p..<p + n}" for a
    by (rule eq) (use e that in \<open>unfold ext_def, blast+\<close>)
  moreover have "ext api s' V' p n"
    using e sl os_cong(3) [OF fr(1,2)] unfolding ext_def fr(3) by blast
  ultimately show "ext api s' V' p n \<and> (\<forall>a \<in> {p..<p + n}. mem s' a = mem s a)" by blast
qed

lemma in_slabs: "sl \<in> set (vP V a c) \<Longrightarrow> sl \<in> slabs V" "sl \<in> set (vF V a c) \<Longrightarrow> sl \<in> slabs V"
    "sl \<in> listed V a c \<Longrightarrow> sl \<in> slabs V"
  by (auto simp: slabs_def listed_def)

section \<open>Geometry of a slab in the heap\<close>

lemma slabs_okD:
  assumes "slabs_ok api s V" "sl \<in> slabs V"
  shows "slab_good api s (vL V) sl (vfl V sl)"
    "\<And>a c. sl \<in> listed V a c \<longleftrightarrow> a = slab_arena_index (mem s) sl \<and> c = slab_class_idx (mem s) sl"
  using assms unfolding slabs_ok_def by blast+

lemma slabs_ok_disj:
  "slabs_ok api s V \<Longrightarrow> sl \<in> slabs V \<Longrightarrow> sl' \<in> slabs V \<Longrightarrow> sl \<noteq> sl' \<Longrightarrow>
   slab_range (mem s) sl \<inter> slab_range (mem s) sl' = {}"
  unfolding slabs_ok_def by blast

lemma slab_good_geom:
  assumes "slab_good api s L sl fl"
  shows "slab_geom (mem s) sl" "slab_ok (mem s) sl fl" "sl + 80 \<le> sl + slab_memory_size (mem s) sl"
    "sl \<in> slab_range (mem s) sl" "sl + 8 \<in> slab_range (mem s) sl" "sl \<noteq> 0"
proof -
  show ok: "slab_ok (mem s) sl fl" using assms by (simp add: slab_good_def)
  then show g: "slab_geom (mem s) sl" by (simp add: slab_ok_def)
  then have "80 \<le> slab_memory_size (mem s) sl" by (simp add: slab_geom_def sizeof_Slab_def)
  then show "sl + 80 \<le> sl + slab_memory_size (mem s) sl" "sl \<in> slab_range (mem s) sl"
    "sl + 8 \<in> slab_range (mem s) sl" by (simp_all add: slab_range_def)
  show "sl \<noteq> 0" using g by (simp add: slab_geom_def)
qed

lemma slab_good_class:
  assumes "slab_good api s L sl fl"
  shows "slab_block_size (mem s) sl = (slab_class_idx (mem s) sl + 1) * 16"
    "32 \<le> slab_block_size (mem s) sl" "slab_block_size (mem s) sl mod 16 = 0"
proof -
  have c: "1 \<le> slab_class_idx (mem s) sl" "slab_class_idx (mem s) sl < 512"
    "slab_block_size (mem s) sl = ClassIndexToSize (slab_class_idx (mem s) sl)"
    using assms by (auto simp: slab_good_def config_consts)
  then show "slab_block_size (mem s) sl = (slab_class_idx (mem s) sl + 1) * 16"
    by (simp add: ClassIndexToSize_exact)
  then show "32 \<le> slab_block_size (mem s) sl" "slab_block_size (mem s) sl mod 16 = 0" using c(1) by simp_all
qed

lemma slab_good_aligned: "os_spec api \<Longrightarrow> slab_good api s L sl fl \<Longrightarrow> sl mod 16 = 0"
proof -
  assume "os_spec api" "slab_good api s L sl fl"
  then have "sl mod 4096 = 0" using span_ok_aligned by (auto simp: slab_good_def)
  then show ?thesis using dvd_trans [of 16 4096 sl] by (simp add: mod_eq_0_iff_dvd)
qed

lemma slab_good_plausible:
  assumes "os_spec api" "slab_good api s L sl fl"
  shows "IsPlausibleHeapPtr sl"
  using assms span_ok_plausible [OF assms(1), of sl "slab_memory_size (mem s) sl"]
  by (auto simp: slab_good_def span_owned_def)

lemma block_in_range:
  assumes "slab_geom m sl" "b \<in> slab_blocks m sl"
  shows "sl + 80 \<le> b" "b + slab_block_size m sl \<le> sl + slab_memory_size m sl"
    "{b..<b + slab_block_size m sl} \<subseteq> slab_range m sl"
proof -
  obtain k where k: "b = sl + 80 + k * slab_block_size m sl" "k < slab_total_blocks m sl"
    using assms by (auto simp: slab_blocks_def slab_block_val)
  have "(k + 1) * slab_block_size m sl \<le> slab_total_blocks m sl * slab_block_size m sl"
    using k(2) by (intro mult_le_mono) auto
  moreover have "80 + slab_total_blocks m sl * slab_block_size m sl \<le> slab_memory_size m sl"
    using assms(1) by (simp add: slab_geom_def sizeof_Slab_def)
  ultimately show "sl + 80 \<le> b" "b + slab_block_size m sl \<le> sl + slab_memory_size m sl"
    using k(1) by (simp_all add: algebra_simps)
  then show "{b..<b + slab_block_size m sl} \<subseteq> slab_range m sl" by (auto simp: slab_range_def)
qed

lemma block_plausible:
  assumes "os_spec api" "slab_good api s L sl fl" "b \<in> slab_blocks (mem s) sl"
  shows "IsPlausibleHeapPtr b"
proof -
  note g = slab_good_geom [OF assms(2)] and cl = slab_good_class [OF assms(2)]
  obtain k where k: "b = sl + 80 + k * slab_block_size (mem s) sl"
    using assms(3) g(1) by (auto simp: slab_blocks_def slab_block_val)
  have "16 dvd sl" "16 dvd slab_block_size (mem s) sl" "(16::nat) dvd 80"
    using slab_good_aligned [OF assms(1,2)] cl(3) by (simp_all add: mod_eq_0_iff_dvd)
  then have "16 dvd b" unfolding k by (intro dvd_add dvd_mult) auto
  moreover have "sl + slab_memory_size (mem s) sl \<le> 2 ^ 47" "65536 \<le> sl"
    using assms(2) by (auto simp: slab_good_def span_ok_def)
  ultimately show ?thesis
    using block_in_range [OF g(1) assms(3)] cl(2) by (simp add: IsPlausibleHeapPtr_iff mod_eq_0_iff_dvd)
qed

lemma blocks_apart:
  assumes g: "slab_geom m sl" and b: "b \<in> slab_blocks m sl" "b' \<in> slab_blocks m sl" "b \<noteq> b'"
  shows "b + slab_block_size m sl \<le> b' \<or> b' + slab_block_size m sl \<le> b"
    "{b..<b + slab_block_size m sl} \<inter> {b'..<b' + slab_block_size m sl} = {}"
proof -
  obtain j k where jk: "b = sl + 80 + j * slab_block_size m sl" "b' = sl + 80 + k * slab_block_size m sl"
    using b g by (auto simp: slab_blocks_def slab_block_val)
  have "j < k \<or> k < j" using jk b(3) by (cases j k rule: linorder_cases) auto
  then have "Suc j * slab_block_size m sl \<le> k * slab_block_size m sl \<or> Suc k * slab_block_size m sl \<le> j * slab_block_size m sl"
    using mult_le_mono1 Suc_leI by blast
  then show "b + slab_block_size m sl \<le> b' \<or> b' + slab_block_size m sl \<le> b" unfolding jk by auto
  then show "{b..<b + slab_block_size m sl} \<inter> {b'..<b' + slab_block_size m sl} = {}" by auto
qed

lemma out_header:
  assumes ok: "slab_ok m sl fl" and b: "b \<in> slab_out m sl fl"
  shows "fb_slab m b = sl" "fb_class_index m b = slab_class_idx m sl" "b \<in> slab_blocks m sl" "b \<notin> set fl"
proof -
  show bb: "b \<in> slab_blocks m sl" "b \<notin> set fl" using b by (auto simp: slab_out_def slab_free_def)
  have "b \<notin> slab_block m sl ` {slab_next_new m sl..<slab_total_blocks m sl}"
    using b by (auto simp: slab_out_def slab_free_def)
  moreover obtain k where k: "b = slab_block m sl k" "k < slab_total_blocks m sl"
    using bb(1) by (auto simp: slab_blocks_def)
  ultimately have "k < slab_next_new m sl" by (cases "k < slab_next_new m sl") auto
  then show "fb_slab m b = sl" "fb_class_index m b = slab_class_idx m sl"
    using ok k(1) by (auto simp: slab_ok_def)
qed

lemma out_bcells:
  assumes "slab_good api s L sl fl" "b \<in> slab_out (mem s) sl fl"
  shows "bcells (mem s) b = {b..<b + slab_block_size (mem s) sl}" "bcells (mem s) b \<subseteq> slab_range (mem s) sl"
    "b \<in> bcells (mem s) b" "b + 8 \<in> bcells (mem s) b" "b + 16 \<in> bcells (mem s) b"
proof -
  note g = slab_good_geom [OF assms(1)] and c = slab_good_class [OF assms(1)]
  note h = out_header [OF g(2) assms(2)]
  show e: "bcells (mem s) b = {b..<b + slab_block_size (mem s) sl}"
    using assms(1) h(2) by (simp add: bcells_def slab_good_def)
  show "bcells (mem s) b \<subseteq> slab_range (mem s) sl" unfolding e by (rule block_in_range(3) [OF g(1) h(3)])
  show "b \<in> bcells (mem s) b" "b + 8 \<in> bcells (mem s) b" "b + 16 \<in> bcells (mem s) b"
    using c(2) by (simp_all add: e)
qed

lemma kept_refl [simp]: "kept B m m"
  by (simp add: kept_def same_geom_def)

lemma kept_mono: "kept B m m' \<Longrightarrow> A \<subseteq> B \<Longrightarrow> kept A m m'"
  by (auto simp: kept_def)

lemma bcells_head: "b \<in> bcells m b" "b + 8 \<in> bcells m b"
proof -
  have "fb_class_index m b < 2 ^ 32" by (simp add: cells)
  then have "16 \<le> ClassIndexToSize (fb_class_index m b)" by (simp add: ClassIndexToSize_exact)
  then show "b \<in> bcells m b" "b + 8 \<in> bcells m b" by (simp_all add: bcells_def)
qed

lemma kept_header:
  assumes "kept B m m'" "b \<in> B"
  shows "bcells m' b = bcells m b" "fb_slab m' b = fb_slab m b" "fb_class_index m' b = fb_class_index m b"
    "same_geom m m' (fb_slab m b)" "\<And>a. a \<in> bcells m b \<Longrightarrow> m' a = m a"
proof -
  have "m' b = m b" "m' (b + 8) = m (b + 8)" using assms bcells_head by (auto simp: kept_def)
  then show "bcells m' b = bcells m b" "fb_slab m' b = fb_slab m b" "fb_class_index m' b = fb_class_index m b"
    by (simp_all add: bcells_def cells)
  show "same_geom m m' (fb_slab m b)" "\<And>a. a \<in> bcells m b \<Longrightarrow> m' a = m a" using assms by (auto simp: kept_def)
qed

lemma same_geom_trans: "same_geom m m' sl \<Longrightarrow> same_geom m' m'' sl \<Longrightarrow> same_geom m m'' sl"
  by (simp add: same_geom_def)

lemma kept_trans:
  assumes "kept B m m'" "kept B m' m''"
  shows "kept B m m''"
  unfolding kept_def
proof (intro ballI conjI)
  fix b assume b: "b \<in> B"
  note h = kept_header [OF assms(1) b] and h' = kept_header [OF assms(2) b]
  show "same_geom m m'' (fb_slab m b)" using same_geom_trans [OF h(4)] h'(4) h(2) by simp
  fix a assume "a \<in> bcells m b"
  then show "m'' a = m a" using h(1,5) h'(5) by simp
qed

section \<open>Frame lemmas\<close>

definition same_header :: "mem \<Rightarrow> mem \<Rightarrow> addr \<Rightarrow> bool" where
  "same_header m m' sl \<longleftrightarrow> (\<forall>o' \<in> {16, 24, 32, 40, 48, 56, 64, 72}. m' (sl + o') = m (sl + o'))"

lemma same_headerD:
  assumes "same_header m m' sl"
  shows "same_geom m m' sl" "slab_free_blocks m' sl = slab_free_blocks m sl"
    "slab_free_list m' sl = slab_free_list m sl" "slab_next_new m' sl = slab_next_new m sl"
    "slab_free m' sl fl = slab_free m sl fl" "slab_out m' sl fl = slab_out m sl fl"
    "slab_range m' sl = slab_range m sl"
proof -
  show sg: "same_geom m m' sl" using assms by (simp add: same_header_def same_geom_def)
  show f: "slab_free_blocks m' sl = slab_free_blocks m sl" "slab_free_list m' sl = slab_free_list m sl"
    "slab_next_new m' sl = slab_next_new m sl" using assms by (simp_all add: same_header_def cells)
  show "slab_free m' sl fl = slab_free m sl fl" using same_geomD [OF sg] f by (simp add: slab_free_def)
  then show "slab_out m' sl fl = slab_out m sl fl" using same_geomD [OF sg] by (simp add: slab_out_def)
  show "slab_range m' sl = slab_range m sl" using same_geomD [OF sg] by (simp add: slab_range_def)
qed

text \<open>A slab is untouched by writes outside its range, and by writes to its links.\<close>

lemma slab_ok_frame:
  assumes ok: "slab_ok m sl fl" and eq: "\<And>a. a \<in> slab_range m sl - link_cells sl \<Longrightarrow> m' a = m a"
  shows "slab_ok m' sl fl" "same_header m m' sl"
proof -
  have g: "slab_geom m sl" using ok by (simp add: slab_ok_def)
  then have sz: "80 \<le> slab_memory_size m sl" by (simp add: slab_geom_def sizeof_Slab_def)
  have h: "m' (sl + a) = m (sl + a)" if "16 \<le> a" "a < 80" for a
    using that sz by (intro eq) (auto simp: slab_range_def link_cells_def)
  then show "same_header m m' sl" by (simp add: same_header_def)
  have blk: "m' (b + o') = m (b + o')" if "b \<in> slab_blocks m sl" "o' < 24" for b o'
  proof -
    have "24 \<le> slab_block_size m sl" using g by (simp add: slab_geom_def sizeof_FreeBlock_def)
    then show ?thesis
      using block_in_range(1,2) [OF g that(1)] that(2)
      by (intro eq) (auto simp: slab_range_def link_cells_def)
  qed
  have nn: "slab_block m sl k \<in> slab_blocks m sl" if "k < slab_next_new m sl" for k
    using ok that by (auto simp: slab_ok_def slab_blocks_def)
  have "slab_ok m' sl fl \<and> slab_free m' sl fl = slab_free m sl fl \<and> slab_blocks m' sl = slab_blocks m sl"
  proof (rule slab_ok_cong [OF ok])
    fix x assume "x \<in> set fl"
    then have "x \<in> slab_blocks m sl" using ok by (auto simp: slab_ok_def slab_blocks_def)
    then show "m' (x + 16) = m (x + 16)" by (rule blk) simp
  next
    fix k assume "k < slab_next_new m sl"
    then show "m' (slab_block m sl k) = m (slab_block m sl k) \<and> m' (slab_block m sl k + 8) = m (slab_block m sl k + 8)"
      using blk [OF nn, of k 0] blk [OF nn, of k 8] by simp
  qed (rule h)
  then show "slab_ok m' sl fl" by simp
qed

lemma ph_ok_frame:
  assumes ok: "ph_ok api s L" and eq: "\<And>a. a \<in> cached_cells api L \<Longrightarrow> m' a = mem s a"
  shows "ph_ok api (s\<lparr>mem := m'\<rparr>) L"
proof -
  have core: "ph_core api s L" using ok by (simp add: ph_ok_def)
  have head: "m' y = mem s y" if "y \<in> set (L q)" for q y
  proof -
    have "y \<in> bin_range api q y" using ph_core_span(2) [OF core that] by (simp add: span_owned_def bin_range_def)
    then show ?thesis using that by (intro eq) (auto simp: cached_cells_def filed_def)
  qed
  have "ph_core api (s\<lparr>mem := m'\<rparr>) L"
  proof (rule ph_core_below [OF core])
    show "os_frame s (s\<lparr>mem := m'\<rparr>)" unfolding os_frame_def by (cases s) auto
    show "pool_ok api (s\<lparr>mem := m'\<rparr>)"
      using core os_cong(2) [of "s\<lparr>mem := m'\<rparr>" s] by (simp add: ph_core_def)
    show "span_owned api (s\<lparr>mem := m'\<rparr>) y (q * GetPageSize api)" if "y \<in> set (L q)" for q y
      using ph_core_span(2) [OF core that] os_cong(3) [of "s\<lparr>mem := m'\<rparr>" s] by simp
  qed (simp add: head)
  then show ?thesis using ok by (simp add: ph_ok_def)
qed

lemma slab_good_frame:
  assumes g: "slab_good api s L sl fl" and ok: "slab_ok m' sl fl'" and sg: "same_geom (mem s) m' sl"
  shows "slab_good api (s\<lparr>mem := m'\<rparr>) L sl fl'"
proof -
  have "slab_range m' sl = slab_range (mem s) sl" using same_geomD(6) [OF sg] by (simp add: slab_range_def)
  then show ?thesis
    using g ok os_cong(3) [of "s\<lparr>mem := m'\<rparr>" s] same_geomD [OF sg] by (simp add: slab_good_def)
qed

section \<open>Writing inside one slab\<close>

text \<open>
  The memory changes only inside the range of one slab, not in its links, its geometry stays and
  it is well formed again with free list \<open>fl\<close>; blocks of it that are queued keep their link and
  stay out.
\<close>

lemma one_slab_update:
  assumes ok: "gh_ok api X s V" and sl: "sl \<in> slabs V"
    and out: "\<And>a. a \<notin> slab_range (mem s) sl - link_cells sl \<Longrightarrow> m' a = mem s a"
    and new: "slab_ok m' sl fl" "same_geom (mem s) m' sl"
    and q: "\<And>b. b \<in> queued V \<Longrightarrow> b \<in> slab_out (mem s) sl (vfl V sl) \<Longrightarrow>
        m' (b + 16) = mem s (b + 16) \<and> b \<in> slab_out m' sl fl"
  defines "V' \<equiv> V\<lparr>vfl := (vfl V)(sl := fl)\<rparr>"
  shows "gh_ok api (insert sl X) (s\<lparr>mem := m'\<rparr>) V'"
    "client V' m' = (client V (mem s) - slab_out (mem s) sl (vfl V sl)) \<union> (slab_out m' sl fl - queued V)"
    "slabs V' = slabs V" "queued V' = queued V"
    "\<And>sl'. sl' \<in> slabs V \<Longrightarrow> sl' \<noteq> sl \<Longrightarrow> same_header (mem s) m' sl' \<and> slab_ok m' sl' (vfl V sl')"
    "spared api {} s V (s\<lparr>mem := m'\<rparr>) V'"
proof -
  let ?s = "s\<lparr>mem := m'\<rparr>"
  have sok: "slabs_ok api s V" using ok by (simp add: gh_ok_def)
  note good = slabs_okD(1) [OF sok] and geo = slab_good_geom [OF slabs_okD(1) [OF sok]]
  have V: "listed V' a c = listed V a c" "vQ V' = vQ V" "vL V' = vL V" "vP V' = vP V" "vF V' = vF V" for a c
    by (simp_all add: V'_def listed_def)
  show sV: "slabs V' = slabs V" "queued V' = queued V" by (simp_all add: slabs_def queued_def V)
  have away: "m' a = mem s a" if "sl' \<in> slabs V" "sl' \<noteq> sl" "a \<in> slab_range (mem s) sl'" for sl' a
    using slabs_ok_disj [OF sok that(1) sl that(2)] that(3) by (intro out) blast
  show other: "same_header (mem s) m' sl' \<and> slab_ok m' sl' (vfl V sl')" if "sl' \<in> slabs V" "sl' \<noteq> sl" for sl'
    using slab_ok_frame [OF geo(2) [OF that(1)], of m'] away [OF that] by blast
  have links: "m' sl' = mem s sl' \<and> m' (sl' + 8) = mem s (sl' + 8)" if "sl' \<in> slabs V" for sl'
  proof (cases "sl' = sl")
    case True
    then show ?thesis using out [of sl] out [of "sl + 8"] by (simp add: link_cells_def)
  next
    case False
    then show ?thesis using away [OF that False geo(4) [OF that]] away [OF that False geo(5) [OF that]] by simp
  qed
  have geom: "same_geom (mem s) m' sl'" if "sl' \<in> slabs V" for sl'
    using new(2) other [OF that] same_headerD(1) by (cases "sl' = sl") auto
  note ge = same_geomD [OF geom]
  have rng: "slab_range m' sl' = slab_range (mem s) sl'" if "sl' \<in> slabs V" for sl'
    using ge(6) [OF that] by (simp add: slab_range_def)
  show "spared api {} s V (s\<lparr>mem := m'\<rparr>) V'"
    by (rule spared_inside) (use rng sl sV V in \<open>auto intro!: out\<close>)
  have good': "slab_good api ?s (vL V') sl' (vfl V' sl')" if "sl' \<in> slabs V" for sl'
    using slab_good_frame [OF good [OF that] _ geom [OF that]] new(1) other [OF that]
    by (cases "sl' = sl") (auto simp: V'_def)
  have "slab_range (mem s) sl \<inter> cached_cells api (vL V) = {}" using good [OF sl] by (simp add: slab_good_def)
  then have "ph_ok api ?s (vL V)"
    using ok by (intro ph_ok_frame) (auto simp: gh_ok_def intro: out)
  moreover have "slabs_ok api ?s V'"
    unfolding slabs_ok_def sV using good' slabs_okD(2) [OF sok] slabs_ok_disj [OF sok] rng ge
    by (auto simp: V)
  moreover have "lists_ok ?s V'"
  proof -
    have "\<And>x a c. x \<in> set (vP V a c) \<Longrightarrow> x \<in> slabs V" "\<And>x a c. x \<in> set (vF V a c) \<Longrightarrow> x \<in> slabs V"
      by (auto simp: slabs_def listed_def)
    then show ?thesis
      using ok links dlist_cong [of _ m' "mem s"] unfolding lists_ok_def gh_ok_def V
      by simp
  qed
  moreover have outs: "slab_out m' sl' (vfl V' sl') = slab_out (mem s) sl' (vfl V sl')" if "sl' \<in> slabs V" "sl' \<noteq> sl" for sl'
    using other [OF that] same_headerD(6) that(2) by (simp add: V'_def)
  have "queues_ok ?s V'"
  proof -
    have "chain (fb_next m') (pending_returns s a c) (vQ V a c)" for a c
    proof -
      have "m' (b + 16) = mem s (b + 16)" if b: "b \<in> set (vQ V a c)" for b
      proof -
        obtain sl' where sl': "sl' \<in> listed V a c" "b \<in> slab_out (mem s) sl' (vfl V sl')"
          using ok b unfolding gh_ok_def queues_ok_def by blast
        have s': "sl' \<in> slabs V" using sl' by (auto simp: slabs_def)
        show ?thesis
        proof (cases "sl' = sl")
          case True
          then show ?thesis using q [of b] b sl' by (auto simp: queued_def)
        next
          case False
          have "b + 16 \<in> slab_range (mem s) sl'"
            using out_bcells(2,5) [OF good [OF s'] sl'(2)] by blast
          then show ?thesis using away [OF s' False] by blast
        qed
      qed
      then show ?thesis
        using ok fb_chain_cong [of "vQ V a c" m' "mem s"] by (simp add: gh_ok_def queues_ok_def)
    qed
    moreover have "\<exists>sl' \<in> listed V a c. b \<in> slab_out m' sl' (vfl V' sl')" if b: "b \<in> set (vQ V a c)" for a c b
    proof -
      obtain sl' where sl': "sl' \<in> listed V a c" "b \<in> slab_out (mem s) sl' (vfl V sl')"
        using ok b unfolding gh_ok_def queues_ok_def by blast
      have s': "sl' \<in> slabs V" using sl' by (auto simp: slabs_def)
      have "b \<in> slab_out m' sl' (vfl V' sl')"
        using q [of b] b sl' outs [OF s'] by (cases "sl' = sl") (auto simp: queued_def V'_def)
      then show ?thesis using sl'(1) by blast
    qed
    ultimately show ?thesis by (simp add: queues_ok_def V)
  qed
  moreover have "filling_ok (insert sl X) m' V'"
    unfolding filling_ok_def V
  proof (intro allI conjI ballI)
    fix a c sl' assume l: "sl' \<in> set (vP V a c) - insert sl X"
    then have "sl' \<in> slabs V" "sl' \<noteq> sl" "slab_free_blocks (mem s) sl' \<noteq> 0"
      using ok in_slabs by (auto simp: gh_ok_def filling_ok_def)
    then show "slab_free_blocks m' sl' \<noteq> 0" using other same_headerD(2) by metis
  next
    fix a c sl' assume l: "sl' \<in> set (vF V a c) - insert sl X"
    then have "sl' \<in> slabs V" "sl' \<noteq> sl" "slab_free_blocks (mem s) sl' = 0"
      using ok in_slabs by (auto simp: gh_ok_def filling_ok_def)
    then show "slab_free_blocks m' sl' = 0" using other same_headerD(2) by metis
  qed
  ultimately show "gh_ok api (insert sl X) ?s V'" by (simp add: gh_ok_def V)
  have disj: "slab_out (mem s) sl' (vfl V sl') \<inter> slab_out (mem s) sl (vfl V sl) = {}" if "sl' \<in> slabs V" "sl' \<noteq> sl" for sl'
    using out_header(1) [OF geo(2) [OF that(1)]] out_header(1) [OF geo(2) [OF sl]] that(2) by blast
  have "(\<Union>sl' \<in> slabs V. slab_out m' sl' (vfl V' sl'))
      = ((\<Union>sl' \<in> slabs V. slab_out (mem s) sl' (vfl V sl')) - slab_out (mem s) sl (vfl V sl)) \<union> slab_out m' sl fl"
  proof -
    have "(\<Union>sl' \<in> slabs V. slab_out m' sl' (vfl V' sl')) = (\<Union>sl' \<in> slabs V - {sl}. slab_out m' sl' (vfl V' sl')) \<union> slab_out m' sl fl"
      using sl UN_insert [of "\<lambda>sl'. slab_out m' sl' (vfl V' sl')" sl "slabs V - {sl}"]
      by (simp add: V'_def insert_absorb Un_commute)
    moreover have "(\<Union>sl' \<in> slabs V - {sl}. slab_out m' sl' (vfl V' sl')) = (\<Union>sl' \<in> slabs V - {sl}. slab_out (mem s) sl' (vfl V sl'))"
      using outs by simp
    moreover have "(\<Union>sl' \<in> slabs V - {sl}. slab_out (mem s) sl' (vfl V sl'))
        = (\<Union>sl' \<in> slabs V. slab_out (mem s) sl' (vfl V sl')) - slab_out (mem s) sl (vfl V sl)"
      using disj by blast
    ultimately show ?thesis by simp
  qed
  then show "client V' m' = (client V (mem s) - slab_out (mem s) sl (vfl V sl)) \<union> (slab_out m' sl fl - queued V)"
    unfolding client_def sV by blast
qed

lemma clientE:
  assumes "b \<in> client V m"
  obtains sl where "sl \<in> slabs V" "b \<in> slab_out m sl (vfl V sl)" "b \<notin> queued V"
  using assms by (auto simp: client_def)

lemma gh_okD:
  assumes "gh_ok api X s V"
  shows "ph_ok api s (vL V)" "slabs_ok api s V" "lists_ok s V" "queues_ok s V" "filling_ok X (mem s) V"
  using assms by (simp_all add: gh_ok_def)

lemma gh_good: "gh_ok api X s V \<Longrightarrow> sl \<in> slabs V \<Longrightarrow> slab_good api s (vL V) sl (vfl V sl)"
  using slabs_okD(1) by (auto simp: gh_ok_def)

lemma filling_ok_mono: "filling_ok X m V \<Longrightarrow> X \<subseteq> Y \<Longrightarrow> filling_ok Y m V"
  unfolding filling_ok_def by (meson DiffD1 DiffD2 DiffI subsetD)

lemma gh_ok_mono: "gh_ok api X s V \<Longrightarrow> X \<subseteq> Y \<Longrightarrow> gh_ok api Y s V"
  using filling_ok_mono by (auto simp: gh_ok_def)

text \<open>The exempted slab may be forgotten once it sits in the right list.\<close>

lemma filling_ok_drop:
  assumes "filling_ok (insert sl X) m V"
    and "\<And>a c. sl \<in> set (vP V a c) \<Longrightarrow> slab_free_blocks m sl \<noteq> 0"
    and "\<And>a c. sl \<in> set (vF V a c) \<Longrightarrow> slab_free_blocks m sl = 0"
  shows "filling_ok X m V"
  unfolding filling_ok_def
proof (intro allI conjI ballI)
  fix a c sl' assume "sl' \<in> set (vP V a c) - X"
  then show "slab_free_blocks m sl' \<noteq> 0"
    using assms by (cases "sl' = sl") (auto simp: filling_ok_def)
next
  fix a c sl' assume "sl' \<in> set (vF V a c) - X"
  then show "slab_free_blocks m sl' = 0"
    using assms by (cases "sl' = sl") (auto simp: filling_ok_def)
qed

lemma filling_ok_cong:
  assumes "\<And>sl. sl \<in> slabs V \<Longrightarrow> slab_free_blocks m' sl = slab_free_blocks m sl" "filling_ok X m V"
  shows "filling_ok X m' V"
  unfolding filling_ok_def
proof (intro allI conjI ballI)
  fix a c sl assume "sl \<in> set (vP V a c) - X"
  then show "slab_free_blocks m' sl \<noteq> 0"
    using assms(1) [OF in_slabs(1)] assms(2) unfolding filling_ok_def by (metis DiffD1)
next
  fix a c sl assume "sl \<in> set (vF V a c) - X"
  then show "slab_free_blocks m' sl = 0"
    using assms(1) [OF in_slabs(2)] assms(2) unfolding filling_ok_def by (metis DiffD1)
qed

lemma out_apart:
  assumes ok: "gh_ok api X s V" and "sl \<in> slabs V" "b \<in> slab_out (mem s) sl (vfl V sl)"
    and "sl' \<in> slabs V" "b' \<in> slab_out (mem s) sl' (vfl V sl')" "b \<noteq> b'"
  shows "bcells (mem s) b \<inter> bcells (mem s) b' = {}"
proof (cases "sl = sl'")
  case True
  note g = gh_good [OF ok assms(2)]
  have "b \<in> slab_blocks (mem s) sl" "b' \<in> slab_blocks (mem s) sl"
    using assms True by (auto simp: slab_out_def)
  then show ?thesis
    using blocks_apart(2) [OF slab_good_geom(1) [OF g]] out_bcells(1) [OF g] assms True by metis
next
  case False
  then show ?thesis
    using out_bcells(2) [OF gh_good [OF ok assms(2)] assms(3)] out_bcells(2) [OF gh_good [OF ok assms(4)] assms(5)]
      slabs_ok_disj [OF gh_okD(2) [OF ok] assms(2,4)] by blast
qed

lemma client_apart:
  assumes "gh_ok api X s V" "b \<in> client V (mem s)" "b' \<in> client V (mem s)" "b \<noteq> b'"
  shows "bcells (mem s) b \<inter> bcells (mem s) b' = {}"
  using assms(2,3) out_apart [OF assms(1) _ _ _ _ assms(4)] by (auto elim!: clientE)

lemma client_slab:
  assumes "gh_ok api X s V" "b \<in> client V (mem s)"
  shows "fb_slab (mem s) b \<in> slabs V" "b \<in> slab_out (mem s) (fb_slab (mem s) b) (vfl V (fb_slab (mem s) b))"
    "b \<notin> queued V"
proof -
  obtain sl where sl: "sl \<in> slabs V" "b \<in> slab_out (mem s) sl (vfl V sl)" "b \<notin> queued V" using assms(2) by (rule clientE)
  have "fb_slab (mem s) b = sl" by (rule out_header(1) [OF slab_good_geom(2) [OF gh_good [OF assms(1) sl(1)]] sl(2)])
  then show "fb_slab (mem s) b \<in> slabs V" "b \<in> slab_out (mem s) (fb_slab (mem s) b) (vfl V (fb_slab (mem s) b))"
    "b \<notin> queued V" using sl by simp_all
qed

lemma client_keptI:
  assumes "gh_ok api X s V" "B \<subseteq> client V (mem s)"
    and "\<And>sl. sl \<in> slabs V \<Longrightarrow> same_geom (mem s) m' sl"
    and "\<And>b a. b \<in> B \<Longrightarrow> a \<in> bcells (mem s) b \<Longrightarrow> m' a = mem s a"
  shows "kept B (mem s) m'"
  unfolding kept_def using assms(2-4) client_slab(1) [OF assms(1)] by blast

text \<open>A write to the link (or any user cell) of a block outside the heap.\<close>

lemma client_write:
  assumes ok: "gh_ok api X s V" and b: "b \<in> client V (mem s)"
    and w: "\<And>a. a \<notin> {b + 16..<b + ClassIndexToSize (fb_class_index (mem s) b)} \<Longrightarrow> m' a = mem s a"
  shows "gh_ok api X (s\<lparr>mem := m'\<rparr>) V" "client V m' = client V (mem s)"
    "kept (client V (mem s) - {b}) (mem s) m'" "spared api {} s V (s\<lparr>mem := m'\<rparr>) V"
proof -
  obtain sl where sl: "sl \<in> slabs V" "b \<in> slab_out (mem s) sl (vfl V sl)" "b \<notin> queued V" using b by (rule clientE)
  note g = gh_good [OF ok sl(1)]
  note gg = slab_good_geom [OF g] and oh = out_header [OF slab_good_geom(2) [OF g] sl(2)] and bc = out_bcells [OF g sl(2)]
  have nf: "b \<notin> slab_free (mem s) sl (vfl V sl)" using sl(2) by (simp add: slab_out_def)
  have sz: "ClassIndexToSize (fb_class_index (mem s) b) = slab_block_size (mem s) sl" using g oh(2) by (simp add: slab_good_def)
  have w': "m' a = mem s a" if "a \<notin> bcells (mem s) b \<or> a < b + 16" for a using that by (intro w) (auto simp: bcells_def)
  have cw: "slab_ok m' sl (vfl V sl)" "slab_free m' sl (vfl V sl) = slab_free (mem s) sl (vfl V sl)"
    "slab_blocks m' sl = slab_blocks (mem s) sl"
    using slab_block_write [OF gg(2) oh(3) nf w [unfolded sz]] by simp_all
  have far: "sl + 80 \<le> b" using block_in_range(1) [OF gg(1) oh(3)] .
  have sg: "same_geom (mem s) m' sl" using far by (auto simp: same_geom_def intro!: w')
  have so: "slab_out m' sl (vfl V sl) = slab_out (mem s) sl (vfl V sl)" using cw by (simp add: slab_out_def)
  have sh: "slab_free_blocks m' sl = slab_free_blocks (mem s) sl" using far w' by (simp add: cells)
  have rng: "m' a = mem s a" if "a \<notin> slab_range (mem s) sl - link_cells sl" for a
    using bc(2) far that by (intro w') (auto simp: link_cells_def)
  have q: "m' (b' + 16) = mem s (b' + 16) \<and> b' \<in> slab_out m' sl (vfl V sl)"
    if "b' \<in> queued V" "b' \<in> slab_out (mem s) sl (vfl V sl)" for b'
  proof -
    have "b' \<noteq> b" using that sl(3) by blast
    then have "bcells (mem s) b' \<inter> bcells (mem s) b = {}" by (rule out_apart [OF ok sl(1) that(2) sl(1,2)])
    then show ?thesis using out_bcells(5) [OF g that(2)] that(2) so w' by blast
  qed
  have upd: "gh_ok api (insert sl X) (s\<lparr>mem := m'\<rparr>) (V\<lparr>vfl := (vfl V)(sl := vfl V sl)\<rparr>)"
    "client (V\<lparr>vfl := (vfl V)(sl := vfl V sl)\<rparr>) m'
      = (client V (mem s) - slab_out (mem s) sl (vfl V sl)) \<union> (slab_out m' sl (vfl V sl) - queued V)"
    "\<And>sl'. sl' \<in> slabs V \<Longrightarrow> sl' \<noteq> sl \<Longrightarrow> same_header (mem s) m' sl' \<and> slab_ok m' sl' (vfl V sl')"
    "spared api {} s V (s\<lparr>mem := m'\<rparr>) (V\<lparr>vfl := (vfl V)(sl := vfl V sl)\<rparr>)"
    by (rule one_slab_update [OF ok sl(1) rng cw(1) sg q]; assumption)+
  have V: "V\<lparr>vfl := (vfl V)(sl := vfl V sl)\<rparr> = V" by simp
  show "spared api {} s V (s\<lparr>mem := m'\<rparr>) V" using upd(4) unfolding V .
  have "slab_free_blocks m' sl' = slab_free_blocks (mem s) sl'" if "sl' \<in> slabs V" for sl'
    using upd(3) [OF that] same_headerD(2) sh by (cases "sl' = sl") auto
  then have "filling_ok X m' V" using filling_ok_cong gh_okD(5) [OF ok] by blast
  then show "gh_ok api X (s\<lparr>mem := m'\<rparr>) V" using upd(1) unfolding V by (simp add: gh_ok_def)
  have "client V m' = (client V (mem s) - slab_out (mem s) sl (vfl V sl)) \<union> (slab_out (mem s) sl (vfl V sl) - queued V)"
    using upd(2) unfolding V so .
  moreover have "slab_out (mem s) sl (vfl V sl) - queued V \<subseteq> client V (mem s)" using sl(1) by (auto simp: client_def)
  moreover have "client V (mem s) \<inter> queued V = {}" by (auto simp: client_def)
  ultimately show "client V m' = client V (mem s)" by auto
  show "kept (client V (mem s) - {b}) (mem s) m'"
  proof (rule client_keptI [OF ok])
    show "same_geom (mem s) m' sl'" if "sl' \<in> slabs V" for sl'
      using upd(3) [OF that] sg same_headerD(1) by (cases "sl' = sl") auto
    fix b' a assume b': "b' \<in> client V (mem s) - {b}" and a: "a \<in> bcells (mem s) b'"
    then show "m' a = mem s a" using client_apart [OF ok b, of b'] by (intro w') blast
  qed blast
qed

lemma client_cell_write:
  assumes ok: "gh_ok api X s V" and b: "b \<in> client V (mem s)"
  shows "gh_ok api X (upd_mem (set_fb_next b v) s) V"
    "client V (mem (upd_mem (set_fb_next b v) s)) = client V (mem s)"
    "kept (client V (mem s) - {b}) (mem s) (mem (upd_mem (set_fb_next b v) s))"
    "spared api {} s V (upd_mem (set_fb_next b v) s) V"
proof -
  obtain sl where sl: "sl \<in> slabs V" "b \<in> slab_out (mem s) sl (vfl V sl)" using b by (rule clientE)
  have "b + 16 \<in> bcells (mem s) b" by (rule out_bcells(5) [OF gh_good [OF ok sl(1)] sl(2)])
  then have "set_fb_next b v (mem s) a = mem s a" if "a \<notin> {b + 16..<b + ClassIndexToSize (fb_class_index (mem s) b)}" for a
    using that by (auto simp: cells bcells_def)
  note w = client_write [OF ok b this, folded upd_mem_def]
  show "gh_ok api X (upd_mem (set_fb_next b v) s) V"
    "client V (mem (upd_mem (set_fb_next b v) s)) = client V (mem s)"
    "kept (client V (mem s) - {b}) (mem s) (mem (upd_mem (set_fb_next b v) s))"
    "spared api {} s V (upd_mem (set_fb_next b v) s) V"
    using w by (simp_all add: upd_mem_def)
qed

lemma queued_slab:
  assumes "gh_ok api X s V" "b \<in> queued V"
  shows "\<exists>sl \<in> slabs V. b \<in> slab_out (mem s) sl (vfl V sl)"
proof -
  obtain a c where "b \<in> set (vQ V a c)" using assms(2) by (auto simp: queued_def)
  then obtain sl where "sl \<in> listed V a c" "b \<in> slab_out (mem s) sl (vfl V sl)"
    using gh_okD(4) [OF assms(1)] unfolding queues_ok_def by blast
  then show ?thesis using in_slabs(3) by blast
qed

lemma Slab_Allocate_ex:
  assumes "slab_ok m sl fl" "slab_free m sl fl \<noteq> {}"
  shows "\<exists>b m' fl'. Slab_Allocate sl m = (b, m') \<and> b \<in> slab_free m sl fl \<and> slab_ok m' sl fl'
    \<and> slab_free m' sl fl' = slab_free m sl fl - {b} \<and> slab_blocks m' sl = slab_blocks m sl
    \<and> same_geom m m' sl \<and> fb_slab m' b = sl \<and> fb_class_index m' b = slab_class_idx m sl
    \<and> (\<forall>a. a \<notin> slab_header sl \<longrightarrow> a \<noteq> b \<longrightarrow> a \<noteq> b + 8 \<longrightarrow> m' a = m a)
    \<and> m' sl = m sl \<and> m' (sl + 8) = m (sl + 8)"
  by (rule Slab_Allocate_blocks [OF assms]) blast

text \<open>Taking a block from a slab that has one.\<close>

lemma slab_take:
  assumes ok: "gh_ok api X s V" and sl: "sl \<in> slabs V" and ne: "slab_free_blocks (mem s) sl \<noteq> 0"
  obtains b m' fl where "Slab_Allocate sl (mem s) = (b, m')"
    "gh_ok api (insert sl X) (s\<lparr>mem := m'\<rparr>) (V\<lparr>vfl := (vfl V)(sl := fl)\<rparr>)"
    "b \<in> slab_blocks (mem s) sl" "b \<notin> client V (mem s)" "b \<notin> queued V"
    "client (V\<lparr>vfl := (vfl V)(sl := fl)\<rparr>) m' = insert b (client V (mem s))"
    "kept (client V (mem s)) (mem s) m'" "b \<in> slab_out m' sl fl"
    "slab_free_blocks m' sl = slab_free_blocks (mem s) sl - 1"
    "\<And>sl'. sl' \<in> slabs V \<Longrightarrow> sl' \<noteq> sl \<Longrightarrow> slab_free_blocks m' sl' = slab_free_blocks (mem s) sl'"
    "same_geom (mem s) m' sl" "spared api {} s V (s\<lparr>mem := m'\<rparr>) (V\<lparr>vfl := (vfl V)(sl := fl)\<rparr>)"
proof -
  note g = gh_good [OF ok sl]
  note gg = slab_good_geom [OF g]
  have ne': "slab_free (mem s) sl (vfl V sl) \<noteq> {}"
    using ne slab_free_card [OF gg(2)] by auto
  obtain b m' fl where r: "Slab_Allocate sl (mem s) = (b, m')" "b \<in> slab_free (mem s) sl (vfl V sl)"
    "slab_ok m' sl fl" "slab_free m' sl fl = slab_free (mem s) sl (vfl V sl) - {b}"
    "slab_blocks m' sl = slab_blocks (mem s) sl" "same_geom (mem s) m' sl"
    "fb_slab m' b = sl" "fb_class_index m' b = slab_class_idx (mem s) sl"
    "\<And>a. a \<notin> slab_header sl \<Longrightarrow> a \<noteq> b \<Longrightarrow> a \<noteq> b + 8 \<Longrightarrow> m' a = mem s a"
    "m' sl = mem s sl" "m' (sl + 8) = mem s (sl + 8)"
    using Slab_Allocate_ex [OF gg(2) ne'] by blast
  have bb: "b \<in> slab_blocks (mem s) sl" using r(2) slab_free_subset [OF gg(2)] by blast
  have rb: "sl + 80 \<le> b" "b + slab_block_size (mem s) sl \<le> sl + slab_memory_size (mem s) sl"
    using block_in_range(1,2) [OF gg(1) bb] .
  have bs: "32 \<le> slab_block_size (mem s) sl" by (rule slab_good_class(2) [OF g])
  have outside: "m' a = mem s a" if "a \<notin> slab_range (mem s) sl - link_cells sl" for a
  proof (cases "a \<in> link_cells sl")
    case True
    then show ?thesis using r(10,11) by (auto simp: link_cells_def)
  next
    case False
    then have "a \<notin> slab_range (mem s) sl" using that by blast
    then show ?thesis
      using rb bs gg(3) by (intro r(9)) (auto simp: slab_range_def slab_header_def sizeof_Slab_def)
  qed
  have so: "slab_out m' sl fl = insert b (slab_out (mem s) sl (vfl V sl))"
    using r(2,4,5) bb by (auto simp: slab_out_def)
  have nb: "b \<notin> slab_out (mem s) sl (vfl V sl)" using r(2) by (simp add: slab_out_def)
  have nq: "b' \<noteq> b" if "b' \<in> queued V" for b'
  proof
    assume "b' = b"
    with queued_slab [OF ok that] obtain sl' where s': "sl' \<in> slabs V"
      and sl': "sl' \<in> slabs V" "b \<in> slab_out (mem s) sl' (vfl V sl')" by blast
    have "b \<in> slab_range (mem s) sl'" using out_bcells(2,3) [OF gh_good [OF ok s'] sl'(2)] by blast
    moreover have "b \<in> slab_range (mem s) sl" using rb bs by (simp add: slab_range_def)
    ultimately have "sl' = sl" using slabs_ok_disj [OF gh_okD(2) [OF ok] s' sl] by blast
    then show False using sl'(2) nb by simp
  qed
  have link: "m' (b' + 16) = mem s (b' + 16)" if "b' \<in> slab_out (mem s) sl (vfl V sl)" for b'
  proof -
    have b': "b' \<in> slab_blocks (mem s) sl" "b' \<noteq> b" using that nb by (auto simp: slab_out_def)
    have "b' + 16 \<noteq> b" "b' + 16 \<noteq> b + 8"
      using blocks_apart(1) [OF gg(1) b'(1) bb b'(2)] bs by linarith+
    then show ?thesis
      using block_in_range(1) [OF gg(1) b'(1)] by (intro r(9)) (auto simp: slab_header_def sizeof_Slab_def)
  qed
  have q': "m' (b' + 16) = mem s (b' + 16) \<and> b' \<in> slab_out m' sl fl"
    if "b' \<in> queued V" "b' \<in> slab_out (mem s) sl (vfl V sl)" for b'
    using link [OF that(2)] so that(2) by blast
  let ?V = "V\<lparr>vfl := (vfl V)(sl := fl)\<rparr>"
  have upd: "gh_ok api (insert sl X) (s\<lparr>mem := m'\<rparr>) ?V"
    "client ?V m' = (client V (mem s) - slab_out (mem s) sl (vfl V sl)) \<union> (slab_out m' sl fl - queued V)"
    "\<And>sl'. sl' \<in> slabs V \<Longrightarrow> sl' \<noteq> sl \<Longrightarrow> same_header (mem s) m' sl' \<and> slab_ok m' sl' (vfl V sl')"
    "spared api {} s V (s\<lparr>mem := m'\<rparr>) ?V"
    by (rule one_slab_update [OF ok sl outside r(3,6)]; use q' in blast)+
  have cl: "slab_out (mem s) sl (vfl V sl) - queued V \<subseteq> client V (mem s)" using sl by (auto simp: client_def)
  have cq: "client V (mem s) \<inter> queued V = {}" by (auto simp: client_def)
  have nc: "b \<notin> client V (mem s)"
  proof
    assume "b \<in> client V (mem s)"
    then obtain sl' where sl': "sl' \<in> slabs V" "b \<in> slab_out (mem s) sl' (vfl V sl')" by (rule clientE)
    have "b \<in> slab_range (mem s) sl'" using out_bcells(2,3) [OF gh_good [OF ok sl'(1)] sl'(2)] by blast
    moreover have "b \<in> slab_range (mem s) sl" using rb bs by (simp add: slab_range_def)
    ultimately have "sl' = sl" using slabs_ok_disj [OF gh_okD(2) [OF ok] sl'(1) sl] by blast
    then show False using sl'(2) nb by simp
  qed
  have cnew: "client ?V m' = insert b (client V (mem s))"
    unfolding upd(2) so using cl cq nq by blast
  have kp: "kept (client V (mem s)) (mem s) m'"
  proof (rule client_keptI [OF ok])
    show "same_geom (mem s) m' sl'" if "sl' \<in> slabs V" for sl'
      using upd(3) [OF that] r(6) same_headerD(1) by (cases "sl' = sl") auto
    fix b' a assume b': "b' \<in> client V (mem s)" and a: "a \<in> bcells (mem s) b'"
    obtain sl' where sl': "sl' \<in> slabs V" "b' \<in> slab_out (mem s) sl' (vfl V sl')" using b' by (rule clientE)
    note ob = out_bcells [OF gh_good [OF ok sl'(1)] sl'(2)]
    show "m' a = mem s a"
    proof (cases "sl' = sl")
      case False
      then have "a \<notin> slab_range (mem s) sl" using ob(2) a slabs_ok_disj [OF gh_okD(2) [OF ok] sl'(1) sl] by blast
      then show ?thesis by (intro outside) simp
    next
      case True
      have b2: "b' \<in> slab_blocks (mem s) sl" "b' \<noteq> b" using sl'(2) True nb by (auto simp: slab_out_def)
      have ain: "a \<in> {b'..<b' + slab_block_size (mem s) sl}" using a ob(1) True by simp
      then have "a \<noteq> b" "a \<noteq> b + 8"
        using blocks_apart(1) [OF gg(1) b2(1) bb b2(2)] bs by (simp_all, linarith+)
      moreover have "sl + 80 \<le> a" using block_in_range(1) [OF gg(1) b2(1)] ain by simp
      ultimately show ?thesis by (intro r(9)) (auto simp: slab_header_def sizeof_Slab_def)
    qed
  qed blast
  have "slab_free_blocks m' sl = slab_free_blocks (mem s) sl - 1"
    using slab_free_card [OF r(3)] slab_free_card [OF gg(2)] r(2,4) by simp
  moreover have "slab_free_blocks m' sl' = slab_free_blocks (mem s) sl'" if "sl' \<in> slabs V" "sl' \<noteq> sl" for sl'
    using upd(3) [OF that] same_headerD(2) by blast
  moreover have "b \<in> slab_out m' sl fl" using so by simp
  ultimately show thesis using that r(1,6) upd(1,4) bb nc nq cnew kp by blast
qed

text \<open>Returning a block that is outside the heap to its slab.\<close>

lemma slab_give:
  assumes ok: "gh_ok api X s V" and b: "b \<in> client V (mem s)"
  defines "sl \<equiv> fb_slab (mem s) b"
  defines "m' \<equiv> Slab_Deallocate sl b (mem s)"
  defines "V' \<equiv> V\<lparr>vfl := (vfl V)(sl := b # vfl V sl)\<rparr>"
  shows "sl \<in> slabs V" "gh_ok api (insert sl X) (s\<lparr>mem := m'\<rparr>) V'"
    "client V' m' = client V (mem s) - {b}" "kept (client V (mem s) - {b}) (mem s) m'"
    "slab_free_blocks m' sl = slab_free_blocks (mem s) sl + 1" "same_geom (mem s) m' sl"
    "\<And>sl'. sl' \<in> slabs V \<Longrightarrow> sl' \<noteq> sl \<Longrightarrow> slab_free_blocks m' sl' = slab_free_blocks (mem s) sl'"
    "spared api {} s V (s\<lparr>mem := m'\<rparr>) V'"
proof -
  obtain sl' where sl': "sl' \<in> slabs V" "b \<in> slab_out (mem s) sl' (vfl V sl')" "b \<notin> queued V"
    using b by (rule clientE)
  have "sl' = sl" using out_header(1) [OF slab_good_geom(2) [OF gh_good [OF ok sl'(1)]] sl'(2)] by (simp add: sl_def)
  then have sl: "sl \<in> slabs V" and bo: "b \<in> slab_out (mem s) sl (vfl V sl)" using sl' by simp_all
  show "sl \<in> slabs V" by (rule sl)
  note g = gh_good [OF ok sl]
  note gg = slab_good_geom [OF g] and oh = out_header [OF slab_good_geom(2) [OF g] bo]
  have nf: "b \<notin> slab_free (mem s) sl (vfl V sl)" using bo by (simp add: slab_out_def)
  note d = Slab_Deallocate_blocks [OF gg(2) oh(3) nf, folded m'_def]
  show "same_geom (mem s) m' sl" by (rule d(4))
  have rb: "sl + 80 \<le> b" "b + slab_block_size (mem s) sl \<le> sl + slab_memory_size (mem s) sl"
    using block_in_range(1,2) [OF gg(1) oh(3)] .
  have bs: "32 \<le> slab_block_size (mem s) sl" by (rule slab_good_class(2) [OF g])
  have outside: "m' a = mem s a" if "a \<notin> slab_range (mem s) sl - link_cells sl" for a
    using that rb bs gg(3) by (auto simp: d(1) slab_range_def link_cells_def)
  have so: "slab_out m' sl (b # vfl V sl) = slab_out (mem s) sl (vfl V sl) - {b}"
    using d(3) same_geomD(5) [OF d(4)] by (auto simp: slab_out_def)
  have far: "a \<noteq> b + 16 \<and> sl + 80 \<le> a" if "b' \<in> slab_out (mem s) sl (vfl V sl)" "b' \<noteq> b" "a \<in> bcells (mem s) b'" for a b'
  proof -
    have "b' \<in> slab_blocks (mem s) sl" using that(1) by (simp add: slab_out_def)
    then have "sl + 80 \<le> b'" by (rule block_in_range(1) [OF gg(1)])
    moreover have "a \<in> {b'..<b' + slab_block_size (mem s) sl}" using that out_bcells(1) [OF g] by simp
    moreover have "bcells (mem s) b' \<inter> bcells (mem s) b = {}" by (rule out_apart [OF ok sl that(1) sl bo that(2)])
    ultimately show ?thesis using that(3) out_bcells(5) [OF g bo] by auto
  qed
  have link: "m' (b' + 16) = mem s (b' + 16) \<and> b' \<in> slab_out m' sl (b # vfl V sl)"
    if "b' \<in> queued V" "b' \<in> slab_out (mem s) sl (vfl V sl)" for b'
  proof -
    have ne: "b' \<noteq> b" using that(1) sl'(3) by blast
    then show ?thesis
      using far [OF that(2) ne out_bcells(5) [OF g that(2)]] so that(2) by (auto simp: d(1))
  qed
  have upd: "gh_ok api (insert sl X) (s\<lparr>mem := m'\<rparr>) V'"
    "client V' m' = (client V (mem s) - slab_out (mem s) sl (vfl V sl)) \<union> (slab_out m' sl (b # vfl V sl) - queued V)"
    "\<And>sl'. sl' \<in> slabs V \<Longrightarrow> sl' \<noteq> sl \<Longrightarrow> same_header (mem s) m' sl' \<and> slab_ok m' sl' (vfl V sl')"
    "spared api {} s V (s\<lparr>mem := m'\<rparr>) V'"
    unfolding V'_def by (rule one_slab_update [OF ok sl outside d(2,4)]; use link in blast)+
  show "gh_ok api (insert sl X) (s\<lparr>mem := m'\<rparr>) V'" "spared api {} s V (s\<lparr>mem := m'\<rparr>) V'" by (rule upd)+
  have cl: "slab_out (mem s) sl (vfl V sl) - queued V \<subseteq> client V (mem s)" using sl by (auto simp: client_def)
  have cq: "client V (mem s) \<inter> queued V = {}" by (auto simp: client_def)
  show "client V' m' = client V (mem s) - {b}" unfolding upd(2) so using cl cq bo by blast
  show "kept (client V (mem s) - {b}) (mem s) m'"
  proof (rule client_keptI [OF ok])
    show "same_geom (mem s) m' sl'" if "sl' \<in> slabs V" for sl'
      using upd(3) [OF that] d(4) same_headerD(1) by (cases "sl' = sl") auto
    fix b' a assume b': "b' \<in> client V (mem s) - {b}" and a: "a \<in> bcells (mem s) b'"
    obtain sl2 where sl2: "sl2 \<in> slabs V" "b' \<in> slab_out (mem s) sl2 (vfl V sl2)" using b' by (auto elim: clientE)
    show "m' a = mem s a"
    proof (cases "sl2 = sl")
      case False
      then have "a \<notin> slab_range (mem s) sl"
        using out_bcells(2) [OF gh_good [OF ok sl2(1)] sl2(2)] a slabs_ok_disj [OF gh_okD(2) [OF ok] sl2(1) sl] by blast
      then show ?thesis by (intro outside) simp
    next
      case True
      then have "a \<noteq> b + 16 \<and> sl + 80 \<le> a" using far [of b' a] sl2(2) b' a by simp
      then show ?thesis by (auto simp: d(1))
    qed
  qed blast
  show "slab_free_blocks m' sl = slab_free_blocks (mem s) sl + 1"
    using rb by (simp add: d(1) cells)
  show "slab_free_blocks m' sl2 = slab_free_blocks (mem s) sl2" if "sl2 \<in> slabs V" "sl2 \<noteq> sl" for sl2
    using upd(3) [OF that] same_headerD(2) by blast
qed

section \<open>Moving slabs between lists\<close>

lemma dlist_other:
  assumes d: "dlist m zs h" and eq: "\<And>a. a \<notin> (\<Union>z \<in> A. link_cells z) \<Longrightarrow> m' a = m a"
    and al: "\<And>z. z \<in> A \<Longrightarrow> z mod 16 = 0" and disj: "set zs \<inter> A = {}"
  shows "dlist m' zs h"
proof -
  have "m' x = m x \<and> m' (x + 8) = m (x + 8)" if x: "x \<in> set zs" for x
  proof -
    have xa: "x mod 16 = 0" using d x by (auto simp: dlist_def)
    have "x \<notin> link_cells z \<and> x + 8 \<notin> link_cells z" if "z \<in> A" for z
      using aligned_cells [OF xa al [OF that]] disj x that by (auto simp: link_cells_def)
    then show ?thesis by (auto intro!: eq)
  qed
  then show ?thesis using d dlist_cong [of zs m' m] by blast
qed

text \<open>Writes to the links of slabs of the heap leave everything but the lists as it is.\<close>

lemma relink:
  assumes spec: "os_spec api" and ok: "gh_ok api X s V"
    and eq: "\<And>a. a \<notin> (\<Union>z \<in> slabs V. link_cells z) \<Longrightarrow> mem s' a = mem s a"
    and fr: "os_log s' = os_log s" "pool_chunks s' = pool_chunks s" "page_bins s' = page_bins s"
      "page_nonempty s' = page_nonempty s" "page_cache_total_bytes s' = page_cache_total_bytes s"
      "pending_returns s' = pending_returns s"
    and V': "vQ V' = vQ V" "vL V' = vL V" "vfl V' = vfl V" "\<And>a c. listed V' a c = listed V a c - D"
      "\<And>sl. sl \<in> D \<Longrightarrow> sl \<in> slabs V \<Longrightarrow> slab_out (mem s) sl (vfl V sl) = {}"
    and li: "lists_ok s' V'" and fi: "filling_ok X' (mem s) V'"
  shows "gh_ok api X' s' V'" "client V' (mem s') = client V (mem s)" "kept (client V (mem s)) (mem s) (mem s')"
    "\<And>sl. sl \<in> slabs V \<Longrightarrow> same_header (mem s) (mem s') sl" "spared api {} s V s' V'"
proof -
  have sV: "slabs V' = slabs V - D" "queued V' = queued V" by (auto simp: slabs_def V' queued_def)
  have sok: "slabs_ok api s V" by (rule gh_okD(2) [OF ok])
  note good = gh_good [OF ok]
  have inside: "mem s' a = mem s a" if "sl \<in> slabs V" "a \<in> slab_range (mem s) sl - link_cells sl" for sl a
  proof (rule eq)
    have "a \<notin> link_cells z" if "z \<in> slabs V" for z
      using slabs_ok_disj [OF sok that \<open>sl \<in> slabs V\<close>] slab_good_geom(4,5) [OF good [OF that]] \<open>a \<in> _ - _\<close>
      by (cases "z = sl") (auto simp: link_cells_def)
    then show "a \<notin> (\<Union>z \<in> slabs V. link_cells z)" by blast
  qed
  have ok': "slab_ok (mem s') sl (vfl V sl)" and sh: "same_header (mem s) (mem s') sl" if "sl \<in> slabs V" for sl
    using slab_ok_frame [OF slab_good_geom(2) [OF good [OF that]], of "mem s'"] inside [OF that] by blast+
  show "\<And>sl. sl \<in> slabs V \<Longrightarrow> same_header (mem s) (mem s') sl" by (rule sh)
  note he = same_headerD [OF sh]
  note ge = same_geomD [OF same_headerD(1) [OF sh]]
  have os: "in_use s' = in_use s" "\<And>p n. span_owned api s' p n = span_owned api s p n"
    using os_cong [OF fr(1,2)] by simp_all
  show "spared api {} s V s' V'"
  proof (rule spared_inside)
    show "mem s' a = mem s a" if "\<And>sl. sl \<in> slabs V \<Longrightarrow> a \<notin> slab_range (mem s) sl" for a
      using slab_good_geom(4,5) [OF good] that by (intro eq) (auto simp: link_cells_def)
  qed (use fr V' sV he(7) in auto)
  have good': "slab_good api s' (vL V) sl (vfl V sl)" if "sl \<in> slabs V" for sl
    using good [OF that] ok' [OF that] ge [OF that] he(7) [OF that] by (simp add: slab_good_def os)
  have cached: "mem s' a = mem s a" if "a \<in> cached_cells api (vL V)" for a
  proof (rule eq)
    have "a \<notin> link_cells z" if z: "z \<in> slabs V" for z
    proof -
      have "slab_range (mem s) z \<inter> cached_cells api (vL V) = {}" using good [OF z] by (simp add: slab_good_def)
      then show ?thesis using slab_good_geom(4,5) [OF good [OF z]] \<open>a \<in> cached_cells api (vL V)\<close> by (auto simp: link_cells_def)
    qed
    then show "a \<notin> (\<Union>z \<in> slabs V. link_cells z)" by blast
  qed
  have "ph_ok api (s\<lparr>mem := mem s'\<rparr>) (vL V)" using cached gh_okD(1) [OF ok] by (intro ph_ok_frame) auto
  then have "ph_ok api s' (vL V)"
    using ph_core_cong [of s' "s\<lparr>mem := mem s'\<rparr>"] fr by (simp add: ph_ok_def)
  moreover have "slabs_ok api s' V'"
    unfolding slabs_ok_def sV V'(2,3,4)
    using good' slabs_okD(2) [OF sok] slabs_ok_disj [OF sok] he(7) ge by auto
  moreover have outs: "slab_out (mem s') sl (vfl V sl) = slab_out (mem s) sl (vfl V sl)" if "sl \<in> slabs V" for sl
    by (rule he(6) [OF that])
  have clink: "mem s' a = mem s a" if "sl \<in> slabs V" "b \<in> slab_out (mem s) sl (vfl V sl)" "a \<in> bcells (mem s) b" for sl b a
  proof (rule inside [OF that(1)])
    have "b \<in> slab_blocks (mem s) sl" using that(2) by (simp add: slab_out_def)
    then have "sl + 80 \<le> b" by (rule block_in_range(1) [OF slab_good_geom(1) [OF good [OF that(1)]]])
    then show "a \<in> slab_range (mem s) sl - link_cells sl"
      using out_bcells(1,2) [OF good [OF that(1)] that(2)] that(3) by (auto simp: link_cells_def)
  qed
  have "queues_ok s' V'"
    unfolding queues_ok_def V'(1-4) fr
  proof (intro allI conjI ballI)
    fix a c
    have "mem s' (b + 16) = mem s (b + 16)" if "b \<in> set (vQ V a c)" for b
    proof -
      have "b \<in> queued V" using that by (auto simp: queued_def)
      then obtain sl where sl: "sl \<in> slabs V" "b \<in> slab_out (mem s) sl (vfl V sl)" using queued_slab [OF ok] by blast
      show ?thesis by (rule clink [OF sl out_bcells(5) [OF good [OF sl(1)] sl(2)]])
    qed
    then show "chain (fb_next (mem s')) (pending_returns s a c) (vQ V a c)"
      using gh_okD(4) [OF ok] fb_chain_cong [of "vQ V a c" "mem s'" "mem s"] by (simp add: queues_ok_def)
    fix b assume "b \<in> set (vQ V a c)"
    then obtain sl where sl: "sl \<in> listed V a c" "b \<in> slab_out (mem s) sl (vfl V sl)"
      using gh_okD(4) [OF ok] unfolding queues_ok_def by blast
    then have "sl \<notin> D" using V'(5) in_slabs(3) by blast
    then show "\<exists>sl \<in> listed V a c - D. b \<in> slab_out (mem s') sl (vfl V sl)"
      using sl outs in_slabs(3) by blast
  qed
  moreover have "filling_ok X' (mem s') V'"
    by (rule filling_ok_cong [OF _ fi]) (use he(2) sV in auto)
  ultimately show "gh_ok api X' s' V'" using li by (simp add: gh_ok_def V')
  show "client V' (mem s') = client V (mem s)"
  proof -
    have "(\<Union>sl \<in> slabs V - D. slab_out (mem s') sl (vfl V sl)) = (\<Union>sl \<in> slabs V. slab_out (mem s) sl (vfl V sl))"
      using outs V'(5) by auto
    then show ?thesis by (simp add: client_def sV V')
  qed
  show "kept (client V (mem s)) (mem s) (mem s')"
    by (rule client_keptI [OF ok order_refl same_headerD(1) [OF sh]])
       (use clink in \<open>auto elim!: clientE\<close>)
qed

text \<open>
  The part of the state no heap operation touches: the locks of the other threads, the arena
  counter, the shutdown flag and everything that belongs to the layers above.
\<close>

definition env :: "'a gh_state_scheme \<Rightarrow> (nat \<Rightarrow> nat \<Rightarrow> bool) \<times> nat \<times> bool \<times> 'a" where
  "env s = (lock_busy s, next_arena s, shutting_down s, gh_state.more s)"

lemma env_simps [simp]:
  "env (s\<lparr>mem := m\<rparr>) = env s" "env (count_stats f s) = env s" "env (upd_mem g s) = env s"
  "env (s\<lparr>g_oom_fail_countdown := v\<rparr>) = env s" "env (s\<lparr>os_log := l\<rparr>) = env s" "env (s\<lparr>pool_chunks := cs\<rparr>) = env s"
  "env (s\<lparr>page_bins := bs\<rparr>) = env s" "env (s\<lparr>page_nonempty := ne\<rparr>) = env s" "env (s\<lparr>g_stats := st\<rparr>) = env s"
  "env (s\<lparr>page_cache_total_bytes := k\<rparr>) = env s"
  by (simp_all add: env_def count_stats_def upd_mem_def)

lemma env_lock: "env s' = env s \<Longrightarrow> lock_busy s' = lock_busy s"
  by (simp add: env_def)

text \<open>A step that neither takes nor returns a block.\<close>

definition silent :: "os_api \<Rightarrow> addr set \<Rightarrow> 'a gh_state_scheme \<Rightarrow> view \<Rightarrow> 'a gh_state_scheme \<Rightarrow> view \<Rightarrow> bool" where
  "silent api X s V s' V' \<longleftrightarrow> gh_ok api X s' V' \<and> vQ V' = vQ V \<and> vfl V' = vfl V
     \<and> client V' (mem s') = client V (mem s) \<and> kept (client V (mem s)) (mem s) (mem s')
     \<and> env s' = env s \<and> spared api {} s V s' V'"

lemma dlist_aligned: "dlist m xs h \<Longrightarrow> x \<in> set xs \<Longrightarrow> x mod 16 = 0"
  by (auto simp: dlist_def)

lemma move_mem:
  assumes d1: "dlist m (xs @ x # ys) h1" and d2: "dlist m zs h2" and disj: "set (xs @ x # ys) \<inter> set zs = {}"
  obtains h1' m1 m2 where "RemoveSlab h1 x m = (h1', m1)" "PushSlab h2 x m1 = (x, m2)"
    "dlist m2 (xs @ ys) h1'" "dlist m2 (x # zs) x"
    "\<And>a. a \<notin> (\<Union>z \<in> set (xs @ x # ys) \<union> set zs. link_cells z) \<Longrightarrow> m2 a = m a"
proof -
  have al: "z mod 16 = 0" if "z \<in> set (xs @ x # ys) \<union> set zs" for z
    using that dlist_aligned [OF d1] dlist_aligned [OF d2] by blast
  have dist: "distinct (xs @ x # ys)" using d1 by (simp add: dlist_def)
  obtain h1' m1 where r: "RemoveSlab h1 x m = (h1', m1)" "dlist m1 (xs @ ys) h1'"
    "\<And>a. a \<notin> (\<Union>z \<in> set (xs @ x # ys). link_cells z) \<Longrightarrow> m1 a = m a"
    using RemoveSlab_dlist [OF d1] by blast
  have d2': "dlist m1 zs h2"
    by (rule dlist_other [OF d2, where A = "set (xs @ x # ys)"]) (use al disj r(3) in blast)+
  have x: "x \<noteq> 0" "x \<notin> set zs" "x mod 16 = 0" using dlist_nonzero [OF d1] disj al by auto
  obtain m2 where p: "PushSlab h2 x m1 = (x, m2)" "dlist m2 (x # zs) x"
    "\<And>a. a \<notin> link_cells x \<Longrightarrow> (h2 \<noteq> 0 \<longrightarrow> a \<noteq> h2 + 8) \<Longrightarrow> m2 a = m1 a"
    using PushSlab_dlist [OF d2' x] by blast
  have p3: "m2 a = m1 a" if "a \<notin> (\<Union>z \<in> insert x (set zs). link_cells z)" for a
  proof (rule p(3))
    show "a \<notin> link_cells x" using that by blast
    show "h2 \<noteq> 0 \<longrightarrow> a \<noteq> h2 + 8" using that dlist_head [OF d2'] by (auto simp: link_cells_def)
  qed
  have d1': "dlist m2 (xs @ ys) h1'"
    by (rule dlist_other [OF r(2), where A = "insert x (set zs)"]) (use al disj dist p3 in auto)
  have "m2 a = m a" if "a \<notin> (\<Union>z \<in> set (xs @ x # ys) \<union> set zs. link_cells z)" for a
    using that p3 [of a] r(3) [of a] by simp
  then show thesis using that r(1) p(1,2) d1' by blast
qed

definition upd2 :: "(nat \<Rightarrow> nat \<Rightarrow> 'b) \<Rightarrow> nat \<Rightarrow> nat \<Rightarrow> 'b \<Rightarrow> nat \<Rightarrow> nat \<Rightarrow> 'b" where
  "upd2 f a c v = f(a := (f a)(c := v))"

lemma upd2_apply [simp]: "upd2 f a c v a' c' = (if a' = a \<and> c' = c then v else f a' c')"
  by (simp add: upd2_def)

lemma set_list_simps [simp]:
  "partial_slabs (set_partial a c v s) = upd2 (partial_slabs s) a c v" "full_slabs (set_partial a c v s) = full_slabs s"
  "full_slabs (set_full a c v s) = upd2 (full_slabs s) a c v" "partial_slabs (set_full a c v s) = partial_slabs s"
  "pending_returns (set_pending a c v s) = upd2 (pending_returns s) a c v"
  "pending_returns (set_partial a c v s) = pending_returns s" "pending_returns (set_full a c v s) = pending_returns s"
  "partial_slabs (set_pending a c v s) = partial_slabs s" "full_slabs (set_pending a c v s) = full_slabs s"
  "mem (set_partial a c v s) = mem s" "mem (set_full a c v s) = mem s" "mem (set_pending a c v s) = mem s"
  "os_log (set_partial a c v s) = os_log s" "os_log (set_full a c v s) = os_log s" "os_log (set_pending a c v s) = os_log s"
  "pool_chunks (set_partial a c v s) = pool_chunks s" "pool_chunks (set_full a c v s) = pool_chunks s"
  "pool_chunks (set_pending a c v s) = pool_chunks s"
  "page_bins (set_partial a c v s) = page_bins s" "page_bins (set_full a c v s) = page_bins s" "page_bins (set_pending a c v s) = page_bins s"
  "page_nonempty (set_partial a c v s) = page_nonempty s" "page_nonempty (set_full a c v s) = page_nonempty s"
  "page_nonempty (set_pending a c v s) = page_nonempty s"
  "page_cache_total_bytes (set_partial a c v s) = page_cache_total_bytes s"
  "page_cache_total_bytes (set_full a c v s) = page_cache_total_bytes s"
  "page_cache_total_bytes (set_pending a c v s) = page_cache_total_bytes s"
  "env (set_partial a c v s) = env s" "env (set_full a c v s) = env s"
  "env (set_pending a c v s) = env s"
  by (simp_all add: set_partial_def set_full_def set_pending_def upd2_def env_def)

lemma listedP: "xs @ x # ys = vP V a c \<Longrightarrow> sl \<in> set (xs @ x # ys) \<Longrightarrow> sl \<in> slabs V"
  using in_slabs(1) by metis

lemma lists_okD:
  assumes "lists_ok s V"
  shows "dlist (mem s) (vP V a c) (partial_slabs s a c)" "dlist (mem s) (vF V a c) (full_slabs s a c)"
    "set (vP V a c) \<inter> set (vF V a c) = {}"
  using assms by (simp_all add: lists_ok_def)

lemma listed_unique:
  assumes "slabs_ok api s V" "sl \<in> listed V a c" "sl \<in> listed V a' c'"
  shows "a' = a \<and> c' = c"
  using assms slabs_okD(2) [OF assms(1) in_slabs(3) [OF assms(2)]] by simp

lemma move_to_full:
  assumes spec: "os_spec api" and ok: "gh_ok api (insert sl X) s V" and sl: "sl \<in> set (vP V a c)"
    and full: "slab_free_blocks (mem s) sl = 0"
  defines "s' \<equiv> push_full a c sl (remove_partial a c sl s)"
  shows "\<exists>V'. silent api X s V s' V' \<and> slabs V' = slabs V \<and> sl \<in> set (vF V' a c)"
proof -
  obtain xs ys where P: "vP V a c = xs @ sl # ys" using sl by (auto simp: in_set_conv_decomp)
  note li = lists_okD [OF gh_okD(3) [OF ok]] and sok = gh_okD(2) [OF ok]
  have d1: "dlist (mem s) (xs @ sl # ys) (partial_slabs s a c)" using li(1) [of a c] by (simp add: P)
  have disj: "set (xs @ sl # ys) \<inter> set (vF V a c) = {}" using li(3) [of a c] unfolding P .
  obtain h1 m1 m2 where mv: "RemoveSlab (partial_slabs s a c) sl (mem s) = (h1, m1)"
    "PushSlab (full_slabs s a c) sl m1 = (sl, m2)" "dlist m2 (xs @ ys) h1" "dlist m2 (sl # vF V a c) sl"
    "\<And>x. x \<notin> (\<Union>z \<in> set (xs @ sl # ys) \<union> set (vF V a c). link_cells z) \<Longrightarrow> m2 x = mem s x"
    using move_mem [OF d1 li(2) [of a c] disj] by blast
  let ?V = "V\<lparr>vP := upd2 (vP V) a c (xs @ ys), vF := upd2 (vF V) a c (sl # vF V a c)\<rparr>"
  have s': "mem s' = m2" "partial_slabs s' = upd2 (partial_slabs s) a c h1" "full_slabs s' = upd2 (full_slabs s) a c sl"
    "os_log s' = os_log s" "pool_chunks s' = pool_chunks s" "page_bins s' = page_bins s"
    "page_nonempty s' = page_nonempty s" "page_cache_total_bytes s' = page_cache_total_bytes s"
    "pending_returns s' = pending_returns s" "env s' = env s"
    by (simp_all add: s'_def push_full_def remove_partial_def mv(1,2))
  have li2: "listed ?V a' c' = listed V a' c'" for a' c' by (auto simp: listed_def P)
  have inS: "z \<in> slabs V" if "z \<in> set (xs @ sl # ys) \<union> set (vF V a c)" for z
    using that in_slabs [of z V a c] by (auto simp: P)
  have eq: "mem s' x = mem s x" if "x \<notin> (\<Union>z \<in> slabs V. link_cells z)" for x
    unfolding s'(1) by (rule mv(5)) (use that inS in blast)
  have lo: "lists_ok s' ?V"
    unfolding lists_ok_def s'
  proof (intro allI)
    fix a' c'
    show "dlist m2 (vP ?V a' c') (upd2 (partial_slabs s) a c h1 a' c') \<and> dlist m2 (vF ?V a' c') (upd2 (full_slabs s) a c sl a' c')
        \<and> set (vP ?V a' c') \<inter> set (vF ?V a' c') = {}"
    proof (cases "a' = a \<and> c' = c")
      case True
      have "distinct (xs @ sl # ys)" using d1 by (simp add: dlist_def)
      then show ?thesis using True mv(3,4) disj by auto
    next
      case False
      have dj: "listed V a' c' \<inter> (set (xs @ sl # ys) \<union> set (vF V a c)) = {}"
      proof -
        have "set (xs @ sl # ys) \<union> set (vF V a c) = listed V a c" by (simp add: listed_def P)
        then show ?thesis using listed_unique [OF sok, of _ a c a' c'] False by blast
      qed
      have al: "z mod 16 = 0" if "z \<in> set (xs @ sl # ys) \<union> set (vF V a c)" for z
        using that dlist_aligned [OF d1] dlist_aligned [OF li(2)] by blast
      have "dlist m2 (vP V a' c') (partial_slabs s a' c')" "dlist m2 (vF V a' c') (full_slabs s a' c')"
        by (rule dlist_other [where A = "set (xs @ sl # ys) \<union> set (vF V a c)"];
            use li mv(5) al dj in \<open>auto simp: listed_def\<close>)+
      then show ?thesis using False li(3) [of a' c'] by auto
    qed
  qed
  have fi: "filling_ok X (mem s) ?V"
    unfolding filling_ok_def
  proof (intro allI conjI ballI)
    fix a' c' z assume z: "z \<in> set (vP ?V a' c') - X"
    have "distinct (xs @ sl # ys)" using d1 by (simp add: dlist_def)
    moreover have "sl \<notin> set (vP V a' c')" if "\<not> (a' = a \<and> c' = c)"
      using listed_unique [OF sok, of sl a c a' c'] sl that by (auto simp: listed_def)
    ultimately have "z \<in> set (vP V a' c') - insert sl X" using z P by (auto split: if_splits)
    then show "slab_free_blocks (mem s) z \<noteq> 0" using gh_okD(5) [OF ok] unfolding filling_ok_def by blast
  next
    fix a' c' z assume z: "z \<in> set (vF ?V a' c') - X"
    then have "z = sl \<or> z \<in> set (vF V a' c') - insert sl X" by (auto split: if_splits)
    then show "slab_free_blocks (mem s) z = 0" using gh_okD(5) [OF ok] full unfolding filling_ok_def by blast
  qed
  note re = relink [where D = "{}", OF spec ok eq s'(4-9) _ _ _ _ _ lo fi, simplified, OF li2]
  show ?thesis
    by (rule exI [of _ ?V]) (use re s'(10) li2 in \<open>simp_all add: slabs_def silent_def\<close>)
qed

lemma move_to_partial:
  assumes spec: "os_spec api" and ok: "gh_ok api (insert sl X) s V" and sl: "sl \<in> set (vF V a c)"
    and some: "slab_free_blocks (mem s) sl \<noteq> 0"
  defines "s' \<equiv> push_partial a c sl (remove_full a c sl s)"
  shows "\<exists>V'. silent api X s V s' V' \<and> slabs V' = slabs V \<and> sl \<in> set (vP V' a c)"
proof -
  obtain xs ys where P: "vF V a c = xs @ sl # ys" using sl by (auto simp: in_set_conv_decomp)
  note li = lists_okD [OF gh_okD(3) [OF ok]] and sok = gh_okD(2) [OF ok]
  have d1: "dlist (mem s) (xs @ sl # ys) (full_slabs s a c)" using li(2) [of a c] by (simp add: P)
  have disj: "set (xs @ sl # ys) \<inter> set (vP V a c) = {}" using li(3) [of a c] unfolding P by blast
  obtain h1 m1 m2 where mv: "RemoveSlab (full_slabs s a c) sl (mem s) = (h1, m1)"
    "PushSlab (partial_slabs s a c) sl m1 = (sl, m2)" "dlist m2 (xs @ ys) h1" "dlist m2 (sl # vP V a c) sl"
    "\<And>x. x \<notin> (\<Union>z \<in> set (xs @ sl # ys) \<union> set (vP V a c). link_cells z) \<Longrightarrow> m2 x = mem s x"
    using move_mem [OF d1 li(1) [of a c] disj] by blast
  let ?V = "V\<lparr>vF := upd2 (vF V) a c (xs @ ys), vP := upd2 (vP V) a c (sl # vP V a c)\<rparr>"
  have s': "mem s' = m2" "full_slabs s' = upd2 (full_slabs s) a c h1" "partial_slabs s' = upd2 (partial_slabs s) a c sl"
    "os_log s' = os_log s" "pool_chunks s' = pool_chunks s" "page_bins s' = page_bins s"
    "page_nonempty s' = page_nonempty s" "page_cache_total_bytes s' = page_cache_total_bytes s"
    "pending_returns s' = pending_returns s" "env s' = env s"
    by (simp_all add: s'_def push_partial_def remove_full_def mv(1,2))
  have li2: "listed ?V a' c' = listed V a' c'" for a' c' by (auto simp: listed_def P)
  have inS: "z \<in> slabs V" if "z \<in> set (xs @ sl # ys) \<union> set (vP V a c)" for z
    using that in_slabs [of z V a c] by (auto simp: P)
  have eq: "mem s' x = mem s x" if "x \<notin> (\<Union>z \<in> slabs V. link_cells z)" for x
    unfolding s'(1) by (rule mv(5)) (use that inS in blast)
  have lo: "lists_ok s' ?V"
    unfolding lists_ok_def s'
  proof (intro allI)
    fix a' c'
    show "dlist m2 (vP ?V a' c') (upd2 (partial_slabs s) a c sl a' c') \<and> dlist m2 (vF ?V a' c') (upd2 (full_slabs s) a c h1 a' c')
        \<and> set (vP ?V a' c') \<inter> set (vF ?V a' c') = {}"
    proof (cases "a' = a \<and> c' = c")
      case True
      have "distinct (xs @ sl # ys)" using d1 by (simp add: dlist_def)
      then show ?thesis using True mv(3,4) disj by auto
    next
      case False
      have dj: "listed V a' c' \<inter> (set (xs @ sl # ys) \<union> set (vP V a c)) = {}"
      proof -
        have "set (xs @ sl # ys) \<union> set (vP V a c) = listed V a c" by (auto simp: listed_def P)
        then show ?thesis using listed_unique [OF sok, of _ a c a' c'] False by blast
      qed
      have al: "z mod 16 = 0" if "z \<in> set (xs @ sl # ys) \<union> set (vP V a c)" for z
        using that dlist_aligned [OF d1] dlist_aligned [OF li(1)] by blast
      have "dlist m2 (vF V a' c') (full_slabs s a' c')" "dlist m2 (vP V a' c') (partial_slabs s a' c')"
        by (rule dlist_other [where A = "set (xs @ sl # ys) \<union> set (vP V a c)"];
            use li mv(5) al dj in \<open>auto simp: listed_def\<close>)+
      then show ?thesis using False li(3) [of a' c'] by auto
    qed
  qed
  have fi: "filling_ok X (mem s) ?V"
    unfolding filling_ok_def
  proof (intro allI conjI ballI)
    fix a' c' z assume z: "z \<in> set (vP ?V a' c') - X"
    then have "z = sl \<or> z \<in> set (vP V a' c') - insert sl X" by (auto split: if_splits)
    then show "slab_free_blocks (mem s) z \<noteq> 0" using gh_okD(5) [OF ok] some unfolding filling_ok_def by blast
  next
    fix a' c' z assume z: "z \<in> set (vF ?V a' c') - X"
    have "distinct (xs @ sl # ys)" using d1 by (simp add: dlist_def)
    moreover have "sl \<notin> set (vF V a' c')" if "\<not> (a' = a \<and> c' = c)"
      using listed_unique [OF sok, of sl a c a' c'] sl that by (auto simp: listed_def)
    ultimately have "z \<in> set (vF V a' c') - insert sl X" using z P by (auto split: if_splits)
    then show "slab_free_blocks (mem s) z = 0" using gh_okD(5) [OF ok] unfolding filling_ok_def by blast
  qed
  note re = relink [where D = "{}", OF spec ok eq s'(4-9) _ _ _ _ _ lo fi, simplified, OF li2]
  show ?thesis
    by (rule exI [of _ ?V]) (use re s'(10) li2 in \<open>simp_all add: slabs_def silent_def\<close>)
qed

section \<open>Slabs and the page cache\<close>

text \<open>The fields of the global heap are outside the page cache's reach.\<close>

definition gh_frame :: "'a gh_state_scheme \<Rightarrow> 'a gh_state_scheme \<Rightarrow> bool" where
  "gh_frame s s' \<longleftrightarrow> partial_slabs s' = partial_slabs s \<and> full_slabs s' = full_slabs s
     \<and> pending_returns s' = pending_returns s \<and> env s' = env s"

lemma gh_frame_refl [simp]: "gh_frame s s"
  by (simp add: gh_frame_def)

lemma gh_frame_trans: "gh_frame r s \<Longrightarrow> gh_frame s t \<Longrightarrow> gh_frame r t"
  by (simp add: gh_frame_def)

lemma gh_frame_os: "os_frame s s' \<Longrightarrow> gh_frame s s'"
  by (auto simp: os_frame_def gh_frame_def)

lemma gh_frame_parts [simp]:
  "gh_frame s (cache_bytes_sub n s)" "gh_frame s (cache_bytes_add n s)" "gh_frame s (count_stats f s)"
  "gh_frame s (MarkMaybeEmpty p s)" "gh_frame s (MarkNonEmpty p s)" "gh_frame s (s\<lparr>mem := m\<rparr>)"
  "gh_frame s (bin_push p x s)" "gh_frame s (upd_mem g s)"
  by (simp_all add: gh_frame_def cache_bytes_sub_def cache_bytes_add_def count_stats_def
      MarkMaybeEmpty_def MarkNonEmpty_def bin_push_def Let_def upd_mem_def)

lemma gh_frame_iff [simp]:
  "gh_frame r (cache_bytes_sub n s) = gh_frame r s" "gh_frame r (cache_bytes_add n s) = gh_frame r s"
  "gh_frame r (count_stats f s) = gh_frame r s" "gh_frame r (bin_push p x s) = gh_frame r s"
  by (simp_all add: gh_frame_def cache_bytes_sub_def cache_bytes_add_def count_stats_def
      MarkNonEmpty_def bin_push_def Let_def)

lemma gh_frame_fields:
  assumes "gh_frame s s'"
  shows "partial_slabs s' = partial_slabs s" "full_slabs s' = full_slabs s"
    "pending_returns s' = pending_returns s" "env s' = env s"
  using assms by (simp_all add: gh_frame_def)

lemma gh_frame_bin_pop: "bin_pop p s = (x, s') \<Longrightarrow> gh_frame s s'"
  by (auto simp: bin_pop_def Let_def gh_frame_def MarkMaybeEmpty_def split: if_splits)

lemma gh_frame_split: "split_span api sz k p s = (x, s') \<Longrightarrow> gh_frame s s'"
  using gh_frame_bin_pop [of p s] by (auto simp: split_span_def Let_def split: prod.splits if_splits)

lemma gh_frame_best_fit: "best_fit api sz k p s = (x, s') \<Longrightarrow> gh_frame s s'"
proof (induction api sz k p s rule: best_fit.induct)
  case (1 api sz k p s)
  show ?case
  proof (cases "p \<noteq> 0 \<and> pb_head (page_bins s p) = 0")
    case True
    let ?t = "MarkMaybeEmpty p s"
    have "best_fit api sz k (FirstNonEmptyAbove p (page_nonempty ?t)) ?t = (x, s')"
      using "1.prems" True by (subst (asm) best_fit.simps) (simp add: Let_def)
    then have "gh_frame ?t s'" using "1.IH" True by simp
    then show ?thesis by (rule gh_frame_trans [OF gh_frame_parts(4)])
  next
    case False
    then show ?thesis using "1.prems" gh_frame_split
      by (subst (asm) best_fit.simps) (auto split: if_splits)
  qed
qed

lemma gh_frame_PageHeapAllocate:
  assumes "PageHeapAllocate api n s = (x, s')"
  shows "gh_frame s s'"
proof -
  have al: "gh_frame t (snd (AllocatePages api n t))" for t :: "'a gh_state_scheme"
    by (rule gh_frame_os [OF AllocatePages_frame])
  define k where "k = n div GetPageSize api"
  consider "k \<le> MAX_CACHED_PAGES" "0 < k" "pb_head (page_bins s k) \<noteq> 0"
    | "k \<le> MAX_CACHED_PAGES" "0 < k" "pb_head (page_bins s k) = 0" | "\<not> (k \<le> MAX_CACHED_PAGES \<and> 0 < k)" by blast
  then show ?thesis
  proof cases
    case 1
    obtain y u where p: "bin_pop k s = (y, u)" by fastforce
    have "gh_frame s (count_stats CountPageCacheHit (cache_bytes_sub n u))"
      using gh_frame_trans [OF gh_frame_trans [OF gh_frame_bin_pop [OF p] gh_frame_parts(1)] gh_frame_parts(3)] .
    moreover from this have "gh_frame s (snd (AllocatePages api n (count_stats CountPageCacheHit (cache_bytes_sub n u))))"
      using gh_frame_trans al by blast
    ultimately show ?thesis
      using assms 1 p by (auto simp: PageHeapAllocate_def Let_def k_def [symmetric] split: if_splits)
  next
    case 2
    obtain y u where b: "best_fit api n k (FirstNonEmptyAbove k (page_nonempty s)) s = (y, u)" by fastforce
    note f = gh_frame_best_fit [OF b]
    then show ?thesis
      using assms 2 b gh_frame_trans [OF f al]
      by (auto simp: PageHeapAllocate_def Let_def k_def [symmetric] split: if_splits)
  next
    case 3
    then have "AllocatePages api n s = (x, s')"
      using assms by (auto simp: PageHeapAllocate_def Let_def k_def [symmetric] split: if_splits)
    then show ?thesis using al [of s] by simp
  qed
qed

lemma gh_frame_PageHeapFree: "gh_frame s (PageHeapFree api p n s)"
proof -
  have fr: "gh_frame t (FreePages api p n t)" for t :: "'a gh_state_scheme" by (rule gh_frame_os [OF FreePages_frame])
  have "gh_frame s (FreePages api p n (count_stats f (cache_bytes_sub n (cache_bytes_add n s))))" for f
    using gh_frame_trans [OF gh_frame_trans [OF gh_frame_trans [OF gh_frame_parts(2) gh_frame_parts(1)] gh_frame_parts(3)] fr] .
  moreover have "gh_frame s (count_stats f (bin_push k p (cache_bytes_add n s)))" for f k
    using gh_frame_trans [OF gh_frame_trans [OF gh_frame_parts(2) gh_frame_parts(7)] gh_frame_parts(3)] .
  ultimately show ?thesis using fr by (simp add: PageHeapFree_def Let_def)
qed

text \<open>
  A step below that keeps the slabs' memory and ownership and does not file any of their pages.
\<close>

lemma heap_below:
  assumes ok: "gh_ok api X s V" and fr: "gh_frame s s'" and ph: "ph_ok api s' L'"
    and m: "\<And>sl a. sl \<in> slabs V \<Longrightarrow> a \<in> slab_range (mem s) sl \<Longrightarrow> mem s' a = mem s a"
    and own: "\<And>sl. sl \<in> slabs V \<Longrightarrow> span_owned api s' sl (slab_memory_size (mem s) sl)"
    and nc: "\<And>sl. sl \<in> slabs V \<Longrightarrow> slab_range (mem s) sl \<inter> cached_cells api L' = {}"
  shows "gh_ok api X s' (V\<lparr>vL := L'\<rparr>)" "client (V\<lparr>vL := L'\<rparr>) (mem s') = client V (mem s)"
    "kept (client V (mem s)) (mem s) (mem s')" "\<And>sl. sl \<in> slabs V \<Longrightarrow> same_header (mem s) (mem s') sl"
proof -
  let ?V = "V\<lparr>vL := L'\<rparr>"
  have V: "listed ?V a c = listed V a c" "slabs ?V = slabs V" "queued ?V = queued V" for a c
    by (simp_all add: listed_def slabs_def queued_def)
  note good = gh_good [OF ok] and f = gh_frame_fields [OF fr]
  have ok': "slab_ok (mem s') sl (vfl V sl)" and sh: "same_header (mem s) (mem s') sl" if "sl \<in> slabs V" for sl
    using slab_ok_frame [OF slab_good_geom(2) [OF good [OF that]], of "mem s'"] m [OF that] by blast+
  show "\<And>sl. sl \<in> slabs V \<Longrightarrow> same_header (mem s) (mem s') sl" by (rule sh)
  note he = same_headerD [OF sh]
  note ge = same_geomD [OF same_headerD(1) [OF sh]]
  have good': "slab_good api s' L' sl (vfl V sl)" if "sl \<in> slabs V" for sl
    using good [OF that] ok' [OF that] ge [OF that] he(7) [OF that] own [OF that] nc [OF that] by (simp add: slab_good_def)
  have "slabs_ok api s' ?V"
    unfolding slabs_ok_def V using good' slabs_okD(2) [OF gh_okD(2) [OF ok]] slabs_ok_disj [OF gh_okD(2) [OF ok]] he(7) ge
    by auto
  moreover have "lists_ok s' ?V"
  proof -
    have "mem s' sl = mem s sl \<and> mem s' (sl + 8) = mem s (sl + 8)" if "sl \<in> slabs V" for sl
      using m [OF that] slab_good_geom(4,5) [OF good [OF that]] by blast
    then have "dlist (mem s') (vP V a c) h = dlist (mem s) (vP V a c) h"
      "dlist (mem s') (vF V a c) h = dlist (mem s) (vF V a c) h" for a c h
      using in_slabs(1,2) by (intro dlist_cong; blast)+
    then show ?thesis using gh_okD(3) [OF ok] by (simp add: lists_ok_def f)
  qed
  moreover have clink: "mem s' a = mem s a" if "sl \<in> slabs V" "b \<in> slab_out (mem s) sl (vfl V sl)" "a \<in> bcells (mem s) b" for sl b a
    using m [OF that(1)] out_bcells(2) [OF good [OF that(1)] that(2)] that(3) by blast
  have "queues_ok s' ?V"
    unfolding queues_ok_def V f
  proof (intro allI conjI ballI)
    fix a c
    have "mem s' (b + 16) = mem s (b + 16)" if "b \<in> set (vQ V a c)" for b
    proof -
      have "b \<in> queued V" using that by (auto simp: queued_def)
      then obtain sl where sl: "sl \<in> slabs V" "b \<in> slab_out (mem s) sl (vfl V sl)" using queued_slab [OF ok] by blast
      show ?thesis by (rule clink [OF sl out_bcells(5) [OF good [OF sl(1)] sl(2)]])
    qed
    then show "chain (fb_next (mem s')) (pending_returns s a c) (vQ ?V a c)"
      using gh_okD(4) [OF ok] fb_chain_cong [of "vQ V a c" "mem s'" "mem s"] by (simp add: queues_ok_def)
    fix b assume "b \<in> set (vQ ?V a c)"
    then have "b \<in> set (vQ V a c)" by simp
    then obtain sl where sl: "sl \<in> listed V a c" "b \<in> slab_out (mem s) sl (vfl V sl)"
      using gh_okD(4) [OF ok] unfolding queues_ok_def by blast
    then show "\<exists>sl \<in> listed V a c. b \<in> slab_out (mem s') sl (vfl ?V sl)" using he(6) in_slabs(3) by auto
  qed
  moreover have "filling_ok X (mem s') V" using filling_ok_cong [OF he(2) gh_okD(5) [OF ok]] by blast
  then have "filling_ok X (mem s') ?V" by (simp add: filling_ok_def)
  ultimately show "gh_ok api X s' ?V" using ph by (simp add: gh_ok_def)
  show "client ?V (mem s') = client V (mem s)" unfolding client_def V using he(6) by simp
  show "kept (client V (mem s)) (mem s) (mem s')"
    by (rule client_keptI [OF ok order_refl same_headerD(1) [OF sh]])
       (use clink in \<open>auto elim!: clientE\<close>)
qed

end
