(* ===== verification/FA_HeapOps.thy ===== *)
theory FA_HeapOps
  imports FA_HeapInv
begin

text \<open>
  The operations of \<^verbatim>\<open>GlobalHeap\<close> keep the invariant and account for every block: releasing
  and creating slabs, returning a list of blocks, draining queues, handing lists over, and the
  three phases of a refill. Every lemma says what happens to the set of blocks outside the heap,
  that all other such blocks keep their contents, and that the operation returns (\<open>Some\<close>).
\<close>

section \<open>Releasing an empty slab\<close>

lemma empty_slab_out:
  assumes ok: "slab_ok m sl fl" and e: "Slab_IsEmpty m sl"
  shows "slab_out m sl fl = {}"
proof -
  have fin: "finite (slab_blocks m sl)" by (simp add: slab_blocks_def)
  have "card (slab_blocks m sl) \<le> slab_total_blocks m sl"
    unfolding slab_blocks_def using card_image_le [of "{..<slab_total_blocks m sl}"] by simp
  also have "\<dots> = card (slab_free m sl fl)" using e slab_free_card [OF ok] by (simp add: Slab_IsEmpty_def)
  finally have "slab_free m sl fl = slab_blocks m sl"
    using card_seteq [OF fin slab_free_subset [OF ok]] by simp
  then show ?thesis by (simp add: slab_out_def)
qed

lemma lists_disjoint:
  assumes "slabs_ok api s V" "lists_ok s V"
  shows "set (vF V a' c') \<inter> set (vP V a c) = {}"
    "\<not> (a' = a \<and> c' = c) \<Longrightarrow> set (vP V a' c') \<inter> set (vP V a c) = {}"
proof -
  have u: "a' = a \<and> c' = c" if "z \<in> listed V a' c'" "z \<in> listed V a c" for z
    using listed_unique [OF assms(1) that(2,1)] .
  have "set (vP V a c) \<inter> set (vF V a c) = {}" by (rule lists_okD(3) [OF assms(2)])
  then show "set (vF V a' c') \<inter> set (vP V a c) = {}" using u unfolding listed_def by blast
  show "set (vP V a' c') \<inter> set (vP V a c) = {}" if "\<not> (a' = a \<and> c' = c)"
    using u that unfolding listed_def by blast
qed

lemma remove_slab:
  assumes spec: "os_spec api" and ok: "gh_ok api (insert sl X) s V" and sl: "sl \<in> set (vP V a c)"
    and e: "slab_out (mem s) sl (vfl V sl) = {}"
  defines "s' \<equiv> remove_partial a c sl s"
  obtains V' where "gh_ok api X s' V'" "vQ V' = vQ V" "vL V' = vL V" "vfl V' = vfl V" "slabs V' = slabs V - {sl}"
    "client V' (mem s') = client V (mem s)" "kept (client V (mem s)) (mem s) (mem s')" "env s' = env s"
    "\<And>z. z \<in> slabs V \<Longrightarrow> same_header (mem s) (mem s') z" "os_log s' = os_log s" "pool_chunks s' = pool_chunks s"
    "spared api {} s V s' V'"
proof -
  obtain xs ys where P: "vP V a c = xs @ sl # ys" using sl by (auto simp: in_set_conv_decomp)
  note li = lists_okD [OF gh_okD(3) [OF ok]] and sok = gh_okD(2) [OF ok]
  have d1: "dlist (mem s) (xs @ sl # ys) (partial_slabs s a c)" using li(1) [of a c] by (simp add: P)
  have dist: "distinct (xs @ sl # ys)" using d1 by (simp add: dlist_def)
  have slP: "sl \<notin> set (vP V a' c')" if "\<not> (a' = a \<and> c' = c)" for a' c'
    using listed_unique [OF sok, of sl a c a' c'] sl that by (auto simp: listed_def)
  have slF: "sl \<notin> set (vF V a' c')" for a' c'
    using listed_unique [OF sok, of sl a c a' c'] sl li(3) [of a c] by (auto simp: listed_def)
  obtain h m where rm: "RemoveSlab (partial_slabs s a c) sl (mem s) = (h, m)" "dlist m (xs @ ys) h"
    "\<And>x. x \<notin> (\<Union>z \<in> set (xs @ sl # ys). link_cells z) \<Longrightarrow> m x = mem s x"
    using RemoveSlab_dlist [OF d1] by blast
  let ?V = "V\<lparr>vP := upd2 (vP V) a c (xs @ ys)\<rparr>"
  have s': "mem s' = m" "partial_slabs s' = upd2 (partial_slabs s) a c h" "full_slabs s' = full_slabs s"
    "os_log s' = os_log s" "pool_chunks s' = pool_chunks s" "page_bins s' = page_bins s"
    "page_nonempty s' = page_nonempty s" "page_cache_total_bytes s' = page_cache_total_bytes s"
    "pending_returns s' = pending_returns s" "env s' = env s"
    by (simp_all add: s'_def remove_partial_def rm(1))
  have li2: "listed ?V a' c' = listed V a' c' - {sl}" for a' c'
    using dist slP [of a' c'] slF [of a' c'] by (auto simp: listed_def P split: if_splits)
  have inS: "z \<in> slabs V" if "z \<in> set (xs @ sl # ys)" for z
    using that in_slabs(1) [of z V a c] by (simp add: P)
  have eq: "mem s' x = mem s x" if "x \<notin> (\<Union>z \<in> slabs V. link_cells z)" for x
    unfolding s'(1) by (rule rm(3)) (use that inS in blast)
  have al: "z mod 16 = 0" if "z \<in> set (xs @ sl # ys)" for z using dlist_aligned [OF d1 that] .
  have lo: "lists_ok s' ?V"
    unfolding lists_ok_def s'
  proof (intro allI)
    fix a' c'
    have F: "dlist m (vF V a' c') (full_slabs s a' c')"
    proof (rule dlist_other [OF li(2), where A = "set (xs @ sl # ys)"])
      show "set (vF V a' c') \<inter> set (xs @ sl # ys) = {}"
        using lists_disjoint(1) [OF sok gh_okD(3) [OF ok], of a' c' a c] unfolding P .
    qed (use rm(3) al in blast)+
    show "dlist m (vP ?V a' c') (upd2 (partial_slabs s) a c h a' c') \<and> dlist m (vF ?V a' c') (full_slabs s a' c')
        \<and> set (vP ?V a' c') \<inter> set (vF ?V a' c') = {}"
    proof (cases "a' = a \<and> c' = c")
      case True
      then show ?thesis using rm(2) F li(3) [of a c] P by auto
    next
      case False
      have "dlist m (vP V a' c') (partial_slabs s a' c')"
      proof (rule dlist_other [OF li(1), where A = "set (xs @ sl # ys)"])
        show "set (vP V a' c') \<inter> set (xs @ sl # ys) = {}"
          using lists_disjoint(2) [OF sok gh_okD(3) [OF ok] False] unfolding P .
      qed (use rm(3) al in blast)+
      then show ?thesis using False F li(3) [of a' c'] by auto
    qed
  qed
  have fi: "filling_ok X (mem s) ?V"
    unfolding filling_ok_def
  proof (intro allI conjI ballI)
    fix a' c' z assume z: "z \<in> set (vP ?V a' c') - X"
    then have "z \<in> set (vP V a' c') - insert sl X" using dist slP [of a' c'] P by (auto split: if_splits)
    then show "slab_free_blocks (mem s) z \<noteq> 0" using gh_okD(5) [OF ok] unfolding filling_ok_def by blast
  next
    fix a' c' z assume z: "z \<in> set (vF ?V a' c') - X"
    then have "z \<in> set (vF V a' c') - insert sl X" using slF by auto
    then show "slab_free_blocks (mem s) z = 0" using gh_okD(5) [OF ok] unfolding filling_ok_def by blast
  qed
  note re = relink [where D = "{sl}", OF spec ok eq s'(4-9) _ _ _ li2 _ lo fi, simplified, OF e]
  show thesis
    by (rule that [of ?V]) (use re s'(4,5,10) li2 in \<open>simp_all add: slabs_def\<close>)
qed

lemma slab_in_ph_used:
  assumes "slab_good api s L sl fl"
  shows "slab_range (mem s) sl \<subseteq> ph_used api s L"
  using assms by (auto simp: slab_good_def span_owned_def slab_range_def ph_used_def)

lemma gh_ok_count_stats [simp]: "gh_ok api X (count_stats f s) V = gh_ok api X s V"
proof -
  have "span_owned api (count_stats f s) p n = span_owned api s p n" for p n
    using os_cong(3) [of "count_stats f s" s] by simp
  then show ?thesis
    using ph_core_counters(3) [of api f s "vL V"]
    by (simp add: gh_ok_def ph_ok_def slabs_ok_def slab_good_def lists_ok_def queues_ok_def)
       (simp add: count_stats_def)
qed

lemma same_header_size: "same_header m m' sl \<Longrightarrow> slab_memory_size m' sl = slab_memory_size m sl"
  using same_geomD(6) [OF same_headerD(1)] .

lemma ext_cong:
  assumes "mem s' = mem s" "os_log s' = os_log s" "pool_chunks s' = pool_chunks s" "vL V' = vL V" "slabs V' = slabs V"
  shows "ext api s' V' p n = ext api s V p n"
  using os_cong(3) [OF assms(2,3)] by (simp add: ext_def assms)

lemma spared_same:
  assumes "mem s' = mem s" "os_log s' = os_log s" "pool_chunks s' = pool_chunks s" "vL V' = vL V" "slabs V' = slabs V"
  shows "spared api R s V s' V'"
  using ext_cong [OF assms] by (simp add: spared_def assms(1))

lemma spared_count_stats [simp]:
  "spared api R s V (count_stats f s') V' = spared api R s V s' V'"
  "ext api (count_stats f s') V' p n = ext api s' V' p n"
proof -
  have e: "ext api (count_stats f s') V' p n = ext api s' V' p n" for p n
    using os_cong(3) [of "count_stats f s'" s'] by (simp add: ext_def)
  then show "spared api R s V (count_stats f s') V' = spared api R s V s' V'" "ext api (count_stats f s') V' p n = ext api s' V' p n"
    by (simp_all add: spared_def)
qed

lemma ext_used: "ext api s V p n \<Longrightarrow> {p..<p + n} \<subseteq> ph_used api s (vL V)"
  by (auto simp: ext_def span_owned_def ph_used_def)

text \<open>A step of the page heap below keeps what it does not release.\<close>

lemma spared_below:
  assumes use: "ph_used api s (vL V) - R \<subseteq> ph_used api s' L'"
    and m: "\<And>a. a \<in> ph_used api s (vL V) - R \<Longrightarrow> mem s' a = mem s a"
    and own: "\<And>p n. span_owned api s p n \<Longrightarrow> {p..<p + n} \<inter> R = {} \<Longrightarrow> span_owned api s' p n"
    and V': "vL V' = L'" "\<And>sl. sl \<in> slabs V' \<Longrightarrow> sl \<in> slabs V \<and> slab_range (mem s') sl = slab_range (mem s) sl"
  shows "spared api R s V s' V'"
  unfolding spared_def
proof (intro allI impI)
  fix p n assume e: "ext api s V p n \<and> {p..<p + n} \<inter> R = {}"
  then have sub: "{p..<p + n} \<subseteq> ph_used api s (vL V) - R" using ext_used [of api s V p n] by blast
  then have "{p..<p + n} \<subseteq> ph_used api s' L'" using use by blast
  then have "{p..<p + n} \<inter> cached_cells api L' = {}" by (auto simp: ph_used_def)
  then have "ext api s' V' p n" using e own V' unfolding ext_def by blast
  then show "ext api s' V' p n \<and> (\<forall>a \<in> {p..<p + n}. mem s' a = mem s a)" using m sub by blast
qed

lemma ph_release_spared:
  assumes "ph_release api s (vL V) R s' L'" "gh_ok api X s V"
    and "\<And>sl. sl \<in> slabs V \<Longrightarrow> slab_range (mem s) sl \<inter> R = {}"
  shows "spared api R s V s' (V\<lparr>vL := L'\<rparr>)"
proof (rule spared_below)
  show "ph_used api s (vL V) - R \<subseteq> ph_used api s' L'" "\<And>a. a \<in> ph_used api s (vL V) - R \<Longrightarrow> mem s' a = mem s a"
    "\<And>p n. span_owned api s p n \<Longrightarrow> {p..<p + n} \<inter> R = {} \<Longrightarrow> span_owned api s' p n"
    using assms(1) unfolding ph_release_def by blast+
  fix sl assume "sl \<in> slabs (V\<lparr>vL := L'\<rparr>)"
  then have sl: "sl \<in> slabs V" by (simp add: slabs_def listed_def)
  have "same_header (mem s) (mem s') sl"
    using slab_ok_frame(2) [OF slab_good_geom(2) [OF gh_good [OF assms(2) sl]], of "mem s'"] assms(1) assms(3) [OF sl]
    unfolding ph_release_def by blast
  then show "sl \<in> slabs V \<and> slab_range (mem s') sl = slab_range (mem s) sl" using sl same_headerD(7) by blast
qed simp

lemma release_slab:
  assumes spec: "os_spec api" and ok: "gh_ok api (insert sl X) s V" and sl: "sl \<in> set (vP V a c)"
    and e: "Slab_IsEmpty (mem s) sl"
  defines "s1 \<equiv> remove_partial a c sl s"
  defines "s' \<equiv> count_stats (CountOsFree (slab_memory_size (mem s1) sl)) (PageHeapFree api sl (slab_memory_size (mem s1) sl) s1)"
  shows "\<exists>V'. silent api X s V s' V'"
proof -
  have slV: "sl \<in> slabs V" using sl by (rule in_slabs(1))
  note good = gh_good [OF ok]
  have out: "slab_out (mem s) sl (vfl V sl) = {}" by (rule empty_slab_out [OF slab_good_geom(2) [OF good [OF slV]] e])
  obtain V1 where V1: "gh_ok api X s1 V1" "vQ V1 = vQ V" "vL V1 = vL V" "vfl V1 = vfl V" "slabs V1 = slabs V - {sl}"
    "client V1 (mem s1) = client V (mem s)" "kept (client V (mem s)) (mem s) (mem s1)" "env s1 = env s"
    "\<And>z. z \<in> slabs V \<Longrightarrow> same_header (mem s) (mem s1) z" "os_log s1 = os_log s" "pool_chunks s1 = pool_chunks s"
    "spared api {} s V s1 V1"
    unfolding s1_def using remove_slab [OF spec ok sl out] by blast
  let ?n = "slab_memory_size (mem s) sl"
  have n: "slab_memory_size (mem s1) sl = ?n" by (rule same_header_size [OF V1(9) [OF slV]])
  have rng: "slab_range (mem s1) z = slab_range (mem s) z" if "z \<in> slabs V" for z
    using same_header_size [OF V1(9) [OF that]] by (simp add: slab_range_def)
  have R: "slab_range (mem s) sl = {sl..<sl + ?n}" by (simp add: slab_range_def)
  have own: "span_owned api s1 sl ?n" "span_ok api sl ?n" "{sl..<sl + ?n} \<inter> cached_cells api (vL V1) = {}"
    using good [OF slV] os_cong(3) [OF V1(10,11)] by (simp_all add: slab_good_def V1(3) R)
  obtain L' where L': "ph_release api s1 (vL V1) {sl..<sl + ?n} (PageHeapFree api sl ?n s1) L'"
    using PageHeapFree_release [OF spec gh_okD(1) [OF V1(1)] own] by blast
  let ?s2 = "PageHeapFree api sl ?n s1"
  have away: "slab_range (mem s1) z \<inter> {sl..<sl + ?n} = {}" if "z \<in> slabs V1" for z
    using slabs_ok_disj [OF gh_okD(2) [OF ok], of z sl] that slV rng [of z] R by (auto simp: V1(5))
  have ph: "ph_ok api ?s2 L'" using L' by (simp add: ph_release_def)
  have m: "mem ?s2 x = mem s1 x" if "z \<in> slabs V1" "x \<in> slab_range (mem s1) z" for z x
    using L' away [OF that(1)] that(2) unfolding ph_release_def by blast
  have so: "span_owned api ?s2 z (slab_memory_size (mem s1) z)" if "z \<in> slabs V1" for z
    using L' gh_good [OF V1(1) that] away [OF that] unfolding ph_release_def slab_good_def slab_range_def by blast
  have nc: "slab_range (mem s1) z \<inter> cached_cells api L' = {}" if "z \<in> slabs V1" for z
  proof -
    have "slab_range (mem s1) z \<subseteq> ph_used api ?s2 L'"
      using slab_in_ph_used [OF gh_good [OF V1(1) that]] away [OF that] L' unfolding ph_release_def by blast
    then show ?thesis by (auto simp: ph_used_def)
  qed
  note hb = heap_below [OF V1(1) gh_frame_PageHeapFree ph m so nc]
  have s': "s' = count_stats (CountOsFree ?n) ?s2" by (simp add: s'_def n)
  have "gh_ok api X s' (V1\<lparr>vL := L'\<rparr>)"
    using hb(1) by (simp add: s')
  moreover have "mem s' = mem ?s2" "env s' = env s"
    using gh_frame_PageHeapFree [of s1 api sl ?n] V1(8) by (simp_all add: s' count_stats_def gh_frame_def)
  moreover have "slabs (V1\<lparr>vL := L'\<rparr>) = slabs V1" by (simp add: slabs_def listed_def)
  moreover have "spared api {} s V s' (V1\<lparr>vL := L'\<rparr>)"
  proof -
    have "{p..<p + k} \<inter> {sl..<sl + ?n} = {}" if "ext api s V p k" for p k
      using that slV unfolding ext_def R [symmetric] by blast
    then have "spared api {} s V s1 V1 \<Longrightarrow> spared api {sl..<sl + ?n} s1 V1 s' (V1\<lparr>vL := L'\<rparr>) \<Longrightarrow> spared api {} s V s' (V1\<lparr>vL := L'\<rparr>)"
      unfolding spared_def by (metis Int_empty_right)
    then show ?thesis using V1(12) ph_release_spared [OF L' V1(1) away] by (simp add: s')
  qed
  ultimately have "silent api X s V s' (V1\<lparr>vL := L'\<rparr>)"
    using hb(2,3) V1(2,4,5,6,7) kept_trans [OF V1(7)] by (simp add: silent_def)
  then show ?thesis by blast
qed

section \<open>Returning blocks\<close>

text \<open>What an operation does to the set of blocks outside the heap.\<close>

definition accounts_but ::
  "nat set \<Rightarrow> os_api \<Rightarrow> 'a gh_state_scheme \<Rightarrow> view \<Rightarrow> addr set \<Rightarrow> addr set \<Rightarrow> 'a gh_state_scheme \<Rightarrow> view \<Rightarrow> bool" where
  "accounts_but R api s V gone come s' V' \<longleftrightarrow> gh_ok api {} s' V' \<and> env s' = env s
     \<and> client V' (mem s') = client V (mem s) - gone \<union> come
     \<and> kept (client V (mem s) - gone) (mem s) (mem s') \<and> spared api R s V s' V'"

abbreviation accounts where "accounts \<equiv> accounts_but {}"

lemmas accounts_def = accounts_but_def

lemma accounts_refl: "gh_ok api {} s V \<Longrightarrow> accounts api s V {} {} s V"
  by (simp add: accounts_def)

lemma accounts_spared: "accounts_but R api s V A B s' V' \<Longrightarrow> spared api R s V s' V'"
  by (simp add: accounts_def)

lemma accounts_drop:
  assumes "accounts_but R api s V A B s' V'" "\<And>p n. ext api s V p n \<Longrightarrow> {p..<p + n} \<inter> R = {}"
  shows "accounts api s V A B s' V'"
  using assms unfolding accounts_def spared_def by blast

lemma accounts_mono: "accounts_but R api s V A B s' V' \<Longrightarrow> R \<subseteq> R' \<Longrightarrow> accounts_but R' api s V A B s' V'"
  unfolding accounts_def using spared_mono by blast

lemma accounts_trans:
  assumes "accounts_but R api s V A B s1 V1" "accounts_but R api s1 V1 C D s2 V2" "B \<inter> (client V (mem s) - A) = {}"
  shows "accounts_but R api s V (A \<union> (C - B)) ((B - C) \<union> D) s2 V2"
proof -
  have "kept (client V (mem s) - (A \<union> (C - B))) (mem s) (mem s1)"
    using assms(1) by (auto simp: accounts_def intro: kept_mono)
  moreover have "kept (client V (mem s) - (A \<union> (C - B))) (mem s1) (mem s2)"
    by (rule kept_mono [of "client V1 (mem s1) - C"]) (use assms in \<open>auto simp: accounts_def\<close>)
  ultimately have "kept (client V (mem s) - (A \<union> (C - B))) (mem s) (mem s2)" by (rule kept_trans)
  moreover have "spared api R s V s2 V2"
    using spared_trans [OF accounts_spared [OF assms(1)] accounts_spared [OF assms(2)]] .
  ultimately show ?thesis using assms by (auto simp: accounts_def)
qed

lemma accounts_env: "accounts_but R api s V A B s' V' \<Longrightarrow> env s' = env s"
  by (simp add: accounts_def)

lemma accounts_lock: "accounts_but R api s V A B s' V' \<Longrightarrow> lock_busy s' = lock_busy s"
  using env_lock accounts_env by blast

lemma accounts_ok: "accounts_but R api s V A B s' V' \<Longrightarrow> gh_ok api {} s' V'"
  by (simp add: accounts_def)

lemma accounts_client: "accounts_but R api s V A B s' V' \<Longrightarrow> client V' (mem s') = client V (mem s) - A \<union> B"
  by (simp add: accounts_def)

lemma gone_trans:
  assumes "accounts_but R api s V A {} s1 V1" "accounts_but R api s1 V1 C {} s2 V2"
  shows "accounts_but R api s V (A \<union> C) {} s2 V2"
  using accounts_trans [OF assms] by simp

lemma filling_okD:
  assumes "gh_ok api {} s V" "sl \<in> listed V a c"
  shows "slab_free_blocks (mem s) sl = 0 \<Longrightarrow> sl \<in> set (vF V a c)"
    "slab_free_blocks (mem s) sl \<noteq> 0 \<Longrightarrow> sl \<in> set (vP V a c)"
proof -
  have P: "sl \<in> set (vP V a c) \<Longrightarrow> slab_free_blocks (mem s) sl \<noteq> 0"
    and F: "sl \<in> set (vF V a c) \<Longrightarrow> slab_free_blocks (mem s) sl = 0"
    using gh_okD(5) [OF assms(1)] unfolding filling_ok_def by blast+
  have l: "sl \<in> set (vP V a c) \<or> sl \<in> set (vF V a c)" using assms(2) by (simp add: listed_def)
  show "sl \<in> set (vF V a c)" if "slab_free_blocks (mem s) sl = 0" using P l that by blast
  show "sl \<in> set (vP V a c)" if "slab_free_blocks (mem s) sl \<noteq> 0" using F l that by blast
qed

lemma return_block_accounts:
  assumes spec: "os_spec api" and ok: "gh_ok api {} s V" and b: "b \<in> client V (mem s)"
    and ac: "fb_slab (mem s) b \<in> listed V a c"
  obtains V' where "accounts api s V {b} {} (return_block api a c b s) V'" "vQ V' = vQ V"
proof -
  define sl where "sl = fb_slab (mem s) b"
  define m1 where "m1 = Slab_Deallocate sl b (mem s)"
  define s1 where "s1 = s\<lparr>mem := m1\<rparr>"
  define V1 where "V1 = V\<lparr>vfl := (vfl V)(sl := b # vfl V sl)\<rparr>"
  note g = slab_give [OF ok b, folded sl_def, folded m1_def, folded V1_def s1_def]
  have m1: "mem s1 = m1" by (simp add: s1_def)
  have um: "upd_mem (Slab_Deallocate sl b) s = s1" by (simp add: upd_mem_def s1_def m1_def)
  have listsV1: "vP V1 = vP V" "vF V1 = vF V" "vQ V1 = vQ V" by (simp_all add: V1_def)
  note li = lists_okD(3) [OF gh_okD(3) [OF ok], of a c]
  have uniq: "\<And>a' c'. sl \<in> listed V a' c' \<Longrightarrow> a' = a \<and> c' = c"
    using listed_unique [OF gh_okD(2) [OF ok]] ac unfolding sl_def by blast
  obtain s2 V2 where s2: "s2 = (if Slab_IsFull (mem s) sl then push_partial a c sl (remove_full a c sl s1) else s1)"
    "gh_ok api {} s2 V2" "sl \<in> set (vP V2 a c)" "vQ V2 = vQ V" "client V2 (mem s2) = client V (mem s) - {b}"
    "kept (client V (mem s) - {b}) (mem s) (mem s2)" "env s2 = env s" "spared api {} s V s2 V2"
  proof (cases "Slab_IsFull (mem s) sl")
    case True
    have "sl \<in> set (vF V a c)"
      using filling_okD(1) [OF ok ac] True by (simp add: sl_def Slab_IsFull_def)
    then have F: "sl \<in> set (vF V1 a c)" by (simp add: listsV1)
    have ne: "slab_free_blocks (mem s1) sl \<noteq> 0" using g(5) by (simp add: m1)
    let ?t = "push_partial a c sl (remove_full a c sl s1)"
    obtain V2 where V2: "silent api {} s1 V1 ?t V2" "sl \<in> set (vP V2 a c)"
      using move_to_partial [OF spec g(2) F ne] by blast
    show ?thesis
      by (rule that [of ?t V2])
         (use True V2 g(3,4) kept_trans [OF g(4), of "mem ?t"] spared_trans [OF g(8), of ?t V2] in \<open>simp_all add: silent_def m1 listsV1 s1_def\<close>)
  next
    case False
    have P: "sl \<in> set (vP V a c)"
      using filling_okD(2) [OF ok ac] False by (simp add: sl_def Slab_IsFull_def)
    have "sl \<notin> set (vF V a' c')" for a' c'
    proof
      assume "sl \<in> set (vF V a' c')"
      then have "slab_free_blocks (mem s) sl = 0" using gh_okD(5) [OF ok] unfolding filling_ok_def by blast
      then show False using False by (simp add: Slab_IsFull_def)
    qed
    then have "filling_ok {} m1 V1"
      using gh_okD(5) [OF g(2)] g(5) by - (rule filling_ok_drop [of sl "{}"], auto simp: m1 listsV1)
    then have "gh_ok api {} s1 V1" using g(2) by (simp add: gh_ok_def m1)
    then show ?thesis
      using that [of s1 V1] False P g(3,4,8) by (simp add: m1 listsV1 s1_def)
  qed
  have rb: "return_block api a c b s = (if Slab_IsEmpty (mem s2) sl then
      count_stats (CountOsFree (slab_memory_size (mem (remove_partial a c sl s2)) sl))
        (PageHeapFree api sl (slab_memory_size (mem (remove_partial a c sl s2)) sl) (remove_partial a c sl s2)) else s2)"
    unfolding return_block_def s2(1) um [symmetric] sl_def by (simp add: Let_def)
  show thesis
  proof (cases "Slab_IsEmpty (mem s2) sl")
    case False
    then show ?thesis using that [of V2] s2 by (simp add: rb accounts_def)
  next
    case True
    have "gh_ok api (insert sl {}) s2 V2" using s2(2) gh_ok_mono by blast
    from release_slab [OF spec this s2(3) True] obtain V3 where "silent api {} s2 V2 (return_block api a c b s) V3"
      using True unfolding rb by auto
    then show ?thesis
      using that [of V3] s2(4-7) kept_trans [OF s2(6)] spared_trans [OF s2(8)] by (simp add: accounts_def silent_def)
  qed
qed

section \<open>Walking lists of blocks\<close>

definition routed :: "mem \<Rightarrow> nat \<Rightarrow> nat \<Rightarrow> addr \<Rightarrow> bool" where
  "routed m a c b \<longleftrightarrow> slab_arena_index m (fb_slab m b) = a \<and> slab_class_idx m (fb_slab m b) = c"

lemma client_routed:
  assumes "gh_ok api X s V" "b \<in> client V (mem s)"
  shows "fb_slab (mem s) b \<in> listed V a c \<longleftrightarrow> routed (mem s) a c b"
  using slabs_okD(2) [OF gh_okD(2) [OF assms(1)] client_slab(1) [OF assms]] by (auto simp: routed_def)

lemma kept_routed: "kept B m m' \<Longrightarrow> b \<in> B \<Longrightarrow> routed m' a c b = routed m a c b"
  using kept_header [of B m m' b] same_geomD(4,8) [of m m' "fb_slab m b"] by (simp add: routed_def)

lemma client_facts:
  assumes spec: "os_spec api" and ok: "gh_ok api X s V" and b: "b \<in> client V (mem s)"
  shows "IsPlausibleHeapPtr b" "WalkLinkPlausible b" "BlockSlabUsable (mem s) b" "b \<noteq> 0"
    "b + 16 \<in> bcells (mem s) b" "fb_class_index (mem s) b = slab_class_idx (mem s) (fb_slab (mem s) b)"
    "1 \<le> fb_class_index (mem s) b" "fb_class_index (mem s) b < NUM_SIZE_CLASSES"
    "slab_block_size (mem s) (fb_slab (mem s) b) = ClassIndexToSize (fb_class_index (mem s) b)"
    "slab_arena_index (mem s) (fb_slab (mem s) b) < NUM_ARENAS"
proof -
  note sl = client_slab [OF ok b]
  note g = gh_good [OF ok sl(1)]
  note h = out_header [OF slab_good_geom(2) [OF g] sl(2)]
  show pl: "IsPlausibleHeapPtr b" by (rule block_plausible [OF spec g h(3)])
  then show "WalkLinkPlausible b" by (simp add: WalkLinkPlausible_def)
  show "b \<noteq> 0" using pl by (auto simp: IsPlausibleHeapPtr_iff)
  show ar: "slab_arena_index (mem s) (fb_slab (mem s) b) < NUM_ARENAS" using g by (simp add: slab_good_def)
  then show "BlockSlabUsable (mem s) b"
    using slab_good_plausible [OF spec g] by (simp add: BlockSlabUsable_def)
  show "b + 16 \<in> bcells (mem s) b" by (rule out_bcells(5) [OF g sl(2)])
  show "fb_class_index (mem s) b = slab_class_idx (mem s) (fb_slab (mem s) b)" by (rule h(2))
  then show "1 \<le> fb_class_index (mem s) b" "fb_class_index (mem s) b < NUM_SIZE_CLASSES"
    "slab_block_size (mem s) (fb_slab (mem s) b) = ClassIndexToSize (fb_class_index (mem s) b)"
    using g by (simp_all add: slab_good_def)
qed

lemma kept_chain:
  assumes "kept B m m'" "set bs \<subseteq> B" "\<And>b. b \<in> set bs \<Longrightarrow> b + 16 \<in> bcells m b"
  shows "chain (fb_next m') p bs \<longleftrightarrow> chain (fb_next m) p bs"
  by (rule fb_chain_cong) (use assms kept_header(5) in blast)

lemma return_walk_accounts:
  assumes "os_spec api" "gh_ok api {} s V" "chain (fb_next (mem s)) p bs"
    "set bs \<subseteq> client V (mem s)" "\<And>b. b \<in> set bs \<Longrightarrow> routed (mem s) a c b"
  shows "\<exists>s' V'. return_walk api a c p s = Some (True, s') \<and> accounts api s V (set bs) {} s' V' \<and> vQ V' = vQ V"
  using assms(2-)
proof (induction bs arbitrary: p s V)
  case Nil
  then show ?case using accounts_refl by (subst return_walk.simps) auto
next
  case (Cons b bs)
  note spec = \<open>os_spec api\<close> and ok = Cons.prems(1)
  have p: "p = b" "b \<noteq> 0" "chain (fb_next (mem s)) (fb_next (mem s) b) bs" using Cons.prems(2) by auto
  have b: "b \<in> client V (mem s)" using Cons.prems(3) by simp
  have nb: "b \<notin> set bs" using chain_distinct [OF Cons.prems(2)] by simp
  obtain V1 where V1: "accounts api s V {b} {} (return_block api a c b s) V1" "vQ V1 = vQ V"
    using return_block_accounts [OF spec ok b] client_routed [OF ok b] Cons.prems(4) by force
  let ?s1 = "return_block api a c b s"
  have k: "kept (client V (mem s) - {b}) (mem s) (mem ?s1)" and ok1: "gh_ok api {} ?s1 V1"
    and cl: "client V1 (mem ?s1) = client V (mem s) - {b}" using V1 by (simp_all add: accounts_def)
  have sub: "set bs \<subseteq> client V (mem s) - {b}" using Cons.prems(3) nb by auto
  have ch: "chain (fb_next (mem ?s1)) (fb_next (mem s) b) bs"
    using p(3) kept_chain [OF k sub] client_facts(5) [OF spec ok] sub by blast
  have rt: "routed (mem ?s1) a c x" if "x \<in> set bs" for x
  proof -
    have "x \<in> client V (mem s) - {b}" using sub that by blast
    then show ?thesis using kept_routed [OF k] Cons.prems(4) [of x] that by simp
  qed
  have wl: "WalkLinkPlausible (fb_next (mem s) b)"
    using p(3) client_facts(1) [OF spec ok] sub by (cases bs) (auto simp: WalkLinkPlausible_def)
  obtain s' V' where r: "return_walk api a c (fb_next (mem s) b) ?s1 = Some (True, s')"
    "accounts api ?s1 V1 (set bs) {} s' V'" "vQ V' = vQ V1"
    using Cons.IH [OF ok1 ch] sub cl rt by blast
  have "return_walk api a c p s = Some (True, s')"
    using r(1) p(1,2) wl client_facts(2,3) [OF spec ok b]
    by (subst return_walk.simps) (simp add: Let_def)
  moreover have "accounts api s V (set (b # bs)) {} s' V'" using gone_trans [OF V1(1) r(2)] by simp
  ultimately show ?case using r(3) V1(2) by auto
qed

section \<open>Queues\<close>

lemma pending_frame:
  assumes "gh_ok api X s V" "queues_ok (set_pending a c h s) V'"
    "vP V' = vP V" "vF V' = vF V" "vfl V' = vfl V" "vL V' = vL V"
  shows "gh_ok api X (set_pending a c h s) V'"
proof -
  have l: "listed V' = listed V" "slabs V' = slabs V" using assms(3,4) by (simp_all add: listed_def slabs_def fun_eq_iff)
  have ow: "span_owned api (set_pending a c h s) p n = span_owned api s p n" for p n
    by (rule os_cong(3)) simp_all
  have "ph_ok api (set_pending a c h s) (vL V)"
    using gh_okD(1) [OF assms(1)] ph_core_cong [of "set_pending a c h s" s] by (simp add: ph_ok_def)
  moreover have "slabs_ok api (set_pending a c h s) V'"
    using gh_okD(2) [OF assms(1)] by (simp add: slabs_ok_def l slab_good_def ow assms(5,6))
  moreover have "lists_ok (set_pending a c h s) V'"
    using gh_okD(3) [OF assms(1)] by (simp add: lists_ok_def assms(3,4))
  moreover have "filling_ok X (mem s) V'" using gh_okD(5) [OF assms(1)] by (simp add: filling_ok_def assms(3,4))
  ultimately show ?thesis using assms(2) by (simp add: gh_ok_def assms(6))
qed

lemma queue_facts:
  assumes ok: "gh_ok api X s V" and b: "b \<in> set (vQ V a c)"
  shows "fb_slab (mem s) b \<in> listed V a c" "routed (mem s) a c b"
    "b \<in> slab_out (mem s) (fb_slab (mem s) b) (vfl V (fb_slab (mem s) b))" "b \<notin> client V (mem s)"
    "\<And>a' c'. b \<in> set (vQ V a' c') \<Longrightarrow> a' = a \<and> c' = c"
proof -
  have e: "\<exists>sl \<in> listed V a' c'. b \<in> slab_out (mem s) sl (vfl V sl)" if "b \<in> set (vQ V a' c')" for a' c'
    using gh_okD(4) [OF ok] that unfolding queues_ok_def by blast
  have fs: "fb_slab (mem s) b = sl" if "sl \<in> slabs V" "b \<in> slab_out (mem s) sl (vfl V sl)" for sl
    by (rule out_header(1) [OF slab_good_geom(2) [OF gh_good [OF ok that(1)]] that(2)])
  show l: "fb_slab (mem s) b \<in> listed V a c"
    and "b \<in> slab_out (mem s) (fb_slab (mem s) b) (vfl V (fb_slab (mem s) b))"
    using e [OF b] fs in_slabs(3) by blast+
  then show "routed (mem s) a c b"
    using slabs_okD(2) [OF gh_okD(2) [OF ok] in_slabs(3) [OF l]] by (auto simp: routed_def)
  show "b \<notin> client V (mem s)" using b by (auto simp: client_def queued_def)
  show "a' = a \<and> c' = c" if "b \<in> set (vQ V a' c')" for a' c'
    using e [OF that] fs in_slabs(3) listed_unique [OF gh_okD(2) [OF ok] l] by blast
qed

lemma in_queued: "x \<in> queued V \<longleftrightarrow> (\<exists>a c. x \<in> set (vQ V a c))"
  by (simp add: queued_def)

lemma in_queued_upd2:
  "x \<in> queued (V\<lparr>vQ := upd2 (vQ V) a c q\<rparr>) \<longleftrightarrow> x \<in> set q \<or> (\<exists>a' c'. \<not> (a' = a \<and> c' = c) \<and> x \<in> set (vQ V a' c'))"
proof -
  have q: "vQ (V\<lparr>vQ := f\<rparr>) = f" for f by simp
  show ?thesis
    unfolding in_queued q
  proof
    assume "\<exists>a' c'. x \<in> set (upd2 (vQ V) a c q a' c')"
    then obtain a' c' where "x \<in> set (upd2 (vQ V) a c q a' c')" by blast
    then show "x \<in> set q \<or> (\<exists>a' c'. \<not> (a' = a \<and> c' = c) \<and> x \<in> set (vQ V a' c'))"
      by (cases "a' = a \<and> c' = c") (simp, auto)
  next
    assume "x \<in> set q \<or> (\<exists>a' c'. \<not> (a' = a \<and> c' = c) \<and> x \<in> set (vQ V a' c'))"
    then have "x \<in> set (upd2 (vQ V) a c q a c) \<or> (\<exists>a' c'. x \<in> set (upd2 (vQ V) a c q a' c'))"
      unfolding upd2_apply by auto
    then show "\<exists>a' c'. x \<in> set (upd2 (vQ V) a c q a' c')" by blast
  qed
qed

lemma queues_ok_upd:
  assumes "gh_ok api X s V" "chain (fb_next (mem s)) h q"
    "\<And>b. b \<in> set q \<Longrightarrow> b \<in> set (vQ V a c) \<or> (\<exists>sl \<in> listed V a c. b \<in> slab_out (mem s) sl (vfl V sl))"
  shows "queues_ok (set_pending a c h s) (V\<lparr>vQ := upd2 (vQ V) a c q\<rparr>)"
proof -
  have l: "listed (V\<lparr>vQ := f\<rparr>) = listed V" for f by (simp add: listed_def fun_eq_iff)
  have q: "chain (fb_next (mem s)) (pending_returns s a' c') (vQ V a' c')"
    "b \<in> set (vQ V a' c') \<Longrightarrow> \<exists>sl \<in> listed V a' c'. b \<in> slab_out (mem s) sl (vfl V sl)" for a' c' b
    using gh_okD(4) [OF assms(1)] by (simp_all add: queues_ok_def)
  show ?thesis
    unfolding queues_ok_def l
  proof (intro allI)
    fix a' c'
    show "chain (fb_next (mem (set_pending a c h s))) (pending_returns (set_pending a c h s) a' c') (vQ (V\<lparr>vQ := upd2 (vQ V) a c q\<rparr>) a' c')
       \<and> (\<forall>b \<in> set (vQ (V\<lparr>vQ := upd2 (vQ V) a c q\<rparr>) a' c'). \<exists>sl \<in> listed V a' c'.
           b \<in> slab_out (mem (set_pending a c h s)) sl (vfl (V\<lparr>vQ := upd2 (vQ V) a c q\<rparr>) sl))"
      using q [where a' = a' and c' = c'] assms(2,3) by (cases "a' = a \<and> c' = c") auto
  qed
qed

text \<open>Taking a whole queue puts its blocks outside the heap.\<close>

lemma unqueue:
  fixes a c
  assumes ok: "gh_ok api {} s V"
  defines "V' \<equiv> V\<lparr>vQ := upd2 (vQ V) a c []\<rparr>"
  shows "accounts api s V {} (set (vQ V a c)) (set_pending a c 0 s) V'"
    "chain (fb_next (mem s)) (pending_returns s a c) (vQ V a c)"
proof -
  have V: "listed V' = listed V" "slabs V' = slabs V" "vfl V' = vfl V" by (simp_all add: V'_def listed_def slabs_def fun_eq_iff)
  show "chain (fb_next (mem s)) (pending_returns s a c) (vQ V a c)"
    using gh_okD(4) [OF ok] by (simp add: queues_ok_def)
  have "queues_ok (set_pending a c 0 s) V'"
    unfolding V'_def by (rule queues_ok_upd [OF ok]) simp_all
  then have ok': "gh_ok api {} (set_pending a c 0 s) V'"
    by (rule pending_frame [OF ok]) (simp_all add: V'_def)
  have "queued V' = queued V - set (vQ V a c)"
    unfolding V'_def set_eq_iff in_queued_upd2 Diff_iff unfolding in_queued
    using queue_facts(5) [OF ok] by (metis empty_iff empty_set)
  moreover have "set (vQ V a c) \<subseteq> (\<Union>sl \<in> slabs V. slab_out (mem s) sl (vfl V sl))"
    using queued_slab [OF ok] in_queued by blast
  ultimately have "client V' (mem s) = client V (mem s) \<union> set (vQ V a c)"
    unfolding client_def V using in_queued [of _ V] by blast
  then show "accounts api s V {} (set (vQ V a c)) (set_pending a c 0 s) V'"
    using ok' spared_same [of "set_pending a c 0 s" s V' V] V(2) by (simp add: accounts_def V'_def)
qed

lemma accounts_come_go:
  assumes "accounts api s V {} B s1 V1" "accounts api s1 V1 B {} s2 V2" "B \<inter> client V (mem s) = {}"
  shows "accounts api s V {} {} s2 V2"
  using accounts_trans [OF assms(1,2)] assms(3) by simp

lemma DrainPendingReturns_accounts:
  assumes spec: "os_spec api" and ok: "gh_ok api {} s V"
  shows "\<exists>s' V'. DrainPendingReturns api a c s = Some s' \<and> accounts api s V {} {} s' V'
    \<and> vQ V' = upd2 (vQ V) a c []"
proof (cases "pending_returns s a c = 0")
  case True
  have "vQ V a c = []" using unqueue(2) [OF ok, of a c] True by simp
  then have "vQ V = upd2 (vQ V) a c []" by (auto simp: fun_eq_iff)
  then show ?thesis using True accounts_refl [OF ok] by (auto simp: DrainPendingReturns_def)
next
  case False
  note u = unqueue [OF ok, of a c]
  let ?s = "set_pending a c 0 s" and ?V = "V\<lparr>vQ := upd2 (vQ V) a c []\<rparr>"
  have d: "set (vQ V a c) \<inter> client V (mem s) = {}" using queue_facts(4) [OF ok] by blast
  obtain s' V' where r: "return_walk api a c (pending_returns s a c) ?s = Some (True, s')"
    "accounts api ?s ?V (set (vQ V a c)) {} s' V'" "vQ V' = vQ ?V"
    using return_walk_accounts [OF spec accounts_ok [OF u(1)], of "pending_returns s a c" "vQ V a c" a c]
      u(2) accounts_client [OF u(1)] queue_facts(2) [OF ok] by auto
  have "DrainPendingReturns api a c s = Some s'"
    using False r(1) by (simp add: DrainPendingReturns_def ProcessPendingListLocked_def Let_def)
  then show ?thesis using accounts_come_go [OF u(1) r(2) d] r(3) by auto
qed

lemma ProcessPendingListLocked_accounts:
  assumes "os_spec api" "gh_ok api {} s V" "chain (fb_next (mem s)) p bs"
    "set bs \<subseteq> client V (mem s)" "\<And>b. b \<in> set bs \<Longrightarrow> routed (mem s) a c b"
  shows "\<exists>s' V'. ProcessPendingListLocked api a c p s = Some s' \<and> accounts api s V (set bs) {} s' V' \<and> vQ V' = vQ V"
  using return_walk_accounts [OF assms] by (auto simp: ProcessPendingListLocked_def)

lemma ProcessBatchLocked_accounts:
  assumes "os_spec api" "gh_ok api {} s V" "chain (fb_next (mem s)) p bs"
    "set bs \<subseteq> client V (mem s)" "\<And>b. b \<in> set bs \<Longrightarrow> routed (mem s) a c b"
  shows "\<exists>s' V'. ProcessBatchLocked api a c p s = Some s' \<and> accounts api s V (set bs) {} s' V'
    \<and> vQ V' = upd2 (vQ V) a c []"
proof -
  obtain s1 V1 where r: "return_walk api a c p s = Some (True, s1)" "accounts api s V (set bs) {} s1 V1" "vQ V1 = vQ V"
    using return_walk_accounts [OF assms] by blast
  obtain s' V' where d: "DrainPendingReturns api a c s1 = Some s'" "accounts api s1 V1 {} {} s' V'" "vQ V' = upd2 (vQ V1) a c []"
    using DrainPendingReturns_accounts [OF assms(1) accounts_ok [OF r(2)]] by blast
  show ?thesis
    using r(1,3) d(1,3) gone_trans [OF r(2) d(2)] by (auto simp: ProcessBatchLocked_def)
qed

text \<open>Rewriting the link of a block outside the heap.\<close>

lemma client_link:
  fixes v a c
  assumes ok: "gh_ok api {} s V" and b: "b \<in> client V (mem s)"
  defines "s' \<equiv> upd_mem (set_fb_next b v) s"
  shows "accounts api s V {b} {b} s' V" "client V (mem s') = client V (mem s)"
    "\<And>x. x \<in> client V (mem s) \<Longrightarrow> fb_slab (mem s') x = fb_slab (mem s) x"
    "\<And>x. x \<in> client V (mem s) \<Longrightarrow> routed (mem s') a c x = routed (mem s) a c x"
proof -
  note w = client_cell_write [OF ok b, of v, folded s'_def]
  show "client V (mem s') = client V (mem s)" by (rule w(2))
  have m: "mem s' = (mem s)(b + 16 := v)" by (simp add: s'_def upd_mem_def cells)
  show "accounts api s V {b} {b} s' V"
    using w b by (auto simp: accounts_def s'_def upd_mem_def)
  show fs: "fb_slab (mem s') x = fb_slab (mem s) x" if x: "x \<in> client V (mem s)" for x
  proof (cases "x = b")
    case False
    then show ?thesis using kept_header(2) [OF w(3)] x by blast
  qed (simp add: m cells)
  show "routed (mem s') a c x = routed (mem s) a c x" if x: "x \<in> client V (mem s)" for x
  proof -
    note sl = client_slab [OF ok x] and slb = client_slab [OF ok b]
    have "b + 16 \<in> slab_range (mem s) (fb_slab (mem s) b)" "fb_slab (mem s) b + 80 \<le> b"
      using out_bcells(2,5) [OF gh_good [OF ok slb(1)] slb(2)]
        block_in_range(1) [OF slab_good_geom(1) [OF gh_good [OF ok slb(1)]] out_header(3) [OF slab_good_geom(2) [OF gh_good [OF ok slb(1)]] slb(2)]]
      by blast+
    moreover have "fb_slab (mem s) x + 72 \<in> slab_range (mem s) (fb_slab (mem s) x)"
      using slab_good_geom(3) [OF gh_good [OF ok sl(1)]] by (simp add: slab_range_def)
    ultimately have "b + 16 \<noteq> fb_slab (mem s) x + 72"
      using slabs_ok_disj [OF gh_okD(2) [OF ok] sl(1) slb(1)]
      by (cases "fb_slab (mem s) x = fb_slab (mem s) b") (fastforce, metis disjoint_iff)
    then show ?thesis using fs [OF x] by (auto simp: routed_def cells m)
  qed
qed

lemma pending_push_accounts:
  assumes ok: "gh_ok api {} s V" and ch: "chain (fb_next (mem s)) p (bs @ [t])"
    and cl: "set (bs @ [t]) \<subseteq> client V (mem s)" and rt: "\<And>b. b \<in> set (bs @ [t]) \<Longrightarrow> routed (mem s) a c b"
  shows "\<exists>V'. accounts api s V (set (bs @ [t])) {} (pending_push a c p t s) V'
    \<and> vQ V' = upd2 (vQ V) a c ((bs @ [t]) @ vQ V a c)"
proof -
  define s1 where "s1 = upd_mem (set_fb_next t (pending_returns s a c)) s"
  let ?V = "V\<lparr>vQ := upd2 (vQ V) a c ((bs @ [t]) @ vQ V a c)\<rparr>"
  have t: "t \<in> client V (mem s)" using cl by simp
  note w = client_link [OF ok t, where v = "pending_returns s a c", folded s1_def]
  have ok1: "gh_ok api {} s1 V" by (rule accounts_ok [OF w(1)])
  have pr: "pending_returns s1 = pending_returns s" by (simp add: s1_def upd_mem_def)
  have V: "listed ?V = listed V" "slabs ?V = slabs V" "vfl ?V = vfl V" by (simp_all add: listed_def slabs_def fun_eq_iff)
  have tq: "t \<notin> set (vQ V a c)" using client_slab(3) [OF ok t] by (auto simp: queued_def)
  have "chain (fb_next (mem s1)) p (bs @ t # vQ V a c)"
    using fb.chain_join [OF ch unqueue(2) [OF ok, of a c] tq] by (simp add: s1_def upd_mem_def)
  moreover have "fb_slab (mem s1) b \<in> listed V a c \<and> b \<in> slab_out (mem s1) (fb_slab (mem s1) b) (vfl V (fb_slab (mem s1) b))"
    if b: "b \<in> set (bs @ [t])" for b
  proof -
    have bc: "b \<in> client V (mem s1)" "b \<in> client V (mem s)" using b cl w(2) by auto
    then have "routed (mem s1) a c b" using w(4) [OF bc(2)] rt [OF b] by simp
    then show ?thesis using client_routed [OF ok1 bc(1)] client_slab(2) [OF ok1 bc(1)] by simp
  qed
  ultimately have "queues_ok (set_pending a c p s1) ?V"
    by (intro queues_ok_upd [OF ok1]) auto
  then have "gh_ok api {} (set_pending a c p s1) ?V"
    by (rule pending_frame [OF ok1]) simp_all
  moreover have "queued ?V = queued V \<union> set (bs @ [t])"
    unfolding set_eq_iff in_queued_upd2 Un_iff unfolding in_queued by (metis Un_iff set_append)
  then have "client ?V (mem s1) = client V (mem s) - set (bs @ [t])"
    using w(2) unfolding client_def V by auto
  moreover have "kept (client V (mem s) - set (bs @ [t])) (mem s) (mem s1)"
    using w(1) unfolding accounts_def by (auto intro: kept_mono)
  moreover have "env s1 = env s" by (rule accounts_env [OF w(1)])
  moreover have "spared api {} s V (set_pending a c p s1) ?V"
    using spared_trans [OF accounts_spared [OF w(1)] spared_same] V(2) by simp
  ultimately have "accounts api s V (set (bs @ [t])) {} (set_pending a c p s1) ?V" by (simp add: accounts_def)
  moreover have "set_pending a c p s1 = pending_push a c p t s" by (simp add: pending_push_def s1_def Let_def)
  ultimately show ?thesis by auto
qed

end
