(* ===== verification/FA_Refill.thy ===== *)
theory FA_Refill
  imports FA_HeapOps
begin

text \<open>
  Taking blocks out of the global heap: new slabs, single blocks
  (\<^verbatim>\<open>GlobalHeap::AllocateBlock\<close>), and the refill of a thread cache
  (\<^verbatim>\<open>GlobalHeap::AllocateBatch\<close>) with its three phases. The blocks handed out are new to the
  client, carry the right header, and no block the client already holds is touched.
\<close>

section \<open>Adding a slab\<close>

lemma push_new_slab:
  assumes spec: "os_spec api" and ok: "gh_ok api {} s V"
    and g: "slab_good api s (vL V) sl []" "slab_free_blocks (mem s) sl \<noteq> 0" "slab_out (mem s) sl [] = {}"
    and ac: "slab_arena_index (mem s) sl = a" "slab_class_idx (mem s) sl = c"
    and disj: "\<And>z. z \<in> slabs V \<Longrightarrow> slab_range (mem s) z \<inter> slab_range (mem s) sl = {}"
  defines "V' \<equiv> V\<lparr>vP := upd2 (vP V) a c (sl # vP V a c), vfl := (vfl V)(sl := [])\<rparr>"
  shows "accounts_but (slab_range (mem s) sl) api s V {} {} (push_partial a c sl s) V'"
proof -
  let ?s = "push_partial a c sl s"
  note sok = gh_okD(2) [OF ok] and li = lists_okD [OF gh_okD(3) [OF ok]] and good = gh_good [OF ok]
  have nin: "sl \<notin> slabs V" using disj [of sl] slab_good_geom(4) [OF g(1)] by blast
  have V: "listed V' a' c' = (if a' = a \<and> c' = c then insert sl (listed V a c) else listed V a' c')"
    "slabs V' = insert sl (slabs V)" "queued V' = queued V" "vQ V' = vQ V" "vL V' = vL V" for a' c'
  proof -
    show l: "listed V' a' c' = (if a' = a \<and> c' = c then insert sl (listed V a c) else listed V a' c')" for a' c'
      by (simp add: V'_def listed_def)
    have "slabs V' = insert sl (\<Union>a c. listed V a c)"
      unfolding slabs_def set_eq_iff l by (auto split: if_splits)
    then show "slabs V' = insert sl (slabs V)" by (simp only: slabs_def)
  qed (simp_all add: V'_def queued_def)
  have vfl: "vfl V' z = vfl V z" if "z \<in> slabs V" for z using that nin by (auto simp: V'_def)
  have "sl \<notin> set (vP V a c)" using nin in_slabs(1) by blast
  then obtain m where p: "PushSlab (partial_slabs s a c) sl (mem s) = (sl, m)" "dlist m (sl # vP V a c) sl"
    "\<And>x. x \<notin> link_cells sl \<Longrightarrow> (partial_slabs s a c \<noteq> 0 \<longrightarrow> x \<noteq> partial_slabs s a c + 8) \<Longrightarrow> m x = mem s x"
    using PushSlab_dlist [OF li(1) slab_good_geom(6) [OF g(1)] _ slab_good_aligned [OF spec g(1)]] by blast
  have eq: "m x = mem s x" if "x \<notin> (\<Union>z \<in> insert sl (set (vP V a c)). link_cells z)" for x
    using that dlist_head [OF li(1) [of a c]] by (intro p(3)) (auto simp: link_cells_def)
  have s': "mem ?s = m" "partial_slabs ?s = upd2 (partial_slabs s) a c sl" "full_slabs ?s = full_slabs s"
    "pending_returns ?s = pending_returns s" "env ?s = env s"
    "os_log ?s = os_log s" "pool_chunks ?s = pool_chunks s" "page_bins ?s = page_bins s"
    "page_nonempty ?s = page_nonempty s" "page_cache_total_bytes ?s = page_cache_total_bytes s"
    by (simp_all add: push_partial_def p(1))
  have gd: "slab_good api s (vL V) z (vfl V' z)" if "z \<in> slabs V'" for z
  proof (cases "z = sl")
    case True
    then show ?thesis using g(1) by (simp add: V'_def)
  next
    case False
    then have "z \<in> slabs V" using that V(2) by blast
    then show ?thesis using good vfl by simp
  qed
  have dj: "slab_range (mem s) y \<inter> slab_range (mem s) z = {}" if "y \<in> slabs V'" "z \<in> slabs V'" "y \<noteq> z" for y z
    using that slabs_ok_disj [OF sok, of y z] disj [of y] disj [of z] unfolding V by blast
  have inside: "m x = mem s x" if "z \<in> slabs V'" "x \<in> slab_range (mem s) z - link_cells z" for z x
  proof (rule eq)
    have "x \<notin> link_cells y" if "y \<in> slabs V'" for y
      using dj [OF that \<open>z \<in> slabs V'\<close>] slab_good_geom(4,5) [OF gd [OF that]] \<open>x \<in> _ - _\<close>
      by (cases "y = z") (auto simp: link_cells_def)
    then show "x \<notin> (\<Union>y \<in> insert sl (set (vP V a c)). link_cells y)" using in_slabs(1) [of _ V a c] V(2) by blast
  qed
  have ok': "slab_ok m z (vfl V' z)" and sh: "same_header (mem s) m z" if "z \<in> slabs V'" for z
    using slab_ok_frame [OF slab_good_geom(2) [OF gd [OF that]], of m] inside [OF that] by blast+
  note he = same_headerD [OF sh] and ge = same_geomD [OF same_headerD(1) [OF sh]]
  have own: "span_owned api ?s q n = span_owned api s q n" for q n by (rule os_cong(3) [OF s'(6,7)])
  have cached: "m x = mem s x" if "x \<in> cached_cells api (vL V)" for x
  proof (rule eq)
    have "x \<notin> link_cells y" if y: "y \<in> slabs V'" for y
    proof -
      have "slab_range (mem s) y \<inter> cached_cells api (vL V) = {}" using gd [OF y] by (simp add: slab_good_def)
      then show ?thesis using slab_good_geom(4,5) [OF gd [OF y]] \<open>x \<in> cached_cells api (vL V)\<close> by (auto simp: link_cells_def)
    qed
    then show "x \<notin> (\<Union>y \<in> insert sl (set (vP V a c)). link_cells y)" using in_slabs(1) [of _ V a c] V(2) by blast
  qed
  have "ph_ok api (s\<lparr>mem := m\<rparr>) (vL V)" using cached gh_okD(1) [OF ok] by (intro ph_ok_frame) auto
  then have "ph_ok api ?s (vL V)"
    using ph_core_cong [of ?s "s\<lparr>mem := m\<rparr>"] s' by (simp add: ph_ok_def)
  moreover have "slabs_ok api ?s V'"
  proof -
    have "slab_good api ?s (vL V') z (vfl V' z)" if "z \<in> slabs V'" for z
      using gd [OF that] ok' [OF that] ge [OF that] he(7) [OF that] by (simp add: slab_good_def own V s'(1))
    moreover have "z \<in> listed V' a' c' \<longleftrightarrow> a' = slab_arena_index (mem s) z \<and> c' = slab_class_idx (mem s) z"
      if "z \<in> slabs V'" for z a' c'
      using that slabs_okD(2) [OF sok, of z] ac nin in_slabs(3) [of sl V] by (auto simp: V)
    ultimately show ?thesis unfolding slabs_ok_def s'(1) using dj he(7) ge by auto
  qed
  moreover have "lists_ok ?s V'"
    unfolding lists_ok_def s'
  proof (intro allI)
    fix a' c'
    have al: "z mod 16 = 0" if "z \<in> insert sl (set (vP V a c))" for z
      using that dlist_aligned [OF li(1)] slab_good_aligned [OF spec g(1)] by blast
    have F: "dlist m (vF V a' c') (full_slabs s a' c')"
    proof (rule dlist_other [OF li(2) eq al])
      show "set (vF V a' c') \<inter> insert sl (set (vP V a c)) = {}"
        using lists_disjoint(1) [OF sok gh_okD(3) [OF ok], of a' c' a c] nin in_slabs(2) by blast
    qed
    show "dlist m (vP V' a' c') (upd2 (partial_slabs s) a c sl a' c') \<and> dlist m (vF V' a' c') (full_slabs s a' c')
        \<and> set (vP V' a' c') \<inter> set (vF V' a' c') = {}"
    proof (cases "a' = a \<and> c' = c")
      case True
      then show ?thesis using p(2) F li(3) [of a c] nin in_slabs(2) [of sl V a c] by (simp add: V'_def) blast
    next
      case False
      have "dlist m (vP V a' c') (partial_slabs s a' c')"
      proof (rule dlist_other [OF li(1) eq al])
        show "set (vP V a' c') \<inter> insert sl (set (vP V a c)) = {}"
          using lists_disjoint(2) [OF sok gh_okD(3) [OF ok] False] nin in_slabs(1) by blast
      qed
      then show ?thesis using False F li(3) [of a' c'] by (auto simp: V'_def)
    qed
  qed
  moreover have clink: "m x = mem s x" if "z \<in> slabs V" "b \<in> slab_out (mem s) z (vfl V z)" "x \<in> bcells (mem s) b" for z b x
  proof (rule inside [of z])
    have "sl \<noteq> z" "z \<in> slabs V'" using nin that(1) by (auto simp: V)
    then show "z \<in> slabs V'" by blast
    have "z + 80 \<le> b"
      using that(2) by (intro block_in_range(1) [OF slab_good_geom(1) [OF good [OF that(1)]]]) (simp add: slab_out_def)
    then show "x \<in> slab_range (mem s) z - link_cells z"
      using out_bcells(1,2) [OF good [OF that(1)] that(2)] that(3) by (auto simp: link_cells_def)
  qed
  have outs: "slab_out m z (vfl V' z) = slab_out (mem s) z (vfl V z)" if "z \<in> slabs V" for z
    using he(6) [of z] that vfl [OF that] V(2) by simp
  have "queues_ok ?s V'"
    unfolding queues_ok_def V s'
  proof (intro allI conjI ballI)
    fix a' c'
    have "m (b + 16) = mem s (b + 16)" if "b \<in> set (vQ V a' c')" for b
      using queue_facts(1,3) [OF ok that] in_slabs(3) out_bcells(5) [OF good] clink by blast
    then show "chain (fb_next m) (pending_returns s a' c') (vQ V a' c')"
      using gh_okD(4) [OF ok] fb_chain_cong [of "vQ V a' c'" m "mem s"] by (simp add: queues_ok_def)
    fix b assume b: "b \<in> set (vQ V a' c')"
    let ?z = "fb_slab (mem s) b"
    have "?z \<in> listed V a' c'" "b \<in> slab_out m ?z (vfl V' ?z)"
      using queue_facts(1,3) [OF ok b] outs in_slabs(3) by blast+
    then show "\<exists>z \<in> (if a' = a \<and> c' = c then insert sl (listed V a c) else listed V a' c'). b \<in> slab_out m z (vfl V' z)"
      by auto
  qed
  moreover have "filling_ok {} m V'"
  proof (rule filling_ok_cong [OF he(2)])
    show "filling_ok {} (mem s) V'"
      using gh_okD(5) [OF ok] g(2) by (auto simp: filling_ok_def V'_def)
  qed
  ultimately have "gh_ok api {} ?s V'" by (simp add: gh_ok_def V s'(1))
  moreover have "vfl V' sl = []" by (simp add: V'_def)
  then have "slab_out m sl (vfl V' sl) = {}" using he(6) [of sl "[]"] g(3) V(2) by simp
  then have "client V' m = client V (mem s)" unfolding client_def V using outs by simp
  moreover have "kept (client V (mem s)) (mem s) m"
    by (rule client_keptI [OF ok order_refl same_headerD(1) [OF sh]]) (use clink V(2) in \<open>auto elim!: clientE\<close>)
  moreover have "spared api (slab_range (mem s) sl) s V ?s V'"
  proof (rule spared_inside)
    fix x assume x: "\<And>z. z \<in> slabs V \<Longrightarrow> x \<notin> slab_range (mem s) z" "x \<notin> slab_range (mem s) sl"
    have "x \<notin> link_cells z" if "z \<in> slabs V'" for z
      using slab_good_geom(4,5) [OF gd [OF that]] x that V(2) by (auto simp: link_cells_def)
    then show "mem ?s x = mem s x" unfolding s'(1) using V(2) in_slabs(1) [of _ V a c] by (intro eq) blast
  qed (use s' V he(7) in auto)
  ultimately show ?thesis by (simp add: accounts_def s')
qed

lemma slab_target_size_bounds:
  assumes "c < NUM_SIZE_CLASSES"
  shows "65536 \<le> slab_target_size c" "slab_target_size c \<le> 524288" "ClassIndexToSize c = (c + 1) * 16"
proof -
  have c: "c < 512" using assms by (simp add: config_consts)
  then show b: "ClassIndexToSize c = (c + 1) * 16" by (simp add: ClassIndexToSize_exact)
  show "65536 \<le> slab_target_size c" by (simp add: slab_target_size_def Let_def)
  have m: "mul64 ((c + 1) * 16) k = (c + 1) * 16 * k" if "k \<le> 256" for k
  proof (rule mul64_exact)
    have "(c + 1) * 16 * k \<le> 512 * 16 * 256" using c that by (intro mult_le_mono) auto
    then show "(c + 1) * 16 * k < 2 ^ 64" by simp
  qed
  have "mul64 (16 + c * 16) 32 = (16 + c * 16) * 32" "mul64 (16 + c * 16) 128 = (16 + c * 16) * 128"
    "mul64 (16 + c * 16) 256 = (16 + c * 16) * 256" using m [of 32] m [of 128] m [of 256] by simp_all
  then show "slab_target_size c \<le> 524288"
    using c by (simp add: slab_target_size_def Let_def b)
qed

lemma Slab_Create_header:
  fixes m
  assumes "memory \<noteq> 0" "80 + block_size < memory_size" "memory_size < 2 ^ 64" "block_size < 2 ^ 32" "arena < 2 ^ 32"
  defines "m' \<equiv> snd (Slab_Create memory memory_size block_size arena m)"
  shows "slab_block_size m' memory = block_size" "slab_memory_size m' memory = memory_size"
    "slab_class_idx m' memory = SizeToClassIndex block_size" "slab_arena_index m' memory = arena"
    "slab_total_blocks m' memory = (memory_size - 80) div block_size"
    "slab_free_blocks m' memory = (memory_size - 80) div block_size"
proof -
  have off: "align_up sizeof_Slab ALIGNMENT = 80"
    using align_up_pow2 [of 80 4] by (simp add: sizeof_Slab_def ALIGNMENT_def)
  have a1: "add64 sizeof_Slab block_size = 80 + block_size" "add64 80 block_size = 80 + block_size"
    using assms by (simp_all add: sizeof_Slab_def add64_exact)
  have c: "SizeToClassIndex block_size < 2 ^ 32" using assms(4) by (simp add: SizeToClassIndex_div)
  have "(SizeToClassIndex block_size * 2 ^ 32 + arena) div 2 ^ 32 = SizeToClassIndex block_size"
    using assms(5) by (simp add: div_add1_eq)
  then show "slab_block_size m' memory = block_size" "slab_memory_size m' memory = memory_size"
    "slab_class_idx m' memory = SizeToClassIndex block_size" "slab_arena_index m' memory = arena"
    "slab_total_blocks m' memory = (memory_size - 80) div block_size"
    "slab_free_blocks m' memory = (memory_size - 80) div block_size"
    using assms(1-5) c by (simp_all add: m'_def Slab_Create_def Let_def off a1 cells)
qed

text \<open>A span granted by the page cache leaves the slabs as they are.\<close>

lemma grant_accounts:
  assumes ok: "gh_ok api {} s V" and fr: "gh_frame s s'"
    and gr: "if x = 0 then ph_ok api s' (vL V) \<and> ph_used api s' (vL V) = ph_used api s (vL V) \<and> mem s' = mem s
      \<and> (\<forall>q k. span_owned api s q k \<longrightarrow> span_owned api s' q k)
    else (\<exists>L'. ph_grant api s (vL V) x n s' L')"
  shows "if x = 0 then accounts api s V {} {} s' V
    else \<exists>L'. ph_grant api s (vL V) x n s' L' \<and> accounts api s V {} {} s' (V\<lparr>vL := L'\<rparr>)
      \<and> (\<forall>z \<in> slabs V. slab_range (mem s') z \<inter> {x..<x + n} = {})"
proof -
  have use: "slab_range (mem s) z \<subseteq> ph_used api s (vL V)" if "z \<in> slabs V" for z
    by (rule slab_in_ph_used [OF gh_good [OF ok that]])
  have acc: "accounts api s V {} {} s' (V\<lparr>vL := L'\<rparr>) \<and> (\<forall>z \<in> slabs V. slab_range (mem s') z = slab_range (mem s) z)"
    if "ph_ok api s' L'" "ph_used api s (vL V) \<subseteq> ph_used api s' L'" "\<forall>a \<in> ph_used api s (vL V). mem s' a = mem s a"
      "\<forall>q k. span_owned api s q k \<longrightarrow> span_owned api s' q k" for L'
  proof -
    have m: "mem s' a = mem s a" if "z \<in> slabs V" "a \<in> slab_range (mem s) z" for z a
      using use [OF that(1)] that(2) \<open>\<forall>a \<in> ph_used api s (vL V). mem s' a = mem s a\<close> by blast
    have own: "span_owned api s' z (slab_memory_size (mem s) z)" if "z \<in> slabs V" for z
      using gh_good [OF ok that] \<open>\<forall>q k. span_owned api s q k \<longrightarrow> span_owned api s' q k\<close> by (simp add: slab_good_def)
    have nc: "slab_range (mem s) z \<inter> cached_cells api L' = {}" if "z \<in> slabs V" for z
      using use [OF that] \<open>ph_used api s (vL V) \<subseteq> ph_used api s' L'\<close> unfolding ph_used_def by blast
    have hb: "gh_ok api {} s' (V\<lparr>vL := L'\<rparr>)" "client (V\<lparr>vL := L'\<rparr>) (mem s') = client V (mem s)"
      "kept (client V (mem s)) (mem s) (mem s')" "\<And>sl. sl \<in> slabs V \<Longrightarrow> same_header (mem s) (mem s') sl"
      using heap_below [OF ok fr that(1) _ own nc] m by blast+
    have sV: "slabs (V\<lparr>vL := L'\<rparr>) = slabs V" by (simp add: slabs_def listed_def)
    have "spared api {} s V s' (V\<lparr>vL := L'\<rparr>)"
      by (rule spared_below) (use that same_headerD(7) [OF hb(4)] sV in auto)
    then show ?thesis
      using hb gh_frame_fields(4) [OF fr] same_headerD(7) [OF hb(4)] by (simp add: accounts_def)
  qed
  show ?thesis
  proof (cases "x = 0")
    case True
    have "V\<lparr>vL := vL V\<rparr> = V" by simp
    then show ?thesis using True gr acc [of "vL V"] by simp
  next
    case False
    then obtain L' where L': "ph_grant api s (vL V) x n s' L'" using gr by auto
    then have a: "accounts api s V {} {} s' (V\<lparr>vL := L'\<rparr>) \<and> (\<forall>z \<in> slabs V. slab_range (mem s') z = slab_range (mem s) z)"
      by (intro acc) (auto simp: ph_grant_def)
    have "slab_range (mem s) z \<inter> {x..<x + n} = {}" if "z \<in> slabs V" for z
      using L' use [OF that] unfolding ph_grant_def by blast
    then show ?thesis using False L' a by auto
  qed
qed

lemma heap_grant:
  assumes spec: "os_spec api" and ok: "gh_ok api {} s V" and n: "0 < n" "n mod GetPageSize api = 0"
    and r: "PageHeapAllocate api n s = (x, s')"
  shows "if x = 0 then accounts api s V {} {} s' V
    else \<exists>L'. ph_grant api s (vL V) x n s' L' \<and> accounts api s V {} {} s' (V\<lparr>vL := L'\<rparr>)
      \<and> (\<forall>z \<in> slabs V. slab_range (mem s') z \<inter> {x..<x + n} = {})"
  by (rule grant_accounts [OF ok gh_frame_PageHeapAllocate [OF r] PageHeapAllocate_grant [OF spec gh_okD(1) [OF ok] n r]])

lemma AllocateNewSlab_accounts:
  assumes spec: "os_spec api" and ok: "gh_ok api {} s V"
    and c: "1 \<le> c" "c < NUM_SIZE_CLASSES" and a: "a < NUM_ARENAS"
    and r: "AllocateNewSlab api c a s = (sl, s')"
  shows "if sl = 0 then accounts api s V {} {} s' V
    else \<exists>V'. accounts api s V {} {} (push_partial a c sl s') V' \<and> sl \<in> set (vP V' a c) \<and> vQ V' = vQ V"
proof -
  let ?bs = "ClassIndexToSize c" and ?n = "align_up (slab_target_size c) (GetPageSize api)"
  note t = slab_target_size_bounds [OF c(2)]
  have cc: "c < 512" using c by (simp add: config_consts)
  obtain k where k: "GetPageSize api = 2 ^ k" "12 \<le> k" "k \<le> 21" using os_spec_page [OF spec] .
  have "(2::nat) ^ k \<le> 2 ^ 21" by (rule power_increasing) (use k in auto)
  then have "slab_target_size c + 2 ^ k \<le> 2 ^ 64" "(2::nat) ^ k \<le> 2097152" using t by simp_all
  then have n: "65536 \<le> ?n" "?n < 3000000" "?n mod GetPageSize api = 0" "0 < ?n"
    using align_up_bounds [of "slab_target_size c" k] t(1,2) unfolding k(1) by linarith+
  show ?thesis
  proof (cases "0 < g_oom_fail_countdown s")
    case True
    then have "sl = 0" "s' = s\<lparr>g_oom_fail_countdown := g_oom_fail_countdown s - 1\<rparr>"
      using r by (auto simp: AllocateNewSlab_def Let_def ShouldFailAllocationForTest_def)
    moreover have "gh_ok api {} (s\<lparr>g_oom_fail_countdown := v\<rparr>) V" for v
    proof -
      have "span_owned api (s\<lparr>g_oom_fail_countdown := v\<rparr>) p n = span_owned api s p n" for p n by (rule os_cong(3)) simp_all
      moreover have "ph_core api (s\<lparr>g_oom_fail_countdown := v\<rparr>) (vL V) = ph_core api s (vL V)" by (rule ph_core_cong) simp_all
      ultimately show ?thesis
        using ok by (simp add: gh_ok_def ph_ok_def slabs_ok_def slab_good_def lists_ok_def queues_ok_def)
    qed
    moreover have "spared api {} s V (s\<lparr>g_oom_fail_countdown := v\<rparr>) V" for v by (rule spared_same) simp_all
    ultimately show ?thesis by (simp add: accounts_def)
  next
    case False
    obtain x s1 where p: "PageHeapAllocate api ?n s = (x, s1)" by fastforce
    note gr = heap_grant [OF spec ok n(4,3) p]
    show ?thesis
    proof (cases "x = 0")
      case True
      then have "sl = 0" "s' = s1"
        using r False p by (simp_all add: AllocateNewSlab_def Let_def ShouldFailAllocationForTest_def)
      then show ?thesis using gr True by simp
    next
      case x: False
      then obtain L' where L': "ph_grant api s (vL V) x ?n s1 L'" "accounts api s V {} {} s1 (V\<lparr>vL := L'\<rparr>)"
        "\<And>z. z \<in> slabs V \<Longrightarrow> slab_range (mem s1) z \<inter> {x..<x + ?n} = {}" using gr by auto
      define s2 where "s2 = count_stats (CountOsAlloc ?n) s1"
      define m where "m = snd (Slab_Create x ?n ?bs a (mem s2))"
      have pre: "x \<noteq> 0" "24 \<le> ?bs" "80 + ?bs < ?n" "?n < 2 ^ 64" "?bs < 2 ^ 32" "a < 2 ^ 32"
        using x c cc n t(3) a by (simp_all add: NUM_ARENAS_def)
      note cr = Slab_Create_ok [OF pre(1-5), where arena = a and m = "mem s2", folded m_def]
      note hd = Slab_Create_header [OF pre(1,3,4,5,6), where m = "mem s2", folded m_def]
      have cls: "SizeToClassIndex ?bs = c" using cc by (simp add: t(3) SizeToClassIndex_div)
      define s3 where "s3 = s2\<lparr>mem := m\<rparr>"
      have res: "sl = x" "s' = s3"
        using r False p cr(1) x unfolding s3_def m_def s2_def
        by (auto simp: AllocateNewSlab_def Let_def ShouldFailAllocationForTest_def split: prod.splits)
      let ?V = "V\<lparr>vL := L'\<rparr>"
      have sV: "slabs ?V = slabs V" by (simp add: slabs_def listed_def)
      have m2: "mem s2 = mem s1" by (simp add: s2_def count_stats_def)
      have ok2: "gh_ok api {} s2 ?V" using L'(2) by (simp add: accounts_def s2_def)
      have own: "span_owned api s3 p n = span_owned api s1 p n" for p n
        by (rule os_cong(3)) (simp_all add: s3_def s2_def count_stats_def)
      have hdr: "slab_header x \<subseteq> {x..<x + ?n}" using n by (auto simp: slab_header_def sizeof_Slab_def)
      have cin: "{x..<x + ?n} \<inter> cached_cells api L' = {}"
        using L'(1) unfolding ph_grant_def ph_used_def by blast
      have ph: "ph_ok api s3 L'"
        unfolding s3_def using gh_okD(1) [OF ok2] cin hdr by (intro ph_ok_frame) (auto intro!: cr(5))
      have fr: "gh_frame s2 s3" by (simp add: s3_def)
      have mz: "mem s3 y = mem s2 y" if "z \<in> slabs ?V" "y \<in> slab_range (mem s2) z" for z y
      proof -
        have "y \<notin> slab_header x" using L'(3) [of z] that hdr m2 sV by auto
        then show ?thesis by (simp add: s3_def cr(5))
      qed
      have oz: "span_owned api s3 z (slab_memory_size (mem s2) z)" if "z \<in> slabs ?V" for z
      proof -
        have "span_owned api s2 z (slab_memory_size (mem s2) z)" using gh_good [OF ok2 that] by (simp add: slab_good_def)
        moreover have "span_owned api s2 p n = span_owned api s3 p n" for p n
          by (rule os_cong(3)) (simp_all add: s3_def)
        ultimately show ?thesis by simp
      qed
      have nc: "slab_range (mem s2) z \<inter> cached_cells api L' = {}" if "z \<in> slabs ?V" for z
        using gh_good [OF ok2 that] by (simp add: slab_good_def)
      have hb: "gh_ok api {} s3 (?V\<lparr>vL := L'\<rparr>)" "client (?V\<lparr>vL := L'\<rparr>) (mem s3) = client ?V (mem s2)"
        "kept (client ?V (mem s2)) (mem s2) (mem s3)" "\<And>z. z \<in> slabs ?V \<Longrightarrow> same_header (mem s2) (mem s3) z"
        using heap_below [OF ok2 fr ph _ oz nc] mz by blast+
      have Veq: "?V\<lparr>vL := L'\<rparr> = ?V" by simp
      have m3: "mem s3 = m" by (simp add: s3_def)
      have "spared api {x..<x + ?n} s2 ?V s3 ?V"
      proof (rule spared_inside)
        show "mem s3 y = mem s2 y" if "y \<notin> {x..<x + ?n}" for y
          unfolding m3 by (rule cr(5)) (use hdr that in blast)
      qed (use same_headerD(7) [OF hb(4)] in \<open>auto simp: s3_def\<close>)
      then have acc3: "accounts_but {x..<x + ?n} api s2 ?V {} {} s3 ?V"
        using hb fr by (simp add: accounts_def gh_frame_def)
      have rng: "slab_range (mem s3) x = {x..<x + ?n}" by (simp add: slab_range_def m3 hd)
      have tot: "0 < (?n - 80) div ?bs" using pre by (simp add: div_greater_zero_iff)
      have good: "slab_good api s3 (vL ?V) x []"
        using cr(2) hd cls c a t(3) tot own [of x ?n] L'(1) cin
        by (simp add: slab_good_def m3 rng [unfolded m3] ph_grant_def)
      have out: "slab_out (mem s3) x [] = {}" using cr(3,4) by (simp add: slab_out_def m3)
      have rz: "slab_range (mem s3) z = slab_range (mem s2) z" if "z \<in> slabs ?V" for z
        by (rule same_headerD(7) [OF hb(4) [OF that]])
      have fb: "slab_free_blocks (mem s3) x \<noteq> 0" using hd tot by (simp add: m3)
      have dz: "slab_range (mem s3) z \<inter> slab_range (mem s3) x = {}" if "z \<in> slabs ?V" for z
        using rz [OF that] L'(3) [of z] that unfolding rng m2 sV by simp
      have ai: "slab_arena_index (mem s3) x = a" "slab_class_idx (mem s3) x = c" using hd cls by (simp_all add: m3)
      note push = push_new_slab [OF spec accounts_ok [OF acc3] good fb out ai dz, unfolded rng]
      have "accounts api s V {} {} s2 ?V" using L'(2) m2 by (simp add: accounts_def s2_def)
      from gone_trans [OF gone_trans [OF accounts_mono [OF this] acc3] push]
      have but: "accounts_but {x..<x + ?n} api s V {} {} (push_partial a c x s3)
          (?V\<lparr>vP := upd2 (vP ?V) a c (x # vP ?V a c), vfl := (vfl ?V)(x := [])\<rparr>)" by simp
      have "{p..<p + k} \<inter> {x..<x + ?n} = {}" if "ext api s V p k" for p k
        using ext_used [OF that] L'(1) unfolding ph_grant_def by blast
      from accounts_drop [OF but this] show ?thesis
        using x by (auto simp: res intro!: exI)
    qed
  qed
qed

section \<open>Extracting blocks from a slab\<close>

lemma retire_if_full_silent:
  assumes spec: "os_spec api" and ok: "gh_ok api {sl} s V" and sl: "sl \<in> set (vP V a c)"
  shows "\<exists>V'. silent api {} s V (retire_if_full a c sl s) V'"
proof (cases "Slab_IsFull (mem s) sl")
  case True
  then show ?thesis
    using move_to_full [OF spec ok sl] by (auto simp: retire_if_full_def Slab_IsFull_def)
next
  case False
  have "sl \<notin> set (vF V a' c')" for a' c'
    using lists_disjoint(1) [OF gh_okD(2,3) [OF ok], of a' c' a c] sl by blast
  then have "filling_ok {} (mem s) V"
    using False gh_okD(5) [OF ok] by - (rule filling_ok_drop [of sl "{}"], auto simp: Slab_IsFull_def)
  then have "silent api {} s V s V" using ok by (simp add: silent_def gh_ok_def)
  then show ?thesis using False by (auto simp: retire_if_full_def)
qed

text \<open>
  The blocks \<open>xs\<close> were taken from slab \<open>sl\<close> since state \<open>s0\<close>; head and tail of the list under
  construction, whose last link is not yet set.
\<close>

definition took :: "os_api \<Rightarrow> addr \<Rightarrow> 'a gh_state_scheme \<Rightarrow> view \<Rightarrow> addr list \<Rightarrow> 'a gh_state_scheme \<Rightarrow> view \<Rightarrow> bool" where
  "took api sl s0 V0 xs s V \<longleftrightarrow> gh_ok api {sl} s V \<and> env s = env s0
     \<and> client V (mem s) = client V0 (mem s0) \<union> set xs \<and> set xs \<inter> client V0 (mem s0) = {} \<and> distinct xs
     \<and> kept (client V0 (mem s0)) (mem s0) (mem s) \<and> vP V = vP V0 \<and> vF V = vF V0 \<and> vQ V = vQ V0
     \<and> (\<forall>x \<in> set xs. fb_slab (mem s) x = sl) \<and> spared api {} s0 V0 s V"

definition open_list :: "mem \<Rightarrow> addr \<Rightarrow> addr \<Rightarrow> addr list \<Rightarrow> bool" where
  "open_list m h t xs \<longleftrightarrow> (if h = 0 then xs = [] \<and> t = 0 else t \<noteq> 0 \<and> (\<exists>ys. xs = ys @ [t] \<and> seg (fb_next m) h ys t))"

lemma take_one:
  assumes tk: "took api sl s0 V0 xs (s\<lparr>mem := m\<rparr>) V" and op: "open_list m h t xs"
    and spec: "os_spec api" and sl: "sl \<in> slabs V" and ne: "slab_free_blocks m sl \<noteq> 0"
  shows "\<exists>b m1 V1. Slab_Allocate sl m = (b, m1) \<and> b \<noteq> 0 \<and> IsPlausibleHeapPtr b
    \<and> (let m2 = (if h = 0 then m1 else set_fb_next t b m1)
       in took api sl s0 V0 (xs @ [b]) (s\<lparr>mem := m2\<rparr>) V1 \<and> slabs V1 = slabs V
         \<and> open_list m2 (if h = 0 then b else h) b (xs @ [b]))"
proof -
  let ?C = "client V0 (mem s0)"
  have ok: "gh_ok api {sl} (s\<lparr>mem := m\<rparr>) V" and cl: "client V m = ?C \<union> set xs" and dj: "set xs \<inter> ?C = {}"
    and ds: "distinct xs" and kp: "kept ?C (mem s0) m" and fs: "\<And>x. x \<in> set xs \<Longrightarrow> fb_slab m x = sl"
    and fr: "env s = env s0" "vP V = vP V0" "vF V = vF V0" "vQ V = vQ V0"
    and sp: "spared api {} s0 V0 (s\<lparr>mem := m\<rparr>) V"
    using tk by (simp_all add: took_def)
  obtain b m1 fl where t: "Slab_Allocate sl m = (b, m1)"
    "gh_ok api {sl} (s\<lparr>mem := m1\<rparr>) (V\<lparr>vfl := (vfl V)(sl := fl)\<rparr>)" "b \<in> slab_blocks m sl"
    "b \<notin> client V m" "b \<notin> queued V" "client (V\<lparr>vfl := (vfl V)(sl := fl)\<rparr>) m1 = insert b (client V m)"
    "kept (client V m) m m1" "b \<in> slab_out m1 sl fl" "spared api {} (s\<lparr>mem := m\<rparr>) V (s\<lparr>mem := m1\<rparr>) (V\<lparr>vfl := (vfl V)(sl := fl)\<rparr>)"
    by (rule slab_take [OF ok sl]) (use ne in simp_all)
  define V1 where "V1 = V\<lparr>vfl := (vfl V)(sl := fl)\<rparr>"
  note t = t [folded V1_def]
  have V1: "vP V1 = vP V" "vF V1 = vF V" "vQ V1 = vQ V" "slabs V1 = slabs V" "vfl V1 sl = fl"
    by (simp_all add: V1_def slabs_def listed_def)
  have bin: "b \<in> client V1 m1" using t(6) by simp
  have bpl: "IsPlausibleHeapPtr b" "b \<noteq> 0" using client_facts(1,4) [OF spec t(2)] bin by simp_all
  have fb: "fb_slab m1 b = sl"
    using out_header(1) [OF slab_good_geom(2) [OF gh_good [OF t(2)]]] t(8) sl V1 by simp
  have fs1: "fb_slab m1 x = sl" if "x \<in> set xs" for x
    using kept_header(2) [OF t(7), of x] cl fs [OF that] that by auto
  have kp1: "kept ?C (mem s0) m1" using kept_trans [OF kp] kept_mono [OF t(7)] cl by blast
  have bx: "b \<notin> set xs" "b \<notin> ?C" using t(4) cl by auto
  have tk1: "took api sl s0 V0 (xs @ [b]) (s\<lparr>mem := m1\<rparr>) V1"
    using t(2,6) fr V1 cl dj ds bx kp1 fb fs1 spared_trans [OF sp t(9)] by (auto simp: took_def)
  have link: "m1 (x + 16) = m (x + 16)" if "x \<in> set xs" for x
    using kept_header(5) [OF t(7), of x "x + 16"] client_facts(5) [OF spec ok, of x] cl that by simp
  show ?thesis
  proof (cases "h = 0")
    case True
    then have "open_list m1 b b (xs @ [b])" using op bpl by (simp add: open_list_def)
    then show ?thesis using True t(1) bpl tk1 V1 by (intro exI [of _ b] exI [of _ m1] exI [of _ V1]) simp
  next
    case False
    then obtain ys where ys: "xs = ys @ [t]" "seg (fb_next m) h ys t" "t \<noteq> 0" using op by (auto simp: open_list_def)
    let ?m2 = "set_fb_next t b m1"
    have tC: "t \<in> client V1 m1" "t \<noteq> b" "t \<notin> ?C" using t(6) cl ys bx dj by auto
    note w = client_cell_write [OF t(2), of t b]
    have eq: "upd_mem (set_fb_next t b) (s\<lparr>mem := m1\<rparr>) = s\<lparr>mem := ?m2\<rparr>" by (simp add: upd_mem_def)
    have "kept ?C m1 ?m2"
      by (rule kept_mono [of "client V1 m1 - {t}"]) (use w(3) tC t(6) cl in \<open>auto simp: upd_mem_def\<close>)
    moreover have "fb_slab ?m2 x = fb_slab m1 x" if "x \<in> set (xs @ [b])" for x
    proof (cases "x = t")
      case False
      then have "x \<in> client V1 m1 - {t}" using that t(6) cl by auto
      then show ?thesis using kept_header(2) [OF w(3)] tC(1) by (simp add: upd_mem_def)
    qed (simp add: cells)
    ultimately have "took api sl s0 V0 (xs @ [b]) (s\<lparr>mem := ?m2\<rparr>) V1"
      using tk1 w(1,2) tC(1) kept_trans [OF kp1, of ?m2] eq spared_trans [OF _ w(4)] by (auto simp: took_def)
    moreover have "open_list ?m2 h b (xs @ [b])"
    proof -
      have "t \<notin> set ys" using ds ys(1) by simp
      moreover have "seg (fb_next m1) h ys t"
        using ys link by (subst seg_cong [of ys "fb_next m1" "fb_next m"]) (auto simp: cells)
      ultimately have "seg (fb_next ?m2) h ys t" using fb.seg_put_other by simp
      then show ?thesis using False bpl ys by (simp add: open_list_def fb.get_put)
    qed
    ultimately show ?thesis using False t(1) bpl V1 by (intro exI [of _ b] exI [of _ m1] exI [of _ V1]) simp
  qed
qed

lemma extract_loop_took:
  assumes "os_spec api" "took api sl s0 V0 xs (s\<lparr>mem := m\<rparr>) V" "open_list m h t xs" "sl \<in> slabs V"
    "extract_loop sl target h t n m = (h', t', n', m')"
  shows "\<exists>ys V'. took api sl s0 V0 (xs @ ys) (s\<lparr>mem := m'\<rparr>) V' \<and> open_list m' h' t' (xs @ ys) \<and> n' = n + length ys
    \<and> (n \<le> target \<longrightarrow> n' \<le> target) \<and> (n < target \<and> slab_free_blocks m sl \<noteq> 0 \<longrightarrow> ys \<noteq> [])"
  using assms(2-)
proof (induction sl target h t n m arbitrary: xs V rule: extract_loop.induct)
  case (1 sl target h t n m)
  show ?case
  proof (cases "n < target \<and> \<not> Slab_IsFull m sl")
    case False
    then have "h' = h" "t' = t" "n' = n" "m' = m" using 1(6) by (auto simp: extract_loop.simps)
    then show ?thesis
      using 1(3,4) False by (intro exI [of _ "[]"] exI [of _ V]) (auto simp: Slab_IsFull_def)
  next
    case True
    have fb: "slab_free_blocks m sl \<noteq> 0" using True by (simp add: Slab_IsFull_def)
    obtain b m1 V1 where b: "Slab_Allocate sl m = (b, m1)" "b \<noteq> 0" "IsPlausibleHeapPtr b"
      and tk: "let m2 = (if h = 0 then m1 else set_fb_next t b m1)
       in took api sl s0 V0 (xs @ [b]) (s\<lparr>mem := m2\<rparr>) V1 \<and> slabs V1 = slabs V
         \<and> open_list m2 (if h = 0 then b else h) b (xs @ [b])"
      using take_one [OF 1(3,4) assms(1) 1(5) fb] by blast
    define m2 where "m2 = (if h = 0 then m1 else set_fb_next t b m1)"
    have t2: "took api sl s0 V0 (xs @ [b]) (s\<lparr>mem := m2\<rparr>) V1" "slabs V1 = slabs V"
      "open_list m2 (if h = 0 then b else h) b (xs @ [b])" using tk by (simp_all add: Let_def m2_def)
    have step: "extract_loop sl target (if h = 0 then b else h) b (n + 1) m2 = (h', t', n', m')"
      using 1(6) True b by (subst (asm) extract_loop.simps) (auto simp: m2_def split: if_splits)
    have bb: "\<not> (b = 0 \<or> \<not> IsPlausibleHeapPtr b)" using b by simp
    have sl1: "sl \<in> slabs V1" using t2(2) 1(5) by simp
    have "\<exists>ys V'. took api sl s0 V0 ((xs @ [b]) @ ys) (s\<lparr>mem := m'\<rparr>) V' \<and> open_list m' h' t' ((xs @ [b]) @ ys)
      \<and> n' = (n + 1) + length ys \<and> (n + 1 \<le> target \<longrightarrow> n' \<le> target)"
    proof (cases "h = 0")
      case h: True
      then show ?thesis
        using 1(1) [OF True refl b(1) [symmetric] bb h, of "xs @ [b]" V1] t2(1,3) sl1 step by (auto simp: m2_def)
    next
      case h: False
      then show ?thesis
        using 1(2) [OF True refl b(1) [symmetric] bb h, of "xs @ [b]" V1] t2(1,3) sl1 step by (auto simp: m2_def)
    qed
    then obtain ys V' where "took api sl s0 V0 (xs @ b # ys) (s\<lparr>mem := m'\<rparr>) V'" "open_list m' h' t' (xs @ b # ys)"
      "n' = n + 1 + length ys" "n + 1 \<le> target \<longrightarrow> n' \<le> target" by auto
    then show ?thesis using True by (intro exI [of _ "b # ys"] exI [of _ V']) auto
  qed
qed

text \<open>
  What a refill hands to the client: a null-terminated list of blocks, all new to the client, of
  class \<open>c\<close>; \<open>supplied\<close> relates the state before the call to the state after it.
\<close>

definition supplied :: "os_api \<Rightarrow> nat \<Rightarrow> 'a gh_state_scheme \<Rightarrow> view \<Rightarrow> addr \<Rightarrow> addr list \<Rightarrow> 'a gh_state_scheme \<Rightarrow> view \<Rightarrow> bool" where
  "supplied api c s V h xs s' V' \<longleftrightarrow> accounts api s V {} (set xs) s' V' \<and> set xs \<inter> client V (mem s) = {}
     \<and> chain (fb_next (mem s')) h xs \<and> (\<forall>x \<in> set xs. fb_class_index (mem s') x = c)"

lemma supplied_none: "accounts api s V {} {} s' V' \<Longrightarrow> supplied api c s V 0 [] s' V'"
  by (simp add: supplied_def)

lemma supplied_sub: "supplied api c s V h xs s' V' \<Longrightarrow> set xs \<subseteq> client V' (mem s')"
  by (auto simp: supplied_def accounts_def)

text \<open>Steps that neither take nor give and leave the client's blocks alone may follow or precede.\<close>

lemma supplied_before:
  assumes "accounts api s V {} {} s1 V1" "supplied api c s1 V1 h xs s' V'"
  shows "supplied api c s V h xs s' V'"
  using accounts_trans [OF assms(1)] assms by (auto simp: supplied_def accounts_client)

lemma supplied_after:
  assumes spec: "os_spec api" and sup: "supplied api c s V h xs s1 V1" and acc: "accounts api s1 V1 {} {} s' V'"
  shows "supplied api c s V h xs s' V'"
proof -
  have a: "accounts api s V {} (set xs) s1 V1" and dj: "set xs \<inter> client V (mem s) = {}"
    using sup by (simp_all add: supplied_def)
  have sub: "set xs \<subseteq> client V1 (mem s1)" by (rule supplied_sub [OF sup])
  have k: "kept (client V1 (mem s1)) (mem s1) (mem s')" using acc by (simp add: accounts_def)
  have "chain (fb_next (mem s')) h xs"
    using sup kept_chain [OF k sub] client_facts(5) [OF spec accounts_ok [OF a]] sub by (auto simp: supplied_def)
  moreover have "fb_class_index (mem s') x = c" if "x \<in> set xs" for x
    using kept_header(3) [OF k, of x] sub that sup by (auto simp: supplied_def)
  ultimately show ?thesis using accounts_trans [OF a acc] dj by (auto simp: supplied_def)
qed

lemma ExtractBlocksFromSlab_supplied:
  assumes spec: "os_spec api" and ok: "gh_ok api {} s V" and sl: "sl \<in> set (vP V a c)" and n: "n < target"
    and r: "ExtractBlocksFromSlab sl c target n a s = (h, n', s')"
  shows "\<exists>xs V'. supplied api c s V h xs s' V' \<and> n' = n + length xs \<and> n' \<le> target \<and> xs \<noteq> []"
proof -
  obtain t m n1 h1 where e: "extract_loop sl target 0 0 n (mem s) = (h1, t, n1, m)" by (metis prod_cases4)
  have slV: "sl \<in> slabs V" by (rule in_slabs(1) [OF sl])
  have sm: "s\<lparr>mem := mem s\<rparr> = s" by simp
  have "took api sl s V [] (s\<lparr>mem := mem s\<rparr>) V"
    using gh_ok_mono [OF ok, of "{sl}"] by (simp add: took_def)
  from extract_loop_took [OF spec this _ slV e] obtain xs V1
    where tk: "took api sl s V xs (s\<lparr>mem := m\<rparr>) V1" and op: "open_list m h1 t xs" and cnt: "n1 = n + length xs" "n1 \<le> target"
      and ne: "slab_free_blocks (mem s) sl \<noteq> 0 \<longrightarrow> xs \<noteq> []"
    using n by (auto simp: open_list_def)
  have "xs \<noteq> []" using ne gh_okD(5) [OF ok] sl unfolding filling_ok_def by blast
  then obtain ys where ys: "h1 \<noteq> 0" "t \<noteq> 0" "xs = ys @ [t]" "seg (fb_next m) h1 ys t"
    using op by (auto simp: open_list_def split: if_splits)
  let ?C = "client V (mem s)"
  have tk': "gh_ok api {sl} (s\<lparr>mem := m\<rparr>) V1" "client V1 m = ?C \<union> set xs" "set xs \<inter> ?C = {}" "distinct xs"
    "kept ?C (mem s) m" "vP V1 = vP V" "\<And>x. x \<in> set xs \<Longrightarrow> fb_slab m x = sl" "spared api {} s V (s\<lparr>mem := m\<rparr>) V1"
    using tk by (simp_all add: took_def)
  define s2 where "s2 = retire_if_full a c sl (s\<lparr>mem := m\<rparr>)"
  obtain V2 where V2: "silent api {} (s\<lparr>mem := m\<rparr>) V1 s2 V2"
    using retire_if_full_silent [OF spec tk'(1)] sl tk'(6) unfolding s2_def by metis
  have s2: "gh_ok api {} s2 V2" "client V2 (mem s2) = ?C \<union> set xs" "kept (?C \<union> set xs) m (mem s2)" "env s2 = env s"
    using V2 tk'(2) by (simp_all add: silent_def)
  have "kept ?C (mem s) (mem s2)" using kept_trans [OF tk'(5)] kept_mono [OF s2(3)] by blast
  moreover have "spared api {} s V s2 V2" using spared_trans [OF tk'(8)] V2 by (simp add: silent_def)
  ultimately have a2: "accounts api s V {} (set xs) s2 V2" using s2 by (simp add: accounts_def)
  define s3 where "s3 = upd_mem (set_fb_next t 0) s2"
  have tC: "t \<in> client V2 (mem s2)" using s2(2) ys(3) by simp
  note w = client_link [OF s2(1) tC, where v = 0, folded s3_def]
  have "accounts api s V {} (set xs) s3 V2"
    using accounts_trans [OF a2 w(1)] tk'(3) ys(3) by (auto simp: insert_absorb)
  moreover have "chain (fb_next (mem s3)) h1 xs"
  proof -
    have "mem s2 (x + 16) = m (x + 16)" if "x \<in> set xs" for x
      using kept_header(5) [OF s2(3), of x "x + 16"] client_facts(5) [OF spec tk'(1), of x] tk'(2) that by simp
    then have "seg (fb_next (mem s2)) h1 ys t"
      using ys(3,4) by (subst seg_cong [of ys _ "fb_next m"]) (auto simp: cells)
    moreover have "t \<notin> set ys" using tk'(4) ys(3) by simp
    ultimately show ?thesis
      using ys(2) by (simp add: s3_def upd_mem_def ys(3) chain_append fb.seg_put_other fb.get_put)
  qed
  moreover have "fb_class_index (mem s3) x = c" if x: "x \<in> set xs" for x
  proof -
    have xc: "x \<in> client V2 (mem s2)" "x \<in> client V2 (mem s3)" using s2(2) w(2) x by auto
    have "sl \<in> listed V1 a c" using sl tk'(6) by (simp add: listed_def)
    then have "routed m a c x"
      using client_routed [OF tk'(1), of x a c] tk'(2,7) x by simp
    then have "routed (mem s3) a c x"
      using kept_routed [OF s2(3), of x] w(4) [OF xc(1)] x by simp
    then show ?thesis using client_facts(6) [OF spec accounts_ok [OF w(1)] xc(2)] by (simp add: routed_def)
  qed
  moreover have "h = h1" "n' = n1" "s' = s3"
    using r e ys(2) by (simp_all add: ExtractBlocksFromSlab_def s3_def s2_def Let_def)
  ultimately have "supplied api c s V h xs s' V2" using tk'(3) by (simp add: supplied_def)
  then show ?thesis using cnt \<open>n' = n1\<close> \<open>xs \<noteq> []\<close> by blast
qed

section \<open>A single block\<close>

lemma take_from_partial:
  assumes spec: "os_spec api" and ok: "gh_ok api {} s V" and sl: "sl \<in> set (vP V a c)"
    and r: "Slab_Allocate sl (mem s) = (p, m)"
  shows "\<exists>V'. accounts api s V {} {p} (retire_if_full a c sl (s\<lparr>mem := m\<rparr>)) V' \<and> p \<notin> client V (mem s) \<and> p \<noteq> 0
    \<and> routed (mem (retire_if_full a c sl (s\<lparr>mem := m\<rparr>))) a c p"
proof -
  have fb: "slab_free_blocks (mem s) sl \<noteq> 0" using gh_okD(5) [OF ok] sl unfolding filling_ok_def by blast
  obtain b m' fl where t: "Slab_Allocate sl (mem s) = (b, m')" "gh_ok api (insert sl {}) (s\<lparr>mem := m'\<rparr>) (V\<lparr>vfl := (vfl V)(sl := fl)\<rparr>)"
    "b \<notin> client V (mem s)" "client (V\<lparr>vfl := (vfl V)(sl := fl)\<rparr>) m' = insert b (client V (mem s))"
    "kept (client V (mem s)) (mem s) m'" "b \<in> slab_out m' sl fl" "spared api {} s V (s\<lparr>mem := m'\<rparr>) (V\<lparr>vfl := (vfl V)(sl := fl)\<rparr>)"
    by (rule slab_take [OF ok in_slabs(1) [OF sl] fb])
  let ?V = "V\<lparr>vfl := (vfl V)(sl := fl)\<rparr>" and ?s = "retire_if_full a c sl (s\<lparr>mem := m\<rparr>)"
  have eq: "b = p" "m' = m" using t(1) r by simp_all
  obtain V' where V': "silent api {} (s\<lparr>mem := m\<rparr>) ?V ?s V'"
    using retire_if_full_silent [OF spec, of sl "s\<lparr>mem := m\<rparr>" ?V a c] t(2) sl eq by auto
  have pc: "p \<in> client ?V m" "p \<in> client V' (mem ?s)" using t(4) V' eq by (auto simp: silent_def)
  have "fb_slab m p = sl"
    using out_header(1) [OF slab_good_geom(2) [OF gh_good [OF t(2)]]] t(6) in_slabs(1) [OF sl] eq
    by (simp add: slabs_def listed_def)
  moreover have "sl \<in> listed ?V a c" using sl by (simp add: listed_def)
  ultimately have "routed m a c p" using client_routed [OF t(2), of p] pc(1) eq by simp
  then have "routed (mem ?s) a c p" 
    using V' kept_routed [OF _ pc(1), of m "mem ?s" a c] by (simp add: silent_def)
  moreover have "kept (client V (mem s)) (mem s) (mem ?s)"
    using V' t(4) kept_trans [OF t(5)] kept_mono [of "insert p (client V (mem s))" m "mem ?s"] eq by (auto simp: silent_def)
  then have "accounts api s V {} {p} ?s V'"
    using V' t(4) eq spared_trans [OF t(7)] by (auto simp: accounts_def silent_def)
  moreover have "p \<noteq> 0" using client_facts(4) [OF spec accounts_ok [OF \<open>accounts api s V {} {p} ?s V'\<close>] pc(2)] .
  ultimately show ?thesis using t(3) eq by blast
qed

lemma AllocateBlock_global_accounts:
  assumes spec: "os_spec api" and ok: "gh_ok api {} s V" and free: "\<not> lock_busy s a c"
    and c: "1 \<le> c" "c < NUM_SIZE_CLASSES" and a: "a < NUM_ARENAS"
  shows "\<exists>p s' V'. AllocateBlock_global api c a s = Some (p, s')
    \<and> (if p = 0 then accounts api s V {} {} s' V'
       else accounts api s V {} {p} s' V' \<and> p \<notin> client V (mem s) \<and> routed (mem s') a c p)"
proof -
  obtain s1 V1 where d: "DrainPendingReturns api a c s = Some s1" "accounts api s V {} {} s1 V1"
    using DrainPendingReturns_accounts [OF spec ok] by blast
  note ok1 = accounts_ok [OF d(2)]
  have cl: "client V1 (mem s1) = client V (mem s)" using accounts_client [OF d(2)] by simp
  note li = lists_okD(1) [OF gh_okD(3) [OF ok1], of a c]
  show ?thesis
  proof (cases "partial_slabs s1 a c = 0")
    case False
    let ?sl = "partial_slabs s1 a c"
    have sl: "?sl \<in> set (vP V1 a c)" using False dlist_head [OF li] by auto
    obtain p m where p: "Slab_Allocate ?sl (mem s1) = (p, m)" by fastforce
    obtain V' where "accounts api s1 V1 {} {p} (retire_if_full a c ?sl (s1\<lparr>mem := m\<rparr>)) V'" "p \<notin> client V1 (mem s1)" "p \<noteq> 0"
      "routed (mem (retire_if_full a c ?sl (s1\<lparr>mem := m\<rparr>))) a c p"
      using take_from_partial [OF spec ok1 sl p] by blast
    then show ?thesis
      using False free d p cl accounts_trans [OF d(2), of "{}" "{p}"] by (auto simp: AllocateBlock_global_def Let_def)
  next
    case True
    obtain sl s2 where ns: "AllocateNewSlab api c a s1 = (sl, s2)" by fastforce
    note n = AllocateNewSlab_accounts [OF spec ok1 c a ns]
    show ?thesis
    proof (cases "sl = 0")
      case sl: True
      then have "accounts api s V {} {} s2 V1" using n gone_trans [OF d(2)] by simp
      then show ?thesis using True sl free d ns by (auto simp: AllocateBlock_global_def Let_def)
    next
      case sl: False
      let ?s3 = "push_partial a c sl s2"
      obtain V2 where V2: "accounts api s1 V1 {} {} ?s3 V2" "sl \<in> set (vP V2 a c)" using n sl by auto
      have a3: "accounts api s V {} {} ?s3 V2" using gone_trans [OF d(2) V2(1)] by simp
      have cl3: "client V2 (mem ?s3) = client V (mem s)" using accounts_client [OF a3] by simp
      obtain p m where p: "Slab_Allocate sl (mem ?s3) = (p, m)" by fastforce
      obtain V' where "accounts api ?s3 V2 {} {p} (retire_if_full a c sl (?s3\<lparr>mem := m\<rparr>)) V'" "p \<notin> client V2 (mem ?s3)" "p \<noteq> 0"
        "routed (mem (retire_if_full a c sl (?s3\<lparr>mem := m\<rparr>))) a c p"
        using take_from_partial [OF spec accounts_ok [OF V2(1)] V2(2) p] by blast
      then show ?thesis
        using True sl free d ns p cl3 accounts_trans [OF a3, of "{}" "{p}"] by (auto simp: AllocateBlock_global_def Let_def)
    qed
  qed
qed

section \<open>Lists of blocks on their way to the client\<close>

definition holding :: "os_api \<Rightarrow> 'a gh_state_scheme \<Rightarrow> view \<Rightarrow> addr set \<Rightarrow> 'a gh_state_scheme \<Rightarrow> view \<Rightarrow> bool" where
  "holding api s0 V0 B s V \<longleftrightarrow> accounts api s0 V0 {} B s V \<and> B \<inter> client V0 (mem s0) = {}"

definition held_list :: "nat \<Rightarrow> 'a gh_state_scheme \<Rightarrow> view \<Rightarrow> addr \<Rightarrow> addr list \<Rightarrow> bool" where
  "held_list c s V h xs \<longleftrightarrow> chain (fb_next (mem s)) h xs \<and> set xs \<subseteq> client V (mem s)
     \<and> (\<forall>x \<in> set xs. fb_class_index (mem s) x = c)"

lemma supplied_holding: "supplied api c s0 V0 h xs s V \<longleftrightarrow> holding api s0 V0 (set xs) s V \<and> held_list c s V h xs"
  by (auto simp: supplied_def holding_def held_list_def accounts_def)

lemma holdingD:
  assumes "holding api s0 V0 B s V"
  shows "gh_ok api {} s V" "B \<subseteq> client V (mem s)" "env s = env s0"
  using assms by (auto simp: holding_def accounts_def)

lemma holding_take:
  assumes "holding api s0 V0 B s V" "accounts api s V {} Q s1 V1" "Q \<inter> client V (mem s) = {}"
  shows "holding api s0 V0 (B \<union> Q) s1 V1"
proof -
  have "client V (mem s) = client V0 (mem s0) \<union> B" using assms(1) by (simp add: holding_def accounts_def)
  then show ?thesis
    using assms accounts_trans [of "{}" api s0 V0 "{}" B s V "{}" Q s1 V1] by (auto simp: holding_def)
qed

lemma holding_give:
  assumes "holding api s0 V0 B s V" "accounts api s V Z {} s1 V1" "Z \<subseteq> B"
  shows "holding api s0 V0 (B - Z) s1 V1"
proof -
  have e: "{} \<union> (Z - B) = {}" "B - Z \<union> {} = B - Z" using assms(3) by blast+
  have "accounts api s0 V0 ({} \<union> (Z - B)) (B - Z \<union> {}) s1 V1"
    by (rule accounts_trans [OF _ assms(2)]) (use assms(1) in \<open>auto simp: holding_def\<close>)
  then show ?thesis unfolding e using assms(1) by (auto simp: holding_def)
qed

lemma holding_write:
  assumes "holding api s0 V0 B s V" "accounts api s V T T s1 V1" "T \<subseteq> B"
  shows "holding api s0 V0 B s1 V1"
proof -
  have e: "{} \<union> (T - B) = {}" "B - T \<union> T = B" using assms(3) by blast+
  have "accounts api s0 V0 ({} \<union> (T - B)) (B - T \<union> T) s1 V1"
    by (rule accounts_trans [OF _ assms(2)]) (use assms(1) in \<open>auto simp: holding_def\<close>)
  then show ?thesis unfolding e using assms(1) by (auto simp: holding_def)
qed

lemma held_list_step:
  assumes "os_spec api" "gh_ok api {} s V" "held_list c s V h xs" "accounts_but R api s V G C s1 V1" "set xs \<inter> G = {}"
  shows "held_list c s1 V1 h xs"
proof -
  have sub: "set xs \<subseteq> client V (mem s) - G" using assms(3,5) by (auto simp: held_list_def)
  have k: "kept (client V (mem s) - G) (mem s) (mem s1)" using assms(4) by (simp add: accounts_def)
  have "chain (fb_next (mem s1)) h xs"
    using assms(3) kept_chain [OF k sub] client_facts(5) [OF assms(1,2)] sub by (auto simp: held_list_def)
  moreover have "fb_class_index (mem s1) x = c" if "x \<in> set xs" for x
    using kept_header(3) [OF k, of x] sub that assms(3) by (auto simp: held_list_def)
  ultimately show ?thesis using sub accounts_client [OF assms(4)] by (auto simp: held_list_def)
qed

lemma client_link_class:
  assumes "gh_ok api {} s V" "b \<in> client V (mem s)" "x \<in> client V (mem s)"
  shows "fb_class_index (mem (upd_mem (set_fb_next b v) s)) x = fb_class_index (mem s) x"
proof (cases "x = b")
  case False
  then show ?thesis using kept_header(3) [OF client_cell_write(3) [OF assms(1,2)], of x] assms(3) by simp
qed (simp add: upd_mem_def cells)

text \<open>Cutting a list, and joining two.\<close>

lemma feed_walk_chain:
  assumes "chain (fb_next m) x (x # ys)" "\<And>y. y \<in> set ys \<Longrightarrow> IsPlausibleHeapPtr y"
  shows "feed_walk m target base x k
    = ((x # ys) ! min (length ys) (target - (base + k)), k + min (length ys) (target - (base + k)))"
  using assms
proof (induction ys arbitrary: x k)
  case Nil
  then show ?case by (subst feed_walk.simps) simp
next
  case (Cons y ys)
  have n: "fb_next m x = y" "y \<noteq> 0" "chain (fb_next m) y (y # ys)" "IsPlausibleHeapPtr y" using Cons.prems by auto
  show ?case
  proof (cases "base + k < target")
    case True
    then have t: "target - (base + k) = Suc (target - (base + (k + 1)))" by simp
    have "feed_walk m target base x k = feed_walk m target base y (k + 1)"
      using True n by (subst feed_walk.simps) simp
    also have "\<dots> = ((y # ys) ! min (length ys) (target - (base + (k + 1))), k + 1 + min (length ys) (target - (base + (k + 1))))"
      using Cons.IH [OF n(3)] Cons.prems(2) by simp
    finally show ?thesis unfolding t by simp
  next
    case False
    then show ?thesis by (subst feed_walk.simps) simp
  qed
qed

lemma cut_list_chain:
  assumes ch: "chain (fb_next m) p q" and ne: "q \<noteq> []" and pl: "\<And>y. y \<in> set q \<Longrightarrow> IsPlausibleHeapPtr y"
  shows "\<exists>ys t zs. q = ys @ t # zs \<and> cut_list target base p m = (Suc (length ys), fb_next m t, set_fb_next t 0 m)
    \<and> length ys = min (length q - 1) (target - (base + 1))
    \<and> chain (fb_next (set_fb_next t 0 m)) p (ys @ [t]) \<and> chain (fb_next (set_fb_next t 0 m)) (fb_next m t) zs"
proof -
  obtain r where q: "q = p # r" "p \<noteq> 0" using ch ne by (cases q) auto
  let ?j = "min (length r) (target - (base + 1))"
  define t ys zs where d: "t = q ! ?j" "ys = take ?j q" "zs = drop (Suc ?j) q"
  have len: "?j < length q" using q by simp
  have sp: "q = ys @ t # zs" unfolding d by (rule id_take_nth_drop [OF len])
  have ch': "chain (fb_next m) p (ys @ t # zs)" using ch sp by simp
  have ly: "length ys = ?j" using len by (simp add: d)
  have "chain (fb_next m) (fb_next m t) zs" using ch' by (auto simp: chain_append)
  then have rest: "fb_next m t = 0 \<or> IsPlausibleHeapPtr (fb_next m t)" using pl sp by (cases zs) auto
  have "feed_walk m target base p 1 = (t, 1 + ?j)"
    using feed_walk_chain [of m p r target base 1] ch pl q by (simp add: d(1))
  then have "cut_list target base p m = (Suc ?j, fb_next m t, set_fb_next t 0 m)"
    using rest by (auto simp: cut_list_def Let_def)
  moreover have "?j = min (length q - 1) (target - (base + 1))" using q(1) by simp
  ultimately show ?thesis using fb.chain_cut [OF ch'] sp ly by metis
qed

lemma append_walk_last:
  assumes "chain (fb_next m) h (xs @ [t])" "\<And>y. y \<in> set (xs @ [t]) \<Longrightarrow> IsPlausibleHeapPtr y"
  shows "append_walk m h = Some t"
  using assms
proof (induction xs arbitrary: h)
  case Nil
  then show ?case by (subst append_walk.simps) simp
next
  case (Cons x xs)
  have n: "h = x" "chain (fb_next m) (fb_next m x) (xs @ [t])" using Cons.prems(1) by auto
  then have "fb_next m x = hd (xs @ [t])" using chain_hd by blast
  then have "fb_next m x \<in> set (xs @ [t])" using hd_in_set [of "xs @ [t]"] by simp
  then have "IsPlausibleHeapPtr (fb_next m x)" using Cons.prems(2) by simp
  moreover from this have "fb_next m x \<noteq> 0" by (auto simp: IsPlausibleHeapPtr_iff)
  ultimately show ?case
    using Cons.IH [OF n(2)] Cons.prems(2) n(1) by (subst append_walk.simps) simp
qed

section \<open>The phases of a refill\<close>

lemma held_plausible:
  "os_spec api \<Longrightarrow> gh_ok api {} s V \<Longrightarrow> held_list c s V h xs \<Longrightarrow> x \<in> set xs \<Longrightarrow> IsPlausibleHeapPtr x"
  using client_facts(1) unfolding held_list_def by blast

lemma cut_held:
  assumes spec: "os_spec api" and ok: "gh_ok api {} s V" and q: "held_list c s V p q" "q \<noteq> []"
    and rt: "\<And>b. b \<in> set q \<Longrightarrow> routed (mem s) a c b"
    and cut: "cut_list target base p (mem s) = (taken, rest, m)"
  shows "\<exists>xs zs t. q = xs @ zs \<and> xs \<noteq> [] \<and> taken = length xs \<and> (base < target \<longrightarrow> base + taken \<le> target)
    \<and> t \<in> set q \<and> accounts api s V {t} {t} (s\<lparr>mem := m\<rparr>) V \<and> held_list c (s\<lparr>mem := m\<rparr>) V p xs
    \<and> held_list c (s\<lparr>mem := m\<rparr>) V rest zs \<and> (\<forall>z \<in> set zs. routed m a c z)"
proof -
  have ch: "chain (fb_next (mem s)) p q" and sub: "set q \<subseteq> client V (mem s)"
    and cl: "\<And>x. x \<in> set q \<Longrightarrow> fb_class_index (mem s) x = c" using q(1) by (auto simp: held_list_def)
  obtain ys t zs where c1: "q = ys @ t # zs" "cut_list target base p (mem s) = (Suc (length ys), fb_next (mem s) t, set_fb_next t 0 (mem s))"
    "length ys = min (length q - 1) (target - (base + 1))"
    "chain (fb_next (set_fb_next t 0 (mem s))) p (ys @ [t])" "chain (fb_next (set_fb_next t 0 (mem s))) (fb_next (mem s) t) zs"
    using cut_list_chain [OF ch q(2) held_plausible [OF spec ok q(1)]] by blast
  have r: "taken = Suc (length ys)" "rest = fb_next (mem s) t" "m = set_fb_next t 0 (mem s)" using cut c1(2) by simp_all
  have tc: "t \<in> client V (mem s)" using sub c1(1) by auto
  have um: "upd_mem (set_fb_next t 0) s = s\<lparr>mem := m\<rparr>" by (simp add: upd_mem_def r(3))
  note w = client_link [OF ok tc, where v = 0, unfolded um]
  have cls: "fb_class_index m x = c" if "x \<in> set q" for x
    using client_link_class [OF ok tc, of x 0, unfolded um] sub that cl by auto
  have rt': "routed m a c z" if "z \<in> set zs" for z
    using w(4) [of z a c] rt [of z] sub that c1(1) by auto
  have "held_list c (s\<lparr>mem := m\<rparr>) V p (ys @ [t])" "held_list c (s\<lparr>mem := m\<rparr>) V rest zs"
    using c1(1,4,5) cls sub w(2) r by (simp_all add: held_list_def)
  moreover have "base < target \<longrightarrow> base + taken \<le> target" "taken = length (ys @ [t])" "q = (ys @ [t]) @ zs" "ys @ [t] \<noteq> []" "t \<in> set q"
    using c1(1,3) r(1) by auto
  ultimately show ?thesis using w(1) rt' by blast
qed

lemma give_rest:
  assumes spec: "os_spec api" and ok: "gh_ok api {} s V" and z: "held_list c s V rest zs"
    and rt: "\<And>b. b \<in> set zs \<Longrightarrow> routed (mem s) a c b"
  shows "\<exists>s' V'. ProcessPendingListLocked api a c rest s = Some s' \<and> accounts api s V (set zs) {} s' V'"
  using ProcessPendingListLocked_accounts [OF spec ok, of rest zs a c] z rt by (auto simp: held_list_def)

lemma repark_rest:
  assumes spec: "os_spec api" and ok: "gh_ok api {} s V" and z: "held_list c s V rest zs" "zs \<noteq> []"
    and rt: "\<And>b. b \<in> set zs \<Longrightarrow> routed (mem s) a c b"
    and w: "feed_walk (mem s) k 0 rest 1 = (t, l)" "fb_next (mem s) t = 0"
  shows "\<exists>V'. accounts api s V (set zs) {} (pending_push a c rest t s) V'"
proof -
  obtain r where r: "zs = rest # r" using z by (cases zs) (auto simp: held_list_def)
  have ch: "chain (fb_next (mem s)) rest (rest # r)" using z r by (simp add: held_list_def)
  let ?j = "min (length r) (k - (0 + 1))"
  have t: "t = zs ! ?j"
    using feed_walk_chain [OF ch, of k 0 1] held_plausible [OF spec ok z(1)] r w(1) by simp
  have j: "?j < length zs" using r by simp
  have "?j = length zs - 1"
  proof (rule ccontr)
    assume "?j \<noteq> length zs - 1"
    then have "Suc ?j < length zs" using j by simp
    then have "fb_next (mem s) t = zs ! Suc ?j" using chain_nth_next [OF ch [folded r] j] t by simp
    moreover have "zs ! Suc ?j \<in> set zs" using \<open>Suc ?j < length zs\<close> by simp
    ultimately show False using w(2) chain_nonzero [OF ch] r by metis
  qed
  then have "t = last zs" using t z(2) by (simp add: last_conv_nth)
  then have e: "zs = butlast zs @ [t]" using z(2) by simp
  show ?thesis
    using pending_push_accounts [OF ok, of rest "butlast zs" t a c] z(1) rt unfolding e [symmetric]
    by (auto simp: held_list_def)
qed

lemma unqueue_held:
  fixes a c
  assumes spec: "os_spec api" and hold: "holding api s0 V0 B s V"
  defines "s1 \<equiv> set_pending a c 0 s" and "q \<equiv> vQ V a c"
  shows "\<exists>V1. holding api s0 V0 (B \<union> set q) s1 V1 \<and> held_list c s1 V1 (pending_returns s a c) q
    \<and> (\<forall>b \<in> set q. routed (mem s1) a c b) \<and> set q \<inter> client V (mem s) = {} \<and> accounts api s V {} (set q) s1 V1"
proof -
  note ok = holdingD(1) [OF hold]
  let ?V = "V\<lparr>vQ := upd2 (vQ V) a c []\<rparr>"
  note u = unqueue [OF ok, of a c, folded s1_def q_def]
  have m: "mem s1 = mem s" by (simp add: s1_def)
  have d: "set q \<inter> client V (mem s) = {}" using queue_facts(4) [OF ok] unfolding q_def by blast
  have h: "holding api s0 V0 (B \<union> set q) s1 ?V" by (rule holding_take [OF hold u(1) d])
  have rt: "routed (mem s1) a c b" if "b \<in> set q" for b using queue_facts(2) [OF ok] that by (simp add: m q_def)
  have "fb_class_index (mem s1) b = c" if "b \<in> set q" for b
    using client_facts(6) [OF spec holdingD(1) [OF h], of b] holdingD(2) [OF h] rt [OF that] that by (auto simp: routed_def)
  then have "held_list c s1 ?V (pending_returns s a c) q"
    using u(2) holdingD(2) [OF h] by (auto simp: held_list_def m)
  then show ?thesis using h rt d u(1) by blast
qed

lemma held_plausible_head:
  assumes "os_spec api" "gh_ok api {} s V" "held_list c s V p q"
  shows "p \<noteq> 0 \<longleftrightarrow> q \<noteq> []" "p \<noteq> 0 \<Longrightarrow> IsPlausibleHeapPtr p"
  using assms held_plausible [OF assms, of p] by (cases q; auto simp: held_list_def)+

lemma batch_feed_supplied:
  assumes spec: "os_spec api" and ok: "gh_ok api {} s V" and target: "0 < target"
  shows "\<exists>h xs s' V'. batch_feed api c target a s = Some (h, length xs, s') \<and> supplied api c s V h xs s' V' \<and> length xs \<le> target"
proof -
  have "holding api s V {} s V" using ok by (simp add: holding_def accounts_def)
  from unqueue_held [OF spec this, of a c] obtain V1
    where V1: "holding api s V (set (vQ V a c)) (set_pending a c 0 s) V1"
      "held_list c (set_pending a c 0 s) V1 (pending_returns s a c) (vQ V a c)"
      "\<And>b. b \<in> set (vQ V a c) \<Longrightarrow> routed (mem (set_pending a c 0 s)) a c b" by auto
  let ?p = "pending_returns s a c" and ?s1 = "set_pending a c 0 s" and ?q = "vQ V a c"
  note ok1 = holdingD(1) [OF V1(1)]
  note pl = held_plausible_head [OF spec ok1 V1(2)]
  show ?thesis
  proof (cases "?p = 0")
    case True
    then have "batch_feed api c target a s = Some (0, 0, ?s1)" "?q = []"
      using pl by (simp_all add: batch_feed_def Let_def)
    then show ?thesis
      using V1(1) by (intro exI [of _ 0] exI [of _ "[]"] exI [of _ ?s1] exI [of _ V1]) (simp add: supplied_holding held_list_def)
  next
    case False
    obtain taken rest m where cut: "cut_list target 0 ?p (mem ?s1) = (taken, rest, m)" by (metis prod_cases3)
    obtain xs zs t where c: "?q = xs @ zs" "xs \<noteq> []" "taken = length xs" "taken \<le> target" "t \<in> set ?q"
      "accounts api ?s1 V1 {t} {t} (?s1\<lparr>mem := m\<rparr>) V1" "held_list c (?s1\<lparr>mem := m\<rparr>) V1 ?p xs"
      "held_list c (?s1\<lparr>mem := m\<rparr>) V1 rest zs" "\<And>z. z \<in> set zs \<Longrightarrow> routed m a c z"
      using cut_held [OF spec ok1 V1(2) _ V1(3) cut] pl False target by auto
    let ?s2 = "?s1\<lparr>mem := m\<rparr>"
    have h2: "holding api s V (set ?q) ?s2 V1" by (rule holding_write [OF V1(1) c(6)]) (use c(5) in simp)
    note ok2 = holdingD(1) [OF h2]
    note pz = held_plausible_head [OF spec ok2 c(8)]
    have "distinct ?q" using V1(2) chain_distinct by (auto simp: held_list_def)
    then have dis: "set xs \<inter> set zs = {}" "set ?q - set zs = set xs" using c(1) by auto
    have fin: "supplied api c s V ?p xs s3 V3" if "accounts api ?s2 V1 (set zs) {} s3 V3" for s3 V3
    proof -
      have "holding api s V (set ?q - set zs) s3 V3" by (rule holding_give [OF h2 that]) (use c(1) in auto)
      then show ?thesis
        using held_list_step [OF spec ok2 c(7) that dis(1)] dis(2) by (simp add: supplied_holding)
    qed
    have "\<exists>s3 V3. batch_feed api c target a s = Some (?p, length xs, s3) \<and> accounts api ?s2 V1 (set zs) {} s3 V3"
    proof (cases "rest = 0")
      case True
      then show ?thesis
        using pz c(3) cut False pl accounts_refl [OF ok2] by (auto simp: batch_feed_def Let_def)
    next
      case r: False
      obtain tl l where w: "feed_walk m kFeedMaxList 0 rest 1 = (tl, l)" by fastforce
      show ?thesis
      proof (cases "fb_next m tl = 0")
        case True
        have "\<exists>V3. accounts api ?s2 V1 (set zs) {} (pending_push a c rest tl ?s2) V3"
          using repark_rest [OF spec ok2 c(8), of a kFeedMaxList tl l] pz r w True c(9) by simp
        then show ?thesis
          using True r w c(3) cut False pl by (auto simp: batch_feed_def Let_def)
      next
        case t: False
        have "\<exists>s3 V3. ProcessPendingListLocked api a c rest ?s2 = Some s3 \<and> accounts api ?s2 V1 (set zs) {} s3 V3"
          using give_rest [OF spec ok2 c(8), of a] c(9) by simp
        then show ?thesis
          using t r w c(3) cut False pl by (auto simp: batch_feed_def Let_def)
      qed
    qed
    then obtain s3 V3 where "batch_feed api c target a s = Some (?p, length xs, s3)" "accounts api ?s2 V1 (set zs) {} s3 V3"
      by blast
    then show ?thesis using fin c(3,4) by blast
  qed
qed

text \<open>Appending a held list to another.\<close>

lemma join_held:
  assumes spec: "os_spec api" and hold: "holding api s0 V0 B s V"
    and rs: "held_list c s V h rs" "rs \<noteq> []" and xs: "held_list c s V p xs"
    and dj: "set rs \<inter> set xs = {}" and sub: "set rs \<subseteq> B"
  shows "\<exists>t. append_walk (mem s) h = Some t \<and> t \<in> set rs \<and> t \<in> client V (mem s)
    \<and> holding api s0 V0 B (upd_mem (set_fb_next t p) s) V
    \<and> accounts api s V {t} {t} (upd_mem (set_fb_next t p) s) V
    \<and> held_list c (upd_mem (set_fb_next t p) s) V h (rs @ xs)"
proof -
  note ok = holdingD(1) [OF hold]
  obtain bs t where t: "rs = bs @ [t]" using rs(2) by (metis append_butlast_last_id)
  have tc: "t \<in> client V (mem s)" using rs(1) t by (auto simp: held_list_def)
  note w = client_link [OF ok tc, where v = p]
  have "append_walk (mem s) h = Some t"
    using append_walk_last [of "mem s" h bs t] rs(1) held_plausible [OF spec ok rs(1)] t by (auto simp: held_list_def)
  moreover have "holding api s0 V0 B (upd_mem (set_fb_next t p) s) V"
    by (rule holding_write [OF hold w(1)]) (use sub t in auto)
  moreover have "chain (fb_next (mem (upd_mem (set_fb_next t p) s))) h (bs @ t # xs)"
    using fb.chain_join [of "mem s" h bs t p xs] rs(1) xs dj t by (auto simp: held_list_def upd_mem_def)
  then have "held_list c (upd_mem (set_fb_next t p) s) V h (rs @ xs)"
    using rs(1) xs w(2) client_link_class [OF ok tc] t by (auto simp: held_list_def)
  ultimately show ?thesis using w(1) tc t by auto
qed

lemma batch_steal_one_supplied:
  assumes spec: "os_spec api" and sup: "supplied api c s0 V0 h rs s V" and lt: "length rs < target"
  shows "\<exists>h' rs' s' V'. batch_steal_one api c target a2 (h, length rs, s) = Some (h', length rs', s')
    \<and> supplied api c s0 V0 h' rs' s' V' \<and> length rs' \<le> target"
proof (cases "lock_busy s a2 c")
  case True
  then show ?thesis using sup lt by (auto simp: batch_steal_one_def intro!: exI)
next
  case free: False
  have hold: "holding api s0 V0 (set rs) s V" and hl: "held_list c s V h rs" using sup by (simp_all add: supplied_holding)
  let ?p = "pending_returns s a2 c" and ?s1 = "set_pending a2 c 0 s" and ?q = "vQ V a2 c"
  obtain V1 where V1: "holding api s0 V0 (set rs \<union> set ?q) ?s1 V1" "held_list c ?s1 V1 ?p ?q"
    "\<And>b. b \<in> set ?q \<Longrightarrow> routed (mem ?s1) a2 c b" "set ?q \<inter> client V (mem s) = {}" "accounts api s V {} (set ?q) ?s1 V1"
    using unqueue_held [OF spec hold, of a2 c] by blast
  note ok1 = holdingD(1) [OF V1(1)] and hl1 = held_list_step [OF spec holdingD(1) [OF hold] hl V1(5)]
  have dq: "set rs \<inter> set ?q = {}" using V1(4) hl by (auto simp: held_list_def)
  note pl = held_plausible_head [OF spec ok1 V1(2)]
  show ?thesis
  proof (cases "?p = 0")
    case True
    then have "?q = []" using pl by blast
    then have "supplied api c s0 V0 h rs ?s1 V1" using V1(1) hl1 by (simp add: supplied_holding)
    moreover have "batch_steal_one api c target a2 (h, length rs, s) = Some (h, length rs, ?s1)"
      using free True by (simp add: batch_steal_one_def Let_def)
    ultimately show ?thesis using lt less_imp_le by blast
  next
    case False
    obtain taken rest m where cut: "cut_list target (length rs) ?p (mem ?s1) = (taken, rest, m)" by (metis prod_cases3)
    obtain xs zs t where c: "?q = xs @ zs" "xs \<noteq> []" "taken = length xs" "length rs + taken \<le> target" "t \<in> set ?q"
      "accounts api ?s1 V1 {t} {t} (?s1\<lparr>mem := m\<rparr>) V1" "held_list c (?s1\<lparr>mem := m\<rparr>) V1 ?p xs"
      "held_list c (?s1\<lparr>mem := m\<rparr>) V1 rest zs" "\<And>z. z \<in> set zs \<Longrightarrow> routed m a2 c z"
      using cut_held [OF spec ok1 V1(2) _ V1(3) cut] pl False lt by auto
    let ?s2 = "?s1\<lparr>mem := m\<rparr>"
    have h2: "holding api s0 V0 (set rs \<union> set ?q) ?s2 V1" by (rule holding_write [OF V1(1) c(6)]) (use c(5) in simp)
    note ok2 = holdingD(1) [OF h2]
    have hl2: "held_list c ?s2 V1 h rs" by (rule held_list_step [OF spec ok1 _ c(6)]) (use hl1 dq c(5) in auto)
    have dist: "distinct ?q" using V1(2) chain_distinct by (auto simp: held_list_def)
    have "\<exists>h3 s3. (if h = 0 then Some (?p, taken, ?s2) else do { tailr \<leftarrow> append_walk (mem ?s2) h;
          Some (h, length rs + taken, upd_mem (set_fb_next tailr ?p) ?s2) }) = Some (h3, length (rs @ xs), s3)
        \<and> holding api s0 V0 (set rs \<union> set ?q) s3 V1 \<and> held_list c s3 V1 h3 (rs @ xs)
        \<and> held_list c s3 V1 rest zs \<and> (\<forall>z \<in> set zs. routed (mem s3) a2 c z)"
    proof (cases "h = 0")
      case True
      then have "rs = []" using hl by (simp add: held_list_def)
      then show ?thesis using True c h2 by simp
    next
      case h: False
      have "rs \<noteq> []" "set rs \<inter> set xs = {}" using h hl dq c(1) by (auto simp: held_list_def)
      then obtain tr where tr: "append_walk m h = Some tr" "tr \<in> set rs" "tr \<in> client V1 m"
        "holding api s0 V0 (set rs \<union> set ?q) (upd_mem (set_fb_next tr ?p) ?s2) V1"
        "accounts api ?s2 V1 {tr} {tr} (upd_mem (set_fb_next tr ?p) ?s2) V1"
        "held_list c (upd_mem (set_fb_next tr ?p) ?s2) V1 h (rs @ xs)"
        using join_held [OF spec h2 hl2 _ c(7)] by auto
      have "held_list c (upd_mem (set_fb_next tr ?p) ?s2) V1 rest zs"
        by (rule held_list_step [OF spec ok2 c(8) tr(5)]) (use tr(2) dq c(1) in auto)
      moreover have "routed (mem (upd_mem (set_fb_next tr ?p) ?s2)) a2 c z" if "z \<in> set zs" for z
        using client_link(4) [OF ok2, of tr z ?p a2 c] tr(3) c(8) that c(9) by (auto simp: held_list_def)
      ultimately show ?thesis using h tr(1,4,6) c(3) by simp
    qed
    then obtain h3 s3 where s3: "(if h = 0 then Some (?p, taken, ?s2) else do { tailr \<leftarrow> append_walk (mem ?s2) h;
          Some (h, length rs + taken, upd_mem (set_fb_next tailr ?p) ?s2) }) = Some (h3, length (rs @ xs), s3)"
      "holding api s0 V0 (set rs \<union> set ?q) s3 V1" "held_list c s3 V1 h3 (rs @ xs)" "held_list c s3 V1 rest zs"
      "\<And>z. z \<in> set zs \<Longrightarrow> routed (mem s3) a2 c z" by blast
    note ok3 = holdingD(1) [OF s3(2)]
    have rest: "rest \<noteq> 0 \<longleftrightarrow> zs \<noteq> []" by (rule held_plausible_head(1) [OF spec ok3 s3(4)])
    obtain s4 V4 where s4: "(if rest \<noteq> 0 then ProcessPendingListLocked api a2 c rest s3 else Some s3) = Some s4"
      "accounts api s3 V1 (set zs) {} s4 V4"
      using give_rest [OF spec ok3 s3(4,5)] accounts_refl [OF ok3] rest by (cases "zs = []") auto
    have dis: "set (rs @ xs) \<inter> set zs = {}" "set rs \<union> set ?q - set zs = set (rs @ xs)" using dist dq c(1) by auto
    have "supplied api c s0 V0 h3 (rs @ xs) s4 V4"
      using holding_give [OF s3(2) s4(2)] held_list_step [OF spec ok3 s3(3) s4(2) dis(1)] c(1) dis(2)
      by (auto simp: supplied_holding)
    moreover have "batch_steal_one api c target a2 (h, length rs, s) = Some (h3, length (rs @ xs), s4)"
    proof -
      have "\<not> (?p \<noteq> 0 \<and> \<not> IsPlausibleHeapPtr ?p)" using pl by blast
      then show ?thesis
        using free False cut s3(1) s4(1)
        by (cases "h = 0"; cases "append_walk m h"; cases "rest = 0") (auto simp: batch_steal_one_def Let_def)
    qed
    ultimately show ?thesis using c(3,4) by (metis length_append)
  qed
qed

lemma batch_steal_supplied:
  assumes spec: "os_spec api"
  shows "supplied api c s0 V0 h rs s V \<Longrightarrow> length rs \<le> target \<Longrightarrow>
    \<exists>h' rs' s' V'. batch_steal api c target a offs (h, length rs, s) = Some (h', length rs', s')
      \<and> supplied api c s0 V0 h' rs' s' V' \<and> length rs' \<le> target"
proof (induction offs arbitrary: h rs s V)
  case Nil
  then show ?case by auto
next
  case (Cons o' offs)
  show ?case
  proof (cases "length rs < target")
    case True
    let ?a2 = "(a + o') mod NUM_ARENAS"
    obtain h1 rs1 s1 V1 where s: "batch_steal_one api c target ?a2 (h, length rs, s) = Some (h1, length rs1, s1)"
      "supplied api c s0 V0 h1 rs1 s1 V1" "length rs1 \<le> target"
      using batch_steal_one_supplied [OF spec Cons.prems(1) True] by blast
    then show ?thesis using Cons.IH [OF s(2,3)] True by simp
  next
    case False
    then show ?thesis using Cons.prems by auto
  qed
qed

lemma batch_extract_supplied:
  assumes spec: "os_spec api" and sup: "supplied api c s0 V0 h rs s V" and t: "0 < target" "length rs \<le> target"
    and c: "1 \<le> c" "c < NUM_SIZE_CLASSES" and a: "a < NUM_ARENAS"
  shows "\<exists>h' rs' s' V'. batch_extract api c target a (h, length rs, s) = (h', length rs', s')
    \<and> supplied api c s0 V0 h' rs' s' V' \<and> length rs' \<le> target
    \<and> (rs' = [] \<longrightarrow> rs = [] \<and> partial_slabs s a c = 0 \<and> fst (AllocateNewSlab api c a s) = 0)"
proof (cases "h = 0")
  case False
  then have "rs \<noteq> []" using sup by (auto simp: supplied_def)
  then show ?thesis using False sup t by (auto simp: batch_extract_def)
next
  case True
  have rs: "rs = []" using sup True by (simp add: supplied_def)
  have a0: "accounts api s0 V0 {} {} s V" using sup rs by (simp add: supplied_def)
  note ok = accounts_ok [OF a0]
  note li = lists_okD(1) [OF gh_okD(3) [OF ok], of a c]
  show ?thesis
  proof (cases "partial_slabs s a c = 0")
    case False
    let ?sl = "partial_slabs s a c"
    have sl: "?sl \<in> set (vP V a c)" using False dlist_head [OF li] by auto
    obtain h1 n1 s1 where e: "ExtractBlocksFromSlab ?sl c target 0 a s = (h1, n1, s1)" by (metis prod_cases3)
    obtain xs V1 where x: "supplied api c s V h1 xs s1 V1" "n1 = length xs" "n1 \<le> target" "xs \<noteq> []"
      using ExtractBlocksFromSlab_supplied [OF spec ok sl t(1) e] by auto
    have "batch_extract api c target a (h, length rs, s) = (h1, length xs, s1)"
      using True rs False e x(2) by (simp add: batch_extract_def Let_def)
    then show ?thesis using supplied_before [OF a0 x(1)] x(2-4) by blast
  next
    case p: True
    obtain sl s1 where ns: "AllocateNewSlab api c a s = (sl, s1)" by fastforce
    note n = AllocateNewSlab_accounts [OF spec ok c a ns]
    show ?thesis
    proof (cases "sl = 0")
      case sl: True
      then have "accounts api s V {} {} s1 V" using n by simp
      from gone_trans [OF a0 this] have "supplied api c s0 V0 0 [] s1 V" by (intro supplied_none) simp
      moreover have "batch_extract api c target a (h, length rs, s) = (0, length [], s1)"
        using True rs p ns sl by (simp add: batch_extract_def)
      ultimately show ?thesis using rs p ns sl by fastforce
    next
      case sl: False
      let ?s2 = "push_partial a c sl s1"
      obtain V2 where V2: "accounts api s V {} {} ?s2 V2" "sl \<in> set (vP V2 a c)" using n sl by auto
      obtain h1 n1 s3 where e: "ExtractBlocksFromSlab sl c target 0 a ?s2 = (h1, n1, s3)" by (metis prod_cases3)
      obtain xs V3 where x: "supplied api c ?s2 V2 h1 xs s3 V3" "n1 = length xs" "n1 \<le> target" "xs \<noteq> []"
        using ExtractBlocksFromSlab_supplied [OF spec accounts_ok [OF V2(1)] V2(2) t(1) e] by auto
      have "batch_extract api c target a (h, length rs, s) = (h1, length xs, s3)"
        using True rs p ns sl e x(2) by (simp add: batch_extract_def Let_def)
      moreover have "accounts api s0 V0 {} {} ?s2 V2" using gone_trans [OF a0 V2(1)] by simp
      ultimately show ?thesis using supplied_before [OF _ x(1)] x(2-4) by blast
    qed
  qed
qed

text \<open>A refill whose own class lock is free returns; what it returns is supplied.\<close>

lemma AllocateBatch_supplied:
  assumes spec: "os_spec api" and ok: "gh_ok api {} s V" and free: "\<not> lock_busy s a c"
    and c: "1 \<le> c" "c < NUM_SIZE_CLASSES" and a: "a < NUM_ARENAS" and target: "0 < target"
  shows "\<exists>h xs s' V'. AllocateBatch api c target a s = Some (h, length xs, s')
    \<and> supplied api c s V h xs s' V' \<and> length xs \<le> target"
proof -
  obtain h xs s1 V1 where f: "batch_feed api c target a s = Some (h, length xs, s1)" "supplied api c s V h xs s1 V1" "length xs \<le> target"
    using batch_feed_supplied [OF spec ok target] by blast
  obtain h2 ys s2 V2 where g: "batch_steal api c target a [1..<NUM_ARENAS] (h, length xs, s1) = Some (h2, length ys, s2)"
    "supplied api c s V h2 ys s2 V2" "length ys \<le> target"
    using batch_steal_supplied [OF spec f(2,3)] by blast
  obtain h3 zs s3 V3 where e: "batch_extract api c target a (h2, length ys, s2) = (h3, length zs, s3)"
    "supplied api c s V h3 zs s3 V3" "length zs \<le> target"
    using batch_extract_supplied [OF spec g(2) target g(3) c a] by blast
  have "AllocateBatch api c target a s = Some (h3, length zs, s3)"
    using free f(1) g(1) e(1) by (simp add: AllocateBatch_def)
  then show ?thesis using e(2,3) by blast
qed

section \<open>A refill that comes back empty\<close>

text \<open>
  Nothing the heap holds in reach of a refill: no block on a pending queue whose lock is free, no
  partial slab, and no new slab to be had.
\<close>

definition refill_dry :: "os_api \<Rightarrow> nat \<Rightarrow> nat \<Rightarrow> 'a gh_state_scheme \<Rightarrow> bool" where
  "refill_dry api c a s \<longleftrightarrow> (\<forall>a2 < NUM_ARENAS. \<not> lock_busy s a2 c \<longrightarrow> pending_returns s a2 c = 0)
     \<and> partial_slabs s a c = 0 \<and> fst (AllocateNewSlab api c a s) = 0"

lemma AllocateNewSlab_refused:
  assumes spec: "os_spec api" and c: "1 \<le> c" "c < NUM_SIZE_CLASSES"
  shows "fst (AllocateNewSlab api c a s) = 0 \<longleftrightarrow> 0 < g_oom_fail_countdown s
    \<or> fst (PageHeapAllocate api (align_up (slab_target_size c) (GetPageSize api)) s) = 0"
proof (cases "0 < g_oom_fail_countdown s")
  case True
  then show ?thesis by (simp add: AllocateNewSlab_def Let_def ShouldFailAllocationForTest_def)
next
  case False
  let ?n = "align_up (slab_target_size c) (GetPageSize api)" and ?bs = "ClassIndexToSize c"
  note t = slab_target_size_bounds [OF c(2)]
  obtain k where k: "GetPageSize api = 2 ^ k" "12 \<le> k" "k \<le> 21" using os_spec_page [OF spec] .
  have "(2::nat) ^ k \<le> 2 ^ 21" by (rule power_increasing) (use k in auto)
  then have "slab_target_size c + 2 ^ k \<le> 2 ^ 64" "(2::nat) ^ k \<le> 2097152" using t by simp_all
  then have n: "65536 \<le> ?n" "?n < 3000000"
    using align_up_bounds [of "slab_target_size c" k] t(1,2) unfolding k(1) by linarith+
  obtain x s1 where p: "PageHeapAllocate api ?n s = (x, s1)" by fastforce
  have sl: "x \<noteq> 0 \<Longrightarrow> fst (Slab_Create x ?n ?bs a m) = x" for m
    by (rule Slab_Create_ok(1)) (use c n t(3) in \<open>simp_all add: config_consts\<close>)
  show ?thesis using False p sl
    by (auto simp: AllocateNewSlab_def Let_def ShouldFailAllocationForTest_def split: prod.splits)
      (metis fst_conv neq0_conv)
qed

lemma queue_head_plausible:
  assumes "os_spec api" "gh_ok api {} s V" "pending_returns s a c \<noteq> 0"
  shows "IsPlausibleHeapPtr (pending_returns s a c)"
proof -
  have "holding api s V {} s V" using assms(2) by (simp add: holding_def accounts_def)
  from unqueue_held [OF assms(1) this, of a c] obtain V1 where "gh_ok api {} (set_pending a c 0 s) V1"
    "held_list c (set_pending a c 0 s) V1 (pending_returns s a c) (vQ V a c)" using holdingD(1) by blast
  from held_plausible_head(2) [OF assms(1) this assms(3)] show ?thesis .
qed

lemma set_pending_zero: "pending_returns s a c = 0 \<Longrightarrow> set_pending a c 0 s = s"
  by (simp add: set_pending_def fun_upd_idem)

lemma batch_feed_null:
  assumes "pending_returns s a c \<noteq> 0 \<longrightarrow> IsPlausibleHeapPtr (pending_returns s a c)"
    "batch_feed api c target a s = Some (0, n, s')"
  shows "pending_returns s a c = 0" "n = 0" "s' = s"
proof -
  show p: "pending_returns s a c = 0"
  proof (rule ccontr)
    assume "pending_returns s a c \<noteq> 0"
    with assms show False by (auto simp: batch_feed_def Let_def split: prod.splits if_splits Option.bind_splits)
  qed
  then show "n = 0" "s' = s" using assms(2) by (auto simp: batch_feed_def set_pending_zero)
qed

lemma batch_steal_one_null:
  assumes "pending_returns s a2 c \<noteq> 0 \<longrightarrow> IsPlausibleHeapPtr (pending_returns s a2 c)"
    "batch_steal_one api c target a2 (h, n, s) = Some (0, n', s')"
  shows "h = 0" "n' = n" "s' = s" "\<not> lock_busy s a2 c \<Longrightarrow> pending_returns s a2 c = 0"
proof -
  have p: "lock_busy s a2 c \<or> pending_returns s a2 c = 0"
  proof (rule ccontr)
    assume "\<not> (lock_busy s a2 c \<or> pending_returns s a2 c = 0)"
    with assms show False
      by (cases "h = 0") (auto simp: batch_steal_one_def Let_def split: prod.splits if_splits Option.bind_splits)
  qed
  then show "h = 0" "n' = n" "s' = s" "\<not> lock_busy s a2 c \<Longrightarrow> pending_returns s a2 c = 0"
    using assms(2) by (auto simp: batch_steal_one_def Let_def set_pending_zero split: if_splits)
qed

lemma batch_steal_one_keeps:
  "h \<noteq> 0 \<Longrightarrow> batch_steal_one api c target a2 (h, n, s) = Some (h', n', s') \<Longrightarrow> h' = h"
  by (auto simp: batch_steal_one_def Let_def split: prod.splits if_splits Option.bind_splits)

lemma batch_steal_keeps:
  "h \<noteq> 0 \<Longrightarrow> batch_steal api c target a offs (h, n, s) = Some (h', n', s') \<Longrightarrow> h' = h"
proof (induction offs arbitrary: n s)
  case (Cons o' offs)
  show ?case
  proof (cases "n < target")
    case True
    then obtain h1 n1 s1 where r: "batch_steal_one api c target ((a + o') mod NUM_ARENAS) (h, n, s) = Some (h1, n1, s1)"
      "batch_steal api c target a offs (h1, n1, s1) = Some (h', n', s')" using Cons.prems(2) by (auto split: Option.bind_splits)
    have "h1 = h" by (rule batch_steal_one_keeps [OF Cons.prems(1) r(1)])
    then show ?thesis using Cons.IH [OF Cons.prems(1)] r(2) by simp
  qed (use Cons.prems in simp)
qed simp

lemma batch_steal_null:
  assumes pl: "\<And>a2. pending_returns s a2 c \<noteq> 0 \<Longrightarrow> IsPlausibleHeapPtr (pending_returns s a2 c)" and t: "0 < target"
  shows "batch_steal api c target a offs (0, 0, s) = Some (0, n', s') \<Longrightarrow>
    n' = 0 \<and> s' = s \<and> (\<forall>o' \<in> set offs. \<not> lock_busy s ((a + o') mod NUM_ARENAS) c \<longrightarrow> pending_returns s ((a + o') mod NUM_ARENAS) c = 0)"
proof (induction offs)
  case (Cons o' offs)
  let ?a2 = "(a + o') mod NUM_ARENAS"
  obtain h1 n1 s1 where r: "batch_steal_one api c target ?a2 (0, 0, s) = Some (h1, n1, s1)"
    "batch_steal api c target a offs (h1, n1, s1) = Some (0, n', s')" using Cons.prems t by (auto split: Option.bind_splits)
  have "h1 = 0" using batch_steal_keeps [OF _ r(2)] by auto
  note z = batch_steal_one_null [OF _ r(1) [unfolded this], simplified] 
  have "n1 = 0" "s1 = s" "\<not> lock_busy s ?a2 c \<Longrightarrow> pending_returns s ?a2 c = 0" using z pl by blast+
  then show ?case using Cons.IH r(2) \<open>h1 = 0\<close> by simp
qed simp

lemma arenas_around:
  assumes "a < NUM_ARENAS" "a2 < NUM_ARENAS" "a2 \<noteq> a"
  shows "\<exists>o' \<in> set [1..<NUM_ARENAS]. a2 = (a + o') mod NUM_ARENAS"
proof (cases "a < a2")
  case True
  then show ?thesis using assms by (intro bexI [of _ "a2 - a"]) auto
next
  case False
  then have "(a + (NUM_ARENAS - a + a2)) mod NUM_ARENAS = a2" using assms by simp
  then show ?thesis using assms False by (intro bexI [of _ "NUM_ARENAS - a + a2"]) auto
qed

text \<open>A refill is empty exactly when the heap is dry, and then it did no more than ask for the slab.\<close>

lemma AllocateBatch_null:
  assumes spec: "os_spec api" and ok: "gh_ok api {} s V" and a: "a < NUM_ARENAS" and target: "0 < target"
    and c: "1 \<le> c" "c < NUM_SIZE_CLASSES" and r: "AllocateBatch api c target a s = Some (0, n, s')"
  shows "refill_dry api c a s" "s' = snd (AllocateNewSlab api c a s)"
proof -
  have pl: "pending_returns s a2 c \<noteq> 0 \<Longrightarrow> IsPlausibleHeapPtr (pending_returns s a2 c)" for a2
    by (rule queue_head_plausible [OF spec ok])
  obtain h1 n1 s1 h2 n2 s2 where b: "batch_feed api c target a s = Some (h1, n1, s1)"
    "batch_steal api c target a [1..<NUM_ARENAS] (h1, n1, s1) = Some (h2, n2, s2)"
    "batch_extract api c target a (h2, n2, s2) = (0, n, s')"
    using r by (auto simp: AllocateBatch_def split: if_splits Option.bind_splits)
  have h2: "h2 = 0" using b(3) by (cases "h2 = 0") (simp_all add: batch_extract_def)
  then have h1: "h1 = 0" using batch_steal_keeps [OF _ b(2)] by auto
  have f: "pending_returns s a c = 0" "n1 = 0" "s1 = s" using batch_feed_null [OF _ b(1) [unfolded h1]] pl by blast+
  have st: "n2 = 0" "s2 = s" "\<And>o'. o' \<in> set [1..<NUM_ARENAS] \<Longrightarrow> \<not> lock_busy s ((a + o') mod NUM_ARENAS) c \<Longrightarrow>
      pending_returns s ((a + o') mod NUM_ARENAS) c = 0"
    using batch_steal_null [OF pl target b(2) [unfolded h1 h2 f(2,3)]] by blast+
  have q: "pending_returns s a2 c = 0" if "a2 < NUM_ARENAS" "\<not> lock_busy s a2 c" for a2
    using f(1) st(3) arenas_around [OF a that(1)] that(2) by (cases "a2 = a") auto
  have "supplied api c s V 0 [] s V" by (rule supplied_none [OF accounts_refl [OF ok]])
  from batch_extract_supplied [OF spec this target _ c a] obtain rs s3 V3
    where e: "supplied api c s V 0 rs s' V3" "rs = [] \<longrightarrow> partial_slabs s a c = 0 \<and> fst (AllocateNewSlab api c a s) = 0"
    using b(3) by (auto simp: h2 st(1,2))
  then have p: "partial_slabs s a c = 0" "fst (AllocateNewSlab api c a s) = 0" by (auto simp: supplied_def)
  then show "s' = snd (AllocateNewSlab api c a s)" using b(3) h2 st by (auto simp: batch_extract_def split: prod.splits)
  show "refill_dry api c a s" using p q by (simp add: refill_dry_def)
qed

lemma AllocateBatch_dry:
  assumes "refill_dry api c a s" "\<not> lock_busy s a c" "a < NUM_ARENAS"
  shows "AllocateBatch api c target a s = Some (0, 0, snd (AllocateNewSlab api c a s))"
proof -
  have q: "pending_returns s a2 c = 0" if "a2 < NUM_ARENAS" "\<not> lock_busy s a2 c" for a2 using assms(1) that by (simp add: refill_dry_def)
  have f: "batch_feed api c target a s = Some (0, 0, s)" using q assms(2,3) by (simp add: batch_feed_def set_pending_zero)
  have "(a + o') mod NUM_ARENAS < NUM_ARENAS" for o' by (simp add: NUM_ARENAS_def)
  then have "batch_steal_one api c target ((a + o') mod NUM_ARENAS) (0, 0, s) = Some (0, 0, s)" for o'
    using q by (simp add: batch_steal_one_def set_pending_zero)
  then have st: "batch_steal api c target a ks (0, 0, s) = Some (0, 0, s)" for ks by (induction ks) simp_all
  have "batch_extract api c target a (0, 0, s) = (0, 0, snd (AllocateNewSlab api c a s))"
    using assms(1) by (auto simp: batch_extract_def refill_dry_def split: prod.splits)
  then show ?thesis using f st assms(2) by (simp add: AllocateBatch_def)
qed

end
