(* ===== verification/FA_GiveBack.thy ===== *)
theory FA_GiveBack
  imports FA_Refill
begin

text \<open>
  Giving blocks back to the global heap: splitting a list by arena or class
  (\<^verbatim>\<open>GlobalHeap::SplitListByArena\<close>, both phases of \<^verbatim>\<open>DeallocateBatch\<close>), the locked and the
  lock-free hand-off (\<^verbatim>\<open>DeallocateBatchClass\<close>, \<^verbatim>\<open>DeferBinToPending\<close>), single blocks and the
  purge. Each operation returns, takes exactly the given blocks from the client, and leaves all
  other blocks of the client untouched, whatever locks other threads hold.
\<close>

section \<open>Splitting a list\<close>

text \<open>Two states with the same client blocks, routed alike.\<close>

definition same_routes :: "os_api \<Rightarrow> view \<Rightarrow> 'a gh_state_scheme \<Rightarrow> 'a gh_state_scheme \<Rightarrow> bool" where
  "same_routes api V s s' \<longleftrightarrow> gh_ok api {} s' V \<and> client V (mem s') = client V (mem s)
     \<and> (\<forall>b \<in> client V (mem s). \<forall>a c. routed (mem s') a c b = routed (mem s) a c b)"

definition key_for :: "os_api \<Rightarrow> view \<Rightarrow> (mem \<Rightarrow> addr \<Rightarrow> nat) \<Rightarrow> (addr \<Rightarrow> nat) \<Rightarrow> 'a gh_state_scheme \<Rightarrow> bool" where
  "key_for api V key K s \<longleftrightarrow> (\<forall>s' b. same_routes api V s s' \<and> b \<in> client V (mem s) \<longrightarrow> key (mem s') b = K b)"

lemma same_routes_refl: "gh_ok api {} s V \<Longrightarrow> same_routes api V s s"
  by (simp add: same_routes_def)

lemma same_routes_trans: "same_routes api V s s1 \<Longrightarrow> same_routes api V s1 s2 \<Longrightarrow> same_routes api V s s2"
  by (simp add: same_routes_def)

lemma same_routes_link:
  assumes "same_routes api V s s1" "b \<in> client V (mem s)"
  shows "same_routes api V s (upd_mem (set_fb_next b v) s1)" "accounts api s1 V {b} {b} (upd_mem (set_fb_next b v) s1) V"
proof -
  have ok: "gh_ok api {} s1 V" and b: "b \<in> client V (mem s1)" using assms by (auto simp: same_routes_def)
  note w = client_link [OF ok b, where v = v]
  show "accounts api s1 V {b} {b} (upd_mem (set_fb_next b v) s1) V" by (rule w(1))
  show "same_routes api V s (upd_mem (set_fb_next b v) s1)"
    using assms(1) w(2,4) accounts_ok [OF w(1)] by (simp add: same_routes_def)
qed

lemma routed_unique: "routed m a c b \<Longrightarrow> routed m a' c' b \<Longrightarrow> a' = a \<and> c' = c"
  by (simp add: routed_def)

lemma routed_self: "routed m (slab_arena_index m (fb_slab m b)) (slab_class_idx m (fb_slab m b)) b"
  by (simp add: routed_def)

lemma arena_key_for: "key_for api V arena_key (arena_key (mem s)) s"
  unfolding key_for_def
proof (intro allI impI)
  fix s' :: "'a gh_state_scheme" and b assume a: "same_routes api V s s' \<and> b \<in> client V (mem s)"
  have "routed (mem s') (arena_key (mem s) b) (slab_class_idx (mem s) (fb_slab (mem s) b)) b"
    using a routed_self [of "mem s" b] by (simp add: same_routes_def arena_key_def)
  then show "arena_key (mem s') b = arena_key (mem s) b" by (simp add: routed_def arena_key_def)
qed

lemma class_key_client:
  assumes "os_spec api" "gh_ok api {} s V" "b \<in> client V (mem s)"
  shows "class_key (mem s) b = fb_class_index (mem s) b"
proof -
  note f = client_facts [OF assms]
  have "fb_class_index (mem s) b < 512" using f(8) by (simp add: config_consts)
  then show ?thesis
    using f(9) by (simp add: class_key_def ClassIndexToSize_exact SizeToClassIndex_div)
qed

lemma class_key_for:
  assumes spec: "os_spec api" and ok: "gh_ok api {} s V"
  shows "key_for api V class_key (fb_class_index (mem s)) s"
  unfolding key_for_def
proof (intro allI impI)
  fix s' :: "'a gh_state_scheme" and b assume a: "same_routes api V s s' \<and> b \<in> client V (mem s)"
  have ok': "gh_ok api {} s' V" and b': "b \<in> client V (mem s')" using a by (auto simp: same_routes_def)
  have "routed (mem s') (slab_arena_index (mem s) (fb_slab (mem s) b)) (fb_class_index (mem s) b) b"
    using a routed_self [of "mem s" b] client_facts(6) [OF spec ok, of b] by (simp add: same_routes_def)
  then have "fb_class_index (mem s') b = fb_class_index (mem s) b"
    using client_facts(6) [OF spec ok' b'] by (simp add: routed_def)
  then show "class_key (mem s') b = fb_class_index (mem s) b" using class_key_client [OF spec ok' b'] by simp
qed

text \<open>The tables after the blocks \<open>done'\<close> were filed.\<close>

definition split_ok :: "(addr \<Rightarrow> nat) \<Rightarrow> mem \<Rightarrow> split_state \<Rightarrow> addr list \<Rightarrow> bool" where
  "split_ok K m sp done' \<longleftrightarrow> distinct (sp_present sp) \<and> set (sp_present sp) = K ` set done'
     \<and> (\<forall>k. chain (fb_next m) (sp_heads sp k) (filter (\<lambda>b. K b = k) done')
        \<and> (filter (\<lambda>b. K b = k) done' \<noteq> [] \<longrightarrow> sp_tails sp k = last (filter (\<lambda>b. K b = k) done')))"

lemma split_ok_empty: "split_ok K m split_empty []"
  by (simp add: split_ok_def split_empty_def)

lemma split_okD:
  assumes "split_ok K m sp done'"
  shows "chain (fb_next m) (sp_heads sp k) (filter (\<lambda>b. K b = k) done')"
    "filter (\<lambda>b. K b = k) done' \<noteq> [] \<Longrightarrow> sp_tails sp k = last (filter (\<lambda>b. K b = k) done')"
    "sp_heads sp k = 0 \<longleftrightarrow> filter (\<lambda>b. K b = k) done' = []"
    "distinct (sp_present sp)" "set (sp_present sp) = K ` set done'"
proof -
  show c: "chain (fb_next m) (sp_heads sp k) (filter (\<lambda>b. K b = k) done')"
    and "filter (\<lambda>b. K b = k) done' \<noteq> [] \<Longrightarrow> sp_tails sp k = last (filter (\<lambda>b. K b = k) done')"
    and "distinct (sp_present sp)" "set (sp_present sp) = K ` set done'" using assms by (simp_all add: split_ok_def)
  show "sp_heads sp k = 0 \<longleftrightarrow> filter (\<lambda>b. K b = k) done' = []" by (rule chain_head_iff [OF c])
qed

lemma split_add_ok:
  assumes ok: "split_ok K m sp done'" and b: "b \<noteq> 0" "b \<notin> set done'"
    and r: "split_add (K b) b (sp, m) = (sp', m')"
  shows "split_ok K m' sp' (done' @ [b])"
    "\<exists>t \<in> insert b (set done'). m' = set_fb_next b 0 (if t = b then m else set_fb_next t b m)"
proof -
  let ?k = "K b" and ?f = "\<lambda>k. filter (\<lambda>b. K b = k) done'"
  note d = split_okD [OF ok]
  have chb: "chain (fb_next m') h (?f k)" if "chain (fb_next m) h (?f k)" "k \<noteq> ?k" "m' = set_fb_next b 0 (set_fb_next t b m)"
      "t \<in> set (?f ?k)" for h k t
  proof -
    have "t \<notin> set (?f k)" "b \<notin> set (?f k)" using that b(2) by auto
    then show ?thesis using that(1) unfolding that(3) by (simp add: fb.chain_put_other)
  qed
  have "split_ok K m' sp' (done' @ [b]) \<and> (\<exists>t \<in> insert b (set done'). m' = set_fb_next b 0 (if t = b then m else set_fb_next t b m))"
  proof (cases "sp_heads sp ?k = 0")
    case True
    have nil: "?f ?k = []" using d(3) [of ?k] True by simp
    have sp': "sp' = \<lparr>sp_heads = (sp_heads sp)(?k := b), sp_tails = (sp_tails sp)(?k := b), sp_present = sp_present sp @ [?k]\<rparr>"
      "m' = set_fb_next b 0 m" using r True by (simp_all add: split_add_def)
    have np: "?k \<notin> set (sp_present sp)" using nil d(5) by (auto simp: filter_empty_conv)
    have "chain (fb_next m') (sp_heads sp k) (?f k)" for k
      using d(1) [of k] b(2) by (simp add: sp'(2) fb.chain_put_other)
    then have "split_ok K m' sp' (done' @ [b])"
      using d np nil b(1) unfolding split_ok_def by (auto simp: sp' fb.get_put)
    then show ?thesis using sp'(2) by auto
  next
    case False
    have ne: "?f ?k \<noteq> []" using d(3) [of ?k] False by simp
    define t where "t = sp_tails sp ?k"
    have t1: "t = last (?f ?k)" using d(2) [OF ne] by (simp add: t_def)
    have t: "t = last (?f ?k)" "t \<in> set (?f ?k)" by (rule t1) (unfold t1, rule last_in_set [OF ne])
    have tb: "t \<noteq> b" "t \<in> set done'" using t(2) b(2) by auto
    have sp': "sp' = sp\<lparr>sp_tails := (sp_tails sp)(?k := b)\<rparr>" "m' = set_fb_next b 0 (set_fb_next t b m)"
      using r False by (simp_all add: split_add_def t_def)
    have e: "?f ?k = butlast (?f ?k) @ [t]" using ne t(1) by simp
    have bn: "b \<notin> set (butlast (?f ?k)) \<and> t \<notin> set (butlast (?f ?k))"
      using b(2) chain_distinct [OF d(1), of ?k] e by (metis distinct_butlast filter_is_subset in_set_butlastD not_distinct_conv_prefix subsetD)
    have "seg (fb_next m) (sp_heads sp ?k) (butlast (?f ?k)) t"
      using d(1) [of ?k] e chain_append [of "fb_next m" "sp_heads sp ?k" "butlast (?f ?k)" "[t]"] by auto
    then have "seg (fb_next m') (sp_heads sp ?k) (butlast (?f ?k)) t"
      using bn by (simp add: sp'(2) fb.seg_put_other)
    moreover have "t \<noteq> 0" using chain_nonzero [OF d(1), of ?k] t(2) by (intro notI) blast
    ultimately have "chain (fb_next m') (sp_heads sp ?k) (butlast (?f ?k) @ [t, b])"
      using tb(1) b(1) by (auto simp: chain_append sp'(2) fb.get_put)
    then have kk: "chain (fb_next m') (sp_heads sp ?k) (?f ?k @ [b])" using e by (metis append.assoc append_Cons append_Nil)
    have "K t = K b" using t(2) by simp
    then have "K b \<in> K ` set done'" using tb(2) by (metis imageI)
    then have "set (sp_present sp) = K ` set (done' @ [b])" using d(5) by auto
    moreover have "chain (fb_next m') (sp_heads sp' k) (filter (\<lambda>x. K x = k) (done' @ [b]))" for k
      using kk chb [OF d(1), of k t] t(2) sp' by (cases "k = ?k") auto
    moreover have "sp_tails sp' k = last (filter (\<lambda>x. K x = k) (done' @ [b]))" if "filter (\<lambda>x. K x = k) (done' @ [b]) \<noteq> []" for k
      using d(2) [of k] that sp'(1) by (cases "k = ?k") auto
    ultimately have "split_ok K m' sp' (done' @ [b])" using d(4) sp'(1) by (simp add: split_ok_def)
    then show ?thesis using sp'(2) tb by auto
  qed
  then show "split_ok K m' sp' (done' @ [b])"
    "\<exists>t \<in> insert b (set done'). m' = set_fb_next b 0 (if t = b then m else set_fb_next t b m)" by blast+
qed

lemma link_pair:
  assumes sr: "same_routes api V s s1" and t: "t \<in> client V (mem s)" and b: "b \<in> client V (mem s)"
    and m': "m' = set_fb_next b 0 (if t = b then mem s1 else set_fb_next t b (mem s1))"
  shows "same_routes api V s (s1\<lparr>mem := m'\<rparr>)" "accounts api s1 V {t, b} {t, b} (s1\<lparr>mem := m'\<rparr>) V"
    "\<And>xs h. t \<notin> set xs \<Longrightarrow> b \<notin> set xs \<Longrightarrow> chain (fb_next m') h xs \<longleftrightarrow> chain (fb_next (mem s1)) h xs"
proof -
  show ch: "chain (fb_next m') h xs \<longleftrightarrow> chain (fb_next (mem s1)) h xs" if "t \<notin> set xs" "b \<notin> set xs" for xs h
    using that by (simp add: m' fb.chain_put_other)
  have bc: "t \<in> client V (mem s1)" using t sr by (simp add: same_routes_def)
  have "same_routes api V s (s1\<lparr>mem := m'\<rparr>) \<and> accounts api s1 V {t, b} {t, b} (s1\<lparr>mem := m'\<rparr>) V"
  proof (cases "t = b")
    case True
    note l = same_routes_link [OF sr b, of 0]
    have e: "upd_mem (set_fb_next b 0) s1 = s1\<lparr>mem := m'\<rparr>" using True by (simp add: upd_mem_def m')
    show ?thesis using l True unfolding e by simp
  next
    case False
    note l = same_routes_link [OF sr t, of b]
    note l2 = same_routes_link [OF l(1) b, of 0]
    have e: "upd_mem (set_fb_next b 0) (upd_mem (set_fb_next t b) s1) = s1\<lparr>mem := m'\<rparr>"
      using False by (simp add: upd_mem_def m')
    have "accounts api s1 V ({t} \<union> ({b} - {t})) (({t} - {b}) \<union> {b}) (s1\<lparr>mem := m'\<rparr>) V"
      using accounts_trans [OF l(2) l2(2)] unfolding e by auto
    moreover have "{t} \<union> ({b} - {t}) = {t, b}" "({t} - {b}) \<union> {b} = {t, b}" by auto
    ultimately show ?thesis using l2(1) unfolding e by simp
  qed
  then show "same_routes api V s (s1\<lparr>mem := m'\<rparr>)" "accounts api s1 V {t, b} {t, b} (s1\<lparr>mem := m'\<rparr>) V"
    by blast+
qed

lemma accounts_rewrite_trans:
  assumes "accounts api s V A A s1 V" "accounts api s1 V B B s2 V" "A \<subseteq> client V (mem s)"
  shows "accounts api s V (A \<union> B) (A \<union> B) s2 V"
proof -
  have "accounts api s V (A \<union> (B - A)) ((A - B) \<union> B) s2 V" using accounts_trans [OF assms(1,2)] by auto
  moreover have "A \<union> (B - A) = A \<union> B" "(A - B) \<union> B = A \<union> B" by auto
  ultimately show ?thesis by simp
qed

lemma accounts_rewrite_mono:
  assumes "accounts api s V A A s1 V" "A \<subseteq> B" "B \<subseteq> client V (mem s)"
  shows "accounts api s V B B s1 V"
  using assms kept_mono [of "client V (mem s) - A" "mem s" "mem s1" "client V (mem s) - B"]
  by (auto simp: accounts_def)

lemma split_walk_lists:
  assumes spec: "os_spec api" and key: "key_for api V key K s"
  shows "same_routes api V s s1 \<Longrightarrow> accounts api s V (set all) (set all) s1 V \<Longrightarrow> set all \<subseteq> client V (mem s)
    \<Longrightarrow> split_ok K (mem s1) sp done' \<Longrightarrow> chain (fb_next (mem s1)) h bs \<Longrightarrow> set done' \<inter> set bs = {}
    \<Longrightarrow> set done' \<subseteq> set all \<Longrightarrow> set bs \<subseteq> set all \<Longrightarrow>
    \<exists>sp' m'. split_walk key h sp (mem s1) = Some (True, sp', m') \<and> split_ok K m' sp' (done' @ bs)
      \<and> same_routes api V s (s1\<lparr>mem := m'\<rparr>) \<and> accounts api s V (set all) (set all) (s1\<lparr>mem := m'\<rparr>) V"
proof (induction bs arbitrary: h sp s1 done')
  case Nil
  then show ?case by (subst split_walk.simps) simp
next
  case (Cons b bs)
  note sr = Cons.prems(1) and acc = Cons.prems(2) and sub = Cons.prems(3)
  have ok1: "gh_ok api {} s1 V" and cl: "client V (mem s1) = client V (mem s)" using sr by (simp_all add: same_routes_def)
  have h: "h = b" "b \<noteq> 0" "chain (fb_next (mem s1)) (fb_next (mem s1) b) bs" using Cons.prems(5) by auto
  have bc: "b \<in> client V (mem s)" using Cons.prems(8) sub by auto
  have bs: "b \<notin> set bs" "b \<notin> set done'" using chain_distinct [OF Cons.prems(5)] Cons.prems(6) by auto
  have kb: "key (mem s1) b = K b" using key sr bc by (simp add: key_for_def)
  obtain sp1 m1 where add: "split_add (K b) b (sp, mem s1) = (sp1, m1)" by fastforce
  note ad = split_add_ok [OF Cons.prems(4) h(2) bs(2) add]
  then obtain t where t: "t \<in> insert b (set done')" "m1 = set_fb_next b 0 (if t = b then mem s1 else set_fb_next t b (mem s1))" by blast
  have tc: "t \<in> client V (mem s)" "t \<notin> set bs" "t \<in> set all" using t(1) bc bs Cons.prems(6,7,8) sub by auto
  note lp = link_pair [OF sr tc(1) bc t(2)]
  have "{t, b} \<subseteq> client V (mem s1)" "{t, b} \<subseteq> set all" using tc bc cl Cons.prems(8) by auto
  then have acc1: "accounts api s V (set all) (set all) (s1\<lparr>mem := m1\<rparr>) V"
    using accounts_rewrite_trans [OF acc lp(2) sub] by (metis Un_absorb2)
  have ch1: "chain (fb_next m1) (fb_next (mem s1) b) bs" using lp(3) [OF tc(2) bs(1)] h(3) by simp
  have n: "WalkLinkPlausible (fb_next (mem s1) b)"
  proof (cases bs)
    case Nil
    then show ?thesis using h(3) by (simp add: WalkLinkPlausible_def)
  next
    case (Cons x xs)
    then have "x \<in> client V (mem s1)" "fb_next (mem s1) b = x" using Cons.prems(8) sub cl h(3) by auto
    then show ?thesis using client_facts(2) [OF spec ok1] by simp
  qed
  have u: "WalkLinkPlausible b" "BlockSlabUsable (mem s1) b" using client_facts(2,3) [OF spec ok1] bc cl by auto
  have step: "split_walk key h sp (mem s1) = split_walk key (fb_next (mem s1) b) sp1 m1"
    using h(1,2) u n kb add by (subst split_walk.simps) simp
  have "\<exists>sp' m'. split_walk key (fb_next (mem s1) b) sp1 (mem (s1\<lparr>mem := m1\<rparr>)) = Some (True, sp', m')
      \<and> split_ok K m' sp' ((done' @ [b]) @ bs) \<and> same_routes api V s (s1\<lparr>mem := m1\<rparr>\<lparr>mem := m'\<rparr>)
      \<and> accounts api s V (set all) (set all) (s1\<lparr>mem := m1\<rparr>\<lparr>mem := m'\<rparr>) V"
    by (rule Cons.IH [OF lp(1) acc1 sub]) (use ad(1) ch1 bs Cons.prems(6-8) in auto)
  then show ?case unfolding step by simp
qed

lemma split_list:
  assumes "os_spec api" "gh_ok api {} s V" "chain (fb_next (mem s)) h bs" "set bs \<subseteq> client V (mem s)" "key_for api V key K s"
  shows "\<exists>sp m. split_walk key h split_empty (mem s) = Some (True, sp, m) \<and> split_ok K m sp bs
    \<and> same_routes api V s (s\<lparr>mem := m\<rparr>) \<and> accounts api s V (set bs) (set bs) (s\<lparr>mem := m\<rparr>) V"
  using split_walk_lists [OF assms(1,5) same_routes_refl [OF assms(2)]
      accounts_rewrite_mono [OF accounts_refl [OF assms(2)] empty_subsetI assms(4)] assms(4)
      split_ok_empty assms(3)] by simp

section \<open>Handing lists over\<close>

text \<open>A list all of whose blocks belong to arena \<open>i\<close> and class \<open>c\<close>, with its last block.\<close>

definition ready :: "'a gh_state_scheme \<Rightarrow> view \<Rightarrow> nat \<Rightarrow> nat \<Rightarrow> addr \<Rightarrow> addr \<Rightarrow> addr list \<Rightarrow> bool" where
  "ready s V i c h t bs \<longleftrightarrow> chain (fb_next (mem s)) h bs \<and> set bs \<subseteq> client V (mem s)
     \<and> (\<forall>b \<in> set bs. routed (mem s) i c b) \<and> (bs \<noteq> [] \<longrightarrow> t = last bs)"

lemma ready_step:
  assumes "os_spec api" "gh_ok api {} s V" "ready s V i c h t bs" "accounts api s V G {} s1 V1" "set bs \<inter> G = {}"
  shows "ready s1 V1 i c h t bs"
proof -
  have sub: "set bs \<subseteq> client V (mem s) - G" using assms(3,5) by (auto simp: ready_def)
  have k: "kept (client V (mem s) - G) (mem s) (mem s1)" using assms(4) by (simp add: accounts_def)
  have "chain (fb_next (mem s1)) h bs"
    using assms(3) kept_chain [OF k sub] client_facts(5) [OF assms(1,2)] sub by (auto simp: ready_def)
  moreover have "routed (mem s1) i c x" if "x \<in> set bs" for x
    using kept_routed [OF k, of x] sub that assms(3) by (auto simp: ready_def)
  ultimately show ?thesis using sub assms(3) accounts_client [OF assms(4)] by (auto simp: ready_def)
qed

lemma accounts_count [simp]: "accounts_but R api s V A B (count_stats f s') V' = accounts_but R api s V A B s' V'"
  by (simp add: accounts_def)

lemma give_pending:
  assumes "gh_ok api {} s V" "ready s V i c h t bs" "bs \<noteq> []"
  shows "\<exists>V'. accounts api s V (set bs) {} (count_stats CountPendingPush (pending_push i c h t s)) V'"
proof -
  have e: "bs = butlast bs @ [t]" using assms(2,3) by (simp add: ready_def)
  show ?thesis
    using pending_push_accounts [OF assms(1), of h "butlast bs" t i c] assms(2) unfolding e [symmetric]
    by (auto simp: ready_def)
qed

lemma give_list_accounts:
  assumes "os_spec api" "gh_ok api {} s V" "ready s V i c h t bs" "bs \<noteq> []"
  shows "\<exists>s' V'. give_list api i c h t s = Some s' \<and> accounts api s V (set bs) {} s' V'"
proof (cases "lock_busy s i c")
  case True
  then show ?thesis using give_pending [OF assms(2-4)] by (auto simp: give_list_def Let_def)
next
  case False
  then show ?thesis
    using ProcessBatchLocked_accounts [OF assms(1,2), of h bs i c] assms(3) by (auto simp: give_list_def ready_def)
qed

text \<open>The loops over the tables, with \<open>L\<close> the list of each entry.\<close>

lemma give_arenas_accounts:
  assumes spec: "os_spec api" and dj: "\<And>i j. i \<noteq> j \<Longrightarrow> set (L i) \<inter> set (L j) = {}"
  shows "gh_ok api {} s V \<Longrightarrow> distinct ks \<Longrightarrow> (\<And>i. i \<in> set ks \<Longrightarrow> ready s V i c (sp_heads sp i) (sp_tails sp i) (L i)) \<Longrightarrow>
    \<exists>s' V'. give_arenas api c sp ks s = Some s' \<and> accounts api s V (\<Union>i \<in> set ks. set (L i)) {} s' V'"
proof (induction ks arbitrary: s V)
  case Nil
  then show ?case using accounts_refl by auto
next
  case (Cons i ks)
  have r: "ready s V i c (sp_heads sp i) (sp_tails sp i) (L i)" using Cons.prems(3) by simp
  have z: "sp_heads sp i = 0 \<longleftrightarrow> L i = []" using r chain_head_iff by (auto simp: ready_def)
  obtain s1 V1 where g: "(if sp_heads sp i = 0 then Some s else give_list api i c (sp_heads sp i) (sp_tails sp i) s) = Some s1"
    "accounts api s V (set (L i)) {} s1 V1"
    using give_list_accounts [OF spec Cons.prems(1) r] accounts_refl [OF Cons.prems(1)] z by (cases "L i = []") auto
  have "ready s1 V1 j c (sp_heads sp j) (sp_tails sp j) (L j)" if "j \<in> set ks" for j
    using ready_step [OF spec Cons.prems(1) Cons.prems(3) g(2)] dj [of j i] that Cons.prems(2) by auto
  then obtain s' V' where "give_arenas api c sp ks s1 = Some s'" "accounts api s1 V1 (\<Union>i \<in> set ks. set (L i)) {} s' V'"
    using Cons.IH [OF accounts_ok [OF g(2)]] Cons.prems(2) by auto
  then show ?case using g(1) gone_trans [OF g(2)] by (auto split: if_splits)
qed

lemma defer_arenas_accounts:
  assumes spec: "os_spec api" and dj: "\<And>i j. i \<noteq> j \<Longrightarrow> set (L i) \<inter> set (L j) = {}"
  shows "gh_ok api {} s V \<Longrightarrow> distinct ks \<Longrightarrow> (\<And>i. i \<in> set ks \<Longrightarrow> ready s V i c (sp_heads sp i) (sp_tails sp i) (L i)) \<Longrightarrow>
    \<exists>V'. accounts api s V (\<Union>i \<in> set ks. set (L i)) {} (defer_arenas c sp ks s) V'"
proof (induction ks arbitrary: s V)
  case Nil
  then show ?case using accounts_refl by auto
next
  case (Cons i ks)
  have r: "ready s V i c (sp_heads sp i) (sp_tails sp i) (L i)" using Cons.prems(3) by simp
  have z: "sp_heads sp i = 0 \<longleftrightarrow> L i = []" using r chain_head_iff by (auto simp: ready_def)
  obtain s1 V1 where g: "s1 = (if sp_heads sp i = 0 then s else count_stats CountPendingPush (pending_push i c (sp_heads sp i) (sp_tails sp i) s))"
    "accounts api s V (set (L i)) {} s1 V1"
    using give_pending [OF Cons.prems(1) r] accounts_refl [OF Cons.prems(1)] z by (cases "L i = []") auto
  have "ready s1 V1 j c (sp_heads sp j) (sp_tails sp j) (L j)" if "j \<in> set ks" for j
    using ready_step [OF spec Cons.prems(1) Cons.prems(3) g(2)] dj [of j i] that Cons.prems(2) by auto
  then obtain V' where "accounts api s1 V1 (\<Union>i \<in> set ks. set (L i)) {} (defer_arenas c sp ks s1) V'"
    using Cons.IH [OF accounts_ok [OF g(2)]] Cons.prems(2) by auto
  from gone_trans [OF g(2) this] show ?case by (auto simp: g(1) Let_def split: if_splits)
qed

text \<open>What a split by arena of a single-class list leaves for the loops.\<close>

lemma split_ready:
  assumes spec: "os_spec api" and ok: "gh_ok api {} s V" and bs: "held_list c s V h bs"
  obtains sp m where "split_walk arena_key h split_empty (mem s) = Some (True, sp, m)"
    "gh_ok api {} (s\<lparr>mem := m\<rparr>) V" "accounts api s V (set bs) (set bs) (s\<lparr>mem := m\<rparr>) V"
    "\<And>i. ready (s\<lparr>mem := m\<rparr>) V i c (sp_heads sp i) (sp_tails sp i) (filter (\<lambda>b. arena_key (mem s) b = i) bs)"
    "(\<Union>i \<in> set [0..<NUM_ARENAS]. set (filter (\<lambda>b. arena_key (mem s) b = i) bs)) = set bs"
proof -
  have ch: "chain (fb_next (mem s)) h bs" and sub: "set bs \<subseteq> client V (mem s)"
    and cl: "\<And>b. b \<in> set bs \<Longrightarrow> fb_class_index (mem s) b = c" using bs by (auto simp: held_list_def)
  obtain sp m where sp: "split_walk arena_key h split_empty (mem s) = Some (True, sp, m)" "split_ok (arena_key (mem s)) m sp bs"
    "same_routes api V s (s\<lparr>mem := m\<rparr>)" "accounts api s V (set bs) (set bs) (s\<lparr>mem := m\<rparr>) V"
    using split_list [OF spec ok ch sub arena_key_for] by blast
  have rt: "routed m i c b" if "b \<in> set bs" "arena_key (mem s) b = i" for b i
  proof -
    have bc: "b \<in> client V (mem s)" using sub that by blast
    have "routed (mem s) i c b"
      using client_facts(6) [OF spec ok bc] cl [OF that(1)] that(2) by (simp add: routed_def arena_key_def)
    then show ?thesis using sp(3) bc by (simp add: same_routes_def)
  qed
  have "client V m = client V (mem s)" using sp(3) by (simp add: same_routes_def)
  then have "ready (s\<lparr>mem := m\<rparr>) V i c (sp_heads sp i) (sp_tails sp i) (filter (\<lambda>b. arena_key (mem s) b = i) bs)" for i
    using split_okD(1,2) [OF sp(2), of i] rt sub unfolding ready_def by auto
  moreover have "arena_key (mem s) b < NUM_ARENAS" if "b \<in> set bs" for b
    using client_facts(10) [OF spec ok] sub that by (auto simp: arena_key_def)
  then have "(\<Union>i \<in> set [0..<NUM_ARENAS]. set (filter (\<lambda>b. arena_key (mem s) b = i) bs)) = set bs" by auto
  moreover have "gh_ok api {} (s\<lparr>mem := m\<rparr>) V" using sp(3) by (simp add: same_routes_def)
  ultimately show thesis using that sp(1,4) by blast
qed

lemma rewrite_then_give:
  assumes "accounts api s V A A s1 V" "accounts api s1 V A {} s2 V2" "A \<subseteq> client V (mem s)"
  shows "accounts api s V A {} s2 V2"
  using accounts_trans [OF assms(1,2)] by auto

lemma DeallocateBatchClass_accounts:
  assumes spec: "os_spec api" and ok: "gh_ok api {} s V" and bs: "held_list c s V h bs"
  shows "\<exists>s' V'. DeallocateBatchClass api c h s = Some s' \<and> accounts api s V (set bs) {} s' V'"
proof (cases "h = 0")
  case True
  then show ?thesis using bs accounts_refl [OF ok] by (auto simp: DeallocateBatchClass_def held_list_def)
next
  case False
  have sub: "set bs \<subseteq> client V (mem s)" using bs by (simp add: held_list_def)
  let ?L = "\<lambda>i. filter (\<lambda>b. arena_key (mem s) b = i) bs"
  obtain sp m where sp: "split_walk arena_key h split_empty (mem s) = Some (True, sp, m)"
    "gh_ok api {} (s\<lparr>mem := m\<rparr>) V" "accounts api s V (set bs) (set bs) (s\<lparr>mem := m\<rparr>) V"
    "\<And>i. ready (s\<lparr>mem := m\<rparr>) V i c (sp_heads sp i) (sp_tails sp i) (?L i)"
    "(\<Union>i \<in> set [0..<NUM_ARENAS]. set (?L i)) = set bs"
    using split_ready [OF spec ok bs] by blast
  obtain s' V' where g: "give_arenas api c sp [0..<NUM_ARENAS] (s\<lparr>mem := m\<rparr>) = Some s'"
    "accounts api (s\<lparr>mem := m\<rparr>) V (\<Union>i \<in> set [0..<NUM_ARENAS]. set (?L i)) {} s' V'"
    using give_arenas_accounts [OF spec _ sp(2), of ?L "[0..<NUM_ARENAS]" c sp] sp(4) by auto
  show ?thesis
    using False sp(1) g(1) rewrite_then_give [OF sp(3) g(2) [unfolded sp(5)] sub]
    by (auto simp: DeallocateBatchClass_def SplitListByArena_def)
qed

lemma DeferBinToPending_accounts:
  assumes spec: "os_spec api" and ok: "gh_ok api {} s V" and bs: "held_list c s V h bs"
  shows "\<exists>s' V'. DeferBinToPending c h s = Some s' \<and> accounts api s V (set bs) {} s' V'"
proof (cases "h = 0")
  case True
  then show ?thesis using bs accounts_refl [OF ok] by (auto simp: DeferBinToPending_def held_list_def)
next
  case False
  have sub: "set bs \<subseteq> client V (mem s)" using bs by (simp add: held_list_def)
  let ?L = "\<lambda>i. filter (\<lambda>b. arena_key (mem s) b = i) bs"
  obtain sp m where sp: "split_walk arena_key h split_empty (mem s) = Some (True, sp, m)"
    "gh_ok api {} (s\<lparr>mem := m\<rparr>) V" "accounts api s V (set bs) (set bs) (s\<lparr>mem := m\<rparr>) V"
    "\<And>i. ready (s\<lparr>mem := m\<rparr>) V i c (sp_heads sp i) (sp_tails sp i) (?L i)"
    "(\<Union>i \<in> set [0..<NUM_ARENAS]. set (?L i)) = set bs"
    using split_ready [OF spec ok bs] by blast
  obtain V' where g: "accounts api (s\<lparr>mem := m\<rparr>) V (\<Union>i \<in> set [0..<NUM_ARENAS]. set (?L i)) {} (defer_arenas c sp [0..<NUM_ARENAS] (s\<lparr>mem := m\<rparr>)) V'"
    using defer_arenas_accounts [OF spec _ sp(2), of ?L "[0..<NUM_ARENAS]" c sp] sp(4) by auto
  show ?thesis
    using False sp(1) rewrite_then_give [OF sp(3) g [unfolded sp(5)] sub]
    by (auto simp: DeferBinToPending_def SplitListByArena_def)
qed

lemma DeallocateBlock_global_accounts:
  assumes spec: "os_spec api" and ok: "gh_ok api {} s V" and b: "b \<in> client V (mem s)"
  shows "\<exists>s' V'. DeallocateBlock_global api b s = Some s' \<and> accounts api s V {b} {} s' V'"
proof -
  let ?s = "upd_mem (set_fb_next b 0) s"
  note f = client_facts [OF spec ok b]
  note l = client_link [OF ok b, of 0]
  have "held_list (fb_class_index (mem ?s) b) ?s V b [b]"
    using f(4) l(2) b by (simp add: held_list_def upd_mem_def fb.get_put)
  then obtain s' V' where "DeallocateBatchClass api (fb_class_index (mem ?s) b) b ?s = Some s'" "accounts api ?s V {b} {} s' V'"
    using DeallocateBatchClass_accounts [OF spec accounts_ok [OF l(1)]] by fastforce
  moreover from this(2) have "accounts api s V {b} {} s' V'" using rewrite_then_give [OF l(1)] b by simp
  ultimately show ?thesis using f(1,3) unfolding DeallocateBlock_global_def Let_def by auto
qed

text \<open>The general batch: first by arena, then by the class read off each block's slab.\<close>

definition arena_list :: "'a gh_state_scheme \<Rightarrow> view \<Rightarrow> nat \<Rightarrow> addr \<Rightarrow> addr list \<Rightarrow> bool" where
  "arena_list s V i h bs \<longleftrightarrow> chain (fb_next (mem s)) h bs \<and> set bs \<subseteq> client V (mem s)
     \<and> (\<forall>b \<in> set bs. arena_key (mem s) b = i)"

lemma arena_list_step:
  assumes spec: "os_spec api" and ok: "gh_ok api {} s V" and l: "arena_list s V i h bs"
    and acc: "accounts api s V G {} s1 V1" and dj: "set bs \<inter> G = {}"
  shows "arena_list s1 V1 i h bs"
proof -
  have sub: "set bs \<subseteq> client V (mem s) - G" using l dj by (auto simp: arena_list_def)
  have k: "kept (client V (mem s) - G) (mem s) (mem s1)" using acc by (simp add: accounts_def)
  have "chain (fb_next (mem s1)) h bs"
    using l kept_chain [OF k sub] client_facts(5) [OF spec ok] sub by (auto simp: arena_list_def)
  moreover have "arena_key (mem s1) x = i" if "x \<in> set bs" for x
    using kept_routed [OF k, of x i "slab_class_idx (mem s) (fb_slab (mem s) x)"] sub that l
    by (auto simp: arena_list_def arena_key_def routed_def)
  ultimately show ?thesis using sub accounts_client [OF acc] by (auto simp: arena_list_def)
qed

lemma give_classes_accounts:
  assumes spec: "os_spec api" and dj: "\<And>i j. i \<noteq> j \<Longrightarrow> set (L i) \<inter> set (L j) = {}"
  shows "gh_ok api {} s V \<Longrightarrow> distinct ks \<Longrightarrow>
    (\<And>c. c \<in> set ks \<Longrightarrow> L c \<noteq> [] \<and> ready s V i c (sp_heads sp c) (sp_tails sp c) (L c)) \<Longrightarrow>
    \<exists>s' V'. give_classes api i sp ks s = Some s' \<and> accounts api s V (\<Union>c \<in> set ks. set (L c)) {} s' V'"
proof (induction ks arbitrary: s V)
  case Nil
  then show ?case using accounts_refl by auto
next
  case (Cons c ks)
  have r: "ready s V i c (sp_heads sp c) (sp_tails sp c) (L c)" "L c \<noteq> []" using Cons.prems(3) by simp_all
  obtain s1 V1 where g: "give_list api i c (sp_heads sp c) (sp_tails sp c) s = Some s1"
    "accounts api s V (set (L c)) {} s1 V1"
    using give_list_accounts [OF spec Cons.prems(1) r] by blast
  have "L d \<noteq> [] \<and> ready s1 V1 i d (sp_heads sp d) (sp_tails sp d) (L d)" if "d \<in> set ks" for d
  proof -
    have "d \<noteq> c" using that Cons.prems(2) by auto
    then show ?thesis using ready_step [OF spec Cons.prems(1) _ g(2) dj] Cons.prems(3) [of d] that by simp
  qed
  then obtain s' V' where "give_classes api i sp ks s1 = Some s'" "accounts api s1 V1 (\<Union>c \<in> set ks. set (L c)) {} s' V'"
    using Cons.IH [OF accounts_ok [OF g(2)]] Cons.prems(2) by auto
  then show ?case using g(1) gone_trans [OF g(2)] by auto
qed

lemma arena_run_accounts:
  assumes spec: "os_spec api" and ok: "gh_ok api {} s V" and l: "arena_list s V i h bs"
  shows "\<exists>csp m s' V'. split_walk class_key h split_empty (mem s) = Some (True, csp, m)
    \<and> give_classes api i csp (sp_present csp) (s\<lparr>mem := m\<rparr>) = Some s' \<and> accounts api s V (set bs) {} s' V'"
proof -
  let ?K = "fb_class_index (mem s)" let ?L = "\<lambda>c. filter (\<lambda>b. ?K b = c) bs"
  have ch: "chain (fb_next (mem s)) h bs" and sub: "set bs \<subseteq> client V (mem s)"
    and ar: "\<And>b. b \<in> set bs \<Longrightarrow> arena_key (mem s) b = i" using l by (auto simp: arena_list_def)
  obtain csp m where sp: "split_walk class_key h split_empty (mem s) = Some (True, csp, m)" "split_ok ?K m csp bs"
    "same_routes api V s (s\<lparr>mem := m\<rparr>)" "accounts api s V (set bs) (set bs) (s\<lparr>mem := m\<rparr>) V"
    using split_list [OF spec ok ch sub class_key_for [OF spec ok]] by blast
  have rt: "routed m i (?K b) b" if "b \<in> set bs" for b
  proof -
    have bc: "b \<in> client V (mem s)" using sub that by blast
    have "routed (mem s) i (?K b) b"
      using client_facts(6) [OF spec ok bc] ar [OF that] by (simp add: routed_def arena_key_def)
    then show ?thesis using sp(3) bc by (simp add: same_routes_def)
  qed
  have "client V m = client V (mem s)" using sp(3) by (simp add: same_routes_def)
  then have rdy: "ready (s\<lparr>mem := m\<rparr>) V i c (sp_heads csp c) (sp_tails csp c) (?L c)" for c
    using split_okD(1,2) [OF sp(2), of c] rt sub unfolding ready_def by auto
  have pres: "set (sp_present csp) = ?K ` set bs" "distinct (sp_present csp)" using split_okD [OF sp(2)] by simp_all
  have ok1: "gh_ok api {} (s\<lparr>mem := m\<rparr>) V" using sp(3) by (simp add: same_routes_def)
  have u: "(\<Union>c \<in> set (sp_present csp). set (?L c)) = set bs" using pres(1) by auto
  have "\<exists>s' V'. give_classes api i csp (sp_present csp) (s\<lparr>mem := m\<rparr>) = Some s'
    \<and> accounts api (s\<lparr>mem := m\<rparr>) V (\<Union>c \<in> set (sp_present csp). set (?L c)) {} s' V'"
    by (rule give_classes_accounts [OF spec _ ok1 pres(2)]) (use rdy pres(1) in \<open>auto simp: filter_empty_conv\<close>)
  then obtain s' V' where g: "give_classes api i csp (sp_present csp) (s\<lparr>mem := m\<rparr>) = Some s'"
    "accounts api (s\<lparr>mem := m\<rparr>) V (set bs) {} s' V'" unfolding u by blast
  then show ?thesis using sp(1) rewrite_then_give [OF sp(4) g(2) sub] by blast
qed

lemma batch_arenas_accounts:
  assumes spec: "os_spec api" and dj: "\<And>i j. i \<noteq> j \<Longrightarrow> set (L i) \<inter> set (L j) = {}"
  shows "gh_ok api {} s V \<Longrightarrow> distinct ks \<Longrightarrow> (\<And>i. i \<in> set ks \<Longrightarrow> arena_list s V i (sp_heads sp i) (L i)) \<Longrightarrow>
    \<exists>s' V'. batch_arenas api sp ks s = Some s' \<and> accounts api s V (\<Union>i \<in> set ks. set (L i)) {} s' V'"
proof (induction ks arbitrary: s V)
  case Nil
  then show ?case using accounts_refl by auto
next
  case (Cons i ks)
  have r: "arena_list s V i (sp_heads sp i) (L i)" using Cons.prems(3) by simp
  have z: "sp_heads sp i = 0 \<longleftrightarrow> L i = []" using r chain_head_iff by (auto simp: arena_list_def)
  obtain csp m s1 V1 where w: "split_walk class_key (sp_heads sp i) split_empty (mem s) = Some (True, csp, m)"
    "give_classes api i csp (sp_present csp) (s\<lparr>mem := m\<rparr>) = Some s1" "accounts api s V (set (L i)) {} s1 V1"
    using arena_run_accounts [OF spec Cons.prems(1) r] by blast
  define s2 V2 where "s2 = (if L i = [] then s else s1)" and "V2 = (if L i = [] then V else V1)"
  have g: "accounts api s V (set (L i)) {} s2 V2"
    using w(3) accounts_refl [OF Cons.prems(1)] by (auto simp: s2_def V2_def)
  have e: "batch_arenas api sp (i # ks) s = batch_arenas api sp ks s2" using w(1,2) z by (simp add: s2_def)
  have "arena_list s2 V2 j (sp_heads sp j) (L j)" if "j \<in> set ks" for j
    using arena_list_step [OF spec Cons.prems(1) Cons.prems(3) g] dj [of j i] that Cons.prems(2) by auto
  then obtain s' V' where "batch_arenas api sp ks s2 = Some s'" "accounts api s2 V2 (\<Union>i \<in> set ks. set (L i)) {} s' V'"
    using Cons.IH [OF accounts_ok [OF g]] Cons.prems(2) by auto
  then show ?case unfolding e using gone_trans [OF g] by auto
qed

lemma DeallocateBatch_accounts:
  assumes spec: "os_spec api" and ok: "gh_ok api {} s V"
    and ch: "chain (fb_next (mem s)) h bs" and sub: "set bs \<subseteq> client V (mem s)"
  shows "\<exists>s' V'. DeallocateBatch api h s = Some s' \<and> accounts api s V (set bs) {} s' V'"
proof (cases "h = 0")
  case True
  then show ?thesis using ch accounts_refl [OF ok] by (auto simp: DeallocateBatch_def)
next
  case False
  let ?K = "arena_key (mem s)" let ?L = "\<lambda>i. filter (\<lambda>b. ?K b = i) bs"
  obtain sp m where sp: "split_walk arena_key h split_empty (mem s) = Some (True, sp, m)" "split_ok ?K m sp bs"
    "same_routes api V s (s\<lparr>mem := m\<rparr>)" "accounts api s V (set bs) (set bs) (s\<lparr>mem := m\<rparr>) V"
    using split_list [OF spec ok ch sub arena_key_for] by blast
  have ok1: "gh_ok api {} (s\<lparr>mem := m\<rparr>) V" and cl: "client V m = client V (mem s)"
    using sp(3) by (simp_all add: same_routes_def)
  have "arena_key (mem (s\<lparr>mem := m\<rparr>)) b = ?K b" if "b \<in> set bs" for b
    using arena_key_for [of api V s] sp(3) that sub unfolding key_for_def by blast
  then have al: "arena_list (s\<lparr>mem := m\<rparr>) V i (sp_heads sp i) (?L i)" for i
    using split_okD(1) [OF sp(2), of i] sub cl by (auto simp: arena_list_def)
  have "arena_key (mem s) b < NUM_ARENAS" if "b \<in> set bs" for b
    using client_facts(10) [OF spec ok] sub that by (auto simp: arena_key_def)
  then have u: "(\<Union>i \<in> set [0..<NUM_ARENAS]. set (?L i)) = set bs" by auto
  have "\<exists>s' V'. batch_arenas api sp [0..<NUM_ARENAS] (s\<lparr>mem := m\<rparr>) = Some s'
    \<and> accounts api (s\<lparr>mem := m\<rparr>) V (\<Union>i \<in> set [0..<NUM_ARENAS]. set (?L i)) {} s' V'"
    by (rule batch_arenas_accounts [OF spec _ ok1]) (use al in auto)
  then show ?thesis using False sp(1) rewrite_then_give [OF sp(4) _ sub] unfolding u
    by (auto simp: DeallocateBatch_def Let_def)
qed

section \<open>Purge\<close>

lemma drain_all_accounts:
  assumes spec: "os_spec api"
  shows "gh_ok api {} s V \<Longrightarrow> (\<And>a c. (a, c) \<in> set xs \<Longrightarrow> \<not> lock_busy s a c) \<Longrightarrow>
    \<exists>s' V'. drain_all api xs s = Some s' \<and> accounts api s V {} {} s' V'
      \<and> vQ V' = (\<lambda>a c. if (a, c) \<in> set xs then [] else vQ V a c)"
proof (induction xs arbitrary: s V)
  case Nil
  then show ?case using accounts_refl by auto
next
  case (Cons x xs)
  obtain a c where x: "x = (a, c)" by fastforce
  obtain s1 V1 where d: "DrainPendingReturns api a c s = Some s1" "accounts api s V {} {} s1 V1" "vQ V1 = upd2 (vQ V) a c []"
    using DrainPendingReturns_accounts [OF spec Cons.prems(1)] by blast
  obtain s' V' where r: "drain_all api xs s1 = Some s'" "accounts api s1 V1 {} {} s' V'"
    "vQ V' = (\<lambda>a c. if (a, c) \<in> set xs then [] else vQ V1 a c)"
    using Cons.IH [OF accounts_ok [OF d(2)]] Cons.prems(2) accounts_lock [OF d(2)] by auto
  have "accounts api s V {} {} s' V'" using gone_trans [OF d(2) r(2)] by simp
  moreover have "vQ V' = (\<lambda>a c. if (a, c) \<in> set (x # xs) then [] else vQ V a c)"
    unfolding r(3) d(3) x by (auto simp: fun_eq_iff)
  ultimately show ?case using Cons.prems(2) d(1) r(1) x by auto
qed
end
