(* ===== verification/FA_Spans.thy ===== *)
theory FA_Spans
  imports FA_GiveBack
begin

text \<open>
  Whole spans at the level of the global heap: \<^verbatim>\<open>GlobalHeap::AllocateLarge\<close> and
  \<^verbatim>\<open>DeallocateLarge\<close>, the pages of thread caches taken straight from \<^verbatim>\<open>OSMemory\<close>, and
  \<^verbatim>\<open>GlobalHeap::PurgePageCache\<close>. A span handed out is new: it meets no slab, no cached page and
  no span held by anyone else (\<open>ext\<close>); giving it back leaves everything else alone and files it in the
  page cache or hands it to the system (\<open>span_given\<close>).
\<close>

section \<open>Taking a span\<close>

definition new_span :: "os_api \<Rightarrow> 'a gh_state_scheme \<Rightarrow> view \<Rightarrow> addr \<Rightarrow> nat \<Rightarrow> 'a gh_state_scheme \<Rightarrow> view \<Rightarrow> bool" where
  "new_span api s V p n s' V' \<longleftrightarrow> accounts api s V {} {} s' V' \<and> ext api s' V' p n
     \<and> (\<forall>q k. ext api s V q k \<longrightarrow> {q..<q + k} \<inter> {p..<p + n} = {})
     \<and> (\<forall>b \<in> client V (mem s). bcells (mem s) b \<inter> {p..<p + n} = {})"

lemma client_used:
  assumes "gh_ok api X s V" "b \<in> client V (mem s)"
  shows "bcells (mem s) b \<subseteq> slab_range (mem s) (fb_slab (mem s) b)" "bcells (mem s) b \<subseteq> ph_used api s (vL V)"
proof -
  note sl = client_slab [OF assms] and g = gh_good [OF assms(1) client_slab(1) [OF assms]]
  show r: "bcells (mem s) b \<subseteq> slab_range (mem s) (fb_slab (mem s) b)" by (rule out_bcells(2) [OF g sl(2)])
  show "bcells (mem s) b \<subseteq> ph_used api s (vL V)" using r slab_in_ph_used [OF g] by blast
qed

lemma granted_span:
  assumes ok: "gh_ok api {} s V" and g: "ph_grant api s (vL V) p n s' L'"
    and acc: "accounts api s V {} {} s' (V\<lparr>vL := L'\<rparr>)" and sl: "\<forall>z \<in> slabs V. slab_range (mem s') z \<inter> {p..<p + n} = {}"
  shows "new_span api s V p n s' (V\<lparr>vL := L'\<rparr>)"
proof -
  have sV: "slabs (V\<lparr>vL := L'\<rparr>) = slabs V" by (simp add: slabs_def listed_def)
  have new: "{p..<p + n} \<inter> ph_used api s (vL V) = {}" and u: "{p..<p + n} \<subseteq> ph_used api s' L'"
    and o: "span_ok api p n" "span_owned api s' p n" using g unfolding ph_grant_def by blast+
  have "{p..<p + n} \<inter> cached_cells api L' = {}" using u by (auto simp: ph_used_def)
  then have "ext api s' (V\<lparr>vL := L'\<rparr>) p n" using o sl by (simp add: ext_def sV)
  moreover have "{q..<q + k} \<inter> {p..<p + n} = {}" if "ext api s V q k" for q k
    using ext_used [OF that] new by blast
  moreover have "bcells (mem s) b \<inter> {p..<p + n} = {}" if "b \<in> client V (mem s)" for b
    using client_used(2) [OF ok that] new by blast
  ultimately show ?thesis using acc by (simp add: new_span_def)
qed

lemma ext_facts:
  assumes "os_spec api" "ext api s V p n"
  shows "p \<noteq> 0" "IsPlausibleHeapPtr p" "p mod 4096 = 0" "4096 \<le> n" "p + n \<le> 2 ^ 47"
    "n mod GetPageSize api = 0" "p mod GetPageSize api = 0" "0 < n"
proof -
  have e: "span_owned api s p n" "span_ok api p n" using assms(2) by (auto simp: ext_def)
  show n: "p \<noteq> 0" "n mod GetPageSize api = 0" "0 < n" using e(1) by (auto simp: span_owned_def)
  have "GetPageSize api \<le> n" using n by (intro dvd_imp_le) auto
  then show "4096 \<le> n" using os_spec_page_bounds(1) [OF assms(1)] by linarith
  show "p + n \<le> 2 ^ 47" "p mod GetPageSize api = 0" using e(2) by (simp_all add: span_ok_def)
  show "IsPlausibleHeapPtr p" by (rule span_ok_plausible [OF assms(1) e(2) n(3)])
  show "p mod 4096 = 0" by (rule span_ok_aligned [OF assms(1) e(2)])
qed

lemma new_span_facts:
  assumes "os_spec api" "new_span api s V p n s' V'"
  shows "p \<noteq> 0" "IsPlausibleHeapPtr p" "p mod 4096 = 0" "4096 \<le> n" "p + n \<le> 2 ^ 47"
    "accounts api s V {} {} s' V'" "ext api s' V' p n"
proof -
  show e: "ext api s' V' p n" and "accounts api s V {} {} s' V'" using assms(2) by (simp_all add: new_span_def)
  show "p \<noteq> 0" "IsPlausibleHeapPtr p" "p mod 4096 = 0" "4096 \<le> n" "p + n \<le> 2 ^ 47" using ext_facts [OF assms(1) e] by simp_all
qed

lemma gh_ok_fail_countdown [simp]:
  "gh_ok api X (s\<lparr>g_oom_fail_countdown := v\<rparr>) V = gh_ok api X s V"
proof -
  have "span_owned api (s\<lparr>g_oom_fail_countdown := v\<rparr>) p n = span_owned api s p n" for p n by (rule os_cong(3)) simp_all
  moreover have "ph_core api (s\<lparr>g_oom_fail_countdown := v\<rparr>) (vL V) = ph_core api s (vL V)" by (rule ph_core_cong) simp_all
  ultimately show ?thesis
    by (simp add: gh_ok_def ph_ok_def slabs_ok_def slab_good_def lists_ok_def queues_ok_def)
qed

lemma accounts_same:
  assumes "gh_ok api {} s V" "gh_ok api {} s' V" "mem s' = mem s" "os_log s' = os_log s" "pool_chunks s' = pool_chunks s"
    "env s' = env s"
  shows "accounts_but R api s V {} {} s' V"
  using assms spared_same [of s' s V V api R] by (simp add: accounts_def)

lemma new_span_count [simp]: "new_span api s V p n (count_stats f s') V' = new_span api s V p n s' V'"
  by (simp add: new_span_def)

lemma align_up_page:
  assumes "os_spec api" "n + GetPageSize api \<le> 2 ^ 64"
  shows "n \<le> align_up n (GetPageSize api)" "align_up n (GetPageSize api) mod GetPageSize api = 0"
    "align_up n (GetPageSize api) < n + GetPageSize api"
proof -
  obtain k where k: "GetPageSize api = 2 ^ k" using os_spec_page [OF assms(1)] by blast
  show "n \<le> align_up n (GetPageSize api)" "align_up n (GetPageSize api) mod GetPageSize api = 0"
    "align_up n (GetPageSize api) < n + GetPageSize api"
    using align_up_bounds [of n k] assms(2) unfolding k by blast+
qed

lemma align_up_exact:
  assumes "os_spec api" "n mod GetPageSize api = 0" "n + GetPageSize api \<le> 2 ^ 64"
  shows "align_up n (GetPageSize api) = n"
proof -
  obtain k where k: "GetPageSize api = 2 ^ k" using os_spec_page [OF assms(1)] by blast
  have "(n + 2 ^ k - 1) div 2 ^ k = n div 2 ^ k"
  proof -
    obtain q where q: "n = 2 ^ k * q" using assms(2) unfolding k by auto
    have "(1::nat) \<le> 2 ^ k" by simp
    then have "n + 2 ^ k - 1 = 2 ^ k * q + (2 ^ k - 1)" using q by linarith
    moreover have "(2 ^ k * q + (2 ^ k - 1)) div 2 ^ k = q" by (subst div_mult_self4) simp_all
    ultimately show ?thesis using q by (metis nonzero_mult_div_cancel_left power_not_zero zero_neq_numeral)
  qed
  then show ?thesis using align_up_pow2 [of n k] assms(2,3) unfolding k by (simp add: mod_eq_0_iff_dvd)
qed

lemma AllocateLarge_span:
  assumes spec: "os_spec api" and ok: "gh_ok api {} s V" and n: "0 < n" "n mod GetPageSize api = 0" "n + GetPageSize api \<le> 2 ^ 64"
    and r: "AllocateLarge api n s = (p, s')"
  shows "if p = 0 then accounts api s V {} {} s' V else \<exists>V'. new_span api s V p n s' V'"
proof -
  have a: "align_up n (GetPageSize api) = n" by (rule align_up_exact [OF spec n(2,3)])
  show ?thesis
  proof (cases "0 < g_oom_fail_countdown s")
    case True
    then have "p = 0" "s' = s\<lparr>g_oom_fail_countdown := g_oom_fail_countdown s - 1\<rparr>"
      using r by (auto simp: AllocateLarge_def Let_def ShouldFailAllocationForTest_def)
    then show ?thesis using accounts_same [OF ok, of s'] ok by simp
  next
    case False
    obtain x s1 where x: "PageHeapAllocate api n s = (x, s1)" by fastforce
    have res: "p = x" "s' = (if x \<noteq> 0 then count_stats (CountOsAlloc n) s1 else s1)"
      using r False x a by (auto simp: AllocateLarge_def Let_def ShouldFailAllocationForTest_def split: if_splits)
    show ?thesis
    proof (cases "x = 0")
      case True
      then show ?thesis using heap_grant [OF spec ok n(1,2) x] res by simp
    next
      case False
      then obtain L' where "ph_grant api s (vL V) x n s1 L'" "accounts api s V {} {} s1 (V\<lparr>vL := L'\<rparr>)"
        "\<forall>z \<in> slabs V. slab_range (mem s1) z \<inter> {x..<x + n} = {}"
        using heap_grant [OF spec ok n(1,2) x] by auto
      from granted_span [OF ok this] show ?thesis using False res by auto
    qed
  qed
qed

lemma AllocatePages_span:
  assumes spec: "os_spec api" and ok: "gh_ok api {} s V" and n: "0 < n" "n mod GetPageSize api = 0"
    and r: "AllocatePages api n s = (p, s')"
  shows "if p = 0 then accounts api s V {} {} s' V else new_span api s V p n s' V"
proof -
  note g = AllocatePages_grant [OF spec gh_okD(1) [OF ok] n r]
  have fr: "gh_frame s s'" using gh_frame_os [OF AllocatePages_frame [of s api n]] r by simp
  have a: "if p = 0 then accounts api s V {} {} s' V
    else \<exists>L'. ph_grant api s (vL V) p n s' L' \<and> accounts api s V {} {} s' (V\<lparr>vL := L'\<rparr>)
      \<and> (\<forall>z \<in> slabs V. slab_range (mem s') z \<inter> {p..<p + n} = {})"
    by (rule grant_accounts [OF ok fr]) (use g in auto)
  show ?thesis
  proof (cases "p = 0")
    case True
    then show ?thesis using a by simp
  next
    case False
    obtain L' where L: "ph_grant api s (vL V) p n s' L'" "accounts api s V {} {} s' (V\<lparr>vL := L'\<rparr>)"
      "\<forall>z \<in> slabs V. slab_range (mem s') z \<inter> {p..<p + n} = {}" using a False by auto
    have "ph_ok api s' (vL V)" "ph_ok api s' L'" using g L(1) False by (simp_all add: ph_grant_def)
    then have e: "L' = vL V" using ph_inv_eq [of api s'] by metis
    have "V\<lparr>vL := vL V\<rparr> = V" by simp
    then show ?thesis using False granted_span [OF ok L] unfolding e by simp
  qed
qed

section \<open>Giving a span back\<close>

lemma release_accounts:
  assumes ok: "gh_ok api {} s V" and fr: "gh_frame s s'" and rel: "ph_release api s (vL V) R s' L'"
    and away: "\<And>z. z \<in> slabs V \<Longrightarrow> slab_range (mem s) z \<inter> R = {}"
  shows "accounts_but R api s V {} {} s' (V\<lparr>vL := L'\<rparr>)"
proof -
  have ph: "ph_ok api s' L'" using rel by (simp add: ph_release_def)
  have m: "mem s' x = mem s x" if "z \<in> slabs V" "x \<in> slab_range (mem s) z" for z x
    using rel away [OF that(1)] that(2) unfolding ph_release_def by blast
  have so: "span_owned api s' z (slab_memory_size (mem s) z)" if "z \<in> slabs V" for z
    using rel gh_good [OF ok that] away [OF that] unfolding ph_release_def slab_good_def slab_range_def by blast
  have nc: "slab_range (mem s) z \<inter> cached_cells api L' = {}" if "z \<in> slabs V" for z
  proof -
    have "slab_range (mem s) z \<subseteq> ph_used api s' L'"
      using slab_in_ph_used [OF gh_good [OF ok that]] away [OF that] rel unfolding ph_release_def by blast
    then show ?thesis by (auto simp: ph_used_def)
  qed
  note hb = heap_below [OF ok fr ph m so nc]
  show ?thesis
    using hb(1-3) ph_release_spared [OF rel ok away] gh_frame_fields(4) [OF fr] by (simp add: accounts_def)
qed

lemma DeallocateLarge_accounts:
  assumes spec: "os_spec api" and ok: "gh_ok api {} s V" and e: "ext api s V p n" and n: "n + GetPageSize api \<le> 2 ^ 64"
  shows "\<exists>V'. accounts_but {p..<p + n} api s V {} {} (DeallocateLarge api p n s) V'"
proof -
  have x: "span_owned api s p n" "span_ok api p n" "{p..<p + n} \<inter> cached_cells api (vL V) = {}"
    and sl: "\<And>z. z \<in> slabs V \<Longrightarrow> slab_range (mem s) z \<inter> {p..<p + n} = {}" using e by (auto simp: ext_def)
  have a: "align_up n (GetPageSize api) = n" using align_up_exact [OF spec _ n] x(1) by (simp add: span_owned_def)
  obtain L' where "ph_release api s (vL V) {p..<p + n} (PageHeapFree api p n s) L'"
    using PageHeapFree_release [OF spec gh_okD(1) [OF ok] x] by blast
  from release_accounts [OF ok gh_frame_PageHeapFree this sl] show ?thesis
    by (auto simp: DeallocateLarge_def a Let_def)
qed

text \<open>
  What becomes of the span itself: in front of its bin of the page cache, where the next request of
  its size finds it, or back to the operating system.
\<close>

lemma DeallocateLarge_back:
  assumes spec: "os_spec api" and ok: "gh_ok api {} s V" and e: "ext api s V p n" and n: "n + GetPageSize api \<le> 2 ^ 64"
  shows "span_back api p n s (DeallocateLarge api p n s)"
proof -
  have x: "span_owned api s p n" "span_ok api p n" using e by (auto simp: ext_def)
  have a: "align_up n (GetPageSize api) = n" using align_up_exact [OF spec _ n] x(1) by (simp add: span_owned_def)
  show ?thesis
    by (rule span_back_cong [OF PageHeapFree_back [OF spec gh_okD(1) [OF ok] x]])
       (simp_all add: DeallocateLarge_def Let_def a count_stats_def)
qed

text \<open>
  The same over several calls: a span is given back between two states when it is filed in the bin of
  its size at the end, or a system call over exactly the span was made in between.
\<close>

definition span_given :: "os_api \<Rightarrow> addr \<Rightarrow> nat \<Rightarrow> 'a ph_state_scheme \<Rightarrow> 'a ph_state_scheme \<Rightarrow> bool" where
  "span_given api p n s s' \<longleftrightarrow> p \<in> set (bin_spans s' (n div GetPageSize api))
     \<or> (\<exists>l. os_log s' = os_log s @ l \<and> (Madvise p n \<in> set l \<or> Munmap p n \<in> set l))"

definition spans_grow :: "'a ph_state_scheme \<Rightarrow> 'a ph_state_scheme \<Rightarrow> bool" where
  "spans_grow s s' \<longleftrightarrow> (\<exists>l. os_log s' = os_log s @ l) \<and> (\<forall>q. set (bin_spans s q) \<subseteq> set (bin_spans s' q))"

lemma spans_grow_refl [simp]: "spans_grow s s"
  by (simp add: spans_grow_def)

lemma spans_grow_trans: "spans_grow s s1 \<Longrightarrow> spans_grow s1 s2 \<Longrightarrow> spans_grow s s2"
  unfolding spans_grow_def by (metis append_assoc order_trans)

lemma span_given_after: "span_given api p n s s1 \<Longrightarrow> spans_grow s1 s2 \<Longrightarrow> span_given api p n s s2"
  unfolding span_given_def spans_grow_def by fastforce

lemma span_given_before: "spans_grow s s1 \<Longrightarrow> span_given api p n s1 s2 \<Longrightarrow> span_given api p n s s2"
  unfolding span_given_def spans_grow_def by fastforce

lemma DeallocateLarge_given:
  assumes spec: "os_spec api" and ok: "gh_ok api {} s V" and e: "ext api s V p n" and n: "n + GetPageSize api \<le> 2 ^ 64"
  shows "span_given api p n s (DeallocateLarge api p n s)" "spans_grow s (DeallocateLarge api p n s)"
proof -
  let ?s = "DeallocateLarge api p n s" and ?q = "n div GetPageSize api"
  have x: "span_owned api s p n" "span_ok api p n" "{p..<p + n} \<inter> cached_cells api (vL V) = {}" using e by (auto simp: ext_def)
  have a: "align_up n (GetPageSize api) = n" using align_up_exact [OF spec _ n] x(1) by (simp add: span_owned_def)
  have "ph_ok api (PageHeapFree api p n s) (if cache_room api n s then (vL V)(?q := p # vL V ?q) else vL V)"
    using PageHeapFree_files [OF spec gh_okD(1) [OF ok] x] by (simp add: ph_release_def)
  then have "ph_ok api ?s (if cache_room api n s then (vL V)(?q := p # vL V ?q) else vL V)"
    by (simp add: DeallocateLarge_def Let_def a ph_ok_def)
  then have b: "bin_spans ?s = (if cache_room api n s then (vL V)(?q := p # vL V ?q) else vL V)" "bin_spans s = vL V"
    using ph_inv_eq gh_okD(1) [OF ok] by blast+
  have l: "os_log ?s = os_log s @ (if cache_room api n s then [] else [if IsPoolBacked p s then Madvise p n else Munmap p n])"
    using DeallocateLarge_back [OF spec ok e n] by (simp add: span_back_def span_cached_def span_released_def split: if_splits)
  show "span_given api p n s ?s" "spans_grow s ?s" using b l by (auto simp: span_given_def spans_grow_def)
qed

lemma countdown_frame: "os_frame s s' \<Longrightarrow> g_oom_fail_countdown s' = g_oom_fail_countdown s" for s s' :: "'a ph_state_scheme"
  by (auto simp: os_frame_def)

lemma countdown_PageHeapFree: "g_oom_fail_countdown (PageHeapFree api p n s) = g_oom_fail_countdown s"
  by (simp add: PageHeapFree_def Let_def countdown_frame [OF FreePages_frame] bin_push_def MarkNonEmpty_def
      cache_bytes_add_def cache_bytes_sub_def count_stats_def)

lemma countdown_split: "g_oom_fail_countdown (snd (split_span api sz pages p s)) = g_oom_fail_countdown s"
  by (simp add: split_span_def Let_def bin_pop_def bin_push_def MarkNonEmpty_def MarkMaybeEmpty_def
      cache_bytes_add_def cache_bytes_sub_def count_stats_def)

lemma countdown_mark: "g_oom_fail_countdown (MarkMaybeEmpty p s) = g_oom_fail_countdown s"
  by (simp add: MarkMaybeEmpty_def)

lemma countdown_best_fit: "g_oom_fail_countdown (snd (best_fit api sz pages p s)) = g_oom_fail_countdown s"
proof (induction api sz pages p s rule: best_fit.induct)
  case (1 api sz pages p s)
  show ?case
    using 1 [OF _ _ refl] by (subst best_fit.simps) (auto simp: countdown_split Let_def countdown_mark)
qed

lemma countdown_PageHeapAllocate: "g_oom_fail_countdown (snd (PageHeapAllocate api n s)) = g_oom_fail_countdown s"
proof -
  have "g_oom_fail_countdown (snd (AllocatePages api n t)) = g_oom_fail_countdown t" for t :: "'a ph_state_scheme"
    by (rule countdown_frame [OF AllocatePages_frame])
  then show ?thesis
    using countdown_best_fit [of api n "n div GetPageSize api" "FirstNonEmptyAbove (n div GetPageSize api) (page_nonempty s)" s]
    by (auto simp: PageHeapAllocate_def Let_def bin_pop_def MarkMaybeEmpty_def cache_bytes_sub_def count_stats_def split: prod.splits)
qed

lemma AllocateLarge_countdown:
  assumes "AllocateLarge api n s = (p, s')" "p \<noteq> 0"
  shows "g_oom_fail_countdown s' \<le> 0"
  using assms countdown_PageHeapAllocate [of api "align_up n (GetPageSize api)" s]
  by (auto simp: AllocateLarge_def Let_def ShouldFailAllocationForTest_def count_stats_def split: prod.splits if_splits)

lemma AllocateLarge_head:
  assumes "pb_head (page_bins s (n div GetPageSize api)) = p" "p \<noteq> 0" "align_up n (GetPageSize api) = n"
    "0 < n div GetPageSize api" "n div GetPageSize api \<le> MAX_CACHED_PAGES" "g_oom_fail_countdown s \<le> 0"
  shows "fst (AllocateLarge api n s) = p"
  using PageHeapAllocate_head [OF assms(1,2,4,5)] assms(2,3,6)
  by (auto simp: AllocateLarge_def ShouldFailAllocationForTest_def split: prod.splits)

lemma cached_span_reused:
  assumes spec: "os_spec api" and ok: "gh_ok api {} s V" and e: "ext api s V p n" and n: "n + GetPageSize api \<le> 2 ^ 64"
    and room: "cache_room api n s" and up: "g_oom_fail_countdown s \<le> 0"
  shows "fst (AllocateLarge api n (DeallocateLarge api p n s)) = p"
proof (rule AllocateLarge_head)
  have x: "p \<noteq> 0" "n mod GetPageSize api = 0" "0 < n" using ext_facts [OF spec e] by simp_all
  have g: "0 < GetPageSize api" by (rule page_pos [OF spec])
  show "p \<noteq> 0" by (rule x(1))
  show a: "align_up n (GetPageSize api) = n" by (rule align_up_exact [OF spec x(2) n])
  show "0 < n div GetPageSize api" using x(2,3) g by (auto simp: div_greater_zero_iff mod_eq_0_iff_dvd dvd_imp_le)
  show "n div GetPageSize api \<le> MAX_CACHED_PAGES" using room by (simp add: cache_room_def)
  show "pb_head (page_bins (DeallocateLarge api p n s) (n div GetPageSize api)) = p"
    using DeallocateLarge_back [OF spec ok e n] room by (simp add: span_back_def span_cached_def)
  show "g_oom_fail_countdown (DeallocateLarge api p n s) \<le> 0"
    using up by (simp add: DeallocateLarge_def Let_def a countdown_PageHeapFree count_stats_def)
qed

lemma FreePages_accounts:
  assumes spec: "os_spec api" and ok: "gh_ok api {} s V" and e: "ext api s V p n"
  shows "accounts_but {p..<p + n} api s V {} {} (FreePages api p n s) V"
proof -
  have x: "span_owned api s p n" "{p..<p + n} \<inter> cached_cells api (vL V) = {}"
    and sl: "\<And>z. z \<in> slabs V \<Longrightarrow> slab_range (mem s) z \<inter> {p..<p + n} = {}" using e by (auto simp: ext_def)
  have "V\<lparr>vL := vL V\<rparr> = V" by simp
  then show ?thesis
    using release_accounts [OF ok gh_frame_os [OF FreePages_frame] FreePages_release [OF spec gh_okD(1) [OF ok] x] sl] by simp
qed

section \<open>Writing into a span or a block\<close>

text \<open>The holder of a span may write anywhere in it, the holder of a block behind its header.\<close>

lemma ext_write:
  assumes ok: "gh_ok api {} s V" and e: "ext api s V p n" and w: "\<And>a. a \<notin> {p..<p + n} \<Longrightarrow> f (mem s) a = mem s a"
  shows "accounts_but {p..<p + n} api s V {} {} (upd_mem f s) V" "ext api (upd_mem f s) V p n"
proof -
  let ?s = "upd_mem f s"
  have sl: "\<And>z. z \<in> slabs V \<Longrightarrow> slab_range (mem s) z \<inter> {p..<p + n} = {}"
    and pc: "{p..<p + n} \<inter> cached_cells api (vL V) = {}" using e by (auto simp: ext_def)
  have ms: "mem ?s = f (mem s)" by (simp add: upd_mem_def)
  have m: "mem ?s x = mem s x" if "z \<in> slabs V" "x \<in> slab_range (mem s) z" for z x
    unfolding ms by (rule w) (use sl [OF that(1)] that(2) in blast)
  have own: "span_owned api ?s q k = span_owned api s q k" for q k by (rule os_cong(3)) (simp_all add: upd_mem_def)
  have "ph_ok api (s\<lparr>mem := f (mem s)\<rparr>) (vL V)"
    by (rule ph_ok_frame [OF gh_okD(1) [OF ok]]) (use pc in \<open>auto intro!: w\<close>)
  then have ph: "ph_ok api ?s (vL V)" by (simp add: upd_mem_def)
  have g: "span_owned api ?s z (slab_memory_size (mem s) z)" "slab_range (mem s) z \<inter> cached_cells api (vL V) = {}" if "z \<in> slabs V" for z
    using gh_good [OF ok that] by (simp_all add: slab_good_def own)
  have V: "V\<lparr>vL := vL V\<rparr> = V" by simp
  have hb: "gh_ok api {} ?s V" "client V (mem ?s) = client V (mem s)" "kept (client V (mem s)) (mem s) (mem ?s)"
    "\<And>z. z \<in> slabs V \<Longrightarrow> same_header (mem s) (mem ?s) z"
    using heap_below [OF ok gh_frame_parts(8) [of s f] ph _ g(1) g(2), unfolded V] m by blast+
  have rng: "slab_range (mem ?s) z = slab_range (mem s) z" if "z \<in> slabs V" for z by (rule same_headerD(7) [OF hb(4) [OF that]])
  have "spared api {p..<p + n} s V ?s V"
    by (rule spared_inside) (use rng in \<open>auto simp: upd_mem_def intro!: w\<close>)
  then show "accounts_but {p..<p + n} api s V {} {} ?s V" using hb(1-3) by (simp add: accounts_def)
  show "ext api ?s V p n" using e rng by (auto simp: ext_def own)
qed

section \<open>Purge\<close>

lemma purge_walk_frame:
  fixes s :: "'a gh_state_scheme"
  assumes "purge_walk api p node released s = Some (r, s')"
  shows "gh_frame s s'"
proof -
  have "gh_frame s (snd (r, s'))"
  proof (rule purge_walk.raw_induct [OF _ assms, where P = "\<lambda>_ _ _ _ s y. gh_frame s (snd y)"])
    fix f api p node released and s :: "'a gh_state_scheme" and y
    assume ih: "\<And>api p node released s y. f api p node released s = Some y \<Longrightarrow> gh_frame s (snd y)"
      and r: "(if node = 0 then Some (released, s) else let next' = pn_next (mem s) node; span_size = p * GetPageSize api;
        s = FreePages api node span_size s; s = cache_bytes_sub span_size s
        in Let (count_stats (CountPageCacheEvict span_size) s) (f api p next' (add64 released span_size))) = Some y"
    let ?n = "p * GetPageSize api" let ?s = "count_stats (CountPageCacheEvict ?n) (cache_bytes_sub ?n (FreePages api node ?n s))"
    have fr: "gh_frame s ?s" using gh_frame_os [OF FreePages_frame [of s api node ?n]] by simp
    show "gh_frame s (snd y)"
    proof (cases "node = 0")
      case False
      then have "f api p (pn_next (mem s) node) (add64 released ?n) ?s = Some y" using r by (simp add: Let_def)
      from gh_frame_trans [OF fr ih [OF this]] show ?thesis .
    qed (use r in auto)
  qed
  then show ?thesis by simp
qed

lemma purge_bins_frame:
  fixes s :: "'a gh_state_scheme"
  shows "purge_bins api ps released s = Some (r, s') \<Longrightarrow> gh_frame s s'"
proof (induction ps arbitrary: released s)
  case (Cons p ps)
  let ?s = "MarkMaybeEmpty p (s\<lparr>page_bins := (page_bins s)(p := \<lparr>pb_head = 0, pb_count = 0\<rparr>)\<rparr>)"
  obtain r1 s1 where w: "purge_walk api p (pb_head (page_bins s p)) released ?s = Some (r1, s1)" "purge_bins api ps r1 s1 = Some (r, s')"
    using Cons.prems by (auto simp: Let_def split: option.splits)
  have "gh_frame s ?s" by (simp add: gh_frame_def MarkMaybeEmpty_def)
  from gh_frame_trans [OF gh_frame_trans [OF this purge_walk_frame [OF w(1)]] Cons.IH [OF w(2)]] show ?case .
qed simp

lemma PurgePageCacheLocked_accounts:
  assumes spec: "os_spec api" and ok: "gh_ok api {} s V"
  shows "\<exists>s'. PurgePageCacheLocked api s = Some (cached_total api (vL V), s')
    \<and> accounts api s V {} {} s' (V\<lparr>vL := \<lambda>_. []\<rparr>) \<and> page_cache_total_bytes s' = 0"
proof -
  obtain s' where p: "PurgePageCacheLocked api s = Some (cached_total api (vL V), s')"
    "ph_ok api s' (\<lambda>_. [])" "page_cache_total_bytes s' = 0" "ph_used api s (vL V) \<subseteq> in_use s'"
    "\<And>a. a \<notin> cached_cells api (vL V) \<Longrightarrow> mem s' a = mem s a"
    "\<And>q k. span_owned api s q k \<Longrightarrow> {q..<q + k} \<inter> cached_cells api (vL V) = {} \<Longrightarrow> span_owned api s' q k"
    by (rule PurgePageCacheLocked_all [OF spec gh_okD(1) [OF ok]]) blast
  have fr: "gh_frame s s'" using p(1) purge_bins_frame unfolding PurgePageCacheLocked_def by blast
  have e: "cached_cells api (\<lambda>_. []) = {}" "ph_used api s' (\<lambda>_. []) = in_use s'" by (simp_all add: cached_cells_def filed_def ph_used_def)
  have m: "mem s' x = mem s x" if "z \<in> slabs V" "x \<in> slab_range (mem s) z" for z x
    using gh_good [OF ok that(1)] that(2) unfolding slab_good_def by (intro p(5)) blast
  have so: "span_owned api s' z (slab_memory_size (mem s) z)" if "z \<in> slabs V" for z
    using gh_good [OF ok that] p(6) unfolding slab_good_def slab_range_def by blast
  have hb: "gh_ok api {} s' (V\<lparr>vL := \<lambda>_. []\<rparr>)" "client (V\<lparr>vL := \<lambda>_. []\<rparr>) (mem s') = client V (mem s)"
    "kept (client V (mem s)) (mem s) (mem s')" "\<And>z. z \<in> slabs V \<Longrightarrow> same_header (mem s) (mem s') z"
    using heap_below [OF ok fr p(2) _ so] m e(1) by blast+
  have sV: "slabs (V\<lparr>vL := \<lambda>_. []\<rparr>) = slabs V" by (simp add: slabs_def listed_def)
  have "ext api s' (V\<lparr>vL := \<lambda>_. []\<rparr>) q k \<and> (\<forall>a \<in> {q..<q + k}. mem s' a = mem s a)" if x: "ext api s V q k" for q k
  proof -
    have q: "{q..<q + k} \<inter> cached_cells api (vL V) = {}" "span_owned api s q k" using x by (simp_all add: ext_def)
    then have "mem s' a = mem s a" if "a \<in> {q..<q + k}" for a using that by (intro p(5)) blast
    moreover have "ext api s' (V\<lparr>vL := \<lambda>_. []\<rparr>) q k"
      using x p(6) [OF q(2,1)] same_headerD(7) [OF hb(4)] by (simp add: ext_def sV e)
    ultimately show ?thesis by blast
  qed
  then have "spared api {} s V s' (V\<lparr>vL := \<lambda>_. []\<rparr>)" by (simp add: spared_def)
  then show ?thesis using p(1,3) hb(1-3) gh_frame_fields(4) [OF fr] by (auto simp: accounts_def)
qed

lemma PurgePageCache_accounts:
  assumes spec: "os_spec api" and ok: "gh_ok api {} s V"
    and free: "\<And>a c. a < NUM_ARENAS \<Longrightarrow> c < NUM_SIZE_CLASSES \<Longrightarrow> \<not> lock_busy s a c"
  shows "\<exists>n s' V'. PurgePageCache api s = Some (n, s') \<and> accounts api s V {} {} s' V'
    \<and> vL V' = (\<lambda>_. []) \<and> page_cache_total_bytes s' = 0 \<and> (\<forall>a < NUM_ARENAS. \<forall>c < NUM_SIZE_CLASSES. vQ V' a c = [])"
proof -
  let ?xs = "List.product [0..<NUM_ARENAS] [0..<NUM_SIZE_CLASSES]"
  obtain s1 V1 where d: "drain_all api ?xs s = Some s1" "accounts api s V {} {} s1 V1"
    "vQ V1 = (\<lambda>a c. if (a, c) \<in> set ?xs then [] else vQ V a c)"
    using drain_all_accounts [OF spec ok, of ?xs] free by auto
  obtain s' where p: "PurgePageCacheLocked api s1 = Some (cached_total api (vL V1), s')"
    "accounts api s1 V1 {} {} s' (V1\<lparr>vL := \<lambda>_. []\<rparr>)" "page_cache_total_bytes s' = 0"
    using PurgePageCacheLocked_accounts [OF spec accounts_ok [OF d(2)]] by blast
  have "accounts api s V {} {} s' (V1\<lparr>vL := \<lambda>_. []\<rparr>)" using gone_trans [OF d(2) p(2)] by simp
  then show ?thesis using d(1,3) p(1,3) by (auto simp: PurgePageCache_def intro!: exI [of _ "V1\<lparr>vL := \<lambda>_. []\<rparr>"])
qed

end
