(* ===== verification/FA_HeapProps.thy ===== *)
theory FA_HeapProps
  imports FA_Spans
begin

text \<open>
  The correctness properties of the global heap (\<^verbatim>\<open>src/global_heap.cpp\<close>), over the accounting
  lemmas of the theories it imports. A state of the heap is valid for a view \<open>V\<close>
  (\<open>gh_ok api {} s V\<close>); \<open>client V (mem s)\<close> are the blocks outside the heap, \<open>ext\<close> the spans.
\<close>

section \<open>A concrete heap\<close>

definition gh_init :: gh_state where
  "gh_init = \<lparr>mem = \<lambda>_. 0, os_log = [], pool_chunks = [],
     page_bins = \<lambda>_. \<lparr>pb_head = 0, pb_count = 0\<rparr>, page_nonempty = \<lambda>_. 0,
     page_cache_total_bytes = 0, g_stats = stats_zero, g_oom_fail_countdown = 0,
     partial_slabs = \<lambda>_ _. 0, full_slabs = \<lambda>_ _. 0, pending_returns = \<lambda>_ _. 0,
     lock_busy = \<lambda>_ _. False, next_arena = 0, shutting_down = False\<rparr>"

definition view_init :: view where
  "view_init = \<lparr>vP = \<lambda>_ _. [], vF = \<lambda>_ _. [], vfl = \<lambda>_. [], vQ = \<lambda>_ _. [], vL = \<lambda>_. []\<rparr>"

lemma view_init_empty [simp]: "slabs view_init = {}" "client view_init m = {}" "vL view_init = (\<lambda>_. [])"
  by (simp_all add: view_init_def slabs_def listed_def client_def)

lemma empty_heap_ok:
  assumes "ph_ok api s (\<lambda>_. [])" "partial_slabs s = (\<lambda>_ _. 0)" "full_slabs s = (\<lambda>_ _. 0)" "pending_returns s = (\<lambda>_ _. 0)"
  shows "gh_ok api {} s view_init"
  using assms by (simp add: gh_ok_def slabs_ok_def slabs_def listed_def lists_ok_def queues_ok_def filling_ok_def view_init_def dlist_def)

lemma fresh_page_heap_ok:
  assumes "pool_chunks s = []" "page_bins s = (\<lambda>_. \<lparr>pb_head = 0, pb_count = 0\<rparr>)" "page_nonempty s = (\<lambda>_. 0)"
    "page_cache_total_bytes s = 0"
  shows "ph_ok demo_os s (\<lambda>_. [])"
  using assms by (simp add: ph_ok_def ph_core_def pool_ok_def hint_def cached_total_def
      PageCacheTotalLimit_def demo_os_def mul64_def)

lemma gh_init_ok: "gh_ok demo_os {} gh_init view_init"
  by (rule empty_heap_ok; (rule fresh_page_heap_ok)?) (simp_all add: gh_init_def)

text \<open>A heap on the sample kernel from which blocks of class 3 were taken.\<close>

lemma demo_args: "\<not> lock_busy gh_init 0 3" "(1::nat) \<le> 3" "3 < NUM_SIZE_CLASSES" "0 < NUM_ARENAS" "(0::nat) < 4"
  by (simp_all add: gh_init_def config_consts NUM_ARENAS_def)

lemma demo_new_slab:
  assumes "page_bins s = (\<lambda>_. \<lparr>pb_head = 0, pb_count = 0\<rparr>)" "page_nonempty s = (\<lambda>_. 0)" "g_oom_fail_countdown s = 0"
    and "os_log s = [] \<and> pool_chunks s = [] \<or>
      os_log s = [Mmap 65536 4194304] \<and> pool_chunks s = [\<lparr>ck_base = 65536, ck_bump = 77824, ck_limit = 4259840\<rparr>]"
  shows "fst (AllocateNewSlab demo_os 3 0 s) \<noteq> 0"
proof -
  have "slab_target_size 3 = 65536" "align_up 65536 4096 = 65536" "align_up 80 16 = 80"
    by (simp_all add: slab_target_size_def ClassIndexToSize_exact config_consts mul64_def align_up_def)
  then show ?thesis using assms
    by (auto simp: AllocateNewSlab_def GetPageSize_def ShouldFailAllocationForTest_def PageHeapAllocate_def
        demo_simps MAX_CACHED_PAGES_def FirstNonEmptyAbove_def scan_words.simps page_nonempty_size_def best_fit.simps carve_scan.simps
        Slab_Create_def ClassIndexToSize_exact count_stats_def sizeof_Slab_def ALIGNMENT_def add64_def)
qed

text \<open>A refill of an idle heap with no slab of the class succeeds when a new slab can be had.\<close>

lemma fresh_refill:
  assumes spec: "os_spec api" and ok: "gh_ok api {} s V"
    and idle: "lock_busy s = (\<lambda>_ _. False)" "pending_returns s = (\<lambda>_ _. 0)" "partial_slabs s = (\<lambda>_ _. 0)"
    and args: "1 \<le> c" "c < NUM_SIZE_CLASSES" "a < NUM_ARENAS" "0 < target" and slab: "fst (AllocateNewSlab api c a s) \<noteq> 0"
  shows "\<exists>h xs s' V'. AllocateBatch api c target a s = Some (h, length xs, s') \<and> supplied api c s V h xs s' V' \<and> xs \<noteq> []"
proof -
  have p: "set_pending a' c' 0 s = s" for a' c' using idle(2) by (simp add: set_pending_def fun_eq_iff)
  have st1: "batch_steal_one api c target a2 (0, 0, s) = Some (0, 0, s)" for a2
    using idle p by (simp add: batch_steal_one_def)
  have st: "batch_steal api c target a ks (0, 0, s) = Some (0, 0, s)" for ks
    by (induction ks) (simp_all add: st1)
  have e: "AllocateBatch api c target a s = Some (batch_extract api c target a (0, 0, s))"
    using st idle p by (simp add: AllocateBatch_def batch_feed_def)
  have "supplied api c s V 0 [] s V" by (rule supplied_none [OF accounts_refl [OF ok]])
  from batch_extract_supplied [OF spec this args(4) _ args(1-3)] slab
  show ?thesis by (fastforce simp: e)
qed

lemma demo_refill:
  obtains h xs s V where "AllocateBatch demo_os 3 4 0 gh_init = Some (h, length xs, s)" "supplied demo_os 3 gh_init view_init h xs s V"
    "xs \<noteq> []" "gh_ok demo_os {} s V" "chain (fb_next (mem s)) h xs" "set xs = client V (mem s)"
    "\<forall>x \<in> set xs. fb_class_index (mem s) x = 3" "lock_busy s = (\<lambda>_ _. False)"
proof -
  have i: "lock_busy gh_init = (\<lambda>_ _. False)" "pending_returns gh_init = (\<lambda>_ _. 0)" "partial_slabs gh_init = (\<lambda>_ _. 0)" by (simp_all add: gh_init_def)
  have "fst (AllocateNewSlab demo_os 3 0 gh_init) \<noteq> 0" by (rule demo_new_slab) (simp_all add: gh_init_def)
  from fresh_refill [OF demo_os_spec gh_init_ok i demo_args(2-5) this] obtain h xs s V
    where b: "AllocateBatch demo_os 3 4 0 gh_init = Some (h, length xs, s)" "supplied demo_os 3 gh_init view_init h xs s V" "xs \<noteq> []" by blast
  have a: "accounts demo_os gh_init view_init {} (set xs) s V" using b(2) by (simp add: supplied_def)
  show thesis
    by (rule that [OF b accounts_ok [OF a]])
       (use b accounts_client [OF a] accounts_lock [OF a] in \<open>auto simp: supplied_def gh_init_def\<close>)
qed

section \<open>Refill\<close>

text \<open>
  C26: a refill of a thread cache (\<^verbatim>\<open>GlobalHeap::AllocateBatch\<close>) whose own class lock is free always
  returns, whatever other locks are held and whatever is parked in the 16 pending queues. What it
  returns is a null-terminated list of at most \<open>target\<close> distinct blocks of the requested class,
  with the count it reports; none of them was held by a client before, they are exactly what the
  clients hold more than before, every block already outside keeps its header and contents, every
  span held outside is spared, and the heap invariant holds again. The list is empty exactly when
  the heap is dry (\<open>refill_dry\<close>, read off the state of the call): every pending queue of the class
  whose lock is free is empty, the arena has no partial slab, and a new slab is refused, because the
  test seam says so or the page heap has no span for it; then asking for it is all the call did.
\<close>

theorem refill_supplies_new_blocks:
  assumes "os_spec api" "gh_ok api {} s V" "\<not> lock_busy s a c"
    "1 \<le> c" "c < NUM_SIZE_CLASSES" "a < NUM_ARENAS" "0 < target"
  shows "\<exists>h xs s' V'. AllocateBatch api c target a s = Some (h, length xs, s') \<and> length xs \<le> target
    \<and> chain (fb_next (mem s')) h xs \<and> distinct xs \<and> set xs \<inter> client V (mem s) = {}
    \<and> (\<forall>x \<in> set xs. fb_class_index (mem s') x = c \<and> IsPlausibleHeapPtr x)
    \<and> accounts api s V {} (set xs) s' V'
    \<and> (xs = [] \<longleftrightarrow> (\<forall>a2 < NUM_ARENAS. \<not> lock_busy s a2 c \<longrightarrow> pending_returns s a2 c = 0)
        \<and> partial_slabs s a c = 0
        \<and> (0 < g_oom_fail_countdown s
          \<or> fst (PageHeapAllocate api (align_up (slab_target_size c) (GetPageSize api)) s) = 0))
    \<and> (xs = [] \<longrightarrow> s' = snd (AllocateNewSlab api c a s))"
proof -
  obtain h xs s' V' where b: "AllocateBatch api c target a s = Some (h, length xs, s')" "supplied api c s V h xs s' V'" "length xs \<le> target"
    using AllocateBatch_supplied [OF assms] by blast
  have a: "accounts api s V {} (set xs) s' V'" "chain (fb_next (mem s')) h xs" "set xs \<inter> client V (mem s) = {}"
    "\<And>x. x \<in> set xs \<Longrightarrow> fb_class_index (mem s') x = c" using b(2) by (auto simp: supplied_def)
  have p: "IsPlausibleHeapPtr x" if "x \<in> set xs" for x
    using client_facts(1) [OF assms(1) accounts_ok [OF a(1)]] supplied_sub [OF b(2)] that by blast
  have e: "refill_dry api c a s \<and> s' = snd (AllocateNewSlab api c a s)" if "xs = []"
    using AllocateBatch_null [OF assms(1,2,6,7,4,5)] b(1) a(2) that by simp
  have d: "xs = []" if "refill_dry api c a s" using AllocateBatch_dry [OF that assms(3,6)] b(1) by simp
  have dry: "xs = [] \<longleftrightarrow> (\<forall>a2 < NUM_ARENAS. \<not> lock_busy s a2 c \<longrightarrow> pending_returns s a2 c = 0) \<and> partial_slabs s a c = 0
      \<and> (0 < g_oom_fail_countdown s \<or> fst (PageHeapAllocate api (align_up (slab_target_size c) (GetPageSize api)) s) = 0)"
    unfolding AllocateNewSlab_refused [OF assms(1,4,5), of a s, symmetric] refill_dry_def [symmetric] using e d by blast
  show ?thesis
    by (intro exI conjI) (use a b(1,3) chain_distinct [OF a(2)] p e dry in auto)
qed

theorem refill_supplies_new_blocks_witness:
  "\<exists>h xs s' V'. AllocateBatch demo_os 3 4 0 gh_init = Some (h, length xs, s') \<and> xs \<noteq> [] \<and> length xs \<le> 4
    \<and> chain (fb_next (mem s')) h xs \<and> client V' (mem s') = set xs"
proof -
  obtain h xs s' V' where r: "AllocateBatch demo_os 3 4 0 gh_init = Some (h, length xs, s')" "length xs \<le> 4"
    "chain (fb_next (mem s')) h xs" "accounts demo_os gh_init view_init {} (set xs) s' V'"
    using refill_supplies_new_blocks [OF demo_os_spec gh_init_ok demo_args] by blast
  have "xs \<noteq> []" by (rule demo_refill) (use r(1) in auto)
  then show ?thesis using r accounts_client [OF r(4)] by fastforce
qed

text \<open>
  A single-block allocation of the heap (\<^verbatim>\<open>GlobalHeap::AllocateBlock\<close>) with its class lock free
  returns null and changes nothing a client sees, or returns one block, of the requested arena and
  class, that no client held before.
\<close>

lemma global_allocate_block:
  assumes "os_spec api" "gh_ok api {} s V" "\<not> lock_busy s a c"
    "1 \<le> c" "c < NUM_SIZE_CLASSES" "a < NUM_ARENAS"
  shows "\<exists>p s' V'. AllocateBlock_global api c a s = Some (p, s')
    \<and> (if p = 0 then accounts api s V {} {} s' V'
       else accounts api s V {} {p} s' V' \<and> p \<notin> client V (mem s)
         \<and> slab_arena_index (mem s') (fb_slab (mem s') p) = a \<and> fb_class_index (mem s') p = c)"
proof -
  obtain p s' V' where r: "AllocateBlock_global api c a s = Some (p, s')"
    "if p = 0 then accounts api s V {} {} s' V'
       else accounts api s V {} {p} s' V' \<and> p \<notin> client V (mem s) \<and> routed (mem s') a c p"
    using AllocateBlock_global_accounts [OF assms] by blast
  have "fb_class_index (mem s') p = slab_class_idx (mem s') (fb_slab (mem s') p)" if "p \<noteq> 0"
  proof -
    have a: "accounts api s V {} {p} s' V'" using r(2) that by simp
    show ?thesis using client_facts(6) [OF assms(1) accounts_ok [OF a]] accounts_client [OF a] by blast
  qed
  then show ?thesis using r by (auto simp: routed_def)
qed

section \<open>Giving blocks back\<close>

text \<open>
  A thread cache hands a bin of one class back (\<^verbatim>\<open>GlobalHeap::DeallocateBatchClass\<close>): for every
  null-terminated list of blocks clients hold, of any mix of arenas, and whichever class locks
  other threads hold (contended arenas get their share on the pending queue), the call returns, the
  heap takes over exactly these blocks, and every other block and span is left as it was.
\<close>

lemma batch_class_returns_blocks:
  assumes "os_spec api" "gh_ok api {} s V" "chain (fb_next (mem s)) h bs" "set bs \<subseteq> client V (mem s)"
    "\<forall>b \<in> set bs. fb_class_index (mem s) b = c"
  shows "\<exists>s' V'. DeallocateBatchClass api c h s = Some s' \<and> accounts api s V (set bs) {} s' V'"
  using DeallocateBatchClass_accounts [OF assms(1,2), of c h bs] assms(3-5) by (simp add: held_list_def)

text \<open>
  A dying thread parks a bin lock-free (\<^verbatim>\<open>GlobalHeap::DeferBinToPending\<close>): the call returns
  whatever locks are held, the blocks move from the clients to the pending queues of their arenas,
  and nothing else changes hands.
\<close>

lemma deferred_bin_is_parked:
  assumes "os_spec api" "gh_ok api {} s V" "chain (fb_next (mem s)) h bs" "set bs \<subseteq> client V (mem s)"
    "\<forall>b \<in> set bs. fb_class_index (mem s) b = c"
  shows "\<exists>s' V'. DeferBinToPending c h s = Some s' \<and> accounts api s V (set bs) {} s' V'"
  using DeferBinToPending_accounts [OF assms(1,2), of c h bs] assms(3-5) by (simp add: held_list_def)

text \<open>
  C27: the general return path (\<^verbatim>\<open>GlobalHeap::DeallocateBatch\<close>) takes a list with any mix of arenas
  and size classes, routes every block by its own slab's metadata, returns, and takes over exactly
  the blocks of the list.
\<close>

theorem mixed_batch_returns_blocks:
  assumes "os_spec api" "gh_ok api {} s V" "chain (fb_next (mem s)) h bs" "set bs \<subseteq> client V (mem s)"
  shows "\<exists>s' V'. DeallocateBatch api h s = Some s' \<and> accounts api s V (set bs) {} s' V'"
  by (rule DeallocateBatch_accounts [OF assms])

theorem mixed_batch_returns_blocks_witness:
  "\<exists>h n s s' V'. AllocateBatch demo_os 3 4 0 gh_init = Some (h, n, s) \<and> DeallocateBatch demo_os h s = Some s'
     \<and> gh_ok demo_os {} s' V' \<and> client V' (mem s') = {}"
proof -
  obtain h xs s V where d: "AllocateBatch demo_os 3 4 0 gh_init = Some (h, length xs, s)" "gh_ok demo_os {} s V"
    "chain (fb_next (mem s)) h xs" "set xs = client V (mem s)" by (rule demo_refill)
  obtain s' V' where r: "DeallocateBatch demo_os h s = Some s'" "accounts demo_os s V (set xs) {} s' V'"
    using mixed_batch_returns_blocks [OF demo_os_spec d(2,3)] d(4) by blast
  then show ?thesis using d accounts_ok [OF r(2)] accounts_client [OF r(2)] by fastforce
qed

section \<open>Spans and purge\<close>

text \<open>
  C29: a large span (\<^verbatim>\<open>GlobalHeap::AllocateLarge\<close>) is null or a page-aligned range that meets no block
  a client holds and no span held outside, and from then on is held. Giving it back
  (\<^verbatim>\<open>DeallocateLarge\<close>) restores a valid heap and spares every other block and span; the span itself is
  linked in front of the page-cache bin of its size, with the bin's count and the cached bytes
  raised, when the cache has room for it, and the next \<^verbatim>\<open>AllocateLarge\<close> of that size returns it;
  otherwise it is handed to the operating system by one call over the whole span, \<^verbatim>\<open>madvise\<close> for a
  span of the chunk pool and \<^verbatim>\<open>munmap\<close> for any other.
\<close>

theorem large_span_roundtrip:
  assumes "os_spec api" "gh_ok api {} s V" "0 < n" "n mod GetPageSize api = 0" "n + GetPageSize api \<le> 2 ^ 64"
    "AllocateLarge api n s = (p, s1)"
  shows "if p = 0 then accounts api s V {} {} s1 V
    else let s2 = DeallocateLarge api p n s1
      in (\<exists>V1 V2. accounts api s V {} {} s1 V1 \<and> ext api s1 V1 p n
        \<and> (\<forall>b \<in> client V (mem s). bcells (mem s) b \<inter> {p..<p + n} = {})
        \<and> (\<forall>q k. ext api s V q k \<longrightarrow> {q..<q + k} \<inter> {p..<p + n} = {})
        \<and> accounts api s V {} {} s2 V2)
      \<and> (if cache_room api n s1 then span_cached api p n s1 s2 \<and> fst (AllocateLarge api n s2) = p
         else span_released p n s1 s2)"
proof (cases "p = 0")
  case True
  then show ?thesis using AllocateLarge_span [OF assms] by simp
next
  case False
  define s2 where "s2 = DeallocateLarge api p n s1"
  obtain V1 where a: "new_span api s V p n s1 V1" using AllocateLarge_span [OF assms] False by auto
  then have x: "accounts api s V {} {} s1 V1" "ext api s1 V1 p n" "\<And>q k. ext api s V q k \<Longrightarrow> {q..<q + k} \<inter> {p..<p + n} = {}"
    by (simp_all add: new_span_def)
  note ok = accounts_ok [OF x(1)]
  obtain V2 where "accounts_but {p..<p + n} api s1 V1 {} {} s2 V2"
    using DeallocateLarge_accounts [OF assms(1) ok x(2) assms(5)] unfolding s2_def by blast
  from gone_trans [OF accounts_mono [OF x(1)] this]
  have "accounts_but {p..<p + n} api s V {} {} s2 V2" by simp
  from accounts_drop [OF this x(3)] have d: "accounts api s V {} {} s2 V2" by simp
  have "g_oom_fail_countdown s1 \<le> 0" using AllocateLarge_countdown [OF assms(6) False] .
  then have "cache_room api n s1 \<longrightarrow> fst (AllocateLarge api n s2) = p"
    using cached_span_reused [OF assms(1) ok x(2) assms(5)] unfolding s2_def by blast
  then show ?thesis using False a d DeallocateLarge_back [OF assms(1) ok x(2) assms(5), folded s2_def]
    unfolding s2_def [symmetric] Let_def by (auto simp: new_span_def span_back_def)
qed

theorem large_span_roundtrip_witness:
  "let (p, s1) = AllocateLarge demo_os 8192 gh_init; s2 = DeallocateLarge demo_os p 8192 s1
   in p = 65536 \<and> pb_head (page_bins s2 2) = 65536 \<and> fst (AllocateLarge demo_os 8192 s2) = 65536"
proof -
  obtain p s1 where r: "AllocateLarge demo_os 8192 gh_init = (p, s1)" by fastforce
  have p: "p = 65536" "page_bins s1 2 = \<lparr>pb_head = 0, pb_count = 0\<rparr>" "page_cache_total_bytes s1 = 0"
    using r by (auto simp: AllocateLarge_def ShouldFailAllocationForTest_def gh_init_def align_up_def count_stats_def syscall_def
        PageHeapAllocate_def demo_simps MAX_CACHED_PAGES_def FirstNonEmptyAbove_def scan_words.simps page_nonempty_size_def best_fit.simps)
  have g: "GetPageSize demo_os = 4096" by (simp add: GetPageSize_def demo_os_def)
  have "PageCacheTotalLimit demo_os = 67108864" by (simp add: PageCacheTotalLimit_def demo_os_def mul64_def)
  then have "cache_room demo_os 8192 s1" using p
    by (simp add: cache_room_def g MAX_CACHED_PAGES_def BinRetentionCount_def PAGE_CACHE_PER_BIN_BYTES_def mul64_def)
  then have "span_cached demo_os p 8192 s1 (DeallocateLarge demo_os p 8192 s1)
      \<and> fst (AllocateLarge demo_os 8192 (DeallocateLarge demo_os p 8192 s1)) = p"
    using large_span_roundtrip [OF demo_os_spec gh_init_ok _ _ _ r] p(1) by (simp add: g Let_def)
  then show ?thesis using r p(1) by (simp add: span_cached_def g)
qed

text \<open>
  C30: \<^verbatim>\<open>GlobalHeap::PurgePageCache\<close> with the class locks free returns; afterwards every pending
  queue is drained, no span is left in the page cache, and no block or span a client holds was
  touched.
\<close>

theorem purge_empties_queues_and_cache:
  assumes "os_spec api" "gh_ok api {} s V" "\<forall>a < NUM_ARENAS. \<forall>c < NUM_SIZE_CLASSES. \<not> lock_busy s a c"
  shows "\<exists>n s' V'. PurgePageCache api s = Some (n, s') \<and> accounts api s V {} {} s' V'
    \<and> page_cache_total_bytes s' = 0 \<and> (\<forall>p. bin_index p \<longrightarrow> pb_head (page_bins s' p) = 0)
    \<and> (\<forall>a < NUM_ARENAS. \<forall>c < NUM_SIZE_CLASSES. pending_returns s' a c = 0)"
proof -
  obtain n s' V' where p: "PurgePageCache api s = Some (n, s')" "accounts api s V {} {} s' V'" "vL V' = (\<lambda>_. [])"
    "page_cache_total_bytes s' = 0" "\<forall>a < NUM_ARENAS. \<forall>c < NUM_SIZE_CLASSES. vQ V' a c = []"
    using PurgePageCache_accounts [OF assms(1,2)] assms(3) by blast
  have ok: "gh_ok api {} s' V'" by (rule accounts_ok [OF p(2)])
  have "pb_head (page_bins s' k) = 0" if "bin_index k" for k
    using gh_okD(1) [OF ok] that by (simp add: ph_ok_def ph_core_def p(3))
  moreover have "pending_returns s' a c = 0" if "a < NUM_ARENAS" "c < NUM_SIZE_CLASSES" for a c
  proof -
    have "chain (fb_next (mem s')) (pending_returns s' a c) (vQ V' a c)" using gh_okD(4) [OF ok] by (simp add: queues_ok_def)
    then show ?thesis using p(5) that by simp
  qed
  ultimately show ?thesis using p(1,2,4) by blast
qed

theorem purge_empties_queues_and_cache_witness:
  "\<exists>h n s k s' V'. AllocateBatch demo_os 3 4 0 gh_init = Some (h, n, s) \<and> PurgePageCache demo_os s = Some (k, s')
     \<and> gh_ok demo_os {} s' V' \<and> page_cache_total_bytes s' = 0"
proof -
  obtain h n s V where d: "AllocateBatch demo_os 3 4 0 gh_init = Some (h, n, s)" "gh_ok demo_os {} s V"
    "\<forall>a < NUM_ARENAS. \<forall>c < NUM_SIZE_CLASSES. \<not> lock_busy s a c" by (rule demo_refill) fastforce
  from purge_empties_queues_and_cache [OF demo_os_spec d(2,3)] obtain k s' V'
    where "PurgePageCache demo_os s = Some (k, s')" "accounts demo_os s V {} {} s' V'" "page_cache_total_bytes s' = 0" by blast
  then show ?thesis using d(1) accounts_ok by blast
qed

end
