(* ===== verification/FA_TLSCache.thy ===== *)
theory FA_TLSCache
  imports FA_HeapProps
begin

text \<open>
  The thread cache of \<^verbatim>\<open>src/tls_cache.h\<close> and \<^verbatim>\<open>src/tls_cache.cpp\<close> (POSIX, release build).
  A \<^verbatim>\<open>TLSCache\<close> object is a record found under its address in \<open>caches\<close>; the pages it
  occupies come from \<^verbatim>\<open>OSMemory::AllocatePages\<close> and are recycled through \<open>cache_pool\<close> (the
  slots below \<^verbatim>\<open>count\<close>). \<open>fast_path_cache\<close> and \<open>tls_specific\<close> are indexed by the thread.
  Each method is a function of \<^verbatim>\<open>this\<close> (the address \<open>k\<close>) and the state; \<open>None\<close> is a call that
  does not return: it spins on a lock another thread keeps, walks a cyclic list, or aborts.
  \<open>pthread_key_create\<close> and \<open>pthread_setspecific\<close> are the parameters of \<open>rt_api\<close>.
\<close>

section \<open>State\<close>

record cache_bin =
  bin_head :: addr
  bin_count :: nat
  bin_next_refill :: nat

record local_stats =
  ls_small_allocs :: nat
  ls_small_alloc_bytes :: nat
  ls_small_frees :: nat
  ls_small_free_bytes :: nat
  ls_large_allocs :: nat
  ls_large_alloc_bytes :: nat
  ls_large_frees :: nat
  ls_large_free_bytes :: nat
  ls_reallocs :: nat
  ls_ops :: nat

record tls_cache =
  bins :: "nat \<Rightarrow> cache_bin"
  arena_index :: nat
  large_free_bins :: "nat \<Rightarrow> addr"
  large_counts :: "nat \<Rightarrow> nat"
  local_stats :: local_stats

record rt_api =
  rt_os :: os_api
  rt_key_create :: int
  rt_setspecific :: "nat \<Rightarrow> addr \<Rightarrow> int"

record tls_state = gh_state +
  caches :: "addr \<Rightarrow> tls_cache"
  cache_pool :: "addr list"
  pool_lock_busy :: bool
  fast_path_cache :: "nat \<Rightarrow> addr"
  tls_specific :: "nat \<Rightarrow> addr"
  key_init :: bool
  double_push_guard_hits :: nat
  bin_heal_events :: nat

definition bin_zero :: cache_bin where
  "bin_zero = \<lparr>bin_head = 0, bin_count = 0, bin_next_refill = 0\<rparr>"

definition local_stats_zero :: local_stats where
  "local_stats_zero = \<lparr>ls_small_allocs = 0, ls_small_alloc_bytes = 0, ls_small_frees = 0,
     ls_small_free_bytes = 0, ls_large_allocs = 0, ls_large_alloc_bytes = 0, ls_large_frees = 0,
     ls_large_free_bytes = 0, ls_reallocs = 0, ls_ops = 0\<rparr>"

definition kCachePoolCap :: nat where "kCachePoolCap = 32"
definition kStatsFlushOps :: nat where "kStatsFlushOps = 256"
definition kDeferMaxBin :: nat where "kDeferMaxBin = 64"
definition sizeof_TLSCache :: nat where "sizeof_TLSCache = 9304"

definition set_cache :: "addr \<Rightarrow> tls_cache \<Rightarrow> 'a tls_state_scheme \<Rightarrow> 'a tls_state_scheme" where
  "set_cache k x s = s\<lparr>caches := (caches s)(k := x)\<rparr>"

definition get_bin :: "addr \<Rightarrow> nat \<Rightarrow> 'a tls_state_scheme \<Rightarrow> cache_bin" where
  "get_bin k c s = bins (caches s k) c"

definition set_bin :: "addr \<Rightarrow> nat \<Rightarrow> cache_bin \<Rightarrow> 'a tls_state_scheme \<Rightarrow> 'a tls_state_scheme" where
  "set_bin k c b s = set_cache k ((caches s k)\<lparr>bins := (bins (caches s k))(c := b)\<rparr>) s"

definition set_large :: "addr \<Rightarrow> nat \<Rightarrow> addr \<Rightarrow> 'a tls_state_scheme \<Rightarrow> 'a tls_state_scheme" where
  "set_large k cls e s =
     set_cache k ((caches s k)\<lparr>large_free_bins := (large_free_bins (caches s k))(cls := e)\<rparr>) s"

definition set_large_count :: "addr \<Rightarrow> nat \<Rightarrow> nat \<Rightarrow> 'a tls_state_scheme \<Rightarrow> 'a tls_state_scheme" where
  "set_large_count k cls n s =
     set_cache k ((caches s k)\<lparr>large_counts := (large_counts (caches s k))(cls := n)\<rparr>) s"

text \<open>\<^verbatim>\<open>LargeFreeEntry\<close> overlays \<^verbatim>\<open>LargeAllocHeader\<close>: both have the link or null at 0, the size at 8.\<close>

definition le_next :: "mem \<Rightarrow> addr \<Rightarrow> addr" where "le_next m e = m e"
definition set_le_next :: "addr \<Rightarrow> addr \<Rightarrow> mem \<Rightarrow> mem" where "set_le_next e v m = m(e := v)"
definition lh_alloc_size :: "mem \<Rightarrow> addr \<Rightarrow> nat" where "lh_alloc_size m e = m (e + 8)"
definition set_lh_alloc_size :: "addr \<Rightarrow> nat \<Rightarrow> mem \<Rightarrow> mem" where "set_lh_alloc_size e v m = m(e + 8 := v)"

interpretation le: link_field le_next set_le_next
  by unfold_locales (simp add: le_next_def set_le_next_def)

section \<open>Statistics of the thread\<close>

definition FlushStats :: "addr \<Rightarrow> 'a tls_state_scheme \<Rightarrow> 'a tls_state_scheme" where
  "FlushStats k s =
     (let st = local_stats (caches s k)
      in if ls_ops st = 0 then s
         else let s = count_stats (CountSmallAlloc (ls_small_allocs st) (ls_small_alloc_bytes st)) s;
                  s = count_stats (CountSmallFree (ls_small_frees st) (ls_small_free_bytes st)) s;
                  s = count_stats (CountLargeAlloc (ls_large_allocs st) (ls_large_alloc_bytes st)) s;
                  s = count_stats (CountLargeFree (ls_large_frees st) (ls_large_free_bytes st)) s;
                  s = count_stats (CountRealloc (ls_reallocs st)) s
              in set_cache k ((caches s k)\<lparr>local_stats := local_stats_zero\<rparr>) s)"

text \<open>The five counting methods share their tail: \<^verbatim>\<open>if (++stats_.ops >= kStatsFlushOps) FlushStats()\<close>.\<close>

definition count_op :: "addr \<Rightarrow> (local_stats \<Rightarrow> local_stats) \<Rightarrow> 'a tls_state_scheme \<Rightarrow> 'a tls_state_scheme" where
  "count_op k f s =
     (let st = f (local_stats (caches s k));
          st = st\<lparr>ls_ops := add64 (ls_ops st) 1\<rparr>;
          s = set_cache k ((caches s k)\<lparr>local_stats := st\<rparr>) s
      in if ls_ops st \<ge> kStatsFlushOps then FlushStats k s else s)"

definition TLS_CountSmallAlloc :: "addr \<Rightarrow> nat \<Rightarrow> 'a tls_state_scheme \<Rightarrow> 'a tls_state_scheme" where
  "TLS_CountSmallAlloc k bytes = count_op k (\<lambda>st. st\<lparr>ls_small_allocs := add64 (ls_small_allocs st) 1,
     ls_small_alloc_bytes := add64 (ls_small_alloc_bytes st) bytes\<rparr>)"

definition TLS_CountSmallFree :: "addr \<Rightarrow> nat \<Rightarrow> 'a tls_state_scheme \<Rightarrow> 'a tls_state_scheme" where
  "TLS_CountSmallFree k bytes = count_op k (\<lambda>st. st\<lparr>ls_small_frees := add64 (ls_small_frees st) 1,
     ls_small_free_bytes := add64 (ls_small_free_bytes st) bytes\<rparr>)"

definition TLS_CountLargeAlloc :: "addr \<Rightarrow> nat \<Rightarrow> 'a tls_state_scheme \<Rightarrow> 'a tls_state_scheme" where
  "TLS_CountLargeAlloc k bytes = count_op k (\<lambda>st. st\<lparr>ls_large_allocs := add64 (ls_large_allocs st) 1,
     ls_large_alloc_bytes := add64 (ls_large_alloc_bytes st) bytes\<rparr>)"

definition TLS_CountLargeFree :: "addr \<Rightarrow> nat \<Rightarrow> 'a tls_state_scheme \<Rightarrow> 'a tls_state_scheme" where
  "TLS_CountLargeFree k bytes = count_op k (\<lambda>st. st\<lparr>ls_large_frees := add64 (ls_large_frees st) 1,
     ls_large_free_bytes := add64 (ls_large_free_bytes st) bytes\<rparr>)"

definition TLS_CountRealloc :: "addr \<Rightarrow> 'a tls_state_scheme \<Rightarrow> 'a tls_state_scheme" where
  "TLS_CountRealloc k = count_op k (\<lambda>st. st\<lparr>ls_reallocs := add64 (ls_reallocs st) 1\<rparr>)"

section \<open>Small blocks\<close>

text \<open>The sizing of a refill: the batch to ask for and the next value of the ramp.\<close>

definition refill_plan :: "nat \<Rightarrow> nat \<Rightarrow> nat \<times> nat" where
  "refill_plan class_index next_refill =
     (let max_cache = CACHE_LIMITS ! class_index;
          target_count = next_refill;
          target_count = (if target_count = 0 then 16 else target_count);
          hard_cap = max_cache div 2;
          hard_cap = (if hard_cap = 0 then 1 else hard_cap);
          target_count = (if target_count > hard_cap then hard_cap else target_count)
      in (target_count, (if target_count * 2 \<le> hard_cap then target_count * 2 else hard_cap) mod 2 ^ 32))"

definition TLS_AllocateBlockSlow ::
  "os_api \<Rightarrow> addr \<Rightarrow> nat \<Rightarrow> 'a tls_state_scheme \<Rightarrow> (addr \<times> 'a tls_state_scheme) option" where
  "TLS_AllocateBlockSlow api k c s =
     (let s = count_stats CountTlsMisses s;
          (target_count, ramp) = refill_plan c (bin_next_refill (get_bin k c s));
          s = set_bin k c ((get_bin k c s)\<lparr>bin_next_refill := ramp\<rparr>) s
      in do { (batch_head, actual_count, s) \<leftarrow> AllocateBatch api c target_count (arena_index (caches s k)) s;
              if batch_head = 0 then Some (0, s)
              else if \<not> IsPlausibleHeapPtr batch_head then Some (0, s)
              else let block = batch_head;
                       rest = fb_next (mem s) block;
                       (rest, actual_count) =
                         (if rest \<noteq> 0 \<and> \<not> IsPlausibleHeapPtr rest
                          then (0, if actual_count > 1 then 1 else actual_count) else (rest, actual_count));
                       s = set_bin k c ((get_bin k c s)\<lparr>bin_head := rest, bin_count := sub64 actual_count 1 mod 2 ^ 32\<rparr>) s
                   in Some (block, s) })"

definition TLS_AllocateBlock ::
  "os_api \<Rightarrow> addr \<Rightarrow> nat \<Rightarrow> 'a tls_state_scheme \<Rightarrow> (addr \<times> 'a tls_state_scheme) option" where
  "TLS_AllocateBlock api k c s =
     (let bin = get_bin k c s;
          block = bin_head bin
      in if IsPlausibleHeapPtr block then
           Some (block, set_bin k c (bin\<lparr>bin_head := fb_next (mem s) block, bin_count := sub32 (bin_count bin) 1\<rparr>) s)
         else let s = (if block \<noteq> 0 then set_bin k c bin_zero s else s)
              in TLS_AllocateBlockSlow api k c s)"

function dealloc_walk :: "mem \<Rightarrow> nat \<Rightarrow> addr \<Rightarrow> nat \<Rightarrow> addr" where
  "dealloc_walk m batch_size cur walked =
     (if walked < batch_size \<and> cur \<noteq> 0 then
        let nxt = fb_next m cur;
            nxt = (if nxt \<noteq> 0 \<and> \<not> IsPlausibleHeapPtr nxt then 0 else nxt)
        in dealloc_walk m batch_size nxt (walked + 1)
      else cur)"
  by auto
termination by (relation "measure (\<lambda>(m, batch_size, cur, walked). batch_size - walked)") auto

declare dealloc_walk.simps [simp del]

definition TLS_DeallocateBlockSlow ::
  "os_api \<Rightarrow> addr \<Rightarrow> nat \<Rightarrow> 'a tls_state_scheme \<Rightarrow> 'a tls_state_scheme option" where
  "TLS_DeallocateBlockSlow api k c s =
     (let max_cache = CACHE_LIMITS ! c;
          batch_size = max_cache div 2;
          batch_size = (if batch_size = 0 then 1 else batch_size);
          bin = get_bin k c s;
          head = bin_head bin;
          curr = dealloc_walk (mem s) batch_size head 1
      in if curr = 0 then
           let s = s\<lparr>bin_heal_events := add64 (bin_heal_events s) 1\<rparr>;
               s = set_bin k c bin_zero s
           in DeallocateBatchClass api c head s
         else
           let s = set_bin k c (bin\<lparr>bin_head := fb_next (mem s) curr\<rparr>) s;
               s = upd_mem (set_fb_next curr 0) s;
               bin = get_bin k c s;
               s = set_bin k c (bin\<lparr>bin_count := sub32 (bin_count bin) (batch_size mod 2 ^ 32)\<rparr>) s
           in DeallocateBatchClass api c head s)"

definition TLS_DeallocateBlock ::
  "os_api \<Rightarrow> addr \<Rightarrow> nat \<Rightarrow> addr \<Rightarrow> 'a tls_state_scheme \<Rightarrow> 'a tls_state_scheme option" where
  "TLS_DeallocateBlock api k c block s =
     (if \<not> IsPlausibleHeapPtr block then Some s
      else let bin = get_bin k c s
           in if bin_head bin = block then
                Some (s\<lparr>double_push_guard_hits := add64 (double_push_guard_hits s) 1\<rparr>)
              else let s = upd_mem (set_fb_next block (bin_head bin)) s;
                       bin = bin\<lparr>bin_head := block\<rparr>;
                       bin = bin\<lparr>bin_count := add32 (bin_count bin) 1\<rparr>;
                       s = set_bin k c bin s
                   in if bin_count bin \<ge> CACHE_LIMITS ! c then TLS_DeallocateBlockSlow api k c s
                      else Some s)"

section \<open>Large spans\<close>

definition GetMaxLargeCacheSize :: "nat \<Rightarrow> nat" where
  "GetMaxLargeCacheSize sz =
     (let count = (2 * 1024 * 1024) div (if sz \<noteq> 0 then sz else 1)
      in if count < 4 then 4 else if count > 64 then 64 else count)"

text \<open>
  The walk of \<^verbatim>\<open>AllocateLargeCached\<close> with its pointer to the link, \<open>prev = 0\<close> for the bin head:
  the entry taken, or 0 at the end of the list.
\<close>

definition get_pp :: "addr \<Rightarrow> nat \<Rightarrow> addr \<Rightarrow> 'a tls_state_scheme \<Rightarrow> addr" where
  "get_pp k cls prev s = (if prev = 0 then large_free_bins (caches s k) cls else le_next (mem s) prev)"

definition set_pp :: "addr \<Rightarrow> nat \<Rightarrow> addr \<Rightarrow> addr \<Rightarrow> 'a tls_state_scheme \<Rightarrow> 'a tls_state_scheme" where
  "set_pp k cls prev v s = (if prev = 0 then set_large k cls v s else upd_mem (set_le_next prev v) s)"

partial_function (option) large_walk ::
  "addr \<Rightarrow> nat \<Rightarrow> nat \<Rightarrow> addr \<Rightarrow> 'a tls_state_scheme \<Rightarrow> (addr \<times> 'a tls_state_scheme) option" where
  "large_walk k sz cls prev s =
     (let entry = get_pp k cls prev s
      in if entry = 0 then Some (0, s)
         else if \<not> IsPlausibleHeapPtr entry then large_walk k sz cls prev (set_pp k cls prev 0 s)
         else if lh_alloc_size (mem s) entry \<ge> sz then
           let s = set_pp k cls prev (le_next (mem s) entry) s;
               s = set_large_count k cls (sub64 (large_counts (caches s k) cls) 1) s
           in Some (entry, s)
         else large_walk k sz cls entry s)"

definition AllocateLargeCached ::
  "os_api \<Rightarrow> addr \<Rightarrow> nat \<Rightarrow> 'a tls_state_scheme \<Rightarrow> (addr \<times> 'a tls_state_scheme) option" where
  "AllocateLargeCached api k sz s =
     (let cls = LargeSizeToClass sz
      in do { (entry, s) \<leftarrow> large_walk k sz cls 0 s;
              if entry \<noteq> 0 then
                let sz' = lh_alloc_size (mem s) entry;
                    s = upd_mem (set_fb_slab entry 0) s;
                    s = upd_mem (set_lh_alloc_size entry sz') s
                in Some (entry + sizeof_LargeAllocHeader, s)
              else let (p, s) = AllocateLarge api sz s
                   in if p \<noteq> 0 then
                        let s = upd_mem (set_lh_alloc_size p sz) s;
                            s = upd_mem (set_fb_slab p 0) s
                        in Some (p + sizeof_LargeAllocHeader, s)
                      else Some (0, s) })"

definition DeallocateLargeCached :: "os_api \<Rightarrow> addr \<Rightarrow> addr \<Rightarrow> nat \<Rightarrow> 'a tls_state_scheme \<Rightarrow> 'a tls_state_scheme" where
  "DeallocateLargeCached api k p alloc_size s =
     (let cls = LargeSizeToClass alloc_size
      in if large_counts (caches s k) cls < GetMaxLargeCacheSize alloc_size then
           let s = upd_mem (set_lh_alloc_size p alloc_size) s;
               s = upd_mem (set_le_next p (large_free_bins (caches s k) cls)) s;
               s = set_large k cls p s
           in set_large_count k cls (add64 (large_counts (caches s k) cls) 1) s
         else DeallocateLarge api p alloc_size s)"

section \<open>Flushing a cache\<close>

fun flush_bins :: "os_api \<Rightarrow> addr \<Rightarrow> nat list \<Rightarrow> 'a tls_state_scheme \<Rightarrow> 'a tls_state_scheme option" where
  "flush_bins api k [] s = Some s"
| "flush_bins api k (i # is) s =
     do { s \<leftarrow> (if bin_head (get_bin k i s) \<noteq> 0 then
                   if bin_count (get_bin k i s) \<le> kDeferMaxBin then DeferBinToPending i (bin_head (get_bin k i s)) s
                   else DeallocateBatchClass api i (bin_head (get_bin k i s)) s
                 else Some s);
          flush_bins api k is (set_bin k i bin_zero s) }"

partial_function (option) flush_large_walk ::
  "os_api \<Rightarrow> addr \<Rightarrow> 'a tls_state_scheme \<Rightarrow> 'a tls_state_scheme option" where
  "flush_large_walk api entry s =
     (if entry = 0 then Some s
      else let next' = le_next (mem s) entry;
               s = DeallocateLarge api entry (lh_alloc_size (mem s) entry) s
           in flush_large_walk api next' s)"

fun flush_large :: "os_api \<Rightarrow> addr \<Rightarrow> nat list \<Rightarrow> 'a tls_state_scheme \<Rightarrow> 'a tls_state_scheme option" where
  "flush_large api k [] s = Some s"
| "flush_large api k (i # is) s =
     do { s \<leftarrow> flush_large_walk api (large_free_bins (caches s k) i) s;
          flush_large api k is (set_large_count k i 0 (set_large k i 0 s)) }"

definition FlushToGlobalHeap :: "os_api \<Rightarrow> addr \<Rightarrow> 'a tls_state_scheme \<Rightarrow> 'a tls_state_scheme option" where
  "FlushToGlobalHeap api k s =
     do { s \<leftarrow> flush_bins api k [0..<NUM_SIZE_CLASSES] s;
          flush_large api k [0..<NUM_LARGE_CLASSES] s }"

section \<open>Life cycle\<close>

definition cache_span :: "os_api \<Rightarrow> nat" where
  "cache_span api = align_up sizeof_TLSCache (GetPageSize api)"

definition CachePool_Push :: "os_api \<Rightarrow> addr \<Rightarrow> 'a tls_state_scheme \<Rightarrow> 'a tls_state_scheme option" where
  "CachePool_Push api c s =
     (if pool_lock_busy s then None
      else if length (cache_pool s) < kCachePoolCap then Some (s\<lparr>cache_pool := cache_pool s @ [c]\<rparr>)
      else Some (FreePages api c (cache_span api) s))"

definition CachePool_Pop :: "'a tls_state_scheme \<Rightarrow> (addr \<times> 'a tls_state_scheme) option" where
  "CachePool_Pop s =
     (if cache_pool s = [] then Some (0, s)
      else if pool_lock_busy s then None
      else Some (last (cache_pool s), s\<lparr>cache_pool := butlast (cache_pool s)\<rparr>))"

definition RecycleOrFreeCache :: "os_api \<Rightarrow> addr \<Rightarrow> bool \<Rightarrow> 'a tls_state_scheme \<Rightarrow> 'a tls_state_scheme option" where
  "RecycleOrFreeCache api cache flushed_ok s =
     (if flushed_ok then CachePool_Push api cache s else Some (FreePages api cache (cache_span api) s))"

definition TLSCache_ctor :: "addr \<Rightarrow> 'a tls_state_scheme \<Rightarrow> 'a tls_state_scheme" where
  "TLSCache_ctor k s =
     (let (a, s) = GetNextArena s;
          s = set_cache k \<lparr>bins = \<lambda>_. bin_zero, arena_index = a, large_free_bins = \<lambda>_. 0,
                large_counts = \<lambda>_. 0, local_stats = local_stats_zero\<rparr> s
      in count_stats CountTlsCreate s)"

definition TLSCache_dtor :: "os_api \<Rightarrow> addr \<Rightarrow> 'a tls_state_scheme \<Rightarrow> 'a tls_state_scheme option" where
  "TLSCache_dtor api k s = FlushToGlobalHeap api k (FlushStats k s)"

definition TlsDestructor :: "os_api \<Rightarrow> nat \<Rightarrow> addr \<Rightarrow> 'a tls_state_scheme \<Rightarrow> 'a tls_state_scheme option" where
  "TlsDestructor api t ptr s =
     (if ptr = 0 then Some s
      else do { (flushed_ok, s) \<leftarrow> (if \<not> shutting_down s then map_option (Pair True) (TLSCache_dtor api ptr s)
                                    else Some (False, s));
                let s = s\<lparr>fast_path_cache := (fast_path_cache s)(t := 0)\<rparr>;
                    s = count_stats CountTlsDestroy s
                in RecycleOrFreeCache api ptr flushed_ok s })"

definition InitTlsKey :: "rt_api \<Rightarrow> 'a tls_state_scheme \<Rightarrow> 'a tls_state_scheme option" where
  "InitTlsKey rt s = (if rt_key_create rt \<noteq> 0 then None else Some (s\<lparr>key_init := True\<rparr>))"

definition GetSlow :: "rt_api \<Rightarrow> nat \<Rightarrow> 'a tls_state_scheme \<Rightarrow> (addr \<times> 'a tls_state_scheme) option" where
  "GetSlow rt t s =
     do { s \<leftarrow> (if key_init s then Some s else InitTlsKey rt s);
          let val = tls_specific s t in
          if val \<noteq> 0 then Some (val, s\<lparr>fast_path_cache := (fast_path_cache s)(t := val)\<rparr>)
          else do {
            (p, s) \<leftarrow> CachePool_Pop s;
            let (p, s) = (if p = 0 then AllocatePages (rt_os rt) (cache_span (rt_os rt)) s else (p, s)) in
            if p = 0 then None
            else let s = TLSCache_ctor p s;
                     s = (if rt_setspecific rt t p = 0 then s\<lparr>tls_specific := (tls_specific s)(t := p)\<rparr> else s)
                 in Some (p, s\<lparr>fast_path_cache := (fast_path_cache s)(t := p)\<rparr>) } }"

definition GetFast :: "rt_api \<Rightarrow> nat \<Rightarrow> 'a tls_state_scheme \<Rightarrow> (addr \<times> 'a tls_state_scheme) option" where
  "GetFast rt t s = (if fast_path_cache s t \<noteq> 0 then Some (fast_path_cache s t, s) else GetSlow rt t s)"

section \<open>Diagnostic scan\<close>

definition TLS_AuditPointers :: "addr \<Rightarrow> addr \<Rightarrow> addr \<Rightarrow> 'a tls_state_scheme \<Rightarrow> nat" where
  "TLS_AuditPointers k lo hi s =
     sum_list (map (\<lambda>c. if in_audit lo hi (bin_head (get_bin k c s)) then 1 else 0) [0..<NUM_SIZE_CLASSES])
     + sum_list (map (\<lambda>i. if in_audit lo hi (large_free_bins (caches s k) i) then 1 else 0) [0..<NUM_LARGE_CLASSES])"

definition AuditCurrentThreadCache ::
  "rt_api \<Rightarrow> nat \<Rightarrow> addr \<Rightarrow> addr \<Rightarrow> 'a tls_state_scheme \<Rightarrow> (nat \<times> 'a tls_state_scheme) option" where
  "AuditCurrentThreadCache rt t lo hi s =
     do { (k, s) \<leftarrow> GetFast rt t s;
          let hits = TLS_AuditPointers k lo hi s;
              n = length (cache_pool s);
              n = (if n > kCachePoolCap then kCachePoolCap else n) in
          Some (hits + length (filter (in_audit lo hi) (take n (cache_pool s))), s) }"

end
