(* ===== verification/FA_Api.thy ===== *)
theory FA_Api
  imports FA_TLSCache
begin

text \<open>
  The public entry points of \<^verbatim>\<open>src/fast_alloc.cpp\<close> (release build, Linux): every function runs
  in a thread \<open>t\<close> of a program whose state is \<open>api_state\<close>, and returns \<open>None\<close> when the call
  does not return (see \<^verbatim>\<open>FA_TLSCache\<close>) or aborts. A C++ exception is the left summand of
  \<open>operator_new\<close>. Reports to stderr are not part of the state.
\<close>

section \<open>State and raw memory\<close>

record api_state = tls_state +
  errno :: "nat \<Rightarrow> nat"

definition ALIGN_MAGIC :: nat where "ALIGN_MAGIC = 0xA1A2A3A4A5A6A701"
definition EINVAL :: nat where "EINVAL = 22"
definition SIZE_MAX :: nat where "SIZE_MAX = 2 ^ 64 - 1"

definition set_errno :: "nat \<Rightarrow> nat \<Rightarrow> 'a api_state_scheme \<Rightarrow> 'a api_state_scheme" where
  "set_errno t v s = s\<lparr>errno := (errno s)(t := v)\<rparr>"

definition sys_mremap :: "os_api \<Rightarrow> addr \<Rightarrow> nat \<Rightarrow> nat \<Rightarrow> bool \<Rightarrow> 'a os_state_scheme \<Rightarrow> addr \<times> 'a os_state_scheme" where
  "sys_mremap api p old new maymove s =
     (let q = os_mremap api (os_log s) p old new maymove in (q, syscall api (Mremap p old q new) s))"

section \<open>Allocation\<close>

definition LargeHeaderSizePlausible :: "os_api \<Rightarrow> nat \<Rightarrow> bool" where
  "LargeHeaderSizePlausible api alloc_size \<longleftrightarrow>
     alloc_size \<ge> GetPageSize api \<and> alloc_size mod GetPageSize api = 0 \<and> alloc_size < 2 ^ 48"

definition PageRoundUp :: "os_api \<Rightarrow> nat \<Rightarrow> nat" where
  "PageRoundUp api n = align_up n (GetPageSize api)"

definition fast_malloc :: "rt_api \<Rightarrow> nat \<Rightarrow> nat \<Rightarrow> 'a api_state_scheme \<Rightarrow> (addr \<times> 'a api_state_scheme) option" where
  "fast_malloc rt t sz s =
     (let sz = (if sz = 0 then 1 else sz)
      in if sz > MaxSmallRequest then
           let alloc_size = add64 sz sizeof_LargeAllocHeader
           in if alloc_size < sz then Some (0, s)
              else let page_size = GetPageSize (rt_os rt)
                   in if alloc_size > add64 (sub64 SIZE_MAX page_size) 1 then Some (0, s)
                      else let alloc_size = align_up alloc_size page_size
                           in do { (tls, s) \<leftarrow> GetFast rt t s;
                                   (cached_mem, s) \<leftarrow> AllocateLargeCached (rt_os rt) tls alloc_size s;
                                   if cached_mem \<noteq> 0 then
                                     if \<not> IsPlausibleHeapPtr cached_mem then Some (0, s)
                                     else let h = cached_mem - sizeof_LargeAllocHeader;
                                              s = TLS_CountLargeAlloc tls (sub64 (lh_alloc_size (mem s) h) sizeof_LargeAllocHeader) s
                                          in Some (cached_mem, s)
                                   else Some (0, s) }
         else let class_index = RequestToClass sz
              in do { (tls, s) \<leftarrow> GetFast rt t s;
                      (block, s) \<leftarrow> TLS_AllocateBlock (rt_os rt) tls class_index s;
                      if block = 0 then Some (0, s)
                      else let user = block + USER_OFFSET
                           in if \<not> IsPlausibleHeapPtr user then Some (0, s)
                              else Some (user, TLS_CountSmallAlloc tls (UsableSize class_index) s) })"

partial_function (option) fast_free ::
  "rt_api \<Rightarrow> nat \<Rightarrow> addr \<Rightarrow> 'a api_state_scheme \<Rightarrow> 'a api_state_scheme option" where
  "fast_free rt t ptr s =
     (if ptr = 0 then Some s
      else if \<not> IsPlausibleHeapPtr ptr then Some s
      else let block = ptr - USER_OFFSET;
               slab_field = fb_slab (mem s) block
           in if slab_field = 0 then
                let header = ptr - sizeof_LargeAllocHeader;
                    alloc_size = lh_alloc_size (mem s) header
                in if \<not> LargeHeaderSizePlausible (rt_os rt) alloc_size then Some s
                   else do { (tls, s) \<leftarrow> GetFast rt t s;
                             let s = TLS_CountLargeFree tls (sub64 alloc_size sizeof_LargeAllocHeader) s in
                             do { (tls, s) \<leftarrow> GetFast rt t s;
                                  Some (DeallocateLargeCached (rt_os rt) tls header alloc_size s) } }
              else if slab_field = ALIGN_MAGIC then fast_free rt t (mem s (ptr - 24)) s
              else if fb_class_index (mem s) block \<ge> NUM_SIZE_CLASSES then Some s
              else do { (tls, s) \<leftarrow> GetFast rt t s;
                        let s = TLS_CountSmallFree tls (UsableSize (fb_class_index (mem s) block)) s in
                        TLS_DeallocateBlock (rt_os rt) tls (fb_class_index (mem s) block) block s })"

definition fast_free_sized ::
  "rt_api \<Rightarrow> nat \<Rightarrow> addr \<Rightarrow> nat \<Rightarrow> 'a api_state_scheme \<Rightarrow> 'a api_state_scheme option" where
  "fast_free_sized rt t ptr sz s =
     (if ptr = 0 then Some s
      else if \<not> IsPlausibleHeapPtr ptr then Some s
      else if sz > MaxSmallRequest then fast_free rt t ptr s
      else let block = ptr - USER_OFFSET;
               slab_field = fb_slab (mem s) block
           in if slab_field = 0 \<or> slab_field = ALIGN_MAGIC then fast_free rt t ptr s
              else let class_index = RequestToClass sz
                   in if fb_class_index (mem s) block \<noteq> class_index then fast_free rt t ptr s
                      else do { (tls, s) \<leftarrow> GetFast rt t s;
                                let s = TLS_CountSmallFree tls (UsableSize class_index) s in
                                TLS_DeallocateBlock (rt_os rt) tls class_index block s })"

definition fast_calloc ::
  "rt_api \<Rightarrow> nat \<Rightarrow> nat \<Rightarrow> nat \<Rightarrow> 'a api_state_scheme \<Rightarrow> (addr \<times> 'a api_state_scheme) option" where
  "fast_calloc rt t num sz s =
     (if num \<noteq> 0 \<and> sz > SIZE_MAX div num then Some (0, s)
      else let total = mul64 num sz
           in do { (ptr, s) \<leftarrow> fast_malloc rt t total s;
                   if ptr \<noteq> 0 \<and> total > 0 then Some (ptr, upd_mem (memset ptr 0 total) s)
                   else Some (ptr, s) })"

definition fast_aligned_alloc ::
  "rt_api \<Rightarrow> nat \<Rightarrow> nat \<Rightarrow> nat \<Rightarrow> 'a api_state_scheme \<Rightarrow> (addr \<times> 'a api_state_scheme) option" where
  "fast_aligned_alloc rt t alignment sz s =
     (let sz = (if sz = 0 then 1 else sz)
      in if alignment = 0 \<or> alignment AND (alignment - 1) \<noteq> 0 then Some (0, s)
         else let alignment = (if alignment < ALIGNMENT then ALIGNMENT else alignment)
              in if alignment > 4096 then Some (0, s)
                 else if alignment \<le> ALIGNMENT then fast_malloc rt t sz s
                 else let raw_size = add64 (add64 sz alignment) 32
                      in if raw_size < sz then Some (0, s)
                         else do { (raw, s) \<leftarrow> fast_malloc rt t raw_size s;
                                   if raw = 0 then Some (0, s)
                                   else let aligned = align_up (raw + 32) alignment;
                                            s = upd_mem (\<lambda>m. m(aligned - 32 := alignment)) s;
                                            s = upd_mem (\<lambda>m. m(aligned - 24 := raw)) s;
                                            s = upd_mem (\<lambda>m. m(aligned - 16 := ALIGN_MAGIC)) s;
                                            s = upd_mem (\<lambda>m. m(aligned - 8 := sz)) s
                                        in Some (aligned, s) })"

section \<open>Reallocation\<close>

text \<open>Over-aligned blocks.\<close>

definition realloc_aligned ::
  "rt_api \<Rightarrow> nat \<Rightarrow> addr \<Rightarrow> nat \<Rightarrow> 'a api_state_scheme \<Rightarrow> (addr \<times> 'a api_state_scheme) option" where
  "realloc_aligned rt t ptr new_size s =
     (let alignment = mem s (ptr - 32);
          old_size = mem s (ptr - 8)
      in if alignment < ALIGNMENT \<or> alignment > 4096 \<or> alignment AND (alignment - 1) \<noteq> 0 \<or> old_size > 2 ^ 30
         then Some (0, set_errno t EINVAL s)
         else if new_size \<le> old_size then Some (ptr, upd_mem (\<lambda>m. m(ptr - 8 := new_size)) s)
         else do { (new_ptr, s) \<leftarrow> fast_aligned_alloc rt t alignment new_size s;
                   if new_ptr = 0 then Some (0, s)
                   else let s = upd_mem (memcpy new_ptr ptr (if old_size < new_size then old_size else new_size)) s
                        in do { s \<leftarrow> fast_free rt t ptr s; Some (new_ptr, s) } })"

text \<open>The generic path: allocate, copy, free.\<close>

definition realloc_copy ::
  "rt_api \<Rightarrow> nat \<Rightarrow> addr \<Rightarrow> nat \<Rightarrow> nat \<Rightarrow> 'a api_state_scheme \<Rightarrow> (addr \<times> 'a api_state_scheme) option" where
  "realloc_copy rt t ptr old_size new_size s =
     do { (new_ptr, s) \<leftarrow> fast_malloc rt t new_size s;
          if new_ptr \<noteq> 0 then
            let s = upd_mem (memcpy new_ptr ptr (if old_size < new_size then old_size else new_size)) s
            in do { s \<leftarrow> fast_free rt t ptr s; Some (new_ptr, s) }
          else Some (new_ptr, s) }"

text \<open>In-place shrink of a large span.\<close>

definition realloc_large_shrink :: "os_api \<Rightarrow> addr \<Rightarrow> nat \<Rightarrow> 'a api_state_scheme \<Rightarrow> addr \<times> 'a api_state_scheme" where
  "realloc_large_shrink api ptr new_size s =
     (let header = ptr - sizeof_LargeAllocHeader;
          alloc_size = lh_alloc_size (mem s) header;
          needed = PageRoundUp api (add64 new_size sizeof_LargeAllocHeader)
      in if needed \<ge> alloc_size then (ptr, s)
         else if IsPoolBacked header s then (ptr, s)
         else let released = sub64 alloc_size needed;
                  (shrunk, s) = sys_mremap api header alloc_size needed False s
              in if shrunk = 0 then (ptr, s)
                 else let s = upd_mem (set_lh_alloc_size header needed) s
                      in (ptr, count_stats (CountOsFree released) s))"

text \<open>Growth of a large span: \<^verbatim>\<open>mremap\<close>, or no move when the span has room, or the copy path.\<close>

definition realloc_large_grow ::
  "rt_api \<Rightarrow> nat \<Rightarrow> addr \<Rightarrow> nat \<Rightarrow> nat \<Rightarrow> 'a api_state_scheme \<Rightarrow> (addr \<times> 'a api_state_scheme) option" where
  "realloc_large_grow rt t ptr old_size new_size s =
     (let header = ptr - sizeof_LargeAllocHeader;
          alloc_size = lh_alloc_size (mem s) header;
          needed = PageRoundUp (rt_os rt) (add64 new_size sizeof_LargeAllocHeader)
      in if needed > alloc_size then
           if \<not> IsPoolBacked header s then
             let (grown, s) = sys_mremap (rt_os rt) header alloc_size needed True s
             in if grown \<noteq> 0 then Some (grown + sizeof_LargeAllocHeader, upd_mem (set_lh_alloc_size grown needed) s)
                else realloc_copy rt t ptr old_size new_size s
           else realloc_copy rt t ptr old_size new_size s
         else Some (ptr, s))"

definition fast_realloc ::
  "rt_api \<Rightarrow> nat \<Rightarrow> addr \<Rightarrow> nat \<Rightarrow> 'a api_state_scheme \<Rightarrow> (addr \<times> 'a api_state_scheme) option" where
  "fast_realloc rt t ptr new_size s =
     do { (tls, s) \<leftarrow> GetFast rt t s;
          let s = TLS_CountRealloc tls s in
          if new_size = 0 then do { s \<leftarrow> fast_free rt t ptr s; Some (0, s) }
          else if ptr = 0 then fast_malloc rt t new_size s
          else if \<not> IsPlausibleHeapPtr ptr then Some (0, set_errno t EINVAL s)
          else let block = ptr - USER_OFFSET;
                   slab_field = fb_slab (mem s) block
               in if slab_field = ALIGN_MAGIC then realloc_aligned rt t ptr new_size s
                  else let is_large = (slab_field = 0);
                           alloc_size = lh_alloc_size (mem s) (ptr - sizeof_LargeAllocHeader)
                       in if is_large \<and> \<not> LargeHeaderSizePlausible (rt_os rt) alloc_size
                          then Some (0, set_errno t EINVAL s)
                          else let old_size = (if is_large then sub64 alloc_size sizeof_LargeAllocHeader
                                               else UsableSize (fb_class_index (mem s) block))
                               in if new_size \<le> old_size then
                                    let should_shrink =
                                      (if \<not> is_large then fb_class_index (mem s) block > RequestToClass new_size + 1
                                       else old_size - new_size \<ge> GetPageSize (rt_os rt))
                                    in if \<not> should_shrink then Some (ptr, s)
                                       else if is_large then Some (realloc_large_shrink (rt_os rt) ptr new_size s)
                                       else realloc_copy rt t ptr old_size new_size s
                                  else if is_large then realloc_large_grow rt t ptr old_size new_size s
                                  else realloc_copy rt t ptr old_size new_size s }"

section \<open>Diagnostics and operators\<close>

definition Snapshot :: "stats \<Rightarrow> stats" where
  "Snapshot st = \<lparr>small_allocs = small_allocs st, small_frees = small_frees st,
     large_allocs = large_allocs st, large_frees = large_frees st, reallocs = reallocs st,
     live_blocks = live_blocks st, live_bytes = live_bytes st,
     peak_live_blocks = peak_live_blocks st, peak_live_bytes = peak_live_bytes st,
     os_allocs = os_allocs st, os_frees = os_frees st, os_bytes_live = os_bytes_live st,
     page_cache_hits = page_cache_hits st, page_cache_bytes = page_cache_bytes st,
     page_cache_evictions = page_cache_evictions st, tls_misses = tls_misses st,
     pending_pushes = pending_pushes st, tls_created = tls_created st, tls_destroyed = tls_destroyed st\<rparr>"

definition fast_alloc_stats :: "rt_api \<Rightarrow> nat \<Rightarrow> 'a api_state_scheme \<Rightarrow> (stats \<times> 'a api_state_scheme) option" where
  "fast_alloc_stats rt t s =
     do { (tls, s) \<leftarrow> GetFast rt t s;
          let s = FlushStats tls s in Some (Snapshot (g_stats s), s) }"

definition fast_alloc_purge :: "rt_api \<Rightarrow> 'a api_state_scheme \<Rightarrow> 'a api_state_scheme option" where
  "fast_alloc_purge rt s = map_option snd (PurgePageCache (rt_os rt) s)"

definition fast_alloc_purge_thread_cache :: "rt_api \<Rightarrow> nat \<Rightarrow> 'a api_state_scheme \<Rightarrow> 'a api_state_scheme option" where
  "fast_alloc_purge_thread_cache rt t s =
     do { (tls, s) \<leftarrow> GetFast rt t s; FlushToGlobalHeap (rt_os rt) tls s }"

text \<open>The number of hits reported.\<close>

definition fast_alloc_audit_pointers ::
  "rt_api \<Rightarrow> nat \<Rightarrow> addr \<Rightarrow> addr \<Rightarrow> 'a api_state_scheme \<Rightarrow> (nat \<times> 'a api_state_scheme) option" where
  "fast_alloc_audit_pointers rt t lo hi s =
     (if lo = 0 \<or> hi = 0 \<or> lo \<ge> hi then Some (0, s)
      else do { (hits, s) \<leftarrow> AuditCurrentThreadCache rt t lo hi s;
                Some (hits + AuditPointers_global lo hi s, s) })"

datatype cxx_exception = Bad_alloc

definition operator_new :: "rt_api \<Rightarrow> nat \<Rightarrow> nat \<Rightarrow> 'a api_state_scheme \<Rightarrow> ((cxx_exception + addr) \<times> 'a api_state_scheme) option" where
  "operator_new rt t sz s =
     do { (ptr, s) \<leftarrow> fast_malloc rt t sz s;
          if ptr = 0 then Some (Inl Bad_alloc, s) else Some (Inr ptr, s) }"

definition operator_delete :: "rt_api \<Rightarrow> nat \<Rightarrow> addr \<Rightarrow> 'a api_state_scheme \<Rightarrow> 'a api_state_scheme option" where
  "operator_delete rt t ptr s = fast_free rt t ptr s"

definition operator_delete_sized :: "rt_api \<Rightarrow> nat \<Rightarrow> addr \<Rightarrow> nat \<Rightarrow> 'a api_state_scheme \<Rightarrow> 'a api_state_scheme option" where
  "operator_delete_sized rt t ptr sz s = fast_free_sized rt t ptr sz s"

end
