(* ===== verification/FA_TLSInv.thy ===== *)
theory FA_TLSInv
  imports FA_TLSCache
begin

text \<open>
  The invariant of the thread caches. A ghost state \<open>g\<close> lists what the pointers of the caches
  reach: \<open>gB g k c\<close> the blocks in bin \<open>c\<close> of cache \<open>k\<close>, \<open>gE g k i\<close> the spans parked in its
  large bin \<open>i\<close>, \<open>gX g\<close> all spans held outside the global heap with their sizes (thread caches,
  parked spans, spans of the user), \<open>gK g\<close> the live caches. \<open>pieces g s\<close> is what the user of the
  allocator holds: blocks outside the heap that are in no bin, and spans that are neither parked nor
  caches. \<open>tls_acc\<close> is the accounting of the whole allocator in terms of these pieces.
\<close>

section \<open>The invariant\<close>

record ghost =
  gV :: view
  gX :: "addr \<rightharpoonup> nat"
  gB :: "addr \<Rightarrow> nat \<Rightarrow> addr list"
  gE :: "addr \<Rightarrow> nat \<Rightarrow> addr list"
  gK :: "addr set"

definition binned :: "ghost \<Rightarrow> addr set" where
  "binned g = (\<Union>k c. set (gB g k c))"

definition parked :: "ghost \<Rightarrow> addr set" where
  "parked g = (\<Union>k i. set (gE g k i))"

definition spans_ok :: "os_api \<Rightarrow> 'a tls_state_scheme \<Rightarrow> ghost \<Rightarrow> bool" where
  "spans_ok api s g \<longleftrightarrow> (\<forall>p n. gX g p = Some n \<longrightarrow> ext api s (gV g) p n)
     \<and> (\<forall>p q n k. gX g p = Some n \<and> gX g q = Some k \<and> p \<noteq> q \<longrightarrow> {p..<p + n} \<inter> {q..<q + k} = {})"

definition bin_ok :: "'a tls_state_scheme \<Rightarrow> ghost \<Rightarrow> addr \<Rightarrow> nat \<Rightarrow> bool" where
  "bin_ok s g k c \<longleftrightarrow> held_list c s (gV g) (bin_head (get_bin k c s)) (gB g k c)
     \<and> bin_count (get_bin k c s) = length (gB g k c) \<and> length (gB g k c) < CACHE_LIMITS ! c
     \<and> bin_next_refill (get_bin k c s) \<le> CACHE_LIMITS ! c div 2"

definition bins_ok :: "(addr \<times> nat) set \<Rightarrow> 'a tls_state_scheme \<Rightarrow> ghost \<Rightarrow> bool" where
  "bins_ok E s g \<longleftrightarrow> (\<forall>k \<in> gK g. \<forall>c < NUM_SIZE_CLASSES. (k, c) \<notin> E \<longrightarrow> bin_ok s g k c)
     \<and> (\<forall>k c. k \<notin> gK g \<or> \<not> c < NUM_SIZE_CLASSES \<or> (k, c) \<in> E \<longrightarrow> gB g k c = [])
     \<and> (\<forall>k k' c. k \<noteq> k' \<longrightarrow> set (gB g k c) \<inter> set (gB g k' c) = {})"

definition lbin_ok :: "'a tls_state_scheme \<Rightarrow> ghost \<Rightarrow> addr \<Rightarrow> nat \<Rightarrow> bool" where
  "lbin_ok s g k i \<longleftrightarrow> chain (le_next (mem s)) (large_free_bins (caches s k) i) (gE g k i)
     \<and> large_counts (caches s k) i = length (gE g k i) \<and> length (gE g k i) \<le> 64
     \<and> (\<forall>e \<in> set (gE g k i). gX g e = Some (lh_alloc_size (mem s) e) \<and> LargeSizeToClass (lh_alloc_size (mem s) e) = i)"

definition lbins_ok :: "(addr \<times> nat) set \<Rightarrow> 'a tls_state_scheme \<Rightarrow> ghost \<Rightarrow> bool" where
  "lbins_ok F s g \<longleftrightarrow> (\<forall>k \<in> gK g. \<forall>i < NUM_LARGE_CLASSES. (k, i) \<notin> F \<longrightarrow> lbin_ok s g k i)
     \<and> (\<forall>k i. k \<notin> gK g \<or> \<not> i < NUM_LARGE_CLASSES \<or> (k, i) \<in> F \<longrightarrow> gE g k i = [])
     \<and> (\<forall>k k' i. k \<noteq> k' \<longrightarrow> set (gE g k i) \<inter> set (gE g k' i) = {})
     \<and> parked g \<inter> (gK g \<union> set (cache_pool s)) = {}"

definition thread_cache :: "'a tls_state_scheme \<Rightarrow> nat \<Rightarrow> addr" where
  "thread_cache s t = (if fast_path_cache s t \<noteq> 0 then fast_path_cache s t else tls_specific s t)"

definition hub_ok :: "os_api \<Rightarrow> 'a tls_state_scheme \<Rightarrow> ghost \<Rightarrow> bool" where
  "hub_ok api s g \<longleftrightarrow> (\<forall>k \<in> gK g \<union> set (cache_pool s). gX g k = Some (cache_span api))
     \<and> (\<forall>k \<in> gK g. arena_index (caches s k) < NUM_ARENAS)
     \<and> distinct (cache_pool s) \<and> length (cache_pool s) \<le> kCachePoolCap \<and> gK g \<inter> set (cache_pool s) = {}
     \<and> (\<forall>t. thread_cache s t \<noteq> 0 \<longrightarrow> thread_cache s t \<in> gK g)
     \<and> (\<forall>t. tls_specific s t \<noteq> 0 \<longrightarrow> tls_specific s t = thread_cache s t)
     \<and> (\<forall>t t'. thread_cache s t \<noteq> 0 \<and> thread_cache s t = thread_cache s t' \<longrightarrow> t = t')"

text \<open>
  The invariant while some bins are open: what an operation has unhooked from the bins \<open>E\<close> and the
  large bins \<open>F\<close> counts as held outside until the bin is closed again.
\<close>

definition tls_open :: "os_api \<Rightarrow> (addr \<times> nat) set \<Rightarrow> (addr \<times> nat) set \<Rightarrow> 'a tls_state_scheme \<Rightarrow> ghost \<Rightarrow> bool" where
  "tls_open api E F s g \<longleftrightarrow> gh_ok api {} s (gV g) \<and> spans_ok api s g \<and> bins_ok E s g \<and> lbins_ok F s g \<and> hub_ok api s g"

abbreviation tls_ok :: "os_api \<Rightarrow> 'a tls_state_scheme \<Rightarrow> ghost \<Rightarrow> bool" where
  "tls_ok api \<equiv> tls_open api {} {}"

section \<open>What the user holds\<close>

datatype piece = Block addr | Span addr

definition user_blocks :: "ghost \<Rightarrow> 'a tls_state_scheme \<Rightarrow> addr set" where
  "user_blocks g s = client (gV g) (mem s) - binned g"

definition user_spans :: "ghost \<Rightarrow> 'a tls_state_scheme \<Rightarrow> addr set" where
  "user_spans g s = dom (gX g) - gK g - set (cache_pool s) - parked g"

definition pieces :: "ghost \<Rightarrow> 'a tls_state_scheme \<Rightarrow> piece set" where
  "pieces g s = Block ` user_blocks g s \<union> Span ` user_spans g s"

fun piece_cells :: "ghost \<Rightarrow> mem \<Rightarrow> piece \<Rightarrow> nat set" where
  "piece_cells g m (Block b) = bcells m b"
| "piece_cells g m (Span p) = {p..<p + the (gX g p)}"

text \<open>A step in terms of the pieces held outside: the remaining ones keep their cells and contents.\<close>

definition moves :: "'a tls_state_scheme \<times> ghost \<Rightarrow> piece set \<Rightarrow> piece set \<Rightarrow> 'a tls_state_scheme \<times> ghost \<Rightarrow> bool" where
  "moves x gone come y \<longleftrightarrow> pieces (snd y) (fst y) = pieces (snd x) (fst x) - gone \<union> come
     \<and> (\<forall>u \<in> pieces (snd x) (fst x) - gone. piece_cells (snd y) (mem (fst y)) u = piece_cells (snd x) (mem (fst x)) u
         \<and> (\<forall>a \<in> piece_cells (snd x) (mem (fst x)) u. mem (fst y) a = mem (fst x) a))
     \<and> lock_busy (fst y) = lock_busy (fst x) \<and> pool_lock_busy (fst y) = pool_lock_busy (fst x)"

definition tls_acc :: "os_api \<Rightarrow> 'a tls_state_scheme \<times> ghost \<Rightarrow> piece set \<Rightarrow> piece set \<Rightarrow> 'a tls_state_scheme \<times> ghost \<Rightarrow> bool" where
  "tls_acc api x gone come y \<longleftrightarrow> tls_ok api (fst y) (snd y) \<and> moves x gone come y"

section \<open>Reading the invariant\<close>

lemma tls_openD:
  assumes "tls_open api E F s g"
  shows "gh_ok api {} s (gV g)" "spans_ok api s g" "bins_ok E s g" "lbins_ok F s g" "hub_ok api s g"
  using assms by (simp_all add: tls_open_def)

lemma env_tls:
  fixes s s' :: "'a tls_state_scheme"
  assumes "env s' = env s"
  shows "caches s' = caches s" "cache_pool s' = cache_pool s" "fast_path_cache s' = fast_path_cache s"
    "tls_specific s' = tls_specific s" "key_init s' = key_init s" "pool_lock_busy s' = pool_lock_busy s"
    "get_bin k c s' = get_bin k c s" "thread_cache s' = thread_cache s" "tls_state.more s' = tls_state.more s"
  using assms by (cases s; cases s'; simp add: env_def get_bin_def thread_cache_def fun_eq_iff)+

lemma binnedI: "b \<in> set (gB g k c) \<Longrightarrow> b \<in> binned g"
  by (auto simp: binned_def)

lemma parkedI: "e \<in> set (gE g k i) \<Longrightarrow> e \<in> parked g"
  by (auto simp: parked_def)

lemma bins_okD:
  assumes "bins_ok E s g"
  shows "k \<in> gK g \<Longrightarrow> c < NUM_SIZE_CLASSES \<Longrightarrow> (k, c) \<notin> E \<Longrightarrow> bin_ok s g k c"
    "b \<in> set (gB g k c) \<Longrightarrow> k \<in> gK g \<and> c < NUM_SIZE_CLASSES \<and> (k, c) \<notin> E"
    "k \<noteq> k' \<Longrightarrow> set (gB g k c) \<inter> set (gB g k' c) = {}"
    "b \<in> set (gB g k c) \<Longrightarrow> fb_class_index (mem s) b = c"
    "binned g \<subseteq> client (gV g) (mem s)"
    "(k, c) \<in> E \<Longrightarrow> gB g k c = []"
proof -
  show b: "k \<in> gK g \<Longrightarrow> c < NUM_SIZE_CLASSES \<Longrightarrow> (k, c) \<notin> E \<Longrightarrow> bin_ok s g k c" for k c using assms by (simp add: bins_ok_def)
  show i: "b \<in> set (gB g k c) \<Longrightarrow> k \<in> gK g \<and> c < NUM_SIZE_CLASSES \<and> (k, c) \<notin> E" for b k c
    using assms unfolding bins_ok_def by (metis empty_iff empty_set)
  show "k \<noteq> k' \<Longrightarrow> set (gB g k c) \<inter> set (gB g k' c) = {}" "(k, c) \<in> E \<Longrightarrow> gB g k c = []" using assms by (simp_all add: bins_ok_def)
  show "b \<in> set (gB g k c) \<Longrightarrow> fb_class_index (mem s) b = c"
    using b i [of b k c] by (auto simp: bin_ok_def held_list_def)
  show "binned g \<subseteq> client (gV g) (mem s)"
    using b i unfolding binned_def bin_ok_def held_list_def by blast
qed

lemma lbins_okD:
  assumes "lbins_ok F s g"
  shows "k \<in> gK g \<Longrightarrow> i < NUM_LARGE_CLASSES \<Longrightarrow> (k, i) \<notin> F \<Longrightarrow> lbin_ok s g k i"
    "e \<in> set (gE g k i) \<Longrightarrow> k \<in> gK g \<and> i < NUM_LARGE_CLASSES \<and> (k, i) \<notin> F"
    "k \<noteq> k' \<Longrightarrow> set (gE g k i) \<inter> set (gE g k' i) = {}"
    "e \<in> set (gE g k i) \<Longrightarrow> gX g e = Some (lh_alloc_size (mem s) e) \<and> LargeSizeToClass (lh_alloc_size (mem s) e) = i"
    "parked g \<inter> (gK g \<union> set (cache_pool s)) = {}"
    "(k, i) \<in> F \<Longrightarrow> gE g k i = []"
proof -
  show b: "k \<in> gK g \<Longrightarrow> i < NUM_LARGE_CLASSES \<Longrightarrow> (k, i) \<notin> F \<Longrightarrow> lbin_ok s g k i" for k i using assms by (simp add: lbins_ok_def)
  show i: "e \<in> set (gE g k i) \<Longrightarrow> k \<in> gK g \<and> i < NUM_LARGE_CLASSES \<and> (k, i) \<notin> F" for e k i
    using assms unfolding lbins_ok_def by (metis empty_iff empty_set)
  show "k \<noteq> k' \<Longrightarrow> set (gE g k i) \<inter> set (gE g k' i) = {}" "parked g \<inter> (gK g \<union> set (cache_pool s)) = {}"
    "(k, i) \<in> F \<Longrightarrow> gE g k i = []"
    using assms by (simp_all add: lbins_ok_def)
  show "e \<in> set (gE g k i) \<Longrightarrow> gX g e = Some (lh_alloc_size (mem s) e) \<and> LargeSizeToClass (lh_alloc_size (mem s) e) = i"
    using b i [of e k i] by (auto simp: lbin_ok_def)
qed

lemma spans_okD:
  assumes "spans_ok api s g"
  shows "gX g p = Some n \<Longrightarrow> ext api s (gV g) p n"
    "gX g p = Some n \<Longrightarrow> gX g q = Some k \<Longrightarrow> p \<noteq> q \<Longrightarrow> {p..<p + n} \<inter> {q..<q + k} = {}"
  using assms unfolding spans_ok_def by blast+

section \<open>Steps of the global heap\<close>

text \<open>A heap operation that takes no binned block and spares the spans keeps the caches' invariant.\<close>

lemma heap_open:
  fixes s s' :: "'a tls_state_scheme"
  assumes spec: "os_spec api" and ok: "tls_open api E F s g" and acc: "accounts_but R api s (gV g) A B s' V'"
    and A: "A \<inter> binned g = {}" and R: "\<And>p n. gX g p = Some n \<Longrightarrow> {p..<p + n} \<inter> R = {}"
  shows "tls_open api E F s' (g\<lparr>gV := V'\<rparr>)" "\<And>p n a. gX g p = Some n \<Longrightarrow> a \<in> {p..<p + n} \<Longrightarrow> mem s' a = mem s a"
proof -
  let ?g = "g\<lparr>gV := V'\<rparr>"
  note o = tls_openD [OF ok] and e = env_tls [OF accounts_env [OF acc]]
  have gs: "gE ?g = gE g" "gX ?g = gX g" "gK ?g = gK g" "parked ?g = parked g" by (simp_all add: parked_def)
  have sp: "spared api R s (gV g) s' V'" by (rule accounts_spared [OF acc])
  have x: "ext api s' V' p n" "\<And>a. a \<in> {p..<p + n} \<Longrightarrow> mem s' a = mem s a" if "gX g p = Some n" for p n
    using sparedD [OF sp spans_okD(1) [OF o(2) that] R [OF that]] by blast+
  show "\<And>p n a. gX g p = Some n \<Longrightarrow> a \<in> {p..<p + n} \<Longrightarrow> mem s' a = mem s a" by (rule x(2))
  have "spans_ok api s' ?g" using x(1) o(2) by (auto simp: spans_ok_def)
  moreover have "bins_ok E s' ?g"
  proof -
    have "bin_ok s' ?g q c" if "q \<in> gK g" "c < NUM_SIZE_CLASSES" "(q, c) \<notin> E" for q c
    proof -
      have b: "bin_ok s g q c" by (rule bins_okD(1) [OF o(3) that])
      have "set (gB g q c) \<inter> A = {}" using A binnedI by blast
      then have "held_list c s' V' (bin_head (get_bin q c s)) (gB g q c)"
        using held_list_step [OF spec o(1) _ acc] b by (simp add: bin_ok_def)
      then show ?thesis using b by (simp add: bin_ok_def e)
    qed
    then show ?thesis using o(3) by (simp add: bins_ok_def)
  qed
  moreover have "lbins_ok F s' ?g"
  proof -
    have hd: "le_next (mem s') q = le_next (mem s) q \<and> lh_alloc_size (mem s') q = lh_alloc_size (mem s) q" if "q \<in> set (gE g r i)" for q r i
    proof -
      have q: "gX g q = Some (lh_alloc_size (mem s) q)" using lbins_okD(4) [OF o(4) that] by blast
      then show ?thesis using ext_facts(4) [OF spec spans_okD(1) [OF o(2) q]] x(2) [OF q, of q] x(2) [OF q, of "q + 8"]
        by (simp add: le_next_def lh_alloc_size_def)
    qed
    have "lbin_ok s' ?g q i" if "q \<in> gK g" "i < NUM_LARGE_CLASSES" "(q, i) \<notin> F" for q i
    proof -
      have l: "lbin_ok s g q i" by (rule lbins_okD(1) [OF o(4) that])
      have "chain (le_next (mem s')) (large_free_bins (caches s q) i) (gE g q i)"
        using l chain_cong [of "gE g q i" "le_next (mem s')" "le_next (mem s)"] hd [of _ q i] by (simp add: lbin_ok_def)
      moreover have "\<forall>u \<in> set (gE g q i). gX g u = Some (lh_alloc_size (mem s') u) \<and> LargeSizeToClass (lh_alloc_size (mem s') u) = i"
        by (metis lbins_okD(4) [OF o(4)] hd)
      moreover have "large_counts (caches s q) i = length (gE g q i) \<and> length (gE g q i) \<le> 64"
        using l unfolding lbin_ok_def by blast
      ultimately show ?thesis unfolding lbin_ok_def e gs by blast
    qed
    then show ?thesis using o(4) unfolding lbins_ok_def e gs by blast
  qed
  moreover have "hub_ok api s' ?g" using o(5) unfolding hub_ok_def e gs .
  ultimately show "tls_open api E F s' ?g" using accounts_ok [OF acc] by (simp add: tls_open_def)
qed

lemma heap_moves:
  fixes s s' :: "'a tls_state_scheme"
  assumes spec: "os_spec api" and ok: "tls_open api E F s g" and acc: "accounts_but R api s (gV g) A B s' V'"
    and A: "A \<inter> binned g = {}" and B: "B \<inter> binned g = {}" and R: "\<And>p n. gX g p = Some n \<Longrightarrow> {p..<p + n} \<inter> R = {}"
  shows "moves (s, g) (Block ` A) (Block ` B) (s', g\<lparr>gV := V'\<rparr>)"
proof -
  let ?g = "g\<lparr>gV := V'\<rparr>"
  have gs: "binned ?g = binned g" "parked ?g = parked g" by (simp_all add: binned_def parked_def)
  note e = env_tls [OF accounts_env [OF acc]]
  have ub: "user_blocks ?g s' = user_blocks g s - A \<union> B"
    using B accounts_client [OF acc] by (auto simp: user_blocks_def gs)
  have us: "user_spans ?g s' = user_spans g s" by (simp add: user_spans_def gs e)
  have k: "kept (client (gV g) (mem s) - A) (mem s) (mem s')" using acc by (simp add: accounts_def)
  have "piece_cells ?g (mem s') u = piece_cells g (mem s) u \<and> (\<forall>a \<in> piece_cells g (mem s) u. mem s' a = mem s a)"
    if u: "u \<in> pieces g s - Block ` A" for u
  proof (cases u)
    case (Block b)
    then have "b \<in> client (gV g) (mem s) - A" using u by (auto simp: pieces_def user_blocks_def)
    from kept_header(1,5) [OF k this] Block show ?thesis by simp
  next
    case (Span p)
    then obtain n where "gX g p = Some n" using u by (auto simp: pieces_def user_spans_def)
    then show ?thesis using heap_open(2) [OF spec ok acc A R] Span by auto
  qed
  moreover have "pieces ?g s' = pieces g s - Block ` A \<union> Block ` B" by (auto simp: pieces_def ub us)
  ultimately show ?thesis using accounts_lock [OF acc] e by (simp add: moves_def)
qed

section \<open>Steps that change no memory of the heap\<close>

definition core :: "'a gh_state_scheme \<Rightarrow> mem \<times> os_event list \<times> os_chunk list \<times> (nat \<Rightarrow> page_bin) \<times> (nat \<Rightarrow> 64 word) \<times> nat
    \<times> (nat \<Rightarrow> nat \<Rightarrow> addr) \<times> (nat \<Rightarrow> nat \<Rightarrow> addr) \<times> (nat \<Rightarrow> nat \<Rightarrow> addr)" where
  "core s = (mem s, os_log s, pool_chunks s, page_bins s, page_nonempty s, page_cache_total_bytes s,
     partial_slabs s, full_slabs s, pending_returns s)"

definition hub :: "'a tls_state_scheme \<Rightarrow> addr list \<times> (nat \<Rightarrow> addr) \<times> (nat \<Rightarrow> addr) \<times> bool \<times> bool \<times> bool
    \<times> (nat \<Rightarrow> nat \<Rightarrow> bool) \<times> 'a" where
  "hub s = (cache_pool s, fast_path_cache s, tls_specific s, key_init s, pool_lock_busy s, shutting_down s,
     lock_busy s, tls_state.more s)"

lemma coreD:
  assumes "core s' = core s"
  shows "mem s' = mem s" "gh_ok api X s' V = gh_ok api X s V" "ext api s' V p n = ext api s V p n"
proof -
  note d = assms [unfolded core_def prod.inject]
  show m: "mem s' = mem s" using d by blast
  have o: "span_owned api s' p n = span_owned api s p n" for p n by (rule os_cong(3)) (use d in blast)+
  then show "ext api s' V p n = ext api s V p n" by (simp add: ext_def m)
  have "ph_core api s' (vL V) = ph_core api s (vL V)" by (rule ph_core_cong) (use d in blast)+
  then show "gh_ok api X s' V = gh_ok api X s V" using o d
    by (simp add: gh_ok_def ph_ok_def slabs_ok_def slab_good_def lists_ok_def queues_ok_def)
qed

lemma hubD:
  assumes "hub s' = hub s"
  shows "cache_pool s' = cache_pool s" "fast_path_cache s' = fast_path_cache s" "tls_specific s' = tls_specific s"
    "key_init s' = key_init s" "pool_lock_busy s' = pool_lock_busy s" "shutting_down s' = shutting_down s"
    "lock_busy s' = lock_busy s" "tls_state.more s' = tls_state.more s" "thread_cache s' = thread_cache s"
  using assms by (auto simp: hub_def thread_cache_def fun_eq_iff)

lemma env_hub: "env s' = env s \<Longrightarrow> hub s' = hub s" for s s' :: "'a tls_state_scheme"
  by (cases s; cases s'; simp add: env_def hub_def)

definition tls_frame :: "(addr \<times> nat) set \<Rightarrow> (addr \<times> nat) set \<Rightarrow> 'a tls_state_scheme \<Rightarrow> 'a tls_state_scheme \<Rightarrow> bool" where
  "tls_frame E F s s' \<longleftrightarrow> core s' = core s \<and> hub s' = hub s
     \<and> (\<forall>k. arena_index (caches s' k) = arena_index (caches s k))
     \<and> (\<forall>k c. (k, c) \<notin> E \<longrightarrow> get_bin k c s' = get_bin k c s)
     \<and> (\<forall>k i. (k, i) \<notin> F \<longrightarrow> large_free_bins (caches s' k) i = large_free_bins (caches s k) i
         \<and> large_counts (caches s' k) i = large_counts (caches s k) i)"

lemma tls_frame_refl [simp]: "tls_frame E F s s"
  by (simp add: tls_frame_def)

lemma tls_frame_trans [trans]: "tls_frame E F s s1 \<Longrightarrow> tls_frame E F s1 s2 \<Longrightarrow> tls_frame E F s s2"
  by (simp add: tls_frame_def)

lemma core_simps [simp]:
  "core (count_stats f s) = core s" "core (s\<lparr>caches := cs\<rparr>) = core s" "core (set_cache k x s) = core s"
  "core (s\<lparr>double_push_guard_hits := n\<rparr>) = core s" "core (s\<lparr>bin_heal_events := n\<rparr>) = core s"
  "core (s\<lparr>cache_pool := l\<rparr>) = core s" "core (s\<lparr>fast_path_cache := f'\<rparr>) = core s" "core (s\<lparr>tls_specific := f'\<rparr>) = core s"
  "core (s\<lparr>key_init := b\<rparr>) = core s" "core (s\<lparr>next_arena := n\<rparr>) = core s"
  for s :: "'a tls_state_scheme"
  by (simp_all add: core_def count_stats_def set_cache_def)

lemma tls_frame_steps [simp]:
  "tls_frame E F s (count_stats f s)"
  "tls_frame E F s (s\<lparr>double_push_guard_hits := n\<rparr>)" "tls_frame E F s (s\<lparr>bin_heal_events := n\<rparr>)"
  "tls_frame E F s (set_cache k ((caches s k)\<lparr>local_stats := st\<rparr>) s)"
  by (simp_all add: tls_frame_def hub_def get_bin_def set_cache_def core_def count_stats_def)

lemma tls_frame_bins [simp]:
  "(k, c) \<in> E \<Longrightarrow> tls_frame E F s (set_bin k c b s)"
  "(k, i) \<in> F \<Longrightarrow> tls_frame E F s (set_large k i e s)"
  "(k, i) \<in> F \<Longrightarrow> tls_frame E F s (set_large_count k i n s)"
  by (auto simp: tls_frame_def hub_def get_bin_def set_bin_def set_large_def set_large_count_def set_cache_def core_def)

lemma frame_open:
  assumes ok: "tls_open api E F s g" and f: "tls_frame E F s s'"
  shows "tls_open api E F s' g" "moves (s, g) {} {} (s', g)"
proof -
  have c: "core s' = core s" and h: "hub s' = hub s" using f by (simp_all add: tls_frame_def)
  note o = tls_openD [OF ok] and m = coreD [OF c] hubD [OF h]
  have b: "bin_ok s' g k i = bin_ok s g k i" if "(k, i) \<notin> E" for k i
    using f that by (simp add: tls_frame_def bin_ok_def held_list_def m)
  have l: "lbin_ok s' g k i = lbin_ok s g k i" if "(k, i) \<notin> F" for k i
    using f that by (simp add: tls_frame_def lbin_ok_def m)
  have ar: "arena_index (caches s' k) = arena_index (caches s k)" for k using f by (simp add: tls_frame_def)
  have "gh_ok api {} s' (gV g)" "spans_ok api s' g" using o by (simp_all add: m spans_ok_def)
  moreover have "bins_ok E s' g" using o(3) by (simp add: bins_ok_def b)
  moreover have "lbins_ok F s' g" using o(4) by (simp add: lbins_ok_def l m)
  moreover have "hub_ok api s' g" using o(5) unfolding hub_ok_def m ar .
  ultimately show "tls_open api E F s' g" by (simp add: tls_open_def)
  show "moves (s, g) {} {} (s', g)" by (simp add: moves_def pieces_def user_blocks_def user_spans_def m)
qed

section \<open>Composition\<close>

lemma moves_refl [simp]: "moves x {} {} x"
  by (simp add: moves_def)

lemma movesD:
  assumes "moves x A B y"
  shows "pieces (snd y) (fst y) = pieces (snd x) (fst x) - A \<union> B"
    "u \<in> pieces (snd x) (fst x) - A \<Longrightarrow> piece_cells (snd y) (mem (fst y)) u = piece_cells (snd x) (mem (fst x)) u"
    "u \<in> pieces (snd x) (fst x) - A \<Longrightarrow> a \<in> piece_cells (snd x) (mem (fst x)) u \<Longrightarrow> mem (fst y) a = mem (fst x) a"
    "lock_busy (fst y) = lock_busy (fst x)" "pool_lock_busy (fst y) = pool_lock_busy (fst x)"
  using assms unfolding moves_def by blast+

lemma moves_comp:
  assumes m: "moves x A B y" "moves y C D z"
    and sub: "pieces (snd x) (fst x) - G \<subseteq> - A" "(pieces (snd x) (fst x) - G) \<inter> C = {}"
    and eq: "pieces (snd x) (fst x) - A \<union> B - C \<union> D = pieces (snd x) (fst x) - G \<union> H"
  shows "moves x G H z"
proof -
  note d1 = movesD [OF m(1)] and d2 = movesD [OF m(2)]
  have u: "u \<in> pieces (snd x) (fst x) - A" "u \<in> pieces (snd y) (fst y) - C" if "u \<in> pieces (snd x) (fst x) - G" for u
    using that sub d1(1) by blast+
  have "piece_cells (snd z) (mem (fst z)) u = piece_cells (snd x) (mem (fst x)) u
    \<and> (\<forall>a \<in> piece_cells (snd x) (mem (fst x)) u. mem (fst z) a = mem (fst x) a)" if "u \<in> pieces (snd x) (fst x) - G" for u
    using d1(2,3) [OF u(1) [OF that]] d2(2,3) [OF u(2) [OF that]] by auto
  moreover have "pieces (snd z) (fst z) = pieces (snd x) (fst x) - G \<union> H" using d1(1) d2(1) eq by simp
  ultimately show ?thesis using d1(4,5) d2(4,5) by (simp add: moves_def)
qed

lemma moves_trans:
  assumes "moves x A B y" "moves y C D z" "B \<inter> (pieces (snd x) (fst x) - A) = {}"
  shows "moves x (A \<union> (C - B)) ((B - C) \<union> D) z"
  by (rule moves_comp [OF assms(1,2)]) (use assms(3) in blast)+

lemma moves_after: "moves x A B y \<Longrightarrow> moves y {} {} z \<Longrightarrow> moves x A B z"
  by (erule moves_comp) auto

lemma moves_before: "moves x {} {} y \<Longrightarrow> moves y A B z \<Longrightarrow> moves x A B z"
  by (erule moves_comp) auto

section \<open>Opening and closing bins\<close>

lemma bin_unique:
  assumes "bins_ok E s g" "b \<in> set (gB g k c)" "b \<in> set (gB g k' c')"
  shows "k' = k \<and> c' = c"
  using bins_okD(3,4) [OF assms(1)] assms(2,3) by blast

lemma union_upd2: "x \<in> (\<Union>k' c'. set (upd2 f k c xs k' c')) \<longleftrightarrow> x \<in> set xs \<or> (\<exists>k' c'. \<not> (k' = k \<and> c' = c) \<and> x \<in> set (f k' c'))"
proof
  assume "x \<in> set xs \<or> (\<exists>k' c'. \<not> (k' = k \<and> c' = c) \<and> x \<in> set (f k' c'))"
  then show "x \<in> (\<Union>k' c'. set (upd2 f k c xs k' c'))"
  proof (elim disjE exE conjE)
    assume "x \<in> set xs"
    then have "x \<in> set (upd2 f k c xs k c)" by simp
    then show ?thesis by blast
  next
    fix k' c' assume "\<not> (k' = k \<and> c' = c)" "x \<in> set (f k' c')"
    then have "x \<in> set (upd2 f k c xs k' c')" by auto
    then show ?thesis by blast
  qed
qed (auto split: if_splits)

lemma binned_upd:
  assumes "bins_ok E s g"
  shows "binned (g\<lparr>gB := upd2 (gB g) k c xs\<rparr>) = binned g - set (gB g k c) \<union> set xs"
proof -
  have "x \<in> binned (g\<lparr>gB := upd2 (gB g) k c xs\<rparr>) \<longleftrightarrow> x \<in> binned g - set (gB g k c) \<union> set xs" for x
  proof -
    have "x \<in> binned (g\<lparr>gB := upd2 (gB g) k c xs\<rparr>) \<longleftrightarrow> x \<in> set xs \<or> (\<exists>k' c'. \<not> (k' = k \<and> c' = c) \<and> x \<in> set (gB g k' c'))"
      using union_upd2 [of x "gB g" k c xs] by (simp add: binned_def del: upd2_apply)
    moreover have "x \<in> binned g \<longleftrightarrow> (\<exists>k' c'. x \<in> set (gB g k' c'))" by (simp add: binned_def)
    ultimately show ?thesis using bin_unique [OF assms, of x k c] unfolding Un_iff Diff_iff by metis
  qed
  then show ?thesis by blast
qed

lemma pieces_bin:
  "pieces (g\<lparr>gB := f\<rparr>) s = Block ` (client (gV g) (mem s) - binned (g\<lparr>gB := f\<rparr>)) \<union> Span ` user_spans g s"
  by (simp add: pieces_def user_blocks_def user_spans_def parked_def)

lemma piece_cells_bin [simp]: "piece_cells (g\<lparr>gB := f\<rparr>) m u = piece_cells g m u" "piece_cells (g\<lparr>gE := f'\<rparr>) m u = piece_cells g m u"
  by (cases u; simp)+

lemma set_bin_list:
  assumes ok: "tls_open api E F s g" and kc: "k \<in> gK g" "c < NUM_SIZE_CLASSES"
    and E: "E' \<union> {(k, c)} = E \<union> {(k, c)}" and new: "if (k, c) \<in> E' then xs = [] else bin_ok s (g\<lparr>gB := upd2 (gB g) k c xs\<rparr>) k c"
    and dj: "set xs \<inter> (binned g - set (gB g k c)) = {}"
  shows "tls_open api E' F s (g\<lparr>gB := upd2 (gB g) k c xs\<rparr>)"
proof -
  let ?g = "g\<lparr>gB := upd2 (gB g) k c xs\<rparr>"
  note o = tls_openD [OF ok]
  have gs: "gX ?g = gX g" "gE ?g = gE g" "gK ?g = gK g" "gV ?g = gV g" "parked ?g = parked g" by (simp_all add: parked_def)
  have oth: "(q, d) \<in> E' \<longleftrightarrow> (q, d) \<in> E" if "\<not> (q = k \<and> d = c)" for q d using E that by blast
  have "bin_ok s ?g q d" if q: "q \<in> gK g" "d < NUM_SIZE_CLASSES" "(q, d) \<notin> E'" for q d
  proof (cases "q = k \<and> d = c")
    case True
    then show ?thesis using new q(3) by simp
  next
    case False
    then have "gB ?g q d = gB g q d" "bin_ok s g q d" using bins_okD(1) [OF o(3) q(1,2)] oth q(3) by auto
    then show ?thesis by (simp add: bin_ok_def del: upd2_apply)
  qed
  moreover have "gB ?g q d = []" if q: "q \<notin> gK g \<or> \<not> d < NUM_SIZE_CLASSES \<or> (q, d) \<in> E'" for q d
  proof (cases "q = k \<and> d = c")
    case True
    then show ?thesis using new kc q by (simp add: upd2_apply)
  next
    case False
    then have "gB ?g q d = gB g q d" "q \<notin> gK g \<or> \<not> d < NUM_SIZE_CLASSES \<or> (q, d) \<in> E" using oth q by auto
    then show ?thesis using o(3) unfolding bins_ok_def by metis
  qed
  moreover have "set (gB ?g q d) \<inter> set (gB ?g q' d) = {}" if "q \<noteq> q'" for q q' d
  proof -
    have n: "set xs \<inter> set (gB g r c) = {}" if "r \<noteq> k" for r
      using dj bin_unique [OF o(3), of _ r c k c] that binnedI [of _ g r c] by blast
    then have n': "set (gB g r c) \<inter> set xs = {}" if "r \<noteq> k" for r using that by blast
    show ?thesis
      using n [of q] n [of q'] n' [of q] bins_okD(3) [OF o(3) \<open>q \<noteq> q'\<close>, of d] \<open>q \<noteq> q'\<close> by (simp add: upd2_apply)
  qed
  ultimately have "bins_ok E' s ?g" by (simp add: bins_ok_def)
  moreover have "spans_ok api s ?g" using o(2) unfolding spans_ok_def gs .
  moreover have "lbins_ok F s ?g" using o(4) unfolding lbins_ok_def lbin_ok_def gs .
  moreover have "hub_ok api s ?g" using o(5) unfolding hub_ok_def gs .
  ultimately show ?thesis using o(1) by (simp add: tls_open_def)
qed

lemma open_bin:
  assumes ok: "tls_open api E F s g" and kc: "k \<in> gK g" "c < NUM_SIZE_CLASSES" "(k, c) \<notin> E"
  defines "g' \<equiv> g\<lparr>gB := upd2 (gB g) k c []\<rparr>"
  shows "tls_open api (insert (k, c) E) F s g'" "moves (s, g) {} (Block ` set (gB g k c)) (s, g')"
    "Block ` set (gB g k c) \<inter> pieces g s = {}" "binned g' = binned g - set (gB g k c)"
    "set (gB g k c) \<subseteq> client (gV g) (mem s)"
proof -
  note o = tls_openD [OF ok]
  show "tls_open api (insert (k, c) E) F s g'"
    unfolding g'_def by (rule set_bin_list [OF ok kc(1,2)]) auto
  show b: "binned g' = binned g - set (gB g k c)" using binned_upd [OF o(3), of k c "[]"] by (simp add: g'_def del: upd2_apply)
  show cl: "set (gB g k c) \<subseteq> client (gV g) (mem s)" using bins_okD(5) [OF o(3)] binnedI by blast
  show "Block ` set (gB g k c) \<inter> pieces g s = {}" using binnedI [of _ g k c] by (auto simp: pieces_def user_blocks_def)
  have "pieces g' s = pieces g s \<union> Block ` set (gB g k c)"
    using cl b binnedI [of _ g k c] unfolding g'_def pieces_bin by (auto simp: pieces_def user_blocks_def)
  then show "moves (s, g) {} (Block ` set (gB g k c)) (s, g')" by (simp add: moves_def g'_def)
qed

lemma close_bin:
  assumes ok: "tls_open api (insert (k, c) E) F s g" and kc: "k \<in> gK g" "c < NUM_SIZE_CLASSES" "(k, c) \<notin> E"
    and xs: "held_list c s (gV g) (bin_head (get_bin k c s)) xs" "set xs \<inter> binned g = {}"
    and n: "bin_count (get_bin k c s) = length xs" "length xs < CACHE_LIMITS ! c"
      "bin_next_refill (get_bin k c s) \<le> CACHE_LIMITS ! c div 2"
  defines "g' \<equiv> g\<lparr>gB := upd2 (gB g) k c xs\<rparr>"
  shows "tls_open api E F s g'" "moves (s, g) (Block ` set xs) {} (s, g')"
proof -
  note o = tls_openD [OF ok]
  have e: "gB g k c = []" by (rule bins_okD(6) [OF o(3)]) simp
  show "tls_open api E F s g'"
    unfolding g'_def by (rule set_bin_list [OF ok kc(1,2)]) (use kc(3) xs n in \<open>auto simp: bin_ok_def\<close>)
  have "binned g' = binned g \<union> set xs" using binned_upd [OF o(3), of k c xs] e by (simp add: g'_def del: upd2_apply)
  then have "pieces g' s = pieces g s - Block ` set xs"
    unfolding g'_def pieces_bin by (auto simp: pieces_def user_blocks_def)
  then show "moves (s, g) (Block ` set xs) {} (s, g')" by (simp add: moves_def g'_def)
qed

section \<open>Opening and closing large bins\<close>

lemma lbin_unique:
  assumes "lbins_ok F s g" "b \<in> set (gE g k c)" "b \<in> set (gE g k' c')"
  shows "k' = k \<and> c' = c"
  using lbins_okD(3,4) [OF assms(1)] assms(2,3) by blast

lemma parked_upd:
  assumes "lbins_ok F s g"
  shows "parked (g\<lparr>gE := upd2 (gE g) k c xs\<rparr>) = parked g - set (gE g k c) \<union> set xs"
proof -
  have "x \<in> parked (g\<lparr>gE := upd2 (gE g) k c xs\<rparr>) \<longleftrightarrow> x \<in> parked g - set (gE g k c) \<union> set xs" for x
  proof -
    have "x \<in> parked (g\<lparr>gE := upd2 (gE g) k c xs\<rparr>) \<longleftrightarrow> x \<in> set xs \<or> (\<exists>k' c'. \<not> (k' = k \<and> c' = c) \<and> x \<in> set (gE g k' c'))"
      using union_upd2 [of x "gE g" k c xs] by (simp add: parked_def del: upd2_apply)
    moreover have "x \<in> parked g \<longleftrightarrow> (\<exists>k' c'. x \<in> set (gE g k' c'))" by (simp add: parked_def)
    ultimately show ?thesis using lbin_unique [OF assms, of x k c] unfolding Un_iff Diff_iff by metis
  qed
  then show ?thesis by blast
qed

lemma parked_dom:
  assumes "tls_open api E F s g"
  shows "parked g \<subseteq> dom (gX g)" "gK g \<union> set (cache_pool s) \<subseteq> dom (gX g)"
  using lbins_okD(4) [OF tls_openD(4) [OF assms]] tls_openD(5) [OF assms] unfolding parked_def hub_ok_def by blast+

lemma pieces_lbin:
  "pieces (g\<lparr>gE := f\<rparr>) s = Block ` user_blocks g s \<union> Span ` (dom (gX g) - gK g - set (cache_pool s) - parked (g\<lparr>gE := f\<rparr>))"
  by (simp add: pieces_def user_blocks_def user_spans_def binned_def)

lemma set_lbin_list:
  assumes ok: "tls_open api E F s g" and kc: "k \<in> gK g" "c < NUM_LARGE_CLASSES"
    and F: "F' \<union> {(k, c)} = F \<union> {(k, c)}" and new: "if (k, c) \<in> F' then xs = [] else lbin_ok s (g\<lparr>gE := upd2 (gE g) k c xs\<rparr>) k c"
    and dj: "set xs \<inter> (parked g - set (gE g k c)) = {}" and hub: "set xs \<inter> (gK g \<union> set (cache_pool s)) = {}"
  shows "tls_open api E F' s (g\<lparr>gE := upd2 (gE g) k c xs\<rparr>)"
proof -
  let ?g = "g\<lparr>gE := upd2 (gE g) k c xs\<rparr>"
  note o = tls_openD [OF ok]
  have gs: "gX ?g = gX g" "gB ?g = gB g" "gK ?g = gK g" "gV ?g = gV g" by simp_all
  have oth: "(q, d) \<in> F' \<longleftrightarrow> (q, d) \<in> F" if "\<not> (q = k \<and> d = c)" for q d using F that by blast
  have "lbin_ok s ?g q d" if q: "q \<in> gK g" "d < NUM_LARGE_CLASSES" "(q, d) \<notin> F'" for q d
  proof (cases "q = k \<and> d = c")
    case True
    then show ?thesis using new q(3) by simp
  next
    case False
    then have "gE ?g q d = gE g q d" "lbin_ok s g q d" using lbins_okD(1) [OF o(4) q(1,2)] oth q(3) by auto
    then show ?thesis unfolding lbin_ok_def gs by metis
  qed
  moreover have "gE ?g q d = []" if q: "q \<notin> gK g \<or> \<not> d < NUM_LARGE_CLASSES \<or> (q, d) \<in> F'" for q d
  proof (cases "q = k \<and> d = c")
    case True
    then show ?thesis using new kc q by (simp add: upd2_apply)
  next
    case False
    then have "gE ?g q d = gE g q d" "q \<notin> gK g \<or> \<not> d < NUM_LARGE_CLASSES \<or> (q, d) \<in> F" using oth q by auto
    then show ?thesis using o(4) unfolding lbins_ok_def by metis
  qed
  moreover have "set (gE ?g q d) \<inter> set (gE ?g q' d) = {}" if "q \<noteq> q'" for q q' d
  proof -
    have n: "set xs \<inter> set (gE g r c) = {}" if "r \<noteq> k" for r
      using dj lbin_unique [OF o(4), of _ r c k c] that parkedI [of _ g r c] by blast
    then have n': "set (gE g r c) \<inter> set xs = {}" if "r \<noteq> k" for r using that by blast
    show ?thesis
      using n [of q] n [of q'] n' [of q] lbins_okD(3) [OF o(4) \<open>q \<noteq> q'\<close>, of d] \<open>q \<noteq> q'\<close> by (simp add: upd2_apply)
  qed
  moreover have "parked ?g \<inter> (gK g \<union> set (cache_pool s)) = {}"
    using lbins_okD(5) [OF o(4)] hub unfolding parked_upd [OF o(4)] by blast
  ultimately have "lbins_ok F' s ?g" unfolding lbins_ok_def gs by blast
  moreover have "spans_ok api s ?g" using o(2) unfolding spans_ok_def gs .
  moreover have "bins_ok E s ?g" using o(3) unfolding bins_ok_def bin_ok_def gs .
  moreover have "hub_ok api s ?g" using o(5) unfolding hub_ok_def gs .
  ultimately show ?thesis using o(1) by (simp add: tls_open_def)
qed

lemma open_lbin:
  assumes ok: "tls_open api E F s g" and kc: "k \<in> gK g" "c < NUM_LARGE_CLASSES" "(k, c) \<notin> F"
  defines "g' \<equiv> g\<lparr>gE := upd2 (gE g) k c []\<rparr>"
  shows "tls_open api E (insert (k, c) F) s g'" "moves (s, g) {} (Span ` set (gE g k c)) (s, g')"
    "Span ` set (gE g k c) \<inter> pieces g s = {}" "parked g' = parked g - set (gE g k c)"
    "set (gE g k c) \<inter> (gK g \<union> set (cache_pool s)) = {}"
proof -
  note o = tls_openD [OF ok]
  show "tls_open api E (insert (k, c) F) s g'"
    unfolding g'_def by (rule set_lbin_list [OF ok kc(1,2)]) auto
  show b: "parked g' = parked g - set (gE g k c)" using parked_upd [OF o(4), of k c "[]"] by (simp add: g'_def del: upd2_apply)
  show h: "set (gE g k c) \<inter> (gK g \<union> set (cache_pool s)) = {}" using lbins_okD(5) [OF o(4)] parkedI by blast
  show "Span ` set (gE g k c) \<inter> pieces g s = {}" using parkedI [of _ g k c] by (auto simp: pieces_def user_spans_def)
  have "set (gE g k c) \<subseteq> dom (gX g)" using parked_dom(1) [OF ok] parkedI by blast
  then have "pieces g' s = pieces g s \<union> Span ` set (gE g k c)"
    using h b parkedI [of _ g k c] unfolding g'_def pieces_lbin by (auto simp: pieces_def user_spans_def)
  then show "moves (s, g) {} (Span ` set (gE g k c)) (s, g')" by (simp add: moves_def g'_def)
qed

lemma close_lbin:
  assumes ok: "tls_open api E (insert (k, c) F) s g" and kc: "k \<in> gK g" "c < NUM_LARGE_CLASSES" "(k, c) \<notin> F"
    and xs: "chain (le_next (mem s)) (large_free_bins (caches s k) c) xs" "Span ` set xs \<subseteq> pieces g s"
      "\<And>e. e \<in> set xs \<Longrightarrow> gX g e = Some (lh_alloc_size (mem s) e) \<and> LargeSizeToClass (lh_alloc_size (mem s) e) = c"
    and n: "large_counts (caches s k) c = length xs" "length xs \<le> 64"
  defines "g' \<equiv> g\<lparr>gE := upd2 (gE g) k c xs\<rparr>"
  shows "tls_open api E F s g'" "moves (s, g) (Span ` set xs) {} (s, g')"
proof -
  note o = tls_openD [OF ok]
  have u: "set xs \<subseteq> dom (gX g) - gK g - set (cache_pool s) - parked g" using xs(2) by (auto simp: pieces_def user_spans_def)
  have e: "gE g k c = []" by (rule lbins_okD(6) [OF o(4)]) simp
  have "lbin_ok s g' k c" using xs(1,3) n unfolding lbin_ok_def g'_def by simp
  then show "tls_open api E F s g'"
    unfolding g'_def by (intro set_lbin_list [OF ok kc(1,2)]) (use kc(3) u in auto)
  have "parked g' = parked g \<union> set xs" using parked_upd [OF o(4), of k c xs] e by (simp add: g'_def del: upd2_apply)
  then have "pieces g' s = pieces g s - Span ` set xs"
    unfolding g'_def pieces_lbin by (auto simp: pieces_def user_spans_def)
  then show "moves (s, g) (Span ` set xs) {} (s, g')" by (simp add: moves_def g'_def)
qed

section \<open>Spans that come and go\<close>

lemma piece_span: "Span p \<in> pieces g s \<longleftrightarrow> p \<in> dom (gX g) \<and> p \<notin> gK g \<and> p \<notin> set (cache_pool s) \<and> p \<notin> parked g"
  by (auto simp: pieces_def user_spans_def)

lemma piece_block: "Block b \<in> pieces g s \<longleftrightarrow> b \<in> client (gV g) (mem s) \<and> b \<notin> binned g"
  by (auto simp: pieces_def user_blocks_def)

lemma set_span:
  assumes ok: "tls_open api E F s g" and p: "p \<notin> gK g" "p \<notin> set (cache_pool s)" "p \<notin> parked g"
    and v: "\<And>n. v = Some n \<Longrightarrow> ext api s (gV g) p n" "\<And>n q k. v = Some n \<Longrightarrow> gX g q = Some k \<Longrightarrow> q \<noteq> p \<Longrightarrow> {q..<q + k} \<inter> {p..<p + n} = {}"
  shows "tls_open api E F s (g\<lparr>gX := (gX g)(p := v)\<rparr>)"
proof -
  let ?g = "g\<lparr>gX := (gX g)(p := v)\<rparr>"
  note o = tls_openD [OF ok]
  have gs: "gE ?g = gE g" "gB ?g = gB g" "gK ?g = gK g" "gV ?g = gV g" "parked ?g = parked g" by (simp_all add: parked_def)
  have x: "gX ?g q = gX g q" if "q \<noteq> p" for q using that by simp
  have "spans_ok api s ?g"
    unfolding spans_ok_def gs
  proof (intro conjI allI impI)
    show "ext api s (gV g) q n" if "gX ?g q = Some n" for q n
      using that v(1) spans_okD(1) [OF o(2), of q n] by (cases "q = p") auto
    show "{q..<q + n} \<inter> {r..<r + k} = {}" if "gX ?g q = Some n \<and> gX ?g r = Some k \<and> q \<noteq> r" for q r n k
      using that v(2) [of n r k] v(2) [of k q n] spans_okD(2) [OF o(2), of q n r k]
      by (cases "q = p"; cases "r = p") auto
  qed
  moreover have "lbin_ok s ?g q i" if "q \<in> gK g" "i < NUM_LARGE_CLASSES" "(q, i) \<notin> F" for q i
  proof -
    have "gX ?g e = gX g e" if "e \<in> set (gE g q i)" for e using that p(3) parkedI by (intro x) blast
    then show ?thesis using lbins_okD(1) [OF o(4) that] unfolding lbin_ok_def gs by simp
  qed
  then have "lbins_ok F s ?g" using o(4) unfolding lbins_ok_def gs by blast
  moreover have "bins_ok E s ?g" using o(3) unfolding bins_ok_def bin_ok_def gs .
  moreover have "hub_ok api s ?g"
  proof -
    have "\<forall>k \<in> gK g \<union> set (cache_pool s). gX ?g k = gX g k" using p by auto
    then show ?thesis using o(5) unfolding hub_ok_def gs by metis
  qed
  ultimately show ?thesis using o(1) by (simp add: tls_open_def)
qed

lemma drop_span:
  assumes ok: "tls_open api E F s g" and p: "Span p \<in> pieces g s"
  defines "g' \<equiv> g\<lparr>gX := (gX g)(p := None)\<rparr>"
  shows "tls_open api E F s g'" "moves (s, g) {Span p} {} (s, g')"
proof -
  note u = p [unfolded piece_span]
  show "tls_open api E F s g'" unfolding g'_def by (rule set_span [OF ok]) (use u in auto)
  have "pieces g' s = pieces g s - {Span p}"
    by (auto simp: pieces_def user_blocks_def user_spans_def binned_def parked_def g'_def)
  moreover have "piece_cells g' (mem s) u = piece_cells g (mem s) u" if "u \<noteq> Span p" for u
    using that by (cases u) (auto simp: g'_def)
  ultimately show "moves (s, g) {Span p} {} (s, g')" by (auto simp: moves_def)
qed

lemma add_span:
  assumes ok: "tls_open api E F s g" and p: "p \<notin> dom (gX g)" and e: "ext api s (gV g) p n"
    and dj: "\<And>q k. gX g q = Some k \<Longrightarrow> {q..<q + k} \<inter> {p..<p + n} = {}"
  defines "g' \<equiv> g\<lparr>gX := (gX g)(p \<mapsto> n)\<rparr>"
  shows "tls_open api E F s g'" "moves (s, g) {} {Span p} (s, g')"
proof -
  have u: "p \<notin> gK g" "p \<notin> set (cache_pool s)" "p \<notin> parked g" using parked_dom [OF ok] p by blast+
  show "tls_open api E F s g'" unfolding g'_def by (rule set_span [OF ok u]) (use e dj in auto)
  have "pieces g' s = pieces g s \<union> {Span p}" using u
    by (auto simp: pieces_def user_blocks_def user_spans_def binned_def parked_def g'_def)
  moreover have "piece_cells g' (mem s) u = piece_cells g (mem s) u" if "u \<in> pieces g s" for u
    using that p by (cases u) (auto simp: g'_def pieces_def user_spans_def)
  ultimately show "moves (s, g) {} {Span p} (s, g')" by (auto simp: moves_def)
qed

text \<open>The user, or the cache on the way in and out, writes a span or a block it holds.\<close>

lemma span_size:
  assumes "tls_open api E F s g" "Span p \<in> pieces g s"
  obtains n where "gX g p = Some n" "ext api s (gV g) p n" "piece_cells g m (Span p) = {p..<p + n}"
  using spans_okD(1) [OF tls_openD(2) [OF assms(1)]] assms(2) by (auto simp: piece_span)

lemma write_span:
  fixes s :: "'a tls_state_scheme"
  assumes spec: "os_spec api" and ok: "tls_open api E F s g" and p: "Span p \<in> pieces g s" and n: "gX g p = Some n"
    and w: "\<And>a. a \<notin> {p..<p + n} \<Longrightarrow> f (mem s) a = mem s a"
  shows "tls_open api E F (upd_mem f s) g" "moves (s, g) {Span p} {Span p} (upd_mem f s, g)"
proof -
  let ?g = "g\<lparr>gX := (gX g)(p := None)\<rparr>"
  note o = tls_openD [OF ok] and d = drop_span [OF ok p]
  have e: "ext api s (gV g) p n" by (rule spans_okD(1) [OF o(2) n])
  note a = ext_write [where f = f, OF o(1) e w]
  have R: "{q..<q + k} \<inter> {p..<p + n} = {}" if "gX ?g q = Some k" for q k
    using that n spans_okD(2) [OF o(2)] by (cases "q = p") auto
  have a1: "accounts_but {p..<p + n} api s (gV ?g) {} {} (upd_mem f s) (gV g)" using a(1) by simp
  have v: "?g\<lparr>gV := gV g\<rparr> = ?g" by (cases g) simp
  note h = heap_open(1) [OF spec d(1) a1 Int_empty_left R, unfolded v]
    and m = heap_moves [OF spec d(1) a1 Int_empty_left Int_empty_left R, unfolded v image_empty]
  have i: "p \<notin> dom (gX ?g)" "ext api (upd_mem f s) (gV ?g) p n" using a(2) by simp_all
  have g: "?g\<lparr>gX := (gX ?g)(p \<mapsto> n)\<rparr> = g" using n by (cases g) (auto simp: fun_eq_iff)
  note b = add_span [OF h i R, unfolded g]
  show "tls_open api E F (upd_mem f s) g" by (rule b(1))
  show "moves (s, g) {Span p} {Span p} (upd_mem f s, g)"
    by (rule moves_comp [OF moves_after [OF d(2) m] b(2)]) (use p in auto)
qed

lemma write_block:
  fixes s :: "'a tls_state_scheme"
  assumes spec: "os_spec api" and ok: "tls_open api E F s g" and b: "Block b \<in> pieces g s"
    and w: "\<And>a. a \<notin> {b + 16..<b + ClassIndexToSize (fb_class_index (mem s) b)} \<Longrightarrow> f (mem s) a = mem s a"
  shows "tls_open api E F (upd_mem f s) g" "moves (s, g) {Block b} {Block b} (upd_mem f s, g)"
    "accounts api s (gV g) {b} {b} (upd_mem f s) (gV g)"
proof -
  note o = tls_openD [OF ok] and u = b [unfolded piece_block]
  note c = client_write [OF o(1) conjunct1 [OF u] w]
  show a: "accounts api s (gV g) {b} {b} (upd_mem f s) (gV g)"
    using c u by (auto simp: accounts_def upd_mem_def)
  have v: "g\<lparr>gV := gV g\<rparr> = g" by simp
  have "{b} \<inter> binned g = {}" using u by simp
  note h = heap_open(1) [OF spec ok a this Int_empty_right] heap_moves [OF spec ok a this this Int_empty_right]
  show "tls_open api E F (upd_mem f s) g" "moves (s, g) {Block b} {Block b} (upd_mem f s, g)"
    using h unfolding v by simp_all
qed

lemma link_block:
  fixes s :: "'a tls_state_scheme"
  assumes spec: "os_spec api" and ok: "tls_open api E F s g" and b: "Block b \<in> pieces g s"
  shows "tls_open api E F (upd_mem (set_fb_next b v) s) g" "moves (s, g) {Block b} {Block b} (upd_mem (set_fb_next b v) s, g)"
    "accounts api s (gV g) {b} {b} (upd_mem (set_fb_next b v) s) (gV g)"
proof -
  have "b + 16 \<in> bcells (mem s) b" using client_facts(5) [OF spec tls_openD(1) [OF ok]] b by (simp add: piece_block)
  then have "set_fb_next b v (mem s) a = mem s a" if "a \<notin> {b + 16..<b + ClassIndexToSize (fb_class_index (mem s) b)}" for a
    using that by (auto simp: cells bcells_def)
  from write_block [where f = "set_fb_next b v", OF spec ok b this]
  show "tls_open api E F (upd_mem (set_fb_next b v) s) g" "moves (s, g) {Block b} {Block b} (upd_mem (set_fb_next b v) s, g)"
    "accounts api s (gV g) {b} {b} (upd_mem (set_fb_next b v) s) (gV g)" by blast+
qed

end
