(* ===== verification/FA_TLSOps.thy ===== *)
theory FA_TLSOps
  imports FA_TLSInv
begin

text \<open>
  The operations of the thread cache keep its invariant and account for the pieces the user holds.
  Each one opens a bin, works on the global heap with the blocks of that bin in hand, and closes the
  bin on a new list: \<open>bin_txn\<close> and \<open>lbin_txn\<close> are that scheme. \<open>block_filed\<close> and \<open>span_filed\<close> say where in the
  state a piece is that was given back.
\<close>

section \<open>Transactions on a bin\<close>

definition tls_step :: "os_api \<Rightarrow> (addr \<times> nat) set \<Rightarrow> (addr \<times> nat) set \<Rightarrow> 'a tls_state_scheme \<Rightarrow> ghost \<Rightarrow>
    piece set \<Rightarrow> piece set \<Rightarrow> 'a tls_state_scheme \<Rightarrow> ghost \<Rightarrow> bool" where
  "tls_step api E F s g gone come s' g' \<longleftrightarrow> tls_open api E F s' g' \<and> moves (s, g) gone come (s', g') \<and> hub s' = hub s \<and> gK g' = gK g
     \<and> (\<forall>k. arena_index (caches s' k) = arena_index (caches s k))"

abbreviation tls_op :: "os_api \<Rightarrow> 'a tls_state_scheme \<Rightarrow> ghost \<Rightarrow> piece set \<Rightarrow> piece set \<Rightarrow> 'a tls_state_scheme \<Rightarrow> ghost \<Rightarrow> bool" where
  "tls_op api \<equiv> tls_step api {} {}"

lemma tls_opD:
  assumes "tls_step api E F s g A B s' g'"
  shows "tls_open api E F s' g'" "moves (s, g) A B (s', g')" "hub s' = hub s" "gK g' = gK g"
    "arena_index (caches s' k) = arena_index (caches s k)" "pieces g' s' = pieces g s - A \<union> B"
    "lock_busy s' = lock_busy s"
  using assms movesD(1,4) [of "(s, g)" A B "(s', g')"] by (simp_all add: tls_step_def)

lemma tls_opI:
  assumes "tls_open api E F s' g'" "moves (s, g) A B (s', g')" "hub s' = hub s" "gK g' = gK g"
    "\<And>k. arena_index (caches s' k) = arena_index (caches s k)"
  shows "tls_step api E F s g A B s' g'"
  using assms by (simp add: tls_step_def)

lemma tls_op_refl: "tls_open api E F s g \<Longrightarrow> tls_step api E F s g {} {} s g"
  by (simp add: tls_opI)

lemma tls_op_comp:
  assumes "tls_step api E F s g A B s1 g1" "tls_step api E' F' s1 g1 C D s2 g2"
    and "pieces g s - G \<subseteq> - A" "(pieces g s - G) \<inter> C = {}" "pieces g s - A \<union> B - C \<union> D = pieces g s - G \<union> H"
  shows "tls_step api E' F' s g G H s2 g2"
  using tls_opD [OF assms(1)] tls_opD [OF assms(2)] moves_comp [OF tls_opD(2) [OF assms(1)] tls_opD(2) [OF assms(2)], of G H] assms(3-5)
  by (intro tls_opI) simp_all

lemma tls_op_after: "tls_step api E F s g A B s1 g1 \<Longrightarrow> tls_step api E' F' s1 g1 {} {} s2 g2 \<Longrightarrow> tls_step api E' F' s g A B s2 g2"
  by (erule tls_op_comp) auto

lemma tls_op_before: "tls_step api E F s g {} {} s1 g1 \<Longrightarrow> tls_step api E' F' s1 g1 A B s2 g2 \<Longrightarrow> tls_step api E' F' s g A B s2 g2"
  by (erule tls_op_comp) auto

lemma tls_op_cong:
  assumes "tls_step api E F s g A B s' g'" "pieces g s \<inter> A' = pieces g s \<inter> A"
  shows "tls_step api E F s g A' B s' g'"
proof -
  have "pieces g s - A' = pieces g s - A" using assms(2) by blast
  then show ?thesis using assms(1) by (simp add: tls_step_def moves_def)
qed

lemma frame_op:
  assumes "tls_open api E F s g" "tls_frame E F s s'"
  shows "tls_step api E F s g {} {} s' g"
  using frame_open [OF assms] assms(2) by (intro tls_opI) (simp_all add: tls_frame_def)

lemma upd_mem_hub [simp]: "hub (upd_mem f s) = hub s" "caches (upd_mem f s) = caches s" "mem (upd_mem f s) = f (mem s)"
  by (simp_all add: hub_def upd_mem_def)

lemma heap_op:
  fixes s :: "'a tls_state_scheme"
  assumes "os_spec api" "tls_open api E F s g" "accounts_but R api s (gV g) A B s' V'"
    and "A \<inter> binned g = {}" "B \<inter> binned g = {}" "\<And>p n. gX g p = Some n \<Longrightarrow> {p..<p + n} \<inter> R = {}"
  shows "tls_step api E F s g (Block ` A) (Block ` B) s' (g\<lparr>gV := V'\<rparr>)"
  using heap_open(1) [OF assms(1-4,6)] heap_moves [OF assms] env_hub [OF accounts_env [OF assms(3)]] env_tls(1) [OF accounts_env [OF assms(3)]]
  by (intro tls_opI) simp_all

lemma write_span_op:
  assumes "os_spec api" "tls_open api E F s g" "Span p \<in> pieces g s" "gX g p = Some n" "\<And>a. a \<notin> {p..<p + n} \<Longrightarrow> f (mem s) a = mem s a"
  shows "tls_step api E F s g {Span p} {Span p} (upd_mem f s) g"
  by (rule tls_opI) (use write_span [where f = f, OF assms] in simp_all)

lemma write_block_op:
  assumes "os_spec api" "tls_open api E F s g" "Block b \<in> pieces g s"
    and "\<And>a. a \<notin> {b + 16..<b + ClassIndexToSize (fb_class_index (mem s) b)} \<Longrightarrow> f (mem s) a = mem s a"
  shows "tls_step api E F s g {Block b} {Block b} (upd_mem f s) g"
  by (rule tls_opI) (use write_block [where f = f, OF assms] in simp_all)

lemma bin_txn:
  fixes s :: "'a tls_state_scheme"
  assumes spec: "os_spec api" and ok: "tls_ok api s g" and kc: "k \<in> gK g" "c < NUM_SIZE_CLASSES"
    and f0: "tls_frame {(k, c)} {} s s0" and acc: "accounts api s0 (gV g) A B s1 V1" and f1: "tls_frame {(k, c)} {} s1 s2"
    and A: "A \<inter> (binned g - set (gB g k c)) = {}" and B: "B \<inter> (binned g - set (gB g k c)) = {}"
    and xs: "held_list c s1 V1 (bin_head (get_bin k c s2)) xs" "set xs \<inter> (binned g - set (gB g k c)) = {}"
    and n: "bin_count (get_bin k c s2) = length xs" "length xs < CACHE_LIMITS ! c"
      "bin_next_refill (get_bin k c s2) \<le> CACHE_LIMITS ! c div 2"
  shows "tls_op api s g (Block ` ((A \<union> set xs) - set (gB g k c))) (Block ` (set (gB g k c) - A \<union> B - set xs)) s2
    (g\<lparr>gV := V1, gB := upd2 (gB g) k c xs\<rparr>)"
proof -
  let ?g1 = "g\<lparr>gB := upd2 (gB g) k c []\<rparr>" and ?g2 = "g\<lparr>gV := V1, gB := upd2 (gB g) k c []\<rparr>"
    and ?g3 = "g\<lparr>gV := V1, gB := upd2 (gB g) k c xs\<rparr>"
  note op = open_bin [OF ok kc, simplified]
  note fr = frame_open [OF op(1) f0]
  have eqs: "?g1\<lparr>gV := V1\<rparr> = ?g2" "?g2\<lparr>gB := upd2 (gB ?g2) k c xs\<rparr> = ?g3"
    by (simp_all add: upd2_def)
  have a1: "accounts api s0 (gV ?g1) A B s1 V1" using acc by simp
  have A1: "A \<inter> binned ?g1 = {}" and B1: "B \<inter> binned ?g1 = {}" unfolding op(4) using A B by blast+
  note h = heap_open(1) [OF spec fr(1) a1 A1 Int_empty_right, unfolded eqs]
    and hm = heap_moves [OF spec fr(1) a1 A1 B1 Int_empty_right, unfolded eqs]
  note fr2 = frame_open [OF h f1]
  have m2: "mem s2 = mem s1" using f1 coreD(1) by (auto simp: tls_frame_def)
  have bb: "binned ?g2 = binned g - set (gB g k c)" using op(4) by (simp add: binned_def)
  have cl: "held_list c s2 (gV ?g2) (bin_head (get_bin k c s2)) xs" "set xs \<inter> binned ?g2 = {}"
    using xs by (simp_all add: held_list_def m2 bb)
  have kg: "k \<in> gK ?g2" using kc(1) by simp
  note z = close_bin [OF fr2(1) kg kc(2) _ cl n, simplified, unfolded eqs(2)]
  show ?thesis
  proof (rule tls_opI)
    show "tls_ok api s2 ?g3" using z(1) by (simp add: upd2_def)
    have "moves (s, g) {} (Block ` set (gB g k c)) (s0, ?g1)" by (rule moves_after [OF op(2) fr(2)])
    then have "moves (s, g) (Block ` (A - set (gB g k c))) (Block ` (set (gB g k c) - A \<union> B)) (s1, ?g2)"
      by (rule moves_comp [OF _ hm]) (use op(3) in auto)
    from moves_after [OF this fr2(2)] have "moves (s, g) (Block ` (A - set (gB g k c))) (Block ` (set (gB g k c) - A \<union> B)) (s2, ?g2)" .
    then show "moves (s, g) (Block ` ((A \<union> set xs) - set (gB g k c))) (Block ` (set (gB g k c) - A \<union> B - set xs)) (s2, ?g3)"
      by (rule moves_comp) (use z(2) op(3) in \<open>auto simp: upd2_def\<close>)
    show "hub s2 = hub s" using f0 f1 env_hub [OF accounts_env [OF acc]] by (simp add: tls_frame_def)
    show "arena_index (caches s2 q) = arena_index (caches s q)" for q
      using f0 f1 env_tls(1) [OF accounts_env [OF acc]] by (simp add: tls_frame_def)
  qed simp
qed

section \<open>Taking a block\<close>

lemma refill_plan_bounds:
  assumes "c < NUM_SIZE_CLASSES" "refill_plan c r = (target, ramp)"
  shows "1 \<le> target" "target \<le> CACHE_LIMITS ! c div 2" "ramp = min (target * 2) (CACHE_LIMITS ! c div 2)" "r \<noteq> 0 \<Longrightarrow> target \<le> r"
proof -
  have "CACHE_LIMITS ! c div 2 \<le> 8192" "256 \<le> CACHE_LIMITS ! c div 2" using CACHE_LIMITS_bounds [OF assms(1)] by linarith+
  then show "1 \<le> target" "target \<le> CACHE_LIMITS ! c div 2" "ramp = min (target * 2) (CACHE_LIMITS ! c div 2)" "r \<noteq> 0 \<Longrightarrow> target \<le> r"
    using assms(2) by (auto simp: refill_plan_def Let_def min_def split: if_splits)
qed

lemma get_set_bin [simp]:
  "get_bin k c (set_bin k c b s) = b" "get_bin k c (count_stats f s) = get_bin k c s"
  "mem (set_bin k c b s) = mem s" "arena_index (caches (set_bin k c b s) q) = arena_index (caches s q)"
  "lock_busy (set_bin k c b s) = lock_busy s"
  by (simp_all add: get_bin_def set_bin_def set_cache_def count_stats_def)

lemma bin_okD:
  assumes spec: "os_spec api" and ok: "tls_ok api s g" and kc: "k \<in> gK g" "c < NUM_SIZE_CLASSES"
  shows "held_list c s (gV g) (bin_head (get_bin k c s)) (gB g k c)" "bin_count (get_bin k c s) = length (gB g k c)"
    "length (gB g k c) < CACHE_LIMITS ! c" "bin_next_refill (get_bin k c s) \<le> CACHE_LIMITS ! c div 2"
    "bin_head (get_bin k c s) \<noteq> 0 \<longleftrightarrow> gB g k c \<noteq> []" "bin_head (get_bin k c s) \<noteq> 0 \<longleftrightarrow> IsPlausibleHeapPtr (bin_head (get_bin k c s))"
proof -
  note o = tls_openD [OF ok]
  show b: "held_list c s (gV g) (bin_head (get_bin k c s)) (gB g k c)" "bin_count (get_bin k c s) = length (gB g k c)"
    "length (gB g k c) < CACHE_LIMITS ! c" "bin_next_refill (get_bin k c s) \<le> CACHE_LIMITS ! c div 2"
    using bins_okD(1) [OF o(3) kc] by (simp_all add: bin_ok_def)
  show "bin_head (get_bin k c s) \<noteq> 0 \<longleftrightarrow> gB g k c \<noteq> []" "bin_head (get_bin k c s) \<noteq> 0 \<longleftrightarrow> IsPlausibleHeapPtr (bin_head (get_bin k c s))"
    using held_plausible_head [OF spec o(1) b(1)] not_plausible_null by metis+
qed

lemma held_list_Cons: "held_list c s V h (x # xs) \<longleftrightarrow> h = x \<and> x \<noteq> 0 \<and> x \<in> client V (mem s) \<and> fb_class_index (mem s) x = c \<and> held_list c s V (fb_next (mem s) x) xs"
  by (auto simp: held_list_def)

lemma limits_small:
  assumes "c < NUM_SIZE_CLASSES" "n < CACHE_LIMITS ! c"
  shows "n < 2 ^ 32" "n < 2 ^ 64"
  using CACHE_LIMITS_bounds [OF assms(1)] assms(2) by simp_all

text \<open>What an allocation of class \<open>c\<close> gives: null and no change, or a block the user did not hold.\<close>

definition got_block :: "os_api \<Rightarrow> nat \<Rightarrow> 'a tls_state_scheme \<Rightarrow> ghost \<Rightarrow> addr \<Rightarrow> 'a tls_state_scheme \<Rightarrow> ghost \<Rightarrow> bool" where
  "got_block api c s g b s' g' \<longleftrightarrow> (if b = 0 then tls_op api s g {} {} s' g'
     else tls_op api s g {} {Block b} s' g' \<and> Block b \<notin> pieces g s \<and> fb_class_index (mem s') b = c \<and> IsPlausibleHeapPtr b)"

lemma pop_bin:
  fixes s :: "'a tls_state_scheme"
  assumes spec: "os_spec api" and ok: "tls_ok api s g" and kc: "k \<in> gK g" "c < NUM_SIZE_CLASSES"
    and hit: "bin_head (get_bin k c s) \<noteq> 0"
  defines "bin \<equiv> get_bin k c s"
  shows "\<exists>g'. got_block api c s g (bin_head bin)
    (set_bin k c (bin\<lparr>bin_head := fb_next (mem s) (bin_head bin), bin_count := sub32 (bin_count bin) 1\<rparr>) s) g'"
proof -
  note b = bin_okD [OF spec ok kc, folded bin_def]
  obtain ys where xs: "gB g k c = bin_head bin # ys"
    using b(5) hit b(1) by (cases "gB g k c") (auto simp: held_list_Cons bin_def)
  let ?s = "set_bin k c (bin\<lparr>bin_head := fb_next (mem s) (bin_head bin), bin_count := sub32 (bin_count bin) 1\<rparr>) s"
  have h: "held_list c s (gV g) (fb_next (mem s) (bin_head bin)) ys" "bin_head bin \<in> client (gV g) (mem s)" "fb_class_index (mem s) (bin_head bin) = c"
    using b(1) by (simp_all add: xs held_list_Cons)
  have d: "bin_head bin \<notin> set ys" using b(1) chain_distinct xs by (metis distinct.simps(2) held_list_def)
  have n: "sub32 (bin_count bin) 1 = length ys"
    using sub32_exact [of 1 "bin_count bin"] limits_small(1) [OF kc(2) b(3)] b(2) by (simp add: xs)
  have "tls_op api s g (Block ` (({} \<union> set ys) - set (gB g k c))) (Block ` (set (gB g k c) - {} \<union> {} - set ys)) ?s
    (g\<lparr>gV := gV g, gB := upd2 (gB g) k c ys\<rparr>)"
    by (rule bin_txn [OF spec ok kc tls_frame_refl accounts_refl [OF tls_openD(1) [OF ok]]])
       (use b h n in \<open>auto simp: xs\<close>)
  moreover have "set ys - insert (bin_head bin) (set ys) = {}" "insert (bin_head bin) (set ys) - set ys = {bin_head bin}" using d by auto
  ultimately have "tls_op api s g {} {Block (bin_head bin)} ?s (g\<lparr>gV := gV g, gB := upd2 (gB g) k c ys\<rparr>)" by (simp add: xs)
  moreover have "Block (bin_head bin) \<notin> pieces g s" using binnedI [of "bin_head bin" g k c] xs by (simp add: piece_block)
  ultimately show ?thesis using h(3) b(6) hit by (auto simp: got_block_def bin_def)
qed

lemma TLS_AllocateBlockSlow_op:
  fixes s :: "'a tls_state_scheme"
  assumes spec: "os_spec api" and ok: "tls_ok api s g" and kc: "k \<in> gK g" "1 \<le> c" "c < NUM_SIZE_CLASSES"
    and empty: "gB g k c = []" and free: "\<not> lock_busy s (arena_index (caches s k)) c"
  shows "\<exists>b s' g'. TLS_AllocateBlockSlow api k c s = Some (b, s') \<and> got_block api c s g b s' g'"
proof -
  note o = tls_openD [OF ok] and b = bin_okD [OF spec ok kc(1,3)]
  have ar: "arena_index (caches s k) < NUM_ARENAS" using o(5) kc(1) by (simp add: hub_ok_def)
  obtain target ramp where plan: "refill_plan c (bin_next_refill (get_bin k c s)) = (target, ramp)" by (cases "refill_plan c (bin_next_refill (get_bin k c s))")
  note pb = refill_plan_bounds [OF kc(3) plan]
  let ?s0 = "set_bin k c ((get_bin k c s)\<lparr>bin_next_refill := ramp\<rparr>) (count_stats CountTlsMisses s)"
  have f0: "tls_frame {(k, c)} {} s ?s0" by (rule tls_frame_trans [of _ _ _ "count_stats CountTlsMisses s"]) simp_all
  have g0: "gh_ok api {} ?s0 (gV g)" using frame_open(1) [OF open_bin(1) [OF ok kc(1,3)], of ?s0] f0 by (simp add: tls_open_def)
  have c0: "arena_index (caches ?s0 k) = arena_index (caches s k)" "lock_busy ?s0 = lock_busy s" by (simp_all add: count_stats_def)
  have "\<exists>h xs s1 V1. AllocateBatch api c target (arena_index (caches s k)) ?s0 = Some (h, length xs, s1)
    \<and> supplied api c ?s0 (gV g) h xs s1 V1 \<and> length xs \<le> target"
    using AllocateBatch_supplied [OF spec g0 _ kc(2,3) ar, of target] free pb(1) c0 by auto
  then obtain h xs s1 V1 where a: "AllocateBatch api c target (arena_index (caches s k)) ?s0 = Some (h, length xs, s1)"
    "supplied api c ?s0 (gV g) h xs s1 V1" "length xs \<le> target" by blast
  have acc: "accounts api ?s0 (gV g) {} (set xs) s1 V1" and hl: "held_list c s1 V1 h xs" and new: "set xs \<inter> client (gV g) (mem s) = {}"
    using a(2) supplied_sub [OF a(2)] by (auto simp: supplied_def held_list_def count_stats_def)
  have bin1: "get_bin k c s1 = (get_bin k c s)\<lparr>bin_next_refill := ramp\<rparr>" using env_tls(7) [OF accounts_env [OF acc]] by simp
  have nb: "set xs \<inter> (binned g - set (gB g k c)) = {}" using new bins_okD(5) [OF o(3)] by blast
  note ph = held_plausible_head [OF spec accounts_ok [OF acc] hl]
  have run: "TLS_AllocateBlockSlow api k c s =
    (if h = 0 then Some (0, s1) else if \<not> IsPlausibleHeapPtr h then Some (0, s1)
     else let rest = fb_next (mem s1) h; (rest, n) = (if rest \<noteq> 0 \<and> \<not> IsPlausibleHeapPtr rest then (0, if length xs > 1 then 1 else length xs) else (rest, length xs))
          in Some (h, set_bin k c ((get_bin k c s1)\<lparr>bin_head := rest, bin_count := sub64 n 1 mod 2 ^ 32\<rparr>) s1))"
    using a(1) c0(1) by (simp add: TLS_AllocateBlockSlow_def plan Let_def split: prod.splits)
  note txn = bin_txn [OF spec ok kc(1,3) f0 acc _ Int_empty_left nb]
  show ?thesis
  proof (cases xs)
    case Nil
    then have h: "h = 0" using ph(1) by blast
    have "tls_op api s g (Block ` (({} \<union> set []) - set (gB g k c))) (Block ` (set (gB g k c) - {} \<union> set xs - set [])) s1
      (g\<lparr>gV := V1, gB := upd2 (gB g) k c []\<rparr>)"
      by (rule txn [OF tls_frame_refl]) (use b pb empty CACHE_LIMITS_bounds [OF kc(3)] in \<open>auto simp: bin1 held_list_def\<close>)
    then show ?thesis using run h Nil empty by (auto simp: got_block_def)
  next
    case (Cons x ys)
    have hx: "h = x" "h \<noteq> 0" "held_list c s1 V1 (fb_next (mem s1) h) ys" "fb_class_index (mem s1) h = c" "x \<notin> set ys"
      using hl chain_distinct [of "fb_next (mem s1)" h xs] by (auto simp: Cons held_list_Cons held_list_def)
    have pr: "(fb_next (mem s1) h \<noteq> 0 \<and> \<not> IsPlausibleHeapPtr (fb_next (mem s1) h)) = False"
      using held_plausible_head [OF spec accounts_ok [OF acc] hx(3)] by blast
    let ?s2 = "set_bin k c ((get_bin k c s1)\<lparr>bin_head := fb_next (mem s1) h, bin_count := length ys\<rparr>) s1"
    have n: "sub64 (length xs) 1 mod 2 ^ 32 = length ys"
    proof -
      have "length xs < CACHE_LIMITS ! c" using a(3) pb(2) CACHE_LIMITS_bounds [OF kc(3)] by linarith
      from limits_small [OF kc(3) this] show ?thesis by (simp add: Cons sub64_exact)
    qed
    have r: "TLS_AllocateBlockSlow api k c s = Some (h, ?s2)" using run hx(2) ph(2) n unfolding Let_def pr by simp
    have "tls_op api s g (Block ` (({} \<union> set ys) - set (gB g k c))) (Block ` (set (gB g k c) - {} \<union> set xs - set ys)) ?s2
      (g\<lparr>gV := V1, gB := upd2 (gB g) k c ys\<rparr>)"
      by (rule txn) (use nb hx pb a(3) CACHE_LIMITS_bounds [OF kc(3)] in \<open>auto simp: Cons bin1\<close>)
    then have "tls_op api s g (Block ` set ys) {Block x} ?s2 (g\<lparr>gV := V1, gB := upd2 (gB g) k c ys\<rparr>)"
      using hx(5) by (simp add: empty Cons insert_Diff_if)
    then have "tls_op api s g {} {Block h} ?s2 (g\<lparr>gV := V1, gB := upd2 (gB g) k c ys\<rparr>)" unfolding hx(1)
      by (rule tls_op_cong) (use new in \<open>auto simp: Cons piece_block\<close>)
    moreover have "Block h \<notin> pieces g s" using new hx(1) by (simp add: Cons piece_block)
    ultimately show ?thesis using r hx ph(2) by (intro exI [of _ h] exI [of _ ?s2]) (auto simp: got_block_def)
  qed
qed

lemma TLS_AllocateBlock_op:
  fixes s :: "'a tls_state_scheme"
  assumes spec: "os_spec api" and ok: "tls_ok api s g" and kc: "k \<in> gK g" "1 \<le> c" "c < NUM_SIZE_CLASSES"
    and free: "\<not> lock_busy s (arena_index (caches s k)) c"
  shows "\<exists>b s' g'. TLS_AllocateBlock api k c s = Some (b, s') \<and> got_block api c s g b s' g'"
proof -
  note b = bin_okD [OF spec ok kc(1,3)]
  show ?thesis
  proof (cases "bin_head (get_bin k c s) = 0")
    case True
    then show ?thesis using TLS_AllocateBlockSlow_op [OF spec ok kc _ free] b(5) by (simp add: TLS_AllocateBlock_def)
  next
    case False
    then show ?thesis using pop_bin [OF spec ok kc(1,3) False] b(6) by (auto simp: TLS_AllocateBlock_def Let_def)
  qed
qed

section \<open>Giving a block back\<close>

lemma dealloc_walk_list:
  "chain (fb_next m) p (ys @ zs) \<Longrightarrow> zs \<noteq> [] \<Longrightarrow> (\<And>x. x \<in> set (ys @ zs) \<Longrightarrow> IsPlausibleHeapPtr x) \<Longrightarrow>
   dealloc_walk m (walked + length ys) p walked = hd zs"
proof (induction ys arbitrary: p walked)
  case Nil
  then show ?case by (cases zs) (simp_all add: dealloc_walk.simps)
next
  case (Cons y ys)
  have y: "p = y" "y \<noteq> 0" "chain (fb_next m) (fb_next m y) (ys @ zs)" using Cons.prems(1) by simp_all
  have "fb_next m y \<in> set (ys @ zs)" using chain_hd [OF y(3)] Cons.prems(2) hd_in_set [of "ys @ zs"] by simp
  then have "IsPlausibleHeapPtr (fb_next m y)" using Cons.prems(3) by simp
  then show ?case using Cons.IH [OF y(3) Cons.prems(2), of "walked + 1"] Cons.prems(3) y(1,2)
    by (simp add: dealloc_walk.simps [of m _ y walked] Let_def)
qed

lemma set_bin_commute [simp]:
  "set_bin k c b (upd_mem f s) = upd_mem f (set_bin k c b s)" "set_bin k c b (set_bin k c b' s) = set_bin k c b s"
  "get_bin k c (upd_mem f s) = get_bin k c s"
  by (simp_all add: set_bin_def set_cache_def upd_mem_def get_bin_def)

lemma mem_upd_mem [simp]: "mem (upd_mem f s) = f (mem s)"
  by (simp add: upd_mem_def)

lemma held_push:
  assumes spec: "os_spec api" and ok: "gh_ok api {} s V" and xs: "held_list c s V h xs"
    and b: "b \<in> client V (mem s)" "b \<notin> set xs" "fb_class_index (mem s) b = c"
  shows "held_list c (upd_mem (set_fb_next b h) s) V b (b # xs)" "accounts api s V {b} {b} (upd_mem (set_fb_next b h) s) V"
proof -
  show a: "accounts api s V {b} {b} (upd_mem (set_fb_next b h) s) V" by (rule client_link(1) [OF ok b(1)])
  have "held_list c (upd_mem (set_fb_next b h) s) V h xs" by (rule held_list_step [OF spec ok xs a]) (use b(2) in simp)
  moreover have "b \<in> client V (mem (upd_mem (set_fb_next b h) s))" using accounts_client [OF a] by simp
  ultimately show "held_list c (upd_mem (set_fb_next b h) s) V b (b # xs)"
    using b client_facts(4) [OF spec ok b(1)] by (simp add: held_list_Cons cells)
qed

lemma held_cut:
  assumes ok: "gh_ok api {} s V" and xs: "held_list c s V h (ys @ y # zs)"
  shows "held_list c (upd_mem (set_fb_next y 0) s) V h (ys @ [y])" "held_list c (upd_mem (set_fb_next y 0) s) V (fb_next (mem s) y) zs"
    "accounts api s V {y} {y} (upd_mem (set_fb_next y 0) s) V"
proof -
  have y: "y \<in> client V (mem s)" using xs by (simp add: held_list_def)
  note l = client_link(1,2) [OF ok y, of 0]
  show "accounts api s V {y} {y} (upd_mem (set_fb_next y 0) s) V" by (rule l(1))
  have "fb_class_index (set_fb_next y 0 (mem s)) x = fb_class_index (mem s) x" if "x \<in> client V (mem s)" for x
    using kept_header(3) [OF client_cell_write(3) [OF ok y], of x 0] that by (cases "x = y") (auto simp: cells upd_mem_def)
  then show "held_list c (upd_mem (set_fb_next y 0) s) V h (ys @ [y])" "held_list c (upd_mem (set_fb_next y 0) s) V (fb_next (mem s) y) zs"
    using xs fb.chain_cut [of "mem s" h ys y zs] l(2) by (auto simp: held_list_def subset_iff)
qed

lemma held_overflow:
  assumes spec: "os_spec api" and ok: "gh_ok api {} s V" and xs: "held_list c s V h xs"
    and b: "b \<in> client V (mem s)" "b \<notin> set xs" "fb_class_index (mem s) b = c" and split: "b # xs = ys @ y # zs"
  shows "\<exists>s4 V4. DeallocateBatchClass api c b (upd_mem (set_fb_next y 0) (upd_mem (set_fb_next b h) s)) = Some s4
    \<and> accounts api s V (set (ys @ [y])) {} s4 V4 \<and> held_list c s4 V4 (fb_next (set_fb_next b h (mem s)) y) zs"
    "dealloc_walk (set_fb_next b h (mem s)) (1 + length ys) b 1 = y" "y \<noteq> 0"
proof -
  let ?B = "set (ys @ [y])" and ?s2 = "upd_mem (set_fb_next y 0) (upd_mem (set_fb_next b h) s)"
  note p = held_push [OF spec ok xs b]
  note q = held_cut [OF accounts_ok [OF p(2)] p(1) [unfolded split]]
  show "dealloc_walk (set_fb_next b h (mem s)) (1 + length ys) b 1 = y"
    using dealloc_walk_list [of "set_fb_next b h (mem s)" b ys "y # zs" 1] p(1) held_plausible [OF spec accounts_ok [OF p(2)] p(1)]
    by (simp add: split [symmetric] held_list_def)
  show "y \<noteq> 0" using p(1) chain_nonzero [of "fb_next (set_fb_next b h (mem s))" b "b # xs"] by (auto simp: split held_list_def)
  have "set (b # xs) \<subseteq> client V (mem s)" using xs b(1) by (simp add: held_list_def)
  then have sub: "?B \<subseteq> client V (mem s)" unfolding split by simp
  have "accounts api s V ({b} \<union> {y}) ({b} \<union> {y}) ?s2 V"
    by (rule accounts_rewrite_trans [OF p(2) q(3)]) (use b(1) in simp)
  then have rw: "accounts api s V ?B ?B ?s2 V"
    by (rule accounts_rewrite_mono) (use split sub in \<open>cases ys; auto\<close>)+
  obtain s4 V4 where d: "DeallocateBatchClass api c b ?s2 = Some s4" "accounts api ?s2 V ?B {} s4 V4"
    using DeallocateBatchClass_accounts [OF spec accounts_ok [OF q(3)] q(1)] by blast
  have "distinct (b # xs)" using xs b(2) chain_distinct by (auto simp: held_list_def)
  then have "set zs \<inter> ?B = {}" unfolding split by auto
  with d rewrite_then_give [OF rw d(2) sub] held_list_step [OF spec accounts_ok [OF q(3)] q(2) d(2)]
  show "\<exists>s4 V4. DeallocateBatchClass api c b ?s2 = Some s4
    \<and> accounts api s V ?B {} s4 V4 \<and> held_list c s4 V4 (fb_next (set_fb_next b h (mem s)) y) zs" by auto
qed

text \<open>
  Where a freed block goes, read off the states: in front of its bin, whose list is followed through
  the links before and after; when that fills the bin, the front half of the list, the block first,
  leaves the bin and the clients of the heap for good.
\<close>

definition block_filed :: "addr \<Rightarrow> nat \<Rightarrow> addr \<Rightarrow> 'a tls_state_scheme \<Rightarrow> ghost \<Rightarrow> 'a tls_state_scheme \<Rightarrow> ghost \<Rightarrow> bool" where
  "block_filed k c b s g s' g' \<longleftrightarrow> (\<exists>xs spill. chain (fb_next (mem s)) (bin_head (get_bin k c s)) xs
     \<and> bin_count (get_bin k c s) = length xs
     \<and> spill = (if bin_count (get_bin k c s) + 1 < CACHE_LIMITS ! c then 0 else CACHE_LIMITS ! c div 2)
     \<and> chain (fb_next (mem s')) (bin_head (get_bin k c s')) (drop spill (b # xs))
     \<and> bin_count (get_bin k c s') = length xs + 1 - spill
     \<and> client (gV g') (mem s') = client (gV g) (mem s) - set (take spill (b # xs)))"

lemma TLS_DeallocateBlock_op:
  fixes s :: "'a tls_state_scheme"
  assumes spec: "os_spec api" and ok: "tls_ok api s g" and k: "k \<in> gK g" and b: "Block b \<in> pieces g s"
  defines "c \<equiv> fb_class_index (mem s) b"
  shows "\<exists>s' g'. TLS_DeallocateBlock api k c b s = Some s' \<and> tls_op api s g {Block b} {} s' g' \<and> block_filed k c b s g s' g'"
proof -
  note o = tls_openD [OF ok] and u = b [unfolded piece_block]
  note cf = client_facts [OF spec o(1) conjunct1 [OF u]]
  have c: "c < NUM_SIZE_CLASSES" using cf(8) by (simp add: c_def)
  note bo = bin_okD [OF spec ok k c] and lim = CACHE_LIMITS_bounds [OF c]
  let ?bin = "get_bin k c s" and ?old = "gB g k c"
  let ?h = "bin_head ?bin"
  have nin: "b \<notin> set ?old" using u binnedI by blast
  have hd: "?h \<noteq> b" using bo(1) nin cf(4) by (cases ?old) (auto simp: held_list_def)
  note pu = held_push [OF spec o(1) bo(1) conjunct1 [OF u] nin c_def [symmetric, THEN meta_eq_to_obj_eq]]
  have cnt: "add32 (bin_count ?bin) 1 = length (b # ?old)" using bo(2,3) limits_small [OF c bo(3)] lim by (simp add: add32_exact)
  let ?n = "?bin\<lparr>bin_head := b, bin_count := length (b # ?old)\<rparr>"
  let ?s1 = "set_bin k c ?n (upd_mem (set_fb_next b ?h) s)"
  have run: "TLS_DeallocateBlock api k c b s = (if length (b # ?old) \<ge> CACHE_LIMITS ! c then TLS_DeallocateBlockSlow api k c ?s1 else Some ?s1)"
    using cf(1) hd cnt by (simp add: TLS_DeallocateBlock_def Let_def)
  have disj: "{b} \<inter> (binned g - set ?old) = {}" "set ?old \<inter> (binned g - set ?old) = {}" using u by blast+
  show ?thesis
  proof (cases "length (b # ?old) \<ge> CACHE_LIMITS ! c")
    case False
    have "tls_op api s g (Block ` (({b} \<union> set (b # ?old)) - set ?old)) (Block ` (set ?old - {b} \<union> {b} - set (b # ?old))) ?s1
      (g\<lparr>gV := gV g, gB := upd2 (gB g) k c (b # ?old)\<rparr>)"
      by (rule bin_txn [OF spec ok k c tls_frame_refl pu(2) tls_frame_bins(1) [OF singletonI] disj(1) disj(1)])
         (use pu(1) disj bo False nin in auto)
    then have "tls_op api s g {Block b} {} ?s1 (g\<lparr>gV := gV g, gB := upd2 (gB g) k c (b # ?old)\<rparr>)" using nin by (simp add: insert_Diff_if)
    moreover have "block_filed k c b s g ?s1 (g\<lparr>gV := gV g, gB := upd2 (gB g) k c (b # ?old)\<rparr>)"
      using bo(1,2) pu(1) accounts_client [OF pu(2)] u False
      by (auto simp: block_filed_def held_list_def intro!: exI [of _ ?old])
    ultimately show ?thesis using run False by auto
  next
    case True
    let ?m = "CACHE_LIMITS ! c div 2"
    have len: "length (b # ?old) = CACHE_LIMITS ! c" using True bo(3) by simp
    have i: "?m - 1 < length (b # ?old)" using len lim by linarith
    obtain ys y zs where split: "b # ?old = ys @ y # zs" "length ys = ?m - 1"
      using id_take_nth_drop [OF i] i by (metis length_take less_imp_le min.absorb2)
    have m: "1 + length ys = ?m" "?m \<noteq> 0" using split(2) lim by linarith+
    have lz: "CACHE_LIMITS ! c = ?m + length zs" using arg_cong [OF split(1), of length] len m(1) by simp
    let ?f = "?bin\<lparr>bin_head := fb_next (set_fb_next b ?h (mem s)) y, bin_count := length zs\<rparr>"
    let ?s0 = "set_bin k c ?f s" and ?B = "set (ys @ [y])"
    have f0: "tls_frame {(k, c)} {} s ?s0" by simp
    have g0: "gh_ok api {} ?s0 (gV g)" using coreD(2) [of ?s0 s] o(1) by (simp add: set_bin_def)
    have b0: "held_list c ?s0 (gV g) ?h ?old" "b \<in> client (gV g) (mem ?s0)" "fb_class_index (mem ?s0) b = c"
      using bo(1) u by (simp_all add: held_list_def c_def)
    obtain s4 V4 where d: "DeallocateBatchClass api c b (upd_mem (set_fb_next y 0) (upd_mem (set_fb_next b ?h) ?s0)) = Some s4"
      "accounts api ?s0 (gV g) ?B {} s4 V4" "held_list c s4 V4 (bin_head ?f) zs"
      "dealloc_walk (set_fb_next b ?h (mem s)) ?m b 1 = y" "y \<noteq> 0"
      using held_overflow [OF spec g0 b0(1,2) nin b0(3) split(1)] m(1) by auto
    have cz: "sub32 (Suc (length ?old)) (?m mod 2 ^ 32) = length zs" using len lz lim by (simp add: sub32_exact)
    have slow: "TLS_DeallocateBlockSlow api k c ?s1 = Some s4"
      using d(1,4,5) m(2) cz by (simp add: TLS_DeallocateBlockSlow_def Let_def)
    have bin4: "get_bin k c s4 = ?f" using env_tls(7) [OF accounts_env [OF d(2)]] by simp
    have sets: "insert b (set ?old) = ?B \<union> set zs" using arg_cong [OF split(1), of set] by auto
    have "tls_op api s g (Block ` ((?B \<union> set zs) - set ?old)) (Block ` (set ?old - ?B \<union> {} - set zs)) s4
      (g\<lparr>gV := V4, gB := upd2 (gB g) k c zs\<rparr>)"
    proof (rule bin_txn [OF spec ok k c f0 d(2) tls_frame_refl _ Int_empty_left])
      show "?B \<inter> (binned g - set ?old) = {}" "set zs \<inter> (binned g - set ?old) = {}" using sets disj by blast+
      show "length zs < CACHE_LIMITS ! c" using lz m(2) by linarith
    qed (use d(3) bo(4) in \<open>simp_all add: bin4\<close>)
    moreover have e: "(?B \<union> set zs) - set ?old = {b}" "set ?old - ?B \<union> {} - set zs = {}" using sets nin by blast+
    ultimately have "tls_op api s g {Block b} {} s4 (g\<lparr>gV := V4, gB := upd2 (gB g) k c zs\<rparr>)" unfolding e by simp
    moreover have "block_filed k c b s g s4 (g\<lparr>gV := V4, gB := upd2 (gB g) k c zs\<rparr>)"
    proof -
      have "b # ?old = (ys @ [y]) @ zs" "length (ys @ [y]) = ?m" using split(1) m(1) by simp_all
      then have td: "take ?m (b # ?old) = ys @ [y]" "drop ?m (b # ?old) = zs" by (metis append_eq_conv_conj)+
      have cl: "client V4 (mem s4) = client (gV g) (mem s) - ?B" using accounts_client [OF d(2)] by simp
      have "length ?old + 1 - ?m = length zs" using len lz by simp
      then show ?thesis unfolding block_filed_def
        using bo(1,2) d(3) bin4 True td cl by (intro exI [of _ ?old] exI [of _ ?m]) (simp add: held_list_def)
    qed
    ultimately show ?thesis using run True slow by auto
  qed
qed

section \<open>Taking a large span\<close>

lemma large_walk_miss:
  assumes "chain (le_next (mem s)) (get_pp k i prev s) zs" "\<And>e. e \<in> set zs \<Longrightarrow> IsPlausibleHeapPtr e \<and> lh_alloc_size (mem s) e < sz"
  shows "large_walk k sz i prev s = Some (0, s)"
  using assms
proof (induction zs arbitrary: prev)
  case Nil
  then show ?case by (simp add: large_walk.simps)
next
  case (Cons e zs)
  have "get_pp k i e s = le_next (mem s) e" using Cons.prems(1) by (simp add: get_pp_def)
  then have "large_walk k sz i e s = Some (0, s)" using Cons.prems by (intro Cons.IH) simp_all
  then show ?case using Cons.prems by (simp add: large_walk.simps [of k sz i prev] Let_def not_le)
qed

lemma large_walk_hit:
  assumes "chain (le_next (mem s)) (get_pp k i prev s) (us @ e # vs)" "\<And>u. u \<in> set us \<Longrightarrow> IsPlausibleHeapPtr u \<and> lh_alloc_size (mem s) u < sz"
    "IsPlausibleHeapPtr e" "sz \<le> lh_alloc_size (mem s) e"
  shows "large_walk k sz i prev s
    = Some (e, let s1 = set_pp k i (last (prev # us)) (le_next (mem s) e) s in set_large_count k i (sub64 (large_counts (caches s1 k) i) 1) s1)"
  using assms
proof (induction us arbitrary: prev)
  case Nil
  then show ?case by (simp add: large_walk.simps Let_def)
next
  case (Cons u us)
  have "get_pp k i u s = le_next (mem s) u" "u \<noteq> 0" using Cons.prems(1) by (simp_all add: get_pp_def)
  then have "large_walk k sz i u s
    = Some (e, let s1 = set_pp k i (last (u # us)) (le_next (mem s) e) s in set_large_count k i (sub64 (large_counts (caches s1 k) i) 1) s1)"
    using Cons.prems by (intro Cons.IH) simp_all
  moreover have "\<not> sz \<le> lh_alloc_size (mem s) u" "IsPlausibleHeapPtr u" using Cons.prems(2) [of u] by auto
  ultimately show ?case using Cons.prems(1) by (simp add: large_walk.simps [of k sz i prev] Let_def)
qed

lemma page_offset:
  fixes x :: nat
  assumes "x mod 4096 = 0" "u mod 4096 = 0" "0 < d" "d < 4096"
  shows "x + d \<noteq> u"
proof
  assume "x + d = u"
  moreover have "(x + d) mod 4096 = d" using assms(1,4) by (metis add_0 mod_add_left_eq mod_less)
  ultimately show False using assms(2,3) by simp
qed

lemma le_unlink:
  assumes "chain (le_next m) p (us @ u # e # vs)"
  shows "chain (le_next (set_le_next u (le_next m e) m)) p (us @ u # vs)"
proof -
  have "u \<notin> set us" "u \<notin> set vs" using chain_distinct [OF assms] by auto
  then show ?thesis using assms by (auto simp: chain_append le.seg_put_other le.chain_put_other le.get_put)
qed

lemma lbin_okD:
  assumes ok: "tls_ok api s g" and kc: "k \<in> gK g" "i < NUM_LARGE_CLASSES"
  shows "chain (le_next (mem s)) (large_free_bins (caches s k) i) (gE g k i)" "large_counts (caches s k) i = length (gE g k i)"
    "length (gE g k i) \<le> 64"
  using lbins_okD(1) [OF tls_openD(4) [OF ok] kc] by (simp_all add: lbin_ok_def)

lemma parked_facts:
  assumes spec: "os_spec api" and ok: "tls_ok api s g" and e: "e \<in> set (gE g k i)"
  shows "gX g e = Some (lh_alloc_size (mem s) e)" "LargeSizeToClass (lh_alloc_size (mem s) e) = i"
    "ext api s (gV g) e (lh_alloc_size (mem s) e)" "IsPlausibleHeapPtr e" "4096 \<le> lh_alloc_size (mem s) e"
proof -
  show x: "gX g e = Some (lh_alloc_size (mem s) e)" "LargeSizeToClass (lh_alloc_size (mem s) e) = i"
    using lbins_okD(4) [OF tls_openD(4) [OF ok] e] by blast+
  show y: "ext api s (gV g) e (lh_alloc_size (mem s) e)" by (rule spans_okD(1) [OF tls_openD(2) [OF ok] x(1)])
  show "IsPlausibleHeapPtr e" "4096 \<le> lh_alloc_size (mem s) e" using ext_facts [OF spec y] by simp_all
qed

lemma set_large_simps [simp]:
  "mem (set_large k i e s) = mem s" "mem (set_large_count k i n s) = mem s"
  "large_free_bins (caches (set_large k i e s) k) i = e" "large_counts (caches (set_large k i e s) k) i = large_counts (caches s k) i"
  "large_free_bins (caches (set_large_count k i n s) k) i = large_free_bins (caches s k) i" "large_counts (caches (set_large_count k i n s) k) i = n"
  "cache_pool (set_large k i e s) = cache_pool s" "cache_pool (set_large_count k i n s) = cache_pool s"
  "pieces g (set_large k i e s) = pieces g s" "pieces g (set_large_count k i n s) = pieces g s"
  by (simp_all add: set_large_def set_large_count_def set_cache_def pieces_def user_blocks_def user_spans_def)

lemma open_lbin_op:
  assumes "tls_open api E F s g" "k \<in> gK g" "i < NUM_LARGE_CLASSES" "(k, i) \<notin> F"
  shows "tls_step api E (insert (k, i) F) s g {} (Span ` set (gE g k i)) s (g\<lparr>gE := upd2 (gE g) k i []\<rparr>)"
  by (rule tls_opI) (use open_lbin [OF assms] in simp_all)

lemma close_lbin_op:
  assumes "tls_open api E (insert (k, i) F) s g" "k \<in> gK g" "i < NUM_LARGE_CLASSES" "(k, i) \<notin> F"
    and "chain (le_next (mem s)) (large_free_bins (caches s k) i) xs" "Span ` set xs \<subseteq> pieces g s"
      "\<And>e. e \<in> set xs \<Longrightarrow> gX g e = Some (lh_alloc_size (mem s) e) \<and> LargeSizeToClass (lh_alloc_size (mem s) e) = i"
    and "large_counts (caches s k) i = length xs" "length xs \<le> 64"
  shows "tls_step api E F s g (Span ` set xs) {} s (g\<lparr>gE := upd2 (gE g) k i xs\<rparr>)"
  by (rule tls_opI) (use close_lbin [OF assms] in simp_all)

lemma upd2_twice [simp]: "upd2 (upd2 f a c u) a c v = upd2 f a c v"
  by (simp add: upd2_def)

text \<open>Unhooking entry \<open>e\<close> of the list: its span goes to the caller.\<close>

lemma unhook_span:
  fixes s :: "'a tls_state_scheme"
  assumes spec: "os_spec api" and ok: "tls_ok api s g" and k: "k \<in> gK g" "i < NUM_LARGE_CLASSES"
    and split: "gE g k i = us @ e # vs"
  defines "s1 \<equiv> set_pp k i (last (0 # us)) (le_next (mem s) e) s"
  defines "s2 \<equiv> set_large_count k i (sub64 (large_counts (caches s1 k) i) 1) s1"
  shows "tls_op api s g {} {Span e} s2 (g\<lparr>gE := upd2 (gE g) k i (us @ vs)\<rparr>)" "lh_alloc_size (mem s2) e = lh_alloc_size (mem s) e"
proof -
  let ?F = "{(k, i)}" and ?g1 = "g\<lparr>gE := upd2 (gE g) k i []\<rparr>"
  note l = lbin_okD [OF ok k] and d = chain_distinct [OF lbin_okD(1) [OF ok k], unfolded split]
  note op = open_lbin_op [OF ok k, simplified]
  have pf: "gX g x = Some (lh_alloc_size (mem s) x)" "LargeSizeToClass (lh_alloc_size (mem s) x) = i" "8 < lh_alloc_size (mem s) x" "x mod 4096 = 0"
    if "x \<in> set (us @ e # vs)" for x
    using parked_facts [OF spec ok, of x k i] ext_facts(3) [OF spec parked_facts(3) [OF spec ok, of x k i]] that split by simp_all
  have sp: "Span x \<in> pieces ?g1 s" if "x \<in> set (us @ e # vs)" for x using tls_opD(6) [OF op] split that by auto
  obtain A where st: "tls_step api {} ?F s ?g1 A A s1 ?g1" "A \<subseteq> Span ` set us"
    "chain (le_next (mem s1)) (large_free_bins (caches s1 k) i) (us @ vs)" "large_counts (caches s1 k) i = large_counts (caches s k) i"
    "\<And>x. x \<in> set (us @ e # vs) \<Longrightarrow> lh_alloc_size (mem s1) x = lh_alloc_size (mem s) x"
  proof (cases us rule: rev_cases)
    case Nil
    have "s1 = set_large k i (le_next (mem s) e) s" by (simp add: s1_def Nil set_pp_def)
    then show thesis using frame_op [OF tls_opD(1) [OF op], of s1] l(1) split Nil by (intro that [of "{}"]) simp_all
  next
    case (snoc ws u)
    have u: "u \<in> set (us @ e # vs)" "u \<noteq> 0" using chain_nonzero [OF l(1)] by (auto simp: split snoc)
    have s1: "s1 = upd_mem (set_le_next u (le_next (mem s) e)) s" using u(2) by (simp add: s1_def snoc set_pp_def)
    have "tls_step api {} ?F s ?g1 {Span u} {Span u} s1 ?g1"
      unfolding s1 by (rule write_span_op [OF spec tls_opD(1) [OF op] sp [OF u(1)]]) (use pf(1,3) [OF u(1)] in \<open>auto simp: set_le_next_def\<close>)
    moreover have "chain (le_next (mem s1)) (large_free_bins (caches s1 k) i) (us @ vs)"
      using le_unlink [of "mem s" _ ws u e vs] l(1) by (simp add: s1 split snoc)
    moreover have "lh_alloc_size (mem s1) x = lh_alloc_size (mem s) x" if "x \<in> set (us @ e # vs)" for x
    proof -
      have "x + 8 \<noteq> u" using pf(4) [OF that] pf(4) [OF u(1)] page_offset [of x u 8] by simp
      then show ?thesis by (simp add: s1 lh_alloc_size_def set_le_next_def)
    qed
    ultimately show thesis by (intro that [of "{Span u}"]) (simp_all add: snoc s1)
  qed
  have n: "sub64 (large_counts (caches s1 k) i) 1 = length (us @ vs)" using l(2,3) by (simp add: st(4) split sub64_exact)
  have f: "tls_step api {} ?F s1 ?g1 {} {} s2 ?g1" unfolding s2_def by (rule frame_op [OF tls_opD(1) [OF st(1)]]) simp
  note o2 = tls_op_after [OF st(1) f]
  have "tls_step api {} {} s2 ?g1 (Span ` set (us @ vs)) {} s2 (?g1\<lparr>gE := upd2 (gE ?g1) k i (us @ vs)\<rparr>)"
  proof (rule close_lbin_op [OF tls_opD(1) [OF f]])
    show "Span ` set (us @ vs) \<subseteq> pieces ?g1 s2" using tls_opD(6) [OF o2] sp st(2) by auto
    show "gX ?g1 x = Some (lh_alloc_size (mem s2) x) \<and> LargeSizeToClass (lh_alloc_size (mem s2) x) = i" if "x \<in> set (us @ vs)" for x
      using pf(1,2) [of x] st(5) [of x] that by (simp add: s2_def)
  qed (use k st(3) n l(3) in \<open>simp_all add: s2_def split\<close>)
  then have c: "tls_step api {} {} s2 ?g1 (Span ` set (us @ vs)) {} s2 (g\<lparr>gE := upd2 (gE g) k i (us @ vs)\<rparr>)" by simp
  have "tls_step api {} ?F s g {} (Span ` set (gE g k i)) s2 ?g1"
    by (rule tls_op_comp [OF op o2]) (use st(2) open_lbin(3) [OF ok k] split in auto)
  then show "tls_op api s g {} {Span e} s2 (g\<lparr>gE := upd2 (gE g) k i (us @ vs)\<rparr>)"
    by (rule tls_op_comp [OF _ c]) (use open_lbin(3) [OF ok k] split d in auto)
  show "lh_alloc_size (mem s2) e = lh_alloc_size (mem s) e" using st(5) [of e] by (simp add: s2_def)
qed

lemma new_span_op:
  fixes s :: "'a tls_state_scheme"
  assumes spec: "os_spec api" and ok: "tls_open api E F s g" and new: "new_span api s (gV g) p n s' V'"
  shows "tls_step api E F s g {} {Span p} s' (g\<lparr>gV := V', gX := (gX g)(p \<mapsto> n)\<rparr>)" "p \<notin> dom (gX g)" "Span p \<notin> pieces g s"
proof -
  note nf = new_span_facts [OF spec new]
  have dj: "{q..<q + k} \<inter> {p..<p + n} = {}" if "gX g q = Some k" for q k
    using new spans_okD(1) [OF tls_openD(2) [OF ok] that] by (simp add: new_span_def)
  show nd: "p \<notin> dom (gX g)"
  proof
    assume "p \<in> dom (gX g)"
    then obtain k where k: "gX g p = Some k" by blast
    then show False using dj [OF k] nf(4) ext_facts(8) [OF spec spans_okD(1) [OF tls_openD(2) [OF ok] k]] by auto
  qed
  then show "Span p \<notin> pieces g s" by (simp add: piece_span)
  have h: "tls_step api E F s g {} {} s' (g\<lparr>gV := V'\<rparr>)" using heap_op [OF spec ok nf(6)] by simp
  have "tls_step api E F s' (g\<lparr>gV := V'\<rparr>) {} {Span p} s' (g\<lparr>gV := V', gX := (gX (g\<lparr>gV := V'\<rparr>))(p \<mapsto> n)\<rparr>)"
    by (rule tls_opI) (use add_span [OF tls_opD(1) [OF h], of p n] nd nf(7) dj in simp_all)
  then show "tls_step api E F s g {} {Span p} s' (g\<lparr>gV := V', gX := (gX g)(p \<mapsto> n)\<rparr>)" using tls_op_before [OF h] by simp
qed

text \<open>What an allocation of \<open>sz\<close> bytes of pages gives: null, or a span with its header written.\<close>

definition large_header :: "ghost \<Rightarrow> mem \<Rightarrow> addr \<Rightarrow> nat \<Rightarrow> bool" where
  "large_header g m p n \<longleftrightarrow> gX g p = Some n \<and> fb_slab m p = 0 \<and> lh_alloc_size m p = n"

definition got_span :: "os_api \<Rightarrow> nat \<Rightarrow> 'a tls_state_scheme \<Rightarrow> ghost \<Rightarrow> addr \<Rightarrow> 'a tls_state_scheme \<Rightarrow> ghost \<Rightarrow> bool" where
  "got_span api sz s g u s' g' \<longleftrightarrow> (if u = 0 then tls_op api s g {} {} s' g'
     else \<exists>p n. u = p + 16 \<and> tls_op api s g {} {Span p} s' g' \<and> Span p \<notin> pieces g s \<and> large_header g' (mem s') p n \<and> sz \<le> n)"

lemma header_op:
  fixes s :: "'a tls_state_scheme"
  assumes spec: "os_spec api" and st: "tls_op api s0 g0 {} {Span p} s g" and new: "Span p \<notin> pieces g0 s0" and n: "gX g p = Some n"
  defines "a \<equiv> upd_mem (set_lh_alloc_size p n) (upd_mem (set_fb_slab p 0) s)"
    and "b \<equiv> upd_mem (set_fb_slab p 0) (upd_mem (set_lh_alloc_size p n) s)"
  shows "b = a" "tls_op api s0 g0 {} {Span p} a g" "large_header g (mem a) p n"
proof -
  have "8 < n" using ext_facts(4) [OF spec spans_okD(1) [OF tls_openD(2) [OF tls_opD(1) [OF st]] n]] by simp
  then have w: "tls_op api s g {Span p} {Span p} a g"
    using write_span_op [OF spec tls_opD(1) [OF st] _ n, of "\<lambda>m. set_lh_alloc_size p n (set_fb_slab p 0 m)"] tls_opD(6) [OF st]
    by (fastforce simp: a_def upd_mem_def set_lh_alloc_size_def cells)
  show "tls_op api s0 g0 {} {Span p} a g" by (rule tls_op_comp [OF st w]) (use new in auto)
  show "large_header g (mem a) p n" using n by (simp add: large_header_def a_def lh_alloc_size_def set_lh_alloc_size_def cells)
  show "b = a" by (simp add: a_def b_def upd_mem_def set_lh_alloc_size_def cells fun_upd_twist)
qed

lemma large_class_bound: "LargeSizeToClass n < NUM_LARGE_CLASSES"
  by (simp add: LargeSizeToClass_def config_consts Let_def)

lemma AllocateLargeCached_op:
  fixes s :: "'a tls_state_scheme"
  assumes spec: "os_spec api" and ok: "tls_ok api s g" and k: "k \<in> gK g"
    and sz: "0 < sz" "sz mod GetPageSize api = 0" "sz + GetPageSize api \<le> 2 ^ 64"
  shows "\<exists>u s' g'. AllocateLargeCached api k sz s = Some (u, s') \<and> got_span api sz s g u s' g'"
proof -
  let ?i = "LargeSizeToClass sz"
  have i: "?i < NUM_LARGE_CLASSES" by (rule large_class_bound)
  note l = lbin_okD [OF ok k i]
  have head: "get_pp k ?i 0 s = large_free_bins (caches s k) ?i" by (simp add: get_pp_def)
  have pl: "IsPlausibleHeapPtr e" if "e \<in> set (gE g k ?i)" for e by (rule parked_facts(4) [OF spec ok that])
  show ?thesis
  proof (cases "\<exists>e \<in> set (gE g k ?i). sz \<le> lh_alloc_size (mem s) e")
    case True
    then obtain us e vs where sp: "gE g k ?i = us @ e # vs" "sz \<le> lh_alloc_size (mem s) e" "\<And>u. u \<in> set us \<Longrightarrow> \<not> sz \<le> lh_alloc_size (mem s) u"
      using split_list_first_prop [of "gE g k ?i" "\<lambda>e. sz \<le> lh_alloc_size (mem s) e"] by blast
    note un = unhook_span [OF spec ok k i sp(1)]
    obtain s2 where s2: "large_walk k sz ?i 0 s = Some (e, s2)" "tls_op api s g {} {Span e} s2 (g\<lparr>gE := upd2 (gE g) k ?i (us @ vs)\<rparr>)"
      "lh_alloc_size (mem s2) e = lh_alloc_size (mem s) e"
      using large_walk_hit [of s k ?i 0 us e vs sz] l(1) head sp pl un by (simp add: Let_def not_le)
    let ?g = "g\<lparr>gE := upd2 (gE g) k ?i (us @ vs)\<rparr>"
    have e: "e \<in> set (gE g k ?i)" by (simp add: sp(1))
    have new: "Span e \<notin> pieces g s" using parkedI [OF e] by (simp add: piece_span)
    have n: "gX ?g e = Some (lh_alloc_size (mem s) e)" using parked_facts(1) [OF spec ok e] by simp
    note h = header_op [OF spec s2(2) new n]
    have "e \<noteq> 0" using pl [OF e] not_plausible_null by metis
    moreover have "lh_alloc_size (set_fb_slab e 0 (mem s2)) e = lh_alloc_size (mem s) e" using s2(3) by (simp add: lh_alloc_size_def cells)
    ultimately have "AllocateLargeCached api k sz s = Some (e + 16, upd_mem (set_lh_alloc_size e (lh_alloc_size (mem s) e)) (upd_mem (set_fb_slab e 0) s2))"
      using s2 by (simp add: AllocateLargeCached_def Let_def sizeof_LargeAllocHeader_def)
    then show ?thesis using h new sp(2) by (auto simp: got_span_def)
  next
    case False
    then have w: "large_walk k sz ?i 0 s = Some (0, s)"
      using large_walk_miss [of s k ?i 0 "gE g k ?i" sz] l(1) head pl by (auto simp: not_le)
    obtain p s' where r: "AllocateLarge api sz s = (p, s')" by force
    note a = AllocateLarge_span [OF spec tls_openD(1) [OF ok] sz r]
    show ?thesis
    proof (cases "p = 0")
      case True
      then have "tls_op api s g {} {} s' (g\<lparr>gV := gV g\<rparr>)" using a heap_op [OF spec ok, of "{}" "{}" "{}" s' "gV g"] by simp
      then show ?thesis using w r True by (auto simp: AllocateLargeCached_def Let_def got_span_def)
    next
      case False
      then obtain V' where new: "new_span api s (gV g) p sz s' V'" using a by auto
      note ns = new_span_op [OF spec ok new]
      note h = header_op [OF spec ns(1,3), of sz, simplified]
      show ?thesis using w r False h ns(3)
        by (auto simp: AllocateLargeCached_def Let_def got_span_def sizeof_LargeAllocHeader_def)
    qed
  qed
qed

section \<open>Giving a large span back\<close>

lemma free_span_op:
  fixes s :: "'a tls_state_scheme"
  assumes spec: "os_spec api" and ok: "tls_open api E F s g" and p: "Span p \<in> pieces g s" and n: "gX g p = Some n"
    and acc: "accounts_but {p..<p + n} api s (gV g) {} {} s' V'"
  shows "tls_step api E F s g {Span p} {} s' (g\<lparr>gX := (gX g)(p := None), gV := V'\<rparr>)"
proof -
  let ?g = "g\<lparr>gX := (gX g)(p := None)\<rparr>"
  have d: "tls_step api E F s g {Span p} {} s ?g" by (rule tls_opI) (use drop_span [OF ok p] in simp_all)
  have R: "{q..<q + k} \<inter> {p..<p + n} = {}" if "gX ?g q = Some k" for q k
    using that n spans_okD(2) [OF tls_openD(2) [OF ok]] by (cases "q = p") auto
  have "tls_step api E F s ?g {} {} s' (g\<lparr>gX := (gX g)(p := None), gV := V'\<rparr>)"
    using heap_op [OF spec tls_opD(1) [OF d], of "{p..<p + n}" "{}" "{}" s' V'] acc R by simp
  then show ?thesis by (rule tls_op_after [OF d])
qed

lemma ext_fits:
  assumes "os_spec api" "ext api s V p n"
  shows "n + GetPageSize api \<le> 2 ^ 64"
  using ext_facts(5) [OF assms] os_spec_page_bounds(2) [OF assms(1)] by simp

lemma park_span:
  fixes s :: "'a tls_state_scheme"
  assumes spec: "os_spec api" and ok: "tls_ok api s g" and k: "k \<in> gK g" and p: "Span p \<in> pieces g s" and n: "gX g p = Some n"
    and room: "large_counts (caches s k) (LargeSizeToClass n) < 64"
  defines "i \<equiv> LargeSizeToClass n"
  defines "s1 \<equiv> set_large k i p (upd_mem (set_le_next p (large_free_bins (caches s k) i)) (upd_mem (set_lh_alloc_size p n) s))"
  defines "s2 \<equiv> set_large_count k i (add64 (large_counts (caches s1 k) i) 1) s1"
  shows "tls_op api s g {Span p} {} s2 (g\<lparr>gE := upd2 (gE g) k i (p # gE g k i)\<rparr>)"
proof -
  have i: "i < NUM_LARGE_CLASSES" unfolding i_def by (rule large_class_bound)
  let ?F = "{(k, i)}" and ?g = "g\<lparr>gE := upd2 (gE g) k i []\<rparr>" and ?h = "large_free_bins (caches s k) i"
  let ?s0 = "upd_mem (set_le_next p ?h) (upd_mem (set_lh_alloc_size p n) s)"
  note l = lbin_okD [OF ok k i] and op = open_lbin_op [OF ok k i, simplified] and u = p [unfolded piece_span]
  have e: "8 < n" "p \<noteq> 0" "p mod 4096 = 0" using ext_facts(1,3,4) [OF spec spans_okD(1) [OF tls_openD(2) [OF ok] n]] by simp_all
  have "tls_step api {} ?F s ?g {Span p} {Span p} (upd_mem (\<lambda>m. set_le_next p ?h (set_lh_alloc_size p n m)) s) ?g"
    by (rule write_span_op [OF spec tls_opD(1) [OF op]])
       (use tls_opD(6) [OF op] p n e in \<open>auto simp: set_le_next_def set_lh_alloc_size_def\<close>)
  then have w: "tls_step api {} ?F s ?g {Span p} {Span p} ?s0 ?g" by (simp add: upd_mem_def)
  have f: "tls_step api {} ?F ?s0 ?g {} {} s2 ?g"
    by (rule frame_op [OF tls_opD(1) [OF w]], rule tls_frame_trans [of _ _ _ s1]) (simp_all add: s2_def s1_def)
  note ws = tls_op_after [OF w f]
  have np: "p \<notin> set (gE g k i)" using u parkedI by blast
  have oth: "le_next (mem s2) x = le_next (mem s) x" "lh_alloc_size (mem s2) x = lh_alloc_size (mem s) x" if "x \<in> set (gE g k i)" for x
  proof -
    have x: "x \<noteq> p" "x mod 4096 = 0" using that np ext_facts(3) [OF spec parked_facts(3) [OF spec ok that]] by auto
    then show "le_next (mem s2) x = le_next (mem s) x" "lh_alloc_size (mem s2) x = lh_alloc_size (mem s) x"
      using page_offset [of x p 8] page_offset [of p x 8] e(3) by (auto simp: s2_def s1_def set_le_next_def set_lh_alloc_size_def le_next_def lh_alloc_size_def)
  qed
  have own: "le_next (mem s2) p = ?h" "lh_alloc_size (mem s2) p = n" by (simp_all add: s2_def s1_def set_le_next_def set_lh_alloc_size_def le_next_def lh_alloc_size_def)
  have cnt: "large_counts (caches s2 k) i = length (p # gE g k i)" "length (p # gE g k i) \<le> 64"
    using room l(2) by (simp_all add: s2_def s1_def i_def add64_exact)
  have "tls_step api {} {} s2 ?g (Span ` set (p # gE g k i)) {} s2 (?g\<lparr>gE := upd2 (gE ?g) k i (p # gE g k i)\<rparr>)"
  proof (rule close_lbin_op [OF tls_opD(1) [OF f]])
    show "chain (le_next (mem s2)) (large_free_bins (caches s2 k) i) (p # gE g k i)"
      using l(1) e(2) own(1) chain_cong [OF oth(1), of "gE g k i"] by (simp add: s2_def s1_def)
    show "Span ` set (p # gE g k i) \<subseteq> pieces ?g s2" using tls_opD(6) [OF ws] tls_opD(6) [OF op] p by auto
    show "gX ?g x = Some (lh_alloc_size (mem s2) x) \<and> LargeSizeToClass (lh_alloc_size (mem s2) x) = i" if "x \<in> set (p # gE g k i)" for x
      using that own(2) oth(2) [of x] parked_facts(1,2) [OF spec ok, of x k i] n by (auto simp: i_def)
  qed (use k i cnt in simp_all)
  then have c: "tls_step api {} {} s2 ?g (Span ` set (p # gE g k i)) {} s2 (g\<lparr>gE := upd2 (gE g) k i (p # gE g k i)\<rparr>)" by simp
  have "tls_step api {} ?F s g {Span p} (Span ` set (p # gE g k i)) s2 ?g"
    by (rule tls_op_comp [OF op ws]) (use p np in auto)
  then show ?thesis by (rule tls_op_comp [OF _ c]) (use open_lbin(3) [OF ok k i] in auto)
qed

lemma GetMaxLargeCacheSize_bounds: "4 \<le> GetMaxLargeCacheSize n" "GetMaxLargeCacheSize n \<le> 64"
  by (simp_all add: GetMaxLargeCacheSize_def Let_def)

text \<open>
  Where a freed large span goes, read off the states: in front of the cache's bin of its size class
  with its size in the header, or, when that bin is full, where \<^verbatim>\<open>DeallocateLarge\<close> puts it.
\<close>

definition span_filed :: "os_api \<Rightarrow> addr \<Rightarrow> addr \<Rightarrow> nat \<Rightarrow> 'a tls_state_scheme \<Rightarrow> 'a tls_state_scheme \<Rightarrow> bool" where
  "span_filed api k p n s s' \<longleftrightarrow>
     (if large_counts (caches s k) (LargeSizeToClass n) < GetMaxLargeCacheSize n
      then large_free_bins (caches s' k) (LargeSizeToClass n) = p
        \<and> le_next (mem s') p = large_free_bins (caches s k) (LargeSizeToClass n) \<and> lh_alloc_size (mem s') p = n
        \<and> large_counts (caches s' k) (LargeSizeToClass n) = large_counts (caches s k) (LargeSizeToClass n) + 1
      else span_back api p n s s')"

lemma DeallocateLargeCached_filed:
  fixes s :: "'a tls_state_scheme"
  assumes spec: "os_spec api" and ok: "tls_ok api s g" and k: "k \<in> gK g" and n: "gX g p = Some n"
  shows "span_filed api k p n s (DeallocateLargeCached api k p n s)"
proof (cases "large_counts (caches s k) (LargeSizeToClass n) < GetMaxLargeCacheSize n")
  case True
  then have "large_counts (caches s k) (LargeSizeToClass n) < 64" using GetMaxLargeCacheSize_bounds(2) [of n] by linarith
  then show ?thesis using True
    by (simp add: span_filed_def DeallocateLargeCached_def Let_def lh_alloc_size_def set_lh_alloc_size_def le_next_def set_le_next_def
        add64_exact)
next
  case False
  have e: "ext api s (gV g) p n" by (rule spans_okD(1) [OF tls_openD(2) [OF ok] n])
  show ?thesis using False DeallocateLarge_back [OF spec tls_openD(1) [OF ok] e ext_fits [OF spec e]]
    by (simp add: span_filed_def DeallocateLargeCached_def Let_def)
qed

lemma DeallocateLargeCached_op:
  fixes s :: "'a tls_state_scheme"
  assumes spec: "os_spec api" and ok: "tls_ok api s g" and k: "k \<in> gK g" and p: "Span p \<in> pieces g s" and n: "gX g p = Some n"
  shows "\<exists>g'. tls_op api s g {Span p} {} (DeallocateLargeCached api k p n s) g'"
proof (cases "large_counts (caches s k) (LargeSizeToClass n) < GetMaxLargeCacheSize n")
  case True
  then have "large_counts (caches s k) (LargeSizeToClass n) < 64" using GetMaxLargeCacheSize_bounds(2) [of n] by linarith
  from park_span [OF spec ok k p n this] True show ?thesis by (auto simp: DeallocateLargeCached_def Let_def)
next
  case False
  have e: "ext api s (gV g) p n" by (rule spans_okD(1) [OF tls_openD(2) [OF ok] n])
  obtain V' where "accounts_but {p..<p + n} api s (gV g) {} {} (DeallocateLarge api p n s) V'"
    using DeallocateLarge_accounts [OF spec tls_openD(1) [OF ok] e ext_fits [OF spec e]] by blast
  from free_span_op [OF spec ok p n this] False show ?thesis by (auto simp: DeallocateLargeCached_def Let_def)
qed

section \<open>Flushing\<close>

lemma flush_bin_op:
  fixes s :: "'a tls_state_scheme"
  assumes spec: "os_spec api" and ok: "tls_ok api s g" and k: "k \<in> gK g" "c < NUM_SIZE_CLASSES"
  shows "\<exists>s1 V1. (if bin_head (get_bin k c s) \<noteq> 0 then
                   if bin_count (get_bin k c s) \<le> kDeferMaxBin then DeferBinToPending c (bin_head (get_bin k c s)) s
                   else DeallocateBatchClass api c (bin_head (get_bin k c s)) s
                 else Some s) = Some s1 \<and> env s1 = env s
    \<and> tls_op api s g {} {} (set_bin k c bin_zero s1) (g\<lparr>gV := V1, gB := upd2 (gB g) k c []\<rparr>)"
    (is "\<exists>s1 V1. ?run = Some s1 \<and> _ s1 \<and> _ s1 V1")
proof -
  note o = tls_openD [OF ok] and b = bin_okD [OF spec ok k]
  obtain s1 V1 where r: "?run = Some s1" and a: "accounts api s (gV g) (set (gB g k c)) {} s1 V1"
  proof (cases "bin_head (get_bin k c s) = 0")
    case True
    then show thesis using that [of s "gV g"] accounts_refl [OF o(1)] b(5) by simp
  next
    case False
    then show thesis using that DeferBinToPending_accounts [OF spec o(1) b(1)] DeallocateBatchClass_accounts [OF spec o(1) b(1)]
      by (metis (no_types, lifting))
  qed
  have "tls_op api s g (Block ` ((set (gB g k c) \<union> set []) - set (gB g k c))) (Block ` (set (gB g k c) - set (gB g k c) \<union> {} - set []))
    (set_bin k c bin_zero s1) (g\<lparr>gV := V1, gB := upd2 (gB g) k c []\<rparr>)"
    by (rule bin_txn [OF spec ok k tls_frame_refl a tls_frame_bins(1) [OF singletonI] _ Int_empty_left])
       (use CACHE_LIMITS_bounds [OF k(2)] in \<open>auto simp: bin_zero_def held_list_def\<close>)
  then show ?thesis using r accounts_env [OF a] by auto
qed

lemma get_bin_other [simp]: "get_bin q d (set_bin k c b s) = (if q = k \<and> d = c then b else get_bin q d s)"
  by (simp add: get_bin_def set_bin_def set_cache_def)

lemma large_set_bin [simp]:
  "large_free_bins (caches (set_bin k c b s) q) = large_free_bins (caches s q)" "large_counts (caches (set_bin k c b s) q) = large_counts (caches s q)"
  by (simp_all add: set_bin_def set_cache_def)

definition flushed :: "addr \<Rightarrow> nat set \<Rightarrow> 'a tls_state_scheme \<Rightarrow> ghost \<Rightarrow> 'a tls_state_scheme \<Rightarrow> ghost \<Rightarrow> bool" where
  "flushed k C s g s' g' \<longleftrightarrow> gB g' = (\<lambda>q c. if q = k \<and> c \<in> C then [] else gB g q c) \<and> gE g' = gE g \<and> gX g' = gX g
     \<and> (\<forall>c. get_bin k c s' = (if c \<in> C then bin_zero else get_bin k c s))"

lemma flush_bins_op:
  fixes s :: "'a tls_state_scheme"
  assumes spec: "os_spec api"
  shows "tls_ok api s g \<Longrightarrow> k \<in> gK g \<Longrightarrow> (\<And>c. c \<in> set cs \<Longrightarrow> c < NUM_SIZE_CLASSES) \<Longrightarrow>
    \<exists>s' g'. flush_bins api k cs s = Some s' \<and> tls_op api s g {} {} s' g' \<and> flushed k (set cs) s g s' g'"
proof (induction cs arbitrary: s g)
  case Nil
  then show ?case using tls_op_refl by (fastforce simp: flushed_def)
next
  case (Cons c cs)
  obtain s1 V1 where one: "flush_bins api k (c # cs) s = flush_bins api k cs (set_bin k c bin_zero s1)" "env s1 = env s"
    "tls_op api s g {} {} (set_bin k c bin_zero s1) (g\<lparr>gV := V1, gB := upd2 (gB g) k c []\<rparr>)"
    using flush_bin_op [OF spec Cons.prems(1,2), of c] Cons.prems(3) by (auto simp: Let_def)
  obtain s' g' where two: "flush_bins api k cs (set_bin k c bin_zero s1) = Some s'"
    "tls_op api (set_bin k c bin_zero s1) (g\<lparr>gV := V1, gB := upd2 (gB g) k c []\<rparr>) {} {} s' g'"
    "flushed k (set cs) (set_bin k c bin_zero s1) (g\<lparr>gV := V1, gB := upd2 (gB g) k c []\<rparr>) s' g'"
    using Cons.IH [OF tls_opD(1) [OF one(3)]] Cons.prems(2,3) by (auto simp del: upd2_apply)
  have "flushed k (set (c # cs)) s g s' g'"
    using two(3) env_tls(7) [OF one(2)] unfolding flushed_def by (auto simp: fun_eq_iff)
  then show ?case using one(1) two tls_op_after [OF one(3) two(2)] by auto
qed

lemma flush_large_walk_op:
  fixes s :: "'a tls_state_scheme"
  assumes spec: "os_spec api"
  shows "tls_open api E F s g \<Longrightarrow> chain (le_next (mem s)) e xs \<Longrightarrow> Span ` set xs \<subseteq> pieces g s \<Longrightarrow>
    (\<And>x. x \<in> set xs \<Longrightarrow> gX g x = Some (lh_alloc_size (mem s) x)) \<Longrightarrow>
    \<exists>s' g'. flush_large_walk api e s = Some s' \<and> tls_step api E F s g (Span ` set xs) {} s' g'
      \<and> gB g' = gB g \<and> gE g' = gE g \<and> caches s' = caches s
      \<and> (\<forall>y. y \<notin> set xs \<longrightarrow> gX g' y = gX g y)
      \<and> spans_grow s s' \<and> (\<forall>x \<in> set xs. span_given api x (lh_alloc_size (mem s) x) s s')"
proof (induction xs arbitrary: s g e)
  case Nil
  then show ?case using tls_op_refl [OF Nil.prems(1)] by (auto simp: flush_large_walk.simps)
next
  case (Cons x xs)
  let ?n = "lh_alloc_size (mem s) x" and ?s1 = "DeallocateLarge api x (lh_alloc_size (mem s) x) s"
  have x: "e = x" "x \<noteq> 0" "chain (le_next (mem s)) (le_next (mem s) x) xs" "Span x \<in> pieces g s" "gX g x = Some ?n"
    using Cons.prems(2-4) by simp_all
  have ex: "ext api s (gV g) x ?n" by (rule spans_okD(1) [OF tls_openD(2) [OF Cons.prems(1)] x(5)])
  obtain V' where acc: "accounts_but {x..<x + ?n} api s (gV g) {} {} ?s1 V'"
    using DeallocateLarge_accounts [OF spec tls_openD(1) [OF Cons.prems(1)] ex ext_fits [OF spec ex]] by blast
  let ?g = "g\<lparr>gX := (gX g)(x := None), gV := V'\<rparr>"
  note st = free_span_op [OF spec Cons.prems(1) x(4,5) acc]
  have dist: "x \<notin> set xs" using chain_distinct [OF Cons.prems(2)] by simp
  have keep: "le_next (mem ?s1) y = le_next (mem s) y \<and> lh_alloc_size (mem ?s1) y = lh_alloc_size (mem s) y" if "y \<in> set xs" for y
  proof -
    have y: "gX g y = Some (lh_alloc_size (mem s) y)" "Span y \<in> pieces g s - {Span x}" using Cons.prems(3,4) that dist by auto
    have "8 < lh_alloc_size (mem s) y" using ext_facts(4) [OF spec spans_okD(1) [OF tls_openD(2) [OF Cons.prems(1)] y(1)]] by simp
    then show ?thesis using movesD(3) [OF tls_opD(2) [OF st], of "Span y"] y by (simp add: le_next_def lh_alloc_size_def)
  qed
  have ch: "chain (le_next (mem ?s1)) (le_next (mem s) x) xs" using x(3) keep chain_cong [of xs "le_next (mem ?s1)" "le_next (mem s)"] by simp
  have "\<exists>s' g'. flush_large_walk api (le_next (mem s) x) ?s1 = Some s' \<and> tls_step api E F ?s1 ?g (Span ` set xs) {} s' g'
      \<and> gB g' = gB ?g \<and> gE g' = gE ?g \<and> caches s' = caches ?s1
      \<and> (\<forall>y. y \<notin> set xs \<longrightarrow> gX g' y = gX ?g y)
      \<and> spans_grow ?s1 s' \<and> (\<forall>x \<in> set xs. span_given api x (lh_alloc_size (mem ?s1) x) ?s1 s')"
    by (rule Cons.IH [OF tls_opD(1) [OF st] ch]) (use Cons.prems(3,4) tls_opD(6) [OF st] keep dist in auto)
  then obtain s' g' where r: "flush_large_walk api (le_next (mem s) x) ?s1 = Some s'" "tls_step api E F ?s1 ?g (Span ` set xs) {} s' g'"
    "gB g' = gB g" "gE g' = gE g" "caches s' = caches s"
    "\<forall>y. y \<notin> set (x # xs) \<longrightarrow> gX g' y = gX g y" "spans_grow ?s1 s'" "\<forall>x \<in> set xs. span_given api x (lh_alloc_size (mem s) x) ?s1 s'"
    using env_tls(1) [OF accounts_env [OF acc]] keep by auto
  note dg = DeallocateLarge_given [OF spec tls_openD(1) [OF Cons.prems(1)] ex ext_fits [OF spec ex]]
  have "spans_grow s s'" "\<forall>y \<in> set (x # xs). span_given api y (lh_alloc_size (mem s) y) s s'"
    using spans_grow_trans [OF dg(2) r(7)] span_given_after [OF dg(1) r(7)] span_given_before [OF dg(2)] r(8) by auto
  have "tls_step api E F s g (Span ` set (x # xs)) {} s' g'" by (rule tls_op_comp [OF st r(2)]) auto
  with \<open>spans_grow s s'\<close> \<open>\<forall>y \<in> set (x # xs). _ y\<close> show ?case
    using r(1,3-6) x(1,2) by (intro exI [of _ s'] exI [of _ g']) (simp add: flush_large_walk.simps [of api x s] Let_def)
qed

definition unparked :: "os_api \<Rightarrow> addr \<Rightarrow> nat set \<Rightarrow> 'a tls_state_scheme \<Rightarrow> ghost \<Rightarrow> 'a tls_state_scheme \<Rightarrow> ghost \<Rightarrow> bool" where
  "unparked api k I s g s' g' \<longleftrightarrow> gE g' = (\<lambda>q i. if q = k \<and> i \<in> I then [] else gE g q i) \<and> gB g' = gB g
     \<and> (\<forall>c. get_bin k c s' = get_bin k c s)
     \<and> (\<forall>i. large_free_bins (caches s' k) i = (if i \<in> I then 0 else large_free_bins (caches s k) i)
         \<and> large_counts (caches s' k) i = (if i \<in> I then 0 else large_counts (caches s k) i))
     \<and> spans_grow s s' \<and> (\<forall>i \<in> I. \<forall>e \<in> set (gE g k i). span_given api e (the (gX g e)) s s')
     \<and> (\<forall>e. e \<notin> (\<Union>i \<in> I. set (gE g k i)) \<longrightarrow> gX g' e = gX g e)"

lemma get_bin_large [simp]: "get_bin q c (set_large k i e s) = get_bin q c s" "get_bin q c (set_large_count k i n s) = get_bin q c s"
  by (simp_all add: get_bin_def set_large_def set_large_count_def set_cache_def)

lemma flush_lbin_op:
  fixes s :: "'a tls_state_scheme"
  assumes spec: "os_spec api" and ok: "tls_ok api s g" and k: "k \<in> gK g" "i < NUM_LARGE_CLASSES"
  shows "\<exists>s1 g'. flush_large_walk api (large_free_bins (caches s k) i) s = Some s1
    \<and> tls_op api s g {} {} (set_large_count k i 0 (set_large k i 0 s1)) g'
    \<and> unparked api k {i} s g (set_large_count k i 0 (set_large k i 0 s1)) g'"
proof -
  let ?F = "{(k, i)}" and ?g = "g\<lparr>gE := upd2 (gE g) k i []\<rparr>"
  note l = lbin_okD [OF ok k] and op = open_lbin_op [OF ok k, simplified]
  have "Span ` set (gE g k i) \<subseteq> pieces ?g s" using tls_opD(6) [OF op] by simp
  moreover have "\<And>x. x \<in> set (gE g k i) \<Longrightarrow> gX ?g x = Some (lh_alloc_size (mem s) x)" using parked_facts(1) [OF spec ok] by simp
  ultimately obtain s1 g1 where w: "flush_large_walk api (large_free_bins (caches s k) i) s = Some s1"
    "tls_step api {} ?F s ?g (Span ` set (gE g k i)) {} s1 g1" "gB g1 = gB g" "gE g1 = upd2 (gE g) k i []" "caches s1 = caches s"
    "\<forall>y. y \<notin> set (gE g k i) \<longrightarrow> gX g1 y = gX g y" "spans_grow s s1" "\<forall>x \<in> set (gE g k i). span_given api x (lh_alloc_size (mem s) x) s s1"
    using flush_large_walk_op [OF spec tls_opD(1) [OF op] l(1)] by (auto simp del: upd2_apply)
  let ?s2 = "set_large_count k i 0 (set_large k i 0 s1)"
  have f: "tls_step api {} ?F s1 g1 {} {} ?s2 g1"
    by (rule frame_op [OF tls_opD(1) [OF w(2)]], rule tls_frame_trans [of _ _ _ "set_large k i 0 s1"]) simp_all
  have "tls_step api {} {} ?s2 g1 (Span ` set []) {} ?s2 (g1\<lparr>gE := upd2 (gE g1) k i []\<rparr>)"
    by (rule close_lbin_op [OF tls_opD(1) [OF f]]) (use k tls_opD(4) [OF w(2)] in simp_all)
  moreover have "g1\<lparr>gE := upd2 (gE g1) k i []\<rparr> = g1" using w(4) by simp
  ultimately have c: "tls_step api {} {} ?s2 g1 {} {} ?s2 g1" by simp
  have x: "tls_step api {} ?F s g {} {} s1 g1" by (rule tls_op_comp [OF op w(2)]) (use open_lbin(3) [OF ok k] in auto)
  have t: "tls_op api s g {} {} ?s2 g1" by (rule tls_op_after [OF tls_op_after [OF x f] c])
  have "unparked api k {i} s g ?s2 g1" unfolding unparked_def
  proof (intro conjI allI)
    show "gE g1 = (\<lambda>q j. if q = k \<and> j \<in> {i} then [] else gE g q j)" using w(4) by (auto simp: fun_eq_iff)
    show "get_bin k c ?s2 = get_bin k c s" for c using w(5) by simp (simp add: get_bin_def)
    show "large_free_bins (caches ?s2 k) j = (if j \<in> {i} then 0 else large_free_bins (caches s k) j)"
      "large_counts (caches ?s2 k) j = (if j \<in> {i} then 0 else large_counts (caches s k) j)" for j
      using w(5) by (simp_all add: set_large_def set_large_count_def set_cache_def)
    have same: "os_log ?s2 = os_log s1" "bin_spans ?s2 = bin_spans s1"
      by (simp_all add: set_large_def set_large_count_def set_cache_def bin_spans_def fun_eq_iff)
    show "spans_grow s ?s2" using w(7) by (simp add: spans_grow_def same)
    show "\<forall>j \<in> {i}. \<forall>e \<in> set (gE g k j). span_given api e (the (gX g e)) s ?s2"
      using w(8) parked_facts(1) [OF spec ok] by (auto simp: span_given_def same)
    show "e \<notin> (\<Union>j \<in> {i}. set (gE g k j)) \<longrightarrow> gX g1 e = gX g e" for e using w(6) by simp
  qed (rule w(3))
  with t w(1) show ?thesis by blast
qed

lemma flush_large_op:
  fixes s :: "'a tls_state_scheme"
  assumes spec: "os_spec api"
  shows "tls_ok api s g \<Longrightarrow> k \<in> gK g \<Longrightarrow> (\<And>i. i \<in> set js \<Longrightarrow> i < NUM_LARGE_CLASSES) \<Longrightarrow>
    \<exists>s' g'. flush_large api k js s = Some s' \<and> tls_op api s g {} {} s' g' \<and> unparked api k (set js) s g s' g'"
proof (induction js arbitrary: s g)
  case Nil
  then show ?case using tls_op_refl by (fastforce simp: unparked_def)
next
  case (Cons i js)
  obtain s1 g1 where one: "flush_large api k (i # js) s = flush_large api k js s1"
    "tls_op api s g {} {} s1 g1" "unparked api k {i} s g s1 g1"
    using flush_lbin_op [OF spec Cons.prems(1,2), of i] Cons.prems(3) by auto
  obtain s' g' where two: "flush_large api k js s1 = Some s'" "tls_op api s1 g1 {} {} s' g'" "unparked api k (set js) s1 g1 s' g'"
    using Cons.IH [OF tls_opD(1) [OF one(2)]] Cons.prems(2,3) tls_opD(4) [OF one(2)] by auto
  have gr: "spans_grow s s1" "spans_grow s1 s'" "gE g1 = (\<lambda>q j. if q = k \<and> j = i then [] else gE g q j)"
    using one(3) two(3) by (simp_all add: unparked_def)
  have gx: "gX g1 e = gX g e" if "e \<in> set (gE g k j)" "j \<noteq> i" for e j
    using one(3) lbin_unique [OF tls_openD(4) [OF Cons.prems(1)] that(1), of k i] that(2) by (auto simp: unparked_def)
  have given: "span_given api e (the (gX g e)) s s'" if "j \<in> set (i # js)" "e \<in> set (gE g k j)" for j e
  proof (cases "j = i")
    case True
    then show ?thesis using one(3) that span_given_after [OF _ gr(2)] by (simp add: unparked_def)
  next
    case False
    then have "span_given api e (the (gX g1 e)) s1 s'" using two(3) that gr(3) by (simp add: unparked_def)
    then show ?thesis using span_given_before [OF gr(1)] gx [OF that(2) False] by simp
  qed
  have "gX g' e = gX g e" if "e \<notin> (\<Union>j \<in> set (i # js). set (gE g k j))" for e
    using one(3) two(3) that gr(3) by (simp add: unparked_def)
  then have "unparked api k (set (i # js)) s g s' g'"
    using one(3) two(3) given spans_grow_trans [OF gr(1,2)] unfolding unparked_def by (auto simp: fun_eq_iff)
  then show ?case using one(1) two tls_op_after [OF one(2) two(2)] by auto
qed

definition empty_cache :: "addr \<Rightarrow> 'a tls_state_scheme \<Rightarrow> ghost \<Rightarrow> bool" where
  "empty_cache k s g \<longleftrightarrow> (\<forall>c. gB g k c = []) \<and> (\<forall>i. gE g k i = [])
     \<and> (\<forall>c < NUM_SIZE_CLASSES. get_bin k c s = bin_zero)
     \<and> (\<forall>i < NUM_LARGE_CLASSES. large_free_bins (caches s k) i = 0 \<and> large_counts (caches s k) i = 0)"

text \<open>Every large span the cache held was given back, after the small bins were.\<close>

definition large_given :: "os_api \<Rightarrow> addr \<Rightarrow> 'a tls_state_scheme \<Rightarrow> ghost \<Rightarrow> 'a tls_state_scheme \<Rightarrow> bool" where
  "large_given api k s g s' \<longleftrightarrow> (\<exists>s1. flush_bins api k [0..<NUM_SIZE_CLASSES] s = Some s1
     \<and> (\<forall>i < NUM_LARGE_CLASSES. \<forall>e \<in> set (gE g k i). span_given api e (the (gX g e)) s1 s'))"

lemma FlushToGlobalHeap_op:
  fixes s :: "'a tls_state_scheme"
  assumes spec: "os_spec api" and ok: "tls_ok api s g" and k: "k \<in> gK g"
  shows "\<exists>s' g'. FlushToGlobalHeap api k s = Some s' \<and> tls_op api s g {} {} s' g' \<and> empty_cache k s' g'
    \<and> (\<forall>q. q \<noteq> k \<longrightarrow> gB g' q = gB g q \<and> gE g' q = gE g q) \<and> large_given api k s g s'"
proof -
  obtain s1 g1 where a: "flush_bins api k [0..<NUM_SIZE_CLASSES] s = Some s1" "tls_op api s g {} {} s1 g1" "flushed k {0..<NUM_SIZE_CLASSES} s g s1 g1"
    using flush_bins_op [OF spec ok k, of "[0..<NUM_SIZE_CLASSES]"] by auto
  obtain s2 g2 where b: "flush_large api k [0..<NUM_LARGE_CLASSES] s1 = Some s2" "tls_op api s1 g1 {} {} s2 g2" "unparked api k {0..<NUM_LARGE_CLASSES} s1 g1 s2 g2"
    using flush_large_op [OF spec tls_opD(1) [OF a(2)], of k "[0..<NUM_LARGE_CLASSES]"] k tls_opD(4) [OF a(2)] by auto
  have "gB g k c = []" if "\<not> c < NUM_SIZE_CLASSES" for c using tls_openD(3) [OF ok] that by (simp add: bins_ok_def)
  moreover have "gE g k i = []" if "\<not> i < NUM_LARGE_CLASSES" for i using tls_openD(4) [OF ok] that by (simp add: lbins_ok_def)
  ultimately have "empty_cache k s2 g2" "\<forall>q. q \<noteq> k \<longrightarrow> gB g2 q = gB g q \<and> gE g2 q = gE g q"
    using a(3) b(3) by (auto simp: empty_cache_def flushed_def unparked_def)
  moreover have "large_given api k s g s2" using a(1,3) b(3) by (auto simp: large_given_def flushed_def unparked_def)
  ultimately show ?thesis using a(1) b(1) tls_op_after [OF a(2) b(2)] by (auto simp: FlushToGlobalHeap_def)
qed

end
