(* ===== verification/FA_TLSLife.thy ===== *)
theory FA_TLSLife
  imports FA_TLSOps
begin

text \<open>
  The life cycle of the thread caches: creation on first use, recycling through the pool, and the
  thread-exit destructor. A cache object lives in a span of its own; while it is neither live nor in
  the pool its span counts as held outside, so each step below moves one span.
\<close>

section \<open>Enrolling and retiring a cache\<close>

definition zero_cache :: "tls_cache \<Rightarrow> bool" where
  "zero_cache x \<longleftrightarrow> (\<forall>c < NUM_SIZE_CLASSES. bins x c = bin_zero) \<and> arena_index x < NUM_ARENAS
     \<and> (\<forall>i < NUM_LARGE_CLASSES. large_free_bins x i = 0 \<and> large_counts x i = 0)"

lemma hub_okD:
  assumes "hub_ok api s g"
  shows "k \<in> gK g \<union> set (cache_pool s) \<Longrightarrow> gX g k = Some (cache_span api)" "k \<in> gK g \<Longrightarrow> arena_index (caches s k) < NUM_ARENAS"
    "distinct (cache_pool s)" "length (cache_pool s) \<le> kCachePoolCap" "gK g \<inter> set (cache_pool s) = {}"
    "thread_cache s t \<noteq> 0 \<Longrightarrow> thread_cache s t \<in> gK g" "tls_specific s t \<noteq> 0 \<Longrightarrow> tls_specific s t = thread_cache s t"
    "thread_cache s t \<noteq> 0 \<Longrightarrow> thread_cache s t = thread_cache s t' \<Longrightarrow> t = t'"
  using assms unfolding hub_ok_def by blast+

lemma hub_okI:
  assumes "\<And>k. k \<in> gK g \<union> set (cache_pool s) \<Longrightarrow> gX g k = Some (cache_span api)" "\<And>k. k \<in> gK g \<Longrightarrow> arena_index (caches s k) < NUM_ARENAS"
    "distinct (cache_pool s)" "length (cache_pool s) \<le> kCachePoolCap" "gK g \<inter> set (cache_pool s) = {}"
    "\<And>t. thread_cache s t \<noteq> 0 \<Longrightarrow> thread_cache s t \<in> gK g" "\<And>t. tls_specific s t \<noteq> 0 \<Longrightarrow> tls_specific s t = thread_cache s t"
    "\<And>t t'. thread_cache s t \<noteq> 0 \<Longrightarrow> thread_cache s t = thread_cache s t' \<Longrightarrow> t = t'"
  shows "hub_ok api s g"
  using assms unfolding hub_ok_def by blast

lemma hub_change:
  assumes ho: "hub_ok api s g" and same: "thread_cache s' = thread_cache s" "tls_specific s' = tls_specific s"
    and new: "\<And>k. k \<in> gK g' \<union> set (cache_pool s') \<Longrightarrow> gX g' k = Some (cache_span api)" "\<And>k. k \<in> gK g' \<Longrightarrow> arena_index (caches s' k) < NUM_ARENAS"
      "distinct (cache_pool s')" "length (cache_pool s') \<le> kCachePoolCap" "gK g' \<inter> set (cache_pool s') = {}"
      "\<And>t. thread_cache s t \<noteq> 0 \<Longrightarrow> thread_cache s t \<in> gK g'"
  shows "hub_ok api s' g'"
proof (rule hub_okI)
  show "tls_specific s' t = thread_cache s' t" if "tls_specific s' t \<noteq> 0" for t
    unfolding same by (rule hub_okD(7) [OF ho]) (use that same in simp)
  show "t = t'" if "thread_cache s' t \<noteq> 0" "thread_cache s' t = thread_cache s' t'" for t t'
    by (rule hub_okD(8) [OF ho that [unfolded same]])
qed (use new same(1) in simp_all)

text \<open>A step that leaves the heap and the caches' lists alone and only redistributes cache objects.\<close>

lemma regroup:
  fixes s s' :: "'a tls_state_scheme"
  assumes ok: "tls_ok api s g" and core: "core s' = core s"
    and g': "gV g' = gV g" "gX g' = gX g" "gB g' = gB g" "gE g' = gE g"
    and same: "\<And>k. k \<in> gK g \<Longrightarrow> k \<in> gK g' \<Longrightarrow> bins (caches s' k) = bins (caches s k)
      \<and> large_free_bins (caches s' k) = large_free_bins (caches s k) \<and> large_counts (caches s' k) = large_counts (caches s k)"
    and new: "\<And>k. k \<in> gK g' \<Longrightarrow> k \<notin> gK g \<Longrightarrow> zero_cache (caches s' k)"
    and old: "\<And>k. k \<in> gK g \<Longrightarrow> k \<notin> gK g' \<Longrightarrow> (\<forall>c. gB g k c = []) \<and> (\<forall>i. gE g k i = [])"
    and hub: "hub_ok api s' g'" and pk: "parked g \<inter> (gK g' \<union> set (cache_pool s')) = {}"
    and lk: "lock_busy s' = lock_busy s" "pool_lock_busy s' = pool_lock_busy s"
  shows "tls_ok api s' g'"
    "moves (s, g) (Span ` (gK g' \<union> set (cache_pool s'))) (Span ` ((gK g \<union> set (cache_pool s)) - (gK g' \<union> set (cache_pool s')))) (s', g')"
proof -
  note o = tls_openD [OF ok] and m = coreD [OF core]
  have gs: "parked g' = parked g" "binned g' = binned g" by (simp_all add: parked_def binned_def g')
  have nilB: "gB g k c = []" if "k \<notin> gK g \<or> \<not> c < NUM_SIZE_CLASSES" for k c using o(3) that unfolding bins_ok_def by blast
  have nilE: "gE g k c = []" if "k \<notin> gK g \<or> \<not> c < NUM_LARGE_CLASSES" for k c using o(4) that unfolding lbins_ok_def by blast
  have "bin_ok s' g' k c" if kc: "k \<in> gK g'" "c < NUM_SIZE_CLASSES" for k c
  proof (cases "k \<in> gK g")
    case True
    then show ?thesis using bins_okD(1) [OF o(3) True kc(2)] same [OF True kc(1)] by (simp add: bin_ok_def get_bin_def held_list_def m g')
  next
    case False
    then show ?thesis using new [OF kc(1) False] nilB kc(2) CACHE_LIMITS_bounds [OF kc(2)]
      by (auto simp: bin_ok_def get_bin_def held_list_def g' zero_cache_def bin_zero_def)
  qed
  moreover have "gB g' k c = []" if "k \<notin> gK g' \<or> \<not> c < NUM_SIZE_CLASSES" for k c using that old [of k] nilB [of k c] by (auto simp: g')
  ultimately have b: "bins_ok {} s' g'" using o(3) by (simp add: bins_ok_def g')
  have "lbin_ok s' g' k i" if kc: "k \<in> gK g'" "i < NUM_LARGE_CLASSES" for k i
  proof (cases "k \<in> gK g")
    case True
    then show ?thesis using lbins_okD(1) [OF o(4) True kc(2)] same [OF True kc(1)] unfolding lbin_ok_def m g' by simp
  next
    case False
    then show ?thesis using new [OF kc(1) False] nilE kc(2) by (simp add: lbin_ok_def g' zero_cache_def)
  qed
  moreover have "gE g' k i = []" if "k \<notin> gK g' \<or> \<not> i < NUM_LARGE_CLASSES" for k i using that old [of k] nilE [of k i] by (auto simp: g')
  ultimately have l: "lbins_ok {} s' g'" using o(4) pk unfolding lbins_ok_def gs g' by blast
  have "spans_ok api s' g'" using o(2) by (simp add: spans_ok_def m g')
  then show "tls_ok api s' g'" using o(1) b l hub by (simp add: tls_open_def m g')
  have "pieces g' s' = pieces g s - Span ` (gK g' \<union> set (cache_pool s')) \<union> Span ` ((gK g \<union> set (cache_pool s)) - (gK g' \<union> set (cache_pool s')))"
    using lbins_okD(5) [OF o(4)] parked_dom(2) [OF ok] by (auto simp: pieces_def user_blocks_def user_spans_def gs g' m)
  moreover have "piece_cells g' mm u = piece_cells g mm u" for mm u by (cases u) (simp_all add: g')
  ultimately show "moves (s, g) (Span ` (gK g' \<union> set (cache_pool s'))) (Span ` ((gK g \<union> set (cache_pool s)) - (gK g' \<union> set (cache_pool s')))) (s', g')"
    by (simp add: moves_def m lk)
qed

lemma moves_cong:
  assumes "moves x A B y" "pieces (snd x) (fst x) \<inter> A' = pieces (snd x) (fst x) \<inter> A"
  shows "moves x A' B y"
proof -
  have "pieces (snd x) (fst x) - A' = pieces (snd x) (fst x) - A" using assms(2) by blast
  then show ?thesis using assms(1) by (simp add: moves_def)
qed

lemma enroll_cache:
  fixes s :: "'a tls_state_scheme"
  assumes ok: "tls_ok api s g" and p: "Span p \<in> pieces g s" "gX g p = Some (cache_span api)"
    and s': "core s' = core s" "hub s' = hub s" "caches s' = (caches s)(p := x)" "zero_cache x"
  shows "tls_acc api (s, g) {Span p} {} (s', g\<lparr>gK := insert p (gK g)\<rparr>)"
proof -
  let ?g = "g\<lparr>gK := insert p (gK g)\<rparr>"
  note u = p(1) [unfolded piece_span] and h = hubD [OF s'(2)] and ho = hub_okD [OF tls_openD(5) [OF ok]]
  have c: "caches s' k = caches s k" if "k \<in> gK g" for k using u s'(3) that by auto
  have hub: "hub_ok api s' ?g"
  proof (rule hub_change [OF tls_openD(5) [OF ok] h(9,3)])
    show "arena_index (caches s' k) < NUM_ARENAS" if "k \<in> gK ?g" for k
      using that ho(2) [of k] s'(3,4) by (cases "k = p") (auto simp: zero_cache_def)
    show "gX ?g k = Some (cache_span api)" if "k \<in> gK ?g \<union> set (cache_pool s')" for k
      using that ho(1) [of k] p(2) h(1) by (cases "k = p") auto
    show "thread_cache s t \<in> gK ?g" if "thread_cache s t \<noteq> 0" for t using ho(6) [OF that] by simp
  qed (use ho(3,4,5) u h(1) in simp_all)
  have r: "tls_ok api s' ?g" "moves (s, g) (Span ` (gK ?g \<union> set (cache_pool s'))) (Span ` ((gK g \<union> set (cache_pool s)) - (gK ?g \<union> set (cache_pool s')))) (s', ?g)"
    by (rule regroup [OF ok s'(1) _ _ _ _ _ _ _ hub]; use c s'(3,4) u h lbins_okD(5) [OF tls_openD(4) [OF ok]] in auto)+
  have none: "(gK g \<union> set (cache_pool s)) - (gK ?g \<union> set (cache_pool s')) = {}" using h(1) by auto
  have "moves (s, g) (Span ` (gK ?g \<union> set (cache_pool s'))) {} (s', ?g)" using r(2) unfolding none by simp
  then have "moves (s, g) {Span p} {} (s', ?g)" by (rule moves_cong) (use u h(1) in \<open>auto simp: piece_span\<close>)
  then show ?thesis using r(1) by (simp add: tls_acc_def)
qed

lemma pop_pool:
  fixes s :: "'a tls_state_scheme"
  assumes ok: "tls_ok api s g" and ne: "cache_pool s \<noteq> []"
  defines "s' \<equiv> s\<lparr>cache_pool := butlast (cache_pool s)\<rparr>" and "p \<equiv> last (cache_pool s)"
  shows "tls_acc api (s, g) {} {Span p} (s', g)" "gX g p = Some (cache_span api)" "Span p \<notin> pieces g s"
proof -
  note ho = hub_okD [OF tls_openD(5) [OF ok]]
  obtain ys where ys: "cache_pool s = ys @ [p]" using append_butlast_last_id [OF ne] p_def by metis
  have pp: "p \<in> set (cache_pool s)" and bl: "set (butlast (cache_pool s)) = set (cache_pool s) - {p}" using ho(3) by (auto simp: ys)
  show "gX g p = Some (cache_span api)" using ho(1) pp by blast
  show "Span p \<notin> pieces g s" using pp by (simp add: piece_span)
  have tc: "thread_cache s' = thread_cache s" by (auto simp: thread_cache_def s'_def fun_eq_iff)
  have pl: "set (cache_pool s') = set (cache_pool s) - {p}" using bl by (simp add: s'_def)
  have hub: "hub_ok api s' g"
  proof (rule hub_change [OF tls_openD(5) [OF ok] tc])
    show "distinct (cache_pool s')" using ho(3) by (simp add: s'_def distinct_butlast)
    show "length (cache_pool s') \<le> kCachePoolCap" using ho(4) by (simp add: s'_def)
    show "gK g \<inter> set (cache_pool s') = {}" using ho(5) bl by (auto simp: s'_def)
    show "gX g k = Some (cache_span api)" if "k \<in> gK g \<union> set (cache_pool s')" for k
      by (rule ho(1)) (use that bl in \<open>auto simp: s'_def\<close>)
  qed (use ho(2,6) in \<open>simp_all add: s'_def\<close>)
  have r: "tls_ok api s' g" "moves (s, g) (Span ` (gK g \<union> set (cache_pool s'))) (Span ` ((gK g \<union> set (cache_pool s)) - (gK g \<union> set (cache_pool s')))) (s', g)"
    by (rule regroup [OF ok _ _ _ _ _ _ _ _ hub]; use bl lbins_okD(5) [OF tls_openD(4) [OF ok]] in \<open>auto simp: s'_def core_def\<close>)+
  have "(gK g \<union> set (cache_pool s)) - (gK g \<union> set (cache_pool s')) = {p}" unfolding pl using pp ho(5) by blast
  with r(2) have "moves (s, g) (Span ` (gK g \<union> set (cache_pool s'))) {Span p} (s', g)" by simp
  then have "moves (s, g) {} {Span p} (s', g)" by (rule moves_cong) (auto simp: piece_span pl)
  then show "tls_acc api (s, g) {} {Span p} (s', g)" using r(1) by (simp add: tls_acc_def)
qed

lemma retire_cache:
  fixes s :: "'a tls_state_scheme"
  assumes ok: "tls_ok api s g" and k: "k \<in> gK g" "\<And>t. thread_cache s t \<noteq> k"
    and e: "\<And>c. gB g k c = []" "\<And>i. gE g k i = []"
  defines "g' \<equiv> g\<lparr>gK := gK g - {k}\<rparr>"
  shows "tls_acc api (s, g) {} {Span k} (s, g')" "gX g' k = Some (cache_span api)" "Span k \<notin> pieces g s"
proof -
  note ho = hub_okD [OF tls_openD(5) [OF ok]]
  show "gX g' k = Some (cache_span api)" using ho(1) k(1) by (simp add: g'_def)
  show "Span k \<notin> pieces g s" using k(1) by (simp add: piece_span)
  have hub: "hub_ok api s g'"
  proof (rule hub_change [OF tls_openD(5) [OF ok] refl refl])
    show "thread_cache s t \<in> gK g'" if "thread_cache s t \<noteq> 0" for t using ho(6) [OF that] k(2) [of t] by (simp add: g'_def)
    show "gK g' \<inter> set (cache_pool s) = {}" using ho(5) by (auto simp: g'_def)
    show "gX g' q = Some (cache_span api)" if "q \<in> gK g' \<union> set (cache_pool s)" for q
      using ho(1) [of q] that by (auto simp: g'_def)
  qed (use ho(2,3,4) in \<open>simp_all add: g'_def\<close>)
  have r: "tls_ok api s g'" "moves (s, g) (Span ` (gK g' \<union> set (cache_pool s))) (Span ` ((gK g \<union> set (cache_pool s)) - (gK g' \<union> set (cache_pool s)))) (s, g')"
    by (rule regroup [OF ok _ _ _ _ _ _ _ _ hub]; use e lbins_okD(5) [OF tls_openD(4) [OF ok]] in \<open>auto simp: g'_def\<close>)+
  have "(gK g \<union> set (cache_pool s)) - (gK g' \<union> set (cache_pool s)) = {k}" using k(1) ho(5) by (auto simp: g'_def)
  with r(2) have "moves (s, g) (Span ` (gK g' \<union> set (cache_pool s))) {Span k} (s, g')" by simp
  then have "moves (s, g) {} {Span k} (s, g')" by (rule moves_cong) (auto simp: piece_span g'_def)
  then show "tls_acc api (s, g) {} {Span k} (s, g')" using r(1) by (simp add: tls_acc_def)
qed

lemma push_pool:
  fixes s :: "'a tls_state_scheme"
  assumes ok: "tls_ok api s g" and p: "Span p \<in> pieces g s" "gX g p = Some (cache_span api)" and room: "length (cache_pool s) < kCachePoolCap"
  defines "s' \<equiv> s\<lparr>cache_pool := cache_pool s @ [p]\<rparr>"
  shows "tls_acc api (s, g) {Span p} {} (s', g)"
proof -
  note ho = hub_okD [OF tls_openD(5) [OF ok]] and u = p(1) [unfolded piece_span]
  have tc: "thread_cache s' = thread_cache s" by (auto simp: thread_cache_def s'_def fun_eq_iff)
  have hub: "hub_ok api s' g"
  proof (rule hub_change [OF tls_openD(5) [OF ok] tc])
    show "gX g q = Some (cache_span api)" if "q \<in> gK g \<union> set (cache_pool s')" for q
      using ho(1) [of q] that p(2) by (auto simp: s'_def)
    show "gK g \<inter> set (cache_pool s') = {}" using ho(5) u by (auto simp: s'_def)
  qed (use ho(2,3,4,6) u room in \<open>simp_all add: s'_def\<close>)
  have r: "tls_ok api s' g" "moves (s, g) (Span ` (gK g \<union> set (cache_pool s'))) (Span ` ((gK g \<union> set (cache_pool s)) - (gK g \<union> set (cache_pool s')))) (s', g)"
    by (rule regroup [OF ok _ _ _ _ _ _ _ _ hub]; use u lbins_okD(5) [OF tls_openD(4) [OF ok]] in \<open>auto simp: s'_def core_def\<close>)+
  have "(gK g \<union> set (cache_pool s)) - (gK g \<union> set (cache_pool s')) = {}" by (auto simp: s'_def)
  with r(2) have "moves (s, g) (Span ` (gK g \<union> set (cache_pool s'))) {} (s', g)" by simp
  then have "moves (s, g) {Span p} {} (s', g)" by (rule moves_cong) (use u in \<open>auto simp: piece_span s'_def\<close>)
  then show ?thesis using r(1) by (simp add: tls_acc_def)
qed

text \<open>Only the threads' pointers to their caches change.\<close>

lemma assign_thread:
  fixes s s' :: "'a tls_state_scheme"
  assumes ok: "tls_ok api s g" and s': "core s' = core s" "caches s' = caches s" "cache_pool s' = cache_pool s"
      "lock_busy s' = lock_busy s" "pool_lock_busy s' = pool_lock_busy s"
    and t: "\<And>t. thread_cache s' t \<noteq> 0 \<Longrightarrow> thread_cache s' t \<in> gK g" "\<And>t. tls_specific s' t \<noteq> 0 \<Longrightarrow> tls_specific s' t = thread_cache s' t"
      "\<And>t t'. thread_cache s' t \<noteq> 0 \<Longrightarrow> thread_cache s' t = thread_cache s' t' \<Longrightarrow> t = t'"
  shows "tls_acc api (s, g) {} {} (s', g)"
proof -
  note ho = hub_okD [OF tls_openD(5) [OF ok]]
  have hub: "hub_ok api s' g" 
  proof (rule hub_okI)
    show "thread_cache s' t \<in> gK g" if "thread_cache s' t \<noteq> 0" for t by (rule t(1) [OF that])
    show "tls_specific s' t = thread_cache s' t" if "tls_specific s' t \<noteq> 0" for t by (rule t(2) [OF that])
    show "t = t'" if "thread_cache s' t \<noteq> 0" "thread_cache s' t = thread_cache s' t'" for t t' by (rule t(3) [OF that])
  qed (use ho(1-5) in \<open>simp_all add: s'\<close>)
  have r: "tls_ok api s' g" "moves (s, g) (Span ` (gK g \<union> set (cache_pool s'))) (Span ` ((gK g \<union> set (cache_pool s)) - (gK g \<union> set (cache_pool s')))) (s', g)"
    by (rule regroup [OF ok _ _ _ _ _ _ _ _ hub]; use lbins_okD(5) [OF tls_openD(4) [OF ok]] in \<open>auto simp: s'\<close>)+
  then have "moves (s, g) (Span ` (gK g \<union> set (cache_pool s))) {} (s', g)" by (simp add: s')
  then have "moves (s, g) {} {} (s', g)" by (rule moves_cong) (auto simp: piece_span)
  then show ?thesis using r(1) by (simp add: tls_acc_def)
qed

lemma same_threads:
  fixes s s' :: "'a tls_state_scheme"
  assumes ok: "tls_ok api s g" and s': "core s' = core s" "caches s' = caches s" "cache_pool s' = cache_pool s"
      "lock_busy s' = lock_busy s" "pool_lock_busy s' = pool_lock_busy s"
    and t: "thread_cache s' = thread_cache s" "tls_specific s' = tls_specific s"
  shows "tls_acc api (s, g) {} {} (s', g)"
  by (rule assign_thread [OF ok s']; unfold t; (rule hub_okD(6-8) [OF tls_openD(5) [OF ok]]; assumption))

section \<open>Getting the cache of a thread\<close>

lemma tls_accD:
  assumes "tls_acc api (s, g) A B (s', g')"
  shows "tls_ok api s' g'" "moves (s, g) A B (s', g')" "pieces g' s' = pieces g s - A \<union> B"
    "lock_busy s' = lock_busy s" "pool_lock_busy s' = pool_lock_busy s"
  using assms movesD(1,4,5) [of "(s, g)" A B "(s', g')"] by (simp_all add: tls_acc_def)

lemma tls_acc_comp:
  assumes "tls_acc api (s, g) A B (s1, g1)" "tls_acc api (s1, g1) C D (s2, g2)"
    and "pieces g s - G \<subseteq> - A" "(pieces g s - G) \<inter> C = {}" "pieces g s - A \<union> B - C \<union> D = pieces g s - G \<union> H"
  shows "tls_acc api (s, g) G H (s2, g2)"
  using assms moves_comp [OF tls_accD(2) [OF assms(1)] tls_accD(2) [OF assms(2)], of G H] by (simp add: tls_acc_def)

lemma tls_acc_after: "tls_acc api (s, g) A B (s1, g1) \<Longrightarrow> tls_acc api (s1, g1) {} {} (s2, g2) \<Longrightarrow> tls_acc api (s, g) A B (s2, g2)"
  by (erule tls_acc_comp) auto

lemma tls_acc_before: "tls_acc api (s, g) {} {} (s1, g1) \<Longrightarrow> tls_acc api (s1, g1) A B (s2, g2) \<Longrightarrow> tls_acc api (s, g) A B (s2, g2)"
  by (erule tls_acc_comp) auto

lemma op_acc: "tls_op api s g A B s' g' \<Longrightarrow> tls_acc api (s, g) A B (s', g')"
  by (simp add: tls_acc_def tls_opD)

lemma cache_span_facts:
  assumes "os_spec api"
  shows "0 < cache_span api" "cache_span api mod GetPageSize api = 0"
proof -
  have "sizeof_TLSCache + GetPageSize api \<le> 2 ^ 64" using os_spec_page_bounds(2) [OF assms] by (simp add: sizeof_TLSCache_def)
  from align_up_page [OF assms this] show "0 < cache_span api" "cache_span api mod GetPageSize api = 0"
    by (simp_all add: cache_span_def sizeof_TLSCache_def)
qed

lemma TLSCache_ctor_acc:
  fixes s :: "'a tls_state_scheme"
  assumes "tls_ok api s g" "Span p \<in> pieces g s" "gX g p = Some (cache_span api)"
  shows "tls_acc api (s, g) {Span p} {} (TLSCache_ctor p s, g\<lparr>gK := insert p (gK g)\<rparr>)" "hub (TLSCache_ctor p s) = hub s"
proof -
  show h: "hub (TLSCache_ctor p s) = hub s" by (simp add: TLSCache_ctor_def GetNextArena_def hub_def count_stats_def set_cache_def)
  let ?x = "\<lparr>bins = \<lambda>_. bin_zero, arena_index = next_arena s mod NUM_ARENAS, large_free_bins = \<lambda>_. 0, large_counts = \<lambda>_. 0, local_stats = local_stats_zero\<rparr>"
  show "tls_acc api (s, g) {Span p} {} (TLSCache_ctor p s, g\<lparr>gK := insert p (gK g)\<rparr>)"
    by (rule enroll_cache [OF assms _ h, of ?x])
       (simp_all add: TLSCache_ctor_def GetNextArena_def set_cache_def count_stats_def zero_cache_def NUM_ARENAS_def core_def)
qed

text \<open>The outcome of \<^verbatim>\<open>TLSCache::GetFast\<close>: the thread's cache, whatever else changes stays valid.\<close>

definition got_cache :: "rt_api \<Rightarrow> nat \<Rightarrow> 'a tls_state_scheme \<Rightarrow> ghost \<Rightarrow> addr \<Rightarrow> 'a tls_state_scheme \<Rightarrow> ghost \<Rightarrow> bool" where
  "got_cache rt t s g k s' g' \<longleftrightarrow> tls_acc (rt_os rt) (s, g) {} {} (s', g') \<and> k \<in> gK g' \<and> k \<noteq> 0 \<and> fast_path_cache s' t = k
     \<and> shutting_down s' = shutting_down s \<and> tls_state.more s' = tls_state.more s \<and> gK g \<subseteq> gK g'
     \<and> (key_init s \<longrightarrow> key_init s') \<and> (thread_cache s t \<noteq> 0 \<longrightarrow> k = thread_cache s t \<and> g' = g \<and> caches s' = caches s)"

lemma live_cache_nonzero:
  assumes "os_spec api" "tls_ok api s g" "k \<in> gK g"
  shows "k \<noteq> 0" "IsPlausibleHeapPtr k"
proof -
  have "gX g k = Some (cache_span api)" using hub_okD(1) [OF tls_openD(5) [OF assms(2)]] assms(3) by blast
  from ext_facts(1,2) [OF assms(1) spans_okD(1) [OF tls_openD(2) [OF assms(2)] this]] show "k \<noteq> 0" "IsPlausibleHeapPtr k" by simp_all
qed

lemma new_cache_span:
  fixes s :: "'a tls_state_scheme"
  assumes spec: "os_spec api" and ok: "tls_ok api s g" and pop: "CachePool_Pop s = Some (p0, s0)"
    and r: "(if p0 = 0 then AllocatePages api (cache_span api) s0 else (p0, s0)) = (p, s1)"
  shows "if p = 0 then cache_pool s = [] \<and> s0 = s else \<exists>g1. tls_acc api (s, g) {} {Span p} (s1, g1) \<and> gX g1 p = Some (cache_span api)
    \<and> gK g1 = gK g \<and> Span p \<notin> pieces g s \<and> fast_path_cache s1 = fast_path_cache s \<and> tls_specific s1 = tls_specific s
    \<and> key_init s1 = key_init s \<and> shutting_down s1 = shutting_down s \<and> tls_state.more s1 = tls_state.more s"
proof (cases "cache_pool s = []")
  case True
  then have s0: "p0 = 0" "s0 = s" using pop by (simp_all add: CachePool_Pop_def)
  then have a: "AllocatePages api (cache_span api) s = (p, s1)" using r by simp
  show ?thesis
  proof (cases "p = 0")
    case False
    then have new: "new_span api s (gV g) p (cache_span api) s1 (gV g)"
      using AllocatePages_span [OF spec tls_openD(1) [OF ok] cache_span_facts [OF spec] a] by simp
    note n = new_span_op [OF spec ok new]
    show ?thesis using False op_acc [OF n(1)] n(3) hubD [OF tls_opD(3) [OF n(1)]]
      by (auto intro!: exI [of _ "g\<lparr>gV := gV g, gX := (gX g)(p \<mapsto> cache_span api)\<rparr>"])
  qed (use True s0 in simp)
next
  case False
  note pp = pop_pool [OF ok False]
  have s0: "p0 = last (cache_pool s)" "s0 = s\<lparr>cache_pool := butlast (cache_pool s)\<rparr>"
    using pop False by (auto simp: CachePool_Pop_def split: if_splits)
  have "last (cache_pool s) \<noteq> 0" using ext_facts(1) [OF spec spans_okD(1) [OF tls_openD(2) [OF ok] pp(2)]] .
  then have "p = last (cache_pool s)" "s1 = s0" "p \<noteq> 0" using r s0 by simp_all
  then show ?thesis using pp s0 by auto
qed

lemma adopt_cache:
  fixes s s' :: "'a tls_state_scheme"
  assumes ok: "tls_ok api s g" and p: "p \<in> gK g" "p \<noteq> 0" "\<And>t'. thread_cache s t' \<noteq> p" and t: "thread_cache s t = 0"
    and s': "s' = s\<lparr>tls_specific := (if b then (tls_specific s)(t := p) else tls_specific s), fast_path_cache := (fast_path_cache s)(t := p)\<rparr>"
  shows "tls_acc api (s, g) {} {} (s', g)"
proof (rule assign_thread [OF ok])
  note ho = hub_okD [OF tls_openD(5) [OF ok]]
  have sp: "tls_specific s t = 0" using t ho(7) [of t] by (metis)
  have tc: "thread_cache s' t' = (if t' = t then p else thread_cache s t')" for t' using p(2) by (simp add: s' thread_cache_def)
  have ts: "tls_specific s' t' = (if b \<and> t' = t then p else tls_specific s t')" for t' by (simp add: s')
  show "thread_cache s' t' \<in> gK g" if "thread_cache s' t' \<noteq> 0" for t' using that ho(6) [of t'] p(1) by (auto simp: tc)
  show "tls_specific s' t' = thread_cache s' t'" if "tls_specific s' t' \<noteq> 0" for t'
    using that ho(7) [of t'] sp by (cases "t' = t") (auto simp: tc ts split: if_splits)
  show "t1 = t2" if "thread_cache s' t1 \<noteq> 0" "thread_cache s' t1 = thread_cache s' t2" for t1 t2
    using that ho(8) [of t1 t2] p(3) [of t1] p(3) [of t2] by (auto simp: tc split: if_splits)
qed (simp_all add: s' core_def)

lemma fresh_cache:
  fixes s :: "'a tls_state_scheme"
  assumes spec: "os_spec (rt_os rt)" and ok: "tls_ok (rt_os rt) s g" and key: "key_init s" and lock: "\<not> pool_lock_busy s"
    and new: "fast_path_cache s t = 0" "tls_specific s t = 0"
  shows "(\<exists>k s' g'. GetSlow rt t s = Some (k, s') \<and> got_cache rt t s g k s' g')
    \<or> GetSlow rt t s = None \<and> cache_pool s = [] \<and> fst (AllocatePages (rt_os rt) (cache_span (rt_os rt)) s) = 0"
proof -
  let ?api = "rt_os rt"
  note ho = hub_okD [OF tls_openD(5) [OF ok]]
  have t0: "thread_cache s t = 0" using new by (simp add: thread_cache_def)
  obtain p0 s0 where pop: "CachePool_Pop s = Some (p0, s0)" using lock by (cases "cache_pool s = []") (auto simp: CachePool_Pop_def)
  obtain p s1 where r: "(if p0 = 0 then AllocatePages ?api (cache_span ?api) s0 else (p0, s0)) = (p, s1)" by force
  note n = new_cache_span [OF spec ok pop r]
  have run: "GetSlow rt t s = (if p = 0 then None else
      let s2 = TLSCache_ctor p s1; s3 = (if rt_setspecific rt t p = 0 then s2\<lparr>tls_specific := (tls_specific s2)(t := p)\<rparr> else s2)
      in Some (p, s3\<lparr>fast_path_cache := (fast_path_cache s3)(t := p)\<rparr>))"
    using new key pop r by (simp add: GetSlow_def Let_def)
  show ?thesis
  proof (cases "p = 0")
    case True
    then show ?thesis using run n r by (auto split: if_splits)
  next
    case False
    then obtain g1 where a: "tls_acc ?api (s, g) {} {Span p} (s1, g1)" "gX g1 p = Some (cache_span ?api)" "gK g1 = gK g" "Span p \<notin> pieces g s"
      "fast_path_cache s1 = fast_path_cache s" "tls_specific s1 = tls_specific s" "key_init s1" "shutting_down s1 = shutting_down s" "tls_state.more s1 = tls_state.more s"
      using n key by auto
    let ?g = "g1\<lparr>gK := insert p (gK g1)\<rparr>" and ?s2 = "TLSCache_ctor p s1"
    have sp: "Span p \<in> pieces g1 s1" using tls_accD(3) [OF a(1)] by simp
    note c = TLSCache_ctor_acc [OF tls_accD(1) [OF a(1)] sp a(2)]
    note h2 = hubD [OF c(2)]
    have tc2: "thread_cache ?s2 = thread_cache s" using h2(9) a(5,6) by (auto simp: thread_cache_def fun_eq_iff)
    have np: "thread_cache s t' \<noteq> p" for t' using ho(6) [of t'] sp False a(3) by (auto simp: piece_span)
    let ?s3 = "?s2\<lparr>tls_specific := (if rt_setspecific rt t p = 0 then (tls_specific ?s2)(t := p) else tls_specific ?s2), fast_path_cache := (fast_path_cache ?s2)(t := p)\<rparr>"
    have "tls_acc ?api (?s2, ?g) {} {} (?s3, ?g)"
      by (rule adopt_cache [OF tls_accD(1) [OF c(1)] _ False, of t, OF _ _ _ refl]) (use tc2 np t0 in auto)
    with c(1) have "tls_acc ?api (s1, g1) {Span p} {} (?s3, ?g)" by (rule tls_acc_after)
    then have "tls_acc ?api (s, g) {} {} (?s3, ?g)" by (rule tls_acc_comp [OF a(1)]) (use a(4) in auto)
    then have "got_cache rt t s g p ?s3 ?g" using False a h2 t0 by (simp add: got_cache_def subset_insertI)
    moreover have "GetSlow rt t s = Some (p, ?s3)" using run False by (simp add: Let_def)
    ultimately show ?thesis by blast
  qed
qed

lemma GetFast_cases:
  fixes s :: "'a tls_state_scheme"
  assumes spec: "os_spec (rt_os rt)" and ok: "tls_ok (rt_os rt) s g"
    and key: "key_init s \<or> rt_key_create rt = 0" and lock: "\<not> pool_lock_busy s"
  shows "(\<exists>k s' g'. GetFast rt t s = Some (k, s') \<and> got_cache rt t s g k s' g')
    \<or> GetFast rt t s = None \<and> thread_cache s t = 0 \<and> cache_pool s = []
      \<and> (\<exists>s1 :: 'a tls_state_scheme. core s1 = core s \<and> fst (AllocatePages (rt_os rt) (cache_span (rt_os rt)) s1) = 0)"
proof -
  let ?api = "rt_os rt" and ?s = "if key_init s then s else s\<lparr>key_init := True\<rparr>"
  note ho = hub_okD [OF tls_openD(5) [OF ok]]
  have slow: "GetSlow rt t s = GetSlow rt t ?s" using key by (auto simp: GetSlow_def InitTlsKey_def)
  have tci: "thread_cache ?s = thread_cache s" "tls_specific ?s = tls_specific s" by (auto simp: thread_cache_def fun_eq_iff)
  have i: "tls_acc ?api (s, g) {} {} (?s, g)"
    by (rule same_threads [OF ok _ _ _ _ _ tci]) simp_all
  consider (fast) "fast_path_cache s t \<noteq> 0" | (slot) "fast_path_cache s t = 0" "tls_specific s t \<noteq> 0"
    | (new) "fast_path_cache s t = 0" "tls_specific s t = 0" by blast
  then show ?thesis
  proof cases
    case fast
    then have k: "thread_cache s t = fast_path_cache s t" by (simp add: thread_cache_def)
    have "got_cache rt t s g (fast_path_cache s t) s g" using ok ho(6) [of t] fast k by (simp add: got_cache_def tls_acc_def)
    then show ?thesis using fast by (auto simp: GetFast_def)
  next
    case slot
    let ?k = "tls_specific s t" and ?s1 = "?s\<lparr>fast_path_cache := (fast_path_cache ?s)(t := tls_specific s t)\<rparr>"
    have k: "thread_cache s t = ?k" "?k \<in> gK g" using slot ho(6,7) [of t] by (auto simp: thread_cache_def)
    have tc: "thread_cache ?s1 = thread_cache s" using k(1) slot by (auto simp: thread_cache_def fun_eq_iff)
    have ts: "tls_specific ?s1 = tls_specific s" by simp
    have "tls_acc ?api (s, g) {} {} (?s1, g)"
      by (rule same_threads [OF ok _ _ _ _ _ tc ts]) simp_all
    then have "got_cache rt t s g ?k ?s1 g" using k slot by (simp add: got_cache_def)
    moreover have "GetFast rt t s = Some (?k, ?s1)" using slot slow by (simp add: GetFast_def GetSlow_def [of rt t ?s] Let_def)
    ultimately show ?thesis by blast
  next
    case new
    have fr: "GetFast rt t s = GetSlow rt t ?s" using new slow by (simp add: GetFast_def)
    have t0: "thread_cache s t = 0" and cs: "core ?s = core s" using new by (simp_all add: thread_cache_def)
    have q: "key_init ?s" "\<not> pool_lock_busy ?s" "fast_path_cache ?s t = 0" "tls_specific ?s t = 0" using lock new by simp_all
    from fresh_cache [OF spec tls_accD(1) [OF i] q] show ?thesis
    proof (elim disjE exE conjE)
      fix k s' g' assume "GetSlow rt t ?s = Some (k, s')" "got_cache rt t ?s g k s' g'"
      moreover from this(2) have "got_cache rt t s g k s' g'" using tls_acc_before [OF i] t0 by (simp add: got_cache_def)
      ultimately show ?thesis using fr by auto
    next
      assume "GetSlow rt t ?s = None" "cache_pool ?s = []" "fst (AllocatePages ?api (cache_span ?api) ?s) = 0"
      then show ?thesis using fr t0 cs by (intro disjI2 conjI exI [of _ ?s]) (auto split: if_splits)
    qed
  qed
qed

section \<open>Statistics and thread exit\<close>

lemma FlushStats_frame [simp]: "tls_frame E F s (FlushStats k s)"
  by (auto simp: FlushStats_def Let_def tls_frame_def hub_def core_def get_bin_def set_cache_def count_stats_def)

lemma count_op_frame [simp]: "tls_frame E F s (count_op k f s)"
proof -
  let ?st = "(f (local_stats (caches s k)))\<lparr>ls_ops := add64 (ls_ops (f (local_stats (caches s k)))) 1\<rparr>"
  let ?s = "set_cache k ((caches s k)\<lparr>local_stats := ?st\<rparr>) s"
  have "tls_frame E F s ?s" by simp
  moreover have "tls_frame E F s (FlushStats k ?s)" by (rule tls_frame_trans [OF _ FlushStats_frame]) simp
  ultimately show ?thesis by (simp add: count_op_def Let_def)
qed

lemma count_frames [simp]:
  "tls_frame E F s (TLS_CountSmallAlloc k n s)" "tls_frame E F s (TLS_CountSmallFree k n s)"
  "tls_frame E F s (TLS_CountLargeAlloc k n s)" "tls_frame E F s (TLS_CountLargeFree k n s)" "tls_frame E F s (TLS_CountRealloc k s)"
  by (simp_all add: TLS_CountSmallAlloc_def TLS_CountSmallFree_def TLS_CountLargeAlloc_def TLS_CountLargeFree_def TLS_CountRealloc_def)

lemma release_thread:
  fixes s :: "'a tls_state_scheme"
  assumes ok: "tls_ok api s g" and t: "tls_specific s t = 0"
  defines "s' \<equiv> s\<lparr>fast_path_cache := (fast_path_cache s)(t := 0)\<rparr>"
  shows "tls_acc api (s, g) {} {} (s', g)" "thread_cache s' t' = (if t' = t then 0 else thread_cache s t')"
proof -
  note ho = hub_okD [OF tls_openD(5) [OF ok]]
  show tc: "thread_cache s' t' = (if t' = t then 0 else thread_cache s t')" for t' using t by (simp add: s'_def thread_cache_def)
  have ts: "tls_specific s' = tls_specific s" by (simp add: s'_def)
  show "tls_acc api (s, g) {} {} (s', g)"
  proof (rule assign_thread [OF ok])
    show "thread_cache s' u \<in> gK g" if "thread_cache s' u \<noteq> 0" for u using that ho(6) [of u] by (auto simp: tc split: if_splits)
    show "tls_specific s' u = thread_cache s' u" if "tls_specific s' u \<noteq> 0" for u using that ho(7) [of u] t by (auto simp: tc ts)
    show "u = v" if "thread_cache s' u \<noteq> 0" "thread_cache s' u = thread_cache s' v" for u v
      using that ho(8) [of u v] by (auto simp: tc split: if_splits)
  qed (simp_all add: s'_def)
qed

text \<open>
  Where the pages of a dead cache go, read off the states: to the end of the pool, or, when the pool
  is full, to the operating system by one call over the whole span.
\<close>

definition pages_go :: "os_api \<Rightarrow> addr \<Rightarrow> 'a tls_state_scheme \<Rightarrow> 'a tls_state_scheme \<Rightarrow> bool" where
  "pages_go api k s s' \<longleftrightarrow>
     (if length (cache_pool s) < kCachePoolCap then cache_pool s' = cache_pool s @ [k] \<and> os_log s' = os_log s
      else cache_pool s' = cache_pool s
        \<and> os_log s' = os_log s @ [if IsPoolBacked k s then Madvise k (cache_span api) else Munmap k (cache_span api)])"

lemma recycle_cache:
  fixes s :: "'a tls_state_scheme"
  assumes spec: "os_spec api" and ok: "tls_ok api s g" and lock: "\<not> pool_lock_busy s"
    and k: "Span k \<in> pieces g s" "gX g k = Some (cache_span api)"
  shows "\<exists>s' g'. RecycleOrFreeCache api k True s = Some s' \<and> tls_acc api (s, g) {Span k} {} (s', g') \<and> gK g' = gK g
    \<and> fast_path_cache s' = fast_path_cache s \<and> pages_go api k s s'"
proof (cases "length (cache_pool s) < kCachePoolCap")
  case True
  then show ?thesis using push_pool [OF ok k True] lock by (auto simp: RecycleOrFreeCache_def CachePool_Push_def pages_go_def)
next
  case False
  have e: "ext api s (gV g) k (cache_span api)" by (rule spans_okD(1) [OF tls_openD(2) [OF ok] k(2)])
  note f = free_span_op [OF spec ok k FreePages_accounts [OF spec tls_openD(1) [OF ok] e]]
  have "RecycleOrFreeCache api k True s = Some (FreePages api k (cache_span api) s)"
    using False lock by (simp add: RecycleOrFreeCache_def CachePool_Push_def)
  moreover have "span_owned api s k (cache_span api)" using e by (simp add: ext_def)
  then have "os_log (FreePages api k (cache_span api) s) = os_log s @ [if IsPoolBacked k s then Madvise k (cache_span api) else Munmap k (cache_span api)]"
    by (simp add: FreePages_event)
  ultimately show ?thesis using False op_acc [OF f] hubD [OF tls_opD(3) [OF f]] unfolding pages_go_def
    by (intro exI [of _ "FreePages api k (cache_span api) s"] exI [of _ "g\<lparr>gX := (gX g)(k := None), gV := gV g\<rparr>"]) simp
qed

lemma TlsDestructor_acc:
  fixes s :: "'a tls_state_scheme"
  assumes spec: "os_spec api" and ok: "tls_ok api s g" and t: "fast_path_cache s t = k" "k \<noteq> 0" "tls_specific s t = 0"
    and run: "\<not> shutting_down s" "\<not> pool_lock_busy s"
  shows "\<exists>s1 g1 s' g'. TLSCache_dtor api k s = Some s1 \<and> empty_cache k s1 g1 \<and> cache_pool s1 = cache_pool s
    \<and> TlsDestructor api t k s = Some s' \<and> tls_acc api (s, g) {} {} (s', g') \<and> gK g' = gK g - {k} \<and> fast_path_cache s' t = 0
    \<and> pages_go api k s1 s'"
proof -
  have tk: "thread_cache s t = k" using t by (simp add: thread_cache_def)
  have kg: "k \<in> gK g" using hub_okD(6) [OF tls_openD(5) [OF ok], of t] tk t(2) by simp
  have f: "tls_op api s g {} {} (FlushStats k s) g" by (rule frame_op [OF ok]) simp
  obtain s1 g1 where fl: "FlushToGlobalHeap api k (FlushStats k s) = Some s1" "tls_op api (FlushStats k s) g {} {} s1 g1" "empty_cache k s1 g1"
    using FlushToGlobalHeap_op [OF spec tls_opD(1) [OF f] kg] by blast
  note b = tls_op_after [OF f fl(2)]
  note h = hubD [OF tls_opD(3) [OF b]]
  let ?s2 = "s1\<lparr>fast_path_cache := (fast_path_cache s1)(t := 0)\<rparr>" and ?g2 = "g1\<lparr>gK := gK g1 - {k}\<rparr>"
  have t1: "tls_specific s1 t = 0" using h(3) t(3) by simp
  note r = release_thread [OF tls_opD(1) [OF b] t1]
  have fd: "tls_op api ?s2 g1 {} {} (count_stats CountTlsDestroy ?s2) g1" by (rule frame_op [OF tls_accD(1) [OF r(1)]]) simp
  let ?s3 = "count_stats CountTlsDestroy ?s2"
  have a: "tls_acc api (s, g) {} {} (?s3, g1)"
    by (rule tls_acc_after [OF tls_acc_after [OF op_acc [OF b] r(1)] op_acc [OF fd]])
  have ts: "thread_cache ?s3 u \<noteq> k" for u
  proof -
    have "thread_cache ?s3 u = (if u = t then 0 else thread_cache s u)" using r(2) [of u] h(9) hubD(9) [OF tls_opD(3) [OF fd]] by simp
    then show ?thesis using hub_okD(8) [OF tls_openD(5) [OF ok], of t u] tk t(2) by (auto split: if_splits)
  qed
  have q: "tls_acc api (?s3, g1) {} {Span k} (?s3, ?g2)" "gX ?g2 k = Some (cache_span api)" "Span k \<notin> pieces g1 ?s3"
    by (rule retire_cache [OF tls_accD(1) [OF a] _ ts]; use fl(3) kg tls_opD(4) [OF b] in \<open>simp add: empty_cache_def\<close>)+
  obtain s' g' where rc: "RecycleOrFreeCache api k True ?s3 = Some s'" "tls_acc api (?s3, ?g2) {Span k} {} (s', g')" "gK g' = gK ?g2"
    "fast_path_cache s' = fast_path_cache ?s3" "pages_go api k ?s3 s'"
    using recycle_cache [OF spec tls_accD(1) [OF q(1)] _ _ q(2)] tls_accD(3) [OF q(1)] tls_accD(5) [OF a] run(2) by auto
  have "tls_acc api (?s3, g1) {} {} (s', g')" by (rule tls_acc_comp [OF q(1) rc(2)]) (use q(3) in auto)
  with a have "tls_acc api (s, g) {} {} (s', g')" by (rule tls_acc_after)
  moreover have "TlsDestructor api t k s = Some s'"
    using t(2) run(1) fl(1) rc(1) by (simp add: TlsDestructor_def TLSCache_dtor_def Let_def)
  moreover have "fast_path_cache ?s3 t = 0" by (simp add: count_stats_def)
  moreover have "pages_go api k s1 s'" using rc(5) by (simp add: pages_go_def count_stats_def IsPoolBacked_def Pool_Contains_def)
  moreover have "TLSCache_dtor api k s = Some s1" using fl(1) by (simp add: TLSCache_dtor_def)
  ultimately show ?thesis using rc(3,4) tls_opD(4) [OF b] fl(3) h(1)
    by (intro exI [of _ s1] exI [of _ g1] exI [of _ s'] exI [of _ g']) simp
qed

end
