(* ===== verification/FA_Accounting.thy ===== *)
theory FA_Accounting
  imports FA_Prelude
begin

text \<open>
  What an allocator owes its clients, as an interface: a set of held units (blocks or spans), each
  with its cells, pairwise disjoint in every valid state; a step gives some units up (\<open>gone\<close>),
  receives others (\<open>come\<close>) and leaves the cells of all remaining ones and their contents alone.
  \<open>acc_run\<close> chains steps; the lemmas of the locale are the guarantees a client gets over a whole
  history. The global heap and the public API are instances.
\<close>

inductive acc_run :: "('s \<Rightarrow> 'b set \<Rightarrow> 'b set \<Rightarrow> 's \<Rightarrow> bool) \<Rightarrow> 's \<Rightarrow> ('b set \<times> 'b set) list \<Rightarrow> 's \<Rightarrow> bool"
  for step where
  acc_run_refl: "acc_run step s [] s"
| acc_run_step: "step s gone come s1 \<Longrightarrow> acc_run step s1 h s2 \<Longrightarrow> acc_run step s ((gone, come) # h) s2"

inductive_cases acc_run_ConsE: "acc_run step s (x # h) s'"
inductive_simps acc_run_Nil [simp]: "acc_run step s [] s'"

locale accounting =
  fixes inv :: "'s \<Rightarrow> bool" and held :: "'s \<Rightarrow> 'b set" and unit_cells :: "'s \<Rightarrow> 'b \<Rightarrow> nat set"
    and content :: "'s \<Rightarrow> nat \<Rightarrow> nat" and step :: "'s \<Rightarrow> 'b set \<Rightarrow> 'b set \<Rightarrow> 's \<Rightarrow> bool"
  assumes disjoint: "inv s \<Longrightarrow> b \<in> held s \<Longrightarrow> c \<in> held s \<Longrightarrow> b \<noteq> c \<Longrightarrow> unit_cells s b \<inter> unit_cells s c = {}"
    and step_inv: "step s gone come s' \<Longrightarrow> inv s'"
    and step_held: "step s gone come s' \<Longrightarrow> held s' = held s - gone \<union> come"
    and step_keep: "step s gone come s' \<Longrightarrow> b \<in> held s - gone \<Longrightarrow>
      unit_cells s' b = unit_cells s b \<and> (\<forall>a \<in> unit_cells s b. content s' a = content s a)"
begin

lemma run_inv: "acc_run step s h s' \<Longrightarrow> inv s \<Longrightarrow> inv s'"
  by (induction rule: acc_run.induct) (auto intro: step_inv)

text \<open>A unit that is never given up stays held, in the same place and with the same contents.\<close>

lemma run_keep:
  "acc_run step s h s' \<Longrightarrow> b \<in> held s \<Longrightarrow> (\<And>gone come. (gone, come) \<in> set h \<Longrightarrow> b \<notin> gone) \<Longrightarrow>
   b \<in> held s' \<and> unit_cells s' b = unit_cells s b \<and> (\<forall>a \<in> unit_cells s b. content s' a = content s a)"
proof (induction rule: acc_run.induct)
  case (acc_run_step s gone come s1 h s2)
  have b: "b \<in> held s - gone" using acc_run_step.prems(1) acc_run_step.prems(2) [of gone come] by simp
  have "b \<in> held s1" using step_held [OF acc_run_step.hyps(1)] b by blast
  then show ?case using acc_run_step.IH acc_run_step.prems(2) step_keep [OF acc_run_step.hyps(1) b] by auto
qed simp

lemma run_disjoint:
  assumes "acc_run step s h s'" "inv s" "b \<in> held s'" "c \<in> held s'" "b \<noteq> c"
  shows "unit_cells s' b \<inter> unit_cells s' c = {}"
  using disjoint [OF run_inv [OF assms(1,2)]] assms(3-5) by blast

text \<open>What is held at the end was held at the start or came on the way.\<close>

lemma run_origin:
  "acc_run step s h s' \<Longrightarrow> held s' \<subseteq> held s \<union> (\<Union>x \<in> set h. snd x)"
proof (induction rule: acc_run.induct)
  case (acc_run_step s gone come s1 h s2)
  then show ?case using step_held [OF acc_run_step.hyps(1)] by auto
qed simp

end

end
