(* ===== verification/FA_TLSProps.thy ===== *)
theory FA_TLSProps
  imports FA_TLSLife FA_Accounting
begin

text \<open>
  The correctness properties of the thread cache (\<^verbatim>\<open>src/tls_cache.h\<close>, \<^verbatim>\<open>src/tls_cache.cpp\<close>): the
  guarantees its user gets (as an instance of the accounting interface), the lists and counters of
  every bin, the life cycle, and the statistics a thread batches before publishing them.
\<close>

section \<open>The thread caches as an accounting interface\<close>

lemma pieces_disjoint:
  assumes ok: "tls_open api E F s g" and u: "u \<in> pieces g s" "v \<in> pieces g s" "u \<noteq> v"
  shows "piece_cells g (mem s) u \<inter> piece_cells g (mem s) v = {}"
proof -
  note o = tls_openD [OF ok]
  have bs: "bcells (mem s) b \<inter> {p..<p + n} = {}" if "Block b \<in> pieces g s" "gX g p = Some n" for b p n
  proof -
    have b: "b \<in> client (gV g) (mem s)" using that(1) by (simp add: piece_block)
    have "slab_range (mem s) (fb_slab (mem s) b) \<inter> {p..<p + n} = {}"
      using spans_okD(1) [OF o(2) that(2)] client_slab(1) [OF o(1) b] by (simp add: ext_def)
    then show ?thesis using client_used(1) [OF o(1) b] by blast
  qed
  show ?thesis
  proof (cases u; cases v)
    fix b c assume "u = Block b" "v = Block c"
    then show ?thesis using client_apart [OF o(1), of b c] u by (simp add: piece_block)
  next
    fix b p assume e: "u = Block b" "v = Span p"
    then obtain n where "gX g p = Some n" using u by (auto simp: piece_span)
    then show ?thesis using bs [of b p n] u e by simp
  next
    fix p b assume e: "u = Span p" "v = Block b"
    then obtain n where "gX g p = Some n" using u by (auto simp: piece_span)
    then show ?thesis using bs [of b p n] u e by (simp add: Int_commute)
  next
    fix p q assume e: "u = Span p" "v = Span q"
    then obtain n k where "gX g p = Some n" "gX g q = Some k" using u by (auto simp: piece_span)
    then show ?thesis using spans_okD(2) [OF o(2), of p n q k] u e by simp
  qed
qed

interpretation tls: accounting "\<lambda>x. tls_ok api (fst x) (snd x)" "\<lambda>x. pieces (snd x) (fst x)"
  "\<lambda>x. piece_cells (snd x) (mem (fst x))" "\<lambda>x. mem (fst x)" "tls_acc api"
  for api :: os_api
proof
  fix x :: "'a tls_state_scheme \<times> ghost" and u v
  assume "tls_ok api (fst x) (snd x)" "u \<in> pieces (snd x) (fst x)" "v \<in> pieces (snd x) (fst x)" "u \<noteq> v"
  then show "piece_cells (snd x) (mem (fst x)) u \<inter> piece_cells (snd x) (mem (fst x)) v = {}" by (rule pieces_disjoint)
next
  fix x y :: "'a tls_state_scheme \<times> ghost" and gone come u
  assume "tls_acc api x gone come y"
  then have a: "tls_ok api (fst y) (snd y)" "moves x gone come y" by (simp_all add: tls_acc_def)
  show "tls_ok api (fst y) (snd y)" by (rule a(1))
  show "pieces (snd y) (fst y) = pieces (snd x) (fst x) - gone \<union> come" by (rule movesD(1) [OF a(2)])
  assume "u \<in> pieces (snd x) (fst x) - gone"
  then show "piece_cells (snd y) (mem (fst y)) u = piece_cells (snd x) (mem (fst x)) u
      \<and> (\<forall>a \<in> piece_cells (snd x) (mem (fst x)) u. mem (fst y) a = mem (fst x) a)"
    using movesD(2,3) [OF a(2)] by blast
qed

section \<open>A concrete start\<close>

definition tls_start :: "'a \<Rightarrow> 'a tls_state_scheme" where
  "tls_start x = \<lparr>mem = \<lambda>_. 0, os_log = [], pool_chunks = [],
     page_bins = \<lambda>_. \<lparr>pb_head = 0, pb_count = 0\<rparr>, page_nonempty = \<lambda>_. 0,
     page_cache_total_bytes = 0, g_stats = stats_zero, g_oom_fail_countdown = 0,
     partial_slabs = \<lambda>_ _. 0, full_slabs = \<lambda>_ _. 0, pending_returns = \<lambda>_ _. 0,
     lock_busy = \<lambda>_ _. False, next_arena = 0, shutting_down = False,
     caches = \<lambda>_. \<lparr>bins = \<lambda>_. bin_zero, arena_index = 0, large_free_bins = \<lambda>_. 0, large_counts = \<lambda>_. 0, local_stats = local_stats_zero\<rparr>,
     cache_pool = [], pool_lock_busy = False, fast_path_cache = \<lambda>_. 0, tls_specific = \<lambda>_. 0, key_init = False,
     double_push_guard_hits = 0, bin_heal_events = 0, \<dots> = x\<rparr>"

definition ghost_init :: ghost where
  "ghost_init = \<lparr>gV = view_init, gX = Map.empty, gB = \<lambda>_ _. [], gE = \<lambda>_ _. [], gK = {}\<rparr>"

definition demo_rt :: rt_api where
  "demo_rt = \<lparr>rt_os = demo_os, rt_key_create = 0, rt_setspecific = \<lambda>_ _. 0\<rparr>"

lemma demo_rt_os [simp]: "rt_os demo_rt = demo_os" "rt_key_create demo_rt = 0"
  by (simp_all add: demo_rt_def)

lemma tls_start_ok: "tls_ok demo_os (tls_start x) ghost_init"
proof -
  have "gh_ok demo_os {} (tls_start x) view_init"
    by (rule empty_heap_ok; (rule fresh_page_heap_ok)?) (simp_all add: tls_start_def)
  then show ?thesis
    by (simp add: tls_open_def ghost_init_def spans_ok_def bins_ok_def lbins_ok_def hub_ok_def parked_def thread_cache_def
        tls_start_def kCachePoolCap_def)
qed

lemma start_pieces [simp]: "pieces ghost_init (tls_start x) = {}"
  by (simp add: pieces_def user_blocks_def user_spans_def ghost_init_def)

lemma demo_pages:
  assumes "core s1 = core (tls_start x)"
  shows "fst (AllocatePages demo_os (cache_span demo_os) s1) \<noteq> 0"
proof -
  have "os_log s1 = []" "pool_chunks s1 = []" using assms by (simp_all add: core_def tls_start_def)
  moreover have "cache_span demo_os = 12288" by (simp add: cache_span_def sizeof_TLSCache_def GetPageSize_def demo_os_def align_up_def)
  ultimately show ?thesis by (simp add: demo_simps)
qed

lemma demo_cache:
  obtains k s g where "GetFast demo_rt t (tls_start x) = Some (k, s)" "got_cache demo_rt t (tls_start x) ghost_init k s g"
proof -
  have "fst (AllocatePages demo_os (cache_span demo_os) s1) \<noteq> 0" if "core s1 = core (tls_start x)" for s1 :: "'a tls_state_scheme"
    by (rule demo_pages [OF that])
  moreover have "key_init (tls_start x) \<or> rt_key_create demo_rt = 0" "\<not> pool_lock_busy (tls_start x)" by (simp_all add: tls_start_def)
  ultimately show thesis
    using GetFast_cases [of demo_rt "tls_start x" ghost_init t, unfolded demo_rt_os, OF demo_os_spec tls_start_ok] that by fastforce
qed

text \<open>The demo start after thread \<open>t\<close> has its cache, and with one block of class 3 in the hands of the user.\<close>

definition demo_ready :: "nat \<Rightarrow> addr \<Rightarrow> 'a tls_state_scheme \<Rightarrow> bool" where
  "demo_ready t k s \<longleftrightarrow> page_bins s = (\<lambda>_. \<lparr>pb_head = 0, pb_count = 0\<rparr>) \<and> page_nonempty s = (\<lambda>_. 0) \<and> g_oom_fail_countdown s = 0
     \<and> os_log s = [Mmap 65536 4194304] \<and> pool_chunks s = [\<lparr>ck_base = 65536, ck_bump = 77824, ck_limit = 4259840\<rparr>]
     \<and> lock_busy s = (\<lambda>_ _. False) \<and> pending_returns s = (\<lambda>_ _. 0) \<and> partial_slabs s = (\<lambda>_ _. 0) \<and> arena_index (caches s k) = 0
     \<and> get_bin k 3 s = bin_zero \<and> large_free_bins (caches s k) = (\<lambda>_. 0) \<and> large_counts (caches s k) = (\<lambda>_. 0) \<and> \<not> pool_lock_busy s \<and> \<not> shutting_down s \<and> key_init s \<and> fast_path_cache s t = k \<and> cache_pool s = []"

lemma demo_start:
  obtains k s g where "GetFast demo_rt t (tls_start x) = Some (k, s)" "got_cache demo_rt t (tls_start x) ghost_init k s g"
    "demo_ready t k s" "tls_ok demo_os s g" "k \<in> gK g" "pieces g s = {}"
proof -
  obtain k s g where d: "GetFast demo_rt t (tls_start x) = Some (k, s)" "got_cache demo_rt t (tls_start x) ghost_init k s g" by (rule demo_cache)
  have "cache_span demo_os = 12288" by (simp add: cache_span_def sizeof_TLSCache_def GetPageSize_def demo_os_def align_up_def)
  then have "demo_ready t k s"
    using d(1) by (auto simp: demo_rt_def GetFast_def GetSlow_def InitTlsKey_def CachePool_Pop_def tls_start_def TLSCache_ctor_def GetNextArena_def
        demo_simps count_stats_def set_cache_def demo_ready_def get_bin_def NUM_ARENAS_def)
  then show thesis using that [OF d] d(2) tls_accD(1,3) [of demo_os "tls_start x" ghost_init "{}" "{}" s g] by (simp add: got_cache_def)
qed

lemma demo_block:
  obtains k s g b s' g' where "GetFast demo_rt t (tls_start x) = Some (k, s)" "tls_ok demo_os s g" "k \<in> gK g"
    "TLS_AllocateBlock demo_os k 3 s = Some (b, s')" "b \<noteq> 0" "got_block demo_os 3 s g b s' g'"
    "lock_busy s = (\<lambda>_ _. False)" "lock_busy s' = (\<lambda>_ _. False)" "pieces g' s' = {Block b}" "demo_ready t k s"
proof -
  obtain k s g where d: "GetFast demo_rt t (tls_start x) = Some (k, s)" "demo_ready t k s" "tls_ok demo_os s g" "k \<in> gK g" "pieces g s = {}"
    by (rule demo_start)
  have c: "(1::nat) \<le> 3" "3 < NUM_SIZE_CLASSES" by (simp_all add: config_consts)
  have f: "\<not> lock_busy s (arena_index (caches s k)) 3" using d(2) by (simp add: demo_ready_def)
  obtain b s' g' where a: "TLS_AllocateBlock demo_os k 3 s = Some (b, s')" "got_block demo_os 3 s g b s' g'"
    using TLS_AllocateBlock_op [OF demo_os_spec d(3,4) c f] by blast
  obtain target ramp where plan: "refill_plan 3 (bin_next_refill (get_bin k 3 s)) = (target, ramp)" by (cases "refill_plan 3 (bin_next_refill (get_bin k 3 s))")
  let ?s0 = "set_bin k 3 ((get_bin k 3 s)\<lparr>bin_next_refill := ramp\<rparr>) (count_stats CountTlsMisses s)"
  have s0: "gh_ok demo_os {} ?s0 (gV g)" using coreD(2) [of ?s0 s] tls_openD(1) [OF d(3)] by (simp add: set_bin_def)
  have "\<exists>h xs s1 V1. AllocateBatch demo_os 3 target 0 ?s0 = Some (h, length xs, s1) \<and> supplied demo_os 3 ?s0 (gV g) h xs s1 V1 \<and> xs \<noteq> []"
  proof (rule fresh_refill [OF demo_os_spec s0 _ _ _ c])
    show "fst (AllocateNewSlab demo_os 3 0 ?s0) \<noteq> 0"
      by (rule demo_new_slab) (use d(2) in \<open>simp_all add: demo_ready_def set_bin_def set_cache_def count_stats_def\<close>)
  qed (use d(2) refill_plan_bounds(1) [OF c(2) plan] in \<open>simp_all add: demo_ready_def set_bin_def set_cache_def count_stats_def NUM_ARENAS_def\<close>)
  then obtain h xs s1 V1 where r: "AllocateBatch demo_os 3 target 0 ?s0 = Some (h, length xs, s1)" "supplied demo_os 3 ?s0 (gV g) h xs s1 V1" "xs \<noteq> []" by blast
  have hl: "held_list 3 s1 V1 h xs" and ac: "accounts demo_os ?s0 (gV g) {} (set xs) s1 V1"
    using r(2) supplied_sub [OF r(2)] by (auto simp: supplied_def held_list_def)
  have "h \<noteq> 0" "IsPlausibleHeapPtr h" using held_plausible_head [OF demo_os_spec accounts_ok [OF ac] hl] r(3) by auto
  moreover have "caches (count_stats CountTlsMisses s) = caches s" by (simp add: count_stats_def)
  ultimately have "b \<noteq> 0" using a(1) r(1) d(2) plan
    by (auto simp: TLS_AllocateBlock_def TLS_AllocateBlockSlow_def Let_def demo_ready_def bin_zero_def split: prod.splits if_splits)
  then have b: "tls_op demo_os s g {} {Block b} s' g'" using a(2) by (simp add: got_block_def)
  show thesis
    by (rule that [OF d(1,3,4) a(1) \<open>b \<noteq> 0\<close> a(2)]) (use d(2,5) tls_opD(6,7) [OF b] in \<open>simp_all add: demo_ready_def\<close>)
qed

section \<open>Blocks and spans\<close>

text \<open>
  C11: an allocation from a live thread cache (\<^verbatim>\<open>TLSCache::AllocateBlock\<close>, refilling from the global
  heap when the bin is empty) returns whenever the class lock of the cache's arena is free. The result
  is null, with everything the user holds untouched, or a block of the requested class that the user
  did not hold and that is then the only new piece; the caches stay valid: every bin is a
  null-terminated list with its count, shorter than its limit, and no block is in two bins.
\<close>

theorem tls_allocate_block:
  fixes s :: "'a tls_state_scheme"
  assumes "os_spec api" "tls_ok api s g" "k \<in> gK g" "1 \<le> c" "c < NUM_SIZE_CLASSES" "\<not> lock_busy s (arena_index (caches s k)) c"
  shows "\<exists>b s' g'. TLS_AllocateBlock api k c s = Some (b, s')
    \<and> (if b = 0 then tls_acc api (s, g) {} {} (s', g')
       else tls_acc api (s, g) {} {Block b} (s', g') \<and> Block b \<notin> pieces g s \<and> fb_class_index (mem s') b = c)"
proof -
  obtain b s' g' where a: "TLS_AllocateBlock api k c s = Some (b, s')" "got_block api c s g b s' g'"
    using TLS_AllocateBlock_op [OF assms] by blast
  then show ?thesis using op_acc by (intro exI [of _ b] exI [of _ s'] exI [of _ g']) (auto simp: got_block_def)
qed

theorem tls_allocate_block_witness:
  "\<exists>k s b s' g'. GetFast demo_rt 0 (tls_start ()) = Some (k, s) \<and> TLS_AllocateBlock demo_os k 3 s = Some (b, s') \<and> b \<noteq> 0
     \<and> tls_ok demo_os s' g' \<and> fb_class_index (mem s') b = 3"
proof -
  obtain k s g b s' where d: "GetFast demo_rt 0 (tls_start ()) = Some (k, s)" "tls_ok demo_os s g" "k \<in> gK g"
    "TLS_AllocateBlock demo_os k 3 s = Some (b, s')" "b \<noteq> 0" "lock_busy s = (\<lambda>_ _. False)" by (rule demo_block)
  have "\<not> lock_busy s (arena_index (caches s k)) 3" using d(6) by simp
  from tls_allocate_block [OF demo_os_spec d(2,3) demo_args(2,3) this] d(4,5)
  obtain g' where "tls_acc demo_os (s, g) {} {Block b} (s', g')" "fb_class_index (mem s') b = 3" by auto
  then show ?thesis using d tls_accD(1) by blast
qed

text \<open>
  C12: freeing a block of the user into a live thread cache (\<^verbatim>\<open>TLSCache::DeallocateBlock\<close>) always
  returns, whatever locks are held, and the block is the only piece the user loses. Below the limit of
  its bin the block is pushed: it is the head of the list, the old list follows, the count is one
  more, and the heap gets nothing. When the push makes the count reach the limit, exactly the first
  half of the list (\<open>CACHE_LIMITS ! c div 2\<close> blocks, the new one included) goes back to the global
  heap, and the bin keeps the rest, in order and counted.
\<close>

theorem tls_deallocate_block:
  fixes s :: "'a tls_state_scheme"
  assumes "os_spec api" "tls_ok api s g" "k \<in> gK g" "Block b \<in> pieces g s" "c = fb_class_index (mem s) b"
  shows "\<exists>s' g' xs spill. TLS_DeallocateBlock api k c b s = Some s' \<and> tls_acc api (s, g) {Block b} {} (s', g')
    \<and> chain (fb_next (mem s)) (bin_head (get_bin k c s)) xs
    \<and> spill = (if bin_count (get_bin k c s) + 1 < CACHE_LIMITS ! c then 0 else CACHE_LIMITS ! c div 2)
    \<and> chain (fb_next (mem s')) (bin_head (get_bin k c s')) (drop spill (b # xs))
    \<and> bin_count (get_bin k c s') = bin_count (get_bin k c s) + 1 - spill
    \<and> client (gV g') (mem s') = client (gV g) (mem s) - set (take spill (b # xs))"
proof -
  obtain s' g' where r: "TLS_DeallocateBlock api k c b s = Some s'" "tls_op api s g {Block b} {} s' g'" "block_filed k c b s g s' g'"
    using TLS_DeallocateBlock_op [OF assms(1-4)] unfolding assms(5) by blast
  from r(3) obtain xs spill where x: "chain (fb_next (mem s)) (bin_head (get_bin k c s)) xs" "bin_count (get_bin k c s) = length xs"
    "spill = (if bin_count (get_bin k c s) + 1 < CACHE_LIMITS ! c then 0 else CACHE_LIMITS ! c div 2)"
    "chain (fb_next (mem s')) (bin_head (get_bin k c s')) (drop spill (b # xs))" "bin_count (get_bin k c s') = length xs + 1 - spill"
    "client (gV g') (mem s') = client (gV g) (mem s) - set (take spill (b # xs))" unfolding block_filed_def by blast
  show ?thesis by (intro exI [of _ s'] exI [of _ g'] exI [of _ xs] exI [of _ spill] conjI r(1) op_acc [OF r(2)] x(1,3,4,6)) (simp add: x(2,5))
qed

theorem tls_deallocate_block_witness:
  "\<exists>k s b s1 s' g'. GetFast demo_rt 0 (tls_start ()) = Some (k, s) \<and> TLS_AllocateBlock demo_os k 3 s = Some (b, s1) \<and> b \<noteq> 0
     \<and> TLS_DeallocateBlock demo_os k 3 b s1 = Some s' \<and> tls_ok demo_os s' g' \<and> pieces g' s' = {}
     \<and> (\<exists>xs spill. chain (fb_next (mem s')) (bin_head (get_bin k 3 s')) (drop spill (b # xs)))"
proof -
  obtain k s g b s1 g1 where d: "GetFast demo_rt 0 (tls_start ()) = Some (k, s)" "k \<in> gK g"
    "TLS_AllocateBlock demo_os k 3 s = Some (b, s1)" "b \<noteq> 0" "got_block demo_os 3 s g b s1 g1" "pieces g1 s1 = {Block b}" by (rule demo_block)
  have o: "tls_ok demo_os s1 g1" "k \<in> gK g1" "fb_class_index (mem s1) b = 3"
    using d(2,4,5) tls_opD(1,4) [of demo_os "{}" "{}" s g "{}" "{Block b}" s1 g1] by (auto simp: got_block_def)
  obtain s' g' xs spill where "TLS_DeallocateBlock demo_os k 3 b s1 = Some s'" "tls_acc demo_os (s1, g1) {Block b} {} (s', g')"
    "chain (fb_next (mem s')) (bin_head (get_bin k 3 s')) (drop spill (b # xs))"
    using tls_deallocate_block [OF demo_os_spec o(1,2) _ o(3) [symmetric]] d(6) by blast
  then show ?thesis using d tls_accD(1,3) by fastforce
qed

text \<open>
  C13: a large span the user gives to its cache while the bin of its size class has room
  (\<^verbatim>\<open>DeallocateLargeCached\<close>) is the one the next request served by that span gets back
  (\<^verbatim>\<open>AllocateLargeCached\<close>): same address, size still in its header, slab field null again.
\<close>

theorem large_cache_roundtrip:
  fixes s :: "'a tls_state_scheme"
  assumes "os_spec api" "tls_ok api s g" "k \<in> gK g" "Span p \<in> pieces g s" "gX g p = Some n"
    "large_counts (caches s k) (LargeSizeToClass n) < GetMaxLargeCacheSize n" "sz \<le> n" "LargeSizeToClass sz = LargeSizeToClass n"
  shows "\<exists>s'. AllocateLargeCached api k sz (DeallocateLargeCached api k p n s) = Some (p + 16, s')
    \<and> fb_slab (mem s') p = 0 \<and> lh_alloc_size (mem s') p = n"
proof -
  let ?i = "LargeSizeToClass n"
  let ?s = "DeallocateLargeCached api k p n s"
  have p: "IsPlausibleHeapPtr p" "p \<noteq> 0"
    using ext_facts(1,2) [OF assms(1) spans_okD(1) [OF tls_openD(2) [OF assms(2)] assms(5)]] by simp_all
  have h: "large_free_bins (caches ?s k) ?i = p" "lh_alloc_size (mem ?s) p = n"
    using assms(6) by (simp_all add: DeallocateLargeCached_def Let_def lh_alloc_size_def set_le_next_def set_lh_alloc_size_def)
  have w: "large_walk k sz ?i 0 ?s = Some (p, let s1 = set_large k ?i (le_next (mem ?s) p) ?s in set_large_count k ?i (sub64 (large_counts (caches s1 k) ?i) 1) s1)"
    using h p assms(7) by (subst large_walk.simps) (simp add: get_pp_def set_pp_def Let_def)
  show ?thesis
    using h(2) p(2) unfolding AllocateLargeCached_def assms(8) Let_def
    by (simp add: w Let_def sizeof_LargeAllocHeader_def lh_alloc_size_def set_lh_alloc_size_def cells)
qed

lemma demo_span:
  obtains k s g p s1 g1 where "GetFast demo_rt t (tls_start x) = Some (k, s)" "tls_ok demo_os s g" "k \<in> gK g"
    "AllocateLargeCached demo_os k 8192 s = Some (p + 16, s1)" "tls_op demo_os s g {} {Span p} s1 g1"
    "Span p \<in> pieces g1 s1" "gX g1 p = Some 8192" "large_counts (caches s1 k) 1 = 0" "demo_ready t k s" "large_header g1 (mem s1) p 8192"
proof -
  obtain k s g where d: "GetFast demo_rt t (tls_start x) = Some (k, s)" "demo_ready t k s" "tls_ok demo_os s g" "k \<in> gK g" "pieces g s = {}"
    by (rule demo_start)
  obtain p s0 where r: "AllocateLarge demo_os 8192 s = (p, s0)" by force
  have p: "p \<noteq> 0"
    using r d(2) by (auto simp: AllocateLarge_def ShouldFailAllocationForTest_def align_up_def demo_ready_def
        PageHeapAllocate_def demo_simps MAX_CACHED_PAGES_def FirstNonEmptyAbove_def scan_words.simps page_nonempty_size_def best_fit.simps carve_scan.simps)
  have pg: "GetPageSize demo_os = 4096" by (simp add: GetPageSize_def demo_os_def)
  obtain V where new: "new_span demo_os s (gV g) p 8192 s0 V"
    using AllocateLarge_span [OF demo_os_spec tls_openD(1) [OF d(3)] _ _ _ r] pg p by auto
  note n = new_span_op [OF demo_os_spec d(3) new]
  note h = header_op [OF demo_os_spec n(1,3), of 8192, simplified]
  let ?g = "g\<lparr>gV := V, gX := (gX g)(p \<mapsto> 8192)\<rparr>"
  let ?s1 = "upd_mem (set_lh_alloc_size p 8192) (upd_mem (set_fb_slab p 0) s0)"
  have w: "large_walk k 8192 (LargeSizeToClass 8192) 0 s = Some (0, s)"
    using d(2) by (subst large_walk.simps) (simp add: get_pp_def demo_ready_def)
  have "AllocateLargeCached demo_os k 8192 s = Some (p + 16, ?s1)"
    using w r p h(1) by (simp add: AllocateLargeCached_def Let_def sizeof_LargeAllocHeader_def)
  moreover have "caches ?s1 = caches s" using env_tls(1) [OF accounts_env [OF new_span_facts(6) [OF demo_os_spec new]]] by simp
  ultimately show thesis using that [OF d(1,3,4), of p ?s1 ?g] h(2,3) tls_opD(6) [OF h(2)] d(2) by (simp add: demo_ready_def)
qed

theorem large_cache_roundtrip_witness:
  "\<exists>k s p s1 s'. GetFast demo_rt 0 (tls_start ()) = Some (k, s) \<and> AllocateLargeCached demo_os k 8192 s = Some (p + 16, s1)
     \<and> AllocateLargeCached demo_os k 5000 (DeallocateLargeCached demo_os k p 8192 s1) = Some (p + 16, s') \<and> lh_alloc_size (mem s') p = 8192"
proof -
  obtain k s g p s1 g1 where d: "GetFast demo_rt 0 (tls_start ()) = Some (k, s)" "k \<in> gK g"
    "AllocateLargeCached demo_os k 8192 s = Some (p + 16, s1)" "tls_op demo_os s g {} {Span p} s1 g1"
    "Span p \<in> pieces g1 s1" "gX g1 p = Some 8192" "large_counts (caches s1 k) 1 = 0" by (rule demo_span)
  have c: "LargeSizeToClass 8192 = 1" "LargeSizeToClass 5000 = 1" using LargeSizeToClass_bounds [of 1] by simp_all
  have "large_counts (caches s1 k) (LargeSizeToClass 8192) < GetMaxLargeCacheSize 8192"
    using d(7) GetMaxLargeCacheSize_bounds(1) [of 8192] by (simp add: c)
  from large_cache_roundtrip [OF demo_os_spec tls_opD(1) [OF d(4)] _ d(5,6) this, of 5000] c d(2) tls_opD(4) [OF d(4)]
  show ?thesis using d(1,3) by auto
qed

section \<open>Life cycle\<close>

text \<open>
  C14: flushing a live cache (\<^verbatim>\<open>FlushToGlobalHeap\<close>) returns whatever locks are held. Afterwards every
  bin and every large bin of it is empty, other caches keep their lists, and no piece of the user is
  touched. Every large span that was linked in one of its bins, with the size in its header, has been
  given back once the small bins were flushed: it is filed in the page-cache bin of its size, or the
  system was told to drop exactly that span.
\<close>

theorem flush_empties_cache:
  fixes s :: "'a tls_state_scheme"
  assumes "os_spec api" "tls_ok api s g" "k \<in> gK g"
  shows "\<exists>s1 s' g'. flush_bins api k [0..<NUM_SIZE_CLASSES] s = Some s1
    \<and> FlushToGlobalHeap api k s = Some s' \<and> tls_acc api (s, g) {} {} (s', g')
    \<and> (\<forall>c < NUM_SIZE_CLASSES. get_bin k c s' = bin_zero) \<and> (\<forall>i < NUM_LARGE_CLASSES. large_free_bins (caches s' k) i = 0)
    \<and> (\<forall>q. q \<noteq> k \<longrightarrow> gB g' q = gB g q \<and> gE g' q = gE g q)
    \<and> (\<forall>i < NUM_LARGE_CLASSES. \<forall>es. chain (le_next (mem s)) (large_free_bins (caches s k) i) es \<longrightarrow>
        (\<forall>e \<in> set es. span_given api e (lh_alloc_size (mem s) e) s1 s'))"
proof -
  obtain s' g' where r: "FlushToGlobalHeap api k s = Some s'" "tls_op api s g {} {} s' g'" "empty_cache k s' g'"
    "\<forall>q. q \<noteq> k \<longrightarrow> gB g' q = gB g q \<and> gE g' q = gE g q" "large_given api k s g s'" using FlushToGlobalHeap_op [OF assms] by blast
  obtain s1 where s1: "flush_bins api k [0..<NUM_SIZE_CLASSES] s = Some s1"
    "\<And>i e. i < NUM_LARGE_CLASSES \<Longrightarrow> e \<in> set (gE g k i) \<Longrightarrow> span_given api e (the (gX g e)) s1 s'" using r(5) by (auto simp: large_given_def)
  have given: "span_given api e (lh_alloc_size (mem s) e) s1 s'"
    if "i < NUM_LARGE_CLASSES" "chain (le_next (mem s)) (large_free_bins (caches s k) i) es" "e \<in> set es" for i es e
  proof -
    have "lbin_ok s g k i" using lbins_okD(1) [OF tls_openD(4) [OF assms(2)] assms(3) that(1)] by simp
    then have l: "gE g k i = es" "gX g e = Some (lh_alloc_size (mem s) e)" using chain_unique [OF _ that(2)] that(3) by (auto simp: lbin_ok_def)
    show ?thesis using s1(2) [OF that(1), of e] that(3) l by simp
  qed
  show ?thesis using r(3,4) given
    by (intro exI [of _ s1] exI [of _ s'] exI [of _ g'] conjI s1(1) r(1) op_acc [OF r(2)]) (auto simp: empty_cache_def)
qed

theorem flush_empties_cache_witness:
  "\<exists>k s b s1 s' g'. GetFast demo_rt 0 (tls_start ()) = Some (k, s) \<and> TLS_AllocateBlock demo_os k 3 s = Some (b, s1)
     \<and> FlushToGlobalHeap demo_os k s1 = Some s' \<and> pieces g' s' = {Block b} \<and> get_bin k 3 s' = bin_zero"
proof -
  obtain k s g b s1 g1 where d: "GetFast demo_rt 0 (tls_start ()) = Some (k, s)" "k \<in> gK g"
    "TLS_AllocateBlock demo_os k 3 s = Some (b, s1)" "b \<noteq> 0" "got_block demo_os 3 s g b s1 g1" "pieces g1 s1 = {Block b}" by (rule demo_block)
  have o: "tls_ok demo_os s1 g1" "k \<in> gK g1" "3 < NUM_SIZE_CLASSES"
    using d(2,4,5) tls_opD(1,4) [of demo_os "{}" "{}" s g "{}" "{Block b}" s1 g1] by (auto simp: got_block_def config_consts)
  obtain s' g' where "FlushToGlobalHeap demo_os k s1 = Some s'" "tls_acc demo_os (s1, g1) {} {} (s', g')" "get_bin k 3 s' = bin_zero"
    using flush_empties_cache [OF demo_os_spec o(1,2)] o(3) by blast
  then show ?thesis using d tls_accD(3) by fastforce
qed

text \<open>
  C15: \<^verbatim>\<open>TLSCache::GetFast\<close> with the pool lock free and a usable key gives every thread a live cache of
  its own and touches no piece of the user: a thread that has a cache gets the same one; a new one
  comes from the pool or from fresh pages, and the call aborts only when there is neither.
\<close>

theorem thread_gets_its_cache:
  fixes s :: "'a tls_state_scheme"
  assumes "os_spec (rt_os rt)" "tls_ok (rt_os rt) s g" "key_init s \<or> rt_key_create rt = 0" "\<not> pool_lock_busy s"
  shows "(\<exists>k s' g'. GetFast rt t s = Some (k, s') \<and> tls_acc (rt_os rt) (s, g) {} {} (s', g') \<and> k \<in> gK g' \<and> fast_path_cache s' t = k
      \<and> (thread_cache s t \<noteq> 0 \<longrightarrow> k = thread_cache s t) \<and> (\<forall>t'. t' \<noteq> t \<longrightarrow> thread_cache s' t' \<noteq> k))
    \<or> GetFast rt t s = None \<and> thread_cache s t = 0 \<and> cache_pool s = []
      \<and> (\<exists>s1 :: 'a tls_state_scheme. core s1 = core s \<and> fst (AllocatePages (rt_os rt) (cache_span (rt_os rt)) s1) = 0)"
proof -
  have "thread_cache s' t' \<noteq> k" if "got_cache rt t s g k s' g'" "t' \<noteq> t" for k s' g' t'
  proof
    assume e: "thread_cache s' t' = k"
    have g: "k \<noteq> 0" "fast_path_cache s' t = k" "tls_ok (rt_os rt) s' g'" using that(1) by (simp_all add: got_cache_def tls_acc_def)
    then have "thread_cache s' t = k" by (simp add: thread_cache_def)
    then show False using hub_okD(8) [OF tls_openD(5) [OF g(3)], of t' t] e g(1) that(2) by simp
  qed
  then show ?thesis using GetFast_cases [OF assms, of t] unfolding got_cache_def by blast
qed

theorem thread_gets_its_cache_witness:
  "\<exists>k s' g'. GetFast demo_rt 0 (tls_start ()) = Some (k, s') \<and> k \<noteq> 0 \<and> tls_ok demo_os s' g' \<and> fast_path_cache s' 0 = k"
proof -
  obtain k s g where d: "GetFast demo_rt 0 (tls_start ()) = Some (k, s)" by (rule demo_cache)
  have i: "key_init (tls_start ()) \<or> rt_key_create demo_rt = 0" "\<not> pool_lock_busy (tls_start ())" by (simp_all add: tls_start_def)
  from thread_gets_its_cache [of demo_rt, unfolded demo_rt_os, OF demo_os_spec tls_start_ok _ i(2), of 0] d
  obtain g' where "tls_acc demo_os (tls_start (), ghost_init) {} {} (s, g')" "k \<in> gK g'" "fast_path_cache s 0 = k" by auto
  then show ?thesis using d live_cache_nonzero(1) [OF demo_os_spec tls_accD(1)] tls_accD(1) by blast
qed

text \<open>
  C16: the thread-exit destructor (\<^verbatim>\<open>TlsDestructor\<close>, called with the thread's slot already cleared) of
  a process that is not shutting down returns whatever class locks are held. It runs the destructor
  of the cache, after which every bin of it is empty; the cache leaves the live ones, and no piece of
  the user is touched. Its pages then go to the end of the pool, with no system call, while the pool
  holds fewer than 32 caches; otherwise the pool stays as it is and the whole span of the cache is
  handed back to the system by one call, \<^verbatim>\<open>madvise\<close> if it lies in a chunk and \<^verbatim>\<open>munmap\<close> if not.
\<close>

theorem thread_exit_recycles_cache:
  fixes s :: "'a tls_state_scheme"
  assumes "os_spec api" "tls_ok api s g" "fast_path_cache s t = k" "k \<noteq> 0" "tls_specific s t = 0"
    "\<not> shutting_down s" "\<not> pool_lock_busy s"
  shows "\<exists>s1 s' g'. TLSCache_dtor api k s = Some s1
    \<and> (\<forall>c < NUM_SIZE_CLASSES. get_bin k c s1 = bin_zero) \<and> (\<forall>i < NUM_LARGE_CLASSES. large_free_bins (caches s1 k) i = 0)
    \<and> TlsDestructor api t k s = Some s' \<and> tls_acc api (s, g) {} {} (s', g') \<and> gK g' = gK g - {k}
    \<and> fast_path_cache s' t = 0 \<and> length (cache_pool s') \<le> 32
    \<and> (if length (cache_pool s) < 32 then cache_pool s' = cache_pool s @ [k] \<and> os_log s' = os_log s1
       else cache_pool s' = cache_pool s
         \<and> os_log s' = os_log s1 @ [if IsPoolBacked k s1 then Madvise k (cache_span api) else Munmap k (cache_span api)])"
proof -
  obtain s1 g1 s' g' where r: "TLSCache_dtor api k s = Some s1" "empty_cache k s1 g1" "cache_pool s1 = cache_pool s"
    "TlsDestructor api t k s = Some s'" "tls_acc api (s, g) {} {} (s', g')" "gK g' = gK g - {k}" "fast_path_cache s' t = 0"
    "pages_go api k s1 s'"
    using TlsDestructor_acc [OF assms] by blast
  have "length (cache_pool s') \<le> 32" using hub_okD(4) [OF tls_openD(5) [OF tls_accD(1) [OF r(5)]]] by (simp add: kCachePoolCap_def)
  then show ?thesis using r unfolding kCachePoolCap_def empty_cache_def pages_go_def
    by (intro exI [of _ s1] exI [of _ s'] exI [of _ g']) simp
qed

theorem thread_exit_recycles_cache_witness:
  "\<exists>k s s' g'. GetFast demo_rt 0 (tls_start ()) = Some (k, s) \<and> TlsDestructor demo_os 0 k (s\<lparr>tls_specific := \<lambda>_. 0\<rparr>) = Some s'
     \<and> cache_pool s' = [k] \<and> tls_ok demo_os s' g' \<and> fast_path_cache s' 0 = 0"
proof -
  obtain k s g where d: "GetFast demo_rt 0 (tls_start ()) = Some (k, s)" "got_cache demo_rt 0 (tls_start ()) ghost_init k s g"
    "demo_ready 0 k s" "tls_ok demo_os s g" by (rule demo_start)
  let ?s = "s\<lparr>tls_specific := \<lambda>_. 0\<rparr>"
  have f: "fast_path_cache s 0 = k" "k \<noteq> 0" "cache_pool s = []" "\<not> shutting_down s" "\<not> pool_lock_busy s"
    using d(2,3) by (simp_all add: demo_ready_def got_cache_def)
  note ho = hub_okD [OF tls_openD(5) [OF d(4)]]
  have tc: "thread_cache ?s t = fast_path_cache s t" for t by (simp add: thread_cache_def)
  have "tls_acc demo_os (s, g) {} {} (?s, g)"
  proof (rule assign_thread [OF d(4)])
    show "thread_cache ?s t \<in> gK g" if "thread_cache ?s t \<noteq> 0" for t
      using ho(6) [of t] that unfolding tc by (simp add: thread_cache_def split: if_splits)
    show "t = t'" if "thread_cache ?s t \<noteq> 0" "thread_cache ?s t = thread_cache ?s t'" for t t'
      using ho(8) [of t t'] that unfolding tc by (simp add: thread_cache_def split: if_splits)
  qed (simp_all add: core_def)
  from thread_exit_recycles_cache [OF demo_os_spec tls_accD(1) [OF this], of 0 k] f
  obtain s' g' where "TlsDestructor demo_os 0 k ?s = Some s'" "tls_acc demo_os (?s, g) {} {} (s', g')" "fast_path_cache s' 0 = 0" "cache_pool s' = [k]" by auto
  then show ?thesis using d(1) tls_accD(1) by blast
qed

section \<open>Batched statistics\<close>

text \<open>
  What the statistics would show if thread cache \<open>k\<close> published its batch now, and the counters of it
  that do not depend on when that happens (all but the peaks), modulo the width of the counters.
\<close>

definition published :: "addr \<Rightarrow> 'a tls_state_scheme \<Rightarrow> stats" where
  "published k s = (let st = local_stats (caches s k)
     in stats_run [SmallAlloc (ls_small_allocs st) (ls_small_alloc_bytes st), SmallFree (ls_small_frees st) (ls_small_free_bytes st),
          LargeAlloc (ls_large_allocs st) (ls_large_alloc_bytes st), LargeFree (ls_large_frees st) (ls_large_free_bytes st),
          Realloc (ls_reallocs st)] (g_stats s))"

definition tally :: "stats \<Rightarrow> int list" where
  "tally st = map (\<lambda>n. int n mod 2 ^ 64) [small_allocs st, small_frees st, large_allocs st, large_frees st, reallocs st, live_blocks st, live_bytes st]"

fun tally_delta :: "stats_event \<Rightarrow> int list" where
  "tally_delta (SmallAlloc n b) = [int n, 0, 0, 0, 0, int n, int b]"
| "tally_delta (SmallFree n b) = [0, int n, 0, 0, 0, - int n, - int b]"
| "tally_delta (LargeAlloc n b) = [0, 0, int n, 0, 0, int n, int b]"
| "tally_delta (LargeFree n b) = [0, 0, 0, int n, 0, - int n, - int b]"
| "tally_delta (Realloc n) = [0, 0, 0, 0, int n, 0, 0]"
| "tally_delta _ = [0, 0, 0, 0, 0, 0, 0]"

lemma tally_step: "tally (stats_step ev st) = map2 (\<lambda>x d. (x + d) mod 2 ^ 64) (tally st) (tally_delta ev)"
  by (cases ev) (simp_all add: tally_def stats_defs Let_def int_add64 int_sub64 mod_simps)

lemma tally_published:
  "tally (published k s) = (let st = local_stats (caches s k); G = g_stats s in
     map (\<lambda>x. x mod 2 ^ 64) [int (small_allocs G) + int (ls_small_allocs st), int (small_frees G) + int (ls_small_frees st),
       int (large_allocs G) + int (ls_large_allocs st), int (large_frees G) + int (ls_large_frees st), int (reallocs G) + int (ls_reallocs st),
       int (live_blocks G) + int (ls_small_allocs st) - int (ls_small_frees st) + int (ls_large_allocs st) - int (ls_large_frees st),
       int (live_bytes G) + int (ls_small_alloc_bytes st) - int (ls_small_free_bytes st) + int (ls_large_alloc_bytes st) - int (ls_large_free_bytes st)])"
  by (simp add: published_def stats_run_def tally_step Let_def del: stats_step.simps) (simp add: tally_def mod_simps)

lemma tally_FlushStats: "tally (published k (FlushStats k s)) = tally (published k s)"
proof (cases "ls_ops (local_stats (caches s k)) = 0")
  case False
  let ?st = "local_stats (caches s k)" and ?z = "local_stats_zero"
  have "g_stats (FlushStats k s) = published k s \<and> local_stats (caches (FlushStats k s) k) = ?z"
    using False by (simp add: FlushStats_def Let_def published_def stats_run_def count_stats_def set_cache_def)
  then have "tally (published k (FlushStats k s)) = map (\<lambda>x. x mod 2 ^ 64) (tally (published k s))"
    by (subst tally_published) (simp add: Let_def local_stats_zero_def tally_def)
  then show ?thesis by (simp add: tally_def)
qed (simp add: FlushStats_def)

lemma tally_count_op:
  "tally (published k (count_op k f s)) = tally (published k (set_cache k ((caches s k)\<lparr>local_stats := f (local_stats (caches s k))\<rparr>) s))"
proof -
  let ?t = "\<lambda>st. set_cache k ((caches s k)\<lparr>local_stats := st\<rparr>) s"
  have o: "published k (?t (st\<lparr>ls_ops := n\<rparr>)) = published k (?t st)" for st n
    by (simp add: published_def set_cache_def)
  then show ?thesis by (simp add: count_op_def Let_def tally_FlushStats)
qed

text \<open>
  C17: counting through a thread's batch refines counting directly. Whether or not the batch of 256
  operations is published on the way, an operation counted by the thread
  (\<^verbatim>\<open>CountSmallAlloc\<close>, \<^verbatim>\<open>CountSmallFree\<close>, \<^verbatim>\<open>CountLargeAlloc\<close>, \<^verbatim>\<open>CountLargeFree\<close>, \<^verbatim>\<open>CountRealloc\<close> of the
  cache) changes the published counters as the direct call would, and \<^verbatim>\<open>FlushStats\<close> changes none of
  them: nothing is lost or counted twice.
\<close>

theorem batched_stats_refine:
  "tally (published k (TLS_CountSmallAlloc k n s)) = tally (stats_step (SmallAlloc 1 n) (published k s))
   \<and> tally (published k (TLS_CountSmallFree k n s)) = tally (stats_step (SmallFree 1 n) (published k s))
   \<and> tally (published k (TLS_CountLargeAlloc k n s)) = tally (stats_step (LargeAlloc 1 n) (published k s))
   \<and> tally (published k (TLS_CountLargeFree k n s)) = tally (stats_step (LargeFree 1 n) (published k s))
   \<and> tally (published k (TLS_CountRealloc k s)) = tally (stats_step (Realloc 1) (published k s))
   \<and> tally (published k (FlushStats k s)) = tally (published k s)"
  unfolding TLS_CountSmallAlloc_def TLS_CountSmallFree_def TLS_CountLargeAlloc_def TLS_CountLargeFree_def TLS_CountRealloc_def
    tally_count_op tally_FlushStats
  by (simp add: published_def stats_run_def tally_step Let_def set_cache_def del: stats_step.simps)
     (simp add: tally_def int_add64 mod_simps; simp add: algebra_simps)

end
