(* ===== verification/FA_ApiOps.thy ===== *)
theory FA_ApiOps
  imports FA_Api FA_TLSProps
begin

text \<open>
  How the public functions (\<^verbatim>\<open>src/fast_alloc.cpp\<close>) act on what the user holds. A call is made in a state
  that is valid for the thread caches (\<open>callable\<close>); what the user holds are the pieces of that state,
  and \<open>owns g s x u n\<close> says that piece \<open>x\<close> is the allocation with user pointer \<open>u\<close> and \<open>n\<close> usable bytes.
\<close>

section \<open>User pointers\<close>

fun owns :: "ghost \<Rightarrow> mem \<Rightarrow> piece \<Rightarrow> addr \<Rightarrow> nat \<Rightarrow> bool" where
  "owns g m (Block b) u n \<longleftrightarrow> u = b + 16 \<and> n = UsableSize (fb_class_index m b)"
| "owns g m (Span p) u n \<longleftrightarrow> u = p + 16 \<and> large_header g m p (n + 16)"

definition callable :: "rt_api \<Rightarrow> 'a tls_state_scheme \<Rightarrow> ghost \<Rightarrow> bool" where
  "callable rt s g \<longleftrightarrow> os_spec (rt_os rt) \<and> tls_ok (rt_os rt) s g \<and> (key_init s \<or> rt_key_create rt = 0)
     \<and> \<not> pool_lock_busy s \<and> lock_busy s = (\<lambda>_ _. False)"

definition no_cache :: "rt_api \<Rightarrow> nat \<Rightarrow> 'a tls_state_scheme \<Rightarrow> bool" where
  "no_cache rt t s \<longleftrightarrow> thread_cache s t = 0 \<and> cache_pool s = []
     \<and> (\<exists>s1 :: 'a tls_state_scheme. core s1 = core s \<and> fst (AllocatePages (rt_os rt) (cache_span (rt_os rt)) s1) = 0)"

lemma callableD:
  assumes "callable rt s g"
  shows "os_spec (rt_os rt)" "tls_ok (rt_os rt) s g" "key_init s \<or> rt_key_create rt = 0" "\<not> pool_lock_busy s" "\<not> lock_busy s a c"
  using assms by (simp_all add: callable_def)

lemma callable_acc:
  assumes "callable rt s g" "tls_acc (rt_os rt) (s, g) A B (s', g')" "key_init s \<longrightarrow> key_init s'"
  shows "callable rt s' g'"
  using assms tls_accD [OF assms(2)] by (auto simp: callable_def)

lemma callable_op: "callable rt s g \<Longrightarrow> tls_op (rt_os rt) s g A B s' g' \<Longrightarrow> callable rt s' g'"
  using callable_acc [OF _ op_acc] hubD(4) [OF tls_opD(3)] by blast

lemma get_cache:
  assumes "callable rt s g"
  obtains "GetFast rt t s = None" "no_cache rt t s"
  | k s' g' where "GetFast rt t s = Some (k, s')" "got_cache rt t s g k s' g'" "callable rt s' g'"
proof (cases "GetFast rt t s")
  case None
  then show thesis using GetFast_cases [OF callableD(1-4) [OF assms], of t] that(1) by (simp add: no_cache_def)
next
  case (Some r)
  then obtain k s' g' where r: "GetFast rt t s = Some (k, s')" "got_cache rt t s g k s' g'"
    using GetFast_cases [OF callableD(1-4) [OF assms], of t] by auto
  then have "tls_acc (rt_os rt) (s, g) {} {} (s', g')" "key_init s \<longrightarrow> key_init s'" by (simp_all add: got_cache_def)
  then show thesis using that(2) [OF r callable_acc [OF assms]] by blast
qed

lemma owns_facts:
  assumes spec: "os_spec api" and ok: "tls_open api E F s g" and x: "x \<in> pieces g s" "owns g (mem s) x u n"
  shows "{u..<u + n} \<subseteq> piece_cells g (mem s) x" "u mod 16 = 0" "IsPlausibleHeapPtr u" "0 < n" "16 \<le> u" "u + n \<le> 2 ^ 47"
proof -
  note o = tls_openD [OF ok]
  have "{u..<u + n} \<subseteq> piece_cells g (mem s) x \<and> u mod 16 = 0 \<and> IsPlausibleHeapPtr u \<and> 0 < n \<and> 16 \<le> u \<and> u + n \<le> 2 ^ 47"
  proof (cases x)
    case (Block b)
    then have b: "b \<in> client (gV g) (mem s)" "u = b + 16" "n = UsableSize (fb_class_index (mem s) b)" using x by (simp_all add: piece_block)
    note c = client_facts [OF spec o(1) b(1)]
    have k: "fb_class_index (mem s) b < 2 ^ 59" using c(8) by (simp add: config_consts)
    have "bcells (mem s) b \<subseteq> slab_range (mem s) (fb_slab (mem s) b)" by (rule client_used(1) [OF o(1) b(1)])
    moreover have "span_ok api (fb_slab (mem s) b) (slab_memory_size (mem s) (fb_slab (mem s) b))"
      using gh_good [OF o(1) client_slab(1) [OF o(1) b(1)]] by (simp add: slab_good_def)
    ultimately have lim: "\<forall>a \<in> bcells (mem s) b. a < 2 ^ 47" by (fastforce simp: slab_range_def span_ok_def)
    have bs: "bcells (mem s) b = {b..<b + (fb_class_index (mem s) b + 1) * 16}" using k by (simp add: bcells_def ClassIndexToSize_exact)
    have e: "b + 16 + fb_class_index (mem s) b * 16 - 1 \<in> bcells (mem s) b" "b + 16 \<in> bcells (mem s) b" using c(7) by (simp_all add: bs)
    then have "b + 16 + fb_class_index (mem s) b * 16 - 1 < 2 ^ 47" "b + 16 < 2 ^ 47" using lim by blast+
    then show ?thesis using b(2,3) c(1,7) k Block by (simp add: IsPlausibleHeapPtr_iff UsableSize_exact bs)
  next
    case (Span p)
    then have p: "gX g p = Some (n + 16)" "u = p + 16" using x by (auto simp: large_header_def)
    note e = ext_facts [OF spec spans_okD(1) [OF o(2) p(1)]]
    have "p mod 16 = 0" using e(2) by (simp add: IsPlausibleHeapPtr_iff)
    then show ?thesis using p e(2,4,5) Span by (auto simp: IsPlausibleHeapPtr_iff)
  qed
  then show "{u..<u + n} \<subseteq> piece_cells g (mem s) x" "u mod 16 = 0" "IsPlausibleHeapPtr u" "0 < n" "16 \<le> u" "u + n \<le> 2 ^ 47" by blast+
qed

lemma kept_class:
  assumes ok: "tls_open api E F s g" and x: "Block b \<in> pieces g s - A" and m: "moves (s, g) A B (s', g')"
  shows "fb_class_index (mem s') b = fb_class_index (mem s) b"
proof -
  have b: "b \<in> client (gV g) (mem s)" using x by (simp add: piece_block)
  have "b + 8 \<in> bcells (mem s) b"
    using out_bcells(4) [OF gh_good [OF tls_openD(1) [OF ok]] client_slab(2) [OF tls_openD(1) [OF ok] b]]
      client_slab(1) [OF tls_openD(1) [OF ok] b] by simp
  then have "mem s' (b + 8) = mem s (b + 8)" using movesD(3) [OF m, of "Block b"] x by simp
  then show ?thesis by (simp add: cells)
qed

text \<open>A step that keeps the piece keeps what it owns.\<close>

lemma owns_kept:
  assumes spec: "os_spec api" and ok: "tls_open api E F s g" and x: "x \<in> pieces g s - A" "owns g (mem s) x u n" and m: "moves (s, g) A B (s', g')"
  shows "owns g' (mem s') x u n" "x \<in> pieces g' s'"
proof -
  show "x \<in> pieces g' s'" using movesD(1) [OF m] x(1) by simp
  have c: "piece_cells g' (mem s') x = piece_cells g (mem s) x" "\<And>a. a \<in> piece_cells g (mem s) x \<Longrightarrow> mem s' a = mem s a"
    using movesD(2,3) [OF m] x(1) by simp_all
  show "owns g' (mem s') x u n"
  proof (cases x)
    case (Block b)
    then show ?thesis using x kept_class [OF ok _ m, of b] by simp
  next
    case (Span p)
    then have p: "gX g p = Some (n + 16)" using x by (simp add: large_header_def)
    obtain k where k: "gX g' p = Some k" using movesD(1) [OF m] x(1) Span piece_span [of p g' s'] by auto
    have "4096 \<le> n + 16" using ext_facts(4) [OF spec spans_okD(1) [OF tls_openD(2) [OF ok] p]] .
    moreover have e: "{p..<p + k} = {p..<p + (n + 16)}" using c(1) p k Span by simp
    have "card {p..<p + k} = card {p..<p + (n + 16)}" unfolding e ..
    then have "k = n + 16" by simp
    ultimately have "k = n + 16" "4096 \<le> k" by simp_all
    then show ?thesis using x(2) Span k c(2) [of p] c(2) [of "p + 8"] p by (simp add: large_header_def lh_alloc_size_def cells)
  qed
qed

section \<open>User writes\<close>

lemma set_byte_cell: "a \<noteq> x - x mod 8 \<Longrightarrow> set_byte x v m a = m a"
  by (simp add: set_byte_def Let_def)

lemma bulk_cells:
  assumes "\<And>x. p \<le> x \<Longrightarrow> x < p + n \<Longrightarrow> a \<noteq> x - x mod 8"
  shows "memset p v n m a = m a" "memcpy p q n m a = m a"
proof -
  show "memset p v n m a = m a" using assms
    by (induction n arbitrary: p m) (simp_all add: set_byte_cell)
  show "memcpy p q n m a = m a" using assms
    by (induction n arbitrary: p q m) (simp_all add: set_byte_cell)
qed

lemma cell_in:
  fixes p x :: nat
  assumes "p mod 8 = 0" "p \<le> x"
  shows "p \<le> x - x mod 8"
proof -
  have "8 * (p div 8) \<le> 8 * (x div 8)" using div_le_mono [OF assms(2)] by simp
  moreover have "8 * (p div 8) = p" using assms(1) minus_mod_eq_mult_div [of p 8] by simp
  ultimately show ?thesis by (simp add: minus_mod_eq_mult_div)
qed

lemma byte_cong:
  assumes "p mod 8 = 0" "a \<in> {p..<p + n}" "\<And>c. c \<in> {p..<p + n} \<Longrightarrow> m' c = m c"
  shows "byte_at m' a = byte_at m a"
  using cell_in [OF assms(1), of a] assms(2) assms(3) [of "a - a mod 8"] by (auto simp: byte_at_def)

lemma bulk_range:
  assumes "p mod 8 = 0" "a \<notin> {p..<p + n}"
  shows "memset p v n m a = m a" "memcpy p q n m a = m a"
proof -
  have "a \<noteq> x - x mod 8" if "p \<le> x" "x < p + n" for x using cell_in [OF assms(1) that(1)] assms(2) that(2) by auto
  note c = bulk_cells [OF this]
  show "memset p v n m a = m a" by (rule c(1))
  show "memcpy p q n m a = m a" by (rule c(2))
qed

text \<open>Whatever the user writes into its own bytes, the allocator stays valid and the user keeps the allocation.\<close>

lemma write_user:
  fixes s :: "'a tls_state_scheme"
  assumes spec: "os_spec api" and ok: "tls_ok api s g" and x: "x \<in> pieces g s" "owns g (mem s) x u n"
    and w: "\<And>a. a \<notin> {u..<u + n} \<Longrightarrow> f (mem s) a = mem s a"
  shows "tls_op api s g {x} {x} (upd_mem f s) g" "owns g (mem (upd_mem f s)) x u n"
proof -
  have "tls_op api s g {x} {x} (upd_mem f s) g \<and> owns g (mem (upd_mem f s)) x u n"
  proof (cases x)
    case (Block b)
    then have b: "b \<in> client (gV g) (mem s)" "u = b + 16" "n = UsableSize (fb_class_index (mem s) b)" using x by (simp_all add: piece_block)
    have k: "fb_class_index (mem s) b < 2 ^ 59" using client_facts(8) [OF spec tls_openD(1) [OF ok] b(1)] by (simp add: config_consts)
    have "tls_op api s g {Block b} {Block b} (upd_mem f s) g"
      by (rule write_block_op [OF spec ok]) (use x(1) b(2,3) k w Block in \<open>simp_all add: UsableSize_exact ClassIndexToSize_exact add.assoc\<close>)
    moreover have "f (mem s) (b + 8) = mem s (b + 8)" by (rule w) (simp add: b(2))
    ultimately show ?thesis using x(2) Block by (simp add: cells)
  next
    case (Span p)
    then have p: "gX g p = Some (n + 16)" "u = p + 16" "large_header g (mem s) p (n + 16)" using x by (simp_all add: large_header_def)
    have "tls_op api s g {Span p} {Span p} (upd_mem f s) g"
    proof (rule write_span_op [OF spec ok _ p(1)])
      show "f (mem s) a = mem s a" if "a \<notin> {p..<p + (n + 16)}" for a by (rule w) (use that p(2) in auto)
    qed (use x(1) Span in simp)
    moreover have "f (mem s) p = mem s p" "f (mem s) (p + 8) = mem s (p + 8)" by (rule w; simp add: p(2))+
    ultimately show ?thesis using p(2,3) Span by (simp add: large_header_def lh_alloc_size_def cells)
  qed
  then show "tls_op api s g {x} {x} (upd_mem f s) g" "owns g (mem (upd_mem f s)) x u n" by blast+
qed

section \<open>Allocation\<close>

definition got_user :: "rt_api \<Rightarrow> nat \<Rightarrow> nat \<Rightarrow> 'a tls_state_scheme \<Rightarrow> ghost \<Rightarrow> addr \<Rightarrow> 'a tls_state_scheme \<Rightarrow> ghost \<Rightarrow> bool" where
  "got_user rt t sz s g u s' g' \<longleftrightarrow> callable rt s' g' \<and> (u \<noteq> 0 \<or> fast_path_cache s t \<noteq> 0 \<longrightarrow> fast_path_cache s' t \<noteq> 0) \<and>
     (if u = 0 then tls_acc (rt_os rt) (s, g) {} {} (s', g')
     else \<exists>x n. tls_acc (rt_os rt) (s, g) {} {x} (s', g') \<and> x \<notin> pieces g s \<and> owns g' (mem s') x u n \<and> max 1 sz \<le> n)"

lemma op_path: "tls_op api s g A B s' g' \<Longrightarrow> fast_path_cache s' = fast_path_cache s"
  using hubD(2) [OF tls_opD(3)] .

lemma block_user:
  assumes spec: "os_spec api" and ok: "tls_ok api s g" and b: "got_block api c s g b s' g'" "b \<noteq> 0"
  shows "owns g' (mem s') (Block b) (b + 16) (UsableSize c)" "IsPlausibleHeapPtr (b + 16)" "tls_ok api s' g'"
    "tls_op api s g {} {Block b} s' g'" "Block b \<notin> pieces g s"
proof -
  have o: "tls_op api s g {} {Block b} s' g'" "fb_class_index (mem s') b = c" "Block b \<notin> pieces g s" using b by (auto simp: got_block_def)
  show "owns g' (mem s') (Block b) (b + 16) (UsableSize c)" using o(2) by simp
  then show "IsPlausibleHeapPtr (b + 16)" using owns_facts(3) [OF spec tls_opD(1) [OF o(1)]] tls_opD(6) [OF o(1)] by blast
  show "tls_ok api s' g'" "tls_op api s g {} {Block b} s' g'" "Block b \<notin> pieces g s" using tls_opD(1) [OF o(1)] o(1,3) by blast+
qed


lemma small_malloc:
  fixes s :: "'a api_state_scheme"
  assumes c: "callable rt s g" and sz: "0 < sz" "sz \<le> MaxSmallRequest"
  shows "fast_malloc rt t sz s = None \<and> no_cache rt t s
    \<or> (\<exists>u s' g'. fast_malloc rt t sz s = Some (u, s') \<and> got_user rt t sz s g u s' g')"
proof -
  let ?c = "RequestToClass sz"
  note r = RequestToClass_range [OF sz]
  show ?thesis
  proof (cases rule: get_cache [OF c, of t, case_names none some])
    case none
    then show ?thesis using sz by (simp add: fast_malloc_def Let_def)
  next
    case 2: (some k s1 g1)
    have k: "k \<in> gK g1" "tls_acc (rt_os rt) (s, g) {} {} (s1, g1)" using 2(2) by (simp_all add: got_cache_def)
    note c1 = callableD [OF 2(3)]
    obtain b s2 g2 where b: "TLS_AllocateBlock (rt_os rt) k ?c s1 = Some (b, s2)" "got_block (rt_os rt) ?c s1 g1 b s2 g2"
      using TLS_AllocateBlock_op [OF c1(1,2) k(1) r c1(5)] by blast
    show ?thesis
    proof (cases "b = 0")
      case True
      then have z: "tls_op (rt_os rt) s1 g1 {} {} s2 g2" using b(2) by (simp add: got_block_def)
      have "got_user rt t sz s g 0 s2 g2" using tls_acc_before [OF k(2) op_acc [OF z]] callable_op [OF 2(3) z] op_path [OF z] 2(2)
        by (simp add: got_user_def got_cache_def)
      then show ?thesis using sz 2(1) b(1) True by (auto simp: fast_malloc_def Let_def)
    next
      case False
      note u = block_user [OF c1(1,2) b(2) False]
      let ?s3 = "TLS_CountSmallAlloc k (UsableSize ?c) s2"
      have f: "tls_op (rt_os rt) s2 g2 {} {} ?s3 g2" by (rule frame_op [OF u(3)]) simp
      have "tls_acc (rt_os rt) (s, g) {} {Block b} (?s3, g2)"
        by (rule tls_acc_after [OF tls_acc_before [OF k(2) op_acc [OF u(4)]] op_acc [OF f]])
      moreover have "owns g2 (mem ?s3) (Block b) (b + 16) (UsableSize ?c)"
        using owns_kept(1) [OF c1(1) u(3) _ u(1) tls_opD(2) [OF f]] tls_opD(6) [OF u(4)] by simp
      moreover have "callable rt ?s3 g2" by (rule callable_op [OF callable_op [OF 2(3) u(4)] f])
      moreover have "Block b \<notin> pieces g s" using u(5) tls_accD(3) [OF k(2)] by simp
      moreover have "max 1 sz \<le> UsableSize ?c" using sz request.fits [of sz] by (simp add: MaxSmallRequest_val)
      moreover have "fast_path_cache ?s3 t \<noteq> 0" using op_path [OF f] op_path [OF u(4)] 2(2) by (simp add: got_cache_def)
      ultimately have "got_user rt t sz s g (b + 16) ?s3 g2" by (auto simp: got_user_def)
      then show ?thesis using sz 2(1) b(1) False u(2) by (auto simp: fast_malloc_def Let_def USER_OFFSET_def)
    qed
  qed
qed

lemma large_size_fits:
  assumes spec: "os_spec api" and n: "n < 2 ^ 64" and c: "\<not> add64 n 16 < n" "add64 n 16 \<le> add64 (sub64 SIZE_MAX (GetPageSize api)) 1"
  defines "a \<equiv> align_up (add64 n 16) (GetPageSize api)"
  shows "n + 16 \<le> a" "a mod GetPageSize api = 0" "a + GetPageSize api \<le> 2 ^ 64"
proof -
  let ?p = "GetPageSize api"
  note p = os_spec_page_bounds [OF spec]
  have e: "add64 n 16 = n + 16" using c(1) add64_wraps_iff [of n 16] n by (intro add64_exact) simp
  have m: "add64 (sub64 SIZE_MAX ?p) 1 = 2 ^ 64 - ?p" using p(1,2) by (simp add: arith64 SIZE_MAX_def)
  then have b: "n + 16 + ?p \<le> 2 ^ 64" using c(2) e p(2) by simp
  note u = align_up_page [OF spec b]
  show "n + 16 \<le> a" "a mod ?p = 0" using u(1,2) by (simp_all add: a_def e)
  obtain k where k: "?p = 2 ^ k" "k \<le> 21" using os_spec_page [OF spec] by blast
  have "?p dvd 2 ^ 64 - ?p" unfolding k(1) by (rule dvd_diff_nat; rule le_imp_power_dvd) (use k(2) in simp_all)
  then obtain j where j: "2 ^ 64 - ?p = ?p * j" by (rule dvdE)
  obtain i where i: "a = ?p * i" using u(2) unfolding a_def e by (auto simp: mod_eq_0_iff_dvd)
  have "?p * i < ?p * Suc j" using u(3) i j b by (simp add: a_def e)
  then have "i \<le> j" by (auto simp del: mult_Suc_right)
  then have "a \<le> 2 ^ 64 - ?p" using i j by (metis mult_le_mono2)
  then show "a + ?p \<le> 2 ^ 64" using p(2) by simp
qed

lemma span_user:
  assumes spec: "os_spec api" and ok: "tls_ok api s g" and u: "got_span api sz s g u s' g'" "u \<noteq> 0" "16 < sz"
  obtains p n where "u = p + 16" "owns g' (mem s') (Span p) u n" "sz - 16 \<le> n" "IsPlausibleHeapPtr u" "tls_ok api s' g'"
    "tls_op api s g {} {Span p} s' g'" "Span p \<notin> pieces g s" "lh_alloc_size (mem s') p = n + 16"
proof -
  obtain p n where p: "u = p + 16" "tls_op api s g {} {Span p} s' g'" "Span p \<notin> pieces g s" "large_header g' (mem s') p n" "sz \<le> n"
    using u by (auto simp: got_span_def)
  have o: "owns g' (mem s') (Span p) u (n - 16)" using p(1,4,5) u(3) by simp
  moreover have "IsPlausibleHeapPtr u" using owns_facts(3) [OF spec tls_opD(1) [OF p(2)] _ o] tls_opD(6) [OF p(2)] by blast
  moreover have "lh_alloc_size (mem s') p = n - 16 + 16" using p(4,5) u(3) by (simp add: large_header_def)
  ultimately show thesis using that [of p "n - 16"] p(1,3,5) tls_opD(1) [OF p(2)] p(2) by simp
qed

lemma large_malloc:
  fixes s :: "'a api_state_scheme"
  assumes c: "callable rt s g" and sz: "MaxSmallRequest < sz" "sz < 2 ^ 64"
  shows "fast_malloc rt t sz s = None \<and> no_cache rt t s
    \<or> (\<exists>u s' g'. fast_malloc rt t sz s = Some (u, s') \<and> got_user rt t sz s g u s' g')"
proof -
  let ?n = "align_up (add64 sz 16) (GetPageSize (rt_os rt))"
  have pos: "0 < sz" using sz(1) by simp
  have refused: "got_user rt t sz s g 0 s g" using callableD(2) [OF c] c by (simp add: got_user_def tls_acc_def)
  show ?thesis
  proof (cases "add64 sz 16 < sz \<or> add64 (sub64 SIZE_MAX (GetPageSize (rt_os rt))) 1 < add64 sz 16")
    case True
    then show ?thesis using refused pos sz(1) by (auto simp: fast_malloc_def Let_def sizeof_LargeAllocHeader_def)
  next
    case False
    then have "\<not> add64 sz 16 < sz" "add64 sz 16 \<le> add64 (sub64 SIZE_MAX (GetPageSize (rt_os rt))) 1" by auto
    note f = large_size_fits [OF callableD(1) [OF c] sz(2) this]
    have run: "fast_malloc rt t sz s = do { (tls, s) \<leftarrow> GetFast rt t s;
        (u, s) \<leftarrow> AllocateLargeCached (rt_os rt) tls ?n s;
        if u \<noteq> 0 then if \<not> IsPlausibleHeapPtr u then Some (0, s)
          else Some (u, TLS_CountLargeAlloc tls (sub64 (lh_alloc_size (mem s) (u - 16)) 16) s)
        else Some (0, s) }"
      unfolding fast_malloc_def Let_def sizeof_LargeAllocHeader_def using False pos sz(1) by simp
    show ?thesis
    proof (cases rule: get_cache [OF c, of t, case_names none some])
      case none
      then show ?thesis unfolding run by simp
    next
      case 2: (some k s1 g1)
      have k: "k \<in> gK g1" "tls_acc (rt_os rt) (s, g) {} {} (s1, g1)" using 2(2) by (simp_all add: got_cache_def)
      note c1 = callableD [OF 2(3)]
      have n: "0 < ?n" "16 < ?n" using f(1) pos by linarith+
      obtain u s2 g2 where b: "AllocateLargeCached (rt_os rt) k ?n s1 = Some (u, s2)" "got_span (rt_os rt) ?n s1 g1 u s2 g2"
        using AllocateLargeCached_op [OF c1(1,2) k(1) n(1) f(2,3)] by blast
      show ?thesis
      proof (cases "u = 0")
        case True
        then have z: "tls_op (rt_os rt) s1 g1 {} {} s2 g2" using b(2) by (simp add: got_span_def)
        have "got_user rt t sz s g 0 s2 g2" using tls_acc_before [OF k(2) op_acc [OF z]] callable_op [OF 2(3) z] op_path [OF z] 2(2)
        by (simp add: got_user_def got_cache_def)
        then show ?thesis unfolding run using 2(1) b(1) True by auto
      next
        case False
        obtain p n where u: "u = p + 16" "owns g2 (mem s2) (Span p) u n" "?n - 16 \<le> n" "IsPlausibleHeapPtr u" "tls_ok (rt_os rt) s2 g2"
          "tls_op (rt_os rt) s1 g1 {} {Span p} s2 g2" "Span p \<notin> pieces g1 s1"
          by (rule span_user [OF c1(1,2) b(2) False n(2)]) blast
        let ?s3 = "TLS_CountLargeAlloc k (sub64 (lh_alloc_size (mem s2) (u - 16)) 16) s2"
        have op: "tls_op (rt_os rt) s2 g2 {} {} ?s3 g2" by (rule frame_op [OF u(5)]) simp
        have "tls_acc (rt_os rt) (s, g) {} {Span p} (?s3, g2)"
          by (rule tls_acc_after [OF tls_acc_before [OF k(2) op_acc [OF u(6)]] op_acc [OF op]])
        moreover have "owns g2 (mem ?s3) (Span p) u n"
          by (rule owns_kept(1) [OF c1(1) u(5) _ u(2) tls_opD(2) [OF op]]) (simp add: tls_opD(6) [OF u(6)])
        moreover have "callable rt ?s3 g2" by (rule callable_op [OF callable_op [OF 2(3) u(6)] op])
        moreover have "Span p \<notin> pieces g s" using u(7) tls_accD(3) [OF k(2)] by simp
        moreover have "max 1 sz \<le> n" using pos f(1) u(3) by linarith
        moreover have "fast_path_cache ?s3 t \<noteq> 0" using op_path [OF op] op_path [OF u(6)] 2(2) by (simp add: got_cache_def)
        ultimately have "got_user rt t sz s g u ?s3 g2" using False unfolding got_user_def by (simp del: owns.simps) blast
        then show ?thesis unfolding run using 2(1) b(1) False u(4) by auto
      qed
    qed
  qed
qed


lemma fast_malloc_got:
  fixes s :: "'a api_state_scheme"
  assumes c: "callable rt s g" and sz: "sz < 2 ^ 64"
  obtains "fast_malloc rt t sz s = None" "no_cache rt t s"
  | u s' g' where "fast_malloc rt t sz s = Some (u, s')" "got_user rt t sz s g u s' g'"
proof -
  let ?n = "if sz = 0 then 1 else sz"
  have n: "fast_malloc rt t sz s = fast_malloc rt t ?n s" "got_user rt t ?n s g u s' g' = got_user rt t sz s g u s' g'" for u s' g'
  proof -
    have m: "max 1 ?n = max 1 sz" by simp
    show "fast_malloc rt t sz s = fast_malloc rt t ?n s" by (simp add: fast_malloc_def)
    show "got_user rt t ?n s g u s' g' = got_user rt t sz s g u s' g'" unfolding got_user_def m ..
  qed
  have "0 < ?n" "?n < 2 ^ 64" using sz by simp_all
  then have "fast_malloc rt t ?n s = None \<and> no_cache rt t s
      \<or> (\<exists>u s' g'. fast_malloc rt t ?n s = Some (u, s') \<and> got_user rt t ?n s g u s' g')"
    using small_malloc [OF c, of ?n t] large_malloc [OF c, of ?n t] by (cases "?n \<le> MaxSmallRequest") (blast, simp)
  then show thesis unfolding n(1) [symmetric] n(2) by (elim disjE exE conjE) (erule that(1) that(2), assumption)+
qed

section \<open>Deallocation\<close>

text \<open>The header word the allocator finds before a user pointer tells large spans, blocks and over-aligned pointers apart.\<close>

lemma block_header:
  assumes spec: "os_spec api" and ok: "tls_open api E F s g" and x: "Block b \<in> pieces g s"
  shows "fb_slab (mem s) b \<noteq> 0" "fb_slab (mem s) b \<noteq> ALIGN_MAGIC" "fb_class_index (mem s) b < NUM_SIZE_CLASSES"
proof -
  have b: "b \<in> client (gV g) (mem s)" using x by (simp add: piece_block)
  have "span_ok api (fb_slab (mem s) b) (slab_memory_size (mem s) (fb_slab (mem s) b))"
    using gh_good [OF tls_openD(1) [OF ok] client_slab(1) [OF tls_openD(1) [OF ok] b]] by (simp add: slab_good_def)
  moreover have "0 < slab_memory_size (mem s) (fb_slab (mem s) b)"
    using client_used(1) [OF tls_openD(1) [OF ok] b] client_facts(5) [OF spec tls_openD(1) [OF ok] b] by (auto simp: slab_range_def)
  ultimately have "IsPlausibleHeapPtr (fb_slab (mem s) b)" by (intro span_ok_plausible [OF spec])
  then show "fb_slab (mem s) b \<noteq> 0" "fb_slab (mem s) b \<noteq> ALIGN_MAGIC" by (auto simp: IsPlausibleHeapPtr_iff ALIGN_MAGIC_def)
  show "fb_class_index (mem s) b < NUM_SIZE_CLASSES" by (rule client_facts(8) [OF spec tls_openD(1) [OF ok] b])
qed

text \<open>
  Where a freed piece is afterwards, read off the states before and after: a block in its bin of the
  thread's cache, or spilled from it; a span in the thread's bin of its size class, or where the
  global heap puts it.
\<close>

fun piece_filed :: "os_api \<Rightarrow> addr \<Rightarrow> piece \<Rightarrow> 'a tls_state_scheme \<Rightarrow> ghost \<Rightarrow> 'a tls_state_scheme \<Rightarrow> ghost \<Rightarrow> bool" where
  "piece_filed api k (Block b) s g s' g' = block_filed k (fb_class_index (mem s) b) b s g s' g'"
| "piece_filed api k (Span p) s g s' g' = span_filed api k p (the (gX g p)) s s'"

lemma core_fields:
  "core s' = core s \<Longrightarrow> mem s' = mem s \<and> os_log s' = os_log s \<and> pool_chunks s' = pool_chunks s \<and> page_bins s' = page_bins s
     \<and> page_cache_total_bytes s' = page_cache_total_bytes s"
  by (simp add: core_def)

lemma piece_filed_frame:
  assumes "tls_frame {} {} s s1" "piece_filed api k x s1 g s' g'"
  shows "piece_filed api k x s g s' g'"
proof -
  have f: "core s1 = core s" "\<And>k c. get_bin k c s1 = get_bin k c s" "\<And>k i. large_free_bins (caches s1 k) i = large_free_bins (caches s k) i"
    "\<And>k i. large_counts (caches s1 k) i = large_counts (caches s k) i" using assms(1) by (simp_all add: tls_frame_def)
  note m = core_fields [OF f(1)]
  have pool: "IsPoolBacked p s1 = IsPoolBacked p s" for p using m by (simp add: IsPoolBacked_def Pool_Contains_def)
  have "span_back api p n s1 s' = span_back api p n s s'" for p n
    using m pool unfolding span_back_def cache_room_def span_cached_def span_released_def by simp
  then have "span_filed api k p n s1 s' = span_filed api k p n s s'" for p n using f(3,4) by (simp add: span_filed_def)
  moreover have "block_filed k c b s1 g s' g' = block_filed k c b s g s' g'" for c b using m f(2) by (simp add: block_filed_def)
  ultimately show ?thesis using assms(2) m by (cases x) simp_all
qed

text \<open>What a free promises: the thread has its cache, the user loses the piece and nothing else, and the piece is filed.\<close>

definition given_back :: "rt_api \<Rightarrow> nat \<Rightarrow> 'a tls_state_scheme \<Rightarrow> ghost \<Rightarrow> piece \<Rightarrow> 'a tls_state_scheme \<Rightarrow> ghost \<Rightarrow> bool" where
  "given_back rt t s g x s' g' \<longleftrightarrow> callable rt s' g' \<and> fast_path_cache s' t \<noteq> 0 \<and> tls_acc (rt_os rt) (s, g) {x} {} (s', g')
     \<and> (\<exists>k s1 g1. GetFast rt t s = Some (k, s1) \<and> tls_acc (rt_os rt) (s, g) {} {} (s1, g1) \<and> k \<in> gK g1
         \<and> piece_filed (rt_os rt) k x s1 g1 s' g')"

lemma given_backI:
  assumes "callable rt s' g'" "fast_path_cache s' t \<noteq> 0" "tls_acc (rt_os rt) (s1, g1) {x} {} (s', g')"
    "GetFast rt t s = Some (k, s1)" "tls_acc (rt_os rt) (s, g) {} {} (s1, g1)" "k \<in> gK g1" "piece_filed (rt_os rt) k x s1 g1 s' g'"
  shows "given_back rt t s g x s' g'"
  using assms tls_acc_before [OF assms(5,3)] unfolding given_back_def by blast

lemma free_block:
  fixes s :: "'a api_state_scheme"
  assumes c: "callable rt s g" and b: "Block b \<in> pieces g s" and k: "k \<in> gK g" "fast_path_cache s t \<noteq> 0" and n: "c = fb_class_index (mem s) b"
  shows "\<exists>s' g'. TLS_DeallocateBlock (rt_os rt) k c b (TLS_CountSmallFree k (UsableSize c) s) = Some s'
    \<and> callable rt s' g' \<and> fast_path_cache s' t \<noteq> 0 \<and> tls_acc (rt_os rt) (s, g) {Block b} {} (s', g') \<and> piece_filed (rt_os rt) k (Block b) s g s' g'"
proof -
  note cd = callableD [OF c]
  let ?s = "TLS_CountSmallFree k (UsableSize c) s"
  have f: "tls_frame {} {} s ?s" by simp
  note o = frame_op [OF cd(2) f]
  have m: "mem ?s = mem s" using f coreD(1) by (auto simp: tls_frame_def)
  have "Block b \<in> pieces g ?s" using b tls_opD(6) [OF o] by simp
  then obtain s' g' where r: "TLS_DeallocateBlock (rt_os rt) k c b ?s = Some s'" "tls_op (rt_os rt) ?s g {Block b} {} s' g'" "block_filed k c b ?s g s' g'"
    using TLS_DeallocateBlock_op [OF cd(1) tls_opD(1) [OF o] k(1), of b] unfolding m n [symmetric] by blast
  have "fast_path_cache s' t \<noteq> 0" using op_path [OF r(2)] op_path [OF o] k(2) by simp
  moreover have "piece_filed (rt_os rt) k (Block b) s g s' g'"
    by (rule piece_filed_frame [OF f]) (use r(3) m n in simp)
  ultimately show ?thesis using r(1) callable_op [OF c tls_op_before [OF o r(2)]] op_acc [OF tls_op_before [OF o r(2)]] by blast
qed

lemma free_span:
  fixes s :: "'a api_state_scheme" and m :: nat
  assumes c: "callable rt s g" and p: "Span p \<in> pieces g s" "gX g p = Some n" and k: "k \<in> gK g" "fast_path_cache s t = k" "k \<noteq> 0"
  defines "s1 \<equiv> TLS_CountLargeFree k m s"
  shows "GetFast rt t s1 = Some (k, s1)"
    "\<exists>g'. callable rt (DeallocateLargeCached (rt_os rt) k p n s1) g' \<and> fast_path_cache (DeallocateLargeCached (rt_os rt) k p n s1) t \<noteq> 0
      \<and> tls_acc (rt_os rt) (s, g) {Span p} {} (DeallocateLargeCached (rt_os rt) k p n s1, g')
      \<and> piece_filed (rt_os rt) k (Span p) s g (DeallocateLargeCached (rt_os rt) k p n s1) g'"
proof -
  note cd = callableD [OF c]
  have f: "tls_frame {} {} s s1" unfolding s1_def by simp
  note o = frame_op [OF cd(2) f]
  show "GetFast rt t s1 = Some (k, s1)" using k(2,3) hubD(2) [OF tls_opD(3) [OF o]] by (simp add: GetFast_def)
  have "Span p \<in> pieces g s1" using p(1) tls_opD(6) [OF o] by simp
  from DeallocateLargeCached_op [OF cd(1) tls_opD(1) [OF o] k(1) this p(2)]
  obtain g' where r: "tls_op (rt_os rt) s1 g {Span p} {} (DeallocateLargeCached (rt_os rt) k p n s1) g'" by blast
  note b = tls_op_before [OF o r]
  have "piece_filed (rt_os rt) k (Span p) s g (DeallocateLargeCached (rt_os rt) k p n s1) g'"
    by (rule piece_filed_frame [OF f]) (use DeallocateLargeCached_filed [OF cd(1) tls_opD(1) [OF o] k(1) p(2)] p(2) in simp)
  moreover have "fast_path_cache (DeallocateLargeCached (rt_os rt) k p n s1) t \<noteq> 0" using op_path [OF b] k(2,3) by simp
  ultimately show "\<exists>g'. callable rt (DeallocateLargeCached (rt_os rt) k p n s1) g' \<and> fast_path_cache (DeallocateLargeCached (rt_os rt) k p n s1) t \<noteq> 0
      \<and> tls_acc (rt_os rt) (s, g) {Span p} {} (DeallocateLargeCached (rt_os rt) k p n s1, g')
      \<and> piece_filed (rt_os rt) k (Span p) s g (DeallocateLargeCached (rt_os rt) k p n s1) g'"
    using callable_op [OF c b] op_acc [OF b] by blast
qed

lemma count_mem [simp]:
  "mem (TLS_CountSmallFree k n s) = mem s" "mem (TLS_CountRealloc k s) = mem s"
  using count_frames(2,5) [of "{}" "{}" s k] coreD(1) unfolding tls_frame_def by blast+

lemma fast_free_got:
  fixes s :: "'a api_state_scheme"
  assumes c: "callable rt s g" and x: "x \<in> pieces g s" "owns g (mem s) x u n"
  obtains "fast_free rt t u s = None" "no_cache rt t s"
  | s' g' where "fast_free rt t u s = Some s'" "given_back rt t s g x s' g'"
proof -
  note cd = callableD [OF c]
  note u = owns_facts [OF cd(1,2) x]
  have u0: "u \<noteq> 0" using u(5) by simp
  show thesis
  proof (cases x)
    case (Block b)
    then have b: "u = b + 16" "Block b \<in> pieces g s" using x by simp_all
    note h = block_header [OF cd(1,2) b(2)]
    have run: "fast_free rt t u s = do { (tls, s) \<leftarrow> GetFast rt t s;
        let s = TLS_CountSmallFree tls (UsableSize (fb_class_index (mem s) b)) s in TLS_DeallocateBlock (rt_os rt) tls (fb_class_index (mem s) b) b s }"
      using u0 u(3) h b(1) by (subst fast_free.simps) (simp add: Let_def USER_OFFSET_def)
    show thesis
    proof (cases rule: get_cache [OF c, of t, case_names none some])
      case none
      then show thesis using that(1) unfolding run by simp
    next
      case 2: (some k s1 g1)
      have k: "k \<in> gK g1" "tls_acc (rt_os rt) (s, g) {} {} (s1, g1)" "fast_path_cache s1 t \<noteq> 0" using 2(2) by (simp_all add: got_cache_def)
      have "Block b \<in> pieces g1 s1" using b(2) tls_accD(3) [OF k(2)] by simp
      then obtain s' g' where f: "TLS_DeallocateBlock (rt_os rt) k (fb_class_index (mem s1) b) b (TLS_CountSmallFree k (UsableSize (fb_class_index (mem s1) b)) s1) = Some s'"
        "callable rt s' g'" "fast_path_cache s' t \<noteq> 0" "tls_acc (rt_os rt) (s1, g1) {Block b} {} (s', g')" "piece_filed (rt_os rt) k (Block b) s1 g1 s' g'"
        using free_block [OF 2(3) _ k(1,3) refl] by blast
      show thesis
        by (rule that(2) [of s' g']) (use 2(1) f(1) given_backI [OF f(2-4) 2(1) k(2,1) f(5)] Block in \<open>simp_all add: run Let_def\<close>)
    qed
  next
    case (Span p)
    then have p: "u = p + 16" "gX g p = Some (n + 16)" "fb_slab (mem s) p = 0" "lh_alloc_size (mem s) p = n + 16" using x by (simp_all add: large_header_def)
    note e = ext_facts [OF cd(1) spans_okD(1) [OF tls_openD(2) [OF cd(2)] p(2)]]
    have "GetPageSize (rt_os rt) \<le> n + 16" using e(6,8) by (intro dvd_imp_le) (simp_all add: mod_eq_0_iff_dvd)
    then have "LargeHeaderSizePlausible (rt_os rt) (n + 16)" using e(5,6) by (simp add: LargeHeaderSizePlausible_def)
    then have run: "fast_free rt t u s = do { (tls, s) \<leftarrow> GetFast rt t s;
        (tls, s) \<leftarrow> GetFast rt t (TLS_CountLargeFree tls (sub64 (n + 16) 16) s);
        Some (DeallocateLargeCached (rt_os rt) tls p (n + 16) s) }"
      using u0 u(3) p(1,3,4) by (subst fast_free.simps) (simp add: Let_def USER_OFFSET_def sizeof_LargeAllocHeader_def)
    show thesis
    proof (cases rule: get_cache [OF c, of t, case_names none some])
      case none
      then show thesis using that(1) unfolding run by simp
    next
      case 2: (some k s1 g1)
      have k: "k \<in> gK g1" "tls_acc (rt_os rt) (s, g) {} {} (s1, g1)" "fast_path_cache s1 t = k" "k \<noteq> 0" using 2(2) by (simp_all add: got_cache_def)
      have y: "Span p \<in> pieces g1 s1" using x(1) Span tls_accD(3) [OF k(2)] by simp
      have "owns g1 (mem s1) (Span p) u n" by (rule owns_kept(1) [OF cd(1,2) _ _ tls_accD(2) [OF k(2)]]) (use x Span in simp_all)
      then have "gX g1 p = Some (n + 16)" by (simp add: large_header_def)
      note f = free_span [OF 2(3) y this k(1,3,4), of "sub64 (n + 16) 16"]
      let ?s = "DeallocateLargeCached (rt_os rt) k p (n + 16) (TLS_CountLargeFree k (sub64 (n + 16) 16) s1)"
      obtain g' where g': "callable rt ?s g'" "fast_path_cache ?s t \<noteq> 0" "tls_acc (rt_os rt) (s1, g1) {Span p} {} (?s, g')"
        "piece_filed (rt_os rt) k (Span p) s1 g1 ?s g'" using f(2) by blast
      show thesis
        by (rule that(2)) (use 2(1) f(1) given_backI [OF g'(1-3) 2(1) k(2,1) g'(4)] Span in \<open>simp_all add: run\<close>)
    qed
  qed
qed


end
