(* ===== verification/FA_ApiProps.thy ===== *)
theory FA_ApiProps
  imports FA_ApiOps
begin

text \<open>
  The correctness properties of the public functions (\<^verbatim>\<open>src/fast_alloc.cpp\<close>): what
  \<^verbatim>\<open>fast_malloc\<close>, \<^verbatim>\<open>fast_calloc\<close>, \<^verbatim>\<open>fast_aligned_alloc\<close> and \<^verbatim>\<open>fast_free\<close> promise their
  caller, on every branch, for a caller that frees only what it was given.
\<close>

section \<open>User pointers with an alignment header\<close>

text \<open>
  Allocation \<open>x\<close> as the user sees it: \<open>n\<close> bytes at \<open>u\<close>, either right behind the header of the piece
  or further inside it, behind the 32-byte header an over-aligned pointer has.
\<close>

definition aligned_at :: "ghost \<Rightarrow> mem \<Rightarrow> piece \<Rightarrow> addr \<Rightarrow> nat \<Rightarrow> addr \<Rightarrow> nat \<Rightarrow> nat \<Rightarrow> bool" where
  "aligned_at g m x raw k u n al \<longleftrightarrow> owns g m x raw k \<and> raw + 32 \<le> u \<and> u + n \<le> raw + k \<and> 0 < n \<and> u mod 16 = 0 \<and> (\<exists>i. al = 2 ^ i \<and> 5 \<le> i \<and> i \<le> 12)
     \<and> m (u - 32) = al \<and> m (u - 24) = raw \<and> m (u - 16) = ALIGN_MAGIC \<and> m (u - 8) = n"

definition user_ptr :: "ghost \<Rightarrow> mem \<Rightarrow> piece \<Rightarrow> addr \<Rightarrow> nat \<Rightarrow> bool" where
  "user_ptr g m x u n \<longleftrightarrow> owns g m x u n \<or> (\<exists>raw k al. aligned_at g m x raw k u n al)"

lemma owns_user: "owns g m x u n \<Longrightarrow> user_ptr g m x u n"
  by (simp add: user_ptr_def)

lemma user_ptr_facts:
  assumes spec: "os_spec api" and ok: "tls_open api E F s g" and x: "x \<in> pieces g s" "user_ptr g (mem s) x u n"
  shows "{u..<u + n} \<subseteq> piece_cells g (mem s) x" "u mod 16 = 0" "IsPlausibleHeapPtr u" "0 < n" "u \<noteq> 0"
proof -
  have "{u..<u + n} \<subseteq> piece_cells g (mem s) x \<and> u mod 16 = 0 \<and> IsPlausibleHeapPtr u \<and> 0 < n"
  proof (cases "owns g (mem s) x u n")
    case True
    then show ?thesis using owns_facts [OF spec ok x(1) True] by blast
  next
    case False
    then obtain raw k al where a: "aligned_at g (mem s) x raw k u n al" using x(2) by (auto simp: user_ptr_def)
    then have r: "owns g (mem s) x raw k" "raw + 32 \<le> u" "u + n \<le> raw + k" "u mod 16 = 0" "0 < n" by (simp_all add: aligned_at_def)
    note o = owns_facts [OF spec ok x(1) r(1)]
    have "{u..<u + n} \<subseteq> {raw..<raw + k}" using r(2,3) by auto
    then show ?thesis using o(1,3,6) r by (auto simp: IsPlausibleHeapPtr_iff)
  qed
  then show "{u..<u + n} \<subseteq> piece_cells g (mem s) x" "u mod 16 = 0" "IsPlausibleHeapPtr u" "0 < n" "u \<noteq> 0"
    by (auto simp: IsPlausibleHeapPtr_iff)
qed

text \<open>An over-aligned pointer is freed as the allocation it lies in.\<close>

lemma fast_free_aligned:
  assumes a: "aligned_at g (mem s) x raw k u n al" and p: "IsPlausibleHeapPtr u"
  shows "fast_free rt t u s = fast_free rt t raw s"
proof -
  have "fb_slab (mem s) (u - 16) = ALIGN_MAGIC" "mem s (u - 24) = raw" using a by (simp_all add: aligned_at_def cells)
  moreover have "u \<noteq> 0" using p by (auto simp: IsPlausibleHeapPtr_iff)
  ultimately show ?thesis using p by (subst fast_free.simps) (simp add: Let_def USER_OFFSET_def ALIGN_MAGIC_def)
qed

lemma fast_free_user:
  fixes s :: "'a api_state_scheme"
  assumes c: "callable rt s g" and x: "x \<in> pieces g s" "user_ptr g (mem s) x u n"
  obtains "fast_free rt t u s = None" "no_cache rt t s"
  | s' g' where "fast_free rt t u s = Some s'" "given_back rt t s g x s' g'"
proof (cases "owns g (mem s) x u n")
  case True
  show thesis by (rule fast_free_got [OF c x(1) True, of t]) (erule that; assumption)+
next
  case False
  then obtain raw k al where a: "aligned_at g (mem s) x raw k u n al" using x(2) by (auto simp: user_ptr_def)
  then have o: "owns g (mem s) x raw k" by (simp add: aligned_at_def)
  have e: "fast_free rt t u s = fast_free rt t raw s"
    by (rule fast_free_aligned [OF a user_ptr_facts(3) [OF callableD(1,2) [OF c] x]])
  show thesis by (rule fast_free_got [OF c x(1) o, of t]) (rule that, simp add: e, assumption)+
qed

section \<open>Allocation\<close>

text \<open>
  What an allocation function promises: null and nothing of the user touched, or a pointer to at
  least \<open>max 1 sz\<close> bytes of one new piece.
\<close>

definition allocated :: "rt_api \<Rightarrow> nat \<Rightarrow> 'a tls_state_scheme \<Rightarrow> ghost \<Rightarrow> nat \<Rightarrow> addr \<Rightarrow> 'a tls_state_scheme \<Rightarrow> ghost \<Rightarrow> bool" where
  "allocated rt t s g sz u s' g' \<longleftrightarrow> callable rt s' g' \<and> (u \<noteq> 0 \<or> fast_path_cache s t \<noteq> 0 \<longrightarrow> fast_path_cache s' t \<noteq> 0)
     \<and> (if u = 0 then tls_acc (rt_os rt) (s, g) {} {} (s', g')
        else \<exists>x n. tls_acc (rt_os rt) (s, g) {} {x} (s', g') \<and> x \<notin> pieces g s \<and> user_ptr g' (mem s') x u n \<and> max 1 sz \<le> n)"

lemma allocatedI:
  assumes "callable rt s' g'" "tls_acc (rt_os rt) (s, g) {} {x} (s', g')" "x \<notin> pieces g s" "user_ptr g' (mem s') x u n" "max 1 sz \<le> n"
    "fast_path_cache s' t \<noteq> 0"
  shows "allocated rt t s g sz u s' g'"
proof -
  have "x \<in> pieces g' s'" using tls_accD(3) [OF assms(2)] by simp
  then have "u \<noteq> 0" using user_ptr_facts(5) [OF callableD(1,2) [OF assms(1)] _ assms(4)] by blast
  then show ?thesis unfolding allocated_def using assms by auto
qed

lemma got_userE:
  assumes "got_user rt t sz s g u s' g'" "u \<noteq> 0"
  obtains x n where "callable rt s' g'" "tls_acc (rt_os rt) (s, g) {} {x} (s', g')" "x \<notin> pieces g s" "x \<in> pieces g' s'"
    "owns g' (mem s') x u n" "max 1 sz \<le> n" "u mod 16 = 0" "fast_path_cache s' t \<noteq> 0"
proof -
  obtain x n where x: "callable rt s' g'" "tls_acc (rt_os rt) (s, g) {} {x} (s', g')" "x \<notin> pieces g s" "owns g' (mem s') x u n" "max 1 sz \<le> n"
    using assms unfolding got_user_def by auto
  have i: "x \<in> pieces g' s'" using tls_accD(3) [OF x(2)] by simp
  show thesis by (rule that [OF x(1-3) i x(4,5) owns_facts(2) [OF callableD(1,2) [OF x(1)] i x(4)]]) (use assms in \<open>simp add: got_user_def\<close>)
qed

lemma got_user_aligned:
  assumes "got_user rt t sz s g u s' g'"
  shows "u mod 16 = 0"
proof (cases "u = 0")
  case False
  show ?thesis by (rule got_userE [OF assms False])
qed simp

lemma got_allocated: "got_user rt t sz s g u s' g' \<Longrightarrow> allocated rt t s g sz u s' g'"
  by (cases "u = 0") (auto simp: got_user_def allocated_def user_ptr_def)

section \<open>A concrete start\<close>

text \<open>A fresh process on the concrete operating system; in it the first \<^verbatim>\<open>fast_malloc(40)\<close> succeeds.\<close>

definition api_start :: api_state where
  "api_start = tls_start (api_state.fields (\<lambda>_. 0))"

lemma api_start_callable: "callable demo_rt api_start ghost_init"
  unfolding callable_def demo_rt_os api_start_def by (simp add: demo_os_spec tls_start_ok) (simp add: tls_start_def)

lemma api_start_pieces [simp]: "pieces ghost_init api_start = {}"
  by (simp add: api_start_def)

lemma api_start_cached: "\<not> no_cache demo_rt t api_start"
proof
  assume "no_cache demo_rt t api_start"
  then obtain s1 :: api_state where "core s1 = core api_start" "fst (AllocatePages demo_os (cache_span demo_os) s1) = 0"
    by (auto simp: no_cache_def)
  then show False using demo_pages [of s1 "api_state.fields (\<lambda>_. 0)"] by (simp add: api_start_def)
qed

lemma cached_not_none: "fast_path_cache s t \<noteq> 0 \<Longrightarrow> \<not> no_cache rt t s"
  by (simp add: no_cache_def thread_cache_def)

lemma ready_callable: "demo_ready t k s \<Longrightarrow> tls_ok demo_os s g \<Longrightarrow> callable demo_rt s g"
  by (simp add: callable_def demo_ready_def demo_os_spec)

lemma demo_owned:
  obtains u s' g' x n where "fast_malloc demo_rt t 40 api_start = Some (u, s')" "callable demo_rt s' g'" "x \<in> pieces g' s'" "user_ptr g' (mem s') x u n"
    "pieces g' s' = {x}" "\<not> no_cache demo_rt t s'" "fast_path_cache s' t \<noteq> 0" "owns g' (mem s') x u n" "x = Block (u - 16)"
proof -
  obtain k s g b s' g' where d: "GetFast demo_rt t api_start = Some (k, s)" "tls_ok demo_os s g" "TLS_AllocateBlock demo_os k 3 s = Some (b, s')"
    "b \<noteq> 0" "got_block demo_os 3 s g b s' g'" "pieces g' s' = {Block b}" "demo_ready t k s" "k \<in> gK g" unfolding api_start_def by (rule demo_block)
  note u = block_user [OF demo_os_spec d(2,5,4)]
  let ?s = "TLS_CountSmallAlloc k (UsableSize 3) s'"
  have run: "fast_malloc demo_rt t 40 api_start = Some (b + 16, ?s)"
    using d(1,3,4) u(2) unfolding fast_malloc_def Let_def MaxSmallRequest_val USER_OFFSET_def by (simp add: RequestToClass_div)
  have o: "tls_op demo_os s' g' {} {} ?s g'" by (rule frame_op [OF u(3)]) simp
  have c: "callable demo_rt ?s g'" by (rule callable_op [OF callable_op [OF ready_callable [OF d(7,2)]]]) (use u(4) o in simp_all)
  have f: "fast_path_cache ?s t \<noteq> 0" using d(7) live_cache_nonzero(1) [OF demo_os_spec d(2,8)] op_path [OF o] op_path [OF u(4)] by (simp add: demo_ready_def)
  have p: "pieces g' ?s = {Block b}" using tls_opD(6) [OF o] d(6) by simp
  have ow: "owns g' (mem ?s) (Block b) (b + 16) (UsableSize 3)" by (rule owns_kept(1) [OF demo_os_spec u(3) _ u(1) tls_opD(2) [OF o]]) (use d(6) in simp)
  show thesis by (rule that [OF run c _ owns_user [OF ow] p cached_not_none [OF f] f ow]) (use p in simp_all)
qed

lemma demo_malloc:
  obtains u s' where "fast_malloc demo_rt t 40 api_start = Some (u, s')" "u \<noteq> 0"
proof -
  obtain u s' g' x n where d: "fast_malloc demo_rt t 40 api_start = Some (u, s')" "callable demo_rt s' g'" "x \<in> pieces g' s'" "user_ptr g' (mem s') x u n"
    by (rule demo_owned)
  show thesis by (rule that [OF d(1) user_ptr_facts(5) [OF callableD(1,2) [OF d(2)] d(3,4)]])
qed

section \<open>Allocation functions\<close>

text \<open>
  C3: \<^verbatim>\<open>fast_malloc(sz)\<close> returns for every 64-bit size, unless the thread has no cache yet and none can
  be made for it (the process aborts). The result is null, with nothing of the user touched, or a
  16-byte aligned pointer to at least \<open>max 1 sz\<close> bytes of a piece that the user did not hold: those
  bytes overlap no other allocation, every other allocation keeps its contents, and the allocator
  stays valid.
\<close>

theorem malloc_result:
  fixes s :: "'a api_state_scheme"
  assumes "callable rt s g" "sz < 2 ^ 64"
  shows "fast_malloc rt t sz s = None \<and> no_cache rt t s
    \<or> (\<exists>u s' g'. fast_malloc rt t sz s = Some (u, s') \<and> allocated rt t s g sz u s' g' \<and> u mod 16 = 0
      \<and> (u \<noteq> 0 \<longrightarrow> (\<forall>y \<in> pieces g s. {u..<u + max 1 sz} \<inter> piece_cells g (mem s) y = {})))"
proof (cases rule: fast_malloc_got [OF assms, of t, case_names none some])
  case (some u s' g')
  show ?thesis
  proof (cases "u = 0")
    case False
    obtain x n where x: "callable rt s' g'" "tls_acc (rt_os rt) (s, g) {} {x} (s', g')" "x \<notin> pieces g s" "x \<in> pieces g' s'"
      "owns g' (mem s') x u n" "max 1 sz \<le> n" "u mod 16 = 0" using got_userE [OF some(2) False] .
    note c' = callableD [OF x(1)]
    have "{u..<u + max 1 sz} \<inter> piece_cells g (mem s) y = {}" if y: "y \<in> pieces g s" for y
    proof -
      have "{u..<u + max 1 sz} \<subseteq> piece_cells g' (mem s') x" using owns_facts(1) [OF c'(1,2) x(4,5)] x(6) by fastforce
      moreover have "piece_cells g' (mem s') y = piece_cells g (mem s) y" using movesD(2) [OF tls_accD(2) [OF x(2)], of y] y by simp
      moreover have "piece_cells g' (mem s') x \<inter> piece_cells g' (mem s') y = {}"
        by (rule pieces_disjoint [OF c'(2) x(4)]) (use y x(3) tls_accD(3) [OF x(2)] in auto)
      ultimately show ?thesis by blast
    qed
    then show ?thesis using some(1) got_allocated [OF some(2)] x(7) by auto
  qed (use some(1) got_allocated [OF some(2)] in auto)
qed simp

theorem malloc_result_witness:
  "\<exists>u s' g'. fast_malloc demo_rt 0 40 api_start = Some (u, s') \<and> u \<noteq> 0 \<and> u mod 16 = 0 \<and> allocated demo_rt 0 api_start ghost_init 40 u s' g'"
proof -
  obtain u s' where d: "fast_malloc demo_rt 0 40 api_start = Some (u, s')" "u \<noteq> 0" by (rule demo_malloc)
  then show ?thesis using malloc_result [OF api_start_callable, of 40 0] by auto
qed

lemma upd_mem_path [simp]: "fast_path_cache (upd_mem f s) = fast_path_cache s"
  by (simp add: upd_mem_def)

lemma cell_aligned: "u mod 16 = 0 \<Longrightarrow> u mod 8 = 0" for u :: nat
  using mod_mod_cancel [of 8 16 u] by simp

lemma write_new:
  fixes s :: "'a tls_state_scheme"
  assumes spec: "os_spec api" and x: "tls_acc api (s, g) {} {x} (s1, g1)" "x \<notin> pieces g s" "owns g1 (mem s1) x u n"
    and w: "\<And>a. a \<notin> {u..<u + n} \<Longrightarrow> f (mem s1) a = mem s1 a"
  shows "tls_acc api (s, g) {} {x} (upd_mem f s1, g1)" "owns g1 (mem (upd_mem f s1)) x u n"
proof -
  have i: "x \<in> pieces g1 s1" using tls_accD(3) [OF x(1)] by simp
  note o = write_user [where f = f, OF spec tls_accD(1) [OF x(1)] i x(3) w]
  show "owns g1 (mem (upd_mem f s1)) x u n" by (rule o(2))
  show "tls_acc api (s, g) {} {x} (upd_mem f s1, g1)"
    by (rule tls_acc_comp [OF x(1) op_acc [OF o(1)]]) (use x(2) in auto)
qed

lemma fast_calloc_cases:
  fixes s :: "'a api_state_scheme"
  assumes "callable rt s g" "num < 2 ^ 64" "sz < 2 ^ 64"
  shows "if num * sz \<ge> 2 ^ 64 then fast_calloc rt t num sz s = Some (0, s)
    else fast_calloc rt t num sz s = None \<and> no_cache rt t s
      \<or> (\<exists>u s' g'. fast_calloc rt t num sz s = Some (u, s') \<and> allocated rt t s g (num * sz) u s' g'
        \<and> (u \<noteq> 0 \<longrightarrow> (\<forall>a \<in> {u..<u + num * sz}. byte_at (mem s') a = 0)))"
proof -
  have ov: "num \<noteq> 0 \<and> SIZE_MAX div num < sz \<longleftrightarrow> 2 ^ 64 \<le> num * sz"
  proof (cases "num = 0")
    case False
    then have "SIZE_MAX div num < sz \<longleftrightarrow> SIZE_MAX < num * sz" by (simp add: div_less_iff_less_mult mult.commute)
    then show ?thesis using False by (auto simp: SIZE_MAX_def)
  qed simp
  show ?thesis
  proof (cases "2 ^ 64 \<le> num * sz")
    case True
    then show ?thesis using ov by (simp add: fast_calloc_def)
  next
    case fits: False
    have m: "mul64 num sz = num * sz" using fits by (intro mul64_exact) simp
    have run: "fast_calloc rt t num sz s = do { (ptr, s) \<leftarrow> fast_malloc rt t (num * sz) s;
        if ptr \<noteq> 0 \<and> num * sz > 0 then Some (ptr, upd_mem (memset ptr 0 (num * sz)) s) else Some (ptr, s) }"
      using ov fits unfolding fast_calloc_def Let_def m by auto
    have n: "num * sz < 2 ^ 64" using fits by simp
    show ?thesis
    proof (cases rule: fast_malloc_got [OF assms(1) n, of t, case_names none some])
      case none
      then show ?thesis using fits unfolding run by simp
    next
      case (some u s1 g1)
      show ?thesis
      proof (cases "u = 0")
        case True
        then show ?thesis using some(1) got_allocated [OF some(2)] fits unfolding run by auto
      next
        case False
        obtain x n where x: "callable rt s1 g1" "tls_acc (rt_os rt) (s, g) {} {x} (s1, g1)" "x \<notin> pieces g s" "x \<in> pieces g1 s1"
          "owns g1 (mem s1) x u n" "max 1 (num * sz) \<le> n" "u mod 16 = 0" "fast_path_cache s1 t \<noteq> 0" by (rule got_userE [OF some(2) False])
        let ?f = "memset u 0 (num * sz)"
        have w: "?f (mem s1) a = mem s1 a" if "a \<notin> {u..<u + n}" for a
          by (rule bulk_range(1) [OF cell_aligned [OF x(7)]]) (use that x(6) in auto)
        note o = write_new [where f = ?f, OF callableD(1) [OF x(1)] x(2,3,5) w]
        have c: "callable rt (upd_mem ?f s1) g1"
          by (rule callable_op [OF x(1) write_user(1) [where f = ?f, OF callableD(1,2) [OF x(1)] x(4,5) w]])
        have al: "allocated rt t s g (num * sz) u (upd_mem ?f s1) g1"
          by (rule allocatedI [OF c o(1) x(3) owns_user [OF o(2)] x(6)]) (use x(8) in simp_all)
        show ?thesis
        proof (cases "num * sz = 0")
          case True
          then show ?thesis using some(1) got_allocated [OF some(2)] fits unfolding run by auto
        next
          case False
          have "\<forall>a \<in> {u..<u + num * sz}. byte_at (mem (upd_mem ?f s1)) a = 0" by (simp add: byte_memset)
          moreover have "fast_calloc rt t num sz s = Some (u, upd_mem ?f s1)" using some(1) False \<open>u \<noteq> 0\<close> unfolding run by simp
          ultimately show ?thesis using al fits by auto
        qed
      qed
    qed
  qed
qed

text \<open>
  C6: \<^verbatim>\<open>fast_calloc(num, sz)\<close> refuses a product that does not fit 64 bits, with null and no change;
  otherwise it behaves as \<^verbatim>\<open>fast_malloc\<close> of the product, and every byte of a non-null result is zero.
\<close>

theorem calloc_zeroes:
  fixes s :: "'a api_state_scheme"
  assumes "callable rt s g" "num < 2 ^ 64" "sz < 2 ^ 64"
  shows "if num * sz \<ge> 2 ^ 64 then fast_calloc rt t num sz s = Some (0, s)
    else fast_calloc rt t num sz s = None \<and> no_cache rt t s
      \<or> (\<exists>u s' g'. fast_calloc rt t num sz s = Some (u, s') \<and> allocated rt t s g (num * sz) u s' g'
        \<and> (u \<noteq> 0 \<longrightarrow> (\<forall>a \<in> {u..<u + num * sz}. byte_at (mem s') a = 0)))"
  by (rule fast_calloc_cases [OF assms])


theorem calloc_zeroes_witness:
  "\<exists>u s' g'. fast_calloc demo_rt 0 4 10 api_start = Some (u, s') \<and> u \<noteq> 0 \<and> byte_at (mem s') (u + 39) = 0
     \<and> allocated demo_rt 0 api_start ghost_init 40 u s' g' \<and> fast_calloc demo_rt 0 (2 ^ 63) 2 api_start = Some (0, api_start)"
proof -
  obtain u s1 where d: "fast_malloc demo_rt 0 40 api_start = Some (u, s1)" "u \<noteq> 0" by (rule demo_malloc)
  then have "fast_calloc demo_rt 0 4 10 api_start = Some (u, upd_mem (memset u 0 40) s1)"
    by (simp add: fast_calloc_def Let_def SIZE_MAX_def mul64_exact)
  with d(2) calloc_zeroes [OF api_start_callable, of 4 10 0] calloc_zeroes [OF api_start_callable, of "2 ^ 63" 2 0] show ?thesis by auto
qed

lemma pow2_test: "(2::nat) ^ k AND (2 ^ k - 1) = 0"
proof -
  have "(2::nat) ^ k - 1 = mask k" by (simp add: mask_eq_exp_minus_1)
  then have "(2::nat) ^ k AND (2 ^ k - 1) = take_bit k (2 ^ k)" by (simp add: take_bit_eq_mask)
  then show ?thesis by (simp add: take_bit_eq_mod)
qed

lemma over_aligned_size:
  assumes "n < 2 ^ 64" "al \<le> 4096"
  shows "add64 (add64 n al) 32 < n \<longleftrightarrow> 2 ^ 64 \<le> n + al + 32" "n + al + 32 < 2 ^ 64 \<Longrightarrow> add64 (add64 n al) 32 = n + al + 32"
proof -
  have e: "add64 (add64 n al) 32 = (n + (al + 32)) mod 2 ^ 64" by (simp add: add64_def mod_simps add.assoc)
  show "n + al + 32 < 2 ^ 64 \<Longrightarrow> add64 (add64 n al) 32 = n + al + 32" by (simp add: e)
  have "al + 32 < 2 ^ 64" using assms(2) by simp
  from add64_wraps_iff [OF assms(1) this] show "add64 (add64 n al) 32 < n \<longleftrightarrow> 2 ^ 64 \<le> n + al + 32"
    unfolding e by (simp add: add64_def add.assoc)
qed

lemma refused_allocated: "callable rt s g \<Longrightarrow> allocated rt t s g sz 0 s g"
  using callableD(2) by (simp add: allocated_def tls_acc_def)

text \<open>The header the code writes in front of an over-aligned pointer, as one memory function.\<close>

definition align_header :: "addr \<Rightarrow> nat \<Rightarrow> addr \<Rightarrow> nat \<Rightarrow> mem \<Rightarrow> mem" where
  "align_header u al raw n m = m(u - 32 := al, u - 24 := raw, u - 16 := ALIGN_MAGIC, u - 8 := n)"

lemma header_writes:
  "upd_mem (\<lambda>m. m(u - 8 := n)) (upd_mem (\<lambda>m. m(u - 16 := ALIGN_MAGIC)) (upd_mem (\<lambda>m. m(u - 24 := raw)) (upd_mem (\<lambda>m. m(u - 32 := al)) s)))
   = upd_mem (align_header u al raw n) s"
  by (simp add: upd_mem_def align_header_def)

lemma over_aligned:
  fixes s :: "'a api_state_scheme"
  assumes got: "got_user rt t (n + 2 ^ k + 32) s g raw s1 g1" "raw \<noteq> 0" and k: "5 \<le> k" "k \<le> 12" and n: "0 < n"
  defines "u \<equiv> align_up (raw + 32) (2 ^ k)"
  shows "allocated rt t s g n u (upd_mem (align_header u (2 ^ k) raw n) s1) g1" "u mod 2 ^ k = 0"
    "\<exists>x l. x \<in> pieces g1 s1 \<and> aligned_at g1 (align_header u (2 ^ k) raw n (mem s1)) x raw l u n (2 ^ k)"
proof -
  obtain x l where x: "callable rt s1 g1" "tls_acc (rt_os rt) (s, g) {} {x} (s1, g1)" "x \<notin> pieces g s" "x \<in> pieces g1 s1"
    "owns g1 (mem s1) x raw l" "max 1 (n + 2 ^ k + 32) \<le> l" "raw mod 16 = 0" "fast_path_cache s1 t \<noteq> 0" by (rule got_userE [OF got])
  note c1 = callableD [OF x(1)]
  note o = owns_facts [OF c1(1,2) x(4,5)]
  have "(2::nat) ^ k \<le> 2 ^ 12" by (rule power_increasing) (use k in auto)
  then have "raw + 32 + 2 ^ k \<le> 2 ^ 64" using o(6) x(6) by simp
  note b = align_up_bounds [OF this, folded u_def]
  show "u mod 2 ^ k = 0" by (rule b(3))
  have "(16::nat) dvd 2 ^ k" using le_imp_power_dvd [of 4 k 2] k by simp
  then have u16: "u mod 16 = 0" using b(3) by (meson dvd_trans mod_0_imp_dvd mod_eq_0_iff_dvd)
  let ?f = "align_header u (2 ^ k) raw n"
  have w: "?f (mem s1) a = mem s1 a" if "a \<notin> {raw..<raw + l}" for a
  proof -
    have "a \<noteq> u - 32" "a \<noteq> u - 24" "a \<noteq> u - 16" "a \<noteq> u - 8" using that b(1,2) x(6) by auto
    then show ?thesis by (simp add: align_header_def)
  qed
  note wn = write_new [where f = ?f, OF c1(1) x(2,3,5) w]
  have "u - 32 \<noteq> u - 24" "u - 32 \<noteq> u - 16" "u - 32 \<noteq> u - 8" "u - 24 \<noteq> u - 16" "u - 24 \<noteq> u - 8" "u - 16 \<noteq> u - 8" using b(1) by linarith+
  then have "?f (mem s1) (u - 32) = 2 ^ k" "?f (mem s1) (u - 24) = raw" "?f (mem s1) (u - 16) = ALIGN_MAGIC" "?f (mem s1) (u - 8) = n"
    by (simp_all add: align_header_def)
  moreover have "owns g1 (?f (mem s1)) x raw l" by (rule wn(2) [unfolded mem_upd_mem])
  ultimately have al: "aligned_at g1 (?f (mem s1)) x raw l u n (2 ^ k)"
    unfolding aligned_at_def using b(1,2) x(6) n u16 k by (simp del: owns.simps)
  then show "\<exists>x l. x \<in> pieces g1 s1 \<and> aligned_at g1 (?f (mem s1)) x raw l u n (2 ^ k)" using x(4) by blast
  have c: "callable rt (upd_mem ?f s1) g1" by (rule callable_op [OF x(1) write_user(1) [where f = ?f, OF c1(1,2) x(4,5) w]])
  have "user_ptr g1 (mem (upd_mem ?f s1)) x u n" unfolding user_ptr_def mem_upd_mem using al by blast
  from allocatedI [OF c wn(1) x(3) this] show "allocated rt t s g n u (upd_mem ?f s1) g1" using n x(8) by simp
qed


lemma fast_aligned_alloc_got:
  fixes s :: "'a api_state_scheme"
  assumes c: "callable rt s g" and sz: "sz < 2 ^ 64" and k: "k \<le> 12"
  obtains "fast_aligned_alloc rt t (2 ^ k) sz s = None" "no_cache rt t s"
  | u s' g' where "fast_aligned_alloc rt t (2 ^ k) sz s = Some (u, s')" "allocated rt t s g sz u s' g'" "u mod 2 ^ k = 0"
proof -
  let ?n = "if sz = 0 then 1 else sz"
  have n: "0 < ?n" "?n < 2 ^ 64" using sz by simp_all
  have al: "allocated rt t s g ?n u s' g' \<longleftrightarrow> allocated rt t s g sz u s' g'" for u s' g'
  proof -
    have m: "max 1 ?n = max 1 sz" by simp
    show ?thesis unfolding allocated_def m ..
  qed
  have le: "(2::nat) ^ k \<le> 4096" using power_increasing [of k 12 "2 :: nat"] k by simp
  show thesis
  proof (cases "k \<le> 4")
    case True
    have "(2::nat) ^ k \<le> 16" using power_increasing [of k 4 "2 :: nat"] True by simp
    then have run: "fast_aligned_alloc rt t (2 ^ k) sz s = fast_malloc rt t ?n s"
      unfolding fast_aligned_alloc_def Let_def pow2_test by (simp add: ALIGNMENT_def)
    have d: "u mod 2 ^ k = 0" if "u mod 16 = 0" for u :: nat
      using dvd_trans [of "2 ^ k" 16 u] le_imp_power_dvd [of k 4 "2 :: nat"] True that by (simp add: mod_eq_0_iff_dvd)
    show thesis
    proof (cases rule: fast_malloc_got [OF c n(2), of t, case_names none some])
      case none
      then show thesis using that(1) unfolding run by simp
    next
      case (some u s' g')
      have "u mod 16 = 0" by (rule got_user_aligned [OF some(2)])
      then show thesis using that(2) [of u s' g'] some(1) got_allocated [OF some(2)] d unfolding run al by simp
    qed
  next
    case False
    then have k5: "5 \<le> k" by simp
    have gt: "16 < (2::nat) ^ k" using power_strict_increasing [of 4 k "2 :: nat"] False by simp
    show thesis
    proof (cases "2 ^ 64 \<le> ?n + 2 ^ k + 32")
      case True
      then have "fast_aligned_alloc rt t (2 ^ k) sz s = Some (0, s)"
        using over_aligned_size(1) [OF n(2) le] gt le unfolding fast_aligned_alloc_def Let_def pow2_test by (simp add: ALIGNMENT_def)
      then show thesis by (rule that(2) [OF _ refused_allocated [OF c]]) simp
    next
      case fits: False
      then have fits': "?n + 2 ^ k + 32 < 2 ^ 64" by simp
      have run: "fast_aligned_alloc rt t (2 ^ k) sz s = do { (raw, s) \<leftarrow> fast_malloc rt t (?n + 2 ^ k + 32) s;
          if raw = 0 then Some (0, s) else Some (align_up (raw + 32) (2 ^ k), upd_mem (align_header (align_up (raw + 32) (2 ^ k)) (2 ^ k) raw ?n) s) }"
        using over_aligned_size [OF n(2) le] fits fits' gt le
        unfolding fast_aligned_alloc_def Let_def pow2_test header_writes by (simp add: ALIGNMENT_def)
      show thesis
      proof (cases rule: fast_malloc_got [OF c fits', of t, case_names none some])
        case none
        then show thesis using that(1) unfolding run by simp
      next
        case (some raw s1 g1)
        show thesis
        proof (cases "raw = 0")
          case True
          then show thesis using that(2) [of 0 s1 g1] some unfolding run by (simp add: got_user_def allocated_def)
        next
          case False
          note o = over_aligned [OF some(2) False k5 k n(1)]
          show thesis using that(2) [OF _ o(1) [unfolded al] o(2)] some(1) False unfolding run by simp
        qed
      qed
    qed
  qed
qed

lemma and_pred_pow2:
  assumes "0 < n" "n AND (n - 1) = (0 :: nat)"
  shows "\<exists>k. n = 2 ^ k"
proof -
  obtain k where k: "2 ^ k \<le> n" "n < 2 ^ (k + 1)" using ex_power_ivl1 [of 2 n] assms(1) by auto
  have "n = 2 ^ k"
  proof (rule ccontr)
    assume "n \<noteq> 2 ^ k"
    then have "2 ^ k \<le> n - 1" "n - 1 < 2 ^ (k + 1)" using k by auto
    then have "(n - 1) div 2 ^ k = 1" "n div 2 ^ k = 1" using k by (simp_all add: div_nat_eqI)
    then have "bit (n - 1) k" "bit n k" by (simp_all add: bit_iff_odd)
    then have "bit (n AND (n - 1)) k" by (simp only: bit_and_iff)
    then show False using assms(2) by simp
  qed
  then show ?thesis by blast
qed

text \<open>
  C7: \<^verbatim>\<open>fast_aligned_alloc(2^k, sz)\<close> for every alignment up to a page behaves as \<^verbatim>\<open>fast_malloc\<close> and its
  result is a multiple of the alignment. Every other alignment, one that is no power of two (zero
  included) or is above 4096, is refused with null and nothing changes. The bytes of a result lie
  inside one new piece, behind the header from which \<^verbatim>\<open>fast_free\<close> finds it.
\<close>

theorem aligned_alloc_result:
  fixes s :: "'a api_state_scheme"
  assumes "callable rt s g" "sz < 2 ^ 64"
  shows "(k \<le> 12 \<longrightarrow> fast_aligned_alloc rt t (2 ^ k) sz s = None \<and> no_cache rt t s
      \<or> (\<exists>u s' g'. fast_aligned_alloc rt t (2 ^ k) sz s = Some (u, s') \<and> allocated rt t s g sz u s' g' \<and> u mod 2 ^ k = 0))
    \<and> ((\<nexists>i. al = 2 ^ i) \<or> 4096 < al \<longrightarrow> fast_aligned_alloc rt t al sz s = Some (0, s))"
proof (intro conjI impI)
  show "fast_aligned_alloc rt t (2 ^ k) sz s = None \<and> no_cache rt t s
      \<or> (\<exists>u s' g'. fast_aligned_alloc rt t (2 ^ k) sz s = Some (u, s') \<and> allocated rt t s g sz u s' g' \<and> u mod 2 ^ k = 0)" if "k \<le> 12"
    by (rule fast_aligned_alloc_got [OF assms that, of t]) auto
  assume "(\<nexists>i. al = 2 ^ i) \<or> 4096 < al"
  then consider "al = 0" | "al AND (al - 1) \<noteq> 0" | "4096 < al" using and_pred_pow2 [of al] by (cases "al = 0") auto
  then show "fast_aligned_alloc rt t al sz s = Some (0, s)"
    by cases (auto simp: fast_aligned_alloc_def Let_def ALIGNMENT_def)
qed

theorem aligned_alloc_result_witness:
  "\<exists>u s' g'. fast_aligned_alloc demo_rt 0 64 40 api_start = Some (u, s') \<and> u mod 64 = 0 \<and> allocated demo_rt 0 api_start ghost_init 40 u s' g'
     \<and> fast_aligned_alloc demo_rt 0 24 40 api_start = Some (0, api_start)"
proof -
  have "\<nexists>i. (24::nat) = 2 ^ i"
  proof
    assume "\<exists>i. (24::nat) = 2 ^ i"
    then obtain i where i: "(24::nat) = 2 ^ i" by blast
    have "(2::nat) ^ i \<le> 2 ^ 4" if "i \<le> 4" using that by (intro power_increasing) auto
    moreover have "(2::nat) ^ 5 \<le> 2 ^ i" if "\<not> i \<le> 4" using that by (intro power_increasing) auto
    ultimately show False using i by (cases "i \<le> 4") auto
  qed
  then show ?thesis using aligned_alloc_result [OF api_start_callable, of 40 6 0 24] api_start_cached [of 0] by auto
qed

section \<open>Deallocation\<close>

text \<open>
  C4: \<^verbatim>\<open>fast_free\<close> of a pointer that \<^verbatim>\<open>fast_malloc\<close>, \<^verbatim>\<open>fast_calloc\<close> or \<^verbatim>\<open>fast_aligned_alloc\<close> gave takes exactly that
  allocation from the user, in whatever thread it runs and whatever the user wrote into it: the
  allocator stays valid and every other allocation keeps its contents. The memory is not lost but
  filed, as the states before and after show, in the cache \<open>k\<close> the thread has or gets
  (\<open>piece_filed\<close>): a small block becomes the head of the bin of its class, or leaves it with the half
  that spills into the global heap when the bin is full; a large span becomes the head of the bin of
  its size class, its size in the header and the bin's count raised, or, when that bin is full, the
  head of its bin of the page cache, or the subject of a \<^verbatim>\<open>madvise\<close> or \<^verbatim>\<open>munmap\<close> over the whole span.
  The call fails to return only when the thread has no cache and none can be made. Null and pointers
  that cannot come from the heap are ignored.
\<close>

theorem free_result:
  fixes s :: "'a api_state_scheme"
  assumes "callable rt s g" "x \<in> pieces g s" "user_ptr g (mem s) x u n"
  shows "(fast_free rt t u s = None \<and> no_cache rt t s
      \<or> (\<exists>s' g' k s1 g1. fast_free rt t u s = Some s' \<and> callable rt s' g' \<and> tls_acc (rt_os rt) (s, g) {x} {} (s', g')
          \<and> GetFast rt t s = Some (k, s1) \<and> tls_acc (rt_os rt) (s, g) {} {} (s1, g1) \<and> k \<in> gK g1
          \<and> piece_filed (rt_os rt) k x s1 g1 s' g'))
    \<and> fast_free rt t 0 s = Some s \<and> (\<not> IsPlausibleHeapPtr v \<longrightarrow> fast_free rt t v s = Some s)"
proof (intro conjI impI)
  show "fast_free rt t u s = None \<and> no_cache rt t s
      \<or> (\<exists>s' g' k s1 g1. fast_free rt t u s = Some s' \<and> callable rt s' g' \<and> tls_acc (rt_os rt) (s, g) {x} {} (s', g')
          \<and> GetFast rt t s = Some (k, s1) \<and> tls_acc (rt_os rt) (s, g) {} {} (s1, g1) \<and> k \<in> gK g1
          \<and> piece_filed (rt_os rt) k x s1 g1 s' g')"
  proof (rule fast_free_user [OF assms, of t])
    fix s' g' assume "fast_free rt t u s = Some s'" "given_back rt t s g x s' g'"
    then show ?thesis unfolding given_back_def by blast
  qed blast
qed (subst fast_free.simps, simp)+

theorem free_result_witness:
  "\<exists>u s1 s2 g2. fast_malloc demo_rt 0 40 api_start = Some (u, s1) \<and> fast_free demo_rt 0 u s1 = Some s2 \<and> callable demo_rt s2 g2 \<and> pieces g2 s2 = {}
     \<and> (\<exists>k g1 x. GetFast demo_rt 0 s1 = Some (k, s1) \<and> piece_filed demo_os k x s1 g1 s2 g2) \<and> fast_free demo_rt 0 24 s1 = Some s1"
proof -
  obtain u s1 g1 x n where d: "fast_malloc demo_rt 0 40 api_start = Some (u, s1)" "callable demo_rt s1 g1" "x \<in> pieces g1 s1"
    "user_ptr g1 (mem s1) x u n" "pieces g1 s1 = {x}" "\<not> no_cache demo_rt 0 s1" "fast_path_cache s1 0 \<noteq> 0" by (rule demo_owned)
  have "\<not> IsPlausibleHeapPtr 24" by (simp add: IsPlausibleHeapPtr_iff)
  with free_result [OF d(2-4), of 0 24] d(6)
  obtain s2 g2 k s3 g3 where f: "fast_free demo_rt 0 u s1 = Some s2" "callable demo_rt s2 g2" "tls_acc demo_os (s1, g1) {x} {} (s2, g2)"
    "fast_free demo_rt 0 24 s1 = Some s1" "GetFast demo_rt 0 s1 = Some (k, s3)" "piece_filed demo_os k x s3 g3 s2 g2" by auto
  have "s3 = s1" using f(5) d(7) by (simp add: GetFast_def)
  moreover have "pieces g2 s2 = {}" using d(5) tls_accD(3) [OF f(3)] by simp
  ultimately show ?thesis using d(1) f by blast
qed

section \<open>Sized deallocation\<close>

lemma free_sized_run:
  fixes s :: "'a api_state_scheme"
  assumes "callable rt s g" "x \<in> pieces g s" "user_ptr g (mem s) x u n"
  shows "fast_free_sized rt t u sz s = fast_free rt t u s"
proof -
  note cd = callableD [OF assms(1)]
  note u = user_ptr_facts [OF cd(1,2) assms(2,3)]
  let ?b = "u - 16"
  show ?thesis
  proof (cases "sz \<le> MaxSmallRequest \<and> fb_slab (mem s) ?b \<noteq> 0 \<and> fb_slab (mem s) ?b \<noteq> ALIGN_MAGIC \<and> fb_class_index (mem s) ?b = RequestToClass sz")
    case False
    then show ?thesis using u(3,5) by (auto simp: fast_free_sized_def Let_def USER_OFFSET_def)
  next
    case True
    have o: "owns g (mem s) x u n" using True assms(3) by (auto simp: user_ptr_def aligned_at_def cells)
    then obtain b where b: "x = Block b" "u = b + 16" using True by (cases x) (auto simp: large_header_def)
    note h = block_header [OF cd(1,2), of b]
    have cls: "fb_class_index (mem s1) b = RequestToClass sz" if "GetFast rt t s = Some (k, s1)" for k s1
      using assms(1)
    proof (cases rule: get_cache [where t = t, case_names none some])
      case (some k' s' g')
      then have m: "moves (s, g) {} {} (s', g')" by (simp add: got_cache_def tls_acc_def)
      then show ?thesis using kept_class [OF cd(2) _ m, of b] assms(2) b True some(1) that by simp
    qed (use that in simp)
    show ?thesis
    proof (cases "GetFast rt t s")
      case None
      then show ?thesis using True u(3,5) h assms(2) b
        by (subst fast_free.simps) (auto simp: fast_free_sized_def Let_def USER_OFFSET_def)
    next
      case (Some r)
      then obtain k s1 where r: "GetFast rt t s = Some (k, s1)" by (cases r) simp
      show ?thesis using True u(3,5) h assms(2) b cls [OF r] r
        by (subst fast_free.simps) (auto simp: fast_free_sized_def Let_def USER_OFFSET_def)
    qed
  qed
qed

text \<open>
  C8: \<^verbatim>\<open>fast_free_sized\<close> does what \<^verbatim>\<open>fast_free\<close> does, for every pointer the user owns and every size it
  passes, the right one or not: the fast path is taken only when the size leads to the class recorded
  in the block.
\<close>

theorem free_sized_same:
  fixes s :: "'a api_state_scheme"
  assumes "callable rt s g" "x \<in> pieces g s" "user_ptr g (mem s) x u n"
  shows "fast_free_sized rt t u sz s = fast_free rt t u s"
  by (rule free_sized_run [OF assms])

theorem free_sized_same_witness:
  "\<exists>u s1. fast_malloc demo_rt 0 40 api_start = Some (u, s1) \<and> u \<noteq> 0 \<and> fast_free_sized demo_rt 0 u 40 s1 = fast_free demo_rt 0 u s1
     \<and> fast_free_sized demo_rt 0 u 7000 s1 = fast_free demo_rt 0 u s1"
proof -
  obtain u s1 g1 x n where d: "fast_malloc demo_rt 0 40 api_start = Some (u, s1)" "callable demo_rt s1 g1" "x \<in> pieces g1 s1"
    "user_ptr g1 (mem s1) x u n" by (rule demo_owned)
  have "u \<noteq> 0" by (rule user_ptr_facts(5) [OF callableD(1,2) [OF d(2)] d(3,4)])
  with d(1) free_sized_same [OF d(2-4), of 0 40] free_sized_same [OF d(2-4), of 0 7000] show ?thesis by blast
qed

end
