(* ===== verification/FA_Remap.thy ===== *)
theory FA_Remap
  imports FA_ApiProps
begin

text \<open>
  A successful \<^verbatim>\<open>mremap\<close> of a span the user holds, as \<^verbatim>\<open>fast_realloc\<close> uses it on large spans outside the
  pool: seen from the kernel, from the page heap, and from the user, who holds the resized span in place
  of the old one.
\<close>

section \<open>The kernel and the page heap\<close>

lemma Mremap_state:
  fixes s :: "'a os_state_scheme" and k :: nat
  assumes spec: "os_spec api" and ok: "pool_ok api s" and own: "span_owned api s p n" and np: "\<not> IsPoolBacked p s"
    and q: "os_mremap api (os_log s) p n k mv = q" "q \<noteq> 0" "0 < k" "k mod GetPageSize api = 0"
  defines "s' \<equiv> syscall api (Mremap p n q k) s"
  shows "pool_ok api s'" "in_use s' = in_use s - {p..<p + n} \<union> {q..<q + k}" "span_owned api s' q k" "span_ok api q k"
    "\<And>a. a \<in> in_use s - {p..<p + n} \<Longrightarrow> mem s' a = mem s a" "{q..<q + k} \<inter> (in_use s - {p..<p + n}) = {}"
    "\<And>x j. span_owned api s x j \<Longrightarrow> {x..<x + j} \<inter> {p..<p + n} = {} \<Longrightarrow> span_owned api s' x j"
    "\<And>i. i < n \<Longrightarrow> i < k \<Longrightarrow> mem s' (q + i) = mem s (p + i)" "mv \<or> q = p"
proof -
  have p: "p \<noteq> 0" "0 < n" "{p..<p + n} \<subseteq> in_use s" using own by (auto simp: span_owned_def)
  have use: "in_use s \<subseteq> mapped (os_log s)" by (rule pool_ok_in_use [OF ok])
  then have m: "{p..<p + n} \<subseteq> mapped (os_log s)" using p(3) by blast
  note r = os_spec_mremap [OF spec q(1-3) m]
  have pin: "p \<in> {p..<p + n}" using p(2) by simp
  have out: "{p..<p + n} \<inter> chunks_range (pool_chunks s) = {}"
    using own np pin p(1) unfolding span_owned_def IsPoolBacked_def Pool_Contains_iff chunks_range_def by blast
  have l: "mapped (os_log s') = mapped (os_log s) - {p..<p + n} \<union> {q..<q + k}" "pool_chunks s' = pool_chunks s" using q(2) by (simp_all add: s'_def)
  have cr: "chunks_range (pool_chunks s) \<subseteq> mapped (os_log s)" by (rule pool_ok_mapped [OF ok])
  have qo: "{q..<q + k} \<inter> chunks_range (pool_chunks s) = {}" using r(1) cr out by blast
  have cc: "chunks_carved (pool_chunks s) \<subseteq> chunks_range (pool_chunks s)"
    using ok chunk_ok_carved unfolding pool_ok_def chunks_carved_def chunks_range_def by blast
  have "chunk_range c \<subseteq> mapped (os_log s')" if "c \<in> set (pool_chunks s)" for c
  proof -
    have "chunk_range c \<subseteq> chunks_range (pool_chunks s)" using that by (auto simp: chunks_range_def)
    then show ?thesis using cr out unfolding l(1) by blast
  qed
  then have "chunk_ok api (os_log s') c" if "c \<in> set (pool_chunks s)" for c
    using that ok chunk_ok_remap [of api "os_log s" c "os_log s'"] by (simp add: pool_ok_def)
  then show "pool_ok api s'" using ok by (simp add: pool_ok_def l(2))
  show u: "in_use s' = in_use s - {p..<p + n} \<union> {q..<q + k}" unfolding in_use_def l using out qo cc by blast
  show "{q..<q + k} \<inter> (in_use s - {p..<p + n}) = {}" using r(1) use by blast
  show "mem s' a = mem s a" if "a \<in> in_use s - {p..<p + n}" for a
    unfolding s'_def by (rule syscall_frame [OF spec]) (use that r(1) use in auto)
  show "span_owned api s' q k" using q(2-4) u qo by (simp add: span_owned_def l(2))
  show "span_ok api q k" using r(2-4) by (simp add: span_ok_def)
  show "span_owned api s' x j" if "span_owned api s x j" "{x..<x + j} \<inter> {p..<p + n} = {}" for x j
  proof -
    have "{x..<x + j} \<subseteq> in_use s'" using that u unfolding span_owned_def by blast
    then show ?thesis using that(1) by (simp add: span_owned_def l(2))
  qed
  show "mem s' (q + i) = mem s (p + i)" if "i < n" "i < k" for i using r(6) [OF that] by (simp add: s'_def syscall_def)
  show "mv \<or> q = p" by (rule r(5))
qed

lemma Mremap_accounts:
  fixes s :: "'a gh_state_scheme" and k :: nat
  assumes spec: "os_spec api" and ok: "gh_ok api {} s V" and e: "ext api s V p n" and np: "\<not> IsPoolBacked p s"
    and q: "os_mremap api (os_log s) p n k mv = q" "q \<noteq> 0" "0 < k" "k mod GetPageSize api = 0"
  defines "s' \<equiv> syscall api (Mremap p n q k) s"
  shows "accounts_but {p..<p + n} api s V {} {} s' V" "ext api s' V q k"
    "\<And>x j. ext api s V x j \<Longrightarrow> {x..<x + j} \<inter> {p..<p + n} = {} \<Longrightarrow> {x..<x + j} \<inter> {q..<q + k} = {}"
proof -
  have x: "span_owned api s p n" "{p..<p + n} \<inter> cached_cells api (vL V) = {}"
    and sl: "\<And>z. z \<in> slabs V \<Longrightarrow> slab_range (mem s) z \<inter> {p..<p + n} = {}" using e by (auto simp: ext_def)
  have ph: "ph_ok api s (vL V)" "ph_core api s (vL V)" "pool_ok api s" using gh_okD(1) [OF ok] by (simp_all add: ph_ok_def ph_core_def)
  have st: "pool_ok api s'" "in_use s' = in_use s - {p..<p + n} \<union> {q..<q + k}" "span_owned api s' q k" "span_ok api q k"
    "\<And>a. a \<in> in_use s - {p..<p + n} \<Longrightarrow> mem s' a = mem s a" "{q..<q + k} \<inter> (in_use s - {p..<p + n}) = {}"
    "\<And>x j. span_owned api s x j \<Longrightarrow> {x..<x + j} \<inter> {p..<p + n} = {} \<Longrightarrow> span_owned api s' x j"
    unfolding s'_def by (rule Mremap_state [OF spec ph(3) x(1) np q]; assumption)+
  have fr: "os_frame s s'" unfolding s'_def os_frame_def syscall_def by (cases s) auto
  have bin: "{y..<y + b * GetPageSize api} \<subseteq> in_use s - {p..<p + n}" "y \<in> in_use s - {p..<p + n}" "span_owned api s y (b * GetPageSize api)" if "y \<in> set (vL V b)" for b y
  proof -
    show o: "span_owned api s y (b * GetPageSize api)" by (rule ph_core_span(2) [OF ph(2) that])
    have "{y..<y + b * GetPageSize api} \<subseteq> cached_cells api (vL V)" using that by (auto simp: cached_cells_def filed_def bin_range_def)
    then show i: "{y..<y + b * GetPageSize api} \<subseteq> in_use s - {p..<p + n}" using o x(2) unfolding span_owned_def by blast
    have "0 < b * GetPageSize api" using o unfolding span_owned_def by blast
    then show "y \<in> in_use s - {p..<p + n}" using subsetD [OF i, of y] by simp
  qed
  have cin: "cached_cells api (vL V) \<subseteq> in_use s - {p..<p + n}" using bin(1) by (auto simp: cached_cells_def filed_def bin_range_def)
  have core: "ph_core api s' (vL V)"
    by (rule ph_core_below [OF ph(2) fr st(1)]) (use bin st(5,7) in blast)+
  then have ok': "ph_ok api s' (vL V)" using ph(1) os_frame_ph(3) [OF fr] by (simp add: ph_ok_def)
  have sr: "slab_range (mem s) z \<subseteq> in_use s - {p..<p + n}" "slab_range (mem s) z \<inter> cached_cells api (vL V) = {}"
    "span_owned api s' z (slab_memory_size (mem s) z)" if "z \<in> slabs V" for z
  proof -
    note g = gh_good [OF ok that]
    show "slab_range (mem s) z \<subseteq> in_use s - {p..<p + n}" using slab_in_ph_used [OF g] sl [OF that] by (auto simp: ph_used_def)
    show "slab_range (mem s) z \<inter> cached_cells api (vL V) = {}" using g by (simp add: slab_good_def)
    have "span_owned api s z (slab_memory_size (mem s) z)" using g by (simp add: slab_good_def)
    then show "span_owned api s' z (slab_memory_size (mem s) z)" by (rule st(7)) (use sl [OF that] in \<open>simp add: slab_range_def\<close>)
  qed
  have m: "mem s' a = mem s a" if "z \<in> slabs V" "a \<in> slab_range (mem s) z" for z a by (rule st(5)) (use sr(1) [OF that(1)] that(2) in blast)
  have V: "V\<lparr>vL := vL V\<rparr> = V" by simp
  have hb: "gh_ok api {} s' V" "client V (mem s') = client V (mem s)" "kept (client V (mem s)) (mem s) (mem s')"
    "\<And>z. z \<in> slabs V \<Longrightarrow> same_header (mem s) (mem s') z"
    using heap_below [OF ok gh_frame_os [OF fr] ok' _ sr(3) sr(2), unfolded V] m by blast+
  have rng: "slab_range (mem s') z = slab_range (mem s) z" if "z \<in> slabs V" for z by (rule same_headerD(7) [OF hb(4) [OF that]])
  show "ext api s' V q k"
    using st(3,4,6) cin sr(1) rng unfolding ext_def by blast
  have "spared api {p..<p + n} s V s' V"
    by (rule spared_below [where L' = "vL V"]) (use st(2,5,7) rng in \<open>auto simp: ph_used_def\<close>)
  then show "accounts_but {p..<p + n} api s V {} {} s' V"
    using hb(1-3) gh_frame_fields(4) [OF gh_frame_os [OF fr]] by (simp add: accounts_def)
  show "\<And>x j. ext api s V x j \<Longrightarrow> {x..<x + j} \<inter> {p..<p + n} = {} \<Longrightarrow> {x..<x + j} \<inter> {q..<q + k} = {}"
    using st(6) unfolding ext_def span_owned_def by blast
qed


section \<open>The user's span\<close>

lemma remap_span:
  fixes s :: "'a tls_state_scheme" and k :: nat
  assumes spec: "os_spec api" and ok: "tls_ok api s g" and p: "Span p \<in> pieces g s" "gX g p = Some n" and np: "\<not> IsPoolBacked p s"
    and q: "os_mremap api (os_log s) p n k mv = q" "q \<noteq> 0" "0 < k" "k mod GetPageSize api = 0"
  defines "s' \<equiv> syscall api (Mremap p n q k) s" and "g' \<equiv> g\<lparr>gX := (gX g)(p := None, q \<mapsto> k)\<rparr>"
  shows "tls_op api s g {Span p} {Span q} s' g'" "gX g' q = Some k" "q = p \<or> Span q \<notin> pieces g s"
    "\<And>i. i < n \<Longrightarrow> i < k \<Longrightarrow> mem s' (q + i) = mem s (p + i)" "mv \<or> q = p"
proof -
  let ?g = "g\<lparr>gX := (gX g)(p := None)\<rparr>"
  note o = tls_openD [OF ok] and d = drop_span [OF ok p(1)]
  have e: "ext api s (gV g) p n" by (rule spans_okD(1) [OF o(2) p(2)])
  have a: "accounts_but {p..<p + n} api s (gV ?g) {} {} s' (gV g)" "ext api s' (gV g) q k"
    "\<And>x j. ext api s (gV g) x j \<Longrightarrow> {x..<x + j} \<inter> {p..<p + n} = {} \<Longrightarrow> {x..<x + j} \<inter> {q..<q + k} = {}"
    using Mremap_accounts [OF spec o(1) e np q] unfolding s'_def by auto
  have R: "{x..<x + j} \<inter> {p..<p + n} = {}" if "gX ?g x = Some j" for x j
    using that p(2) spans_okD(2) [OF o(2)] by (cases "x = p") auto
  have R': "{x..<x + j} \<inter> {q..<q + k} = {}" if "gX ?g x = Some j" for x j
    by (rule a(3) [OF _ R [OF that]]) (use that spans_okD(1) [OF o(2), of x j] in \<open>auto split: if_splits\<close>)
  have v: "?g\<lparr>gV := gV g\<rparr> = ?g" by (cases g) simp
  note h = heap_open(1) [OF spec d(1) a(1) Int_empty_left R, unfolded v]
    and m = heap_moves [OF spec d(1) a(1) Int_empty_left Int_empty_left R, unfolded v image_empty]
  have nq: "q \<notin> dom (gX ?g)"
  proof
    assume "q \<in> dom (gX ?g)"
    then obtain j where j: "gX ?g q = Some j" by blast
    then have "gX g q = Some j" by (auto split: if_splits)
    then have "0 < j" by (rule ext_facts(8) [OF spec spans_okD(1) [OF o(2)]])
    then show False using R' [OF j] q(3) by (auto simp: disjoint_iff)
  qed
  have i: "ext api s' (gV ?g) q k" using a(2) by simp
  have g: "?g\<lparr>gX := (gX ?g)(q \<mapsto> k)\<rparr> = g'" by (simp add: g'_def)
  note b = add_span [OF h nq i R', unfolded g]
  have mv: "moves (s, g) {Span p} {Span q} (s', g')"
    by (rule moves_comp [OF moves_after [OF d(2) m] b(2)]) auto
  have ev: "hub s' = hub s" "caches s' = caches s" by (simp_all add: s'_def syscall_def hub_def)
  show "tls_op api s g {Span p} {Span q} s' g'"
    by (rule tls_opI [OF b(1) mv ev(1)]) (simp_all add: g'_def ev(2))
  show "gX g' q = Some k" by (simp add: g'_def)
  show "q = p \<or> Span q \<notin> pieces g s" using nq by (auto simp: piece_span)
  have "pool_ok api s" "span_owned api s p n" using gh_okD(1) [OF o(1)] e by (simp_all add: ph_ok_def ph_core_def ext_def)
  note st = Mremap_state [OF spec this np q]
  show "\<And>i. i < n \<Longrightarrow> i < k \<Longrightarrow> mem s' (q + i) = mem s (p + i)" "mv \<or> q = p" using st(8,9) by (auto simp: s'_def)
qed

text \<open>A refused \<^verbatim>\<open>mremap\<close> is recorded and changes nothing else.\<close>

lemma refused_state:
  assumes "os_spec api"
  shows "mem (syscall api (Mremap p n 0 k) s) = mem s" "in_use (syscall api (Mremap p n 0 k) s) = in_use s"
    "pool_ok api (syscall api (Mremap p n 0 k) s) = pool_ok api s" "span_owned api (syscall api (Mremap p n 0 k) s) q j = span_owned api s q j"
proof -
  have "os_effect api (Mremap p n 0 k) m a = m a" for m a using assms by (simp add: os_spec_def)
  then show "mem (syscall api (Mremap p n 0 k) s) = mem s" by (auto simp: syscall_def)
  show "in_use (syscall api (Mremap p n 0 k) s) = in_use s" "pool_ok api (syscall api (Mremap p n 0 k) s) = pool_ok api s"
    by (simp_all add: syscall_def in_use_def pool_ok_def chunk_ok_def)
  then show "span_owned api (syscall api (Mremap p n 0 k) s) q j = span_owned api s q j" by (simp add: span_owned_def syscall_def)
qed

lemma refused_op:
  fixes s :: "'a tls_state_scheme" and p n k :: nat
  assumes spec: "os_spec api" and ok: "tls_ok api s g"
  defines "s' \<equiv> syscall api (Mremap p n 0 k) s"
  shows "tls_op api s g {} {} s' g" "mem s' = mem s"
proof -
  note r = refused_state [OF spec, of p n k s]
  have m: "mem s' = mem s" "pool_ok api s' = pool_ok api s" "\<And>q j. span_owned api s' q j = span_owned api s q j" unfolding s'_def by (rule r)+
  have f: "hub s' = hub s" "caches s' = caches s" "page_bins s' = page_bins s" "page_nonempty s' = page_nonempty s" "cache_pool s' = cache_pool s"
    "page_cache_total_bytes s' = page_cache_total_bytes s" "partial_slabs s' = partial_slabs s" "full_slabs s' = full_slabs s" "pending_returns s' = pending_returns s"
    "lock_busy s' = lock_busy s" "pool_lock_busy s' = pool_lock_busy s" "fast_path_cache s' = fast_path_cache s" "tls_specific s' = tls_specific s"
    by (simp_all add: s'_def syscall_def hub_def)
  have "gh_ok api {} s' (gV g) = gh_ok api {} s (gV g)"
    by (simp add: gh_ok_def ph_ok_def ph_core_def slabs_ok_def slab_good_def lists_ok_def queues_ok_def m f)
  moreover have "spans_ok api s' g = spans_ok api s g" by (simp add: spans_ok_def ext_def m)
  moreover have "bins_ok {} s' g = bins_ok {} s g" "lbins_ok {} s' g = lbins_ok {} s g" "hub_ok api s' g = hub_ok api s g"
    by (simp_all add: bins_ok_def bin_ok_def held_list_def lbins_ok_def lbin_ok_def hub_ok_def thread_cache_def get_bin_def m f)
  ultimately have "tls_ok api s' g" using ok by (simp add: tls_open_def)
  moreover have "moves (s, g) {} {} (s', g)" by (simp add: moves_def pieces_def user_blocks_def user_spans_def m f)
  ultimately show "tls_op api s g {} {} s' g" using f by (intro tls_opI) simp_all
  show "mem s' = mem s" by (rule m)
qed

end
