(* ===== verification/FA_Realloc.thy ===== *)
theory FA_Realloc
  imports FA_Remap
begin

text \<open>
  Reallocation (\<^verbatim>\<open>fast_realloc\<close> in \<^verbatim>\<open>src/fast_alloc.cpp\<close>): in place, by copy, by \<^verbatim>\<open>mremap\<close>, and for over-aligned pointers.
\<close>

section \<open>Reallocation\<close>

text \<open>Writing inside an allocation, and steps that leave it alone, keep the user's pointer.\<close>

lemma write_user_ptr:
  fixes s :: "'a tls_state_scheme"
  assumes spec: "os_spec api" and ok: "tls_ok api s g" and x: "x \<in> pieces g s" "user_ptr g (mem s) x u n"
    and w: "\<And>a. a \<notin> {u..<u + n} \<Longrightarrow> f (mem s) a = mem s a"
  shows "tls_op api s g {x} {x} (upd_mem f s) g" "user_ptr g (mem (upd_mem f s)) x u n"
proof -
  have "tls_op api s g {x} {x} (upd_mem f s) g \<and> user_ptr g (mem (upd_mem f s)) x u n"
  proof (cases "owns g (mem s) x u n")
    case True
    note o = write_user [where f = f, OF spec ok x(1) True w]
    show ?thesis using o(1) owns_user [OF o(2)] by blast
  next
    case False
    then obtain raw k al where a: "aligned_at g (mem s) x raw k u n al" using x(2) by (auto simp: user_ptr_def)
    then have r: "owns g (mem s) x raw k" "raw + 32 \<le> u" "u + n \<le> raw + k" by (simp_all add: aligned_at_def)
    have w': "f (mem s) c = mem s c" if "c \<notin> {raw..<raw + k}" for c by (rule w) (use that r(2,3) in auto)
    note o = write_user [where f = f, OF spec ok x(1) r(1) w']
    have h: "f (mem s) (u - i) = mem s (u - i)" if "0 < i" "i \<le> 32" for i by (rule w) (use that r(2) in auto)
    have ow: "owns g (f (mem s)) x raw k" using o(2) by simp
    have "aligned_at g (f (mem s)) x raw k u n al" using a ow h [of 32] h [of 24] h [of 16] h [of 8] unfolding aligned_at_def by simp
    then show ?thesis using o(1) unfolding user_ptr_def mem_upd_mem by blast
  qed
  then show "tls_op api s g {x} {x} (upd_mem f s) g" "user_ptr g (mem (upd_mem f s)) x u n" by blast+
qed

lemma user_ptr_kept:
  assumes spec: "os_spec api" and ok: "tls_open api E F s g" and x: "x \<in> pieces g s - A" "user_ptr g (mem s) x u n" and m: "moves (s, g) A B (s', g')"
  shows "user_ptr g' (mem s') x u n" "x \<in> pieces g' s'"
proof -
  show "x \<in> pieces g' s'" using movesD(1) [OF m] x(1) by simp
  show "user_ptr g' (mem s') x u n"
  proof (cases "owns g (mem s) x u n")
    case True
    show ?thesis by (rule owns_user [OF owns_kept(1) [OF spec ok x(1) True m]])
  next
    case False
    then obtain raw k al where a: "aligned_at g (mem s) x raw k u n al" using x(2) by (auto simp: user_ptr_def)
    then have r: "owns g (mem s) x raw k" "raw + 32 \<le> u" "u + n \<le> raw + k" by (simp_all add: aligned_at_def)
    have "mem s' (u - i) = mem s (u - i)" if "0 < i" "i \<le> 32" for i
    proof -
      have "u - i \<in> {raw..<raw + k}" using that r(2,3) by auto
      then have "u - i \<in> piece_cells g (mem s) x" using owns_facts(1) [OF spec ok _ r(1)] x(1) by blast
      then show ?thesis using movesD(3) [OF m, of x "u - i"] x(1) by simp
    qed
    then have "aligned_at g' (mem s') x raw k u n al" using a owns_kept(1) [OF spec ok x(1) r(1) m] unfolding aligned_at_def by simp
    then show ?thesis unfolding user_ptr_def by blast
  qed
qed


text \<open>
  What \<^verbatim>\<open>fast_realloc\<close> promises for the allocation \<open>x\<close> of \<open>n\<close> bytes at \<open>u\<close>: null and the allocation kept,
  or \<open>new\<close> bytes in place or in one new piece that replaces \<open>x\<close>, with the common prefix of the contents.
\<close>

definition reallocated :: "rt_api \<Rightarrow> nat \<Rightarrow> 'a tls_state_scheme \<Rightarrow> ghost \<Rightarrow> piece \<Rightarrow> addr \<Rightarrow> nat \<Rightarrow> nat \<Rightarrow> addr \<Rightarrow> 'a tls_state_scheme \<Rightarrow> ghost \<Rightarrow> bool" where
  "reallocated rt t s g x u n new v s' g' \<longleftrightarrow> callable rt s' g' \<and> fast_path_cache s' t \<noteq> 0
     \<and> (if v = 0 then tls_acc (rt_os rt) (s, g) {} {} (s', g') \<and> user_ptr g' (mem s') x u n
        else \<exists>y l. tls_acc (rt_os rt) (s, g) {x} {y} (s', g') \<and> (y = x \<and> v = u \<or> y \<notin> pieces g s) \<and> user_ptr g' (mem s') y v l \<and> new \<le> l
          \<and> (\<forall>i < min n new. byte_at (mem s') (v + i) = byte_at (mem s) (u + i)))"

lemma reallocatedI:
  assumes "callable rt s' g'" "fast_path_cache s' t \<noteq> 0" "v \<noteq> 0" "tls_acc (rt_os rt) (s, g) {x} {y} (s', g')" "y = x \<and> v = u \<or> y \<notin> pieces g s" "user_ptr g' (mem s') y v l"
    "new \<le> l" "\<And>i. i < min n new \<Longrightarrow> byte_at (mem s') (v + i) = byte_at (mem s) (u + i)"
  shows "reallocated rt t s g x u n new v s' g'"
proof -
  have "\<forall>i < min n new. byte_at (mem s') (v + i) = byte_at (mem s) (u + i)" using assms(8) by blast
  then show ?thesis unfolding reallocated_def using assms(1-7) by (simp only: if_False simp_thms) blast
qed

lemma apart_ranges:
  fixes u v c :: nat
  assumes "{u..<u + c} \<inter> {v..<v + c} = {}" "0 < c"
  shows "v + c \<le> u \<or> u + c \<le> v"
proof (rule ccontr)
  assume "\<not> ?thesis"
  then have "max u v \<in> {u..<u + c} \<inter> {v..<v + c}" by auto
  then show False using assms(1) by blast
qed

text \<open>Bytes of an allocation that a step leaves alone.\<close>

lemma bytes_kept:
  assumes spec: "os_spec api" and ok: "tls_open api E F s g" and x: "x \<in> pieces g s - A" "user_ptr g (mem s) x u n"
    and m: "moves (s, g) A B (s', g')" and i: "i < n"
  shows "byte_at (mem s') (u + i) = byte_at (mem s) (u + i)"
proof (rule byte_cong)
  have p: "x \<in> pieces g s" using x(1) by simp
  note f = user_ptr_facts [OF spec ok p x(2)]
  show "u mod 8 = 0" by (rule cell_aligned [OF f(2)])
  show "u + i \<in> {u..<u + n}" using i by simp
  show "mem s' c = mem s c" if "c \<in> {u..<u + n}" for c using movesD(3) [OF m, of x c] f(1) x(1) that by auto
qed

lemma copy_then_free:
  fixes s :: "'a api_state_scheme"
  assumes c: "callable rt s g" and fp: "fast_path_cache s t \<noteq> 0" and x: "x \<in> pieces g s" "user_ptr g (mem s) x u n"
    and al: "allocated rt t s g new v s1 g1" "v \<noteq> 0" and new: "0 < new"
  shows "\<exists>s3 g3. fast_free rt t u (upd_mem (memcpy v u (min n new)) s1) = Some s3 \<and> reallocated rt t s g x u n new v s3 g3"
proof -
  let ?c = "min n new"
  let ?f = "memcpy v u ?c"
  let ?s2 = "upd_mem ?f s1"
  note cd = callableD [OF c]
  obtain y l where y: "tls_acc (rt_os rt) (s, g) {} {y} (s1, g1)" "y \<notin> pieces g s" "user_ptr g1 (mem s1) y v l" "max 1 new \<le> l"
    and c1: "callable rt s1 g1" "fast_path_cache s1 t \<noteq> 0" using al fp unfolding allocated_def by auto
  note d1 = callableD [OF c1(1)]
  have p1: "pieces g1 s1 = insert y (pieces g s)" using tls_accD(3) [OF y(1)] by simp
  have xy: "x \<noteq> y" using x(1) y(2) by blast
  note fx = user_ptr_facts [OF cd(1,2) x]
  have y1: "y \<in> pieces g1 s1" and x1: "x \<in> pieces g1 s1" using p1 x(1) by simp_all
  note fy = user_ptr_facts [OF d1(1,2) y1 y(3)]
  have ux: "user_ptr g1 (mem s1) x u n" by (rule user_ptr_kept(1) [OF cd(1,2) _ x(2) tls_accD(2) [OF y(1)]]) (use x(1) in simp)
  note fx1 = user_ptr_facts [OF d1(1,2) x1 ux]
  have w: "?f (mem s1) a = mem s1 a" if "a \<notin> {v..<v + l}" for a
    by (rule bulk_range(2) [OF cell_aligned [OF fy(2)]]) (use that y(4) in auto)
  note o = write_user_ptr [where f = ?f, OF d1(1,2) y1 y(3) w]
  have o1: "tls_op (rt_os rt) s1 g1 {y} {y} ?s2 g1" "user_ptr g1 (mem ?s2) y v l" by (rule o; assumption)+
  have c2: "callable rt ?s2 g1" by (rule callable_op [OF c1(1) o1(1)])
  have x2: "user_ptr g1 (mem ?s2) x u n" "x \<in> pieces g1 ?s2"
    by (rule user_ptr_kept [OF d1(1,2) _ ux tls_opD(2) [OF o1(1)]]; use x1 xy in simp)+
  have "\<not> no_cache rt t ?s2" using c1(2) by (intro cached_not_none) simp
  then obtain s3 g3 where f: "fast_free rt t u ?s2 = Some s3" "given_back rt t ?s2 g1 x s3 g3"
    using fast_free_user [OF c2 x2(2,1), of t] by metis
  then have a3: "callable rt s3 g3" "tls_acc (rt_os rt) (?s2, g1) {x} {} (s3, g3)" "fast_path_cache s3 t \<noteq> 0" by (simp_all add: given_back_def)
  have y2: "y \<in> pieces g1 ?s2 - {x}" using tls_opD(6) [OF o1(1)] y1 xy by simp
  have "byte_at (mem s3) (v + i) = byte_at (mem s) (u + i)" if i: "i < ?c" for i
  proof -
    have "byte_at (mem s3) (v + i) = byte_at (mem ?s2) (v + i)"
      by (rule bytes_kept [OF cd(1) callableD(2) [OF c2] y2 o1(2) tls_accD(2) [OF a3(2)]]) (use i y(4) in simp)
    also have "\<dots> = byte_at (mem s1) (u + i)"
    proof -
      have "{u..<u + n} \<inter> {v..<v + l} = {}" using pieces_disjoint [OF d1(2) x1 y1 xy] fx1(1) fy(1) by blast
      moreover have "{u..<u + ?c} \<subseteq> {u..<u + n}" "{v..<v + ?c} \<subseteq> {v..<v + l}" using y(4) by auto
      ultimately have "{u..<u + ?c} \<inter> {v..<v + ?c} = {}" by blast
      from apart_ranges [OF this] have "v + ?c \<le> u \<or> u + ?c \<le> v" using i by simp
      from byte_memcpy [OF this, of "mem s1" "v + i"] show ?thesis using i by simp
    qed
    also have "\<dots> = byte_at (mem s) (u + i)"
      by (rule bytes_kept [OF cd(1,2) _ x(2) tls_accD(2) [OF y(1)]]) (use x(1) i in simp_all)
    finally show ?thesis .
  qed
  moreover have "user_ptr g3 (mem s3) y v l" by (rule user_ptr_kept(1) [OF cd(1) callableD(2) [OF c2] y2 o1(2) tls_accD(2) [OF a3(2)]])
  moreover have "tls_acc (rt_os rt) (s, g) {x} {y} (s3, g3)"
  proof -
    have "tls_acc (rt_os rt) (s, g) {} {y} (?s2, g1)" by (rule tls_acc_comp [OF y(1) op_acc [OF o1(1)]]) (use y(2) in auto)
    from tls_acc_comp [OF this a3(2), of "{x}" "{y}"] show ?thesis using xy y(2) by auto
  qed
  ultimately have "reallocated rt t s g x u n new v s3 g3" unfolding reallocated_def using a3(1,3) al(2) y(2,4) by auto
  then show ?thesis using f(1) by blast
qed


lemma kept_allocation:
  assumes c: "callable rt s g" and fp: "fast_path_cache s t \<noteq> 0" and x: "x \<in> pieces g s" "user_ptr g (mem s) x u n"
    and a: "allocated rt t s g sz 0 s' g'"
  shows "reallocated rt t s g x u n new 0 s' g'"
proof -
  have t: "tls_acc (rt_os rt) (s, g) {} {} (s', g')" "callable rt s' g'" "fast_path_cache s' t \<noteq> 0" using a fp by (simp_all add: allocated_def)
  have "user_ptr g' (mem s') x u n" by (rule user_ptr_kept(1) [OF callableD(1,2) [OF c] _ x(2) tls_accD(2) [OF t(1)]]) (use x(1) in simp)
  then show ?thesis using t by (simp add: reallocated_def)
qed

lemma in_place:
  assumes c: "callable rt s g" and fp: "fast_path_cache s t \<noteq> 0" and x: "x \<in> pieces g s" "user_ptr g (mem s) x u n" and new: "new \<le> n"
  shows "reallocated rt t s g x u n new u s g"
proof -
  have "u \<noteq> 0" by (rule user_ptr_facts(5) [OF callableD(1,2) [OF c] x])
  moreover have "tls_acc (rt_os rt) (s, g) {x} {x} (s, g)"
    using callableD(2) [OF c] x(1) by (auto simp: tls_acc_def moves_def)
  ultimately show ?thesis using c fp x(2) new unfolding reallocated_def by auto
qed

lemma reallocated_before:
  assumes o: "tls_op (rt_os rt) s g {} {} s1 g" "mem s1 = mem s" and r: "reallocated rt t s1 g x u n new v s' g'"
  shows "reallocated rt t s g x u n new v s' g'"
proof (cases "v = 0")
  case True
  then show ?thesis using r tls_acc_before [OF op_acc [OF o(1)]] by (simp add: reallocated_def)
next
  case False
  then obtain y l where "callable rt s' g'" "fast_path_cache s' t \<noteq> 0" "tls_acc (rt_os rt) (s1, g) {x} {y} (s', g')" "y = x \<and> v = u \<or> y \<notin> pieces g s1" "user_ptr g' (mem s') y v l" "new \<le> l"
    "\<forall>i < min n new. byte_at (mem s') (v + i) = byte_at (mem s1) (u + i)" using r unfolding reallocated_def by auto
  note y = this
  show ?thesis by (rule reallocatedI [OF y(1,2) False tls_acc_before [OF op_acc [OF o(1)] y(3)] _ y(5,6)]) (use y(4,7) tls_opD(6) [OF o(1)] o(2) in auto)
qed

lemma realloc_copy_got:
  fixes s :: "'a api_state_scheme"
  assumes c: "callable rt s g" and fp: "fast_path_cache s t \<noteq> 0" and x: "x \<in> pieces g s" "user_ptr g (mem s) x u n"
    and new: "0 < new" "new < 2 ^ 64"
  shows "\<exists>v s' g'. realloc_copy rt t u n new s = Some (v, s') \<and> reallocated rt t s g x u n new v s' g'"
proof (cases rule: fast_malloc_got [OF c new(2), of t, case_names none some])
  case none
  then show ?thesis using cached_not_none [of s t rt] fp by simp
next
  case (some v s1 g1)
  have m: "(if n < new then n else new) = min n new" by simp
  show ?thesis
  proof (cases "v = 0")
    case True
    then have "allocated rt t s g new 0 s1 g1" using got_allocated [OF some(2)] by simp
    from kept_allocation [OF c fp x this] show ?thesis using some(1) True by (auto simp: realloc_copy_def)
  next
    case False
    obtain s3 g3 where "fast_free rt t u (upd_mem (memcpy v u (min n new)) s1) = Some s3" "reallocated rt t s g x u n new v s3 g3"
      using copy_then_free [OF c fp x got_allocated [OF some(2)] False new(1)] by blast
    then show ?thesis using some(1) False unfolding realloc_copy_def Let_def m by auto
  qed
qed

lemma aligned_resized:
  fixes s :: "'a api_state_scheme"
  assumes c: "callable rt s g" and fp: "fast_path_cache s t \<noteq> 0" and x: "x \<in> pieces g s" and a: "aligned_at g (mem s) x raw k u n al" and new: "0 < new" "new \<le> n"
  shows "reallocated rt t s g x u n new u (upd_mem (\<lambda>m. m(u - 8 := new)) s) g"
proof -
  let ?f = "\<lambda>m :: mem. m(u - 8 := new)"
  note cd = callableD [OF c]
  have r: "owns g (mem s) x raw k" "raw + 32 \<le> u" "u + n \<le> raw + k" using a by (simp_all add: aligned_at_def)
  have up: "user_ptr g (mem s) x u n" using a unfolding user_ptr_def by blast
  note uf = user_ptr_facts [OF cd(1,2) x up]
  have w: "?f (mem s) c = mem s c" if "c \<notin> {raw..<raw + k}" for c using that r(2,3) uf(4) by auto
  note o = write_user [where f = ?f, OF cd(1,2) x r(1) w]
  have o1: "tls_op (rt_os rt) s g {x} {x} (upd_mem ?f s) g" "owns g (mem (upd_mem ?f s)) x raw k" by (rule o; assumption)+
  have ne: "u - 32 \<noteq> u - 8" "u - 24 \<noteq> u - 8" "u - 16 \<noteq> u - 8" using r(2) by linarith+
  have "aligned_at g (?f (mem s)) x raw k u new al"
    using a o1(2) ne new unfolding aligned_at_def mem_upd_mem by (simp del: owns.simps)
  then have "user_ptr g (mem (upd_mem ?f s)) x u new" unfolding user_ptr_def mem_upd_mem by blast
  moreover have "byte_at (?f (mem s)) (u + i) = byte_at (mem s) (u + i)" if "i < min n new" for i
    by (rule byte_cong [OF cell_aligned [OF uf(2)], of _ n]) (use that r(2) in auto)
  ultimately show ?thesis
    by (intro reallocatedI [OF callable_op [OF c o1(1)] _ uf(5) op_acc [OF o1(1)], of t u new]) (use fp op_path [OF o1(1)] in \<open>simp_all only: mem_upd_mem simp_thms order_refl not_False_eq_True\<close>)
qed

lemma set_errno_kept:
  fixes s :: "'a api_state_scheme" and t v :: nat
  assumes c: "callable rt s g"
  defines "s' \<equiv> set_errno t v s"
  shows "callable rt s' g" "tls_acc (rt_os rt) (s, g) {} {} (s', g)" "mem s' = mem s" "fast_path_cache s' = fast_path_cache s"
proof -
  have co: "core s' = core s" by (simp add: s'_def set_errno_def core_def)
  note m = coreD [OF co]
  have f: "caches s' = caches s" "cache_pool s' = cache_pool s" "fast_path_cache s' = fast_path_cache s" "tls_specific s' = tls_specific s"
    "key_init s' = key_init s" "pool_lock_busy s' = pool_lock_busy s" "lock_busy s' = lock_busy s" by (simp_all add: s'_def set_errno_def)
  have "spans_ok (rt_os rt) s' g = spans_ok (rt_os rt) s g" by (simp add: spans_ok_def m)
  moreover have "bins_ok {} s' g = bins_ok {} s g" "lbins_ok {} s' g = lbins_ok {} s g" "hub_ok (rt_os rt) s' g = hub_ok (rt_os rt) s g"
    by (simp_all add: bins_ok_def bin_ok_def held_list_def lbins_ok_def lbin_ok_def hub_ok_def thread_cache_def get_bin_def m f)
  ultimately have ok: "tls_ok (rt_os rt) s' g" using callableD(2) [OF c] by (simp add: tls_open_def m)
  then show "callable rt s' g" using c by (simp add: callable_def f)
  show "tls_acc (rt_os rt) (s, g) {} {} (s', g)" using ok by (simp add: tls_acc_def moves_def pieces_def user_blocks_def user_spans_def m f)
  show "mem s' = mem s" "fast_path_cache s' = fast_path_cache s" by (rule m f)+
qed

lemma realloc_aligned_got:
  fixes s :: "'a api_state_scheme"
  assumes c: "callable rt s g" and fp: "fast_path_cache s t \<noteq> 0" and x: "x \<in> pieces g s" and a: "aligned_at g (mem s) x raw k u n al"
    and new: "0 < new" "new < 2 ^ 64"
  shows "\<exists>v s' g'. realloc_aligned rt t u new s = Some (v, s') \<and> reallocated rt t s g x u n new v s' g'"
proof (cases "n \<le> 2 ^ 30")
  case False
  have "user_ptr g (mem (set_errno t EINVAL s)) x u n" using a unfolding user_ptr_def by (auto simp: set_errno_def)
  then have "reallocated rt t s g x u n new 0 (set_errno t EINVAL s) g" using set_errno_kept [OF c] fp by (simp add: reallocated_def)
  moreover have "realloc_aligned rt t u new s = Some (0, set_errno t EINVAL s)"
    using a False by (simp add: realloc_aligned_def Let_def aligned_at_def)
  ultimately show ?thesis by blast
next
  case n: True
  obtain i where i: "al = 2 ^ i" "5 \<le> i" "i \<le> 12" using a by (auto simp: aligned_at_def)
  have up: "user_ptr g (mem s) x u n" using a unfolding user_ptr_def by blast
  have "(2::nat) ^ 5 \<le> 2 ^ i" "(2::nat) ^ i \<le> 2 ^ 12" using i by (intro power_increasing; simp)+
  then have "\<not> (al < ALIGNMENT \<or> al > 4096 \<or> al AND (al - 1) \<noteq> 0 \<or> n > 2 ^ 30)" using n i(1) pow2_test by (simp add: ALIGNMENT_def)
  moreover have h: "mem s (u - 32) = al" "mem s (u - 8) = n" "(if n < new then n else new) = min n new" using a by (simp_all add: aligned_at_def)
  ultimately have run: "realloc_aligned rt t u new s = (if new \<le> n then Some (u, upd_mem (\<lambda>m. m(u - 8 := new)) s)
      else do { (new_ptr, s) \<leftarrow> fast_aligned_alloc rt t (2 ^ i) new s;
                if new_ptr = 0 then Some (0, s)
                else do { s \<leftarrow> fast_free rt t u (upd_mem (memcpy new_ptr u (min n new)) s); Some (new_ptr, s) } })"
    unfolding realloc_aligned_def Let_def h by (simp add: i(1))
  show ?thesis
  proof (cases "new \<le> n")
    case True
    then show ?thesis using aligned_resized [OF c fp x a new(1) True] unfolding run by auto
  next
    case False
    show ?thesis
    proof (cases rule: fast_aligned_alloc_got [OF c new(2) i(3), of t, case_names none some])
      case none
      then show ?thesis using cached_not_none [of s t rt] fp by simp
    next
      case (some v s1 g1)
      show ?thesis
      proof (cases "v = 0")
        case True
        then have "allocated rt t s g new 0 s1 g1" using some(2) by simp
        from kept_allocation [OF c fp x up this] show ?thesis using some(1) True False unfolding run by auto
      next
        case nz: False
        obtain s3 g3 where "fast_free rt t u (upd_mem (memcpy v u (min n new)) s1) = Some s3" "reallocated rt t s g x u n new v s3 g3"
          using copy_then_free [OF c fp x up some(2) nz new(1)] by blast
        then show ?thesis using some(1) nz False unfolding run by auto
      qed
    qed
  qed
qed


lemma realloc_plain:
  fixes s :: "'a api_state_scheme"
  assumes c: "callable rt s g" and fp: "fast_path_cache s t \<noteq> 0" and x: "x \<in> pieces g s" "owns g (mem s) x u n"
    and new: "0 < new"
  defines "k \<equiv> fast_path_cache s t"
  defines "s1 \<equiv> TLS_CountRealloc k s"
  shows "tls_op (rt_os rt) s g {} {} s1 g" "mem s1 = mem s" "callable rt s1 g" "fast_path_cache s1 t \<noteq> 0" "x \<in> pieces g s1" "pool_chunks s1 = pool_chunks s"
    "fast_realloc rt t u new s = (let is_large = (\<exists>p. x = Span p) in
       if new \<le> n then
         if \<not> (if is_large then GetPageSize (rt_os rt) \<le> n - new else RequestToClass new + 1 < fb_class_index (mem s) (u - 16)) then Some (u, s1)
         else if is_large then Some (realloc_large_shrink (rt_os rt) u new s1) else realloc_copy rt t u n new s1
       else if is_large then realloc_large_grow rt t u n new s1 else realloc_copy rt t u n new s1)"
proof -
  note cd = callableD [OF c]
  note u = owns_facts [OF cd(1,2) x]
  have f: "tls_frame {} {} s s1" by (simp add: s1_def)
  show o: "tls_op (rt_os rt) s g {} {} s1 g" by (rule frame_op [OF cd(2) f])
  show m: "mem s1 = mem s" by (simp add: s1_def)
  show "pool_chunks s1 = pool_chunks s" using f by (simp add: tls_frame_def core_def)
  show "callable rt s1 g" by (rule callable_op [OF c o])
  show "fast_path_cache s1 t \<noteq> 0" using fp op_path [OF o] by simp
  show "x \<in> pieces g s1" using x(1) tls_opD(6) [OF o] by simp
  have get: "GetFast rt t s = Some (k, s)" using fp by (simp add: GetFast_def k_def)
  have u0: "u \<noteq> 0" using u(5) by simp
  show "fast_realloc rt t u new s = (let is_large = (\<exists>p. x = Span p) in
       if new \<le> n then
         if \<not> (if is_large then GetPageSize (rt_os rt) \<le> n - new else RequestToClass new + 1 < fb_class_index (mem s) (u - 16)) then Some (u, s1)
         else if is_large then Some (realloc_large_shrink (rt_os rt) u new s1) else realloc_copy rt t u n new s1
       else if is_large then realloc_large_grow rt t u n new s1 else realloc_copy rt t u n new s1)"
  proof (cases x)
    case (Block b)
    then have b: "u = b + 16" "n = UsableSize (fb_class_index (mem s) b)" "Block b \<in> pieces g s" using x by simp_all
    note h = block_header [OF cd(1,2) b(3)]
    show ?thesis using get u0 u(3) h new b(1,2) m Block by (simp add: fast_realloc_def Let_def USER_OFFSET_def flip: s1_def)
  next
    case (Span p)
    then have p: "u = p + 16" "gX g p = Some (n + 16)" "fb_slab (mem s) p = 0" "lh_alloc_size (mem s) p = n + 16" using x by (simp_all add: large_header_def)
    note e = ext_facts [OF cd(1) spans_okD(1) [OF tls_openD(2) [OF cd(2)] p(2)]]
    have "GetPageSize (rt_os rt) \<le> n + 16" using e(6,8) by (intro dvd_imp_le) (simp_all add: mod_eq_0_iff_dvd)
    then have "LargeHeaderSizePlausible (rt_os rt) (n + 16)" using e(5,6) by (simp add: LargeHeaderSizePlausible_def)
    moreover have "sub64 (n + 16) 16 = n" using e(5) by (subst sub64_exact) simp_all
    ultimately show ?thesis using get u0 u(3) new p(1,3,4) m Span
      by (simp add: fast_realloc_def Let_def USER_OFFSET_def sizeof_LargeAllocHeader_def ALIGN_MAGIC_def flip: s1_def)
  qed
qed


section \<open>Large spans\<close>

lemma byte_shift:
  assumes "p mod 8 = 0" "q mod 8 = 0" "m' (q + (j - j mod 8)) = m (p + (j - j mod 8))"
  shows "byte_at m' (q + j) = byte_at m (p + j)"
proof -
  have e: "(r + j) mod 8 = j mod 8" if "r mod 8 = 0" for r :: nat using that by (simp add: mod_add_eq [symmetric])
  have "r + j - j mod 8 = r + (j - j mod 8)" for r :: nat by (simp add: add_diff_assoc)
  then show ?thesis using assms by (simp add: byte_at_def e)
qed

text \<open>A remapped span, its header rewritten: the user holds it in place of the old one.\<close>

lemma remapped:
  fixes s :: "'a api_state_scheme" and k :: nat
  assumes c: "callable rt s g" and fp: "fast_path_cache s t \<noteq> 0" and x: "Span p \<in> pieces g s" "owns g (mem s) (Span p) u n" and np: "\<not> IsPoolBacked p s"
    and q: "os_mremap (rt_os rt) (os_log s) p (n + 16) k mv = q" "q \<noteq> 0" "k mod GetPageSize (rt_os rt) = 0" and new: "0 < new" "new + 16 \<le> k"
  shows "\<exists>g'. reallocated rt t s g (Span p) u n new (q + 16) (upd_mem (set_lh_alloc_size q k) (syscall (rt_os rt) (Mremap p (n + 16) q k) s)) g'"
    "mv \<or> q = p"
proof -
  note cd = callableD [OF c]
  have p: "u = p + 16" "gX g p = Some (n + 16)" "fb_slab (mem s) p = 0" using x(2) by (simp_all add: large_header_def)
  have k: "0 < k" "q + 8 \<in> {q..<q + k}" using new by simp_all
  let ?s1 = "syscall (rt_os rt) (Mremap p (n + 16) q k) s" and ?f = "set_lh_alloc_size q k" and ?g = "g\<lparr>gX := (gX g)(p := None, q \<mapsto> k)\<rparr>"
  let ?s2 = "upd_mem ?f ?s1"
  note r = remap_span [OF cd(1,2) x(1) p(2) np q(1,2) k(1) q(3)]
  show "mv \<or> q = p" by (rule r(5))
  have sq: "Span q \<in> pieces ?g ?s1" using tls_opD(6) [OF r(1)] by simp
  have w: "?f (mem ?s1) a = mem ?s1 a" if "a \<notin> {q..<q + k}" for a using that k(2) by (auto simp: set_lh_alloc_size_def)
  note ws = write_span [where f = ?f, OF cd(1) tls_opD(1) [OF r(1)] sq r(2) w]
  have ws: "tls_ok (rt_os rt) ?s2 ?g" "moves (?s1, ?g) {Span q} {Span q} (?s2, ?g)" by (rule ws; assumption)+
  have "tls_op (rt_os rt) ?s1 ?g {Span q} {Span q} ?s2 ?g" by (rule tls_opI [OF ws]) (simp_all add: upd_mem_def hub_def)
  from tls_op_comp [OF r(1) this, of "{Span p}" "{Span q}"] have o: "tls_op (rt_os rt) s g {Span p} {Span q} ?s2 ?g" using r(3) by auto
  have e: "ext (rt_os rt) ?s2 (gV ?g) q k" by (rule spans_okD(1) [OF tls_openD(2) [OF ws(1)] r(2)])
  have al: "p mod 8 = 0" "q mod 8 = 0"
    using ext_facts(3) [OF cd(1) e] ext_facts(3) [OF cd(1) spans_okD(1) [OF tls_openD(2) [OF cd(2)] p(2)]] by (simp_all add: mod_eq_0_iff_dvd dvd_trans [of 8 4096])
  have "large_header ?g (mem ?s2) q k"
    using r(2) r(4) [of 0] p(3) k(1) by (simp add: large_header_def upd_mem_def set_lh_alloc_size_def lh_alloc_size_def cells)
  then have ow: "owns ?g (mem ?s2) (Span q) (q + 16) (k - 16)" using new by simp
  have cell: "mem ?s2 (q + c) = mem s (p + c)" if "c \<noteq> 8" "c < n + 16" "c < k" for c
    using that r(4) [OF that(2,3)] by (simp add: upd_mem_def set_lh_alloc_size_def)
  have bt: "byte_at (mem ?s2) (q + 16 + i) = byte_at (mem s) (u + i)" if "i < min n new" for i
  proof -
    let ?j = "16 + i"
    have "?j - ?j mod 8 \<noteq> 8" "?j - ?j mod 8 < n + 16" "?j - ?j mod 8 < k" using that new mod_less_divisor [of 8 ?j] by linarith+
    from byte_shift [where j = ?j and m' = "mem ?s2" and m = "mem s", OF al cell [OF this]] show ?thesis by (simp add: p(1) add.assoc)
  qed
  have "reallocated rt t s g (Span p) u n new (q + 16) ?s2 ?g"
    by (rule reallocatedI [OF callable_op [OF c o] _ _ op_acc [OF o] _ owns_user [OF ow] _ bt]) (use fp op_path [OF o] r(3) p(1) new in auto)
  then show "\<exists>g'. reallocated rt t s g (Span p) u n new (q + 16) ?s2 g'" by blast
qed

lemma reallocated_count:
  assumes "reallocated rt t s g x u n new v s' g'"
  shows "reallocated rt t s g x u n new v (count_stats f s') g'"
proof -
  have c: "callable rt s' g'" using assms by (simp add: reallocated_def)
  have o: "tls_op (rt_os rt) s' g' {} {} (count_stats f s') g'" by (rule frame_op [OF callableD(2) [OF c]]) simp
  have m: "mem (count_stats f s') = mem s'" by simp
  note a = tls_acc_after [OF _ op_acc [OF o]]
  have k: "callable rt (count_stats f s') g'" "fast_path_cache (count_stats f s') = fast_path_cache s'" using callable_op [OF c o] op_path [OF o] by blast+
  show ?thesis
  proof (cases "v = 0")
    case True
    then show ?thesis using assms k a unfolding reallocated_def m by simp
  next
    case False
    then show ?thesis using assms k a unfolding reallocated_def m by (simp only: if_False) blast
  qed
qed

lemma page_round:
  assumes "os_spec api" "new + 16 + GetPageSize api \<le> 2 ^ 64"
  shows "PageRoundUp api (add64 new 16) mod GetPageSize api = 0" "new + 16 \<le> PageRoundUp api (add64 new 16)"
proof -
  have "1 \<le> GetPageSize api" using os_spec_page_bounds(1) [OF assms(1)] by linarith
  then have "add64 new 16 = new + 16" using assms(2) by (intro add64_exact) linarith
  then show "PageRoundUp api (add64 new 16) mod GetPageSize api = 0" "new + 16 \<le> PageRoundUp api (add64 new 16)"
    using align_up_page(1,2) [OF assms] by (simp_all add: PageRoundUp_def)
qed

lemma large_shrink_got:
  fixes s :: "'a api_state_scheme"
  assumes c: "callable rt s g" and fp: "fast_path_cache s t \<noteq> 0" and x: "Span p \<in> pieces g s" "owns g (mem s) (Span p) u n" and new: "0 < new" "new \<le> n"
  shows "\<exists>s' g'. realloc_large_shrink (rt_os rt) u new s = (u, s') \<and> reallocated rt t s g (Span p) u n new u s' g'"
proof -
  note cd = callableD [OF c]
  have p: "u = p + 16" "lh_alloc_size (mem s) p = n + 16" "gX g p = Some (n + 16)" using x(2) by (simp_all add: large_header_def)
  have b: "n + 16 \<le> 2 ^ 47" using ext_facts(5) [OF cd(1) spans_okD(1) [OF tls_openD(2) [OF cd(2)] p(3)]] by simp
  have "GetPageSize (rt_os rt) \<le> 2097152" by (rule os_spec_page_bounds(2) [OF cd(1)])
  then have "new + 16 + GetPageSize (rt_os rt) \<le> 2 ^ 64" using b new(2) by simp
  note r = page_round [OF cd(1) this]
  let ?k = "PageRoundUp (rt_os rt) (add64 new 16)"
  let ?q = "os_mremap (rt_os rt) (os_log s) p (n + 16) ?k False"
  have stay: "reallocated rt t s g (Span p) u n new u s g" by (rule in_place [OF c fp x(1) owns_user [OF x(2)] new(2)])
  consider "n + 16 \<le> ?k \<or> IsPoolBacked p s" | "?k < n + 16" "\<not> IsPoolBacked p s" "?q = 0" | "?k < n + 16" "\<not> IsPoolBacked p s" "?q \<noteq> 0" by linarith
  then show ?thesis
  proof cases
    case 1
    then show ?thesis using stay p by (auto simp: realloc_large_shrink_def Let_def sizeof_LargeAllocHeader_def)
  next
    case 2
    have o: "tls_op (rt_os rt) s g {} {} (syscall (rt_os rt) (Mremap p (n + 16) 0 ?k) s) g" "mem (syscall (rt_os rt) (Mremap p (n + 16) 0 ?k) s) = mem s"
      by (rule refused_op [OF cd(1,2)])+
    have "reallocated rt t s g (Span p) u n new u (syscall (rt_os rt) (Mremap p (n + 16) 0 ?k) s) g"
      by (rule reallocated_before [OF o in_place [OF callable_op [OF c o(1)]]])
        (use fp x(1) owns_user [OF x(2)] new(2) o op_path [OF o(1)] tls_opD(6) [OF o(1)] in simp_all)
    then show ?thesis using 2 p by (auto simp: realloc_large_shrink_def Let_def sizeof_LargeAllocHeader_def sys_mremap_def)
  next
    case 3
    note m = remapped [OF c fp x 3(2) refl 3(3) r(1) new(1) r(2)]
    have q: "?q = p" using m(2) by simp
    obtain g' where "reallocated rt t s g (Span p) u n new u (upd_mem (set_lh_alloc_size p ?k) (syscall (rt_os rt) (Mremap p (n + 16) p ?k) s)) g'"
      using m(1) unfolding q p(1) by blast
    from reallocated_count [OF this] show ?thesis using 3 p q by (auto simp: realloc_large_shrink_def Let_def sizeof_LargeAllocHeader_def sys_mremap_def)
  qed
qed

lemma large_grow_got:
  fixes s :: "'a api_state_scheme"
  assumes c: "callable rt s g" and fp: "fast_path_cache s t \<noteq> 0" and x: "Span p \<in> pieces g s" "owns g (mem s) (Span p) u n"
    and new: "n < new" "new + 16 + GetPageSize (rt_os rt) \<le> 2 ^ 64"
  shows "\<exists>v s' g'. realloc_large_grow rt t u n new s = Some (v, s') \<and> reallocated rt t s g (Span p) u n new v s' g'"
proof -
  note cd = callableD [OF c] and r = page_round [OF callableD(1) [OF c] new(2)]
  have p: "u = p + 16" "lh_alloc_size (mem s) p = n + 16" using x(2) by (simp_all add: large_header_def)
  have n: "0 < new" "new < 2 ^ 64" using new os_spec_page_bounds(1) [OF cd(1)] by linarith+
  let ?k = "PageRoundUp (rt_os rt) (add64 new 16)"
  let ?q = "os_mremap (rt_os rt) (os_log s) p (n + 16) ?k True" and ?s1 = "syscall (rt_os rt) (Mremap p (n + 16) 0 (PageRoundUp (rt_os rt) (add64 new 16))) s"
  have k: "n + 16 < ?k" using r(2) new(1) by linarith
  note up = owns_user [OF x(2)]
  have o: "tls_op (rt_os rt) s g {} {} ?s1 g" "mem ?s1 = mem s" by (rule refused_op [OF cd(1,2)])+
  consider "IsPoolBacked p s" | "\<not> IsPoolBacked p s" "?q = 0" | "\<not> IsPoolBacked p s" "?q \<noteq> 0" by blast
  then show ?thesis
  proof cases
    case 1
    then have "realloc_large_grow rt t u n new s = realloc_copy rt t u n new s" using p k by (simp add: realloc_large_grow_def Let_def sizeof_LargeAllocHeader_def)
    then show ?thesis using realloc_copy_got [OF c fp x(1) up n] by simp
  next
    case 2
    then have e: "realloc_large_grow rt t u n new s = realloc_copy rt t u n new ?s1"
      using p k by (simp add: realloc_large_grow_def Let_def sizeof_LargeAllocHeader_def sys_mremap_def)
    have "\<exists>v s' g'. realloc_copy rt t u n new ?s1 = Some (v, s') \<and> reallocated rt t ?s1 g (Span p) u n new v s' g'"
      by (rule realloc_copy_got [OF callable_op [OF c o(1)] _ _ _ n]) (use fp x(1) up o op_path [OF o(1)] tls_opD(6) [OF o(1)] in simp_all)
    then show ?thesis unfolding e using reallocated_before [OF o] by blast
  next
    case 3
    then show ?thesis using remapped(1) [OF c fp x 3(1) refl 3(2) r(1) n(1) r(2)] p k
      by (auto simp: realloc_large_grow_def Let_def sizeof_LargeAllocHeader_def sys_mremap_def)
  qed
qed

section \<open>All of reallocation\<close>

lemma cached_realloc_got:
  fixes s :: "'a api_state_scheme"
  assumes "callable rt s g" "fast_path_cache s t \<noteq> 0" "x \<in> pieces g s" "user_ptr g (mem s) x u n" "0 < new" "new < 2 ^ 64"
    and "\<forall>p. x = Span p \<and> u = p + 16 \<longrightarrow> new + 16 + GetPageSize (rt_os rt) \<le> 2 ^ 64"
  shows "\<exists>v s' g'. fast_realloc rt t u new s = Some (v, s') \<and> reallocated rt t s g x u n new v s' g'"
proof (cases "owns g (mem s) x u n")
  case True
  note r = realloc_plain [OF assms(1-3) True assms(5)]
  let ?s1 = "TLS_CountRealloc (fast_path_cache s t) s"
  have up: "user_ptr g (mem ?s1) x u n" using assms(4) r(2) by simp
  have copy: "\<exists>v s' g'. realloc_copy rt t u n new ?s1 = Some (v, s') \<and> reallocated rt t s g x u n new v s' g'"
    using realloc_copy_got [OF r(3,4,5) up assms(5,6)] reallocated_before [OF r(1,2)] by blast
  have stay: "new \<le> n \<Longrightarrow> reallocated rt t s g x u n new u ?s1 g" using in_place [OF r(3,4,5) up] reallocated_before [OF r(1,2)] by blast
  show ?thesis
  proof (cases x)
    case (Block b)
    then show ?thesis using r(7) copy stay by (auto simp: Let_def split: if_splits)
  next
    case (Span p)
    then have p: "u - 16 = p" "lh_alloc_size (mem ?s1) p = n + 16" "u = p + 16" using True r(2) by (simp_all add: large_header_def)
    have x1: "Span p \<in> pieces g ?s1" "owns g (mem ?s1) (Span p) u n" using True r(2,5) Span by simp_all
    show ?thesis
    proof (cases "new \<le> n")
      case True
      obtain s2 g2 where s2: "realloc_large_shrink (rt_os rt) u new ?s1 = (u, s2)" "reallocated rt t ?s1 g x u n new u s2 g2"
        using large_shrink_got [OF r(3,4) x1 assms(5) True] Span by blast
      then show ?thesis using r(7) stay [OF True] reallocated_before [OF r(1,2) s2(2)] Span True by (auto simp: Let_def split: if_splits)
    next
      case False
      then have lt: "n < new" "new + 16 + GetPageSize (rt_os rt) \<le> 2 ^ 64" using assms(7) Span p(3) by simp_all
      obtain v s2 g2 where v: "realloc_large_grow rt t u n new ?s1 = Some (v, s2)" "reallocated rt t ?s1 g x u n new v s2 g2"
        using large_grow_got [OF r(3,4) x1 lt] Span by blast
      from reallocated_before [OF r(1,2) v(2)] show ?thesis using v(1) r(7) Span False by (auto simp: Let_def)
    qed
  qed
next
  case False
  then obtain raw k al where a: "aligned_at g (mem s) x raw k u n al" using assms(4) by (auto simp: user_ptr_def)
  let ?s1 = "TLS_CountRealloc (fast_path_cache s t) s"
  have o: "tls_op (rt_os rt) s g {} {} ?s1 g" by (rule frame_op [OF callableD(2) [OF assms(1)]]) simp
  have x1: "x \<in> pieces g ?s1" "fast_path_cache ?s1 t \<noteq> 0" "aligned_at g (mem ?s1) x raw k u n al"
    using assms(2,3) a tls_opD(6) [OF o] op_path [OF o] by simp_all
  have "fb_slab (mem s) (u - 16) = ALIGN_MAGIC" using a by (simp add: aligned_at_def cells)
  then have run: "fast_realloc rt t u new s = realloc_aligned rt t u new ?s1"
    using assms(2,5) user_ptr_facts(3,5) [OF callableD(1,2) [OF assms(1)] assms(3,4)]
    by (simp add: fast_realloc_def GetFast_def Let_def USER_OFFSET_def)
  from realloc_aligned_got [OF callable_op [OF assms(1) o] x1(2,1,3) assms(5,6)] obtain v s' g'
    where v: "realloc_aligned rt t u new ?s1 = Some (v, s')" "reallocated rt t ?s1 g x u n new v s' g'" by blast
  show ?thesis using v(1) reallocated_before [OF o count_mem(2) v(2)] unfolding run by blast
qed


text \<open>A thread that had no cache gets one first; the allocation is where and what it was.\<close>

lemma reallocated_after_cache:
  assumes c: "callable rt s g" and x: "x \<in> pieces g s" "user_ptr g (mem s) x u n" and a: "tls_acc (rt_os rt) (s, g) {} {} (s1, g1)"
    and r: "reallocated rt t s1 g1 x u n new v s' g'"
  shows "reallocated rt t s g x u n new v s' g'"
proof (cases "v = 0")
  case True
  then show ?thesis using r tls_acc_before [OF a] by (simp add: reallocated_def)
next
  case False
  then obtain y l where y: "callable rt s' g'" "fast_path_cache s' t \<noteq> 0" "tls_acc (rt_os rt) (s1, g1) {x} {y} (s', g')" "y = x \<and> v = u \<or> y \<notin> pieces g1 s1" "user_ptr g' (mem s') y v l" "new \<le> l"
    "\<forall>i < min n new. byte_at (mem s') (v + i) = byte_at (mem s1) (u + i)" using r unfolding reallocated_def by auto
  have "byte_at (mem s1) (u + i) = byte_at (mem s) (u + i)" if "i < n" for i
    using bytes_kept [OF callableD(1,2) [OF c] _ x(2) tls_accD(2) [OF a] that] x(1) by simp
  then show ?thesis by (intro reallocatedI [OF y(1,2) False tls_acc_before [OF a y(3)] _ y(5,6)]) (use y(4,7) tls_accD(3) [OF a] in auto)
qed

lemma fast_realloc_got:
  fixes s :: "'a api_state_scheme"
  assumes c: "callable rt s g" and x: "x \<in> pieces g s" "user_ptr g (mem s) x u n" and new: "0 < new" "new < 2 ^ 64"
    and sp: "\<forall>p. x = Span p \<and> u = p + 16 \<longrightarrow> new + 16 + GetPageSize (rt_os rt) \<le> 2 ^ 64"
  shows "(\<exists>v s' g'. fast_realloc rt t u new s = Some (v, s') \<and> reallocated rt t s g x u n new v s' g')
     \<or> fast_realloc rt t u new s = None \<and> no_cache rt t s"
proof (cases "fast_path_cache s t = 0")
  case False
  then show ?thesis using cached_realloc_got [OF c False x new] sp by blast
next
  case True
  show ?thesis
  proof (cases rule: get_cache [OF c, of t, case_names none some])
    case none
    then show ?thesis by (simp add: fast_realloc_def)
  next
    case (some k s1 g1)
    have k: "fast_path_cache s1 t = k" "k \<noteq> 0" "tls_acc (rt_os rt) (s, g) {} {} (s1, g1)" using some(2) by (simp_all add: got_cache_def)
    have e: "fast_realloc rt t u new s = fast_realloc rt t u new s1" using some(1) k(1,2) by (simp add: fast_realloc_def GetFast_def [of rt t s1])
    have x1: "user_ptr g1 (mem s1) x u n" "x \<in> pieces g1 s1" using user_ptr_kept [OF callableD(1,2) [OF c] _ x(2) tls_accD(2) [OF k(3)]] x(1) by simp_all
    obtain v s' g' where v: "fast_realloc rt t u new s1 = Some (v, s')" "reallocated rt t s1 g1 x u n new v s' g'"
      using cached_realloc_got [OF some(3) _ x1(2,1) new, of t] k(1,2) sp True by auto
    from reallocated_after_cache [OF c x k(3) v(2)] show ?thesis using e v(1) by auto
  qed
qed

text \<open>
  C5: \<^verbatim>\<open>fast_realloc\<close> of an allocation to \<open>new > 0\<close> bytes always returns, unless the thread has no cache and
  none is to be had. It is a small block, an over-aligned block, or a large span (kept, resized or moved by
  \<^verbatim>\<open>mremap\<close>, or copied) that is resized up to the largest size that can be rounded to pages. Either the result is null and the allocation is untouched, or the user holds \<open>new\<close>
  bytes, in place or in one new piece that replaces the old one, and the bytes up to the smaller of the
  two sizes are those it had; every other allocation keeps its contents.
\<close>

theorem realloc_result:
  fixes s :: "'a api_state_scheme"
  assumes "callable rt s g" "x \<in> pieces g s" "user_ptr g (mem s) x u n" "0 < new" "new < 2 ^ 64"
    and "\<forall>p. x = Span p \<and> u = p + 16 \<longrightarrow> new + 16 + GetPageSize (rt_os rt) \<le> 2 ^ 64"
  shows "(\<exists>v s' g'. fast_realloc rt t u new s = Some (v, s') \<and> reallocated rt t s g x u n new v s' g')
     \<or> fast_realloc rt t u new s = None \<and> no_cache rt t s"
  by (rule fast_realloc_got [OF assms])

theorem realloc_result_witness:
  "\<exists>u s1 v s2 g1 g2 x n. fast_malloc demo_rt 0 40 api_start = Some (u, s1) \<and> fast_realloc demo_rt 0 u 100 s1 = Some (v, s2)
     \<and> reallocated demo_rt 0 s1 g1 x u n 100 v s2 g2 \<and> pieces g1 s1 = {x}"
proof -
  obtain u s1 g1 x n where d: "fast_malloc demo_rt 0 40 api_start = Some (u, s1)" "callable demo_rt s1 g1" "x \<in> pieces g1 s1"
    "user_ptr g1 (mem s1) x u n" "pieces g1 s1 = {x}" "fast_path_cache s1 0 \<noteq> 0" "\<not> no_cache demo_rt 0 s1" "x = Block (u - 16)" by (rule demo_owned)
  have "\<exists>v s2 g2. fast_realloc demo_rt 0 u 100 s1 = Some (v, s2) \<and> reallocated demo_rt 0 s1 g1 x u n 100 v s2 g2"
    using realloc_result [OF d(2-4), of 100 0] d(7,8) by simp
  then show ?thesis using d(1,5) by blast
qed

text \<open>The rounding of a size within a page of \<open>2^64\<close> wraps to zero.\<close>

lemma align_up_wrap:
  assumes "n < 2 ^ 64" "2 ^ 64 < n + 2 ^ k" "k < 64"
  shows "align_up n (2 ^ k) = 0"
proof -
  let ?v = "n + 2 ^ k - 1"
  have p: "(2::nat) ^ k < 2 ^ 64" using assms(3) by (intro power_strict_increasing) auto
  have "1 \<le> n + 2 ^ k" by (simp add: Suc_leI)
  then have w: "(word_of_nat n + 2 ^ k - 1 :: 64 word) = word_of_nat ?v"
    by (simp only: of_nat_diff of_nat_add of_nat_power of_nat_numeral of_nat_1)
  have "?v mod 2 ^ 64 = ?v - 2 ^ 64" using assms p by (subst mod_if) (auto simp: le_mod_geq)
  then have "unat (word_of_nat n + 2 ^ k - 1 :: 64 word) = ?v - 2 ^ 64" unfolding w by (simp add: unat_of_nat)
  moreover have "?v - 2 ^ 64 < 2 ^ k" using assms(1,2) by simp
  moreover have "(2::64 word) ^ k - 1 = mask k" by (simp add: mask_eq_decr_exp)
  ultimately show ?thesis unfolding align_up_def by (simp add: and_not_mask_nat)
qed

text \<open>Whichever of the two additions wraps, the rounded size is at most one page.\<close>

lemma page_round_wrap:
  assumes "os_spec api" "new < 2 ^ 64" "2 ^ 64 < new + 16 + GetPageSize api"
  shows "PageRoundUp api (add64 new 16) \<le> GetPageSize api"
proof (cases "new + 16 < 2 ^ 64")
  case True
  obtain k where k: "GetPageSize api = 2 ^ k" "12 \<le> k" "k \<le> 21" using os_spec_page [OF assms(1)] .
  have "align_up (new + 16) (2 ^ k) = 0" by (rule align_up_wrap) (use True assms(3) k in simp_all)
  then show ?thesis using True k by (simp add: PageRoundUp_def add64_exact)
next
  case False
  have w: "add64 new 16 = new + 16 - 2 ^ 64" "new + 16 - 2 ^ 64 < 16" using assms(2) False by (simp_all add: add64_def le_mod_geq)
  note pb = os_spec_page_bounds [OF assms(1)]
  have "add64 new 16 + GetPageSize api \<le> 2 ^ 64" using w pb(2) by simp
  note a = align_up_page [OF assms(1) this]
  obtain j where j: "align_up (add64 new 16) (GetPageSize api) = GetPageSize api * j" using a(2) by (auto simp: mod_eq_0_iff_dvd)
  have "j \<le> 1"
  proof (rule ccontr)
    assume "\<not> j \<le> 1"
    then have "GetPageSize api * 2 \<le> GetPageSize api * j" by simp
    then show False using a(3) w j pb(1) by linarith
  qed
  then have "GetPageSize api * j \<le> GetPageSize api * 1" by (intro mult_le_mono) simp_all
  then show ?thesis using j by (simp add: PageRoundUp_def)
qed

text \<open>
  C10: growing a large span to a size that cannot be rounded to pages, that is with
  \<open>new + 16 + page - 1\<close> at or above \<open>2^64\<close>, returns the pointer unchanged, as if the request had been
  met. Neither the addition of the header nor the rounding is checked for overflow, and the wrapped
  value looks no larger than the span. The span keeps its \<open>n < new\<close> bytes.
\<close>

theorem realloc_large_overflow:
  fixes s :: "'a api_state_scheme"
  assumes "callable rt s g" "fast_path_cache s t \<noteq> 0" "Span p \<in> pieces g s" "owns g (mem s) (Span p) u n"
    "new < 2 ^ 64" "2 ^ 64 \<le> new + 16 + (GetPageSize (rt_os rt) - 1)"
  shows "\<exists>s'. fast_realloc rt t u new s = Some (u, s') \<and> user_ptr g (mem s') (Span p) u n \<and> n < new"
proof -
  note cd = callableD [OF assms(1)]
  note pb = os_spec_page_bounds [OF cd(1)]
  have new: "0 < new" using assms(6) pb(2) by simp
  note r = realloc_plain [OF assms(1-4) new]
  let ?s1 = "TLS_CountRealloc (fast_path_cache s t) s"
  have p: "u = p + 16" "gX g p = Some (n + 16)" "lh_alloc_size (mem ?s1) p = n + 16" using assms(4) r(2) by (simp_all add: large_header_def)
  note e = ext_facts [OF cd(1) spans_okD(1) [OF tls_openD(2) [OF cd(2)] p(2)]]
  have lt: "n < new" using e(5) assms(6) pb(2) by simp
  have pg: "GetPageSize (rt_os rt) \<le> n + 16" using e(6,8) by (intro dvd_imp_le) (simp_all add: mod_eq_0_iff_dvd)
  have "PageRoundUp (rt_os rt) (add64 new 16) \<le> GetPageSize (rt_os rt)"
    by (rule page_round_wrap [OF cd(1) assms(5)]) (use assms(6) pb(1) in linarith)
  then have "\<not> n + 16 < PageRoundUp (rt_os rt) (add64 new 16)" using pg by simp
  then have "realloc_large_grow rt t u n new ?s1 = Some (u, ?s1)" using p(1,3) by (simp add: realloc_large_grow_def Let_def sizeof_LargeAllocHeader_def)
  then have "fast_realloc rt t u new s = Some (u, ?s1)" using r(7) lt by (simp add: Let_def)
  moreover have "user_ptr g (mem ?s1) (Span p) u n" using owns_user [OF assms(4)] r(2) by simp
  ultimately show ?thesis using lt by blast
qed

theorem realloc_large_overflow_witness:
  "\<exists>k s p s1 s2. GetFast demo_rt 0 api_start = Some (k, s) \<and> AllocateLargeCached demo_os k 8192 s = Some (p + 16, s1)
     \<and> fast_realloc demo_rt 0 (p + 16) (2 ^ 64 - 4000) s1 = Some (p + 16, s2)"
proof -
  obtain k s g p s1 g1 where d: "GetFast demo_rt 0 api_start = Some (k, s)" "AllocateLargeCached demo_os k 8192 s = Some (p + 16, s1)"
    "tls_op demo_os s g {} {Span p} s1 g1" "Span p \<in> pieces g1 s1" "demo_ready 0 k s" "large_header g1 (mem s1) p 8192" "k \<in> gK g" "tls_ok demo_os s g"
    unfolding api_start_def by (rule demo_span)
  have s: "fast_path_cache s 0 = k" "k \<noteq> 0" "key_init s" "lock_busy s = (\<lambda>_ _. False)" "\<not> pool_lock_busy s"
    using d(5) live_cache_nonzero(1) [OF demo_os_spec d(8,7)] by (simp_all add: demo_ready_def)
  have c: "callable demo_rt s1 g1"
    using callable_op [of demo_rt s g "{}" "{Span p}" s1 g1] d(3,8) s demo_os_spec by (simp add: callable_def)
  have o: "owns g1 (mem s1) (Span p) (p + 16) 8176" using d(6) by simp
  have f: "fast_path_cache s1 0 \<noteq> 0" using op_path [OF d(3)] s(1,2) by simp
  from realloc_large_overflow [OF c f d(4) o, of "2 ^ 64 - 4000"] show ?thesis using d(1,2) by (auto simp: GetPageSize_def demo_os_def)
qed


end
