(* ===== verification/FA_Process.thy ===== *)
theory FA_Process
  imports FA_Realloc
begin

text \<open>
  A whole process: a sequence of calls of the public functions by any threads, user writes into live
  allocations, and thread exits. The ledger records what the program believes it holds (pointer and
  size); a call that misuses the interface (freeing what is not held, writing outside) is not part of
  a run. No ghost state is visible here: the ledger and the memory are what the program sees.
\<close>

section \<open>Calls and runs\<close>

type_synonym ledger = "addr \<rightharpoonup> nat"

datatype api_call =
    Malloc nat nat
  | Calloc nat nat nat
  | AlignedAlloc nat nat nat
  | Free nat addr
  | FreeSized nat addr nat
  | ReallocTo nat addr nat
  | WriteByte addr nat nat
  | PurgeThread nat
  | PurgeAll
  | ThreadExit nat

definition grant :: "addr \<Rightarrow> nat \<Rightarrow> ledger \<Rightarrow> ledger" where
  "grant u n L = (if u = 0 then L else L(u \<mapsto> max 1 n))"

definition realloc_admissible :: "rt_api \<Rightarrow> nat \<Rightarrow> addr \<Rightarrow> nat \<Rightarrow> 'a api_state_scheme \<Rightarrow> bool" where
  "realloc_admissible rt t u new s \<longleftrightarrow> 0 < new \<and> new < 2 ^ 64
     \<and> (fb_slab (mem s) (u - 16) = 0 \<longrightarrow> new + 16 + GetPageSize (rt_os rt) \<le> 2 ^ 64)"

fun exec_call :: "rt_api \<Rightarrow> api_call \<Rightarrow> 'a api_state_scheme \<Rightarrow> ledger \<Rightarrow> ('a api_state_scheme \<times> ledger) option" where
  "exec_call rt (Malloc t n) s L = (if n < 2 ^ 64 then map_option (\<lambda>(u, s). (s, grant u n L)) (fast_malloc rt t n s) else None)"
| "exec_call rt (Calloc t k n) s L =
     (if k < 2 ^ 64 \<and> n < 2 ^ 64 then map_option (\<lambda>(u, s). (s, grant u (k * n) L)) (fast_calloc rt t k n s) else None)"
| "exec_call rt (AlignedAlloc t k n) s L =
     (if k \<le> 12 \<and> n < 2 ^ 64 then map_option (\<lambda>(u, s). (s, grant u n L)) (fast_aligned_alloc rt t (2 ^ k) n s) else None)"
| "exec_call rt (Free t u) s L = (if L u = None then None else map_option (\<lambda>s. (s, L(u := None))) (fast_free rt t u s))"
| "exec_call rt (FreeSized t u n) s L = (if L u = None then None else map_option (\<lambda>s. (s, L(u := None))) (fast_free_sized rt t u n s))"
| "exec_call rt (ReallocTo t u new) s L =
     (if L u = None \<or> \<not> realloc_admissible rt t u new s then None
      else map_option (\<lambda>(v, s). (s, if v = 0 then L else (L(u := None))(v \<mapsto> new))) (fast_realloc rt t u new s))"
| "exec_call rt (WriteByte u i b) s L =
     (case L u of None \<Rightarrow> None | Some n \<Rightarrow> if i < n then Some (upd_mem (set_byte (u + i) b) s, L) else None)"
| "exec_call rt (PurgeThread t) s L = map_option (\<lambda>s. (s, L)) (fast_alloc_purge_thread_cache rt t s)"
| "exec_call rt PurgeAll s L = map_option (\<lambda>s. (s, L)) (fast_alloc_purge rt s)"
| "exec_call rt (ThreadExit t) s L =
     (if fast_path_cache s t = 0 \<or> shutting_down s then None
      else map_option (\<lambda>s. (s, L)) (TlsDestructor (rt_os rt) t (fast_path_cache s t) (s\<lparr>tls_specific := (tls_specific s)(t := 0)\<rparr>)))"

fun exec_run :: "rt_api \<Rightarrow> api_call list \<Rightarrow> 'a api_state_scheme \<Rightarrow> ledger \<Rightarrow> ('a api_state_scheme \<times> ledger) option" where
  "exec_run rt [] s L = Some (s, L)"
| "exec_run rt (e # es) s L = (case exec_call rt e s L of None \<Rightarrow> None | Some (s1, L1) \<Rightarrow> exec_run rt es s1 L1)"

text \<open>The allocation a call ends or changes.\<close>

fun touches :: "api_call \<Rightarrow> addr set" where
  "touches (Free t u) = {u}"
| "touches (FreeSized t u n) = {u}"
| "touches (ReallocTo t u new) = {u}"
| "touches (WriteByte u i b) = {u}"
| "touches _ = {}"

section \<open>The ledger is covered by pieces\<close>

definition covers :: "rt_api \<Rightarrow> 'a api_state_scheme \<Rightarrow> ledger \<Rightarrow> ghost \<Rightarrow> (addr \<Rightarrow> piece) \<Rightarrow> bool" where
  "covers rt s L g P \<longleftrightarrow> callable rt s g \<and> inj_on P (dom L)
     \<and> (\<forall>u n. L u = Some n \<longrightarrow> P u \<in> pieces g s \<and> 0 < n \<and> (\<exists>k \<ge> n. user_ptr g (mem s) (P u) u k))"

definition ledger_ok :: "rt_api \<Rightarrow> 'a api_state_scheme \<Rightarrow> ledger \<Rightarrow> bool" where
  "ledger_ok rt s L \<longleftrightarrow> (\<exists>g P. covers rt s L g P)"

text \<open>The allocations of a ledger that a step left alone.\<close>

definition ledger_kept :: "addr set \<Rightarrow> 'a api_state_scheme \<Rightarrow> ledger \<Rightarrow> 'a api_state_scheme \<Rightarrow> ledger \<Rightarrow> bool" where
  "ledger_kept U s L s' L' \<longleftrightarrow> (\<forall>u n. L u = Some n \<and> u \<notin> U \<longrightarrow> L' u = Some n \<and> (\<forall>i < n. byte_at (mem s') (u + i) = byte_at (mem s) (u + i)))"

lemma coversD:
  assumes "covers rt s L g P" "L u = Some n"
  obtains k where "P u \<in> pieces g s" "0 < n" "n \<le> k" "user_ptr g (mem s) (P u) u k"
  using assms unfolding covers_def by blast

lemma covers_step:
  assumes c: "covers rt s L g P" and a: "tls_acc (rt_os rt) (s, g) A B (s', g')" "callable rt s' g'"
    and L': "L' = L |` {u. P u \<notin> A}"
  shows "covers rt s' L' g' P" "ledger_kept {u. P u \<in> A} s L s' L'"
proof -
  have cs: "callable rt s g" using c by (simp add: covers_def)
  note cd = callableD [OF cs]
  have k: "P u \<in> pieces g' s' \<and> user_ptr g' (mem s') (P u) u k \<and> (\<forall>i < k. byte_at (mem s') (u + i) = byte_at (mem s) (u + i))"
    if "P u \<in> pieces g s" "P u \<notin> A" "user_ptr g (mem s) (P u) u k" for u k
    using user_ptr_kept [OF cd(1,2) _ that(3) tls_accD(2) [OF a(1)]] bytes_kept [OF cd(1,2) _ that(3) tls_accD(2) [OF a(1)]] that(1,2) by blast
  show "covers rt s' L' g' P"
    using c a(2) k unfolding covers_def L' by (auto simp: restrict_map_def inj_on_def split: if_splits) blast+
  show "ledger_kept {u. P u \<in> A} s L s' L'"
    unfolding ledger_kept_def
  proof (intro allI impI)
    fix u n assume u: "L u = Some n \<and> u \<notin> {u. P u \<in> A}"
    then obtain j where "P u \<in> pieces g s" "n \<le> j" "user_ptr g (mem s) (P u) u j" using coversD [OF c, of u n] by auto
    then show "L' u = Some n \<and> (\<forall>i < n. byte_at (mem s') (u + i) = byte_at (mem s) (u + i))" using k [of u j] u by (simp add: L' restrict_map_def)
  qed
qed

lemma covers_grant:
  assumes c: "covers rt s L g P" and y: "y \<in> pieces g s" "y \<notin> P ` dom L" "user_ptr g (mem s) y v k" "0 < m" "m \<le> k"
  shows "covers rt s (L(v \<mapsto> m)) g (P(v := y))" "L v = None"
proof -
  have cd: "os_spec (rt_os rt)" "tls_ok (rt_os rt) s g" using c callableD(1,2) by (auto simp: covers_def)
  show n: "L v = None"
  proof (rule ccontr)
    assume "L v \<noteq> None"
    then obtain n where n: "L v = Some n" by blast
    then obtain j where j: "P v \<in> pieces g s" "0 < n" "n \<le> j" "user_ptr g (mem s) (P v) v j" by (rule coversD [OF c])
    have "P v \<noteq> y" using y(2) n by blast
    then have "piece_cells g (mem s) (P v) \<inter> piece_cells g (mem s) y = {}" by (rule pieces_disjoint [OF cd(2) j(1) y(1)])
    moreover have "v \<in> piece_cells g (mem s) (P v)" using user_ptr_facts(1) [OF cd j(1,4)] j(2,3) by auto
    moreover have "v \<in> piece_cells g (mem s) y" using user_ptr_facts(1) [OF cd y(1,3)] y(4,5) by auto
    ultimately show False by blast
  qed
  have "inj_on (P(v := y)) (dom (L(v \<mapsto> m)))"
  proof (rule inj_onI)
    fix a b assume ab: "a \<in> dom (L(v \<mapsto> m))" "b \<in> dom (L(v \<mapsto> m))" "(P(v := y)) a = (P(v := y)) b"
    have "inj_on P (dom L)" using c by (simp add: covers_def)
    then show "a = b" using ab y(2) n by (auto simp: inj_on_def split: if_splits)
  qed
  then show "covers rt s (L(v \<mapsto> m)) g (P(v := y))" using c y unfolding covers_def by (auto split: if_splits)
qed

lemma kept_here:
  assumes c: "covers rt s L g P" and a: "tls_acc (rt_os rt) (s, g) {} B (s', g')" "callable rt s' g'"
  shows "covers rt s' L g' P" "ledger_kept {} s L s' L"
  using covers_step [OF c a, of L] by (simp_all add: restrict_map_def)

lemma taken_away:
  assumes c: "covers rt s L g P" and u: "L u = Some n" and a: "tls_acc (rt_os rt) (s, g) {P u} B (s', g')" "callable rt s' g'"
  shows "covers rt s' (L(u := None)) g' P" "ledger_kept {u} s L s' (L(u := None))"
proof -
  have i: "P v = P u \<longleftrightarrow> v = u" if "L v = Some k" for v k using c u that by (auto simp: covers_def inj_on_def)
  have e: "L(u := None) = L |` {v. P v \<notin> {P u}}"
  proof
    fix v show "(L(u := None)) v = (L |` {v. P v \<notin> {P u}}) v" using i [of v] by (cases "L v") (auto simp: restrict_map_def)
  qed
  show "covers rt s' (L(u := None)) g' P" by (rule covers_step(1) [OF c a e])
  show "ledger_kept {u} s L s' (L(u := None))" using covers_step(2) [OF c a e] i unfolding ledger_kept_def by auto
qed

text \<open>After an allocation function, after a free, after a reallocation, after a write.\<close>

lemma alloc_covers:
  assumes c: "covers rt s L g P" and a: "allocated rt t s g n u s' g'"
  shows "ledger_ok rt s' (grant u n L) \<and> ledger_kept {} s L s' (grant u n L)" "u \<noteq> 0 \<Longrightarrow> L u = None"
proof -
  have "ledger_ok rt s' (grant u n L) \<and> ledger_kept {} s L s' (grant u n L) \<and> (u \<noteq> 0 \<longrightarrow> L u = None)"
  proof (cases "u = 0")
    case True
    then have "tls_acc (rt_os rt) (s, g) {} {} (s', g')" "callable rt s' g'" using a by (simp_all add: allocated_def)
    from kept_here [OF c this] show ?thesis using True by (auto simp: grant_def ledger_ok_def)
  next
    case False
    then obtain x k where x: "callable rt s' g'" "tls_acc (rt_os rt) (s, g) {} {x} (s', g')" "x \<notin> pieces g s" "user_ptr g' (mem s') x u k" "max 1 n \<le> k"
      using a unfolding allocated_def by auto
    note k = kept_here [OF c x(2,1)]
    have "x \<notin> P ` dom L" using c x(3) by (auto simp: covers_def)
    moreover have "x \<in> pieces g' s'" using tls_accD(3) [OF x(2)] by simp
    ultimately have v: "covers rt s' (L(u \<mapsto> max 1 n)) g' (P(u := x))" "L u = None" using covers_grant [OF k(1) _ _ x(4) _ x(5)] by auto
    then have "ledger_kept {} s L s' (L(u \<mapsto> max 1 n))" using k(2) unfolding ledger_kept_def by auto
    then show ?thesis using v False by (auto simp: grant_def ledger_ok_def)
  qed
  then show "ledger_ok rt s' (grant u n L) \<and> ledger_kept {} s L s' (grant u n L)" "u \<noteq> 0 \<Longrightarrow> L u = None" by blast+
qed

lemma realloc_covers:
  assumes c: "covers rt s L g P" and u: "L u = Some n" and new: "0 < new" and r: "reallocated rt t s g (P u) u k new v s' g'"
  shows "let L' = (if v = 0 then L else (L(u := None))(v \<mapsto> new))
    in ledger_ok rt s' L' \<and> ledger_kept (if v = 0 then {} else {u}) s L s' L' \<and> (v \<noteq> 0 \<longrightarrow> (L(u := None)) v = None)"
proof (cases "v = 0")
  case True
  then have "tls_acc (rt_os rt) (s, g) {} {} (s', g')" "callable rt s' g'" using r by (simp_all add: reallocated_def)
  from kept_here [OF c this] show ?thesis using True by (auto simp: ledger_ok_def ledger_kept_def)
next
  case False
  then obtain y l where y: "callable rt s' g'" "tls_acc (rt_os rt) (s, g) {P u} {y} (s', g')" "y = P u \<and> v = u \<or> y \<notin> pieces g s"
    "user_ptr g' (mem s') y v l" "new \<le> l" using r unfolding reallocated_def by auto
  note k = taken_away [OF c u y(2,1)]
  have "y \<notin> P ` dom (L(u := None))" using c u y(3) unfolding covers_def by (auto simp: inj_on_def)
  moreover have "y \<in> pieces g' s'" using tls_accD(3) [OF y(2)] by simp
  ultimately have v: "covers rt s' ((L(u := None))(v \<mapsto> new)) g' (P(v := y))" "(L(u := None)) v = None"
    using covers_grant [OF k(1) _ _ y(4) new y(5)] by auto
  then have "ledger_kept {u} s L s' ((L(u := None))(v \<mapsto> new))" using k(2) unfolding ledger_kept_def by auto
  then show ?thesis using v False by (auto simp: ledger_ok_def)
qed


lemma write_covers:
  assumes c: "covers rt s L g P" and u: "L u = Some n" "i < n"
  shows "ledger_ok rt (upd_mem (set_byte (u + i) b) s) L \<and> ledger_kept {u} s L (upd_mem (set_byte (u + i) b) s) L"
proof -
  let ?f = "set_byte (u + i) b"
  obtain k where k: "P u \<in> pieces g s" "0 < n" "n \<le> k" "user_ptr g (mem s) (P u) u k" by (rule coversD [OF c u(1)])
  have cs: "callable rt s g" using c by (simp add: covers_def)
  note cd = callableD [OF cs]
  note f = user_ptr_facts [OF cd(1,2) k(1,4)]
  have w: "?f (mem s) a = mem s a" if "a \<notin> {u..<u + k}" for a
  proof (rule set_byte_cell)
    have "u \<le> (u + i) - (u + i) mod 8" by (rule cell_in [OF cell_aligned [OF f(2)]]) simp
    then show "a \<noteq> (u + i) - (u + i) mod 8" using that u(2) k(3) by auto
  qed
  note o = write_user_ptr [where f = ?f, OF cd(1,2) k(1,4) w]
  have o1: "tls_op (rt_os rt) s g {P u} {P u} (upd_mem ?f s) g" "user_ptr g (mem (upd_mem ?f s)) (P u) u k" by (rule o; assumption)+
  note t = taken_away [OF c u(1) op_acc [OF o1(1)] callable_op [OF cs o1(1)]]
  have "P u \<notin> P ` dom (L(u := None))" using c u(1) unfolding covers_def by (auto simp: inj_on_def)
  moreover have "P u \<in> pieces g (upd_mem ?f s)" using tls_opD(6) [OF o1(1)] by simp
  ultimately have "covers rt (upd_mem ?f s) ((L(u := None))(u \<mapsto> n)) g (P(u := P u))"
    using covers_grant(1) [OF t(1) _ _ o1(2) k(2,3)] by blast
  moreover have "(L(u := None))(u \<mapsto> n) = L" using u(1) by (simp add: fun_upd_idem)
  ultimately show ?thesis using t(2) unfolding ledger_ok_def ledger_kept_def by auto
qed


lemma callable_key:
  assumes "callable rt s g" "tls_acc (rt_os rt) (s, g) A B (s', g')" "rt_key_create rt = 0"
  shows "callable rt s' g'"
  using assms tls_accD [OF assms(2)] by (simp add: callable_def)

lemma thread_exit_acc:
  fixes s :: "'a tls_state_scheme"
  assumes c: "callable rt s g" and t: "fast_path_cache s t \<noteq> 0" "\<not> shutting_down s"
  defines "s1 \<equiv> s\<lparr>tls_specific := (tls_specific s)(t := 0)\<rparr>"
  shows "\<exists>s' g'. TlsDestructor (rt_os rt) t (fast_path_cache s t) s1 = Some s' \<and> tls_acc (rt_os rt) (s, g) {} {} (s', g')"
proof -
  note cd = callableD [OF c]
  note ho = hub_okD [OF tls_openD(5) [OF cd(2)]]
  have tc: "thread_cache s1 q = thread_cache s q" for q using t(1) by (simp add: s1_def thread_cache_def)
  have a: "tls_acc (rt_os rt) (s, g) {} {} (s1, g)"
  proof (rule assign_thread [OF cd(2)])
    show "thread_cache s1 q \<in> gK g" if "thread_cache s1 q \<noteq> 0" for q using ho(6) [of q] that unfolding tc by blast
    show "tls_specific s1 q = thread_cache s1 q" if "tls_specific s1 q \<noteq> 0" for q
      using ho(7) [of q] that unfolding tc by (simp add: s1_def split: if_splits)
    show "q = q'" if "thread_cache s1 q \<noteq> 0" "thread_cache s1 q = thread_cache s1 q'" for q q'
      using ho(8) [of q q'] that unfolding tc by blast
  qed (simp_all add: s1_def)
  have f: "fast_path_cache s1 t = fast_path_cache s t" "tls_specific s1 t = 0" "\<not> shutting_down s1" "\<not> pool_lock_busy s1"
    using t(2) cd(4) by (simp_all add: s1_def)
  from TlsDestructor_acc [OF cd(1) tls_accD(1) [OF a] f(1) t(1) f(2-4)] show ?thesis using tls_acc_before [OF a] by blast
qed

lemma purge_acc:
  fixes s :: "'a api_state_scheme"
  assumes c: "callable rt s g"
  shows "\<exists>s' g'. fast_alloc_purge rt s = Some s' \<and> tls_op (rt_os rt) s g {} {} s' g'"
proof -
  note cd = callableD [OF c]
  obtain n s' V' where p: "PurgePageCache (rt_os rt) s = Some (n, s')" "accounts (rt_os rt) s (gV g) {} {} s' V'"
    using PurgePageCache_accounts [OF cd(1) tls_openD(1) [OF cd(2)] cd(5)] by blast
  have "tls_op (rt_os rt) s g (Block ` {}) (Block ` {}) s' (g\<lparr>gV := V'\<rparr>)"
    by (rule heap_op [OF cd(1,2) p(2)]) simp_all
  then show ?thesis using p(1) unfolding fast_alloc_purge_def by auto
qed

lemma purge_thread_acc:
  fixes s :: "'a api_state_scheme"
  assumes c: "callable rt s g" and r: "fast_alloc_purge_thread_cache rt t s = Some s'"
  shows "\<exists>g'. tls_acc (rt_os rt) (s, g) {} {} (s', g') \<and> callable rt s' g'"
proof (cases rule: get_cache [OF c, of t, case_names none some])
  case none
  then show ?thesis using r by (simp add: fast_alloc_purge_thread_cache_def)
next
  case (some k s1 g1)
  have k: "k \<in> gK g1" "tls_acc (rt_os rt) (s, g) {} {} (s1, g1)" using some(2) by (simp_all add: got_cache_def)
  obtain s2 g2 where "FlushToGlobalHeap (rt_os rt) k s1 = Some s2" and o: "tls_op (rt_os rt) s1 g1 {} {} s2 g2"
    using FlushToGlobalHeap_op [OF callableD(1,2) [OF some(3)] k(1)] by blast
  then have "s' = s2" using r some(1) by (simp add: fast_alloc_purge_thread_cache_def)
  then show ?thesis using tls_acc_before [OF k(2) op_acc [OF o]] callable_op [OF some(3) o] by blast
qed

lemma free_covers:
  fixes s :: "'a api_state_scheme"
  assumes c: "covers rt s L g P" and u: "L u = Some n" and r: "fast_free rt t u s = Some s'"
  shows "ledger_ok rt s' (L(u := None)) \<and> ledger_kept {u} s L s' (L(u := None))"
proof -
  obtain k where k: "P u \<in> pieces g s" "user_ptr g (mem s) (P u) u k" by (rule coversD [OF c u])
  have cs: "callable rt s g" using c by (simp add: covers_def)
  obtain g' where "given_back rt t s g (P u) s' g'"
    by (rule fast_free_user [OF cs k, of t]) (use r in auto)
  then show ?thesis using taken_away [OF c u] unfolding given_back_def ledger_ok_def by blast
qed

text \<open>
  A pointer the ledger holds that is not over-aligned is the start of its piece: the conditions on the
  header a caller of \<^verbatim>\<open>fast_realloc\<close> has to meet follow from what the header says.
\<close>

lemma admissible_realloc:
  fixes s :: "'a api_state_scheme"
  assumes cs: "callable rt s g" and x: "x \<in> pieces g s" "user_ptr g (mem s) x u k" and a: "realloc_admissible rt t u new s"
  shows "(\<exists>v s' g'. fast_realloc rt t u new s = Some (v, s') \<and> reallocated rt t s g x u k new v s' g')
     \<or> fast_realloc rt t u new s = None \<and> no_cache rt t s"
proof (rule fast_realloc_got [OF cs x])
  have r: "0 < new" "new < 2 ^ 64" "fb_slab (mem s) (u - 16) = 0 \<Longrightarrow> new + 16 + GetPageSize (rt_os rt) \<le> 2 ^ 64"
    using a by (simp_all add: realloc_admissible_def)
  show "0 < new" "new < 2 ^ 64" by (rule r)+
  show "\<forall>p. x = Span p \<and> u = p + 16 \<longrightarrow> new + 16 + GetPageSize (rt_os rt) \<le> 2 ^ 64"
  proof (intro allI impI)
    fix p assume p: "x = Span p \<and> u = p + 16"
    have "owns g (mem s) x u k"
    proof (rule ccontr)
      assume "\<not> owns g (mem s) x u k"
      then obtain raw l al where "aligned_at g (mem s) x raw l u k al" using x(2) by (auto simp: user_ptr_def)
      then show False using p by (auto simp: aligned_at_def)
    qed
    then have "fb_slab (mem s) (u - 16) = 0" using p by (simp add: large_header_def)
    then show "new + 16 + GetPageSize (rt_os rt) \<le> 2 ^ 64" using r(3) p by simp
  qed
qed


section \<open>Every call keeps the ledger\<close>

lemma fast_calloc_got:
  fixes s :: "'a api_state_scheme"
  assumes c: "callable rt s g" and n: "k < 2 ^ 64" "n < 2 ^ 64" and r: "fast_calloc rt t k n s = Some (u, s')"
  shows "\<exists>g'. allocated rt t s g (k * n) u s' g'"
proof (cases "2 ^ 64 \<le> k * n")
  case True
  then have "u = 0" "s' = s" using fast_calloc_cases [OF c n, of t] r by auto
  then show ?thesis using refused_allocated [OF c] by blast
next
  case False
  then show ?thesis using fast_calloc_cases [OF c n, of t] r by auto
qed

lemma exec_call_covers:
  fixes s :: "'a api_state_scheme"
  assumes key: "rt_key_create rt = 0" and c: "covers rt s L g P" and r: "exec_call rt e s L = Some (s', L')"
  shows "ledger_ok rt s' L' \<and> ledger_kept (touches e) s L s' L'"
proof -
  have cs: "callable rt s g" using c by (simp add: covers_def)
  have keep: "ledger_ok rt s' L \<and> ledger_kept {} s L s' L" if "tls_acc (rt_os rt) (s, g) {} {} (s', g')" "callable rt s' g'" for s' :: "'a api_state_scheme" and g'
    using kept_here [OF c that] by (auto simp: ledger_ok_def)
  show ?thesis
  proof (cases e)
    case (Malloc t n)
    then obtain u where u: "n < 2 ^ 64" "fast_malloc rt t n s = Some (u, s')" "L' = grant u n L" using r by (auto split: if_splits)
    obtain g' where "got_user rt t n s g u s' g'" by (rule fast_malloc_got [OF cs u(1), of t]) (use u(2) in auto)
    from alloc_covers [OF c got_allocated [OF this]] show ?thesis using u(3) Malloc by simp
  next
    case (Calloc t k n)
    then obtain u where u: "k < 2 ^ 64" "n < 2 ^ 64" "fast_calloc rt t k n s = Some (u, s')" "L' = grant u (k * n) L" using r by (auto split: if_splits)
    obtain g' where "allocated rt t s g (k * n) u s' g'" using fast_calloc_got [OF cs u(1-3)] by blast
    from alloc_covers [OF c this] show ?thesis using u(4) Calloc by simp
  next
    case (AlignedAlloc t k n)
    then obtain u where u: "k \<le> 12" "n < 2 ^ 64" "fast_aligned_alloc rt t (2 ^ k) n s = Some (u, s')" "L' = grant u n L" using r by (auto split: if_splits)
    obtain g' where "allocated rt t s g n u s' g'" by (rule fast_aligned_alloc_got [OF cs u(2,1), of t]) (use u(3) in auto)
    from alloc_covers [OF c this] show ?thesis using u(4) AlignedAlloc by simp
  next
    case (Free t u)
    then obtain n where n: "L u = Some n" "fast_free rt t u s = Some s'" "L' = L(u := None)" using r by (auto split: if_splits)
    from free_covers [OF c n(1,2)] show ?thesis using n(3) Free by simp
  next
    case (FreeSized t u sz)
    then obtain n where n: "L u = Some n" "fast_free_sized rt t u sz s = Some s'" "L' = L(u := None)" using r by (auto split: if_splits)
    obtain k where k: "P u \<in> pieces g s" "user_ptr g (mem s) (P u) u k" by (rule coversD [OF c n(1)])
    have "fast_free rt t u s = Some s'" using n(2) free_sized_run [OF cs k] by simp
    from free_covers [OF c n(1) this] show ?thesis using n(3) FreeSized by simp
  next
    case (ReallocTo t u new)
    then obtain n v where n: "L u = Some n" "realloc_admissible rt t u new s" "fast_realloc rt t u new s = Some (v, s')"
      "L' = (if v = 0 then L else (L(u := None))(v \<mapsto> new))" using r by (auto split: if_splits)
    obtain k where k: "P u \<in> pieces g s" "user_ptr g (mem s) (P u) u k" by (rule coversD [OF c n(1)])
    obtain g' where "reallocated rt t s g (P u) u k new v s' g'" using admissible_realloc [OF cs k n(2)] n(3) by auto
    from realloc_covers [OF c n(1) _ this] have "ledger_ok rt s' L' \<and> ledger_kept (if v = 0 then {} else {u}) s L s' L'"
      using n(2,4) by (simp add: Let_def realloc_admissible_def)
    then show ?thesis using ReallocTo unfolding ledger_kept_def by (auto split: if_splits)
  next
    case (WriteByte u i b)
    then obtain n where "L u = Some n" "i < n" "s' = upd_mem (set_byte (u + i) b) s" "L' = L" using r by (auto split: option.splits if_splits)
    then show ?thesis using write_covers [OF c] WriteByte by simp
  next
    case (PurgeThread t)
    then have n: "fast_alloc_purge_thread_cache rt t s = Some s'" "L' = L" using r by auto
    from purge_thread_acc [OF cs n(1)] show ?thesis using keep n(2) PurgeThread by auto
  next
    case PurgeAll
    then have n: "fast_alloc_purge rt s = Some s'" "L' = L" using r by auto
    obtain g' where "tls_op (rt_os rt) s g {} {} s' g'" using purge_acc [OF cs] n(1) by auto
    from keep [OF op_acc [OF this] callable_op [OF cs this]] show ?thesis using n(2) PurgeAll by simp
  next
    case (ThreadExit t)
    then have n: "fast_path_cache s t \<noteq> 0" "\<not> shutting_down s" "L' = L"
      "TlsDestructor (rt_os rt) t (fast_path_cache s t) (s\<lparr>tls_specific := (tls_specific s)(t := 0)\<rparr>) = Some s'" using r by (auto split: if_splits)
    obtain g' where "tls_acc (rt_os rt) (s, g) {} {} (s', g')" using thread_exit_acc [OF cs n(1,2)] n(4) by auto
    from keep [OF this callable_key [OF cs this key]] show ?thesis using n(3) ThreadExit by simp
  qed
qed


text \<open>
  The process as an instance of the accounting interface: units are live pointers, a step is a call,
  and the contents are bytes. A run of calls is a run of the interface.
\<close>

definition call_step :: "rt_api \<Rightarrow> 'a api_state_scheme \<times> ledger \<Rightarrow> addr set \<Rightarrow> addr set \<Rightarrow> 'a api_state_scheme \<times> ledger \<Rightarrow> bool" where
  "call_step rt x gone come y \<longleftrightarrow> rt_key_create rt = 0 \<and> ledger_ok rt (fst x) (snd x)
     \<and> (\<exists>e. exec_call rt e (fst x) (snd x) = Some y \<and> gone = touches e \<and> come = dom (snd y) - (dom (snd x) - gone))"

lemma ledger_disjoint:
  assumes "ledger_ok rt s L" "L u = Some n" "L v = Some m" "u \<noteq> v"
  shows "{u..<u + n} \<inter> {v..<v + m} = {}"
proof -
  obtain g P where c: "covers rt s L g P" using assms(1) by (auto simp: ledger_ok_def)
  then have cd: "os_spec (rt_os rt)" "tls_ok (rt_os rt) s g" using callableD(1,2) by (auto simp: covers_def)
  obtain k where k: "P u \<in> pieces g s" "n \<le> k" "user_ptr g (mem s) (P u) u k" by (rule coversD [OF c assms(2)])
  obtain l where l: "P v \<in> pieces g s" "m \<le> l" "user_ptr g (mem s) (P v) v l" by (rule coversD [OF c assms(3)])
  have "P u \<noteq> P v" using c assms(2-4) by (auto simp: covers_def inj_on_def)
  then have "piece_cells g (mem s) (P u) \<inter> piece_cells g (mem s) (P v) = {}" by (rule pieces_disjoint [OF cd(2) k(1) l(1)])
  moreover have "{u..<u + n} \<subseteq> piece_cells g (mem s) (P u)" using user_ptr_facts(1) [OF cd k(1,3)] k(2) by fastforce
  moreover have "{v..<v + m} \<subseteq> piece_cells g (mem s) (P v)" using user_ptr_facts(1) [OF cd l(1,3)] l(2) by fastforce
  ultimately show ?thesis by blast
qed

lemma call_step_kept:
  assumes "call_step rt x gone come y"
  shows "ledger_ok rt (fst y) (snd y)" "ledger_kept gone (fst x) (snd x) (fst y) (snd y)" "come = dom (snd y) - (dom (snd x) - gone)"
proof -
  obtain e g P where e: "rt_key_create rt = 0" "covers rt (fst x) (snd x) g P" "exec_call rt e (fst x) (snd x) = Some (fst y, snd y)" "gone = touches e"
    using assms by (auto simp: call_step_def ledger_ok_def)
  show "ledger_ok rt (fst y) (snd y)" "ledger_kept gone (fst x) (snd x) (fst y) (snd y)" using exec_call_covers [OF e(1-3)] e(4) by simp_all
  show "come = dom (snd y) - (dom (snd x) - gone)" using assms by (auto simp: call_step_def)
qed

interpretation user: accounting "\<lambda>x. ledger_ok rt (fst x) (snd x)" "\<lambda>x. dom (snd x)" "\<lambda>x u. {u..<u + the (snd x u)}"
  "\<lambda>x. byte_at (mem (fst x))" "call_step rt"
  for rt :: rt_api
proof
  fix x :: "'a api_state_scheme \<times> ledger" and u v
  assume "ledger_ok rt (fst x) (snd x)" "u \<in> dom (snd x)" "v \<in> dom (snd x)" "u \<noteq> v"
  then show "{u..<u + the (snd x u)} \<inter> {v..<v + the (snd x v)} = {}" using ledger_disjoint [of rt "fst x" "snd x" u _ v] by auto
next
  fix x y :: "'a api_state_scheme \<times> ledger" and gone come u
  assume st: "call_step rt x gone come y"
  note k = call_step_kept [OF st]
  show "ledger_ok rt (fst y) (snd y)" by (rule k(1))
  have "dom (snd x) - gone \<subseteq> dom (snd y)" using k(2) by (auto simp: ledger_kept_def)
  then show "dom (snd y) = dom (snd x) - gone \<union> come" using k(3) by blast
  assume u: "u \<in> dom (snd x) - gone"
  then obtain n where n: "snd x u = Some n" by blast
  then have "snd y u = Some n" "\<forall>i < n. byte_at (mem (fst y)) (u + i) = byte_at (mem (fst x)) (u + i)" using k(2) u by (auto simp: ledger_kept_def)
  moreover have "byte_at (mem (fst y)) a = byte_at (mem (fst x)) a" if "a \<in> {u..<u + n}" for a
    using calculation(2) that by (auto dest: spec [of _ "a - u"])
  ultimately show "{u..<u + the (snd y u)} = {u..<u + the (snd x u)} \<and> (\<forall>a \<in> {u..<u + the (snd x u)}. byte_at (mem (fst y)) a = byte_at (mem (fst x)) a)"
    using n by simp
qed

lemma exec_run_acc:
  assumes "rt_key_create rt = 0" "ledger_ok rt s L" "exec_run rt es s L = Some (s', L')"
  shows "\<exists>h. acc_run (call_step rt) (s, L) h (s', L') \<and> \<Union> (fst ` set h) = \<Union> (touches ` set es)"
  using assms(2,3)
proof (induction es arbitrary: s L)
  case Nil
  then show ?case by (intro exI [of _ "[]"]) simp
next
  case (Cons e es)
  then obtain s1 L1 where e: "exec_call rt e s L = Some (s1, L1)" "exec_run rt es s1 L1 = Some (s', L')" by (auto split: option.splits)
  let ?come = "dom L1 - (dom L - touches e)"
  have st: "call_step rt (s, L) (touches e) ?come (s1, L1)" unfolding call_step_def fst_conv snd_conv
    by (intro conjI exI [of _ e] assms(1) Cons.prems(1) e(1) refl)
  have "ledger_ok rt s1 L1" using call_step_kept(1) [OF st] by simp
  from Cons.IH [OF this e(2)] obtain h where "acc_run (call_step rt) (s1, L1) h (s', L')" "\<Union> (fst ` set h) = \<Union> (touches ` set es)" by blast
  then show ?case by (intro exI [of _ "(touches e, ?come) # h"] conjI acc_run_step [where step = "call_step rt", OF st]) simp_all
qed

text \<open>
  C1: whatever sequence of calls the threads of a process make (allocation of every kind, free, sized
  free, admissible reallocation, user writes, purges, thread exits, in any order), as long as they
  free, reallocate and write only what they hold: at every moment the live allocations are pairwise
  disjoint, and an allocation that no call of the run freed, reallocated or wrote still holds its bytes
  unchanged; and the allocator is in a valid state again.
\<close>

theorem process_keeps_allocations:
  fixes s :: "'a api_state_scheme"
  assumes "rt_key_create rt = 0" "ledger_ok rt s L" "exec_run rt es s L = Some (s', L')"
  shows "ledger_ok rt s' L'
    \<and> (\<forall>u v n m. L' u = Some n \<and> L' v = Some m \<and> u \<noteq> v \<longrightarrow> {u..<u + n} \<inter> {v..<v + m} = {})
    \<and> (\<forall>u n. L u = Some n \<and> (\<forall>e \<in> set es. u \<notin> touches e) \<longrightarrow> L' u = Some n
        \<and> (\<forall>i < n. byte_at (mem s') (u + i) = byte_at (mem s) (u + i)))"
proof -
  obtain h where h: "acc_run (call_step rt) (s, L) h (s', L')" "\<Union> (fst ` set h) = \<Union> (touches ` set es)" using exec_run_acc [OF assms] by blast
  have ok: "ledger_ok rt s' L'" using user.run_inv [OF h(1)] assms(2) by simp
  have "L' u = Some n \<and> (\<forall>i < n. byte_at (mem s') (u + i) = byte_at (mem s) (u + i))" if "L u = Some n" "\<forall>e \<in> set es. u \<notin> touches e" for u n
  proof -
    have k: "u \<in> dom L'" "{u..<u + the (L' u)} = {u..<u + n}" "\<forall>a \<in> {u..<u + n}. byte_at (mem s') a = byte_at (mem s) a"
    proof -
      have "u \<notin> gone" if "(gone, come) \<in> set h" for gone come using h(2) that \<open>\<forall>e \<in> set es. u \<notin> touches e\<close> by force
      note keep = user.run_keep [OF h(1), of u]
      have "u \<in> dom (snd (s', L')) \<and> {u..<u + the (snd (s', L') u)} = {u..<u + the (snd (s, L) u)}
          \<and> (\<forall>a \<in> {u..<u + the (snd (s, L) u)}. byte_at (mem (fst (s', L'))) a = byte_at (mem (fst (s, L))) a)"
        by (rule keep) (use \<open>L u = Some n\<close> \<open>\<And>come gone. (gone, come) \<in> set h \<Longrightarrow> u \<notin> gone\<close> in auto)
      then show "u \<in> dom L'" "{u..<u + the (L' u)} = {u..<u + n}" "\<forall>a \<in> {u..<u + n}. byte_at (mem s') a = byte_at (mem s) a" using that(1) by simp_all
    qed
    have "card {u..<u + the (L' u)} = card {u..<u + n}" unfolding k(2) ..
    then show ?thesis using k(1,3) by auto
  qed
  then show ?thesis using ok ledger_disjoint [OF ok] by blast
qed


theorem process_keeps_allocations_witness:
  "\<exists>u s1 s2. exec_run demo_rt [Malloc 0 40] api_start Map.empty = Some (s1, [u \<mapsto> 40]) \<and> exec_run demo_rt [PurgeAll] s1 [u \<mapsto> 40] = Some (s2, [u \<mapsto> 40])
     \<and> byte_at (mem s2) (u + 39) = byte_at (mem s1) (u + 39) \<and> ledger_ok demo_rt s2 [u \<mapsto> 40]"
proof -
  have start: "ledger_ok demo_rt api_start Map.empty" using api_start_callable by (auto simp: ledger_ok_def covers_def)
  obtain u s1 where m: "fast_malloc demo_rt 0 40 api_start = Some (u, s1)" "u \<noteq> 0" by (rule demo_malloc)
  then have r1: "exec_run demo_rt [Malloc 0 40] api_start Map.empty = Some (s1, [u \<mapsto> 40])" by (simp add: grant_def)
  have ok: "ledger_ok demo_rt s1 [u \<mapsto> 40]" using process_keeps_allocations [OF _ start r1] by simp
  then obtain g1 where "callable demo_rt s1 g1" by (auto simp: ledger_ok_def covers_def)
  then obtain s2 where "fast_alloc_purge demo_rt s1 = Some s2" using purge_acc by blast
  then have r2: "exec_run demo_rt [PurgeAll] s1 [u \<mapsto> 40] = Some (s2, [u \<mapsto> 40])" by simp
  have "ledger_ok demo_rt s2 [u \<mapsto> 40]" "\<forall>i < 40. byte_at (mem s2) (u + i) = byte_at (mem s1) (u + i)"
    using process_keeps_allocations [OF _ ok r2] by simp_all
  then show ?thesis using r1 r2 by (intro exI [of _ u] exI [of _ s1] exI [of _ s2]) simp
qed


section \<open>Calls return\<close>

text \<open>A call that uses the interface as it is meant to be used, and the thread that makes it.\<close>

fun proper_call :: "rt_api \<Rightarrow> api_call \<Rightarrow> 'a api_state_scheme \<Rightarrow> ledger \<Rightarrow> bool" where
  "proper_call rt (Malloc t n) s L \<longleftrightarrow> n < 2 ^ 64"
| "proper_call rt (Calloc t k n) s L \<longleftrightarrow> k < 2 ^ 64 \<and> n < 2 ^ 64"
| "proper_call rt (AlignedAlloc t k n) s L \<longleftrightarrow> k \<le> 12 \<and> n < 2 ^ 64"
| "proper_call rt (Free t u) s L \<longleftrightarrow> u \<in> dom L"
| "proper_call rt (FreeSized t u n) s L \<longleftrightarrow> u \<in> dom L"
| "proper_call rt (ReallocTo t u new) s L \<longleftrightarrow> u \<in> dom L \<and> realloc_admissible rt t u new s"
| "proper_call rt (WriteByte u i b) s L \<longleftrightarrow> (case L u of None \<Rightarrow> False | Some n \<Rightarrow> i < n)"
| "proper_call rt (PurgeThread t) s L \<longleftrightarrow> True"
| "proper_call rt PurgeAll s L \<longleftrightarrow> True"
| "proper_call rt (ThreadExit t) s L \<longleftrightarrow> fast_path_cache s t \<noteq> 0 \<and> \<not> shutting_down s"

fun caller :: "api_call \<Rightarrow> nat option" where
  "caller (Malloc t n) = Some t"
| "caller (Calloc t k n) = Some t"
| "caller (AlignedAlloc t k n) = Some t"
| "caller (Free t u) = Some t"
| "caller (FreeSized t u n) = Some t"
| "caller (ReallocTo t u n) = Some t"
| "caller (PurgeThread t) = Some t"
| "caller _ = None"

lemma purge_thread_returns:
  fixes s :: "'a api_state_scheme"
  assumes c: "callable rt s g"
  shows "(\<exists>s'. fast_alloc_purge_thread_cache rt t s = Some s') \<or> no_cache rt t s"
proof (cases rule: get_cache [OF c, of t, case_names none some])
  case (some k s1 g1)
  have "k \<in> gK g1" using some(2) by (simp add: got_cache_def)
  then obtain s2 where "FlushToGlobalHeap (rt_os rt) k s1 = Some s2"
    using FlushToGlobalHeap_op [OF callableD(1,2) [OF some(3)]] by blast
  then show ?thesis using some(1) by (simp add: fast_alloc_purge_thread_cache_def)
qed simp

lemma free_returns:
  fixes s :: "'a api_state_scheme"
  assumes c: "covers rt s L g P" and u: "u \<in> dom L"
  shows "(\<exists>s'. fast_free rt t u s = Some s') \<or> no_cache rt t s" "fast_free_sized rt t u sz s = fast_free rt t u s"
proof -
  have cs: "callable rt s g" using c by (simp add: covers_def)
  obtain k where k: "P u \<in> pieces g s" "user_ptr g (mem s) (P u) u k" using u by (auto intro: coversD [OF c])
  show "(\<exists>s'. fast_free rt t u s = Some s') \<or> no_cache rt t s" by (rule fast_free_user [OF cs k, of t]) auto
  show "fast_free_sized rt t u sz s = fast_free rt t u s" by (rule free_sized_run [OF cs k])
qed

text \<open>
  C2: no proper call hangs or gets stuck. In every state a run can be in, a call that uses the interface
  as meant returns, unless its thread has no cache yet and neither a pooled cache nor pages for a new one
  are to be had (the process then aborts).
\<close>

theorem process_calls_return:
  fixes s :: "'a api_state_scheme"
  assumes "ledger_ok rt s L" "proper_call rt e s L"
  shows "(\<exists>s' L'. exec_call rt e s L = Some (s', L')) \<or> (\<exists>t. caller e = Some t \<and> no_cache rt t s)"
proof -
  obtain g P where c: "covers rt s L g P" using assms(1) by (auto simp: ledger_ok_def)
  then have cs: "callable rt s g" by (simp add: covers_def)
  show ?thesis
  proof (cases e)
    case (Malloc t n)
    then have n: "n < 2 ^ 64" using assms(2) by simp
    show ?thesis by (rule fast_malloc_got [OF cs n, of t]) (use Malloc n in auto)
  next
    case (Calloc t k n)
    then show ?thesis using fast_calloc_cases [OF cs, of k n t] assms(2) by (auto split: if_splits)
  next
    case (AlignedAlloc t k n)
    then have n: "n < 2 ^ 64" "k \<le> 12" using assms(2) by simp_all
    show ?thesis by (rule fast_aligned_alloc_got [OF cs n, of t]) (use AlignedAlloc n in auto)
  next
    case (Free t u)
    then show ?thesis using free_returns(1) [OF c, of u t] assms(2) by auto
  next
    case (FreeSized t u n)
    then show ?thesis using free_returns [OF c, of u t] assms(2) by auto
  next
    case (ReallocTo t u new)
    then have u: "u \<in> dom L" "realloc_admissible rt t u new s" using assms(2) by simp_all
    then obtain k where "P u \<in> pieces g s" "user_ptr g (mem s) (P u) u k" by (auto intro: coversD [OF c])
    from admissible_realloc [OF cs this u(2)] show ?thesis using ReallocTo u by auto
  next
    case (WriteByte u i b)
    then show ?thesis using assms(2) by (auto split: option.splits)
  next
    case (PurgeThread t)
    then show ?thesis using purge_thread_returns [OF cs, of t] by auto
  next
    case PurgeAll
    then show ?thesis using purge_acc [OF cs] by auto
  next
    case (ThreadExit t)
    then show ?thesis using thread_exit_acc [OF cs, of t] assms(2) by auto
  qed
qed

theorem process_calls_return_witness:
  "\<exists>u s1 s2. exec_run demo_rt [Malloc 0 40] api_start Map.empty = Some (s1, [u \<mapsto> 40]) \<and> exec_call demo_rt (Free 0 u) s1 [u \<mapsto> 40] = Some (s2, Map.empty)"
proof -
  obtain u s1 g1 x n where d: "fast_malloc demo_rt 0 40 api_start = Some (u, s1)" "callable demo_rt s1 g1" "x \<in> pieces g1 s1"
    "user_ptr g1 (mem s1) x u n" "\<not> no_cache demo_rt 0 s1" by (rule demo_owned)
  obtain v s2 where m: "fast_malloc demo_rt 0 40 api_start = Some (v, s2)" "v \<noteq> 0" by (rule demo_malloc)
  then have r: "exec_run demo_rt [Malloc 0 40] api_start Map.empty = Some (s1, [u \<mapsto> 40])" using d(1) by (simp add: grant_def)
  have c: "covers demo_rt api_start Map.empty ghost_init (\<lambda>_. Block 0)" using api_start_callable by (simp add: covers_def)
  have e: "exec_call demo_rt (Malloc 0 40) api_start Map.empty = Some (s1, [u \<mapsto> 40])" using d(1) m by (simp add: grant_def)
  have ok: "ledger_ok demo_rt s1 [u \<mapsto> 40]" using exec_call_covers [OF _ c e] by simp
  have "\<exists>s2 L2. exec_call demo_rt (Free 0 u) s1 [u \<mapsto> 40] = Some (s2, L2)" using process_calls_return [OF ok, of "Free 0 u"] d(5) by simp
  then show ?thesis using r by (auto simp: fun_upd_idem)
qed

end
