(* ===== verification/FA_Fuzz.thy ===== *)
theory FA_Fuzz
  imports FA_Process "HOL-Library.AList"
begin

text \<open>
  The fuzzing harness of \<^verbatim>\<open>fuzz/fuzz_core.h\<close>, \<^verbatim>\<open>fuzz_ops_libfuzzer.cpp\<close> and \<^verbatim>\<open>fuzz_standalone.cpp\<close>: the
  byte-program interpreter, its shadow model of the live allocations, and the invariants it checks after
  each step. The harness is a client of the public functions; its theorem composes the whole development:
  run on the model of the allocator, no program makes it report a violation.

  The hash table of the shadow model is an association list with distinct keys (the order in which the
  source iterates over it is not relied on), a report is the message the source prints before it returns
  false, and \<open>None\<close> is the abort of a thread that can get no cache.
\<close>

section \<open>The shadow model\<close>

record rec =
  rec_size :: nat
  rec_seed :: nat
  rec_fill :: nat

record shadow =
  live :: "(addr \<times> rec) list"
  total_ops :: nat

definition Shadow_insert :: "addr \<Rightarrow> nat \<Rightarrow> nat \<Rightarrow> shadow \<Rightarrow> bool \<times> shadow" where
  "Shadow_insert p sz marker sh =
     (if p = 0 then (False, sh)
      else if map_of (live sh) p \<noteq> None then (False, sh)
      else if p AND 15 \<noteq> 0 then (False, sh)
      else (True, sh\<lparr>live := AList.update p \<lparr>rec_size = sz, rec_seed = total_ops sh, rec_fill = marker\<rparr> (live sh)\<rparr>))"

definition Shadow_erase :: "addr \<Rightarrow> shadow \<Rightarrow> bool \<times> shadow" where
  "Shadow_erase p sh = (map_of (live sh) p \<noteq> None, sh\<lparr>live := AList.delete p (live sh)\<rparr>)"

definition check_marker :: "addr \<Rightarrow> shadow \<Rightarrow> mem \<Rightarrow> bool" where
  "check_marker p sh m = (case map_of (live sh) p of None \<Rightarrow> False | Some r \<Rightarrow> byte_at m p = rec_fill r)"

definition bytes_live :: "shadow \<Rightarrow> nat" where
  "bytes_live sh = foldl (\<lambda>s kv. add64 s (rec_size (snd kv))) 0 (live sh)"

record fuzz_stats =
  st_allocs :: nat
  st_allocs_large :: nat
  st_aligned :: nat
  st_callocs :: nat
  st_reallocs :: nat
  st_frees :: nat
  st_cross_frees :: nat
  st_churn :: nat

section \<open>The interpreter\<close>

datatype fuzz_report =
    Alias_Align_Alloc | Alias_Align_Large | Align_Violated | Alias_Aligned | Marker_Destroyed | Free_Unknown
  | Realloc_Disturbed | Realloc_Misaligned | Realloc_Aliased | Alias_Realloc | Calloc_Not_Zeroed | Alias_Calloc
  | Marker_Destroyed_Sized | Marker_Destroyed_End

record 'a fuzz =
  fz_shadow :: shadow
  fz_stats :: fuzz_stats
  fz_order :: "addr list"
  fz_heap :: "'a api_state_scheme"

type_synonym 'a fuzz_result = "(fuzz_report + 'a fuzz) option"

text \<open>\<^verbatim>\<open>if (!shadow.insert(...)) report; order.push_back(p); st.x++\<close>, as every allocating case ends.\<close>

definition keep_block :: "fuzz_report \<Rightarrow> addr \<Rightarrow> nat \<Rightarrow> nat \<Rightarrow> (fuzz_stats \<Rightarrow> fuzz_stats) \<Rightarrow> 'a fuzz \<Rightarrow> fuzz_report + 'a fuzz" where
  "keep_block v p sz m count f =
     (let (ok, sh) = Shadow_insert p sz m (fz_shadow f)
      in if \<not> ok then Inl v
         else Inr (f\<lparr>fz_shadow := sh, fz_order := fz_order f @ [p], fz_stats := count (fz_stats f)\<rparr>))"

definition write_byte :: "addr \<Rightarrow> nat \<Rightarrow> 'a fuzz \<Rightarrow> 'a fuzz" where
  "write_byte a v f = f\<lparr>fz_heap := upd_mem (set_byte a v) (fz_heap f)\<rparr>"

definition op_alloc :: "rt_api \<Rightarrow> nat \<Rightarrow> nat \<Rightarrow> 'a fuzz \<Rightarrow> 'a fuzz_result" where
  "op_alloc rt t arg f =
     (let sz = 1 + arg * 67
      in do { (p, s) \<leftarrow> fast_malloc rt t sz (fz_heap f);
              let f = f\<lparr>fz_heap := s\<rparr> in
              if p \<noteq> 0 then
                let m = 0x40 OR (arg AND 0x3F); f = write_byte p m f
                in Some (keep_block Alias_Align_Alloc p sz m (\<lambda>st. st\<lparr>st_allocs := add64 (st_allocs st) 1\<rparr>) f)
              else Some (Inr f) })"

definition op_alloc_large :: "rt_api \<Rightarrow> nat \<Rightarrow> nat \<Rightarrow> 'a fuzz \<Rightarrow> 'a fuzz_result" where
  "op_alloc_large rt t arg f =
     (let sz = 8177 + arg * 16000
      in do { (p, s) \<leftarrow> fast_malloc rt t sz (fz_heap f);
              let f = f\<lparr>fz_heap := s\<rparr> in
              if p \<noteq> 0 then
                let m = 0x80 OR (arg AND 0x7F); f = write_byte p m f; f = write_byte (p + (sz - 1)) m f
                in Some (keep_block Alias_Align_Large p sz m (\<lambda>st. st\<lparr>st_allocs_large := add64 (st_allocs_large st) 1\<rparr>) f)
              else Some (Inr f) })"

definition op_alloc_aligned :: "rt_api \<Rightarrow> nat \<Rightarrow> nat \<Rightarrow> 'a fuzz \<Rightarrow> 'a fuzz_result" where
  "op_alloc_aligned rt t arg f =
     (let al = push_bit (arg mod 9) 16; sz = 1 + arg * 97; count = (\<lambda>st. st\<lparr>st_aligned := add64 (st_aligned st) 1\<rparr>)
      in do { (p, s) \<leftarrow> fast_aligned_alloc rt t al sz (fz_heap f);
              let f = f\<lparr>fz_heap := s\<rparr> in
              if p \<noteq> 0 then
                if p AND (al - 1) \<noteq> 0 then Some (Inl Align_Violated)
                else let m = 0xC0 OR (arg AND 0x3F); f = write_byte p m f
                     in Some (keep_block Alias_Aligned p sz m count f)
              else if al \<ge> 4096 \<and> sz > 0 then Some (Inr (f\<lparr>fz_stats := count (fz_stats f)\<rparr>))
              else Some (Inr f) })"

text \<open>\<^verbatim>\<open>order.erase(order.begin() + idx)\<close>.\<close>

definition erase_at :: "nat \<Rightarrow> 'b list \<Rightarrow> 'b list" where
  "erase_at i xs = take i xs @ drop (i + 1) xs"

definition op_free :: "rt_api \<Rightarrow> nat \<Rightarrow> nat \<Rightarrow> 'a fuzz \<Rightarrow> 'a fuzz_result" where
  "op_free rt t arg f =
     (if fz_order f = [] then Some (Inr f)
      else let idx = arg mod length (fz_order f); p = fz_order f ! idx
           in if \<not> check_marker p (fz_shadow f) (mem (fz_heap f)) then Some (Inl Marker_Destroyed)
              else let (ok, sh) = Shadow_erase p (fz_shadow f); f = f\<lparr>fz_shadow := sh\<rparr>
                   in if \<not> ok then Some (Inl Free_Unknown)
                      else do { s \<leftarrow> fast_free rt t p (fz_heap f);
                                Some (Inr (f\<lparr>fz_heap := s, fz_order := erase_at idx (fz_order f),
                                  fz_stats := (fz_stats f)\<lparr>st_frees := add64 (st_frees (fz_stats f)) 1\<rparr>\<rparr>)) })"

fun replace_first :: "addr \<Rightarrow> addr \<Rightarrow> addr list \<Rightarrow> addr list" where
  "replace_first p q [] = []"
| "replace_first p q (x # xs) = (if x = p then q # xs else x # replace_first p q xs)"

definition op_realloc :: "rt_api \<Rightarrow> nat \<Rightarrow> nat \<Rightarrow> 'a fuzz \<Rightarrow> 'a fuzz_result" where
  "op_realloc rt t arg f =
     (if fz_order f = [] then Some (Inr f)
      else let idx = arg mod length (fz_order f); p = fz_order f ! idx; ns = 1 + arg * 131;
               count = (\<lambda>st. st\<lparr>st_reallocs := add64 (st_reallocs st) 1\<rparr>)
           in do { (q, s) \<leftarrow> fast_realloc rt t p ns (fz_heap f);
                   let f = f\<lparr>fz_heap := s\<rparr> in
                   if q = 0 then
                     if \<not> check_marker p (fz_shadow f) (mem s) then Some (Inl Realloc_Disturbed)
                     else Some (Inr (f\<lparr>fz_stats := count (fz_stats f)\<rparr>))
                   else if q AND 15 \<noteq> 0 then Some (Inl Realloc_Misaligned)
                   else if q \<noteq> p \<and> map_of (live (fz_shadow f)) q \<noteq> None then Some (Inl Realloc_Aliased)
                   else let (gone, sh) = Shadow_erase p (fz_shadow f); m = 0x20 OR (arg AND 0x1F);
                            f = write_byte q m (f\<lparr>fz_shadow := sh\<rparr>); (ok, sh) = Shadow_insert q ns m (fz_shadow f)
                        in if \<not> ok then Some (Inl Alias_Realloc)
                           else Some (Inr (f\<lparr>fz_shadow := sh, fz_order := replace_first p q (fz_order f),
                                  fz_stats := count (fz_stats f)\<rparr>)) })"

definition op_calloc :: "rt_api \<Rightarrow> nat \<Rightarrow> nat \<Rightarrow> 'a fuzz \<Rightarrow> 'a fuzz_result" where
  "op_calloc rt t arg f =
     (let n = 1 + arg mod 16; sz = 1 + arg * 53
      in do { (p, s) \<leftarrow> fast_calloc rt t n sz (fz_heap f);
              let f = f\<lparr>fz_heap := s\<rparr> in
              if p \<noteq> 0 then
                if list_ex (\<lambda>k. byte_at (mem s) (p + k) \<noteq> 0) [0..<min (n * sz) 4096] then Some (Inl Calloc_Not_Zeroed)
                else let m = 0x60 OR (arg AND 0x3F); f = write_byte p m f
                     in Some (keep_block Alias_Calloc p (n * sz) m (\<lambda>st. st\<lparr>st_callocs := add64 (st_callocs st) 1\<rparr>) f)
              else Some (Inr f) })"

definition op_cross_free :: "rt_api \<Rightarrow> nat \<Rightarrow> nat \<Rightarrow> 'a fuzz \<Rightarrow> 'a fuzz_result" where
  "op_cross_free rt t arg f =
     (if fz_order f = [] then Some (Inr f)
      else let idx = arg mod length (fz_order f); p = fz_order f ! idx;
               sz = (case map_of (live (fz_shadow f)) p of None \<Rightarrow> 0 | Some r \<Rightarrow> rec_size r)
           in if \<not> check_marker p (fz_shadow f) (mem (fz_heap f)) then Some (Inl Marker_Destroyed_Sized)
              else let f = f\<lparr>fz_shadow := snd (Shadow_erase p (fz_shadow f))\<rparr>
                   in do { s \<leftarrow> fast_free_sized rt t p sz (fz_heap f);
                           Some (Inr (f\<lparr>fz_heap := s, fz_order := erase_at idx (fz_order f),
                             fz_stats := (fz_stats f)\<lparr>st_cross_frees := add64 (st_cross_frees (fz_stats f)) 1\<rparr>\<rparr>)) })"

text \<open>The churn loop: \<open>n\<close> rounds from round \<open>k\<close> on.\<close>

fun churn_rounds :: "rt_api \<Rightarrow> nat \<Rightarrow> nat \<Rightarrow> nat \<Rightarrow> nat \<Rightarrow> 'a api_state_scheme \<Rightarrow> 'a api_state_scheme option" where
  "churn_rounds rt t arg k 0 s = Some s"
| "churn_rounds rt t arg k (Suc n) s =
     do { (p, s) \<leftarrow> fast_malloc rt t (1 + (arg * 31 + k * 17) mod 8176) s;
          s \<leftarrow> (if p \<noteq> 0 then fast_free rt t p (upd_mem (set_byte p 0x7A) s) else Some s);
          churn_rounds rt t arg (k + 1) n s }"

definition op_churn :: "rt_api \<Rightarrow> nat \<Rightarrow> nat \<Rightarrow> 'a fuzz \<Rightarrow> 'a fuzz_result" where
  "op_churn rt t arg f =
     do { s \<leftarrow> churn_rounds rt t arg 0 (arg mod 8 + 1) (fz_heap f);
          Some (Inr (f\<lparr>fz_heap := s, fz_stats := (fz_stats f)\<lparr>st_churn := add64 (st_churn (fz_stats f)) 1\<rparr>\<rparr>)) }"

definition fuzz_op :: "rt_api \<Rightarrow> nat \<Rightarrow> 8 word \<Rightarrow> 'a fuzz \<Rightarrow> 'a fuzz_result" where
  "fuzz_op rt t b f =
     (let opc = unat (drop_bit 5 b); arg = unat (b AND 0x1F);
          f = f\<lparr>fz_shadow := (fz_shadow f)\<lparr>total_ops := add64 (total_ops (fz_shadow f)) 1\<rparr>\<rparr>
      in if opc = 0 then op_alloc rt t arg f
         else if opc = 1 then op_alloc_large rt t arg f
         else if opc = 2 then op_alloc_aligned rt t arg f
         else if opc = 3 then op_free rt t arg f
         else if opc = 4 then op_realloc rt t arg f
         else if opc = 5 then op_calloc rt t arg f
         else if opc = 6 then op_cross_free rt t arg f
         else op_churn rt t arg f)"

fun fuzz_loop :: "rt_api \<Rightarrow> nat \<Rightarrow> 8 word list \<Rightarrow> 'a fuzz \<Rightarrow> 'a fuzz_result" where
  "fuzz_loop rt t [] f = Some (Inr f)"
| "fuzz_loop rt t (b # data) f =
     do { r \<leftarrow> fuzz_op rt t b f; case r of Inl v \<Rightarrow> Some (Inl v) | Inr f \<Rightarrow> fuzz_loop rt t data f }"

text \<open>The insertion order is local to a program; the shadow model, the counters and the heap persist.\<close>

definition RunProgram :: "rt_api \<Rightarrow> nat \<Rightarrow> 8 word list \<Rightarrow> 'a fuzz \<Rightarrow> 'a fuzz_result" where
  "RunProgram rt t data f =
     do { r \<leftarrow> fuzz_loop rt t data (f\<lparr>fz_order := []\<rparr>);
          case r of
            Inl v \<Rightarrow> Some (Inl v)
          | Inr f \<Rightarrow> if list_ex (\<lambda>(p, r). byte_at (mem (fz_heap f)) p \<noteq> rec_fill r) (live (fz_shadow f))
                     then Some (Inl Marker_Destroyed_End) else Some (Inr f) }"

section \<open>The drivers\<close>

text \<open>libFuzzer: a report is followed by \<^verbatim>\<open>abort()\<close>.\<close>

definition LLVMFuzzerTestOneInput :: "rt_api \<Rightarrow> nat \<Rightarrow> 8 word list \<Rightarrow> 'a fuzz \<Rightarrow> 'a fuzz_result" where
  "LLVMFuzzerTestOneInput rt t data f = (if data = [] then Some (Inr f) else RunProgram rt t data f)"

text \<open>The standalone driver: the programs its generator yields within the time budget, the periodic drain.\<close>

fun free_all :: "rt_api \<Rightarrow> nat \<Rightarrow> (addr \<times> rec) list \<Rightarrow> 'a api_state_scheme \<Rightarrow> 'a api_state_scheme option" where
  "free_all rt t [] s = Some s"
| "free_all rt t (kv # kvs) s = do { s \<leftarrow> fast_free rt t (fst kv) s; free_all rt t kvs s }"

definition drain :: "rt_api \<Rightarrow> nat \<Rightarrow> 'a fuzz \<Rightarrow> 'a fuzz option" where
  "drain rt t f =
     do { s \<leftarrow> free_all rt t (live (fz_shadow f)) (fz_heap f);
          Some (f\<lparr>fz_heap := s, fz_shadow := (fz_shadow f)\<lparr>live := []\<rparr>\<rparr>) }"

fun standalone :: "rt_api \<Rightarrow> nat \<Rightarrow> 8 word list list \<Rightarrow> nat \<Rightarrow> 'a fuzz \<Rightarrow> 'a fuzz_result" where
  "standalone rt t [] inputs f = Some (Inr f)"
| "standalone rt t (prog # progs) inputs f =
     (let inputs = add64 inputs 1
      in do { r \<leftarrow> RunProgram rt t prog f;
              case r of
                Inl v \<Rightarrow> Some (Inl v)
              | Inr f \<Rightarrow> if inputs mod 512 = 0 then do { f \<leftarrow> drain rt t f; standalone rt t progs inputs f }
                         else standalone rt t progs inputs f })"

end
