(* ===== verification/FA_FuzzProps.thy ===== *)
theory FA_FuzzProps
  imports FA_Fuzz
begin

text \<open>
  The harness passes: every operation of the interpreter keeps its shadow model true of the heap, so none
  of the checks after an operation, at the end of a program or in the drain can fail. The calls are taken
  at the level of the ledger of \<^verbatim>\<open>FA_Process\<close>.
\<close>

section \<open>Calls on the ledger\<close>

definition got_ledger :: "rt_api \<Rightarrow> nat \<Rightarrow> 'a api_state_scheme \<Rightarrow> ledger \<Rightarrow> nat \<Rightarrow> addr \<Rightarrow> 'a api_state_scheme \<Rightarrow> bool" where
  "got_ledger rt t s L n u s' \<longleftrightarrow>
     (if u = 0 then ledger_ok rt s' L \<and> ledger_kept {} s L s' L \<and> (fast_path_cache s t \<noteq> 0 \<longrightarrow> fast_path_cache s' t \<noteq> 0)
      else ledger_ok rt s' (L(u \<mapsto> n)) \<and> ledger_kept {} s L s' (L(u \<mapsto> n)) \<and> L u = None \<and> fast_path_cache s' t \<noteq> 0)"

lemma allocated_ledger:
  assumes c: "covers rt s L g P" and a: "allocated rt t s g n u s' g'" and n: "0 < n"
  shows "got_ledger rt t s L n u s'"
  using alloc_covers [OF c a] a n by (auto simp: got_ledger_def grant_def allocated_def max_def)

lemma ledger_covers:
  assumes "ledger_ok rt s L"
  obtains g P where "covers rt s L g P" "callable rt s g"
  using assms unfolding ledger_ok_def covers_def by blast

lemma malloc_ledger:
  fixes s :: "'a api_state_scheme"
  assumes l: "ledger_ok rt s L" and n: "0 < n" "n < 2 ^ 64"
  shows "fast_malloc rt t n s = None \<and> fast_path_cache s t = 0 \<or> (\<exists>u s'. fast_malloc rt t n s = Some (u, s') \<and> got_ledger rt t s L n u s')"
proof -
  obtain g P where c: "covers rt s L g P" "callable rt s g" by (rule ledger_covers [OF l])
  show ?thesis
    by (rule fast_malloc_got [OF c(2) n(2), of t]) (use cached_not_none [of s t rt] allocated_ledger [OF c(1) got_allocated n(1)] in blast)+
qed

lemma calloc_ledger:
  fixes s :: "'a api_state_scheme"
  assumes l: "ledger_ok rt s L" and n: "0 < k * n" "k * n < 2 ^ 64" "k < 2 ^ 64" "n < 2 ^ 64"
  shows "fast_calloc rt t k n s = None \<and> fast_path_cache s t = 0
    \<or> (\<exists>u s'. fast_calloc rt t k n s = Some (u, s') \<and> got_ledger rt t s L (k * n) u s' \<and> (u \<noteq> 0 \<longrightarrow> (\<forall>i < k * n. byte_at (mem s') (u + i) = 0)))"
proof -
  obtain g P where c: "covers rt s L g P" "callable rt s g" by (rule ledger_covers [OF l])
  have "fast_calloc rt t k n s = None \<and> no_cache rt t s
      \<or> (\<exists>u s' g'. fast_calloc rt t k n s = Some (u, s') \<and> allocated rt t s g (k * n) u s' g'
        \<and> (u \<noteq> 0 \<longrightarrow> (\<forall>a \<in> {u..<u + k * n}. byte_at (mem s') a = 0)))"
    using fast_calloc_cases [OF c(2) n(3,4), of t] n(2) by simp
  then show ?thesis
  proof (elim disjE exE conjE)
    fix u s' g' assume r: "fast_calloc rt t k n s = Some (u, s')" "allocated rt t s g (k * n) u s' g'"
      "u \<noteq> 0 \<longrightarrow> (\<forall>a \<in> {u..<u + k * n}. byte_at (mem s') a = 0)"
    from allocated_ledger [OF c(1) r(2) n(1)] show ?thesis using r(1,3) by auto
  qed (use cached_not_none [of s t rt] in blast)
qed

lemma aligned_ledger:
  fixes s :: "'a api_state_scheme"
  assumes l: "ledger_ok rt s L" and n: "0 < n" "n < 2 ^ 64" "k \<le> 12"
  shows "fast_aligned_alloc rt t (2 ^ k) n s = None \<and> fast_path_cache s t = 0
    \<or> (\<exists>u s'. fast_aligned_alloc rt t (2 ^ k) n s = Some (u, s') \<and> got_ledger rt t s L n u s' \<and> u mod 2 ^ k = 0)"
proof -
  obtain g P where c: "covers rt s L g P" "callable rt s g" by (rule ledger_covers [OF l])
  show ?thesis
  proof (rule fast_aligned_alloc_got [OF c(2) n(2,3), of t])
    fix u s' g' assume r: "fast_aligned_alloc rt t (2 ^ k) n s = Some (u, s')" "allocated rt t s g n u s' g'" "u mod 2 ^ k = 0"
    from allocated_ledger [OF c(1) r(2) n(1)] show ?thesis using r(1,3) by (intro disjI2 exI conjI)
  qed (use cached_not_none [of s t rt] in blast)
qed

lemma free_ledger:
  fixes s :: "'a api_state_scheme"
  assumes l: "ledger_ok rt s L" and u: "L u = Some n"
  shows "fast_free rt t u s = None \<and> fast_path_cache s t = 0
    \<or> (\<exists>s'. fast_free rt t u s = Some s' \<and> ledger_ok rt s' (L(u := None)) \<and> ledger_kept {u} s L s' (L(u := None)) \<and> fast_path_cache s' t \<noteq> 0)"
    "fast_free_sized rt t u sz s = fast_free rt t u s"
proof -
  obtain g P where c: "covers rt s L g P" "callable rt s g" by (rule ledger_covers [OF l])
  obtain k where k: "P u \<in> pieces g s" "user_ptr g (mem s) (P u) u k" by (rule coversD [OF c(1) u])
  show "fast_free_sized rt t u sz s = fast_free rt t u s" by (rule free_sized_run [OF c(2) k])
  show "fast_free rt t u s = None \<and> fast_path_cache s t = 0
    \<or> (\<exists>s'. fast_free rt t u s = Some s' \<and> ledger_ok rt s' (L(u := None)) \<and> ledger_kept {u} s L s' (L(u := None)) \<and> fast_path_cache s' t \<noteq> 0)"
  proof (rule fast_free_user [OF c(2) k, of t])
    fix s' g' assume r: "fast_free rt t u s = Some s'" "given_back rt t s g (P u) s' g'"
    from free_covers [OF c(1) u r(1)] show ?thesis using r by (auto simp: given_back_def)
  qed (use cached_not_none [of s t rt] in blast)
qed

lemma realloc_ledger:
  fixes s :: "'a api_state_scheme"
  assumes l: "ledger_ok rt s L" and u: "L u = Some n" and new: "0 < new" "new < 2 ^ 32"
  shows "fast_realloc rt t u new s = None \<and> fast_path_cache s t = 0
    \<or> (\<exists>v s'. fast_realloc rt t u new s = Some (v, s') \<and> fast_path_cache s' t \<noteq> 0
        \<and> (if v = 0 then ledger_ok rt s' L \<and> ledger_kept {} s L s' L
           else ledger_ok rt s' ((L(u := None))(v \<mapsto> new)) \<and> ledger_kept {u} s L s' ((L(u := None))(v \<mapsto> new)) \<and> (L(u := None)) v = None))"
proof -
  obtain g P where c: "covers rt s L g P" "callable rt s g" by (rule ledger_covers [OF l])
  obtain k where k: "P u \<in> pieces g s" "user_ptr g (mem s) (P u) u k" by (rule coversD [OF c(1) u])
  have "GetPageSize (rt_os rt) \<le> 2097152" by (rule os_spec_page_bounds(2) [OF callableD(1) [OF c(2)]])
  then have a: "realloc_admissible rt t u new s" using new by (simp add: realloc_admissible_def)
  from admissible_realloc [OF c(2) k a] show ?thesis
  proof (elim disjE exE conjE)
    fix v s' g' assume v: "fast_realloc rt t u new s = Some (v, s')" "reallocated rt t s g (P u) u k new v s' g'"
    have "fast_path_cache s' t \<noteq> 0" using v(2) by (simp add: reallocated_def)
    then show ?thesis using v(1) realloc_covers [OF c(1) u new(1) v(2)] by (auto simp: Let_def)
  qed (use cached_not_none [of s t rt] in blast)
qed

lemma write_ledger:
  fixes s :: "'a api_state_scheme"
  assumes l: "ledger_ok rt s L" and u: "L u = Some n" "i < n"
  shows "ledger_ok rt (upd_mem (set_byte (u + i) b) s) L" "ledger_kept {u} s L (upd_mem (set_byte (u + i) b) s) L"
proof -
  obtain g P where c: "covers rt s L g P" "callable rt s g" by (rule ledger_covers [OF l])
  show "ledger_ok rt (upd_mem (set_byte (u + i) b) s) L" "ledger_kept {u} s L (upd_mem (set_byte (u + i) b) s) L"
    using write_covers [OF c(1) u] by blast+
qed

lemma ledger_entry:
  assumes "ledger_ok rt s L" "L u = Some n"
  shows "u \<noteq> 0" "u mod 16 = 0" "0 < n"
proof -
  obtain g P where c: "covers rt s L g P" "callable rt s g" by (rule ledger_covers [OF assms(1)])
  obtain k where k: "P u \<in> pieces g s" "0 < n" "user_ptr g (mem s) (P u) u k" by (rule coversD [OF c(1) assms(2)])
  show "u \<noteq> 0" "u mod 16 = 0" "0 < n" using user_ptr_facts [OF callableD(1,2) [OF c(2)] k(1,3)] k(2) by blast+
qed

lemma ledger_kept_trans:
  assumes "ledger_kept U s L s1 L1" "ledger_kept V s1 L1 s2 L2"
  shows "ledger_kept (U \<union> V) s L s2 L2"
  using assms unfolding ledger_kept_def by (metis Un_iff)


section \<open>The shadow model is true of the heap\<close>

definition sizes :: "(addr \<times> rec) list \<Rightarrow> ledger" where
  "sizes l p = map_option rec_size (map_of l p)"

definition shadow_ok :: "rt_api \<Rightarrow> (addr \<times> rec) list \<Rightarrow> 'a api_state_scheme \<Rightarrow> bool" where
  "shadow_ok rt l s \<longleftrightarrow> ledger_ok rt s (sizes l) \<and> distinct (map fst l) \<and> (\<forall>(p, r) \<in> set l. byte_at (mem s) p = rec_fill r)"

definition fuzz_ok :: "rt_api \<Rightarrow> 'a fuzz \<Rightarrow> bool" where
  "fuzz_ok rt f \<longleftrightarrow> shadow_ok rt (live (fz_shadow f)) (fz_heap f) \<and> distinct (fz_order f) \<and> set (fz_order f) \<subseteq> fst ` set (live (fz_shadow f))"

text \<open>The result of a step that passes: no report, the invariant \<open>I\<close>, and no abort in a thread that has its cache.\<close>

definition passes :: "('a fuzz \<Rightarrow> bool) \<Rightarrow> nat \<Rightarrow> 'a fuzz \<Rightarrow> 'a fuzz_result \<Rightarrow> bool" where
  "passes I t f r \<longleftrightarrow> r = None \<and> fast_path_cache (fz_heap f) t = 0
     \<or> (\<exists>f'. r = Some (Inr f') \<and> I f' \<and> (fast_path_cache (fz_heap f) t \<noteq> 0 \<longrightarrow> fast_path_cache (fz_heap f') t \<noteq> 0))"

lemma sizes_Nil [simp]: "sizes [] = Map.empty"
  by (simp add: sizes_def fun_eq_iff)

lemma sizes_update: "sizes (AList.update p r l) = (sizes l)(p \<mapsto> rec_size r)"
  by (auto simp: sizes_def update_conv')

lemma sizes_delete: "sizes (AList.delete p l) = (sizes l)(p := None)"
  by (auto simp: sizes_def delete_conv')

lemma sizes_entry: "sizes l p = Some n \<longleftrightarrow> (\<exists>r. map_of l p = Some r \<and> rec_size r = n)"
  by (auto simp: sizes_def)

lemma sizes_None: "sizes l p = None \<longleftrightarrow> map_of l p = None" "sizes l p = None \<longleftrightarrow> p \<notin> fst ` set l"
  by (auto simp: sizes_def map_of_eq_None_iff)

lemma shadow_step:
  assumes ok: "shadow_ok rt l s" and lg: "ledger_ok rt s' (sizes l')" and k: "ledger_kept U s (sizes l) s' (sizes l')" and d: "distinct (map fst l')"
    and e: "\<And>p r. (p, r) \<in> set l' \<Longrightarrow> (p, r) \<in> set l \<and> p \<notin> U \<or> byte_at (mem s') p = rec_fill r"
  shows "shadow_ok rt l' s'"
proof -
  have "byte_at (mem s') p = rec_fill r" if "(p, r) \<in> set l'" for p r
  proof (cases "(p, r) \<in> set l \<and> p \<notin> U")
    case True
    have s: "distinct (map fst l)" "byte_at (mem s) p = rec_fill r" using ok True by (auto simp: shadow_ok_def)
    then have "map_of l p = Some r" using True by (simp add: map_of_is_SomeI)
    then have "sizes l p = Some (rec_size r)" by (simp add: sizes_def)
    moreover from this have "0 < rec_size r" using ok ledger_entry(3) by (auto simp: shadow_ok_def)
    ultimately have "byte_at (mem s') (p + 0) = byte_at (mem s) (p + 0)" using k True unfolding ledger_kept_def by blast
    then show ?thesis using s(2) by simp
  qed (use e [OF that] in blast)
  then show ?thesis using lg d by (auto simp: shadow_ok_def)
qed

lemma shadow_same: "shadow_ok rt l s \<Longrightarrow> ledger_ok rt s' (sizes l) \<Longrightarrow> ledger_kept {} s (sizes l) s' (sizes l) \<Longrightarrow> shadow_ok rt l s'"
  by (rule shadow_step [where l = l and l' = l and U = "{}"]) (auto simp: shadow_ok_def)

lemma delete_entry: "(q, r) \<in> set (AList.delete p l) \<longleftrightarrow> (q, r) \<in> set l \<and> q \<noteq> p"
  by (auto simp: AList.delete_eq)

lemma delete_dom: "fst ` set (AList.delete p l) = fst ` set l - {p}"
  by (metis AList.delete_keys set_map set_removeAll)

lemma update_new:
  assumes "map_of l p = None"
  shows "set (AList.update p r l) = insert (p, r) (set l)"
  using assms by (induction l) auto

lemma shadow_delete:
  assumes "shadow_ok rt l s" "ledger_ok rt s' ((sizes l)(p := None))" "ledger_kept {p} s (sizes l) s' ((sizes l)(p := None))"
  shows "shadow_ok rt (AList.delete p l) s'"
  by (rule shadow_step [OF assms(1), where U = "{p}"]) (use assms in \<open>auto simp: sizes_delete delete_entry shadow_ok_def distinct_delete\<close>)

lemma shadow_update:
  assumes "shadow_ok rt l s" "ledger_ok rt s' ((sizes l)(p \<mapsto> rec_size r))" "ledger_kept {p} s (sizes l) s' ((sizes l)(p \<mapsto> rec_size r))"
    "map_of l p = None" "byte_at (mem s') p = rec_fill r"
  shows "shadow_ok rt (AList.update p r l) s'"
proof (rule shadow_step [OF assms(1), where U = "{p}"])
  have p: "p \<notin> fst ` set l" using assms(4) by (simp add: map_of_eq_None_iff)
  show "(q, x) \<in> set l \<and> q \<notin> {p} \<or> byte_at (mem s') q = rec_fill x" if "(q, x) \<in> set (AList.update p r l)" for q x
    using that p assms(5) unfolding update_new [OF assms(4)] by force
  show "distinct (map fst (AList.update p r l))" by (rule distinct_update) (use assms(1) in \<open>simp add: shadow_ok_def\<close>)
qed (use assms(2,3) in \<open>simp_all add: sizes_update\<close>)


section \<open>Allocating operations\<close>

lemma byte_ops:
  assumes "x < 256" "y < 256"
  shows "(x :: nat) OR y < 256" "x AND y < 256"
proof -
  have t: "take_bit 8 x = x" "take_bit 8 y = y" using assms by (simp_all add: take_bit_nat_eq_self)
  then have "take_bit 8 (x OR y) = x OR y" "take_bit 8 (x AND y) = x AND y" by (simp_all only: take_bit_or take_bit_and)
  then have "x OR y < 2 ^ 8" "x AND y < 2 ^ 8" by (simp_all only: take_bit_nat_eq_self_iff)
  then show "x OR y < 256" "x AND y < 256" by simp_all
qed

lemma and_mask_mod: "(v :: nat) AND (2 ^ k - 1) = v mod 2 ^ k"
  using take_bit_eq_mask [of k v] by (simp add: mask_eq_exp_minus_1 take_bit_eq_mod)

text \<open>The state after the marker was written at the start of a block.\<close>

definition marked :: "rt_api \<Rightarrow> 'a api_state_scheme \<Rightarrow> ledger \<Rightarrow> addr \<Rightarrow> nat \<Rightarrow> 'a api_state_scheme \<Rightarrow> bool" where
  "marked rt s L p m s' \<longleftrightarrow> ledger_ok rt s' L \<and> ledger_kept {p} s L s' L \<and> byte_at (mem s') p = m \<and> fast_path_cache s' = fast_path_cache s"

lemma mark_write:
  fixes s :: "'a api_state_scheme"
  assumes "ledger_ok rt s L" "L p = Some n" "m < 256"
  shows "marked rt s L p m (upd_mem (set_byte p m) s)"
proof -
  have "0 < n" by (rule ledger_entry(3) [OF assms(1,2)])
  from write_ledger [OF assms(1,2) this, of m] show ?thesis using assms(3) by (simp add: marked_def byte_set_byte)
qed

lemma mark_again:
  fixes s :: "'a api_state_scheme"
  assumes k: "marked rt s L p m s1" and p: "L p = Some n" "i < n" and m: "m < 256"
  shows "marked rt s L p m (upd_mem (set_byte (p + i) m) s1)"
proof -
  have l: "ledger_ok rt s1 L" using k by (simp add: marked_def)
  note w = write_ledger [OF l p, of m]
  have "ledger_kept {p} s L s1 L" using k by (simp add: marked_def)
  from ledger_kept_trans [OF this w(2)] show ?thesis using w(1) k m by (simp add: marked_def byte_set_byte)
qed

lemma keep_block_passes:
  fixes f :: "'a fuzz"
  assumes f: "fuzz_ok rt f" and g: "got_ledger rt t (fz_heap f) (sizes (live (fz_shadow f))) n p s1" "p \<noteq> 0"
    and k: "marked rt s1 ((sizes (live (fz_shadow f)))(p \<mapsto> n)) p m s2"
  shows "passes (fuzz_ok rt) t f (Some (keep_block v p n m count (f\<lparr>fz_heap := s2\<rparr>)))"
proof -
  let ?l = "live (fz_shadow f)" and ?r = "\<lparr>rec_size = n, rec_seed = total_ops (fz_shadow f), rec_fill = m\<rparr>"
  have ok: "shadow_ok rt ?l (fz_heap f)" "distinct (fz_order f)" "set (fz_order f) \<subseteq> fst ` set ?l" using f by (simp_all add: fuzz_ok_def)
  have g': "ledger_kept {} (fz_heap f) (sizes ?l) s1 ((sizes ?l)(p \<mapsto> n))" "sizes ?l p = None" "fast_path_cache s1 t \<noteq> 0"
    using g by (simp_all add: got_ledger_def)
  have k': "ledger_ok rt s2 ((sizes ?l)(p \<mapsto> n))" "ledger_kept {p} s1 ((sizes ?l)(p \<mapsto> n)) s2 ((sizes ?l)(p \<mapsto> n))" "byte_at (mem s2) p = m"
    "fast_path_cache s2 = fast_path_cache s1" using k by (simp_all add: marked_def)
  have new: "map_of ?l p = None" "p \<notin> fst ` set ?l" using g'(2) sizes_None by blast+
  have al: "p AND 15 = 0" using ledger_entry(2) [OF k'(1), of p n] by (simp add: bitfacts)
  have "shadow_ok rt (AList.update p ?r ?l) s2"
    by (rule shadow_update [OF ok(1) _ _ new(1)]) (use k' ledger_kept_trans [OF g'(1) k'(2)] in simp_all)
  moreover have "distinct (fz_order f @ [p])" "set (fz_order f @ [p]) \<subseteq> fst ` set (AList.update p ?r ?l)"
    using ok(2,3) new(2) unfolding update_new [OF new(1)] by auto
  ultimately show ?thesis using g(2) al new(1) g'(3) k'(4)
    by (simp add: keep_block_def Shadow_insert_def passes_def fuzz_ok_def)
qed

lemma null_passes:
  fixes f :: "'a fuzz"
  assumes f: "fuzz_ok rt f" and g: "got_ledger rt t (fz_heap f) (sizes (live (fz_shadow f))) n 0 s1"
  shows "passes (fuzz_ok rt) t f (Some (Inr (f\<lparr>fz_heap := s1\<rparr>)))" "passes (fuzz_ok rt) t f (Some (Inr (f\<lparr>fz_heap := s1, fz_stats := st\<rparr>)))"
  using assms shadow_same by (auto simp: passes_def fuzz_ok_def got_ledger_def)

lemma op_alloc_passes:
  fixes f :: "'a fuzz"
  assumes f: "fuzz_ok rt f" and a: "arg < 32"
  shows "passes (fuzz_ok rt) t f (op_alloc rt t arg f)" "passes (fuzz_ok rt) t f (op_alloc_large rt t arg f)"
proof -
  let ?L = "sizes (live (fz_shadow f))"
  have l: "ledger_ok rt (fz_heap f) ?L" using f by (simp add: fuzz_ok_def shadow_ok_def)
  have m: "0x40 OR (arg AND 0x3F) < 256" "0x80 OR (arg AND 0x7F) < 256" using a by (intro byte_ops; simp)+
  have n: "1 + arg * 67 < 2 ^ 64" "8177 + arg * 16000 < 2 ^ 64" using a by simp_all
  show "passes (fuzz_ok rt) t f (op_alloc rt t arg f)"
  proof (rule disjE [OF malloc_ledger [OF l _ n(1), of t]]; (elim exE conjE)?)
    fix p s1 assume r: "fast_malloc rt t (1 + arg * 67) (fz_heap f) = Some (p, s1)" "got_ledger rt t (fz_heap f) ?L (1 + arg * 67) p s1"
    show ?thesis
    proof (cases "p = 0")
      case False
      have "ledger_ok rt s1 (?L(p \<mapsto> 1 + arg * 67))" using r(2) False by (simp add: got_ledger_def)
      from keep_block_passes [OF f r(2) False mark_write [OF this _ m(1)]] show ?thesis
        using r(1) False by (simp add: op_alloc_def Let_def write_byte_def)
    qed (use null_passes [OF f] r in \<open>simp add: op_alloc_def Let_def\<close>)
  qed (simp_all add: op_alloc_def Let_def passes_def)
  show "passes (fuzz_ok rt) t f (op_alloc_large rt t arg f)"
  proof (rule disjE [OF malloc_ledger [OF l _ n(2), of t]]; (elim exE conjE)?)
    fix p s1 assume r: "fast_malloc rt t (8177 + arg * 16000) (fz_heap f) = Some (p, s1)" "got_ledger rt t (fz_heap f) ?L (8177 + arg * 16000) p s1"
    show ?thesis
    proof (cases "p = 0")
      case False
      have "ledger_ok rt s1 (?L(p \<mapsto> 8177 + arg * 16000))" using r(2) False by (simp add: got_ledger_def)
      note w = mark_write [OF this _ m(2)]
      have "marked rt s1 (?L(p \<mapsto> 8177 + arg * 16000)) p (0x80 OR (arg AND 0x7F))
          (upd_mem (set_byte (p + (8177 + arg * 16000 - 1)) (0x80 OR (arg AND 0x7F))) (upd_mem (set_byte p (0x80 OR (arg AND 0x7F))) s1))"
        by (rule mark_again [OF w _ _ m(2)]) auto
      from keep_block_passes [OF f r(2) False this] show ?thesis using r(1) False by (simp add: op_alloc_large_def Let_def write_byte_def)
    qed (use null_passes [OF f] r in \<open>simp add: op_alloc_large_def Let_def\<close>)
  qed (simp_all add: op_alloc_large_def Let_def passes_def)
qed


lemma op_calloc_passes:
  fixes f :: "'a fuzz"
  assumes f: "fuzz_ok rt f" and a: "arg < 32"
  shows "passes (fuzz_ok rt) t f (op_calloc rt t arg f)"
proof -
  let ?L = "sizes (live (fz_shadow f))" and ?n = "1 + arg mod 16" and ?z = "1 + arg * 53"
  have l: "ledger_ok rt (fz_heap f) ?L" using f by (simp add: fuzz_ok_def shadow_ok_def)
  have m: "0x60 OR (arg AND 0x3F) < 256" using a by (intro byte_ops; simp)
  have "?n * ?z \<le> 16 * 1644" using a by (intro mult_le_mono) simp_all
  then have n: "0 < ?n * ?z" "?n * ?z < 2 ^ 64" "?n < 2 ^ 64" "?z < 2 ^ 64" using a by simp_all
  show ?thesis
  proof (rule disjE [OF calloc_ledger [OF l n, of t]]; (elim exE conjE)?)
    fix p s1 assume r: "fast_calloc rt t ?n ?z (fz_heap f) = Some (p, s1)" "got_ledger rt t (fz_heap f) ?L (?n * ?z) p s1"
      "p \<noteq> 0 \<longrightarrow> (\<forall>i < ?n * ?z. byte_at (mem s1) (p + i) = 0)"
    show ?thesis
    proof (cases "p = 0")
      case False
      have z: "\<not> list_ex (\<lambda>k. byte_at (mem s1) (p + k) \<noteq> 0) [0..<min (?n * ?z) 4096]" using r(3) False by (auto simp: list_ex_iff)
      have "ledger_ok rt s1 (?L(p \<mapsto> ?n * ?z))" using r(2) False by (simp add: got_ledger_def)
      from keep_block_passes [OF f r(2) False mark_write [OF this _ m]] show ?thesis
        using r(1) False z unfolding op_calloc_def Let_def write_byte_def by simp
    qed (use null_passes [OF f] r in \<open>simp add: op_calloc_def Let_def\<close>)
  qed (simp_all add: op_calloc_def Let_def passes_def)
qed

lemma op_alloc_aligned_passes:
  fixes f :: "'a fuzz"
  assumes f: "fuzz_ok rt f" and a: "arg < 32"
  shows "passes (fuzz_ok rt) t f (op_alloc_aligned rt t arg f)"
proof -
  let ?L = "sizes (live (fz_shadow f))" and ?k = "arg mod 9 + 4" and ?z = "1 + arg * 97"
  have l: "ledger_ok rt (fz_heap f) ?L" using f by (simp add: fuzz_ok_def shadow_ok_def)
  have m: "0xC0 OR (arg AND 0x3F) < 256" using a by (intro byte_ops; simp)
  have al: "push_bit (arg mod 9) 16 = (2 :: nat) ^ ?k" by (simp add: push_bit_eq_mult power_add)
  have k: "?k \<le> 12" using mod_less_divisor [of 9 arg] by simp
  show ?thesis
  proof (rule disjE [OF aligned_ledger [OF l _ _ k, of ?z t]]; (elim exE conjE)?)
    fix p s1 assume r: "fast_aligned_alloc rt t (2 ^ ?k) ?z (fz_heap f) = Some (p, s1)" "got_ledger rt t (fz_heap f) ?L ?z p s1" "p mod 2 ^ ?k = 0"
    show ?thesis
    proof (cases "p = 0")
      case False
      have z: "p AND (2 ^ ?k - 1) = 0" using r(3) and_mask_mod [of p ?k] by simp
      have "ledger_ok rt s1 (?L(p \<mapsto> ?z))" using r(2) False by (simp add: got_ledger_def)
      from keep_block_passes [OF f r(2) False mark_write [OF this _ m]] show ?thesis
        using r(1) False z unfolding op_alloc_aligned_def Let_def write_byte_def al by simp
    next
      case True
      then show ?thesis using null_passes [OF f] r(1,2) unfolding op_alloc_aligned_def Let_def al by simp
    qed
  next
    show ?thesis if "fast_aligned_alloc rt t (2 ^ ?k) ?z (fz_heap f) = None" "fast_path_cache (fz_heap f) t = 0"
      using that unfolding op_alloc_aligned_def Let_def al by (simp add: passes_def)
  qed (use a in simp_all)
qed


section \<open>Freeing and reallocating operations\<close>

lemma erase_at_facts:
  assumes "distinct xs" "i < length xs"
  shows "distinct (erase_at i xs)" "set (erase_at i xs) = set xs - {xs ! i}"
proof -
  have "xs = take i xs @ xs ! i # drop (i + 1) xs" using id_take_nth_drop [OF assms(2)] by simp
  then have "distinct (take i xs @ xs ! i # drop (i + 1) xs)" "set xs = insert (xs ! i) (set (take i xs) \<union> set (drop (i + 1) xs))"
    using assms(1) by (metis, metis Un_insert_right list.simps(15) set_append)
  then show "distinct (erase_at i xs)" "set (erase_at i xs) = set xs - {xs ! i}" by (auto simp: erase_at_def)
qed

lemma replace_first_map: "distinct xs \<Longrightarrow> replace_first p q xs = map (\<lambda>x. if x = p then q else x) xs"
  by (induction xs) (auto intro: map_idI [symmetric])

lemma order_entry:
  fixes f :: "'a fuzz"
  assumes f: "fuzz_ok rt f" and ne: "fz_order f \<noteq> []"
  obtains r where "arg mod length (fz_order f) < length (fz_order f)" "fz_order f ! (arg mod length (fz_order f)) \<in> set (fz_order f)"
    "map_of (live (fz_shadow f)) (fz_order f ! (arg mod length (fz_order f))) = Some r"
    "check_marker (fz_order f ! (arg mod length (fz_order f))) (fz_shadow f) (mem (fz_heap f))"
proof -
  let ?i = "arg mod length (fz_order f)"
  let ?p = "fz_order f ! ?i"
  have i: "?i < length (fz_order f)" using ne by simp
  then have p: "?p \<in> set (fz_order f)" by simp
  then have "?p \<in> fst ` set (live (fz_shadow f))" using f by (auto simp: fuzz_ok_def)
  then obtain r where r: "map_of (live (fz_shadow f)) ?p = Some r" by (metis map_of_eq_None_iff not_None_eq)
  then have "byte_at (mem (fz_heap f)) ?p = rec_fill r" using f map_of_SomeD [OF r] by (auto simp: fuzz_ok_def shadow_ok_def)
  then show thesis using that i p r by (simp add: check_marker_def)
qed

lemma dropped_passes:
  fixes f :: "'a fuzz"
  assumes f: "fuzz_ok rt f" and i: "i < length (fz_order f)"
    and k: "ledger_ok rt s' ((sizes (live (fz_shadow f)))(fz_order f ! i := None))"
      "ledger_kept {fz_order f ! i} (fz_heap f) (sizes (live (fz_shadow f))) s' ((sizes (live (fz_shadow f)))(fz_order f ! i := None))"
      "fast_path_cache s' t \<noteq> 0"
  shows "passes (fuzz_ok rt) t f (Some (Inr (f\<lparr>fz_shadow := snd (Shadow_erase (fz_order f ! i) (fz_shadow f)), fz_heap := s', fz_order := erase_at i (fz_order f), fz_stats := st\<rparr>)))"
proof -
  have ok: "shadow_ok rt (live (fz_shadow f)) (fz_heap f)" "distinct (fz_order f)" "set (fz_order f) \<subseteq> fst ` set (live (fz_shadow f))"
    using f by (simp_all add: fuzz_ok_def)
  show ?thesis using shadow_delete [OF ok(1) k(1,2)] erase_at_facts [OF ok(2) i] ok(3) k(3)
    by (auto simp: passes_def fuzz_ok_def Shadow_erase_def delete_dom)
qed

lemma op_free_passes:
  fixes f :: "'a fuzz"
  assumes f: "fuzz_ok rt f"
  shows "passes (fuzz_ok rt) t f (op_free rt t arg f)" "passes (fuzz_ok rt) t f (op_cross_free rt t arg f)"
proof -
  let ?L = "sizes (live (fz_shadow f))" and ?i = "arg mod length (fz_order f)"
  let ?p = "fz_order f ! ?i"
  have l: "ledger_ok rt (fz_heap f) ?L" using f by (simp add: fuzz_ok_def shadow_ok_def)
  have "passes (fuzz_ok rt) t f (op_free rt t arg f) \<and> passes (fuzz_ok rt) t f (op_cross_free rt t arg f)"
  proof (cases "fz_order f = []")
    case True
    then show ?thesis using f by (simp add: op_free_def op_cross_free_def passes_def)
  next
    case False
    obtain r where r: "?i < length (fz_order f)" "?p \<in> set (fz_order f)" "map_of (live (fz_shadow f)) ?p = Some r" "check_marker ?p (fz_shadow f) (mem (fz_heap f))"
      by (rule order_entry [OF f False])
    have e: "fst (Shadow_erase ?p (fz_shadow f))" using r(3) by (simp add: Shadow_erase_def)
    have "?L ?p = Some (rec_size r)" using r(3) by (simp add: sizes_def)
    note w = free_ledger [OF l this, of t]
    show ?thesis
    proof (rule disjE [OF w(1)]; elim exE conjE)
      fix s' assume s': "fast_free rt t ?p (fz_heap f) = Some s'" "ledger_ok rt s' (?L(?p := None))" "ledger_kept {?p} (fz_heap f) ?L s' (?L(?p := None))"
        "fast_path_cache s' t \<noteq> 0"
      note d = dropped_passes [OF f r(1) s'(2-4)]
      show ?thesis using d s'(1) w(2) r(4) e False
        by (simp add: op_free_def op_cross_free_def Let_def split_beta)
    qed (use r(4) e False w(2) in \<open>simp add: op_free_def op_cross_free_def Let_def split_beta passes_def\<close>)
  qed
  then show "passes (fuzz_ok rt) t f (op_free rt t arg f)" "passes (fuzz_ok rt) t f (op_cross_free rt t arg f)" by blast+
qed


lemma moved_passes:
  fixes f :: "'a fuzz"
  assumes f: "fuzz_ok rt f" and p: "p \<in> set (fz_order f)" and L: "L = sizes (live (fz_shadow f))"
    and k: "ledger_kept {p} (fz_heap f) L s1 ((L(p := None))(q \<mapsto> n))" "(L(p := None)) q = None" "fast_path_cache s1 t \<noteq> 0"
    and m: "marked rt s1 ((L(p := None))(q \<mapsto> n)) q m s2"
  shows "passes (fuzz_ok rt) t f (Some (Inr (f\<lparr>fz_heap := s2,
    fz_shadow := (fz_shadow f)\<lparr>live := AList.update q \<lparr>rec_size = n, rec_seed = c, rec_fill = m\<rparr> (AList.delete p (live (fz_shadow f)))\<rparr>,
    fz_order := replace_first p q (fz_order f), fz_stats := st\<rparr>)))"
proof -
  let ?l = "live (fz_shadow f)" and ?r = "\<lparr>rec_size = n, rec_seed = c, rec_fill = m\<rparr>"
  let ?l1 = "AList.delete p ?l"
  let ?l2 = "AList.update q ?r ?l1"
  have ok: "shadow_ok rt ?l (fz_heap f)" "distinct (fz_order f)" "set (fz_order f) \<subseteq> fst ` set ?l" using f by (simp_all add: fuzz_ok_def)
  have mm: "ledger_ok rt s2 ((L(p := None))(q \<mapsto> n))" "ledger_kept {q} s1 ((L(p := None))(q \<mapsto> n)) s2 ((L(p := None))(q \<mapsto> n))" "byte_at (mem s2) q = m"
    "fast_path_cache s2 = fast_path_cache s1" using m by (simp_all add: marked_def)
  have z: "sizes ?l2 = (L(p := None))(q \<mapsto> n)" by (simp add: sizes_update sizes_delete L)
  have q: "map_of ?l1 q = None" using k(2) unfolding L by (auto simp: sizes_def AList.delete_conv' split: if_splits)
  have q': "(q, r) \<notin> set ?l1" for r using q by (simp add: map_of_eq_None_iff) force
  note u = update_new [OF q, of ?r]
  have "shadow_ok rt ?l2 s2"
  proof (rule shadow_step [OF ok(1), where U = "{p} \<union> {q}"])
    show "ledger_ok rt s2 (sizes ?l2)" using mm(1) z by simp
    show "ledger_kept ({p} \<union> {q}) (fz_heap f) (sizes ?l) s2 (sizes ?l2)" using ledger_kept_trans [OF k(1) mm(2)] by (simp only: z L)
    show "distinct (map fst ?l2)" by (intro distinct_update distinct_delete) (use ok(1) in \<open>simp add: shadow_ok_def\<close>)
    show "(a, r) \<in> set ?l \<and> a \<notin> {p} \<union> {q} \<or> byte_at (mem s2) a = rec_fill r" if "(a, r) \<in> set ?l2" for a r
      using that mm(3) q' unfolding u by (auto simp: delete_entry)
  qed
  moreover have "q \<notin> set (fz_order f) - {p}" using q' ok(3) by (auto simp: delete_entry)
  then have "distinct (replace_first p q (fz_order f))" "set (replace_first p q (fz_order f)) \<subseteq> insert q (set (fz_order f) - {p})"
    unfolding replace_first_map [OF ok(2)] using ok(2) by (auto simp: distinct_map inj_on_def split: if_splits)
  moreover have "insert q (set (fz_order f) - {p}) \<subseteq> fst ` set ?l2" using ok(3) unfolding u by (auto simp: delete_dom)
  ultimately show ?thesis using k(3) mm(4) unfolding passes_def fuzz_ok_def by auto
qed

lemma op_realloc_passes:
  fixes f :: "'a fuzz"
  assumes f: "fuzz_ok rt f" and a: "arg < 32"
  shows "passes (fuzz_ok rt) t f (op_realloc rt t arg f)"
proof (cases "fz_order f = []")
  case True
  then show ?thesis using f by (simp add: op_realloc_def passes_def)
next
  case ne: False
  let ?L = "sizes (live (fz_shadow f))" and ?i = "arg mod length (fz_order f)" and ?n = "1 + arg * 131" and ?m = "0x20 OR (arg AND 0x1F)"
  let ?p = "fz_order f ! ?i"
  have l: "ledger_ok rt (fz_heap f) ?L" using f by (simp add: fuzz_ok_def shadow_ok_def)
  have m: "?m < 256" using a by (intro byte_ops; simp)
  obtain r where r: "?p \<in> set (fz_order f)" "map_of (live (fz_shadow f)) ?p = Some r" by (rule order_entry [OF f ne])
  then have "?L ?p = Some (rec_size r)" by (simp add: sizes_def)
  note w = realloc_ledger [OF l this, of ?n t]
  show ?thesis
  proof (rule disjE [OF w]; (elim exE conjE)?)
    fix q s1 assume s1: "fast_realloc rt t ?p ?n (fz_heap f) = Some (q, s1)" "fast_path_cache s1 t \<noteq> 0"
      "if q = 0 then ledger_ok rt s1 ?L \<and> ledger_kept {} (fz_heap f) ?L s1 ?L
       else ledger_ok rt s1 ((?L(?p := None))(q \<mapsto> ?n)) \<and> ledger_kept {?p} (fz_heap f) ?L s1 ((?L(?p := None))(q \<mapsto> ?n)) \<and> (?L(?p := None)) q = None"
    show ?thesis
    proof (cases "q = 0")
      case True
      then have ok: "fuzz_ok rt (f\<lparr>fz_heap := s1\<rparr>)" using s1(3) f shadow_same by (auto simp: fuzz_ok_def)
      have "check_marker ?p (fz_shadow f) (mem s1)" using order_entry [OF ok, of arg] ne by simp
      then show ?thesis using s1(1,2) True ok ne by (simp add: op_realloc_def Let_def passes_def fuzz_ok_def)
    next
      case False
      then have q: "ledger_ok rt s1 ((?L(?p := None))(q \<mapsto> ?n))" "ledger_kept {?p} (fz_heap f) ?L s1 ((?L(?p := None))(q \<mapsto> ?n))" "(?L(?p := None)) q = None"
        using s1(3) by (simp_all only: if_False)
      note w = mark_write [OF q(1) _ m, of q ?n]
      have al: "q AND 15 = 0" using ledger_entry(2) [OF q(1), of q ?n] by (simp add: bitfacts)
      have fr: "q = ?p \<or> map_of (live (fz_shadow f)) q = None" "map_of (AList.delete ?p (live (fz_shadow f))) q = None"
        using q(3) by (auto simp: sizes_def AList.delete_conv' split: if_splits)
      from moved_passes [OF f r(1) refl q(2,3) s1(2) w] show ?thesis using s1(1) False al fr ne
        unfolding op_realloc_def Let_def Shadow_erase_def Shadow_insert_def write_byte_def by (auto split: if_splits)
    qed
  qed (use a ne in \<open>simp_all add: op_realloc_def Let_def passes_def\<close>)
qed


section \<open>Programs and drivers\<close>

lemma churn_ledger:
  fixes s :: "'a api_state_scheme"
  assumes "ledger_ok rt s L"
  shows "churn_rounds rt t arg k n s = None \<and> fast_path_cache s t = 0
    \<or> (\<exists>s'. churn_rounds rt t arg k n s = Some s' \<and> ledger_ok rt s' L \<and> ledger_kept {} s L s' L \<and> (fast_path_cache s t \<noteq> 0 \<longrightarrow> fast_path_cache s' t \<noteq> 0))"
  using assms
proof (induction n arbitrary: k s)
  case (Suc n)
  let ?z = "1 + (arg * 31 + k * 17) mod 8176"
  have "(arg * 31 + k * 17) mod 8176 < 8176" by simp
  then have z: "?z < 2 ^ 64" by simp
  have rest: "churn_rounds rt t arg k (Suc n) s = None \<and> fast_path_cache s t = 0
      \<or> (\<exists>s'. churn_rounds rt t arg k (Suc n) s = Some s' \<and> ledger_ok rt s' L \<and> ledger_kept {} s L s' L \<and> (fast_path_cache s t \<noteq> 0 \<longrightarrow> fast_path_cache s' t \<noteq> 0))"
    if "churn_rounds rt t arg k (Suc n) s = churn_rounds rt t arg (k + 1) n s1" "ledger_ok rt s1 L" "ledger_kept {} s L s1 L"
      "fast_path_cache s t \<noteq> 0 \<Longrightarrow> fast_path_cache s1 t \<noteq> 0" for s1 :: "'a api_state_scheme"
    using Suc.IH [OF that(2), of "k + 1"] that(1,4) ledger_kept_trans [OF that(3), of "{}"] by auto
  show ?case
  proof (rule disjE [OF malloc_ledger [OF Suc.prems _ z, of t]]; (elim exE conjE)?)
    fix p s1 assume r: "fast_malloc rt t ?z s = Some (p, s1)" "got_ledger rt t s L ?z p s1"
    show ?thesis
    proof (cases "p = 0")
      case True
      then show ?thesis using r by (intro rest [of s1]) (simp_all add: got_ledger_def)
    next
      case False
      then have g: "ledger_ok rt s1 (L(p \<mapsto> ?z))" "ledger_kept {} s L s1 (L(p \<mapsto> ?z))" "L p = None" "fast_path_cache s1 t \<noteq> 0"
        using r(2) by (simp_all add: got_ledger_def)
      have w: "marked rt s1 (L(p \<mapsto> ?z)) p 0x7A (upd_mem (set_byte p 0x7A) s1)" by (rule mark_write [OF g(1), of p ?z]) simp_all
      let ?s2 = "upd_mem (set_byte p 0x7A) s1"
      have w': "ledger_ok rt ?s2 (L(p \<mapsto> ?z))" "ledger_kept {p} s1 (L(p \<mapsto> ?z)) ?s2 (L(p \<mapsto> ?z))" using w by (simp_all add: marked_def)
      have L: "(L(p \<mapsto> ?z))(p := None) = L" using g(3) by (simp add: fun_upd_idem)
      obtain s3 where s3: "fast_free rt t p ?s2 = Some s3" "ledger_ok rt s3 L" "ledger_kept {p} ?s2 (L(p \<mapsto> ?z)) s3 L" "fast_path_cache s3 t \<noteq> 0"
        using free_ledger(1) [OF w'(1), of p ?z t] g(4) unfolding L by auto
      have "ledger_kept {p} s L s3 L" using ledger_kept_trans [OF g(2) ledger_kept_trans [OF w'(2) s3(3)]] by simp
      then have "ledger_kept {} s L s3 L" using g(3) unfolding ledger_kept_def by (metis empty_iff insert_iff option.distinct(1))
      then show ?thesis using r(1) s3 False by (intro rest [of s3]) simp_all
    qed
  qed simp_all
qed (simp add: ledger_kept_def)

lemma op_churn_passes:
  fixes f :: "'a fuzz"
  assumes f: "fuzz_ok rt f"
  shows "passes (fuzz_ok rt) t f (op_churn rt t arg f)"
proof -
  have "ledger_ok rt (fz_heap f) (sizes (live (fz_shadow f)))" using f by (simp add: fuzz_ok_def shadow_ok_def)
  from churn_ledger [OF this, of t arg 0 "arg mod 8 + 1"] show ?thesis
  proof (elim disjE exE conjE)
    fix s' assume s': "churn_rounds rt t arg 0 (arg mod 8 + 1) (fz_heap f) = Some s'" "ledger_ok rt s' (sizes (live (fz_shadow f)))"
      "ledger_kept {} (fz_heap f) (sizes (live (fz_shadow f))) s' (sizes (live (fz_shadow f)))" "fast_path_cache (fz_heap f) t \<noteq> 0 \<longrightarrow> fast_path_cache s' t \<noteq> 0"
    have "shadow_ok rt (live (fz_shadow f)) s'" by (rule shadow_same [OF _ s'(2,3)]) (use f in \<open>simp add: fuzz_ok_def\<close>)
    then show ?thesis using f s'(1,4) by (simp add: op_churn_def passes_def fuzz_ok_def)
  qed (simp add: op_churn_def passes_def)
qed

lemma fuzz_op_passes:
  fixes f :: "'a fuzz"
  assumes f: "fuzz_ok rt f"
  shows "passes (fuzz_ok rt) t f (fuzz_op rt t b f)"
proof -
  let ?f = "f\<lparr>fz_shadow := (fz_shadow f)\<lparr>total_ops := add64 (total_ops (fz_shadow f)) 1\<rparr>\<rparr>"
  have ok: "fuzz_ok rt ?f" using f by (simp add: fuzz_ok_def)
  have p: "passes (fuzz_ok rt) t ?f r \<longleftrightarrow> passes (fuzz_ok rt) t f r" for r by (simp add: passes_def)
  have "b AND 31 \<le> 31" by (rule word_and_le1)
  then have a: "unat (b AND 31) < 32" by (simp add: word_le_nat_alt)
  show ?thesis unfolding fuzz_op_def Let_def
    using op_alloc_passes [OF ok a, of t] op_alloc_aligned_passes [OF ok a, of t] op_free_passes [OF ok, of t "unat (b AND 31)"] op_realloc_passes [OF ok a, of t]
      op_calloc_passes [OF ok a, of t] op_churn_passes [OF ok, of t "unat (b AND 31)"] by (simp only: p if_split simp_thms)
qed

lemma passes_from:
  assumes "passes I t f r" "fast_path_cache (fz_heap f0) t \<noteq> 0 \<longrightarrow> fast_path_cache (fz_heap f) t \<noteq> 0"
  shows "passes I t f0 r"
  using assms unfolding passes_def by auto

lemma passes_bind:
  assumes "passes I t f r" "\<And>f'. I f' \<Longrightarrow> passes J t f' (c f')"
  shows "passes J t f (do { x \<leftarrow> r; case x of Inl v \<Rightarrow> Some (Inl v) | Inr f' \<Rightarrow> c f' })"
  using assms unfolding passes_def by fastforce

lemma fuzz_loop_passes:
  fixes f :: "'a fuzz"
  assumes "fuzz_ok rt f"
  shows "passes (fuzz_ok rt) t f (fuzz_loop rt t data f)"
  using assms(1)
proof (induction data arbitrary: f)
  case (Cons b data)
  show ?case unfolding fuzz_loop.simps by (rule passes_bind [OF fuzz_op_passes [OF Cons.prems] Cons.IH])
qed (simp add: passes_def)

text \<open>Between programs only the shadow model has to be true.\<close>

definition between :: "rt_api \<Rightarrow> 'a fuzz \<Rightarrow> bool" where
  "between rt f \<longleftrightarrow> shadow_ok rt (live (fz_shadow f)) (fz_heap f)"

lemma RunProgram_passes:
  fixes f :: "'a fuzz"
  assumes "between rt f"
  shows "passes (between rt) t f (RunProgram rt t data f)"
proof -
  have "fuzz_ok rt (f\<lparr>fz_order := []\<rparr>)" using assms(1) by (simp add: fuzz_ok_def between_def)
  from fuzz_loop_passes [OF this, of t data]
  have p: "passes (fuzz_ok rt) t f (fuzz_loop rt t data (f\<lparr>fz_order := []\<rparr>))" by (simp add: passes_def)
  have e: "\<not> list_ex (\<lambda>(p, r). byte_at (mem (fz_heap f')) p \<noteq> rec_fill r) (live (fz_shadow f'))" if "fuzz_ok rt f'" for f' :: "'a fuzz"
    using that by (auto simp: fuzz_ok_def shadow_ok_def list_ex_iff)
  show ?thesis unfolding RunProgram_def by (rule passes_bind [OF p]) (use e in \<open>simp add: passes_def fuzz_ok_def between_def\<close>)
qed

lemma libfuzzer_passes:
  fixes f :: "'a fuzz"
  assumes "between rt f"
  shows "passes (between rt) t f (LLVMFuzzerTestOneInput rt t data f)"
  using RunProgram_passes [OF assms] assms by (simp add: LLVMFuzzerTestOneInput_def passes_def)

lemma free_all_ledger:
  fixes s :: "'a api_state_scheme"
  assumes "ledger_ok rt s (sizes l)" "distinct (map fst l)"
  shows "free_all rt t l s = None \<and> fast_path_cache s t = 0
    \<or> (\<exists>s'. free_all rt t l s = Some s' \<and> ledger_ok rt s' Map.empty \<and> (fast_path_cache s t \<noteq> 0 \<longrightarrow> fast_path_cache s' t \<noteq> 0))"
  using assms
proof (induction l arbitrary: s)
  case (Cons kv l)
  have e: "(sizes (kv # l))(fst kv := None) = sizes l"
    using Cons.prems(2) by (auto simp: sizes_def map_of_eq_None_iff [symmetric] intro!: ext)
  have "sizes (kv # l) (fst kv) = Some (rec_size (snd kv))" by (cases kv) (simp add: sizes_def)
  from free_ledger(1) [OF Cons.prems(1) this, of t] show ?case unfolding e
  proof (elim disjE exE conjE)
    fix s1 assume s1: "fast_free rt t (fst kv) s = Some s1" "ledger_ok rt s1 (sizes l)" "fast_path_cache s1 t \<noteq> 0"
    then show ?thesis using Cons.IH [OF s1(2)] Cons.prems(2) by auto
  qed simp
qed simp

lemma standalone_passes:
  fixes f :: "'a fuzz"
  assumes "between rt f"
  shows "passes (between rt) t f (standalone rt t progs k f)"
  using assms(1)
proof (induction progs arbitrary: k f)
  case (Cons data progs)
  have d: "passes (between rt) t f' (do { f' \<leftarrow> drain rt t f'; standalone rt t progs (add64 k 1) f' })" if f': "between rt f'" for f' :: "'a fuzz"
  proof -
    have l: "ledger_ok rt (fz_heap f') (sizes (live (fz_shadow f')))" "distinct (map fst (live (fz_shadow f')))" using f' by (simp_all add: between_def shadow_ok_def)
    from free_all_ledger [OF l, of t] show ?thesis
    proof (elim disjE exE conjE)
      fix s' assume s': "free_all rt t (live (fz_shadow f')) (fz_heap f') = Some s'" "ledger_ok rt s' Map.empty" "fast_path_cache (fz_heap f') t \<noteq> 0 \<longrightarrow> fast_path_cache s' t \<noteq> 0"
      let ?f = "f'\<lparr>fz_heap := s', fz_shadow := (fz_shadow f')\<lparr>live := []\<rparr>\<rparr>"
      have "between rt ?f" using s'(2) by (simp add: between_def shadow_ok_def)
      from passes_from [OF Cons.IH [OF this, of "add64 k 1"], of f'] show ?thesis using s'(1,3) by (simp add: drain_def)
    qed (simp add: drain_def passes_def)
  qed
  show ?case unfolding standalone.simps Let_def
    by (rule passes_bind [OF RunProgram_passes [OF Cons.prems]]) (use d Cons.IH in simp)
qed (simp add: passes_def)


text \<open>
  C9: the standalone fuzzer exits clean. Started on a heap whose live blocks its shadow model describes (an
  empty one, say), no sequence of byte programs makes it report: no
  allocation aliases a live block or is misaligned, no first byte of a live block is ever destroyed, zeroed
  memory is zero, a failed reallocation leaves its block alone, and every free finds its block. It runs to
  the end of the programs, unless its thread has no cache and can get none.
\<close>

theorem fuzzer_reports_nothing:
  fixes f :: "'a fuzz"
  assumes "ledger_ok rt (fz_heap f) (\<lambda>p. map_option rec_size (map_of (live (fz_shadow f)) p))" "distinct (map fst (live (fz_shadow f)))"
    "\<forall>(p, r) \<in> set (live (fz_shadow f)). byte_at (mem (fz_heap f)) p = rec_fill r"
  shows "(\<exists>f'. standalone rt t progs k f = Some (Inr f')) \<or> standalone rt t progs k f = None \<and> fast_path_cache (fz_heap f) t = 0"
proof -
  have "sizes (live (fz_shadow f)) = (\<lambda>p. map_option rec_size (map_of (live (fz_shadow f)) p))" by (simp add: sizes_def fun_eq_iff)
  then have "between rt f" using assms(1-3) by (simp add: between_def shadow_ok_def)
  from standalone_passes [OF this, of t progs k] show ?thesis by (auto simp: passes_def)
qed

theorem fuzzer_reports_nothing_witness:
  "\<exists>k s f'. GetFast demo_rt 0 api_start = Some (k, s) \<and> standalone demo_rt 0 [[0x03, 0x21, 0x45, 0x81, 0xA7, 0x60, 0xC1, 0xE5], [0x1F, 0x7F]] 0
     \<lparr>fz_shadow = \<lparr>live = [], total_ops = 0\<rparr>,
      fz_stats = \<lparr>st_allocs = 0, st_allocs_large = 0, st_aligned = 0, st_callocs = 0, st_reallocs = 0, st_frees = 0, st_cross_frees = 0, st_churn = 0\<rparr>,
      fz_order = [], fz_heap = s\<rparr> = Some (Inr f')"
proof -
  obtain k s g where s: "GetFast demo_rt 0 api_start = Some (k, s)" "got_cache demo_rt 0 api_start ghost_init k s g" "callable demo_rt s g"
    by (rule get_cache [OF api_start_callable, of 0]) (use api_start_cached [of 0] in blast)+
  have p: "fast_path_cache s 0 \<noteq> 0" using s(2) by (simp add: got_cache_def)
  have l: "ledger_ok demo_rt s Map.empty" using s(3) by (auto simp: ledger_ok_def covers_def)
  let ?f = "\<lparr>fz_shadow = \<lparr>live = [], total_ops = 0\<rparr>,
    fz_stats = \<lparr>st_allocs = 0, st_allocs_large = 0, st_aligned = 0, st_callocs = 0, st_reallocs = 0, st_frees = 0, st_cross_frees = 0, st_churn = 0\<rparr>,
    fz_order = [], fz_heap = s\<rparr>"
  have "\<exists>f'. standalone demo_rt 0 [[0x03, 0x21, 0x45, 0x81, 0xA7, 0x60, 0xC1, 0xE5], [0x1F, 0x7F]] 0 ?f = Some (Inr f')"
    using fuzzer_reports_nothing [where rt = demo_rt and f = ?f and t = 0 and k = 0, OF _ _ _, of "[[0x03, 0x21, 0x45, 0x81, 0xA7, 0x60, 0xC1, 0xE5], [0x1F, 0x7F]]"] l p
    by (simp del: standalone.simps)
  then show ?thesis using s(1) by blast
qed

end
