(* ===== verification/FA_HeapRuns.thy ===== *)
theory FA_HeapRuns
  imports FA_HeapProps FA_Accounting
begin

text \<open>
  Histories of the global heap (\<^verbatim>\<open>src/global_heap.cpp\<close>): a configuration is the heap's state with the
  books of its clients, the blocks (\<open>B\<close>) and the large spans (\<open>X\<close>) they were given and have not given
  back. \<open>heap_call\<close> has one rule per entry point of \<^verbatim>\<open>GlobalHeap\<close>; the rules say only what a client may
  pass and how it keeps its books, the state after a call is what the function returns. Between
  calls clients write into what they hold, and other threads take and release class locks.
\<close>

section \<open>Calls\<close>

datatype heap_unit = Blk addr | Spn addr

type_synonym 'a heap_conf = "'a gh_state_scheme \<times> addr set \<times> (addr \<rightharpoonup> nat)"

inductive heap_call :: "os_api \<Rightarrow> 'a heap_conf \<Rightarrow> heap_unit set \<Rightarrow> heap_unit set \<Rightarrow> 'a heap_conf \<Rightarrow> bool"
  for api where
  call_AllocateBatch:
  "\<not> lock_busy s a c \<Longrightarrow> 1 \<le> c \<Longrightarrow> c < NUM_SIZE_CLASSES \<Longrightarrow> a < NUM_ARENAS \<Longrightarrow> 0 < target \<Longrightarrow>
   AllocateBatch api c target a s = Some (h, n, s') \<Longrightarrow> chain (fb_next (mem s')) h xs \<Longrightarrow>
   heap_call api (s, B, X) {} (Blk ` set xs) (s', B \<union> set xs, X)"
| call_AllocateBlock:
  "\<not> lock_busy s a c \<Longrightarrow> 1 \<le> c \<Longrightarrow> c < NUM_SIZE_CLASSES \<Longrightarrow> a < NUM_ARENAS \<Longrightarrow>
   AllocateBlock_global api c a s = Some (p, s') \<Longrightarrow>
   heap_call api (s, B, X) {} (Blk ` ({p} - {0})) (s', B \<union> ({p} - {0}), X)"
| call_DeallocateBatchClass:
  "chain (fb_next (mem s)) h bs \<Longrightarrow> set bs \<subseteq> B \<Longrightarrow> \<forall>b \<in> set bs. fb_class_index (mem s) b = c \<Longrightarrow>
   DeallocateBatchClass api c h s = Some s' \<Longrightarrow>
   heap_call api (s, B, X) (Blk ` set bs) {} (s', B - set bs, X)"
| call_DeferBinToPending:
  "chain (fb_next (mem s)) h bs \<Longrightarrow> set bs \<subseteq> B \<Longrightarrow> \<forall>b \<in> set bs. fb_class_index (mem s) b = c \<Longrightarrow>
   DeferBinToPending c h s = Some s' \<Longrightarrow>
   heap_call api (s, B, X) (Blk ` set bs) {} (s', B - set bs, X)"
| call_DeallocateBatch:
  "chain (fb_next (mem s)) h bs \<Longrightarrow> set bs \<subseteq> B \<Longrightarrow> DeallocateBatch api h s = Some s' \<Longrightarrow>
   heap_call api (s, B, X) (Blk ` set bs) {} (s', B - set bs, X)"
| call_DeallocateBlock:
  "b \<in> B \<Longrightarrow> DeallocateBlock_global api b s = Some s' \<Longrightarrow>
   heap_call api (s, B, X) {Blk b} {} (s', B - {b}, X)"
| call_AllocateLarge:
  "0 < n \<Longrightarrow> n mod GetPageSize api = 0 \<Longrightarrow> n + GetPageSize api \<le> 2 ^ 64 \<Longrightarrow> AllocateLarge api n s = (p, s') \<Longrightarrow>
   heap_call api (s, B, X) {} (Spn ` ({p} - {0})) (s', B, if p = 0 then X else X(p \<mapsto> n))"
| call_DeallocateLarge:
  "X p = Some n \<Longrightarrow> heap_call api (s, B, X) {Spn p} {} (DeallocateLarge api p n s, B, X(p := None))"
| call_PurgePageCache:
  "\<forall>a < NUM_ARENAS. \<forall>c < NUM_SIZE_CLASSES. \<not> lock_busy s a c \<Longrightarrow> PurgePageCache api s = Some (n, s') \<Longrightarrow>
   heap_call api (s, B, X) {} {} (s', B, X)"
| write_block:
  "b \<in> B \<Longrightarrow> \<forall>a. a \<notin> {b + 16..<b + ClassIndexToSize (fb_class_index (mem s) b)} \<longrightarrow> m a = mem s a \<Longrightarrow>
   heap_call api (s, B, X) {Blk b} {Blk b} (s\<lparr>mem := m\<rparr>, B, X)"
| write_span:
  "X p = Some n \<Longrightarrow> \<forall>a. a \<notin> {p..<p + n} \<longrightarrow> m a = mem s a \<Longrightarrow>
   heap_call api (s, B, X) {Spn p} {Spn p} (s\<lparr>mem := m\<rparr>, B, X)"
| other_locks:
  "heap_call api (s, B, X) {} {} (s\<lparr>lock_busy := l\<rparr>, B, X)"

section \<open>The books and the heap agree\<close>

definition conf_view :: "os_api \<Rightarrow> view \<Rightarrow> 'a heap_conf \<Rightarrow> bool" where
  "conf_view api V x = (case x of (s, B, X) \<Rightarrow> gh_ok api {} s V \<and> client V (mem s) = B
     \<and> (\<forall>p n. X p = Some n \<longrightarrow> ext api s V p n)
     \<and> (\<forall>p q n k. X p = Some n \<and> X q = Some k \<and> p \<noteq> q \<longrightarrow> {p..<p + n} \<inter> {q..<q + k} = {}))"

definition conf_ok :: "os_api \<Rightarrow> 'a heap_conf \<Rightarrow> bool" where
  "conf_ok api x \<longleftrightarrow> (\<exists>V. conf_view api V x)"

fun conf_held :: "'a heap_conf \<Rightarrow> heap_unit set" where
  "conf_held (s, B, X) = Blk ` B \<union> Spn ` dom X"

fun conf_cells :: "'a heap_conf \<Rightarrow> heap_unit \<Rightarrow> nat set" where
  "conf_cells (s, B, X) (Blk b) = bcells (mem s) b"
| "conf_cells (s, B, X) (Spn p) = {p..<p + the (X p)}"

definition conf_moves :: "'a heap_conf \<Rightarrow> heap_unit set \<Rightarrow> heap_unit set \<Rightarrow> 'a heap_conf \<Rightarrow> bool" where
  "conf_moves x gone come y \<longleftrightarrow> conf_held y = conf_held x - gone \<union> come
     \<and> (\<forall>u \<in> conf_held x - gone. conf_cells y u = conf_cells x u \<and> (\<forall>a \<in> conf_cells x u. mem (fst y) a = mem (fst x) a))"

lemma conf_viewD:
  assumes "conf_view api V (s, B, X)"
  shows "gh_ok api {} s V" "client V (mem s) = B" "X p = Some n \<Longrightarrow> ext api s V p n"
    "X p = Some n \<Longrightarrow> X q = Some k \<Longrightarrow> p \<noteq> q \<Longrightarrow> {p..<p + n} \<inter> {q..<q + k} = {}"
  using assms unfolding conf_view_def by blast+

text \<open>
  What the heap accounts for is what the books say, for clients that give up the spans meeting \<open>R\<close>.
\<close>

lemma accounts_conf:
  assumes c: "conf_view api V (s, B, X)" and a: "accounts_but R api s V gone come s' V'"
    and rest: "\<forall>p n. X' p = Some n \<longrightarrow> X p = Some n \<and> {p..<p + n} \<inter> R = {}"
  shows "conf_view api V' (s', B - gone \<union> come, X')"
    "conf_moves (s, B, X) (Blk ` gone \<union> Spn ` (dom X - dom X')) (Blk ` come) (s', B - gone \<union> come, X')"
proof -
  note v = conf_viewD [OF c]
  have X': "X' p = Some n \<Longrightarrow> X p = Some n \<and> {p..<p + n} \<inter> R = {}" for p n using rest by blast
  have sp: "ext api s' V' p n" "\<And>x. x \<in> {p..<p + n} \<Longrightarrow> mem s' x = mem s x" if "X' p = Some n" for p n
  proof -
    have "ext api s V p n" "{p..<p + n} \<inter> R = {}" using v(3) X' [OF that] by blast+
    moreover have "spared api R s V s' V'" using a by (simp add: accounts_def)
    ultimately show "ext api s' V' p n" "\<And>x. x \<in> {p..<p + n} \<Longrightarrow> mem s' x = mem s x" unfolding spared_def by blast+
  qed
  have k: "kept (B - gone) (mem s) (mem s')" using a v(2) by (simp add: accounts_def)
  have "{p..<p + n} \<inter> {q..<q + k} = {}" if "X' p = Some n" "X' q = Some k" "p \<noteq> q" for p q n k
    using v(4) [of p n q k] X' that by blast
  then show "conf_view api V' (s', B - gone \<union> come, X')"
    using a v(2) sp(1) unfolding conf_view_def prod.case by (auto simp: accounts_def)
  have d: "dom X' \<subseteq> dom X" using X' by blast
  have "u \<in> conf_held (s', B - gone \<union> come, X') \<longleftrightarrow>
      u \<in> conf_held (s, B, X) - (Blk ` gone \<union> Spn ` (dom X - dom X')) \<union> Blk ` come" for u
    by (cases u) (use d in \<open>auto simp: image_iff\<close>)
  then have h: "conf_held (s', B - gone \<union> come, X') = conf_held (s, B, X) - (Blk ` gone \<union> Spn ` (dom X - dom X')) \<union> Blk ` come"
    by blast
  have "conf_cells (s', B - gone \<union> come, X') u = conf_cells (s, B, X) u
      \<and> (\<forall>x \<in> conf_cells (s, B, X) u. mem s' x = mem s x)"
    if u: "u \<in> conf_held (s, B, X) - (Blk ` gone \<union> Spn ` (dom X - dom X'))" for u
  proof (cases u)
    case (Blk b)
    then have "b \<in> B - gone" using u by auto
    then show ?thesis using kept_header(1,5) [OF k] Blk by simp
  next
    case (Spn p)
    then obtain n where n: "X' p = Some n" using u by (auto simp: image_iff)
    then show ?thesis using X' [OF n] sp(2) [OF n] Spn by simp
  qed
  then show "conf_moves (s, B, X) (Blk ` gone \<union> Spn ` (dom X - dom X')) (Blk ` come) (s', B - gone \<union> come, X')"
    unfolding conf_moves_def h fst_conv by blast
qed

lemma conf_blocks:
  assumes "conf_view api V (s, B, X)" "accounts api s V gone come s' V'"
  shows "conf_view api V' (s', B - gone \<union> come, X)" "conf_moves (s, B, X) (Blk ` gone) (Blk ` come) (s', B - gone \<union> come, X)"
  using accounts_conf [OF assms, of X] by simp_all

text \<open>A span that enters the books.\<close>

lemma conf_add_span:
  assumes c: "conf_view api V (s, B, X)" and e: "ext api s V p n" and new: "X p = None"
    and apart: "\<forall>q k. X q = Some k \<longrightarrow> {q..<q + k} \<inter> {p..<p + n} = {}"
  shows "conf_view api V (s, B, X(p \<mapsto> n))"
    "conf_moves x gone come (s, B, X) \<Longrightarrow> Spn p \<notin> conf_held x - gone \<Longrightarrow> conf_moves x gone (insert (Spn p) come) (s, B, X(p \<mapsto> n))"
proof -
  show "conf_view api V (s, B, X(p \<mapsto> n))"
    using c e apart unfolding conf_view_def prod.case by (auto simp: Int_commute split: if_splits) 
  have cells: "conf_cells (s, B, X(p \<mapsto> n)) u = conf_cells (s, B, X) u" if "u \<noteq> Spn p" for u using that by (cases u) auto
  show "conf_moves x gone (insert (Spn p) come) (s, B, X(p \<mapsto> n))" if m: "conf_moves x gone come (s, B, X)" "Spn p \<notin> conf_held x - gone"
    unfolding conf_moves_def
  proof (intro conjI ballI)
    have "conf_held (s, B, X) = conf_held x - gone \<union> come" using m(1) by (simp only: conf_moves_def)
    then show "conf_held (s, B, X(p \<mapsto> n)) = conf_held x - gone \<union> insert (Spn p) come" by auto
    fix u assume u: "u \<in> conf_held x - gone"
    then have "u \<noteq> Spn p" using m(2) by blast
    then show "conf_cells (s, B, X(p \<mapsto> n)) u = conf_cells x u" using m(1) u cells [of u] by (simp add: conf_moves_def)
    show "mem (fst (s, B, X(p \<mapsto> n))) a = mem (fst x) a" if "a \<in> conf_cells x u" for a using m(1) u that by (simp add: conf_moves_def)
  qed
qed

section \<open>Every call keeps them in agreement\<close>

text \<open>A call that returned what its contract says it returns.\<close>

lemma page_bound: "os_spec api \<Longrightarrow> ext api s V p n \<Longrightarrow> n + GetPageSize api \<le> 2 ^ 64"
  using ext_facts(5) [of api s V p n] os_spec_page_bounds(2) [of api] by auto

lemma gh_ok_locks: "gh_ok api X (s\<lparr>lock_busy := l\<rparr>) V = gh_ok api X s V"
proof -
  have "span_owned api (s\<lparr>lock_busy := l\<rparr>) p n = span_owned api s p n" for p n by (rule os_cong(3)) simp_all
  moreover have "ph_core api (s\<lparr>lock_busy := l\<rparr>) (vL V) = ph_core api s (vL V)" by (rule ph_core_cong) simp_all
  ultimately show ?thesis
    by (simp add: gh_ok_def ph_ok_def slabs_ok_def slab_good_def lists_ok_def queues_ok_def)
qed

lemma locks_conf:
  assumes "conf_view api V (s, B, X)"
  shows "conf_view api V (s\<lparr>lock_busy := l\<rparr>, B, X)" "conf_moves (s, B, X) {} {} (s\<lparr>lock_busy := l\<rparr>, B, X)"
proof -
  have "span_owned api (s\<lparr>lock_busy := l\<rparr>) p n = span_owned api s p n" for p n by (rule os_cong(3)) simp_all
  then have "ext api (s\<lparr>lock_busy := l\<rparr>) V p n = ext api s V p n" for p n by (simp add: ext_def)
  then show "conf_view api V (s\<lparr>lock_busy := l\<rparr>, B, X)" using assms by (simp add: conf_view_def gh_ok_locks)
  have "conf_cells (s\<lparr>lock_busy := l\<rparr>, B, X) u = conf_cells (s, B, X) u" for u by (cases u) simp_all
  then show "conf_moves (s, B, X) {} {} (s\<lparr>lock_busy := l\<rparr>, B, X)" by (simp add: conf_moves_def)
qed

lemma large_conf:
  assumes spec: "os_spec api" and c: "conf_view api V (s, B, X)"
    and n: "0 < n" "n mod GetPageSize api = 0" "n + GetPageSize api \<le> 2 ^ 64" "AllocateLarge api n s = (p, s')"
  shows "\<exists>V'. conf_view api V' (s', B, if p = 0 then X else X(p \<mapsto> n))
    \<and> conf_moves (s, B, X) {} (Spn ` ({p} - {0})) (s', B, if p = 0 then X else X(p \<mapsto> n))"
proof (cases "p = 0")
  case True
  have "accounts api s V {} {} s' V" using AllocateLarge_span [OF spec conf_viewD(1) [OF c] n] True by simp
  from conf_blocks [OF c this] show ?thesis using True by auto
next
  case False
  then obtain V1 where a: "new_span api s V p n s' V1" using AllocateLarge_span [OF spec conf_viewD(1) [OF c] n] by auto
  then have x: "accounts api s V {} {} s' V1" "ext api s' V1 p n" "\<And>q k. ext api s V q k \<Longrightarrow> {q..<q + k} \<inter> {p..<p + n} = {}"
    by (simp_all add: new_span_def)
  have ap: "\<forall>q k. X q = Some k \<longrightarrow> {q..<q + k} \<inter> {p..<p + n} = {}" using x(3) conf_viewD(3) [OF c] by blast
  have new: "X p = None"
  proof (rule ccontr)
    assume "X p \<noteq> None"
    then obtain k where k: "X p = Some k" by blast
    have "0 < k" "0 < n" using ext_facts(8) [OF spec] conf_viewD(3) [OF c k] x(2) by blast+
    moreover have "{p..<p + k} \<inter> {p..<p + n} = {}" using ap k by blast
    ultimately show False by auto
  qed
  note b = conf_blocks [OF c x(1), simplified]
  note add = conf_add_span [OF b(1) x(2) new ap]
  have "Spn p \<notin> conf_held (s, B, X)" using new by auto
  then show ?thesis using add(1) add(2) [OF b(2)] False by (auto simp: insert_Diff_if)
qed

lemma free_large_conf:
  assumes spec: "os_spec api" and c: "conf_view api V (s, B, X)" and p: "X p = Some n"
  shows "\<exists>V'. conf_view api V' (DeallocateLarge api p n s, B, X(p := None))
    \<and> conf_moves (s, B, X) {Spn p} {} (DeallocateLarge api p n s, B, X(p := None))"
proof -
  note v = conf_viewD [OF c]
  obtain V' where a: "accounts_but {p..<p + n} api s V {} {} (DeallocateLarge api p n s) V'"
    using DeallocateLarge_accounts [OF spec v(1) v(3) [OF p] page_bound [OF spec v(3) [OF p]]] by blast
  have r: "\<forall>q k. (X(p := None)) q = Some k \<longrightarrow> X q = Some k \<and> {q..<q + k} \<inter> {p..<p + n} = {}"
    using v(4) [OF _ p] by (simp add: fun_upd_def) 
  have "dom X - dom (X(p := None)) = {p}" using p by auto
  then show ?thesis using accounts_conf [where X' = "X(p := None)", OF c a r] by (simp add: exI [of _ V'])
qed

lemma write_conf:
  assumes spec: "os_spec api" and c: "conf_view api V (s, B, X)" and p: "X p = Some n" and w: "\<forall>a. a \<notin> {p..<p + n} \<longrightarrow> m a = mem s a"
  shows "conf_view api V (s\<lparr>mem := m\<rparr>, B, X) \<and> conf_moves (s, B, X) {Spn p} {Spn p} (s\<lparr>mem := m\<rparr>, B, X)"
proof -
  note v = conf_viewD [OF c]
  note e = ext_write [OF v(1) v(3) [OF p], where f = "\<lambda>_. m", unfolded upd_mem_def]
  have a: "accounts_but {p..<p + n} api s V {} {} (s\<lparr>mem := m\<rparr>) V" "ext api (s\<lparr>mem := m\<rparr>) V p n" using e w by blast+
  have r: "\<forall>q k. (X(p := None)) q = Some k \<longrightarrow> X q = Some k \<and> {q..<q + k} \<inter> {p..<p + n} = {}"
    using v(4) [OF _ p] by (simp add: fun_upd_def) 
  have d: "dom X - dom (X(p := None)) = {p}" using p by auto
  have k: "conf_view api V (s\<lparr>mem := m\<rparr>, B, X(p := None))" "conf_moves (s, B, X) {Spn p} {} (s\<lparr>mem := m\<rparr>, B, X(p := None))"
    using accounts_conf [where X' = "X(p := None)", OF c a(1) r, unfolded d] by simp_all
  have X: "(X(p := None))(p \<mapsto> n) = X" using p by auto
  have "\<forall>q k. (X(p := None)) q = Some k \<longrightarrow> {q..<q + k} \<inter> {p..<p + n} = {}" using r by blast
  note add = conf_add_span [OF k(1) a(2) _ this, unfolded X]
  show ?thesis using add(1) add(2) [OF _ k(2)] by simp
qed

lemma write_block_conf:
  assumes c: "conf_view api V (s, B, X)" and b: "b \<in> B"
    and w: "\<forall>a. a \<notin> {b + 16..<b + ClassIndexToSize (fb_class_index (mem s) b)} \<longrightarrow> m a = mem s a"
  shows "conf_view api V (s\<lparr>mem := m\<rparr>, B, X) \<and> conf_moves (s, B, X) {Blk b} {Blk b} (s\<lparr>mem := m\<rparr>, B, X)"
proof -
  note v = conf_viewD [OF c]
  have "accounts api s V {b} {b} (s\<lparr>mem := m\<rparr>) V"
    using client_write [OF v(1), of b m] v(2) b w by (auto simp: accounts_def)
  from conf_blocks [OF c this] b show ?thesis by (simp add: insert_absorb)
qed

text \<open>Every call of a client with correct books leaves correct books.\<close>

lemma heap_call_conf:
  assumes spec: "os_spec api" and call: "heap_call api x gone come y" and c: "conf_view api V x"
  shows "\<exists>V'. conf_view api V' y \<and> conf_moves x gone come y"
  using call c
proof cases
  case (call_AllocateBatch s a c target h n s' xs B X)
  note v = conf_viewD [OF c [unfolded call_AllocateBatch(1)]]
  obtain h1 ys s1 V1 where r: "AllocateBatch api c target a s = Some (h1, length ys, s1)" "supplied api c s V h1 ys s1 V1"
    using AllocateBatch_supplied [OF spec v(1) call_AllocateBatch(5-9)] by blast
  have "chain (fb_next (mem s')) h ys" "accounts api s V {} (set ys) s' V1"
    using r call_AllocateBatch(10) by (auto simp: supplied_def)
  then have "accounts api s V {} (set xs) s' V1" using chain_unique call_AllocateBatch(11) by blast
  from conf_blocks [OF c [unfolded call_AllocateBatch(1)] this] show ?thesis using call_AllocateBatch(1-4) by auto
next
  case (call_AllocateBlock s a c p s' B X)
  note v = conf_viewD [OF c [unfolded call_AllocateBlock(1)]]
  obtain V1 where "accounts api s V {} ({p} - {0}) s' V1"
    using AllocateBlock_global_accounts [OF spec v(1) call_AllocateBlock(5-8)] call_AllocateBlock(9) by (cases "p = 0") auto
  from conf_blocks [OF c [unfolded call_AllocateBlock(1)] this] show ?thesis using call_AllocateBlock(1-4) by auto
next
  case (call_DeallocateBatchClass s h bs B c s' X)
  note v = conf_viewD [OF c [unfolded call_DeallocateBatchClass(1)]]
  obtain V1 where "accounts api s V (set bs) {} s' V1"
    using DeallocateBatchClass_accounts [OF spec v(1), of c h bs] call_DeallocateBatchClass(5-8) v(2) by (auto simp: held_list_def)
  from conf_blocks [OF c [unfolded call_DeallocateBatchClass(1)] this] show ?thesis using call_DeallocateBatchClass(1-4) by auto
next
  case (call_DeferBinToPending s h bs B c s' X)
  note v = conf_viewD [OF c [unfolded call_DeferBinToPending(1)]]
  obtain V1 where "accounts api s V (set bs) {} s' V1"
    using DeferBinToPending_accounts [OF spec v(1), of c h bs] call_DeferBinToPending(5-8) v(2) by (auto simp: held_list_def)
  from conf_blocks [OF c [unfolded call_DeferBinToPending(1)] this] show ?thesis using call_DeferBinToPending(1-4) by auto
next
  case (call_DeallocateBatch s h bs B s' X)
  note v = conf_viewD [OF c [unfolded call_DeallocateBatch(1)]]
  obtain V1 where "accounts api s V (set bs) {} s' V1"
    using DeallocateBatch_accounts [OF spec v(1) call_DeallocateBatch(5)] call_DeallocateBatch(6,7) v(2) by auto
  from conf_blocks [OF c [unfolded call_DeallocateBatch(1)] this] show ?thesis using call_DeallocateBatch(1-4) by auto
next
  case (call_DeallocateBlock b B s s' X)
  note v = conf_viewD [OF c [unfolded call_DeallocateBlock(1)]]
  obtain V1 where "accounts api s V {b} {} s' V1"
    using DeallocateBlock_global_accounts [OF spec v(1), of b] call_DeallocateBlock(5,6) v(2) by auto
  from conf_blocks [OF c [unfolded call_DeallocateBlock(1)] this] show ?thesis using call_DeallocateBlock(1-4) by auto
next
  case (call_AllocateLarge n s p s' B X)
  show ?thesis using large_conf [OF spec c [unfolded call_AllocateLarge(1)] call_AllocateLarge(5-8)] call_AllocateLarge(1-4) by simp
next
  case (call_DeallocateLarge X p n s B)
  show ?thesis using free_large_conf [OF spec c [unfolded call_DeallocateLarge(1)] call_DeallocateLarge(5)] call_DeallocateLarge(1-4) by simp
next
  case (call_PurgePageCache s n s' B X)
  note v = conf_viewD [OF c [unfolded call_PurgePageCache(1)]]
  obtain V1 where "accounts api s V {} {} s' V1"
    using PurgePageCache_accounts [OF spec v(1)] call_PurgePageCache(5,6) by fastforce
  from conf_blocks [OF c [unfolded call_PurgePageCache(1)] this] show ?thesis using call_PurgePageCache(1-4) by auto
next
  case (write_block b B s m X)
  show ?thesis using write_block_conf [OF c [unfolded write_block(1)] write_block(5,6)] write_block(1-4) by blast
next
  case (write_span X p n m s B)
  show ?thesis using write_conf [OF spec c [unfolded write_span(1)] write_span(5,6)] write_span(1-4) by blast
next
  case (other_locks s B X l)
  show ?thesis using locks_conf [OF c [unfolded other_locks(1)]] other_locks by blast
qed

section \<open>The heap as an accounting interface\<close>

definition heap_step :: "os_api \<Rightarrow> 'a heap_conf \<Rightarrow> heap_unit set \<Rightarrow> heap_unit set \<Rightarrow> 'a heap_conf \<Rightarrow> bool" where
  "heap_step api x gone come y \<longleftrightarrow> os_spec api \<and> conf_ok api x \<and> heap_call api x gone come y"

lemma heap_step_moves:
  assumes "heap_step api x gone come y"
  shows "conf_ok api y" "conf_moves x gone come y"
proof -
  obtain V where "conf_view api V x" using assms by (auto simp: heap_step_def conf_ok_def)
  then obtain V' where "conf_view api V' y" "conf_moves x gone come y"
    using heap_call_conf [of api x gone come y V] assms by (auto simp: heap_step_def)
  then show "conf_ok api y" "conf_moves x gone come y" unfolding conf_ok_def by blast+
qed

lemma conf_disjoint:
  assumes ok: "conf_ok api x" and u: "u \<in> conf_held x" "v \<in> conf_held x" "u \<noteq> v"
  shows "conf_cells x u \<inter> conf_cells x v = {}"
proof -
  obtain s B X where x: "x = (s, B, X)" by (cases x) auto
  obtain V where "conf_view api V (s, B, X)" using ok by (auto simp: conf_ok_def x)
  note v = conf_viewD [OF this]
  have bs: "bcells (mem s) b \<inter> {p..<p + n} = {}" if "b \<in> B" "X p = Some n" for b p n
    using client_used(1) [OF v(1)] client_slab(1) [OF v(1)] v(2) v(3) [OF that(2)] that(1) unfolding ext_def by blast
  have bb: "bcells (mem s) b \<inter> bcells (mem s) c = {}" if "b \<in> B" "c \<in> B" "b \<noteq> c" for b c
    using client_apart [OF v(1), of b c] v(2) that by simp
  have held: "Blk b \<in> conf_held x \<longleftrightarrow> b \<in> B" "Spn p \<in> conf_held x \<longleftrightarrow> p \<in> dom X" for b p by (auto simp: x)
  show ?thesis
  proof (cases u; cases v)
    fix b c assume "u = Blk b" "v = Blk c"
    then show ?thesis using bb [of b c] u held by (simp add: x)
  next
    fix b p assume e: "u = Blk b" "v = Spn p"
    then obtain n where "X p = Some n" using u held by auto
    then show ?thesis using bs [of b p n] u held e by (simp add: x)
  next
    fix p b assume e: "u = Spn p" "v = Blk b"
    then obtain n where "X p = Some n" using u held by auto
    then show ?thesis using bs [of b p n] u held e by (simp add: x Int_commute)
  next
    fix p q assume e: "u = Spn p" "v = Spn q"
    then obtain n k where "X p = Some n" "X q = Some k" using u held by auto
    then show ?thesis using v(4) [of p n q k] u e by (simp add: x)
  qed
qed

interpretation heap: accounting "conf_ok api" conf_held conf_cells "\<lambda>x. mem (fst x)" "heap_step api"
  for api :: os_api
proof
  fix x :: "'a heap_conf" and u v
  assume "conf_ok api x" "u \<in> conf_held x" "v \<in> conf_held x" "u \<noteq> v"
  then show "conf_cells x u \<inter> conf_cells x v = {}" by (rule conf_disjoint)
next
  fix x y :: "'a heap_conf" and gone come u
  assume st: "heap_step api x gone come y"
  note m = heap_step_moves [OF st]
  show "conf_ok api y" by (rule m(1))
  show "conf_held y = conf_held x - gone \<union> come" using m(2) by (simp add: conf_moves_def)
  assume "u \<in> conf_held x - gone"
  then show "conf_cells y u = conf_cells x u \<and> (\<forall>a \<in> conf_cells x u. mem (fst y) a = mem (fst x) a)"
    using m(2) by (simp add: conf_moves_def)
qed

lemma call_run_steps:
  assumes "os_spec api"
  shows "acc_run (heap_call api) x h y \<Longrightarrow> conf_ok api x \<Longrightarrow> acc_run (heap_step api) x h y"
proof (induction rule: acc_run.induct)
  case (acc_run_step x gone come x1 h y)
  then have st: "heap_step api x gone come x1" using assms by (simp add: heap_step_def)
  show ?case by (rule acc_run.acc_run_step [OF st acc_run_step.IH [OF heap_step_moves(1) [OF st]]])
qed (rule acc_run_refl)

text \<open>
  C28: over every history of calls of the global heap (taking and giving back blocks one by one, in
  batches of one class or of any mix, parking bins, taking and giving back large spans, purging) in
  which the clients give back only what their books say they hold and write only there, and other
  threads take and release class locks at any moment: the books agree with the heap at the end (the
  blocks in them are exactly those outside the heap), all blocks and spans in them are pairwise
  disjoint, and a block or span that no call of the history gave back or wrote is still in them, at
  the same cells and with the same contents.
\<close>

theorem heap_history_keeps_blocks:
  assumes "os_spec api" "conf_ok api x" "acc_run (heap_call api) x h y"
  shows "conf_ok api y
    \<and> (\<forall>u \<in> conf_held y. \<forall>v \<in> conf_held y. u \<noteq> v \<longrightarrow> conf_cells y u \<inter> conf_cells y v = {})
    \<and> (\<forall>u \<in> conf_held x. (\<forall>(gone, come) \<in> set h. u \<notin> gone) \<longrightarrow>
        u \<in> conf_held y \<and> conf_cells y u = conf_cells x u \<and> (\<forall>a \<in> conf_cells x u. mem (fst y) a = mem (fst x) a))"
proof -
  have r: "acc_run (heap_step api) x h y" by (rule call_run_steps [OF assms(1,3,2)])
  have k: "u \<in> conf_held y \<and> conf_cells y u = conf_cells x u \<and> (\<forall>a \<in> conf_cells x u. mem (fst y) a = mem (fst x) a)"
    if "u \<in> conf_held x" "\<forall>(gone, come) \<in> set h. u \<notin> gone" for u
    by (rule heap.run_keep [OF r that(1)]) (use that(2) in blast)
  show ?thesis using heap.run_inv [OF r assms(2)] heap.run_disjoint [OF r assms(2)] k by blast
qed

theorem heap_history_keeps_blocks_witness:
  "\<exists>h xs s s'. AllocateBatch demo_os 3 4 0 gh_init = Some (h, length xs, s) \<and> DeallocateBatchClass demo_os 3 h s = Some s'
     \<and> xs \<noteq> [] \<and> acc_run (heap_call demo_os) (gh_init, {}, \<lambda>_. None) [({}, Blk ` set xs), (Blk ` set xs, {})] (s', set xs - set xs, \<lambda>_. None)
     \<and> conf_ok demo_os (s', {}, \<lambda>_. None)"
proof -
  obtain h xs s V where b: "AllocateBatch demo_os 3 4 0 gh_init = Some (h, length xs, s)" "supplied demo_os 3 gh_init view_init h xs s V"
    "xs \<noteq> []" "chain (fb_next (mem s)) h xs" "\<forall>x \<in> set xs. fb_class_index (mem s) x = 3" by (rule demo_refill)
  have a: "accounts demo_os gh_init view_init {} (set xs) s V" and hl: "held_list 3 s V h xs"
    using b(2) supplied_sub [OF b(2)] by (auto simp: supplied_def held_list_def)
  obtain s' where r: "DeallocateBatchClass demo_os 3 h s = Some s'"
    using DeallocateBatchClass_accounts [OF demo_os_spec accounts_ok [OF a] hl] by blast
  have c1: "heap_call demo_os (gh_init, {}, \<lambda>_. None) {} (Blk ` set xs) (s, set xs, \<lambda>_. None)"
    using call_AllocateBatch [OF demo_args b(1,4), of "{}" "\<lambda>_. None"] by simp
  have c2: "heap_call demo_os (s, set xs, \<lambda>_. None) (Blk ` set xs) {} (s', set xs - set xs, \<lambda>_. None)"
    by (rule call_DeallocateBatchClass [OF b(4) order_refl b(5) r])
  have run: "acc_run (heap_call demo_os) (gh_init, {}, \<lambda>_. None) [({}, Blk ` set xs), (Blk ` set xs, {})] (s', set xs - set xs, \<lambda>_. None)"
    by (rule acc_run_step [where step = "heap_call demo_os", OF c1], rule acc_run_step [where step = "heap_call demo_os", OF c2], rule acc_run_refl)
  have "conf_ok demo_os (gh_init, {}, \<lambda>_. None)"
    using gh_init_ok by (auto simp: conf_ok_def conf_view_def intro!: exI [of _ view_init])
  from heap_history_keeps_blocks [OF demo_os_spec this run] b(1,3) r run show ?thesis by auto
qed

end
