(* ===== verification/FA_Registry.thy ===== *)
theory FA_Registry
  imports FA_Prelude "HOL-Library.Multiset"
begin

text \<open>
  The allocation registry of debug builds (\<^verbatim>\<open>AllocRegistry\<close> in \<^verbatim>\<open>src/debug_aid.h\<close>, \<^verbatim>\<open>src/debug_aid.cpp\<close>): 16
  shards, each an open-addressing hash table with tombstones. A probe that finds neither its pointer
  nor an empty slot goes on forever, so the probe loops are partial functions; whether \<^verbatim>\<open>std::malloc\<close>
  of a new table succeeds is an argument (\<open>mem_ok\<close>). The shard locks are held by one thread at a time,
  so an operation is one step. The registry is shown to refine a finite map from live pointers to
  records while its tables can grow, and to hang when a table that cannot grow is full.
\<close>

section \<open>Records and hashing\<close>

record alloc_record =
  ar_ptr :: addr
  ar_size :: nat
  ar_usable :: nat
  ar_sequence :: nat
  ar_thread_id :: nat
  ar_class_or_large :: nat

record reg_shard =
  sh_table :: "alloc_record list"
  sh_capacity :: nat
  sh_count :: nat
  sh_tombstones :: nat
  sh_live_bytes :: nat

record alloc_registry =
  reg_shards :: "nat \<Rightarrow> reg_shard"
  reg_sequence :: nat

definition kShardCount :: nat where "kShardCount = 16"
definition kInitialShardCapacity :: nat where "kInitialShardCapacity = 1024"
definition no_slot :: nat where "no_slot = 2 ^ 64 - 1"

definition zero_record :: alloc_record where
  "zero_record = \<lparr>ar_ptr = 0, ar_size = 0, ar_usable = 0, ar_sequence = 0, ar_thread_id = 0, ar_class_or_large = 0\<rparr>"

definition HashPtr :: "addr \<Rightarrow> nat \<Rightarrow> nat" where
  "HashPtr p msk = mul64 (p div 16) 0x9E3779B97F4A7C15 AND msk"

definition Tombstone :: addr where "Tombstone = 1"

definition IsTombstone :: "addr \<Rightarrow> bool" where
  "IsTombstone p \<longleftrightarrow> p = 1"

definition HashShard :: "addr \<Rightarrow> nat" where
  "HashShard p = (p div 16) mod kShardCount"

section \<open>Operations\<close>

text \<open>
  The constructor: the flag of a shard says whether \<^verbatim>\<open>std::malloc\<close> of its table succeeds. A null table is an
  empty list, with the capacity set all the same; no operation tests for it, so the theorems ask for
  \<open>reg_ok\<close>, which holds exactly when every table was allocated (\<open>reg_ctor_iff\<close>).
\<close>

definition AllocRegistry_ctor :: "(nat \<Rightarrow> bool) \<Rightarrow> alloc_registry" where
  "AllocRegistry_ctor mem_ok = \<lparr>reg_shards = \<lambda>i. \<lparr>sh_table = (if mem_ok i then replicate kInitialShardCapacity zero_record else []),
     sh_capacity = kInitialShardCapacity, sh_count = 0, sh_tombstones = 0, sh_live_bytes = 0\<rparr>, reg_sequence = 0\<rparr>"

abbreviation new_registry :: alloc_registry where
  "new_registry \<equiv> AllocRegistry_ctor (\<lambda>_. True)"

text \<open>The loop of \<^verbatim>\<open>GrowShard\<close> that looks for an empty slot of the new table.\<close>

partial_function (option) grow_slot :: "alloc_record list \<Rightarrow> nat \<Rightarrow> nat \<Rightarrow> nat option" where
  "grow_slot nt msk slot = (if ar_ptr (nt ! slot) \<noteq> 0 then grow_slot nt msk ((slot + 1) AND msk) else Some slot)"

fun grow_copy :: "alloc_record list \<Rightarrow> nat \<Rightarrow> alloc_record list \<Rightarrow> alloc_record list option" where
  "grow_copy [] msk nt = Some nt"
| "grow_copy (r # rs) msk nt =
     (if ar_ptr r \<noteq> 0 \<and> \<not> IsTombstone (ar_ptr r)
      then (case grow_slot nt msk (HashPtr (ar_ptr r) msk) of None \<Rightarrow> None | Some slot \<Rightarrow> grow_copy rs msk (nt[slot := r]))
      else grow_copy rs msk nt)"

definition GrowShard :: "bool \<Rightarrow> reg_shard \<Rightarrow> reg_shard option" where
  "GrowShard mem_ok sh =
     (let new_cap = mul64 (sh_capacity sh) 2
      in if \<not> mem_ok then Some sh
         else map_option (\<lambda>nt. sh\<lparr>sh_table := nt, sh_capacity := new_cap, sh_tombstones := 0\<rparr>)
                (grow_copy (take (sh_capacity sh) (sh_table sh)) (sub64 new_cap 1) (replicate new_cap zero_record)))"

text \<open>The probe of \<^verbatim>\<open>Insert\<close>: the slot of the live entry, or the empty slot it ended at and the first tombstone passed.\<close>

partial_function (option) insert_probe :: "alloc_record list \<Rightarrow> nat \<Rightarrow> addr \<Rightarrow> nat \<Rightarrow> nat \<Rightarrow> (bool \<times> nat \<times> nat) option" where
  "insert_probe tab msk p slot first_tombstone =
     (let q = ar_ptr (tab ! slot)
      in if q = 0 then Some (False, slot, first_tombstone)
         else if IsTombstone q then insert_probe tab msk p ((slot + 1) AND msk) (if first_tombstone = no_slot then slot else first_tombstone)
         else if q = p then Some (True, slot, first_tombstone)
         else insert_probe tab msk p ((slot + 1) AND msk) first_tombstone)"

definition shard_insert :: "bool \<Rightarrow> nat \<Rightarrow> alloc_record \<Rightarrow> reg_shard \<Rightarrow> (alloc_record option \<times> reg_shard) option" where
  "shard_insert mem_ok seq rec sh =
     (case (if mul64 (add64 (sh_count sh) (sh_tombstones sh)) 10 \<ge> mul64 (sh_capacity sh) 7 then GrowShard mem_ok sh else Some sh) of
        None \<Rightarrow> None
      | Some sh \<Rightarrow>
          (let msk = sub64 (sh_capacity sh) 1
           in case insert_probe (sh_table sh) msk (ar_ptr rec) (HashPtr (ar_ptr rec) msk) no_slot of
                None \<Rightarrow> None
              | Some (found, slot, first_tombstone) \<Rightarrow>
                  if found then Some (Some (sh_table sh ! slot), sh)
                  else let sh1 = (if first_tombstone \<noteq> no_slot then sh\<lparr>sh_tombstones := sub64 (sh_tombstones sh) 1\<rparr> else sh);
                           slot = (if first_tombstone \<noteq> no_slot then first_tombstone else slot)
                       in Some (None, sh1\<lparr>sh_table := (sh_table sh1)[slot := rec\<lparr>ar_sequence := seq\<rparr>],
                                          sh_count := add64 (sh_count sh1) 1, sh_live_bytes := add64 (sh_live_bytes sh1) (ar_size rec)\<rparr>)))"

definition set_shard :: "nat \<Rightarrow> reg_shard \<Rightarrow> alloc_registry \<Rightarrow> alloc_registry" where
  "set_shard i sh r = r\<lparr>reg_shards := (reg_shards r)(i := sh)\<rparr>"

text \<open>\<^verbatim>\<open>Insert\<close>: \<open>None\<close> as existing record means success.\<close>

definition Registry_Insert :: "bool \<Rightarrow> alloc_record \<Rightarrow> alloc_registry \<Rightarrow> (bool \<times> alloc_record option \<times> alloc_registry) option" where
  "Registry_Insert mem_ok rec r =
     (let i = HashShard (ar_ptr rec)
      in case shard_insert mem_ok (reg_sequence r) rec (reg_shards r i) of
           None \<Rightarrow> None
         | Some (Some existing, sh) \<Rightarrow> Some (False, Some existing, set_shard i sh r)
         | Some (None, sh) \<Rightarrow> Some (True, None, (set_shard i sh r)\<lparr>reg_sequence := add64 (reg_sequence r) 1\<rparr>))"

text \<open>\<^verbatim>\<open>Erase\<close>: the slot of the live entry, or none.\<close>

partial_function (option) erase_probe :: "alloc_record list \<Rightarrow> nat \<Rightarrow> addr \<Rightarrow> nat \<Rightarrow> nat option option" where
  "erase_probe tab msk p slot =
     (let q = ar_ptr (tab ! slot)
      in if q = 0 then Some None
         else if \<not> IsTombstone q \<and> q = p then Some (Some slot)
         else erase_probe tab msk p ((slot + 1) AND msk))"

definition shard_erase :: "addr \<Rightarrow> reg_shard \<Rightarrow> (alloc_record option \<times> reg_shard) option" where
  "shard_erase p sh =
     (let msk = sub64 (sh_capacity sh) 1
      in case erase_probe (sh_table sh) msk p (HashPtr p msk) of
           None \<Rightarrow> None
         | Some None \<Rightarrow> Some (None, sh)
         | Some (Some slot) \<Rightarrow>
             (let e = sh_table sh ! slot;
                  lb = (if sh_live_bytes sh \<ge> ar_size e then sub64 (sh_live_bytes sh) (ar_size e) else sh_live_bytes sh)
              in Some (Some e, sh\<lparr>sh_table := (sh_table sh)[slot := e\<lparr>ar_ptr := Tombstone\<rparr>], sh_live_bytes := lb,
                                  sh_count := sub64 (sh_count sh) 1, sh_tombstones := add64 (sh_tombstones sh) 1\<rparr>)))"

definition Registry_Erase :: "addr \<Rightarrow> alloc_registry \<Rightarrow> (bool \<times> alloc_record option \<times> alloc_registry) option" where
  "Registry_Erase p r =
     (let i = HashShard p
      in case shard_erase p (reg_shards r i) of
           None \<Rightarrow> None
         | Some (out, sh) \<Rightarrow> Some (out \<noteq> None, out, set_shard i sh r))"

definition Registry_live_count :: "alloc_registry \<Rightarrow> nat" where
  "Registry_live_count r = foldl (\<lambda>n i. add64 n (sh_count (reg_shards r i))) 0 [0..<kShardCount]"

definition Registry_live_bytes :: "alloc_registry \<Rightarrow> nat" where
  "Registry_live_bytes r = foldl (\<lambda>n i. add64 n (sh_live_bytes (reg_shards r i))) 0 [0..<kShardCount]"

text \<open>The records a leak report prints, in order, with its totals.\<close>

definition live_record :: "alloc_record \<Rightarrow> bool" where
  "live_record e \<longleftrightarrow> ar_ptr e \<noteq> 0 \<and> \<not> IsTombstone (ar_ptr e)"

definition Registry_DumpLeaks :: "alloc_registry \<Rightarrow> alloc_record list \<times> nat \<times> nat" where
  "Registry_DumpLeaks r =
     (let leaks = concat (map (\<lambda>i. filter live_record (take (sh_capacity (reg_shards r i)) (sh_table (reg_shards r i)))) [0..<kShardCount])
      in (leaks, foldl (\<lambda>n _. add64 n 1) 0 leaks, foldl (\<lambda>n e. add64 n (ar_size e)) 0 leaks))"

definition Registry_ResetForTesting :: "alloc_registry \<Rightarrow> alloc_registry" where
  "Registry_ResetForTesting r = r\<lparr>reg_shards := (\<lambda>i. (reg_shards r i)\<lparr>sh_table := replicate (sh_capacity (reg_shards r i)) zero_record,
     sh_count := 0, sh_tombstones := 0, sh_live_bytes := 0\<rparr>), reg_sequence := 0\<rparr>"

section \<open>Probe paths\<close>

definition home :: "alloc_record list \<Rightarrow> addr \<Rightarrow> nat" where
  "home tab p = HashPtr p (length tab - 1)"

definition at :: "alloc_record list \<Rightarrow> nat \<Rightarrow> nat \<Rightarrow> nat" where
  "at tab h d = (h + d) mod length tab"

text \<open>
  The table is as long as a power of two, no pointer is live twice, and a live entry is found from its
  home slot without passing an empty one.
\<close>

definition table_ok :: "alloc_record list \<Rightarrow> bool" where
  "table_ok tab \<longleftrightarrow> (\<exists>k. length tab = 2 ^ k) \<and> length tab < 2 ^ 64 - 1
     \<and> (\<forall>i < length tab. \<forall>j < length tab. live_record (tab ! i) \<and> ar_ptr (tab ! j) = ar_ptr (tab ! i) \<longrightarrow> j = i)
     \<and> (\<forall>j < length tab. live_record (tab ! j) \<longrightarrow>
          (\<exists>d. j = at tab (home tab (ar_ptr (tab ! j))) d \<and> (\<forall>e < d. ar_ptr (tab ! at tab (home tab (ar_ptr (tab ! j))) e) \<noteq> 0)))"

definition key :: "addr \<Rightarrow> bool" where
  "key p \<longleftrightarrow> p \<noteq> 0 \<and> p \<noteq> 1"

lemma live_key: "live_record e \<longleftrightarrow> key (ar_ptr e)"
  by (simp add: live_record_def key_def IsTombstone_def)

lemma table_okD:
  assumes "table_ok tab"
  shows "0 < length tab" "length tab < 2 ^ 64 - 1" "s < length tab \<Longrightarrow> (s + 1) AND (length tab - 1) = at tab s (Suc 0)" "home tab p < length tab" "at tab h d < length tab"
proof -
  obtain k where k: "length tab = 2 ^ k" "length tab < 2 ^ 64 - 1" using assms by (auto simp: table_ok_def)
  show "0 < length tab" "length tab < 2 ^ 64 - 1" using k by simp_all
  have m: "x AND (2 ^ k - 1) = x mod 2 ^ k" for x :: nat by (metis mask_eq_exp_minus_1 take_bit_eq_mask take_bit_eq_mod)
  show "(s + 1) AND (length tab - 1) = at tab s (Suc 0)" unfolding k(1) m at_def by simp
  show "home tab p < length tab" unfolding home_def HashPtr_def k(1) m by simp
  show "at tab h d < length tab" by (simp add: at_def k(1))
qed

lemma at_simps [simp]:
  "s < length tab \<Longrightarrow> at tab s 0 = s" "at tab (at tab s (Suc 0)) d = at tab s (Suc d)"
  by (simp_all add: at_def mod_simps)

lemma insert_walk:
  assumes "table_ok tab" "s < length tab" "key p" "\<And>e. e < d \<Longrightarrow> ar_ptr (tab ! at tab s e) \<noteq> 0 \<and> ar_ptr (tab ! at tab s e) \<noteq> p"
  shows "\<exists>ft'. insert_probe tab (length tab - 1) p s ft = insert_probe tab (length tab - 1) p (at tab s d) ft'
    \<and> (ft' = ft \<or> (\<exists>e < d. ft' = at tab s e \<and> ar_ptr (tab ! ft') = 1))"
  using assms(2,4)
proof (induction d arbitrary: s ft)
  case 0
  then show ?case by auto
next
  case (Suc d)
  note t = table_okD [OF assms(1)]
  have 0: "ar_ptr (tab ! s) \<noteq> 0" "ar_ptr (tab ! s) \<noteq> p" using Suc.prems(2) [of 0] Suc.prems(1) by simp_all
  let ?ft = "if IsTombstone (ar_ptr (tab ! s)) \<and> ft = no_slot then s else ft"
  have "insert_probe tab (length tab - 1) p s ft = insert_probe tab (length tab - 1) p (at tab s (Suc 0)) ?ft"
    using 0 t(3) [OF Suc.prems(1)] by (subst insert_probe.simps) (simp add: Let_def)
  moreover obtain ft' where f: "insert_probe tab (length tab - 1) p (at tab s (Suc 0)) ?ft = insert_probe tab (length tab - 1) p (at tab (at tab s (Suc 0)) d) ft'"
    "ft' = ?ft \<or> (\<exists>e < d. ft' = at tab (at tab s (Suc 0)) e \<and> ar_ptr (tab ! ft') = 1)"
  proof -
    have "ar_ptr (tab ! at tab (at tab s (Suc 0)) e) \<noteq> 0 \<and> ar_ptr (tab ! at tab (at tab s (Suc 0)) e) \<noteq> p" if "e < d" for e
      using Suc.prems(2) [of "Suc e"] that by simp
    from Suc.IH [OF t(5) this, of ?ft] show thesis using that by blast
  qed
  moreover have "ft' = ft \<or> (\<exists>e < Suc d. ft' = at tab s e \<and> ar_ptr (tab ! ft') = 1)"
    using f(2)
  proof
    assume "ft' = ?ft"
    then show ?thesis using Suc.prems(1) by (auto simp: IsTombstone_def intro: exI [of _ 0])
  next
    assume "\<exists>e < d. ft' = at tab (at tab s (Suc 0)) e \<and> ar_ptr (tab ! ft') = 1"
    then obtain e where "e < d" "ft' = at tab s (Suc e)" "ar_ptr (tab ! ft') = 1" by auto
    then show ?thesis by (intro disjI2 exI [of _ "Suc e"]) simp
  qed
  ultimately show ?case by auto
qed

lemma erase_walk:
  assumes "table_ok tab" "s < length tab" "\<And>e. e < d \<Longrightarrow> ar_ptr (tab ! at tab s e) \<noteq> 0 \<and> ar_ptr (tab ! at tab s e) \<noteq> p"
  shows "erase_probe tab (length tab - 1) p s = erase_probe tab (length tab - 1) p (at tab s d)"
  using assms(2,3)
proof (induction d arbitrary: s)
  case (Suc d)
  note t = table_okD [OF assms(1)]
  have 0: "ar_ptr (tab ! s) \<noteq> 0" "ar_ptr (tab ! s) \<noteq> p" using Suc.prems(2) [of 0] Suc.prems(1) by simp_all
  have "erase_probe tab (length tab - 1) p s = erase_probe tab (length tab - 1) p (at tab s (Suc 0))"
    using 0 t(3) [OF Suc.prems(1)] by (subst erase_probe.simps) (simp add: Let_def)
  also have "\<dots> = erase_probe tab (length tab - 1) p (at tab (at tab s (Suc 0)) d)"
    by (rule Suc.IH [OF t(5)]) (use Suc.prems(2) [of "Suc _"] in simp)
  finally show ?case by simp
qed simp

lemma grow_walk:
  assumes "table_ok tab" "s < length tab" "\<And>e. e < d \<Longrightarrow> ar_ptr (tab ! at tab s e) \<noteq> 0"
  shows "grow_slot tab (length tab - 1) s = grow_slot tab (length tab - 1) (at tab s d)"
  using assms(2,3)
proof (induction d arbitrary: s)
  case (Suc d)
  note t = table_okD [OF assms(1)]
  have "grow_slot tab (length tab - 1) s = grow_slot tab (length tab - 1) (at tab s (Suc 0))"
    using Suc.prems(2) [of 0] Suc.prems(1) t(3) [OF Suc.prems(1)] by (subst grow_slot.simps) simp
  also have "\<dots> = grow_slot tab (length tab - 1) (at tab (at tab s (Suc 0)) d)"
    by (rule Suc.IH [OF t(5)]) (use Suc.prems(2) [of "Suc _"] in simp)
  finally show ?case by simp
qed simp

text \<open>From every slot the probe order visits the whole table.\<close>

lemma at_onto:
  assumes "j < length tab" "s < length tab"
  obtains d where "d < length tab" "at tab s d = j"
proof (cases "s \<le> j")
  case True
  then show thesis using that [of "j - s"] assms by (simp add: at_def)
next
  case False
  then have "s + (length tab - s + j) = length tab + j" using assms by simp
  then have "at tab s (length tab - s + j) = j" using assms(1) by (simp add: at_def)
  then show thesis using that [of "length tab - s + j"] False assms by simp
qed

lemma first_empty:
  assumes "j < length tab" "ar_ptr (tab ! j) = 0" "s < length tab"
  obtains d where "ar_ptr (tab ! at tab s d) = 0" "\<And>e. e < d \<Longrightarrow> ar_ptr (tab ! at tab s e) \<noteq> 0"
proof -
  obtain d where "at tab s d = j" using at_onto [OF assms(1,3)] by blast
  then have ex: "ar_ptr (tab ! at tab s d) = 0" using assms(2) by simp
  show thesis by (rule that [of "LEAST d. ar_ptr (tab ! at tab s d) = 0"], rule LeastI [of "\<lambda>d. ar_ptr (tab ! at tab s d) = 0", OF ex]) (rule not_less_Least)
qed


section \<open>The map a table stands for\<close>

definition lives :: "alloc_record list \<Rightarrow> alloc_record multiset" where
  "lives tab = mset (filter live_record tab)"

definition tombs :: "alloc_record list \<Rightarrow> nat" where
  "tombs tab = length (filter (\<lambda>e. ar_ptr e = 1) tab)"

definition tmap :: "alloc_record list \<Rightarrow> addr \<rightharpoonup> alloc_record" where
  "tmap tab p = find (\<lambda>e. ar_ptr e = p) (filter live_record tab)"

lemma in_lives: "e \<in># lives tab \<longleftrightarrow> (\<exists>j < length tab. tab ! j = e \<and> live_record e)"
  by (auto simp: lives_def in_set_conv_nth)

lemma table_unique:
  assumes "table_ok tab" "i < length tab" "j < length tab" "live_record (tab ! i)" "ar_ptr (tab ! j) = ar_ptr (tab ! i)"
  shows "j = i"
  using assms unfolding table_ok_def by blast

lemma find_in: "find P xs = Some e \<Longrightarrow> e \<in> set xs \<and> P e"
  by (metis find_Some_iff nth_mem)

lemma tmap_iff:
  assumes "table_ok tab"
  shows "tmap tab p = Some e \<longleftrightarrow> e \<in># lives tab \<and> ar_ptr e = p"
proof
  assume "tmap tab p = Some e"
  then show "e \<in># lives tab \<and> ar_ptr e = p" unfolding tmap_def lives_def set_mset_mset by (rule find_in)
next
  assume e: "e \<in># lives tab \<and> ar_ptr e = p"
  then have "tmap tab p \<noteq> None" unfolding tmap_def by (auto simp: find_None_iff lives_def)
  then obtain f where f: "tmap tab p = Some f" by blast
  then have "f \<in># lives tab" "ar_ptr f = p" using find_in [of "\<lambda>e. ar_ptr e = p" "filter live_record tab" f] unfolding tmap_def lives_def set_mset_mset by simp_all
  then have "f = e" using e table_unique [OF assms] unfolding in_lives by metis
  then show "tmap tab p = Some e" using f by simp
qed

lemma tmap_None: "table_ok tab \<Longrightarrow> tmap tab p = None \<longleftrightarrow> (\<forall>e \<in># lives tab. ar_ptr e \<noteq> p)"
  using tmap_iff by (metis not_None_eq)

lemma same_lives: "table_ok tab \<Longrightarrow> table_ok tab' \<Longrightarrow> lives tab' = lives tab \<Longrightarrow> tmap tab' = tmap tab"
  by (rule ext, rule option.expand) (auto simp: tmap_iff, metis not_None_eq tmap_iff, metis not_None_eq tmap_iff, metis option.sel tmap_iff)

lemma slot_upd:
  assumes "i < length tab"
  shows "\<not> live_record (tab ! i) \<Longrightarrow> live_record e \<Longrightarrow> lives (tab[i := e]) = add_mset e (lives tab)"
    "live_record (tab ! i) \<Longrightarrow> \<not> live_record e \<Longrightarrow> lives (tab[i := e]) = lives tab - {#tab ! i#}"
    "tombs (tab[i := e]) + (if ar_ptr (tab ! i) = 1 then 1 else 0) = tombs tab + (if ar_ptr e = 1 then 1 else 0)"
proof -
  have m: "mset (tab[i := e]) = add_mset e (mset tab - {#tab ! i#})" by (rule mset_update [OF assms])
  have in1: "tab ! i \<in># mset tab" using assms by simp
  show "lives (tab[i := e]) = add_mset e (lives tab)" if "\<not> live_record (tab ! i)" "live_record e"
    unfolding lives_def mset_filter m using that by simp
  show "lives (tab[i := e]) = lives tab - {#tab ! i#}" if "live_record (tab ! i)" "\<not> live_record e"
    unfolding lives_def mset_filter m using that by simp
  have t: "tombs xs = size (filter_mset (\<lambda>e. ar_ptr e = 1) (mset xs))" for xs by (simp add: tombs_def flip: mset_filter size_mset)
  obtain M where M: "mset tab = add_mset (tab ! i) M" using in1 by (meson multi_member_split)
  show "tombs (tab[i := e]) + (if ar_ptr (tab ! i) = 1 then 1 else 0) = tombs tab + (if ar_ptr e = 1 then 1 else 0)"
    unfolding t m M by simp
qed

lemma slots_used:
  shows "size (lives tab) + tombs tab \<le> length tab" "size (lives tab) + tombs tab < length tab \<Longrightarrow> \<exists>j < length tab. ar_ptr (tab ! j) = 0"
proof -
  have "length (filter live_record tab) + tombs tab + length (filter (\<lambda>e. ar_ptr e = 0) tab) = length tab"
    by (induction tab) (auto simp: tombs_def live_key key_def)
  then have e: "size (lives tab) + tombs tab + length (filter (\<lambda>e. ar_ptr e = 0) tab) = length tab" by (simp only: lives_def size_mset)
  then show "size (lives tab) + tombs tab \<le> length tab" by simp
  assume "size (lives tab) + tombs tab < length tab"
  then have "filter (\<lambda>e. ar_ptr e = 0) tab \<noteq> []" using e by force
  then show "\<exists>j < length tab. ar_ptr (tab ! j) = 0" by (auto simp: filter_empty_conv in_set_conv_nth)
qed

lemma slots_taken:
  assumes "size (lives tab) = length tab" "j < length tab"
  shows "ar_ptr (tab ! j) \<noteq> 0"
proof -
  have "length (filter live_record tab) = length tab" using assms(1) by (simp only: lives_def size_mset)
  then have "\<forall>e \<in> set tab. live_record e" by (metis filter_id_conv length_filter_less less_irrefl)
  then show ?thesis using nth_mem [OF assms(2)] by (auto simp: live_key key_def)
qed

text \<open>Writing an entry at the end of its probe path, and burying one, keep the table valid.\<close>

lemma table_ok_fill:
  assumes ok: "table_ok tab" and r: "key (ar_ptr r)" "tmap tab (ar_ptr r) = None"
    and t: "t = at tab (home tab (ar_ptr r)) d" "\<And>e. e < d \<Longrightarrow> ar_ptr (tab ! at tab (home tab (ar_ptr r)) e) \<noteq> 0" "\<not> live_record (tab ! t)"
  shows "table_ok (tab[t := r])"
proof -
  let ?tab = "tab[t := r]"
  have tl: "t < length tab" using t(1) table_okD(5) [OF ok] by simp
  have same: "length ?tab = length tab" "home ?tab p = home tab p" "at ?tab h d = at tab h d" for p h d by (simp_all add: home_def at_def)
  have absent: "ar_ptr (tab ! j) \<noteq> ar_ptr r" if "j < length tab" for j
    using r that unfolding tmap_None [OF ok] in_lives by (metis in_lives live_key)
  have nz: "ar_ptr (?tab ! j) \<noteq> 0" if "ar_ptr (tab ! j) \<noteq> 0" for j using that r(1) tl by (cases "j = t") (simp_all add: key_def)
  have "\<exists>d. j = at tab (home tab (ar_ptr (?tab ! j))) d \<and> (\<forall>e < d. ar_ptr (?tab ! at tab (home tab (ar_ptr (?tab ! j))) e) \<noteq> 0)"
    if j: "j < length tab" "live_record (?tab ! j)" for j
  proof (cases "j = t")
    case True
    then show ?thesis using t(1,2) tl nz by (intro exI [of _ d]) simp
  next
    case False
    then obtain d' where "j = at tab (home tab (ar_ptr (tab ! j))) d'" "\<forall>e < d'. ar_ptr (tab ! at tab (home tab (ar_ptr (tab ! j))) e) \<noteq> 0"
      using ok j unfolding table_ok_def by auto
    then show ?thesis using False nz by (intro exI [of _ d']) simp
  qed
  moreover have "j = i" if "i < length tab" "j < length tab" "live_record (?tab ! i)" "ar_ptr (?tab ! j) = ar_ptr (?tab ! i)" for i j
    using that(3,4) absent [OF that(1)] absent [OF that(2)] table_unique [OF ok that(1,2)] tl by (cases "i = t"; cases "j = t") simp_all
  ultimately show ?thesis using ok unfolding table_ok_def same by auto
qed

lemma table_ok_bury:
  assumes ok: "table_ok tab" and j: "j < length tab"
  shows "table_ok (tab[j := e\<lparr>ar_ptr := 1\<rparr>])"
proof -
  let ?tab = "tab[j := e\<lparr>ar_ptr := 1\<rparr>]"
  have same: "length ?tab = length tab" "home ?tab p = home tab p" "at ?tab h d = at tab h d" for p h d by (simp_all add: home_def at_def)
  have lv: "i \<noteq> j \<and> live_record (tab ! i)" if "live_record (?tab ! i)" "i < length tab" for i
    using that j by (cases "i = j") (simp_all add: live_key key_def)
  have nz: "ar_ptr (?tab ! i) \<noteq> 0" if "ar_ptr (tab ! i) \<noteq> 0" for i using that j by (cases "i = j") simp_all
  have "\<exists>d. i = at tab (home tab (ar_ptr (?tab ! i))) d \<and> (\<forall>e < d. ar_ptr (?tab ! at tab (home tab (ar_ptr (?tab ! i))) e) \<noteq> 0)"
    if i: "i < length tab" "live_record (?tab ! i)" for i
  proof -
    obtain d where "i = at tab (home tab (ar_ptr (tab ! i))) d" "\<forall>e < d. ar_ptr (tab ! at tab (home tab (ar_ptr (tab ! i))) e) \<noteq> 0"
      using ok i(1) lv [OF i(2,1)] unfolding table_ok_def by blast
    then show ?thesis using lv [OF i(2,1)] nz by (intro exI [of _ d]) simp
  qed
  moreover have "i = k" if "k < length tab" "i < length tab" "live_record (?tab ! k)" "ar_ptr (?tab ! i) = ar_ptr (?tab ! k)" for i k
  proof -
    have "i \<noteq> j" using that lv [OF that(3,1)] j by (auto simp: live_key key_def)
    then show ?thesis using table_unique [OF ok that(1,2)] that(4) lv [OF that(3,1)] by simp
  qed
  ultimately show ?thesis using ok unfolding table_ok_def same by auto
qed


section \<open>What the probes find\<close>

lemma live_path:
  assumes ok: "table_ok tab" and e: "tmap tab p = Some e"
  obtains d where "tab ! at tab (home tab p) d = e" "\<And>i. i < d \<Longrightarrow> ar_ptr (tab ! at tab (home tab p) i) \<noteq> 0 \<and> ar_ptr (tab ! at tab (home tab p) i) \<noteq> p"
    "key p" "ar_ptr e = p" "live_record e"
proof -
  have l: "e \<in># lives tab" "ar_ptr e = p" using e tmap_iff [OF ok] by simp_all
  then obtain j where j: "j < length tab" "tab ! j = e" "live_record e" unfolding in_lives by blast
  obtain d where d: "j = at tab (home tab p) d" "\<forall>i < d. ar_ptr (tab ! at tab (home tab p) i) \<noteq> 0" using ok j l(2) unfolding table_ok_def by blast
  define d' where "d' = (LEAST d. j = at tab (home tab p) d)"
  have d': "j = at tab (home tab p) d'" "d' \<le> d" using d(1) unfolding d'_def by (rule LeastI, rule Least_le)
  have "ar_ptr (tab ! at tab (home tab p) i) \<noteq> 0 \<and> ar_ptr (tab ! at tab (home tab p) i) \<noteq> p" if i: "i < d'" for i
  proof
    show "ar_ptr (tab ! at tab (home tab p) i) \<noteq> 0" using d(2) d'(2) i by simp
    show "ar_ptr (tab ! at tab (home tab p) i) \<noteq> p"
    proof
      assume "ar_ptr (tab ! at tab (home tab p) i) = p"
      then have "at tab (home tab p) i = j" by (intro table_unique [OF ok j(1) table_okD(5) [OF ok]]) (use j l(2) in simp_all)
      then show False using not_less_Least [of i "\<lambda>d. j = at tab (home tab p) d"] i unfolding d'_def by simp
    qed
  qed
  then show thesis using that [of d'] d'(1) j l(2) by (simp add: live_key)
qed

lemma insert_probe_found:
  assumes ok: "table_ok tab" and e: "tmap tab p = Some e"
  shows "\<exists>slot ft. insert_probe tab (length tab - 1) p (home tab p) no_slot = Some (True, slot, ft) \<and> tab ! slot = e"
proof -
  obtain d where d: "tab ! at tab (home tab p) d = e" "\<And>i. i < d \<Longrightarrow> ar_ptr (tab ! at tab (home tab p) i) \<noteq> 0 \<and> ar_ptr (tab ! at tab (home tab p) i) \<noteq> p"
    "key p" "ar_ptr e = p" by (rule live_path [OF ok e]) blast
  obtain ft where "insert_probe tab (length tab - 1) p (home tab p) no_slot = insert_probe tab (length tab - 1) p (at tab (home tab p) d) ft"
    using insert_walk [OF ok table_okD(4) [OF ok] d(3,2)] by blast
  then show ?thesis using d(1,3,4) by (subst (asm) (2) insert_probe.simps) (auto simp: Let_def key_def IsTombstone_def)
qed

lemma insert_probe_absent:
  assumes ok: "table_ok tab" and p: "key p" "tmap tab p = None" and j: "j < length tab" "ar_ptr (tab ! j) = 0"
  shows "\<exists>slot ft d. insert_probe tab (length tab - 1) p (home tab p) no_slot = Some (False, slot, ft)
    \<and> (let t = (if ft \<noteq> no_slot then ft else slot) in t = at tab (home tab p) d \<and> \<not> live_record (tab ! t)
        \<and> (\<forall>e < d. ar_ptr (tab ! at tab (home tab p) e) \<noteq> 0) \<and> (ft \<noteq> no_slot \<longleftrightarrow> ar_ptr (tab ! t) = 1))"
proof -
  note t = table_okD [OF ok]
  obtain d where d: "ar_ptr (tab ! at tab (home tab p) d) = 0" "\<And>e. e < d \<Longrightarrow> ar_ptr (tab ! at tab (home tab p) e) \<noteq> 0"
    by (rule first_empty [OF j t(4)]) blast
  have "ar_ptr (tab ! i) \<noteq> p" if "i < length tab" for i using p that unfolding tmap_None [OF ok] in_lives by (metis in_lives live_key)
  then have "\<And>e. e < d \<Longrightarrow> ar_ptr (tab ! at tab (home tab p) e) \<noteq> 0 \<and> ar_ptr (tab ! at tab (home tab p) e) \<noteq> p" using d(2) t(5) by blast
  from insert_walk [OF ok t(4) p(1) this] obtain ft where ft:
    "insert_probe tab (length tab - 1) p (home tab p) no_slot = insert_probe tab (length tab - 1) p (at tab (home tab p) d) ft"
    "ft = no_slot \<or> (\<exists>e < d. ft = at tab (home tab p) e \<and> ar_ptr (tab ! ft) = 1)" by blast
  have run: "insert_probe tab (length tab - 1) p (home tab p) no_slot = Some (False, at tab (home tab p) d, ft)"
    unfolding ft(1) using d(1) by (subst insert_probe.simps) (simp add: Let_def)
  from ft(2) show ?thesis
  proof
    assume "ft = no_slot"
    then show ?thesis using run d by (intro exI [of _ "at tab (home tab p) d"] exI [of _ ft] exI [of _ d]) (simp add: live_key key_def)
  next
    assume "\<exists>e < d. ft = at tab (home tab p) e \<and> ar_ptr (tab ! ft) = 1"
    then obtain e where e: "e < d" "ft = at tab (home tab p) e" "ar_ptr (tab ! ft) = 1" by blast
    have "ft < length tab" unfolding e(2) by (rule t(5))
    then have "ft \<noteq> no_slot" using t(2) by (simp add: no_slot_def)
    then show ?thesis using run d(2) e by (intro exI [of _ "at tab (home tab p) d"] exI [of _ ft] exI [of _ e]) (simp add: live_key key_def)
  qed
qed

lemma erase_probe_found:
  assumes ok: "table_ok tab" and e: "tmap tab p = Some e"
  shows "\<exists>slot < length tab. erase_probe tab (length tab - 1) p (home tab p) = Some (Some slot) \<and> tab ! slot = e"
proof -
  obtain d where d: "tab ! at tab (home tab p) d = e" "\<And>i. i < d \<Longrightarrow> ar_ptr (tab ! at tab (home tab p) i) \<noteq> 0 \<and> ar_ptr (tab ! at tab (home tab p) i) \<noteq> p"
    "key p" "ar_ptr e = p" by (rule live_path [OF ok e]) blast
  from erase_walk [OF ok table_okD(4) [OF ok] d(2)] have "erase_probe tab (length tab - 1) p (home tab p) = Some (Some (at tab (home tab p) d))"
    using d(1,3,4) by (subst (asm) (2) erase_probe.simps) (simp add: Let_def key_def IsTombstone_def)
  then show ?thesis using d(1) table_okD(5) [OF ok] by blast
qed

lemma erase_probe_absent:
  assumes ok: "table_ok tab" and p: "tmap tab p = None" "key p" and j: "j < length tab" "ar_ptr (tab ! j) = 0"
  shows "erase_probe tab (length tab - 1) p (home tab p) = Some None"
proof -
  note t = table_okD [OF ok]
  obtain d where d: "ar_ptr (tab ! at tab (home tab p) d) = 0" "\<And>e. e < d \<Longrightarrow> ar_ptr (tab ! at tab (home tab p) e) \<noteq> 0"
    by (rule first_empty [OF j t(4)]) blast
  have "ar_ptr (tab ! i) \<noteq> p" if "i < length tab" for i using p that unfolding tmap_None [OF ok] in_lives by (metis in_lives live_key)
  then have "\<And>e. e < d \<Longrightarrow> ar_ptr (tab ! at tab (home tab p) e) \<noteq> 0 \<and> ar_ptr (tab ! at tab (home tab p) e) \<noteq> p" using d(2) t(5) by blast
  from erase_walk [OF ok t(4) this] show ?thesis using d(1) by (subst (asm) (2) erase_probe.simps) (simp add: Let_def)
qed

lemma grow_slot_free:
  assumes ok: "table_ok tab" and j: "j < length tab" "ar_ptr (tab ! j) = 0"
  shows "\<exists>d. grow_slot tab (length tab - 1) (home tab p) = Some (at tab (home tab p) d) \<and> ar_ptr (tab ! at tab (home tab p) d) = 0
    \<and> (\<forall>e < d. ar_ptr (tab ! at tab (home tab p) e) \<noteq> 0)"
proof -
  note t = table_okD [OF ok]
  obtain d where d: "ar_ptr (tab ! at tab (home tab p) d) = 0" "\<And>e. e < d \<Longrightarrow> ar_ptr (tab ! at tab (home tab p) e) \<noteq> 0"
    by (rule first_empty [OF j t(4)]) blast
  from grow_walk [OF ok t(4) d(2)] have "grow_slot tab (length tab - 1) (home tab p) = Some (at tab (home tab p) d)"
    using d(1) by (subst (asm) (2) grow_slot.simps) simp
  then show ?thesis using d by blast
qed


section \<open>The shards\<close>

definition shard_ok :: "nat \<Rightarrow> reg_shard \<Rightarrow> bool" where
  "shard_ok i sh \<longleftrightarrow> (let tab = sh_table sh in table_ok tab \<and> sh_capacity sh = length tab \<and> 16 \<le> length tab \<and> length tab \<le> 2 ^ 59
     \<and> sh_count sh = size (lives tab) \<and> sh_tombstones sh = tombs tab \<and> size (lives tab) + tombs tab < length tab
     \<and> (\<forall>e \<in># lives tab. HashShard (ar_ptr e) = i) \<and> sh_live_bytes sh = sum_mset (image_mset ar_size (lives tab)) \<and> sh_live_bytes sh < 2 ^ 64)"

lemma shard_okD:
  assumes "shard_ok i sh"
  defines "tab \<equiv> sh_table sh"
  shows "table_ok tab" "sh_capacity sh = length tab" "16 \<le> length tab" "length tab \<le> 2 ^ 59" "sh_count sh = size (lives tab)"
    "sh_tombstones sh = tombs tab" "size (lives tab) + tombs tab < length tab" "\<And>e. e \<in># lives tab \<Longrightarrow> HashShard (ar_ptr e) = i"
    "sh_live_bytes sh = sum_mset (image_mset ar_size (lives tab))" "sh_live_bytes sh < 2 ^ 64"
    "sub64 (sh_capacity sh) 1 = length tab - 1" "mul64 (sh_capacity sh) 7 = length tab * 7" "mul64 (sh_capacity sh) 2 = length tab * 2"
    "mul64 (add64 (sh_count sh) (sh_tombstones sh)) 10 = (size (lives tab) + tombs tab) * 10"
    "\<exists>j < length tab. ar_ptr (tab ! j) = 0"
proof -
  show a: "table_ok tab" "sh_capacity sh = length tab" "16 \<le> length tab" "length tab \<le> 2 ^ 59" "sh_count sh = size (lives tab)"
    "sh_tombstones sh = tombs tab" "size (lives tab) + tombs tab < length tab" "\<And>e. e \<in># lives tab \<Longrightarrow> HashShard (ar_ptr e) = i"
    "sh_live_bytes sh = sum_mset (image_mset ar_size (lives tab))" "sh_live_bytes sh < 2 ^ 64"
    using assms by (simp_all add: shard_ok_def Let_def)
  show "sub64 (sh_capacity sh) 1 = length tab - 1" using a(2,3,4) by (simp add: sub64_exact)
  show "mul64 (sh_capacity sh) 7 = length tab * 7" "mul64 (sh_capacity sh) 2 = length tab * 2" using a(2,4) by (simp_all add: mul64_exact)
  show "mul64 (add64 (sh_count sh) (sh_tombstones sh)) 10 = (size (lives tab) + tombs tab) * 10"
    using a(4-7) by (simp add: add64_exact mul64_exact)
  show "\<exists>j < length tab. ar_ptr (tab ! j) = 0" by (rule slots_used(2) [OF a(7)])
qed

lemma shard_okI:
  assumes "table_ok (sh_table sh)" "sh_capacity sh = length (sh_table sh)" "16 \<le> length (sh_table sh)" "length (sh_table sh) \<le> 2 ^ 59"
    "sh_count sh = size (lives (sh_table sh))" "sh_tombstones sh = tombs (sh_table sh)" "size (lives (sh_table sh)) + tombs (sh_table sh) < length (sh_table sh)"
    "\<And>e. e \<in># lives (sh_table sh) \<Longrightarrow> HashShard (ar_ptr e) = i" "sh_live_bytes sh = sum_mset (image_mset ar_size (lives (sh_table sh)))" "sh_live_bytes sh < 2 ^ 64"
  shows "shard_ok i sh"
  using assms by (simp add: shard_ok_def Let_def)

text \<open>Rehashing keeps the live entries and drops the tombstones.\<close>

lemma grow_copy_lives:
  assumes "table_ok nt" "tombs nt = 0" "size (lives nt) + length (filter live_record rs) < length nt"
    "distinct (map ar_ptr (filter live_record rs))" "\<And>e f. e \<in># lives nt \<Longrightarrow> f \<in> set rs \<Longrightarrow> live_record f \<Longrightarrow> ar_ptr e \<noteq> ar_ptr f"
  shows "\<exists>nt'. grow_copy rs (length nt - 1) nt = Some nt' \<and> table_ok nt' \<and> length nt' = length nt \<and> tombs nt' = 0
    \<and> lives nt' = lives nt + mset (filter live_record rs)"
  using assms
proof (induction rs arbitrary: nt)
  case (Cons r rs)
  show ?case
  proof (cases "live_record r")
    case False
    then show ?thesis using Cons.IH [OF Cons.prems(1,2)] Cons.prems(3-5) by (auto simp: live_record_def)
  next
    case True
    let ?h = "home nt (ar_ptr r)"
    have "size (lives nt) + tombs nt < length nt" using Cons.prems(2,3) by simp
    then obtain j where j: "j < length nt" "ar_ptr (nt ! j) = 0" using slots_used(2) by blast
    obtain d where d: "grow_slot nt (length nt - 1) ?h = Some (at nt ?h d)" "ar_ptr (nt ! at nt ?h d) = 0" "\<forall>e < d. ar_ptr (nt ! at nt ?h e) \<noteq> 0"
      using grow_slot_free [OF Cons.prems(1) j] by blast
    let ?t = "at nt ?h d"
    let ?nt = "nt[?t := r]"
    have tl: "?t < length nt" by (rule table_okD(5) [OF Cons.prems(1)])
    have dead: "\<not> live_record (nt ! ?t)" using d(2) by (simp add: live_key key_def)
    have none: "tmap nt (ar_ptr r) = None" using Cons.prems(5) True unfolding tmap_None [OF Cons.prems(1)] by auto
    have ok: "table_ok ?nt" by (rule table_ok_fill [OF Cons.prems(1) _ none refl _ dead]) (use True d(3) in \<open>simp_all add: live_key\<close>)
    note u = slot_upd [OF tl, of r]
    have l: "lives ?nt = add_mset r (lives nt)" by (rule u(1) [OF dead True])
    have tb: "tombs ?nt = 0" using u(3) d(2) Cons.prems(2) True by (simp add: live_key key_def)
    have dist: "distinct (map ar_ptr (filter live_record rs))" "\<And>f. f \<in> set rs \<Longrightarrow> live_record f \<Longrightarrow> ar_ptr r \<noteq> ar_ptr f"
      using Cons.prems(4) True by force+
    have "\<exists>nt'. grow_copy rs (length ?nt - 1) ?nt = Some nt' \<and> table_ok nt' \<and> length nt' = length ?nt \<and> tombs nt' = 0
        \<and> lives nt' = lives ?nt + mset (filter live_record rs)"
      by (rule Cons.IH [OF ok tb]) (use Cons.prems(3,5) True l dist in auto)
    then show ?thesis using True d(1) l by (auto simp: home_def live_record_def)
  qed
qed auto


lemma empty_table:
  "lives (replicate n zero_record) = {#}" "tombs (replicate n zero_record) = 0"
  "n = 2 ^ k \<Longrightarrow> n < 2 ^ 64 - 1 \<Longrightarrow> table_ok (replicate n zero_record)"
proof -
  have z: "\<not> live_record zero_record" "ar_ptr zero_record = 0" by (simp_all add: zero_record_def live_record_def)
  show "lives (replicate n zero_record) = {#}" "tombs (replicate n zero_record) = 0" using z by (simp_all add: lives_def tombs_def)
  show "table_ok (replicate n zero_record)" if "n = 2 ^ k" "n < 2 ^ 64 - 1" using that z by (auto simp: table_ok_def)
qed

lemma live_distinct:
  assumes "table_ok tab"
  shows "distinct (map ar_ptr (filter live_record tab))"
proof -
  have "distinct (map ar_ptr (filter live_record tab))" if "\<And>i j. i < length tab \<Longrightarrow> j < length tab \<Longrightarrow> live_record (tab ! i) \<Longrightarrow> ar_ptr (tab ! j) = ar_ptr (tab ! i) \<Longrightarrow> j = i" for tab
    using that
  proof (induction tab)
    case (Cons r rs)
    have "distinct (map ar_ptr (filter live_record rs))"
      by (rule Cons.IH) (use Cons.prems [of "Suc _" "Suc _"] in auto)
    moreover have "ar_ptr f \<noteq> ar_ptr r" if f: "f \<in> set rs" "live_record r" for f
    proof
      assume e: "ar_ptr f = ar_ptr r"
      obtain j where "j < length rs" "rs ! j = f" using f(1) by (auto simp: in_set_conv_nth)
      then show False using Cons.prems [of 0 "Suc j"] f(2) e by simp
    qed
    ultimately show ?case by force
  qed simp
  then show ?thesis using table_unique [OF assms] by blast
qed

lemma GrowShard_ok:
  assumes ok: "shard_ok i sh" and cap: "sh_capacity sh \<le> 2 ^ 58"
  shows "\<exists>sh'. GrowShard True sh = Some sh' \<and> shard_ok i sh' \<and> tmap (sh_table sh') = tmap (sh_table sh)
    \<and> sh_tombstones sh' = 0 \<and> sh_count sh' = sh_count sh \<and> sh_capacity sh' = 2 * sh_capacity sh \<and> sh_live_bytes sh' = sh_live_bytes sh"
proof -
  let ?tab = "sh_table sh"
  note s = shard_okD [OF ok]
  let ?n = "length ?tab * 2"
  let ?nt = "replicate ?n zero_record"
  obtain k where k: "length ?tab = 2 ^ k" using s(1) by (auto simp: table_ok_def)
  have n: "?n = 2 ^ Suc k" "?n \<le> 2 ^ 59" using k cap s(2) by simp_all
  have nt: "table_ok ?nt" by (rule empty_table(3) [OF n(1)]) (use n(2) in simp)
  have "length (filter live_record ?tab) \<le> length ?tab" by (rule length_filter_le)
  then have "length (filter live_record ?tab) < ?n" using s(3) by linarith
  then have "size (lives ?nt) + length (filter live_record ?tab) < length ?nt" by (simp add: empty_table)
  from grow_copy_lives [OF nt empty_table(2) this live_distinct [OF s(1)]] obtain nt' where
    g: "grow_copy ?tab (length ?nt - 1) ?nt = Some nt'" "table_ok nt'" "length nt' = ?n" "tombs nt' = 0" "lives nt' = lives ?tab"
    unfolding empty_table(1) lives_def [of ?tab] by auto
  have m: "sub64 ?n 1 = length ?nt - 1" using n(2) s(3) by (simp add: sub64_exact)
  let ?sh = "sh\<lparr>sh_table := nt', sh_capacity := ?n, sh_tombstones := 0\<rparr>"
  have "GrowShard True sh = Some ?sh" using g(1) unfolding GrowShard_def Let_def s(13) m by (simp add: s(2))
  moreover have "shard_ok i ?sh" by (rule shard_okI) (use g s n(2) in simp_all)
  ultimately show ?thesis using same_lives [OF s(1) g(2,5)] s(2) by (intro exI [of _ ?sh]) simp
qed

text \<open>An insertion when the shard may grow, or has room: the record is entered unless its pointer is already live.\<close>

definition room :: "bool \<Rightarrow> reg_shard \<Rightarrow> bool" where
  "room mem_ok sh \<longleftrightarrow> sh_capacity sh \<le> 2 ^ 58 \<and> (mem_ok \<or> sh_count sh + sh_tombstones sh + 1 < sh_capacity sh)"

lemma no_growth:
  assumes "\<not> (mem_ok \<and> mul64 (add64 (sh_count sh) (sh_tombstones sh)) 10 \<ge> mul64 (sh_capacity sh) 7)"
  shows "(if mul64 (add64 (sh_count sh) (sh_tombstones sh)) 10 \<ge> mul64 (sh_capacity sh) 7 then GrowShard mem_ok sh else Some sh) = Some sh"
  using assms by (cases mem_ok) (auto simp: GrowShard_def Let_def)

definition holding :: "alloc_record list \<Rightarrow> reg_shard \<Rightarrow> reg_shard" where
  "holding tab sh = sh\<lparr>sh_table := tab, sh_count := size (lives tab), sh_tombstones := tombs tab, sh_live_bytes := sum_mset (image_mset ar_size (lives tab))\<rparr>"

lemma holding_simps [simp]:
  "sh_table (holding tab sh) = tab" "sh_capacity (holding tab sh) = sh_capacity sh" "sh_count (holding tab sh) = size (lives tab)"
  "sh_tombstones (holding tab sh) = tombs tab" "sh_live_bytes (holding tab sh) = sum_mset (image_mset ar_size (lives tab))"
  by (simp_all add: holding_def)

lemma insert_absent:
  assumes ok: "shard_ok i sh" and r: "key (ar_ptr rec)" "sh_live_bytes sh + ar_size rec < 2 ^ 64" and None: "tmap (sh_table sh) (ar_ptr rec) = None"
    and c: "\<not> (mem_ok \<and> mul64 (add64 (sh_count sh) (sh_tombstones sh)) 10 \<ge> mul64 (sh_capacity sh) 7)"
  obtains nt where "shard_insert mem_ok seq rec sh = Some (None, holding nt sh)" "table_ok nt" "length nt = length (sh_table sh)"
    "lives nt = add_mset (rec\<lparr>ar_sequence := seq\<rparr>) (lives (sh_table sh))" "tombs nt \<le> tombs (sh_table sh)"
    "tmap nt = (tmap (sh_table sh))(ar_ptr rec \<mapsto> rec\<lparr>ar_sequence := seq\<rparr>)"
proof -
  let ?tab = "sh_table sh" and ?p = "ar_ptr rec" and ?r = "rec\<lparr>ar_sequence := seq\<rparr>"
  note s = shard_okD [OF ok] and pre = no_growth [OF c]
  have h: "HashPtr ?p (length ?tab - 1) = home ?tab ?p" by (simp add: home_def)
  obtain j where j: "j < length ?tab" "ar_ptr (?tab ! j) = 0" using s(15) by blast
  obtain slot ft d where p: "insert_probe ?tab (length ?tab - 1) ?p (home ?tab ?p) no_slot = Some (False, slot, ft)"
    and t: "let t = (if ft \<noteq> no_slot then ft else slot) in t = at ?tab (home ?tab ?p) d \<and> \<not> live_record (?tab ! t)
      \<and> (\<forall>e < d. ar_ptr (?tab ! at ?tab (home ?tab ?p) e) \<noteq> 0) \<and> (ft \<noteq> no_slot \<longleftrightarrow> ar_ptr (?tab ! t) = 1)"
    using insert_probe_absent [OF s(1) r(1) None j] by blast
  define t where "t = (if ft \<noteq> no_slot then ft else slot)"
  have tt: "t = at ?tab (home ?tab ?p) d" "\<not> live_record (?tab ! t)" "\<forall>e < d. ar_ptr (?tab ! at ?tab (home ?tab ?p) e) \<noteq> 0" "ft \<noteq> no_slot \<longleftrightarrow> ar_ptr (?tab ! t) = 1"
    using t unfolding t_def [symmetric] Let_def by blast+
  have tl: "t < length ?tab" unfolding tt(1) by (rule table_okD(5) [OF s(1)])
  let ?nt = "?tab[t := ?r]"
  have live: "live_record ?r" "ar_ptr ?r = ?p" using r(1) by (simp_all add: live_key)
  have nt: "table_ok ?nt" by (rule table_ok_fill [OF s(1), where d = d]) (use r(1) None tt in simp_all)
  note u = slot_upd [OF tl, of ?r]
  have l: "lives ?nt = add_mset ?r (lives ?tab)" by (rule u(1) [OF tt(2) live(1)])
  have tb: "tombs ?nt + (if ft \<noteq> no_slot then 1 else 0) = tombs ?tab" using u(3) tt(4) r(1) by (simp add: key_def split: if_splits)
  have tmb: "(if ft \<noteq> no_slot then sub64 (sh_tombstones sh) 1 else sh_tombstones sh) = tombs ?nt"
    using tb s(4,6,7) by (cases "ft \<noteq> no_slot") (simp_all add: sub64_exact)
  have cnt: "add64 (sh_count sh) 1 = size (lives ?nt)" using l s(4,5,7) by (simp add: add64_exact)
  have byt: "add64 (sh_live_bytes sh) (ar_size rec) = sum_mset (image_mset ar_size (lives ?nt))" using l s(9) r(2) by (simp add: add64_exact)
  have run: "shard_insert mem_ok seq rec sh = Some (None, holding ?nt sh)"
    unfolding shard_insert_def pre option.case Let_def s(11) h p
    by (cases "ft = no_slot") (use cnt byt tmb in \<open>simp_all add: t_def holding_def\<close>)
  have "tmap ?nt = (tmap ?tab)(?p \<mapsto> ?r)"
  proof
    fix q show "tmap ?nt q = ((tmap ?tab)(?p \<mapsto> ?r)) q"
    proof (cases "q = ?p")
      case True
      then show ?thesis using tmap_iff [OF nt, of q ?r] l by simp
    next
      case False
      have "tmap ?nt q = Some e \<longleftrightarrow> tmap ?tab q = Some e" for e using False l by (auto simp: tmap_iff [OF nt] tmap_iff [OF s(1)])
      then show ?thesis using False by (cases "tmap ?tab q"; cases "tmap ?nt q") auto
    qed
  qed
  then show thesis using that [OF run nt _ l] tb by simp
qed

lemma holding_ok:
  assumes "shard_ok i sh" "table_ok nt" "length nt = length (sh_table sh)" "lives nt = add_mset e (lives (sh_table sh))" "HashShard (ar_ptr e) = i"
    "sh_live_bytes sh + ar_size e < 2 ^ 64" "size (lives nt) + tombs nt < length nt"
  shows "shard_ok i (holding nt sh)"
  using assms shard_okD [OF assms(1)] by (intro shard_okI) auto

lemma insert_step:
  assumes ok: "shard_ok i sh" and r: "key (ar_ptr rec)" "HashShard (ar_ptr rec) = i" "sh_live_bytes sh + ar_size rec < 2 ^ 64"
    and room: "sh_count sh + sh_tombstones sh + 1 < sh_capacity sh" and c: "\<not> (mem_ok \<and> mul64 (add64 (sh_count sh) (sh_tombstones sh)) 10 \<ge> mul64 (sh_capacity sh) 7)"
  shows "\<exists>sh'. shard_insert mem_ok seq rec sh = Some (tmap (sh_table sh) (ar_ptr rec), sh') \<and> shard_ok i sh'
    \<and> tmap (sh_table sh') = (if tmap (sh_table sh) (ar_ptr rec) = None then (tmap (sh_table sh))(ar_ptr rec \<mapsto> rec\<lparr>ar_sequence := seq\<rparr>) else tmap (sh_table sh))"
proof -
  let ?tab = "sh_table sh" and ?p = "ar_ptr rec"
  note s = shard_okD [OF ok]
  show ?thesis
  proof (cases "tmap ?tab ?p")
    case (Some e)
    have h: "HashPtr ?p (length ?tab - 1) = home ?tab ?p" by (simp add: home_def)
    obtain slot ft where "insert_probe ?tab (length ?tab - 1) ?p (home ?tab ?p) no_slot = Some (True, slot, ft)" "?tab ! slot = e"
      using insert_probe_found [OF s(1) Some] by blast
    then show ?thesis using ok Some unfolding shard_insert_def no_growth [OF c] option.case Let_def s(11) h by simp
  next
    case None
    obtain nt where nt: "shard_insert mem_ok seq rec sh = Some (None, holding nt sh)" "table_ok nt" "length nt = length ?tab"
      "lives nt = add_mset (rec\<lparr>ar_sequence := seq\<rparr>) (lives ?tab)" "tombs nt \<le> tombs ?tab" "tmap nt = (tmap ?tab)(?p \<mapsto> rec\<lparr>ar_sequence := seq\<rparr>)"
      by (rule insert_absent [OF ok r(1,3) None c])
    have "shard_ok i (holding nt sh)" by (rule holding_ok [OF ok nt(2-4)]) (use nt(3-5) r room s(2,5,6) in auto)
    then show ?thesis using nt(1,6) None by (intro exI [of _ "holding nt sh"]) simp
  qed
qed


lemma load_room:
  fixes c l :: nat
  assumes "c * 10 < l * 7" "16 \<le> l"
  shows "c + 1 < l"
  using assms by linarith

lemma shard_insert_ok:
  assumes ok: "shard_ok i sh" and r: "key (ar_ptr rec)" "HashShard (ar_ptr rec) = i" "sh_live_bytes sh + ar_size rec < 2 ^ 64" and room: "room mem_ok sh"
  shows "\<exists>sh'. shard_insert mem_ok seq rec sh = Some (tmap (sh_table sh) (ar_ptr rec), sh') \<and> shard_ok i sh'
    \<and> tmap (sh_table sh') = (if tmap (sh_table sh) (ar_ptr rec) = None then (tmap (sh_table sh))(ar_ptr rec \<mapsto> rec\<lparr>ar_sequence := seq\<rparr>) else tmap (sh_table sh))"
proof -
  note s = shard_okD [OF ok]
  let ?full = "mul64 (add64 (sh_count sh) (sh_tombstones sh)) 10 \<ge> mul64 (sh_capacity sh) 7"
  show ?thesis
  proof (cases "mem_ok \<and> ?full")
    case False
    have "sh_count sh + sh_tombstones sh + 1 < sh_capacity sh"
    proof (cases mem_ok)
      case True
      then have "\<not> ?full" using False by simp
      then have "(size (lives (sh_table sh)) + tombs (sh_table sh)) * 10 < length (sh_table sh) * 7" unfolding s(12,14) by simp
      then show ?thesis unfolding s(2,5,6) by (rule load_room [OF _ s(3)])
    qed (use room in \<open>simp add: room_def\<close>)
    then show ?thesis by (rule insert_step [OF ok r]) (use False in blast)
  next
    case True
    obtain sh1 where g: "GrowShard True sh = Some sh1" "shard_ok i sh1" "tmap (sh_table sh1) = tmap (sh_table sh)" "sh_tombstones sh1 = 0"
      "sh_count sh1 = sh_count sh" "sh_capacity sh1 = 2 * sh_capacity sh" "sh_live_bytes sh1 = sh_live_bytes sh"
      using GrowShard_ok [OF ok] room by (auto simp: room_def)
    note s1 = shard_okD [OF g(2)]
    have few: "sh_count sh < sh_capacity sh" using s(2,5,7) by simp
    have nf: "\<not> mul64 (add64 (sh_count sh1) (sh_tombstones sh1)) 10 \<ge> mul64 (sh_capacity sh1) 7"
      unfolding s1(12,14) using few g(4-6) s1(2,5,6) by simp
    have same: "shard_insert mem_ok seq rec sh = shard_insert mem_ok seq rec sh1"
      unfolding shard_insert_def using True g(1) nf by simp
    have rm: "sh_count sh1 + sh_tombstones sh1 + 1 < sh_capacity sh1" using few g(4-6) s(2,3) by simp
    have lb: "sh_live_bytes sh1 + ar_size rec < 2 ^ 64" using r(3) g(7) by simp
    have "\<not> (mem_ok \<and> mul64 (add64 (sh_count sh1) (sh_tombstones sh1)) 10 \<ge> mul64 (sh_capacity sh1) 7)" using nf by blast
    from insert_step [OF g(2) r(1,2) lb rm this] show ?thesis unfolding same g(3) .
  qed
qed

lemma shard_erase_ok:
  assumes ok: "shard_ok i sh" and p: "key p"
  shows "\<exists>sh'. shard_erase p sh = Some (tmap (sh_table sh) p, sh') \<and> shard_ok i sh' \<and> tmap (sh_table sh') = (tmap (sh_table sh))(p := None)"
proof -
  let ?tab = "sh_table sh"
  note s = shard_okD [OF ok]
  have h: "HashPtr p (length ?tab - 1) = home ?tab p" by (simp add: home_def)
  show ?thesis
  proof (cases "tmap ?tab p")
    case None
    obtain j where "j < length ?tab" "ar_ptr (?tab ! j) = 0" using s(15) by blast
    from erase_probe_absent [OF s(1) None p this] have "shard_erase p sh = Some (None, sh)" unfolding shard_erase_def Let_def s(11) h by simp
    then show ?thesis using ok None by (intro exI [of _ sh]) (simp add: fun_upd_idem)
  next
    case (Some e)
    obtain t where t: "t < length ?tab" "erase_probe ?tab (length ?tab - 1) p (home ?tab p) = Some (Some t)" "?tab ! t = e"
      using erase_probe_found [OF s(1) Some] by blast
    let ?nt = "?tab[t := e\<lparr>ar_ptr := 1\<rparr>]"
    have e: "e \<in># lives ?tab" "ar_ptr e = p" using Some tmap_iff [OF s(1)] by simp_all
    have live: "live_record (?tab ! t)" "\<not> live_record (e\<lparr>ar_ptr := 1\<rparr>)" using e(2) p t(3) by (simp_all add: live_key key_def)
    have nt: "table_ok ?nt" by (rule table_ok_bury [OF s(1) t(1)])
    note u = slot_upd [OF t(1), of "e\<lparr>ar_ptr := 1\<rparr>"]
    have l: "lives ?nt = lives ?tab - {#e#}" using u(2) [OF live] t(3) by simp
    obtain M where M: "lives ?tab = add_mset e M" using e(1) by (meson multi_member_split)
    have tb: "tombs ?nt = tombs ?tab + 1" using u(3) t(3) e(2) p by (simp add: key_def)
    have cnt: "sub64 (sh_count sh) 1 = size (lives ?nt)" using l M s(4,5,7) by (simp add: sub64_exact)
    have tmb: "add64 (sh_tombstones sh) 1 = tombs ?nt" using tb s(4,6,7) by (simp add: add64_exact)
    have lb: "(if sh_live_bytes sh \<ge> ar_size e then sub64 (sh_live_bytes sh) (ar_size e) else sh_live_bytes sh) = sum_mset (image_mset ar_size (lives ?nt))"
      using l M s(9,10) by (simp add: sub64_exact)
    let ?sh = "sh\<lparr>sh_table := ?nt, sh_live_bytes := sum_mset (image_mset ar_size (lives ?nt)), sh_count := size (lives ?nt), sh_tombstones := tombs ?nt\<rparr>"
    have run: "shard_erase p sh = Some (Some e, ?sh)" unfolding shard_erase_def Let_def s(11) h t(2) option.case t(3) Tombstone_def lb cnt tmb ..
    have "size (lives ?nt) + tombs ?nt < length ?tab" "sum_mset (image_mset ar_size (lives ?nt)) < 2 ^ 64" using l M tb s(7,9,10) by simp_all
    then have sok: "shard_ok i ?sh" by (intro shard_okI) (use nt s l M in auto)
    have "tmap ?nt = (tmap ?tab)(p := None)"
    proof
      fix q show "tmap ?nt q = ((tmap ?tab)(p := None)) q"
      proof (cases "q = p")
        case True
        have "ar_ptr f \<noteq> p" if f: "f \<in># lives ?nt" for f
        proof
          assume "ar_ptr f = p"
          moreover obtain j where j: "j < length ?tab" "?nt ! j = f" "live_record f" using f unfolding in_lives by auto
          moreover have "j \<noteq> t" using j t(1) by (auto simp: live_key key_def)
          ultimately show False using table_unique [OF s(1) t(1) j(1) live(1)] t(3) e(2) by simp
        qed
        then show ?thesis using True tmap_None [OF nt] by simp
      next
        case False
        have "tmap ?nt q = Some f \<longleftrightarrow> tmap ?tab q = Some f" for f unfolding tmap_iff [OF nt] tmap_iff [OF s(1)] using False l M e(2) by auto
        then show ?thesis using False by (cases "tmap ?tab q"; cases "tmap ?nt q") auto
      qed
    qed
    then show ?thesis using run sok Some by (intro exI [of _ ?sh]) simp
  qed
qed


section \<open>The registry as a map\<close>

text \<open>
  What a user of the registry relies on, as an interface: an insertion enters a new key and reports a
  known one, an erasure removes a key and says what it was.
\<close>

locale live_map =
  fixes inv :: "'s \<Rightarrow> bool" and look :: "'s \<Rightarrow> 'k \<rightharpoonup> 'v" and valid :: "'k \<Rightarrow> bool" and kof :: "'v \<Rightarrow> 'k" and stamp :: "'s \<Rightarrow> 'v \<Rightarrow> 'v"
    and fits :: "'v \<Rightarrow> 's \<Rightarrow> bool" and ins :: "'v \<Rightarrow> 's \<Rightarrow> (bool \<times> 'v option \<times> 's) option" and era :: "'k \<Rightarrow> 's \<Rightarrow> (bool \<times> 'v option \<times> 's) option"
  assumes ins_law: "inv s \<Longrightarrow> valid (kof v) \<Longrightarrow> fits v s \<Longrightarrow> \<exists>s'. ins v s = Some (look s (kof v) = None, look s (kof v), s') \<and> inv s'
      \<and> look s' = (if look s (kof v) = None then (look s)(kof v \<mapsto> stamp s v) else look s)"
    and era_law: "inv s \<Longrightarrow> valid k \<Longrightarrow> \<exists>s'. era k s = Some (look s k \<noteq> None, look s k, s') \<and> inv s' \<and> look s' = (look s)(k := None)"
begin

lemma erase_twice:
  assumes "inv s" "valid k"
  shows "\<exists>s1 s2. era k s = Some (look s k \<noteq> None, look s k, s1) \<and> era k s1 = Some (False, None, s2) \<and> inv s2 \<and> look s2 = (look s)(k := None)"
proof -
  obtain s1 where s1: "era k s = Some (look s k \<noteq> None, look s k, s1)" "inv s1" "look s1 = (look s)(k := None)" using era_law [OF assms] by blast
  obtain s2 where "era k s1 = Some (look s1 k \<noteq> None, look s1 k, s2)" "inv s2" "look s2 = (look s1)(k := None)" using era_law [OF s1(2) assms(2)] by blast
  then show ?thesis using s1 by simp
qed

lemma insert_erase:
  assumes "inv s" "valid (kof v)" "fits v s" "look s (kof v) = None"
  shows "\<exists>s1 s2. ins v s = Some (True, None, s1) \<and> era (kof v) s1 = Some (True, Some (stamp s v), s2) \<and> inv s2 \<and> look s2 = look s"
proof -
  obtain s1 where s1: "ins v s = Some (True, None, s1)" "inv s1" "look s1 = (look s)(kof v \<mapsto> stamp s v)" using ins_law [OF assms(1-3)] assms(4) by auto
  obtain s2 where "era (kof v) s1 = Some (look s1 (kof v) \<noteq> None, look s1 (kof v), s2)" "inv s2" "look s2 = (look s1)(kof v := None)"
    using era_law [OF s1(2) assms(2)] by blast
  then show ?thesis using s1 assms(4) by (auto simp: fun_upd_idem)
qed

end

definition reg_ok :: "alloc_registry \<Rightarrow> bool" where
  "reg_ok r \<longleftrightarrow> (\<forall>i < kShardCount. shard_ok i (reg_shards r i))"

definition reg_map :: "alloc_registry \<Rightarrow> addr \<rightharpoonup> alloc_record" where
  "reg_map r p = (if key p then tmap (sh_table (reg_shards r (HashShard p))) p else None)"

definition reg_fits :: "bool \<Rightarrow> alloc_record \<Rightarrow> alloc_registry \<Rightarrow> bool" where
  "reg_fits mem_ok rec r \<longleftrightarrow> (let sh = reg_shards r (HashShard (ar_ptr rec)) in room mem_ok sh \<and> sh_live_bytes sh + ar_size rec < 2 ^ 64)"

lemma reg_sequence_irrelevant [simp]:
  "reg_ok (r\<lparr>reg_sequence := n\<rparr>) = reg_ok r" "reg_map (r\<lparr>reg_sequence := n\<rparr>) = reg_map r"
  by (simp_all add: reg_ok_def reg_map_def fun_eq_iff)

lemma HashShard_less: "HashShard p < kShardCount"
  by (simp add: HashShard_def kShardCount_def)

lemma shard_update:
  assumes ok: "reg_ok r" and sh: "shard_ok (HashShard p) sh"
    and m: "tmap (sh_table sh) = (tmap (sh_table (reg_shards r (HashShard p))))(p := v)" and p: "key p"
  shows "reg_ok (set_shard (HashShard p) sh r)" "reg_map (set_shard (HashShard p) sh r) = (reg_map r)(p := v)"
proof -
  show "reg_ok (set_shard (HashShard p) sh r)" using ok sh by (simp add: reg_ok_def set_shard_def)
  show "reg_map (set_shard (HashShard p) sh r) = (reg_map r)(p := v)" using m p by (auto simp: reg_map_def set_shard_def)
qed

interpretation reg: live_map reg_ok reg_map key ar_ptr "\<lambda>r e. e\<lparr>ar_sequence := reg_sequence r\<rparr>" "reg_fits mem_ok" "Registry_Insert mem_ok" Registry_Erase
  for mem_ok :: bool
proof
  fix r :: alloc_registry and e :: alloc_record
  let ?p = "ar_ptr e" and ?i = "HashShard (ar_ptr e)"
  assume a: "reg_ok r" "key ?p" "reg_fits mem_ok e r"
  have ok: "shard_ok ?i (reg_shards r ?i)" using a(1) HashShard_less by (simp add: reg_ok_def)
  have f: "room mem_ok (reg_shards r ?i)" "sh_live_bytes (reg_shards r ?i) + ar_size e < 2 ^ 64" using a(3) by (simp_all add: reg_fits_def Let_def)
  let ?t = "tmap (sh_table (reg_shards r ?i))"
  obtain sh where sh: "shard_insert mem_ok (reg_sequence r) e (reg_shards r ?i) = Some (?t ?p, sh)" "shard_ok ?i sh"
    "tmap (sh_table sh) = (if ?t ?p = None then ?t(?p \<mapsto> e\<lparr>ar_sequence := reg_sequence r\<rparr>) else ?t)"
    using shard_insert_ok [OF ok a(2) refl f(2,1)] by blast
  have look: "reg_map r ?p = ?t ?p" using a(2) by (simp add: reg_map_def)
  show "\<exists>s'. Registry_Insert mem_ok e r = Some (reg_map r ?p = None, reg_map r ?p, s') \<and> reg_ok s'
      \<and> reg_map s' = (if reg_map r ?p = None then (reg_map r)(?p \<mapsto> e\<lparr>ar_sequence := reg_sequence r\<rparr>) else reg_map r)"
  proof (cases "?t ?p")
    case None
    let ?s = "(set_shard ?i sh r)\<lparr>reg_sequence := add64 (reg_sequence r) 1\<rparr>"
    have "reg_ok (set_shard ?i sh r)" "reg_map (set_shard ?i sh r) = (reg_map r)(?p \<mapsto> e\<lparr>ar_sequence := reg_sequence r\<rparr>)"
      using shard_update [OF a(1) sh(2) _ a(2)] sh(3) None by simp_all
    then have "reg_ok ?s" "reg_map ?s = (reg_map r)(?p \<mapsto> e\<lparr>ar_sequence := reg_sequence r\<rparr>)" by simp_all
    then show ?thesis using sh(1) None look by (simp add: Registry_Insert_def Let_def)
  next
    case (Some f)
    have "tmap (sh_table sh) = ?t(?p := Some f)" using sh(3) Some by (simp add: fun_upd_idem)
    from shard_update [OF a(1) sh(2) this a(2)] show ?thesis using sh(1) Some look
      by (simp add: Registry_Insert_def Let_def fun_upd_idem)
  qed
next
  fix r :: alloc_registry and p
  let ?i = "HashShard p"
  assume a: "reg_ok r" "key p"
  have ok: "shard_ok ?i (reg_shards r ?i)" using a(1) HashShard_less by (simp add: reg_ok_def)
  obtain sh where sh: "shard_erase p (reg_shards r ?i) = Some (tmap (sh_table (reg_shards r ?i)) p, sh)" "shard_ok ?i sh"
    "tmap (sh_table sh) = (tmap (sh_table (reg_shards r ?i)))(p := None)" using shard_erase_ok [OF ok a(2)] by blast
  show "\<exists>s'. Registry_Erase p r = Some (reg_map r p \<noteq> None, reg_map r p, s') \<and> reg_ok s' \<and> reg_map s' = (reg_map r)(p := None)"
    using sh(1) shard_update [OF a(1) sh(2,3) a(2)] a(2) by (simp add: Registry_Erase_def Let_def reg_map_def)
qed


lemma reg_ctor_iff: "reg_ok (AllocRegistry_ctor mem_ok) \<longleftrightarrow> (\<forall>i < kShardCount. mem_ok i)"
proof -
  have "table_ok (replicate kInitialShardCapacity zero_record)" by (rule empty_table(3) [of _ 10]) (simp_all add: kInitialShardCapacity_def)
  then show ?thesis by (auto simp: reg_ok_def AllocRegistry_ctor_def shard_ok_def Let_def empty_table kInitialShardCapacity_def)
qed

lemma reg_ctor_ok: "reg_ok new_registry" "reg_map new_registry p = None"
proof -
  show "reg_ok new_registry" unfolding reg_ctor_iff by simp
  have "table_ok (replicate kInitialShardCapacity zero_record)" by (rule empty_table(3) [of _ 10]) (simp_all add: kInitialShardCapacity_def)
  then show "reg_map new_registry p = None" by (simp add: AllocRegistry_ctor_def reg_map_def tmap_None empty_table)
qed

text \<open>
  C18: the registry refines a finite map from live pointers to records. \<^verbatim>\<open>Insert\<close> of a pointer that is
  not live, with room in its shard or memory for a larger table, enters its record with the next
  sequence number and succeeds; of a live pointer it fails, reports the old record and changes nothing.
  \<^verbatim>\<open>Erase\<close> removes exactly its pointer, returning the record, and fails for a pointer that is not live.
  Both return, across growth, wrap-around of the probe, collisions and tombstones.
\<close>

theorem registry_refines_map:
  assumes "reg_ok r" "key (ar_ptr e)" "reg_fits mem_ok e r" "key p"
  shows "(\<exists>r'. Registry_Insert mem_ok e r = Some (reg_map r (ar_ptr e) = None, reg_map r (ar_ptr e), r') \<and> reg_ok r'
      \<and> reg_map r' = (if reg_map r (ar_ptr e) = None then (reg_map r)(ar_ptr e \<mapsto> e\<lparr>ar_sequence := reg_sequence r\<rparr>) else reg_map r))
    \<and> (\<exists>r'. Registry_Erase p r = Some (reg_map r p \<noteq> None, reg_map r p, r') \<and> reg_ok r' \<and> reg_map r' = (reg_map r)(p := None))"
  using reg.ins_law [OF assms(1-3)] reg.era_law [OF assms(1,4)] by blast

definition demo_record :: "addr \<Rightarrow> alloc_record" where
  "demo_record p = \<lparr>ar_ptr = p, ar_size = 40, ar_usable = 48, ar_sequence = 0, ar_thread_id = 1, ar_class_or_large = 3\<rparr>"

lemma demo_record_simps [simp]:
  "ar_ptr (demo_record p) = p" "(demo_record p)\<lparr>ar_sequence := reg_sequence new_registry\<rparr> = demo_record p"
  by (simp_all add: demo_record_def AllocRegistry_ctor_def)

lemma demo_fits: "reg_fits mem_ok (demo_record p) new_registry"
  by (simp add: reg_fits_def room_def AllocRegistry_ctor_def kInitialShardCapacity_def demo_record_def Let_def)

theorem registry_refines_map_witness:
  "\<exists>r'. Registry_Insert False (demo_record 65552) new_registry = Some (True, None, r') \<and> reg_map r' 65552 = Some (demo_record 65552)
     \<and> (\<exists>r2. Registry_Erase 65568 new_registry = Some (False, None, r2))"
proof -
  have k: "key (ar_ptr (demo_record 65552))" "key 65568" by (simp_all add: key_def)
  from registry_refines_map [OF reg_ctor_ok(1) k(1) demo_fits [of False] k(2)] show ?thesis
    unfolding reg_ctor_ok(2) demo_record_simps by auto
qed

text \<open>
  A double free and a free of a pointer the allocator never gave out are detected. After an
  allocation is registered, the first \<^verbatim>\<open>Erase\<close> of its pointer succeeds with its record and restores the
  map, and a second \<^verbatim>\<open>Erase\<close> reports that the pointer is not live, as it does for any pointer that was
  never inserted.
\<close>

lemma registry_detects_double_free:
  assumes "reg_ok r" "key (ar_ptr e)" "reg_fits mem_ok e r" "reg_map r (ar_ptr e) = None"
  shows "\<exists>r1 r2 r3. Registry_Insert mem_ok e r = Some (True, None, r1) \<and> Registry_Erase (ar_ptr e) r1 = Some (True, Some (e\<lparr>ar_sequence := reg_sequence r\<rparr>), r2)
    \<and> reg_map r2 = reg_map r \<and> Registry_Erase (ar_ptr e) r2 = Some (False, None, r3) \<and> reg_ok r3 \<and> reg_map r3 = reg_map r"
proof -
  obtain r1 r2 where a: "Registry_Insert mem_ok e r = Some (True, None, r1)" "Registry_Erase (ar_ptr e) r1 = Some (True, Some (e\<lparr>ar_sequence := reg_sequence r\<rparr>), r2)"
    "reg_ok r2" "reg_map r2 = reg_map r" using reg.insert_erase [OF assms] by blast
  obtain r3 where "Registry_Erase (ar_ptr e) r2 = Some (False, None, r3)" "reg_ok r3" "reg_map r3 = reg_map r"
    using reg.era_law [OF a(3) assms(2)] a(4) assms(4) by (auto simp: fun_upd_idem)
  then show ?thesis using a by blast
qed

section \<open>A full table\<close>

text \<open>
  A probe that returns has met an empty slot or its pointer; so with neither it does not return.
\<close>

definition crowded :: "alloc_record list \<Rightarrow> addr \<Rightarrow> bool" where
  "crowded tab p \<longleftrightarrow> table_ok tab \<and> (\<forall>j < length tab. ar_ptr (tab ! j) \<noteq> 0 \<and> ar_ptr (tab ! j) \<noteq> p)"

lemma crowded_next: "crowded tab p \<Longrightarrow> s < length tab \<Longrightarrow> (s + 1) AND (length tab - 1) < length tab"
  using table_okD(3,5) unfolding crowded_def by metis

lemma insert_probe_crowded:
  assumes "crowded tab p" "s < length tab"
  shows "insert_probe tab (length tab - 1) p s ft = None"
proof (rule ccontr)
  assume "insert_probe tab (length tab - 1) p s ft \<noteq> None"
  then obtain y where y: "insert_probe tab (length tab - 1) p s ft = Some y" by blast
  let ?P = "\<lambda>tab msk p s (ft :: nat) (y :: bool \<times> nat \<times> nat). \<not> (crowded tab p \<and> msk = length tab - 1 \<and> s < length tab)"
  have "?P tab (length tab - 1) p s ft y"
  proof (rule insert_probe.raw_induct [of ?P, OF _ y])
    fix f and tab :: "alloc_record list" and msk p s ft y
    assume IH: "\<And>tab msk p s ft y. f tab msk p s ft = Some y \<Longrightarrow> ?P tab msk p s ft y"
      and r: "(let q = ar_ptr (tab ! s) in if q = 0 then Some (False, s, ft)
        else if IsTombstone q then f tab msk p ((s + 1) AND msk) (if ft = no_slot then s else ft)
        else if q = p then Some (True, s, ft) else f tab msk p ((s + 1) AND msk) ft) = Some y"
    show "?P tab msk p s ft y"
    proof
      assume c: "crowded tab p \<and> msk = length tab - 1 \<and> s < length tab"
      then have "ar_ptr (tab ! s) \<noteq> 0" "ar_ptr (tab ! s) \<noteq> p" by (auto simp: crowded_def)
      then have "\<exists>ft'. f tab msk p ((s + 1) AND msk) ft' = Some y" using r by (auto simp: Let_def split: if_splits)
      then show False using IH crowded_next [of tab p s] c by blast
    qed
  qed
  then show False using assms by blast
qed

lemma erase_probe_crowded:
  assumes "crowded tab p" "s < length tab"
  shows "erase_probe tab (length tab - 1) p s = None"
proof (rule ccontr)
  assume "erase_probe tab (length tab - 1) p s \<noteq> None"
  then obtain y where y: "erase_probe tab (length tab - 1) p s = Some y" by blast
  let ?P = "\<lambda>tab msk p s (y :: nat option). \<not> (crowded tab p \<and> msk = length tab - 1 \<and> s < length tab)"
  have "?P tab (length tab - 1) p s y"
  proof (rule erase_probe.raw_induct [of ?P, OF _ y])
    fix f and tab :: "alloc_record list" and msk p s y
    assume IH: "\<And>tab msk p s y. f tab msk p s = Some y \<Longrightarrow> ?P tab msk p s y"
      and r: "(let q = ar_ptr (tab ! s) in if q = 0 then Some None
        else if \<not> IsTombstone q \<and> q = p then Some (Some s) else f tab msk p ((s + 1) AND msk)) = Some y"
    show "?P tab msk p s y"
    proof
      assume c: "crowded tab p \<and> msk = length tab - 1 \<and> s < length tab"
      then have "ar_ptr (tab ! s) \<noteq> 0" "ar_ptr (tab ! s) \<noteq> p" by (auto simp: crowded_def)
      then have "f tab msk p ((s + 1) AND msk) = Some y" using r by (auto simp: Let_def split: if_splits)
      then show False using IH crowded_next [of tab p s] c by blast
    qed
  qed
  then show False using assms by blast
qed

text \<open>A table with no empty slot: a probe for a pointer that is not live goes round forever; a live one is found.\<close>

definition full_shard :: "reg_shard \<Rightarrow> bool" where
  "full_shard sh \<longleftrightarrow> table_ok (sh_table sh) \<and> sh_capacity sh = length (sh_table sh) \<and> (\<forall>j < length (sh_table sh). ar_ptr (sh_table sh ! j) \<noteq> 0)"

lemma full_shardD:
  assumes "full_shard sh"
  shows "table_ok (sh_table sh)" "sub64 (sh_capacity sh) 1 = length (sh_table sh) - 1" "HashPtr p (length (sh_table sh) - 1) = home (sh_table sh) p"
    "key p \<Longrightarrow> tmap (sh_table sh) p = None \<Longrightarrow> crowded (sh_table sh) p"
proof -
  show ok: "table_ok (sh_table sh)" using assms by (simp add: full_shard_def)
  have "sh_capacity sh = length (sh_table sh)" using assms by (simp add: full_shard_def)
  then show "sub64 (sh_capacity sh) 1 = length (sh_table sh) - 1" by (simp only:, intro sub64_exact) (use table_okD(1,2) [OF ok] in linarith)+
  show "HashPtr p (length (sh_table sh) - 1) = home (sh_table sh) p" by (simp add: home_def)
  assume p: "key p" "tmap (sh_table sh) p = None"
  have "ar_ptr (sh_table sh ! j) \<noteq> p" if "j < length (sh_table sh)" for j
    using p that unfolding tmap_None [OF ok] in_lives by (metis in_lives live_key)
  then show "crowded (sh_table sh) p" using assms by (simp add: crowded_def full_shard_def)
qed

lemma full_shard_absent:
  assumes "full_shard sh" "key p" "tmap (sh_table sh) p = None"
  shows "ar_ptr e = p \<Longrightarrow> shard_insert False seq e sh = None" "shard_erase p sh = None"
proof -
  note f = full_shardD [OF assms(1)]
  note c = f(4) [OF assms(2,3)] and h = table_okD(4) [OF f(1), of p]
  show "shard_erase p sh = None" unfolding shard_erase_def Let_def f(2,3) erase_probe_crowded [OF c h] by simp
  assume "ar_ptr e = p"
  moreover have "\<not> (False \<and> mul64 (add64 (sh_count sh) (sh_tombstones sh)) 10 \<ge> mul64 (sh_capacity sh) 7)" by simp
  note no_growth [OF this]
  ultimately show "shard_insert False seq e sh = None"
    unfolding shard_insert_def Let_def by (simp only: option.case f(2,3) insert_probe_crowded [OF c h])
qed

lemma full_shard_live:
  assumes "full_shard sh" "key p" "tmap (sh_table sh) p = Some x"
  obtains sh' where "shard_erase p sh = Some (Some x, sh')" "full_shard sh'" "tmap (sh_table sh') p = None"
proof -
  let ?tab = "sh_table sh"
  note f = full_shardD [OF assms(1)]
  obtain t where t: "t < length ?tab" "erase_probe ?tab (length ?tab - 1) p (home ?tab p) = Some (Some t)" "?tab ! t = x"
    using erase_probe_found [OF f(1) assms(3)] by blast
  have x: "ar_ptr x = p" "live_record (?tab ! t)" using assms(2,3) tmap_iff [OF f(1)] t(3) by (auto simp: live_key)
  let ?nt = "?tab[t := x\<lparr>ar_ptr := 1\<rparr>]"
  have nt: "table_ok ?nt" by (rule table_ok_bury [OF f(1) t(1)])
  obtain sh' where sh: "shard_erase p sh = Some (Some x, sh')" "sh_table sh' = ?nt" "sh_capacity sh' = sh_capacity sh"
    unfolding shard_erase_def Let_def f(2,3) t(2) by (simp add: t(3) Tombstone_def)
  have "ar_ptr (?nt ! j) \<noteq> 0" if "j < length ?tab" for j using assms(1) that by (cases "j = t") (auto simp: full_shard_def)
  then have "full_shard sh'" using sh(2,3) nt assms(1) by (simp add: full_shard_def)
  moreover have "ar_ptr e \<noteq> p" if e: "e \<in># lives ?nt" for e
  proof
    assume "ar_ptr e = p"
    moreover obtain j where j: "j < length ?tab" "?nt ! j = e" "live_record e" using e unfolding in_lives by auto
    moreover have "j \<noteq> t" using j t(1) by (auto simp: live_key key_def)
    ultimately show False using table_unique [OF f(1) t(1) j(1) x(2)] t(3) x(1) by simp
  qed
  then have "tmap (sh_table sh') p = None" unfolding sh(2) tmap_None [OF nt] by blast
  ultimately show thesis by (rule that [OF sh(1)])
qed

section \<open>Filling a shard that cannot grow\<close>

text \<open>Registering allocations one after the other; \<open>None\<close> unless each \<^verbatim>\<open>Insert\<close> returns and succeeds.\<close>

fun register_all :: "bool \<Rightarrow> alloc_record list \<Rightarrow> alloc_registry \<Rightarrow> alloc_registry option" where
  "register_all mem_ok [] r = Some r"
| "register_all mem_ok (e # es) r = (case Registry_Insert mem_ok e r of Some (True, _, r') \<Rightarrow> register_all mem_ok es r' | _ \<Rightarrow> None)"

lemma register_all_append:
  "register_all mem_ok (es @ fs) r = (case register_all mem_ok es r of None \<Rightarrow> None | Some r' \<Rightarrow> register_all mem_ok fs r')"
  by (induction es arbitrary: r) (auto split: option.splits bool.splits)

lemma fill_step:
  assumes ok: "reg_ok r" and e: "key (ar_ptr e)" "reg_map r (ar_ptr e) = None" "HashShard (ar_ptr e) = i"
    and sh: "sh_tombstones (reg_shards r i) = 0" "sh_live_bytes (reg_shards r i) + ar_size e < 2 ^ 64"
  obtains r' nt where "Registry_Insert False e r = Some (True, None, r')" "reg_shards r' = (reg_shards r)(i := holding nt (reg_shards r i))"
    "table_ok nt" "length nt = length (sh_table (reg_shards r i))" "lives nt = add_mset (e\<lparr>ar_sequence := reg_sequence r\<rparr>) (lives (sh_table (reg_shards r i)))"
    "tombs nt = 0" "tmap nt = (tmap (sh_table (reg_shards r i)))(ar_ptr e \<mapsto> e\<lparr>ar_sequence := reg_sequence r\<rparr>)"
proof -
  let ?sh = "reg_shards r i"
  have s: "shard_ok i ?sh" using ok e(3) HashShard_less by (auto simp: reg_ok_def)
  have none: "tmap (sh_table ?sh) (ar_ptr e) = None" using e by (simp add: reg_map_def)
  obtain nt where nt: "shard_insert False (reg_sequence r) e ?sh = Some (None, holding nt ?sh)" "table_ok nt" "length nt = length (sh_table ?sh)"
    "lives nt = add_mset (e\<lparr>ar_sequence := reg_sequence r\<rparr>) (lives (sh_table ?sh))" "tombs nt \<le> tombs (sh_table ?sh)"
    "tmap nt = (tmap (sh_table ?sh))(ar_ptr e \<mapsto> e\<lparr>ar_sequence := reg_sequence r\<rparr>)"
    by (rule insert_absent [OF s e(1) sh(2) none, of False "reg_sequence r"]) blast+
  have "tombs nt = 0" using nt(5) shard_okD(6) [OF s] sh(1) by simp
  moreover have "Registry_Insert False e r = Some (True, None, (set_shard i (holding nt ?sh) r)\<lparr>reg_sequence := add64 (reg_sequence r) 1\<rparr>)"
    using nt(1) e(3) by (simp add: Registry_Insert_def Let_def)
  ultimately show thesis using that nt(2-4,6) by (simp add: set_shard_def)
qed

definition to_fill :: "nat \<Rightarrow> alloc_record list \<Rightarrow> alloc_registry \<Rightarrow> bool" where
  "to_fill i es r \<longleftrightarrow> reg_ok r \<and> sh_tombstones (reg_shards r i) = 0 \<and> distinct (map ar_ptr es)
     \<and> (\<forall>e \<in> set es. key (ar_ptr e) \<and> HashShard (ar_ptr e) = i \<and> reg_map r (ar_ptr e) = None)
     \<and> sh_count (reg_shards r i) + length es = sh_capacity (reg_shards r i) \<and> sh_live_bytes (reg_shards r i) + sum_list (map ar_size es) < 2 ^ 64"

lemma fill_on:
  assumes f: "to_fill i (e # es) r" and es: "es \<noteq> []"
  obtains r' where "Registry_Insert False e r = Some (True, None, r')" "to_fill i es r'" "dom (reg_map r') = insert (ar_ptr e) (dom (reg_map r))"
proof -
  have a: "reg_ok r" "key (ar_ptr e)" "reg_map r (ar_ptr e) = None" "HashShard (ar_ptr e) = i" "sh_tombstones (reg_shards r i) = 0"
    "sh_live_bytes (reg_shards r i) + ar_size e < 2 ^ 64" using f by (auto simp: to_fill_def)
  obtain r' nt where r: "Registry_Insert False e r = Some (True, None, r')" "reg_shards r' = (reg_shards r)(i := holding nt (reg_shards r i))"
    "table_ok nt" "length nt = length (sh_table (reg_shards r i))" "lives nt = add_mset (e\<lparr>ar_sequence := reg_sequence r\<rparr>) (lives (sh_table (reg_shards r i)))"
    "tombs nt = 0" "tmap nt = (tmap (sh_table (reg_shards r i)))(ar_ptr e \<mapsto> e\<lparr>ar_sequence := reg_sequence r\<rparr>)" by (rule fill_step [OF a])
  have s: "shard_ok i (reg_shards r i)" using a(1,4) HashShard_less by (auto simp: reg_ok_def)
  note d = shard_okD [OF s]
  have "length es \<ge> 1" using es by (cases es) simp_all
  then have "shard_ok i (holding nt (reg_shards r i))"
    by (intro holding_ok [OF s r(3-5)]) (use a f r(4-6) d(2,5) in \<open>simp_all add: to_fill_def\<close>)
  then have ok: "reg_ok r'" using a(1) r(2) by (simp add: reg_ok_def)
  have m: "reg_map r' = (reg_map r)(ar_ptr e \<mapsto> e\<lparr>ar_sequence := reg_sequence r\<rparr>)" using r(2,7) a(2,4) by (auto simp: reg_map_def)
  have "reg_map r' (ar_ptr e') = None" if e': "e' \<in> set es" for e'
  proof -
    have "ar_ptr e \<notin> ar_ptr ` set es" "reg_map r (ar_ptr e') = None" using f e' by (simp_all add: to_fill_def)
    moreover have "ar_ptr e' \<in> ar_ptr ` set es" using e' by (rule imageI)
    ultimately show ?thesis unfolding m by (metis fun_upd_other)
  qed
  then have "to_fill i es r'" unfolding to_fill_def using f ok r(2,5,6) d(5,9) by (simp add: to_fill_def)
  then show thesis by (rule that [OF r(1)]) (simp add: m)
qed

lemma fill_last:
  assumes f: "to_fill i [e] r"
  obtains r' where "Registry_Insert False e r = Some (True, None, r')" "full_shard (reg_shards r' i)" "dom (reg_map r') = insert (ar_ptr e) (dom (reg_map r))"
proof -
  have a: "reg_ok r" "key (ar_ptr e)" "reg_map r (ar_ptr e) = None" "HashShard (ar_ptr e) = i" "sh_tombstones (reg_shards r i) = 0"
    "sh_live_bytes (reg_shards r i) + ar_size e < 2 ^ 64" using f by (auto simp: to_fill_def)
  obtain r' nt where r: "Registry_Insert False e r = Some (True, None, r')" "reg_shards r' = (reg_shards r)(i := holding nt (reg_shards r i))"
    "table_ok nt" "length nt = length (sh_table (reg_shards r i))" "lives nt = add_mset (e\<lparr>ar_sequence := reg_sequence r\<rparr>) (lives (sh_table (reg_shards r i)))"
    "tombs nt = 0" "tmap nt = (tmap (sh_table (reg_shards r i)))(ar_ptr e \<mapsto> e\<lparr>ar_sequence := reg_sequence r\<rparr>)" by (rule fill_step [OF a])
  have s: "shard_ok i (reg_shards r i)" using a(1,4) HashShard_less by (auto simp: reg_ok_def)
  note d = shard_okD [OF s]
  have "size (lives nt) = length nt" using f r(4,5) d(2,5) by (simp add: to_fill_def)
  then have "ar_ptr (nt ! j) \<noteq> 0" if "j < length nt" for j using slots_taken that by simp
  then have "full_shard (reg_shards r' i)" using r(2-4) d(2) by (simp add: full_shard_def)
  moreover have "reg_map r' = (reg_map r)(ar_ptr e \<mapsto> e\<lparr>ar_sequence := reg_sequence r\<rparr>)" using r(2,7) a(2,4) by (auto simp: reg_map_def)
  ultimately show thesis by (intro that [OF r(1)]) simp_all
qed

lemma fill_up:
  assumes "to_fill i es r" "es \<noteq> []"
  shows "\<exists>r'. register_all False es r = Some r' \<and> full_shard (reg_shards r' i) \<and> dom (reg_map r') = dom (reg_map r) \<union> ar_ptr ` set es"
  using assms
proof (induction es arbitrary: r)
  case (Cons e es)
  show ?case
  proof (cases "es = []")
    case True
    then have "to_fill i [e] r" using Cons.prems(1) by simp
    then obtain r' where "Registry_Insert False e r = Some (True, None, r')" "full_shard (reg_shards r' i)" "dom (reg_map r') = insert (ar_ptr e) (dom (reg_map r))"
      by (rule fill_last)
    then show ?thesis using True by simp
  next
    case False
    obtain r' where r: "Registry_Insert False e r = Some (True, None, r')" "to_fill i es r'" "dom (reg_map r') = insert (ar_ptr e) (dom (reg_map r))"
      by (rule fill_on [OF Cons.prems(1) False])
    then show ?thesis using Cons.IH [OF r(2) False] by auto
  qed
qed simp

text \<open>
  C19: a shard whose table cannot grow (\<^verbatim>\<open>std::malloc\<close> of a larger one fails) fills up and then hangs the
  program. From any valid registry whose shard has no tombstones, registering as many new allocations of that shard
  as it has empty slots succeeds; afterwards, for a pointer of the shard that is not live, neither
  \<^verbatim>\<open>Insert\<close> nor \<^verbatim>\<open>Erase\<close> returns, and for a live one the first \<^verbatim>\<open>Erase\<close> returns its record but the second,
  a double free, never returns instead of being reported.
\<close>

theorem registry_full_shard_hangs:
  assumes "reg_ok r" "sh_tombstones (reg_shards r i) = 0" "distinct (map ar_ptr es)"
    "\<forall>e \<in> set es. key (ar_ptr e) \<and> HashShard (ar_ptr e) = i \<and> reg_map r (ar_ptr e) = None"
    "i < kShardCount" "sh_count (reg_shards r i) + length es = sh_capacity (reg_shards r i)"
    "sh_live_bytes (reg_shards r i) + sum_list (map ar_size es) < 2 ^ 64" "key p" "HashShard p = i" "ar_ptr new = p"
  shows "\<exists>r'. register_all False es r = Some r'
    \<and> (if reg_map r p = None \<and> p \<notin> ar_ptr ` set es then Registry_Insert False new r' = None \<and> Registry_Erase p r' = None
       else \<exists>x r2. Registry_Erase p r' = Some (True, Some x, r2) \<and> ar_ptr x = p \<and> Registry_Erase p r2 = None)"
proof -
  have s: "shard_ok i (reg_shards r i)" using assms(1,5) by (simp add: reg_ok_def)
  have f: "to_fill i es r" using assms(1-4,6,7) by (simp add: to_fill_def)
  moreover have "es \<noteq> []" using assms(6) shard_okD(2,5,7) [OF s] by auto
  ultimately obtain r' where r: "register_all False es r = Some r'" "full_shard (reg_shards r' i)" "dom (reg_map r') = dom (reg_map r) \<union> ar_ptr ` set es"
    using fill_up by blast
  let ?t = "tmap (sh_table (reg_shards r' i))"
  have m: "reg_map r' p = ?t p" using assms(8,9) by (simp add: reg_map_def)
  have iff: "?t p = None \<longleftrightarrow> reg_map r p = None \<and> p \<notin> ar_ptr ` set es" using r(3) unfolding m [symmetric] domIff [symmetric] by blast
  show ?thesis
  proof (cases "?t p")
    case None
    then show ?thesis using r(1) iff full_shard_absent [OF r(2) assms(8) None] assms(9,10) by (simp add: Registry_Insert_def Registry_Erase_def Let_def)
  next
    case (Some x)
    then obtain sh' where sh: "shard_erase p (reg_shards r' i) = Some (Some x, sh')" "full_shard sh'" "tmap (sh_table sh') p = None"
      using full_shard_live [OF r(2) assms(8)] by blast
    have x: "ar_ptr x = p" using Some tmap_iff [OF full_shardD(1) [OF r(2)]] by blast
    have "Registry_Erase p r' = Some (True, Some x, set_shard i sh' r')" using sh(1) assms(9) by (simp add: Registry_Erase_def Let_def)
    moreover have "Registry_Erase p (set_shard i sh' r') = None"
      using full_shard_absent(2) [OF sh(2) assms(8) sh(3)] assms(9) by (simp add: Registry_Erase_def Let_def set_shard_def)
    ultimately show ?thesis using r(1) iff Some x by auto
  qed
qed

text \<open>The registry as constructed: 1024 allocations 256 bytes apart fill the first shard.\<close>

theorem registry_full_shard_hangs_witness:
  "\<exists>r'. register_all False (map (\<lambda>k. demo_record (256 * k + 256)) [0..<1024]) new_registry = Some r'
     \<and> Registry_Insert False (demo_record 262400) r' = None \<and> Registry_Erase 262400 r' = None"
proof -
  let ?es = "map (\<lambda>k. demo_record (256 * k + 256)) [0..<1024]"
  have d: "distinct (map ar_ptr ?es)" by (simp add: comp_def distinct_map inj_on_def)
  have h: "HashShard (256 * k + 256) = 0" for k by (simp add: HashShard_def kShardCount_def)
  have k: "\<forall>e \<in> set ?es. key (ar_ptr e) \<and> HashShard (ar_ptr e) = 0 \<and> reg_map new_registry (ar_ptr e) = None"
    using h by (auto simp: key_def reg_ctor_ok(2))
  have z: "sum_list (map ar_size ?es) = 40960" by (simp add: comp_def demo_record_def sum_list_triv)
  have "\<exists>r'. register_all False ?es new_registry = Some r'
    \<and> (if reg_map new_registry 262400 = None \<and> 262400 \<notin> ar_ptr ` set ?es
       then Registry_Insert False (demo_record 262400) r' = None \<and> Registry_Erase 262400 r' = None
       else \<exists>x r2. Registry_Erase 262400 r' = Some (True, Some x, r2) \<and> ar_ptr x = 262400 \<and> Registry_Erase 262400 r2 = None)"
    by (rule registry_full_shard_hangs [OF reg_ctor_ok(1) _ d k, where p = 262400])
      (use z h [of 1024] in \<open>simp_all add: AllocRegistry_ctor_def kInitialShardCapacity_def kShardCount_def key_def\<close>)
  moreover have "262400 \<notin> ar_ptr ` set ?es" by auto
  ultimately show ?thesis using reg_ctor_ok(2) by simp
qed

section \<open>Leak report\<close>

lemma foldl_add64: "a < 2 ^ 64 \<Longrightarrow> foldl (\<lambda>n x. add64 n (f x)) a xs = (a + sum_list (map f xs)) mod 2 ^ 64"
proof (induction xs arbitrary: a)
  case (Cons x xs)
  have "foldl (\<lambda>n x. add64 n (f x)) (add64 a (f x)) xs = (add64 a (f x) + sum_list (map f xs)) mod 2 ^ 64"
    by (rule Cons.IH) (rule add64_less)
  then show ?case by (simp add: add64_def mod_simps add.assoc)
qed simp

lemma sum_concat: "sum_list (map f (concat xss)) = sum_list (map (\<lambda>xs. sum_list (map f xs)) xss)" for f :: "'a \<Rightarrow> nat"
  by (induction xss) simp_all

definition shard_leaks :: "alloc_registry \<Rightarrow> nat \<Rightarrow> alloc_record list" where
  "shard_leaks r i = filter live_record (sh_table (reg_shards r i))"

lemma shard_leaks_facts:
  assumes "reg_ok r" "i < kShardCount"
  shows "e \<in> set (shard_leaks r i) \<longleftrightarrow> reg_map r (ar_ptr e) = Some e \<and> HashShard (ar_ptr e) = i" "distinct (map ar_ptr (shard_leaks r i))"
    "length (shard_leaks r i) = sh_count (reg_shards r i)" "sum_list (map ar_size (shard_leaks r i)) = sh_live_bytes (reg_shards r i)"
    "filter live_record (take (sh_capacity (reg_shards r i)) (sh_table (reg_shards r i))) = shard_leaks r i"
proof -
  have "shard_ok i (reg_shards r i)" using assms by (simp add: reg_ok_def)
  note s = shard_okD [OF this]
  let ?t = "sh_table (reg_shards r i)"
  show "distinct (map ar_ptr (shard_leaks r i))" unfolding shard_leaks_def by (rule live_distinct [OF s(1)])
  show "length (shard_leaks r i) = sh_count (reg_shards r i)" unfolding s(5) shard_leaks_def lives_def by (simp only: size_mset)
  show "sum_list (map ar_size (shard_leaks r i)) = sh_live_bytes (reg_shards r i)"
    unfolding s(9) shard_leaks_def lives_def by (simp only: sum_mset_sum_list mset_map [symmetric])
  show "filter live_record (take (sh_capacity (reg_shards r i)) ?t) = shard_leaks r i" unfolding s(2) by (simp add: shard_leaks_def)
  have m: "e \<in> set (shard_leaks r i) \<longleftrightarrow> e \<in># lives ?t" unfolding shard_leaks_def lives_def by (simp only: set_mset_mset)
  show "e \<in> set (shard_leaks r i) \<longleftrightarrow> reg_map r (ar_ptr e) = Some e \<and> HashShard (ar_ptr e) = i"
    unfolding m
  proof
    assume e: "e \<in># lives ?t"
    then have "HashShard (ar_ptr e) = i" "key (ar_ptr e)" using s(8) by (auto simp: in_lives live_key)
    then show "reg_map r (ar_ptr e) = Some e \<and> HashShard (ar_ptr e) = i" using e tmap_iff [OF s(1)] by (simp add: reg_map_def)
  next
    assume "reg_map r (ar_ptr e) = Some e \<and> HashShard (ar_ptr e) = i"
    then have "tmap ?t (ar_ptr e) = Some e" by (auto simp: reg_map_def split: if_splits)
    then show "e \<in># lives ?t" unfolding tmap_iff [OF s(1)] by blast
  qed
qed

lemma reg_map_ptr:
  assumes "reg_ok r" "reg_map r p = Some e"
  shows "ar_ptr e = p"
proof -
  have "shard_ok (HashShard p) (reg_shards r (HashShard p))" using assms(1) HashShard_less by (simp add: reg_ok_def)
  from tmap_iff [OF shard_okD(1) [OF this], of p e] show ?thesis using assms(2) by (simp add: reg_map_def split: if_splits)
qed

lemma leaks_distinct:
  assumes "reg_ok r" "n \<le> kShardCount"
  shows "distinct (map ar_ptr (concat (map (shard_leaks r) [0..<n])))"
  using assms(2)
proof (induction n)
  case (Suc n)
  have "HashShard (ar_ptr e) \<noteq> HashShard (ar_ptr f)" if "e \<in> set (concat (map (shard_leaks r) [0..<n]))" "f \<in> set (shard_leaks r n)" for e f
    using that shard_leaks_facts(1) [OF assms(1)] Suc.prems by auto
  then have "ar_ptr ` set (concat (map (shard_leaks r) [0..<n])) \<inter> ar_ptr ` set (shard_leaks r n) = {}" by fastforce
  then show ?case using Suc shard_leaks_facts(2) [OF assms(1), of n] by auto
qed simp

text \<open>
  C20: the leak report (\<^verbatim>\<open>DumpLeaks\<close>) lists exactly the live allocations, each once, and its totals are
  what \<^verbatim>\<open>live_count\<close> and \<^verbatim>\<open>live_bytes\<close> return, at 64 bits.
\<close>

theorem leak_report_exact:
  assumes "reg_ok r" "Registry_DumpLeaks r = (leaks, n_leaks, n_bytes)"
  shows "set leaks = ran (reg_map r) \<and> distinct (map ar_ptr leaks) \<and> n_leaks = Registry_live_count r \<and> n_bytes = Registry_live_bytes r"
proof -
  let ?I = "[0..<kShardCount]"
  note f = shard_leaks_facts [OF assms(1)]
  have "map (\<lambda>i. filter live_record (take (sh_capacity (reg_shards r i)) (sh_table (reg_shards r i)))) ?I = map (shard_leaks r) ?I" (is "?raw = _") using f(5) by simp
  moreover have "Registry_DumpLeaks r = (concat ?raw, foldl (\<lambda>n _. add64 n 1) 0 (concat ?raw), foldl (\<lambda>n e. add64 n (ar_size e)) 0 (concat ?raw))"
    by (simp only: Registry_DumpLeaks_def Let_def)
  ultimately have leaks: "leaks = concat (map (shard_leaks r) ?I)" and n: "n_leaks = foldl (\<lambda>n _. add64 n 1) 0 leaks" "n_bytes = foldl (\<lambda>n e. add64 n (ar_size e)) 0 leaks"
    using assms(2) by (simp_all only: prod.inject)
  have "e \<in> set leaks \<longleftrightarrow> reg_map r (ar_ptr e) = Some e" for e unfolding leaks using f(1) HashShard_less [of "ar_ptr e"] by auto
  then have "set leaks = ran (reg_map r)" using reg_map_ptr [OF assms(1)] by (force simp: ran_def)
  moreover have "n_leaks = Registry_live_count r"
  proof -
    have "n_leaks = sum_list (map (\<lambda>_. 1) leaks) mod 2 ^ 64" unfolding n(1) by (subst foldl_add64) simp_all
    also have "sum_list (map (\<lambda>_. 1) leaks) = sum_list (map (\<lambda>i. sh_count (reg_shards r i)) ?I)"
      unfolding leaks sum_concat map_map by (rule arg_cong [of _ _ sum_list], rule map_cong) (use f(3) in \<open>simp_all add: comp_def sum_list_triv\<close>)
    finally show ?thesis unfolding Registry_live_count_def by (subst foldl_add64) simp_all
  qed
  moreover have "n_bytes = Registry_live_bytes r"
  proof -
    have "n_bytes = sum_list (map ar_size leaks) mod 2 ^ 64" unfolding n(2) by (subst foldl_add64) simp_all
    also have "sum_list (map ar_size leaks) = sum_list (map (\<lambda>i. sh_live_bytes (reg_shards r i)) ?I)"
      unfolding leaks sum_concat map_map by (rule arg_cong [of _ _ sum_list], rule map_cong) (use f(4) in \<open>simp_all add: comp_def\<close>)
    finally show ?thesis unfolding Registry_live_bytes_def by (subst foldl_add64) simp_all
  qed
  ultimately show ?thesis using leaks_distinct [OF assms(1) order_refl] unfolding leaks by blast
qed

theorem leak_report_exact_witness:
  "\<exists>r' leaks n b. Registry_Insert True (demo_record 65552) new_registry = Some (True, None, r') \<and> Registry_DumpLeaks r' = (leaks, n, b)
     \<and> set leaks = {demo_record 65552} \<and> n = Registry_live_count r'"
proof -
  have k: "key (ar_ptr (demo_record 65552))" by (simp add: key_def)
  obtain r' where r: "Registry_Insert True (demo_record 65552) new_registry = Some (True, None, r')" "reg_ok r'"
    "reg_map r' = (reg_map new_registry)(65552 \<mapsto> demo_record 65552)"
    using reg.ins_law [OF reg_ctor_ok(1) k demo_fits [of True]] unfolding reg_ctor_ok(2) demo_record_simps by auto
  obtain leaks n b where d: "Registry_DumpLeaks r' = (leaks, n, b)" by (cases "Registry_DumpLeaks r'")
  have "ran (reg_map r') = {demo_record 65552}" using r(3) reg_ctor_ok(2) by (auto simp: ran_def)
  then show ?thesis using leak_report_exact [OF r(2) d] r(1) d by auto
qed


end
