(* ===== verification/FA_DebugChecks.thy ===== *)
theory FA_DebugChecks
  imports FA_Prelude
begin

text \<open>
  The byte checks of debug builds (\<^verbatim>\<open>debug_check\<close> in \<^verbatim>\<open>src/debug_aid.h\<close> and \<^verbatim>\<open>src/debug_aid.cpp\<close>): the front
  canary, the rear red zone and the poison of freed blocks, over the bytes of memory. A check scans
  its range and fails at the first byte that changed.
\<close>

section \<open>Fill patterns and scans\<close>

definition FRONT_CANARY :: nat where "FRONT_CANARY = 0xC8C8C8C8"
definition RED_ZONE :: nat where "RED_ZONE = 0xBB"
definition POISON_FREE :: nat where "POISON_FREE = 0xDD"
definition kPoisonCheckBytes :: nat where "kPoisonCheckBytes = 256"

text \<open>A little-endian 32-bit store and load.\<close>

definition store32 :: "addr \<Rightarrow> nat \<Rightarrow> mem \<Rightarrow> mem" where
  "store32 p v m = set_byte (p + 3) (v div 2 ^ 24 mod 256) (set_byte (p + 2) (v div 2 ^ 16 mod 256)
     (set_byte (p + 1) (v div 2 ^ 8 mod 256) (set_byte p (v mod 256) m)))"

definition load32 :: "mem \<Rightarrow> addr \<Rightarrow> nat" where
  "load32 m p = byte_at m p + byte_at m (p + 1) * 2 ^ 8 + byte_at m (p + 2) * 2 ^ 16 + byte_at m (p + 3) * 2 ^ 24"

definition WriteFrontCanary :: "addr \<Rightarrow> mem \<Rightarrow> mem" where
  "WriteFrontCanary slot m = store32 slot FRONT_CANARY m"

definition FrontCanaryOk :: "mem \<Rightarrow> addr \<Rightarrow> bool" where
  "FrontCanaryOk m slot \<longleftrightarrow> load32 m slot = FRONT_CANARY"

fun fill_loop :: "addr \<Rightarrow> nat \<Rightarrow> nat \<Rightarrow> nat \<Rightarrow> mem \<Rightarrow> mem" where
  "fill_loop p v i 0 m = m"
| "fill_loop p v i (Suc k) m = fill_loop p v (Suc i) k (set_byte (p + i) v m)"

definition FillRearRedZone :: "addr \<Rightarrow> nat \<Rightarrow> mem \<Rightarrow> mem" where
  "FillRearRedZone user_end zone_bytes m = (if zone_bytes \<noteq> 0 then fill_loop user_end RED_ZONE 0 zone_bytes m else m)"

text \<open>The scan \<^verbatim>\<open>for (i = lo; i < hi; ++i) if (p[i] != v) return false;\<close>\<close>

function scan_bytes :: "mem \<Rightarrow> addr \<Rightarrow> nat \<Rightarrow> nat \<Rightarrow> nat \<Rightarrow> bool" where
  "scan_bytes m p v i hi = (if i < hi then if byte_at m (p + i) \<noteq> v then False else scan_bytes m p v (i + 1) hi else True)"
  by pat_completeness auto
termination by (relation "measure (\<lambda>(m, p, v, i, hi). hi - i)") auto

declare scan_bytes.simps [simp del]

definition RearRedZoneOk :: "mem \<Rightarrow> addr \<Rightarrow> nat \<Rightarrow> bool" where
  "RearRedZoneOk m user_end zone_bytes = scan_bytes m user_end RED_ZONE 0 zone_bytes"

definition PoisonFreed :: "addr \<Rightarrow> nat \<Rightarrow> mem \<Rightarrow> mem" where
  "PoisonFreed p bytes m =
     (if bytes \<le> 2 * kPoisonCheckBytes then memset p POISON_FREE bytes m
      else memset (p + bytes - kPoisonCheckBytes) POISON_FREE kPoisonCheckBytes (memset p POISON_FREE kPoisonCheckBytes m))"

definition PoisonIntact :: "mem \<Rightarrow> addr \<Rightarrow> nat \<Rightarrow> bool" where
  "PoisonIntact m p bytes =
     (let n = min bytes kPoisonCheckBytes
      in if \<not> scan_bytes m p POISON_FREE 0 n then False
         else if bytes > 2 * kPoisonCheckBytes then scan_bytes m p POISON_FREE (bytes - kPoisonCheckBytes) bytes
         else True)"

section \<open>What the checks see\<close>

lemma scan_bytes_iff: "scan_bytes m p v i hi \<longleftrightarrow> (\<forall>j. i \<le> j \<and> j < hi \<longrightarrow> byte_at m (p + j) = v)"
proof (induction m p v i hi rule: scan_bytes.induct)
  case (1 m p v i hi)
  show ?case
  proof (cases "i < hi \<and> byte_at m (p + i) = v")
    case True
    have "(\<forall>j. i \<le> j \<and> j < hi \<longrightarrow> byte_at m (p + j) = v) \<longleftrightarrow> (\<forall>j. i + 1 \<le> j \<and> j < hi \<longrightarrow> byte_at m (p + j) = v)"
      using True by (metis Suc_eq_plus1 Suc_leI le_neq_implies_less less_imp_le_nat order_le_less_trans lessI)
    then show ?thesis using 1 True by (subst scan_bytes.simps) simp
  next
    case False
    then show ?thesis by (subst scan_bytes.simps) auto
  qed
qed

lemma byte_fill_loop:
  assumes "v < 256"
  shows "byte_at (fill_loop p v i k m) a = (if p + i \<le> a \<and> a < p + i + k then v else byte_at m a)"
  by (induction k arbitrary: i m) (auto simp: byte_set_byte assms)

lemma byte_poison:
  "byte_at (PoisonFreed p n m) (p + i) = (if i < n \<and> (n \<le> 512 \<or> i < 256 \<or> n - 256 \<le> i) then POISON_FREE else byte_at m (p + i))"
  unfolding PoisonFreed_def by (auto simp: byte_memset POISON_FREE_def kPoisonCheckBytes_def)

lemma poison_intact_iff:
  "PoisonIntact m p n \<longleftrightarrow> (\<forall>i < n. i < 256 \<or> (512 < n \<and> n - 256 \<le> i) \<longrightarrow> byte_at m (p + i) = POISON_FREE)"
  (is "_ = ?R")
proof -
  have "PoisonIntact m p n \<longleftrightarrow> (\<forall>j < min n 256. byte_at m (p + j) = POISON_FREE)
      \<and> (512 < n \<longrightarrow> (\<forall>j. n - 256 \<le> j \<and> j < n \<longrightarrow> byte_at m (p + j) = POISON_FREE))"
    unfolding PoisonIntact_def Let_def scan_bytes_iff kPoisonCheckBytes_def by simp
  also have "\<dots> = ?R" by (metis min_less_iff_conj)
  finally show ?thesis .
qed

text \<open>
  The canary, red zone and poison a debug build writes are accepted by their checks. The red-zone
  check rejects a zone in which any byte was changed; the poison check accepts exactly the changes it
  does not look at: between the samples of 256 bytes at both ends of a block of more than 512 bytes, and
  from byte 256 on in a block of at most 512.
\<close>

lemma debug_fill_checks:
  "FrontCanaryOk (WriteFrontCanary c m) c \<and> PoisonIntact (PoisonFreed p n m) p n
   \<and> (\<forall>m'. RearRedZoneOk m' e z \<longleftrightarrow> (\<forall>i < z. byte_at m' (e + i) = byte_at (FillRearRedZone e z m) (e + i)))
   \<and> (\<forall>i b. i < n \<and> b < 256 \<and> b \<noteq> POISON_FREE \<longrightarrow>
        PoisonIntact (set_byte (p + i) b (PoisonFreed p n m)) p n = (256 \<le> i \<and> (n \<le> 512 \<or> i < n - 256)))"
proof (intro conjI allI impI)
  show "FrontCanaryOk (WriteFrontCanary c m) c"
    by (simp add: FrontCanaryOk_def WriteFrontCanary_def load32_def store32_def byte_set_byte FRONT_CANARY_def)
  show "PoisonIntact (PoisonFreed p n m) p n" by (auto simp: poison_intact_iff byte_poison)
  show "RearRedZoneOk m' e z \<longleftrightarrow> (\<forall>i < z. byte_at m' (e + i) = byte_at (FillRearRedZone e z m) (e + i))" for m'
    by (auto simp: RearRedZoneOk_def scan_bytes_iff FillRearRedZone_def byte_fill_loop RED_ZONE_def)
  fix i b assume a: "i < n \<and> b < 256 \<and> b \<noteq> POISON_FREE"
  then have "byte_at (set_byte (p + i) b (PoisonFreed p n m)) (p + j) = (if j = i then b else byte_at (PoisonFreed p n m) (p + j))" for j
    by (simp add: byte_set_byte)
  then show "PoisonIntact (set_byte (p + i) b (PoisonFreed p n m)) p n = (256 \<le> i \<and> (n \<le> 512 \<or> i < n - 256))"
    using a unfolding poison_intact_iff by (auto simp: byte_poison not_less)
qed

end
