(* ===== verification/FA_DebugHooks.thy ===== *)
theory FA_DebugHooks
  imports FA_Slab FA_Registry FA_DebugChecks
begin

text \<open>
  The debug hooks of the allocation functions (\<^verbatim>\<open>src/fast_alloc.cpp\<close>, builds with \<^verbatim>\<open>FASTALLOC_DEBUG\<close>):
  what a debug build does to a block when it is handed to the user and what it checks when the block
  comes back. A violation ends the process, so a hook returns \<open>Inl\<close> of the report or \<open>Inr\<close> of the new
  state; \<open>None\<close> is a probe loop of the registry that does not end. The state is the memory and the
  registry (whose tables are not in this memory: they come from \<^verbatim>\<open>std::malloc\<close>).
\<close>

section \<open>Violations\<close>

datatype violation = DoubleFree | InvalidFree | FrontCanaryBroken | RearCanaryBroken | PoisonDisturbed
  | BadSlabMagic | BadLargeMagic | RegistryInconsistency | InternalInvariant

record violation_info =
  vi_kind :: violation
  vi_ptr :: addr
  vi_size :: nat
  vi_where :: string
  vi_record :: "alloc_record option"

record dbg_state =
  dbg_mem :: mem
  dbg_registry :: alloc_registry

type_synonym 'a checked = "(violation_info + 'a) option"

definition FatalDebug :: "violation \<Rightarrow> addr \<Rightarrow> nat \<Rightarrow> string \<Rightarrow> violation_info" where
  "FatalDebug kind p sz wh = \<lparr>vi_kind = kind, vi_ptr = p, vi_size = sz, vi_where = wh, vi_record = None\<rparr>"

definition FRESH :: nat where "FRESH = 0xCD"
definition SLAB_MAGIC :: nat where "SLAB_MAGIC = 0x5A8B0D5A8B0D0001"
definition LARGE_MAGIC :: nat where "LARGE_MAGIC = 0xFA578AFA578A0002"

text \<open>The field \<^verbatim>\<open>Slab::magic\<close>, which debug builds append to the slab header.\<close>

definition slab_magic :: "mem \<Rightarrow> addr \<Rightarrow> nat" where "slab_magic m s = m (s + 80)"

section \<open>Hooks on allocation\<close>

text \<open>The loop over a sample window, up to the first byte that is not an expected one.\<close>

function first_bad :: "mem \<Rightarrow> addr \<Rightarrow> nat set \<Rightarrow> nat \<Rightarrow> nat \<Rightarrow> nat option" where
  "first_bad m p ok i hi = (if i < hi then if byte_at m (p + i) \<notin> ok then Some i else first_bad m p ok (i + 1) hi else None)"
  by pat_completeness auto
termination by (relation "measure (\<lambda>(m, p, ok, i, hi). hi - i)") auto

declare first_bad.simps [simp del]

definition CheckReusePattern :: "mem \<Rightarrow> addr \<Rightarrow> nat \<Rightarrow> violation_info option" where
  "CheckReusePattern m user usable =
     (let kSample = 256;
          head = (if usable < kSample then usable else kSample);
          fatal = (\<lambda>i. FatalDebug PoisonDisturbed (user + i) usable ''use-after-free write detected on allocation'')
      in case first_bad m user {POISON_FREE, FRESH} 8 head of
           Some i \<Rightarrow> Some (fatal i)
         | None \<Rightarrow> if usable > 2 * kSample then map_option fatal (first_bad m user {POISON_FREE, FRESH} (usable - kSample) usable)
                   else None)"

definition RegistryInsertOrFail :: "bool \<Rightarrow> nat \<Rightarrow> addr \<Rightarrow> nat \<Rightarrow> nat \<Rightarrow> bool \<Rightarrow> nat \<Rightarrow> string \<Rightarrow> dbg_state \<Rightarrow> dbg_state checked" where
  "RegistryInsertOrFail mem_ok tid user sz usable large klass wh st =
     (let rec = \<lparr>ar_ptr = user, ar_size = sz, ar_usable = usable, ar_sequence = 0, ar_thread_id = tid,
                 ar_class_or_large = (if large then 0xFFFFFFFF else klass)\<rparr>
      in case Registry_Insert mem_ok rec (dbg_registry st) of
           None \<Rightarrow> None
         | Some (ok, existing, r) \<Rightarrow>
             if \<not> ok then Some (Inl \<lparr>vi_kind = DoubleFree, vi_ptr = user, vi_size = sz, vi_where = wh, vi_record = existing\<rparr>)
             else Some (Inr (st\<lparr>dbg_registry := r\<rparr>)))"

definition DebugOnAllocSmall :: "bool \<Rightarrow> nat \<Rightarrow> addr \<Rightarrow> nat \<Rightarrow> nat \<Rightarrow> dbg_state \<Rightarrow> dbg_state checked" where
  "DebugOnAllocSmall mem_ok tid user sz class_index st =
     (let block = user - USER_OFFSET;
          block_size = ClassIndexToSize class_index;
          usable = UsableSize_debug class_index
      in case CheckReusePattern (dbg_mem st) user usable of
           Some v \<Rightarrow> Some (Inl v)
         | None \<Rightarrow>
             (let m = WriteFrontCanary (block + 12) (dbg_mem st);
                  m = FillRearRedZone (user + sz) (sub64 (sub64 block_size USER_OFFSET) sz) m
              in RegistryInsertOrFail mem_ok tid user sz usable False (class_index mod 2 ^ 32)
                   ''fast_malloc: allocation of an already-live pointer'' (st\<lparr>dbg_mem := m\<rparr>)))"

definition DebugOnAllocLarge :: "bool \<Rightarrow> nat \<Rightarrow> addr \<Rightarrow> nat \<Rightarrow> nat \<Rightarrow> dbg_state \<Rightarrow> dbg_state checked" where
  "DebugOnAllocLarge mem_ok tid user sz alloc_size st =
     (let usable = sub64 alloc_size sizeof_LargeAllocHeader;
          kSample = 256;
          head = (if usable < kSample then usable else kSample);
          ok = {POISON_FREE, FRESH, 0};
          fatal = (\<lambda>i. Some (Inl (FatalDebug PoisonDisturbed (user + i) usable ''use-after-free write detected on large allocation'')));
          finish = (\<lambda>_::unit. let m = FillRearRedZone (user + sz) (sub64 usable sz) (dbg_mem st)
             in RegistryInsertOrFail mem_ok tid user sz usable True 0
                  ''fast_malloc(large): allocation of an already-live pointer'' (st\<lparr>dbg_mem := m\<rparr>))
      in case first_bad (dbg_mem st) user ok 0 head of
           Some i \<Rightarrow> fatal i
         | None \<Rightarrow> if usable > 2 * kSample
                   then (case first_bad (dbg_mem st) user ok (usable - kSample) usable of Some i \<Rightarrow> fatal i | None \<Rightarrow> finish ())
                   else finish ())"

section \<open>Hooks on deallocation\<close>

definition the_record :: "alloc_record option \<Rightarrow> alloc_record" where
  "the_record out = (case out of Some e \<Rightarrow> e | None \<Rightarrow> zero_record)"

definition DebugOnFreeSmall :: "addr \<Rightarrow> addr \<Rightarrow> dbg_state \<Rightarrow> (alloc_record \<times> dbg_state) checked" where
  "DebugOnFreeSmall user block st =
     (case Registry_Erase user (dbg_registry st) of
        None \<Rightarrow> None
      | Some (ok, out, r) \<Rightarrow>
          (let rec = the_record out; m = dbg_mem st
           in if \<not> ok then Some (Inl (FatalDebug DoubleFree user 0 ''fast_free: pointer is not live (double free or invalid free)''))
              else if fb_slab m block = 0 \<or> slab_magic m (fb_slab m block) \<noteq> SLAB_MAGIC
                then Some (Inl (FatalDebug BadSlabMagic user 0 ''fast_free: slab header failed magic validation''))
              else if \<not> FrontCanaryOk m (block + 12)
                then Some (Inl (FatalDebug FrontCanaryBroken user (ar_size rec) ''fast_free: front canary destroyed (buffer underflow)''))
              else let block_size = ClassIndexToSize (fb_class_index m block)
                   in if \<not> RearRedZoneOk m (user + ar_size rec) (sub64 (sub64 block_size USER_OFFSET) (ar_size rec))
                      then Some (Inl (FatalDebug RearCanaryBroken user (ar_size rec) ''fast_free: rear red zone destroyed (buffer overflow)''))
                      else Some (Inr (rec, st\<lparr>dbg_registry := r, dbg_mem := PoisonFreed user (UsableSize_debug (fb_class_index m block)) m\<rparr>))))"

definition DebugOnFreeLarge :: "nat \<Rightarrow> addr \<Rightarrow> addr \<Rightarrow> dbg_state \<Rightarrow> (alloc_record \<times> dbg_state) checked" where
  "DebugOnFreeLarge page user header st =
     (case Registry_Erase user (dbg_registry st) of
        None \<Rightarrow> None
      | Some (ok, out, r) \<Rightarrow>
          (let rec = the_record out; m = dbg_mem st; alloc_size = m (header + 8)
           in if \<not> ok then Some (Inl (FatalDebug DoubleFree user 0 ''fast_free: pointer is not live (double free or invalid free)''))
              else if m header \<noteq> LARGE_MAGIC
                then Some (Inl (FatalDebug BadLargeMagic user 0 ''fast_free: large header magic destroyed (buffer underflow)''))
              else if ar_usable rec \<noteq> 0 \<and> alloc_size \<noteq> add64 (ar_usable rec) sizeof_LargeAllocHeader
                then Some (Inl (FatalDebug BadLargeMagic user (ar_size rec) ''fast_free: large header size field corrupted (buffer underflow)''))
              else if alloc_size < sizeof_LargeAllocHeader + 1 \<or> alloc_size mod page \<noteq> 0
                then Some (Inl (FatalDebug BadLargeMagic user alloc_size ''fast_free: large header size field corrupted (buffer underflow)''))
              else let usable = (if ar_usable rec = 0 then sub64 alloc_size sizeof_LargeAllocHeader else ar_usable rec)
                   in if \<not> RearRedZoneOk m (user + ar_size rec) (sub64 usable (ar_size rec))
                      then Some (Inl (FatalDebug RearCanaryBroken user (ar_size rec) ''fast_free: rear red zone destroyed (buffer overflow)''))
                      else Some (Inr (rec, st\<lparr>dbg_registry := r, dbg_mem := PoisonFreed user usable m\<rparr>))))"

section \<open>Records that follow a block\<close>

text \<open>
  \<^verbatim>\<open>Erase(p, &rec)\<close> followed by \<^verbatim>\<open>Insert\<close> of the changed record, as \<^verbatim>\<open>fast_realloc\<close>, \<^verbatim>\<open>fast_aligned_alloc\<close> and
  \<^verbatim>\<open>fast_free\<close> of an over-aligned block do it: the result of the insertion is ignored.
\<close>

definition move_record :: "bool \<Rightarrow> addr \<Rightarrow> (alloc_record \<Rightarrow> alloc_record) \<Rightarrow> alloc_registry \<Rightarrow> alloc_registry option" where
  "move_record mem_ok p f r =
     (case Registry_Erase p r of
        None \<Rightarrow> None
      | Some (ok, out, r) \<Rightarrow>
          if ok then (case Registry_Insert mem_ok (f (the_record out)) r of None \<Rightarrow> None | Some (_, _, r) \<Rightarrow> Some r) else Some r)"

definition DebugUpdateKeptLargeSpan :: "bool \<Rightarrow> addr \<Rightarrow> nat \<Rightarrow> nat \<Rightarrow> dbg_state \<Rightarrow> dbg_state option" where
  "DebugUpdateKeptLargeSpan mem_ok p new_size span_usable st =
     (if span_usable < new_size then Some st
      else case move_record mem_ok p (ar_size_update (\<lambda>_. new_size)) (dbg_registry st) of
             None \<Rightarrow> None
           | Some r \<Rightarrow> Some (st\<lparr>dbg_registry := r, dbg_mem := FillRearRedZone (p + new_size) (sub64 span_usable new_size) (dbg_mem st)\<rparr>))"

text \<open>In-place reuse of a small block and of a large span by \<^verbatim>\<open>fast_realloc\<close>.\<close>

definition debug_keep_small :: "bool \<Rightarrow> addr \<Rightarrow> nat \<Rightarrow> dbg_state \<Rightarrow> dbg_state option" where
  "debug_keep_small mem_ok p new_size st =
     (case move_record mem_ok p (ar_size_update (\<lambda>_. new_size)) (dbg_registry st) of
        None \<Rightarrow> None
      | Some r \<Rightarrow>
          (let blk = p - USER_OFFSET; block_size = ClassIndexToSize (fb_class_index (dbg_mem st) blk)
           in Some (st\<lparr>dbg_registry := r, dbg_mem := FillRearRedZone (p + new_size) (sub64 (sub64 block_size USER_OFFSET) new_size) (dbg_mem st)\<rparr>)))"

definition debug_keep_large :: "bool \<Rightarrow> addr \<Rightarrow> nat \<Rightarrow> dbg_state \<Rightarrow> dbg_state option" where
  "debug_keep_large mem_ok p new_size st =
     (case move_record mem_ok p (ar_size_update (\<lambda>_. new_size)) (dbg_registry st) of
        None \<Rightarrow> None
      | Some r \<Rightarrow>
          (let h = p - sizeof_LargeAllocHeader; usable = sub64 (dbg_mem st (h + 8)) sizeof_LargeAllocHeader
           in Some (st\<lparr>dbg_registry := r, dbg_mem := FillRearRedZone (p + new_size) (sub64 usable new_size) (dbg_mem st)\<rparr>)))"

text \<open>A large span that \<^verbatim>\<open>mremap\<close> shrank in place, and one it grew, which may have moved to \<open>q\<close>.\<close>

definition debug_shrink_large :: "bool \<Rightarrow> addr \<Rightarrow> nat \<Rightarrow> nat \<Rightarrow> dbg_state \<Rightarrow> dbg_state option" where
  "debug_shrink_large mem_ok p new_size needed st =
     (let usable = sub64 needed sizeof_LargeAllocHeader
      in case move_record mem_ok p (\<lambda>rec. rec\<lparr>ar_size := new_size, ar_usable := usable\<rparr>) (dbg_registry st) of
           None \<Rightarrow> None
         | Some r \<Rightarrow> Some (st\<lparr>dbg_registry := r, dbg_mem := FillRearRedZone (p + new_size) (sub64 usable new_size) (dbg_mem st)\<rparr>))"

definition debug_grow_large :: "bool \<Rightarrow> addr \<Rightarrow> addr \<Rightarrow> nat \<Rightarrow> nat \<Rightarrow> dbg_state \<Rightarrow> dbg_state option" where
  "debug_grow_large mem_ok p q new_size needed st =
     (let usable = sub64 needed sizeof_LargeAllocHeader
      in case move_record mem_ok p (\<lambda>rec. rec\<lparr>ar_ptr := q, ar_size := new_size, ar_usable := usable\<rparr>) (dbg_registry st) of
           None \<Rightarrow> None
         | Some r \<Rightarrow> Some (st\<lparr>dbg_registry := r, dbg_mem := FillRearRedZone (q + new_size) (sub64 usable new_size) (dbg_mem st)\<rparr>))"

text \<open>The record of an over-aligned block: from the raw pointer to the aligned one, and back before it is freed.\<close>

definition debug_align_record :: "bool \<Rightarrow> addr \<Rightarrow> addr \<Rightarrow> nat \<Rightarrow> alloc_registry \<Rightarrow> alloc_registry option" where
  "debug_align_record mem_ok raw aligned sz r = move_record mem_ok raw (\<lambda>rec. rec\<lparr>ar_ptr := aligned, ar_size := sz\<rparr>) r"

definition debug_unalign_record :: "bool \<Rightarrow> addr \<Rightarrow> addr \<Rightarrow> dbg_state \<Rightarrow> alloc_registry option" where
  "debug_unalign_record mem_ok p raw st =
     (let alignment = dbg_mem st (p - 32)
      in move_record mem_ok p (\<lambda>rec. rec\<lparr>ar_ptr := raw, ar_size := add64 (add64 (ar_size rec) alignment) 32\<rparr>) (dbg_registry st))"

end
