(* ===== verification/FA_DebugProps.thy ===== *)
theory FA_DebugProps
  imports FA_DebugHooks
begin

text \<open>
  What the debug hooks accept and what they report: a block that is used within its bytes passes from
  allocation to deallocation and is ready for reuse; a write outside them, a write after the free and a
  second free are each reported. The program's writes are a list of byte stores.
\<close>

section \<open>Byte stores and block headers\<close>

fun poke :: "(addr \<times> nat) list \<Rightarrow> mem \<Rightarrow> mem" where
  "poke [] m = m"
| "poke ((a, v) # ws) m = poke ws (set_byte a v m)"

definition within :: "(addr \<times> nat) list \<Rightarrow> addr \<Rightarrow> addr \<Rightarrow> bool" where
  "within ws lo hi \<longleftrightarrow> (\<forall>(a, v) \<in> set ws. lo \<le> a \<and> a < hi \<and> v < 256)"

lemma within_Cons [simp]: "within ((a, v) # ws) lo hi \<longleftrightarrow> lo \<le> a \<and> a < hi \<and> v < 256 \<and> within ws lo hi"
  by (auto simp: within_def)

lemma byte_poke: "within ws lo hi \<Longrightarrow> a < lo \<or> hi \<le> a \<Longrightarrow> byte_at (poke ws m) a = byte_at m a"
  by (induction ws m rule: poke.induct) (auto simp: byte_set_byte)

text \<open>Anything that no store in a range of bytes changes is not changed by the operations made of them.\<close>

lemma poke_keeps: "(\<And>a v m. lo \<le> a \<Longrightarrow> a < hi \<Longrightarrow> P (set_byte a v m) = P m) \<Longrightarrow> within ws lo hi \<Longrightarrow> P (poke ws m) = P m"
  by (induction ws m rule: poke.induct) auto

lemma memset_keeps:
  "(\<And>a v m. lo \<le> a \<Longrightarrow> a < hi \<Longrightarrow> P (set_byte a v m) = P m) \<Longrightarrow> lo \<le> p \<Longrightarrow> p + n \<le> hi \<Longrightarrow> P (memset p v n m) = P m"
  by (induction n arbitrary: p m) auto

lemma fill_loop_keeps:
  "(\<And>a v m. lo \<le> a \<Longrightarrow> a < hi \<Longrightarrow> P (set_byte a v m) = P m) \<Longrightarrow> lo \<le> p + i \<Longrightarrow> p + i + n \<le> hi \<Longrightarrow> P (fill_loop p v i n m) = P m"
  by (induction n arbitrary: i m) auto

lemma poison_keeps:
  "(\<And>a v m. lo \<le> a \<Longrightarrow> a < hi \<Longrightarrow> P (set_byte a v m) = P m) \<Longrightarrow> lo \<le> p \<Longrightarrow> p + n \<le> hi \<Longrightarrow> P (PoisonFreed p n m) = P m"
  unfolding PoisonFreed_def kPoisonCheckBytes_def by (auto simp: memset_keeps [of lo hi P])

lemma zone_keeps:
  "(\<And>a v m. lo \<le> a \<Longrightarrow> a < hi \<Longrightarrow> P (set_byte a v m) = P m) \<Longrightarrow> lo \<le> p \<Longrightarrow> p + n \<le> hi \<Longrightarrow> P (FillRearRedZone p n m) = P m"
  unfolding FillRearRedZone_def by (auto simp: fill_loop_keeps [of lo hi P])

lemma canary_keeps:
  "(\<And>a v m. lo \<le> a \<Longrightarrow> a < hi \<Longrightarrow> P (set_byte a v m) = P m) \<Longrightarrow> lo \<le> p \<Longrightarrow> p + 4 \<le> hi \<Longrightarrow> P (WriteFrontCanary p m) = P m"
  unfolding WriteFrontCanary_def store32_def by simp

lemma byte_zone: "byte_at (FillRearRedZone p n m) a = (if p \<le> a \<and> a < p + n then RED_ZONE else byte_at m a)"
  by (auto simp: FillRearRedZone_def byte_fill_loop RED_ZONE_def)

lemma byte_canary: "byte_at (WriteFrontCanary p m) a = (if p \<le> a \<and> a < p + 4 then 0xC8 else byte_at m a)"
  by (auto simp: WriteFrontCanary_def store32_def byte_set_byte FRONT_CANARY_def)

lemma digit256: "x + 256 * y = u + 256 * w \<Longrightarrow> x < 256 \<Longrightarrow> u < 256 \<Longrightarrow> x = u \<and> y = w" for x y u w :: nat
  by (metis add_right_cancel mod_less mod_mult_self2 nat_mult_eq_cancel1 add_left_cancel zero_less_numeral)

lemma canary_ok_iff: "FrontCanaryOk m p \<longleftrightarrow> (\<forall>i < 4. byte_at m (p + i) = 0xC8)"
proof
  have four: "{..<4::nat} = {0, 1, 2, 3}" by auto
  show "FrontCanaryOk m p" if "\<forall>i < 4. byte_at m (p + i) = 0xC8"
    using that spec [OF that, of 0] spec [OF that, of 1] spec [OF that, of 2] spec [OF that, of 3]
    by (simp add: FrontCanaryOk_def load32_def FRONT_CANARY_def)
  assume "FrontCanaryOk m p"
  then have e: "byte_at m p + byte_at m (p + 1) * 256 + byte_at m (p + 2) * 65536 + byte_at m (p + 3) * 16777216 = 3368601800"
    by (simp add: FrontCanaryOk_def load32_def FRONT_CANARY_def)
  have "byte_at m p + 256 * (byte_at m (p + 1) + 256 * (byte_at m (p + 2) + 256 * byte_at m (p + 3))) = 200 + 256 * (200 + 256 * (200 + 256 * 200))"
    using e by simp
  from digit256 [OF this] have d: "byte_at m p = 200" "byte_at m (p + 1) + 256 * (byte_at m (p + 2) + 256 * byte_at m (p + 3)) = 200 + 256 * (200 + 256 * 200)"
    by simp_all
  have "byte_at m (p + 1) = 200 \<and> byte_at m (p + 2) + 256 * byte_at m (p + 3) = 200 + 256 * 200" by (rule digit256 [OF d(2)]) simp_all
  moreover from this have "byte_at m (p + 2) = 200 \<and> byte_at m (p + 3) = 200" by (intro digit256) simp_all
  ultimately have "byte_at m p = 200 \<and> byte_at m (p + 1) = 200 \<and> byte_at m (p + 2) = 200 \<and> byte_at m (p + 3) = 200" using d(1) by simp
  then show "\<forall>i < 4. byte_at m (p + i) = 0xC8" using four by (auto simp: less_Suc_eq numeral_eq_Suc)
qed

lemma zone_ok_iff: "RearRedZoneOk m p n \<longleftrightarrow> (\<forall>i < n. byte_at m (p + i) = RED_ZONE)"
  by (simp add: RearRedZoneOk_def scan_bytes_iff)

lemma zone_ok_from: "RearRedZoneOk m (p + k) (n - k) \<longleftrightarrow> \<not> (\<exists>i. k \<le> i \<and> i < n \<and> byte_at m (p + i) \<noteq> RED_ZONE)"
proof -
  have "(\<forall>i < n - k. byte_at m (p + k + i) = RED_ZONE) \<longleftrightarrow> (\<forall>j. k \<le> j \<and> j < n \<longrightarrow> byte_at m (p + j) = RED_ZONE)" (is "?A \<longleftrightarrow> ?B")
  proof (intro iffI allI impI)
    show "byte_at m (p + j) = RED_ZONE" if A: ?A and j: "k \<le> j \<and> j < n" for j
      using A [rule_format, of "j - k"] j by (simp add: add.assoc diff_less_mono)
    show "byte_at m (p + k + i) = RED_ZONE" if B: ?B and i: "i < n - k" for i
      using B [rule_format, of "k + i"] i by (simp add: add.assoc)
  qed
  then show ?thesis unfolding zone_ok_iff by blast
qed

lemma cell_set_byte: "c mod 8 = 0 \<Longrightarrow> a < c \<or> c + 8 \<le> a \<Longrightarrow> set_byte a v m c = m c"
  using cell_of_byte(1) [of a] mod_less_divisor [of 8 a] by (auto simp: set_byte_def Let_def)

lemma low_set_byte:
  assumes "c mod 8 = 0" "c + 4 \<le> a" "a < c + 8"
  shows "set_byte a v m c mod 2 ^ 32 = m c mod 2 ^ 32"
proof -
  obtain i where i: "a = c + i" "4 \<le> i" "i < 8" using assms(2,3) by (auto simp: le_iff_add)
  have im: "a mod 8 = i" using i(1,3) assms(1) by (simp add: mod_add_eq [symmetric])
  have c: "a - i = c" using i(1) by simp
  obtain j where j: "i = 4 + j" using i(2) le_iff_add by blast
  have k: "(256::nat) ^ i = 2 ^ 32 * 256 ^ j" by (simp add: j power_add)
  let ?K = "(256::nat) ^ i"
  have "set_byte a v m c = m c mod ?K + 2 ^ 32 * (256 ^ j * (m c div (?K * 256) * 256 + v mod 256))"
    unfolding set_byte_def Let_def im c fun_upd_same by (simp add: k algebra_simps)
  then have "set_byte a v m c mod 2 ^ 32 = m c mod ?K mod 2 ^ 32" by simp
  then show ?thesis unfolding k by (simp add: mod_mod_cancel)
qed

section \<open>The sample windows\<close>

lemma first_bad_facts:
  "first_bad m p ok i hi = Some j \<Longrightarrow> i \<le> j \<and> j < hi \<and> byte_at m (p + j) \<notin> ok"
  "first_bad m p ok i hi = None \<longleftrightarrow> (\<forall>j. i \<le> j \<and> j < hi \<longrightarrow> byte_at m (p + j) \<in> ok)"
proof (induction m p ok i hi rule: first_bad.induct)
  case (1 m p ok i hi)
  {
    case 1
    then show ?case using "1.IH"(1) by (subst (asm) first_bad.simps) (auto split: if_splits)
  next
    case 2
    have "(\<forall>j. i \<le> j \<and> j < hi \<longrightarrow> byte_at m (p + j) \<in> ok) \<longleftrightarrow> (\<forall>j. i + 1 \<le> j \<and> j < hi \<longrightarrow> byte_at m (p + j) \<in> ok)"
      if "i < hi" "byte_at m (p + i) \<in> ok"
      using that by (metis Suc_eq_plus1 Suc_leI le_neq_implies_less less_imp_le_nat order_le_less_trans lessI)
    then show ?case using "1.IH"(2) by (subst first_bad.simps) auto
  }
qed

text \<open>The bytes of a block that the check on reuse looks at.\<close>

definition sampled :: "nat \<Rightarrow> nat \<Rightarrow> nat \<Rightarrow> bool" where
  "sampled first usable i \<longleftrightarrow> i < usable \<and> (first \<le> i \<and> i < 256 \<or> 512 < usable \<and> usable - 256 \<le> i)"

definition window_scan :: "mem \<Rightarrow> addr \<Rightarrow> nat set \<Rightarrow> nat \<Rightarrow> nat \<Rightarrow> nat option" where
  "window_scan m p ok first usable =
     (case first_bad m p ok first (if usable < 256 then usable else 256) of
        Some i \<Rightarrow> Some i
      | None \<Rightarrow> if usable > 512 then first_bad m p ok (usable - 256) usable else None)"

lemma window_scan_facts:
  "window_scan m p ok first usable = Some i \<Longrightarrow> sampled first usable i \<and> byte_at m (p + i) \<notin> ok"
  "window_scan m p ok first usable = None \<longleftrightarrow> (\<forall>i. sampled first usable i \<longrightarrow> byte_at m (p + i) \<in> ok)"
proof -
  let ?head = "if usable < 256 then usable else (256::nat)"
  have w: "sampled first usable i \<longleftrightarrow> first \<le> i \<and> i < ?head \<or> 512 < usable \<and> usable - 256 \<le> i \<and> i < usable" for i
    by (auto simp: sampled_def)
  show "window_scan m p ok first usable = Some i \<Longrightarrow> sampled first usable i \<and> byte_at m (p + i) \<notin> ok"
    unfolding window_scan_def w by (auto split: option.splits if_splits dest!: first_bad_facts(1))
  have "window_scan m p ok first usable = None \<longleftrightarrow>
      first_bad m p ok first ?head = None \<and> (512 < usable \<longrightarrow> first_bad m p ok (usable - 256) usable = None)"
    unfolding window_scan_def by (simp split: option.split)
  also have "\<dots> \<longleftrightarrow> (\<forall>i. sampled first usable i \<longrightarrow> byte_at m (p + i) \<in> ok)" unfolding first_bad_facts(2) w by blast
  finally show "window_scan m p ok first usable = None \<longleftrightarrow> (\<forall>i. sampled first usable i \<longrightarrow> byte_at m (p + i) \<in> ok)" .
qed

lemma reuse_scan:
  "CheckReusePattern m user usable = map_option (\<lambda>i. FatalDebug PoisonDisturbed (user + i) usable ''use-after-free write detected on allocation'')
     (window_scan m user {POISON_FREE, FRESH} 8 usable)"
  unfolding CheckReusePattern_def window_scan_def Let_def by (simp split: option.split)

lemma large_reuse_scan:
  fixes alloc_size :: nat
  defines "u \<equiv> sub64 alloc_size sizeof_LargeAllocHeader"
  shows "DebugOnAllocLarge mem_ok tid user sz alloc_size st =
      (case window_scan (dbg_mem st) user {POISON_FREE, FRESH, 0} 0 u of
        Some i \<Rightarrow> Some (Inl (FatalDebug PoisonDisturbed (user + i) u ''use-after-free write detected on large allocation''))
      | None \<Rightarrow> RegistryInsertOrFail mem_ok tid user sz u True 0 ''fast_malloc(large): allocation of an already-live pointer''
          (st\<lparr>dbg_mem := FillRearRedZone (user + sz) (sub64 u sz) (dbg_mem st)\<rparr>))"
  unfolding DebugOnAllocLarge_def window_scan_def Let_def u_def by (simp split: option.split)

section \<open>Registering and checking a small block\<close>

definition rec_of :: "nat \<Rightarrow> addr \<Rightarrow> nat \<Rightarrow> nat \<Rightarrow> nat \<Rightarrow> nat \<Rightarrow> alloc_record" where
  "rec_of tid user sz usable klass seq =
     \<lparr>ar_ptr = user, ar_size = sz, ar_usable = usable, ar_sequence = seq, ar_thread_id = tid, ar_class_or_large = klass\<rparr>"

definition can_register :: "bool \<Rightarrow> addr \<Rightarrow> nat \<Rightarrow> alloc_registry \<Rightarrow> bool" where
  "can_register mem_ok user sz r \<longleftrightarrow> reg_ok r \<and> key user \<and> reg_fits mem_ok (rec_of 0 user sz 0 0 0) r"

lemma insert_or_fail:
  fixes large :: bool and klass :: nat
  defines "k \<equiv> if large then 0xFFFFFFFF else klass"
  assumes "can_register mem_ok user sz r" "reg_map r user = None"
  shows "\<exists>r'. RegistryInsertOrFail mem_ok tid user sz usable large klass wh \<lparr>dbg_mem = m, dbg_registry = r\<rparr> = Some (Inr \<lparr>dbg_mem = m, dbg_registry = r'\<rparr>)
    \<and> reg_ok r' \<and> reg_map r' = (reg_map r)(user \<mapsto> rec_of tid user sz usable k (reg_sequence r))"
proof -
  let ?e = "rec_of tid user sz usable k 0"
  have "reg_ok r" "key (ar_ptr ?e)" "reg_fits mem_ok ?e r"
    using assms(2) unfolding can_register_def by (simp_all add: rec_of_def reg_fits_def)
  from reg.ins_law [OF this]
  obtain r' where "Registry_Insert mem_ok ?e r = Some (True, None, r')" "reg_ok r'" "reg_map r' = (reg_map r)(user \<mapsto> rec_of tid user sz usable k (reg_sequence r))"
    using assms(3) by (auto simp: rec_of_def)
  then show ?thesis unfolding RegistryInsertOrFail_def Let_def k_def [symmetric] by (simp add: rec_of_def)
qed

definition debug_block :: "mem \<Rightarrow> addr \<Rightarrow> addr \<Rightarrow> nat \<Rightarrow> bool" where
  "debug_block m s b ci \<longleftrightarrow> b mod 16 = 0 \<and> s mod 8 = 0 \<and> 0 < s \<and> s + 88 \<le> b \<and> 0 < ci \<and> ci < NUM_SIZE_CLASSES
     \<and> fb_slab m b = s \<and> slab_magic m s = SLAB_MAGIC \<and> fb_class_index m b = ci"

lemma debug_block_store:
  assumes "b + 12 \<le> a"
  shows "debug_block (set_byte a v m) s b ci = debug_block m s b ci"
proof (cases "b mod 16 = 0 \<and> s mod 8 = 0 \<and> s + 88 \<le> b")
  case True
  then have b8: "b mod 8 = 0" "(b + 8) mod 8 = 0" "(s + 80) mod 8 = 0" using mod_mod_cancel [of 8 16 b] by (simp_all add: mod_add_eq [symmetric])
  have "set_byte a v m b = m b" using assms b8(1) by (intro cell_set_byte) simp_all
  moreover have "set_byte a v m (s + 80) = m (s + 80)" using assms b8(3) True by (intro cell_set_byte) simp_all
  moreover have "set_byte a v m (b + 8) mod 2 ^ 32 = m (b + 8) mod 2 ^ 32"
  proof (cases "a < b + 16")
    case True
    then show ?thesis using assms b8(2) by (intro low_set_byte) simp_all
  next
    case False
    then show ?thesis using b8(2) by (subst cell_set_byte) simp_all
  qed
  ultimately show ?thesis unfolding debug_block_def cells slab_magic_def by simp
qed (auto simp: debug_block_def)

lemma debug_block_sizes:
  assumes "debug_block m s b ci"
  shows "ClassIndexToSize ci = ci * 16 + 16" "UsableSize_debug ci = ci * 16 - 8" "8 \<le> ci * 16 - 8" "sub64 (ci * 16 + 16) USER_OFFSET = ci * 16"
    "n \<le> ci * 16 \<Longrightarrow> sub64 (ci * 16) n = ci * 16 - n" "ci mod 2 ^ 32 = ci" "b \<noteq> 0" "key (b + 16)" "fb_class_index m b = ci"
  using assms ClassIndexToSize_exact [of ci] UsableSize_debug_exact [of ci]
  by (auto simp: debug_block_def config_consts arith64 key_def)

text \<open>A block as the user gets it: canary in front, red zone from the requested size to the end.\<close>

definition armed :: "addr \<Rightarrow> nat \<Rightarrow> nat \<Rightarrow> mem \<Rightarrow> mem" where
  "armed b sz ci m = FillRearRedZone (b + 16 + sz) (ci * 16 - sz) (WriteFrontCanary (b + 12) m)"

lemma armed_facts:
  assumes "sz \<le> ci * 16"
  shows "debug_block (armed b sz ci m) s b ci = debug_block m s b ci" "i < 4 \<Longrightarrow> byte_at (armed b sz ci m) (b + 12 + i) = 0xC8"
    "sz \<le> i \<Longrightarrow> i < ci * 16 \<Longrightarrow> byte_at (armed b sz ci m) (b + 16 + i) = RED_ZONE"
proof -
  show "debug_block (armed b sz ci m) s b ci = debug_block m s b ci"
    unfolding armed_def using assms debug_block_store [of b _ _ _ s ci]
    by (subst zone_keeps [of "b + 12" "b + 16 + ci * 16" "\<lambda>m. debug_block m s b ci"])
      (simp_all add: canary_keeps [of "b + 12" "b + 16" "\<lambda>m. debug_block m s b ci"])
qed (use assms in \<open>auto simp: armed_def byte_zone byte_canary\<close>)

lemma alloc_small_ok:
  assumes b: "debug_block m s b ci" and c: "CheckReusePattern m (b + 16) (UsableSize_debug ci) = None" "sz \<le> UsableSize_debug ci"
    and r: "can_register mem_ok (b + 16) sz r" "reg_map r (b + 16) = None"
  obtains r' where "DebugOnAllocSmall mem_ok tid (b + 16) sz ci \<lparr>dbg_mem = m, dbg_registry = r\<rparr> = Some (Inr \<lparr>dbg_mem = armed b sz ci m, dbg_registry = r'\<rparr>)"
    "reg_ok r'" "reg_map r' = (reg_map r)(b + 16 \<mapsto> rec_of tid (b + 16) sz (UsableSize_debug ci) ci (reg_sequence r))"
proof -
  note z = debug_block_sizes [OF b]
  have a: "DebugOnAllocSmall mem_ok tid (b + 16) sz ci \<lparr>dbg_mem = m, dbg_registry = r\<rparr> =
      RegistryInsertOrFail mem_ok tid (b + 16) sz (UsableSize_debug ci) False ci ''fast_malloc: allocation of an already-live pointer''
        \<lparr>dbg_mem = armed b sz ci m, dbg_registry = r\<rparr>"
    using c z(1-6) unfolding DebugOnAllocSmall_def Let_def armed_def by (simp add: USER_OFFSET_def)
  show ?thesis using insert_or_fail [OF r, of tid "UsableSize_debug ci" False ci _ "armed b sz ci m"] that unfolding a by auto
qed

lemma free_small_verdict:
  assumes b: "debug_block m s b ci" and r: "reg_ok r" "reg_map r (b + 16) = Some e" "ar_size e \<le> UsableSize_debug ci"
  obtains r' where "reg_ok r'" "reg_map r' = (reg_map r)(b + 16 := None)"
    "DebugOnFreeSmall (b + 16) b \<lparr>dbg_mem = m, dbg_registry = r\<rparr> = Some
       (if \<exists>i < 4. byte_at m (b + 12 + i) \<noteq> 0xC8
        then Inl (FatalDebug FrontCanaryBroken (b + 16) (ar_size e) ''fast_free: front canary destroyed (buffer underflow)'')
        else if \<exists>i. ar_size e \<le> i \<and> i < ci * 16 \<and> byte_at m (b + 16 + i) \<noteq> RED_ZONE
        then Inl (FatalDebug RearCanaryBroken (b + 16) (ar_size e) ''fast_free: rear red zone destroyed (buffer overflow)'')
        else Inr (e, \<lparr>dbg_mem = PoisonFreed (b + 16) (UsableSize_debug ci) m, dbg_registry = r'\<rparr>))"
proof -
  note z = debug_block_sizes [OF b]
  obtain r' where e: "Registry_Erase (b + 16) r = Some (True, Some e, r')" and r': "reg_ok r'" "reg_map r' = (reg_map r)(b + 16 := None)"
    using reg.era_law [OF r(1) z(8)] r(2) by auto
  have front: "\<not> FrontCanaryOk m (b + 12) \<longleftrightarrow> (\<exists>i < 4. byte_at m (b + 12 + i) \<noteq> 0xC8)" by (auto simp: canary_ok_iff)
  have zone: "\<not> RearRedZoneOk m (b + 16 + ar_size e) (ci * 16 - ar_size e) \<longleftrightarrow>
      (\<exists>i. ar_size e \<le> i \<and> i < ci * 16 \<and> byte_at m (b + 16 + i) \<noteq> RED_ZONE)" unfolding zone_ok_from by blast
  have s: "fb_slab m b \<noteq> 0" "slab_magic m (fb_slab m b) = SLAB_MAGIC" "ar_size e \<le> ci * 16"
    using b r(3) z(2) by (auto simp: debug_block_def)
  have "DebugOnFreeSmall (b + 16) b \<lparr>dbg_mem = m, dbg_registry = r\<rparr> = Some
       (if \<not> FrontCanaryOk m (b + 12)
        then Inl (FatalDebug FrontCanaryBroken (b + 16) (ar_size e) ''fast_free: front canary destroyed (buffer underflow)'')
        else if \<not> RearRedZoneOk m (b + 16 + ar_size e) (ci * 16 - ar_size e)
        then Inl (FatalDebug RearCanaryBroken (b + 16) (ar_size e) ''fast_free: rear red zone destroyed (buffer overflow)'')
        else Inr (e, \<lparr>dbg_mem = PoisonFreed (b + 16) (UsableSize_debug ci) m, dbg_registry = r'\<rparr>))"
    using s by (simp add: DebugOnFreeSmall_def e the_record_def z(1,4,5,9))
  then show ?thesis unfolding front zone by (rule that [OF r'])
qed


lemma erased_twice:
  assumes "reg_ok r" "key user" "reg_map r user = None"
  shows "\<exists>v. DebugOnFreeSmall user b \<lparr>dbg_mem = m, dbg_registry = r\<rparr> = Some (Inl v) \<and> vi_kind v = DoubleFree \<and> vi_ptr v = user"
    "\<exists>v. DebugOnFreeLarge page user b \<lparr>dbg_mem = m, dbg_registry = r\<rparr> = Some (Inl v) \<and> vi_kind v = DoubleFree \<and> vi_ptr v = user"
proof -
  obtain r' where e: "Registry_Erase user r = Some (False, None, r')" using reg.era_law [OF assms(1,2)] assms(3) by auto
  show "\<exists>v. DebugOnFreeSmall user b \<lparr>dbg_mem = m, dbg_registry = r\<rparr> = Some (Inl v) \<and> vi_kind v = DoubleFree \<and> vi_ptr v = user"
    "\<exists>v. DebugOnFreeLarge page user b \<lparr>dbg_mem = m, dbg_registry = r\<rparr> = Some (Inl v) \<and> vi_kind v = DoubleFree \<and> vi_ptr v = user"
    by (simp_all add: DebugOnFreeSmall_def DebugOnFreeLarge_def e FatalDebug_def)
qed

text \<open>
  C21: a debug build hands out a clean, unregistered block with its canary and red zone set and its
  record registered. Whatever the program then stores from the canary to the end of the block,
  freeing it reports an underflow exactly when a canary byte differs, otherwise an overflow exactly
  when a byte after the requested size differs, and otherwise accepts the block, with the size and
  class that were registered; a second free is then reported as a double free. Stores within the
  requested bytes are never reported.
\<close>

theorem debug_small_block:
  assumes b: "debug_block m s b ci" and c: "CheckReusePattern m (b + 16) (UsableSize_debug ci) = None" "sz \<le> UsableSize_debug ci"
    and r: "can_register mem_ok (b + 16) sz r" "reg_map r (b + 16) = None" and w: "within ws (b + 12) (b + 16 + ci * 16)"
  shows "\<exists>m1 r1. DebugOnAllocSmall mem_ok tid (b + 16) sz ci \<lparr>dbg_mem = m, dbg_registry = r\<rparr> = Some (Inr \<lparr>dbg_mem = m1, dbg_registry = r1\<rparr>)
    \<and> (let verdict = DebugOnFreeSmall (b + 16) b \<lparr>dbg_mem = poke ws m1, dbg_registry = r1\<rparr>;
           under = (\<exists>i < 4. byte_at (poke ws m1) (b + 12 + i) \<noteq> byte_at m1 (b + 12 + i));
           over = (\<exists>i. sz \<le> i \<and> i < ci * 16 \<and> byte_at (poke ws m1) (b + 16 + i) \<noteq> byte_at m1 (b + 16 + i))
       in (under \<longrightarrow> (\<exists>v. verdict = Some (Inl v) \<and> vi_kind v = FrontCanaryBroken \<and> vi_ptr v = b + 16))
        \<and> (\<not> under \<and> over \<longrightarrow> (\<exists>v. verdict = Some (Inl v) \<and> vi_kind v = RearCanaryBroken \<and> vi_ptr v = b + 16))
        \<and> (\<not> under \<and> \<not> over \<longrightarrow> (\<exists>e m3 r3. verdict = Some (Inr (e, \<lparr>dbg_mem = m3, dbg_registry = r3\<rparr>)) \<and> ar_size e = sz \<and> ar_class_or_large e = ci
             \<and> reg_map r3 = reg_map r \<and> (\<exists>v. DebugOnFreeSmall (b + 16) b \<lparr>dbg_mem = m3, dbg_registry = r3\<rparr> = Some (Inl v) \<and> vi_kind v = DoubleFree)))
        \<and> (within ws (b + 16) (b + 16 + sz) \<longrightarrow> \<not> under \<and> \<not> over))"
proof -
  note z = debug_block_sizes [OF b]
  let ?m1 = "armed b sz ci m" and ?m2 = "poke ws (armed b sz ci m)" and ?e = "rec_of tid (b + 16) sz (UsableSize_debug ci) ci (reg_sequence r)"
  obtain r1 where a: "DebugOnAllocSmall mem_ok tid (b + 16) sz ci \<lparr>dbg_mem = m, dbg_registry = r\<rparr> = Some (Inr \<lparr>dbg_mem = ?m1, dbg_registry = r1\<rparr>)"
    and r1: "reg_ok r1" "reg_map r1 = (reg_map r)(b + 16 \<mapsto> ?e)" by (rule alloc_small_ok [OF b c r])
  have sz: "sz \<le> ci * 16" using c(2) z(2) by simp
  note ar = armed_facts [OF sz, where b = b and m = m]
  have b2: "debug_block ?m2 s b ci"
    using b ar(1) [of s] by (subst poke_keeps [OF _ w, of "\<lambda>m. debug_block m s b ci"]) (simp_all add: debug_block_store)
  have e: "reg_map r1 (b + 16) = Some ?e" "ar_size ?e = sz" "ar_class_or_large ?e = ci" using r1(2) by (simp_all add: rec_of_def)
  obtain r3 where r3: "reg_ok r3" "reg_map r3 = (reg_map r1)(b + 16 := None)"
    and v: "DebugOnFreeSmall (b + 16) b \<lparr>dbg_mem = ?m2, dbg_registry = r1\<rparr> = Some
       (if \<exists>i < 4. byte_at ?m2 (b + 12 + i) \<noteq> 0xC8
        then Inl (FatalDebug FrontCanaryBroken (b + 16) (ar_size ?e) ''fast_free: front canary destroyed (buffer underflow)'')
        else if \<exists>i. ar_size ?e \<le> i \<and> i < ci * 16 \<and> byte_at ?m2 (b + 16 + i) \<noteq> RED_ZONE
        then Inl (FatalDebug RearCanaryBroken (b + 16) (ar_size ?e) ''fast_free: rear red zone destroyed (buffer overflow)'')
        else Inr (?e, \<lparr>dbg_mem = PoisonFreed (b + 16) (UsableSize_debug ci) ?m2, dbg_registry = r3\<rparr>))"
    by (rule free_small_verdict [OF b2 r1(1) e(1)]) (use c(2) e(2) in simp)
  have r3m: "reg_map r3 = reg_map r" using r3(2) r1(2) r(2) by (simp add: fun_upd_idem)
  have twice: "\<exists>v. DebugOnFreeSmall (b + 16) b \<lparr>dbg_mem = m3, dbg_registry = r3\<rparr> = Some (Inl v) \<and> vi_kind v = DoubleFree" for m3
    using erased_twice(1) [OF r3(1) z(8), of b m3] r(2) unfolding r3m by blast
  have under: "(\<exists>i < 4. byte_at ?m2 (b + 12 + i) \<noteq> byte_at ?m1 (b + 12 + i)) \<longleftrightarrow> (\<exists>i < 4. byte_at ?m2 (b + 12 + i) \<noteq> 0xC8)"
    using ar(2) by auto
  have over: "(\<exists>i. sz \<le> i \<and> i < ci * 16 \<and> byte_at ?m2 (b + 16 + i) \<noteq> byte_at ?m1 (b + 16 + i))
      \<longleftrightarrow> (\<exists>i. sz \<le> i \<and> i < ci * 16 \<and> byte_at ?m2 (b + 16 + i) \<noteq> RED_ZONE)" using ar(3) by auto
  have inside: "byte_at ?m2 x = byte_at ?m1 x" if "within ws (b + 16) (b + 16 + sz)" "x < b + 16 \<or> b + 16 + sz \<le> x" for x
    by (rule byte_poke [OF that])
  have quiet: "\<not> (\<exists>i < 4. byte_at ?m2 (b + 12 + i) \<noteq> 0xC8)" "\<not> (\<exists>i. sz \<le> i \<and> i < ci * 16 \<and> byte_at ?m2 (b + 16 + i) \<noteq> RED_ZONE)"
    if "within ws (b + 16) (b + 16 + sz)"
    unfolding under [symmetric] over [symmetric] using inside [OF that] by auto
  show ?thesis
  proof (intro exI conjI)
    show "DebugOnAllocSmall mem_ok tid (b + 16) sz ci \<lparr>dbg_mem = m, dbg_registry = r\<rparr> = Some (Inr \<lparr>dbg_mem = ?m1, dbg_registry = r1\<rparr>)" by (rule a)
    show "let verdict = DebugOnFreeSmall (b + 16) b \<lparr>dbg_mem = ?m2, dbg_registry = r1\<rparr>;
           under = (\<exists>i < 4. byte_at ?m2 (b + 12 + i) \<noteq> byte_at ?m1 (b + 12 + i));
           over = (\<exists>i. sz \<le> i \<and> i < ci * 16 \<and> byte_at ?m2 (b + 16 + i) \<noteq> byte_at ?m1 (b + 16 + i))
       in (under \<longrightarrow> (\<exists>v. verdict = Some (Inl v) \<and> vi_kind v = FrontCanaryBroken \<and> vi_ptr v = b + 16))
        \<and> (\<not> under \<and> over \<longrightarrow> (\<exists>v. verdict = Some (Inl v) \<and> vi_kind v = RearCanaryBroken \<and> vi_ptr v = b + 16))
        \<and> (\<not> under \<and> \<not> over \<longrightarrow> (\<exists>e m3 r3. verdict = Some (Inr (e, \<lparr>dbg_mem = m3, dbg_registry = r3\<rparr>)) \<and> ar_size e = sz \<and> ar_class_or_large e = ci
             \<and> reg_map r3 = reg_map r \<and> (\<exists>v. DebugOnFreeSmall (b + 16) b \<lparr>dbg_mem = m3, dbg_registry = r3\<rparr> = Some (Inl v) \<and> vi_kind v = DoubleFree)))
        \<and> (within ws (b + 16) (b + 16 + sz) \<longrightarrow> \<not> under \<and> \<not> over)"
      unfolding Let_def v e(2) under over
      by (intro conjI impI) (use r3m twice e(2,3) quiet in \<open>simp_all add: FatalDebug_def\<close>)
  qed
qed


text \<open>A block of class 3 of a slab at \<open>65536\<close>, filled with the pattern of untouched blocks, and an empty registry.\<close>

definition demo_dbg_mem :: mem where
  "demo_dbg_mem = memset 65656 FRESH 40 ((\<lambda>_. 0)(65632 := 65536, 65640 := 3, 65616 := SLAB_MAGIC))"

lemma demo_dbg_block: "debug_block demo_dbg_mem 65536 65632 3"
  unfolding demo_dbg_mem_def
  by (subst memset_keeps [of 65656 65696 "\<lambda>m. debug_block m 65536 65632 3"])
    (simp_all add: debug_block_store, simp add: debug_block_def slab_magic_def cells config_consts)

lemma demo_dbg_clean: "CheckReusePattern demo_dbg_mem (65632 + 16) (UsableSize_debug 3) = None"
proof -
  have "UsableSize_debug 3 = 40" using debug_block_sizes(2) [OF demo_dbg_block] by simp
  then have "window_scan demo_dbg_mem (65632 + 16) {POISON_FREE, FRESH} 8 (UsableSize_debug 3) = None"
    unfolding window_scan_facts(2) by (auto simp: sampled_def demo_dbg_mem_def byte_memset FRESH_def)
  then show ?thesis by (simp add: reuse_scan)
qed

lemma demo_register: "n < 2 ^ 63 \<Longrightarrow> 16 \<le> u \<Longrightarrow> can_register mem_ok u n new_registry"
  using reg_ctor_ok(1) by (simp add: can_register_def key_def reg_fits_def room_def AllocRegistry_ctor_def kInitialShardCapacity_def rec_of_def)

theorem debug_small_block_witness:
  "\<exists>m1 r1 e st. DebugOnAllocSmall True 7 (65632 + 16) 20 3 \<lparr>dbg_mem = demo_dbg_mem, dbg_registry = new_registry\<rparr> = Some (Inr \<lparr>dbg_mem = m1, dbg_registry = r1\<rparr>)
     \<and> DebugOnFreeSmall (65632 + 16) 65632 \<lparr>dbg_mem = poke [(65632 + 16 + 19, 5)] m1, dbg_registry = r1\<rparr> = Some (Inr (e, st)) \<and> ar_size e = 20"
proof -
  have u: "20 \<le> UsableSize_debug 3" using debug_block_sizes(2) [OF demo_dbg_block] by simp
  have w: "within [(65632 + 16 + 19, 5)] (65632 + 12) (65632 + 16 + 3 * 16)" "within [(65632 + 16 + 19, 5)] (65632 + 16) (65632 + 16 + 20)"
    by (simp_all add: within_def)
  show ?thesis
    using debug_small_block [OF demo_dbg_block demo_dbg_clean u demo_register reg_ctor_ok(2) w(1), of True 7] w(2) unfolding Let_def by fastforce
qed


section \<open>Reuse of freed blocks\<close>

lemma byte_cell_other: "c mod 8 = 0 \<Longrightarrow> a < c \<or> c + 8 \<le> a \<Longrightarrow> byte_at (m(c := v)) a = byte_at m a"
  using cell_of_byte(1) [of a] mod_less_divisor [of 8 a] by (auto simp: byte_at_def)

lemma poison_sampled: "sampled k n i \<Longrightarrow> byte_at (PoisonFreed p n m) (p + i) = POISON_FREE"
  by (auto simp: byte_poison sampled_def)

text \<open>
  C22: a block that was poisoned when it was freed, and in whose first eight bytes the free list has put
  its link, is checked when it is allocated again. After any stores behind the link (writes through a
  dangling pointer) the allocation reports one of the sampled bytes that is neither poison nor fresh
  fill if there is one, and succeeds otherwise; it always succeeds when nothing was stored.
\<close>

theorem debug_reuse_check:
  assumes b: "debug_block m s b ci" and w: "within ws (b + 24) (b + 16 + UsableSize_debug ci)" and sz: "sz \<le> UsableSize_debug ci"
    and r: "can_register mem_ok (b + 16) sz r" "reg_map r (b + 16) = None"
  shows "let m2 = poke ws (set_fb_next b nx (PoisonFreed (b + 16) (UsableSize_debug ci) m));
             bad = (\<lambda>i. sampled 8 (UsableSize_debug ci) i \<and> byte_at m2 (b + 16 + i) \<notin> {POISON_FREE, FRESH});
             res = DebugOnAllocSmall mem_ok tid (b + 16) sz ci \<lparr>dbg_mem = m2, dbg_registry = r\<rparr>
         in (if \<exists>i. bad i then \<exists>v i. res = Some (Inl v) \<and> vi_kind v = PoisonDisturbed \<and> vi_ptr v = b + 16 + i \<and> bad i
             else \<exists>st. res = Some (Inr st))
          \<and> (ws = [] \<longrightarrow> \<not> (\<exists>i. bad i))"
proof -
  note z = debug_block_sizes [OF b]
  let ?U = "UsableSize_debug ci" and ?m1 = "set_fb_next b nx (PoisonFreed (b + 16) (UsableSize_debug ci) m)"
  let ?m2 = "poke ws ?m1"
  let ?bad = "\<lambda>i. sampled 8 ?U i \<and> byte_at ?m2 (b + 16 + i) \<notin> {POISON_FREE, FRESH}"
  let ?res = "DebugOnAllocSmall mem_ok tid (b + 16) sz ci \<lparr>dbg_mem = ?m2, dbg_registry = r\<rparr>"
  have b0: "debug_block (PoisonFreed (b + 16) ?U m) s b ci"
    using b by (subst poison_keeps [of "b + 16" "b + 16 + ?U" "\<lambda>m. debug_block m s b ci"]) (simp_all add: debug_block_store)
  have b1: "debug_block ?m1 s b ci"
    using b0 by (auto simp: debug_block_def cells slab_magic_def)
  have b2: "debug_block ?m2 s b ci"
    using b1 by (subst poke_keeps [OF _ w, of "\<lambda>m. debug_block m s b ci"]) (simp_all add: debug_block_store)
  have b8: "(b + 16) mod 8 = 0" using b mod_mod_cancel [of 8 16 b] by (simp add: debug_block_def mod_add_eq [symmetric])
  have "\<exists>v i. ?res = Some (Inl v) \<and> vi_kind v = PoisonDisturbed \<and> vi_ptr v = b + 16 + i \<and> ?bad i" if "\<exists>i. ?bad i"
  proof -
    have "window_scan ?m2 (b + 16) {POISON_FREE, FRESH} 8 ?U \<noteq> None" using that unfolding window_scan_facts(2) by blast
    then obtain i where i: "window_scan ?m2 (b + 16) {POISON_FREE, FRESH} 8 ?U = Some i" by blast
    have "?res = Some (Inl (FatalDebug PoisonDisturbed (b + 16 + i) ?U ''use-after-free write detected on allocation''))"
      unfolding DebugOnAllocSmall_def Let_def by (simp add: reuse_scan i)
    then show ?thesis using window_scan_facts(1) [OF i] by (auto simp: FatalDebug_def)
  qed
  moreover have "\<exists>st. ?res = Some (Inr st)" if "\<not> (\<exists>i. ?bad i)"
  proof -
    have "CheckReusePattern ?m2 (b + 16) ?U = None" unfolding reuse_scan using that by (simp add: window_scan_facts(2))
    then show ?thesis by (rule alloc_small_ok [OF b2 _ sz r, of tid]) blast
  qed
  moreover have "\<not> ?bad i" if "ws = []" for i
  proof -
    have "byte_at ?m1 (b + 16 + i) = POISON_FREE" if "sampled 8 ?U i"
    proof -
      have "8 \<le> i" using that z(2,3) by (auto simp: sampled_def)
      then have "byte_at ?m1 (b + 16 + i) = byte_at (PoisonFreed (b + 16) ?U m) (b + 16 + i)"
        unfolding set_fb_next_def using b8 by (intro byte_cell_other) simp_all
      then show ?thesis using poison_sampled [OF that] by simp
    qed
    then show ?thesis using that by auto
  qed
  ultimately show ?thesis unfolding Let_def by simp
qed

theorem debug_reuse_check_witness:
  "\<exists>v. DebugOnAllocSmall True 7 (65632 + 16) 20 3 \<lparr>dbg_mem = poke [(65632 + 16 + 30, 5)] (set_fb_next 65632 0 (PoisonFreed (65632 + 16) (UsableSize_debug 3) demo_dbg_mem)),
       dbg_registry = new_registry\<rparr> = Some (Inl v) \<and> vi_kind v = PoisonDisturbed"
proof -
  have u: "UsableSize_debug 3 = 40" using debug_block_sizes(2) [OF demo_dbg_block] by simp
  have w: "within [(65632 + 16 + 30, 5)] (65632 + 24) (65632 + 16 + UsableSize_debug 3)" unfolding u by simp (simp add: within_def)
  have bad: "sampled 8 (UsableSize_debug 3) 30 \<and> byte_at (poke [(65632 + 16 + 30, 5)] m) (65632 + 16 + 30) \<notin> {POISON_FREE, FRESH}" for m
    unfolding u by (simp add: sampled_def byte_set_byte POISON_FREE_def FRESH_def)
  have "20 \<le> UsableSize_debug 3" by (simp add: u)
  have reg: "can_register True (65632 + 16) 20 new_registry" by (rule demo_register) simp_all
  note T = debug_reuse_check [OF demo_dbg_block w \<open>20 \<le> UsableSize_debug 3\<close> reg reg_ctor_ok(2), where nx = 0 and tid = 7, unfolded Let_def, THEN conjunct1]
  have "\<exists>i. sampled 8 (UsableSize_debug 3) i \<and> byte_at (poke [(65632 + 16 + 30, 5)] m) (65632 + 16 + i) \<notin> {POISON_FREE, FRESH}" for m
    by (rule exI [of _ 30], rule bad)
  from T [unfolded if_P [OF this]] show ?thesis by blast
qed


section \<open>Large blocks\<close>

text \<open>
  C23: a debug build hands out a large span whose sampled bytes are zero, poison or fresh fill and
  registers it. Whatever the memory then holds, freeing it reports a corrupt header exactly when the
  magic or the size in the header differs, otherwise an overflow exactly when a byte between the
  requested size and the end of the span differs from the red zone, and otherwise accepts the span; the
  poisoned span then passes the check on its next allocation, and a second free is reported.
\<close>

theorem debug_large_block:
  assumes n: "alloc_size mod page = 0" "16 < alloc_size" "alloc_size < 2 ^ 64" "sz + 16 \<le> alloc_size"
    and c: "\<forall>i. sampled 0 (alloc_size - 16) i \<longrightarrow> byte_at m (h + 16 + i) \<in> {POISON_FREE, FRESH, 0}"
    and r: "can_register mem_ok (h + 16) sz r" "reg_map r (h + 16) = None"
  shows "\<exists>m1 r1. DebugOnAllocLarge mem_ok tid (h + 16) sz alloc_size \<lparr>dbg_mem = m, dbg_registry = r\<rparr> = Some (Inr \<lparr>dbg_mem = m1, dbg_registry = r1\<rparr>)
    \<and> (\<forall>i. sz \<le> i \<and> i < alloc_size - 16 \<longrightarrow> byte_at m1 (h + 16 + i) = RED_ZONE)
    \<and> (\<forall>m2. let verdict = DebugOnFreeLarge page (h + 16) h \<lparr>dbg_mem = m2, dbg_registry = r1\<rparr>;
           broken = (m2 h \<noteq> LARGE_MAGIC \<or> m2 (h + 8) \<noteq> alloc_size);
           over = (\<exists>i. sz \<le> i \<and> i < alloc_size - 16 \<and> byte_at m2 (h + 16 + i) \<noteq> RED_ZONE)
         in (broken \<longrightarrow> (\<exists>v. verdict = Some (Inl v) \<and> vi_kind v = BadLargeMagic))
          \<and> (\<not> broken \<and> over \<longrightarrow> (\<exists>v. verdict = Some (Inl v) \<and> vi_kind v = RearCanaryBroken))
          \<and> (\<not> broken \<and> \<not> over \<longrightarrow> (\<exists>e m3 r3. verdict = Some (Inr (e, \<lparr>dbg_mem = m3, dbg_registry = r3\<rparr>)) \<and> ar_size e = sz \<and> ar_usable e = alloc_size - 16
               \<and> reg_map r3 = reg_map r \<and> (\<forall>i. sampled 0 (alloc_size - 16) i \<longrightarrow> byte_at m3 (h + 16 + i) = POISON_FREE)
               \<and> (\<exists>v. DebugOnFreeLarge page (h + 16) h \<lparr>dbg_mem = m3, dbg_registry = r3\<rparr> = Some (Inl v) \<and> vi_kind v = DoubleFree))))"
proof -
  let ?u = "alloc_size - 16"
  let ?m1 = "FillRearRedZone (h + 16 + sz) (?u - sz) m" and ?e = "rec_of tid (h + 16) sz ?u 0xFFFFFFFF (reg_sequence r)"
  have u: "sub64 alloc_size sizeof_LargeAllocHeader = ?u" "sub64 ?u sz = ?u - sz" "add64 ?u sizeof_LargeAllocHeader = alloc_size"
    "(?u = 0) = False" "\<not> alloc_size < sizeof_LargeAllocHeader + 1" using n by (simp_all add: arith64 config_consts)
  define over where "over m2 = (\<exists>i. sz \<le> i \<and> i < ?u \<and> byte_at m2 (h + 16 + i) \<noteq> RED_ZONE)" for m2
  have scan: "window_scan m (h + 16) {POISON_FREE, FRESH, 0} 0 ?u = None" unfolding window_scan_facts(2) by (rule c)
  obtain r1 where a: "DebugOnAllocLarge mem_ok tid (h + 16) sz alloc_size \<lparr>dbg_mem = m, dbg_registry = r\<rparr> = Some (Inr \<lparr>dbg_mem = ?m1, dbg_registry = r1\<rparr>)"
    and r1: "reg_ok r1" "reg_map r1 = (reg_map r)(h + 16 \<mapsto> ?e)"
    using insert_or_fail [OF r, of tid ?u True 0 _ ?m1] scan unfolding large_reuse_scan u by auto
  have k: "key (h + 16)" by (simp add: key_def)
  have "reg_map r1 (h + 16) = Some ?e" using r1(2) by simp
  then obtain r3 where r3: "Registry_Erase (h + 16) r1 = Some (True, Some ?e, r3)" "reg_ok r3" "reg_map r3 = (reg_map r1)(h + 16 := None)"
    using reg.era_law [OF r1(1) k] by auto
  have r3m: "reg_map r3 = reg_map r" using r3(3) r1(2) r(2) by (simp add: fun_upd_idem)
  have e: "ar_size ?e = sz" "ar_usable ?e = ?u" by (simp_all add: rec_of_def)
  have zone: "RearRedZoneOk m2 (h + 16 + sz) (?u - sz) \<longleftrightarrow> \<not> over m2" for m2
    unfolding over_def by (rule zone_ok_from)
  have v: "DebugOnFreeLarge page (h + 16) h \<lparr>dbg_mem = m2, dbg_registry = r1\<rparr> =
      Some (if m2 h \<noteq> LARGE_MAGIC then Inl (FatalDebug BadLargeMagic (h + 16) 0 ''fast_free: large header magic destroyed (buffer underflow)'')
        else if m2 (h + 8) \<noteq> alloc_size then Inl (FatalDebug BadLargeMagic (h + 16) sz ''fast_free: large header size field corrupted (buffer underflow)'')
        else if over m2
        then Inl (FatalDebug RearCanaryBroken (h + 16) sz ''fast_free: rear red zone destroyed (buffer overflow)'')
        else Inr (?e, \<lparr>dbg_mem = PoisonFreed (h + 16) ?u m2, dbg_registry = r3\<rparr>))" for m2
    using n(1) by (simp add: DebugOnFreeLarge_def r3(1) the_record_def e u(1-4) u(5) [simplified] zone Let_def del: diff_is_0_eq diff_diff_left)
  have twice: "\<exists>v. DebugOnFreeLarge page (h + 16) h \<lparr>dbg_mem = m3, dbg_registry = r3\<rparr> = Some (Inl v) \<and> vi_kind v = DoubleFree" for m3
    using erased_twice(2) [OF r3(2) k, of page h m3] r(2) unfolding r3m by blast
  have fill: "byte_at ?m1 (h + 16 + i) = RED_ZONE" if "sz \<le> i \<and> i < ?u" for i using that by (auto simp: byte_zone)
  show ?thesis
    unfolding Let_def over_def [symmetric]
  proof (rule exI [of _ ?m1], rule exI [of _ r1], intro conjI allI impI)
    fix m2
    assume "\<not> (m2 h \<noteq> LARGE_MAGIC \<or> m2 (h + 8) \<noteq> alloc_size) \<and> \<not> over m2"
    then have "DebugOnFreeLarge page (h + 16) h \<lparr>dbg_mem = m2, dbg_registry = r1\<rparr> = Some (Inr (?e, \<lparr>dbg_mem = PoisonFreed (h + 16) ?u m2, dbg_registry = r3\<rparr>))"
      unfolding v by simp
    then show "\<exists>e m3 r3. DebugOnFreeLarge page (h + 16) h \<lparr>dbg_mem = m2, dbg_registry = r1\<rparr> = Some (Inr (e, \<lparr>dbg_mem = m3, dbg_registry = r3\<rparr>)) \<and> ar_size e = sz \<and> ar_usable e = ?u
        \<and> reg_map r3 = reg_map r \<and> (\<forall>i. sampled 0 ?u i \<longrightarrow> byte_at m3 (h + 16 + i) = POISON_FREE)
        \<and> (\<exists>v. DebugOnFreeLarge page (h + 16) h \<lparr>dbg_mem = m3, dbg_registry = r3\<rparr> = Some (Inl v) \<and> vi_kind v = DoubleFree)"
      using e r3m twice poison_sampled by blast
  qed (use a v fill in \<open>auto simp: FatalDebug_def\<close>)
qed

theorem debug_large_block_witness:
  "\<exists>m1 r1 v. DebugOnAllocLarge True 7 (65536 + 16) 9000 12288 \<lparr>dbg_mem = (\<lambda>_. 0), dbg_registry = new_registry\<rparr> = Some (Inr \<lparr>dbg_mem = m1, dbg_registry = r1\<rparr>)
     \<and> DebugOnFreeLarge 4096 (65536 + 16) 65536 \<lparr>dbg_mem = m1(65536 := 0), dbg_registry = r1\<rparr> = Some (Inl v) \<and> vi_kind v = BadLargeMagic"
proof -
  have reg: "can_register True (65536 + 16) 9000 new_registry" by (rule demo_register) simp_all
  have c: "\<forall>i. sampled 0 (12288 - 16) i \<longrightarrow> byte_at (\<lambda>_. 0) (65536 + 16 + i) \<in> {POISON_FREE, FRESH, 0}" by (simp add: byte_at_def)
  obtain m1 r1 where a: "DebugOnAllocLarge True 7 (65536 + 16) 9000 12288 \<lparr>dbg_mem = (\<lambda>_. 0), dbg_registry = new_registry\<rparr> = Some (Inr \<lparr>dbg_mem = m1, dbg_registry = r1\<rparr>)"
    and v: "\<And>m2. m2 65536 \<noteq> LARGE_MAGIC \<or> m2 (65536 + 8) \<noteq> 12288 \<Longrightarrow>
      \<exists>v. DebugOnFreeLarge 4096 (65536 + 16) 65536 \<lparr>dbg_mem = m2, dbg_registry = r1\<rparr> = Some (Inl v) \<and> vi_kind v = BadLargeMagic"
    using debug_large_block [of 12288 4096 9000 "\<lambda>_. 0" 65536 True new_registry 7, OF _ _ _ _ c reg reg_ctor_ok(2)] unfolding Let_def by auto
  have "(m1(65536 := 0)) 65536 \<noteq> LARGE_MAGIC" by (simp add: LARGE_MAGIC_def)
  then show ?thesis using a v [of "m1(65536 := 0)"] by blast
qed

section \<open>Records that follow a block\<close>

lemma move_record_map:
  fixes f :: "alloc_record \<Rightarrow> alloc_record"
  assumes r: "reg_ok r" "reg_map r p = Some e" and q: "key (ar_ptr (f e))" "ar_ptr (f e) = p \<or> reg_map r (ar_ptr (f e)) = None"
    and fits: "\<And>r'. reg_ok r' \<Longrightarrow> reg_map r' = (reg_map r)(p := None) \<Longrightarrow> Registry_Erase p r = Some (True, Some e, r') \<Longrightarrow> reg_fits mem_ok (f e) r'"
  obtains r' n where "move_record mem_ok p f r = Some r'" "reg_ok r'" "reg_map r' = (reg_map r)(p := None, ar_ptr (f e) \<mapsto> (f e)\<lparr>ar_sequence := n\<rparr>)"
proof -
  have k: "key p" using r(2) by (auto simp: reg_map_def split: if_splits)
  obtain r1 where r1: "Registry_Erase p r = Some (True, Some e, r1)" "reg_ok r1" "reg_map r1 = (reg_map r)(p := None)"
    using reg.era_law [OF r(1) k] r(2) by auto
  have "reg_map r1 (ar_ptr (f e)) = None" using q(2) r1(3) by auto
  with reg.ins_law [OF r1(2) q(1) fits [OF r1(2,3,1)]]
  obtain r2 where "Registry_Insert mem_ok (f e) r1 = Some (True, None, r2)" "reg_ok r2" "reg_map r2 = (reg_map r1)(ar_ptr (f e) \<mapsto> (f e)\<lparr>ar_sequence := reg_sequence r1\<rparr>)"
    by auto
  then show ?thesis using that [of r2 "reg_sequence r1"] r1 by (simp add: move_record_def the_record_def)
qed


text \<open>Room for two more records and \<open>n\<close> more bytes in every shard, when the tables can grow.\<close>

definition roomy :: "nat \<Rightarrow> nat \<Rightarrow> alloc_registry \<Rightarrow> bool" where
  "roomy c n r \<longleftrightarrow> (\<forall>i. sh_capacity (reg_shards r i) \<le> c \<and> sh_live_bytes (reg_shards r i) + n < 2 ^ 64)"

lemma roomy_fits: "roomy c n r \<Longrightarrow> c \<le> 2 ^ 58 \<Longrightarrow> ar_size e \<le> n \<Longrightarrow> reg_fits True e r"
  unfolding roomy_def reg_fits_def room_def Let_def by (meson add_left_mono le_trans less_le_trans order_le_less_trans)

lemma roomy_erase:
  assumes "roomy c n r" "Registry_Erase p r = Some (x, y, r')"
  shows "roomy c n r'"
proof -
  obtain sh where sh: "shard_erase p (reg_shards r (HashShard p)) = Some (y, sh)" "r' = set_shard (HashShard p) sh r"
    using assms(2) by (auto simp: Registry_Erase_def Let_def split: option.splits)
  have "sh_live_bytes (reg_shards r (HashShard p)) < 2 ^ 64" using assms(1) unfolding roomy_def by (meson add_lessD1)
  then have "sh_capacity sh = sh_capacity (reg_shards r (HashShard p)) \<and> sh_live_bytes sh \<le> sh_live_bytes (reg_shards r (HashShard p))"
    using sh(1) by (auto simp: shard_erase_def Let_def arith64 split: option.splits)
  then show ?thesis using assms(1) unfolding roomy_def sh(2) set_shard_def by (auto intro: order_le_less_trans [OF add_right_mono])
qed

lemma roomy_insert:
  assumes "roomy c n r" "Registry_Insert True e r = Some (x, y, r')" "ar_size e + k \<le> n" "c \<le> 2 ^ 58"
  shows "roomy (2 * c) k r'"
proof -
  let ?i = "HashShard (ar_ptr e)"
  let ?sh = "reg_shards r ?i"
  obtain z sh where sh: "shard_insert True (reg_sequence r) e ?sh = Some (z, sh)" "reg_shards r' = (reg_shards r)(?i := sh)"
    using assms(2) by (auto simp: Registry_Insert_def Let_def set_shard_def split: option.splits)
  have c: "sh_capacity ?sh \<le> c" "sh_live_bytes ?sh + n < 2 ^ 64" using assms(1) by (auto simp: roomy_def)
  have grow: "sh_capacity sh1 \<le> 2 * c \<and> sh_live_bytes sh1 = sh_live_bytes ?sh"
    if "(if b then GrowShard True ?sh else Some ?sh) = Some sh1" for b sh1
    using that c(1) assms(4) by (auto simp: GrowShard_def Let_def arith64 split: if_splits)
  obtain sh1 where sh1: "(if mul64 (add64 (sh_count ?sh) (sh_tombstones ?sh)) 10 \<ge> mul64 (sh_capacity ?sh) 7 then GrowShard True ?sh else Some ?sh) = Some sh1"
    using sh(1) by (auto simp: shard_insert_def split: option.splits)
  note g = grow [OF sh1]
  have "add64 (sh_live_bytes sh1) (ar_size e) = sh_live_bytes ?sh + ar_size e" using g c(2) assms(3) by (simp add: arith64)
  then have u: "sh_capacity sh \<le> 2 * c \<and> sh_live_bytes sh \<le> sh_live_bytes ?sh + ar_size e"
    using sh(1) g unfolding shard_insert_def sh1 by (auto simp: Let_def split: option.splits prod.splits if_splits)
  have f: "sh_live_bytes (reg_shards r i) + n < 2 ^ 64" "sh_capacity (reg_shards r i) \<le> c" for i using assms(1) by (simp_all add: roomy_def)
  have "sh_capacity (reg_shards r' i) \<le> 2 * c \<and> sh_live_bytes (reg_shards r' i) + k < 2 ^ 64" for i
    unfolding sh(2) fun_upd_apply using u assms(3) f [of i] f [of ?i] by (simp split: if_split)
  then show ?thesis by (simp add: roomy_def)
qed

lemma move_roomy:
  assumes r: "reg_ok r" "reg_map r p = Some e" and q: "key (ar_ptr (f e))" "ar_ptr (f e) = p \<or> reg_map r (ar_ptr (f e)) = None"
    and h: "roomy c n r" "c \<le> 2 ^ 58" "ar_size (f e) + k \<le> n"
  obtains r' j where "move_record True p f r = Some r'" "reg_ok r'" "reg_map r' = (reg_map r)(p := None, ar_ptr (f e) \<mapsto> (f e)\<lparr>ar_sequence := j\<rparr>)" "roomy (2 * c) k r'"
proof -
  obtain r' j where m: "move_record True p f r = Some r'" "reg_ok r'" "reg_map r' = (reg_map r)(p := None, ar_ptr (f e) \<mapsto> (f e)\<lparr>ar_sequence := j\<rparr>)"
    by (rule move_record_map [where f = f and mem_ok = True, OF r q]) (use h roomy_erase roomy_fits in fastforce)
  have kp: "key p" using r(2) by (auto simp: reg_map_def split: if_splits)
  obtain r1 where r1: "Registry_Erase p r = Some (True, Some e, r1)" using reg.era_law [OF r(1) kp] r(2) by auto
  obtain x y where "Registry_Insert True (f e) r1 = Some (x, y, r')"
    using m(1) r1 by (auto simp: move_record_def the_record_def split: option.splits)
  from roomy_insert [OF roomy_erase [OF h(1) r1] this h(3,2)] show ?thesis by (rule that [OF m])
qed


lemma keep_small_run:
  assumes b: "debug_block m s b ci" and new: "new \<le> UsableSize_debug ci" and r: "reg_ok r" "reg_map r (b + 16) = Some e" "roomy c new r" "c \<le> 2 ^ 58"
  obtains r1 j where "debug_keep_small True (b + 16) new \<lparr>dbg_mem = m, dbg_registry = r\<rparr>
      = Some \<lparr>dbg_mem = FillRearRedZone (b + 16 + new) (ci * 16 - new) m, dbg_registry = r1\<rparr>"
    "reg_ok r1" "reg_map r1 = (reg_map r)(b + 16 \<mapsto> e\<lparr>ar_size := new, ar_sequence := j\<rparr>)"
    "debug_block (FillRearRedZone (b + 16 + new) (ci * 16 - new) m) s b ci"
proof -
  note z = debug_block_sizes [OF b]
  let ?f = "ar_size_update (\<lambda>_. new)"
  have p: "ar_ptr e = b + 16" using reg_map_ptr [OF r(1,2)] .
  obtain r1 j where r1: "move_record True (b + 16) ?f r = Some r1" "reg_ok r1"
    "reg_map r1 = (reg_map r)(b + 16 := None, ar_ptr (?f e) \<mapsto> (?f e)\<lparr>ar_sequence := j\<rparr>)"
    by (rule move_roomy [where f = ?f and k = 0, OF r(1,2) _ _ r(3,4)]) (use p z(8) in simp_all)
  have nb: "new \<le> ci * 16" using new z(2) by simp
  have blk: "b + 16 - USER_OFFSET = b" by (simp add: USER_OFFSET_def)
  have "debug_keep_small True (b + 16) new \<lparr>dbg_mem = m, dbg_registry = r\<rparr>
      = Some \<lparr>dbg_mem = FillRearRedZone (b + 16 + new) (ci * 16 - new) m, dbg_registry = r1\<rparr>"
    using nb by (simp add: debug_keep_small_def r1(1) z(1,4,5,9) blk Let_def)
  moreover have "debug_block (FillRearRedZone (b + 16 + new) (ci * 16 - new) m) s b ci"
    using b nb debug_block_store [of b _ _ _ s ci] by (subst zone_keeps [of "b + 16" "b + 16 + ci * 16" "\<lambda>m. debug_block m s b ci"]) simp_all
  ultimately show thesis using that r1(2,3) p by simp
qed

text \<open>
  C24: when \<^verbatim>\<open>fast_realloc\<close> keeps a small block in place, the debug build moves the end of the user's bytes:
  the contents up to the new size are kept and the rest of the block is armed. Whatever the program then stores from the canary to the end of the block,
  the next free reports an underflow exactly when a canary byte differs, otherwise an overflow exactly
  when a byte from the \<^emph>\<open>new\<close> size to the end of the block differs, and otherwise accepts the block: the
  record it erases carries the new size and the freed bytes are poisoned. Stores within the new size are
  never reported.
\<close>

theorem debug_realloc_tracks:
  assumes b: "debug_block m s b ci" and can: "\<forall>i < 4. byte_at m (b + 12 + i) = 0xC8" and new: "new \<le> UsableSize_debug ci"
    and r: "reg_ok r" "reg_map r (b + 16) = Some e" "roomy c new r" "c \<le> 2 ^ 58" and w: "within ws (b + 12) (b + 16 + ci * 16)"
  shows "\<exists>m1 r1. debug_keep_small True (b + 16) new \<lparr>dbg_mem = m, dbg_registry = r\<rparr> = Some \<lparr>dbg_mem = m1, dbg_registry = r1\<rparr>
    \<and> (\<forall>i < ci * 16. byte_at m1 (b + 16 + i) = (if i < new then byte_at m (b + 16 + i) else RED_ZONE))
    \<and> (let verdict = DebugOnFreeSmall (b + 16) b \<lparr>dbg_mem = poke ws m1, dbg_registry = r1\<rparr>;
           under = (\<exists>i < 4. byte_at (poke ws m1) (b + 12 + i) \<noteq> byte_at m1 (b + 12 + i));
           over = (\<exists>i. new \<le> i \<and> i < ci * 16 \<and> byte_at (poke ws m1) (b + 16 + i) \<noteq> byte_at m1 (b + 16 + i))
       in (under \<longrightarrow> (\<exists>v. verdict = Some (Inl v) \<and> vi_kind v = FrontCanaryBroken \<and> vi_ptr v = b + 16))
        \<and> (\<not> under \<and> over \<longrightarrow> (\<exists>v. verdict = Some (Inl v) \<and> vi_kind v = RearCanaryBroken \<and> vi_ptr v = b + 16 \<and> vi_size v = new))
        \<and> (\<not> under \<and> \<not> over \<longrightarrow> (\<exists>e' m3 r3. verdict = Some (Inr (e', \<lparr>dbg_mem = m3, dbg_registry = r3\<rparr>)) \<and> ar_size e' = new
             \<and> reg_map r3 = (reg_map r)(b + 16 := None)
             \<and> (\<forall>i < UsableSize_debug ci. UsableSize_debug ci \<le> 512 \<or> i < 256 \<or> UsableSize_debug ci - 256 \<le> i \<longrightarrow> byte_at m3 (b + 16 + i) = POISON_FREE)))
        \<and> (within ws (b + 16) (b + 16 + new) \<longrightarrow> \<not> under \<and> \<not> over))"
proof -
  note z = debug_block_sizes [OF b]
  let ?m1 = "FillRearRedZone (b + 16 + new) (ci * 16 - new) m" and ?U = "UsableSize_debug ci"
  let ?m2 = "poke ws ?m1"
  obtain r1 j where k: "debug_keep_small True (b + 16) new \<lparr>dbg_mem = m, dbg_registry = r\<rparr> = Some \<lparr>dbg_mem = ?m1, dbg_registry = r1\<rparr>"
    and r1: "reg_ok r1" "reg_map r1 = (reg_map r)(b + 16 \<mapsto> e\<lparr>ar_size := new, ar_sequence := j\<rparr>)" and b1: "debug_block ?m1 s b ci"
    by (rule keep_small_run [OF b new r])
  let ?e = "e\<lparr>ar_size := new, ar_sequence := j\<rparr>"
  have b2: "debug_block ?m2 s b ci"
    using b1 by (subst poke_keeps [OF _ w, of "\<lambda>m. debug_block m s b ci"]) (simp_all add: debug_block_store)
  have e: "reg_map r1 (b + 16) = Some ?e" "ar_size ?e = new" using r1(2) by simp_all
  obtain r3 where r3: "reg_ok r3" "reg_map r3 = (reg_map r1)(b + 16 := None)"
    and v: "DebugOnFreeSmall (b + 16) b \<lparr>dbg_mem = ?m2, dbg_registry = r1\<rparr> = Some
       (if \<exists>i < 4. byte_at ?m2 (b + 12 + i) \<noteq> 0xC8
        then Inl (FatalDebug FrontCanaryBroken (b + 16) (ar_size ?e) ''fast_free: front canary destroyed (buffer underflow)'')
        else if \<exists>i. ar_size ?e \<le> i \<and> i < ci * 16 \<and> byte_at ?m2 (b + 16 + i) \<noteq> RED_ZONE
        then Inl (FatalDebug RearCanaryBroken (b + 16) (ar_size ?e) ''fast_free: rear red zone destroyed (buffer overflow)'')
        else Inr (?e, \<lparr>dbg_mem = PoisonFreed (b + 16) ?U ?m2, dbg_registry = r3\<rparr>))"
    by (rule free_small_verdict [OF b2 r1(1) e(1)]) (use new e(2) in simp)
  have r3m: "reg_map r3 = (reg_map r)(b + 16 := None)" using r3(2) r1(2) by simp
  have pois: "byte_at (PoisonFreed (b + 16) ?U ?m2) (b + 16 + i) = POISON_FREE" if "i < ?U" "?U \<le> 512 \<or> i < 256 \<or> ?U - 256 \<le> i" for i
    using that by (simp add: byte_poison)
  have can1: "byte_at ?m1 (b + 12 + i) = 0xC8" if "i < 4" for i using can that by (simp add: byte_zone)
  have rear1: "byte_at ?m1 (b + 16 + i) = RED_ZONE" if "new \<le> i" "i < ci * 16" for i using that by (simp add: byte_zone)
  have under: "(\<exists>i < 4. byte_at ?m2 (b + 12 + i) \<noteq> byte_at ?m1 (b + 12 + i)) \<longleftrightarrow> (\<exists>i < 4. byte_at ?m2 (b + 12 + i) \<noteq> 0xC8)"
    using can1 by auto
  have over: "(\<exists>i. new \<le> i \<and> i < ci * 16 \<and> byte_at ?m2 (b + 16 + i) \<noteq> byte_at ?m1 (b + 16 + i))
      \<longleftrightarrow> (\<exists>i. new \<le> i \<and> i < ci * 16 \<and> byte_at ?m2 (b + 16 + i) \<noteq> RED_ZONE)" using rear1 by auto
  have inside: "byte_at ?m2 x = byte_at ?m1 x" if "within ws (b + 16) (b + 16 + new)" "x < b + 16 \<or> b + 16 + new \<le> x" for x
    by (rule byte_poke [OF that])
  have quiet: "\<not> (\<exists>i < 4. byte_at ?m2 (b + 12 + i) \<noteq> 0xC8)" "\<not> (\<exists>i. new \<le> i \<and> i < ci * 16 \<and> byte_at ?m2 (b + 16 + i) \<noteq> RED_ZONE)"
    if "within ws (b + 16) (b + 16 + new)"
    unfolding under [symmetric] over [symmetric] using inside [OF that] by auto
  have kept: "\<forall>i < ci * 16. byte_at ?m1 (b + 16 + i) = (if i < new then byte_at m (b + 16 + i) else RED_ZONE)" by (simp add: byte_zone)
  show ?thesis
    by (rule exI [of _ ?m1], rule exI [of _ r1], unfold Let_def v e(2) under over, intro conjI impI)
      (use k kept r3m pois e(2) quiet in \<open>simp_all add: FatalDebug_def\<close>)
qed

theorem debug_realloc_tracks_witness:
  "\<exists>r m1 r1 e' st. reg_map r (65632 + 16) = Some (rec_of 7 (65632 + 16) 20 40 3 0)
     \<and> debug_keep_small True (65632 + 16) 33 \<lparr>dbg_mem = armed 65632 20 3 demo_dbg_mem, dbg_registry = r\<rparr> = Some \<lparr>dbg_mem = m1, dbg_registry = r1\<rparr>
     \<and> DebugOnFreeSmall (65632 + 16) 65632 \<lparr>dbg_mem = poke [(65632 + 16 + 32, 5)] m1, dbg_registry = r1\<rparr> = Some (Inr (e', st)) \<and> ar_size e' = 33"
proof -
  let ?e = "rec_of 7 (65632 + 16) 20 40 3 0"
  have c: "roomy 1024 1000 new_registry" by (simp add: roomy_def AllocRegistry_ctor_def kInitialShardCapacity_def)
  have "key (ar_ptr ?e)" "reg_fits True ?e new_registry" using roomy_fits [OF c, of ?e] by (simp_all add: rec_of_def key_def)
  from reg.ins_law [OF reg_ctor_ok(1) this] obtain r where r: "Registry_Insert True ?e new_registry = Some (True, None, r)" "reg_ok r" "reg_map r (65632 + 16) = Some ?e"
    using reg_ctor_ok(2) by (auto simp: rec_of_def AllocRegistry_ctor_def)
  have rr: "roomy (2 * 1024) 33 r" by (rule roomy_insert [OF c r(1)]) (simp_all add: rec_of_def)
  have b: "debug_block (armed 65632 20 3 demo_dbg_mem) 65536 65632 3" using armed_facts(1) [of 20 3] demo_dbg_block by simp
  have can: "\<forall>i < 4. byte_at (armed 65632 20 3 demo_dbg_mem) (65632 + 12 + i) = 0xC8" using armed_facts(2) [of 20 3 _ 65632] by simp
  have u: "33 \<le> UsableSize_debug 3" using debug_block_sizes(2) [OF b] by simp
  have w: "within [(65632 + 16 + 32, 5)] (65632 + 12) (65632 + 16 + 3 * 16)" "within [(65632 + 16 + 32, 5)] (65632 + 16) (65632 + 16 + 33)"
    by (simp_all add: within_def)
  show ?thesis using debug_realloc_tracks [OF b can u r(2,3) rr _ w(1)] w(2) r(3) unfolding Let_def by fastforce
qed

text \<open>
  The record of an over-aligned block: it moves from the raw pointer to the aligned one, and when the
  block is freed it is back at the raw pointer with the size the raw block was requested with.
\<close>

lemma debug_aligned_records:
  assumes r: "reg_ok r" "reg_map r raw = Some e" "ar_size e = sz + al + 32" "reg_map r aligned = None" "key aligned" "raw \<noteq> aligned"
    and room: "roomy c (2 * sz + al + 32) r" "2 * c \<le> 2 ^ 58"
  shows "\<exists>r1. debug_align_record True raw aligned sz r = Some r1
    \<and> (\<exists>x. reg_map r1 = (reg_map r)(raw := None, aligned \<mapsto> x) \<and> ar_size x = sz)
    \<and> (\<forall>m. m (aligned - 32) = al \<longrightarrow> (\<exists>r2 n. debug_unalign_record True aligned raw \<lparr>dbg_mem = m, dbg_registry = r1\<rparr> = Some r2 \<and> reg_ok r2
        \<and> reg_map r2 = (reg_map r)(raw \<mapsto> e\<lparr>ar_sequence := n\<rparr>)))"
proof -
  let ?f = "\<lambda>rec. rec\<lparr>ar_ptr := aligned, ar_size := sz\<rparr>"
  have c: "c \<le> 2 ^ 58" using room(2) by simp
  obtain r1 j where r1: "move_record True raw ?f r = Some r1" "reg_ok r1"
    "reg_map r1 = (reg_map r)(raw := None, aligned \<mapsto> (?f e)\<lparr>ar_sequence := j\<rparr>)" "roomy (2 * c) (sz + al + 32) r1"
    by (rule move_roomy [where f = ?f and k = "sz + al + 32", OF r(1,2) _ _ room(1) c]) (use r in simp_all)
  have p: "ar_ptr e = raw" using reg_map_ptr [OF r(1,2)] .
  have kr: "key raw" using r(2) by (auto simp: reg_map_def split: if_splits)
  have lim: "sz + al + 32 < 2 ^ 64" using r1(4) unfolding roomy_def by (metis add.commute add_lessD1)
  have "\<exists>r2 n. debug_unalign_record True aligned raw \<lparr>dbg_mem = m, dbg_registry = r1\<rparr> = Some r2 \<and> reg_ok r2 \<and> reg_map r2 = (reg_map r)(raw \<mapsto> e\<lparr>ar_sequence := n\<rparr>)"
    if m: "m (aligned - 32) = al" for m
  proof -
    let ?g = "\<lambda>rec. rec\<lparr>ar_ptr := raw, ar_size := add64 (add64 (ar_size rec) al) 32\<rparr>" and ?x = "(?f e)\<lparr>ar_sequence := j\<rparr>"
    have g: "?g ?x = e\<lparr>ar_sequence := j\<rparr>" using lim r(3) p by (cases e) (simp add: arith64)
    have x: "reg_map r1 aligned = Some ?x" using r1(3) by simp
    have s: "ar_size (?g ?x) = sz + al + 32" "ar_ptr (?g ?x) = raw" unfolding g using r(3) p by simp_all
    obtain r2 n where r2: "move_record True aligned ?g r1 = Some r2" "reg_ok r2"
      "reg_map r2 = (reg_map r1)(aligned := None, ar_ptr (?g ?x) \<mapsto> (?g ?x)\<lparr>ar_sequence := n\<rparr>)"
      by (rule move_roomy [where f = ?g and k = 0, OF r1(2) x _ _ r1(4) room(2)]) (use s kr r1(3) r(6) in simp_all)
    have "reg_map r2 = (reg_map r)(raw \<mapsto> e\<lparr>ar_sequence := n\<rparr>)"
      unfolding r2(3) r1(3) s(2) unfolding g using r(4,6) by (auto simp: fun_eq_iff)
    then show ?thesis using r2(1,2) m by (auto simp: debug_unalign_record_def Let_def)
  qed
  then show ?thesis using r1(1,3) by (auto simp: debug_align_record_def)
qed

text \<open>
  A remapped large span: its record is found at the new address with the new sizes and at no other one, the
  bytes behind the new size are armed, and the user's bytes are as \<^verbatim>\<open>mremap\<close> left them. Shrinking is the case
  \<open>q = p\<close>.
\<close>

lemma debug_shrink_is_grow:
  assumes "reg_ok r" "reg_map r p = Some e"
  shows "debug_shrink_large mem_ok p new_size needed \<lparr>dbg_mem = m, dbg_registry = r\<rparr>
    = debug_grow_large mem_ok p p new_size needed \<lparr>dbg_mem = m, dbg_registry = r\<rparr>"
proof -
  have kp: "key p" using assms(2) by (auto simp: reg_map_def split: if_splits)
  obtain r1 where "Registry_Erase p r = Some (True, Some e, r1)" using reg.era_law [OF assms(1) kp] assms(2) by auto
  then show ?thesis using reg_map_ptr [OF assms] by (cases e) (simp add: debug_shrink_large_def debug_grow_large_def move_record_def the_record_def Let_def)
qed

lemma debug_remap_tracks:
  assumes r: "reg_ok r" "reg_map r p = Some e" and q: "key q" "q = p \<or> reg_map r q = None" and h: "roomy c new_size r" "c \<le> 2 ^ 58"
    and n: "new_size + 16 \<le> needed" "needed < 2 ^ 64"
  shows "\<exists>m1 r1 e'. debug_grow_large True p q new_size needed \<lparr>dbg_mem = m, dbg_registry = r\<rparr> = Some \<lparr>dbg_mem = m1, dbg_registry = r1\<rparr>
    \<and> reg_ok r1 \<and> reg_map r1 = (reg_map r)(p := None, q \<mapsto> e') \<and> ar_size e' = new_size \<and> ar_usable e' = needed - 16
    \<and> (\<forall>i < needed - 16. byte_at m1 (q + i) = (if i < new_size then byte_at m (q + i) else RED_ZONE))"
proof -
  let ?f = "\<lambda>rec. rec\<lparr>ar_ptr := q, ar_size := new_size, ar_usable := needed - 16\<rparr>"
  obtain r1 j where r1: "move_record True p ?f r = Some r1" "reg_ok r1" "reg_map r1 = (reg_map r)(p := None, ar_ptr (?f e) \<mapsto> (?f e)\<lparr>ar_sequence := j\<rparr>)"
    by (rule move_roomy [where f = ?f and k = 0, OF r _ _ h]) (use q in simp_all)
  have s: "sub64 needed sizeof_LargeAllocHeader = needed - 16" "sub64 (needed - 16) new_size = needed - 16 - new_size"
    using n by (simp_all add: sizeof_LargeAllocHeader_def sub64_exact)
  let ?m1 = "FillRearRedZone (q + new_size) (needed - 16 - new_size) m"
  have "debug_grow_large True p q new_size needed \<lparr>dbg_mem = m, dbg_registry = r\<rparr> = Some \<lparr>dbg_mem = ?m1, dbg_registry = r1\<rparr>"
    by (simp add: debug_grow_large_def Let_def s r1(1))
  moreover have "\<forall>i < needed - 16. byte_at ?m1 (q + i) = (if i < new_size then byte_at m (q + i) else RED_ZONE)" using n by (auto simp: byte_zone)
  ultimately show ?thesis using r1(2,3) by fastforce
qed

end
