(* ===== verification/FA_DebugSlab.thy ===== *)
theory FA_DebugSlab
  imports FA_DebugProps
begin

text \<open>
  Slabs of debug builds (\<^verbatim>\<open>src/slab.cpp\<close>, \<^verbatim>\<open>src/slab.h\<close> with \<^verbatim>\<open>FASTALLOC_DEBUG\<close>): creation wires every block
  and fills it with the pattern of untouched memory, and allocation and deallocation assert the
  slab's invariants first. Every block of a new debug slab meets what the allocation hooks ask for.
\<close>

section \<open>Operations\<close>

definition sizeof_Slab_debug :: nat where "sizeof_Slab_debug = 88"

fun wire_blocks :: "addr \<Rightarrow> addr \<Rightarrow> nat \<Rightarrow> nat \<Rightarrow> mem \<Rightarrow> mem" where
  "wire_blocks slab block_start block_size 0 m = m"
| "wire_blocks slab block_start block_size (Suc i) m =
     (let block = block_start + i * block_size;
          m = set_fb_slab block slab m;
          m = set_fb_class_index block (slab_class_idx m slab) m;
          m = set_fb_next block (slab_free_list m slab) m;
          m = set_slab_free_list slab block m;
          m = set_fb_canary block 0 m;
          m = (if block_size > sizeof_FreeBlock then memset (block + sizeof_FreeBlock) FRESH (block_size - sizeof_FreeBlock) m else m)
      in wire_blocks slab block_start block_size i m)"

definition Slab_Create_debug :: "addr \<Rightarrow> nat \<Rightarrow> nat \<Rightarrow> nat \<Rightarrow> mem \<Rightarrow> addr \<times> mem" where
  "Slab_Create_debug memory memory_size block_size arena_index m =
     (if memory = 0 \<or> memory_size \<le> add64 sizeof_Slab_debug block_size then (0, m)
      else let slab = memory;
               m = set_slab_next slab 0 m;
               m = set_slab_prev slab 0 m;
               m = m(slab + 24 := block_size);
               m = m(slab + 48 := memory_size);
               m = m(slab + 72 := (SizeToClassIndex block_size mod 2 ^ 32) * 2 ^ 32 + arena_index mod 2 ^ 32);
               m = m(slab + 80 := SLAB_MAGIC);
               offset = align_up sizeof_Slab_debug ALIGNMENT
           in if memory_size < add64 offset block_size then (0, m)
              else let available_memory = memory_size - offset;
                       m = m(slab + 32 := available_memory div block_size);
                       m = set_slab_free_blocks slab (slab_total_blocks m slab) m;
                       m = set_slab_free_list slab 0 m;
                       m = m(slab + 56 := offset);
                       m = set_slab_next_new slab (slab_total_blocks m slab) m;
                       m = wire_blocks slab (memory + offset) block_size (slab_total_blocks m slab) m
                   in (slab, m))"

definition Slab_assert_fast :: "bool \<Rightarrow> string \<Rightarrow> violation_info option" where
  "Slab_assert_fast cond msg = (if \<not> cond then Some (FatalDebug InternalInvariant 0 0 msg) else None)"

definition Slab_Allocate_debug :: "addr \<Rightarrow> mem \<Rightarrow> violation_info + addr \<times> mem" where
  "Slab_Allocate_debug s m =
     (case Slab_assert_fast (slab_free_blocks m s > 0 \<and> (slab_free_list m s \<noteq> 0 \<or> slab_next_new m s < slab_total_blocks m s)) ''Allocate from exhausted slab'' of
        Some v \<Rightarrow> Inl v
      | None \<Rightarrow> Inr (Slab_Allocate s m))"

definition Slab_Deallocate_debug :: "addr \<Rightarrow> addr \<Rightarrow> mem \<Rightarrow> violation_info + mem" where
  "Slab_Deallocate_debug s block m =
     (case Slab_assert_fast (fb_slab m block = s) ''Block returned to wrong slab'' of
        Some v \<Rightarrow> Inl v
      | None \<Rightarrow> (case Slab_assert_fast (slab_free_blocks m s < slab_total_blocks m s) ''Double free / free_blocks overflow'' of
          Some v \<Rightarrow> Inl v
        | None \<Rightarrow> (case Slab_assert_fast (slab_free_list m s \<noteq> block) ''Double return of the free-list head'' of
            Some v \<Rightarrow> Inl v
          | None \<Rightarrow> Inr (Slab_Deallocate s block m))))"

section \<open>Wiring\<close>

lemma memset_cell: "c mod 8 = 0 \<Longrightarrow> c + 8 \<le> p \<or> p + n \<le> c \<Longrightarrow> memset p v n m c = m c"
proof (induction n arbitrary: p m)
  case (Suc n)
  then show ?case using cell_set_byte [of c p v m] by auto
qed simp

definition wired :: "mem \<Rightarrow> addr \<Rightarrow> nat \<Rightarrow> nat \<Rightarrow> addr \<Rightarrow> bool" where
  "wired m slab ci bs b \<longleftrightarrow> fb_slab m b = slab \<and> fb_class_index m b = ci \<and> (\<forall>i. 24 \<le> i \<and> i < bs \<longrightarrow> byte_at m (b + i) = FRESH)"

lemma wired_cong:
  assumes "b mod 8 = 0" "24 \<le> bs" "\<And>c. c mod 8 = 0 \<Longrightarrow> b \<le> c \<Longrightarrow> c < b + bs \<Longrightarrow> m' c = m c"
  shows "wired m' slab ci bs b = wired m slab ci bs b"
proof -
  have "byte_at m' (b + i) = byte_at m (b + i)" if "i < bs" for i
  proof -
    have "(b + i) mod 8 = i mod 8" using assms(1) by presburger
    then have "(b + i) mod 8 \<le> i" by simp
    then have "b \<le> (b + i) - (b + i) mod 8" "(b + i) - (b + i) mod 8 < b + bs" using that by linarith+
    then show ?thesis using assms(3) cell_of_byte(2) by (simp add: byte_at_def)
  qed
  moreover have "(b + 8) mod 8 = 0" using assms(1) by simp
  ultimately show ?thesis using assms(1,2) assms(3) [of b] assms(3) [of "b + 8"] by (auto simp: wired_def cells)
qed

definition wire_block :: "addr \<Rightarrow> addr \<Rightarrow> nat \<Rightarrow> mem \<Rightarrow> mem" where
  "wire_block slab b bs m =
     (let m = set_fb_slab b slab m; m = set_fb_class_index b (slab_class_idx m slab) m; m = set_fb_next b (slab_free_list m slab) m;
          m = set_slab_free_list slab b m; m = set_fb_canary b 0 m
      in if bs > sizeof_FreeBlock then memset (b + sizeof_FreeBlock) FRESH (bs - sizeof_FreeBlock) m else m)"

lemma wire_blocks_Suc: "wire_blocks slab start bs (Suc k) m = wire_blocks slab start bs k (wire_block slab (start + k * bs) bs m)"
  by (simp add: wire_block_def Let_def)

lemma wire_block_facts:
  fixes m :: mem
  assumes "b mod 8 = 0" "24 \<le> bs" "slab + 88 \<le> b" "slab mod 8 = 0"
  defines "m' \<equiv> wire_block slab b bs m"
  shows "wired m' slab (slab_class_idx m slab) bs b" "fb_next m' b = slab_free_list m slab" "slab_free_list m' slab = b"
    "c mod 8 = 0 \<Longrightarrow> c \<noteq> slab + 16 \<Longrightarrow> c < b \<or> b + bs \<le> c \<Longrightarrow> m' c = m c"
proof -
  define m0 where "m0 = set_fb_canary b 0 (set_slab_free_list slab b (set_fb_next b (slab_free_list m slab)
      (set_fb_class_index b (slab_class_idx m slab) (set_fb_slab b slab m))))"
  have m': "m' = memset (b + 24) FRESH (bs - 24) m0"
    using assms(2,3) unfolding m'_def wire_block_def m0_def Let_def by (auto simp: cells config_consts)
  have m0: "fb_slab m0 b = slab" "fb_class_index m0 b = slab_class_idx m slab" "m0 (b + 16) = slab_free_list m slab" "m0 (slab + 16) = b"
    using assms(3) unfolding m0_def by (auto simp: cells)
  have hd: "m' c = m0 c" if "c mod 8 = 0" "c + 8 \<le> b + 24 \<or> b + bs \<le> c" for c
    unfolding m' using that assms(2) by (intro memset_cell) auto
  have al: "(b + 8) mod 8 = 0" "(b + 16) mod 8 = 0" "(slab + 16) mod 8 = 0" using assms(1,4) by presburger+
  have h: "m' b = m0 b" "m' (b + 8) = m0 (b + 8)" "m' (b + 16) = m0 (b + 16)" "m' (slab + 16) = m0 (slab + 16)"
    using hd assms(1,3) al by auto
  show "wired m' slab (slab_class_idx m slab) bs b"
    using m0(1,2) h(1,2) unfolding wired_def by (auto simp: cells m' byte_memset FRESH_def)
  show "fb_next m' b = slab_free_list m slab" "slab_free_list m' slab = b"
    using h(3,4) m0(3,4) by (simp_all add: fb_next_def slab_free_list_def)
  show "m' c = m c" if "c mod 8 = 0" "c \<noteq> slab + 16" "c < b \<or> b + bs \<le> c"
  proof -
    have "c + 8 \<le> b \<or> b + bs \<le> c" using that(1,3) assms(1) by presburger
    then have "m' c = m0 c" using that(1) by (intro hd) auto
    moreover have "m0 c = m c" unfolding m0_def using that(2,3) assms(2) by (auto simp: cells)
    ultimately show ?thesis by simp
  qed
qed

lemma wire_blocks_facts:
  assumes a: "start mod 8 = 0" "bs mod 8 = 0" "24 \<le> bs" "slab + 88 \<le> start" "slab mod 8 = 0"
    and "chain (fb_next m) (slab_free_list m slab) xs" "\<forall>x \<in> set xs. x mod 8 = 0 \<and> start + k * bs \<le> x"
  defines "m' \<equiv> wire_blocks slab start bs k m"
  shows "(\<forall>j < k. wired m' slab (slab_class_idx m slab) bs (start + j * bs))
    \<and> chain (fb_next m') (slab_free_list m' slab) (map (\<lambda>j. start + j * bs) [0..<k] @ xs)
    \<and> (\<forall>c. c mod 8 = 0 \<and> c \<noteq> slab + 16 \<and> (c < start \<or> start + k * bs \<le> c) \<longrightarrow> m' c = m c)"
  using assms(6,7) unfolding m'_def
proof (induction k arbitrary: m xs)
  case (Suc k)
  let ?b = "start + k * bs"
  let ?m = "wire_block slab ?b bs m"
  have b: "?b mod 8 = 0" "slab + 88 \<le> ?b" using a by (simp_all add: mod_add_eq [symmetric] mod_mult_right_eq [symmetric])
  note w = wire_block_facts [OF b(1) a(3) b(2) a(5), where m = m]
  have cls: "slab_class_idx ?m slab = slab_class_idx m slab"
    using w(4) [of "slab + 72"] a(4,5) b(2) by (simp add: cells mod_add_eq [symmetric])
  have "chain (fb_next ?m) (slab_free_list m slab) xs"
  proof (subst fb_chain_cong [of xs ?m m])
    fix x assume "x \<in> set xs"
    then have "x mod 8 = 0" "?b + bs \<le> x" using Suc.prems(2) by (auto simp: algebra_simps)
    then show "?m (x + 16) = m (x + 16)" using b(2) by (intro w(4)) auto
  qed (rule Suc.prems(1))
  then have c: "chain (fb_next ?m) (slab_free_list ?m slab) (?b # xs)" using w(2,3) a(4) by simp
  have "\<forall>x \<in> set (?b # xs). x mod 8 = 0 \<and> start + k * bs \<le> x" using Suc.prems(2) b(1) by (auto simp: algebra_simps)
  note ih = Suc.IH [OF c this, unfolded cls]
  note fr = ih [THEN conjunct2, THEN conjunct2, rule_format]
  have "wired (wire_blocks slab start bs k ?m) slab (slab_class_idx m slab) bs ?b"
    using w(1) fr b by (subst wired_cong [OF b(1) a(3), of _ ?m]) auto
  moreover have "wire_blocks slab start bs k ?m c = m c" if "c mod 8 = 0" "c \<noteq> slab + 16" "c < start \<or> start + Suc k * bs \<le> c" for c
    using fr [of c] w(4) [of c] that by auto
  ultimately show ?case unfolding wire_blocks_Suc using ih by (auto simp: less_Suc_eq)
qed simp

section \<open>New slabs\<close>

text \<open>
  C25: in a debug build a slab created over fresh memory for size class \<open>ci\<close> lists all its blocks, lowest
  address first, and each of them is ready for the allocation hooks: its header names the slab and the
  class, the slab carries its magic, and the reuse check finds nothing but the fresh pattern.
\<close>

theorem debug_slab_blocks_ready:
  assumes "0 < ci" "ci < NUM_SIZE_CLASSES" "memory mod 16 = 0" "0 < memory" "96 + ClassIndexToSize ci \<le> size_bytes" "size_bytes < 2 ^ 64" "arena < 2 ^ 32"
  shows "\<exists>m' n. Slab_Create_debug memory size_bytes (ClassIndexToSize ci) arena m = (memory, m') \<and> n = (size_bytes - 96) div ClassIndexToSize ci \<and> 0 < n
    \<and> chain (fb_next m') (slab_free_list m' memory) (map (\<lambda>k. memory + 96 + k * ClassIndexToSize ci) [0..<n])
    \<and> slab_free_blocks m' memory = n \<and> slab_total_blocks m' memory = n \<and> slab_next_new m' memory = n
    \<and> (\<forall>k < n. debug_block m' memory (memory + 96 + k * ClassIndexToSize ci) ci
        \<and> CheckReusePattern m' (memory + 96 + k * ClassIndexToSize ci + 16) (UsableSize_debug ci) = None)"
proof -
  let ?bs = "ClassIndexToSize ci" and ?n = "(size_bytes - 96) div ClassIndexToSize ci"
  have ci: "ci < 512" using assms(2) by (simp add: config_consts)
  have bs: "?bs = ci * 16 + 16" using ci by (simp add: ClassIndexToSize_exact)
  have n: "0 < ?n" using assms(5) bs by (simp add: div_greater_zero_iff)
  have off: "align_up sizeof_Slab_debug ALIGNMENT = 96"
    using align_up_pow2 [of 88 4] by (simp add: sizeof_Slab_debug_def config_consts)
  have cls: "SizeToClassIndex ?bs = ci" using assms(1) by (simp add: bs SizeToClassIndex_div)
  have "memory mod 8 = 0" using mod_mod_cancel [of 8 16 memory] assms(3) by simp
  then have m8: "memory mod 8 = 0" "(memory + 96) mod 8 = 0" "?bs mod 8 = 0" unfolding bs by (auto simp: mod_add_eq [symmetric] mod_mult_right_eq [symmetric])
  define m0 where "m0 = (let m = set_slab_next memory 0 m; m = set_slab_prev memory 0 m; m = m(memory + 24 := ?bs); m = m(memory + 48 := size_bytes);
      m = m(memory + 72 := (SizeToClassIndex ?bs mod 2 ^ 32) * 2 ^ 32 + arena mod 2 ^ 32); m = m(memory + 80 := SLAB_MAGIC); m = m(memory + 32 := ?n);
      m = set_slab_free_blocks memory (slab_total_blocks m memory) m; m = set_slab_free_list memory 0 m; m = m(memory + 56 := 96)
      in set_slab_next_new memory (slab_total_blocks m memory) m)"
  define m' where "m' = wire_blocks memory (memory + 96) ?bs (slab_total_blocks m0 memory) m0"
  have m0: "slab_total_blocks m0 memory = ?n" "slab_free_blocks m0 memory = ?n" "slab_next_new m0 memory = ?n" "slab_magic m0 memory = SLAB_MAGIC"
    "slab_free_list m0 memory = 0" "slab_class_idx m0 memory = ci"
    using ci assms(7) unfolding m0_def Let_def cls by (simp_all add: cells slab_magic_def)
  have "\<not> (memory = 0 \<or> size_bytes \<le> add64 sizeof_Slab_debug ?bs)" "\<not> size_bytes < add64 96 ?bs"
    using assms(4-6) by (simp_all add: sizeof_Slab_debug_def arith64)
  then have run: "Slab_Create_debug memory size_bytes ?bs arena m = (memory, m')"
    unfolding Slab_Create_debug_def m'_def m0_def Let_def off by (simp only: if_False)
  have w: "chain (fb_next m0) (slab_free_list m0 memory) []" using m0(5) by simp
  have f: "\<forall>j < ?n. wired m' memory (slab_class_idx m0 memory) ?bs (memory + 96 + j * ?bs)"
    "chain (fb_next m') (slab_free_list m' memory) (map (\<lambda>j. memory + 96 + j * ?bs) [0..<?n])"
    "\<And>c. c mod 8 = 0 \<Longrightarrow> c \<noteq> memory + 16 \<Longrightarrow> c < memory + 96 \<Longrightarrow> m' c = m0 c"
    using wire_blocks_facts [OF m8(2,3) _ _ m8(1) w, of ?n] bs assms(1) unfolding m'_def m0(1) by auto
  have hd: "m' (memory + 80) = SLAB_MAGIC" "m' (memory + 40) = ?n" "m' (memory + 32) = ?n" "m' (memory + 64) = ?n"
    using m8(1) m0(1-4) f(3) [of "memory + 80"] f(3) [of "memory + 40"] f(3) [of "memory + 32"] f(3) [of "memory + 64"]
    by (simp_all add: mod_add_eq [symmetric] cells slab_magic_def)
  have "debug_block m' memory (memory + 96 + k * ?bs) ci \<and> CheckReusePattern m' (memory + 96 + k * ?bs + 16) (UsableSize_debug ci) = None" if k: "k < ?n" for k
  proof
    have wk: "wired m' memory ci ?bs (memory + 96 + k * ?bs)" using f(1) k m0(6) by simp
    have al: "(memory + 96 + k * ?bs) mod 16 = 0" using assms(3) bs by (simp add: mod_add_eq [symmetric] algebra_simps)
    show db: "debug_block m' memory (memory + 96 + k * ?bs) ci"
      using wk al assms(1,2,4) m8(1) hd(1) by (simp add: debug_block_def wired_def slab_magic_def)
    have "byte_at m' (memory + 96 + k * ?bs + 16 + i) = FRESH" if "sampled 8 (UsableSize_debug ci) i" for i
    proof -
      have "8 \<le> i" "i < ci * 16 - 8" using that debug_block_sizes(2) [OF db] by (auto simp: sampled_def)
      then show ?thesis using wk [unfolded wired_def, THEN conjunct2, THEN conjunct2, rule_format, of "16 + i"] bs by (simp add: add.assoc)
    qed
    then show "CheckReusePattern m' (memory + 96 + k * ?bs + 16) (UsableSize_debug ci) = None"
      by (simp add: reuse_scan window_scan_facts(2))
  qed
  then show ?thesis using run n f(2) hd by (auto simp: cells)
qed


theorem debug_slab_blocks_ready_witness:
  "\<exists>m'. Slab_Create_debug 65536 65536 (ClassIndexToSize 3) 0 (\<lambda>_. 0) = (65536, m') \<and> debug_block m' 65536 (65536 + 96 + 1021 * ClassIndexToSize 3) 3
     \<and> CheckReusePattern m' (65536 + 96 + 1021 * ClassIndexToSize 3 + 16) (UsableSize_debug 3) = None"
proof -
  have c: "ClassIndexToSize 3 = 64" by (simp add: ClassIndexToSize_exact)
  have n: "1021 < (65536 - 96) div ClassIndexToSize 3" by (simp add: c)
  have "\<exists>m' n. Slab_Create_debug 65536 65536 (ClassIndexToSize 3) 0 (\<lambda>_. 0) = (65536, m') \<and> n = (65536 - 96) div ClassIndexToSize 3
    \<and> (\<forall>k < n. debug_block m' 65536 (65536 + 96 + k * ClassIndexToSize 3) 3
        \<and> CheckReusePattern m' (65536 + 96 + k * ClassIndexToSize 3 + 16) (UsableSize_debug 3) = None)"
    using debug_slab_blocks_ready [of 3 65536 65536 0 "\<lambda>_. 0"] by (simp add: config_consts c) blast
  then show ?thesis using n by blast
qed

section \<open>Assertions of a slab in use\<close>

text \<open>Allocating \<open>n\<close> times in a row from one slab.\<close>

fun allocate_run :: "addr \<Rightarrow> nat \<Rightarrow> mem \<Rightarrow> violation_info + addr list \<times> mem" where
  "allocate_run s 0 m = Inr ([], m)"
| "allocate_run s (Suc n) m =
     (case Slab_Allocate_debug s m of
        Inl v \<Rightarrow> Inl v
      | Inr (b, m) \<Rightarrow> (case allocate_run s n m of Inl v \<Rightarrow> Inl v | Inr (bs, m) \<Rightarrow> Inr (b # bs, m)))"

definition listed_slab :: "mem \<Rightarrow> addr \<Rightarrow> addr list \<Rightarrow> bool" where
  "listed_slab m s xs \<longleftrightarrow> chain (fb_next m) (slab_free_list m s) xs \<and> (\<forall>x \<in> set xs. s + 88 \<le> x) \<and> slab_free_blocks m s = length xs
     \<and> slab_next_new m s = slab_total_blocks m s \<and> length xs < 2 ^ 64"

lemma allocate_listed:
  assumes "listed_slab m s (x # xs)"
  shows "\<exists>m'. Slab_Allocate_debug s m = Inr (x, m') \<and> listed_slab m' s xs"
proof -
  let ?m = "set_slab_free_blocks s (slab_free_blocks m s - 1) (set_slab_free_list s (fb_next m x) m)"
  have a: "slab_free_list m s = x" "x \<noteq> 0" "slab_free_blocks m s = Suc (length xs)" "chain (fb_next m) (fb_next m x) xs" "\<forall>y \<in> set xs. s + 88 \<le> y"
    and nn: "slab_next_new m s = slab_total_blocks m s" and l: "Suc (length xs) < 2 ^ 64"
    using assms by (auto simp: listed_slab_def)
  have s64: "sub64 (slab_free_blocks (set_slab_free_list s (fb_next m x) m) s) 1 = slab_free_blocks m s - 1"
    using a(3) l by (simp add: cells arith64)
  have r: "Slab_Allocate_debug s m = Inr (x, ?m)"
    using a(1,2,3) s64 unfolding Slab_Allocate_debug_def Slab_Allocate_def Let_def by (simp add: Slab_assert_fast_def)
  have "chain (fb_next ?m) (fb_next m x) xs"
    using a(4,5) by (subst fb_chain_cong [of xs ?m m]) (auto simp: cells)
  then have "listed_slab ?m s xs" using a(3,5) nn l by (auto simp: listed_slab_def cells)
  with r show ?thesis by blast
qed

lemma allocate_run_listed:
  "listed_slab m s xs \<Longrightarrow> \<exists>m'. allocate_run s (length xs) m = Inr (xs, m') \<and> listed_slab m' s []"
proof (induction xs arbitrary: m)
  case (Cons x xs)
  obtain m1 where "Slab_Allocate_debug s m = Inr (x, m1)" "listed_slab m1 s xs" using allocate_listed [OF Cons.prems] by blast
  with Cons.IH [of m1] show ?case by auto
qed auto

text \<open>
  A slab whose unused blocks are all on its free list, such as a new debug slab, hands them out in list
  order, and the request after the last one is reported instead of returning null. A block of another
  slab, a second return of the list head and a return to a slab that has all its blocks are reported; any
  other block of the slab becomes the head of the list.
\<close>

lemma debug_slab_asserts:
  assumes "listed_slab m s xs"
  shows "(\<exists>m' v. allocate_run s (length xs) m = Inr (xs, m') \<and> Slab_Allocate_debug s m' = Inl v \<and> vi_kind v = InternalInvariant)
    \<and> (if fb_slab m b \<noteq> s \<or> slab_total_blocks m s \<le> length xs \<or> (xs \<noteq> [] \<and> b = hd xs) \<or> (xs = [] \<and> b = 0)
       then \<exists>v. Slab_Deallocate_debug s b m = Inl v \<and> vi_kind v = InternalInvariant
       else s + 88 \<le> b \<and> b \<notin> set xs \<and> length xs + 1 < 2 ^ 64 \<longrightarrow> (\<exists>m2. Slab_Deallocate_debug s b m = Inr m2 \<and> listed_slab m2 s (b # xs)))"
proof
  obtain m' where m': "allocate_run s (length xs) m = Inr (xs, m')" "listed_slab m' s []" using allocate_run_listed [OF assms] by blast
  then have "\<exists>v. Slab_Allocate_debug s m' = Inl v \<and> vi_kind v = InternalInvariant"
    by (simp add: listed_slab_def Slab_Allocate_debug_def Slab_assert_fast_def FatalDebug_def)
  with m'(1) show "\<exists>m' v. allocate_run s (length xs) m = Inr (xs, m') \<and> Slab_Allocate_debug s m' = Inl v \<and> vi_kind v = InternalInvariant" by blast
  have l: "slab_free_blocks m s = length xs" "chain (fb_next m) (slab_free_list m s) xs" "\<forall>x \<in> set xs. s + 88 \<le> x" "slab_next_new m s = slab_total_blocks m s"
    using assms by (auto simp: listed_slab_def)
  have h: "slab_free_list m s = (if xs = [] then 0 else hd xs)" using l(2) by (cases xs) auto
  show "if fb_slab m b \<noteq> s \<or> slab_total_blocks m s \<le> length xs \<or> (xs \<noteq> [] \<and> b = hd xs) \<or> (xs = [] \<and> b = 0)
       then \<exists>v. Slab_Deallocate_debug s b m = Inl v \<and> vi_kind v = InternalInvariant
       else s + 88 \<le> b \<and> b \<notin> set xs \<and> length xs + 1 < 2 ^ 64 \<longrightarrow> (\<exists>m2. Slab_Deallocate_debug s b m = Inr m2 \<and> listed_slab m2 s (b # xs))"
  proof (split if_split, intro conjI impI)
    assume "fb_slab m b \<noteq> s \<or> slab_total_blocks m s \<le> length xs \<or> (xs \<noteq> [] \<and> b = hd xs) \<or> (xs = [] \<and> b = 0)"
    then show "\<exists>v. Slab_Deallocate_debug s b m = Inl v \<and> vi_kind v = InternalInvariant"
      using l(1) h by (auto simp: Slab_Deallocate_debug_def Slab_assert_fast_def FatalDebug_def)
  next
    assume ok: "\<not> (fb_slab m b \<noteq> s \<or> slab_total_blocks m s \<le> length xs \<or> (xs \<noteq> [] \<and> b = hd xs) \<or> (xs = [] \<and> b = 0))"
      and b: "s + 88 \<le> b \<and> b \<notin> set xs \<and> length xs + 1 < 2 ^ 64"
    have ne: "slab_free_list m s \<noteq> b" using ok h by auto
    let ?m = "Slab_Deallocate s b m"
    have r: "Slab_Deallocate_debug s b m = Inr ?m" using ok ne l(1) by (simp add: Slab_Deallocate_debug_def Slab_assert_fast_def)
    have c: "chain (fb_next ?m) (slab_free_list m s) xs"
      using l(2,3) b ne by (subst fb_chain_cong [of xs ?m m]) (auto simp: Slab_Deallocate_def Let_def cells)
    have "listed_slab ?m s (b # xs)"
      using c b ne l unfolding listed_slab_def by (auto simp: Slab_Deallocate_def Let_def cells arith64)
    with r show "\<exists>m2. Slab_Deallocate_debug s b m = Inr m2 \<and> listed_slab m2 s (b # xs)" by blast
  qed
qed

section \<open>Large spans from the page heap\<close>

text \<open>
  What a debug build writes into a span of the page heap before it serves a large allocation: the fresh
  pattern at both ends (\<^verbatim>\<open>GlobalHeap::AllocateLarge\<close>), then the header with its magic (\<^verbatim>\<open>AllocateLargeCached\<close>).
\<close>

definition debug_fresh_windows :: "addr \<Rightarrow> nat \<Rightarrow> mem \<Rightarrow> mem" where
  "debug_fresh_windows base alloc_size m =
     (let window = (if alloc_size < 1024 then alloc_size else 1024);
          m = memset base FRESH window m
      in memset (base + alloc_size - window) FRESH window m)"

definition debug_large_header :: "addr \<Rightarrow> nat \<Rightarrow> mem \<Rightarrow> mem" where
  "debug_large_header header sz m = (m(header + 8 := sz))(header := LARGE_MAGIC)"

text \<open>A span prepared so passes the reuse check of the large-allocation hook.\<close>

lemma debug_span_ready:
  fixes m :: mem
  assumes "1024 \<le> alloc_size" "base mod 8 = 0"
  defines "m' \<equiv> debug_large_header base alloc_size (debug_fresh_windows base alloc_size m)"
  shows "\<forall>i. sampled 0 (alloc_size - 16) i \<longrightarrow> byte_at m' (base + 16 + i) \<in> {POISON_FREE, FRESH, 0}" "m' base = LARGE_MAGIC" "m' (base + 8) = alloc_size"
proof -
  show "\<forall>i. sampled 0 (alloc_size - 16) i \<longrightarrow> byte_at m' (base + 16 + i) \<in> {POISON_FREE, FRESH, 0}"
  proof (intro allI impI)
    fix i assume i: "sampled 0 (alloc_size - 16) i"
    have "(base + 8) mod 8 = 0" using assms(2) by simp
    then have "byte_at m' (base + 16 + i) = byte_at (debug_fresh_windows base alloc_size m) (base + 16 + i)"
      unfolding m'_def debug_large_header_def using assms(2) by (simp add: byte_cell_other)
    also have "\<dots> = FRESH" using i assms(1) by (auto simp: debug_fresh_windows_def Let_def byte_memset FRESH_def sampled_def)
    finally show "byte_at m' (base + 16 + i) \<in> {POISON_FREE, FRESH, 0}" by simp
  qed
  show "m' base = LARGE_MAGIC" "m' (base + 8) = alloc_size" by (simp_all add: m'_def debug_large_header_def)
qed


end
