(* ===== verification/FA_WinRegions.thy ===== *)
theory FA_WinRegions
  imports FA_Prelude
begin

text \<open>
  The reservation registry of Windows builds (\<^verbatim>\<open>WinReservationRegistry\<close> in \<^verbatim>\<open>src/os_memory.cpp\<close>), through which
  \<^verbatim>\<open>OSMemory\<close> takes and gives back pages there: one reservation per allocation, spans of it decommitted as
  they are freed, and the reservation released with its last live span. \<^verbatim>\<open>VirtualAlloc\<close> and \<^verbatim>\<open>VirtualFree\<close> are
  parameters; the calls made to them are logged, and \<open>reserved\<close> and \<open>committed\<close> are what the log means for
  the address space. Histories (\<open>win_step\<close>) are driven by what a client was given and asks to free.
\<close>

section \<open>State\<close>

record win_region =
  wr_size :: nat
  wr_live :: nat

datatype win_call = ReserveCall addr nat | DecommitCall addr nat | ReleaseCall addr

record win_ops =
  wo_reserve :: "win_call list \<Rightarrow> nat \<Rightarrow> addr"
  wo_decommit :: "win_call list \<Rightarrow> addr \<Rightarrow> nat \<Rightarrow> bool"

text \<open>\<^verbatim>\<open>std::map<char*, WinRegion>\<close> is an association list sorted by base; the log has its newest call first.\<close>

type_synonym region_map = "(addr \<times> win_region) list"

record win_state =
  win_regions :: region_map
  win_log :: "win_call list"

fun region_put :: "addr \<Rightarrow> win_region \<Rightarrow> region_map \<Rightarrow> region_map" where
  "region_put b r [] = [(b, r)]"
| "region_put b r ((c, q) # rs) = (if b < c then (b, r) # (c, q) # rs else if b = c then (b, r) # rs else (c, q) # region_put b r rs)"

fun region_del :: "addr \<Rightarrow> region_map \<Rightarrow> region_map" where
  "region_del b [] = []"
| "region_del b ((c, q) # rs) = (if b = c then rs else (c, q) # region_del b rs)"

text \<open>The entry before \<^verbatim>\<open>upper_bound(ptr)\<close>.\<close>

fun last_at_most :: "addr \<Rightarrow> region_map \<Rightarrow> (addr \<times> win_region) option" where
  "last_at_most p [] = None"
| "last_at_most p ((c, q) # rs) = (if c \<le> p then case last_at_most p rs of None \<Rightarrow> Some (c, q) | Some x \<Rightarrow> Some x else None)"

section \<open>Operations\<close>

definition Win_Add :: "addr \<Rightarrow> nat \<Rightarrow> win_state \<Rightarrow> win_state" where
  "Win_Add base n s = s\<lparr>win_regions := region_put base \<lparr>wr_size = n, wr_live = n\<rparr> (win_regions s)\<rparr>"

definition FindRegion :: "addr \<Rightarrow> nat \<Rightarrow> win_state \<Rightarrow> (addr \<times> win_region) option" where
  "FindRegion p n s =
     (case last_at_most p (win_regions s) of
        None \<Rightarrow> None
      | Some (base, r) \<Rightarrow> if p + n > base + wr_size r then None else Some (base, r))"

definition ReleaseRegion :: "addr \<Rightarrow> win_state \<Rightarrow> win_state" where
  "ReleaseRegion base s = s\<lparr>win_log := ReleaseCall base # win_log s, win_regions := region_del base (win_regions s)\<rparr>"

definition ReleaseSpan :: "win_ops \<Rightarrow> addr \<Rightarrow> nat \<Rightarrow> win_state \<Rightarrow> win_state" where
  "ReleaseSpan ops p n s =
     (if p = 0 \<or> n = 0 then s
      else case FindRegion p n s of
             None \<Rightarrow> s
           | Some (base, r) \<Rightarrow>
               if p = base \<and> n = wr_size r \<and> wr_live r = wr_size r then ReleaseRegion base s
               else if \<not> wo_decommit ops (win_log s) p n then s
               else let s = s\<lparr>win_log := DecommitCall p n # win_log s\<rparr>;
                        r = r\<lparr>wr_live := if wr_live r \<ge> n then wr_live r - n else 0\<rparr>;
                        s = s\<lparr>win_regions := region_put base r (win_regions s)\<rparr>
                    in if wr_live r = 0 then ReleaseRegion base s else s)"

definition DecommitRange :: "win_ops \<Rightarrow> addr \<Rightarrow> nat \<Rightarrow> win_state \<Rightarrow> win_state" where
  "DecommitRange ops p n s =
     (if p = 0 \<or> n = 0 then s
      else case FindRegion p n s of
             None \<Rightarrow> s
           | Some (base, r) \<Rightarrow>
               if \<not> wo_decommit ops (win_log s) p n then s
               else s\<lparr>win_log := DecommitCall p n # win_log s,
                      win_regions := region_put base (r\<lparr>wr_live := if wr_live r \<ge> n then wr_live r - n else 0\<rparr>) (win_regions s)\<rparr>)"

definition AllocatePages_win :: "win_ops \<Rightarrow> nat \<Rightarrow> win_state \<Rightarrow> addr \<times> win_state" where
  "AllocatePages_win ops n s =
     (let p = wo_reserve ops (win_log s) n
      in if p \<noteq> 0 then (p, Win_Add p n (s\<lparr>win_log := ReserveCall p n # win_log s\<rparr>)) else (p, s))"

definition FreePages_win :: "win_ops \<Rightarrow> addr \<Rightarrow> nat \<Rightarrow> win_state \<Rightarrow> win_state" where
  "FreePages_win ops p n s = (if p = 0 then s else ReleaseSpan ops p n s)"

definition DecommitPages_win :: "win_ops \<Rightarrow> addr \<Rightarrow> nat \<Rightarrow> win_state \<Rightarrow> win_state" where
  "DecommitPages_win ops p n s = (if p = 0 \<or> n = 0 then s else DecommitRange ops p n s)"

section \<open>What the calls mean\<close>

fun reserved :: "win_call list \<Rightarrow> addr \<rightharpoonup> nat" where
  "reserved [] = Map.empty"
| "reserved (ReserveCall b n # cs) = (reserved cs)(b \<mapsto> n)"
| "reserved (DecommitCall p n # cs) = reserved cs"
| "reserved (ReleaseCall b # cs) = (reserved cs)(b := None)"

fun committed :: "win_call list \<Rightarrow> addr set" where
  "committed [] = {}"
| "committed (ReserveCall b n # cs) = committed cs \<union> {b..<b + n}"
| "committed (DecommitCall p n # cs) = committed cs - {p..<p + n}"
| "committed (ReleaseCall b # cs) = committed cs - (case reserved cs b of None \<Rightarrow> {} | Some n \<Rightarrow> {b..<b + n})"

text \<open>The documented behaviour of \<^verbatim>\<open>VirtualAlloc\<close>: null, or a range that overlaps no reservation.\<close>

definition win_spec :: "win_ops \<Rightarrow> bool" where
  "win_spec ops \<longleftrightarrow> (\<forall>cs n. 0 < n \<and> wo_reserve ops cs n \<noteq> 0 \<longrightarrow>
     (\<forall>b k. reserved cs b = Some k \<longrightarrow> {b..<b + k} \<inter> {wo_reserve ops cs n..<wo_reserve ops cs n + n} = {}))"

section \<open>The ordered map\<close>

definition sorted_map :: "region_map \<Rightarrow> bool" where
  "sorted_map rs \<longleftrightarrow> sorted_wrt (<) (map fst rs)"

lemma sorted_map_simps [simp]:
  "sorted_map []" "sorted_map (x # rs) \<longleftrightarrow> (\<forall>y \<in> set rs. fst x < fst y) \<and> sorted_map rs"
  by (auto simp: sorted_map_def)

lemma set_region_put: "set (region_put b r rs) \<subseteq> insert (b, r) (set rs)"
  by (induction rs rule: region_put.induct) auto

lemma sorted_region_put: "sorted_map rs \<Longrightarrow> sorted_map (region_put b r rs)"
  by (induction b r rs rule: region_put.induct) (auto dest!: subsetD [OF set_region_put])

lemma map_of_region_put [simp]: "map_of (region_put b r rs) = (map_of rs)(b \<mapsto> r)"
  by (induction b r rs rule: region_put.induct) auto

lemma set_region_del: "set (region_del b rs) \<subseteq> set rs"
  by (induction b rs rule: region_del.induct) auto

lemma sorted_region_del: "sorted_map rs \<Longrightarrow> sorted_map (region_del b rs)"
  by (induction b rs rule: region_del.induct) (auto dest!: subsetD [OF set_region_del])

lemma map_of_above: "sorted_map rs \<Longrightarrow> (\<forall>y \<in> set rs. b < fst y) \<Longrightarrow> map_of rs b = None"
  by (auto simp: map_of_eq_None_iff)

lemma map_of_region_del: "sorted_map rs \<Longrightarrow> map_of (region_del b rs) = (map_of rs)(b := None)"
  by (induction b rs rule: region_del.induct) (auto simp: fun_eq_iff map_of_above)

text \<open>The last base at or below an address is the base of the region that holds it.\<close>

lemma last_at_most_None: "sorted_map rs \<Longrightarrow> (\<forall>y \<in> set rs. p < fst y) \<Longrightarrow> last_at_most p rs = None"
  by (cases rs) auto

lemma last_at_most_finds:
  assumes "sorted_map rs" "map_of rs b = Some r" "b \<le> p" "\<And>c q. map_of rs c = Some q \<Longrightarrow> c \<le> p \<Longrightarrow> c \<le> b"
  shows "last_at_most p rs = Some (b, r)"
  using assms
proof (induction rs)
  case (Cons x rs)
  obtain c q where x: "x = (c, q)" by fastforce
  have tl: "map_of (x # rs) (fst y) = Some z" if "map_of rs (fst y) = Some z" for y z
    using that Cons.prems(1) x map_of_above [of rs c] by auto
  have max: "c' \<le> b" if "map_of rs c' = Some q'" "c' \<le> p" for c' q'
    using Cons.prems(4) [of c' q'] tl [of "(c', q')" q'] that by simp
  show ?case
  proof (cases "b = c")
    case True
    have "p < fst y" if y: "y \<in> set rs" for y
    proof -
      obtain z where "map_of rs (fst y) = Some z" using y by (metis map_of_eq_None_iff not_None_eq image_eqI)
      moreover have "c < fst y" using y Cons.prems(1) x by auto
      ultimately show ?thesis using max [of "fst y" z] True by (meson leD leI)
    qed
    then show ?thesis using last_at_most_None Cons.prems x True by auto
  next
    case False
    then have m: "map_of rs b = Some r" using Cons.prems(2) x by simp
    then have "c < b" using Cons.prems(1) x by (auto dest!: map_of_SomeD)
    moreover have "last_at_most p rs = Some (b, r)" using Cons.IH Cons.prems(1,3) m max by simp
    ultimately show ?thesis using Cons.prems(3) x by simp
  qed
qed simp

section \<open>Registry and address space agree\<close>

abbreviation region_bytes :: "addr \<Rightarrow> win_region \<Rightarrow> addr set" where
  "region_bytes b r \<equiv> {b..<b + wr_size r}"

text \<open>
  \<open>L\<close> are the bytes in use. They are exactly the committed bytes, they lie in tracked regions, the regions
  are disjoint and are exactly the reservations, and each counts its bytes in use, of which it has some.
\<close>

definition win_ok :: "win_state \<Rightarrow> addr set \<Rightarrow> bool" where
  "win_ok s L \<longleftrightarrow> sorted_map (win_regions s)
     \<and> (\<forall>b r. map_of (win_regions s) b = Some r \<longrightarrow> 0 < b \<and> 0 < wr_live r \<and> wr_live r = card (L \<inter> region_bytes b r))
     \<and> (\<forall>b r c q. map_of (win_regions s) b = Some r \<and> map_of (win_regions s) c = Some q \<and> b \<noteq> c \<longrightarrow> region_bytes b r \<inter> region_bytes c q = {})
     \<and> committed (win_log s) = L \<and> reserved (win_log s) = (\<lambda>b. map_option wr_size (map_of (win_regions s) b))
     \<and> (\<forall>x \<in> L. \<exists>b r. map_of (win_regions s) b = Some r \<and> x \<in> region_bytes b r)"

lemma win_okD:
  assumes "win_ok s L"
  shows "sorted_map (win_regions s)" "map_of (win_regions s) b = Some r \<Longrightarrow> 0 < b \<and> 0 < wr_live r \<and> wr_live r = card (L \<inter> region_bytes b r)"
    "map_of (win_regions s) b = Some r \<Longrightarrow> map_of (win_regions s) c = Some q \<Longrightarrow> b \<noteq> c \<Longrightarrow> region_bytes b r \<inter> region_bytes c q = {}"
    "committed (win_log s) = L" "reserved (win_log s) = (\<lambda>b. map_option wr_size (map_of (win_regions s) b))"
    "x \<in> L \<Longrightarrow> \<exists>b r. map_of (win_regions s) b = Some r \<and> x \<in> region_bytes b r"
  using assms unfolding win_ok_def by blast+

lemma find_region:
  assumes ok: "win_ok s L" and r: "map_of (win_regions s) b = Some r" "b \<le> p" "p + n \<le> b + wr_size r" "0 < n"
  shows "FindRegion p n s = Some (b, r)"
proof -
  have "c \<le> b" if c: "map_of (win_regions s) c = Some q" "c \<le> p" for c q
  proof (rule ccontr)
    assume "\<not> c \<le> b"
    moreover from this have "c \<in> region_bytes b r" using c(2) r(3,4) by auto
    moreover have "c \<in> region_bytes c q" using win_okD(2) [OF ok c(1)] by (metis atLeastLessThan_iff card_gt_0_iff add.right_neutral atLeastLessThan_empty inf_bot_right le_refl linorder_not_less nat_add_left_cancel_less)
    ultimately show False using win_okD(3) [OF ok r(1) c(1)] by auto
  qed
  then have "last_at_most p (win_regions s) = Some (b, r)" using last_at_most_finds win_okD(1) [OF ok] r by blast
  then show ?thesis using r(3) by (simp add: FindRegion_def)
qed

lemma win_ok_put:
  assumes ok: "win_ok s L" and r: "map_of (win_regions s) b = Some r" and x: "{p..<p + n} \<subseteq> L \<inter> region_bytes b r" "n < wr_live r"
  shows "win_ok (s\<lparr>win_log := DecommitCall p n # win_log s, win_regions := region_put b (r\<lparr>wr_live := wr_live r - n\<rparr>) (win_regions s)\<rparr>) (L - {p..<p + n})"
    (is "win_ok ?s ?L")
  unfolding win_ok_def
proof (intro conjI allI impI)
  have m: "map_of (win_regions ?s) = (map_of (win_regions s))(b \<mapsto> r\<lparr>wr_live := wr_live r - n\<rparr>)" by simp
  show "sorted_map (win_regions ?s)" using sorted_region_put win_okD(1) [OF ok] by simp
  show "committed (win_log ?s) = ?L" using win_okD(4) [OF ok] by simp
  show "\<forall>x \<in> ?L. \<exists>b r. map_of (win_regions ?s) b = Some r \<and> x \<in> region_bytes b r"
  proof
    fix x assume "x \<in> ?L"
    then obtain c q where "map_of (win_regions s) c = Some q" "x \<in> region_bytes c q" using win_okD(6) [OF ok, of x] by blast
    then show "\<exists>b r. map_of (win_regions ?s) b = Some r \<and> x \<in> region_bytes b r"
      unfolding m using r by (cases "c = b") (fastforce intro: exI [of _ c])+
  qed
  show "reserved (win_log ?s) = (\<lambda>b. map_option wr_size (map_of (win_regions ?s) b))"
    using win_okD(5) [OF ok] r unfolding m by (auto simp: fun_eq_iff)
  fix c q assume c: "map_of (win_regions ?s) c = Some q"
  have "c = b \<and> q = r\<lparr>wr_live := wr_live r - n\<rparr> \<or> c \<noteq> b \<and> map_of (win_regions s) c = Some q" using c unfolding m by (auto split: if_splits)
  then have "0 < c \<and> 0 < wr_live q \<and> wr_live q = card (?L \<inter> region_bytes c q)"
  proof (elim disjE conjE)
    assume q: "c = b" "q = r\<lparr>wr_live := wr_live r - n\<rparr>"
    have "?L \<inter> region_bytes b r = (L \<inter> region_bytes b r) - {p..<p + n}" by blast
    then have "card (?L \<inter> region_bytes b r) = wr_live r - n" using win_okD(2) [OF ok r] x(1) by (simp add: card_Diff_subset)
    then show ?thesis using q win_okD(2) [OF ok r] x(2) by auto
  next
    assume q: "c \<noteq> b" "map_of (win_regions s) c = Some q"
    have "?L \<inter> region_bytes c q = L \<inter> region_bytes c q" using win_okD(3) [OF ok r q(2)] q(1) x(1) by blast
    then show ?thesis using win_okD(2) [OF ok q(2)] by auto
  qed
  then show "0 < c" "0 < wr_live q" "wr_live q = card (?L \<inter> region_bytes c q)" by auto
next
  fix c q d u assume a: "map_of (win_regions ?s) c = Some q \<and> map_of (win_regions ?s) d = Some u \<and> c \<noteq> d"
  have "\<exists>q'. map_of (win_regions s) c = Some q' \<and> wr_size q' = wr_size q" "\<exists>u'. map_of (win_regions s) d = Some u' \<and> wr_size u' = wr_size u"
    using a r by (auto split: if_splits)
  then show "region_bytes c q \<inter> region_bytes d u = {}" using win_okD(3) [OF ok, of c _ d] a by metis
qed

lemma win_ok_release:
  assumes ok: "win_ok s L" and r: "map_of (win_regions s) b = Some r" and x: "{p..<p + n} \<subseteq> region_bytes b r" "L \<inter> region_bytes b r \<subseteq> {p..<p + n}"
    and s1: "sorted_map (win_regions s1)" "map_of (win_regions s1) = (map_of (win_regions s))(b \<mapsto> r')"
      "reserved (win_log s1) = reserved (win_log s)" "committed (win_log s1) \<subseteq> L" "L - {p..<p + n} \<subseteq> committed (win_log s1)"
  shows "win_ok (ReleaseRegion b s1) (L - {p..<p + n})" (is "win_ok ?s ?L")
  unfolding win_ok_def
proof (intro conjI allI impI)
  have m: "map_of (win_regions ?s) = (map_of (win_regions s))(b := None)"
    using map_of_region_del [OF s1(1)] s1(2) by (simp add: ReleaseRegion_def)
  show "\<forall>x \<in> ?L. \<exists>b r. map_of (win_regions ?s) b = Some r \<and> x \<in> region_bytes b r"
  proof
    fix x assume l: "x \<in> ?L"
    then obtain c q where c: "map_of (win_regions s) c = Some q" "x \<in> region_bytes c q" using win_okD(6) [OF ok, of x] by blast
    then have "c \<noteq> b" using l x(2) r by auto
    then show "\<exists>b r. map_of (win_regions ?s) b = Some r \<and> x \<in> region_bytes b r" unfolding m using c by (intro exI [of _ c]) auto
  qed
  have "reserved (win_log s1) b = Some (wr_size r)" using s1(3) win_okD(5) [OF ok] r by simp
  then show "committed (win_log ?s) = ?L" using s1(4,5) x by (auto simp: ReleaseRegion_def)
  show "sorted_map (win_regions ?s)" using sorted_region_del [OF s1(1)] by (simp add: ReleaseRegion_def)
  show "reserved (win_log ?s) = (\<lambda>b. map_option wr_size (map_of (win_regions ?s) b))"
    unfolding m using s1(3) win_okD(5) [OF ok] by (auto simp: ReleaseRegion_def fun_eq_iff)
  fix c q assume "map_of (win_regions ?s) c = Some q"
  then have q: "c \<noteq> b" "map_of (win_regions s) c = Some q" unfolding m by (auto split: if_splits)
  have "?L \<inter> region_bytes c q = L \<inter> region_bytes c q" using win_okD(3) [OF ok r q(2)] q(1) x(1) by blast
  then show "0 < c" "0 < wr_live q" "wr_live q = card (?L \<inter> region_bytes c q)" using win_okD(2) [OF ok q(2)] by auto
next
  fix c q d u assume "map_of (win_regions ?s) c = Some q \<and> map_of (win_regions ?s) d = Some u \<and> c \<noteq> d"
  then show "region_bytes c q \<inter> region_bytes d u = {}"
    using win_okD(3) [OF ok] map_of_region_del [OF s1(1)] s1(2) by (auto simp: ReleaseRegion_def simp del: Int_atLeastLessThan split: if_splits)
qed


section \<open>Operations keep the agreement\<close>

text \<open>A span a client may give back: bytes in use, within one region.\<close>

definition win_span :: "win_state \<Rightarrow> addr set \<Rightarrow> addr \<Rightarrow> nat \<Rightarrow> bool" where
  "win_span s L p n \<longleftrightarrow> 0 < n \<and> {p..<p + n} \<subseteq> L \<and> (\<exists>b r. map_of (win_regions s) b = Some r \<and> b \<le> p \<and> p + n \<le> b + wr_size r)"

lemma win_alloc:
  assumes spec: "win_spec ops" and ok: "win_ok s L" and n: "0 < n"
  shows "AllocatePages_win ops n s = (0, s)
    \<or> (\<exists>p s'. AllocatePages_win ops n s = (p, s') \<and> p \<noteq> 0 \<and> {p..<p + n} \<inter> L = {} \<and> win_ok s' (L \<union> {p..<p + n}) \<and> win_span s' (L \<union> {p..<p + n}) p n)"
proof (cases "wo_reserve ops (win_log s) n = 0")
  case False
  define p where "p = wo_reserve ops (win_log s) n"
  define s' where "s' = Win_Add p n (s\<lparr>win_log := ReserveCall p n # win_log s\<rparr>)"
  let ?X = "{p..<p + n}" and ?r = "\<lparr>wr_size = n, wr_live = n\<rparr>"
  have fresh: "region_bytes b r \<inter> ?X = {}" if "map_of (win_regions s) b = Some r" for b r
    using spec False n win_okD(5) [OF ok] that unfolding win_spec_def p_def by (metis option.simps(9))
  have LX: "L \<inter> ?X = {}" using fresh win_okD(6) [OF ok] by blast
  have old: "map_of (win_regions s) p = None"
  proof (cases "map_of (win_regions s) p")
    case (Some r)
    then have "0 < wr_size r" using win_okD(2) [OF ok Some] by (cases "wr_size r") auto
    then show ?thesis using fresh [OF Some] n by auto
  qed simp
  have m: "map_of (win_regions s') = (map_of (win_regions s))(p \<mapsto> ?r)" by (simp add: s'_def Win_Add_def)
  have "win_ok s' (L \<union> ?X)"
    unfolding win_ok_def
  proof (intro conjI allI impI)
    show "sorted_map (win_regions s')" using sorted_region_put win_okD(1) [OF ok] by (simp add: s'_def Win_Add_def)
    show "\<forall>x \<in> L \<union> ?X. \<exists>b r. map_of (win_regions s') b = Some r \<and> x \<in> region_bytes b r"
    proof
      fix x assume "x \<in> L \<union> ?X"
      then consider "x \<in> ?X" | c q where "map_of (win_regions s) c = Some q" "x \<in> region_bytes c q" using win_okD(6) [OF ok, of x] by blast
      then show "\<exists>b r. map_of (win_regions s') b = Some r \<and> x \<in> region_bytes b r"
      proof cases
        case 1
        then show ?thesis unfolding m by (intro exI [of _ p] exI [of _ ?r]) auto
      next
        case (2 c q)
        then show ?thesis unfolding m using old by (intro exI [of _ c] exI [of _ q]) auto
      qed
    qed
    show "committed (win_log s') = L \<union> ?X" "reserved (win_log s') = (\<lambda>b. map_option wr_size (map_of (win_regions s') b))"
      unfolding m using win_okD(4,5) [OF ok] by (auto simp: s'_def Win_Add_def fun_eq_iff)
    fix c q assume c: "map_of (win_regions s') c = Some q"
    have "0 < c \<and> 0 < wr_live q \<and> wr_live q = card ((L \<union> ?X) \<inter> region_bytes c q)"
    proof (cases "c = p")
      case True
      then have "(L \<union> ?X) \<inter> region_bytes c q = ?X" "wr_live q = n" using c m LX by auto
      then show ?thesis using True False n unfolding p_def by simp
    next
      case ne: False
      then have q: "map_of (win_regions s) c = Some q" using c m by simp
      then have "(L \<union> ?X) \<inter> region_bytes c q = L \<inter> region_bytes c q" using fresh by blast
      then show ?thesis using win_okD(2) [OF ok q] by simp
    qed
    then show "0 < c" "0 < wr_live q" "wr_live q = card ((L \<union> ?X) \<inter> region_bytes c q)" by auto
  next
    fix c q d u assume "map_of (win_regions s') c = Some q \<and> map_of (win_regions s') d = Some u \<and> c \<noteq> d"
    then show "region_bytes c q \<inter> region_bytes d u = {}"
      using win_okD(3) [OF ok, of c q d u] fresh [of c q] fresh [of d u] m by (auto simp del: Int_atLeastLessThan split: if_splits)
  qed
  moreover have "AllocatePages_win ops n s = (p, s')" using False by (simp add: AllocatePages_win_def s'_def p_def Let_def)
  moreover have "win_span s' (L \<union> ?X) p n" unfolding win_span_def using m n by auto
  ultimately show ?thesis using LX False unfolding p_def by blast
qed (simp add: AllocatePages_win_def)

lemma win_free:
  assumes ok: "win_ok s L" and sp: "win_span s L p n"
  shows "win_ok (FreePages_win ops p n s) (L - {p..<p + n}) \<or> (\<not> wo_decommit ops (win_log s) p n \<and> FreePages_win ops p n s = s)"
proof -
  obtain b r where r: "map_of (win_regions s) b = Some r" "b \<le> p" "p + n \<le> b + wr_size r" "0 < n" "{p..<p + n} \<subseteq> L"
    using sp unfolding win_span_def by blast
  note d = win_okD [OF ok]
  have p0: "p \<noteq> 0" using d(2) [OF r(1)] r(2) by auto
  have f: "FindRegion p n s = Some (b, r)" by (rule find_region [OF ok r(1-4)])
  let ?X = "{p..<p + n}" and ?R = "region_bytes b r"
  have X: "?X \<subseteq> ?R" "?X \<subseteq> L \<inter> ?R" using r(2,3,5) by auto
  have le: "n \<le> wr_live r" using d(2) [OF r(1)] card_mono [OF _ X(2)] by simp
  have whole: "L \<inter> ?R \<subseteq> ?X" if "wr_live r = n"
    using card_subset_eq [OF _ X(2)] d(2) [OF r(1)] that by simp
  show ?thesis
  proof (cases "p = b \<and> n = wr_size r \<and> wr_live r = wr_size r")
    case True
    then have "FreePages_win ops p n s = ReleaseRegion b s" using p0 r(4) f by (simp add: FreePages_win_def ReleaseSpan_def)
    moreover have "win_ok (ReleaseRegion b s) (L - ?X)"
      by (rule win_ok_release [OF ok r(1) X(1) whole d(1), of r]) (use True d(4) r(1) in \<open>auto simp: fun_upd_idem\<close>)
    ultimately show ?thesis by simp
  next
    case False
    define s1 where "s1 = s\<lparr>win_log := DecommitCall p n # win_log s, win_regions := region_put b (r\<lparr>wr_live := wr_live r - n\<rparr>) (win_regions s)\<rparr>"
    have run: "FreePages_win ops p n s = (if \<not> wo_decommit ops (win_log s) p n then s else if wr_live r = n then ReleaseRegion b s1 else s1)"
      using False p0 r(4) f le by (auto simp: FreePages_win_def ReleaseSpan_def s1_def Let_def)
    have "win_ok s1 (L - ?X)" if "wr_live r \<noteq> n"
      unfolding s1_def by (rule win_ok_put [OF ok r(1) X(2)]) (use that le in simp)
    moreover have "win_ok (ReleaseRegion b s1) (L - ?X)" if "wr_live r = n"
      by (rule win_ok_release [OF ok r(1) X(1) whole [OF that], of s1 "r\<lparr>wr_live := wr_live r - n\<rparr>"])
        (use d(1,4) sorted_region_put in \<open>auto simp: s1_def\<close>)
    ultimately show ?thesis unfolding run by auto
  qed
qed

lemma win_shrink:
  assumes ok: "win_ok s L" and sp: "win_span s L p n" and keep: "\<And>b r. map_of (win_regions s) b = Some r \<Longrightarrow> b \<le> p \<Longrightarrow> p < b + wr_size r \<Longrightarrow> n < wr_live r"
  shows "win_ok (DecommitPages_win ops p n s) (L - {p..<p + n}) \<or> (\<not> wo_decommit ops (win_log s) p n \<and> DecommitPages_win ops p n s = s)"
proof -
  obtain b r where r: "map_of (win_regions s) b = Some r" "b \<le> p" "p + n \<le> b + wr_size r" "0 < n" "{p..<p + n} \<subseteq> L"
    using sp unfolding win_span_def by blast
  have p0: "p \<noteq> 0" using win_okD(2) [OF ok r(1)] r(2) by auto
  have f: "FindRegion p n s = Some (b, r)" by (rule find_region [OF ok r(1-4)])
  have lt: "n < wr_live r" using keep [OF r(1,2)] r(3,4) by simp
  have X: "{p..<p + n} \<subseteq> L \<inter> region_bytes b r" using r(2,3,5) by auto
  show ?thesis using win_ok_put [OF ok r(1) X lt] p0 r(4) f lt by (simp add: DecommitPages_win_def DecommitRange_def)
qed


section \<open>Histories\<close>

definition win_init :: win_state where
  "win_init = \<lparr>win_regions = [], win_log = []\<rparr>"

text \<open>
  What the client knows: for each byte in use, the base and size of the allocation it came from. It
  may give back any bytes of one allocation (a whole one or a part, as the page cache splits them), and
  decommit a part of one of which other bytes stay in use. A request to free takes the bytes out of use,
  unless \<^verbatim>\<open>VirtualFree\<close> refuses to decommit them; a whole allocation is released and not decommitted.
\<close>

type_synonym win_owner = "addr \<rightharpoonup> addr \<times> nat"

definition from_alloc :: "win_owner \<Rightarrow> addr \<Rightarrow> nat \<Rightarrow> addr \<Rightarrow> nat \<Rightarrow> bool" where
  "from_alloc own p n b k \<longleftrightarrow> 0 < n \<and> (\<forall>x \<in> {p..<p + n}. own x = Some (b, k))"

inductive win_step :: "win_ops \<Rightarrow> win_state \<times> win_owner \<Rightarrow> win_state \<times> win_owner \<Rightarrow> bool" for ops :: win_ops where
  win_reserve: "0 < n \<Longrightarrow> AllocatePages_win ops n s = (p, s') \<Longrightarrow> p \<noteq> 0 \<Longrightarrow>
    win_step ops (s, own) (s', \<lambda>x. if x \<in> {p..<p + n} then Some (p, n) else own x)"
| win_no_memory: "0 < n \<Longrightarrow> AllocatePages_win ops n s = (0, s') \<Longrightarrow> win_step ops (s, own) (s', own)"
| win_give_back: "from_alloc own p n b k \<Longrightarrow> (p = b \<and> n = k) \<or> wo_decommit ops (win_log s) p n \<Longrightarrow>
    win_step ops (s, own) (FreePages_win ops p n s, own |` (- {p..<p + n}))"
| win_give_back_refused: "from_alloc own p n b k \<Longrightarrow> \<not> (p = b \<and> n = k) \<Longrightarrow> \<not> wo_decommit ops (win_log s) p n \<Longrightarrow>
    win_step ops (s, own) (FreePages_win ops p n s, own)"
| win_trim: "from_alloc own p n b k \<Longrightarrow> own x = Some (b, k) \<Longrightarrow> x \<notin> {p..<p + n} \<Longrightarrow> wo_decommit ops (win_log s) p n \<Longrightarrow>
    win_step ops (s, own) (DecommitPages_win ops p n s, own |` (- {p..<p + n}))"
| win_trim_refused: "from_alloc own p n b k \<Longrightarrow> \<not> wo_decommit ops (win_log s) p n \<Longrightarrow> win_step ops (s, own) (DecommitPages_win ops p n s, own)"

definition win_inv :: "win_state \<Rightarrow> win_owner \<Rightarrow> bool" where
  "win_inv s own \<longleftrightarrow> win_ok s (dom own) \<and> (\<forall>x b k. own x = Some (b, k) \<longrightarrow> reserved (win_log s) b = Some k \<and> x \<in> {b..<b + k})"

lemma win_invD:
  assumes "win_inv s own"
  shows "win_ok s (dom own)" "own x = Some (b, k) \<Longrightarrow> reserved (win_log s) b = Some k" "own x = Some (b, k) \<Longrightarrow> x \<in> {b..<b + k}"
    "reserved (win_log s) b = Some k \<longleftrightarrow> (\<exists>r. map_of (win_regions s) b = Some r \<and> wr_size r = k)"
proof -
  show ok: "win_ok s (dom own)" and "own x = Some (b, k) \<Longrightarrow> reserved (win_log s) b = Some k" "own x = Some (b, k) \<Longrightarrow> x \<in> {b..<b + k}"
    using assms unfolding win_inv_def by blast+
  show "reserved (win_log s) b = Some k \<longleftrightarrow> (\<exists>r. map_of (win_regions s) b = Some r \<and> wr_size r = k)" unfolding win_okD(5) [OF ok] by auto
qed

lemma same_region:
  assumes i: "win_inv s own" and x: "x \<in> {b..<b + k}" "x \<in> {c..<c + j}" and r: "reserved (win_log s) b = Some k" "reserved (win_log s) c = Some j"
  shows "b = c \<and> k = j"
proof -
  obtain q u where q: "map_of (win_regions s) b = Some q" "wr_size q = k" "map_of (win_regions s) c = Some u" "wr_size u = j"
    using r unfolding win_invD(4) [OF i] by blast
  have "x \<in> region_bytes b q \<inter> region_bytes c u" using x q(2,4) by blast
  then have "b = c" using win_okD(3) [OF win_invD(1) [OF i] q(1,3)] by blast
  then show ?thesis using q by simp
qed

lemma from_alloc_span:
  assumes i: "win_inv s own" and f: "from_alloc own p n b k"
  obtains r where "map_of (win_regions s) b = Some r" "wr_size r = k" "b \<le> p" "p + n \<le> b + k" "win_span s (dom own) p n"
proof -
  have n: "0 < n" and o: "\<And>x. x \<in> {p..<p + n} \<Longrightarrow> own x = Some (b, k)" using f unfolding from_alloc_def by blast+
  have "p \<in> {p..<p + n}" "p + n - 1 \<in> {p..<p + n}" using n by auto
  then have "p \<in> {b..<b + k}" "p + n - 1 \<in> {b..<b + k}" using win_invD(3) [OF i o] by blast+
  then have bd: "b \<le> p" "p + n \<le> b + k" using n by auto
  have "reserved (win_log s) b = Some k" using n by (intro win_invD(2) [OF i o [of p]]) simp
  then obtain r where r: "map_of (win_regions s) b = Some r" "wr_size r = k" unfolding win_invD(4) [OF i] by blast
  have "{p..<p + n} \<subseteq> dom own" using o by blast
  then have "win_span s (dom own) p n" unfolding win_span_def using n bd r by blast
  then show thesis by (rule that [OF r bd])
qed

text \<open>Giving back only removes reservations, so the client's picture of the rest stays right.\<close>

lemma freed_log:
  "reserved (win_log (FreePages_win ops p n s)) b = Some k \<Longrightarrow> reserved (win_log s) b = Some k"
  "reserved (win_log (DecommitPages_win ops p n s)) b = Some k \<Longrightarrow> reserved (win_log s) b = Some k"
  by (auto simp: FreePages_win_def ReleaseSpan_def ReleaseRegion_def DecommitPages_win_def DecommitRange_def Let_def split: if_splits option.splits)

lemma win_inv_freed:
  assumes i: "win_inv s own" and ok: "win_ok s' (dom own - X)" and sub: "\<And>b k. reserved (win_log s') b = Some k \<Longrightarrow> reserved (win_log s) b = Some k"
  shows "win_inv s' (own |` (- X))"
proof -
  have "dom (own |` (- X)) = dom own - X" by auto
  moreover have "reserved (win_log s') b = Some k \<and> x \<in> {b..<b + k}" if x: "(own |` (- X)) x = Some (b, k)" for x b k
  proof -
    have o: "own x = Some (b, k)" "x \<in> dom own - X" using x by (auto simp: restrict_map_def split: if_splits)
    obtain c q where c: "map_of (win_regions s') c = Some q" "x \<in> {c..<c + wr_size q}" using win_okD(6) [OF ok o(2)] by blast
    then have r: "reserved (win_log s') c = Some (wr_size q)" unfolding win_okD(5) [OF ok] by simp
    from same_region [OF i win_invD(3) [OF i o(1)] c(2) win_invD(2) [OF i o(1)] sub [OF r]] show ?thesis using r c(2) by simp
  qed
  ultimately show ?thesis using ok unfolding win_inv_def by simp
qed

lemma win_inv_reserve:
  assumes spec: "win_spec ops" and i: "win_inv s own" and n: "0 < n" and p: "AllocatePages_win ops n s = (p, s')" "p \<noteq> 0"
  shows "win_inv s' (\<lambda>x. if x \<in> {p..<p + n} then Some (p, n) else own x)" (is "win_inv s' ?own")
proof -
  let ?X = "{p..<p + n}"
  have ok: "win_ok s' (dom own \<union> ?X)" using win_alloc [OF spec win_invD(1) [OF i] n] p by auto
  have w: "wo_reserve ops (win_log s) n = p" "win_log s' = ReserveCall p n # win_log s"
    using p by (auto simp: AllocatePages_win_def Let_def Win_Add_def split: if_splits)
  have fresh: "{b..<b + k} \<inter> ?X = {}" if "reserved (win_log s) b = Some k" for b k
    using spec n p(2) that unfolding win_spec_def w(1) [symmetric] by blast
  have dm: "dom ?own = dom own \<union> ?X" by auto
  have "reserved (win_log s') b = Some k \<and> x \<in> {b..<b + k}" if x: "?own x = Some (b, k)" for x b k
  proof (cases "x \<in> ?X")
    case True
    then show ?thesis using x by (simp add: w(2))
  next
    case False
    then have o: "own x = Some (b, k)" using x by (simp only: if_False)
    have "b \<in> {b..<b + k}" using win_invD(3) [OF i o] by simp
    moreover have "p \<in> ?X" using n by simp
    ultimately have "b \<noteq> p" using fresh [OF win_invD(2) [OF i o]] by (metis disjoint_iff)
    then have "reserved (win_log s') b = Some k" using win_invD(2) [OF i o] by (simp add: w(2))
    then show ?thesis using win_invD(3) [OF i o] by blast
  qed
  then show ?thesis unfolding win_inv_def dm using ok by blast
qed

lemma win_freed_whole:
  assumes i: "win_inv s own" and f: "from_alloc own p n b k"
  shows "p = b \<and> n = k \<Longrightarrow> FreePages_win ops p n s = ReleaseRegion b s"
    "\<not> (p = b \<and> n = k) \<Longrightarrow> \<not> wo_decommit ops (win_log s) p n \<Longrightarrow> FreePages_win ops p n s = s"
    "\<not> wo_decommit ops (win_log s) p n \<Longrightarrow> DecommitPages_win ops p n s = s"
proof -
  obtain r where r: "map_of (win_regions s) b = Some r" "wr_size r = k" "b \<le> p" "p + n \<le> b + k" "win_span s (dom own) p n"
    by (rule from_alloc_span [OF i f])
  note d = win_okD(2) [OF win_invD(1) [OF i] r(1)]
  have n: "0 < n" "p \<noteq> 0" "{p..<p + n} \<subseteq> dom own" using r(3,5) d by (auto simp: win_span_def)
  have fr: "FindRegion p n s = Some (b, r)" using find_region [OF win_invD(1) [OF i] r(1,3)] r(2,4) n(1) by simp
  show "\<not> (p = b \<and> n = k) \<Longrightarrow> \<not> wo_decommit ops (win_log s) p n \<Longrightarrow> FreePages_win ops p n s = s"
    "\<not> wo_decommit ops (win_log s) p n \<Longrightarrow> DecommitPages_win ops p n s = s"
    using n(1,2) fr r(2) by (auto simp: FreePages_win_def ReleaseSpan_def DecommitPages_win_def DecommitRange_def)
  assume w: "p = b \<and> n = k"
  then have "dom own \<inter> region_bytes b r = region_bytes b r" using n(3) r(2) by auto
  then have "wr_live r = wr_size r" using d by simp
  then show "FreePages_win ops p n s = ReleaseRegion b s" using w n fr r(2) by (simp add: FreePages_win_def ReleaseSpan_def)
qed

lemma win_inv_step:
  assumes "win_spec ops" "win_step ops x y" "win_inv (fst x) (snd x)"
  shows "win_inv (fst y) (snd y)"
  using assms(2)
proof cases
  case (win_reserve n s p s' own)
  then show ?thesis using win_inv_reserve [OF assms(1), of s own n p s'] assms(3) by simp
next
  case (win_no_memory n s s' own)
  then have "s' = s" by (auto simp: AllocatePages_win_def Let_def split: if_splits)
  then show ?thesis using win_no_memory assms(3) by simp
next
  case (win_give_back own p n b k s)
  have i: "win_inv s own" using assms(3) win_give_back(1) by simp
  obtain r where sp: "win_span s (dom own) p n" by (rule from_alloc_span [OF i win_give_back(3)])
  have "win_ok (FreePages_win ops p n s) (dom own - {p..<p + n})"
  proof (rule ccontr)
    assume no: "\<not> ?thesis"
    then have id: "\<not> wo_decommit ops (win_log s) p n" "FreePages_win ops p n s = s" using win_free [OF win_invD(1) [OF i] sp] by blast+
    then have "s = ReleaseRegion b s" using win_freed_whole(1) [OF i win_give_back(3)] win_give_back(4) by simp
    then have "win_log s = ReleaseCall b # win_log s" by (metis ReleaseRegion_def win_state.select_convs(2) win_state.surjective win_state.update_convs(1,2))
    then show False by (metis not_Cons_self2)
  qed
  then show ?thesis using win_inv_freed [OF i _ freed_log(1)] win_give_back(2) by simp
next
  case (win_give_back_refused own p n b k s)
  then show ?thesis using win_freed_whole(2) [of s own p n b k ops] assms(3) by simp
next
  case (win_trim own p n b k x s)
  have i: "win_inv s own" using assms(3) win_trim(1) by simp
  obtain r where r: "map_of (win_regions s) b = Some r" "wr_size r = k" "b \<le> p" "p + n \<le> b + k" and sp: "win_span s (dom own) p n"
    by (rule from_alloc_span [OF i win_trim(3)])
  have "n < wr_live q" if q: "map_of (win_regions s) c = Some q" "c \<le> p" "p < c + wr_size q" for c q
  proof -
    have "reserved (win_log s) c = Some (wr_size q)" "reserved (win_log s) b = Some k" unfolding win_invD(4) [OF i] using q(1) r(1,2) by blast+
    moreover have "p \<in> {b..<b + k}" "p \<in> {c..<c + wr_size q}" using r(3,4) sp q(2,3) by (auto simp: win_span_def)
    ultimately have cb: "c = b" using same_region [OF i, of p b k c "wr_size q"] by blast
    then have "q = r" using q(1) r(1) by simp
    moreover have "insert x {p..<p + n} \<subseteq> dom own \<inter> region_bytes b r" using win_trim(4) win_invD(3) [OF i win_trim(4)] sp r(2-4) by (auto simp: win_span_def)
    then have "card (insert x {p..<p + n}) \<le> card (dom own \<inter> region_bytes b r)" by (rule card_mono [rotated]) simp
    then have "card (insert x {p..<p + n}) \<le> wr_live r" using win_okD(2) [OF win_invD(1) [OF i] r(1)] by simp
    ultimately show ?thesis using win_trim(5) by simp
  qed
  then have "win_ok (DecommitPages_win ops p n s) (dom own - {p..<p + n})" using win_shrink [OF win_invD(1) [OF i] sp, of ops] win_trim(6) by blast
  then show ?thesis using win_inv_freed [OF i _ freed_log(2)] win_trim(2) by simp
next
  case (win_trim_refused own p n b k s)
  then show ?thesis using win_freed_whole(3) [of s own p n b k ops] assms(3) by simp
qed

text \<open>
  C37: over every history of allocations, releases of allocations or parts of them and in-place shrinks
  on Windows, the committed bytes are exactly the bytes in use. The registry lists exactly the
  reservations of the address space, with their sizes, and each of them is an allocation of which some
  byte is in use: none is released early, none is kept after its last byte, none is forgotten. The count
  each region keeps is the number of its bytes in use.
\<close>

theorem win_reservations_exact:
  assumes "win_spec ops" "(win_step ops)\<^sup>*\<^sup>* (win_init, Map.empty) (s, own)"
  shows "committed (win_log s) = dom own
    \<and> (\<forall>b k. (reserved (win_log s) b = Some k) = (\<exists>r. map_of (win_regions s) b = Some r \<and> wr_size r = k))
    \<and> (\<forall>b k. (reserved (win_log s) b = Some k) = (\<exists>x. own x = Some (b, k)))
    \<and> (\<forall>x b k. own x = Some (b, k) \<longrightarrow> x \<in> {b..<b + k})
    \<and> (\<forall>b r. map_of (win_regions s) b = Some r \<longrightarrow> wr_live r = card {x. own x = Some (b, wr_size r)})"
proof -
  have "win_inv (fst (s, own)) (snd (s, own))"
    using assms(2)
  proof (induction rule: rtranclp_induct)
    case base
    show ?case by (auto simp: win_inv_def win_ok_def win_init_def)
  next
    case (step y z)
    then show ?case using win_inv_step [OF assms(1)] by blast
  qed
  then have i: "win_inv s own" by simp
  note d = win_okD [OF win_invD(1) [OF i]] and w = win_invD [OF i]
  have bytes: "{x. own x = Some (b, wr_size r)} = dom own \<inter> region_bytes b r" if r: "map_of (win_regions s) b = Some r" for b r
  proof -
    have rb: "reserved (win_log s) b = Some (wr_size r)" using r unfolding w(4) by blast
    have "own x = Some (b, wr_size r)" if x: "x \<in> dom own" "x \<in> region_bytes b r" for x
    proof -
      obtain c k where o: "own x = Some (c, k)" using x(1) by (auto simp: dom_def)
      from same_region [OF i w(3) [OF o] x(2) w(2) [OF o] rb] show ?thesis using o by simp
    qed
    then show ?thesis using w(3) by blast
  qed
  have "\<exists>x. own x = Some (b, wr_size r)" if r: "map_of (win_regions s) b = Some r" for b r
  proof -
    have "dom own \<inter> region_bytes b r \<noteq> {}" using d(2) [OF r] by (metis card.empty less_nat_zero_code)
    then show ?thesis using bytes [OF r] by blast
  qed
  then have "reserved (win_log s) b = Some k \<longleftrightarrow> (\<exists>x. own x = Some (b, k))" for b k using w(2) unfolding w(4) by blast
  moreover have "wr_live r = card {x. own x = Some (b, wr_size r)}" if "map_of (win_regions s) b = Some r" for b r
    using d(2) [OF that] bytes [OF that] by simp
  ultimately show ?thesis using d(4) w(3,4) by blast
qed

text \<open>A system that reserves one range after the other and never refuses.\<close>

fun log_bytes :: "win_call list \<Rightarrow> nat" where
  "log_bytes [] = 0"
| "log_bytes (ReserveCall b n # cs) = log_bytes cs + n"
| "log_bytes (_ # cs) = log_bytes cs"

fun bump_log :: "win_call list \<Rightarrow> bool" where
  "bump_log [] = True"
| "bump_log (ReserveCall b n # cs) = (b = 65536 + log_bytes cs \<and> bump_log cs)"
| "bump_log (_ # cs) = bump_log cs"

definition demo_win :: win_ops where
  "demo_win = \<lparr>wo_reserve = (\<lambda>cs n. if bump_log cs then 65536 + log_bytes cs else 0), wo_decommit = (\<lambda>_ _ _. True)\<rparr>"

lemma bump_log_bound: "bump_log cs \<Longrightarrow> reserved cs b = Some k \<Longrightarrow> b + k \<le> 65536 + log_bytes cs"
  by (induction cs rule: bump_log.induct) (fastforce split: if_splits)+

lemma demo_win_spec: "win_spec demo_win"
  unfolding win_spec_def using bump_log_bound by (fastforce simp: demo_win_def split: if_splits)

theorem win_reservations_exact_witness:
  "\<exists>s own. (win_step demo_win)\<^sup>*\<^sup>* (win_init, Map.empty) (s, own) \<and> dom own = {65536 + 4096..<65536 + 12288} \<and> committed (win_log s) = dom own
     \<and> reserved (win_log s) 65536 = Some 12288 \<and> map_of (win_regions s) 65536 = Some \<lparr>wr_size = 12288, wr_live = 8192\<rparr>"
proof -
  define s1 where "s1 = snd (AllocatePages_win demo_win 12288 win_init)"
  have a: "AllocatePages_win demo_win 12288 win_init = (65536, s1)" "s1 = \<lparr>win_regions = [(65536, \<lparr>wr_size = 12288, wr_live = 12288\<rparr>)], win_log = [ReserveCall 65536 12288]\<rparr>"
    by (simp_all add: s1_def AllocatePages_win_def demo_win_def win_init_def Win_Add_def)
  define o1 :: win_owner where "o1 = (\<lambda>x. if x \<in> {65536..<65536 + 12288} then Some (65536, 12288) else None)"
  define s2 where "s2 = FreePages_win demo_win 65536 4096 s1"
  have b: "s2 = \<lparr>win_regions = [(65536, \<lparr>wr_size = 12288, wr_live = 8192\<rparr>)], win_log = [DecommitCall 65536 4096, ReserveCall 65536 12288]\<rparr>"
    by (simp add: s2_def a(2) FreePages_win_def ReleaseSpan_def FindRegion_def demo_win_def)
  have 1: "win_step demo_win (win_init, Map.empty) (s1, o1)"
    unfolding o1_def by (rule win_reserve [OF _ a(1)]) simp_all
  have f: "from_alloc o1 65536 4096 65536 12288" unfolding from_alloc_def o1_def by auto
  have "wo_decommit demo_win (win_log s1) 65536 4096" by (simp add: demo_win_def)
  then have 2: "win_step demo_win (s1, o1) (s2, o1 |` (- {65536..<65536 + 4096}))" unfolding s2_def using win_give_back [OF f] by blast
  have st: "(win_step demo_win)\<^sup>*\<^sup>* (win_init, Map.empty) (s2, o1 |` (- {65536..<65536 + 4096}))" by (rule rtranclp.rtrancl_into_rtrancl [OF r_into_rtranclp [where r = "win_step demo_win", OF 1] 2])
  have "dom (o1 |` (- {65536..<65536 + 4096})) = {65536 + 4096..<65536 + 12288}" by (auto simp: o1_def dom_def restrict_map_def)
  moreover have "reserved (win_log s2) 65536 = Some 12288" "map_of (win_regions s2) 65536 = Some \<lparr>wr_size = 12288, wr_live = 8192\<rparr>" by (simp_all add: b)
  ultimately show ?thesis using st win_reservations_exact [OF demo_win_spec st, THEN conjunct1] by blast
qed


end
