(* ===== verification/FA_TLSDebug.thy ===== *)
theory FA_TLSDebug
  imports FA_TLSProps FA_DebugHooks
begin

text \<open>
  The debug audit of a thread cache (\<^verbatim>\<open>TLSCache::AuditBin\<close> in \<^verbatim>\<open>src/tls_cache.cpp\<close>): before a bin is flushed, a
  debug build walks its list and compares the length with the count of the bin.
\<close>

partial_function (option) audit_walk :: "mem \<Rightarrow> addr \<Rightarrow> nat \<Rightarrow> nat option" where
  "audit_walk m p n = (if p = 0 then Some n else audit_walk m (fb_next m p) (n + 1))"

definition AuditBin :: "addr \<Rightarrow> nat \<Rightarrow> 'a tls_state_scheme \<Rightarrow> violation_info option option" where
  "AuditBin k class_index s =
     (let bin = get_bin k class_index s
      in case audit_walk (mem s) (bin_head bin) 0 of
           None \<Rightarrow> None
         | Some n \<Rightarrow> Some (if n \<noteq> bin_count bin
             then Some (FatalDebug RegistryInconsistency 0 class_index ''TLSCache bin count does not match list length'') else None))"

lemma audit_walk_chain: "chain (fb_next m) p xs \<Longrightarrow> audit_walk m p n = Some (n + length xs)"
  by (induction xs arbitrary: p n) (auto simp: audit_walk.simps)

text \<open>The audit of a bin whose list is in order ends, and reports exactly when the count is wrong.\<close>

lemma AuditBin_exact:
  assumes "chain (fb_next (mem s)) (bin_head (get_bin k c s)) xs"
  shows "AuditBin k c s = Some None \<longleftrightarrow> bin_count (get_bin k c s) = length xs" "\<exists>v. AuditBin k c s = Some v"
  using audit_walk_chain [OF assms, of 0] by (auto simp: AuditBin_def Let_def)

text \<open>In a valid state of the thread caches no audit reports anything.\<close>

lemma AuditBin_quiet:
  assumes "tls_ok api s g" "k \<in> gK g" "c < NUM_SIZE_CLASSES"
  shows "AuditBin k c s = Some None"
proof -
  have "bin_ok s g k c" using assms by (intro bins_okD tls_openD) auto
  then show ?thesis using AuditBin_exact(1) [of s k c "gB g k c"] by (simp add: bin_ok_def held_list_def)
qed

end
