(* ===== verification/Spec2Isabelle.thy ===== *)
theory Spec2Isabelle
  imports FA_FuzzProps FA_HeapRuns FA_DebugSlab FA_WinRegions FA_TLSDebug
begin

text \<open>
  \<^bold>\<open>Verification of the FastAlloc memory allocator.\<close>

  FastAlloc is a thread-caching replacement for \<^verbatim>\<open>malloc\<close>. A request goes down through five layers, and a
  freed block comes back up through the same ones:

  \<^item> the public functions (\<^verbatim>\<open>src/fast_alloc.cpp\<close>): sizes, headers, over-alignment, reallocation;
  \<^item> the cache of the calling thread (\<^verbatim>\<open>src/tls_cache.h\<close>, \<^verbatim>\<open>src/tls_cache.cpp\<close>): bins of free blocks per size
    class, bins of large spans, batched statistics, creation and recycling of the cache itself;
  \<^item> the global heap (\<^verbatim>\<open>src/global_heap.h\<close>, \<^verbatim>\<open>src/global_heap.cpp\<close>): 16 arenas of slab lists with one lock per
    class, the lock-free queues of blocks returned while a lock is taken, batched refills;
  \<^item> slabs (\<^verbatim>\<open>src/slab.h\<close>, \<^verbatim>\<open>src/slab.cpp\<close>) and the cache of free page spans (top of \<^verbatim>\<open>global_heap.cpp\<close>);
  \<^item> the operating system (\<^verbatim>\<open>src/os_memory.cpp\<close>): the chunk pool over \<^verbatim>\<open>mmap\<close> on Linux, a reservation registry
    over \<^verbatim>\<open>VirtualAlloc\<close> on Windows.

  Debug builds add a registry of live allocations, canaries, red zones and poison (\<^verbatim>\<open>src/debug_aid.h\<close>,
  \<^verbatim>\<open>src/debug_aid.cpp\<close>, hooks in \<^verbatim>\<open>fast_alloc.cpp\<close>, \<^verbatim>\<open>slab.cpp\<close>, \<^verbatim>\<open>tls_cache.cpp\<close>), and \<^verbatim>\<open>fuzz/\<close> holds a harness that
  drives the public functions and checks invariants of its own.

  \<^bold>\<open>State and calls.\<close> Memory is a map of 8-byte cells, so that headers, links and user data overlay each
  other as they do in the process. The state is one record that each layer extends: \<open>os_state\<close> (memory, log
  of system calls, chunks), \<open>ph_state\<close> (page bins, hints, statistics), \<open>gh_state\<close> (slab lists, pending queues),
  \<open>tls_state\<close> (caches, their pool, the thread's pointers), \<open>api_state\<close> (\<^verbatim>\<open>errno\<close>). An operation is a function on
  this state with the name of the C++ function; it returns \<open>None\<close> where the C++ call does not return. A
  \<^verbatim>\<open>size_t\<close> is a natural number with its wrap-around written out (\<open>add64\<close>, \<open>sub64\<close>, \<open>mul64\<close>), masks are words.
  The kernel, the pthread key functions and the Windows calls are parameters (\<open>os_api\<close>, \<open>rt_api\<close>, \<open>win_ops\<close>);
  what is relied on is the predicate \<open>os_spec\<close> (mappings are fresh, aligned and in the user range, a remapped
  range keeps its contents, a call changes nothing outside its range) and its Windows counterpart.

  \<^bold>\<open>Theories, in the order of the layers.\<close>

  \<^item> \<open>FA_Prelude\<close>, \<open>FA_Lists\<close>: machine arithmetic, memory and bytes; intrusive lists, with the locale
    \<open>link_field\<close> for a struct that embeds a link (interpreted for free blocks, page nodes and large entries).
  \<^item> \<open>FA_Config\<close>: \<^verbatim>\<open>fast_alloc_config.h\<close>. The locale \<open>size_classes\<close> (every size fits its class, which is the least
    one it fits) is interpreted for blocks, for requests and for the large classes.
  \<^item> \<open>FA_Slab\<close>: \<open>Slab_Create\<close>, \<open>Slab_Allocate\<close>, \<open>Slab_Deallocate\<close>; the locale \<open>block_pool\<close> is the contract of a pool
    of equal blocks, which slabs implement.
  \<^item> \<open>FA_Stats\<close>: the counters of \<^verbatim>\<open>stats\<close> and their balance.
  \<^item> \<open>FA_OSMemory\<close>: the chunk pool and the page functions; the locale \<open>page_source\<close> (a supplier of fresh address
    ranges) is interpreted for \<open>AllocatePages\<close> and, in \<open>FA_PageHeap\<close>, for \<open>PageHeapAllocate\<close>.
  \<^item> \<open>FA_PageHeap\<close>: the span cache with best fit, splitting, retention limits, the hint bits (\<open>FirstNonEmptyAbove\<close>
    equals the search for the least non-empty bin) and the purge.
  \<^item> \<open>FA_GlobalHeap\<close> (operations), \<open>FA_SlabLists\<close>, \<open>FA_HeapInv\<close> (invariant \<open>gh_ok\<close> for a view \<open>V\<close> of the lists),
    \<open>FA_HeapOps\<close>, \<open>FA_Refill\<close>, \<open>FA_GiveBack\<close>, \<open>FA_Spans\<close> (every operation returns, keeps the invariant and moves
    exactly the blocks and spans it should), \<open>FA_Accounting\<close>, \<open>FA_HeapProps\<close>, \<open>FA_HeapRuns\<close> (sequences of calls of
    the heap's entry points by clients that keep books of what they hold).
  \<^item> \<open>FA_TLSCache\<close> (operations), \<open>FA_TLSInv\<close> (invariant \<open>tls_ok\<close> for a ghost state that lists what the caches hold),
    \<open>FA_TLSOps\<close>, \<open>FA_TLSLife\<close>, \<open>FA_TLSProps\<close>.
  \<^item> \<open>FA_Api\<close> (operations), \<open>FA_ApiOps\<close>, \<open>FA_ApiProps\<close>, \<open>FA_Remap\<close> (a successful \<^verbatim>\<open>mremap\<close> seen through all layers),
    \<open>FA_Realloc\<close>, \<open>FA_Process\<close> (sequences of calls by any threads).
  \<^item> \<open>FA_Registry\<close>, \<open>FA_DebugChecks\<close>, \<open>FA_DebugHooks\<close>, \<open>FA_DebugProps\<close>, \<open>FA_DebugSlab\<close>, \<open>FA_TLSDebug\<close>: debug builds.
  \<^item> \<open>FA_WinRegions\<close>: the Windows reservation registry and page functions.
  \<^item> \<open>FA_Fuzz\<close>, \<open>FA_FuzzProps\<close>: the harness, and the theorem that it never reports.

  \<^bold>\<open>Specifications and what is shown.\<close> The locale \<open>accounting\<close> says what an allocator owes its clients: held
  units have disjoint cells, a step gives up some units, receives others, and leaves the cells and contents of
  all others alone; its lemmas carry this over whole histories. It is interpreted three times, for the books of
  the heap's clients, for the pieces the user holds, and for the ledger of pointers and sizes a program
  keeps; the steps of the first and the last are calls of the modelled functions. From the last one: over every sequence of calls the live allocations of a program are disjoint and
  keep their bytes until they are freed, reallocated or written, and every proper call returns. Below it, each
  public function is specified on all its branches (a null result leaves everything as it was; an allocation is
  fresh, aligned and large enough; \<^verbatim>\<open>calloc\<close> refuses products that overflow; a resized block keeps the common
  prefix, whether it stays, is copied or is remapped). What is given back is not only taken off the accounts: the
  theorems say where it is in the state afterwards (\<open>block_filed\<close>, \<open>span_filed\<close>, \<open>span_cached\<close>: the head of which bin,
  with which count) or by which system call it left (\<open>span_released\<close>), and a refill fails exactly when the heap is
  dry (\<open>refill_dry\<close>). The registry of debug builds refines a finite map
  (locale \<open>live_map\<close>), the batched statistics refine direct counting, the debug hooks accept exactly intact blocks, and
  the Windows registry lists exactly the reservations of the address space, each as long as a byte of it is in use
  by the client (\<open>win_owner\<close>, which follows the client's requests and not the registry). Three theorems show where
  the code falls short of its intent: a large block can be grown past the address space without being refused, a
  registry shard that cannot grow fills up and hangs, and the reported size of the page cache drifts.

  \<^bold>\<open>Loops.\<close> Loops bounded by a counter or a list are structural recursion. Walks along links in memory, probe
  loops and the self-call of \<open>fast_free\<close> on over-aligned blocks are \<open>partial_function (option)\<close>; that they
  return is proved for every valid state, and the theorem on a full registry shard shows one that does not.
  There is no fuel.

  \<^bold>\<open>Concurrency.\<close> An operation is one step of the calling thread. Class locks and the pool lock held by other
  threads while it runs are inputs of the state (\<open>lock_busy\<close>, \<open>pool_lock_busy\<close>): the operations that only try a
  lock are proved for every such input, those that block are proved to return when the lock is free. The
  compare-exchange of the lock-free queues is attempted once, and the bins of the page cache and the shards of
  the registry are used by one thread at a time.

  \<^bold>\<open>Not modelled.\<close> Messages to stderr, the violation handler and the crash reporter (formatted output only);
  the fiber-local-storage variant of the thread key and the Windows variants of the large \<^verbatim>\<open>realloc\<close> paths (the
  same steps over other system calls); the fault handler of the Windows emulation (it runs inside a signal);
  weak-memory effects of the relaxed counters and interleavings inside an operation; the debug-build versions
  of the public functions as a whole (their hooks are modelled one by one); the time budget and the random
  generator of the standalone fuzzer (its programs are an argument); benchmarks and tests.
\<close>

end
